(* ===== verification/Prelude.thy ===== *)
theory Prelude
  imports Main "HOL-Library.Word"
begin

text \<open>
  Shared vocabulary of the development: the C integer types as words, byte-addressed
  memory with little-endian 64-bit loads and stores, the first-match search over a fixed
  table of slots that most kernel tables use, and the arithmetic facts on words (alignment
  masks, additions that do not wrap) that the components need.

  The collection \<open>mem_simps\<close> holds the rules that read memory after a write,
  \<open>slot_simps\<close> the rules about first-match search.
\<close>

unbundle bit_operations_syntax

section \<open>Types\<close>

type_synonym u8 = "8 word"
type_synonym u16 = "16 word"
type_synonym u32 = "32 word"
type_synonym u64 = "64 word"

text \<open>A run of bytes, and memory as the kernel sees it through its page tables.\<close>

type_synonym bytes = "u8 list"
type_synonym memory = "u64 \<Rightarrow> u8"

named_theorems mem_simps
named_theorems slot_simps

text \<open>The bytes of an ASCII literal of the source.\<close>

definition ascii :: "string \<Rightarrow> bytes" where
  "ascii s = map of_char s"

text \<open>A C string is the run of bytes in front of its terminating NUL.\<close>

definition cstr :: "bytes \<Rightarrow> bool" where
  "cstr s \<longleftrightarrow> 0 \<notin> set s"

text \<open>A character appended to a text buffer of \<open>cap\<close> bytes, which keeps room for the NUL.\<close>

definition put_char :: "nat \<Rightarrow> u8 \<Rightarrow> bytes \<Rightarrow> bytes" where
  "put_char cap c out = (if length out + 1 < cap then out @ [c] else out)"

section \<open>Words\<close>

lemma unat_add_no_wrap:
  fixes x y :: "'a::len word"
  shows "unat x + unat y < 2 ^ LENGTH('a) \<Longrightarrow> unat (x + y) = unat x + unat y"
  by (simp add: unat_word_ariths)

lemma unat_u64_less: "unat x < 2 ^ 64" for x :: u64
  using unsigned_less [where 'a = nat and w = x] by simp

lemma unat_u32_less: "unat x < 2 ^ 32" for x :: u32
  using unsigned_less [where 'a = nat and w = x] by simp

lemma unat_of_nat_u32: "n < 2 ^ 32 \<Longrightarrow> unat (of_nat n :: u32) = n"
  by (simp add: unsigned_of_nat take_bit_nat_eq_self)

lemma unat_of_nat_u64: "n < 2 ^ 64 \<Longrightarrow> unat (of_nat n :: u64) = n"
  by (simp add: unsigned_of_nat take_bit_nat_eq_self)

lemma unat_u32_u64: "unat (ucast x :: u64) = unat x" for x :: u32
  using unat_u32_less [of x] by (simp add: unsigned_ucast_eq take_bit_nat_eq_self)

lemma unat_diff_le:
  fixes x y :: "'a::len word"
  shows "y \<le> x \<Longrightarrow> unat (x - y) = unat x - unat y"
  by (simp add: unat_sub)

lemma word_and_not_mask:
  fixes x :: "'a::len word"
  shows "x AND NOT (mask n) = push_bit n (drop_bit n x)"
  by (rule bit_word_eqI) (auto simp: bit_simps)

lemma unat_and_not_mask:
  fixes x :: "'a::len word"
  shows "unat (x AND NOT (mask n)) = unat x - unat x mod 2 ^ n"
proof -
  have "unat (x AND NOT (mask n)) = take_bit LENGTH('a) (push_bit n (unat (drop_bit n x)))"
    by (simp only: word_and_not_mask unsigned_push_bit_eq)
  also have "push_bit n (unat (drop_bit n x)) = unat x - unat x mod 2 ^ n"
    by (simp only: unat_drop_bit_eq push_bit_eq_mult) (simp add: drop_bit_eq_div minus_mod_eq_mult_div mult.commute)
  also have "take_bit LENGTH('a) (unat x - unat x mod 2 ^ n) = unat x - unat x mod 2 ^ n"
    by (rule take_bit_nat_eq_self) (rule less_imp_diff_less, rule unsigned_less)
  finally show ?thesis .
qed

lemma unat_and_mask:
  fixes x :: "'a::len word"
  shows "unat (x AND mask n) = unat x mod 2 ^ n"
  by (simp only: take_bit_eq_mask [symmetric] unsigned_take_bit_eq) (simp only: take_bit_eq_mod)

lemma aligned_and_not_mask:
  fixes x :: "'a::len word"
  shows "unat x mod 2 ^ n = 0 \<Longrightarrow> x AND NOT (mask n) = x"
  by (simp only: word_unat_eq_iff unat_and_not_mask)

text \<open>Adding a multiple of the alignment keeps it, also across a wrap.\<close>

lemma aligned16_add:
  fixes x y :: u64
  assumes "x AND 0xF = 0" "unat y mod 16 = 0"
  shows "(x + y) AND NOT 0xF = x + y"
proof -
  have m: "(0xF :: u64) = mask 4" by (simp add: mask_eq_exp_minus_1)
  have "unat x mod 16 = 0"
    using unat_and_mask [of x 4] assms(1) unfolding m [symmetric] by simp
  with assms(2) have "(unat x + unat y) mod 16 = 0"
    by (simp add: mod_add_eq [symmetric])
  moreover have "unat (x + y) mod 16 = (unat x + unat y) mod 16"
    by (simp add: unat_word_ariths mod_mod_cancel)
  ultimately have "unat (x + y) mod 2 ^ 4 = 0" by simp
  from aligned_and_not_mask [OF this] show ?thesis by (simp only: m)
qed

lemma page_mask_eq: "(0xFFF :: u64) = mask 12"
  by (simp add: mask_eq_exp_minus_1)

lemma unat_page_down: "unat (x AND NOT 0xFFF) = unat x - unat x mod 4096" for x :: u64
  using unat_and_not_mask [of x 12] by (simp add: page_mask_eq [symmetric])

lemma not_page_mask: "NOT (0xFFF :: u64) = - 4096"
  by simp

lemma unat_page_up:
  fixes x :: u64
  assumes "unat x + 4095 < 2 ^ 64"
  shows "unat ((x + 0xFFF) AND NOT 0xFFF) = (unat x + 4095) div 4096 * 4096"
proof -
  have "unat (x + 0xFFF) = unat x + 4095"
    using assms by (subst unat_add_no_wrap) simp_all
  then show ?thesis
    by (simp only: unat_page_down minus_mod_eq_mult_div mult.commute)
qed

text \<open>The distance of two different page-aligned addresses is at least a page.\<close>

definition page_aligned :: "u64 \<Rightarrow> bool" where
  "page_aligned p \<longleftrightarrow> p AND 0xFFF = 0"

lemma page_aligned_unat: "page_aligned p \<longleftrightarrow> unat p mod 4096 = 0"
proof -
  have "p AND 0xFFF = take_bit 12 p"
    by (simp only: page_mask_eq take_bit_eq_mask)
  then have "unat (p AND 0xFFF) = unat p mod 4096"
    by (simp only: unsigned_take_bit_eq) (simp add: take_bit_eq_mod)
  then show ?thesis
    by (metis page_aligned_def unat_0 unat_eq_zero)
qed

lemma page_aligned_diff:
  assumes "page_aligned p" "page_aligned q" "p \<noteq> q"
  shows "4096 \<le> unat (p - q)"
proof -
  obtain a b where p: "unat p = 4096 * a" and q: "unat q = 4096 * b"
    using assms(1,2) by (metis page_aligned_unat mod_0_imp_dvd dvdE)
  have "a \<noteq> b"
    using assms(3) p q by (auto simp: word_unat_eq_iff)
  have "4096 * b < 2 ^ 64"
    using unat_u64_less [of q] q by simp
  show ?thesis
  proof (cases "b \<le> a")
    case True
    with p q \<open>a \<noteq> b\<close> show ?thesis
      by (simp add: unat_sub_if_size)
  next
    case False
    with p q \<open>4096 * b < 2 ^ 64\<close> show ?thesis
      by (simp add: unat_sub_if_size word_size)
  qed
qed

lemma page_bytes_apart:
  assumes "page_aligned p" "page_aligned q" "p \<noteq> q" "unat i < 4096" "unat j < 4096"
  shows "p + i \<noteq> q + j"
proof
  assume "p + i = q + j"
  then have d: "p - q = j - i" "q - p = i - j" by (simp_all add: algebra_simps)
  have "unat (j - i) < 4096 \<or> unat (i - j) < 4096"
  proof (cases "i \<le> j")
    case True
    then have "unat (j - i) = unat j - unat i" by (simp add: unat_diff_le)
    then show ?thesis using assms(5) by linarith
  next
    case False
    then have "unat (i - j) = unat i - unat j" by (simp add: unat_diff_le)
    then show ?thesis using assms(4) by linarith
  qed
  then show False using page_aligned_diff [OF assms(1-3)] page_aligned_diff [OF assms(2,1)] assms(3) d by auto
qed

section \<open>Memory\<close>

definition load64 :: "memory \<Rightarrow> u64 \<Rightarrow> u64" where
  "load64 m a = ucast (m a) OR push_bit 8 (ucast (m (a + 1))) OR push_bit 16 (ucast (m (a + 2)))
     OR push_bit 24 (ucast (m (a + 3))) OR push_bit 32 (ucast (m (a + 4)))
     OR push_bit 40 (ucast (m (a + 5))) OR push_bit 48 (ucast (m (a + 6)))
     OR push_bit 56 (ucast (m (a + 7)))"

definition store64 :: "memory \<Rightarrow> u64 \<Rightarrow> u64 \<Rightarrow> memory" where
  "store64 m a v = m(a := ucast v, a + 1 := ucast (drop_bit 8 v), a + 2 := ucast (drop_bit 16 v),
     a + 3 := ucast (drop_bit 24 v), a + 4 := ucast (drop_bit 32 v),
     a + 5 := ucast (drop_bit 40 v), a + 6 := ucast (drop_bit 48 v),
     a + 7 := ucast (drop_bit 56 v))"

text \<open>\<open>n\<close> bytes from \<open>a\<close> on set to zero, as the kernel's byte loops do.\<close>

definition memzero :: "memory \<Rightarrow> u64 \<Rightarrow> nat \<Rightarrow> memory" where
  "memzero m a n = (\<lambda>x. if unat (x - a) < n then 0 else m x)"

lemma ucast_ucast_u8: "ucast (ucast x :: u8) = take_bit 8 x" for x :: "'a::len word"
  by (rule bit_word_eqI) (auto simp: bit_simps)

lemma take_bit_or_byte:
  fixes x :: "'a::len word"
  shows "take_bit n x OR push_bit n (take_bit 8 (drop_bit n x)) = take_bit (n + 8) x"
  by (rule bit_word_eqI) (auto simp: bit_simps)

lemma u64_of_bytes:
  fixes v :: u64
  shows "ucast (ucast v :: u8) OR push_bit 8 (ucast (ucast (drop_bit 8 v) :: u8))
    OR push_bit 16 (ucast (ucast (drop_bit 16 v) :: u8))
    OR push_bit 24 (ucast (ucast (drop_bit 24 v) :: u8))
    OR push_bit 32 (ucast (ucast (drop_bit 32 v) :: u8))
    OR push_bit 40 (ucast (ucast (drop_bit 40 v) :: u8))
    OR push_bit 48 (ucast (ucast (drop_bit 48 v) :: u8))
    OR push_bit 56 (ucast (ucast (drop_bit 56 v) :: u8)) = v"
  using take_bit_or_byte [of 8 v] take_bit_or_byte [of 16 v] take_bit_or_byte [of 24 v]
    take_bit_or_byte [of 32 v] take_bit_or_byte [of 40 v] take_bit_or_byte [of 48 v]
    take_bit_or_byte [of 56 v]
  by (simp add: ucast_ucast_u8 take_bit_word_eq_self flip: or.assoc)

lemma load64_store64 [simp, mem_simps]: "load64 (store64 m a v) a = v"
  by (simp add: load64_def store64_def u64_of_bytes)

text \<open>The eight bytes of one word are apart from the eight bytes of another.\<close>

definition apart :: "u64 \<Rightarrow> u64 \<Rightarrow> bool" where
  "apart a b \<longleftrightarrow> 8 \<le> unat (a - b) \<and> 8 \<le> unat (b - a)"

lemma apart_sym: "apart a b \<Longrightarrow> apart b a"
  by (simp add: apart_def)

lemma apart_offsets:
  assumes "apart a b" "i \<in> {0, 1, 2, 3, 4, 5, 6, 7}" "j \<in> {0, 1, 2, 3, 4, 5, 6, 7}"
  shows "b + j \<noteq> a + i"
proof
  assume "b + j = a + i"
  then have "a - b = j - i" "b - a = i - j"
    by (simp_all add: algebra_simps)
  with assms show False
    by (auto simp: apart_def)
qed

lemma load64_cong:
  assumes "\<And>i. i \<in> {0, 1, 2, 3, 4, 5, 6, 7} \<Longrightarrow> m' (a + i) = m (a + i)"
  shows "load64 m' a = load64 m a"
  using assms [of 0] assms [of 1] assms [of 2] assms [of 3] assms [of 4] assms [of 5]
    assms [of 6] assms [of 7]
  by (simp add: load64_def)

lemma load64_store64_apart [mem_simps]:
  assumes "apart a b"
  shows "load64 (store64 m a v) b = load64 m b"
proof (rule load64_cong)
  fix i :: u64
  assume i: "i \<in> {0, 1, 2, 3, 4, 5, 6, 7}"
  have "b + i \<noteq> a + j" if "j \<in> {0, 1, 2, 3, 4, 5, 6, 7}" for j
    using apart_offsets [OF assms that i] .
  from this [of 0] this [of 1] this [of 2] this [of 3] this [of 4] this [of 5]
    this [of 6] this [of 7]
  show "store64 m a v (b + i) = m (b + i)"
    by (simp add: store64_def)
qed

lemma apart_pages:
  assumes "page_aligned p" "page_aligned q" "p \<noteq> q"
  shows "apart (p + h) (q + h)"
  using page_aligned_diff [OF assms] page_aligned_diff [of q p] assms
  by (simp add: apart_def)

section \<open>Copies into a buffer\<close>

text \<open>The bytes of \<open>src\<close> copied into the buffer \<open>b\<close> from position \<open>o'\<close> on, as \<open>memcpy\<close> loops do.\<close>

definition splice :: "bytes \<Rightarrow> nat \<Rightarrow> bytes \<Rightarrow> bytes" where
  "splice b o' src = take o' b @ src @ drop (o' + length src) b"

lemma splice_Nil [simp]: "splice b o' [] = b"
  by (simp add: splice_def)

lemma length_splice [simp]: "o' + length src \<le> length b \<Longrightarrow> length (splice b o' src) = length b"
  by (simp add: splice_def)

lemma nth_splice:
  assumes "o' + length src \<le> length b" "j < length b"
  shows "splice b o' src ! j = (if o' \<le> j \<and> j < o' + length src then src ! (j - o') else b ! j)"
  using assms by (auto simp: splice_def nth_append)

section \<open>First-match search\<close>

text \<open>
  The loop \<open>for (i = 0; i < N; i++) if (P(tab[i])) return i;\<close> over a fixed table: the
  index of the first slot that satisfies \<open>P\<close>.
\<close>

fun first_idx :: "('a \<Rightarrow> bool) \<Rightarrow> 'a list \<Rightarrow> nat option" where
  "first_idx P [] = None"
| "first_idx P (x # xs) = (if P x then Some 0 else map_option Suc (first_idx P xs))"

lemma first_idx_None [slot_simps]: "first_idx P xs = None \<longleftrightarrow> (\<forall>x \<in> set xs. \<not> P x)"
  by (induction xs) auto

lemma first_idx_Some:
  "first_idx P xs = Some i \<longleftrightarrow> i < length xs \<and> P (xs ! i) \<and> (\<forall>j < i. \<not> P (xs ! j))"
proof (induction xs arbitrary: i)
  case Nil
  then show ?case by simp
next
  case (Cons x xs)
  show ?case
  proof (cases i)
    case 0
    then show ?thesis by auto
  next
    case (Suc k)
    with Cons.IH [of k] show ?thesis by (auto simp: less_Suc_eq_0_disj)
  qed
qed

lemma first_idx_SomeD:
  assumes "first_idx P xs = Some i"
  shows "i < length xs" "P (xs ! i)" "\<And>j. j < i \<Longrightarrow> \<not> P (xs ! j)"
  using assms by (auto simp: first_idx_Some)

lemma first_idx_cong:
  assumes "length xs = length ys" "\<And>j. j < length xs \<Longrightarrow> P (xs ! j) \<longleftrightarrow> Q (ys ! j)"
  shows "first_idx P xs = first_idx Q ys"
  using assms
proof (induction xs ys rule: list_induct2)
  case Nil
  then show ?case by simp
next
  case (Cons x xs y ys)
  have "P x \<longleftrightarrow> Q y"
    using Cons.prems [of 0] by simp
  moreover have "first_idx P xs = first_idx Q ys"
  proof (rule Cons.IH)
    show "P (xs ! j) \<longleftrightarrow> Q (ys ! j)" if "j < length xs" for j
      using Cons.prems [of "Suc j"] that by simp
  qed
  ultimately show ?case by simp
qed

text \<open>Writing a slot that satisfies \<open>P\<close> in front of which no other does makes it the first match.\<close>

lemma first_idx_update:
  assumes "i < length xs" "P v" "\<And>j. j < i \<Longrightarrow> \<not> P (xs ! j)"
  shows "first_idx P (xs[i := v]) = Some i"
  using assms by (simp add: first_idx_Some)

lemma first_idx_unique:
  assumes "i < length xs" "P (xs ! i)" "\<And>j. j < length xs \<Longrightarrow> P (xs ! j) \<Longrightarrow> j = i"
  shows "first_idx P xs = Some i"
  proof -
  have "\<not> P (xs ! j)" if "j < i" for j
    using assms(1) assms(3) [of j] that by auto
  with assms(1,2) show ?thesis by (simp add: first_idx_Some)
qed

end
