(* ===== verification/Alloc_Interface.thy ===== *)
theory Alloc_Interface
  imports Prelude
begin

text \<open>
  The interface of an allocator: an allocation takes one available item and fails, with the result
  0, only when there is none; an item given back is available again. The page allocator, the block
  bitmap and the inode bitmap of the file system provide it.
\<close>

fun grab :: "('s \<Rightarrow> 'a \<times> 's) \<Rightarrow> nat \<Rightarrow> 's \<Rightarrow> 'a list \<times> 's" where
  "grab alloc 0 s = ([], s)"
| "grab alloc (Suc n) s = (let (p, s1) = alloc s; (ps, s2) = grab alloc n s1 in (p # ps, s2))"

locale allocator =
  fixes alloc :: "'s \<Rightarrow> 'a::zero \<times> 's"
    and free :: "'a \<Rightarrow> 's \<Rightarrow> 's"
    and ok :: "'s \<Rightarrow> bool"
    and avail :: "'s \<Rightarrow> 'a set"
    and owned :: "'s \<Rightarrow> 'a \<Rightarrow> bool"
  assumes alloc_ok: "ok s \<Longrightarrow> alloc s = (p, s') \<Longrightarrow> ok s'"
    and alloc_takes: "ok s \<Longrightarrow> alloc s = (p, s') \<Longrightarrow> p \<noteq> 0 \<Longrightarrow>
      p \<in> avail s \<and> avail s' = avail s - {p} \<and> owned s' p"
    and alloc_empty: "ok s \<Longrightarrow> alloc s = (0, s') \<Longrightarrow> s' = s \<and> avail s = {}"
    and free_gives: "ok s \<Longrightarrow> owned s p \<Longrightarrow> p \<notin> avail s \<Longrightarrow>
      ok (free p s) \<and> avail (free p s) = insert p (avail s)"
    and zero_not_avail: "ok s \<Longrightarrow> 0 \<notin> avail s"
begin

lemma alloc_succeeds_iff: "ok s \<Longrightarrow> fst (alloc s) \<noteq> 0 \<longleftrightarrow> avail s \<noteq> {}"
  using alloc_takes [of s] alloc_empty [of s] by (cases "alloc s") (metis empty_iff fst_conv)

lemma alloc_free_restores:
  assumes "ok s" "alloc s = (p, s')" "p \<noteq> 0"
  shows "ok (free p s') \<and> avail (free p s') = avail s"
  using alloc_takes [OF assms] alloc_ok [OF assms(1,2)] free_gives [of s' p] by auto

lemma grab_distinct:
  assumes "ok s" "grab alloc n s = (ps, s')" "0 \<notin> set ps"
  shows "ok s' \<and> distinct ps \<and> length ps = n \<and> set ps \<subseteq> avail s \<and> avail s' = avail s - set ps"
  using assms
proof (induction n arbitrary: s ps)
  case 0
  then show ?case by simp
next
  case (Suc n)
  obtain p s1 where a: "alloc s = (p, s1)" by force
  obtain qs where g: "grab alloc n s1 = (qs, s')" and ps: "ps = p # qs"
    using Suc.prems(2) a by (auto split: prod.splits)
  have "p \<noteq> 0" using Suc.prems(3) ps by auto
  note t = alloc_takes [OF Suc.prems(1) a this]
  have "ok s' \<and> distinct qs \<and> length qs = n \<and> set qs \<subseteq> avail s1 \<and> avail s' = avail s1 - set qs"
    by (rule Suc.IH [OF alloc_ok [OF Suc.prems(1) a] g]) (use Suc.prems(3) ps in auto)
  with t ps show ?case by auto
qed

end

end
