(* ===== verification/Pmm.thy ===== *)
theory Pmm
  imports Alloc_Interface
begin

text \<open>
  The physical page allocator, \<open>kernel/src/pmm.c\<close>. Its static variables are the fields of
  the record \<open>pmm\<close>, together with the memory the allocator writes its free list into: a
  free page holds the physical address of the next one in its first eight bytes, reached
  through the higher-half direct map.

  Shown here: \<open>pmm_init\<close> sets up a well-formed allocator; every operation keeps the
  free list a chain of distinct pages below the bump cursor; a page is never handed out
  while it is in use, and the free-page counter is exact.
\<close>

section \<open>State\<close>

record pmm =
  g_hhdm :: u64
  g_cursor :: u64
  g_end :: u64
  g_free_list :: u64
  g_dma32_cursor :: u64
  g_dma32_end :: u64
  g_pmm_total_pages :: u64
  g_pmm_free_pages :: u64
  pmm_mem :: memory

definition PAGE_SIZE :: u64 where
  "PAGE_SIZE = 4096"

definition MIN_PHYS :: u64 where
  "MIN_PHYS = 16 * 1024 * 1024"

definition DMA32_LIMIT :: u64 where
  "DMA32_LIMIT = 0x100000000"

text \<open>The boot loader's memory map: a pointer that may be null in every entry.\<close>

record memmap_entry =
  me_base :: u64
  me_length :: u64
  me_type :: u64

definition LIMINE_MEMMAP_USABLE :: u64 where
  "LIMINE_MEMMAP_USABLE = 0"

section \<open>Operations\<close>

definition align_up :: "u64 \<Rightarrow> u64 \<Rightarrow> u64" where
  "align_up x a = (x + (a - 1)) AND NOT (a - 1)"

text \<open>One turn of the region loop: the candidate \<open>(start, len)\<close> an entry gives, if any.\<close>

definition main_candidate :: "memmap_entry \<Rightarrow> (u64 \<times> u64) option" where
  "main_candidate e =
     (if me_type e \<noteq> LIMINE_MEMMAP_USABLE then None
      else let base = me_base e; end' = me_base e + me_length e in
        if end' \<le> MIN_PHYS then None
        else let start = align_up (if base < MIN_PHYS then MIN_PHYS else base) PAGE_SIZE in
          if start + PAGE_SIZE > end' then None
          else Some (start, end' - start))"

definition dma32_candidate :: "memmap_entry \<Rightarrow> (u64 \<times> u64) option" where
  "dma32_candidate e =
     (if me_type e \<noteq> LIMINE_MEMMAP_USABLE then None
      else if me_base e \<ge> DMA32_LIMIT then None
      else let base = me_base e; end0 = me_base e + me_length e;
               end' = (if end0 > DMA32_LIMIT then DMA32_LIMIT else end0) in
        if end' \<le> MIN_PHYS then None
        else let start = align_up (if base < MIN_PHYS then MIN_PHYS else base) PAGE_SIZE in
          if start + PAGE_SIZE > end' then None
          else Some (start, end' - start))"

text \<open>The scan keeps the first longest candidate; a null entry is skipped.\<close>

fun scan_regions :: "(memmap_entry \<Rightarrow> (u64 \<times> u64) option) \<Rightarrow> memmap_entry option list \<Rightarrow> u64 \<Rightarrow> u64 \<Rightarrow> u64 \<times> u64" where
  "scan_regions cand [] best_start best_len = (best_start, best_len)"
| "scan_regions cand (None # es) best_start best_len = scan_regions cand es best_start best_len"
| "scan_regions cand (Some e # es) best_start best_len =
     (case cand e of
        None \<Rightarrow> scan_regions cand es best_start best_len
      | Some (start, len) \<Rightarrow>
          if len > best_len then scan_regions cand es start len
          else scan_regions cand es best_start best_len)"

definition pmm_init :: "memmap_entry option list option \<Rightarrow> u64 \<Rightarrow> pmm \<Rightarrow> pmm" where
  "pmm_init mm hhdm_offset s =
     (let s = s\<lparr>g_hhdm := hhdm_offset, g_cursor := 0, g_end := 0, g_free_list := 0\<rparr> in
      case mm of
        None \<Rightarrow> s
      | Some es \<Rightarrow>
          let (best_start, best_len) = scan_regions main_candidate es 0 0 in
          if best_len = 0 then s
          else
            let s = s\<lparr>g_cursor := best_start, g_end := best_start + best_len\<rparr>;
                (dma_start, dma_len) = scan_regions dma32_candidate es 0 0;
                s = (if dma_len \<noteq> 0
                     then s\<lparr>g_dma32_cursor := dma_start, g_dma32_end := dma_start + dma_len\<rparr>
                     else s)
            in s\<lparr>g_pmm_total_pages := best_len div PAGE_SIZE,
                 g_pmm_free_pages := best_len div PAGE_SIZE\<rparr>)"

definition pmm_phys_to_virt :: "pmm \<Rightarrow> u64 \<Rightarrow> u64" where
  "pmm_phys_to_virt s phys = (if phys = 0 then 0 else phys + g_hhdm s)"

definition pmm_virt_to_phys :: "pmm \<Rightarrow> u64 \<Rightarrow> u64" where
  "pmm_virt_to_phys s virt = (if virt = 0 then 0 else virt - g_hhdm s)"

text \<open>\<open>if (g_pmm_free_pages) g_pmm_free_pages--;\<close>\<close>

definition dec_free_pages :: "pmm \<Rightarrow> pmm" where
  "dec_free_pages s = (if g_pmm_free_pages s \<noteq> 0
                       then s\<lparr>g_pmm_free_pages := g_pmm_free_pages s - 1\<rparr> else s)"

text \<open>The result 0 is the failure value of the C function.\<close>

definition pmm_alloc_page :: "pmm \<Rightarrow> u64 \<times> pmm" where
  "pmm_alloc_page s =
     (if g_free_list s \<noteq> 0 then
        let p = g_free_list s in
        (p, dec_free_pages (s\<lparr>g_free_list := load64 (pmm_mem s) (pmm_phys_to_virt s p)\<rparr>))
      else if g_cursor s = 0 then (0, s)
      else if g_cursor s + PAGE_SIZE > g_end s then (0, s)
      else
        let p = g_cursor s in
        (p, dec_free_pages (s\<lparr>g_cursor := g_cursor s + PAGE_SIZE\<rparr>)))"

definition pmm_free_page :: "u64 \<Rightarrow> pmm \<Rightarrow> pmm" where
  "pmm_free_page phys0 s =
     (if phys0 = 0 then s
      else if g_hhdm s = 0 then s
      else let phys = phys0 AND NOT (PAGE_SIZE - 1) in
        if phys < MIN_PHYS then s
        else if g_cursor s = 0 then s
        else if phys \<ge> g_cursor s then s
        else s\<lparr>pmm_mem := store64 (pmm_mem s) (pmm_phys_to_virt s phys) (g_free_list s),
               g_free_list := phys,
               g_pmm_free_pages := g_pmm_free_pages s + 1\<rparr>)"

definition pmm_alloc_pages :: "u64 \<Rightarrow> pmm \<Rightarrow> u64 \<times> pmm" where
  "pmm_alloc_pages count s =
     (if count = 0 then (0, s)
      else if g_cursor s = 0 then (0, s)
      else let nbytes = count * PAGE_SIZE in
        if g_cursor s + nbytes > g_end s then (0, s)
        else
          let p = g_cursor s;
              s = s\<lparr>g_cursor := g_cursor s + nbytes\<rparr>;
              s = (if g_pmm_free_pages s \<ge> count
                   then s\<lparr>g_pmm_free_pages := g_pmm_free_pages s - count\<rparr>
                   else s\<lparr>g_pmm_free_pages := 0\<rparr>)
          in (p, s))"

definition pmm_get_total_pages :: "pmm \<Rightarrow> u64" where
  "pmm_get_total_pages s = g_pmm_total_pages s"

definition pmm_get_free_pages :: "pmm \<Rightarrow> u64" where
  "pmm_get_free_pages s = g_pmm_free_pages s"

definition pmm_get_used_pages :: "pmm \<Rightarrow> u64" where
  "pmm_get_used_pages s =
     (if g_pmm_total_pages s \<ge> g_pmm_free_pages s
      then g_pmm_total_pages s - g_pmm_free_pages s else 0)"

definition pmm_alloc_dma32_page :: "pmm \<Rightarrow> u64 \<times> pmm" where
  "pmm_alloc_dma32_page s =
     (if g_end s \<le> DMA32_LIMIT then pmm_alloc_page s
      else if g_dma32_cursor s = 0 then (0, s)
      else if g_dma32_cursor s + PAGE_SIZE > g_dma32_end s then (0, s)
      else (g_dma32_cursor s, s\<lparr>g_dma32_cursor := g_dma32_cursor s + PAGE_SIZE\<rparr>))"

section \<open>The allocator's invariant\<close>

lemmas pmm_consts = PAGE_SIZE_def MIN_PHYS_def DMA32_LIMIT_def

text \<open>The pages of the free list, in the order the links of the memory give.\<close>

fun fl_chain :: "memory \<Rightarrow> u64 \<Rightarrow> u64 \<Rightarrow> u64 list \<Rightarrow> bool" where
  "fl_chain m h p [] \<longleftrightarrow> p = 0"
| "fl_chain m h p (x # xs) \<longleftrightarrow> p = x \<and> x \<noteq> 0 \<and> fl_chain m h (load64 m (x + h)) xs"

lemma fl_chain_unique: "fl_chain m h p xs \<Longrightarrow> fl_chain m h p ys \<Longrightarrow> xs = ys"
proof (induction xs arbitrary: p ys)
  case Nil
  then show ?case by (cases ys) auto
next
  case (Cons x xs)
  then show ?case by (cases ys) auto
qed

lemma fl_chain_cong:
  assumes "\<And>x. x \<in> set xs \<Longrightarrow> load64 m' (x + h) = load64 m (x + h)"
  shows "fl_chain m' h p xs \<longleftrightarrow> fl_chain m h p xs"
  using assms by (induction xs arbitrary: p) auto

text \<open>A page that was handed out by the bump cursor at some point.\<close>

definition managed :: "pmm \<Rightarrow> u64 \<Rightarrow> bool" where
  "managed s p \<longleftrightarrow> page_aligned p \<and> MIN_PHYS \<le> p \<and> p < g_cursor s"

text \<open>
  Physical addresses of an x86-64 machine have at most 52 bits, so no address computation
  of the allocator wraps.
\<close>

definition region_ok :: "pmm \<Rightarrow> bool" where
  "region_ok s \<longleftrightarrow> g_hhdm s \<noteq> 0 \<and> page_aligned (g_cursor s) \<and> MIN_PHYS \<le> g_cursor s
     \<and> g_cursor s \<le> g_end s \<and> unat (g_end s) \<le> 2 ^ 52"

definition pmm_inv :: "pmm \<Rightarrow> u64 list \<Rightarrow> bool" where
  "pmm_inv s fl \<longleftrightarrow> region_ok s \<and> fl_chain (pmm_mem s) (g_hhdm s) (g_free_list s) fl
     \<and> distinct fl \<and> (\<forall>p \<in> set fl. managed s p)
     \<and> unat (g_pmm_free_pages s) = length fl + (unat (g_end s) - unat (g_cursor s)) div 4096"

text \<open>The pages an allocation may return: the free list and the region past the cursor.\<close>

definition bump_pages :: "pmm \<Rightarrow> u64 set" where
  "bump_pages s = {p. page_aligned p \<and> g_cursor s \<le> p \<and> unat p + 4096 \<le> unat (g_end s)}"

definition avail_pages :: "pmm \<Rightarrow> u64 set" where
  "avail_pages s = {p. \<exists>fl. fl_chain (pmm_mem s) (g_hhdm s) (g_free_list s) fl \<and> p \<in> set fl} \<union> bump_pages s"

lemma avail_pages_inv: "pmm_inv s fl \<Longrightarrow> avail_pages s = set fl \<union> bump_pages s"
  unfolding avail_pages_def pmm_inv_def using fl_chain_unique by blast

lemma managed_nonzero: "managed s p \<Longrightarrow> p \<noteq> 0"
  by (auto simp: managed_def MIN_PHYS_def)

lemma cursor_step:
  assumes "region_ok s" "g_cursor s + PAGE_SIZE \<le> g_end s"
  shows "unat (g_cursor s + PAGE_SIZE) = unat (g_cursor s) + 4096"
    and "page_aligned (g_cursor s + PAGE_SIZE)"
proof -
  have c: "unat (g_cursor s) \<le> 2 ^ 52"
    using assms by (auto simp: region_ok_def word_le_nat_alt)
  then show a: "unat (g_cursor s + PAGE_SIZE) = unat (g_cursor s) + 4096"
    by (simp add: PAGE_SIZE_def unat_add_no_wrap)
  show "page_aligned (g_cursor s + PAGE_SIZE)"
    using assms(1) by (simp add: page_aligned_unat a region_ok_def)
qed

lemma cursor_stop:
  assumes "region_ok s" "g_cursor s + PAGE_SIZE > g_end s"
  shows "unat (g_end s) < unat (g_cursor s) + 4096"
proof -
  have "unat (g_cursor s) \<le> 2 ^ 52"
    using assms by (auto simp: region_ok_def word_le_nat_alt)
  then have "unat (g_cursor s + PAGE_SIZE) = unat (g_cursor s) + 4096"
    by (simp add: PAGE_SIZE_def unat_add_no_wrap)
  with assms(2) show ?thesis by (simp add: word_less_nat_alt)
qed

lemma region_okD:
  assumes "region_ok s"
  shows "g_hhdm s \<noteq> 0" "g_cursor s \<noteq> 0" "page_aligned (g_cursor s)" "MIN_PHYS \<le> g_cursor s"
    "unat (g_cursor s) \<le> unat (g_end s)" "unat (g_end s) \<le> 2 ^ 52"
  using assms by (auto simp: region_ok_def word_le_nat_alt MIN_PHYS_def)

text \<open>There are far fewer free pages than a 64-bit counter can hold.\<close>

lemma free_list_short:
  assumes "pmm_inv s fl"
  shows "length fl \<le> 2 ^ 52"
proof -
  have "length fl = card (unat ` set fl)"
    using assms by (simp add: pmm_inv_def distinct_card card_image inj_on_def word_unat_eq_iff)
  also have "unat ` set fl \<subseteq> {..< unat (g_cursor s)}"
    using assms by (auto simp: pmm_inv_def managed_def word_less_nat_alt)
  then have "card (unat ` set fl) \<le> card {..< unat (g_cursor s)}"
    by (rule card_mono [rotated]) simp
  also have "\<dots> \<le> 2 ^ 52"
    using assms region_okD [of s] by (simp add: pmm_inv_def)
  finally show ?thesis .
qed

section \<open>Every operation keeps the invariant\<close>

lemma dec_free_pages_unat:
  "unat (g_pmm_free_pages (dec_free_pages s)) = unat (g_pmm_free_pages s) - 1"
  by (simp add: dec_free_pages_def unat_minus_one)

lemma dec_free_pages_frame [simp]:
  "g_hhdm (dec_free_pages s) = g_hhdm s" "g_cursor (dec_free_pages s) = g_cursor s"
  "g_end (dec_free_pages s) = g_end s" "g_free_list (dec_free_pages s) = g_free_list s"
  "pmm_mem (dec_free_pages s) = pmm_mem s"
  "g_dma32_cursor (dec_free_pages s) = g_dma32_cursor s"
  "g_dma32_end (dec_free_pages s) = g_dma32_end s"
  "g_pmm_total_pages (dec_free_pages s) = g_pmm_total_pages s"
  by (simp_all add: dec_free_pages_def)

lemma managed_dec [simp]: "managed (dec_free_pages s) = managed s"
  by (simp add: managed_def fun_eq_iff)

lemma region_ok_dec [simp]: "region_ok (dec_free_pages s) = region_ok s"
  by (simp add: region_ok_def)

text \<open>The three ways \<open>pmm_alloc_page\<close> can go, with the free list each leaves.\<close>

lemma pmm_alloc_page_cases:
  assumes inv: "pmm_inv s fl"
  obtains
    (list) p fl' where "fl = p # fl'" "pmm_alloc_page s =
        (p, dec_free_pages (s\<lparr>g_free_list := load64 (pmm_mem s) (p + g_hhdm s)\<rparr>))"
  | (bump) "fl = []" "g_cursor s + PAGE_SIZE \<le> g_end s" "pmm_alloc_page s =
        (g_cursor s, dec_free_pages (s\<lparr>g_cursor := g_cursor s + PAGE_SIZE\<rparr>))"
  | (none) "fl = []" "g_end s < g_cursor s + PAGE_SIZE" "pmm_alloc_page s = (0, s)"
proof (cases fl)
  case (Cons p fl')
  with inv show thesis
    by (intro list [of p fl']) (auto simp: pmm_inv_def pmm_alloc_page_def pmm_phys_to_virt_def Let_def)
next
  case Nil
  with inv have "g_free_list s = 0" "g_cursor s \<noteq> 0"
    using region_okD(2) by (auto simp: pmm_inv_def)
  with Nil show thesis
    by (cases "g_end s < g_cursor s + PAGE_SIZE") (auto simp: pmm_alloc_page_def Let_def intro: bump none)
qed

lemma pmm_alloc_page_inv:
  assumes inv: "pmm_inv s fl" and a: "pmm_alloc_page s = (p, s')"
  shows "pmm_inv s' (tl fl)"
  using inv
proof (cases rule: pmm_alloc_page_cases)
  case (list q fl')
  with inv a show ?thesis
    by (auto simp: pmm_inv_def dec_free_pages_unat managed_def region_ok_def)
next
  case bump
  from inv have r: "region_ok s" by (simp add: pmm_inv_def)
  note c = cursor_step [OF r bump(2)]
  have room: "unat (g_cursor s) + 4096 \<le> unat (g_end s)"
    using bump(2) c(1) by (simp add: word_le_nat_alt)
  with inv bump(1) have f: "unat (g_pmm_free_pages s) - 1
      = (unat (g_end s) - unat (g_cursor s) - 4096) div 4096"
    by (simp add: pmm_inv_def le_div_geq)
  have "MIN_PHYS \<le> g_cursor s + PAGE_SIZE"
    using region_okD(4) [OF r] c(1) by (simp add: word_le_nat_alt)
  with inv a bump c f room show ?thesis
    by (auto simp: pmm_inv_def dec_free_pages_unat region_ok_def)
next
  case none
  with inv a show ?thesis by simp
qed

lemma bump_pages_step:
  assumes r: "region_ok s" and le: "g_cursor s + PAGE_SIZE \<le> g_end s"
  shows "bump_pages s = insert (g_cursor s) (bump_pages (s\<lparr>g_cursor := g_cursor s + PAGE_SIZE\<rparr>))"
    and "g_cursor s \<notin> bump_pages (s\<lparr>g_cursor := g_cursor s + PAGE_SIZE\<rparr>)"
proof -
  note c = cursor_step [OF r le]
  have up: "unat (g_cursor s) + 4096 \<le> unat p"
    if "page_aligned p" "g_cursor s \<le> p" "p \<noteq> g_cursor s" for p
    using page_aligned_diff [OF that(1) region_okD(3) [OF r] that(3)] that(2)
    by (simp add: unat_diff_le word_le_nat_alt)
  show "bump_pages s = insert (g_cursor s) (bump_pages (s\<lparr>g_cursor := g_cursor s + PAGE_SIZE\<rparr>))"
    using c le region_okD(3) [OF r] up by (auto simp: bump_pages_def word_le_nat_alt)
  show "g_cursor s \<notin> bump_pages (s\<lparr>g_cursor := g_cursor s + PAGE_SIZE\<rparr>)"
    using c by (simp add: bump_pages_def word_le_nat_alt)
qed

lemma bump_pages_frame [simp]:
  "bump_pages (dec_free_pages s) = bump_pages s"
  "bump_pages (s\<lparr>g_free_list := p\<rparr>) = bump_pages s"
  by (simp_all add: bump_pages_def)

lemma bump_not_listed: "pmm_inv s fl \<Longrightarrow> set fl \<inter> bump_pages s = {}"
  by (auto simp: pmm_inv_def managed_def bump_pages_def)

text \<open>An allocation takes one available page, and fails only when none is left.\<close>

lemma pmm_alloc_page_avail:
  assumes inv: "pmm_inv s fl" and a: "pmm_alloc_page s = (p, s')" and nz: "p \<noteq> 0"
  shows "p \<in> avail_pages s" "avail_pages s' = avail_pages s - {p}"
proof -
  note inv' = pmm_alloc_page_inv [OF inv a]
  note eqs = avail_pages_inv [OF inv] avail_pages_inv [OF inv']
  have "p \<in> avail_pages s \<and> avail_pages s' = avail_pages s - {p}"
    using inv
  proof (cases rule: pmm_alloc_page_cases)
    case (list q fl')
    then have "p = q" "bump_pages s' = bump_pages s" "q \<notin> set fl'"
      using a inv by (auto simp: pmm_inv_def)
    with list(1) bump_not_listed [OF inv] show ?thesis
      by (auto simp: eqs)
  next
    case bump
    from inv have r: "region_ok s" by (simp add: pmm_inv_def)
    have "p = g_cursor s" "bump_pages s' = bump_pages (s\<lparr>g_cursor := g_cursor s + PAGE_SIZE\<rparr>)"
      using a bump(3) by auto
    with bump(1) bump_pages_step [OF r bump(2)] show ?thesis by (auto simp: eqs)
  next
    case none
    with a nz show ?thesis by simp
  qed
  then show "p \<in> avail_pages s" "avail_pages s' = avail_pages s - {p}" by simp_all
qed

lemma pmm_alloc_page_none:
  assumes inv: "pmm_inv s fl" and a: "pmm_alloc_page s = (0, s')"
  shows "s' = s" "avail_pages s = {}"
proof -
  from inv have "0 \<notin> set fl"
    by (auto simp: pmm_inv_def dest: managed_nonzero)
  moreover from inv have r: "region_ok s" by (simp add: pmm_inv_def)
  ultimately have n: "fl = []" "g_end s < g_cursor s + PAGE_SIZE" "s' = s"
    using inv a region_okD(2) [OF r] by (cases rule: pmm_alloc_page_cases [OF inv]; simp)+
  then have "bump_pages s = {}"
    using cursor_stop [OF r] by (fastforce simp: bump_pages_def word_le_nat_alt)
  with n(1) show "avail_pages s = {}"
    by (simp add: avail_pages_inv [OF inv])
  show "s' = s" by (rule n(3))
qed

lemma page_down_aligned: "page_aligned p \<Longrightarrow> p AND NOT (PAGE_SIZE - 1) = p"
  using unat_page_down [of p] by (simp add: PAGE_SIZE_def page_aligned_unat word_unat_eq_iff)

text \<open>Giving a page back makes it available again.\<close>

lemma pmm_free_page_managed:
  assumes r: "region_ok s" and m: "managed s p"
  shows "pmm_free_page p s =
    s\<lparr>pmm_mem := store64 (pmm_mem s) (p + g_hhdm s) (g_free_list s),
      g_free_list := p, g_pmm_free_pages := g_pmm_free_pages s + 1\<rparr>"
  using m region_okD(1,2) [OF r] managed_nonzero [OF m]
  by (auto simp: pmm_free_page_def managed_def page_down_aligned pmm_phys_to_virt_def Let_def)

lemma pmm_free_page_inv:
  assumes inv: "pmm_inv s fl" and m: "managed s p" and fresh: "p \<notin> set fl"
  shows "pmm_inv (pmm_free_page p s) (p # fl)"
proof -
  from inv have r: "region_ok s" by (simp add: pmm_inv_def)
  let ?m = "store64 (pmm_mem s) (p + g_hhdm s) (g_free_list s)"
  have "load64 ?m (x + g_hhdm s) = load64 (pmm_mem s) (x + g_hhdm s)" if "x \<in> set fl" for x
    using that inv m fresh
    by (intro load64_store64_apart apart_pages) (auto simp: pmm_inv_def managed_def)
  then have "fl_chain ?m (g_hhdm s) (g_free_list s) fl"
    using inv by (subst fl_chain_cong) (auto simp: pmm_inv_def)
  moreover have "unat (g_pmm_free_pages s + 1) = Suc (unat (g_pmm_free_pages s))"
    using inv free_list_short [OF inv] region_okD(6) [OF r]
    by (subst unat_add_no_wrap) (auto simp: pmm_inv_def)
  ultimately show ?thesis
    using inv m fresh managed_nonzero [OF m]
    by (simp add: pmm_free_page_managed [OF r m] pmm_inv_def region_ok_def managed_def)
qed

lemma pmm_free_page_avail:
  assumes inv: "pmm_inv s fl" and m: "managed s p" and fresh: "p \<notin> set fl"
  shows "avail_pages (pmm_free_page p s) = insert p (avail_pages s)"
proof -
  from inv have r: "region_ok s" by (simp add: pmm_inv_def)
  have "bump_pages (pmm_free_page p s) = bump_pages s"
    by (simp add: pmm_free_page_managed [OF r m] bump_pages_def)
  then show ?thesis
    by (simp add: avail_pages_inv [OF inv] avail_pages_inv [OF pmm_free_page_inv [OF inv m fresh]])
qed

text \<open>A run of pages: the cursor moves past all of them at once.\<close>

definition run_pages :: "u64 \<Rightarrow> u64 \<Rightarrow> u64 set" where
  "run_pages p n = {q. page_aligned q \<and> p \<le> q \<and> unat q < unat p + 4096 * unat n}"

text \<open>A successful call: the run starts at the old cursor, lies in the region, and no sum wrapped.\<close>

lemma pmm_alloc_pages_shape:
  assumes inv: "pmm_inv s fl" and n: "unat n < 2 ^ 51"
    and a: "pmm_alloc_pages n s = (p, s')" and nz: "p \<noteq> 0"
  shows "p = g_cursor s"
    "s' = s\<lparr>g_cursor := g_cursor s + n * PAGE_SIZE, g_pmm_free_pages := g_pmm_free_pages s - n\<rparr>"
    "unat (g_cursor s + n * PAGE_SIZE) = unat (g_cursor s) + 4096 * unat n"
    "unat (g_cursor s) + 4096 * unat n \<le> unat (g_end s)"
    "(unat (g_end s) - unat (g_cursor s)) div 4096
       = unat n + (unat (g_end s) - (unat (g_cursor s) + 4096 * unat n)) div 4096"
    "n \<le> g_pmm_free_pages s"
proof -
  from inv have r: "region_ok s" by (simp add: pmm_inv_def)
  have nb: "unat (n * PAGE_SIZE) = 4096 * unat n"
    using n by (simp add: PAGE_SIZE_def unat_word_ariths)
  show c: "unat (g_cursor s + n * PAGE_SIZE) = unat (g_cursor s) + 4096 * unat n"
    using n region_okD(5,6) [OF r] by (simp add: nb unat_add_no_wrap)
  from a nz have ok: "g_cursor s + n * PAGE_SIZE \<le> g_end s"
    by (auto simp: pmm_alloc_pages_def Let_def not_less split: if_splits)
  then show room: "unat (g_cursor s) + 4096 * unat n \<le> unat (g_end s)"
    using c by (simp add: word_le_nat_alt)
  then show k: "(unat (g_end s) - unat (g_cursor s)) div 4096
      = unat n + (unat (g_end s) - (unat (g_cursor s) + 4096 * unat n)) div 4096"
    using div_mult_self2 [of 4096 "unat (g_end s) - (unat (g_cursor s) + 4096 * unat n)" "unat n"]
    by (simp add: algebra_simps)
  with inv show enough: "n \<le> g_pmm_free_pages s"
    by (simp add: pmm_inv_def word_le_nat_alt)
  from a nz enough show "p = g_cursor s"
    "s' = s\<lparr>g_cursor := g_cursor s + n * PAGE_SIZE, g_pmm_free_pages := g_pmm_free_pages s - n\<rparr>"
    by (auto simp: pmm_alloc_pages_def Let_def split: if_splits)
qed

lemma pmm_alloc_pages_inv:
  assumes inv: "pmm_inv s fl" and n: "unat n < 2 ^ 51"
    and a: "pmm_alloc_pages n s = (p, s')" and nz: "p \<noteq> 0"
  shows "pmm_inv s' fl"
proof -
  from inv have r: "region_ok s" by (simp add: pmm_inv_def)
  note sh = pmm_alloc_pages_shape [OF assms]
  have "page_aligned (g_cursor s + n * PAGE_SIZE)"
    using region_okD(3) [OF r] by (simp add: page_aligned_unat sh(3))
  then show ?thesis
    using inv sh region_okD [OF r]
    by (auto simp: pmm_inv_def region_ok_def managed_def unat_diff_le word_le_nat_alt word_less_nat_alt)
qed

lemma run_pages_room:
  assumes "q \<in> run_pages p n" "page_aligned p"
  shows "unat q + 4096 \<le> unat p + 4096 * unat n"
proof -
  obtain i j where ij: "unat q = 4096 * i" "unat p = 4096 * j"
    using assms by (metis (no_types, lifting) dvdE mem_Collect_eq mod_0_imp_dvd
        page_aligned_unat run_pages_def)
  with assms(1) have "i < j + unat n"
    by (simp add: run_pages_def)
  with ij show ?thesis by simp
qed

lemma pmm_alloc_pages_avail:
  assumes inv: "pmm_inv s fl" and n: "unat n < 2 ^ 51"
    and a: "pmm_alloc_pages n s = (p, s')" and nz: "p \<noteq> 0"
  shows "run_pages p n \<subseteq> avail_pages s" "avail_pages s' = avail_pages s - run_pages p n"
proof -
  from inv have r: "region_ok s" by (simp add: pmm_inv_def)
  note sh = pmm_alloc_pages_shape [OF assms]
  show "run_pages p n \<subseteq> avail_pages s"
    using run_pages_room [of _ p n] sh region_okD(3) [OF r]
    by (fastforce simp: avail_pages_inv [OF inv] bump_pages_def run_pages_def)
  have "bump_pages s' = bump_pages s - run_pages p n"
    using sh by (auto simp: bump_pages_def run_pages_def word_le_nat_alt)
  moreover have "set fl \<inter> run_pages p n = {}"
    using inv sh(1) by (auto simp: pmm_inv_def managed_def run_pages_def)
  ultimately show "avail_pages s' = avail_pages s - run_pages p n"
    by (auto simp: avail_pages_inv [OF inv] avail_pages_inv [OF pmm_alloc_pages_inv [OF assms]])
qed

section \<open>The interface to the rest of the kernel\<close>

text \<open>
  What the heap, the page-table code and the drivers rely on is the interface \<open>allocator\<close>, on
  the set of pages that are available.
\<close>

definition pmm_ok :: "pmm \<Rightarrow> bool" where
  "pmm_ok s \<longleftrightarrow> (\<exists>fl. pmm_inv s fl)"

lemma avail_disjoint_list:
  "pmm_inv s fl \<Longrightarrow> p \<notin> avail_pages s \<Longrightarrow> p \<notin> set fl"
  by (simp add: avail_pages_inv)

lemma pmm_alloc_page_managed:
  assumes inv: "pmm_inv s fl" and a: "pmm_alloc_page s = (p, s')" and nz: "p \<noteq> 0"
  shows "managed s' p"
  using inv
proof (cases rule: pmm_alloc_page_cases)
  case (list q fl')
  with inv a show ?thesis by (auto simp: pmm_inv_def managed_def)
next
  case bump
  from inv have r: "region_ok s" by (simp add: pmm_inv_def)
  from a bump(3) cursor_step(1) [OF r bump(2)] region_okD [OF r] show ?thesis
    by (auto simp: managed_def word_less_nat_alt)
next
  case none
  with a nz show ?thesis by simp
qed

lemma zero_not_avail_pages:
  assumes "pmm_inv s fl"
  shows "0 \<notin> avail_pages s"
proof -
  have "g_cursor s \<noteq> 0"
    using assms region_okD(2) by (simp add: pmm_inv_def)
  moreover have "0 \<notin> set fl"
    using assms managed_nonzero by (auto simp: pmm_inv_def)
  ultimately show ?thesis
    by (simp add: avail_pages_inv [OF assms] bump_pages_def)
qed

interpretation pages: allocator pmm_alloc_page pmm_free_page pmm_ok avail_pages managed
proof unfold_locales
  fix s p s'
  assume ok: "pmm_ok s" and a: "pmm_alloc_page s = (p, s')"
  then obtain fl where inv: "pmm_inv s fl" by (auto simp: pmm_ok_def)
  show "pmm_ok s'"
    using pmm_alloc_page_inv [OF inv a] by (auto simp: pmm_ok_def)
  show "p \<in> avail_pages s \<and> avail_pages s' = avail_pages s - {p} \<and> managed s' p" if "p \<noteq> 0"
    using pmm_alloc_page_avail [OF inv a that] pmm_alloc_page_managed [OF inv a that] by simp
next
  fix s s'
  assume "pmm_ok s" "pmm_alloc_page s = (0, s')"
  then show "s' = s \<and> avail_pages s = {}"
    using pmm_alloc_page_none by (auto simp: pmm_ok_def)
next
  fix s p
  assume ok: "pmm_ok s" and m: "managed s p" and f: "p \<notin> avail_pages s"
  then obtain fl where inv: "pmm_inv s fl" by (auto simp: pmm_ok_def)
  note fresh = avail_disjoint_list [OF inv f]
  show "pmm_ok (pmm_free_page p s) \<and> avail_pages (pmm_free_page p s) = insert p (avail_pages s)"
    using pmm_free_page_inv [OF inv m fresh] pmm_free_page_avail [OF inv m fresh]
    by (auto simp: pmm_ok_def)
next
  fix s
  assume "pmm_ok s"
  then show "0 \<notin> avail_pages s"
    using zero_not_avail_pages by (auto simp: pmm_ok_def)
qed

section \<open>Runs of the allocator\<close>

text \<open>
  The pair of an allocator state and the set of pages that are in use. Between calls the
  kernel may change any memory except the pages that are not in use.
\<close>

inductive pmm_step :: "pmm \<times> u64 set \<Rightarrow> pmm \<times> u64 set \<Rightarrow> bool" where
  step_alloc: "pmm_alloc_page s = (p, s') \<Longrightarrow> p \<noteq> 0 \<Longrightarrow> pmm_step (s, A) (s', insert p A)"
| step_fail: "pmm_alloc_page s = (0, s') \<Longrightarrow> pmm_step (s, A) (s', A)"
| step_run: "pmm_alloc_pages n s = (p, s') \<Longrightarrow> p \<noteq> 0 \<Longrightarrow> unat n < 2 ^ 51 \<Longrightarrow>
    pmm_step (s, A) (s', A \<union> run_pages p n)"
| step_free: "p \<in> A \<Longrightarrow> pmm_step (s, A) (pmm_free_page p s, A - {p})"
| step_use: "(\<And>p i. managed s p \<Longrightarrow> p \<notin> A \<Longrightarrow> unat i < 4096 \<Longrightarrow>
      m (p + g_hhdm s + i) = pmm_mem s (p + g_hhdm s + i)) \<Longrightarrow>
    pmm_step (s, A) (s\<lparr>pmm_mem := m\<rparr>, A)"

inductive pmm_reach :: "pmm \<times> u64 set \<Rightarrow> pmm \<times> u64 set \<Rightarrow> bool" for c0 where
  reach_start: "pmm_reach c0 c0"
| reach_step: "pmm_reach c0 c \<Longrightarrow> pmm_step c c' \<Longrightarrow> pmm_reach c0 c'"

definition pmm_sys_inv :: "pmm \<times> u64 set \<Rightarrow> bool" where
  "pmm_sys_inv c \<longleftrightarrow> (case c of (s, A) \<Rightarrow>
     pmm_ok s \<and> (\<forall>p \<in> A. managed s p \<and> p \<notin> avail_pages s))"

lemma managed_grows:
  assumes "managed s p" "g_cursor s \<le> g_cursor s'"
  shows "managed s' p"
  using assms by (auto simp: managed_def)

lemma pmm_alloc_page_cursor:
  assumes "pmm_inv s fl" "pmm_alloc_page s = (p, s')"
  shows "g_cursor s \<le> g_cursor s'"
  using assms(1)
proof (cases rule: pmm_alloc_page_cases)
  case bump
  from assms(1) have r: "region_ok s" by (simp add: pmm_inv_def)
  from bump(3) assms(2) cursor_step(1) [OF r bump(2)] show ?thesis
    by (auto simp: word_le_nat_alt)
qed (use assms(2) in auto)

lemma use_keeps_inv:
  assumes inv: "pmm_inv s fl"
    and same: "\<And>p i. managed s p \<Longrightarrow> p \<notin> A \<Longrightarrow> unat i < 4096 \<Longrightarrow>
      m (p + g_hhdm s + i) = pmm_mem s (p + g_hhdm s + i)"
    and used: "\<forall>p \<in> A. p \<notin> set fl"
  shows "pmm_inv (s\<lparr>pmm_mem := m\<rparr>) fl"
proof -
  have "load64 m (x + g_hhdm s) = load64 (pmm_mem s) (x + g_hhdm s)" if "x \<in> set fl" for x
  proof (rule load64_cong)
    fix i :: u64
    assume "i \<in> {0, 1, 2, 3, 4, 5, 6, 7}"
    then have "unat i < 4096" by auto
    moreover have "managed s x" "x \<notin> A"
      using that inv used by (auto simp: pmm_inv_def)
    ultimately show "m (x + g_hhdm s + i) = pmm_mem s (x + g_hhdm s + i)"
      using same by blast
  qed
  then have "fl_chain m (g_hhdm s) (g_free_list s) fl"
    using inv by (subst fl_chain_cong) (auto simp: pmm_inv_def)
  with inv show ?thesis
    by (simp add: pmm_inv_def region_ok_def managed_def)
qed

lemma avail_pages_mem:
  assumes "pmm_inv s fl" "pmm_inv (s\<lparr>pmm_mem := m\<rparr>) fl"
  shows "avail_pages (s\<lparr>pmm_mem := m\<rparr>) = avail_pages s"
  by (simp add: avail_pages_inv [OF assms(1)] avail_pages_inv [OF assms(2)] bump_pages_def)

lemma run_pages_managed:
  assumes inv: "pmm_inv s fl" and n: "unat n < 2 ^ 51"
    and a: "pmm_alloc_pages n s = (p, s')" and nz: "p \<noteq> 0" and q: "q \<in> run_pages p n"
  shows "managed s' q"
proof -
  from inv have "MIN_PHYS \<le> g_cursor s" using region_okD(4) by (simp add: pmm_inv_def)
  with q pmm_alloc_pages_shape [OF inv n a nz] show ?thesis
    by (auto simp: managed_def run_pages_def word_less_nat_alt)
qed

text \<open>Every step keeps the pages in use apart from the pages that are available.\<close>

lemma pmm_step_inv:
  assumes "pmm_step c c'" "pmm_sys_inv c"
  shows "pmm_sys_inv c'"
  using assms
proof (induction rule: pmm_step.induct)
  case (step_alloc s p s' A)
  then obtain fl where inv: "pmm_inv s fl" by (auto simp: pmm_sys_inv_def pmm_ok_def)
  have "managed s' q" if "q \<in> A" for q
    using step_alloc that pmm_alloc_page_cursor [OF inv] managed_grows by (auto simp: pmm_sys_inv_def)
  with step_alloc pages.alloc_ok pages.alloc_takes [of s p s'] show ?case
    by (auto simp: pmm_sys_inv_def)
next
  case (step_fail s s' A)
  then show ?case using pages.alloc_empty [of s s'] by (auto simp: pmm_sys_inv_def)
next
  case (step_run n s p s' A)
  then obtain fl where inv: "pmm_inv s fl" by (auto simp: pmm_sys_inv_def pmm_ok_def)
  note ops = inv step_run(3,1,2)
  have "g_cursor s \<le> g_cursor s'"
    using pmm_alloc_pages_shape [OF ops] by (simp add: word_le_nat_alt)
  then have "managed s' q" if "q \<in> A \<union> run_pages p n" for q
    using step_run that run_pages_managed [OF ops] managed_grows by (auto simp: pmm_sys_inv_def)
  with step_run pmm_alloc_pages_inv [OF ops] pmm_alloc_pages_avail [OF ops] show ?case
    by (auto simp: pmm_sys_inv_def pmm_ok_def)
next
  case (step_free p A s)
  then have m: "managed s p" "p \<notin> avail_pages s" "pmm_ok s" by (auto simp: pmm_sys_inv_def)
  then have "g_cursor (pmm_free_page p s) = g_cursor s"
    using pmm_free_page_managed [of s p] by (auto simp: pmm_ok_def pmm_inv_def)
  with step_free pages.free_gives [OF m(3,1,2)] show ?case
    by (auto simp: pmm_sys_inv_def managed_def)
next
  case (step_use s A m)
  then obtain fl where inv: "pmm_inv s fl" by (auto simp: pmm_sys_inv_def pmm_ok_def)
  have "pmm_inv (s\<lparr>pmm_mem := m\<rparr>) fl"
    using inv step_use avail_disjoint_list [OF inv]
    by (intro use_keeps_inv [where A = A]) (auto simp: pmm_sys_inv_def)
  with step_use inv show ?case
    by (auto simp: pmm_sys_inv_def pmm_ok_def managed_def avail_pages_mem)
qed

lemma pmm_reach_inv: "pmm_reach c0 c \<Longrightarrow> pmm_sys_inv c0 \<Longrightarrow> pmm_sys_inv c"
  by (induction rule: pmm_reach.induct) (auto intro: pmm_step_inv)

section \<open>Initialisation\<close>

text \<open>The boot loader reports regions inside the 52-bit physical address space.\<close>

definition memmap_ok :: "memmap_entry option list \<Rightarrow> bool" where
  "memmap_ok es \<longleftrightarrow> (\<forall>e. Some e \<in> set es \<longrightarrow> unat (me_base e) + unat (me_length e) \<le> 2 ^ 52)"

lemma align_up_page:
  assumes "unat x \<le> 2 ^ 52"
  shows "page_aligned (align_up x PAGE_SIZE)" "unat x \<le> unat (align_up x PAGE_SIZE)"
    "unat (align_up x PAGE_SIZE) < unat x + 4096"
proof -
  have u: "unat (align_up x PAGE_SIZE) = (unat x + 4095) div 4096 * 4096"
    using unat_page_up [of x] assms by (simp add: align_up_def PAGE_SIZE_def)
  then show "page_aligned (align_up x PAGE_SIZE)"
    by (simp add: page_aligned_unat)
  show "unat x \<le> unat (align_up x PAGE_SIZE)" "unat (align_up x PAGE_SIZE) < unat x + 4096"
    unfolding u by linarith+
qed

lemma main_candidate_ok:
  assumes c: "main_candidate e = Some (start, len)"
    and e: "unat (me_base e) + unat (me_length e) \<le> 2 ^ 52"
  shows "me_type e = LIMINE_MEMMAP_USABLE" "page_aligned start" "MIN_PHYS \<le> start"
    "me_base e \<le> start" "4096 \<le> unat len"
    "unat start + unat len = unat (me_base e) + unat (me_length e)"
proof -
  let ?b = "if me_base e < MIN_PHYS then MIN_PHYS else me_base e"
  have b: "unat ?b \<le> 2 ^ 52" using e by (simp add: MIN_PHYS_def)
  note al = align_up_page [OF b]
  from c have start: "start = align_up ?b PAGE_SIZE" and len: "len = me_base e + me_length e - start"
    and room: "start + PAGE_SIZE \<le> me_base e + me_length e"
    by (auto simp: main_candidate_def Let_def not_less split: if_splits)
  have u: "unat (me_base e + me_length e) = unat (me_base e) + unat (me_length e)"
    using e by (simp add: unat_add_no_wrap)
  have "unat (start + PAGE_SIZE) = unat start + 4096"
    using al b start by (subst unat_add_no_wrap) (simp_all add: PAGE_SIZE_def)
  with room u have room': "unat start + 4096 \<le> unat (me_base e) + unat (me_length e)"
    by (simp add: word_le_nat_alt)
  then have ulen: "unat len = unat (me_base e) + unat (me_length e) - unat start"
    using u by (simp add: len unat_diff_le word_le_nat_alt)
  show "me_type e = LIMINE_MEMMAP_USABLE"
    using c by (auto simp: main_candidate_def split: if_splits)
  show "page_aligned start" "MIN_PHYS \<le> start" "me_base e \<le> start"
    using al by (auto simp: start word_le_nat_alt word_less_nat_alt split: if_splits)
  show "4096 \<le> unat len" "unat start + unat len = unat (me_base e) + unat (me_length e)"
    using room' ulen by auto
qed

text \<open>The scan returns a candidate that is at least as long as every other one.\<close>

lemma scan_regions_result:
  assumes "scan_regions cand es bs bl = (st, ln)"
  shows "(st, ln) = (bs, bl) \<or> (\<exists>e. Some e \<in> set es \<and> cand e = Some (st, ln))"
    and "bl \<le> ln" and "\<And>e st' ln'. Some e \<in> set es \<Longrightarrow> cand e = Some (st', ln') \<Longrightarrow> ln' \<le> ln"
  using assms
proof (atomize (full), induction cand es bs bl rule: scan_regions.induct)
  case (3 cand e es bs bl)
  show ?case
  proof (cases "cand e")
    case None
    with 3 show ?thesis by auto
  next
    case (Some c)
    obtain st0 ln0 where "c = (st0, ln0)" by force
    with 3 Some show ?thesis by (cases "bl < ln0") (fastforce simp: not_less)+
  qed
qed auto

lemma pmm_init_Some:
  assumes "scan_regions main_candidate es 0 0 = (st, ln)" "ln \<noteq> 0"
    "s' = pmm_init (Some es) hhdm s"
  shows "g_hhdm s' = hhdm" "g_cursor s' = st" "g_end s' = st + ln" "g_free_list s' = 0"
    "g_pmm_free_pages s' = ln div PAGE_SIZE" "g_pmm_total_pages s' = ln div PAGE_SIZE"
  using assms by (auto simp: pmm_init_def Let_def split: prod.splits)

lemma pmm_init_inv:
  assumes m: "memmap_ok es" and h: "hhdm \<noteq> 0"
    and e: "Some e \<in> set es" "main_candidate e = Some c"
    and s': "s' = pmm_init (Some es) hhdm s"
  obtains e' where "Some e' \<in> set es" "main_candidate e' = Some (g_cursor s', g_end s' - g_cursor s')"
    "snd c \<le> g_end s' - g_cursor s'" "pmm_inv s' []"
proof -
  obtain st ln where sc: "scan_regions main_candidate es 0 0 = (st, ln)" by force
  obtain st0 ln0 where c: "c = (st0, ln0)" by force
  note r = scan_regions_result [OF sc]
  have "4096 \<le> unat ln0"
    using main_candidate_ok(5) [of e st0 ln0] e c m by (auto simp: memmap_ok_def)
  moreover have "ln0 \<le> ln" using r(3) e c by blast
  ultimately have nz: "ln \<noteq> 0" by (auto simp: word_le_nat_alt)
  with r(1) obtain e' where e': "Some e' \<in> set es" "main_candidate e' = Some (st, ln)" by auto
  have le: "unat (me_base e') + unat (me_length e') \<le> 2 ^ 52"
    using e'(1) m by (auto simp: memmap_ok_def)
  note ok = main_candidate_ok [OF e'(2) le]
  note f = pmm_init_Some [OF sc nz s']
  have u: "unat (st + ln) = unat st + unat ln"
    using ok(6) le by (simp add: unat_add_no_wrap)
  have "region_ok s'"
    using ok le h u f by (simp add: region_ok_def word_le_nat_alt)
  then have "pmm_inv s' []"
    by (simp add: pmm_inv_def f u unat_div PAGE_SIZE_def)
  with e' f \<open>ln0 \<le> ln\<close> c show thesis
    by (intro that [of e']) simp_all
qed

lemma avail_pages_bounds:
  assumes inv: "pmm_inv s fl" and p: "p \<in> avail_pages s"
  shows "page_aligned p \<and> MIN_PHYS \<le> p \<and> unat p + 4096 \<le> unat (g_end s)"
proof -
  from inv have r: "region_ok s" by (simp add: pmm_inv_def)
  from p consider "managed s p" | "p \<in> bump_pages s"
    using inv by (auto simp: avail_pages_inv pmm_inv_def)
  then show ?thesis
  proof cases
    case 1
    then have "4096 \<le> unat (g_cursor s - p)"
      using region_okD(3) [OF r] by (intro page_aligned_diff) (auto simp: managed_def)
    with 1 have "unat p + 4096 \<le> unat (g_cursor s)"
      using unat_diff_le [of p "g_cursor s"] by (auto simp: managed_def)
    with 1 region_okD(5) [OF r] show ?thesis by (simp add: managed_def)
  next
    case 2
    with region_okD(4) [OF r] show ?thesis by (auto simp: bump_pages_def)
  qed
qed

section \<open>The counter\<close>

lemma card_bump_pages:
  assumes "region_ok s"
  shows "card (bump_pages s) = (unat (g_end s) - unat (g_cursor s)) div 4096"
proof -
  note r = region_okD [OF assms]
  let ?N = "(unat (g_end s) - unat (g_cursor s)) div 4096"
  obtain c where c: "unat (g_cursor s) = 4096 * c"
    using r(3) by (metis dvdE mod_0_imp_dvd page_aligned_unat)
  have "unat ` bump_pages s = (\<lambda>k. 4096 * (c + k)) ` {..< ?N}"
  proof (intro equalityI subsetI)
    fix x assume "x \<in> unat ` bump_pages s"
    then obtain p where p: "x = unat p" "page_aligned p" "g_cursor s \<le> p" "unat p + 4096 \<le> unat (g_end s)"
      by (auto simp: bump_pages_def)
    obtain k where k: "x = 4096 * k" using p(1,2) by (metis dvdE mod_0_imp_dvd page_aligned_unat)
    with p c have "c \<le> k" "Suc (k - c) \<le> ?N"
      by (auto simp: word_le_nat_alt less_eq_div_iff_mult_less_eq)
    with k show "x \<in> (\<lambda>k. 4096 * (c + k)) ` {..< ?N}" by (intro image_eqI [of _ _ "k - c"]) auto
  next
    fix x assume "x \<in> (\<lambda>k. 4096 * (c + k)) ` {..< ?N}"
    then obtain k where k: "x = 4096 * (c + k)" "k < ?N" by auto
    then have "Suc k \<le> ?N" by simp
    then have "x + 4096 \<le> unat (g_end s)" using c k(1) r(5) by (simp only: less_eq_div_iff_mult_less_eq) simp
    moreover from this have "unat (of_nat x :: u64) = x"
      using r(6) by (simp add: unsigned_of_nat take_bit_nat_eq_self)
    ultimately show "x \<in> unat ` bump_pages s"
      using c k by (intro image_eqI [of _ _ "of_nat x"]) (auto simp: bump_pages_def word_le_nat_alt page_aligned_unat)
  qed
  moreover have "card (unat ` bump_pages s) = card (bump_pages s)"
    by (rule card_image) (simp add: inj_on_def word_unat_eq_iff)
  moreover have "card ((\<lambda>k. 4096 * (c + k)) ` {..< ?N}) = ?N"
    by (subst card_image) (auto simp: inj_on_def)
  ultimately show ?thesis by simp
qed

section \<open>The DMA zone\<close>

definition dma32_ok :: "pmm \<Rightarrow> bool" where
  "dma32_ok s \<longleftrightarrow> unat (g_dma32_cursor s) \<le> unat (g_dma32_end s) \<and> unat (g_dma32_end s) \<le> 2 ^ 32"

lemma dma32_candidate_ok:
  assumes c: "dma32_candidate e = Some (start, len)"
    and e: "unat (me_base e) + unat (me_length e) \<le> 2 ^ 52"
  shows "unat (start + len) \<le> 2 ^ 32" "unat start \<le> unat (start + len)"
proof -
  let ?b = "if me_base e < MIN_PHYS then MIN_PHYS else me_base e"
  let ?e0 = "me_base e + me_length e"
  let ?lim = "if ?e0 > DMA32_LIMIT then DMA32_LIMIT else ?e0"
  have b: "unat ?b \<le> 2 ^ 52" using e by (simp add: MIN_PHYS_def)
  from c have start: "start = align_up ?b PAGE_SIZE" and len: "len = ?lim - start"
    and room: "start + PAGE_SIZE \<le> ?lim"
    by (auto simp: dma32_candidate_def Let_def not_less split: if_splits)
  have "unat (start + PAGE_SIZE) = unat start + 4096"
    using align_up_page [OF b] b start by (subst unat_add_no_wrap) (simp_all add: PAGE_SIZE_def)
  with room have "unat start \<le> unat ?lim" by (simp add: word_le_nat_alt)
  moreover have "unat ?lim \<le> 2 ^ 32" by (simp add: DMA32_LIMIT_def word_less_nat_alt)
  ultimately show "unat (start + len) \<le> 2 ^ 32" "unat start \<le> unat (start + len)"
    by (simp_all add: len)
qed

lemma pmm_init_dma32:
  assumes m: "memmap_ok es" and ok: "dma32_ok s"
  shows "dma32_ok (pmm_init (Some es) hhdm s)"
proof -
  obtain st ln where sc: "scan_regions dma32_candidate es 0 0 = (st, ln)" by force
  have "unat (st + ln) \<le> 2 ^ 32 \<and> unat st \<le> unat (st + ln)"
    using scan_regions_result(1) [OF sc] m dma32_candidate_ok by (fastforce simp: memmap_ok_def)
  with ok sc show ?thesis
    by (auto simp: pmm_init_def dma32_ok_def Let_def split: prod.splits)
qed

section \<open>Properties\<close>

text \<open>
  \<open>pmm_init\<close> on a memory map with at least one usable region makes the allocator
  ready: it manages one usable entry of the map, the longest, from its first page at or above
  16 MiB, with an empty free list and an exact counter.
\<close>

theorem pmm_init_ready:
  assumes "memmap_ok es" "hhdm \<noteq> 0" "Some e \<in> set es" "main_candidate e = Some (st, ln)"
    and s': "s' = pmm_init (Some es) hhdm s"
  shows "pmm_inv s' [] \<and> ln \<le> g_end s' - g_cursor s' \<and>
    (\<exists>e'. Some e' \<in> set es \<and> me_type e' = LIMINE_MEMMAP_USABLE \<and> me_base e' \<le> g_cursor s'
       \<and> unat (g_end s') = unat (me_base e') + unat (me_length e'))"
proof -
  obtain e' where e': "Some e' \<in> set es" "main_candidate e' = Some (g_cursor s', g_end s' - g_cursor s')"
      "ln \<le> g_end s' - g_cursor s'" "pmm_inv s' []"
    using pmm_init_inv [OF assms(1-4) s'] by auto
  have le: "unat (me_base e') + unat (me_length e') \<le> 2 ^ 52"
    using assms(1) e'(1) by (auto simp: memmap_ok_def)
  have "g_cursor s' \<le> g_end s'"
    using e'(4) by (simp add: pmm_inv_def region_ok_def)
  with main_candidate_ok [OF e'(2) le] e' show ?thesis
    by (auto simp: unat_diff_le word_le_nat_alt)
qed

definition boot_pmm :: pmm where
  "boot_pmm = \<lparr>g_hhdm = 0, g_cursor = 0, g_end = 0, g_free_list = 0, g_dma32_cursor = 0,
     g_dma32_end = 0, g_pmm_total_pages = 0, g_pmm_free_pages = 0, pmm_mem = (\<lambda>_. 0)\<rparr>"

definition sample_memmap :: "memmap_entry option list" where
  "sample_memmap = [Some \<lparr>me_base = 0, me_length = 0x9F000, me_type = 0\<rparr>, None,
     Some \<lparr>me_base = 0x100000, me_length = 0x7FF00000, me_type = 0\<rparr>]"

lemma sample_memmap_ok: "memmap_ok sample_memmap"
  by (auto simp: memmap_ok_def sample_memmap_def)

lemma sample_candidate:
  "main_candidate \<lparr>me_base = 0x100000, me_length = 0x7FF00000, me_type = 0\<rparr> = Some (0x1000000, 0x7F000000)"
  by (simp add: main_candidate_def align_up_def pmm_consts LIMINE_MEMMAP_USABLE_def)

theorem pmm_init_ready_witness:
  "pmm_inv (pmm_init (Some sample_memmap) 0xffff800000000000 boot_pmm) [] \<and>
   0x7F000000 \<le> g_end (pmm_init (Some sample_memmap) 0xffff800000000000 boot_pmm)
     - g_cursor (pmm_init (Some sample_memmap) 0xffff800000000000 boot_pmm)"
proof -
  have "Some \<lparr>me_base = 0x100000, me_length = 0x7FF00000, me_type = 0\<rparr> \<in> set sample_memmap"
    by (simp add: sample_memmap_def)
  from pmm_init_ready [OF sample_memmap_ok _ this sample_candidate refl, of "0xffff800000000000" boot_pmm]
  show ?thesis by simp
qed

lemma managed_bounds:
  assumes inv: "pmm_inv s fl" and m: "managed s p"
  shows "page_aligned p \<and> MIN_PHYS \<le> p \<and> unat p + 4096 \<le> unat (g_end s)"
proof -
  from inv have r: "region_ok s" by (simp add: pmm_inv_def)
  have "4096 \<le> unat (g_cursor s - p)"
    using region_okD(3) [OF r] m by (intro page_aligned_diff) (auto simp: managed_def)
  with m have "unat p + 4096 \<le> unat (g_cursor s)"
    using unat_diff_le [of p "g_cursor s"] by (auto simp: managed_def)
  with m region_okD(5) [OF r] show ?thesis by (simp add: managed_def)
qed

text \<open>
  Claim C4. In every run of the main zone that starts from a ready allocator and mixes single-page allocations,
  allocations of runs of fewer than \<open>2 ^ 51\<close> pages (for more the byte count of the code wraps), frees of
  pages in use and writes to pages in use: all pages in use are whole pages of the managed region; a
  page that a single-page allocation returns is not in use, and neither is any of the pages of a run,
  and both lie in the region.
\<close>

theorem pmm_no_double_alloc:
  assumes "pmm_ok s0" "pmm_reach (s0, {}) (s, A)"
  shows "(\<forall>q \<in> A. page_aligned q \<and> MIN_PHYS \<le> q \<and> unat q + 4096 \<le> unat (g_end s))
    \<and> (\<forall>p s'. pmm_alloc_page s = (p, s') \<longrightarrow> p \<noteq> 0 \<longrightarrow>
         p \<notin> A \<and> page_aligned p \<and> MIN_PHYS \<le> p \<and> unat p + 4096 \<le> unat (g_end s))
    \<and> (\<forall>n p s'. pmm_alloc_pages n s = (p, s') \<longrightarrow> p \<noteq> 0 \<longrightarrow> unat n < 2 ^ 51 \<longrightarrow>
         (\<forall>i < unat n. p + 4096 * of_nat i \<notin> A \<and> page_aligned (p + 4096 * of_nat i)
            \<and> MIN_PHYS \<le> p + 4096 * of_nat i \<and> unat p + 4096 * i + 4096 \<le> unat (g_end s)))"
proof -
  have "pmm_sys_inv (s, A)"
    using pmm_reach_inv [OF assms(2)] assms(1) by (simp add: pmm_sys_inv_def)
  then obtain fl where inv: "pmm_inv s fl" and A: "\<forall>q \<in> A. managed s q \<and> q \<notin> avail_pages s"
    by (auto simp: pmm_sys_inv_def pmm_ok_def)
  have "p + 4096 * of_nat i \<notin> A \<and> page_aligned (p + 4096 * of_nat i) \<and> MIN_PHYS \<le> p + 4096 * of_nat i
      \<and> unat p + 4096 * i + 4096 \<le> unat (g_end s)"
    if "pmm_alloc_pages n s = (p, s')" "p \<noteq> 0" "unat n < 2 ^ 51" "i < unat n" for n p s' i
  proof -
    note sh = pmm_alloc_pages_shape [OF inv that(3,1,2)]
    let ?q = "p + 4096 * of_nat i"
    have e: "unat (g_end s) \<le> 2 ^ 52" "page_aligned p" using inv sh(1) region_okD(3,6) by (auto simp: pmm_inv_def region_ok_def)
    have lt: "unat p + 4096 * i < 2 ^ 64" using sh(1,4) e(1) that(4) by simp
    have "?q = of_nat (unat p + 4096 * i)" by simp
    then have u: "unat ?q = unat p + 4096 * i" using lt by (simp add: unat_of_nat take_bit_nat_eq_self del: of_nat_add of_nat_mult)
    have "page_aligned ?q" using e(2) unfolding page_aligned_unat u by simp
    then have "?q \<in> run_pages p n" using u that(4) by (simp add: run_pages_def word_le_nat_alt)
    then have av: "?q \<in> avail_pages s" using pmm_alloc_pages_avail(1) [OF inv that(3,1,2)] by blast
    then show ?thesis using A avail_pages_bounds [OF inv av] u by auto
  qed
  moreover have "p \<notin> A \<and> page_aligned p \<and> MIN_PHYS \<le> p \<and> unat p + 4096 \<le> unat (g_end s)"
    if "pmm_alloc_page s = (p, s')" "p \<noteq> 0" for p s'
    using pmm_alloc_page_avail(1) [OF inv that] A avail_pages_bounds [OF inv] by blast
  moreover have "\<forall>q \<in> A. page_aligned q \<and> MIN_PHYS \<le> q \<and> unat q + 4096 \<le> unat (g_end s)"
    using A managed_bounds [OF inv] by blast
  ultimately show ?thesis by blast
qed

lemma sample_ready: "pmm_ok (pmm_init (Some sample_memmap) 0xffff800000000000 boot_pmm)"
proof -
  have "Some \<lparr>me_base = 0x100000, me_length = 0x7FF00000, me_type = 0\<rparr> \<in> set sample_memmap"
    by (simp add: sample_memmap_def)
  from pmm_init_inv [OF sample_memmap_ok _ this sample_candidate refl, of "0xffff800000000000" boot_pmm]
  show ?thesis by (auto simp: pmm_ok_def)
qed

lemma sample_scan:
  "scan_regions main_candidate sample_memmap 0 0 = (0x1000000, 0x7F000000)"
  by (simp add: sample_memmap_def main_candidate_def align_up_def pmm_consts LIMINE_MEMMAP_USABLE_def)

lemmas sample_fields =
  pmm_init_Some [OF sample_scan _ refl, of "0xffff800000000000" boot_pmm, simplified]

lemma sample_alloc_twice:
  assumes "s = pmm_init (Some sample_memmap) 0xffff800000000000 boot_pmm"
  obtains s1 s2 where "pmm_alloc_page s = (0x1000000, s1)" "pmm_alloc_page s1 = (0x1001000, s2)"
  using assms by (simp add: pmm_alloc_page_def sample_fields PAGE_SIZE_def)

theorem pmm_no_double_alloc_witness:
  "\<exists>s A p s'. A \<noteq> {} \<and> p \<noteq> 0 \<and> pmm_alloc_page s = (p, s') \<and> p \<notin> A \<and> unat p + 4096 \<le> unat (g_end s)"
proof -
  let ?s = "pmm_init (Some sample_memmap) 0xffff800000000000 boot_pmm"
  obtain s1 s2 where a: "pmm_alloc_page ?s = (0x1000000, s1)" "pmm_alloc_page s1 = (0x1001000, s2)"
    using sample_alloc_twice [OF refl] by blast
  have "pmm_reach (?s, {}) (s1, {0x1000000})"
    using pmm_step.step_alloc [OF a(1), of "{}"] by (auto intro: pmm_reach.intros)
  note r = pmm_no_double_alloc [OF sample_ready this]
  show ?thesis
    by (rule exI [of _ s1], rule exI [of _ "{0x1000000}"], rule exI [of _ "0x1001000"], rule exI [of _ s2])
      (use r a(2) in simp)
qed

text \<open>
  In every such run the counter that the \<open>mem\<close> command prints is the exact number
  of pages an allocation could still return.
\<close>

theorem pmm_counter_exact:
  assumes "pmm_ok s0" "pmm_reach (s0, {}) (s, A)"
  shows "card (avail_pages s) = unat (pmm_get_free_pages s)"
proof -
  have "pmm_ok s"
    using pmm_reach_inv [OF assms(2)] assms(1) by (simp add: pmm_sys_inv_def)
  then obtain fl where inv: "pmm_inv s fl" by (auto simp: pmm_ok_def)
  from inv have r: "region_ok s" by (simp add: pmm_inv_def)
  have "finite (bump_pages s)" by simp
  with bump_not_listed [OF inv] have "card (avail_pages s) = length fl + card (bump_pages s)"
    using inv by (simp add: avail_pages_inv [OF inv] card_Un_disjoint distinct_card pmm_inv_def)
  with inv show ?thesis
    by (simp add: card_bump_pages [OF r] pmm_inv_def pmm_get_free_pages_def)
qed

theorem pmm_counter_exact_witness:
  "card (avail_pages (pmm_init (Some sample_memmap) 0xffff800000000000 boot_pmm)) = 0x7F000"
  using pmm_counter_exact [OF sample_ready reach_start]
  by (simp add: pmm_get_free_pages_def sample_fields PAGE_SIZE_def unat_div)

text \<open>
  A page from the DMA allocator lies wholly below 4 GiB, whether it comes from the
  main region or from the DMA zone, and the zone stays below 4 GiB.
\<close>

theorem pmm_dma32_below_4g:
  assumes "pmm_ok s" "dma32_ok s" "pmm_alloc_dma32_page s = (p, s')" "p \<noteq> 0"
  shows "unat p + 4096 \<le> 2 ^ 32 \<and> dma32_ok s'"
proof (cases "g_end s \<le> DMA32_LIMIT")
  case True
  with assms(3) have a: "pmm_alloc_page s = (p, s')" by (simp add: pmm_alloc_dma32_page_def)
  obtain fl where inv: "pmm_inv s fl" using assms(1) by (auto simp: pmm_ok_def)
  from inv have "g_dma32_cursor s' = g_dma32_cursor s \<and> g_dma32_end s' = g_dma32_end s"
    by (cases rule: pmm_alloc_page_cases) (use a in auto)
  with assms(2) True avail_pages_bounds [OF inv pmm_alloc_page_avail(1) [OF inv a assms(4)]]
  show ?thesis by (auto simp: DMA32_LIMIT_def word_le_nat_alt dma32_ok_def)
next
  case False
  with assms(3,4) have p: "p = g_dma32_cursor s" "g_dma32_cursor s + PAGE_SIZE \<le> g_dma32_end s"
      "s' = s\<lparr>g_dma32_cursor := g_dma32_cursor s + PAGE_SIZE\<rparr>"
    by (auto simp: pmm_alloc_dma32_page_def split: if_splits)
  have "unat (g_dma32_cursor s + PAGE_SIZE) = unat (g_dma32_cursor s) + 4096"
    using assms(2) by (simp add: dma32_ok_def PAGE_SIZE_def unat_add_no_wrap)
  with p assms(2) show ?thesis by (auto simp: dma32_ok_def word_le_nat_alt)
qed

theorem pmm_dma32_below_4g_witness:
  "\<exists>s p s'. pmm_alloc_dma32_page s = (p, s') \<and> p \<noteq> 0 \<and> unat p + 4096 \<le> 2 ^ 32"
proof -
  let ?s = "pmm_init (Some sample_memmap) 0xffff800000000000 boot_pmm"
  have d: "dma32_ok ?s"
    by (intro pmm_init_dma32 sample_memmap_ok) (simp add: dma32_ok_def boot_pmm_def)
  obtain s1 where "pmm_alloc_page ?s = (0x1000000, s1)"
    using sample_alloc_twice [OF refl] by blast
  then have a: "pmm_alloc_dma32_page ?s = (0x1000000, s1)"
    by (simp add: pmm_alloc_dma32_page_def sample_fields DMA32_LIMIT_def)
  from pmm_dma32_below_4g [OF sample_ready d a] show ?thesis
    by (intro exI [of _ ?s] exI [of _ "0x1000000"] exI [of _ s1]) (simp add: a)
qed

text \<open>
  When the managed region straddles 4 GiB the main allocator and the DMA allocator
  both start at its first page: the same page is handed out twice, once by each.
\<close>

theorem pmm_dma32_aliases_main:
  "let s = pmm_init (Some [Some \<lparr>me_base = 0x40000000, me_length = 0x200000000, me_type = 0\<rparr>]) hhdm s0;
       (p, s1) = pmm_alloc_page s;
       (q, s2) = pmm_alloc_dma32_page s1
   in p \<noteq> 0 \<and> q = p"
  by (simp add: pmm_init_def main_candidate_def dma32_candidate_def align_up_def pmm_consts
      LIMINE_MEMMAP_USABLE_def pmm_alloc_page_def pmm_alloc_dma32_page_def dec_free_pages_def)

text \<open>
  The byte count of \<open>pmm_alloc_pages\<close> wraps: a request for $2^{52}$ pages succeeds
  on every ready allocator, returns the cursor and reserves nothing.
\<close>

theorem pmm_alloc_pages_wraps:
  assumes "pmm_inv s fl"
  shows "fst (pmm_alloc_pages 0x10000000000000 s) = g_cursor s
    \<and> g_cursor (snd (pmm_alloc_pages 0x10000000000000 s)) = g_cursor s \<and> g_cursor s \<noteq> 0"
proof -
  have "g_cursor s \<noteq> 0" "g_cursor s \<le> g_end s"
    using assms region_okD(2,5) by (auto simp: pmm_inv_def word_le_nat_alt)
  moreover have "0x10000000000000 * PAGE_SIZE = 0"
    by (simp add: PAGE_SIZE_def word_unat_eq_iff unat_word_ariths)
  ultimately show ?thesis
    by (simp add: pmm_alloc_pages_def Let_def)
qed

theorem pmm_alloc_pages_wraps_witness:
  "fst (pmm_alloc_pages 0x10000000000000 (pmm_init (Some sample_memmap) 0xffff800000000000 boot_pmm))
     = 0x1000000"
proof -
  obtain fl where "pmm_inv (pmm_init (Some sample_memmap) 0xffff800000000000 boot_pmm) fl"
    using sample_ready by (auto simp: pmm_ok_def)
  from pmm_alloc_pages_wraps [OF this] show ?thesis by (simp add: sample_fields)
qed

end
