(* ===== verification/Vmm.thy ===== *)
theory Vmm
  imports Pmm
begin

text \<open>
  The page tables, \<open>kernel/src/vmm.c\<close>. Tables live in the memory of \<open>Pmm\<close> and are reached
  through the direct map; a table is named by its physical address, with 0 for the null
  pointer. The register CR3 is a field of the state; what the processor caches of the tables
  is not modelled.

  Shown here: after a page is mapped, its address translates to the mapped frame, every other
  address of the same address space translates as before, and so does every user address of
  every other address space; mapping keeps the page tables a forest whose trees share only
  the kernel half; unmapping a user page removes exactly its translation and gives empty
  tables back; and an address range is reported accessible exactly when each of its pages
  carries the user permission (and the write permission) on all four levels.
\<close>

section \<open>Definitions\<close>

definition PTE_P :: u64 where "PTE_P = 1"
definition PTE_RW :: u64 where "PTE_RW = 2"
definition PTE_US :: u64 where "PTE_US = 4"
definition PTE_PWT :: u64 where "PTE_PWT = 8"
definition PTE_PCD :: u64 where "PTE_PCD = 16"
definition PTE_NX :: u64 where "PTE_NX = 0x8000000000000000"
definition VMM_WRITE :: u64 where "VMM_WRITE = 2"
definition VMM_USER :: u64 where "VMM_USER = 4"
definition VMM_UNCACHE :: u64 where "VMM_UNCACHE = 16"
definition VMM_NX :: u64 where "VMM_NX = 0x8000000000000000"
definition PTE_ADDR :: u64 where "PTE_ADDR = 0x000FFFFFFFFFF000"

definition align_down :: "u64 \<Rightarrow> u64" where
  "align_down x = x AND NOT 0xFFF"

definition vmm_align_up :: "u64 \<Rightarrow> u64" where
  "vmm_align_up x = (x + 0xFFF) AND NOT 0xFFF"

definition idx_pml4 :: "u64 \<Rightarrow> nat" where "idx_pml4 v = unat (drop_bit 39 v AND 0x1FF)"
definition idx_pdpt :: "u64 \<Rightarrow> nat" where "idx_pdpt v = unat (drop_bit 30 v AND 0x1FF)"
definition idx_pd :: "u64 \<Rightarrow> nat" where "idx_pd v = unat (drop_bit 21 v AND 0x1FF)"
definition idx_pt :: "u64 \<Rightarrow> nat" where "idx_pt v = unat (drop_bit 12 v AND 0x1FF)"

text \<open>Entry \<open>i\<close> of the table at physical address \<open>t\<close>.\<close>

definition ent_addr :: "pmm \<Rightarrow> u64 \<Rightarrow> nat \<Rightarrow> u64" where
  "ent_addr s t i = pmm_phys_to_virt s t + 8 * of_nat i"

definition rd_ent :: "pmm \<Rightarrow> u64 \<Rightarrow> nat \<Rightarrow> u64" where
  "rd_ent s t i = load64 (pmm_mem s) (ent_addr s t i)"

definition wr_ent :: "u64 \<Rightarrow> nat \<Rightarrow> u64 \<Rightarrow> pmm \<Rightarrow> pmm" where
  "wr_ent t i e s = s\<lparr>pmm_mem := store64 (pmm_mem s) (ent_addr s t i) e\<rparr>"

definition zero_table :: "u64 \<Rightarrow> pmm \<Rightarrow> pmm" where
  "zero_table t s = s\<lparr>pmm_mem := memzero (pmm_mem s) (pmm_phys_to_virt s t) 4096\<rparr>"

definition present :: "u64 \<Rightarrow> bool" where
  "present e \<longleftrightarrow> e AND PTE_P \<noteq> 0"

definition ensure_table :: "u64 \<Rightarrow> nat \<Rightarrow> bool \<Rightarrow> pmm \<Rightarrow> u64 \<times> pmm" where
  "ensure_table parent index user s =
     (let e = rd_ent s parent index;
          s = (if present e \<and> user then wr_ent parent index (e OR PTE_US) s else s)
      in if present e then (e AND NOT 0xFFF, s)
         else
           let (new_phys, s) = pmm_alloc_page s in
           if new_phys = 0 then (0, s)
           else (new_phys, wr_ent parent index
                  ((new_phys AND NOT 0xFFF) OR PTE_P OR PTE_RW OR (if user then PTE_US else 0)) (zero_table new_phys s)))"

definition make_pte_flags :: "u64 \<Rightarrow> u64" where
  "make_pte_flags flags =
     PTE_P OR (if flags AND VMM_WRITE \<noteq> 0 then PTE_RW else 0) OR (if flags AND VMM_USER \<noteq> 0 then PTE_US else 0)
       OR (if flags AND VMM_UNCACHE \<noteq> 0 then PTE_PCD OR PTE_PWT else 0) OR (if flags AND VMM_NX \<noteq> 0 then PTE_NX else 0)"

definition vmm_map_page_into :: "u64 \<Rightarrow> u64 \<Rightarrow> u64 \<Rightarrow> u64 \<Rightarrow> pmm \<Rightarrow> bool \<times> pmm" where
  "vmm_map_page_into cr3_phys virt phys flags s =
     (let user = (flags AND VMM_USER \<noteq> 0);
          (pdpt, s) = ensure_table cr3_phys (idx_pml4 virt) user s in
      if pdpt = 0 then (False, s)
      else
        let (pd, s) = ensure_table pdpt (idx_pdpt virt) user s in
        if pd = 0 then (False, s)
        else
          let (pt, s) = ensure_table pd (idx_pd virt) user s in
          if pt = 0 then (False, s)
          else (True, wr_ent pt (idx_pt virt) ((phys AND PTE_ADDR) OR make_pte_flags flags) s))"

text \<open>The state: memory and page allocator, the register CR3, and the kernel's own tables.\<close>

record vmm =
  v_pmm :: pmm
  v_cr3 :: u64
  g_kernel_cr3 :: u64

definition read_cr3_phys :: "vmm \<Rightarrow> u64" where
  "read_cr3_phys s = v_cr3 s AND NOT 0xFFF"

definition vmm_init :: "vmm \<Rightarrow> vmm" where
  "vmm_init s = s\<lparr>g_kernel_cr3 := read_cr3_phys s\<rparr>"

definition vmm_map_page :: "u64 \<Rightarrow> u64 \<Rightarrow> u64 \<Rightarrow> vmm \<Rightarrow> bool \<times> vmm" where
  "vmm_map_page virt phys flags s =
     (let (ok, p) = vmm_map_page_into (read_cr3_phys s) (align_down virt) phys flags (v_pmm s)
      in (ok, s\<lparr>v_pmm := p\<rparr>))"

definition table_is_empty :: "pmm \<Rightarrow> u64 \<Rightarrow> bool" where
  "table_is_empty s t \<longleftrightarrow> list_all (\<lambda>i. \<not> present (rd_ent s t i)) [0..<512]"

definition unmap_in :: "u64 \<Rightarrow> u64 \<Rightarrow> pmm \<Rightarrow> bool \<times> pmm" where
  "unmap_in pml4 v s =
     (let i1 = idx_pml4 v; e1 = rd_ent s pml4 i1 in
      if \<not> present e1 then (False, s)
      else let pdpt = e1 AND PTE_ADDR; i2 = idx_pdpt v; e2 = rd_ent s pdpt i2 in
        if \<not> present e2 then (False, s)
        else let pd = e2 AND PTE_ADDR; i3 = idx_pd v; e3 = rd_ent s pd i3 in
          if \<not> present e3 then (False, s)
          else let pt = e3 AND PTE_ADDR; i4 = idx_pt v in
            if \<not> present (rd_ent s pt i4) then (False, s)
            else
              let s = wr_ent pt i4 0 s in
              if \<not> table_is_empty s pt then (True, s)
              else let s = pmm_free_page pt (wr_ent pd i3 0 s) in
                if \<not> table_is_empty s pd then (True, s)
                else let s = pmm_free_page pd (wr_ent pdpt i2 0 s) in
                  if \<not> table_is_empty s pdpt then (True, s)
                  else (True, pmm_free_page pdpt (wr_ent pml4 i1 0 s)))"

definition vmm_unmap_page :: "u64 \<Rightarrow> vmm \<Rightarrow> bool \<times> vmm" where
  "vmm_unmap_page virt s = (let (ok, p) = unmap_in (read_cr3_phys s) (align_down virt) (v_pmm s) in (ok, s\<lparr>v_pmm := p\<rparr>))"

definition translate_in :: "pmm \<Rightarrow> u64 \<Rightarrow> u64 \<Rightarrow> u64" where
  "translate_in s pml4 virt =
     (let e1 = rd_ent s pml4 (idx_pml4 virt) in
      if \<not> present e1 then 0
      else let e2 = rd_ent s (e1 AND NOT 0xFFF) (idx_pdpt virt) in
        if \<not> present e2 then 0
        else let e3 = rd_ent s (e2 AND NOT 0xFFF) (idx_pd virt) in
          if \<not> present e3 then 0
          else let e4 = rd_ent s (e3 AND NOT 0xFFF) (idx_pt virt) in
            if \<not> present e4 then 0
            else (e4 AND PTE_ADDR) OR (virt AND 0xFFF))"

definition vmm_translate :: "u64 \<Rightarrow> vmm \<Rightarrow> u64" where
  "vmm_translate virt s = translate_in (v_pmm s) (read_cr3_phys s) virt"

definition vmm_virt_to_phys :: "u64 \<Rightarrow> vmm \<Rightarrow> u64" where
  "vmm_virt_to_phys virt s = vmm_translate virt s"

definition vmm_unmap_page_and_free :: "u64 \<Rightarrow> vmm \<Rightarrow> bool \<times> vmm" where
  "vmm_unmap_page_and_free virt s =
     (let v = align_down virt; phys = vmm_translate v s in
      if phys = 0 then (True, s)
      else let (ok, s) = vmm_unmap_page v s in
        if \<not> ok then (False, s)
        else (True, s\<lparr>v_pmm := pmm_free_page (phys AND PTE_ADDR) (v_pmm s)\<rparr>))"

definition user_ent_ok :: "bool \<Rightarrow> u64 \<Rightarrow> bool" where
  "user_ent_ok write' e \<longleftrightarrow> present e \<and> e AND PTE_US \<noteq> 0 \<and> (write' \<longrightarrow> e AND PTE_RW \<noteq> 0)"

definition vmm_user_page_ok :: "u64 \<Rightarrow> bool \<Rightarrow> vmm \<Rightarrow> bool" where
  "vmm_user_page_ok virt write' s =
     (let p = v_pmm s; e1 = rd_ent p (read_cr3_phys s) (idx_pml4 virt) in
      user_ent_ok write' e1 \<and>
      (let e2 = rd_ent p (e1 AND NOT 0xFFF) (idx_pdpt virt) in
       user_ent_ok write' e2 \<and>
       (let e3 = rd_ent p (e2 AND NOT 0xFFF) (idx_pd virt) in
        user_ent_ok write' e3 \<and> user_ent_ok write' (rd_ent p (e3 AND NOT 0xFFF) (idx_pt virt)))))"

text \<open>The page loop of \<open>vmm_user_accessible\<close>; its counter can wrap, so it is not total.\<close>

partial_function (option) user_pages_ok :: "u64 \<Rightarrow> u64 \<Rightarrow> bool \<Rightarrow> vmm \<Rightarrow> bool option" where
  "user_pages_ok v end' write' s =
     (if v < end' then if \<not> vmm_user_page_ok v write' s then Some False else user_pages_ok (v + 4096) end' write' s
      else Some True)"

definition vmm_user_accessible :: "u64 \<Rightarrow> u64 \<Rightarrow> bool \<Rightarrow> vmm \<Rightarrow> bool option" where
  "vmm_user_accessible virt size' write' s =
     (if size' = 0 then Some True
      else let end' = virt + size' in
        if end' < virt then Some False else user_pages_ok (align_down virt) end' write' s)"

text \<open>The offsets of the page loops: multiples of the page size below \<open>bytes\<close>.\<close>

definition range_bytes :: "u64 \<Rightarrow> u64 \<Rightarrow> u64" where
  "range_bytes virt size' = vmm_align_up (size' + (virt - align_down virt))"

definition page_offsets :: "u64 \<Rightarrow> u64 list" where
  "page_offsets bytes = map (\<lambda>k. of_nat (4096 * k)) [0..<unat bytes div 4096]"

fun map_offsets :: "u64 list \<Rightarrow> u64 \<Rightarrow> u64 \<Rightarrow> u64 \<Rightarrow> vmm \<Rightarrow> bool \<times> vmm" where
  "map_offsets [] v0 p0 flags s = (True, s)"
| "map_offsets (off # offs) v0 p0 flags s =
     (let (ok, s) = vmm_map_page (v0 + off) (p0 + off) flags s in
      if \<not> ok then (False, s) else map_offsets offs v0 p0 flags s)"

definition vmm_map_range :: "u64 \<Rightarrow> u64 \<Rightarrow> u64 \<Rightarrow> u64 \<Rightarrow> vmm \<Rightarrow> bool \<times> vmm" where
  "vmm_map_range virt phys size' flags s =
     map_offsets (page_offsets (range_bytes virt size')) (align_down virt) (align_down phys) flags s"

definition vmm_unmap_range :: "u64 \<Rightarrow> u64 \<Rightarrow> vmm \<Rightarrow> bool \<times> vmm" where
  "vmm_unmap_range virt size' s =
     (True, fold (\<lambda>off s. snd (vmm_unmap_page (align_down virt + off) s)) (page_offsets (range_bytes virt size')) s)"

fun free_offsets :: "u64 list \<Rightarrow> u64 \<Rightarrow> vmm \<Rightarrow> bool \<times> vmm" where
  "free_offsets [] v0 s = (True, s)"
| "free_offsets (off # offs) v0 s =
     (let (ok, s) = vmm_unmap_page_and_free (v0 + off) s in
      if \<not> ok then (False, s) else free_offsets offs v0 s)"

definition vmm_unmap_range_and_free :: "u64 \<Rightarrow> u64 \<Rightarrow> vmm \<Rightarrow> bool \<times> vmm" where
  "vmm_unmap_range_and_free virt size' s =
     (if size' = 0 then (True, s) else free_offsets (page_offsets (range_bytes virt size')) (align_down virt) s)"

definition vmm_set_kernel_cr3 :: "u64 \<Rightarrow> vmm \<Rightarrow> vmm" where
  "vmm_set_kernel_cr3 cr3_phys s = s\<lparr>g_kernel_cr3 := cr3_phys\<rparr>"

definition vmm_get_kernel_cr3 :: "vmm \<Rightarrow> u64" where
  "vmm_get_kernel_cr3 s = g_kernel_cr3 s"

definition copy_ent :: "u64 \<Rightarrow> u64 \<Rightarrow> nat \<Rightarrow> pmm \<Rightarrow> pmm" where
  "copy_ent src dst i s = wr_ent dst i (rd_ent s src i) s"

definition vmm_create_user_pagemap :: "vmm \<Rightarrow> u64 \<times> vmm" where
  "vmm_create_user_pagemap s =
     (let (new_pml4, p) = pmm_alloc_page (v_pmm s) in
      if new_pml4 = 0 then (0, s\<lparr>v_pmm := p\<rparr>)
      else
        let kernel = (if g_kernel_cr3 s = 0 then read_cr3_phys s else g_kernel_cr3 s)
        in (new_pml4, s\<lparr>v_pmm := fold (copy_ent kernel new_pml4) [256..<512] (zero_table new_pml4 p), g_kernel_cr3 := kernel\<rparr>))"

text \<open>
  The four nested loops of \<open>vmm_destroy_user_pagemap\<close>, from the innermost: free what the
  entries of a table point to and clear them, then the caller frees the table itself.
\<close>

definition free_entries :: "(u64 \<Rightarrow> pmm \<Rightarrow> pmm) \<Rightarrow> nat \<Rightarrow> u64 \<Rightarrow> pmm \<Rightarrow> pmm" where
  "free_entries inner n t s =
     fold (\<lambda>i s. let e = rd_ent s t i in
        if present e then wr_ent t i 0 (pmm_free_page (e AND PTE_ADDR) (inner (e AND PTE_ADDR) s)) else s) [0..<n] s"

definition free_pt :: "u64 \<Rightarrow> pmm \<Rightarrow> pmm" where
  "free_pt = free_entries (\<lambda>_ s. s) 512"

definition free_pd :: "u64 \<Rightarrow> pmm \<Rightarrow> pmm" where
  "free_pd = free_entries free_pt 512"

definition free_pdpt :: "u64 \<Rightarrow> pmm \<Rightarrow> pmm" where
  "free_pdpt = free_entries free_pd 512"

definition vmm_destroy_user_pagemap :: "u64 \<Rightarrow> vmm \<Rightarrow> vmm" where
  "vmm_destroy_user_pagemap cr3_phys s =
     (if cr3_phys = 0 then s
      else if cr3_phys = g_kernel_cr3 s then s
      else s\<lparr>v_pmm := pmm_free_page cr3_phys (free_entries free_pdpt 256 cr3_phys (v_pmm s))\<rparr>)"

definition vmm_switch_to :: "u64 \<Rightarrow> vmm \<Rightarrow> vmm" where
  "vmm_switch_to cr3_phys s = s\<lparr>v_cr3 := (if cr3_phys = 0 then g_kernel_cr3 s else cr3_phys)\<rparr>"

section \<open>Entries in memory\<close>

text \<open>A table is a page of the 52-bit physical address space.\<close>

definition table_page :: "u64 \<Rightarrow> bool" where
  "table_page t \<longleftrightarrow> page_aligned t \<and> t \<noteq> 0 \<and> unat t < 2 ^ 52"

lemma table_page_mult:
  assumes "table_page t"
  obtains k where "unat t = 4096 * k"
  using assms by (auto simp: table_page_def page_aligned_unat dest!: mod_0_imp_dvd elim: dvdE)

lemma of_nat_diff_ge:
  fixes x y :: nat
  assumes "x < 2 ^ 53" "y < 2 ^ 53" "x mod 8 = 0" "y mod 8 = 0" "x \<noteq> y"
  shows "8 \<le> unat (of_nat x - of_nat y :: u64)"
proof -
  obtain a b where xy: "x = 8 * a" "y = 8 * b" using assms(3,4) by (metis mod_0_imp_dvd dvdE)
  have u: "unat (of_nat x :: u64) = x" "unat (of_nat y :: u64) = y"
    using assms(1,2) by (simp_all add: unsigned_of_nat take_bit_nat_eq_self)
  show ?thesis
  proof (cases "y \<le> x")
    case True
    then have "unat (of_nat x - of_nat y :: u64) = x - y"
      using u by (subst unat_diff_le) (simp_all add: word_le_nat_alt)
    then show ?thesis using True assms(5) xy by simp
  next
    case False
    then have "unat (of_nat x - of_nat y :: u64) = 2 ^ 64 + x - y"
      using u by (subst unat_sub_if_size) (simp add: word_size)
    then show ?thesis using assms(1,2) by simp
  qed
qed

lemma ent_offset:
  assumes "table_page t" "i < 512"
  shows "t + 8 * of_nat i = of_nat (unat t + 8 * i)" "unat t + 8 * i < 2 ^ 53" "(unat t + 8 * i) mod 8 = 0"
proof -
  show "t + 8 * of_nat i = of_nat (unat t + 8 * i)" by simp
  show "unat t + 8 * i < 2 ^ 53" using assms by (simp add: table_page_def)
  have "unat t mod 4096 = 0" using assms by (simp add: table_page_def page_aligned_unat)
  then obtain k where "unat t = 4096 * k" by (metis mod_0_imp_dvd dvdE)
  then have "unat t + 8 * i = 8 * (512 * k + i)" by simp
  then show "(unat t + 8 * i) mod 8 = 0" by (metis mod_mult_self1_is_0)
qed

lemma ent_addr_eq: "table_page t \<Longrightarrow> ent_addr s t i = (t + 8 * of_nat i) + g_hhdm s"
  by (simp add: ent_addr_def pmm_phys_to_virt_def table_page_def)

lemma ent_apart:
  assumes "table_page t" "table_page t'" "i < 512" "j < 512" "t \<noteq> t' \<or> i \<noteq> j"
  shows "apart (ent_addr s t i) (ent_addr s t' j)"
proof -
  let ?x = "unat t + 8 * i" and ?y = "unat t' + 8 * j"
  note X = ent_offset [OF assms(1,3)] and Y = ent_offset [OF assms(2,4)]
  have ne: "?x \<noteq> ?y"
  proof
    assume eq: "?x = ?y"
    obtain a where a: "unat t = 4096 * a" using assms(1) by (rule table_page_mult)
    obtain b where b: "unat t' = 4096 * b" using assms(2) by (rule table_page_mult)
    note ab = a b
    have e: "512 * a + i = 512 * b + j" using eq ab by simp
    have "(512 * a + i) div 512 = a" "(512 * b + j) div 512 = b" using assms(3,4) by simp_all
    with e have "a = b" by simp
    with e have "i = j" by simp
    with \<open>a = b\<close> show False using ab assms(5) by (simp add: word_unat_eq_iff)
  qed
  have "ent_addr s t i - ent_addr s t' j = of_nat ?x - of_nat ?y" "ent_addr s t' j - ent_addr s t i = of_nat ?y - of_nat ?x"
    using X(1) Y(1) by (simp_all only: ent_addr_eq [OF assms(1)] ent_addr_eq [OF assms(2)] add_diff_cancel_right)
  then show ?thesis
    unfolding apart_def
    using of_nat_diff_ge [OF X(2) Y(2) X(3) Y(3) ne] of_nat_diff_ge [OF Y(2) X(2) Y(3) X(3) ne [symmetric]] by simp
qed

lemma ent_addr_mem [simp]: "ent_addr (s\<lparr>pmm_mem := m\<rparr>) t i = ent_addr s t i"
  by (simp add: ent_addr_def pmm_phys_to_virt_def)

lemma rd_wr_same: "rd_ent (wr_ent t i e s) t i = e"
  by (simp add: rd_ent_def wr_ent_def)

lemma rd_wr_other:
  assumes "table_page t" "table_page t'" "i < 512" "j < 512" "t \<noteq> t' \<or> i \<noteq> j"
  shows "rd_ent (wr_ent t i e s) t' j = rd_ent s t' j"
  using load64_store64_apart [OF ent_apart [OF assms, of s]] by (simp add: rd_ent_def wr_ent_def)

lemma wr_ent_frame [simp]: "g_hhdm (wr_ent t i e s) = g_hhdm s" "g_cursor (wr_ent t i e s) = g_cursor s"
  "g_end (wr_ent t i e s) = g_end s" "g_free_list (wr_ent t i e s) = g_free_list s"
  by (simp_all add: wr_ent_def)

lemma page_byte_distance:
  assumes "table_page t" "table_page t'" "t \<noteq> t'" "unat k < 4096"
  shows "\<not> unat (t' + k - t) < 4096"
proof -
  have d: "4096 \<le> unat (t' - t)" using page_aligned_diff [of t' t] assms by (simp add: table_page_def)
  have kt: "t' + k - t = (t' - t) + k" by (simp add: algebra_simps)
  obtain a where a: "unat t = 4096 * a" using assms(1) by (rule table_page_mult)
  obtain b where b: "unat t' = 4096 * b" using assms(2) by (rule table_page_mult)
  have "\<exists>q. unat (t' - t) = 4096 * q"
  proof (cases "t \<le> t'")
    case True
    then have "unat (t' - t) = 4096 * (b - a)" using a b by (simp add: unat_diff_le right_diff_distrib')
    then show ?thesis ..
  next
    case False
    have "unat t < 2 ^ 52" using assms(1) by (simp add: table_page_def)
    then have "2 ^ 64 + unat t' - unat t = 4096 * (2 ^ 52 + b - a)" using a b by simp
    then have "unat (t' - t) = 4096 * (2 ^ 52 + b - a)"
      using False by (subst unat_sub_if_size) (simp add: word_size word_le_nat_alt)
    then show ?thesis ..
  qed
  then obtain q where q: "unat (t' - t) = 4096 * q" ..
  have "unat (t' - t) + unat k < 2 ^ 64"
  proof -
    have "q < 2 ^ 52" using q unat_u64_less [of "t' - t"] by simp
    then have "4096 * (q + 1) \<le> 2 ^ 64" by simp
    then show ?thesis using q assms(4) by simp
  qed
  then have "unat ((t' - t) + k) = unat (t' - t) + unat k" by (simp add: unat_add_no_wrap)
  then show ?thesis unfolding kt using d by simp
qed

lemma ent_byte_in_page:
  assumes "table_page t" "i < 512" "k \<in> {0, 1, 2, 3, 4, 5, 6, 7}"
  shows "unat (ent_addr s t i + k - (t + g_hhdm s)) < 4096"
proof -
  have e: "ent_addr s t i + k - (t + g_hhdm s) = of_nat (8 * i) + k" by (simp add: ent_addr_eq [OF assms(1)])
  have "unat (of_nat (8 * i) :: u64) = 8 * i" using assms(2) by (simp only: unsigned_of_nat) (simp add: take_bit_nat_eq_self)
  moreover have "unat k < 8" using assms(3) by auto
  ultimately have "unat (of_nat (8 * i) + k) < 4096" using assms(2) by (subst unat_add_no_wrap) simp_all
  then show ?thesis by (simp only: e)
qed

lemma rd_zero_same:
  assumes "table_page t" "i < 512"
  shows "rd_ent (zero_table t s) t i = 0"
proof -
  have "memzero (pmm_mem s) (t + g_hhdm s) 4096 (ent_addr s t i + k) = 0" if "k \<in> {0, 1, 2, 3, 4, 5, 6, 7}" for k
    using ent_byte_in_page [OF assms that, of s] by (simp add: memzero_def)
  from this [of 0] this [of 1] this [of 2] this [of 3] this [of 4] this [of 5] this [of 6] this [of 7]
  have "load64 (memzero (pmm_mem s) (t + g_hhdm s) 4096) (ent_addr s t i) = 0"
    by (simp add: load64_def)
  then show ?thesis
    using assms(1) by (simp add: rd_ent_def zero_table_def pmm_phys_to_virt_def table_page_def)
qed

lemma rd_zero_other:
  assumes "table_page t" "table_page t'" "t \<noteq> t'" "i < 512"
  shows "rd_ent (zero_table t s) t' i = rd_ent s t' i"
proof -
  have "load64 (memzero (pmm_mem s) (t + g_hhdm s) 4096) (ent_addr s t' i) = load64 (pmm_mem s) (ent_addr s t' i)"
  proof (rule load64_cong)
    fix k :: u64
    assume k: "k \<in> {0, 1, 2, 3, 4, 5, 6, 7}"
    have "unat (of_nat (8 * i) :: u64) = 8 * i" using assms(4) by (simp only: unsigned_of_nat) (simp add: take_bit_nat_eq_self)
    moreover have "unat k < 8" using k by auto
    ultimately have "unat (of_nat (8 * i) + k) < 4096" using assms(4) by (subst unat_add_no_wrap) simp_all
    from page_byte_distance [OF assms(1-3) this]
    have "\<not> unat (ent_addr s t' i + k - (t + g_hhdm s)) < 4096" by (simp add: ent_addr_eq [OF assms(2)] algebra_simps)
    then show "memzero (pmm_mem s) (t + g_hhdm s) 4096 (ent_addr s t' i + k) = pmm_mem s (ent_addr s t' i + k)"
      by (simp add: memzero_def)
  qed
  then show ?thesis
    using assms(1) by (simp add: rd_ent_def zero_table_def pmm_phys_to_virt_def table_page_def)
qed

section \<open>Tables and the page allocator\<close>

lemma mem_page_keeps:
  assumes "pmm_ok s" "table_page t" "t \<notin> avail_pages s"
    and same: "\<And>x. \<not> unat (x - (t + g_hhdm s)) < 4096 \<Longrightarrow> m x = pmm_mem s x"
  shows "pmm_ok (s\<lparr>pmm_mem := m\<rparr>)" "avail_pages (s\<lparr>pmm_mem := m\<rparr>) = avail_pages s"
proof -
  obtain fl where inv: "pmm_inv s fl" using assms(1) by (auto simp: pmm_ok_def)
  have tp: "table_page q" if "managed s q" for q
  proof -
    have "unat (g_cursor s) \<le> 2 ^ 52" using inv region_okD(5,6) [of s] by (simp add: pmm_inv_def)
    then show ?thesis using that managed_nonzero [OF that] by (auto simp: table_page_def managed_def word_less_nat_alt)
  qed
  have "m (q + g_hhdm s + i) = pmm_mem s (q + g_hhdm s + i)" if "managed s q" "q \<notin> {t}" "unat i < 4096" for q i
    using page_byte_distance [OF assms(2) tp [OF that(1)] _ that(3)] that(2)
    by (intro same) (simp add: algebra_simps)
  moreover have "\<forall>p \<in> {t}. p \<notin> set fl" using avail_disjoint_list [OF inv assms(3)] by simp
  ultimately have inv': "pmm_inv (s\<lparr>pmm_mem := m\<rparr>) fl" using use_keeps_inv [OF inv, of "{t}" m] by blast
  then show "pmm_ok (s\<lparr>pmm_mem := m\<rparr>)" by (auto simp: pmm_ok_def)
  show "avail_pages (s\<lparr>pmm_mem := m\<rparr>) = avail_pages s" by (rule avail_pages_mem [OF inv inv'])
qed

lemma store64_outside:
  assumes "\<And>k. k \<in> {0, 1, 2, 3, 4, 5, 6, 7} \<Longrightarrow> x \<noteq> a + k"
  shows "store64 m a v x = m x"
  using assms [of 0] assms [of 1] assms [of 2] assms [of 3] assms [of 4] assms [of 5] assms [of 6] assms [of 7]
  by (simp add: store64_def)

lemma wr_ent_keeps:
  assumes "pmm_ok s" "table_page t" "t \<notin> avail_pages s" "i < 512"
  shows "pmm_ok (wr_ent t i e s)" "avail_pages (wr_ent t i e s) = avail_pages s"
proof -
  have "store64 (pmm_mem s) (ent_addr s t i) e x = pmm_mem s x" if "\<not> unat (x - (t + g_hhdm s)) < 4096" for x
    using that ent_byte_in_page [OF assms(2,4)] by (intro store64_outside) blast
  from mem_page_keeps [OF assms(1-3) this]
  show "pmm_ok (wr_ent t i e s)" "avail_pages (wr_ent t i e s) = avail_pages s" by (simp_all add: wr_ent_def)
qed

lemma zero_table_keeps:
  assumes "pmm_ok s" "table_page t" "t \<notin> avail_pages s"
  shows "pmm_ok (zero_table t s)" "avail_pages (zero_table t s) = avail_pages s"
proof -
  have "memzero (pmm_mem s) (t + g_hhdm s) 4096 x = pmm_mem s x" if "\<not> unat (x - (t + g_hhdm s)) < 4096" for x
    using that by (simp add: memzero_def)
  from mem_page_keeps [OF assms this]
  show "pmm_ok (zero_table t s)" "avail_pages (zero_table t s) = avail_pages s"
    using assms(2) by (simp_all add: zero_table_def pmm_phys_to_virt_def table_page_def)
qed

lemma alloc_frame:
  assumes "pmm_alloc_page s = (p, s')"
  shows "pmm_mem s' = pmm_mem s" "g_hhdm s' = g_hhdm s"
  using assms by (auto simp: pmm_alloc_page_def Let_def split: if_splits)

lemma rd_alloc: "pmm_alloc_page s = (p, s') \<Longrightarrow> rd_ent s' t i = rd_ent s t i"
  using alloc_frame [of s p s'] by (simp add: rd_ent_def ent_addr_def pmm_phys_to_virt_def)

lemma alloc_table_page:
  assumes "pmm_ok s" "pmm_alloc_page s = (p, s')" "p \<noteq> 0"
  shows "table_page p" "p \<in> avail_pages s" "avail_pages s' = avail_pages s - {p}" "pmm_ok s'"
proof -
  have m: "p \<in> avail_pages s \<and> avail_pages s' = avail_pages s - {p} \<and> managed s' p"
    using pages.alloc_takes [OF assms] .
  then show "p \<in> avail_pages s" "avail_pages s' = avail_pages s - {p}" by simp_all
  show ok: "pmm_ok s'" using pages.alloc_ok [OF assms(1,2)] .
  then obtain fl where "pmm_inv s' fl" by (auto simp: pmm_ok_def)
  then have "unat (g_cursor s') \<le> 2 ^ 52" using region_okD(5,6) [of s'] by (simp add: pmm_inv_def)
  then show "table_page p" using m assms(3) by (auto simp: table_page_def managed_def word_less_nat_alt)
qed

section \<open>The forest of page tables\<close>

text \<open>Where an entry leads: the table it names, if it is present.\<close>

definition ent :: "pmm \<Rightarrow> u64 \<Rightarrow> nat \<Rightarrow> u64 option" where
  "ent s t i = (if present (rd_ent s t i) then Some (rd_ent s t i AND NOT 0xFFF) else None)"

text \<open>
  \<open>lv\<close> gives the level of every table, 4 for the roots. Entries lead one level down, tables
  are not free pages, and an entry shares its target with another only if both are entries of
  roots, at the same index in the kernel half.
\<close>

definition pt_inv :: "pmm \<Rightarrow> (u64 \<Rightarrow> nat option) \<Rightarrow> bool" where
  "pt_inv s lv \<longleftrightarrow> pmm_ok s
     \<and> (\<forall>t l. lv t = Some l \<longrightarrow> table_page t \<and> t \<notin> avail_pages s \<and> 1 \<le> l \<and> l \<le> 4)
     \<and> (\<forall>t l i c. lv t = Some (Suc l) \<and> 1 \<le> l \<and> i < 512 \<and> ent s t i = Some c \<longrightarrow> lv c = Some l)
     \<and> (\<forall>t t' l i i' c. lv t = Some (Suc l) \<and> lv t' = Some (Suc l) \<and> 1 \<le> l \<and> i < 512 \<and> i' < 512
          \<and> ent s t i = Some c \<and> ent s t' i' = Some c \<longrightarrow> i = i' \<and> (t = t' \<or> l = 3 \<and> 256 \<le> i))"

lemma pt_invD:
  assumes "pt_inv s lv"
  shows "pmm_ok s" "lv t = Some l \<Longrightarrow> table_page t" "lv t = Some l \<Longrightarrow> t \<notin> avail_pages s" "lv t = Some l \<Longrightarrow> 1 \<le> l"
    "lv t = Some l \<Longrightarrow> l \<le> 4"
    "lv t = Some (Suc k) \<Longrightarrow> 1 \<le> k \<Longrightarrow> i < 512 \<Longrightarrow> ent s t i = Some c \<Longrightarrow> lv c = Some k"
    "lv t = Some (Suc k) \<Longrightarrow> lv t' = Some (Suc k) \<Longrightarrow> 1 \<le> k \<Longrightarrow> i < 512 \<Longrightarrow> i' < 512 \<Longrightarrow> ent s t i = Some c \<Longrightarrow>
       ent s t' i' = Some c \<Longrightarrow> i = i' \<and> (t = t' \<or> k = 3 \<and> 256 \<le> i)"
  using assms unfolding pt_inv_def by blast+

lemma ent_cong: "rd_ent s' t i = rd_ent s t i \<Longrightarrow> ent s' t i = ent s t i"
  by (simp add: ent_def)

text \<open>An entry keeps its target when the user bit is added.\<close>

lemma or_user: "present (e OR PTE_US) \<longleftrightarrow> present e" "(e OR PTE_US) AND NOT 0xFFF = e AND NOT 0xFFF"
proof -
  have "(e OR PTE_US) AND PTE_P = e AND PTE_P" by (simp add: PTE_US_def PTE_P_def bit.conj_disj_distrib2)
  then show "present (e OR PTE_US) \<longleftrightarrow> present e" by (simp add: present_def)
  show "(e OR PTE_US) AND NOT 0xFFF = e AND NOT 0xFFF" by (simp add: PTE_US_def bit.conj_disj_distrib2)
qed

lemma new_entry:
  assumes "page_aligned p"
  shows "present ((p AND NOT 0xFFF) OR PTE_P OR PTE_RW OR (if user then PTE_US else 0))"
    "((p AND NOT 0xFFF) OR PTE_P OR PTE_RW OR (if user then PTE_US else 0)) AND NOT 0xFFF = p"
proof -
  have p: "p AND NOT 0xFFF = p" using page_down_aligned [OF assms] by (simp add: PAGE_SIZE_def)
  show "present ((p AND NOT 0xFFF) OR PTE_P OR PTE_RW OR (if user then PTE_US else 0))"
    by (simp add: present_def PTE_P_def PTE_RW_def PTE_US_def bit.conj_disj_distrib2)
  show "((p AND NOT 0xFFF) OR PTE_P OR PTE_RW OR (if user then PTE_US else 0)) AND NOT 0xFFF = p"
    using p by (simp add: PTE_P_def PTE_RW_def PTE_US_def bit.conj_disj_distrib2)
qed

lemma pt_inv_cong:
  assumes "pt_inv s lv" "pmm_ok s'" "avail_pages s' \<subseteq> avail_pages s"
    and e: "\<And>t l i. lv t = Some (Suc l) \<Longrightarrow> 1 \<le> l \<Longrightarrow> i < 512 \<Longrightarrow> ent s' t i = ent s t i"
  shows "pt_inv s' lv"
proof -
  show ?thesis
    unfolding pt_inv_def
  proof (intro conjI allI impI)
    show "pmm_ok s'" by (rule assms(2))
    fix t l
    assume "lv t = Some l"
    then show "table_page t" "t \<notin> avail_pages s'" "1 \<le> l" "l \<le> 4"
      using pt_invD(2-5) [OF assms(1), of t l] assms(3) by auto
  next
    fix t l i c
    assume "lv t = Some (Suc l) \<and> 1 \<le> l \<and> i < 512 \<and> ent s' t i = Some c"
    then show "lv c = Some l" using pt_invD(6) [OF assms(1)] e by metis
  next
    fix t t' l i i' c
    assume a: "lv t = Some (Suc l) \<and> lv t' = Some (Suc l) \<and> 1 \<le> l \<and> i < 512 \<and> i' < 512
      \<and> ent s' t i = Some c \<and> ent s' t' i' = Some c"
    then have "i = i' \<and> (t = t' \<or> l = 3 \<and> 256 \<le> i)"
      using e [of t l i] e [of t' l i'] by (intro pt_invD(7) [OF assms(1), where c = c]) auto
    then show "i = i'" "t = t' \<or> l = 3 \<and> 256 \<le> i" by auto
  qed
qed

lemma pt_inv_alloc:
  assumes inv: "pt_inv s lv" and a: "pmm_alloc_page s = (p, s')" "p \<noteq> 0"
  shows "pt_inv s' lv"
  using alloc_table_page [OF pt_invD(1) [OF inv] a] ent_cong [OF rd_alloc [OF a(1)]]
  by (intro pt_inv_cong [OF inv]) auto

lemma ensure_table_present:
  assumes inv: "pt_inv s lv" and "lv parent = Some (Suc l)" "1 \<le> l" "i < 512"
    and a: "ensure_table parent i user s = (c, s')" and p: "present (rd_ent s parent i)"
  shows "ent s parent i = Some c" "lv c = Some l" "pt_inv s' lv" "avail_pages s' = avail_pages s"
    "\<And>t j. lv t \<noteq> None \<Longrightarrow> j < 512 \<Longrightarrow> t \<noteq> parent \<or> j \<noteq> i \<Longrightarrow> rd_ent s' t j = rd_ent s t j"
    "ent s' parent i = Some c"
proof -
  let ?e = "rd_ent s parent i"
  have c: "c = ?e AND NOT 0xFFF" "s' = (if user then wr_ent parent i (?e OR PTE_US) s else s)"
    using a p by (auto simp: ensure_table_def Let_def)
  then show e: "ent s parent i = Some c" using p by (simp add: ent_def)
  then show "lv c = Some l" using pt_invD(6) [OF inv] assms(2-4) by blast
  note P = pt_invD(2,3) [OF inv assms(2)]
  show avail: "avail_pages s' = avail_pages s"
    using wr_ent_keeps(2) [OF pt_invD(1) [OF inv] P assms(4)] c(2) by simp
  show rd: "rd_ent s' t j = rd_ent s t j" if "lv t \<noteq> None" "j < 512" "t \<noteq> parent \<or> j \<noteq> i" for t j
    using that rd_wr_other [OF P(1) _ assms(4), of t j] pt_invD(2) [OF inv, of t] c(2) by auto
  have "ent s' parent i = ent s parent i"
    unfolding ent_def using c(2) p or_user [of ?e] by (cases user) (simp_all only: rd_wr_same if_True if_False simp_thms)
  then have "ent s' t j = ent s t j" if "lv t \<noteq> None" "j < 512" for t j
    using rd [OF that] ent_cong by metis
  then show "pt_inv s' lv"
    using wr_ent_keeps(1) [OF pt_invD(1) [OF inv] P assms(4)] pt_invD(1) [OF inv] c(2)
    by (intro pt_inv_cong [OF inv _ equalityD1 [OF avail]]) simp_all
  show "ent s' parent i = Some c" using e \<open>ent s' parent i = ent s parent i\<close> by simp
qed

lemma ensure_table_fresh:
  assumes inv: "pt_inv s lv" and L: "lv parent = Some (Suc l)" "1 \<le> l" "i < 512"
    and a: "ensure_table parent i user s = (c, s')" and p: "\<not> present (rd_ent s parent i)" and nz: "c \<noteq> 0"
  shows "ent s parent i = None" "lv c = None" "pt_inv s' (lv(c \<mapsto> l))" "avail_pages s' = avail_pages s - {c}"
    "\<And>t j. lv t \<noteq> None \<Longrightarrow> j < 512 \<Longrightarrow> t \<noteq> parent \<or> j \<noteq> i \<Longrightarrow> rd_ent s' t j = rd_ent s t j"
    "ent s' parent i = Some c" "\<And>j. j < 512 \<Longrightarrow> rd_ent s' c j = 0"
proof -
  obtain s1 where al: "pmm_alloc_page s = (c, s1)"
    and s': "s' = wr_ent parent i ((c AND NOT 0xFFF) OR PTE_P OR PTE_RW OR (if user then PTE_US else 0)) (zero_table c s1)"
    using a p nz by (auto simp: ensure_table_def Let_def split: prod.splits if_splits)
  note A = alloc_table_page [OF pt_invD(1) [OF inv] al nz]
  show "ent s parent i = None" using p by (simp add: ent_def)
  show fresh: "lv c = None" using A(2) pt_invD(3) [OF inv, of c] by (cases "lv c") auto
  note P = pt_invD(2,3) [OF inv L(1)]
  have cp: "c \<noteq> parent" using fresh L(1) by auto
  have Z: "pmm_ok (zero_table c s1)" "avail_pages (zero_table c s1) = avail_pages s - {c}"
    using zero_table_keeps [OF A(4,1)] A(3) by simp_all
  have pn: "parent \<notin> avail_pages (zero_table c s1)" using P(2) Z(2) by simp
  show avail: "avail_pages s' = avail_pages s - {c}"
    using wr_ent_keeps(2) [OF Z(1) P(1) pn L(3)] Z(2) by (simp add: s')
  show rd: "rd_ent s' t j = rd_ent s t j" if "lv t \<noteq> None" "j < 512" "t \<noteq> parent \<or> j \<noteq> i" for t j
  proof -
    have t: "table_page t" "t \<noteq> c" using that(1) pt_invD(2) [OF inv, of t] fresh by auto
    then show ?thesis
      using rd_wr_other [OF P(1) t(1) L(3) that(2)] that(3) rd_zero_other [OF A(1) t(1) _ that(2)] rd_alloc [OF al]
      by (auto simp: s')
  qed
  show new: "ent s' parent i = Some c"
    using new_entry [of c user] A(1) by (simp add: ent_def s' rd_wr_same table_page_def)
  show zero: "rd_ent s' c j = 0" if "j < 512" for j
    using rd_wr_other [OF P(1) A(1) L(3) that] cp rd_zero_same [OF A(1) that] by (simp add: s')
  have same: "ent s' t j = ent s t j" if "lv t \<noteq> None" "j < 512" "t \<noteq> parent \<or> j \<noteq> i" for t j
    using rd [OF that] by (rule ent_cong)
  have empty: "ent s' c j = None" if "j < 512" for j
    using zero [OF that] by (simp add: ent_def present_def)
  have step: "lv d = Some k \<and> d \<noteq> c \<and> ent s t j = Some d \<or> t = parent \<and> j = i \<and> d = c \<and> k = l"
    if "(lv(c \<mapsto> l)) t = Some (Suc k)" "1 \<le> k" "j < 512" "ent s' t j = Some d" for t j d k
  proof -
    have t: "lv t = Some (Suc k)" using that(1,3,4) empty by (auto split: if_splits)
    show ?thesis
    proof (cases "t = parent \<and> j = i")
      case True
      then show ?thesis using new that(4) t L(1) by simp
    next
      case False
      then have "ent s t j = Some d" using same [of t j] t that(3,4) by auto
      then show ?thesis using pt_invD(6) [OF inv t that(2,3)] fresh by auto
    qed
  qed
  show "pt_inv s' (lv(c \<mapsto> l))"
    unfolding pt_inv_def
  proof (intro conjI allI impI)
    show "pmm_ok s'" using wr_ent_keeps(1) [OF Z(1) P(1) pn L(3)] by (simp add: s')
    fix t k
    assume "(lv(c \<mapsto> l)) t = Some k"
    then show "table_page t" "t \<notin> avail_pages s'" "1 \<le> k" "k \<le> 4"
      using pt_invD(2-5) [OF inv, of t k] pt_invD(5) [OF inv L(1)] A(1) L(2) avail by (auto split: if_splits)
  next
    fix t k j d
    assume "(lv(c \<mapsto> l)) t = Some (Suc k) \<and> 1 \<le> k \<and> j < 512 \<and> ent s' t j = Some d"
    then show "(lv(c \<mapsto> l)) d = Some k" using step [of t k j d] by auto
  next
    fix t t' k j j' d
    assume b: "(lv(c \<mapsto> l)) t = Some (Suc k) \<and> (lv(c \<mapsto> l)) t' = Some (Suc k) \<and> 1 \<le> k \<and> j < 512 \<and> j' < 512
      \<and> ent s' t j = Some d \<and> ent s' t' j' = Some d"
    then have st: "lv d = Some k \<and> d \<noteq> c \<and> ent s t j = Some d \<or> t = parent \<and> j = i \<and> d = c \<and> k = l"
      "lv d = Some k \<and> d \<noteq> c \<and> ent s t' j' = Some d \<or> t' = parent \<and> j' = i \<and> d = c \<and> k = l"
      using step [of t k j d] step [of t' k j' d] by blast+
    moreover have "lv t = Some (Suc k)" "lv t' = Some (Suc k)" using b empty by (auto split: if_splits)
    ultimately have "j = j' \<and> (t = t' \<or> k = 3 \<and> 256 \<le> j)"
      using pt_invD(7) [OF inv, of t k t' j j' d] b by blast
    then show "j = j'" "t = t' \<or> k = 3 \<and> 256 \<le> j" by auto
  qed
qed

section \<open>Walking the tables\<close>

fun lookup :: "pmm \<Rightarrow> u64 \<Rightarrow> nat list \<Rightarrow> u64" where
  "lookup s t [] = 0"
| "lookup s t [i] = (if present (rd_ent s t i) then rd_ent s t i else 0)"
| "lookup s t (i # j # is) = (case ent s t i of None \<Rightarrow> 0 | Some c \<Rightarrow> lookup s c (j # is))"

fun tpath :: "pmm \<Rightarrow> u64 \<Rightarrow> nat list \<Rightarrow> u64 option" where
  "tpath s t [] = Some t"
| "tpath s t (i # is) = (case ent s t i of None \<Rightarrow> None | Some c \<Rightarrow> tpath s c is)"

definition vidx :: "u64 \<Rightarrow> nat list" where
  "vidx v = [idx_pml4 v, idx_pdpt v, idx_pd v, idx_pt v]"

lemma vidx_bound: "i \<in> set (vidx v) \<Longrightarrow> i < 512"
proof -
  have m: "(0x1FF :: u64) = mask 9" by (simp add: mask_eq_exp_minus_1)
  have "unat (x AND 0x1FF) < 512" for x :: u64 unfolding m using unat_and_mask [of x 9] by simp
  then show "i \<in> set (vidx v) \<Longrightarrow> i < 512" by (auto simp: vidx_def idx_pml4_def idx_pdpt_def idx_pd_def idx_pt_def)
qed

lemma present_nonzero: "present e \<Longrightarrow> e \<noteq> 0"
  by (auto simp: present_def)

lemma translate_lookup:
  "translate_in s r v = (let e = lookup s r (vidx v) in if e = 0 then 0 else (e AND PTE_ADDR) OR (v AND 0xFFF))"
  by (auto simp: translate_in_def vidx_def ent_def Let_def dest: present_nonzero)

lemma lookup_empty: "\<forall>j < 512. rd_ent s c j = 0 \<Longrightarrow> \<forall>i \<in> set is. i < 512 \<Longrightarrow> lookup s c is = 0"
  by (cases "(s, c, is)" rule: lookup.cases) (auto simp: ent_def present_def)

text \<open>
  How tables are added: pages for them come from the free ones, and memory changes in tables only.
\<close>

definition in_page :: "pmm \<Rightarrow> u64 \<Rightarrow> u64 \<Rightarrow> bool" where
  "in_page s t x \<longleftrightarrow> unat (x - (t + g_hhdm s)) < 4096"

definition grows :: "pmm \<Rightarrow> (u64 \<Rightarrow> nat option) \<Rightarrow> pmm \<Rightarrow> (u64 \<Rightarrow> nat option) \<Rightarrow> bool" where
  "grows s lv s' lv' \<longleftrightarrow> g_hhdm s' = g_hhdm s \<and> avail_pages s' \<subseteq> avail_pages s \<and> lv \<subseteq>\<^sub>m lv'
     \<and> dom lv' \<subseteq> dom lv \<union> avail_pages s \<and> (\<forall>x. pmm_mem s' x \<noteq> pmm_mem s x \<longrightarrow> (\<exists>t \<in> dom lv'. in_page s t x))"

lemma grows_refl: "grows s lv s lv"
  by (simp add: grows_def)

lemma growsD:
  assumes "grows s lv s' lv'"
  shows "g_hhdm s' = g_hhdm s" "avail_pages s' \<subseteq> avail_pages s" "lv \<subseteq>\<^sub>m lv'" "dom lv' \<subseteq> dom lv \<union> avail_pages s"
    "pmm_mem s' x \<noteq> pmm_mem s x \<Longrightarrow> \<exists>t \<in> dom lv'. in_page s t x"
  using assms unfolding grows_def by blast+

lemma grows_trans:
  assumes "grows s lv s1 lv1" "grows s1 lv1 s2 lv2"
  shows "grows s lv s2 lv2"
proof -
  note A = growsD [OF assms(1)] and B = growsD [OF assms(2)]
  have le: "lv \<subseteq>\<^sub>m lv2" "dom lv1 \<subseteq> dom lv2" using A(3) B(3) map_le_trans map_le_implies_dom_le by blast+
  have "\<exists>t \<in> dom lv2. in_page s t x" if "pmm_mem s2 x \<noteq> pmm_mem s x" for x
  proof (cases "pmm_mem s1 x = pmm_mem s x")
    case True
    then show ?thesis using B(5) [of x] that A(1) by (simp add: in_page_def)
  next
    case False
    then show ?thesis using A(5) [of x] le(2) by blast
  qed
  moreover have "dom lv2 \<subseteq> dom lv \<union> avail_pages s" using A(2,4) B(4) by blast
  ultimately show ?thesis unfolding grows_def using A(1,2) B(1,2) le(1) by simp
qed

lemma wr_ent_mem:
  assumes "table_page t" "i < 512" "pmm_mem (wr_ent t i e s) x \<noteq> pmm_mem s x"
  shows "in_page s t x"
proof (rule ccontr)
  assume "\<not> in_page s t x"
  then have "store64 (pmm_mem s) (ent_addr s t i) e x = pmm_mem s x"
    using ent_byte_in_page [OF assms(1,2)] unfolding in_page_def by (intro store64_outside) blast
  then show False using assms(3) by (simp add: wr_ent_def)
qed

lemma zero_table_mem:
  assumes "table_page t" "pmm_mem (zero_table t s) x \<noteq> pmm_mem s x"
  shows "in_page s t x"
  using assms by (auto simp: zero_table_def pmm_phys_to_virt_def table_page_def memzero_def in_page_def split: if_splits)

lemma wr_ent_grows:
  assumes "pt_inv s lv" "lv t = Some l" "i < 512"
  shows "grows s lv (wr_ent t i e s) lv"
proof -
  have "t \<in> dom lv" using assms(2) by (rule domI)
  then show ?thesis
  using wr_ent_keeps(2) [OF pt_invD(1) [OF assms(1)] pt_invD(2,3) [OF assms(1,2)] assms(3)]
    wr_ent_mem [OF pt_invD(2) [OF assms(1,2)] assms(3)]
  unfolding grows_def by (auto intro!: bexI [of _ t])
qed

text \<open>Making sure of a table changes no walk.\<close>

lemma ensure_table_spec:
  assumes inv: "pt_inv s lv" and L: "lv parent = Some (Suc l)" "1 \<le> l" "i < 512"
    and a: "ensure_table parent i user s = (c, s')" "c \<noteq> 0"
  obtains lv' where "pt_inv s' lv'" "lv' c = Some l" "lv \<subseteq>\<^sub>m lv'" "ent s' parent i = Some c"
    "\<And>t j. lv t \<noteq> None \<Longrightarrow> j < 512 \<Longrightarrow> t \<noteq> parent \<or> j \<noteq> i \<Longrightarrow> ent s' t j = ent s t j"
    "\<And>t is. lv t = Some (length is) \<Longrightarrow> \<forall>i \<in> set is. i < 512 \<Longrightarrow> lookup s' t is = lookup s t is"
    "grows s lv s' lv'" "ent s parent i \<noteq> None \<Longrightarrow> ent s' parent i = ent s parent i"
proof (cases "present (rd_ent s parent i)")
  case True
  note E = ensure_table_present [OF inv L a(1) True]
  have same: "ent s' t j = ent s t j" if "lv t \<noteq> None" "j < 512" for t j
    using E(1,6) E(5) [of t j] that ent_cong [of s' t j s] by (cases "t = parent \<and> j = i") auto
  have "lookup s' t is = lookup s t is" if "lv t = Some (length is)" "\<forall>i \<in> set is. i < 512" for t "is"
    using that
  proof (induction "is" arbitrary: t rule: induct_list012)
    case (2 k)
    have "t \<noteq> parent" using 2 L(1,2) by auto
    then show ?case using E(5) [of t k] 2 by simp
  next
    case (3 k j "is")
    then show ?case
      using same [of t k] pt_invD(6) [OF inv, of t "Suc (length is)" k] by (auto split: option.splits)
  qed simp
  moreover have "grows s lv s' lv"
    using wr_ent_grows [OF inv L(1,3)] grows_refl a(1) True by (auto simp: ensure_table_def Let_def split: if_splits)
  ultimately show thesis using E same by (intro that [of lv]) auto
next
  case False
  note E = ensure_table_fresh [OF inv L a(1) False a(2)]
  have same: "ent s' t j = ent s t j" if "lv t \<noteq> None" "j < 512" "t \<noteq> parent \<or> j \<noteq> i" for t j
    using E(5) [OF that] by (rule ent_cong)
  have "lookup s' t is = lookup s t is" if "lv t = Some (length is)" "\<forall>i \<in> set is. i < 512" for t "is"
    using that
  proof (induction "is" arbitrary: t rule: induct_list012)
    case (2 k)
    have "t \<noteq> parent" using 2 L(1,2) by auto
    then show ?case using E(5) [of t k] 2 by simp
  next
    case (3 k j "is")
    show ?case
    proof (cases "t = parent \<and> k = i")
      case True
      have "lookup s' c (j # is) = 0" using E(7) 3(4) by (intro lookup_empty) auto
      then show ?thesis using True E(1,6) by simp
    next
      case False
      then show ?thesis
        using same [of t k] pt_invD(6) [OF inv, of t "Suc (length is)" k] 3 by (auto split: option.splits)
    qed
  qed simp
  moreover have le: "lv \<subseteq>\<^sub>m lv(c \<mapsto> l)" using E(2) by (auto simp: map_le_def)
  moreover have "grows s lv s' (lv(c \<mapsto> l))"
  proof -
    obtain s1 e where al: "pmm_alloc_page s = (c, s1)" and s': "s' = wr_ent parent i e (zero_table c s1)"
      using a False by (auto simp: ensure_table_def Let_def split: prod.splits if_splits)
    note F = alloc_frame [OF al] and A = alloc_table_page [OF pt_invD(1) [OF inv] al a(2)]
    have h: "g_hhdm (zero_table c s1) = g_hhdm s" using F by (simp add: zero_table_def)
    have "in_page s c x \<or> in_page s parent x" if ne: "pmm_mem s' x \<noteq> pmm_mem s x" for x
    proof (cases "pmm_mem (zero_table c s1) x = pmm_mem s x")
      case True
      then show ?thesis
        using ne wr_ent_mem [OF pt_invD(2) [OF inv L(1)] L(3), of e "zero_table c s1" x] h by (simp add: s' in_page_def)
    next
      case False
      then show ?thesis using zero_table_mem [OF A(1), of s1 x] F by (simp add: in_page_def)
    qed
    moreover have "g_hhdm s' = g_hhdm s" using h by (simp add: s')
    ultimately show ?thesis unfolding grows_def using le E(4) A(2) L(1) by auto
  qed
  ultimately show thesis using E same by (intro that [of "lv(c \<mapsto> l)"]) auto
qed

lemma tpath_level:
  "pt_inv s lv \<Longrightarrow> lv t = Some (length is + l) \<Longrightarrow> 1 \<le> l \<Longrightarrow> \<forall>i \<in> set is. i < 512 \<Longrightarrow> tpath s t is = Some c \<Longrightarrow> lv c = Some l"
proof (induction s t "is" rule: tpath.induct)
  case (2 s t i "is")
  then obtain d where d: "ent s t i = Some d" "tpath s d is = Some c" by (auto split: option.splits)
  then have "lv d = Some (length is + l)" using pt_invD(6) [OF 2(2), of t "length is + l" i d] 2 by auto
  with 2 d show ?case by auto
qed simp

lemma tpath_snoc: "tpath s t (is @ [i]) = (case tpath s t is of None \<Rightarrow> None | Some c \<Rightarrow> ent s c i)"
  by (induction s t "is" rule: tpath.induct) (auto split: option.splits)

text \<open>A table is reached by one path only, but for sharing of the kernel half between roots.\<close>

lemma tpath_inj:
  assumes inv: "pt_inv s lv" and "lv r = Some 4" "lv r' = Some 4" "length js \<le> 3" "length ks = length js"
    and "\<forall>i \<in> set js. i < 512" "\<forall>i \<in> set ks. i < 512" "tpath s r js = Some t" "tpath s r' ks = Some t"
  shows "js = ks \<and> (r = r' \<or> js \<noteq> [] \<and> 256 \<le> hd js)"
  using assms(4-)
proof (induction js arbitrary: ks t rule: rev_induct)
  case Nil
  then show ?case by simp
next
  case (snoc j js)
  then obtain ks0 k where ks: "ks = ks0 @ [k]" "length ks0 = length js" by (metis length_append_singleton length_0_conv nat.simps(3) rev_exhaust append_Nil2 add_right_cancel length_append)
  obtain t1 where t1: "tpath s r js = Some t1" "ent s t1 j = Some t" using snoc(6) by (auto simp: tpath_snoc split: option.splits)
  obtain t2 where t2: "tpath s r' ks0 = Some t2" "ent s t2 k = Some t" using snoc(7) by (auto simp: ks tpath_snoc split: option.splits)
  define l where "l = 3 - length js"
  have l: "length js + Suc l = 4" "length ks0 + Suc l = 4" "1 \<le> l" "l = 3 \<longleftrightarrow> js = []"
    using snoc(2) ks(2) by (cases js; simp add: l_def)+
  have L: "lv t1 = Some (Suc l)" "lv t2 = Some (Suc l)"
    using tpath_level [OF inv, of r js "Suc l" t1] tpath_level [OF inv, of r' ks0 "Suc l" t2] assms(2,3) l snoc(4,5) t1(1) t2(1) ks
    by auto
  have "j = k \<and> (t1 = t2 \<or> l = 3 \<and> 256 \<le> j)"
    using pt_invD(7) [OF inv L l(3) _ _ t1(2) t2(2)] snoc(4,5) ks by auto
  then consider "j = k" "t1 = t2" | "j = k" "js = []" "256 \<le> j" using l(4) by auto
  then show ?case
  proof cases
    case 1
    then have "js = ks0 \<and> (r = r' \<or> js \<noteq> [] \<and> 256 \<le> hd js)"
      using snoc(1) [of ks0 t1] snoc(2,4,5) t1(1) t2(1) ks by auto
    with 1 ks show ?thesis by auto
  next
    case 2
    with ks show ?thesis by auto
  qed
qed

text \<open>Writing an entry of a last-level table changes the walks that end there, and no other.\<close>

lemma wr_leaf:
  assumes inv: "pt_inv s lv" and L: "lv pt = Some 1" "d < 512"
  shows "pt_inv (wr_ent pt d e s) lv" "lv t = Some (Suc k) \<Longrightarrow> 1 \<le> k \<Longrightarrow> i < 512 \<Longrightarrow> ent (wr_ent pt d e s) t i = ent s t i"
    "lv t = Some (length is) \<Longrightarrow> is \<noteq> [] \<Longrightarrow> \<forall>i \<in> set is. i < 512 \<Longrightarrow>
       lookup (wr_ent pt d e s) t is =
       (if tpath s t (butlast is) = Some pt \<and> last is = d then (if present e then e else 0) else lookup s t is)"
proof -
  note P = pt_invD(2,3) [OF inv L(1)]
  show same: "ent (wr_ent pt d e s) t i = ent s t i" if "lv t = Some (Suc k)" "1 \<le> k" "i < 512" for t k i
  proof (rule ent_cong)
    have "t \<noteq> pt" using that(1,2) L(1) by auto
    then show "rd_ent (wr_ent pt d e s) t i = rd_ent s t i"
      using rd_wr_other [OF P(1) _ L(2) that(3)] pt_invD(2) [OF inv that(1)] by simp
  qed
  show "pt_inv (wr_ent pt d e s) lv"
    using wr_ent_keeps [OF pt_invD(1) [OF inv] P L(2)] same by (intro pt_inv_cong [OF inv]) simp_all
  show "lookup (wr_ent pt d e s) t is =
      (if tpath s t (butlast is) = Some pt \<and> last is = d then (if present e then e else 0) else lookup s t is)"
    if "lv t = Some (length is)" "is \<noteq> []" "\<forall>i \<in> set is. i < 512"
    using that
  proof (induction "is" arbitrary: t rule: induct_list012)
    case (2 i)
    then show ?case
      using rd_wr_same [of pt d e s] rd_wr_other [OF P(1) _ L(2), of t i] pt_invD(2) [OF inv, of t] by auto
  next
    case (3 i j "is")
    have e: "ent (wr_ent pt d e s) t i = ent s t i" using same [of t "Suc (length is)" i] 3(3,5) by simp
    show ?case
    proof (cases "ent s t i")
      case None
      then show ?thesis using e by simp
    next
      case (Some c)
      then have "lv c = Some (length (j # is))" using pt_invD(6) [OF inv, of t "Suc (length is)" i c] 3(3,5) by simp
      from 3(2) [OF this] 3(5) show ?thesis using e Some by simp
    qed
  qed simp
qed

lemma ent_level_distinct: "lv t = Some l \<Longrightarrow> lv t' = Some l' \<Longrightarrow> l \<noteq> l' \<Longrightarrow> t \<noteq> t'"
  by auto

text \<open>Making sure of a table of one address space changes no path through the user half of another.\<close>

lemma ensure_other_root:
  assumes inv: "pt_inv s lv" and lr: "lv r = Some 4" "lv r' = Some 4" "r' \<noteq> r" and p: "tpath s r ps = Some parent" "length ps \<le> 3" "\<forall>i \<in> set ps. i < 512"
    and same: "\<And>t j. lv t \<noteq> None \<Longrightarrow> j < 512 \<Longrightarrow> t \<noteq> parent \<or> j \<noteq> i \<Longrightarrow> ent s' t j = ent s t j"
    and i: "is \<noteq> []" "length is \<le> 3" "\<forall>i \<in> set is. i < 512" "hd is < 256"
  shows "tpath s' r' is = tpath s r' is"
  using i
proof (induction "is" rule: rev_induct)
  case (snoc k "is")
  have IH: "tpath s' r' is = tpath s r' is" using snoc by (cases "is") simp_all
  show ?case
  proof (cases "tpath s r' is")
    case None
    then show ?thesis using IH by (simp add: tpath_snoc)
  next
    case (Some t)
    have len: "length is \<le> 2" using snoc.prems(2) by simp
    have "lv r' = Some (length is + (4 - length is))" using lr(2) len by simp
    from tpath_level [OF inv this _ _ Some] len snoc.prems(3) have lt: "lv t = Some (4 - length is)" by simp
    have "lv r = Some (length ps + (4 - length ps))" using lr(1) p(2) by simp
    from tpath_level [OF inv this _ p(3,1)] p(2) have lp: "lv parent = Some (4 - length ps)" by simp
    have "t \<noteq> parent"
    proof
      assume eq: "t = parent"
      then have l: "length ps = length is" using lt lp len p(2) by simp
      have q: "tpath s r ps = Some t" using p(1) eq by simp
      have "is = ps \<and> (r' = r \<or> is \<noteq> [] \<and> 256 \<le> hd is)"
        by (rule tpath_inj [OF inv lr(2,1) _ l _ p(3) Some q]) (use len snoc.prems(3) in simp_all)
      then show False using lr(3) snoc.prems(4) by (cases "is") auto
    qed
    then show ?thesis using IH Some same [of t k] lt snoc.prems(3) by (simp add: tpath_snoc)
  qed
qed simp

text \<open>The three tables of a mapping exist when its last entry is written.\<close>

lemma map_path:
  assumes inv: "pt_inv s lv" and r: "lv r = Some 4" and a: "vmm_map_page_into r virt phys flags s = (True, s')"
  obtains s3 lv3 pt where "pt_inv s3 lv3" "lv \<subseteq>\<^sub>m lv3" "lv3 pt = Some 1"
    "tpath s3 r [idx_pml4 virt, idx_pdpt virt, idx_pd virt] = Some pt"
    "\<And>t is. lv t = Some (length is) \<Longrightarrow> \<forall>i \<in> set is. i < 512 \<Longrightarrow> lookup s3 t is = lookup s t is"
    "s' = wr_ent pt (idx_pt virt) ((phys AND PTE_ADDR) OR make_pte_flags flags) s3" "grows s lv s3 lv3"
    "\<And>r' is. lv r' = Some 4 \<Longrightarrow> r' \<noteq> r \<Longrightarrow> is \<noteq> [] \<Longrightarrow> length is \<le> 3 \<Longrightarrow> \<forall>i \<in> set is. i < 512 \<Longrightarrow> hd is < 256 \<Longrightarrow>
       tpath s3 r' is = tpath s r' is"
proof -
  let ?u = "flags AND VMM_USER \<noteq> 0"
  let ?i1 = "idx_pml4 virt" and ?i2 = "idx_pdpt virt" and ?i3 = "idx_pd virt"
  have b: "?i1 < 512" "?i2 < 512" "?i3 < 512" using vidx_bound [of _ virt] by (auto simp: vidx_def)
  obtain pdpt s1 where E1: "ensure_table r ?i1 ?u s = (pdpt, s1)" "pdpt \<noteq> 0"
    using a by (cases "ensure_table r ?i1 ?u s") (auto simp: vmm_map_page_into_def Let_def split: if_splits)
  obtain pd s2 where E2: "ensure_table pdpt ?i2 ?u s1 = (pd, s2)" "pd \<noteq> 0"
    using a E1 by (cases "ensure_table pdpt ?i2 ?u s1") (auto simp: vmm_map_page_into_def Let_def split: if_splits)
  obtain pt s3 where E3: "ensure_table pd ?i3 ?u s2 = (pt, s3)" "pt \<noteq> 0"
    using a E1 E2 by (cases "ensure_table pd ?i3 ?u s2") (auto simp: vmm_map_page_into_def Let_def split: if_splits)
  have s': "s' = wr_ent pt (idx_pt virt) ((phys AND PTE_ADDR) OR make_pte_flags flags) s3"
    using a E1 E2 E3 by (simp add: vmm_map_page_into_def Let_def)
  have r4: "lv r = Some (Suc 3)" using r by simp
  obtain lv1 where T1: "pt_inv s1 lv1" "lv1 pdpt = Some 3" "lv \<subseteq>\<^sub>m lv1" "ent s1 r ?i1 = Some pdpt"
    "\<And>t is. lv t = Some (length is) \<Longrightarrow> \<forall>i \<in> set is. i < 512 \<Longrightarrow> lookup s1 t is = lookup s t is" "grows s lv s1 lv1" "\<And>t j. lv t \<noteq> None \<Longrightarrow> j < 512 \<Longrightarrow> t \<noteq> r \<or> j \<noteq> ?i1 \<Longrightarrow> ent s1 t j = ent s t j"
    by (rule ensure_table_spec [OF inv r4 _ b(1) E1]) auto
  have p3: "lv1 pdpt = Some (Suc 2)" using T1(2) by simp
  obtain lv2 where T2: "pt_inv s2 lv2" "lv2 pd = Some 2" "lv1 \<subseteq>\<^sub>m lv2" "ent s2 pdpt ?i2 = Some pd"
    "\<And>t j. lv1 t \<noteq> None \<Longrightarrow> j < 512 \<Longrightarrow> t \<noteq> pdpt \<or> j \<noteq> ?i2 \<Longrightarrow> ent s2 t j = ent s1 t j"
    "\<And>t is. lv1 t = Some (length is) \<Longrightarrow> \<forall>i \<in> set is. i < 512 \<Longrightarrow> lookup s2 t is = lookup s1 t is" "grows s1 lv1 s2 lv2"
    by (rule ensure_table_spec [OF T1(1) p3 _ b(2) E2]) auto
  have p2: "lv2 pd = Some (Suc 1)" using T2(2) by simp
  obtain lv3 where T3: "pt_inv s3 lv3" "lv3 pt = Some 1" "lv2 \<subseteq>\<^sub>m lv3" "ent s3 pd ?i3 = Some pt"
    "\<And>t j. lv2 t \<noteq> None \<Longrightarrow> j < 512 \<Longrightarrow> t \<noteq> pd \<or> j \<noteq> ?i3 \<Longrightarrow> ent s3 t j = ent s2 t j"
    "\<And>t is. lv2 t = Some (length is) \<Longrightarrow> \<forall>i \<in> set is. i < 512 \<Longrightarrow> lookup s3 t is = lookup s2 t is" "grows s2 lv2 s3 lv3"
    by (rule ensure_table_spec [OF T2(1) p2 _ b(3) E3]) auto
  have up: "lv1 t = Some l \<Longrightarrow> lv2 t = Some l" "lv2 t = Some l \<Longrightarrow> lv3 t = Some l" "lv t = Some l \<Longrightarrow> lv1 t = Some l" for t l
    using T1(3) T2(3) T3(3) by (auto simp: map_le_def dom_def)
  have R: "lv1 r = Some 4" "lv2 r = Some 4" "lv2 pdpt = Some 3" using up r T1(2) by blast+
  have ne: "r \<noteq> pdpt" "r \<noteq> pd" "pdpt \<noteq> pd" using R T1(2) T2(2) by auto
  have "ent s3 r ?i1 = Some pdpt"
    using ne T2(5) [of r ?i1] T3(5) [of r ?i1] R T1(2,4) T2(2) b(1) by auto
  moreover have "ent s3 pdpt ?i2 = Some pd"
    using ne T3(5) [of pdpt ?i2] R(3) T2(2,4) b(2) by auto
  ultimately have path: "tpath s3 r [?i1, ?i2, ?i3] = Some pt" using T3(4) by simp
  have look: "lookup s3 t is = lookup s t is" if "lv t = Some (length is)" "\<forall>i \<in> set is. i < 512" for t "is"
    using T1(5) [OF that] T2(6) [OF up(3) [OF that(1)] that(2)] T3(6) [OF up(1) [OF up(3) [OF that(1)]] that(2)] by simp
  have "lv \<subseteq>\<^sub>m lv3" using T1(3) T2(3) T3(3) map_le_trans by blast
  moreover have "grows s lv s3 lv3" using grows_trans T1(6) T2(7) T3(7) by blast
  moreover have "tpath s3 r' is = tpath s r' is"
    if q: "lv r' = Some 4" "r' \<noteq> r" and i: "is \<noteq> []" "length is \<le> 3" "\<forall>i \<in> set is. i < 512" "hd is < 256" for r' "is"
  proof -
    have q': "lv1 r' = Some 4" "lv2 r' = Some 4" using up q(1) by blast+
    have p1: "tpath s1 r [?i1] = Some pdpt" using T1(4) by simp
    have p2: "tpath s2 r [?i1, ?i2] = Some pd" using T2(4) T2(5) [of r ?i1] R(1) T1(4) ne(1) b(1) by simp
    have "tpath s1 r' is = tpath s r' is" by (rule ensure_other_root [OF inv r q, of "[]" r, OF _ _ _ T1(7) i]) simp_all
    moreover have "tpath s2 r' is = tpath s1 r' is"
      by (rule ensure_other_root [OF T1(1) R(1) q'(1) q(2) p1 _ _ T2(5) i]) (use b in simp_all)
    moreover have "tpath s3 r' is = tpath s2 r' is"
      by (rule ensure_other_root [OF T2(1) R(2) q'(2) q(2) p2 _ _ T3(5) i]) (use b in simp_all)
    ultimately show ?thesis by simp
  qed
  ultimately show thesis using that [OF T3(1) _ T3(2) path look s'] by blast
qed

lemma leaf_entry:
  "present ((phys AND PTE_ADDR) OR make_pte_flags flags)"
  "((phys AND PTE_ADDR) OR make_pte_flags flags) AND PTE_ADDR = phys AND PTE_ADDR"
proof -
  have "make_pte_flags flags AND PTE_P \<noteq> 0" "make_pte_flags flags AND PTE_ADDR = 0"
    by (simp_all add: make_pte_flags_def PTE_P_def PTE_RW_def PTE_US_def PTE_PCD_def PTE_PWT_def PTE_NX_def PTE_ADDR_def
        bit.conj_disj_distrib2)
  moreover have "PTE_ADDR AND PTE_P = 0" by (simp add: PTE_ADDR_def PTE_P_def)
  ultimately show "present ((phys AND PTE_ADDR) OR make_pte_flags flags)"
    "((phys AND PTE_ADDR) OR make_pte_flags flags) AND PTE_ADDR = phys AND PTE_ADDR"
    by (simp_all add: present_def bit.conj_disj_distrib2 and.assoc)
qed

lemma map_into_walks:
  assumes inv: "pt_inv s lv" and r: "lv r = Some 4" and a: "vmm_map_page_into r virt phys flags s = (True, s')"
  obtains lv' where "pt_inv s' lv'" "lv \<subseteq>\<^sub>m lv'"
    "\<And>v. translate_in s' r v = (if vidx v = vidx virt then (phys AND PTE_ADDR) OR (v AND 0xFFF) else translate_in s r v)"
    "\<And>r' v. lv r' = Some 4 \<Longrightarrow> r' \<noteq> r \<Longrightarrow> idx_pml4 v < 256 \<Longrightarrow> translate_in s' r' v = translate_in s r' v"
proof -
  obtain s3 lv3 pt where M: "pt_inv s3 lv3" "lv \<subseteq>\<^sub>m lv3" "lv3 pt = Some 1"
    "tpath s3 r [idx_pml4 virt, idx_pdpt virt, idx_pd virt] = Some pt"
    "\<And>t is. lv t = Some (length is) \<Longrightarrow> \<forall>i \<in> set is. i < 512 \<Longrightarrow> lookup s3 t is = lookup s t is"
    "s' = wr_ent pt (idx_pt virt) ((phys AND PTE_ADDR) OR make_pte_flags flags) s3"
    by (rule map_path [OF inv r a]) blast
  let ?e = "(phys AND PTE_ADDR) OR make_pte_flags flags"
  have up: "lv t = Some l \<Longrightarrow> lv3 t = Some l" for t l using M(2) by (auto simp: map_le_def dom_def)
  have vb: "\<forall>i \<in> set (vidx v). i < 512" for v using vidx_bound by blast
  have walk: "lookup s' q (vidx v) = (if tpath s3 q (butlast (vidx v)) = Some pt \<and> last (vidx v) = idx_pt virt then ?e else lookup s q (vidx v))"
    if "lv q = Some 4" for q v
    using wr_leaf(3) [OF M(1,3), of "idx_pt virt" q "vidx v" ?e] that up [OF that] vb M(5) [of q "vidx v"] leaf_entry(1)
    by (simp add: vidx_def M(6))
  have meets: "vidx v = vidx virt \<and> (q = r \<or> 256 \<le> idx_pml4 v)"
    if "lv q = Some 4" "tpath s3 q (butlast (vidx v)) = Some pt" "last (vidx v) = idx_pt virt" for q v
    using tpath_inj [OF M(1) up [OF that(1)] up [OF r], of "butlast (vidx v)" "butlast (vidx virt)" pt] that(2,3) M(4) vb
    by (auto simp: vidx_def)
  have "translate_in s' r v = (if vidx v = vidx virt then (phys AND PTE_ADDR) OR (v AND 0xFFF) else translate_in s r v)" for v
  proof (cases "vidx v = vidx virt")
    case True
    then have "lookup s' r (vidx v) = ?e" using walk [OF r, of v] M(4) by (simp add: vidx_def)
    then show ?thesis using True leaf_entry present_nonzero by (simp add: translate_lookup Let_def)
  next
    case False
    then have "lookup s' r (vidx v) = lookup s r (vidx v)" using walk [OF r, of v] meets [OF r, of v] by auto
    then show ?thesis using False by (simp add: translate_lookup)
  qed
  moreover have "translate_in s' r' v = translate_in s r' v" if "lv r' = Some 4" "r' \<noteq> r" "idx_pml4 v < 256" for r' v
  proof -
    have "lookup s' r' (vidx v) = lookup s r' (vidx v)" using walk [OF that(1), of v] meets [OF that(1), of v] that(2,3) by auto
    then show ?thesis by (simp add: translate_lookup)
  qed
  moreover have "pt_inv s' lv3" using wr_leaf(1) [OF M(1,3)] vb [of virt] by (simp add: M(6) vidx_def)
  ultimately show thesis using M(2) by (intro that [of lv3]) auto
qed

text \<open>The same for the entries that walks end at, with what else a mapping leaves alone.\<close>

lemma map_into_lookups:
  assumes inv: "pt_inv s lv" and r: "lv r = Some 4" and a: "vmm_map_page_into r virt phys flags s = (True, s')"
  obtains lv' where "pt_inv s' lv'" "grows s lv s' lv'"
    "\<And>is. length is = 4 \<Longrightarrow> \<forall>i \<in> set is. i < 512 \<Longrightarrow>
       lookup s' r is = (if is = vidx virt then (phys AND PTE_ADDR) OR make_pte_flags flags else lookup s r is)"
    "\<And>r' is. lv r' = Some 4 \<Longrightarrow> r' \<noteq> r \<Longrightarrow> length is = 4 \<Longrightarrow> \<forall>i \<in> set is. i < 512 \<Longrightarrow> hd is < 256 \<Longrightarrow> lookup s' r' is = lookup s r' is"
    "\<And>r' is. lv r' = Some 4 \<Longrightarrow> r' \<noteq> r \<Longrightarrow> is \<noteq> [] \<Longrightarrow> length is \<le> 3 \<Longrightarrow> \<forall>i \<in> set is. i < 512 \<Longrightarrow> hd is < 256 \<Longrightarrow>
       tpath s' r' is = tpath s r' is"
proof -
  obtain s3 lv3 pt where M: "pt_inv s3 lv3" "lv \<subseteq>\<^sub>m lv3" "lv3 pt = Some 1"
    "tpath s3 r [idx_pml4 virt, idx_pdpt virt, idx_pd virt] = Some pt"
    "\<And>t is. lv t = Some (length is) \<Longrightarrow> \<forall>i \<in> set is. i < 512 \<Longrightarrow> lookup s3 t is = lookup s t is"
    "s' = wr_ent pt (idx_pt virt) ((phys AND PTE_ADDR) OR make_pte_flags flags) s3" "grows s lv s3 lv3"
    "\<And>r' is. lv r' = Some 4 \<Longrightarrow> r' \<noteq> r \<Longrightarrow> is \<noteq> [] \<Longrightarrow> length is \<le> 3 \<Longrightarrow> \<forall>i \<in> set is. i < 512 \<Longrightarrow> hd is < 256 \<Longrightarrow>
       tpath s3 r' is = tpath s r' is"
    by (rule map_path [OF inv r a]) blast
  let ?e = "(phys AND PTE_ADDR) OR make_pte_flags flags"
  have up: "lv t = Some l \<Longrightarrow> lv3 t = Some l" for t l using M(2) by (auto simp: map_le_def dom_def)
  have vb: "\<forall>i \<in> set (vidx virt). i < 512" using vidx_bound by blast
  have d: "idx_pt virt < 512" using vb by (simp add: vidx_def)
  note W = wr_leaf [OF M(1,3) d, where e = ?e, folded M(6)]
  have bl: "butlast (vidx virt) = [idx_pml4 virt, idx_pdpt virt, idx_pd virt]" "last (vidx virt) = idx_pt virt" "length (vidx virt) = 4"
    by (simp_all add: vidx_def)
  have walk: "lookup s' q is = (if tpath s3 q (butlast is) = Some pt \<and> last is = idx_pt virt then ?e else lookup s q is)"
    if "lv q = Some 4" "length is = 4" "\<forall>i \<in> set is. i < 512" for q "is"
  proof -
    have "lv q = Some (length is)" "lv3 q = Some (length is)" "is \<noteq> []" using that up by auto
    then show ?thesis using W(3) [of q "is"] M(5) [of q "is"] that(3) leaf_entry(1) by simp
  qed
  have meets: "is = vidx virt \<and> (q = r \<or> 256 \<le> hd is)"
    if "lv q = Some 4" "length is = 4" "\<forall>i \<in> set is. i < 512" "tpath s3 q (butlast is) = Some pt" "last is = idx_pt virt" for q "is"
  proof -
    have ne: "is \<noteq> []" "butlast is \<noteq> []" using that(2) by (auto simp: butlast_conv_take)
    have b3: "length (butlast is) \<le> 3" "length (butlast (vidx virt)) = length (butlast is)" using that(2) bl(3) by simp_all
    have bs: "\<forall>i \<in> set (butlast is). i < 512" "\<forall>i \<in> set (butlast (vidx virt)). i < 512"
      using that(3) vb by (auto dest: in_set_butlastD)
    have "tpath s3 r (butlast (vidx virt)) = Some pt" using M(4) bl(1) by simp
    from tpath_inj [OF M(1) up [OF that(1)] up [OF r] b3 bs that(4) this]
    have "butlast is = butlast (vidx virt)" "q = r \<or> 256 \<le> hd (butlast is)" by blast+
    moreover have "hd (butlast is) = hd is" using ne by (cases "is") auto
    moreover have "is = butlast is @ [last is]" "vidx virt = butlast (vidx virt) @ [last (vidx virt)]"
      using ne by (simp_all add: vidx_def)
    ultimately show ?thesis using that(5) bl(2) by metis
  qed
  have "lookup s' r is = (if is = vidx virt then ?e else lookup s r is)" if "length is = 4" "\<forall>i \<in> set is. i < 512" for "is"
  proof (cases "is = vidx virt")
    case True
    then show ?thesis using walk [OF r that] M(4) bl(1,2) by simp
  next
    case False
    then show ?thesis using walk [OF r that] meets [OF r that] by auto
  qed
  moreover have "lookup s' r' is = lookup s r' is"
    if "lv r' = Some 4" "r' \<noteq> r" "length is = 4" "\<forall>i \<in> set is. i < 512" "hd is < 256" for r' "is"
    using walk [OF that(1,3,4)] meets [OF that(1,3,4)] that(2,5) by auto
  moreover have "tpath s' r' is = tpath s r' is"
    if q: "lv r' = Some 4" "r' \<noteq> r" and i: "is \<noteq> []" "length is \<le> 3" "\<forall>i \<in> set is. i < 512" "hd is < 256" for r' "is"
  proof -
    have "tpath s' t js = tpath s3 t js" if "lv3 t = Some (length js + k)" "1 \<le> k" "\<forall>i \<in> set js. i < 512" for t js k
      using that
    proof (induction js arbitrary: t)
      case (Cons j js)
      have e: "ent s' t j = ent s3 t j" using W(2) [where t = t and k = "length js + k" and i = j] Cons.prems by simp
      show ?case
        using e Cons.IH pt_invD(6) [OF M(1), of t "length js + k" j] Cons.prems by (auto split: option.split)
    qed simp
    from this [of r' "is" "4 - length is"] M(8) [OF q i] up [OF q(1)] i(2,3) show ?thesis by simp
  qed
  moreover have "grows s lv s' lv3" using grows_trans [OF M(7)] wr_ent_grows [OF M(1,3) d] unfolding M(6) by blast
  ultimately show thesis using that [OF W(1)] by blast
qed

lemma vidx_align_down: "vidx (align_down v) = vidx v"
  by (simp add: vidx_def align_down_def idx_pml4_def idx_pdpt_def idx_pd_def idx_pt_def drop_bit_and and.assoc)

text \<open>
  Claim C35. When a page is mapped in the current address space, every address of that page
  translates to the same offset in the mapped frame, every other address translates as
  before, and in every other address space all user addresses (the lower half) translate as
  before; the tables stay a forest with only the kernel half shared.
\<close>

theorem vmm_map_page_translates:
  assumes "pt_inv (v_pmm s) lv" "lv (read_cr3_phys s) = Some 4" "vmm_map_page virt phys flags s = (True, s')"
  shows "\<exists>lv'. pt_inv (v_pmm s') lv' \<and> lv \<subseteq>\<^sub>m lv'
    \<and> (\<forall>v. vmm_translate v s' = (if vidx v = vidx virt then (phys AND PTE_ADDR) OR (v AND 0xFFF) else vmm_translate v s))
    \<and> (\<forall>r v. lv r = Some 4 \<longrightarrow> r \<noteq> read_cr3_phys s \<longrightarrow> idx_pml4 v < 256 \<longrightarrow>
         translate_in (v_pmm s') r v = translate_in (v_pmm s) r v)"
proof -
  obtain p where p: "vmm_map_page_into (read_cr3_phys s) (align_down virt) phys flags (v_pmm s) = (True, p)" "s' = s\<lparr>v_pmm := p\<rparr>"
    using assms(3) by (auto simp: vmm_map_page_def split: prod.splits)
  obtain lv' where M: "pt_inv p lv'" "lv \<subseteq>\<^sub>m lv'"
    "\<And>v. translate_in p (read_cr3_phys s) v =
       (if vidx v = vidx (align_down virt) then (phys AND PTE_ADDR) OR (v AND 0xFFF) else translate_in (v_pmm s) (read_cr3_phys s) v)"
    "\<And>r' v. lv r' = Some 4 \<Longrightarrow> r' \<noteq> read_cr3_phys s \<Longrightarrow> idx_pml4 v < 256 \<Longrightarrow> translate_in p r' v = translate_in (v_pmm s) r' v"
    by (rule map_into_walks [OF assms(1,2) p(1)]) blast
  have "read_cr3_phys s' = read_cr3_phys s" by (simp add: p(2) read_cr3_phys_def)
  then show ?thesis
    using M by (intro exI [of _ lv']) (simp add: p(2) vmm_translate_def vidx_align_down)
qed

text \<open>Three free pages are enough for a mapping.\<close>

definition room :: "pmm \<Rightarrow> nat \<Rightarrow> bool" where
  "room s n \<longleftrightarrow> (\<exists>A. A \<subseteq> avail_pages s \<and> finite A \<and> card A = n)"

lemma room_less: "room s n \<Longrightarrow> m \<le> n \<Longrightarrow> room s m"
  unfolding room_def by (meson obtain_subset_with_card_n subset_trans)

lemma room_take: "room s (Suc n) \<Longrightarrow> avail_pages s' = avail_pages s - {c} \<Longrightarrow> room s' n"
proof -
  assume "room s (Suc n)" and s': "avail_pages s' = avail_pages s - {c}"
  then obtain A where A: "A \<subseteq> avail_pages s" "finite A" "card A = Suc n" by (auto simp: room_def)
  obtain B where "B \<subseteq> A - {c}" "card B = n"
    using A(2,3) by (metis card_Diff_singleton_if diff_Suc_1 le_SucI order_refl obtain_subset_with_card_n)
  with A s' finite_subset show ?thesis unfolding room_def by (metis (no_types) Diff_mono finite_Diff order_refl order_trans)
qed

lemma ensure_table_succeeds:
  assumes inv: "pt_inv s lv" and L: "lv parent = Some (Suc l)" "1 \<le> l" "i < 512" and n: "room s (Suc n)"
  obtains c s' where "ensure_table parent i user s = (c, s')" "c \<noteq> 0" "room s' n"
proof (cases "present (rd_ent s parent i)")
  case True
  obtain c s' where a: "ensure_table parent i user s = (c, s')" by force
  note E = ensure_table_present [OF inv L a True]
  have "c \<noteq> 0" using pt_invD(2) [OF inv E(2)] by (simp add: table_page_def)
  moreover have "room s' n" using room_less [OF n] E(4) by (simp add: room_def)
  ultimately show thesis using a by (intro that)
next
  case False
  obtain c s' where a: "ensure_table parent i user s = (c, s')" by force
  have "avail_pages s \<noteq> {}" using n by (auto simp: room_def)
  then have "fst (pmm_alloc_page s) \<noteq> 0" using pages.alloc_succeeds_iff [OF pt_invD(1) [OF inv]] by simp
  then have c: "c \<noteq> 0" using a False by (auto simp: ensure_table_def Let_def split: prod.splits if_splits)
  then have "room s' n" using room_take [OF n] ensure_table_fresh(4) [OF inv L a False c] by simp
  with a c show thesis by (intro that)
qed

lemma map_into_room:
  assumes inv: "pt_inv s lv" and r: "lv r = Some 4" and n: "room s (n + 3)"
  obtains s' where "vmm_map_page_into r virt phys flags s = (True, s')" "room s' n"
proof -
  let ?u = "flags AND VMM_USER \<noteq> 0"
  have b: "idx_pml4 virt < 512" "idx_pdpt virt < 512" "idx_pd virt < 512" using vidx_bound [of _ virt] by (auto simp: vidx_def)
  have r4: "lv r = Some (Suc 3)" and n3: "room s (Suc (n + 2))" using r n by (simp_all add: numeral_3_eq_3)
  obtain pdpt s1 where E1: "ensure_table r (idx_pml4 virt) ?u s = (pdpt, s1)" "pdpt \<noteq> 0" "room s1 (n + 2)"
    by (rule ensure_table_succeeds [OF inv r4 _ b(1) n3]) auto
  obtain lv1 where T1: "pt_inv s1 lv1" "lv1 pdpt = Some 3" by (rule ensure_table_spec [OF inv r4 _ b(1) E1(1,2)]) auto
  have p3: "lv1 pdpt = Some (Suc 2)" and n2: "room s1 (Suc (n + 1))" using T1 E1 by simp_all
  obtain pd s2 where E2: "ensure_table pdpt (idx_pdpt virt) ?u s1 = (pd, s2)" "pd \<noteq> 0" "room s2 (n + 1)"
    by (rule ensure_table_succeeds [OF T1(1) p3 _ b(2) n2]) auto
  obtain lv2 where T2: "pt_inv s2 lv2" "lv2 pd = Some 2" by (rule ensure_table_spec [OF T1(1) p3 _ b(2) E2(1,2)]) auto
  have p2: "lv2 pd = Some (Suc 1)" and n1: "room s2 (Suc n)" using T2 E2 by simp_all
  obtain pt s3 where E3: "ensure_table pd (idx_pd virt) ?u s2 = (pt, s3)" "pt \<noteq> 0" "room s3 n"
    by (rule ensure_table_succeeds [OF T2(1) p2 _ b(3) n1]) auto
  obtain lv3 where T3: "pt_inv s3 lv3" "lv3 pt = Some 1" by (rule ensure_table_spec [OF T2(1) p2 _ b(3) E3(1,2)]) auto
  let ?s' = "wr_ent pt (idx_pt virt) ((phys AND PTE_ADDR) OR make_pte_flags flags) s3"
  have "avail_pages ?s' = avail_pages s3"
    by (rule wr_ent_keeps(2) [OF pt_invD(1) [OF T3(1)] pt_invD(2,3) [OF T3]]) (use vidx_bound [of _ virt] in \<open>simp add: vidx_def\<close>)
  then have "room ?s' n" using E3(3) by (simp add: room_def)
  moreover have "vmm_map_page_into r virt phys flags s = (True, ?s')" using E1 E2 E3 by (simp add: vmm_map_page_into_def Let_def)
  ultimately show thesis by (intro that)
qed

lemma map_into_succeeds:
  assumes "pt_inv s lv" "lv r = Some 4" "room s 3"
  shows "fst (vmm_map_page_into r virt phys flags s)"
proof -
  obtain s' where "vmm_map_page_into r virt phys flags s = (True, s')"
    by (rule map_into_room [OF assms(1,2), of 0]) (use assms(3) in simp_all)
  then show ?thesis by simp
qed

section \<open>A new address space\<close>

lemma copy_ents:
  assumes "table_page src" "table_page dst" "src \<noteq> dst" "\<forall>i \<in> set is. i < 512" "pmm_ok s" "dst \<notin> avail_pages s"
  shows "pmm_ok (fold (copy_ent src dst) is s)" "avail_pages (fold (copy_ent src dst) is s) = avail_pages s"
    "table_page t \<Longrightarrow> t \<noteq> dst \<Longrightarrow> j < 512 \<Longrightarrow> rd_ent (fold (copy_ent src dst) is s) t j = rd_ent s t j"
    "j < 512 \<Longrightarrow> rd_ent (fold (copy_ent src dst) is s) dst j = (if j \<in> set is then rd_ent s src j else rd_ent s dst j)"
proof -
  have "pmm_ok (fold (copy_ent src dst) is s) \<and> avail_pages (fold (copy_ent src dst) is s) = avail_pages s
    \<and> (\<forall>t j. table_page t \<and> t \<noteq> dst \<and> j < 512 \<longrightarrow> rd_ent (fold (copy_ent src dst) is s) t j = rd_ent s t j)
    \<and> (\<forall>j < 512. rd_ent (fold (copy_ent src dst) is s) dst j = (if j \<in> set is then rd_ent s src j else rd_ent s dst j))"
    using assms(4-6)
  proof (induction "is" arbitrary: s)
    case (Cons i "is")
    let ?s = "copy_ent src dst i s"
    have K: "pmm_ok ?s" "avail_pages ?s = avail_pages s"
      using wr_ent_keeps [OF Cons(3) assms(2) Cons(4), of i] Cons(2) by (simp_all add: copy_ent_def)
    have rd: "rd_ent ?s t j = rd_ent s t j" if "table_page t" "j < 512" "t \<noteq> dst \<or> j \<noteq> i" for t j
      using rd_wr_other [OF assms(2) that(1) _ that(2), of i] that(3) Cons(2) by (auto simp: copy_ent_def)
    have new: "rd_ent ?s dst i = rd_ent s src i" by (simp add: copy_ent_def rd_wr_same)
    from Cons(1) [of ?s] Cons(2,4) K have IH: "pmm_ok (fold (copy_ent src dst) is ?s)" "avail_pages (fold (copy_ent src dst) is ?s) = avail_pages s"
      "\<forall>t j. table_page t \<and> t \<noteq> dst \<and> j < 512 \<longrightarrow> rd_ent (fold (copy_ent src dst) is ?s) t j = rd_ent ?s t j"
      "\<forall>j < 512. rd_ent (fold (copy_ent src dst) is ?s) dst j = (if j \<in> set is then rd_ent ?s src j else rd_ent ?s dst j)"
      by simp_all
    show ?case
      using IH rd new assms(1-3) Cons(2) by auto
  qed simp
  then show "pmm_ok (fold (copy_ent src dst) is s)" "avail_pages (fold (copy_ent src dst) is s) = avail_pages s"
    "table_page t \<Longrightarrow> t \<noteq> dst \<Longrightarrow> j < 512 \<Longrightarrow> rd_ent (fold (copy_ent src dst) is s) t j = rd_ent s t j"
    "j < 512 \<Longrightarrow> rd_ent (fold (copy_ent src dst) is s) dst j = (if j \<in> set is then rd_ent s src j else rd_ent s dst j)"
    by blast+
qed

lemma lookup_cong:
  assumes inv: "pt_inv s lv" and same: "\<And>t l j. lv t = Some l \<Longrightarrow> j < 512 \<Longrightarrow> rd_ent s' t j = rd_ent s t j"
    and "lv t = Some (length is)" "\<forall>i \<in> set is. i < 512"
  shows "lookup s' t is = lookup s t is"
  using assms(3,4)
proof (induction "is" arbitrary: t rule: induct_list012)
  case (2 i)
  then show ?case using same [of t] by simp
next
  case (3 i j "is")
  have e: "ent s' t i = ent s t i" using same [of t] 3(3,4) by (intro ent_cong) auto
  show ?case
  proof (cases "ent s t i")
    case None
    then show ?thesis using e by simp
  next
    case (Some c)
    then have "lv c = Some (length (j # is))" using pt_invD(6) [OF inv, of t "Suc (length is)" i c] 3(3,4) by simp
    from 3(2) [OF this] 3(4) show ?thesis using e Some by simp
  qed
qed simp

lemma new_root_inv:
  assumes inv: "pt_inv s lv" and K: "lv K = Some 4" and new: "lv r = None" "table_page r" "r \<notin> avail_pages s'"
    and ok: "pmm_ok s'" "avail_pages s' \<subseteq> avail_pages s"
    and same: "\<And>t l j. lv t = Some l \<Longrightarrow> j < 512 \<Longrightarrow> rd_ent s' t j = rd_ent s t j"
    and root: "\<And>j. j < 512 \<Longrightarrow> rd_ent s' r j = (if 256 \<le> j then rd_ent s K j else 0)"
  shows "pt_inv s' (lv(r \<mapsto> 4))"
proof -
  have e: "ent s' t j = ent s t j" if "lv t = Some l" "j < 512" for t l j using same [OF that] by (rule ent_cong)
  have er: "256 \<le> j \<and> ent s K j = Some d" if "j < 512" "ent s' r j = Some d" for j d
    using that root [of j] by (auto simp: ent_def present_def split: if_splits)
  have step: "\<exists>t'. lv t' = Some (Suc k) \<and> ent s t' j = Some d \<and> (t' = t \<and> t \<noteq> r \<or> t = r \<and> t' = K \<and> k = 3 \<and> 256 \<le> j)"
    if "(lv(r \<mapsto> 4)) t = Some (Suc k)" "j < 512" "ent s' t j = Some d" for t k j d
  proof (cases "t = r")
    case True
    then show ?thesis using that er [of j d] K by (intro exI [of _ K]) auto
  next
    case False
    then show ?thesis using that e [of t "Suc k" j] by (intro exI [of _ t]) auto
  qed
  show ?thesis
    unfolding pt_inv_def
  proof (intro conjI allI impI)
    show "pmm_ok s'" by (rule ok(1))
    fix t l
    assume "(lv(r \<mapsto> 4)) t = Some l"
    then show "table_page t" "t \<notin> avail_pages s'" "1 \<le> l" "l \<le> 4"
      using pt_invD(2-5) [OF inv, of t l] new(2,3) ok(2) by (auto split: if_splits)
  next
    fix t k j d
    assume a: "(lv(r \<mapsto> 4)) t = Some (Suc k) \<and> 1 \<le> k \<and> j < 512 \<and> ent s' t j = Some d"
    then obtain t' where "lv t' = Some (Suc k)" "ent s t' j = Some d" using step by blast
    then have "lv d = Some k" using pt_invD(6) [OF inv] a by blast
    then show "(lv(r \<mapsto> 4)) d = Some k" using new(1) by auto
  next
    fix t t' k j j' d
    assume a: "(lv(r \<mapsto> 4)) t = Some (Suc k) \<and> (lv(r \<mapsto> 4)) t' = Some (Suc k) \<and> 1 \<le> k \<and> j < 512 \<and> j' < 512
      \<and> ent s' t j = Some d \<and> ent s' t' j' = Some d"
    obtain u where u: "lv u = Some (Suc k)" "ent s u j = Some d" "u = t \<and> t \<noteq> r \<or> t = r \<and> u = K \<and> k = 3 \<and> 256 \<le> j"
      using step [of t k j d] a by blast
    obtain u' where u': "lv u' = Some (Suc k)" "ent s u' j' = Some d" "u' = t' \<and> t' \<noteq> r \<or> t' = r \<and> u' = K \<and> k = 3 \<and> 256 \<le> j'"
      using step [of t' k j' d] a by blast
    have "j = j' \<and> (u = u' \<or> k = 3 \<and> 256 \<le> j)" using pt_invD(7) [OF inv u(1) u'(1) _ _ _ u(2) u'(2)] a by blast
    then show "j = j'" "t = t' \<or> k = 3 \<and> 256 \<le> j" using u(3) u'(3) by auto
  qed
qed

lemma copy_ents_mem:
  assumes "table_page dst" "\<forall>i \<in> set is. i < 512"
  shows "g_hhdm (fold (copy_ent src dst) is s) = g_hhdm s
    \<and> (pmm_mem (fold (copy_ent src dst) is s) x \<noteq> pmm_mem s x \<longrightarrow> in_page s dst x)"
  using assms(2)
proof (induction "is" arbitrary: s)
  case (Cons i "is")
  let ?s = "copy_ent src dst i s"
  have h: "g_hhdm ?s = g_hhdm s" by (simp add: copy_ent_def)
  have "pmm_mem ?s x \<noteq> pmm_mem s x \<Longrightarrow> in_page s dst x"
    using wr_ent_mem [OF assms(1), of i "rd_ent s src i" s x] Cons.prems by (simp add: copy_ent_def)
  then show ?case using Cons.IH [of ?s] Cons.prems h by (auto simp: in_page_def)
qed simp

lemma create_root:
  assumes "pt_inv (v_pmm s) lv" "g_kernel_cr3 s \<noteq> 0" "lv (g_kernel_cr3 s) = Some 4"
    and "vmm_create_user_pagemap s = (r, s')" "r \<noteq> 0"
  shows "pt_inv (v_pmm s') (lv(r \<mapsto> 4))" "lv r = None" "grows (v_pmm s) lv (v_pmm s') (lv(r \<mapsto> 4))"
    "lv t = Some l \<Longrightarrow> j < 512 \<Longrightarrow> rd_ent (v_pmm s') t j = rd_ent (v_pmm s) t j"
    "j < 512 \<Longrightarrow> rd_ent (v_pmm s') r j = (if 256 \<le> j then rd_ent (v_pmm s) (g_kernel_cr3 s) j else 0)"
    "avail_pages (v_pmm s') = avail_pages (v_pmm s) - {r}"
proof -
  let ?K = "g_kernel_cr3 s"
  note inv = assms(1)
  define idxs :: "nat list" where "idxs = [256..<512]"
  have idxs: "i \<in> set idxs \<longleftrightarrow> 256 \<le> i \<and> i < 512" for i by (simp only: idxs_def set_upt atLeastLessThan_iff)
  obtain p where al: "pmm_alloc_page (v_pmm s) = (r, p)"
    and s': "v_pmm s' = fold (copy_ent ?K r) idxs (zero_table r p)"
    using assms(2,4,5) unfolding vmm_create_user_pagemap_def idxs_def [symmetric]
    by (auto simp: Let_def split: prod.splits if_splits)
  note A = alloc_table_page [OF pt_invD(1) [OF inv] al assms(5)]
  have fresh: "lv r = None" using A(2) pt_invD(3) [OF inv, of r] by (cases "lv r") auto
  have K: "table_page ?K" "?K \<noteq> r" using pt_invD(2) [OF inv assms(3)] fresh assms(3) by auto
  have Z: "pmm_ok (zero_table r p)" "avail_pages (zero_table r p) = avail_pages (v_pmm s) - {r}"
    using zero_table_keeps [OF A(4,1)] A(3) by simp_all
  have rn: "r \<notin> avail_pages (zero_table r p)" using Z(2) by simp
  have b: "\<forall>i \<in> set idxs. i < 512" by (simp add: idxs)
  note C = copy_ents [OF K(1) A(1) K(2) b Z(1) rn]
  have same: "rd_ent (v_pmm s') t j = rd_ent (v_pmm s) t j" if "lv t = Some l" "j < 512" for t l j
  proof -
    have "table_page t" "t \<noteq> r" using pt_invD(2) [OF inv that(1)] fresh that(1) by auto
    then show ?thesis
      using C(3) [of t j] rd_zero_other [OF A(1) _ _ that(2), of t p] rd_alloc [OF al] that(2) by (simp add: s')
  qed
  have root: "rd_ent (v_pmm s') r j = (if 256 \<le> j then rd_ent (v_pmm s) ?K j else 0)" if "j < 512" for j
    using C(4) [OF that] rd_zero_other [OF A(1) K(1) K(2) [symmetric] that, of p] rd_zero_same [OF A(1) that] rd_alloc [OF al] that
    by (simp add: s' idxs)
  have inv': "pt_inv (v_pmm s') (lv(r \<mapsto> 4))"
    using new_root_inv [OF inv assms(3) fresh A(1) _ _ _ same root] C(1,2) Z(2) by (simp add: s')
  have "lv \<subseteq>\<^sub>m lv(r \<mapsto> 4)" using fresh by (auto simp: map_le_def)
  moreover have "in_page (v_pmm s) r x" if "pmm_mem (v_pmm s') x \<noteq> pmm_mem (v_pmm s) x" for x
    using that copy_ents_mem [OF A(1) b, of ?K "zero_table r p" x] zero_table_mem [OF A(1), of p x] alloc_frame [OF al]
    by (cases "pmm_mem (zero_table r p) x = pmm_mem (v_pmm s) x") (auto simp: s' in_page_def zero_table_def)
  moreover have "g_hhdm (v_pmm s') = g_hhdm (v_pmm s)"
    using copy_ents_mem [OF A(1) b, of ?K "zero_table r p"] alloc_frame [OF al] by (simp add: s' zero_table_def)
  ultimately have "grows (v_pmm s) lv (v_pmm s') (lv(r \<mapsto> 4))"
    unfolding grows_def using C(2) Z(2) A(2) by (auto simp: s')
  then show "grows (v_pmm s) lv (v_pmm s') (lv(r \<mapsto> 4))" .
  show "avail_pages (v_pmm s') = avail_pages (v_pmm s) - {r}" using C(2) Z(2) by (simp add: s')
  show "pt_inv (v_pmm s') (lv(r \<mapsto> 4))" "lv r = None" using inv' fresh by blast+
  show "lv t = Some l \<Longrightarrow> j < 512 \<Longrightarrow> rd_ent (v_pmm s') t j = rd_ent (v_pmm s) t j"
    "j < 512 \<Longrightarrow> rd_ent (v_pmm s') r j = (if 256 \<le> j then rd_ent (v_pmm s) (g_kernel_cr3 s) j else 0)"
    using same root by blast+
qed

text \<open>
  A new address space translates every address of the kernel half exactly as the
  kernel's own tables do and no user address at all, and creating it changes no translation of
  any other address space.
\<close>

theorem vmm_create_shares_kernel:
  assumes "pt_inv (v_pmm s) lv" "g_kernel_cr3 s \<noteq> 0" "lv (g_kernel_cr3 s) = Some 4"
    and "vmm_create_user_pagemap s = (r, s')" "r \<noteq> 0"
  shows "pt_inv (v_pmm s') (lv(r \<mapsto> 4))
    \<and> (\<forall>v. translate_in (v_pmm s') r v = (if idx_pml4 v < 256 then 0 else translate_in (v_pmm s) (g_kernel_cr3 s) v))
    \<and> (\<forall>t v. lv t = Some 4 \<longrightarrow> t \<noteq> r \<and> translate_in (v_pmm s') t v = translate_in (v_pmm s) t v)"
proof -
  let ?K = "g_kernel_cr3 s"
  note inv = assms(1) and R = create_root [OF assms]
  note inv' = R(1) and fresh = R(2) and same = R(4) and root = R(5)
  have vb: "\<forall>i \<in> set (vidx v). i < 512" for v using vidx_bound by blast
  have L: "lookup (v_pmm s') t is = lookup (v_pmm s) t is" if "lv t = Some (length is)" "\<forall>i \<in> set is. i < 512" for t "is"
    by (rule lookup_cong [OF inv _ that]) (rule same)
  have "translate_in (v_pmm s') t v = translate_in (v_pmm s) t v" if "lv t = Some 4" for t v
    using L [of t "vidx v"] vb that by (simp add: translate_lookup vidx_def)
  moreover have "lookup (v_pmm s') r (vidx v) = (if idx_pml4 v < 256 then 0 else lookup (v_pmm s) ?K (vidx v))" for v
  proof -
    have i: "idx_pml4 v < 512" using vb [of v] by (simp add: vidx_def)
    have "ent (v_pmm s') r (idx_pml4 v) = (if idx_pml4 v < 256 then None else ent (v_pmm s) ?K (idx_pml4 v))"
      using root [OF i] by (simp add: ent_def present_def)
    moreover have "lookup (v_pmm s') c [idx_pdpt v, idx_pd v, idx_pt v] = lookup (v_pmm s) c [idx_pdpt v, idx_pd v, idx_pt v]"
      if "ent (v_pmm s) ?K (idx_pml4 v) = Some c" for c
      using pt_invD(6) [OF inv, of ?K 3 "idx_pml4 v" c] assms(3) i that vb [of v] by (intro L) (auto simp: vidx_def)
    ultimately show ?thesis by (auto simp: vidx_def split: option.splits)
  qed
  then have "translate_in (v_pmm s') r v = (if idx_pml4 v < 256 then 0 else translate_in (v_pmm s) ?K v)" for v
    by (simp add: translate_lookup)
  ultimately show ?thesis using inv' fresh by auto
qed

text \<open>A machine after start-up with one empty root table.\<close>

definition demo_pmm :: pmm where
  "demo_pmm = zero_table 0x1000000 (snd (pmm_alloc_page (pmm_init (Some sample_memmap) 0xffff800000000000 boot_pmm)))"

definition demo_vmm :: vmm where
  "demo_vmm = \<lparr>v_pmm = demo_pmm, v_cr3 = 0x1000000, g_kernel_cr3 = 0x1000000\<rparr>"

lemma demo_pmm_ok: "pt_inv demo_pmm [0x1000000 \<mapsto> 4]" "room demo_pmm 3" "room demo_pmm 4" "room demo_pmm 9"
  "j < 512 \<Longrightarrow> rd_ent demo_pmm 0x1000000 j = 0"
proof -
  let ?s = "pmm_init (Some sample_memmap) 0xffff800000000000 boot_pmm"
  obtain s1 where a: "pmm_alloc_page ?s = (0x1000000, s1)" using sample_alloc_twice [OF refl] by blast
  note A = alloc_table_page [OF sample_ready a]
  have Z: "pmm_ok demo_pmm" "avail_pages demo_pmm = avail_pages ?s - {0x1000000}"
    using zero_table_keeps [OF A(4,1)] A(3) a by (simp_all add: demo_pmm_def)
  have rd: "rd_ent demo_pmm 0x1000000 j = 0" if "j < 512" for j
    using rd_zero_same [OF A(1) that] by (simp add: demo_pmm_def a)
  then show "j < 512 \<Longrightarrow> rd_ent demo_pmm 0x1000000 j = 0" .
  have tp: "table_page 0x1000000" using A(1) by simp
  have none: "ent demo_pmm 0x1000000 j = None" if "j < 512" for j
    using rd [OF that] by (simp add: ent_def present_def)
  show "pt_inv demo_pmm [0x1000000 \<mapsto> 4]"
    unfolding pt_inv_def
  proof (intro conjI allI impI)
    show "pmm_ok demo_pmm" by (rule Z(1))
    fix t :: u64 and l :: nat
    assume "[0x1000000 \<mapsto> 4] t = Some l"
    then show "table_page t" "t \<notin> avail_pages demo_pmm" "1 \<le> l" "l \<le> 4"
      using tp Z(2) by (auto split: if_splits)
  qed (use none in \<open>auto split: if_splits\<close>)
  let ?A = "{0x1001000, 0x1002000, 0x1003000, 0x1004000, 0x1005000, 0x1006000, 0x1007000, 0x1008000, 0x1009000}"
  have "?A \<subseteq> bump_pages ?s - {0x1000000}"
    by (simp add: bump_pages_def page_aligned_def sample_fields)
  then have "?A \<subseteq> avail_pages demo_pmm"
    unfolding Z(2) by (auto simp: avail_pages_def)
  then show r: "room demo_pmm 9" unfolding room_def by (intro exI [of _ ?A]) simp
  show "room demo_pmm 4" "room demo_pmm 3" by (rule room_less [OF r], simp)+
qed

theorem vmm_map_page_translates_witness:
  "vmm_translate 0x400123 (snd (vmm_map_page 0x400000 0x2000000 VMM_USER demo_vmm)) = 0x2000123"
proof -
  have r: "read_cr3_phys demo_vmm = 0x1000000" by (simp add: read_cr3_phys_def demo_vmm_def)
  have p: "v_pmm demo_vmm = demo_pmm" by (simp add: demo_vmm_def)
  have "fst (vmm_map_page 0x400000 0x2000000 VMM_USER demo_vmm)"
    using map_into_succeeds [OF demo_pmm_ok(1) _ demo_pmm_ok(2), of "0x1000000" "align_down 0x400000" "0x2000000" VMM_USER]
    by (simp add: vmm_map_page_def r p case_prod_beta)
  then have m: "vmm_map_page 0x400000 0x2000000 VMM_USER demo_vmm = (True, snd (vmm_map_page 0x400000 0x2000000 VMM_USER demo_vmm))"
    by (simp add: prod_eq_iff)
  have i: "pt_inv (v_pmm demo_vmm) [0x1000000 \<mapsto> 4]" "[0x1000000 \<mapsto> 4] (read_cr3_phys demo_vmm) = Some 4"
    using demo_pmm_ok(1) by (simp_all add: r p)
  have "vidx 0x400123 = vidx 0x400000" by (simp add: vidx_def idx_pml4_def idx_pdpt_def idx_pd_def idx_pt_def)
  then show ?thesis using vmm_map_page_translates [OF i m] by (auto simp: PTE_ADDR_def)
qed

theorem vmm_create_shares_kernel_witness:
  "translate_in (v_pmm (snd (vmm_create_user_pagemap demo_vmm))) (fst (vmm_create_user_pagemap demo_vmm)) 0x400000 = 0"
proof -
  have i: "pt_inv (v_pmm demo_vmm) [0x1000000 \<mapsto> 4]" "g_kernel_cr3 demo_vmm \<noteq> 0" "[0x1000000 \<mapsto> 4] (g_kernel_cr3 demo_vmm) = Some 4"
    using demo_pmm_ok(1) by (simp_all add: demo_vmm_def)
  have "avail_pages demo_pmm \<noteq> {}" using demo_pmm_ok(2) by (auto simp: room_def)
  then have "fst (pmm_alloc_page demo_pmm) \<noteq> 0"
    using pages.alloc_succeeds_iff [OF pt_invD(1) [OF demo_pmm_ok(1)]] by simp
  then have nz: "fst (vmm_create_user_pagemap demo_vmm) \<noteq> 0"
    by (simp add: vmm_create_user_pagemap_def demo_vmm_def Let_def case_prod_beta)
  have "idx_pml4 0x400000 < 256" by (simp add: idx_pml4_def)
  with vmm_create_shares_kernel [OF i _ nz] show ?thesis by (metis prod.collapse)
qed

section \<open>Access from user mode\<close>

lemma user_page_ok_vidx: "vidx v = vidx w \<Longrightarrow> vmm_user_page_ok v write' s = vmm_user_page_ok w write' s"
  by (simp add: vidx_def vmm_user_page_ok_def)

lemma user_pages_ok_loop:
  assumes "unat end' + 4096 \<le> 2 ^ 64"
  shows "user_pages_ok v end' w s = Some (\<forall>k. unat v + 4096 * k < unat end' \<longrightarrow> vmm_user_page_ok (v + of_nat (4096 * k)) w s)"
proof (induction "unat end' - unat v" arbitrary: v rule: less_induct)
  case less
  show ?case
  proof (cases "v < end'")
    case False
    then show ?thesis by (subst user_pages_ok.simps) (simp add: word_less_nat_alt)
  next
    case True
    have u: "unat (v + 4096) = unat v + 4096"
      using True assms by (subst unat_add_no_wrap) (simp_all add: word_less_nat_alt)
    have split: "(\<forall>k. unat v + 4096 * k < unat end' \<longrightarrow> vmm_user_page_ok (v + of_nat (4096 * k)) w s) \<longleftrightarrow>
        vmm_user_page_ok v w s \<and> (\<forall>k. unat (v + 4096) + 4096 * k < unat end' \<longrightarrow> vmm_user_page_ok (v + 4096 + of_nat (4096 * k)) w s)"
      (is "?all \<longleftrightarrow> _ \<and> ?rest")
    proof
      assume a: ?all
      have "vmm_user_page_ok v w s" using a [rule_format, of 0] True by (simp add: word_less_nat_alt)
      moreover have ?rest
      proof (intro allI impI)
        fix k
        assume "unat (v + 4096) + 4096 * k < unat end'"
        then have "unat v + 4096 * Suc k < unat end'" using u by simp
        from a [rule_format, OF this] show "vmm_user_page_ok (v + 4096 + of_nat (4096 * k)) w s" by (simp add: add.assoc)
      qed
      ultimately show "vmm_user_page_ok v w s \<and> ?rest" ..
    next
      assume a: "vmm_user_page_ok v w s \<and> ?rest"
      show ?all
      proof (intro allI impI)
        fix k
        assume k: "unat v + 4096 * k < unat end'"
        show "vmm_user_page_ok (v + of_nat (4096 * k)) w s"
        proof (cases k)
          case 0
          then show ?thesis using a by simp
        next
          case (Suc n)
          then have "unat (v + 4096) + 4096 * n < unat end'" using k u by simp
          with a have "vmm_user_page_ok (v + 4096 + of_nat (4096 * n)) w s" by blast
          then show ?thesis by (simp add: Suc add.assoc)
        qed
      qed
    qed
    have "user_pages_ok (v + 4096) end' w s = Some ?rest"
      using less [of "v + 4096"] u True by (simp add: word_less_nat_alt)
    then show ?thesis using True split by (subst user_pages_ok.simps) simp
  qed
qed

lemma unat_align_down: "unat (align_down a) = 4096 * (unat a div 4096)"
  unfolding align_down_def unat_page_down by (rule minus_mod_eq_mult_div)

lemma user_accessible_iff:
  assumes "unat virt + unat size' + 4096 \<le> 2 ^ 64"
  shows "vmm_user_accessible virt size' w s =
    Some (\<forall>a. unat virt \<le> unat a \<longrightarrow> unat a < unat virt + unat size' \<longrightarrow> vmm_user_page_ok a w s)"
proof (cases "size' = 0")
  case True
  then show ?thesis by (simp add: vmm_user_accessible_def)
next
  case False
  let ?v = "align_down virt" and ?e = "virt + size'"
  have ue: "unat ?e = unat virt + unat size'" using assms by (subst unat_add_no_wrap) simp_all
  define q where "q = unat virt div 4096"
  have uv: "unat ?v = 4096 * q" unfolding q_def by (rule unat_align_down)
  have up: "unat ?v + 4096 * k < 2 ^ 64 \<Longrightarrow> unat (?v + of_nat (4096 * k)) = unat ?v + 4096 * k" for k
  proof -
    assume "unat ?v + 4096 * k < 2 ^ 64"
    then have "unat (of_nat (4096 * k) :: u64) = 4096 * k" by (simp only: unsigned_of_nat) (simp add: take_bit_nat_eq_self)
    then show ?thesis using \<open>unat ?v + 4096 * k < 2 ^ 64\<close> by (simp add: unat_add_no_wrap del: of_nat_mult)
  qed
  have "(\<forall>k. unat ?v + 4096 * k < unat ?e \<longrightarrow> vmm_user_page_ok (?v + of_nat (4096 * k)) w s) \<longleftrightarrow>
      (\<forall>a. unat virt \<le> unat a \<longrightarrow> unat a < unat ?e \<longrightarrow> vmm_user_page_ok a w s)" (is "?pages \<longleftrightarrow> ?all")
  proof
    assume p: ?pages
    show ?all
    proof (intro allI impI)
      fix a :: u64
      assume a: "unat virt \<le> unat a" "unat a < unat ?e"
      have "q \<le> unat a div 4096" unfolding q_def using a(1) by (rule div_le_mono)
      then obtain k where k: "unat a div 4096 = q + k" using le_Suc_ex by blast
      have "unat (align_down a) = 4096 * (q + k)" unfolding k [symmetric] by (rule unat_align_down)
      moreover have le: "unat (align_down a) \<le> unat a" unfolding unat_align_down by simp
      ultimately have kk: "unat ?v + 4096 * k < unat ?e" "unat ?v + 4096 * k < 2 ^ 64"
        using uv a(2) unat_u64_less [of ?e] by simp_all
      have "align_down a = ?v + of_nat (4096 * k)"
        using up [OF kk(2)] uv \<open>unat (align_down a) = 4096 * (q + k)\<close> by (simp add: word_unat_eq_iff)
      then have "vmm_user_page_ok (align_down a) w s" using p kk(1) by simp
      then show "vmm_user_page_ok a w s" using user_page_ok_vidx [OF vidx_align_down] by simp
    qed
  next
    assume a: ?all
    show ?pages
    proof (intro allI impI)
      fix k
      assume k: "unat ?v + 4096 * k < unat ?e"
      show "vmm_user_page_ok (?v + of_nat (4096 * k)) w s"
      proof (cases k)
        case 0
        have "0 < unat size'" using False by (simp add: unat_gt_0)
        then have "vmm_user_page_ok virt w s" using a ue by simp
        then show ?thesis using 0 user_page_ok_vidx [OF vidx_align_down] by simp
      next
        case (Suc n)
        have u: "unat (?v + of_nat (4096 * k)) = unat ?v + 4096 * k" using k unat_u64_less [of ?e] by (intro up) simp
        have "unat virt = 4096 * q + unat virt mod 4096" by (simp add: q_def)
        moreover have "unat virt mod 4096 < 4096" by simp
        ultimately have "unat virt \<le> unat ?v + 4096 * k" using uv Suc by simp
        then show ?thesis using a k u by simp
      qed
    qed
  qed
  moreover have "\<not> ?e < virt" using ue by (simp add: word_less_nat_alt)
  ultimately show ?thesis
    using False user_pages_ok_loop [of ?e ?v w s] assms ue by (simp add: vmm_user_accessible_def Let_def)
qed

text \<open>
  The entries that a walk of the tables for an address meets, one for every level, and what they say of
  an access from user mode: present (bit 0), user (bit 2) and, for a write, writable (bit 1), all four.
\<close>

fun walk_entries :: "pmm \<Rightarrow> u64 \<Rightarrow> nat list \<Rightarrow> u64 list" where
  "walk_entries s t [] = []"
| "walk_entries s t (i # is) = rd_ent s t i # walk_entries s (rd_ent s t i AND NOT 0xFFF) is"

definition user_may :: "bool \<Rightarrow> u64 \<Rightarrow> vmm \<Rightarrow> bool" where
  "user_may write' a s \<longleftrightarrow>
     (\<forall>e \<in> set (walk_entries (v_pmm s) (read_cr3_phys s) (vidx a)). bit e 0 \<and> bit e 2 \<and> (write' \<longrightarrow> bit e 1))"

lemma and_bit: "e AND 2 ^ n = (if bit e n then 2 ^ n else 0)" for e :: u64
  by (rule bit_word_eqI) (auto simp: bit_and_iff bit_exp_iff)

lemma user_page_ok_eq: "vmm_user_page_ok a w s \<longleftrightarrow> user_may w a s"
proof -
  have "user_ent_ok w e \<longleftrightarrow> bit e 0 \<and> bit e 2 \<and> (w \<longrightarrow> bit e 1)" for e
    using and_bit [of e 0] and_bit [of e 1] and_bit [of e 2]
    by (simp add: user_ent_ok_def present_def PTE_P_def PTE_US_def PTE_RW_def)
  then show ?thesis by (simp add: vmm_user_page_ok_def user_may_def vidx_def Let_def)
qed

text \<open>
  Claim C37. For a range that does not reach into the last page of the address space, the check that system calls
  make on user pointers ends, and accepts the range exactly when for every address in it the entries on
  all four levels of the tables are present, have the user bit, and for writing the write bit.
\<close>

theorem vmm_user_accessible_iff:
  assumes "unat virt + unat size' + 4096 \<le> 2 ^ 64"
  shows "vmm_user_accessible virt size' w s =
    Some (\<forall>a. unat virt \<le> unat a \<longrightarrow> unat a < unat virt + unat size' \<longrightarrow>
      (\<forall>e \<in> set (walk_entries (v_pmm s) (read_cr3_phys s) (vidx a)). bit e 0 \<and> bit e 2 \<and> (w \<longrightarrow> bit e 1)))"
  using user_accessible_iff [OF assms, of w s] unfolding user_page_ok_eq user_may_def .

section \<open>Frames of programs\<close>

lemma child_addr:
  assumes "table_page (e AND NOT 0xFFF)"
  shows "e AND PTE_ADDR = e AND NOT 0xFFF"
proof -
  have m: "PTE_ADDR = NOT 0xFFF AND mask 52" by (simp add: PTE_ADDR_def mask_eq_exp_minus_1)
  have "e AND PTE_ADDR = (e AND NOT 0xFFF) AND mask 52" unfolding m by (simp only: and.assoc)
  also have "\<dots> = take_bit 52 (e AND NOT 0xFFF)" by (simp only: take_bit_eq_mask)
  also have "\<dots> = e AND NOT 0xFFF"
  proof -
    have "unat (e AND NOT 0xFFF) < 2 ^ 52" using assms unfolding table_page_def by blast
    then show ?thesis unfolding word_unat_eq_iff unsigned_take_bit_eq by (rule take_bit_nat_eq_self)
  qed
  finally show ?thesis .
qed

lemma table_page_addr: "table_page n \<Longrightarrow> n AND PTE_ADDR = n"
proof -
  assume n: "table_page n"
  have "n AND NOT 0xFFF = n" using page_down_aligned [of n] n by (simp add: PAGE_SIZE_def table_page_def)
  then show ?thesis using child_addr [of n] n by simp
qed

text \<open>The indices of a page of the user half, one for every level.\<close>

definition quad :: "nat list \<Rightarrow> bool" where
  "quad q \<longleftrightarrow> length q = 4 \<and> (\<forall>i \<in> set q. i < 512) \<and> hd q < 256"

lemma quad_vidx: "idx_pml4 v < 256 \<Longrightarrow> quad (vidx v)"
  using vidx_bound [of _ v] by (auto simp: quad_def vidx_def)

lemma lookup_tpath: "js \<noteq> [] \<Longrightarrow> lookup s r (ps @ js) = (case tpath s r ps of None \<Rightarrow> 0 | Some t \<Rightarrow> lookup s t js)"
proof (induction ps arbitrary: r)
  case (Cons i ps)
  then obtain k ks where "ps @ js = k # ks" by (cases "ps @ js") auto
  then show ?case using Cons by (auto split: option.split)
qed simp

lemma lookup_empty_root:
  assumes "\<And>i. i < 256 \<Longrightarrow> ent s r i = None" "quad q"
  shows "lookup s r q = 0"
proof -
  obtain i js where q: "q = i # js" "length js = 3" "i < 256" using assms(2) by (cases q) (auto simp: quad_def)
  then have "js \<noteq> []" by auto
  with q show ?thesis using assms(1) [of i] lookup_tpath [of js s r "[i]"] by simp
qed

text \<open>
  The frames that an address space maps into its user half are whole pages, neither free nor page tables. A new
  address space has none, and mapping keeps this when the new frame is such a page.
\<close>

definition src_frames :: "pmm \<Rightarrow> (u64 \<Rightarrow> nat option) \<Rightarrow> u64 \<Rightarrow> bool" where
  "src_frames s lv src \<longleftrightarrow> (\<forall>q. quad q \<and> lookup s src q \<noteq> 0 \<longrightarrow>
     table_page (lookup s src q AND PTE_ADDR) \<and> lookup s src q AND PTE_ADDR \<notin> avail_pages s \<and> lv (lookup s src q AND PTE_ADDR) = None)"

lemma src_framesD:
  assumes "src_frames s lv src" "quad q" "lookup s src q \<noteq> 0"
  shows "table_page (lookup s src q AND PTE_ADDR)" "lookup s src q AND PTE_ADDR \<notin> avail_pages s" "lv (lookup s src q AND PTE_ADDR) = None"
  using assms unfolding src_frames_def by simp_all

lemma src_frames_create:
  assumes "pt_inv (v_pmm s) lv" "g_kernel_cr3 s \<noteq> 0" "lv (g_kernel_cr3 s) = Some 4"
    and "vmm_create_user_pagemap s = (r, s')" "r \<noteq> 0"
  shows "src_frames (v_pmm s') (lv(r \<mapsto> 4)) r"
proof -
  have "lookup (v_pmm s') r q = 0" if "quad q" for q
    by (rule lookup_empty_root [OF _ that]) (use create_root(5) [OF assms] in \<open>simp add: ent_def present_def\<close>)
  then show ?thesis unfolding src_frames_def by blast
qed

lemma src_frames_map:
  assumes inv: "pt_inv s lv" "lv r = Some 4" "src_frames s lv r" and f: "table_page f" "f \<notin> avail_pages s" "lv f = None"
    and a: "vmm_map_page_into r virt f flags s = (True, s')"
  shows "\<exists>lv'. pt_inv s' lv' \<and> lv \<subseteq>\<^sub>m lv' \<and> src_frames s' lv' r"
proof -
  obtain lv' where M: "pt_inv s' lv'" "grows s lv s' lv'"
      "\<And>is. length is = 4 \<Longrightarrow> \<forall>i \<in> set is. i < 512 \<Longrightarrow>
         lookup s' r is = (if is = vidx virt then (f AND PTE_ADDR) OR make_pte_flags flags else lookup s r is)"
    by (rule map_into_lookups [OF inv(1,2) a]) blast
  note G = growsD [OF M(2)]
  have keep: "g \<notin> avail_pages s'" "lv' g = None" if "g \<notin> avail_pages s" "lv g = None" for g using that G(2,4) by blast+
  have "src_frames s' lv' r"
    unfolding src_frames_def
  proof (intro allI impI)
    fix q
    assume q: "quad q \<and> lookup s' r q \<noteq> 0"
    then have l: "lookup s' r q = (if q = vidx virt then (f AND PTE_ADDR) OR make_pte_flags flags else lookup s r q)"
      using M(3) [of q] by (simp add: quad_def)
    show "table_page (lookup s' r q AND PTE_ADDR) \<and> lookup s' r q AND PTE_ADDR \<notin> avail_pages s' \<and> lv' (lookup s' r q AND PTE_ADDR) = None"
    proof (cases "q = vidx virt")
      case True
      then have "lookup s' r q AND PTE_ADDR = f" using l leaf_entry(2) [of f flags] table_page_addr [OF f(1)] by simp
      then show ?thesis using f keep by simp
    next
      case False
      then show ?thesis using l q src_framesD [OF inv(3), of q] keep by simp
    qed
  qed
  then show ?thesis using M(1) G(3) by blast
qed

section \<open>Unmapping\<close>

lemma free_page_spec:
  assumes "pmm_ok s" "table_page c" "c \<notin> avail_pages s"
  shows "pmm_ok (pmm_free_page c s)" "avail_pages (pmm_free_page c s) \<subseteq> insert c (avail_pages s)"
    "table_page t \<Longrightarrow> t \<noteq> c \<Longrightarrow> j < 512 \<Longrightarrow> rd_ent (pmm_free_page c s) t j = rd_ent s t j"
proof -
  have al: "c AND NOT (PAGE_SIZE - 1) = c" using assms(2) by (intro page_down_aligned) (simp add: table_page_def)
  have "pmm_ok (pmm_free_page c s) \<and> avail_pages (pmm_free_page c s) \<subseteq> insert c (avail_pages s)"
  proof (cases "managed s c")
    case True
    then show ?thesis using pages.free_gives [OF assms(1) True assms(3)] by auto
  next
    case False
    then have "pmm_free_page c s = s"
      using al assms(2) by (auto simp: pmm_free_page_def managed_def table_page_def Let_def)
    then show ?thesis using assms(1) by auto
  qed
  then show "pmm_ok (pmm_free_page c s)" "avail_pages (pmm_free_page c s) \<subseteq> insert c (avail_pages s)" by simp_all
  assume t: "table_page t" "t \<noteq> c" "j < 512"
  have "apart (ent_addr s c 0) (ent_addr s t j)" using ent_apart [OF assms(2) t(1) _ t(3)] t(2) by simp
  then have "load64 (store64 (pmm_mem s) (pmm_phys_to_virt s c) v) (ent_addr s t j) = load64 (pmm_mem s) (ent_addr s t j)" for v
    using load64_store64_apart by (simp add: ent_addr_def)
  moreover have "ent_addr (s\<lparr>pmm_mem := m, g_free_list := f, g_pmm_free_pages := n\<rparr>) t j = ent_addr s t j" for m f n
    by (simp add: ent_addr_def pmm_phys_to_virt_def)
  ultimately show "rd_ent (pmm_free_page c s) t j = rd_ent s t j"
    using al by (simp add: pmm_free_page_def Let_def rd_ent_def)
qed

text \<open>
  Giving back a table that maps nothing, after its only entry is cleared, changes no walk.
\<close>

lemma drop_table:
  assumes inv: "pt_inv s lv" and L: "lv t = Some (Suc l)" "1 \<le> l" "i < 512"
    and c: "ent s t i = Some c" "table_is_empty s c" and own: "l = 3 \<Longrightarrow> i < 256"
  shows "pt_inv (pmm_free_page c (wr_ent t i 0 s)) (lv(c := None))"
    "\<And>t' j. lv t' \<noteq> None \<Longrightarrow> t' \<noteq> c \<Longrightarrow> j < 512 \<Longrightarrow> t' \<noteq> t \<or> j \<noteq> i \<Longrightarrow>
      rd_ent (pmm_free_page c (wr_ent t i 0 s)) t' j = rd_ent s t' j"
    "\<And>t' is. lv t' = Some (length is) \<Longrightarrow> t' \<noteq> c \<Longrightarrow> \<forall>i \<in> set is. i < 512 \<Longrightarrow>
      lookup (pmm_free_page c (wr_ent t i 0 s)) t' is = lookup s t' is"
proof -
  let ?w = "wr_ent t i 0 s"
  let ?s = "pmm_free_page c ?w"
  note T = pt_invD(2,3) [OF inv L(1)]
  have lc: "lv c = Some l" using pt_invD(6) [OF inv L(1,2,3) c(1)] .
  note C = pt_invD(2,3) [OF inv lc]
  have tc: "t \<noteq> c" using L(1) lc by auto
  note W = wr_ent_keeps [OF pt_invD(1) [OF inv] T L(3)]
  have F: "pmm_ok ?s" "avail_pages ?s \<subseteq> insert c (avail_pages s)"
    using free_page_spec(1,2) [of ?w c] W C by auto
  have rd: "rd_ent ?s t' j = (if t' = t \<and> j = i then 0 else rd_ent s t' j)" if "table_page t'" "t' \<noteq> c" "j < 512" for t' j
  proof -
    have "rd_ent ?s t' j = rd_ent ?w t' j" using free_page_spec(3) [of ?w c t' j] W C that by auto
    then show ?thesis using rd_wr_same [of t i 0 s] rd_wr_other [OF T(1) that(1) L(3) that(3)] by auto
  qed
  show rd': "rd_ent ?s t' j = rd_ent s t' j" if "lv t' \<noteq> None" "t' \<noteq> c" "j < 512" "t' \<noteq> t \<or> j \<noteq> i" for t' j
    using rd [of t' j] that pt_invD(2) [OF inv] by auto
  have gone: "ent ?s t i = None" using rd [OF T(1) tc L(3)] by (simp add: ent_def present_def)
  have ent': "ent ?s t' j = (if t' = t \<and> j = i then None else ent s t' j)" if "lv t' \<noteq> None" "t' \<noteq> c" "j < 512" for t' j
    using gone rd' [OF that] by (auto simp: ent_def)
  have only: "t' = t \<and> j = i" if "lv t' = Some (Suc k)" "1 \<le> k" "j < 512" "ent s t' j = Some c" for t' k j
  proof -
    have "k = l" using pt_invD(6) [OF inv that] lc by simp
    then show ?thesis using pt_invD(7) [OF inv that(1) _ that(2,3) L(3) that(4) c(1)] L(1) own by auto
  qed
  show "pt_inv ?s (lv(c := None))"
    unfolding pt_inv_def
  proof (intro conjI allI impI)
    show "pmm_ok ?s" by (rule F(1))
    fix t' k
    assume a: "(lv(c := None)) t' = Some k"
    then have b: "lv t' = Some k" "t' \<noteq> c" by (auto split: if_splits)
    show "table_page t'" "1 \<le> k" "k \<le> 4" using pt_invD(2,4,5) [OF inv b(1)] .
    show "t' \<notin> avail_pages ?s" using F(2) b(2) pt_invD(3) [OF inv b(1)] by auto
  next
    fix t' k j d
    assume a: "(lv(c := None)) t' = Some (Suc k) \<and> 1 \<le> k \<and> j < 512 \<and> ent ?s t' j = Some d"
    then have b: "lv t' = Some (Suc k)" "t' \<noteq> c" "1 \<le> k" "j < 512" by (auto split: if_splits)
    then have e: "ent s t' j = Some d" "\<not> (t' = t \<and> j = i)" using a ent' [of t' j] by (auto split: if_splits)
    have "d \<noteq> c" using only [OF b(1,3,4)] e by auto
    then show "(lv(c := None)) d = Some k" using pt_invD(6) [OF inv b(1,3,4) e(1)] by simp
  next
    fix t1 t2 k j1 j2 d
    assume a: "(lv(c := None)) t1 = Some (Suc k) \<and> (lv(c := None)) t2 = Some (Suc k) \<and> 1 \<le> k \<and> j1 < 512 \<and> j2 < 512
      \<and> ent ?s t1 j1 = Some d \<and> ent ?s t2 j2 = Some d"
    then have b: "lv t1 = Some (Suc k)" "t1 \<noteq> c" "lv t2 = Some (Suc k)" "t2 \<noteq> c" "1 \<le> k" "j1 < 512" "j2 < 512"
      by (auto split: if_splits)
    then have e: "ent s t1 j1 = Some d" "ent s t2 j2 = Some d" using a ent' [of t1 j1] ent' [of t2 j2] by (auto split: if_splits)
    show "j1 = j2" "t1 = t2 \<or> k = 3 \<and> 256 \<le> j1" using pt_invD(7) [OF inv b(1,3,5,6,7) e] by auto
  qed
  have dead: "lookup s c is = 0" if "\<forall>i \<in> set is. i < 512" for "is"
    using c(2) that by (cases "(s, c, is)" rule: lookup.cases) (auto simp: ent_def table_is_empty_def list_all_iff)
  show "lookup ?s t' is = lookup s t' is" if "lv t' = Some (length is)" "t' \<noteq> c" "\<forall>i \<in> set is. i < 512" for t' "is"
    using that
  proof (induction "is" arbitrary: t' rule: induct_list012)
    case (2 k)
    have "t' \<noteq> t" using 2 L(1,2) by auto
    then show ?case using rd' [of t' k] 2 by simp
  next
    case (3 k j "is")
    show ?case
    proof (cases "t' = t \<and> k = i")
      case True
      have "lookup s c (j # is) = 0" using 3(5) by (intro dead) auto
      then show ?thesis using True gone c(1) by simp
    next
      case False
      show ?thesis
      proof (cases "ent s t' k")
        case None
        then show ?thesis using ent' [of t' k] False 3 by auto
      next
        case (Some d)
        have "lv d = Some (length (j # is))" using pt_invD(6) [OF inv, of t' "Suc (length is)" k d] 3(3,5) Some by simp
        moreover have "d \<noteq> c" using only [of t' "Suc (length is)" k] 3(3,5) Some False by auto
        ultimately show ?thesis using 3(2) [of d] 3(5) ent' [of t' k] Some False 3(3,4) by auto
      qed
    qed
  qed simp
qed

text \<open>\<open>unmapped s lv r v s'\<close>: below the roots of \<open>lv\<close>, just the page of \<open>v\<close> in \<open>r\<close> is gone.\<close>

definition unmapped :: "pmm \<Rightarrow> (u64 \<Rightarrow> nat option) \<Rightarrow> u64 \<Rightarrow> u64 \<Rightarrow> pmm \<Rightarrow> (u64 \<Rightarrow> nat option) \<Rightarrow> bool" where
  "unmapped s lv r v s' lv' \<longleftrightarrow> pt_inv s' lv' \<and> (\<forall>r'. lv r' = Some 4 \<longrightarrow> lv' r' = Some 4)
     \<and> (\<forall>r' w. lv r' = Some 4 \<longrightarrow> lookup s' r' (vidx w) = (if r' = r \<and> vidx w = vidx v then 0 else lookup s r' (vidx w)))"

lemma unmapped_drop:
  assumes u: "unmapped s lv r v s' lv'" and L: "lv' t = Some (Suc l)" "1 \<le> l" "i < 512"
    and c: "ent s' t i = Some c" "table_is_empty s' c" and own: "l = 3 \<Longrightarrow> i < 256"
  shows "unmapped s lv r v (pmm_free_page c (wr_ent t i 0 s')) (lv'(c := None))"
proof -
  have inv: "pt_inv s' lv'" using u by (simp add: unmapped_def)
  have "l \<le> 3" using pt_invD(5) [OF inv L(1)] by simp
  then have "lv' c \<noteq> Some 4" using pt_invD(6) [OF inv L c(1)] by simp
  then have R: "lv' r' = Some 4 \<and> r' \<noteq> c" if "lv r' = Some 4" for r' using u that by (auto simp: unmapped_def)
  have "lookup (pmm_free_page c (wr_ent t i 0 s')) r' (vidx w) = lookup s' r' (vidx w)" if "lv r' = Some 4" for r' w
    using drop_table(3) [OF inv L c own, of r' "vidx w"] R [OF that] vidx_bound by (auto simp: vidx_def)
  then show ?thesis using drop_table(1) [OF inv L c own] R u by (auto simp: unmapped_def)
qed

lemma unmapped_leaf:
  assumes inv: "pt_inv s lv" and r: "lv r = Some 4" and user: "idx_pml4 v < 256"
    and p: "tpath s r [idx_pml4 v, idx_pdpt v, idx_pd v] = Some pt" and pt: "lv pt = Some 1"
  shows "unmapped s lv r v (wr_ent pt (idx_pt v) 0 s) lv"
proof -
  have b: "idx_pml4 w < 512" "idx_pdpt w < 512" "idx_pd w < 512" "idx_pt w < 512" for w
    using vidx_bound [of _ w] by (simp_all add: vidx_def)
  note W = wr_leaf [OF inv pt b(4) [of v], where e = 0]
  have "lookup (wr_ent pt (idx_pt v) 0 s) r' (vidx w) = (if r' = r \<and> vidx w = vidx v then 0 else lookup s r' (vidx w))"
    if r': "lv r' = Some 4" for r' w
  proof -
    let ?p = "[idx_pml4 w, idx_pdpt w, idx_pd w]"
    have "tpath s r' ?p = Some pt \<and> idx_pt w = idx_pt v \<longleftrightarrow> r' = r \<and> vidx w = vidx v"
    proof
      assume a: "tpath s r' ?p = Some pt \<and> idx_pt w = idx_pt v"
      then have "[idx_pml4 v, idx_pdpt v, idx_pd v] = ?p \<and> (r = r' \<or> 256 \<le> idx_pml4 v)"
        using tpath_inj [OF inv r r' _ _ _ _ p, of ?p] b by auto
      then show "r' = r \<and> vidx w = vidx v" using a user by (auto simp: vidx_def)
    next
      assume "r' = r \<and> vidx w = vidx v"
      then show "tpath s r' ?p = Some pt \<and> idx_pt w = idx_pt v" using p by (auto simp: vidx_def)
    qed
    moreover have "lookup (wr_ent pt (idx_pt v) 0 s) r' (vidx w) =
        (if tpath s r' ?p = Some pt \<and> idx_pt w = idx_pt v then 0 else lookup s r' (vidx w))"
      using W(3) [of r' "vidx w"] r' b by (simp add: vidx_def present_def)
    ultimately show ?thesis by simp
  qed
  then show ?thesis using W(1) by (simp add: unmapped_def)
qed

lemma unmap_spec:
  assumes inv: "pt_inv s lv" and r: "lv r = Some 4" and user: "idx_pml4 v < 256" and a: "unmap_in r v s = (ok, s')"
  shows "ok \<longleftrightarrow> lookup s r (vidx v) \<noteq> 0" "ok \<Longrightarrow> \<exists>lv'. unmapped s lv r v s' lv'" "\<not> ok \<Longrightarrow> s' = s"
proof -
  let ?i1 = "idx_pml4 v" and ?i2 = "idx_pdpt v" and ?i3 = "idx_pd v" and ?i4 = "idx_pt v"
  have b: "?i1 < 512" "?i2 < 512" "?i3 < 512" "?i4 < 512" using vidx_bound [of _ v] by (simp_all add: vidx_def)
  have addr: "rd_ent s t i AND PTE_ADDR = c" if "ent s t i = Some c" "lv c = Some l" for t i c l
    using that child_addr [of "rd_ent s t i"] pt_invD(2) [OF inv that(2)] by (auto simp: ent_def split: if_splits)
  have "(ok \<longleftrightarrow> lookup s r (vidx v) \<noteq> 0) \<and> (ok \<longrightarrow> (\<exists>lv'. unmapped s lv r v s' lv')) \<and> (\<not> ok \<longrightarrow> s' = s)"
  proof (cases "ent s r ?i1")
    case None
    then show ?thesis using a by (auto simp: unmap_in_def vidx_def ent_def split: if_splits)
  next
    case E1: (Some pdpt)
    then have l3: "lv pdpt = Some 3" using pt_invD(6) [OF inv, of r 3 ?i1] r b by simp
    show ?thesis
    proof (cases "ent s pdpt ?i2")
      case None
      then show ?thesis using a E1 addr [OF E1 l3] by (auto simp: unmap_in_def vidx_def ent_def split: if_splits)
    next
      case E2: (Some pd)
      then have l2: "lv pd = Some 2" using pt_invD(6) [OF inv, of pdpt 2 ?i2] l3 b by simp
      show ?thesis
      proof (cases "ent s pd ?i3")
        case None
        then show ?thesis using a E1 E2 addr [OF E1 l3] addr [OF E2 l2]
          by (auto simp: unmap_in_def vidx_def ent_def split: if_splits)
      next
        case E3: (Some pt)
        then have l1: "lv pt = Some 1" using pt_invD(6) [OF inv, of pd 1 ?i3] l2 b by simp
        note A = addr [OF E1 l3] addr [OF E2 l2] addr [OF E3 l1]
        show ?thesis
        proof (cases "present (rd_ent s pt ?i4)")
          case False
          then show ?thesis using a E1 E2 E3 A by (auto simp: unmap_in_def vidx_def ent_def split: if_splits)
        next
          case True
          define s1 where "s1 = wr_ent pt ?i4 0 s"
          define s2 where "s2 = pmm_free_page pt (wr_ent pd ?i3 0 s1)"
          define s3 where "s3 = pmm_free_page pd (wr_ent pdpt ?i2 0 s2)"
          define s4 where "s4 = pmm_free_page pdpt (wr_ent r ?i1 0 s3)"
          have out: "ok \<and> s' = (if \<not> table_is_empty s1 pt then s1 else if \<not> table_is_empty s2 pd then s2
              else if \<not> table_is_empty s3 pdpt then s3 else s4)"
            using a True E1 E2 E3 A by (auto simp: unmap_in_def Let_def ent_def s1_def s2_def s3_def s4_def split: if_splits)
          have ok: "lookup s r (vidx v) \<noteq> 0" using E1 E2 E3 True present_nonzero by (auto simp: vidx_def)
          have U1: "unmapped s lv r v s1 lv" unfolding s1_def
            using E1 E2 E3 by (intro unmapped_leaf [OF inv r user _ l1]) simp
          have W: "ent s1 t i = ent s t i" if "lv t = Some (Suc k)" "1 \<le> k" "i < 512" for t i k
            unfolding s1_def using wr_leaf(2) [OF inv l1 b(4) that] .
          have e1: "ent s1 pd ?i3 = Some pt" "ent s1 pdpt ?i2 = Some pd" "ent s1 r ?i1 = Some pdpt"
            using W [of pd 1 ?i3] W [of pdpt 2 ?i2] W [of r 3 ?i1] E1 E2 E3 l2 l3 r b by (simp_all add: numeral_2_eq_2 numeral_3_eq_3)
          have inv1: "pt_inv s1 lv" using U1 by (simp add: unmapped_def)
          let ?lv2 = "lv(pt := None)"
          have d: "pdpt \<noteq> pt" "r \<noteq> pt" "pd \<noteq> pt" "pdpt \<noteq> pd" "r \<noteq> pd" "r \<noteq> pdpt" using l1 l2 l3 r by auto
          have U2: "unmapped s lv r v s2 ?lv2" if "table_is_empty s1 pt"
            unfolding s2_def using unmapped_drop [OF U1, of pd 1 ?i3 pt] l2 b e1 that by simp
          have e2: "ent s2 pdpt ?i2 = Some pd \<and> ent s2 r ?i1 = Some pdpt" if "table_is_empty s1 pt"
          proof -
            have "rd_ent s2 pdpt ?i2 = rd_ent s1 pdpt ?i2" "rd_ent s2 r ?i1 = rd_ent s1 r ?i1"
              unfolding s2_def using drop_table(2) [OF inv1, of pd 1 ?i3 pt] l2 l3 r b e1 that d by auto
            then show ?thesis using e1 ent_cong by metis
          qed
          let ?lv3 = "?lv2(pd := None)"
          have U3: "unmapped s lv r v s3 ?lv3" if "table_is_empty s1 pt" "table_is_empty s2 pd"
            unfolding s3_def using unmapped_drop [OF U2, of pdpt 2 ?i2 pd] l3 b e2 that d by simp
          have e3: "ent s3 r ?i1 = Some pdpt" if "table_is_empty s1 pt" "table_is_empty s2 pd"
          proof -
            have "pt_inv s2 ?lv2" using U2 that by (simp add: unmapped_def)
            then have "rd_ent s3 r ?i1 = rd_ent s2 r ?i1"
              unfolding s3_def using drop_table(2) [of s2 ?lv2 pdpt 2 ?i2 pd] l3 r b e2 that d by auto
            then show ?thesis using e2 that ent_cong by metis
          qed
          have U4: "unmapped s lv r v s4 (?lv3(pdpt := None))"
            if "table_is_empty s1 pt" "table_is_empty s2 pd" "table_is_empty s3 pdpt"
            unfolding s4_def using unmapped_drop [OF U3, of r 3 ?i1 pdpt] r b e3 that d user by simp
          show ?thesis using out ok U1 U2 U3 U4 by auto
        qed
      qed
    qed
  qed
  then show "ok \<longleftrightarrow> lookup s r (vidx v) \<noteq> 0" "ok \<Longrightarrow> \<exists>lv'. unmapped s lv r v s' lv'" "\<not> ok \<Longrightarrow> s' = s" by auto
qed

text \<open>
  Claim C36. Unmapping a user page succeeds exactly when the page was mapped; then no address
  of the page translates, every other address of that and of every other address space
  translates as before, although emptied tables are given back to the page allocator, and the
  tables that are left form a forest again. When it fails nothing changes.
\<close>

theorem vmm_unmap_page_removes:
  assumes "pt_inv (v_pmm s) lv" "lv (read_cr3_phys s) = Some 4" "idx_pml4 virt < 256" "vmm_unmap_page virt s = (ok, s')"
  shows "(ok \<longleftrightarrow> lookup (v_pmm s) (read_cr3_phys s) (vidx virt) \<noteq> 0) \<and> (\<not> ok \<longrightarrow> s' = s)
    \<and> (\<exists>lv'. pt_inv (v_pmm s') lv' \<and> (\<forall>r. lv r = Some 4 \<longrightarrow> lv' r = Some 4))
    \<and> (\<forall>r v. lv r = Some 4 \<longrightarrow> translate_in (v_pmm s') r v =
         (if r = read_cr3_phys s \<and> vidx v = vidx virt then 0 else translate_in (v_pmm s) r v))"
proof -
  obtain p where p: "unmap_in (read_cr3_phys s) (align_down virt) (v_pmm s) = (ok, p)" "s' = s\<lparr>v_pmm := p\<rparr>"
    using assms(4) by (auto simp: vmm_unmap_page_def split: prod.splits)
  have user: "idx_pml4 (align_down virt) < 256" using assms(3) vidx_align_down [of virt] by (simp add: vidx_def)
  note S = unmap_spec [OF assms(1,2) user p(1), unfolded vidx_align_down]
  show ?thesis
  proof (cases ok)
    case True
    then obtain lv' where "unmapped (v_pmm s) lv (read_cr3_phys s) (align_down virt) p lv'" using S(2) by blast
    then show ?thesis using S(1) True by (auto simp: unmapped_def p(2) translate_lookup vidx_align_down)
  next
    case False
    then have "s' = s" using S(3) by (simp add: p(2))
    moreover have "translate_in (v_pmm s) (read_cr3_phys s) v = 0" if "vidx v = vidx virt" for v
      using S(1) False that by (simp add: translate_lookup)
    ultimately show ?thesis using S(1) False assms(1) by auto
  qed
qed

theorem vmm_unmap_page_removes_witness:
  "fst (vmm_unmap_page 0x400000 (snd (vmm_map_page 0x400000 0x2000000 VMM_USER demo_vmm))) \<and>
   vmm_translate 0x400123 (snd (vmm_unmap_page 0x400000 (snd (vmm_map_page 0x400000 0x2000000 VMM_USER demo_vmm)))) = 0"
proof -
  define s1 where "s1 = snd (vmm_map_page 0x400000 0x2000000 VMM_USER demo_vmm)"
  have r: "read_cr3_phys demo_vmm = 0x1000000" "v_pmm demo_vmm = demo_pmm" by (simp_all add: read_cr3_phys_def demo_vmm_def)
  have ok: "fst (vmm_map_page_into 0x1000000 (align_down 0x400000) 0x2000000 VMM_USER demo_pmm)"
    using map_into_succeeds [OF demo_pmm_ok(1) _ demo_pmm_ok(2), of "0x1000000" "align_down 0x400000" "0x2000000" VMM_USER] by simp
  define p where "p = snd (vmm_map_page_into 0x1000000 (align_down 0x400000) 0x2000000 VMM_USER demo_pmm)"
  have m: "vmm_map_page_into 0x1000000 (align_down 0x400000) 0x2000000 VMM_USER demo_pmm = (True, p)"
    using ok by (simp add: p_def prod_eq_iff)
  have s1: "s1 = demo_vmm\<lparr>v_pmm := p\<rparr>" unfolding s1_def by (simp add: vmm_map_page_def r m)
  obtain lv' where M: "pt_inv p lv'" "[0x1000000 \<mapsto> 4] \<subseteq>\<^sub>m lv'"
    "\<And>v. translate_in p 0x1000000 v =
       (if vidx v = vidx (align_down 0x400000) then (0x2000000 AND PTE_ADDR) OR (v AND 0xFFF) else translate_in demo_pmm 0x1000000 v)"
    by (rule map_into_walks [OF demo_pmm_ok(1) _ m]) (auto simp: vidx_align_down)
  have cr3: "read_cr3_phys s1 = 0x1000000" "v_pmm s1 = p" by (simp_all add: s1 read_cr3_phys_def demo_vmm_def)
  have L: "lv' 0x1000000 = Some 4" using M(2) by (auto simp: map_le_def)
  have "translate_in p 0x1000000 0x400000 \<noteq> 0" using M(3) [of "0x400000"] by (simp add: vidx_align_down PTE_ADDR_def)
  then have mapped: "lookup p 0x1000000 (vidx 0x400000) \<noteq> 0" by (auto simp: translate_lookup)
  have u: "vmm_unmap_page 0x400000 s1 = (fst (vmm_unmap_page 0x400000 s1), snd (vmm_unmap_page 0x400000 s1))" by simp
  have "idx_pml4 0x400000 < 256" by (simp add: idx_pml4_def)
  note U = vmm_unmap_page_removes [OF M(1) [folded cr3(2)] _ this u, unfolded cr3, OF L]
  have "read_cr3_phys (snd (vmm_unmap_page 0x400000 s1)) = 0x1000000"
    by (simp add: vmm_unmap_page_def case_prod_beta read_cr3_phys_def s1 demo_vmm_def)
  moreover have "vidx 0x400123 = vidx 0x400000" by (simp add: vidx_def idx_pml4_def idx_pdpt_def idx_pd_def idx_pt_def)
  ultimately show ?thesis unfolding s1_def [symmetric] using U L mapped by (auto simp: vmm_translate_def)
qed

end
