(* ===== verification/Heap.thy ===== *)
theory Heap
  imports Vmm
begin

text \<open>
  The kernel heap, \<open>kernel/src/heap.c\<close>: a bump allocator over an arena of virtual pages that
  are mapped on demand, with a first-fit list of freed blocks in front. The statics are the
  fields of the record \<open>heap\<close>; \<open>h_mem\<close> holds the bytes of the arena, which is reached through
  its virtual addresses only, and \<open>h_vmm\<close> the page tables and the page allocator behind it. The
  headers and the links of the free list are kept in that memory, as the code keeps them.
  \<open>panic\<close> does not return; it is the left value of the sum type. The search of the free list
  is a loop over links in memory, so \<open>None\<close> stands for a search that does not end.

  Shown here: in every state that calls of \<open>kmalloc_aligned\<close>, \<open>kfree\<close> of live blocks and writes
  of the owners into their blocks lead to, live blocks never overlap and lie in the arena, the
  search of the free list ends, and the memory of a new block is zero.
\<close>

section \<open>Definitions\<close>

definition HEAP_VIRT_BASE :: u64 where "HEAP_VIRT_BASE = 0xffff910000000000"
definition HEAP_USABLE_SIZE :: u64 where "HEAP_USABLE_SIZE = 64 * 1024 * 1024"
definition HEAP_MAGIC :: u64 where "HEAP_MAGIC = 0xF1F10A110DEAD000"
definition HEAP_MAGIC_LARGE :: u64 where "HEAP_MAGIC_LARGE = 0xF1F10A110DEAD001"

record heap =
  heap_usable_base :: u64
  heap_usable_end :: u64
  cur_page_virt :: u64
  cur_off :: u64
  next_page_virt :: u64
  h_free_list :: u64
  h_mem :: memory
  h_vmm :: vmm

definition align_up_uintptr :: "u64 \<Rightarrow> u64 \<Rightarrow> u64" where
  "align_up_uintptr x a = (x + (a - 1)) AND NOT (a - 1)"

definition align_down_u64 :: "u64 \<Rightarrow> u64" where
  "align_down_u64 x = x AND NOT 0xFFF"

definition heap_map_fresh_page :: "heap \<Rightarrow> string + heap" where
  "heap_map_fresh_page h =
     (if next_page_virt h \<ge> heap_usable_end h then Inl ''heap: out of virtual space (hit end guard)''
      else let (phys, p) = pmm_alloc_page (v_pmm (h_vmm h)) in
        if phys = 0 then Inl ''heap: out of physical pages''
        else let (ok, v) = vmm_map_page (next_page_virt h) phys VMM_WRITE ((h_vmm h)\<lparr>v_pmm := p\<rparr>) in
          if \<not> ok then Inl ''heap: vmm_map_page failed''
          else Inr (h\<lparr>h_vmm := v, cur_page_virt := next_page_virt h, cur_off := 0,
                      next_page_virt := next_page_virt h + PAGE_SIZE\<rparr>))"

definition heap_init :: "heap \<Rightarrow> string + heap" where
  "heap_init h =
     heap_map_fresh_page (h\<lparr>heap_usable_base := HEAP_VIRT_BASE + PAGE_SIZE,
       heap_usable_end := HEAP_VIRT_BASE + PAGE_SIZE + HEAP_USABLE_SIZE,
       next_page_virt := HEAP_VIRT_BASE + PAGE_SIZE, cur_page_virt := 0, cur_off := 0\<rparr>)"

definition round_size :: "u64 \<Rightarrow> u64" where
  "round_size s = (s + 7) AND NOT 7"

text \<open>
  \<open>pp\<close> is where the link to the next block is kept: the static \<open>g_free_list\<close>, or the user
  area of a free block.
\<close>

definition get_link :: "u64 option \<Rightarrow> heap \<Rightarrow> u64" where
  "get_link pp h = (case pp of None \<Rightarrow> h_free_list h | Some a \<Rightarrow> load64 (h_mem h) a)"

definition set_link :: "u64 option \<Rightarrow> u64 \<Rightarrow> heap \<Rightarrow> heap" where
  "set_link pp v h = (case pp of None \<Rightarrow> h\<lparr>h_free_list := v\<rparr> | Some a \<Rightarrow> h\<lparr>h_mem := store64 (h_mem h) a v\<rparr>)"

text \<open>A free block is taken out of the list, marked and cleared.\<close>

definition take_block :: "u64 option \<Rightarrow> u64 \<Rightarrow> heap \<Rightarrow> heap" where
  "take_block pp hdr h =
     (let usr = hdr + 16;
          h = set_link pp (load64 (h_mem h) usr) h;
          m = store64 (h_mem h) (hdr + 8) HEAP_MAGIC
      in h\<lparr>h_mem := memzero m usr (unat (load64 m hdr))\<rparr>)"

partial_function (option) freelist_scan :: "u64 option \<Rightarrow> u64 \<Rightarrow> heap \<Rightarrow> (u64 \<times> heap) option" where
  "freelist_scan pp need h =
     (let hdr = get_link pp h in
      if hdr = 0 then Some (0, h)
      else if load64 (h_mem h) hdr \<ge> need then Some (hdr + 16, take_block pp hdr h)
      else freelist_scan (Some (hdr + 16)) need h)"

definition freelist_take :: "u64 \<Rightarrow> heap \<Rightarrow> (u64 \<times> heap) option" where
  "freelist_take need h = freelist_scan None need h"

text \<open>A header with the size and the magic, and \<open>n\<close> bytes of the user area cleared.\<close>

definition put_block :: "u64 \<Rightarrow> u64 \<Rightarrow> u64 \<Rightarrow> u64 \<Rightarrow> heap \<Rightarrow> heap" where
  "put_block hdr sz magic n h =
     h\<lparr>h_mem := memzero (store64 (store64 (h_mem h) hdr sz) (hdr + 8) magic) (hdr + 16) (unat n)\<rparr>"

text \<open>Whole pages behind the arena's cursor.\<close>

definition big_alloc :: "u64 \<Rightarrow> heap \<Rightarrow> string + u64 \<times> heap" where
  "big_alloc size' h =
     (let pages = (size' + 16 + PAGE_SIZE - 1) div PAGE_SIZE;
          bytes = pages * PAGE_SIZE;
          v = align_down_u64 (next_page_virt h);
          vend = v + bytes
      in if vend > heap_usable_end h then Inl ''heap: big alloc exceeds arena''
         else let (phys, p) = pmm_alloc_pages pages (v_pmm (h_vmm h)) in
           if phys = 0 then Inr (0, h\<lparr>h_vmm := (h_vmm h)\<lparr>v_pmm := p\<rparr>\<rparr>)
           else let (ok, vm) = vmm_map_range v phys bytes VMM_WRITE ((h_vmm h)\<lparr>v_pmm := p\<rparr>) in
             if \<not> ok then Inl ''heap: vmm_map_range failed''
             else let hsz = bytes - 16 in
               Inr (v + 16, put_block v hsz HEAP_MAGIC_LARGE (if hsz < size' then hsz else size')
                      (h\<lparr>h_vmm := vm, next_page_virt := vend\<rparr>)))"

text \<open>The bump allocation in the current page: the header address and the new offset.\<close>

definition bump_fit :: "u64 \<Rightarrow> u64 \<Rightarrow> heap \<Rightarrow> u64 \<times> u64" where
  "bump_fit align total' h =
     (let hptr = align_up_uintptr (cur_page_virt h + cur_off h) align in (hptr, (hptr - cur_page_virt h) + total'))"

definition bump_take :: "u64 \<Rightarrow> u64 \<Rightarrow> u64 \<Rightarrow> heap \<Rightarrow> u64 \<times> heap" where
  "bump_take hptr new_off need h = (hptr + 16, put_block hptr need HEAP_MAGIC need (h\<lparr>cur_off := new_off\<rparr>))"

definition bump_alloc :: "u64 \<Rightarrow> u64 \<Rightarrow> heap \<Rightarrow> string + u64 \<times> heap" where
  "bump_alloc need align h =
     (let total' = 16 + need in
      if cur_page_virt h = 0 then Inr (0, h)
      else let (hptr, new_off) = bump_fit align total' h in
        if new_off > PAGE_SIZE then
          (case heap_map_fresh_page h of
             Inl e \<Rightarrow> Inl e
           | Inr h \<Rightarrow> let (hptr, new_off) = bump_fit align total' h in
               if new_off > PAGE_SIZE then Inr (0, h) else Inr (bump_take hptr new_off need h))
        else Inr (bump_take hptr new_off need h))"

definition kmalloc_aligned :: "u64 \<Rightarrow> u64 \<Rightarrow> heap \<Rightarrow> (string + u64 \<times> heap) option" where
  "kmalloc_aligned size' align0 h =
     (if size' = 0 then Some (Inr (0, h))
      else let align = (if align0 < 16 then 16 else align0) in
        if align AND (align - 1) \<noteq> 0 then Some (Inl ''kmalloc_aligned: align not power-of-two'')
        else if size' \<ge> PAGE_SIZE then Some (big_alloc size' h)
        else let need = round_size (if size' < 8 then 8 else size') in
          if align = 16 then
            (case freelist_take need h of
               None \<Rightarrow> None
             | Some (hit, h) \<Rightarrow> if hit \<noteq> 0 then Some (Inr (hit, h)) else Some (bump_alloc need align h))
          else Some (bump_alloc need align h))"

definition kmalloc :: "u64 \<Rightarrow> heap \<Rightarrow> (string + u64 \<times> heap) option" where
  "kmalloc size' h = kmalloc_aligned size' 16 h"

definition kzalloc :: "u64 \<Rightarrow> heap \<Rightarrow> (string + u64 \<times> heap) option" where
  "kzalloc size' h = kmalloc size' h"

definition kfree :: "u64 \<Rightarrow> heap \<Rightarrow> string + heap" where
  "kfree ptr h =
     (if ptr = 0 then Inr h
      else let hdr = ptr - 16; magic = load64 (h_mem h) (hdr + 8) in
        if magic = HEAP_MAGIC_LARGE then Inr (h\<lparr>h_mem := store64 (h_mem h) (hdr + 8) 0\<rparr>)
        else if magic \<noteq> HEAP_MAGIC then Inl ''kfree: bad magic (double-free or corrupt pointer)''
        else Inr (h\<lparr>h_mem := store64 (store64 (h_mem h) (hdr + 8) 0) ptr (h_free_list h), h_free_list := hdr\<rparr>))"

definition heap_get_cur_page :: "heap \<Rightarrow> u64" where
  "heap_get_cur_page h = cur_page_virt h"

definition heap_get_offset :: "heap \<Rightarrow> u64" where
  "heap_get_offset h = cur_off h"

section \<open>Writes that stay in a range\<close>

definition only_changes :: "nat set \<Rightarrow> memory \<Rightarrow> memory \<Rightarrow> bool" where
  "only_changes S m m' \<longleftrightarrow> (\<forall>x. unat x \<notin> S \<longrightarrow> m' x = m x)"

lemma only_changes_trans:
  "only_changes S m m' \<Longrightarrow> only_changes T m' m'' \<Longrightarrow> S \<subseteq> U \<Longrightarrow> T \<subseteq> U \<Longrightarrow> only_changes U m m''"
  unfolding only_changes_def by (metis subsetD)

lemma only_changes_mono: "only_changes S m m' \<Longrightarrow> S \<subseteq> T \<Longrightarrow> only_changes T m m'"
  by (auto simp: only_changes_def)

lemma unat_byte_index:
  fixes a :: u64
  assumes "k \<in> {0, 1, 2, 3, 4, 5, 6, 7}" "unat a + 8 \<le> 2 ^ 64"
  shows "unat (a + k) = unat a + unat k \<and> unat k < 8"
proof -
  have "unat k < 8" using assms(1) by auto
  then show ?thesis using assms(2) by (simp add: unat_add_no_wrap)
qed

lemma store64_changes:
  assumes "unat a + 8 \<le> 2 ^ 64"
  shows "only_changes {unat a..<unat a + 8} m (store64 m a v)"
  unfolding only_changes_def
proof (intro allI impI)
  fix x :: u64
  assume x: "unat x \<notin> {unat a..<unat a + 8}"
  show "store64 m a v x = m x"
  proof (rule store64_outside)
    fix k :: u64
    assume "k \<in> {0, 1, 2, 3, 4, 5, 6, 7}"
    from unat_byte_index [OF this assms] have "unat (a + k) \<in> {unat a..<unat a + 8}" by simp
    then show "x \<noteq> a + k" using x by blast
  qed
qed

lemma memzero_changes: "unat a + n \<le> 2 ^ 64 \<Longrightarrow> only_changes {unat a..<unat a + n} m (memzero m a n)"
  unfolding only_changes_def memzero_def
proof (intro allI impI)
  fix x :: u64
  assume n: "unat a + n \<le> 2 ^ 64" and x: "unat x \<notin> {unat a..<unat a + n}"
  have "\<not> unat (x - a) < n"
  proof (cases "a \<le> x")
    case True
    then show ?thesis using x by (auto simp: unat_diff_le word_le_nat_alt)
  next
    case False
    then have "unat (x - a) = 2 ^ 64 + unat x - unat a" by (simp add: unat_sub_if_size word_size word_le_nat_alt)
    then show ?thesis using n by simp
  qed
  then show "(if unat (x - a) < n then 0 else m x) = m x" by simp
qed

lemma load64_unchanged:
  assumes "only_changes S m m'" "unat b + 8 \<le> 2 ^ 64" "{unat b..<unat b + 8} \<inter> S = {}"
  shows "load64 m' b = load64 m b"
proof (rule load64_cong)
  fix k :: u64
  assume "k \<in> {0, 1, 2, 3, 4, 5, 6, 7}"
  from unat_byte_index [OF this assms(2)] have "unat (b + k) \<in> {unat b..<unat b + 8}" by simp
  then have "unat (b + k) \<notin> S" using assms(3) by blast
  then show "m' (b + k) = m (b + k)" using assms(1) by (simp add: only_changes_def)
qed

lemma memzero_zero: "unat a \<le> unat x \<Longrightarrow> unat x < unat a + n \<Longrightarrow> memzero m a n x = 0"
  by (auto simp: memzero_def unat_diff_le word_le_nat_alt)

section \<open>The blocks of the arena\<close>

definition hsize :: "heap \<Rightarrow> u64 \<Rightarrow> nat" where
  "hsize h p = unat (load64 (h_mem h) p)"

definition hmagic :: "heap \<Rightarrow> u64 \<Rightarrow> u64" where
  "hmagic h p = load64 (h_mem h) (p + 8)"

text \<open>The bytes of a block, the header of 16 bytes included.\<close>

definition extent :: "heap \<Rightarrow> u64 \<Rightarrow> nat set" where
  "extent h p = {unat p..<unat p + 16 + hsize h p}"

text \<open>
  The arena of the normal build, and its cursors: the pages in front of \<open>next_page_virt\<close> are in
  use, and the rest of the current page is free for the bump allocation.
\<close>

definition arena_ok :: "heap \<Rightarrow> bool" where
  "arena_ok h \<longleftrightarrow> heap_usable_base h = 0xffff910000001000 \<and> heap_usable_end h = 0xffff910004001000
     \<and> page_aligned (next_page_virt h) \<and> page_aligned (cur_page_virt h)
     \<and> unat (heap_usable_base h) \<le> unat (cur_page_virt h) \<and> unat (cur_page_virt h) + 4096 \<le> unat (next_page_virt h)
     \<and> unat (next_page_virt h) \<le> unat (heap_usable_end h) \<and> unat (cur_off h) \<le> 4096"

definition bump_area :: "heap \<Rightarrow> nat set" where
  "bump_area h = {unat (cur_page_virt h) + unat (cur_off h)..<unat (cur_page_virt h) + 4096}"

text \<open>Blocks lie in the used part of the arena, apart from each other and from the bump area.\<close>

definition laid :: "heap \<Rightarrow> u64 set \<Rightarrow> bool" where
  "laid h B \<longleftrightarrow> (\<forall>p \<in> B. extent h p \<subseteq> {unat (heap_usable_base h)..<unat (next_page_virt h)}
       \<and> 8 \<le> hsize h p \<and> unat p mod 16 = 0 \<and> extent h p \<inter> bump_area h = {})
     \<and> (\<forall>p \<in> B. \<forall>q \<in> B. p \<noteq> q \<longrightarrow> extent h p \<inter> extent h q = {})"

text \<open>\<open>F\<close> is the free list, \<open>A\<close> the blocks in use and \<open>D\<close> the large blocks given back for good.\<close>

definition heap_ok :: "heap \<Rightarrow> u64 list \<Rightarrow> u64 set \<Rightarrow> u64 set \<Rightarrow> bool" where
  "heap_ok h F A D \<longleftrightarrow> arena_ok h \<and> laid h (set F \<union> A \<union> D)
     \<and> distinct F \<and> A \<inter> set F = {} \<and> D \<inter> (A \<union> set F) = {}
     \<and> fl_chain (h_mem h) 16 (h_free_list h) F
     \<and> (\<forall>p \<in> A. hmagic h p = HEAP_MAGIC \<or> hmagic h p = HEAP_MAGIC_LARGE)"

lemma arena_okD:
  assumes "arena_ok h"
  shows "unat (heap_usable_base h) = 0xffff910000001000" "unat (next_page_virt h) \<le> 0xffff910004001000"
    "unat (cur_page_virt h) + 4096 \<le> unat (next_page_virt h)" "unat (heap_usable_base h) \<le> unat (cur_page_virt h)"
    "unat (cur_off h) \<le> 4096"
  using assms by (auto simp: arena_ok_def)

lemma block_place:
  assumes "arena_ok h" "laid h B" "p \<in> B"
  shows "0xffff910000001000 \<le> unat p" "unat p + 16 + hsize h p \<le> unat (next_page_virt h)" "8 \<le> hsize h p"
    "unat p + 16 + hsize h p \<le> 0xffff910004001000" "unat (p + 8) = unat p + 8" "unat (p + 16) = unat p + 16" "unat p mod 16 = 0"
proof -
  have e: "extent h p \<subseteq> {unat (heap_usable_base h)..<unat (next_page_virt h)}" and s: "8 \<le> hsize h p" "unat p mod 16 = 0"
    using assms(2,3) by (auto simp: laid_def)
  have "unat p \<in> extent h p" "unat p + 15 + hsize h p \<in> extent h p" by (auto simp: extent_def)
  with e have u: "unat (heap_usable_base h) \<le> unat p" "unat p + 15 + hsize h p < unat (next_page_virt h)" by auto
  show a: "0xffff910000001000 \<le> unat p" "unat p + 16 + hsize h p \<le> unat (next_page_virt h)" "8 \<le> hsize h p" "unat p mod 16 = 0"
    using u s arena_okD(1) [OF assms(1)] by auto
  show b: "unat p + 16 + hsize h p \<le> 0xffff910004001000" using a arena_okD(2) [OF assms(1)] by simp
  show "unat (p + 8) = unat p + 8" "unat (p + 16) = unat p + 16" using b a by (simp_all add: unat_add_no_wrap)
qed

text \<open>Writes elsewhere leave the header and the link of a block as they are.\<close>

lemma block_unchanged:
  assumes "arena_ok h" "laid h B" "p \<in> B" "only_changes S (h_mem h) m'" "S \<inter> extent h p = {}"
  shows "load64 m' p = load64 (h_mem h) p" "load64 m' (p + 8) = load64 (h_mem h) (p + 8)"
    "load64 m' (p + 16) = load64 (h_mem h) (p + 16)"
proof -
  note P = block_place [OF assms(1-3)]
  have "{unat p..<unat p + 24} \<inter> S = {}" using assms(5) P(3) by (auto simp: extent_def disjoint_iff)
  then have "{unat p + k..<unat p + k + 8} \<inter> S = {}" if "k \<le> 16" for k using that by (auto simp: disjoint_iff)
  note k = this
  show "load64 m' p = load64 (h_mem h) p"
    by (rule load64_unchanged [OF assms(4)]) (use P(3,4) k [of 0] in simp_all)
  show "load64 m' (p + 8) = load64 (h_mem h) (p + 8)"
    by (rule load64_unchanged [OF assms(4)]) (use P(3,4) k [of 8] in \<open>simp_all add: P(5)\<close>)
  show "load64 m' (p + 16) = load64 (h_mem h) (p + 16)"
    by (rule load64_unchanged [OF assms(4)]) (use P(3,4) k [of 16] in \<open>simp_all add: P(6)\<close>)
qed

lemma fl_chain_nonzero: "fl_chain m h p xs \<Longrightarrow> 0 \<notin> set xs"
  by (induction xs arbitrary: p) auto

text \<open>Cursors and sizes are all that the layout depends on.\<close>

lemma laid_cong:
  assumes "laid h B" "B' \<subseteq> B" "\<And>p. p \<in> B' \<Longrightarrow> hsize h' p = hsize h p" "heap_usable_base h' = heap_usable_base h"
    "unat (next_page_virt h) \<le> unat (next_page_virt h')"
    "\<And>p. p \<in> B' \<Longrightarrow> extent h p \<inter> bump_area h' = {}"
  shows "laid h' B'"
proof -
  have e: "extent h' p = extent h p" if "p \<in> B'" for p using assms(3) [OF that] by (simp add: extent_def)
  have "extent h p \<subseteq> {unat (heap_usable_base h)..<unat (next_page_virt h)}" if "p \<in> B'" for p
    using assms(1,2) that by (auto simp: laid_def)
  moreover have "{unat (heap_usable_base h)..<unat (next_page_virt h)} \<subseteq> {unat (heap_usable_base h')..<unat (next_page_virt h')}"
    using assms(4,5) by (simp add: ivl_subset)
  ultimately have "extent h' p \<subseteq> {unat (heap_usable_base h')..<unat (next_page_virt h')}" if "p \<in> B'" for p
    using that e by blast
  moreover have "8 \<le> hsize h' p \<and> unat p mod 16 = 0" if "p \<in> B'" for p
    using assms(1-3) that by (auto simp: laid_def)
  moreover have "extent h p \<inter> extent h q = {}" if "p \<in> B'" "q \<in> B'" "p \<noteq> q" for p q
    using assms(1,2) that unfolding laid_def by blast
  ultimately show ?thesis using assms(6) e unfolding laid_def by simp
qed

section \<open>Taking a block from the free list\<close>

text \<open>The location of the link in front of position \<open>k\<close> of the list.\<close>

definition link_of :: "u64 list \<Rightarrow> u64 option" where
  "link_of pre = (if pre = [] then None else Some (last pre + 16))"

lemma fl_chain_append:
  "fl_chain m 16 a (pre @ p # post) \<Longrightarrow>
     (if pre = [] then a else load64 m (last pre + 16)) = p \<and> p \<noteq> 0 \<and> fl_chain m 16 (load64 m (p + 16)) post"
proof (induction pre arbitrary: a)
  case (Cons q pre)
  have "fl_chain m 16 (load64 m (q + 16)) (pre @ p # post)" using Cons.prems by simp
  from Cons.IH [OF this] show ?case by (cases pre) simp_all
qed simp

lemma get_link_chain:
  assumes "fl_chain (h_mem h) 16 (h_free_list h) (pre @ post)"
  shows "get_link (link_of pre) h = (case post of [] \<Rightarrow> 0 | p # _ \<Rightarrow> p)"
proof (cases post)
  case (Cons p ps)
  then show ?thesis using fl_chain_append [of "h_mem h" "h_free_list h" pre p ps] assms by (auto simp: get_link_def link_of_def split: if_splits)
next
  case Nil
  have "fl_chain m 16 a xs \<Longrightarrow> (if xs = [] then a else load64 m (last xs + 16)) = 0" for m a xs
  proof (induction xs arbitrary: a)
    case (Cons q xs)
    have "fl_chain m 16 (load64 m (q + 16)) xs" using Cons.prems by simp
    from Cons.IH [OF this] show ?case by (cases xs) simp_all
  qed simp
  from this [of "h_mem h" "h_free_list h" pre] show ?thesis
    using assms Nil by (auto simp: get_link_def link_of_def split: if_splits)
qed

text \<open>The search ends, at the first block that is big enough or with nothing.\<close>

lemma freelist_scan_finds:
  assumes "fl_chain (h_mem h) 16 (h_free_list h) (pre @ post)"
  shows "freelist_scan (link_of pre) need h =
    (case dropWhile (\<lambda>p. load64 (h_mem h) p < need) post of
       [] \<Rightarrow> Some (0, h)
     | p # _ \<Rightarrow> Some (p + 16, take_block (link_of (pre @ takeWhile (\<lambda>p. load64 (h_mem h) p < need) post)) p h))"
  using assms
proof (induction post arbitrary: pre)
  case Nil
  then show ?case using get_link_chain [OF Nil] by (subst freelist_scan.simps) simp
next
  case (Cons p post)
  have p: "get_link (link_of pre) h = p" "p \<noteq> 0"
    using get_link_chain [OF Cons.prems] fl_chain_nonzero [OF Cons.prems] by auto
  have l: "Some (p + 16) = link_of (pre @ [p])" by (simp add: link_of_def)
  show ?case
  proof (cases "load64 (h_mem h) p < need")
    case True
    then have "freelist_scan (link_of pre) need h = freelist_scan (link_of (pre @ [p])) need h"
      using p by (subst freelist_scan.simps) (simp add: Let_def l linorder_not_le [symmetric])
    then show ?thesis using Cons.IH [of "pre @ [p]"] Cons.prems True
      by (cases "dropWhile (\<lambda>p. load64 (h_mem h) p < need) post") (simp_all del: dropWhile_eq_Nil_conv)
  next
    case False
    then have "freelist_scan (link_of pre) need h = Some (p + 16, take_block (link_of pre) p h)"
      using p by (subst freelist_scan.simps) (simp add: Let_def linorder_not_less)
    then show ?thesis using False by simp
  qed
qed

lemma fl_chain_remove:
  assumes "fl_chain m 16 a (pre @ p # post)" "distinct (pre @ p # post)"
    and "\<And>q. q \<in> set pre \<union> set post \<Longrightarrow> pre = [] \<or> q \<noteq> last pre \<Longrightarrow> load64 m' (q + 16) = load64 m (q + 16)"
    and "pre \<noteq> [] \<Longrightarrow> load64 m' (last pre + 16) = load64 m (p + 16)"
  shows "fl_chain m' 16 (if pre = [] then load64 m (p + 16) else a) (pre @ post)"
  using assms
proof (induction pre arbitrary: a)
  case Nil
  then have "fl_chain m 16 (load64 m (p + 16)) post" by simp
  then show ?case using Nil(3) by (simp add: fl_chain_cong [of post m' 16 m])
next
  case (Cons q pre)
  have c: "a = q" "q \<noteq> 0" "fl_chain m 16 (load64 m (q + 16)) (pre @ p # post)" using Cons.prems(1) by auto
  show ?case
  proof (cases "pre = []")
    case True
    then have "fl_chain m 16 (load64 m (p + 16)) post" using c(3) by simp
    moreover have "load64 m' (x + 16) = load64 m (x + 16)" if "x \<in> set post" for x
      using Cons.prems(2,3) that True by auto
    ultimately have "fl_chain m' 16 (load64 m (p + 16)) post" by (simp add: fl_chain_cong [of post m' 16 m])
    then show ?thesis using Cons.prems(4) c True by simp
  next
    case False
    then have l: "last pre \<in> set pre" by simp
    have "q \<noteq> last (q # pre)" using Cons.prems(2) False l by auto
    then have "load64 m' (q + 16) = load64 m (q + 16)" using Cons.prems(3) [of q] by simp
    moreover have "fl_chain m' 16 (load64 m (q + 16)) (pre @ post)"
      using Cons.IH [OF c(3)] Cons.prems(2-4) False by auto
    ultimately show ?thesis using c by simp
  qed
qed

text \<open>What a write to one block does to the blocks: sizes stay, and other blocks keep all.\<close>

lemma size_unchanged:
  assumes "arena_ok h" "laid h B" "p \<in> B" "only_changes S (h_mem h) m'" "S \<inter> {unat p..<unat p + 8} = {}"
  shows "load64 m' p = load64 (h_mem h) p"
  using block_place [OF assms(1-3)] assms(5) by (intro load64_unchanged [OF assms(4)]) auto

lemma take_block_mem:
  assumes ok: "heap_ok h (pre @ p # post) A D"
  defines "S \<equiv> (if pre = [] then {} else {unat (last pre) + 16..<unat (last pre) + 24}) \<union> {unat p + 8..<unat p + 16 + hsize h p}"
  shows "only_changes S (h_mem h) (h_mem (take_block (link_of pre) p h))"
    "hmagic (take_block (link_of pre) p h) p = HEAP_MAGIC"
    "pre \<noteq> [] \<Longrightarrow> load64 (h_mem (take_block (link_of pre) p h)) (last pre + 16) = load64 (h_mem h) (p + 16)"
    "\<And>x. unat p + 16 \<le> unat x \<Longrightarrow> unat x < unat p + 16 + hsize h p \<Longrightarrow> h_mem (take_block (link_of pre) p h) x = 0"
    "h_free_list (take_block (link_of pre) p h) = (if pre = [] then load64 (h_mem h) (p + 16) else h_free_list h)"
proof -
  let ?m = "h_mem h" and ?v = "load64 (h_mem h) (p + 16)"
  let ?B = "set (pre @ p # post) \<union> A \<union> D"
  have B: "arena_ok h" "laid h ?B" "distinct (pre @ p # post)" using ok by (auto simp: heap_ok_def)
  have pB: "p \<in> ?B" by simp
  note P = block_place [OF B(1,2) pB]
  define m1 where "m1 = (if pre = [] then ?m else store64 ?m (last pre + 16) ?v)"
  define m2 where "m2 = store64 m1 (p + 8) HEAP_MAGIC"
  have lB: "last pre \<in> ?B" "last pre \<noteq> p" if "pre \<noteq> []" using that B(3) last_in_set [OF that] by auto
  have sep: "extent h (last pre) \<inter> extent h p = {}" if "pre \<noteq> []"
    using B(2) lB [OF that] pB unfolding laid_def by blast
  note L = block_place [OF B(1,2) lB(1)]
  have link: "{unat (last pre) + 16..<unat (last pre) + 24} \<subseteq> extent h (last pre)" if "pre \<noteq> []"
    using L(3) [OF that] by (auto simp: extent_def)
  have c1: "only_changes (if pre = [] then {} else {unat (last pre) + 16..<unat (last pre) + 24}) ?m m1"
    using store64_changes [of "last pre + 16" ?m ?v] L(4,6) by (auto simp: m1_def only_changes_def add.assoc)
  have c2: "only_changes {unat p + 8..<unat p + 16} m1 m2"
    using store64_changes [of "p + 8" m1 HEAP_MAGIC] P(4,5) by (simp add: m2_def add.commute)
  have c12: "only_changes ((if pre = [] then {} else {unat (last pre) + 16..<unat (last pre) + 24}) \<union> {unat p + 8..<unat p + 16}) ?m m2"
    by (rule only_changes_trans [OF c1 c2]) auto
  have sz: "load64 m2 p = load64 ?m p"
  proof (rule size_unchanged [OF B(1,2) pB c12])
    have "{unat p..<unat p + 8} \<subseteq> extent h p" by (auto simp: extent_def)
    then have "{unat (last pre) + 16..<unat (last pre) + 24} \<inter> {unat p..<unat p + 8} = {}" if "pre \<noteq> []"
      using sep [OF that] link [OF that] by blast
    then show "((if pre = [] then {} else {unat (last pre) + 16..<unat (last pre) + 24}) \<union> {unat p + 8..<unat p + 16}) \<inter> {unat p..<unat p + 8} = {}"
      by (cases "pre = []") (auto simp: Int_Un_distrib2)
  qed
  define m3 where "m3 = memzero m2 (p + 16) (hsize h p)"
  have h': "h_mem (take_block (link_of pre) p h) = m3"
    by (simp add: take_block_def Let_def set_link_def link_of_def m3_def m2_def m1_def hsize_def sz [unfolded m2_def m1_def, symmetric])
  have c3: "only_changes {unat p + 16..<unat p + 16 + hsize h p} m2 m3"
    using memzero_changes [of "p + 16" "hsize h p" m2] P(4,6) by (simp add: m3_def)
  show "only_changes S (h_mem h) (h_mem (take_block (link_of pre) p h))"
    unfolding h' by (rule only_changes_trans [OF c12 c3]) (auto simp: S_def)
  have "load64 m3 (p + 8) = load64 m2 (p + 8)"
    by (rule load64_unchanged [OF c3]) (use P in auto)
  then show "hmagic (take_block (link_of pre) p h) p = HEAP_MAGIC" by (simp add: hmagic_def h' m2_def)
  show "load64 (h_mem (take_block (link_of pre) p h)) (last pre + 16) = ?v" if ne: "pre \<noteq> []"
  proof -
    have c: "only_changes (extent h p) m1 m3"
      by (rule only_changes_trans [OF c2 c3]) (auto simp: extent_def)
    have "{unat (last pre + 16)..<unat (last pre + 16) + 8} = {unat (last pre) + 16..<unat (last pre) + 24}"
      using L(6) [OF ne] by (simp add: add.commute)
    then have "{unat (last pre + 16)..<unat (last pre + 16) + 8} \<inter> extent h p = {}"
      using sep [OF ne] link [OF ne] by blast
    then have "load64 m3 (last pre + 16) = load64 m1 (last pre + 16)"
      using L(3,4,6) [OF ne] by (intro load64_unchanged [OF c]) auto
    then show ?thesis using ne by (simp add: h' m1_def)
  qed
  show "h_mem (take_block (link_of pre) p h) x = 0" if "unat p + 16 \<le> unat x" "unat x < unat p + 16 + hsize h p" for x
    unfolding h' m3_def using that P(6) by (intro memzero_zero) auto
  show "h_free_list (take_block (link_of pre) p h) = (if pre = [] then ?v else h_free_list h)"
    by (simp add: take_block_def Let_def set_link_def link_of_def)
qed

lemma take_block_ok:
  assumes ok: "heap_ok h (pre @ p # post) A D"
  shows "heap_ok (take_block (link_of pre) p h) (pre @ post) (insert p A) D"
    "\<And>q. q \<in> set (pre @ p # post) \<union> A \<union> D \<Longrightarrow> hsize (take_block (link_of pre) p h) q = hsize h q"
    "\<And>q x. q \<in> A \<Longrightarrow> unat x \<in> extent h q \<Longrightarrow> h_mem (take_block (link_of pre) p h) x = h_mem h x"
proof -
  let ?h = "take_block (link_of pre) p h"
  let ?B = "set (pre @ p # post) \<union> A \<union> D"
  define S where "S = (if pre = [] then {} else {unat (last pre) + 16..<unat (last pre) + 24}) \<union> {unat p + 8..<unat p + 16 + hsize h p}"
  note T = take_block_mem [OF ok, folded S_def]
  have B: "arena_ok h" "laid h ?B" "distinct (pre @ p # post)" "A \<inter> set (pre @ p # post) = {}" "D \<inter> (A \<union> set (pre @ p # post)) = {}"
    "fl_chain (h_mem h) 16 (h_free_list h) (pre @ p # post)" "\<forall>p \<in> A. hmagic h p = HEAP_MAGIC \<or> hmagic h p = HEAP_MAGIC_LARGE"
    using ok by (simp_all add: heap_ok_def)
  have sep: "extent h q \<inter> extent h q' = {}" if "q \<in> ?B" "q' \<in> ?B" "q \<noteq> q'" for q q'
    using B(2) that unfolding laid_def by blast
  have lp: "last pre \<in> set pre" if "pre \<noteq> []" using that by simp
  have link: "{unat (last pre) + 16..<unat (last pre) + 24} \<subseteq> extent h (last pre)" if "pre \<noteq> []"
    using block_place(3) [OF B(1,2), of "last pre"] lp [OF that] by (auto simp: extent_def)
  have pe: "{unat p + 8..<unat p + 16 + hsize h p} \<subseteq> extent h p" by (auto simp: extent_def)
  have other: "S \<inter> extent h q = {}" if "q \<in> ?B" "q \<noteq> p" "pre = [] \<or> q \<noteq> last pre" for q
  proof -
    have "extent h p \<inter> extent h q = {}" using sep [of p q] that by simp
    moreover have "extent h (last pre) \<inter> extent h q = {}" if "pre \<noteq> []" using sep [of "last pre" q] lp [OF that] \<open>q \<in> ?B\<close> \<open>pre = [] \<or> q \<noteq> last pre\<close> that by auto
    ultimately show ?thesis using link pe unfolding S_def by (cases "pre = []") (simp, blast)+
  qed
  show size: "hsize ?h q = hsize h q" if q: "q \<in> ?B" for q
  proof -
    have "S \<inter> {unat q..<unat q + 8} = {}"
    proof (cases "q \<noteq> p \<and> (pre = [] \<or> q \<noteq> last pre)")
      case True
      have "{unat q..<unat q + 8} \<subseteq> extent h q" by (auto simp: extent_def)
      then show ?thesis using other [OF q] True by blast
    next
      case False
      then consider "q = p" | "pre \<noteq> []" "q = last pre" "q \<noteq> p" by auto
      then show ?thesis
      proof cases
        case 1
        have "{unat (last pre) + 16..<unat (last pre) + 24} \<inter> extent h p = {}" if "pre \<noteq> []"
          using sep [of "last pre" p] lp [OF that] B(3) link [OF that] by auto
        moreover have "{unat p..<unat p + 8} \<subseteq> extent h p" by (auto simp: extent_def)
        ultimately show ?thesis unfolding S_def 1 by (cases "pre = []") (simp, fastforce)+
      next
        case 2
        have "extent h p \<inter> {unat q..<unat q + 8} = {}" using sep [of p q] q 2(3) by (auto simp: extent_def)
        then show ?thesis using 2 pe unfolding S_def by auto
      qed
    qed
    from size_unchanged [OF B(1,2) q T(1) this] show ?thesis by (simp add: hsize_def)
  qed
  have same: "h_mem ?h x = h_mem h x" if "q \<in> A" "unat x \<in> extent h q" for q x
  proof -
    have "S \<inter> extent h q = {}" using B(4) that(1) lp by (intro other) auto
    then show ?thesis using T(1) that(2) unfolding only_changes_def by blast
  qed
  then show "\<And>q x. q \<in> A \<Longrightarrow> unat x \<in> extent h q \<Longrightarrow> h_mem ?h x = h_mem h x" .
  have f: "heap_usable_base ?h = heap_usable_base h" "heap_usable_end ?h = heap_usable_end h" "cur_page_virt ?h = cur_page_virt h"
    "cur_off ?h = cur_off h" "next_page_virt ?h = next_page_virt h"
    by (simp_all add: take_block_def Let_def set_link_def split: option.split)
  have "laid ?h ?B"
    by (rule laid_cong [OF B(2)]) (use size f B(2) in \<open>auto simp: bump_area_def laid_def\<close>)
  moreover have "fl_chain (h_mem ?h) 16 (h_free_list ?h) (pre @ post)"
    unfolding T(5)
  proof (rule fl_chain_remove [OF B(6,3) _ T(3)])
    fix q
    assume q: "q \<in> set pre \<union> set post" "pre = [] \<or> q \<noteq> last pre"
    then have "q \<in> ?B" "q \<noteq> p" using B(3) by auto
    then show "load64 (h_mem ?h) (q + 16) = load64 (h_mem h) (q + 16)"
      using block_unchanged(3) [OF B(1,2) _ T(1) other] q(2) by blast
  qed
  moreover have "hmagic ?h q = hmagic h q" if "q \<in> A" for q
  proof -
    have "q \<noteq> p" "pre = [] \<or> q \<noteq> last pre" "q \<in> ?B" using B(4) that lp by auto
    then show ?thesis using block_unchanged(2) [OF B(1,2) _ T(1) other] by (simp add: hmagic_def)
  qed
  ultimately show "heap_ok ?h (pre @ post) (insert p A) D"
    using B T(2) f unfolding heap_ok_def by (auto simp: arena_ok_def laid_def)
qed

section \<open>Carving a new block\<close>

lemma put_block_mem:
  assumes "unat p + 16 + unat sz \<le> 0xffff910004001000" "n \<le> sz"
  shows "only_changes {unat p..<unat p + 16 + unat sz} (h_mem h) (h_mem (put_block p sz magic n h))"
    "hsize (put_block p sz magic n h) p = unat sz" "hmagic (put_block p sz magic n h) p = magic"
    "\<And>x. unat p + 16 \<le> unat x \<Longrightarrow> unat x < unat p + 16 + unat n \<Longrightarrow> h_mem (put_block p sz magic n h) x = 0"
proof -
  have u: "unat (p + 8) = unat p + 8" "unat (p + 16) = unat p + 16" using assms(1) by (simp_all add: unat_add_no_wrap)
  have n: "unat n \<le> unat sz" using assms(2) by (simp add: word_le_nat_alt)
  define m1 where "m1 = store64 (h_mem h) p sz"
  define m2 where "m2 = store64 m1 (p + 8) magic"
  define m3 where "m3 = memzero m2 (p + 16) (unat n)"
  have h': "h_mem (put_block p sz magic n h) = m3" by (simp add: put_block_def m3_def m2_def m1_def)
  have c1: "only_changes {unat p..<unat p + 8} (h_mem h) m1" using store64_changes [of p "h_mem h" sz] assms(1) by (simp add: m1_def)
  have c2: "only_changes {unat p + 8..<unat p + 16} m1 m2"
    using store64_changes [of "p + 8" m1 magic] assms(1) u(1) by (simp add: m2_def add.commute)
  have c3: "only_changes {unat p + 16..<unat p + 16 + unat n} m2 m3"
    using memzero_changes [of "p + 16" "unat n" m2] assms(1) u(2) n by (simp add: m3_def)
  have c12: "only_changes {unat p..<unat p + 16} (h_mem h) m2" by (rule only_changes_trans [OF c1 c2]) auto
  show "only_changes {unat p..<unat p + 16 + unat sz} (h_mem h) (h_mem (put_block p sz magic n h))"
    unfolding h' by (rule only_changes_trans [OF c12 c3]) (use n in auto)
  have "load64 m3 p = load64 m2 p" by (rule load64_unchanged [OF c3]) (use assms(1) in auto)
  also have "\<dots> = load64 m1 p" by (rule load64_unchanged [OF c2]) (use assms(1) in auto)
  finally show "hsize (put_block p sz magic n h) p = unat sz" by (simp add: hsize_def h' m1_def)
  have "load64 m3 (p + 8) = load64 m2 (p + 8)" by (rule load64_unchanged [OF c3]) (use assms(1) u in auto)
  then show "hmagic (put_block p sz magic n h) p = magic" by (simp add: hmagic_def h' m2_def)
  show "h_mem (put_block p sz magic n h) x = 0" if "unat p + 16 \<le> unat x" "unat x < unat p + 16 + unat n" for x
    unfolding h' m3_def using that u(2) by (intro memzero_zero) auto
qed

lemma put_block_frame [simp]:
  "heap_usable_base (put_block p sz magic n h) = heap_usable_base h" "heap_usable_end (put_block p sz magic n h) = heap_usable_end h"
  "cur_page_virt (put_block p sz magic n h) = cur_page_virt h" "cur_off (put_block p sz magic n h) = cur_off h"
  "next_page_virt (put_block p sz magic n h) = next_page_virt h" "h_free_list (put_block p sz magic n h) = h_free_list h"
  "h_vmm (put_block p sz magic n h) = h_vmm h"
  by (simp_all add: put_block_def)

text \<open>\<open>grown h h'\<close>: the cursors of \<open>h'\<close> leave the blocks of \<open>h\<close> alone.\<close>

definition grown :: "heap \<Rightarrow> heap \<Rightarrow> u64 set \<Rightarrow> bool" where
  "grown h h' B \<longleftrightarrow> arena_ok h' \<and> h_mem h' = h_mem h \<and> h_free_list h' = h_free_list h
     \<and> heap_usable_base h' = heap_usable_base h \<and> unat (next_page_virt h) \<le> unat (next_page_virt h')
     \<and> (\<forall>q \<in> B. extent h q \<inter> bump_area h' = {})"

lemma grown_ok:
  assumes "heap_ok h F A D" "grown h h' (set F \<union> A \<union> D)"
  shows "heap_ok h' F A D"
proof -
  have "laid h' (set F \<union> A \<union> D)"
    by (rule laid_cong [of h "set F \<union> A \<union> D"]) (use assms in \<open>auto simp: heap_ok_def grown_def hsize_def\<close>)
  then show ?thesis using assms by (auto simp: heap_ok_def grown_def hmagic_def)
qed

lemma grown_vmm:
  assumes "heap_ok h F A D"
  shows "grown h (h\<lparr>h_vmm := v\<rparr>) (set F \<union> A \<union> D)"
proof -
  have "arena_ok (h\<lparr>h_vmm := v\<rparr>) = arena_ok h" "bump_area (h\<lparr>h_vmm := v\<rparr>) = bump_area h" by (simp_all add: arena_ok_def bump_area_def)
  then show ?thesis using assms by (simp add: grown_def laid_def heap_ok_def)
qed

lemma put_block_ok:
  assumes ok: "heap_ok h F A D"
    and E: "{unat p..<unat p + 16 + unat sz} \<subseteq> {unat (heap_usable_base h)..<unat (next_page_virt h)}"
    and sz: "8 \<le> unat sz" "unat p mod 16 = 0" "n \<le> sz"
    and new: "\<And>q. q \<in> set F \<union> A \<union> D \<Longrightarrow> extent h q \<inter> {unat p..<unat p + 16 + unat sz} = {}"
    and bump: "{unat p..<unat p + 16 + unat sz} \<inter> bump_area h = {}"
    and m: "magic = HEAP_MAGIC \<or> magic = HEAP_MAGIC_LARGE"
  shows "heap_ok (put_block p sz magic n h) F (insert p A) D"
    "\<And>q. q \<in> set F \<union> A \<union> D \<Longrightarrow> hsize (put_block p sz magic n h) q = hsize h q"
    "\<And>q x. q \<in> A \<Longrightarrow> unat x \<in> extent h q \<Longrightarrow> h_mem (put_block p sz magic n h) x = h_mem h x"
    "hsize (put_block p sz magic n h) p = unat sz"
    "\<And>x. unat p + 16 \<le> unat x \<Longrightarrow> unat x < unat p + 16 + unat n \<Longrightarrow> h_mem (put_block p sz magic n h) x = 0"
    "p \<notin> set F \<union> A \<union> D"
proof -
  let ?h = "put_block p sz magic n h" and ?B = "set F \<union> A \<union> D" and ?E = "{unat p..<unat p + 16 + unat sz}"
  have B: "arena_ok h" "laid h ?B" "fl_chain (h_mem h) 16 (h_free_list h) F" using ok by (simp_all add: heap_ok_def)
  have "unat p + 15 + unat sz \<in> ?E" by simp
  with E have "unat p + 15 + unat sz < unat (next_page_virt h)" by auto
  then have le: "unat p + 16 + unat sz \<le> 0xffff910004001000" using arena_okD(2) [OF B(1)] by simp
  note P = put_block_mem [where h = h and magic = magic, OF le sz(3)]
  note U = block_unchanged [OF B(1,2) _ P(1)]
  have un: "load64 (h_mem ?h) q = load64 (h_mem h) q" "load64 (h_mem ?h) (q + 8) = load64 (h_mem h) (q + 8)"
    "load64 (h_mem ?h) (q + 16) = load64 (h_mem h) (q + 16)" if "q \<in> ?B" for q
    using U [OF that] new [OF that] by (simp_all add: Int_commute)
  show size: "hsize ?h q = hsize h q" if "q \<in> ?B" for q using un(1) [OF that] by (simp add: hsize_def)
  show "h_mem ?h x = h_mem h x" if "q \<in> A" "unat x \<in> extent h q" for q x
    using P(1) that new [of q] unfolding only_changes_def by blast
  show hs: "hsize ?h p = unat sz" by (rule P(2))
  show "h_mem ?h x = 0" if "unat p + 16 \<le> unat x" "unat x < unat p + 16 + unat n" for x using P(4) that .
  show np: "p \<notin> ?B"
  proof
    assume "p \<in> ?B"
    from new [OF this] have "unat p \<notin> extent h p" by (auto simp: disjoint_iff)
    then show False by (simp add: extent_def)
  qed
  have ext: "extent ?h q = (if q = p then ?E else extent h q)" if "q \<in> insert p ?B" for q
    using that size hs np by (auto simp: extent_def)
  have b: "bump_area ?h = bump_area h" by (simp add: bump_area_def)
  have "laid ?h (insert p ?B)"
    unfolding laid_def
  proof (intro conjI ballI impI)
    fix q
    assume q: "q \<in> insert p ?B"
    show "extent ?h q \<subseteq> {unat (heap_usable_base ?h)..<unat (next_page_virt ?h)}"
      using q ext [OF q] E B(2) unfolding laid_def by (cases "q = p") auto
    show "8 \<le> hsize ?h q" "unat q mod 16 = 0" "extent ?h q \<inter> bump_area ?h = {}"
      using q ext [OF q] sz hs size bump b B(2) unfolding laid_def by (cases "q = p"; simp)+
    fix q'
    assume q': "q' \<in> insert p ?B" "q \<noteq> q'"
    show "extent ?h q \<inter> extent ?h q' = {}"
      using q q' ext [OF q] ext [OF q'(1)] new [of q] new [of q'] B(2) unfolding laid_def
      by (cases "q = p"; cases "q' = p") (simp_all add: Int_commute)
  qed
  moreover have "fl_chain (h_mem ?h) 16 (h_free_list ?h) F"
    using B(3) un(3) by (simp add: fl_chain_cong [of F "h_mem ?h" 16 "h_mem h"])
  moreover have "hmagic ?h q = hmagic h q" if "q \<in> A" for q using un(2) [of q] that by (simp add: hmagic_def)
  ultimately show "heap_ok ?h F (insert p A) D"
    using ok np P(3) m unfolding heap_ok_def by (auto simp: arena_ok_def)
qed

lemma fresh_page_grown:
  assumes ok: "heap_ok h F A D" and a: "heap_map_fresh_page h = Inr h'"
  shows "grown h h' (set F \<union> A \<union> D)" "unat (cur_page_virt h') = unat (next_page_virt h)" "cur_off h' = 0"
proof -
  have B: "arena_ok h" "laid h (set F \<union> A \<union> D)" using ok by (simp_all add: heap_ok_def)
  have lt: "next_page_virt h < heap_usable_end h"
    and h': "\<exists>v. h' = h\<lparr>h_vmm := v, cur_page_virt := next_page_virt h, cur_off := 0, next_page_virt := next_page_virt h + PAGE_SIZE\<rparr>"
    using a by (auto simp: heap_map_fresh_page_def Let_def linorder_not_le split: if_splits prod.splits)
  have e: "unat (heap_usable_end h) = 0xffff910004001000" using B(1) by (simp add: arena_ok_def)
  obtain k where k: "unat (next_page_virt h) = 4096 * k" using B(1) unfolding arena_ok_def page_aligned_unat by (metis mod_0_imp_dvd dvdE)
  have "unat (next_page_virt h) < 0xffff910004001000" using lt e by (simp add: word_less_nat_alt)
  then have n: "unat (next_page_virt h) + 4096 \<le> 0xffff910004001000" using k by simp
  then have u: "unat (next_page_virt h + PAGE_SIZE) = unat (next_page_virt h) + 4096" by (simp add: PAGE_SIZE_def unat_add_no_wrap)
  have "page_aligned (next_page_virt h + PAGE_SIZE)" unfolding page_aligned_unat u k by simp
  then have "arena_ok h'" using h' u n e B(1) by (auto simp: arena_ok_def)
  moreover have "extent h q \<inter> bump_area h' = {}" if "q \<in> set F \<union> A \<union> D" for q
    using block_place(2) [OF B that] h' by (auto simp: extent_def bump_area_def)
  ultimately show "grown h h' (set F \<union> A \<union> D)" using h' u by (auto simp: grown_def)
  show "unat (cur_page_virt h') = unat (next_page_virt h)" "cur_off h' = 0" using h' by auto
qed

lemma unat_align_up:
  fixes x :: u64
  assumes "unat x + 2 ^ n < 2 ^ 64" "n < 64"
  shows "unat x \<le> unat (align_up_uintptr x (2 ^ n))" "unat (align_up_uintptr x (2 ^ n)) mod 2 ^ n = 0"
    "unat (align_up_uintptr x (2 ^ n)) < unat x + 2 ^ n"
proof -
  have m: "(2 :: u64) ^ n - 1 = mask n" by (simp add: mask_eq_exp_minus_1)
  have "unat (of_nat (mask n) :: u64) = mask n" using assms(2) by (simp only: unsigned_of_nat) (simp add: min_def)
  then have um: "unat (mask n :: u64) = 2 ^ n - 1" by (simp add: of_nat_mask_eq mask_eq_exp_minus_1)
  have "unat x + unat (mask n :: u64) < 2 ^ 64" using assms(1) um by simp
  then have ux: "unat (x + mask n) = unat x + (2 ^ n - 1)" using um by (simp add: unat_add_no_wrap)
  let ?y = "unat x + (2 ^ n - 1)"
  have e: "unat (align_up_uintptr x (2 ^ n)) = ?y - ?y mod 2 ^ n"
    unfolding align_up_uintptr_def m unat_and_not_mask ux ..
  have "?y mod 2 ^ n < 2 ^ n" by (rule mod_less_divisor) simp
  then have l: "?y mod 2 ^ n \<le> 2 ^ n - 1" by linarith
  show "unat x \<le> unat (align_up_uintptr x (2 ^ n))" unfolding e using l by linarith
  show "unat (align_up_uintptr x (2 ^ n)) mod 2 ^ n = 0" unfolding e by (simp add: minus_mod_eq_mult_div)
  have "0 < (2 :: nat) ^ n" by simp
  then show "unat (align_up_uintptr x (2 ^ n)) < unat x + 2 ^ n" unfolding e by linarith
qed

lemma unat_round_size:
  assumes "unat size' < 4096"
  shows "unat size' \<le> unat (round_size size')" "unat (round_size size') \<le> 4096" "8 \<le> unat size' \<Longrightarrow> 8 \<le> unat (round_size size')"
proof -
  have m: "(7 :: u64) = mask 3" by (simp add: mask_eq_exp_minus_1)
  have u: "unat (size' + 7) = unat size' + 7" using assms by (simp add: unat_add_no_wrap)
  have e: "unat (round_size size') = (unat size' + 7) - (unat size' + 7) mod 8"
    unfolding round_size_def u [symmetric] using unat_and_not_mask [of "size' + 7" 3] unfolding m [symmetric] by simp
  have "(unat size' + 7) mod 8 < 8" by simp
  then show "unat size' \<le> unat (round_size size')" "8 \<le> unat size' \<Longrightarrow> 8 \<le> unat (round_size size')"
    unfolding e by linarith+
  have "unat (round_size size') = 8 * ((unat size' + 7) div 8)" unfolding e by (rule minus_mod_eq_mult_div)
  then show "unat (round_size size') \<le> 4096" using assms by simp
qed

text \<open>What an allocation of \<open>size'\<close> bytes at \<open>p\<close> means for the blocks \<open>A\<close> in use.\<close>

definition allocated :: "heap \<Rightarrow> u64 set \<Rightarrow> u64 set \<Rightarrow> nat \<Rightarrow> u64 \<Rightarrow> heap \<Rightarrow> bool" where
  "allocated h A D n p h' \<longleftrightarrow> (\<exists>F'. heap_ok h' F' (insert (p - 16) A) D) \<and> p - 16 \<notin> A \<and> n \<le> hsize h' (p - 16)
     \<and> (\<forall>q \<in> A. hsize h' q = hsize h q \<and> (\<forall>x. unat x \<in> extent h q \<longrightarrow> h_mem h' x = h_mem h x))
     \<and> (\<forall>x. unat p \<le> unat x \<longrightarrow> unat x < unat p + n \<longrightarrow> h_mem h' x = 0)"

lemma allocated_nonzero: "allocated h A D k p h' \<Longrightarrow> p \<noteq> 0"
proof
  assume a: "allocated h A D k p h'" and "p = 0"
  then obtain F' where "heap_ok h' F' (insert (0 - 16) A) D" by (auto simp: allocated_def)
  then have "unat (0 - 16 :: u64) + 16 + hsize h' (0 - 16) \<le> 0xffff910004001000"
    using block_place(4) [of h' "set F' \<union> insert (0 - 16) A \<union> D" "0 - 16"] by (simp add: heap_ok_def)
  then show False by simp
qed

lemma bump_take_ok:
  assumes ok: "heap_ok h F A D" and n: "4 \<le> n" "n \<le> 12" and need: "8 \<le> unat need" "unat need \<le> 4096"
    and f: "bump_fit (2 ^ n) (16 + need) h = (hptr, new_off)" "\<not> new_off > PAGE_SIZE"
    and t: "bump_take hptr new_off need h = (p, h')" and k: "k \<le> unat need"
  shows "allocated h A D k p h'"
proof -
  let ?x = "cur_page_virt h + cur_off h" and ?B = "set F \<union> A \<union> D"
  have B: "arena_ok h" "laid h ?B" using ok by (simp_all add: heap_ok_def)
  note R = arena_okD [OF B(1)]
  have x: "unat ?x = unat (cur_page_virt h) + unat (cur_off h)" using R by (simp add: unat_add_no_wrap)
  have "(2 :: nat) ^ n \<le> 2 ^ 12" by (rule power_increasing [OF n(2)]) simp
  then have p2: "(2 :: nat) ^ n \<le> 4096" by simp
  have hp: "hptr = align_up_uintptr ?x (2 ^ n)" and off: "new_off = (hptr - cur_page_virt h) + (16 + need)"
    using f(1) by (auto simp: bump_fit_def Let_def)
  have "unat ?x + 2 ^ n < 2 ^ 64" using x R p2 by simp
  note U = unat_align_up [OF this, folded hp]
  have U': "unat ?x \<le> unat hptr" "unat hptr mod 2 ^ n = 0" "unat hptr < unat ?x + 2 ^ n" using U n by simp_all
  have "(16 :: nat) dvd 2 ^ n" using n(1) le_imp_power_dvd [of 4 n "2 :: nat"] by simp
  then have h16: "unat hptr mod 16 = 0" using U'(2) by (metis dvd_trans mod_eq_0_iff_dvd)
  have "unat (hptr - cur_page_virt h) = unat hptr - unat (cur_page_virt h)" using U'(1) x by (intro unat_diff_le) (simp add: word_le_nat_alt)
  moreover have "unat (16 + need) = 16 + unat need" using need by (simp add: unat_add_no_wrap)
  moreover have "unat (hptr - cur_page_virt h) + unat (16 + need) < 2 ^ 64" using calculation U'(3) x R p2 need by simp
  ultimately have no: "unat new_off = unat hptr - unat (cur_page_virt h) + 16 + unat need" unfolding off by (simp add: unat_add_no_wrap)
  have "unat new_off \<le> 4096" using f(2) by (simp add: word_le_nat_alt PAGE_SIZE_def linorder_not_less)
  then have fit: "unat hptr + 16 + unat need \<le> unat (cur_page_virt h) + 4096" "unat new_off \<le> 4096" using no U'(1) x by simp_all
  define h1 where "h1 = h\<lparr>cur_off := new_off\<rparr>"
  let ?E = "{unat hptr..<unat hptr + 16 + unat need}"
  have sub: "?E \<subseteq> bump_area h" using U'(1) x fit by (auto simp: bump_area_def)
  have "bump_area h1 = {unat hptr + 16 + unat need..<unat (cur_page_virt h) + 4096}" using no U'(1) x by (simp add: bump_area_def h1_def)
  then have ba: "bump_area h1 \<subseteq> bump_area h" "?E \<inter> bump_area h1 = {}" using U'(1) x by (auto simp: bump_area_def)
  have blocks: "extent h q \<inter> bump_area h = {}" if "q \<in> ?B" for q using B(2) that unfolding laid_def by blast
  have "arena_ok h1" using B(1) fit(2) by (auto simp: arena_ok_def h1_def)
  then have g: "grown h h1 ?B" using blocks ba(1) unfolding grown_def h1_def by fastforce
  have ext: "extent h1 q = extent h q" "hsize h1 q = hsize h q" for q by (simp_all add: extent_def hsize_def h1_def)
  have E: "?E \<subseteq> {unat (heap_usable_base h1)..<unat (next_page_virt h1)}" using U'(1) x fit R by (auto simp: h1_def)
  have new: "extent h1 q \<inter> ?E = {}" if "q \<in> ?B" for q using blocks [OF that] sub ext by blast
  note P = put_block_ok [OF grown_ok [OF ok g] E need(1) h16 order_refl new ba(2), of HEAP_MAGIC]
  have h': "h' = put_block hptr need HEAP_MAGIC need h1" "p = hptr + 16" using t by (auto simp: bump_take_def h1_def)
  have "unat (hptr + 16) = unat hptr + 16" using fit R by (simp add: unat_add_no_wrap)
  then show ?thesis
    unfolding allocated_def h' using P k ext by (auto simp: h1_def)
qed

lemma bump_alloc_ok:
  assumes ok: "heap_ok h F A D" and n: "4 \<le> n" "n \<le> 12" and need: "8 \<le> unat need" "unat need \<le> 4096"
    and a: "bump_alloc need (2 ^ n) h = Inr (p, h')" and k: "k \<le> unat need"
  shows "if p = 0 then heap_ok h' F A D \<and> h_mem h' = h_mem h else allocated h A D k p h'"
proof -
  have B: "arena_ok h" using ok by (simp add: heap_ok_def)
  have nz: "cur_page_virt h \<noteq> 0" using arena_okD(1,4) [OF B] by auto
  obtain hptr off where f: "bump_fit (2 ^ n) (16 + need) h = (hptr, off)" by (cases "bump_fit (2 ^ n) (16 + need) h")
  show ?thesis
  proof (cases "off > PAGE_SIZE")
    case False
    then have t: "bump_take hptr off need h = (p, h')" using a nz f by (simp add: bump_alloc_def)
    have "allocated h A D k p h'" by (rule bump_take_ok [OF ok n need f False t k])
    then show ?thesis using allocated_nonzero by simp
  next
    case True
    then obtain h1 where h1: "heap_map_fresh_page h = Inr h1"
      using a nz f by (auto simp: bump_alloc_def split: sum.splits)
    note G = fresh_page_grown [OF ok h1]
    note ok1 = grown_ok [OF ok G(1)]
    have mem: "h_mem h1 = h_mem h" using G(1) by (simp add: grown_def)
    obtain hptr1 off1 where f1: "bump_fit (2 ^ n) (16 + need) h1 = (hptr1, off1)" by (cases "bump_fit (2 ^ n) (16 + need) h1")
    show ?thesis
    proof (cases "off1 > PAGE_SIZE")
      case big: True
      then have "p = 0" "h' = h1" using a nz f f1 True h1 by (auto simp: bump_alloc_def)
      then show ?thesis using ok1 mem by simp
    next
      case small: False
      then have t: "bump_take hptr1 off1 need h1 = (p, h')" using a nz f f1 True h1 by (simp add: bump_alloc_def)
      from bump_take_ok [OF ok1 n need f1 small t k] have "allocated h A D k p h'"
        using mem by (simp add: allocated_def hsize_def extent_def)
      then show ?thesis using allocated_nonzero by simp
    qed
  qed
qed

lemma big_alloc_ok:
  assumes ok: "heap_ok h F A D" and size: "4096 \<le> unat size'" "unat size' < 2 ^ 46" and a: "big_alloc size' h = Inr (p, h')"
  shows "if p = 0 then heap_ok h' F A D \<and> h_mem h' = h_mem h else allocated h A D (unat size') p h'"
proof -
  let ?B = "set F \<union> A \<union> D" and ?v = "next_page_virt h"
  define pages where "pages = (size' + 16 + PAGE_SIZE - 1) div PAGE_SIZE"
  define bytes where "bytes = pages * PAGE_SIZE"
  have B: "arena_ok h" "laid h ?B" using ok by (simp_all add: heap_ok_def)
  note R = arena_okD [OF B(1)]
  have e: "unat (heap_usable_end h) = 0xffff910004001000" using B(1) by (simp add: arena_ok_def)
  have "unat (size' + 0x100F) = unat size' + 0x100F" using size(2) by (simp add: unat_add_no_wrap)
  moreover have "size' + 16 + PAGE_SIZE - 1 = size' + 0x100F" "unat PAGE_SIZE = 4096" by (simp_all add: PAGE_SIZE_def)
  ultimately have up: "unat pages = (unat size' + 4111) div 4096" unfolding pages_def unat_div by (simp only:)
  have pb: "unat pages * 4096 \<le> unat size' + 4111" "unat size' + 16 \<le> unat pages * 4096" unfolding up by (rule div_times_less_eq_dividend, linarith)
  have "unat pages * unat PAGE_SIZE < 2 ^ 64" using pb(1) size(2) by (simp add: PAGE_SIZE_def)
  then have ub: "unat bytes = unat pages * 4096" unfolding bytes_def by (simp add: unat_word_ariths PAGE_SIZE_def)
  have al: "align_down_u64 ?v = ?v"
    using B(1) page_down_aligned [of ?v] by (simp add: arena_ok_def align_down_u64_def PAGE_SIZE_def)
  have uv: "unat (?v + bytes) = unat ?v + unat bytes" using R(2) ub pb(1) size(2) by (intro unat_add_no_wrap) simp
  have b16: "unat (bytes - 16) = unat bytes - 16" using ub pb(2) unat_diff_le [of 16 bytes] by (simp add: word_le_nat_alt)
  have ns: "\<not> bytes - 16 < size'" using b16 ub pb(2) by (simp add: word_less_nat_alt)
  note a' = a [unfolded big_alloc_def Let_def, folded pages_def, folded bytes_def, unfolded al]
  have le: "unat ?v + unat bytes \<le> 0xffff910004001000"
    using a' uv e by (auto simp: word_less_nat_alt split: if_splits)
  obtain phys q where al1: "pmm_alloc_pages pages (v_pmm (h_vmm h)) = (phys, q)" by (cases "pmm_alloc_pages pages (v_pmm (h_vmm h))")
  show ?thesis
  proof (cases "phys = 0")
    case True
    then have "p = 0" "h' = h\<lparr>h_vmm := (h_vmm h)\<lparr>v_pmm := q\<rparr>\<rparr>"
      using a' al1 by (auto split: if_splits)
    then show ?thesis using grown_ok [OF ok grown_vmm [OF ok]] by simp
  next
    case False
    then obtain vm where h': "p = ?v + 16" "h' = put_block ?v (bytes - 16) HEAP_MAGIC_LARGE size' (h\<lparr>h_vmm := vm, next_page_virt := ?v + bytes\<rparr>)"
      using a' al1 ns by (auto split: if_splits prod.splits)
    define h1 where "h1 = h\<lparr>h_vmm := vm, next_page_virt := ?v + bytes\<rparr>"
    let ?E = "{unat ?v..<unat ?v + 16 + unat (bytes - 16)}"
    have E: "?E = {unat ?v..<unat ?v + unat bytes}" using b16 ub pb(2) by simp
    obtain k where k: "unat ?v = 4096 * k" using B(1) unfolding arena_ok_def page_aligned_unat by (metis mod_0_imp_dvd dvdE)
    have "page_aligned (?v + bytes)" unfolding page_aligned_unat uv ub k by simp
    then have "arena_ok h1" using B(1) uv le e by (auto simp: arena_ok_def h1_def)
    then have g: "grown h h1 ?B" using B(2) uv unfolding grown_def h1_def laid_def bump_area_def by simp
    have ext: "extent h1 q = extent h q" "hsize h1 q = hsize h q" for q by (simp_all add: extent_def hsize_def h1_def)
    have E1: "?E \<subseteq> {unat (heap_usable_base h1)..<unat (next_page_virt h1)}" unfolding E using uv R by (auto simp: h1_def)
    have new: "extent h1 q \<inter> ?E = {}" if "q \<in> ?B" for q unfolding E ext
      using block_place(2) [OF B that] by (auto simp: extent_def)
    have bump: "?E \<inter> bump_area h1 = {}" unfolding E using R(3) by (auto simp: bump_area_def h1_def)
    have sz: "8 \<le> unat (bytes - 16)" "unat ?v mod 16 = 0" "size' \<le> bytes - 16"
      using b16 ub pb(2) size(1) ns unfolding k by (simp_all add: linorder_not_less)
    note P = put_block_ok [OF grown_ok [OF ok g] E1 sz new bump, of HEAP_MAGIC_LARGE, folded h1_def]
    have "unat (?v + 16) = unat ?v + 16" using R(2) by (simp add: unat_add_no_wrap)
    then have "allocated h A D (unat size') p h'"
      unfolding allocated_def h' h1_def [symmetric] using P ext sz(3) by (auto simp: h1_def word_le_nat_alt)
    then show ?thesis using allocated_nonzero by simp
  qed
qed

lemma freelist_take_ok:
  assumes ok: "heap_ok h F A D"
  obtains "freelist_take need h = Some (0, h)"
    | p h' where "freelist_take need h = Some (p, h')" "p \<noteq> 0" "\<And>k. k \<le> unat need \<Longrightarrow> allocated h A D k p h'"
proof -
  let ?P = "\<lambda>p. load64 (h_mem h) p < need"
  have c: "fl_chain (h_mem h) 16 (h_free_list h) F" using ok by (simp add: heap_ok_def)
  note S = freelist_scan_finds [of h "[]" F need, simplified, OF c]
  have l: "link_of [] = None" by (simp add: link_of_def)
  show thesis
  proof (cases "dropWhile ?P F")
    case Nil
    then have "freelist_take need h = Some (0, h)" using S by (simp add: freelist_take_def l del: dropWhile_eq_Nil_conv)
    then show thesis by (rule that(1))
  next
    case (Cons q post)
    let ?pre = "takeWhile ?P F" and ?h = "take_block (link_of (takeWhile ?P F)) q h"
    have F: "F = ?pre @ q # post" using Cons takeWhile_dropWhile_id [of ?P F] by simp
    have r: "freelist_take need h = Some (q + 16, ?h)" using S Cons by (simp add: freelist_take_def l)
    have ok': "heap_ok h (?pre @ q # post) A D" using ok F by simp
    note T = take_block_ok [OF ok'] and M = take_block_mem(4) [OF ok']
    have q: "need \<le> load64 (h_mem h) q" using hd_dropWhile [of ?P F] Cons by (simp add: linorder_not_less)
    have B: "arena_ok h" "laid h (set F \<union> A \<union> D)" "q \<in> set F" "A \<inter> set F = {}" using ok F by (auto simp: heap_ok_def) (metis in_set_conv_decomp)
    have "q \<in> set F \<union> A \<union> D" using B(3) by simp
    note U = block_place(6) [OF B(1,2) this]
    have "allocated h A D k (q + 16) ?h" if "k \<le> unat need" for k
    proof -
      have "unat need \<le> hsize h q" using q by (simp add: hsize_def word_le_nat_alt)
      then show ?thesis unfolding allocated_def using T M U that B(3,4) by auto
    qed
    then show thesis using that(2) [OF r] allocated_nonzero by blast
  qed
qed

lemma kmalloc_aligned_ok:
  assumes ok: "heap_ok h F A D" and n: "n \<le> 12" and size: "unat size' < 2 ^ 46"
  shows "kmalloc_aligned size' (2 ^ n) h \<noteq> None"
    "kmalloc_aligned size' (2 ^ n) h = Some (Inr (p, h')) \<Longrightarrow>
      if p = 0 then heap_ok h' F A D \<and> h_mem h' = h_mem h else allocated h A D (unat size') p h'"
proof -
  define m where "m = max n 4"
  have m: "4 \<le> m" "m \<le> 12" using n by (auto simp: m_def)
  have al: "(if (2 ^ n :: u64) < 16 then 16 else 2 ^ n) = (2 ^ m :: u64)"
  proof -
    have "list_all (\<lambda>n. (if (2 ^ n :: u64) < 16 then 16 else 2 ^ n) = (2 ^ max n 4 :: u64)) [0..<13]" by code_simp
    then show ?thesis using n unfolding list_all_iff m_def set_upt by simp
  qed
  have p2: "(2 ^ m :: u64) AND (2 ^ m - 1) = 0"
    by (rule bit_word_eqI) (auto simp: bit_simps mask_eq_exp_minus_1 [symmetric])
  let ?need = "round_size (if size' < 8 then 8 else size')"
  have km: "kmalloc_aligned size' (2 ^ n) h =
     (if size' = 0 then Some (Inr (0, h)) else if size' \<ge> PAGE_SIZE then Some (big_alloc size' h)
      else if (2 ^ m :: u64) = 16 then
        (case freelist_take ?need h of
           None \<Rightarrow> None
         | Some (hit, h) \<Rightarrow> if hit \<noteq> 0 then Some (Inr (hit, h)) else Some (bump_alloc ?need (2 ^ m) h))
      else Some (bump_alloc ?need (2 ^ m) h))"
    unfolding kmalloc_aligned_def Let_def al using p2 by simp
  show "kmalloc_aligned size' (2 ^ n) h \<noteq> None"
    by (cases rule: freelist_take_ok [OF ok, of ?need]) (simp_all add: km)
  show "if p = 0 then heap_ok h' F A D \<and> h_mem h' = h_mem h else allocated h A D (unat size') p h'"
    if a: "kmalloc_aligned size' (2 ^ n) h = Some (Inr (p, h'))"
  proof (cases "size' = 0 \<or> size' \<ge> PAGE_SIZE")
    case True
    then show ?thesis
      using a ok big_alloc_ok [OF ok _ size, of p h'] by (auto simp: km word_le_nat_alt PAGE_SIZE_def split: if_splits)
  next
    case False
    then have s: "unat size' < 4096" by (simp add: word_le_nat_alt PAGE_SIZE_def)
    have "unat (if size' < 8 then 8 else size') < 4096" "8 \<le> unat (if size' < 8 then 8 else size')" "unat size' \<le> unat (if size' < 8 then 8 else size')"
      using s by (auto simp: word_less_nat_alt)
    then have need: "8 \<le> unat ?need" "unat ?need \<le> 4096" "unat size' \<le> unat ?need"
      using unat_round_size [of "if size' < 8 then 8 else size'"] by linarith+
    note BA = bump_alloc_ok [OF ok m need(1,2) _ need(3), of p h']
    show ?thesis
    proof (cases rule: freelist_take_ok [OF ok, of ?need])
      case 1
      then have "bump_alloc ?need (2 ^ m) h = Inr (p, h')"
        using a False by (auto simp: km split: if_splits)
      then show ?thesis by (rule BA)
    next
      case (2 p1 h1)
      show ?thesis
      proof (cases "(2 ^ m :: u64) = 16")
        case True
        then have "p = p1" "h' = h1" using a False 2 by (auto simp: km split: if_splits)
        then show ?thesis using 2 need(3) by simp
      next
        case no: False
        then have "bump_alloc ?need (2 ^ m) h = Inr (p, h')"
          using a False by (auto simp: km split: if_splits)
        then show ?thesis by (rule BA)
      qed
    qed
  qed
qed

section \<open>Giving a block back\<close>

lemma hdr_write_ok:
  assumes ok: "heap_ok h F A D" and q: "q \<in> A" and c: "only_changes {unat q + 8..<unat q + 24} (h_mem h) m"
    and F': "(F' = F \<and> g = h_free_list h \<and> D' = insert q D) \<or> (F' = q # F \<and> g = q \<and> D' = D \<and> load64 m (q + 16) = h_free_list h)"
  shows "heap_ok (h\<lparr>h_mem := m, h_free_list := g\<rparr>) F' (A - {q}) D'"
    "\<And>p. p \<in> A \<Longrightarrow> load64 m p = load64 (h_mem h) p"
    "\<And>p x. p \<in> A - {q} \<Longrightarrow> unat x \<in> extent h p \<Longrightarrow> m x = h_mem h x"
proof -
  let ?h = "h\<lparr>h_mem := m, h_free_list := g\<rparr>" and ?B = "set F \<union> A \<union> D"
  have B: "arena_ok h" "laid h ?B" "A \<inter> set F = {}" "D \<inter> (A \<union> set F) = {}" "distinct F" "fl_chain (h_mem h) 16 (h_free_list h) F"
    "\<forall>p \<in> A. hmagic h p = HEAP_MAGIC \<or> hmagic h p = HEAP_MAGIC_LARGE" using ok by (simp_all add: heap_ok_def)
  have qB: "q \<in> ?B" using q by simp
  note Q = block_place [OF B(1,2) qB]
  have qs: "{unat q + 8..<unat q + 24} \<subseteq> extent h q" using Q(3) by (auto simp: extent_def)
  have sep: "{unat q + 8..<unat q + 24} \<inter> extent h p = {}" if "p \<in> ?B" "p \<noteq> q" for p
    using B(2) that qB qs unfolding laid_def by blast
  have un: "load64 m p = load64 (h_mem h) p" "load64 m (p + 8) = load64 (h_mem h) (p + 8)" "load64 m (p + 16) = load64 (h_mem h) (p + 16)"
    if "p \<in> ?B" "p \<noteq> q" for p using block_unchanged [OF B(1,2) that(1) c sep [OF that]] .
  have "load64 m q = load64 (h_mem h) q" by (rule size_unchanged [OF B(1,2) qB c]) auto
  with un(1) have size: "load64 m p = load64 (h_mem h) p" if "p \<in> ?B" for p using that by (cases "p = q") auto
  then show "\<And>p. p \<in> A \<Longrightarrow> load64 m p = load64 (h_mem h) p" by simp
  show "m x = h_mem h x" if "p \<in> A - {q}" "unat x \<in> extent h p" for p x
    using c sep [of p] that unfolding only_changes_def by blast
  have chain: "fl_chain m 16 (h_free_list h) F"
    using B(6) un(3) B(3) q by (subst fl_chain_cong [of F m 16 "h_mem h"]) auto
  have "q \<noteq> 0" using Q(1) by auto
  then have "fl_chain m 16 g F'" using F' chain by auto
  moreover have sets: "set F' \<union> (A - {q}) \<union> D' = ?B" "distinct F'" "(A - {q}) \<inter> set F' = {}" "D' \<inter> ((A - {q}) \<union> set F') = {}"
    using F' B(3-5) q by auto
  moreover have "arena_ok ?h" using B(1) by (auto simp: arena_ok_def)
  moreover have "laid ?h ?B" by (rule laid_cong [OF B(2)]) (use size B(2) in \<open>auto simp: hsize_def bump_area_def laid_def\<close>)
  moreover have "hmagic ?h p = hmagic h p" if "p \<in> A - {q}" for p using un(2) [of p] that by (simp add: hmagic_def)
  ultimately show "heap_ok ?h F' (A - {q}) D'" using B(7) unfolding heap_ok_def by simp
qed

lemma kfree_ok:
  assumes ok: "heap_ok h F A D" and q: "q \<in> A"
  shows "\<exists>h' F' D'. kfree (q + 16) h = Inr h' \<and> heap_ok h' F' (A - {q}) D' \<and>
    (\<forall>p \<in> A - {q}. hsize h' p = hsize h p \<and> (\<forall>x. unat x \<in> extent h p \<longrightarrow> h_mem h' x = h_mem h x))"
proof -
  have B: "arena_ok h" "laid h (set F \<union> A \<union> D)" using ok by (simp_all add: heap_ok_def)
  have "q \<in> set F \<union> A \<union> D" using q by simp
  note Q = block_place [OF B this]
  have nz: "q + 16 \<noteq> 0" using Q(6) by (auto dest!: arg_cong [of _ _ unat])
  have mg: "hmagic h q = HEAP_MAGIC \<or> hmagic h q = HEAP_MAGIC_LARGE" using ok q by (auto simp: heap_ok_def)
  define m1 where "m1 = store64 (h_mem h) (q + 8) 0"
  define m2 where "m2 = store64 m1 (q + 16) (h_free_list h)"
  have c1: "only_changes {unat q + 8..<unat q + 16} (h_mem h) m1"
    using store64_changes [of "q + 8" "h_mem h" 0] Q(4,5) by (simp add: m1_def add.commute)
  have c2: "only_changes {unat q + 16..<unat q + 24} m1 m2"
    using store64_changes [of "q + 16" m1 "h_free_list h"] Q(3,4,6) by (simp add: m2_def add.commute)
  have d1: "only_changes {unat q + 8..<unat q + 24} (h_mem h) m1" by (rule only_changes_mono [OF c1]) auto
  have d2: "only_changes {unat q + 8..<unat q + 24} (h_mem h) m2" by (rule only_changes_trans [OF c1 c2]) auto
  have l: "load64 m2 (q + 16) = h_free_list h" by (simp add: m2_def)
  show ?thesis
  proof (cases "hmagic h q = HEAP_MAGIC_LARGE")
    case True
    then have k: "kfree (q + 16) h = Inr (h\<lparr>h_mem := m1, h_free_list := h_free_list h\<rparr>)"
      using nz by (simp add: kfree_def Let_def hmagic_def m1_def)
    note W = hdr_write_ok [OF ok q d1, of F "h_free_list h" "insert q D"]
    from k W show ?thesis by (auto simp: hsize_def)
  next
    case False
    then have k: "kfree (q + 16) h = Inr (h\<lparr>h_mem := m2, h_free_list := q\<rparr>)"
      using nz mg by (simp add: kfree_def Let_def hmagic_def m1_def m2_def HEAP_MAGIC_def HEAP_MAGIC_LARGE_def)
    note W = hdr_write_ok [OF ok q d2, of "q # F" q D]
    from k W l show ?thesis by (auto simp: hsize_def)
  qed
qed

section \<open>Runs of the heap\<close>

text \<open>
  The states the heap gets into, with the pointers its users hold. Requests are for less than
  $2^{46}$ bytes and an alignment of at most a page. Users write to the bytes of their blocks, and
  other parts of the kernel use the page tables and the page allocator.
\<close>

definition block_bytes :: "heap \<Rightarrow> u64 \<Rightarrow> nat set" where
  "block_bytes h p = {unat p..<unat p + hsize h (p - 16)}"

inductive heap_run :: "heap \<Rightarrow> u64 set \<Rightarrow> bool" where
  run_init: "heap_init h0 = Inr h \<Longrightarrow> h_free_list h0 = 0 \<Longrightarrow> heap_run h {}"
| run_kmalloc: "heap_run h L \<Longrightarrow> n \<le> 12 \<Longrightarrow> unat size' < 2 ^ 46 \<Longrightarrow>
    kmalloc_aligned size' (2 ^ n) h = Some (Inr (p, h')) \<Longrightarrow> heap_run h' (if p = 0 then L else insert p L)"
| run_kfree: "heap_run h L \<Longrightarrow> p \<in> L \<Longrightarrow> kfree p h = Inr h' \<Longrightarrow> heap_run h' (L - {p})"
| run_write: "heap_run h L \<Longrightarrow> p \<in> L \<Longrightarrow> unat a \<in> block_bytes h p \<Longrightarrow> heap_run (h\<lparr>h_mem := (h_mem h)(a := b)\<rparr>) L"
| run_other: "heap_run h L \<Longrightarrow> heap_run (h\<lparr>h_vmm := v\<rparr>) L"

abbreviation hdrs :: "u64 set \<Rightarrow> u64 set" where
  "hdrs L \<equiv> (\<lambda>p. p - 16) ` L"

lemma heap_init_Inr:
  assumes "heap_init h0 = Inr h"
  obtains v where "h = h0\<lparr>heap_usable_base := 0xffff910000001000, heap_usable_end := 0xffff910004001000, h_vmm := v,
      cur_page_virt := 0xffff910000001000, cur_off := 0, next_page_virt := 0xffff910000002000\<rparr>"
  using assms
  by (auto simp: heap_init_def heap_map_fresh_page_def Let_def HEAP_VIRT_BASE_def HEAP_USABLE_SIZE_def PAGE_SIZE_def
    split: if_splits prod.splits)

lemma heap_init_ok:
  assumes "heap_init h0 = Inr h" "h_free_list h0 = 0"
  shows "heap_ok h [] {} {}"
proof -
  obtain v where "h = h0\<lparr>heap_usable_base := 0xffff910000001000, heap_usable_end := 0xffff910004001000, h_vmm := v,
      cur_page_virt := 0xffff910000001000, cur_off := 0, next_page_virt := 0xffff910000002000\<rparr>"
    by (rule heap_init_Inr [OF assms(1)])
  then show ?thesis using assms(2) by (simp add: heap_ok_def arena_ok_def laid_def page_aligned_def)
qed

lemma write_ok:
  assumes ok: "heap_ok h F A D" and q: "q \<in> A" and a: "unat q + 16 \<le> unat a" "unat a < unat q + 16 + hsize h q"
  shows "heap_ok (h\<lparr>h_mem := (h_mem h)(a := b)\<rparr>) F A D"
proof -
  let ?m = "(h_mem h)(a := b)" and ?B = "set F \<union> A \<union> D"
  let ?h = "h\<lparr>h_mem := ?m\<rparr>"
  have B: "arena_ok h" "laid h ?B" "A \<inter> set F = {}" "fl_chain (h_mem h) 16 (h_free_list h) F" using ok by (simp_all add: heap_ok_def)
  have c: "only_changes {unat a} (h_mem h) ?m" by (auto simp: only_changes_def)
  have qB: "q \<in> ?B" using q by simp
  note Q = block_place [OF B(1,2) qB]
  have "unat a \<in> extent h q" using a by (simp add: extent_def)
  then have sep: "{unat a} \<inter> extent h p = {}" if "p \<in> ?B" "p \<noteq> q" for p
    using B(2) that qB unfolding laid_def by blast
  have un: "load64 ?m p = load64 (h_mem h) p" "load64 ?m (p + 8) = load64 (h_mem h) (p + 8)" "load64 ?m (p + 16) = load64 (h_mem h) (p + 16)"
    if "p \<in> ?B" "p \<noteq> q" for p using block_unchanged [OF B(1,2) that(1) c sep [OF that]] .
  have "load64 ?m q = load64 (h_mem h) q" "load64 ?m (q + 8) = load64 (h_mem h) (q + 8)"
    using Q a(1) by (auto intro!: load64_unchanged [OF c])
  with un(1,2) have same: "load64 ?m p = load64 (h_mem h) p" "load64 ?m (p + 8) = load64 (h_mem h) (p + 8)" if "p \<in> ?B" for p
    using that by (cases "p = q"; simp)+
  have "fl_chain ?m 16 (h_free_list h) F" using B(3,4) un(3) q by (subst fl_chain_cong [of F ?m 16 "h_mem h"]) auto
  moreover have "arena_ok ?h" using B(1) by (auto simp: arena_ok_def)
  moreover have "laid ?h ?B" by (rule laid_cong [OF B(2)]) (use same B(2) in \<open>auto simp: hsize_def bump_area_def laid_def\<close>)
  moreover have "hmagic ?h p = hmagic h p" if "p \<in> A" for p using same(2) [of p] that by (simp add: hmagic_def)
  ultimately show ?thesis using ok unfolding heap_ok_def by simp
qed

lemma heap_run_ok: "heap_run h L \<Longrightarrow> \<exists>F D. heap_ok h F (hdrs L) D"
proof (induction rule: heap_run.induct)
  case (run_init h0 h)
  then show ?case using heap_init_ok by fastforce
next
  case (run_kmalloc h L n size' p h')
  then obtain F D where "heap_ok h F (hdrs L) D" by blast
  from kmalloc_aligned_ok(2) [OF this run_kmalloc(2,3,4)] show ?case by (auto simp: allocated_def split: if_splits)
next
  case (run_kfree h L p h')
  then obtain F D where "heap_ok h F (hdrs L) D" by blast
  from kfree_ok [OF this, of "p - 16"] run_kfree(2,3) obtain F' D' where "heap_ok h' F' (hdrs L - {p - 16}) D'" by auto
  moreover have "hdrs L - {p - 16} = hdrs (L - {p})" by auto
  ultimately show ?case by auto
next
  case (run_write h L p a b)
  then obtain F D where ok: "heap_ok h F (hdrs L) D" by blast
  have q: "p - 16 \<in> hdrs L" using run_write by blast
  have "unat p = unat (p - 16) + 16"
    using block_place(6) [of h "set F \<union> hdrs L \<union> D" "p - 16"] ok q by (simp add: heap_ok_def)
  then show ?case using write_ok [OF ok q, of a b] run_write(3) by (auto simp: block_bytes_def)
next
  case (run_other h L v)
  then obtain F D where ok: "heap_ok h F (hdrs L) D" by blast
  from grown_ok [OF ok grown_vmm [OF ok]] show ?case by blast
qed

lemma live_block:
  assumes ok: "heap_ok h F (hdrs L) D" and p: "p \<in> L"
  shows "unat p = unat (p - 16) + 16" "block_bytes h p \<subseteq> extent h (p - 16)"
    "block_bytes h p \<subseteq> {unat (heap_usable_base h)..<unat (next_page_virt h)}" "unat p mod 16 = 0" "8 \<le> hsize h (p - 16)"
proof -
  have q: "p - 16 \<in> set F \<union> hdrs L \<union> D" using p by simp
  have B: "arena_ok h" "laid h (set F \<union> hdrs L \<union> D)" using ok by (simp_all add: heap_ok_def)
  note P = block_place [OF B q]
  show u: "unat p = unat (p - 16) + 16" using P(6) by simp
  then show e: "block_bytes h p \<subseteq> extent h (p - 16)" by (auto simp: block_bytes_def extent_def)
  have "extent h (p - 16) \<subseteq> {unat (heap_usable_base h)..<unat (next_page_virt h)}" using B(2) q unfolding laid_def by blast
  with e show "block_bytes h p \<subseteq> {unat (heap_usable_base h)..<unat (next_page_virt h)}" by blast
  show "unat p mod 16 = 0" using P(7) unfolding u by simp
  show "8 \<le> hsize h (p - 16)" by (rule P(3))
qed

lemma live_apart:
  assumes ok: "heap_ok h F (hdrs L) D" and "p \<in> L" "q \<in> L" "p \<noteq> q"
  shows "block_bytes h p \<inter> block_bytes h q = {}"
proof -
  have ne: "p - 16 \<noteq> q - 16" using assms(4) by simp
  have m: "p - 16 \<in> set F \<union> hdrs L \<union> D" "q - 16 \<in> set F \<union> hdrs L \<union> D" using assms(2,3) by auto
  have "laid h (set F \<union> hdrs L \<union> D)" using ok by (simp add: heap_ok_def)
  from this [unfolded laid_def, THEN conjunct2, rule_format, OF m ne]
  have "extent h (p - 16) \<inter> extent h (q - 16) = {}" .
  then show ?thesis using live_block(2) [OF ok assms(2)] live_block(2) [OF ok assms(3)] by blast
qed

text \<open>
  Claim C38. In every state of the heap, whatever its users write into their blocks, two live
  blocks have no byte in common, and every live block lies between the guard pages, inside the
  part of the arena that was handed out, at an address divisible by 16.
\<close>

theorem heap_blocks_apart:
  assumes "heap_run h L"
  shows "(\<forall>p \<in> L. block_bytes h p \<subseteq> {unat (heap_usable_base h)..<unat (next_page_virt h)} \<and> unat p mod 16 = 0)
    \<and> (\<forall>p \<in> L. \<forall>q \<in> L. p \<noteq> q \<longrightarrow> block_bytes h p \<inter> block_bytes h q = {})"
proof -
  obtain F D where ok: "heap_ok h F (hdrs L) D" using heap_run_ok [OF assms] by blast
  show ?thesis
  proof (intro conjI ballI impI)
    fix p
    assume p: "p \<in> L"
    show "block_bytes h p \<subseteq> {unat (heap_usable_base h)..<unat (next_page_virt h)}" "unat p mod 16 = 0"
      by (rule live_block(3) [OF ok p], rule live_block(4) [OF ok p])
    show "block_bytes h p \<inter> block_bytes h q = {}" if "q \<in> L" "p \<noteq> q" for q by (rule live_apart [OF ok p that])
  qed
qed

text \<open>
  Claim C39. An allocation of fewer than \<open>2 ^ 46\<close> bytes with an alignment that is a power of two of at most 4096
  (for sizes near \<open>2 ^ 64\<close> the page count of the code wraps, see \<open>kmalloc_size_wraps\<close>) that does not fail gives a
  block of at least the requested size that is zero all over and has no byte in common with the blocks in use,
  whose size and contents stay as they are.
\<close>

theorem kmalloc_gives_block:
  assumes "heap_run h L" "n \<le> 12" "unat size' < 2 ^ 46" "kmalloc_aligned size' (2 ^ n) h = Some (Inr (p, h'))" "p \<noteq> 0"
  shows "p \<notin> L \<and> unat size' \<le> hsize h' (p - 16) \<and> (\<forall>x. unat p \<le> unat x \<and> unat x < unat p + unat size' \<longrightarrow> h_mem h' x = 0)
    \<and> (\<forall>q \<in> L. block_bytes h' q = block_bytes h q \<and> block_bytes h' q \<inter> block_bytes h' p = {}
         \<and> (\<forall>x. unat x \<in> block_bytes h q \<longrightarrow> h_mem h' x = h_mem h x))"
proof -
  obtain F D where ok: "heap_ok h F (hdrs L) D" using heap_run_ok [OF assms(1)] by blast
  have al: "allocated h (hdrs L) D (unat size') p h'"
    using kmalloc_aligned_ok(2) [OF ok assms(2-4)] unfolding if_not_P [OF assms(5)] .
  then obtain F' where "heap_ok h' F' (insert (p - 16) (hdrs L)) D" by (auto simp: allocated_def)
  then have ok': "heap_ok h' F' (hdrs (insert p L)) D" by simp
  have p: "p \<notin> L" using al by (auto simp: allocated_def)
  have L: "block_bytes h' q = block_bytes h q \<and> block_bytes h' q \<inter> block_bytes h' p = {}
      \<and> (\<forall>x. unat x \<in> block_bytes h q \<longrightarrow> h_mem h' x = h_mem h x)" if q: "q \<in> L" for q
  proof (intro conjI allI impI)
    have s: "hsize h' (q - 16) = hsize h (q - 16)" using al q by (auto simp: allocated_def)
    then show "block_bytes h' q = block_bytes h q" by (simp add: block_bytes_def)
    show "block_bytes h' q \<inter> block_bytes h' p = {}" using live_apart [OF ok', of q p] p q by auto
    show "h_mem h' x = h_mem h x" if "unat x \<in> block_bytes h q" for x
      using al q that live_block(2) [OF ok q] unfolding allocated_def by blast
  qed
  then show ?thesis using al p unfolding allocated_def by blast
qed

text \<open>
  The search of the free list always ends, so \<open>kmalloc_aligned\<close> always comes back or
  panics, and freeing a live block never panics, whatever was written into the blocks in use;
  the other live blocks keep their size and contents.
\<close>

theorem heap_calls_return:
  assumes "heap_run h L" "n \<le> 12" "unat size' < 2 ^ 46"
  shows "kmalloc_aligned size' (2 ^ n) h \<noteq> None \<and>
    (\<forall>p \<in> L. \<exists>h'. kfree p h = Inr h' \<and> (\<forall>q \<in> L - {p}. block_bytes h' q = block_bytes h q
       \<and> (\<forall>x. unat x \<in> block_bytes h q \<longrightarrow> h_mem h' x = h_mem h x)))"
proof -
  obtain F D where ok: "heap_ok h F (hdrs L) D" using heap_run_ok [OF assms(1)] by blast
  have "\<exists>h'. kfree p h = Inr h' \<and> (\<forall>q \<in> L - {p}. block_bytes h' q = block_bytes h q
       \<and> (\<forall>x. unat x \<in> block_bytes h q \<longrightarrow> h_mem h' x = h_mem h x))" if p: "p \<in> L" for p
  proof -
    have "p - 16 \<in> hdrs L" using p by blast
    from kfree_ok [OF ok this] obtain h' where h': "kfree p h = Inr h'"
      "\<forall>q \<in> hdrs L - {p - 16}. hsize h' q = hsize h q \<and> (\<forall>x. unat x \<in> extent h q \<longrightarrow> h_mem h' x = h_mem h x)" by auto
    have "block_bytes h' q = block_bytes h q \<and> (\<forall>x. unat x \<in> block_bytes h q \<longrightarrow> h_mem h' x = h_mem h x)" if "q \<in> L - {p}" for q
    proof -
      have "q - 16 \<in> hdrs L - {p - 16}" using that by auto
      then have "hsize h' (q - 16) = hsize h (q - 16)" "\<forall>x. unat x \<in> extent h (q - 16) \<longrightarrow> h_mem h' x = h_mem h x" using h'(2) by blast+
      then show ?thesis using live_block(2) [OF ok, of q] that by (auto simp: block_bytes_def)
    qed
    then show ?thesis using h'(1) by blast
  qed
  then show ?thesis using kmalloc_aligned_ok(1) [OF ok assms(2,3)] by blast
qed

section \<open>An example run\<close>

definition demo_statics :: heap where
  "demo_statics = \<lparr>heap_usable_base = 0, heap_usable_end = 0, cur_page_virt = 0, cur_off = 0, next_page_virt = 0,
     h_free_list = 0, h_mem = (\<lambda>_. 0), h_vmm = demo_vmm\<rparr>"

definition demo_heap :: heap where
  "demo_heap = (case heap_init demo_statics of Inr h \<Rightarrow> h | Inl _ \<Rightarrow> demo_statics)"

lemma demo_heap_init: "heap_init demo_statics = Inr demo_heap"
proof -
  have v: "v_pmm demo_vmm = demo_pmm" "v_cr3 demo_vmm = 0x1000000" by (simp_all add: demo_vmm_def)
  define phys where "phys = fst (pmm_alloc_page demo_pmm)"
  define p1 where "p1 = snd (pmm_alloc_page demo_pmm)"
  have a: "pmm_alloc_page demo_pmm = (phys, p1)" by (simp add: phys_def p1_def)
  have ok: "pmm_ok demo_pmm" by (rule pt_invD(1) [OF demo_pmm_ok(1)])
  have "avail_pages demo_pmm \<noteq> {}" using demo_pmm_ok(3) by (auto simp: room_def)
  then have nz: "phys \<noteq> 0" using pages.alloc_succeeds_iff [OF ok] by (simp add: phys_def)
  have i: "pt_inv p1 [0x1000000 \<mapsto> 4]" by (rule pt_inv_alloc [OF demo_pmm_ok(1) a nz])
  have "room demo_pmm (Suc 3)" using demo_pmm_ok(3) by (simp add: numeral_eq_Suc)
  then have "room p1 3" using room_take alloc_table_page(3) [OF ok a nz] by blast
  from map_into_succeeds [OF i _ this, of "0x1000000" "align_down 0xffff910000001000" phys VMM_WRITE]
  have m: "fst (vmm_map_page_into 0x1000000 (align_down 0xffff910000001000) phys VMM_WRITE p1)" by simp
  have r: "read_cr3_phys (demo_vmm\<lparr>v_pmm := p1\<rparr>) = 0x1000000" by (simp add: read_cr3_phys_def v)
  have "fst (vmm_map_page 0xffff910000001000 phys VMM_WRITE (demo_vmm\<lparr>v_pmm := p1\<rparr>))"
    using m by (simp add: vmm_map_page_def r case_prod_beta)
  then have "\<exists>h. heap_init demo_statics = Inr h"
    by (simp add: heap_init_def heap_map_fresh_page_def demo_statics_def HEAP_VIRT_BASE_def HEAP_USABLE_SIZE_def PAGE_SIZE_def
      v a nz Let_def case_prod_beta)
  then show ?thesis by (auto simp: demo_heap_def)
qed

lemma demo_heap_fields: "cur_page_virt demo_heap = 0xffff910000001000" "cur_off demo_heap = 0" "h_free_list demo_heap = 0"
proof -
  obtain v where e: "demo_heap = demo_statics\<lparr>heap_usable_base := 0xffff910000001000, heap_usable_end := 0xffff910004001000, h_vmm := v,
      cur_page_virt := 0xffff910000001000, cur_off := 0, next_page_virt := 0xffff910000002000\<rparr>"
    by (rule heap_init_Inr [OF demo_heap_init])
  show "cur_page_virt demo_heap = 0xffff910000001000" "cur_off demo_heap = 0" "h_free_list demo_heap = 0"
    unfolding e by (simp_all add: demo_statics_def)
qed

lemma demo_run: "heap_run demo_heap {}"
  by (rule run_init [OF demo_heap_init]) (simp add: demo_statics_def)

lemma demo_kmalloc:
  "kmalloc_aligned 32 (2 ^ 4) demo_heap = Some (Inr (bump_take 0xffff910000001000 48 32 demo_heap))"
  "kmalloc_aligned 64 (2 ^ 6) demo_heap = Some (Inr (bump_take 0xffff910000001000 80 64 demo_heap))"
proof -
  have f: "freelist_take need demo_heap = Some (0, demo_heap)" for need
    unfolding freelist_take_def by (subst freelist_scan.simps) (simp add: get_link_def demo_heap_fields)
  show "kmalloc_aligned 32 (2 ^ 4) demo_heap = Some (Inr (bump_take 0xffff910000001000 48 32 demo_heap))"
    "kmalloc_aligned 64 (2 ^ 6) demo_heap = Some (Inr (bump_take 0xffff910000001000 80 64 demo_heap))"
    by (simp_all add: kmalloc_aligned_def f PAGE_SIZE_def round_size_def bump_alloc_def bump_fit_def align_up_uintptr_def demo_heap_fields)
qed

lemma demo_run_block: "heap_run (snd (bump_take 0xffff910000001000 48 32 demo_heap)) {0xffff910000001010}"
proof -
  have k: "kmalloc_aligned 32 (2 ^ 4) demo_heap = Some (Inr (0xffff910000001010, snd (bump_take 0xffff910000001000 48 32 demo_heap)))"
    unfolding demo_kmalloc(1) by (simp add: bump_take_def)
  from run_kmalloc [OF demo_run _ _ k] show ?thesis by simp
qed

lemma bump_fit_addr:
  assumes "heap_ok h F A D" "n \<le> 12" "bump_fit (2 ^ n) t h = (hptr, off)"
  shows "unat (hptr + 16) = unat hptr + 16" "unat hptr mod 2 ^ n = 0"
proof -
  let ?x = "cur_page_virt h + cur_off h"
  have "arena_ok h" using assms(1) by (simp add: heap_ok_def)
  note R = arena_okD [OF this]
  have x: "unat ?x = unat (cur_page_virt h) + unat (cur_off h)" using R by (simp add: unat_add_no_wrap)
  have "(2 :: nat) ^ n \<le> 2 ^ 12" by (rule power_increasing [OF assms(2)]) simp
  then have p2: "unat ?x + 2 ^ n < 2 ^ 63 + 2 ^ 63 - 32" using x R by simp
  then have "unat ?x + 2 ^ n < 2 ^ 64" by simp
  note U = unat_align_up [OF this]
  have h: "hptr = align_up_uintptr ?x (2 ^ n)" using assms(3) by (auto simp: bump_fit_def Let_def)
  show "unat hptr mod 2 ^ n = 0" unfolding h using U(2) assms(2) by simp
  have "unat hptr < unat ?x + 2 ^ n" unfolding h using U(3) assms(2) by simp
  then show "unat (hptr + 16) = unat hptr + 16" using p2 by (subst unat_add_no_wrap) simp_all
qed

lemma bump_alloc_addr:
  assumes ok: "heap_ok h F A D" and n: "n \<le> 12" and a: "bump_alloc need (2 ^ n) h = Inr (p, h')" "p \<noteq> 0"
  shows "\<exists>a. unat p = a + 16 \<and> a mod 2 ^ n = 0"
proof -
  obtain g hptr off where g: "g = h \<or> heap_map_fresh_page h = Inr g" "bump_fit (2 ^ n) (16 + need) g = (hptr, off)" "p = hptr + 16"
    using a by (auto simp: bump_alloc_def bump_take_def Let_def split: if_splits prod.splits sum.splits)
  have "heap_ok g F A D" using g(1) ok grown_ok [OF ok fresh_page_grown(1) [OF ok]] by blast
  note A = bump_fit_addr [OF this n g(2)]
  show ?thesis unfolding g(3) by (rule exI [of _ "unat hptr"]) (rule conjI [OF A])
qed

theorem heap_blocks_apart_witness:
  "block_bytes (snd (bump_take 0xffff910000001000 48 32 demo_heap)) 0xffff910000001010
     \<subseteq> {unat (heap_usable_base (snd (bump_take 0xffff910000001000 48 32 demo_heap)))
        ..<unat (next_page_virt (snd (bump_take 0xffff910000001000 48 32 demo_heap)))}"
  using heap_blocks_apart [OF demo_run_block] by simp

theorem kmalloc_gives_block_witness:
  "32 \<le> hsize (snd (bump_take 0xffff910000001000 48 32 demo_heap)) 0xffff910000001000"
proof -
  have k: "kmalloc_aligned 32 (2 ^ 4) demo_heap = Some (Inr (0xffff910000001010, snd (bump_take 0xffff910000001000 48 32 demo_heap)))"
    unfolding demo_kmalloc(1) by (simp add: bump_take_def)
  from kmalloc_gives_block [OF demo_run _ _ k] show ?thesis by simp
qed

theorem heap_calls_return_witness:
  "\<exists>h'. kfree 0xffff910000001010 (snd (bump_take 0xffff910000001000 48 32 demo_heap)) = Inr h'"
  using heap_calls_return [OF demo_run_block, of 4 32] by auto

section \<open>Where the heap differs from its contract\<close>

text \<open>
  \<open>kmalloc_aligned\<close> aligns the header, not the pointer it returns: for an alignment of
  32 or more, a block of less than a page is never aligned, its address is 16 above a multiple.
\<close>

theorem kmalloc_aligned_misaligns:
  assumes "heap_run h L" "5 \<le> n" "n \<le> 12" "unat size' < 4096" "kmalloc_aligned size' (2 ^ n) h = Some (Inr (p, h'))" "p \<noteq> 0"
  shows "unat p mod 2 ^ n = 16"
proof -
  obtain F D where ok: "heap_ok h F (hdrs L) D" using heap_run_ok [OF assms(1)] by blast
  have "list_all (\<lambda>n. \<not> (2 ^ n :: u64) < 16 \<and> (2 ^ n :: u64) \<noteq> 16 \<and> (2 ^ n :: u64) AND (2 ^ n - 1) = 0) [5..<13]" by code_simp
  moreover have "n \<in> set [5..<13]" using assms(2,3) by (simp only: set_upt) simp
  ultimately have al: "\<not> (2 ^ n :: u64) < 16" "(2 ^ n :: u64) \<noteq> 16" "(2 ^ n :: u64) AND (2 ^ n - 1) = 0"
    unfolding list_all_iff by blast+
  have "size' \<noteq> 0" "\<not> size' \<ge> PAGE_SIZE" using assms(4-6) by (auto simp: kmalloc_aligned_def word_le_nat_alt PAGE_SIZE_def)
  then have "bump_alloc (round_size (if size' < 8 then 8 else size')) (2 ^ n) h = Inr (p, h')"
    using assms(5) al by (simp add: kmalloc_aligned_def)
  from bump_alloc_addr [OF ok assms(3) this assms(6)] obtain a where a: "unat p = a + 16" "a mod 2 ^ n = 0" by (elim exE conjE)
  have "(2 :: nat) ^ 5 \<le> 2 ^ n" using assms(2) by (rule power_increasing) simp
  then have "16 mod (2 :: nat) ^ n = 16" by simp
  then show ?thesis unfolding a(1) using a(2) mod_add_left_eq [of a "2 ^ n" 16] by simp
qed

theorem kmalloc_aligned_misaligns_witness: "unat (0xffff910000001010 :: u64) mod 2 ^ 6 = 16 \<and>
   kmalloc_aligned 64 (2 ^ 6) demo_heap = Some (Inr (0xffff910000001010, snd (bump_take 0xffff910000001000 80 64 demo_heap)))"
proof
  show k: "kmalloc_aligned 64 (2 ^ 6) demo_heap = Some (Inr (0xffff910000001010, snd (bump_take 0xffff910000001000 80 64 demo_heap)))"
    unfolding demo_kmalloc(2) by (simp add: bump_take_def)
  show "unat (0xffff910000001010 :: u64) mod 2 ^ 6 = 16"
    by (rule kmalloc_aligned_misaligns [OF demo_run _ _ _ k]) simp_all
qed

text \<open>
  The page count of a large request wraps: the largest possible request is served like
  a request of 4080 bytes, with a block of one page.
\<close>

theorem kmalloc_size_wraps: "kmalloc 0xFFFFFFFFFFFFFFFF h = Some (big_alloc 4080 h)"
  by (simp add: kmalloc_def kmalloc_aligned_def big_alloc_def Let_def PAGE_SIZE_def case_prod_beta)

end
