(* ===== verification/Workqueue.thy ===== *)
theory Workqueue
  imports Prelude
begin

text \<open>
  The deferred-work queue, \<open>kernel/src/workqueue.c\<close>: a ring of 64 slots that interrupt
  handlers push to and the idle loop drains, one slot always left empty. A work item is the
  pair of the function pointer and its argument.

  Shown here: the ring implements a bounded first-in first-out queue (the interface
  \<open>bounded_fifo\<close>); with pushes from interrupts interleaved in any way, every accepted item
  runs exactly once and in order; a drain whose handlers do not push terminates.
\<close>

section \<open>The interface of a bounded queue\<close>

locale bounded_fifo =
  fixes push :: "'a \<Rightarrow> 'q \<Rightarrow> bool \<times> 'q"
    and pop :: "'q \<Rightarrow> ('a \<times> 'q) option"
    and items :: "'q \<Rightarrow> 'a list"
    and ok :: "'q \<Rightarrow> bool"
    and good :: "'a \<Rightarrow> bool"
    and room :: nat
  assumes push_room: "ok q \<Longrightarrow> good x \<Longrightarrow> length (items q) < room \<Longrightarrow>
      fst (push x q) \<and> items (snd (push x q)) = items q @ [x] \<and> ok (snd (push x q))"
    and push_full: "ok q \<Longrightarrow> \<not> length (items q) < room \<Longrightarrow>
      \<not> fst (push x q) \<and> items (snd (push x q)) = items q \<and> ok (snd (push x q))"
    and pop_none: "ok q \<Longrightarrow> pop q = None \<longleftrightarrow> items q = []"
    and pop_some: "ok q \<Longrightarrow> pop q = Some (x, q') \<Longrightarrow> items q = x # items q' \<and> ok q'"
    and bounded: "ok q \<Longrightarrow> length (items q) \<le> room"
begin

text \<open>Whatever the queue holds comes out in the order it went in.\<close>

lemma pop_order:
  assumes "ok q" "items q = x # xs"
  shows "\<exists>q'. pop q = Some (x, q') \<and> items q' = xs \<and> ok q'"
proof -
  obtain y q' where p: "pop q = Some (y, q')"
    using assms pop_none [of q] by (cases "pop q") auto
  with pop_some [OF assms(1) p] assms(2) show ?thesis by auto
qed

text \<open>A run of pushes keeps the front of the run that fits, in order, and loses the rest.\<close>

lemma push_list:
  assumes "ok q" "\<forall>x \<in> set xs. good x"
  shows "items (fold (\<lambda>x q. snd (push x q)) xs q) = items q @ take (room - length (items q)) xs
    \<and> ok (fold (\<lambda>x q. snd (push x q)) xs q)"
  using assms
proof (induction xs arbitrary: q)
  case Nil
  then show ?case by simp
next
  case (Cons x xs)
  show ?case
  proof (cases "length (items q) < room")
    case True
    with Cons.prems have p: "items (snd (push x q)) = items q @ [x]" "ok (snd (push x q))"
      using push_room [of q x] by auto
    have "room - length (items q) = Suc (room - Suc (length (items q)))"
      using True by simp
    with p Cons.IH [OF p(2)] Cons.prems(2) show ?thesis by simp
  next
    case False
    then have p: "items (snd (push x q)) = items q" "ok (snd (push x q))"
      using push_full [of q x] Cons.prems by auto
    with False Cons.IH [OF p(2)] Cons.prems(2) show ?thesis by simp
  qed
qed

lemma push_then_pop_last:
  assumes "ok q" "good x" "length (items q) < room" "items q = []"
  shows "\<exists>q'. pop (snd (push x q)) = Some (x, q') \<and> items q' = []"
  using push_room [OF assms(1,2,3)] pop_order [of "snd (push x q)" x "[]"] assms(4) by auto

end

section \<open>State and operations\<close>

type_synonym work = "u64 \<times> u64"

record wq_state =
  wq_head :: u32
  wq_tail :: u32
  wq_dropped :: u32
  wq_ring :: "work list"

definition WQ_MAX :: u32 where
  "WQ_MAX = 64"

text \<open>
  The result is the C return value 0 as \<open>True\<close> and \<open>-1\<close> as \<open>False\<close>. Interrupts are off
  between \<open>irq_save\<close> and \<open>irq_restore\<close>, so the body is one step.
\<close>

definition workqueue_push :: "work \<Rightarrow> wq_state \<Rightarrow> bool \<times> wq_state" where
  "workqueue_push it s =
     (if fst it = 0 then (False, s)
      else
        let next' = (wq_head s + 1) mod WQ_MAX in
        if next' = wq_tail s then (False, s\<lparr>wq_dropped := wq_dropped s + 1\<rparr>)
        else (True, s\<lparr>wq_ring := (wq_ring s)[unat (wq_head s) := it], wq_head := next'\<rparr>))"

definition workqueue_dropped :: "wq_state \<Rightarrow> u32" where
  "workqueue_dropped s = wq_dropped s"

text \<open>The part of the loop of \<open>workqueue_run\<close> that runs with interrupts off.\<close>

definition workqueue_take :: "wq_state \<Rightarrow> (work \<times> wq_state) option" where
  "workqueue_take s =
     (if wq_tail s = wq_head s then None
      else Some (wq_ring s ! unat (wq_tail s), s\<lparr>wq_tail := (wq_tail s + 1) mod WQ_MAX\<rparr>))"

text \<open>
  The loop itself. What an item does to the queue (it may push more work) is the parameter
  \<open>call\<close>; the result pairs the final queue with the items in the order they ran.
\<close>

partial_function (option) workqueue_run ::
    "(work \<Rightarrow> wq_state \<Rightarrow> wq_state) \<Rightarrow> wq_state \<Rightarrow> (wq_state \<times> work list) option" where
  "workqueue_run call s =
     (case workqueue_take s of
        None \<Rightarrow> Some (s, [])
      | Some (it, s1) \<Rightarrow>
          Option.bind (workqueue_run call (call it s1)) (\<lambda>(s2, exd). Some (s2, it # exd)))"

section \<open>The ring holds a queue\<close>

definition wq_len :: "wq_state \<Rightarrow> nat" where
  "wq_len s = (if unat (wq_tail s) \<le> unat (wq_head s) then unat (wq_head s) - unat (wq_tail s)
               else unat (wq_head s) + 64 - unat (wq_tail s))"

definition wq_items :: "wq_state \<Rightarrow> work list" where
  "wq_items s = map (\<lambda>i. wq_ring s ! ((unat (wq_tail s) + i) mod 64)) [0..<wq_len s]"

definition wq_ok :: "wq_state \<Rightarrow> bool" where
  "wq_ok s \<longleftrightarrow> unat (wq_head s) < 64 \<and> unat (wq_tail s) < 64 \<and> length (wq_ring s) = 64"

lemma wq_succ: "unat i < 64 \<Longrightarrow> unat ((i + 1) mod WQ_MAX) = (unat i + 1) mod 64"
  by (simp add: WQ_MAX_def unat_mod unat_add_no_wrap)

lemma wq_len_bound: "wq_ok s \<Longrightarrow> wq_len s \<le> 63"
  by (auto simp: wq_ok_def wq_len_def)

lemma length_wq_items [simp]: "length (wq_items s) = wq_len s"
  by (simp add: wq_items_def)

lemma wq_full_iff:
  assumes "wq_ok s"
  shows "(wq_head s + 1) mod WQ_MAX = wq_tail s \<longleftrightarrow> wq_len s = 63"
proof -
  have h: "unat ((wq_head s + 1) mod WQ_MAX) = (unat (wq_head s) + 1) mod 64"
    using assms by (simp add: wq_succ wq_ok_def)
  have "(wq_head s + 1) mod WQ_MAX = wq_tail s \<longleftrightarrow> (unat (wq_head s) + 1) mod 64 = unat (wq_tail s)"
    by (simp add: word_unat_eq_iff h)
  also have "\<dots> \<longleftrightarrow> wq_len s = 63"
    using assms by (auto simp: wq_ok_def wq_len_def mod_if)
  finally show ?thesis .
qed

lemma wq_empty_iff: "wq_ok s \<Longrightarrow> wq_tail s = wq_head s \<longleftrightarrow> wq_len s = 0"
  by (auto simp: wq_ok_def wq_len_def word_unat_eq_iff)

text \<open>The index arithmetic of the ring, on plain numbers.\<close>

definition ring_len :: "nat \<Rightarrow> nat \<Rightarrow> nat" where
  "ring_len h t = (if t \<le> h then h - t else h + 64 - t)"

lemma wq_len_ring: "wq_len s = ring_len (unat (wq_head s)) (unat (wq_tail s))"
  by (simp add: wq_len_def ring_len_def)

lemma ring_len_succ:
  assumes "h < 64" "t < 64" "ring_len h t < 63"
  shows "ring_len (Suc h mod 64) t = Suc (ring_len h t)"
proof (cases "h = 63")
  case True
  with assms show ?thesis by (auto simp: ring_len_def)
next
  case False
  with assms show ?thesis by (auto simp: ring_len_def)
qed

lemma ring_last:
  assumes "h < 64" "t < 64"
  shows "(t + ring_len h t) mod 64 = h"
  using assms by (simp add: ring_len_def)

lemma ring_inside:
  assumes "h < 64" "t < 64" "i < ring_len h t"
  shows "(t + i) mod 64 \<noteq> h"
proof (cases "t + i < 64")
  case True
  with assms show ?thesis by (simp add: ring_len_def split: if_splits)
next
  case False
  then have "(t + i) mod 64 = t + i - 64"
    using assms by (simp add: le_mod_geq ring_len_def split: if_splits)
  with assms False show ?thesis by (simp add: ring_len_def split: if_splits)
qed

lemma workqueue_push_room:
  assumes ok: "wq_ok s" and room: "wq_len s < 63" and f: "fst it \<noteq> 0"
  shows "fst (workqueue_push it s)" "wq_items (snd (workqueue_push it s)) = wq_items s @ [it]"
    "wq_ok (snd (workqueue_push it s))"
proof -
  let ?s = "s\<lparr>wq_ring := (wq_ring s)[unat (wq_head s) := it], wq_head := (wq_head s + 1) mod WQ_MAX\<rparr>"
  have p: "workqueue_push it s = (True, ?s)"
    using room f by (simp add: workqueue_push_def wq_full_iff [OF ok] Let_def)
  have hh: "unat (wq_head s) < 64" and tl: "unat (wq_tail s) < 64" and lr: "length (wq_ring s) = 64"
    using ok by (simp_all add: wq_ok_def)
  note h = wq_succ [OF hh]
  have ok': "wq_ok ?s" using hh tl lr h by (simp add: wq_ok_def)
  have len: "wq_len ?s = Suc (wq_len s)"
    using ring_len_succ [OF hh tl] room h by (simp add: wq_len_ring)
  have last: "(unat (wq_tail s) + wq_len s) mod 64 = unat (wq_head s)"
    using ring_last [OF hh tl] by (simp add: wq_len_ring)
  have other: "(unat (wq_tail s) + i) mod 64 \<noteq> unat (wq_head s)" if "i < wq_len s" for i
    using ring_inside [OF hh tl] that by (simp add: wq_len_ring)
  have front: "map (\<lambda>i. (wq_ring s)[unat (wq_head s) := it] ! ((unat (wq_tail s) + i) mod 64)) [0..<wq_len s]
      = wq_items s"
    unfolding wq_items_def by (rule map_cong [OF refl], rule nth_list_update_neq) (use other in force)
  have new: "(wq_ring s)[unat (wq_head s) := it] ! ((unat (wq_tail s) + wq_len s) mod 64) = it"
    using hh lr by (simp add: last)
  have "wq_items ?s = wq_items s @ [it]"
    by (subst wq_items_def, subst len) (simp add: front new)
  with p ok' show "fst (workqueue_push it s)" "wq_items (snd (workqueue_push it s)) = wq_items s @ [it]"
    "wq_ok (snd (workqueue_push it s))" by simp_all
qed

lemma wq_dropped_frame [simp]:
  "wq_items (s\<lparr>wq_dropped := d\<rparr>) = wq_items s" "wq_ok (s\<lparr>wq_dropped := d\<rparr>) = wq_ok s"
  "wq_len (s\<lparr>wq_dropped := d\<rparr>) = wq_len s"
  by (simp_all add: wq_items_def wq_ok_def wq_len_def)

lemma workqueue_push_full:
  assumes "wq_ok s" "\<not> wq_len s < 63"
  shows "\<not> fst (workqueue_push it s)" "wq_items (snd (workqueue_push it s)) = wq_items s"
    "wq_ok (snd (workqueue_push it s))"
proof -
  have "wq_len s = 63" using assms wq_len_bound [of s] by simp
  then have "workqueue_push it s = (False, s) \<or> workqueue_push it s = (False, s\<lparr>wq_dropped := wq_dropped s + 1\<rparr>)"
    using wq_full_iff [OF assms(1)] by (simp add: workqueue_push_def Let_def)
  then show "\<not> fst (workqueue_push it s)" "wq_items (snd (workqueue_push it s)) = wq_items s"
    "wq_ok (snd (workqueue_push it s))"
    using assms(1) by auto
qed

lemma workqueue_take_some:
  assumes ok: "wq_ok s" and t: "workqueue_take s = Some (it, s')"
  shows "wq_items s = it # wq_items s'" "wq_ok s'" "wq_len s = Suc (wq_len s')"
proof -
  from t have ne: "wq_tail s \<noteq> wq_head s" and it: "it = wq_ring s ! unat (wq_tail s)"
    and s': "s' = s\<lparr>wq_tail := (wq_tail s + 1) mod WQ_MAX\<rparr>"
    by (auto simp: workqueue_take_def split: if_splits)
  note h = wq_succ [of "wq_tail s"]
  show "wq_ok s'" using ok h s' by (simp add: wq_ok_def)
  show len: "wq_len s = Suc (wq_len s')"
    using ok h s' ne by (auto simp: wq_ok_def wq_len_def mod_if word_unat_eq_iff)
  have sh: "(unat ((wq_tail s + 1) mod WQ_MAX) + i) mod 64 = (unat (wq_tail s) + Suc i) mod 64" for i
    using ok h by (simp add: wq_ok_def mod_simps)
  have "wq_items s = wq_ring s ! (unat (wq_tail s) mod 64)
      # map (\<lambda>i. wq_ring s ! ((unat (wq_tail s) + Suc i) mod 64)) [0..<wq_len s']"
    by (simp add: wq_items_def len upt_conv_Cons map_Suc_upt [symmetric] del: upt_Suc)
  then show "wq_items s = it # wq_items s'"
    using ok by (simp add: it s' wq_items_def wq_ok_def sh)
qed

interpretation wq: bounded_fifo workqueue_push workqueue_take wq_items wq_ok "\<lambda>it. fst it \<noteq> 0" 63
proof unfold_locales
  fix s :: wq_state
  assume ok: "wq_ok s"
  then show "workqueue_take s = None \<longleftrightarrow> wq_items s = []"
    using wq_empty_iff [OF ok] by (simp add: workqueue_take_def flip: length_0_conv)
  show "length (wq_items s) \<le> 63" using wq_len_bound [OF ok] by simp
qed (simp_all add: workqueue_push_room workqueue_push_full workqueue_take_some)

section \<open>Pushes from interrupts interleaved with the drain\<close>

text \<open>
  A history: the queue, the items accepted so far, the items handed to their handler so far,
  and how many pushes of a real handler were refused. A push may come at any moment the
  drain has interrupts on, so the two kinds of step interleave freely.
\<close>

type_synonym wq_history = "wq_state \<times> work list \<times> work list \<times> nat"

definition wq_start :: wq_state where
  "wq_start = \<lparr>wq_head = 0, wq_tail = 0, wq_dropped = 0, wq_ring = replicate 64 (0, 0)\<rparr>"

inductive wq_step :: "wq_history \<Rightarrow> wq_history \<Rightarrow> bool" where
  wq_push_ok: "workqueue_push it s = (True, s') \<Longrightarrow> wq_step (s, acc, exd, lost) (s', acc @ [it], exd, lost)"
| wq_push_null: "workqueue_push (0, arg) s = (False, s') \<Longrightarrow> wq_step (s, acc, exd, lost) (s', acc, exd, lost)"
| wq_push_lost: "fst it \<noteq> 0 \<Longrightarrow> workqueue_push it s = (False, s') \<Longrightarrow>
    wq_step (s, acc, exd, lost) (s', acc, exd, Suc lost)"
| wq_take: "workqueue_take s = Some (it, s') \<Longrightarrow> wq_step (s, acc, exd, lost) (s', acc, exd @ [it], lost)"

inductive wq_reach :: "wq_history \<Rightarrow> bool" where
  wq_reach_start: "wq_reach (wq_start, [], [], 0)"
| wq_reach_step: "wq_reach h \<Longrightarrow> wq_step h h' \<Longrightarrow> wq_reach h'"

fun wq_hist_ok :: "wq_history \<Rightarrow> bool" where
  "wq_hist_ok (s, acc, exd, lost) \<longleftrightarrow> wq_ok s \<and> acc = exd @ wq_items s \<and> wq_dropped s = of_nat lost
     \<and> (\<forall>it \<in> set acc. fst it \<noteq> 0)"

lemma wq_start_ok: "wq_ok wq_start" "wq_items wq_start = []"
  by (simp_all add: wq_start_def wq_ok_def wq_items_def wq_len_def)

lemma workqueue_push_dropped:
  "wq_dropped (snd (workqueue_push it s)) =
     (if fst it \<noteq> 0 \<and> \<not> fst (workqueue_push it s) then wq_dropped s + 1 else wq_dropped s)"
  by (simp add: workqueue_push_def Let_def)

lemma workqueue_push_accept:
  assumes "wq_ok s" "workqueue_push it s = (True, s')"
  shows "fst it \<noteq> 0" "wq_items s' = wq_items s @ [it]" "wq_ok s'"
proof -
  show "fst it \<noteq> 0" using assms(2) by (auto simp: workqueue_push_def)
  moreover have "length (wq_items s) < 63"
    using wq.push_full [OF assms(1), of it] assms(2) by auto
  ultimately show "wq_items s' = wq_items s @ [it]" "wq_ok s'"
    using wq.push_room [OF assms(1), of it] assms(2) by auto
qed

lemma workqueue_push_refuse:
  assumes "wq_ok s" "workqueue_push it s = (False, s')"
  shows "wq_items s' = wq_items s" "wq_ok s'"
proof -
  have "s' = s \<or> s' = s\<lparr>wq_dropped := wq_dropped s + 1\<rparr>"
    using assms(2) by (auto simp: workqueue_push_def Let_def split: if_splits)
  with assms(1) show "wq_items s' = wq_items s" "wq_ok s'" by auto
qed

lemma workqueue_take_dropped: "workqueue_take s = Some (it, s') \<Longrightarrow> wq_dropped s' = wq_dropped s"
  by (auto simp: workqueue_take_def split: if_splits)

lemma wq_step_ok: "wq_step h h' \<Longrightarrow> wq_hist_ok h \<Longrightarrow> wq_hist_ok h'"
proof (induction rule: wq_step.induct)
  case (wq_push_ok it s s' acc exd lost)
  then show ?case
    using workqueue_push_accept [of s it s'] workqueue_push_dropped [of it s] by auto
next
  case (wq_push_null arg s s' acc exd lost)
  then show ?case
    using workqueue_push_refuse [of s "(0, arg)" s'] workqueue_push_dropped [of "(0, arg)" s] by auto
next
  case (wq_push_lost it s s' acc exd lost)
  then show ?case
    using workqueue_push_refuse [of s it s'] workqueue_push_dropped [of it s] by auto
next
  case (wq_take s it s' acc exd lost)
  then show ?case
    using wq.pop_some [of s it s'] workqueue_take_dropped [of s it s'] by auto
qed

lemma wq_reach_ok: "wq_reach h \<Longrightarrow> wq_hist_ok h"
proof (induction rule: wq_reach.induct)
  case wq_reach_start
  then show ?case using wq_start_ok by (simp add: wq_start_def)
next
  case (wq_reach_step h h')
  then show ?case by (blast intro: wq_step_ok)
qed

text \<open>
  Claim C14. Under every interleaving of interrupt-time pushes with the drain, the items
  handed to their handlers followed by the items still in the ring are exactly the accepted
  pushes in the order they were accepted: none is lost, duplicated or reordered, none has a
  null handler, at most 63 wait, and the drop counter is the number of refused pushes (as a
  32-bit count).
\<close>

theorem workqueue_exactly_once:
  assumes "wq_reach (s, accepted, exd, lost)"
  shows "accepted = exd @ wq_items s \<and> length (wq_items s) \<le> 63
    \<and> (\<forall>it \<in> set exd. fst it \<noteq> 0) \<and> workqueue_dropped s = of_nat lost"
  using wq_reach_ok [OF assms] wq.bounded [of s] by (auto simp: workqueue_dropped_def)

definition wq_one :: wq_state where
  "wq_one = snd (workqueue_push (7, 1) wq_start)"

lemma wq_one_reach: "wq_reach (wq_one, [(7, 1)], [], 0)"
proof (rule wq_reach_step [OF wq_reach_start])
  show "wq_step (wq_start, [], [], 0) (wq_one, [(7, 1)], [], 0)"
    using wq_push_ok [of "(7, 1)" wq_start wq_one "[]" "[]" 0]
    by (simp add: wq_one_def workqueue_push_def wq_start_def WQ_MAX_def)
qed

theorem workqueue_exactly_once_witness:
  "wq_reach (wq_one, [(7, 1)], [], 0) \<and> [(7, 1)] = [] @ wq_items wq_one"
  using workqueue_exactly_once [OF wq_one_reach] wq_one_reach by simp

section \<open>Draining\<close>

lemma workqueue_run_loop:
  assumes "wq_ok s" "\<And>it t. wq_ok t \<Longrightarrow> wq_items (call it t) = wq_items t \<and> wq_ok (call it t)"
  shows "\<exists>s'. workqueue_run call s = Some (s', wq_items s) \<and> wq_items s' = [] \<and> wq_ok s'"
  using assms(1)
proof (induction "wq_items s" arbitrary: s)
  case Nil
  then have "workqueue_take s = None" using wq.pop_none [of s] by simp
  with Nil show ?case by (subst workqueue_run.simps) simp
next
  case (Cons it its)
  obtain t where t: "workqueue_take s = Some (it, t)" "wq_items t = its" "wq_ok t"
    using wq.pop_order [of s it its] Cons.hyps(2) Cons.prems by auto
  with assms(2) [of t it] Cons.hyps(1) [of "call it t"]
  obtain s' where "workqueue_run call (call it t) = Some (s', its)" "wq_items s' = []" "wq_ok s'"
    by auto
  with t Cons.hyps(2) show ?case by (subst workqueue_run.simps) simp
qed

text \<open>
  When the handlers leave the ring alone, \<open>workqueue_run\<close> returns, has run exactly
  the waiting items in the order they were pushed, and leaves the ring empty.
\<close>

theorem workqueue_run_drains:
  assumes "wq_ok s" "\<And>it t. wq_ok t \<Longrightarrow> wq_items (call it t) = wq_items t \<and> wq_ok (call it t)"
  shows "\<exists>s'. workqueue_run call s = Some (s', wq_items s) \<and> wq_items s' = [] \<and> wq_ok s'"
  using assms by (rule workqueue_run_loop)

theorem workqueue_run_drains_witness:
  "\<exists>s'. workqueue_run (\<lambda>it t. t) wq_one = Some (s', [(7, 1)]) \<and> wq_items s' = [] \<and> wq_ok s'"
proof -
  have "wq_ok wq_one" "wq_items wq_one = [(7, 1)]"
    using wq_reach_ok [OF wq_one_reach] by simp_all
  with workqueue_run_drains [of wq_one "\<lambda>it t. t"] show ?thesis by simp
qed

end
