(* ===== verification/Timer.thy ===== *)
theory Timer
  imports Workqueue
begin

text \<open>
  One-shot timers, \<open>kernel/src/timer.c\<close>: 32 slots armed by \<open>timer_call_in_ms\<close> and fired by
  \<open>timer_poll\<close> into the work queue. The tick counter of \<open>kernel/src/pit.c\<close> is part of the
  state; \<open>pit_on_tick\<close> advances it.

  Shown here: how far the millisecond conversion is from the exact quotient, that polling
  hands the due events to the queue in slot order and clears them, which of them are lost
  when the queue fills up, and that \<open>timer_sleep_ms\<close> returns, not before its deadline.
\<close>

section \<open>State and operations\<close>

record timer_ev =
  tv_active :: bool
  tv_due_ticks :: u64
  tv_fn :: u64
  tv_arg :: u64

record timers =
  g_ticks :: u64
  g_hz :: u64
  g_timers :: "timer_ev list"
  tm_queue :: wq_state

definition timer_init :: "u64 \<Rightarrow> timers \<Rightarrow> timers" where
  "timer_init pit_hz s =
     s\<lparr>g_hz := (if pit_hz \<noteq> 0 then pit_hz else g_hz s),
       g_timers := replicate 32 \<lparr>tv_active = False, tv_due_ticks = 0, tv_fn = 0, tv_arg = 0\<rparr>\<rparr>"

definition timer_hz :: "timers \<Rightarrow> u64" where
  "timer_hz s = g_hz s"

definition timer_ticks :: "timers \<Rightarrow> u64" where
  "timer_ticks s = g_ticks s"

definition ms_to_ticks :: "timers \<Rightarrow> u64 \<Rightarrow> u64" where
  "ms_to_ticks s ms = (let num = ms * g_hz s + 999 in num div 1000)"

text \<open>The slot number that the C function returns, or \<open>None\<close> for its \<open>-1\<close>.\<close>

definition timer_call_in_ms :: "u64 \<Rightarrow> u64 \<Rightarrow> u64 \<Rightarrow> timers \<Rightarrow> nat option \<times> timers" where
  "timer_call_in_ms ms fn arg s =
     (if fn = 0 then (None, s)
      else
        let due = g_ticks s + ms_to_ticks s ms in
        case first_idx (\<lambda>e. \<not> tv_active e) (g_timers s) of
          None \<Rightarrow> (None, s)
        | Some i \<Rightarrow>
            (Some i, s\<lparr>g_timers := (g_timers s)[i :=
               \<lparr>tv_active = True, tv_due_ticks = due, tv_fn = fn, tv_arg = arg\<rparr>]\<rparr>))"

text \<open>One round of the loop of \<open>timer_poll\<close>; the result of \<open>workqueue_push\<close> is ignored, as in the code.\<close>

definition timer_poll_slot :: "u64 \<Rightarrow> nat \<Rightarrow> timers \<Rightarrow> timers" where
  "timer_poll_slot now i s =
     (let ev = g_timers s ! i in
      if \<not> tv_active ev then s
      else if now < tv_due_ticks ev then s
      else s\<lparr>g_timers := (g_timers s)[i := ev\<lparr>tv_active := False, tv_fn := 0, tv_arg := 0\<rparr>],
             tm_queue := snd (workqueue_push (tv_fn ev, tv_arg ev) (tm_queue s))\<rparr>)"

definition timer_poll :: "timers \<Rightarrow> timers" where
  "timer_poll s = (let now = g_ticks s in fold (timer_poll_slot now) [0..<32] s)"

text \<open>
  The wait loop. What happens to the state while the processor halts until the next
  interrupt is the parameter \<open>hlt\<close>.
\<close>

partial_function (option) timer_sleep_loop :: "(timers \<Rightarrow> timers) \<Rightarrow> u64 \<Rightarrow> timers \<Rightarrow> timers option" where
  "timer_sleep_loop hlt target s =
     (if timer_ticks s < target then timer_sleep_loop hlt target (hlt (timer_poll s)) else Some s)"

definition timer_sleep_ms :: "(timers \<Rightarrow> timers) \<Rightarrow> u64 \<Rightarrow> timers \<Rightarrow> timers option" where
  "timer_sleep_ms hlt ms s =
     (if ms = 0 then Some s
      else
        let hz = (if timer_hz s = 0 then 100 else timer_hz s);
            ticks0 = (ms * hz + 999) div 1000;
            ticks = (if ticks0 = 0 then 1 else ticks0);
            target = timer_ticks s + ticks
        in timer_sleep_loop hlt target s)"

section \<open>Polling\<close>

definition ev_due :: "u64 \<Rightarrow> timer_ev \<Rightarrow> bool" where
  "ev_due now e \<longleftrightarrow> tv_active e \<and> \<not> now < tv_due_ticks e"

definition ev_fired :: "u64 \<Rightarrow> timer_ev \<Rightarrow> timer_ev" where
  "ev_fired now e = (if ev_due now e then e\<lparr>tv_active := False, tv_fn := 0, tv_arg := 0\<rparr> else e)"

definition due_work :: "u64 \<Rightarrow> timer_ev list \<Rightarrow> work list" where
  "due_work now ts = map (\<lambda>e. (tv_fn e, tv_arg e)) (filter (ev_due now) ts)"

definition timers_ok :: "timers \<Rightarrow> bool" where
  "timers_ok s \<longleftrightarrow> length (g_timers s) = 32 \<and> (\<forall>e \<in> set (g_timers s). tv_active e \<longrightarrow> tv_fn e \<noteq> 0)
     \<and> wq_ok (tm_queue s)"

abbreviation push_all :: "work list \<Rightarrow> wq_state \<Rightarrow> wq_state" where
  "push_all xs q \<equiv> fold (\<lambda>x q. snd (workqueue_push x q)) xs q"

lemma timer_poll_slot_alt:
  "timer_poll_slot now i s =
     s\<lparr>g_timers := (g_timers s)[i := ev_fired now (g_timers s ! i)],
       tm_queue := push_all (due_work now [g_timers s ! i]) (tm_queue s)\<rparr>"
  by (simp add: timer_poll_slot_def ev_fired_def due_work_def ev_due_def Let_def)

lemma timer_poll_prefix:
  assumes "k \<le> length (g_timers s)"
  shows "fold (timer_poll_slot now) [0..<k] s =
     s\<lparr>g_timers := map (ev_fired now) (take k (g_timers s)) @ drop k (g_timers s),
       tm_queue := push_all (due_work now (take k (g_timers s))) (tm_queue s)\<rparr>"
  using assms
proof (induction k)
  case 0
  then show ?case by (simp add: due_work_def)
next
  case (Suc k)
  then have k: "k < length (g_timers s)" by simp
  let ?ts = "g_timers s"
  have at: "(map (ev_fired now) (take k ?ts) @ drop k ?ts) ! k = ?ts ! k"
    using k by (simp add: nth_append)
  have upd: "(map (ev_fired now) (take k ?ts) @ drop k ?ts)[k := ev_fired now (?ts ! k)]
      = map (ev_fired now) (take (Suc k) ?ts) @ drop (Suc k) ?ts"
    using k by (simp add: list_update_append take_Suc_conv_app_nth Cons_nth_drop_Suc [symmetric])
  have due: "due_work now (take (Suc k) ?ts) = due_work now (take k ?ts) @ due_work now [?ts ! k]"
    using k by (simp add: due_work_def take_Suc_conv_app_nth)
  show ?case
    using Suc by (simp add: timer_poll_slot_alt at upd due)
qed

lemma timer_poll_eq:
  assumes "length (g_timers s) = 32"
  shows "timer_poll s = s\<lparr>g_timers := map (ev_fired (g_ticks s)) (g_timers s),
       tm_queue := push_all (due_work (g_ticks s) (g_timers s)) (tm_queue s)\<rparr>"
  using timer_poll_prefix [of 32 s "g_ticks s"] assms by (simp add: timer_poll_def)

lemma due_work_good: "timers_ok s \<Longrightarrow> \<forall>it \<in> set (due_work now (g_timers s)). fst it \<noteq> 0"
  by (auto simp: timers_ok_def due_work_def ev_due_def)

lemma timer_poll_ok: "timers_ok s \<Longrightarrow> timers_ok (timer_poll s)"
  using wq.push_list [of "tm_queue s" "due_work (g_ticks s) (g_timers s)"] due_work_good [of s "g_ticks s"]
  by (auto simp: timers_ok_def timer_poll_eq ev_fired_def)

lemma timer_call_in_ms_ok: "timers_ok s \<Longrightarrow> timers_ok (snd (timer_call_in_ms ms fn arg s))"
  by (auto simp: timers_ok_def timer_call_in_ms_def Let_def split: option.splits
      dest!: set_update_subset_insert [THEN subsetD])

lemma timer_init_ok: "wq_ok (tm_queue s) \<Longrightarrow> timers_ok (timer_init hz s)"
  by (simp add: timers_ok_def timer_init_def)

text \<open>
  Claim C26. One poll fires every event whose deadline has come and no other: the queue gains
  the due events in slot order as far as it has room, every due slot becomes free, and every
  other slot is untouched. In particular a due event beyond the queue's room is dropped.
\<close>

theorem timer_poll_fires_due:
  assumes "timers_ok s"
  shows "wq_items (tm_queue (timer_poll s)) = wq_items (tm_queue s)
      @ take (63 - length (wq_items (tm_queue s))) (due_work (g_ticks s) (g_timers s))
    \<and> (\<forall>i < 32. g_timers (timer_poll s) ! i =
      (if ev_due (g_ticks s) (g_timers s ! i)
       then (g_timers s ! i)\<lparr>tv_active := False, tv_fn := 0, tv_arg := 0\<rparr> else g_timers s ! i))
    \<and> timers_ok (timer_poll s)"
proof (intro conjI)
  have p: "length (g_timers s) = 32" "wq_ok (tm_queue s)" using assms by (simp_all add: timers_ok_def)
  then show "wq_items (tm_queue (timer_poll s)) = wq_items (tm_queue s)
      @ take (63 - length (wq_items (tm_queue s))) (due_work (g_ticks s) (g_timers s))"
    using wq.push_list [of "tm_queue s"] due_work_good [OF assms] by (simp add: timer_poll_eq)
  show "\<forall>i < 32. g_timers (timer_poll s) ! i =
      (if ev_due (g_ticks s) (g_timers s ! i)
       then (g_timers s ! i)\<lparr>tv_active := False, tv_fn := 0, tv_arg := 0\<rparr> else g_timers s ! i)"
    using p(1) by (simp add: timer_poll_eq ev_fired_def)
  show "timers_ok (timer_poll s)" using assms by (rule timer_poll_ok)
qed

definition tm_start :: timers where
  "tm_start = timer_init 100 \<lparr>g_ticks = 5, g_hz = 0, g_timers = [], tm_queue = wq_start\<rparr>"

definition tm_armed :: timers where
  "tm_armed = snd (timer_call_in_ms 0 7 1 tm_start)"

lemma tm_armed_ok: "timers_ok tm_armed"
  unfolding tm_armed_def tm_start_def
  by (intro timer_call_in_ms_ok timer_init_ok) (simp add: wq_start_ok)

theorem timer_poll_fires_due_witness:
  "timers_ok tm_armed \<and> wq_items (tm_queue (timer_poll tm_armed)) = [(7, 1)]"
proof -
  have r: "replicate 32 e = e # replicate 31 e" for e :: timer_ev
    by (simp add: numeral_eq_Suc)
  have "due_work (g_ticks tm_armed) (g_timers tm_armed) = [(7, 1)]" "tm_queue tm_armed = wq_start"
    by (simp_all add: tm_armed_def tm_start_def timer_call_in_ms_def timer_init_def ms_to_ticks_def
        due_work_def ev_due_def r)
  with timer_poll_fires_due [OF tm_armed_ok] tm_armed_ok show ?thesis
    by (simp add: wq_start_ok)
qed

section \<open>Arming and waiting\<close>

text \<open>The conversion rounds up, and is exact to less than one tick when it does not wrap.\<close>

lemma unat_round_up_1000:
  fixes x :: u64
  assumes "unat x + 999 < 2 ^ 64"
  shows "unat ((x + 999) div 1000) = (unat x + 999) div 1000"
  using assms by (simp add: unat_div unat_add_no_wrap)

lemma unat_mult_no_wrap:
  fixes x y :: u64
  shows "unat x * unat y < 2 ^ 64 \<Longrightarrow> unat (x * y) = unat x * unat y"
  by (simp add: unat_word_ariths)

lemma unat_ms_to_ticks:
  assumes "unat ms * unat (g_hz s) + 999 < 2 ^ 64"
  shows "unat (ms_to_ticks s ms) = (unat ms * unat (g_hz s) + 999) div 1000"
  using assms unat_round_up_1000 [of "ms * g_hz s"] by (simp add: ms_to_ticks_def unat_mult_no_wrap)

text \<open>
  Arming a timer takes the lowest free slot, changes no other slot, and sets a
  deadline that is at least the requested time away and less than one tick later than it;
  it fails only for a null handler or when all 32 slots are armed.
\<close>

theorem timer_call_in_ms_arms:
  assumes "timers_ok s" "fn \<noteq> 0" "\<exists>e \<in> set (g_timers s). \<not> tv_active e"
    and "unat ms * unat (g_hz s) + 999 < 2 ^ 64"
    and "unat (g_ticks s) + (unat ms * unat (g_hz s) + 999) div 1000 < 2 ^ 64"
  shows "\<exists>i due. timer_call_in_ms ms fn arg s = (Some i, s\<lparr>g_timers := (g_timers s)[i :=
             \<lparr>tv_active = True, tv_due_ticks = due, tv_fn = fn, tv_arg = arg\<rparr>]\<rparr>)
     \<and> i < 32 \<and> \<not> tv_active (g_timers s ! i) \<and> (\<forall>j < i. tv_active (g_timers s ! j))
     \<and> unat ms * unat (g_hz s) \<le> 1000 * (unat due - unat (g_ticks s))
     \<and> 1000 * (unat due - unat (g_ticks s)) < unat ms * unat (g_hz s) + 1000"
proof -
  obtain i where i: "first_idx (\<lambda>e. \<not> tv_active e) (g_timers s) = Some i"
    using assms(3) by (cases "first_idx (\<lambda>e. \<not> tv_active e) (g_timers s)") (auto simp: slot_simps)
  let ?due = "g_ticks s + ms_to_ticks s ms"
  have due: "unat ?due = unat (g_ticks s) + (unat ms * unat (g_hz s) + 999) div 1000"
    using assms(4,5) by (subst unat_add_no_wrap) (simp_all add: unat_ms_to_ticks)
  show ?thesis
  proof (rule exI [of _ i], rule exI [of _ ?due], intro conjI)
    show "timer_call_in_ms ms fn arg s = (Some i, s\<lparr>g_timers := (g_timers s)[i :=
             \<lparr>tv_active = True, tv_due_ticks = ?due, tv_fn = fn, tv_arg = arg\<rparr>]\<rparr>)"
      using assms(2) i by (simp add: timer_call_in_ms_def Let_def)
    show "i < 32" "\<not> tv_active (g_timers s ! i)" "\<forall>j < i. tv_active (g_timers s ! j)"
      using first_idx_SomeD [OF i] assms(1) by (auto simp: timers_ok_def)
  qed (unfold due, linarith+)
qed

theorem timer_call_in_ms_arms_witness:
  "\<exists>i due. timer_call_in_ms 25 7 1 tm_start = (Some i, tm_start\<lparr>g_timers := (g_timers tm_start)[i :=
             \<lparr>tv_active = True, tv_due_ticks = due, tv_fn = 7, tv_arg = 1\<rparr>]\<rparr>)
     \<and> i < 32 \<and> unat due - 5 = 3"
proof -
  have ok: "timers_ok tm_start"
    unfolding tm_start_def by (intro timer_init_ok) (simp add: wq_start_ok)
  have p: "g_hz tm_start = 100" "g_ticks tm_start = 5" "\<exists>e \<in> set (g_timers tm_start). \<not> tv_active e"
    by (simp_all add: tm_start_def timer_init_def)
  have "\<exists>i due. timer_call_in_ms 25 7 1 tm_start = (Some i, tm_start\<lparr>g_timers := (g_timers tm_start)[i :=
             \<lparr>tv_active = True, tv_due_ticks = due, tv_fn = 7, tv_arg = 1\<rparr>]\<rparr>)
     \<and> i < 32 \<and> 2500 \<le> 1000 * (unat due - 5) \<and> 1000 * (unat due - 5) < 3500"
    using timer_call_in_ms_arms [OF ok _ p(3), of 7 25 1] p(1,2) by fastforce
  then obtain i due where 1: "timer_call_in_ms 25 7 1 tm_start = (Some i, tm_start\<lparr>g_timers := (g_timers tm_start)[i :=
             \<lparr>tv_active = True, tv_due_ticks = due, tv_fn = 7, tv_arg = 1\<rparr>]\<rparr>)" "i < 32"
    and 2: "2500 \<le> 1000 * (unat due - 5)" "1000 * (unat due - 5) < 3500" by blast
  from 2 have "unat due - 5 = 3" by linarith
  with 1 show ?thesis by blast
qed

lemma timer_poll_ticks [simp]: "g_ticks (timer_poll s) = g_ticks s"
proof -
  have slot: "g_ticks (timer_poll_slot now i t) = g_ticks t" for now i t
    by (simp add: timer_poll_slot_def Let_def)
  have "g_ticks (fold (timer_poll_slot now) is t) = g_ticks t" for now "is" t
    by (induction "is" arbitrary: t) (simp_all add: slot)
  then show ?thesis by (simp add: timer_poll_def Let_def)
qed

lemma timer_sleep_loop_returns:
  assumes "\<And>t. g_ticks t < target \<Longrightarrow> g_ticks t < g_ticks (hlt t)"
  shows "\<exists>s'. timer_sleep_loop hlt target s = Some s' \<and> target \<le> g_ticks s'"
proof (induction "unat target - unat (g_ticks s)" arbitrary: s rule: less_induct)
  case less
  show ?case
  proof (cases "g_ticks s < target")
    case True
    let ?t = "hlt (timer_poll s)"
    have "g_ticks s < g_ticks ?t" using assms [of "timer_poll s"] True by simp
    then have "unat target - unat (g_ticks ?t) < unat target - unat (g_ticks s)"
      using True by (simp add: word_less_nat_alt)
    from less [OF this] True show ?thesis
      by (subst timer_sleep_loop.simps) (simp add: timer_ticks_def)
  next
    case False
    then show ?thesis by (subst timer_sleep_loop.simps) (simp add: timer_ticks_def)
  qed
qed

text \<open>
  If every halt ends with the tick counter advanced (the timer interrupt that
  ends it counts a tick) and the deadline does not wrap, \<open>timer_sleep_ms\<close> returns, and not
  before the requested time has passed.
\<close>

theorem timer_sleep_ms_returns:
  assumes "\<And>t. g_ticks t \<noteq> - 1 \<Longrightarrow> g_ticks t < g_ticks (hlt t)"
    and "g_hz s \<noteq> 0" "unat ms * unat (g_hz s) + 999 < 2 ^ 64"
    and "unat (g_ticks s) + (unat ms * unat (g_hz s) + 999) div 1000 < 2 ^ 64"
  shows "\<exists>s'. timer_sleep_ms hlt ms s = Some s'
    \<and> unat ms * unat (g_hz s) \<le> 1000 * (unat (g_ticks s') - unat (g_ticks s))"
proof (cases "ms = 0")
  case True
  then show ?thesis by (simp add: timer_sleep_ms_def)
next
  case False
  let ?ticks = "(ms * g_hz s + 999) div 1000"
  let ?target = "g_ticks s + ?ticks"
  have ticks: "unat ?ticks = (unat ms * unat (g_hz s) + 999) div 1000"
    using unat_ms_to_ticks [OF assms(3)] by (simp add: ms_to_ticks_def)
  have "0 < unat ms * unat (g_hz s)"
    using False assms(2) by (simp add: unat_gt_0)
  then have pos: "?ticks \<noteq> 0"
    using ticks by (auto simp: div_eq_0_iff simp del: unat_eq_zero dest!: arg_cong [of _ _ unat])
  have target: "unat ?target = unat (g_ticks s) + (unat ms * unat (g_hz s) + 999) div 1000"
    using assms(4) by (subst unat_add_no_wrap) (simp_all add: ticks)
  have adv: "g_ticks t < g_ticks (hlt t)" if "g_ticks t < ?target" for t
    using assms(1) [of t] that by (cases "g_ticks t = - 1") simp_all
  obtain s' where s': "timer_sleep_loop hlt ?target s = Some s'" "?target \<le> g_ticks s'"
    using timer_sleep_loop_returns [OF adv] by blast
  have "timer_sleep_ms hlt ms s = Some s'"
    using False assms(2) pos s'(1) by (simp add: timer_sleep_ms_def timer_hz_def timer_ticks_def Let_def)
  moreover have "unat ms * unat (g_hz s) \<le> 1000 * (unat (g_ticks s') - unat (g_ticks s))"
    using s'(2) target by (simp add: word_le_nat_alt)
  ultimately show ?thesis by blast
qed

theorem timer_sleep_ms_returns_witness:
  "\<exists>s'. timer_sleep_ms (\<lambda>t. t\<lparr>g_ticks := g_ticks t + 1\<rparr>) 20 tm_start = Some s' \<and> 7 \<le> unat (g_ticks s')"
proof -
  have p: "g_hz tm_start = 100" "g_ticks tm_start = 5"
    by (simp_all add: tm_start_def timer_init_def)
  have inc: "g_ticks t < g_ticks (t\<lparr>g_ticks := g_ticks t + 1\<rparr>)" if "g_ticks t \<noteq> - 1" for t :: timers
    using that inc_less_eq_self_iff_eq [of "g_ticks t"] by (simp add: not_le [symmetric])
  have "\<exists>s'. timer_sleep_ms (\<lambda>t. t\<lparr>g_ticks := g_ticks t + 1\<rparr>) 20 tm_start = Some s'
      \<and> 2000 \<le> 1000 * (unat (g_ticks s') - 5)"
    using timer_sleep_ms_returns [OF inc, of tm_start 20] p by simp
  then obtain s' where 1: "timer_sleep_ms (\<lambda>t. t\<lparr>g_ticks := g_ticks t + 1\<rparr>) 20 tm_start = Some s'"
    and 2: "2000 \<le> 1000 * (unat (g_ticks s') - 5)" by blast
  from 2 have "7 \<le> unat (g_ticks s')" by linarith
  with 1 show ?thesis by blast
qed

end
