(* ===== verification/Netbase.thy ===== *)
theory Netbase
  imports Prelude
begin

text \<open>
  What the network components share: byte order (\<open>kernel/include/net.h\<close>), 16-bit and 32-bit
  fields of packed headers as the little-endian processor loads and stores them, and the
  Internet checksum of \<open>kernel/src/ip.c\<close>.

  Shown here: byte order conversion is an involution, stored fields read back, and the
  checksum is the ones-complement sum: a block whose checksum field holds the checksum of
  the rest verifies to zero.
\<close>

section \<open>Byte order\<close>

definition htons :: "u16 \<Rightarrow> u16" where
  "htons x = drop_bit 8 x OR push_bit 8 x"

definition ntohs :: "u16 \<Rightarrow> u16" where
  "ntohs x = htons x"

definition htonl :: "u32 \<Rightarrow> u32" where
  "htonl x = drop_bit 24 (x AND 0xFF000000) OR drop_bit 8 (x AND 0x00FF0000)
     OR push_bit 8 (x AND 0x0000FF00) OR push_bit 24 (x AND 0x000000FF)"

definition ntohl :: "u32 \<Rightarrow> u32" where
  "ntohl x = htonl x"

text \<open>A 16-bit or 32-bit field in memory, least significant byte first.\<close>

definition st16 :: "u16 \<Rightarrow> bytes" where
  "st16 x = [ucast x, ucast (drop_bit 8 x)]"

definition ld16 :: "u8 \<Rightarrow> u8 \<Rightarrow> u16" where
  "ld16 a b = ucast a OR push_bit 8 (ucast b)"

definition st32 :: "u32 \<Rightarrow> bytes" where
  "st32 x = [ucast x, ucast (drop_bit 8 x), ucast (drop_bit 16 x), ucast (drop_bit 24 x)]"

definition ld32 :: "u8 \<Rightarrow> u8 \<Rightarrow> u8 \<Rightarrow> u8 \<Rightarrow> u32" where
  "ld32 a b c d = ucast a OR push_bit 8 (ucast b) OR push_bit 16 (ucast c) OR push_bit 24 (ucast d)"

definition rd16 :: "bytes \<Rightarrow> nat \<Rightarrow> u16" where
  "rd16 p i = ld16 (p ! i) (p ! (i + 1))"

definition rd32 :: "bytes \<Rightarrow> nat \<Rightarrow> u32" where
  "rd32 p i = ld32 (p ! i) (p ! (i + 1)) (p ! (i + 2)) (p ! (i + 3))"

lemma length_st [simp]: "length (st16 x) = 2" "length (st32 y) = 4"
  by (simp_all add: st16_def st32_def)

lemma htons_htons [simp]: "ntohs (htons x) = x"
  unfolding ntohs_def htons_def
proof (rule bit_word_eqI)
  fix n
  assume "n < LENGTH(16)"
  then show "bit (drop_bit 8 (drop_bit 8 x OR push_bit 8 x) OR push_bit 8 (drop_bit 8 x OR push_bit 8 x)) n = bit x n"
    by (cases "n < 8") (auto simp: bit_simps dest: bit_imp_le_length)
qed

lemma htonl_eq: "htonl x = ld32 (ucast (drop_bit 24 x)) (ucast (drop_bit 16 x)) (ucast (drop_bit 8 x)) (ucast x)"
proof -
  have m: "(0xFF000000 :: u32) = push_bit 24 (mask 8)" "(0x00FF0000 :: u32) = push_bit 16 (mask 8)"
    "(0x0000FF00 :: u32) = push_bit 8 (mask 8)" "(0x000000FF :: u32) = mask 8"
    by (simp_all add: mask_eq_exp_minus_1)
  show ?thesis
    unfolding htonl_def ld32_def m by (rule bit_word_eqI) (auto simp: bit_simps)
qed

lemma ld32_bytes:
  "ucast (ld32 a b c d) = a" "ucast (drop_bit 8 (ld32 a b c d)) = b"
  "ucast (drop_bit 16 (ld32 a b c d)) = c" "ucast (drop_bit 24 (ld32 a b c d)) = d"
  unfolding ld32_def by (rule bit_word_eqI, auto simp: bit_simps dest: bit_imp_le_length)+

lemma ld32_st32: "ld32 (ucast x) (ucast (drop_bit 8 x)) (ucast (drop_bit 16 x)) (ucast (drop_bit 24 x)) = x" for x :: u32
  using take_bit_or_byte [of 8 x] take_bit_or_byte [of 16 x] take_bit_or_byte [of 24 x]
  by (simp add: ld32_def ucast_ucast_u8 take_bit_word_eq_self flip: or.assoc)

lemma htonl_htonl [simp]: "ntohl (htonl x) = x"
  unfolding ntohl_def by (simp only: htonl_eq [of x] htonl_eq [of "ld32 a b c d" for a b c d] ld32_bytes ld32_st32)

lemma ld16_st16: "ld16 (ucast x) (ucast (drop_bit 8 x)) = x" for x :: u16
  using take_bit_or_byte [of 8 x] by (simp add: ld16_def ucast_ucast_u8 take_bit_word_eq_self)

lemma rd16_st16 [simp]: "length xs = i \<Longrightarrow> rd16 (xs @ st16 x @ ys) i = x"
  by (simp add: rd16_def st16_def nth_append ld16_st16)

lemma rd32_st32 [simp]: "length xs = i \<Longrightarrow> rd32 (xs @ st32 x @ ys) i = x"
  by (simp add: rd32_def st32_def nth_append ld32_st32 numeral_2_eq_2 numeral_3_eq_3)

lemma unat_ld16: "unat (ld16 a b) = unat a + 256 * unat b"
proof -
  have "ld16 a b = ucast a + push_bit 8 (ucast b)"
    unfolding ld16_def by (rule disjunctive_add [symmetric]) (auto simp: bit_simps dest: bit_imp_le_length)
  moreover have "unat a < 256" "unat b < 256"
    using unsigned_less [where 'a = nat and w = a] unsigned_less [where 'a = nat and w = b] by simp_all
  ultimately show ?thesis
    by (simp add: unat_word_ariths push_bit_eq_mult unsigned_ucast_eq take_bit_nat_eq_self)
qed

section \<open>The Internet checksum\<close>

fun ck_sum :: "u32 \<Rightarrow> bytes \<Rightarrow> u32" where
  "ck_sum s (a # b # p) = ck_sum (s + ucast (ld16 a b)) p"
| "ck_sum s [a] = s + ucast a"
| "ck_sum s [] = s"

text \<open>\<open>while (sum >> 16) sum = (sum & 0xFFFF) + (sum >> 16)\<close>\<close>

lemma fold_step_unat: "unat ((s AND 0xFFFF) + drop_bit 16 s) = unat s mod 65536 + unat s div 65536" for s :: u32
proof -
  have "(0xFFFF :: u32) = mask 16" by (simp add: mask_eq_exp_minus_1)
  then have a: "unat (s AND 0xFFFF) = unat s mod 65536" using unat_and_mask [of s 16] by simp
  have b: "unat (drop_bit 16 s) = unat s div 65536" by (simp only: unat_drop_bit_eq) (simp add: drop_bit_eq_div)
  have "unat s < 2 ^ 32" by (rule unat_u32_less)
  then have "unat s div 65536 < 65536" by (simp add: less_mult_imp_div_less)
  with a b show ?thesis by (subst unat_add_no_wrap) (simp_all add: less_trans_Suc)
qed

lemma fold_step_less: "drop_bit 16 s \<noteq> 0 \<Longrightarrow> unat s mod 65536 + unat s div 65536 < unat s" for s :: u32
proof -
  assume "drop_bit 16 s \<noteq> 0"
  then have "unat (drop_bit 16 s) \<noteq> 0" by (simp add: unat_eq_zero)
  then have "0 < unat s div 65536" by (simp only: unat_drop_bit_eq) (simp add: drop_bit_eq_div)
  moreover have "unat s = 65536 * (unat s div 65536) + unat s mod 65536" by simp
  ultimately show ?thesis by linarith
qed

function ck_fold :: "u32 \<Rightarrow> u32" where
  "ck_fold s = (if drop_bit 16 s \<noteq> 0 then ck_fold ((s AND 0xFFFF) + drop_bit 16 s) else s)"
  by pat_completeness auto

termination
  by (relation "measure unat") (simp_all add: fold_step_unat fold_step_less)

declare ck_fold.simps [simp del]

definition ip_checksum :: "bytes \<Rightarrow> u16" where
  "ip_checksum data = NOT (ucast (ck_fold (ck_sum 0 data)))"

text \<open>The sum as a plain number, and its ones-complement residue: 0 only for 0, else in 1..65535.\<close>

fun nsum :: "bytes \<Rightarrow> nat" where
  "nsum (a # b # p) = unat a + 256 * unat b + nsum p"
| "nsum [a] = unat a"
| "nsum [] = 0"

definition oc :: "nat \<Rightarrow> nat" where
  "oc x = (if x = 0 then 0 else (x - 1) mod 65535 + 1)"

lemma unat_u8_less: "unat x < 256" for x :: u8
  using unsigned_less [where 'a = nat and w = x] by simp

lemma nsum_bound: "nsum p \<le> 65535 * length p"
proof (induction p rule: nsum.induct)
  case (1 a b p)
  then show ?case using unat_u8_less [of a] unat_u8_less [of b] by simp
next
  case (2 a)
  then show ?case using unat_u8_less [of a] by simp
qed simp

lemma unat_ucast_u32: "unat (ucast x :: u32) = unat x" for x :: u16
  by (simp add: unsigned_ucast_eq take_bit_nat_eq_self less_le_trans [OF unsigned_less])

lemma unat_ucast8_u32: "unat (ucast x :: u32) = unat x" for x :: u8
  by (simp add: unsigned_ucast_eq take_bit_nat_eq_self less_le_trans [OF unsigned_less])

lemma unat_ck_sum: "unat s + nsum p < 2 ^ 32 \<Longrightarrow> unat (ck_sum s p) = unat s + nsum p"
proof (induction s p rule: ck_sum.induct)
  case (1 s a b p)
  have "unat (s + ucast (ld16 a b)) = unat s + (unat a + 256 * unat b)"
    using 1(2) by (subst unat_add_no_wrap) (simp_all add: unat_ucast_u32 unat_ld16)
  with 1 show ?case by simp
next
  case (2 s a)
  then show ?case by (simp add: unat_add_no_wrap unat_ucast8_u32)
qed simp

lemma oc_shift: "y \<noteq> 0 \<Longrightarrow> oc (y + 65535 * q) = oc y"
proof -
  assume "y \<noteq> 0"
  then have "y + 65535 * q - 1 = (y - 1) + 65535 * q" by simp
  then have "(y + 65535 * q - 1) mod 65535 = (y - 1) mod 65535" by (simp only: mod_mult_self2)
  with \<open>y \<noteq> 0\<close> show ?thesis by (simp add: oc_def)
qed

lemma oc_fold: "oc (x mod 65536 + x div 65536) = oc x"
proof -
  have x: "x = (x mod 65536 + x div 65536) + 65535 * (x div 65536)" by simp
  show ?thesis
  proof (cases "x mod 65536 + x div 65536 = 0")
    case True
    then show ?thesis using x by (metis add_eq_0_iff_both_eq_0 mult_0_right)
  next
    case False
    from oc_shift [OF this, of "x div 65536"] show ?thesis by (simp only: x [symmetric])
  qed
qed

lemma unat_ck_fold: "unat (ck_fold s) = oc (unat s)"
proof (induction s rule: ck_fold.induct)
  case (1 s)
  show ?case
  proof (cases "drop_bit 16 s = 0")
    case True
    then have "unat (drop_bit 16 s) = 0" by simp
    then have "unat s div 65536 = 0" by (simp only: unat_drop_bit_eq) (simp add: drop_bit_eq_div)
    then have "unat s < 65536" by (simp add: div_eq_0_iff)
    then show ?thesis using True by (subst ck_fold.simps) (auto simp: oc_def)
  next
    case False
    then show ?thesis
      using 1 oc_fold [of "unat s"] by (subst ck_fold.simps) (simp add: fold_step_unat)
  qed
qed

lemma oc_le: "oc x \<le> 65535"
proof -
  define m where "m = (x - 1) mod 65535"
  have "m < 65535" unfolding m_def by (rule mod_less_divisor) simp
  then show ?thesis unfolding oc_def m_def [symmetric] by simp
qed

lemma unat_not16: "unat (NOT x) = 65535 - unat x" for x :: u16
proof -
  have "NOT x = - 1 - x" by (simp add: not_eq_complement)
  moreover have "unat (- 1 - x) = unat (- 1 :: u16) - unat x" by (rule unat_diff_le) simp
  moreover have "unat (- 1 :: u16) = 65535" by (simp add: unsigned_minus_1_eq_mask mask_eq_exp_minus_1)
  ultimately show ?thesis by simp
qed

lemma unat_ck_result: "unat (NOT (ucast (ck_fold s)) :: u16) = 65535 - oc (unat s)"
proof -
  have "unat (ucast (ck_fold s) :: u16) = oc (unat s)"
    using oc_le [of "unat s"] by (simp add: unsigned_ucast_eq unat_ck_fold take_bit_nat_eq_self)
  then show ?thesis by (simp add: unat_not16)
qed

lemma unat_ip_checksum:
  assumes "length data \<le> 65535"
  shows "unat (ip_checksum data) = 65535 - oc (nsum data)"
proof -
  have "nsum data < 2 ^ 32" using nsum_bound [of data] assms by simp
  then show ?thesis using unat_ck_sum [of 0 data] by (simp add: ip_checksum_def unat_ck_result)
qed

lemma oc_full: "oc x = 65535 \<longleftrightarrow> x \<noteq> 0 \<and> x mod 65535 = 0"
proof (cases "x = 0")
  case False
  then obtain y where y: "x = Suc y" by (cases x) auto
  have "Suc y mod 65535 = 0 \<longleftrightarrow> y mod 65535 = 65534"
    by (metis One_nat_def Suc_mod_eq_add3_mod_numeral diff_Suc_1 less_numeral_extra(3) mod_Suc numeral_2_eq_2 nat.simps(3) eval_nat_numeral(3))
  with y show ?thesis by (simp add: oc_def)
qed (simp add: oc_def)

lemma checksum_zero_iff:
  assumes "length data \<le> 65535"
  shows "ip_checksum data = 0 \<longleftrightarrow> nsum data \<noteq> 0 \<and> nsum data mod 65535 = 0"
proof -
  have "ip_checksum data = 0 \<longleftrightarrow> unat (ip_checksum data) = 0" by (simp add: unat_eq_zero)
  also have "\<dots> \<longleftrightarrow> oc (nsum data) = 65535"
    using unat_ip_checksum [OF assms] oc_le [of "nsum data"] by simp
  finally show ?thesis by (simp add: oc_full)
qed

lemma nsum_append: "even (length xs) \<Longrightarrow> nsum (xs @ ys) = nsum xs + nsum ys"
  by (induction xs rule: nsum.induct) simp_all

lemma nsum_st16: "nsum (st16 c) = unat c"
  using unat_ld16 [of "ucast c" "ucast (drop_bit 8 c)"] by (simp add: st16_def ld16_st16)

text \<open>The residue that the checksum field adds completes the sum to a multiple of 65535.\<close>

lemma oc_complement: "n + (65535 - oc n) \<noteq> 0 \<and> (n + (65535 - oc n)) mod 65535 = 0"
proof (cases "n = 0")
  case True
  then show ?thesis by (simp add: oc_def)
next
  case False
  obtain k where "n = k * 65535 + oc n"
    using False by (intro that [of "(n - 1) div 65535"]) (simp add: oc_def)
  then have "n + (65535 - oc n) = (k + 1) * 65535" using oc_le [of n] by (simp add: algebra_simps)
  then show ?thesis by (simp only: mod_mult_self2_is_0) simp
qed

lemma checksum_fills:
  assumes "even (length xs)" "length xs + 2 + length ys \<le> 65535"
  shows "ip_checksum (xs @ st16 (ip_checksum (xs @ st16 0 @ ys)) @ ys) = 0"
proof -
  let ?n = "nsum xs + nsum ys" and ?c = "ip_checksum (xs @ st16 0 @ ys)"
  have s: "nsum (xs @ st16 c @ ys) = ?n + unat c" for c
    using assms(1) by (simp add: nsum_append nsum_st16)
  have "unat ?c = 65535 - oc ?n"
    using unat_ip_checksum [of "xs @ st16 0 @ ys"] assms(2) s [of 0] by simp
  then have "nsum (xs @ st16 ?c @ ys) = ?n + (65535 - oc ?n)" by (simp add: s)
  then show ?thesis
    using checksum_zero_iff [of "xs @ st16 ?c @ ys"] oc_complement [of ?n] assms(2) by simp
qed

end
