(* ===== verification/Netstate.thy ===== *)
theory Netstate
  imports Netbase
begin

text \<open>
  The state of the network stack as one record: the static variables of \<open>net.c\<close>, \<open>arp.c\<close>,
  \<open>ip.c\<close>, \<open>udp.c\<close>, \<open>tcp.c\<close>, \<open>dns.c\<close> and \<open>dhcp.c\<close>, and the interface to the network card:
  whether one is present and accepts frames, the frames handed to it, and the frames it has
  received. The tick counter is the field \<open>net_ticks\<close>. Functions registered as UDP handlers
  are named by the datatype \<open>udp_handler\<close>.
\<close>

record arp_entry =
  ae_ip :: u32
  ae_mac :: bytes
  ae_added :: u64
  ae_valid :: bool

record ping_state =
  ping_waiting :: bool
  ping_id :: u16
  ping_seq :: u16
  ping_reply :: bool
  ping_reply_src :: u32

datatype udp_handler = Dns_recv | Dhcp_recv

record udp_binding =
  ub_port :: u16
  ub_handler :: udp_handler
  ub_valid :: bool

datatype tcp_state = TCP_CLOSED | TCP_SYN_SENT | TCP_ESTABLISHED | TCP_FIN_WAIT_1 | TCP_FIN_WAIT_2
  | TCP_CLOSE_WAIT | TCP_LAST_ACK | TCP_TIME_WAIT

record tcb =
  s_state :: tcp_state
  s_remote_ip :: u32
  s_lport :: u16
  s_rport :: u16
  s_snd_seq :: u32
  s_snd_una :: u32
  s_rcv_nxt :: u32
  s_next_lport :: u16
  s_rx_data :: bytes
  s_rx_head :: u32
  s_rx_tail :: u32
  s_rx_len :: u32
  s_rx_fin :: bool

record dns_state =
  s_got :: bool
  s_ok :: bool
  s_ip :: u32
  s_id :: u16
  s_counter :: u16

record dhcp_state =
  s_dhcp_got :: bool
  s_dhcp_type :: u8
  s_dhcp_yiaddr :: u32
  s_dhcp_srv :: u32
  s_dhcp_mask :: u32
  s_dhcp_gw :: u32
  s_dhcp_dns :: u32
  s_dhcp_xid :: u32

record net =
  nic_present :: bool
  nic_accepts :: bool
  nic_tx :: "bytes list"
  nic_rx :: "bytes list"
  net_ticks :: u64
  net_mac :: bytes
  net_ip :: u32
  net_mask :: u32
  net_gateway :: u32
  net_dns :: u32
  arp_cache :: "arp_entry list"
  s_last_req_ip :: u32
  s_last_req_tick :: u64
  g_ip_id :: u16
  g_ping :: ping_state
  s_binds :: "udp_binding list"
  net_tcb :: tcb
  net_dnsq :: dns_state
  net_dhcp :: dhcp_state

end
