(* ===== verification/Inet.thy ===== *)
theory Inet
  imports Netstate
begin

text \<open>
  Ethernet framing, ARP, IPv4 and ICMP echo: \<open>kernel/src/net.c\<close>, \<open>arp.c\<close> and \<open>ip.c\<close>, except
  the dispatch of received packets to the transports, which is in \<open>Netstack\<close>.

  Shown here: the address cache returns what was stored until it expires, requests for an
  unknown address are rate-limited, a query for our address is answered with our address, an
  IPv4 packet that is sent is accepted by its addressee with the same source, protocol and
  payload, and an echo request is answered by an echo reply with the same identifier,
  sequence number and data whose checksum verifies.
\<close>

section \<open>Ethernet\<close>

definition ETH_PROTO_ARP :: u16 where "ETH_PROTO_ARP = 0x0806"
definition ETH_PROTO_IP :: u16 where "ETH_PROTO_IP = 0x0800"
definition ETH_HLEN :: nat where "ETH_HLEN = 14"
definition ETH_MAX_PAYLOAD :: nat where "ETH_MAX_PAYLOAD = 1500"
definition MAC_BCAST :: bytes where "MAC_BCAST = replicate 6 0xFF"

definition net_nic_send :: "bytes \<Rightarrow> net \<Rightarrow> bool \<times> net" where
  "net_nic_send frame s =
     (if nic_present s
      then if nic_accepts s then (True, s\<lparr>nic_tx := nic_tx s @ [frame]\<rparr>) else (False, s)
      else (False, s))"

text \<open>The received bytes (no bytes: nothing waiting), cut to the buffer.\<close>

definition net_nic_recv :: "nat \<Rightarrow> net \<Rightarrow> bytes \<times> net" where
  "net_nic_recv buf_len s =
     (if \<not> nic_present s then ([], s)
      else case nic_rx s of [] \<Rightarrow> ([], s) | f # fs \<Rightarrow> (take buf_len f, s\<lparr>nic_rx := fs\<rparr>))"

definition net_nic_present :: "net \<Rightarrow> bool" where
  "net_nic_present s = nic_present s"

definition net_send_eth :: "bytes \<Rightarrow> u16 \<Rightarrow> bytes \<Rightarrow> net \<Rightarrow> bool \<times> net" where
  "net_send_eth dst_mac ethertype payload s =
     (if length payload > ETH_MAX_PAYLOAD then (False, s)
      else net_nic_send (dst_mac @ net_mac s @ st16 (htons ethertype) @ payload) s)"

section \<open>ARP\<close>

definition ARP_REQUEST :: u16 where "ARP_REQUEST = 1"
definition ARP_REPLY :: u16 where "ARP_REPLY = 2"
definition ARP_PKT_LEN :: nat where "ARP_PKT_LEN = 28"
definition ARP_TTL_TICKS :: u64 where "ARP_TTL_TICKS = 60 * 100"
definition ARP_REQ_INTERVAL :: u64 where "ARP_REQ_INTERVAL = 20"

definition cache_store :: "u32 \<Rightarrow> bytes \<Rightarrow> net \<Rightarrow> net" where
  "cache_store ip mac s =
     (case first_idx (\<lambda>e. ae_valid e \<and> ae_ip e = ip) (arp_cache s) of
        Some i \<Rightarrow> s\<lparr>arp_cache := (arp_cache s)[i := (arp_cache s ! i)\<lparr>ae_mac := mac, ae_added := net_ticks s\<rparr>]\<rparr>
      | None \<Rightarrow>
          let now = net_ticks s;
              e = \<lparr>ae_ip = ip, ae_mac = mac, ae_added = now, ae_valid = True\<rparr>
          in (case first_idx (\<lambda>e. \<not> ae_valid e \<or> now - ae_added e > ARP_TTL_TICKS) (arp_cache s) of
                Some i \<Rightarrow> s\<lparr>arp_cache := (arp_cache s)[i := e]\<rparr>
              | None \<Rightarrow> s\<lparr>arp_cache := (arp_cache s)[0 := e]\<rparr>))"

definition arp_packet :: "u16 \<Rightarrow> bytes \<Rightarrow> u32 \<Rightarrow> bytes \<Rightarrow> u32 \<Rightarrow> bytes" where
  "arp_packet oper sha spa tha tpa =
     st16 (htons 1) @ st16 (htons ETH_PROTO_IP) @ [6, 4] @ st16 (htons oper) @ sha @ st32 (htonl spa)
       @ tha @ st32 (htonl tpa)"

definition arp_send :: "u16 \<Rightarrow> bytes \<Rightarrow> bytes \<Rightarrow> u32 \<Rightarrow> net \<Rightarrow> net" where
  "arp_send oper dst_eth tha tpa_host s =
     snd (net_send_eth dst_eth ETH_PROTO_ARP (arp_packet oper (net_mac s) (net_ip s) tha tpa_host) s)"

definition arp_announce :: "net \<Rightarrow> net" where
  "arp_announce s = arp_send ARP_REQUEST MAC_BCAST (replicate 6 0) (net_ip s) s"

definition arp_init :: "net \<Rightarrow> net" where
  "arp_init s = arp_announce (s\<lparr>arp_cache := map (\<lambda>e. e\<lparr>ae_valid := False\<rparr>) (arp_cache s)\<rparr>)"

definition arp_recv :: "bytes \<Rightarrow> net \<Rightarrow> net" where
  "arp_recv p s =
     (if length p < ARP_PKT_LEN then s
      else if ntohs (rd16 p 0) \<noteq> 1 then s
      else if ntohs (rd16 p 2) \<noteq> ETH_PROTO_IP then s
      else if p ! 4 \<noteq> 6 \<or> p ! 5 \<noteq> 4 then s
      else
        let sender_ip = ntohl (rd32 p 14);
            target_ip = ntohl (rd32 p 24);
            oper = ntohs (rd16 p 6);
            sha = take 6 (drop 8 p);
            s1 = (if sender_ip \<noteq> 0 then cache_store sender_ip sha s else s)
        in if oper = ARP_REQUEST \<and> target_ip = net_ip s1 then arp_send ARP_REPLY sha sha sender_ip s1 else s1)"

definition arp_resolve :: "u32 \<Rightarrow> net \<Rightarrow> bytes option \<times> net" where
  "arp_resolve ip s =
     (let now = net_ticks s;
          request = (\<lambda>s. if s_last_req_ip s = ip \<and> now - s_last_req_tick s < ARP_REQ_INTERVAL then (None, s)
             else (None, arp_send ARP_REQUEST MAC_BCAST (replicate 6 0) ip
                     (s\<lparr>s_last_req_ip := ip, s_last_req_tick := now\<rparr>)))
      in case first_idx (\<lambda>e. ae_valid e \<and> ae_ip e = ip) (arp_cache s) of
           Some i \<Rightarrow>
             let e = arp_cache s ! i in
             if now - ae_added e \<le> ARP_TTL_TICKS then (Some (ae_mac e), s)
             else request (s\<lparr>arp_cache := (arp_cache s)[i := e\<lparr>ae_valid := False\<rparr>]\<rparr>)
         | None \<Rightarrow> request s)"

section \<open>IPv4\<close>

definition IP_PROTO_ICMP :: u8 where "IP_PROTO_ICMP = 1"
definition IP_PROTO_TCP :: u8 where "IP_PROTO_TCP = 6"
definition IP_PROTO_UDP :: u8 where "IP_PROTO_UDP = 17"
definition IP_TTL_DEFAULT :: u8 where "IP_TTL_DEFAULT = 64"
definition IP4_HDR_LEN :: nat where "IP4_HDR_LEN = 20"

text \<open>The header in front of the checksum field, and behind it.\<close>

definition ip_hdr_front :: "nat \<Rightarrow> u16 \<Rightarrow> u8 \<Rightarrow> bytes" where
  "ip_hdr_front plen ident proto =
     [0x45, 0] @ st16 (htons (of_nat (IP4_HDR_LEN + plen))) @ st16 (htons ident) @ st16 (htons 0x4000)
       @ [IP_TTL_DEFAULT, proto]"

definition ip_hdr_back :: "u32 \<Rightarrow> u32 \<Rightarrow> bytes" where
  "ip_hdr_back src dst = st32 (htonl src) @ st32 (htonl dst)"

definition ip_header :: "nat \<Rightarrow> u16 \<Rightarrow> u8 \<Rightarrow> u32 \<Rightarrow> u32 \<Rightarrow> bytes" where
  "ip_header plen ident proto src dst =
     (let front = ip_hdr_front plen ident proto; rest = ip_hdr_back src dst
      in front @ st16 (ip_checksum (front @ st16 0 @ rest)) @ rest)"

definition next_hop :: "u32 \<Rightarrow> net \<Rightarrow> u32" where
  "next_hop dst_ip s = (if dst_ip AND net_mask s = net_ip s AND net_mask s then dst_ip else net_gateway s)"

definition ip4_send :: "u32 \<Rightarrow> u8 \<Rightarrow> bytes \<Rightarrow> net \<Rightarrow> bool \<times> net" where
  "ip4_send dst_ip proto payload s =
     (if \<not> net_nic_present s then (False, s)
      else if length payload > ETH_MAX_PAYLOAD - IP4_HDR_LEN then (False, s)
      else
        let (dst_mac, s1) = (if dst_ip = 0xFFFFFFFF then (Some (replicate 6 0xFF), s)
                             else arp_resolve (next_hop dst_ip s) s)
        in case dst_mac of
             None \<Rightarrow> (False, s1)
           | Some mac \<Rightarrow>
               let hdr = ip_header (length payload) (g_ip_id s1) proto (net_ip s1) dst_ip
               in net_send_eth mac ETH_PROTO_IP (hdr @ payload) (s1\<lparr>g_ip_id := g_ip_id s1 + 1\<rparr>))"

text \<open>The checks of \<open>ip4_recv\<close>: source, protocol and data of an accepted packet.\<close>

definition ip4_accept :: "net \<Rightarrow> bytes \<Rightarrow> (u32 \<times> u8 \<times> bytes) option" where
  "ip4_accept s p =
     (if length p < IP4_HDR_LEN then None
      else if drop_bit 4 (p ! 0) \<noteq> 4 then None
      else
        let ihl = unat ((p ! 0 AND 0x0F) * 4) in
        if ihl < IP4_HDR_LEN \<or> ihl > length p then None
        else if ip_checksum (take ihl p) \<noteq> 0 then None
        else
          let dst = ntohl (rd32 p 16) in
          if dst \<noteq> net_ip s \<and> dst \<noteq> 0xFFFFFFFF then None
          else
            let total = unat (ntohs (rd16 p 2)) in
            if total < ihl \<or> total > length p then None
            else Some (ntohl (rd32 p 12), p ! 9, take (total - ihl) (drop ihl p)))"

section \<open>ICMP\<close>

definition ICMP_ECHO_REQUEST :: u8 where "ICMP_ECHO_REQUEST = 8"
definition ICMP_ECHO_REPLY :: u8 where "ICMP_ECHO_REPLY = 0"
definition ICMP_HDR_LEN :: nat where "ICMP_HDR_LEN = 8"
definition ICMP_MAX_ECHO_DATA :: nat where "ICMP_MAX_ECHO_DATA = ETH_MAX_PAYLOAD - IP4_HDR_LEN - ICMP_HDR_LEN"

text \<open>An echo message with its checksum; identifier and sequence number as they are in memory.\<close>

definition icmp_echo :: "u8 \<Rightarrow> u16 \<Rightarrow> u16 \<Rightarrow> bytes \<Rightarrow> bytes" where
  "icmp_echo type' ident sq data =
     (let rest = st16 ident @ st16 sq @ data
      in [type', 0] @ st16 (ip_checksum ([type', 0] @ st16 0 @ rest)) @ rest)"

definition icmp_recv :: "u32 \<Rightarrow> bytes \<Rightarrow> net \<Rightarrow> net" where
  "icmp_recv src_ip p s =
     (if length p < ICMP_HDR_LEN then s
      else if ip_checksum p \<noteq> 0 then s
      else if p ! 0 = ICMP_ECHO_REQUEST \<and> p ! 1 = 0 then
        let data = take ICMP_MAX_ECHO_DATA (drop ICMP_HDR_LEN p)
        in snd (ip4_send src_ip IP_PROTO_ICMP (icmp_echo ICMP_ECHO_REPLY (rd16 p 4) (rd16 p 6) data) s)
      else if p ! 0 = ICMP_ECHO_REPLY \<and> p ! 1 = 0 then
        (if ping_waiting (g_ping s) \<and> ntohs (rd16 p 4) = ping_id (g_ping s) \<and> ntohs (rd16 p 6) = ping_seq (g_ping s)
         then s\<lparr>g_ping := (g_ping s)\<lparr>ping_reply_src := src_ip, ping_reply := True\<rparr>\<rparr>
         else s)
      else s)"

section \<open>The address cache\<close>

text \<open>What the cache knows of an address at a given time.\<close>

definition arp_known :: "net \<Rightarrow> u32 \<Rightarrow> bytes option" where
  "arp_known s ip =
     (case first_idx (\<lambda>e. ae_valid e \<and> ae_ip e = ip) (arp_cache s) of
        Some i \<Rightarrow> if net_ticks s - ae_added (arp_cache s ! i) \<le> ARP_TTL_TICKS then Some (ae_mac (arp_cache s ! i)) else None
      | None \<Rightarrow> None)"

lemma arp_resolve_hit: "arp_known s ip = Some mac \<Longrightarrow> arp_resolve ip s = (Some mac, s)"
  by (auto simp: arp_known_def arp_resolve_def Let_def split: option.splits if_splits)

lemma arp_resolve_miss: "arp_known s ip = None \<Longrightarrow> fst (arp_resolve ip s) = None"
  by (auto simp: arp_known_def arp_resolve_def Let_def split: option.splits if_splits)

lemma cache_store_slot:
  assumes "arp_cache s \<noteq> []"
  obtains i e where "cache_store ip mac s = s\<lparr>arp_cache := (arp_cache s)[i := e]\<rparr>" "i < length (arp_cache s)"
    "ae_valid e" "ae_ip e = ip" "ae_mac e = mac" "ae_added e = net_ticks s"
    "\<forall>j < length (arp_cache s). ae_valid (arp_cache s ! j) \<and> ae_ip (arp_cache s ! j) = ip \<longrightarrow> i \<le> j"
proof (cases "first_idx (\<lambda>e. ae_valid e \<and> ae_ip e = ip) (arp_cache s)")
  case (Some i)
  note I = first_idx_SomeD [OF Some]
  have "i \<le> j" if "ae_valid (arp_cache s ! j)" "ae_ip (arp_cache s ! j) = ip" for j
    using I(3) [of j] that by (meson linorder_not_le)
  then show thesis
    using I(1,2) Some by (intro that [of i "(arp_cache s ! i)\<lparr>ae_mac := mac, ae_added := net_ticks s\<rparr>"])
      (simp_all add: cache_store_def)
next
  case None
  let ?e = "\<lparr>ae_ip = ip, ae_mac = mac, ae_added = net_ticks s, ae_valid = True\<rparr>"
  have no: "\<not> (ae_valid (arp_cache s ! j) \<and> ae_ip (arp_cache s ! j) = ip)" if "j < length (arp_cache s)" for j
    using None that by (simp add: first_idx_None)
  show thesis
  proof (cases "first_idx (\<lambda>e. \<not> ae_valid e \<or> net_ticks s - ae_added e > ARP_TTL_TICKS) (arp_cache s)")
    case None': None
    show thesis
      using None None' no assms by (intro that [of 0 ?e]) (simp_all add: cache_store_def)
  next
    case (Some i)
    show thesis
      using None Some first_idx_SomeD(1) [OF Some] by (intro that [of i ?e]) (simp_all add: cache_store_def, use no in blast)
  qed
qed

lemma cache_store_frame: "arp_cache s \<noteq> [] \<Longrightarrow> cache_store ip mac s = s\<lparr>arp_cache := arp_cache (cache_store ip mac s)\<rparr>"
  by (rule cache_store_slot [of s ip mac]) auto

lemma cache_store_known:
  assumes "arp_cache s \<noteq> []" "t - net_ticks s \<le> ARP_TTL_TICKS"
  shows "arp_known ((cache_store ip mac s)\<lparr>net_ticks := t\<rparr>) ip = Some mac"
proof -
  obtain i e where e: "cache_store ip mac s = s\<lparr>arp_cache := (arp_cache s)[i := e]\<rparr>" "i < length (arp_cache s)"
    "ae_valid e" "ae_ip e = ip" "ae_mac e = mac" "ae_added e = net_ticks s"
    "\<forall>j < length (arp_cache s). ae_valid (arp_cache s ! j) \<and> ae_ip (arp_cache s ! j) = ip \<longrightarrow> i \<le> j"
    by (rule cache_store_slot [OF assms(1)])
  have "first_idx (\<lambda>e. ae_valid e \<and> ae_ip e = ip) ((arp_cache s)[i := e]) = Some i"
  proof (rule first_idx_update)
    show "\<not> (ae_valid (arp_cache s ! j) \<and> ae_ip (arp_cache s ! j) = ip)" if "j < i" for j
      using e(2) e(7) [rule_format, of j] that by (meson less_trans not_le)
  qed (use e in simp_all)
  then show ?thesis using e assms(2) by (simp add: arp_known_def)
qed

lemma length_arp_packet: "length sha = 6 \<Longrightarrow> length tha = 6 \<Longrightarrow> length (arp_packet oper sha spa tha tpa) = 28"
  by (simp add: arp_packet_def)

lemma arp_packet_fields:
  assumes "length sha = 6" "length tha = 6"
  shows "rd16 (arp_packet oper sha spa tha tpa) 0 = htons 1" "rd16 (arp_packet oper sha spa tha tpa) 2 = htons ETH_PROTO_IP"
    "arp_packet oper sha spa tha tpa ! 4 = 6" "arp_packet oper sha spa tha tpa ! 5 = 4"
    "rd16 (arp_packet oper sha spa tha tpa) 6 = htons oper" "take 6 (drop 8 (arp_packet oper sha spa tha tpa)) = sha"
    "rd32 (arp_packet oper sha spa tha tpa) 14 = htonl spa" "rd32 (arp_packet oper sha spa tha tpa) 24 = htonl tpa"
proof -
  let ?a = "st16 (htons 1)" and ?b = "st16 (htons ETH_PROTO_IP)" and ?c = "[6, 4] :: bytes" and ?d = "st16 (htons oper)"
    and ?e = "st32 (htonl spa)" and ?f = "st32 (htonl tpa)"
  note P = arp_packet_def [of oper sha spa tha tpa]
  show "rd16 (arp_packet oper sha spa tha tpa) 0 = htons 1"
    using rd16_st16 [of "[]" 0 "htons 1" "?b @ ?c @ ?d @ sha @ ?e @ tha @ ?f"] by (simp add: P)
  show "rd16 (arp_packet oper sha spa tha tpa) 2 = htons ETH_PROTO_IP"
    using rd16_st16 [of ?a 2 "htons ETH_PROTO_IP" "?c @ ?d @ sha @ ?e @ tha @ ?f"] by (simp add: P)
  show "arp_packet oper sha spa tha tpa ! 4 = 6" "arp_packet oper sha spa tha tpa ! 5 = 4"
    by (simp_all add: P st16_def)
  show "rd16 (arp_packet oper sha spa tha tpa) 6 = htons oper"
    using rd16_st16 [of "?a @ ?b @ ?c" 6 "htons oper" "sha @ ?e @ tha @ ?f"] by (simp add: P)
  show "take 6 (drop 8 (arp_packet oper sha spa tha tpa)) = sha"
    using assms by (simp add: P st16_def)
  show "rd32 (arp_packet oper sha spa tha tpa) 14 = htonl spa"
    using rd32_st32 [of "?a @ ?b @ ?c @ ?d @ sha" 14 "htonl spa" "tha @ ?f"] assms by (simp add: P)
  show "rd32 (arp_packet oper sha spa tha tpa) 24 = htonl tpa"
    using rd32_st32 [of "?a @ ?b @ ?c @ ?d @ sha @ ?e @ tha" 24 "htonl tpa" "[]"] assms by (simp add: P)
qed

lemma arp_recv_packet:
  assumes "length sha = 6" "length tha = 6" "spa \<noteq> 0"
  shows "arp_recv (arp_packet oper sha spa tha tpa) s =
    (let s1 = cache_store spa sha s in
     if oper = ARP_REQUEST \<and> tpa = net_ip s1 then arp_send ARP_REPLY sha sha spa s1 else s1)"
  using assms by (simp add: arp_recv_def length_arp_packet ARP_PKT_LEN_def arp_packet_fields Let_def)

text \<open>
  A well-formed ARP packet from a host makes its address resolvable to the hardware
  address it carried for the next 60 seconds, and nothing is sent for that; if the packet asks
  for our address, the one frame sent is an ARP reply to the asker that carries our addresses.
\<close>

theorem arp_learns_and_replies:
  assumes "length sha = 6" "length tha = 6" "spa \<noteq> 0" "arp_cache s \<noteq> []" "t - net_ticks s \<le> ARP_TTL_TICKS"
    and "nic_present s" "nic_accepts s" "length (net_mac s) = 6"
  shows "let s' = arp_recv (arp_packet oper sha spa tha tpa) s in
    arp_resolve spa (s'\<lparr>net_ticks := t\<rparr>) = (Some sha, s'\<lparr>net_ticks := t\<rparr>)
    \<and> nic_tx s' = nic_tx s @ (if oper = ARP_REQUEST \<and> tpa = net_ip s
        then [sha @ net_mac s @ st16 (htons ETH_PROTO_ARP) @ arp_packet ARP_REPLY (net_mac s) (net_ip s) sha spa] else [])"
proof -
  let ?c = "cache_store spa sha s"
  have f: "?c = s\<lparr>arp_cache := arp_cache ?c\<rparr>" by (rule cache_store_frame [OF assms(4)])
  then have fr: "nic_present ?c" "nic_accepts ?c" "net_mac ?c = net_mac s" "net_ip ?c = net_ip s" "nic_tx ?c = nic_tx s"
    using assms(6,7) by (metis net.select_convs net.surjective net.update_convs(11))+
  have k: "arp_known (?c\<lparr>net_ticks := t\<rparr>) spa = Some sha" by (rule cache_store_known [OF assms(4,5)])
  have reply: "arp_send ARP_REPLY sha sha spa ?c = ?c\<lparr>nic_tx := nic_tx s @
      [sha @ net_mac s @ st16 (htons ETH_PROTO_ARP) @ arp_packet ARP_REPLY (net_mac s) (net_ip s) sha spa]\<rparr>"
    using fr assms(1,8) by (simp add: arp_send_def net_send_eth_def net_nic_send_def ETH_MAX_PAYLOAD_def length_arp_packet)
  have kn: "arp_known (s1\<lparr>nic_tx := x, net_ticks := t\<rparr>) ip = arp_known (s1\<lparr>net_ticks := t\<rparr>) ip" for s1 x ip
    by (simp add: arp_known_def split: option.splits)
  show ?thesis
    using arp_resolve_hit [OF k] arp_resolve_hit [of "?c\<lparr>nic_tx := x, net_ticks := t\<rparr>" spa sha for x] k fr
    by (simp add: arp_recv_packet [OF assms(1-3)] Let_def reply kn)
qed

text \<open>A configured host with an empty cache, for the concrete instances.\<close>

definition no_tcb :: tcb where
  "no_tcb = \<lparr>s_state = TCP_CLOSED, s_remote_ip = 0, s_lport = 0, s_rport = 0, s_snd_seq = 0, s_snd_una = 0,
     s_rcv_nxt = 0, s_next_lport = 49152, s_rx_data = replicate 16384 0, s_rx_head = 0, s_rx_tail = 0,
     s_rx_len = 0, s_rx_fin = False\<rparr>"

definition no_arp :: arp_entry where
  "no_arp = \<lparr>ae_ip = 0, ae_mac = replicate 6 0, ae_added = 0, ae_valid = False\<rparr>"

definition demo_net :: net where
  "demo_net = \<lparr>nic_present = True, nic_accepts = True, nic_tx = [], nic_rx = [], net_ticks = 1000,
     net_mac = [2, 0, 0, 0, 0, 1], net_ip = 0x0A00000F, net_mask = 0xFFFFFF00, net_gateway = 0x0A000002,
     net_dns = 0x08080808, arp_cache = replicate 16 no_arp, s_last_req_ip = 0, s_last_req_tick = 0, g_ip_id = 0,
     g_ping = \<lparr>ping_waiting = False, ping_id = 0, ping_seq = 0, ping_reply = False, ping_reply_src = 0\<rparr>,
     s_binds = replicate 8 \<lparr>ub_port = 0, ub_handler = Dns_recv, ub_valid = False\<rparr>, net_tcb = no_tcb,
     net_dnsq = \<lparr>s_got = False, s_ok = False, s_ip = 0, s_id = 0, s_counter = 1\<rparr>,
     net_dhcp = \<lparr>s_dhcp_got = False, s_dhcp_type = 0, s_dhcp_yiaddr = 0, s_dhcp_srv = 0, s_dhcp_mask = 0,
       s_dhcp_gw = 0, s_dhcp_dns = 0, s_dhcp_xid = 0\<rparr>\<rparr>"

lemma demo_net_fields: "nic_present demo_net" "nic_accepts demo_net" "nic_tx demo_net = []" "net_ticks demo_net = 1000"
    "length (net_mac demo_net) = 6" "net_ip demo_net = 0x0A00000F" "arp_cache demo_net \<noteq> []"
    "\<forall>e \<in> set (arp_cache demo_net). \<not> ae_valid e" "net_mask demo_net = 0xFFFFFF00" "s_last_req_ip demo_net = 0"
  by (simp_all add: demo_net_def no_arp_def)

theorem arp_learns_and_replies_witness:
  "length (nic_tx (arp_recv (arp_packet ARP_REQUEST [2, 0, 0, 0, 0, 9] 0x0A000002 [0, 0, 0, 0, 0, 0] 0x0A00000F) demo_net)) = 1
   \<and> fst (arp_resolve 0x0A000002 ((arp_recv (arp_packet ARP_REQUEST [2, 0, 0, 0, 0, 9] 0x0A000002 [0, 0, 0, 0, 0, 0]
        0x0A00000F) demo_net)\<lparr>net_ticks := 1500\<rparr>)) = Some [2, 0, 0, 0, 0, 9]"
proof -
  have t: "1500 - net_ticks demo_net \<le> ARP_TTL_TICKS" by (simp add: demo_net_fields ARP_TTL_TICKS_def)
  show ?thesis
    using arp_learns_and_replies [OF _ _ _ demo_net_fields(7) t demo_net_fields(1,2,5),
        of "[2, 0, 0, 0, 0, 9]" "[0, 0, 0, 0, 0, 0]" "0x0A000002" ARP_REQUEST "0x0A00000F"]
    by (simp add: Let_def demo_net_fields)
qed

lemma arp_send_frame: "arp_cache (arp_send oper d t ip s) = arp_cache s" "s_last_req_ip (arp_send oper d t ip s) = s_last_req_ip s"
    "s_last_req_tick (arp_send oper d t ip s) = s_last_req_tick s" "net_ticks (arp_send oper d t ip s) = net_ticks s"
  by (simp_all add: arp_send_def net_send_eth_def net_nic_send_def)

text \<open>
  Asking for an address that is not cached sends at most one request per 20 ticks:
  after one unsuccessful attempt, a second attempt for the same address within that time
  fails without sending anything.
\<close>

theorem arp_request_rate_limited:
  assumes "\<forall>e \<in> set (arp_cache s). ae_valid e \<longrightarrow> ae_ip e \<noteq> ip" "t - net_ticks s < ARP_REQ_INTERVAL"
    and "\<not> (s_last_req_ip s = ip \<and> net_ticks s - s_last_req_tick s < ARP_REQ_INTERVAL)"
  shows "let s1 = snd (arp_resolve ip s) in
    arp_resolve ip (s1\<lparr>net_ticks := t\<rparr>) = (None, s1\<lparr>net_ticks := t\<rparr>)"
proof -
  have n: "first_idx (\<lambda>e. ae_valid e \<and> ae_ip e = ip) (arp_cache s) = None"
    using assms(1) by (auto simp: first_idx_None)
  define s1 where "s1 = arp_send ARP_REQUEST MAC_BCAST (replicate 6 0) ip (s\<lparr>s_last_req_ip := ip, s_last_req_tick := net_ticks s\<rparr>)"
  have "snd (arp_resolve ip s) = s1"
    using n assms(3) by (auto simp: arp_resolve_def Let_def s1_def)
  moreover have "arp_cache s1 = arp_cache s" "s_last_req_ip s1 = ip" "s_last_req_tick s1 = net_ticks s"
    by (simp_all add: s1_def arp_send_frame)
  ultimately show ?thesis
    using n assms(2) by (simp add: arp_resolve_def Let_def)
qed

theorem arp_request_rate_limited_witness:
  "length (nic_tx (snd (arp_resolve 0x0A000002 ((snd (arp_resolve 0x0A000002 demo_net))\<lparr>net_ticks := 1010\<rparr>)))) = 1"
proof -
  have a: "\<forall>e \<in> set (arp_cache demo_net). ae_valid e \<longrightarrow> ae_ip e \<noteq> 0x0A000002" using demo_net_fields(8) by blast
  have n: "first_idx (\<lambda>e. ae_valid e \<and> ae_ip e = 0x0A000002) (arp_cache demo_net) = None"
    using demo_net_fields(8) by (auto simp: first_idx_None)
  have one: "length (nic_tx (snd (arp_resolve 0x0A000002 demo_net))) = 1"
    using n demo_net_fields by (simp add: arp_resolve_def Let_def arp_send_def net_send_eth_def net_nic_send_def
        length_arp_packet ETH_MAX_PAYLOAD_def)
  have "arp_resolve 0x0A000002 ((snd (arp_resolve 0x0A000002 demo_net))\<lparr>net_ticks := 1010\<rparr>)
      = (None, (snd (arp_resolve 0x0A000002 demo_net))\<lparr>net_ticks := 1010\<rparr>)"
    using arp_request_rate_limited [OF a, of 1010] by (simp add: Let_def demo_net_fields ARP_REQ_INTERVAL_def)
  with one show ?thesis by simp
qed

section \<open>IPv4 and ICMP\<close>

lemma length_ip_header [simp]: "length (ip_header n ident proto src dst) = 20"
  by (simp add: ip_header_def ip_hdr_front_def ip_hdr_back_def Let_def)

lemma ip_header_verifies: "ip_checksum (ip_header n ident proto src dst) = 0"
  unfolding ip_header_def Let_def
  by (rule checksum_fills) (simp_all add: ip_hdr_front_def ip_hdr_back_def)

lemma ip_header_fields:
  fixes ident proto src dst n rest
  defines "p \<equiv> ip_header n ident proto src dst @ rest"
  shows "p ! 0 = 0x45" "p ! 9 = proto" "rd16 p 2 = htons (of_nat (IP4_HDR_LEN + n))" "rd32 p 12 = htonl src"
    "rd32 p 16 = htonl dst" "take 20 p = ip_header n ident proto src dst" "drop 20 p = rest"
proof -
  define c where "c = st16 (ip_checksum (ip_hdr_front n ident proto @ st16 0 @ ip_hdr_back src dst))"
  let ?l = "st16 (htons (of_nat (IP4_HDR_LEN + n)))" and ?i = "st16 (htons ident)" and ?f = "st16 (htons 0x4000)"
  have c: "length c = 2" by (simp add: c_def)
  have p: "p = [0x45, 0] @ ?l @ (?i @ ?f @ [IP_TTL_DEFAULT, proto] @ c @ st32 (htonl src) @ st32 (htonl dst) @ rest)"
    by (simp add: p_def ip_header_def ip_hdr_front_def ip_hdr_back_def Let_def c_def)
  show "p ! 0 = 0x45" "p ! 9 = proto" by (simp_all add: p st16_def)
  show "rd16 p 2 = htons (of_nat (IP4_HDR_LEN + n))" unfolding p by (rule rd16_st16) simp
  show "rd32 p 12 = htonl src"
    using rd32_st32 [of "[0x45, 0] @ ?l @ ?i @ ?f @ [IP_TTL_DEFAULT, proto] @ c" 12 "htonl src" "st32 (htonl dst) @ rest"] c
    by (simp add: p)
  show "rd32 p 16 = htonl dst"
    using rd32_st32 [of "[0x45, 0] @ ?l @ ?i @ ?f @ [IP_TTL_DEFAULT, proto] @ c @ st32 (htonl src)" 16 "htonl dst" rest] c
    by (simp add: p)
  show "take 20 p = ip_header n ident proto src dst" "drop 20 p = rest"
    by (simp_all add: p_def)
qed

lemma ip4_accept_packet:
  assumes "length payload \<le> 1480" "net_ip r = dst \<or> dst = 0xFFFFFFFF"
  shows "ip4_accept r (ip_header (length payload) ident proto src dst @ payload @ pad) = Some (src, proto, payload)"
proof -
  let ?p = "ip_header (length payload) ident proto src dst @ payload @ pad"
  note H = ip_header_fields [of "length payload" ident proto src dst "payload @ pad"]
  have t: "unat (of_nat (20 + length payload) :: u16) = 20 + length payload"
    using assms(1) by (simp add: unsigned_of_nat take_bit_nat_eq_self del: of_nat_add)
  have ihl: "unat ((?p ! 0 AND 0x0F) * 4) = 20" unfolding H(1) by simp
  have v: "drop_bit 4 (?p ! 0) = 4" unfolding H(1) by (simp add: drop_bit_eq_div)
  have ck: "ip_checksum (take 20 ?p) = 0" unfolding H(6) by (rule ip_header_verifies)
  have tot: "unat (ntohs (rd16 ?p 2)) = 20 + length payload"
    unfolding H(3) IP4_HDR_LEN_def htons_htons by (rule t)
  show ?thesis
    unfolding ip4_accept_def Let_def ihl tot H(2,4,5,7) htonl_htonl ck v using assms(2)
    by (auto simp: IP4_HDR_LEN_def)
qed

lemma ip4_send_frame:
  assumes "ip4_send dst proto payload s = (True, s')" "\<forall>e \<in> set (arp_cache s). length (ae_mac e) = 6"
  obtains mac where "length mac = 6" "length payload \<le> 1480"
    "nic_tx s' = nic_tx s @ [mac @ net_mac s @ st16 (htons ETH_PROTO_IP)
       @ ip_header (length payload) (g_ip_id s) proto (net_ip s) dst @ payload]"
proof -
  obtain mac where mac: "length mac = 6" and send:
    "net_send_eth mac ETH_PROTO_IP (ip_header (length payload) (g_ip_id s) proto (net_ip s) dst @ payload)
       (s\<lparr>g_ip_id := g_ip_id s + 1\<rparr>) = (True, s')" and len: "length payload \<le> 1480"
  proof (cases "dst = 0xFFFFFFFF")
    case True
    then show thesis
      using assms(1) by (intro that [of "replicate 6 0xFF"])
        (auto simp: ip4_send_def ETH_MAX_PAYLOAD_def IP4_HDR_LEN_def Let_def split: if_splits)
  next
    case False
    obtain mac s1 where r: "arp_resolve (next_hop dst s) s = (Some mac, s1)"
      using assms(1) False
      by (cases "arp_resolve (next_hop dst s) s") (auto simp: ip4_send_def Let_def split: if_splits option.splits)
    then have k: "arp_known s (next_hop dst s) = Some mac"
      using arp_resolve_miss [of s "next_hop dst s"] arp_resolve_hit [of s "next_hop dst s"]
      by (cases "arp_known s (next_hop dst s)") auto
    have "length mac = 6"
      using k assms(2) by (auto simp: arp_known_def split: option.splits if_splits dest: first_idx_SomeD)
    then show thesis
      using assms(1) False arp_resolve_hit [OF k]
      by (intro that [of mac]) (auto simp: ip4_send_def ETH_MAX_PAYLOAD_def IP4_HDR_LEN_def Let_def split: if_splits)
  qed
  have "nic_tx s' = nic_tx s @ [mac @ net_mac s @ st16 (htons ETH_PROTO_IP)
      @ ip_header (length payload) (g_ip_id s) proto (net_ip s) dst @ payload]"
    using send by (auto simp: net_send_eth_def net_nic_send_def split: if_splits)
  with mac len show thesis by (rule that)
qed

text \<open>
  A packet that \<open>ip4_send\<close> hands to the network card is, without its Ethernet
  header and with any padding the link added, accepted by the host it is addressed to (every
  host, for a broadcast), which gets the sender's address, the protocol and exactly the payload.
\<close>

theorem ip4_send_accepted:
  assumes "ip4_send dst proto payload s = (True, s')" "length (net_mac s) = 6"
    and "\<forall>e \<in> set (arp_cache s). length (ae_mac e) = 6" "net_ip r = dst \<or> dst = 0xFFFFFFFF"
  shows "\<exists>frame. nic_tx s' = nic_tx s @ [frame]
    \<and> ip4_accept r (drop ETH_HLEN frame @ pad) = Some (net_ip s, proto, payload)"
proof -
  obtain mac where f: "length mac = 6" "length payload \<le> 1480"
    "nic_tx s' = nic_tx s @ [mac @ net_mac s @ st16 (htons ETH_PROTO_IP)
       @ ip_header (length payload) (g_ip_id s) proto (net_ip s) dst @ payload]"
    using assms(1,3) by (rule ip4_send_frame)
  then show ?thesis
    using ip4_accept_packet [OF f(2) assms(4), of "g_ip_id s" proto "net_ip s" pad] assms(2) by (simp add: ETH_HLEN_def)
qed

definition demo_peer :: net where
  "demo_peer = (cache_store 0x0A000002 [2, 0, 0, 0, 0, 9] demo_net)"

lemma demo_peer_fields: "nic_present demo_peer" "nic_accepts demo_peer" "net_ip demo_peer = 0x0A00000F"
    "length (net_mac demo_peer) = 6" "nic_tx demo_peer = []" "next_hop 0x0A000002 demo_peer = 0x0A000002"
    "arp_known demo_peer 0x0A000002 = Some [2, 0, 0, 0, 0, 9]" "\<forall>e \<in> set (arp_cache demo_peer). length (ae_mac e) = 6"
proof -
  obtain i e where e: "demo_peer = demo_net\<lparr>arp_cache := (arp_cache demo_net)[i := e]\<rparr>" "ae_mac e = [2, 0, 0, 0, 0, 9]"
    unfolding demo_peer_def by (rule cache_store_slot [OF demo_net_fields(7)])
  show "nic_present demo_peer" "nic_accepts demo_peer" "net_ip demo_peer = 0x0A00000F"
    "length (net_mac demo_peer) = 6" "nic_tx demo_peer = []" "next_hop 0x0A000002 demo_peer = 0x0A000002"
    using demo_net_fields by (simp_all add: e(1) next_hop_def)
  have "demo_peer\<lparr>net_ticks := 1000\<rparr> = demo_peer" using demo_net_fields(4) by (simp add: e(1))
  moreover have "arp_known (demo_peer\<lparr>net_ticks := 1000\<rparr>) 0x0A000002 = Some [2, 0, 0, 0, 0, 9]"
    unfolding demo_peer_def by (rule cache_store_known [OF demo_net_fields(7)]) (simp add: demo_net_fields)
  ultimately show "arp_known demo_peer 0x0A000002 = Some [2, 0, 0, 0, 0, 9]" by simp
  show "\<forall>e \<in> set (arp_cache demo_peer). length (ae_mac e) = 6"
    using set_update_subset_insert [of "arp_cache demo_net" i e] e(2)
    by (auto simp: e(1) demo_net_def no_arp_def)
qed

lemma demo_send: "fst (ip4_send 0x0A000002 proto payload demo_peer) \<longleftrightarrow> length payload \<le> 1480"
  using demo_peer_fields arp_resolve_hit [OF demo_peer_fields(7)]
  by (simp add: ip4_send_def net_nic_present_def Let_def net_send_eth_def net_nic_send_def ETH_MAX_PAYLOAD_def IP4_HDR_LEN_def)

theorem ip4_send_accepted_witness:
  "\<exists>frame. nic_tx (snd (ip4_send 0x0A000002 17 [1, 2, 3] demo_peer)) = [frame]
    \<and> ip4_accept (demo_net\<lparr>net_ip := 0x0A000002\<rparr>) (drop ETH_HLEN frame @ [0, 0, 0]) = Some (0x0A00000F, 17, [1, 2, 3])"
proof -
  have s: "ip4_send 0x0A000002 17 [1, 2, 3] demo_peer = (True, snd (ip4_send 0x0A000002 17 [1, 2, 3] demo_peer))"
    using demo_send [of 17 "[1, 2, 3]"] by (simp add: prod_eq_iff)
  show ?thesis
    using ip4_send_accepted [OF s demo_peer_fields(4,8), of "demo_net\<lparr>net_ip := 0x0A000002\<rparr>" "[0, 0, 0]"] demo_peer_fields(3,5)
    by simp
qed

lemma icmp_echo_verifies: "length data \<le> 1472 \<Longrightarrow> ip_checksum (icmp_echo ty ident sq data) = 0"
  unfolding icmp_echo_def Let_def by (rule checksum_fills) simp_all

lemma icmp_echo_fields:
  "icmp_echo ty ident sq data ! 0 = ty" "icmp_echo ty ident sq data ! 1 = 0" "rd16 (icmp_echo ty ident sq data) 4 = ident"
  "rd16 (icmp_echo ty ident sq data) 6 = sq" "drop 8 (icmp_echo ty ident sq data) = data"
  "length (icmp_echo ty ident sq data) = 8 + length data"
proof -
  define c where "c = st16 (ip_checksum ([ty, 0] @ st16 0 @ st16 ident @ st16 sq @ data))"
  have e: "icmp_echo ty ident sq data = [ty, 0] @ c @ st16 ident @ st16 sq @ data" and l: "length c = 2"
    by (simp_all add: icmp_echo_def c_def Let_def)
  show "icmp_echo ty ident sq data ! 0 = ty" "icmp_echo ty ident sq data ! 1 = 0"
    "drop 8 (icmp_echo ty ident sq data) = data" "length (icmp_echo ty ident sq data) = 8 + length data"
    using l by (simp_all add: e)
  show "rd16 (icmp_echo ty ident sq data) 4 = ident"
    using rd16_st16 [of "[ty, 0] @ c" 4 ident "st16 sq @ data"] l by (simp add: e)
  show "rd16 (icmp_echo ty ident sq data) 6 = sq"
    using rd16_st16 [of "[ty, 0] @ c @ st16 ident" 6 sq data] l by (simp add: e)
qed

text \<open>
  Claim C29. A valid echo request makes the stack send, to the source of the request, exactly
  an echo reply with the same identifier, sequence number and data (up to what fits a frame),
  whose checksum verifies; a request with a wrong checksum is ignored.
\<close>

theorem icmp_echo_answered:
  assumes "length req \<ge> 8" "req ! 0 = ICMP_ECHO_REQUEST" "req ! 1 = 0"
  shows "if ip_checksum req = 0
    then \<exists>rep. icmp_recv src req s = snd (ip4_send src IP_PROTO_ICMP rep s) \<and> ip_checksum rep = 0
      \<and> rep ! 0 = ICMP_ECHO_REPLY \<and> rd16 rep 4 = rd16 req 4 \<and> rd16 rep 6 = rd16 req 6
      \<and> drop 8 rep = take 1472 (drop 8 req) \<and> length rep \<le> 1480
    else icmp_recv src req s = s"
proof (cases "ip_checksum req = 0")
  case False
  then show ?thesis by (simp add: icmp_recv_def)
next
  case True
  let ?d = "take 1472 (drop 8 req)"
  let ?rep = "icmp_echo ICMP_ECHO_REPLY (rd16 req 4) (rd16 req 6) ?d"
  have "icmp_recv src req s = snd (ip4_send src IP_PROTO_ICMP ?rep s)"
    using True assms
    by (simp add: icmp_recv_def ICMP_HDR_LEN_def ICMP_MAX_ECHO_DATA_def ETH_MAX_PAYLOAD_def IP4_HDR_LEN_def Let_def)
  moreover have "ip_checksum ?rep = 0" by (rule icmp_echo_verifies) simp
  ultimately have "icmp_recv src req s = snd (ip4_send src IP_PROTO_ICMP ?rep s) \<and> ip_checksum ?rep = 0
      \<and> ?rep ! 0 = ICMP_ECHO_REPLY \<and> rd16 ?rep 4 = rd16 req 4 \<and> rd16 ?rep 6 = rd16 req 6
      \<and> drop 8 ?rep = ?d \<and> length ?rep \<le> 1480"
    by (simp add: icmp_echo_fields)
  then show ?thesis unfolding if_P [OF True] by (rule exI [of _ ?rep])
qed

theorem icmp_echo_answered_witness:
  "\<exists>rep. icmp_recv 0x0A000002 (icmp_echo 8 0x4946 0x0100 [7, 7]) demo_peer = snd (ip4_send 0x0A000002 IP_PROTO_ICMP rep demo_peer)
     \<and> ip_checksum rep = 0 \<and> drop 8 rep = [7, 7]"
proof -
  have c: "ip_checksum (icmp_echo 8 0x4946 0x0100 [7, 7]) = 0" by (rule icmp_echo_verifies) simp
  show ?thesis
    using icmp_echo_answered [of "icmp_echo 8 0x4946 0x0100 [7, 7]" "0x0A000002" demo_peer] c
      icmp_echo_fields(2) [of 8 "0x4946" "0x0100" "[7, 7]"]
    by (auto simp: icmp_echo_fields ICMP_ECHO_REQUEST_def)
qed

end
