(* ===== verification/Stream_Interface.thy ===== *)
theory Stream_Interface
  imports Prelude
begin

text \<open>
  The contract of a bounded queue of bytes, which the receive ring of the TCP client and the pipes
  between processes both meet: bytes come out in the order they went in. The locale
  \<open>byte_stream\<close> is interpreted in \<open>Tcp\<close> and in \<open>Pipe\<close>.
\<close>

section \<open>The interface of a byte stream\<close>

locale byte_stream =
  fixes push :: "bytes \<Rightarrow> 'r \<Rightarrow> 'r"
    and pop :: "nat \<Rightarrow> 'r \<Rightarrow> bytes \<times> 'r"
    and contents :: "'r \<Rightarrow> bytes"
    and ok :: "'r \<Rightarrow> bool"
    and room :: nat
  assumes push_contents: "ok r \<Longrightarrow> length (contents r) + length d \<le> room \<Longrightarrow>
      ok (push d r) \<and> contents (push d r) = contents r @ d"
    and pop_contents: "ok r \<Longrightarrow> ok (snd (pop n r)) \<and> fst (pop n r) = take n (contents r)
      \<and> contents (snd (pop n r)) = drop n (contents r)"
begin

lemma pop_split: "ok r \<Longrightarrow> fst (pop n r) @ contents (snd (pop n r)) = contents r"
  using pop_contents [of r n] by simp

lemma push_pop_all:
  assumes "ok r" "contents r = []" "length d \<le> room"
  shows "fst (pop (length d) (push d r)) = d" "contents (snd (pop (length d) (push d r))) = []"
  using push_contents [of r d] pop_contents [of "push d r" "length d"] assms by simp_all

end

section \<open>Slots of a ring\<close>

lemma ring_slot_neq:
  fixes b n i m :: nat
  assumes "i < n" "n < m"
  shows "(b + i) mod m \<noteq> (b + n) mod m"
proof
  assume "(b + i) mod m = (b + n) mod m"
  then have "m dvd (b + n) - (b + i)"
    using assms(1) by (metis add_le_cancel_left less_imp_le mod_eq_dvd_iff_nat)
  then have "m dvd n - i" by simp
  with assms show False using dvd_imp_le [of m "n - i"] by simp
qed

end
