(* ===== verification/Tcp.thy ===== *)
theory Tcp
  imports Inet Stream_Interface "HOL-Library.Sublist"
begin

text \<open>
  The TCP client, \<open>kernel/src/tcp.c\<close>: the receive ring, the checksum, the construction of
  segments and the state machine for received segments. The blocking calls (connect, write,
  read, close), which poll the network, are in \<open>Netstack\<close>.

  Shown here: the ring is a byte stream (the interface \<open>byte_stream\<close> of \<open>Stream_Interface\<close>); whatever segments of a
  peer's stream arrive, lost, repeated or out of order, the bytes handed to the reader are a
  prefix of that stream; and three defects: the checksum of every segment of odd length that
  does not end in a zero byte is wrong, a FIN whose sequence numbers wrap is not seen, and a
  FIN that also acknowledges ours leaves the connection waiting for a second FIN.
\<close>

section \<open>Definitions\<close>

definition TCP_FIN :: u8 where "TCP_FIN = 0x01"
definition TCP_SYN :: u8 where "TCP_SYN = 0x02"
definition TCP_RST :: u8 where "TCP_RST = 0x04"
definition TCP_PSH :: u8 where "TCP_PSH = 0x08"
definition TCP_ACK :: u8 where "TCP_ACK = 0x10"
definition TCP_HDR_LEN :: nat where "TCP_HDR_LEN = 20"
definition TCP_MSS :: nat where "TCP_MSS = 1460"
definition TCP_RX_BUF :: u32 where "TCP_RX_BUF = 16 * 1024"

definition has_flag :: "u8 \<Rightarrow> u8 \<Rightarrow> bool" where
  "has_flag flags f \<longleftrightarrow> flags AND f \<noteq> 0"

definition upd_tcb :: "(tcb \<Rightarrow> tcb) \<Rightarrow> net \<Rightarrow> net" where
  "upd_tcb f s = s\<lparr>net_tcb := f (net_tcb s)\<rparr>"

definition rx_push_byte :: "u8 \<Rightarrow> tcb \<Rightarrow> tcb" where
  "rx_push_byte b t = t\<lparr>s_rx_data := (s_rx_data t)[unat (s_rx_head t) := b],
     s_rx_head := (s_rx_head t + 1) mod TCP_RX_BUF, s_rx_len := s_rx_len t + 1\<rparr>"

definition rx_push :: "bytes \<Rightarrow> tcb \<Rightarrow> tcb" where
  "rx_push data t = fold rx_push_byte data t"

fun rx_pop_loop :: "nat \<Rightarrow> tcb \<Rightarrow> bytes \<times> tcb" where
  "rx_pop_loop 0 t = ([], t)"
| "rx_pop_loop (Suc n) t =
     (let (out, t') = rx_pop_loop n (t\<lparr>s_rx_tail := (s_rx_tail t + 1) mod TCP_RX_BUF\<rparr>)
      in (s_rx_data t ! unat (s_rx_tail t) # out, t'))"

definition rx_pop :: "nat \<Rightarrow> tcb \<Rightarrow> bytes \<times> tcb" where
  "rx_pop len t =
     (let n = (if len < unat (s_rx_len t) then len else unat (s_rx_len t));
          (out, t') = rx_pop_loop n t
      in (out, t'\<lparr>s_rx_len := s_rx_len t' - of_nat n\<rparr>))"

text \<open>As \<open>ck_sum\<close>, but an odd last byte is added as the high byte of a word.\<close>

fun tcp_sum :: "u32 \<Rightarrow> bytes \<Rightarrow> u32" where
  "tcp_sum s (a # b # p) = tcp_sum (s + ucast (ld16 a b)) p"
| "tcp_sum s [a] = s + ucast (push_bit 8 (ucast a :: u16))"
| "tcp_sum s [] = s"

definition pseudo_header :: "u32 \<Rightarrow> u32 \<Rightarrow> nat \<Rightarrow> bytes" where
  "pseudo_header src_ip dst_ip seg_len =
     [ucast (drop_bit 24 src_ip), ucast (drop_bit 16 src_ip), ucast (drop_bit 8 src_ip), ucast src_ip,
      ucast (drop_bit 24 dst_ip), ucast (drop_bit 16 dst_ip), ucast (drop_bit 8 dst_ip), ucast dst_ip,
      0, IP_PROTO_TCP, of_nat (seg_len div 256), of_nat seg_len]"

definition tcp_checksum :: "u32 \<Rightarrow> u32 \<Rightarrow> bytes \<Rightarrow> u16" where
  "tcp_checksum src_ip dst_ip seg =
     NOT (ucast (ck_fold (tcp_sum (ck_sum 0 (pseudo_header src_ip dst_ip (length seg))) seg)))"

text \<open>A segment in front of its checksum field, and behind it.\<close>

definition tcp_front :: "u8 \<Rightarrow> tcb \<Rightarrow> bytes" where
  "tcp_front flags t =
     (let hdr_len = (if has_flag flags TCP_SYN then 24 else 20) in
      st16 (htons (s_lport t)) @ st16 (htons (s_rport t)) @ st32 (htonl (s_snd_seq t))
        @ st32 (if has_flag flags TCP_ACK then htonl (s_rcv_nxt t) else 0)
        @ [push_bit 4 (hdr_len div 4), flags] @ st16 (htons (ucast (TCP_RX_BUF - s_rx_len t))))"

definition tcp_back :: "u8 \<Rightarrow> bytes \<Rightarrow> bytes" where
  "tcp_back flags data =
     st16 0 @ (if has_flag flags TCP_SYN then [0x02, 0x04, of_nat (TCP_MSS div 256), of_nat TCP_MSS] else []) @ data"

definition tcp_segment :: "u8 \<Rightarrow> bytes \<Rightarrow> net \<Rightarrow> bytes" where
  "tcp_segment flags data s =
     (let front = tcp_front flags (net_tcb s); rest = tcp_back flags data
      in front @ st16 (tcp_checksum (net_ip s) (s_remote_ip (net_tcb s)) (front @ st16 0 @ rest)) @ rest)"

definition tcp_send_raw :: "u8 \<Rightarrow> bytes \<Rightarrow> net \<Rightarrow> bool \<times> net" where
  "tcp_send_raw flags data s = ip4_send (s_remote_ip (net_tcb s)) IP_PROTO_TCP (tcp_segment flags data s) s"

definition send_ack :: "net \<Rightarrow> net" where
  "send_ack s = snd (tcp_send_raw TCP_ACK [] s)"

text \<open>
  The branch of \<open>tcp_recv_ip\<close> for the three states in which data may arrive, in the order of
  its paragraphs: the acknowledgement, the data, the FIN (or else the acknowledgement of the
  data), and the transition when our own FIN is acknowledged. The comparison of \<open>seq + plen\<close>
  with \<open>s_rcv_nxt\<close> is one of 64-bit numbers in the code, since \<open>plen\<close> is a \<open>size_t\<close>: the
  sum does not wrap at $2^{32}$.
\<close>

definition tcp_take_ack :: "u8 \<Rightarrow> u32 \<Rightarrow> net \<Rightarrow> net" where
  "tcp_take_ack flags ack_seq s =
     (if has_flag flags TCP_ACK \<and> ack_seq > s_snd_una (net_tcb s)
      then upd_tcb (\<lambda>t. t\<lparr>s_snd_una := ack_seq\<rparr>) s else s)"

definition tcp_take_data :: "u32 \<Rightarrow> bytes \<Rightarrow> net \<Rightarrow> net" where
  "tcp_take_data sq payload s =
     (if 0 < length payload \<and> sq = s_rcv_nxt (net_tcb s)
      then let space = unat (TCP_RX_BUF - s_rx_len (net_tcb s));
               accept = (if length payload < space then length payload else space)
           in if 0 < accept
              then upd_tcb (\<lambda>t. (rx_push (take accept payload) t)\<lparr>s_rcv_nxt := s_rcv_nxt t + of_nat accept\<rparr>) s
              else s
      else s)"

definition tcp_take_fin :: "u8 \<Rightarrow> u32 \<Rightarrow> bytes \<Rightarrow> net \<Rightarrow> net" where
  "tcp_take_fin flags sq payload s =
     (if has_flag flags TCP_FIN \<and> unat sq + length payload = unat (s_rcv_nxt (net_tcb s))
      then let s' = send_ack (upd_tcb (\<lambda>t. t\<lparr>s_rcv_nxt := s_rcv_nxt t + 1, s_rx_fin := True\<rparr>) s)
           in if s_state (net_tcb s') = TCP_ESTABLISHED then upd_tcb (\<lambda>t. t\<lparr>s_state := TCP_CLOSE_WAIT\<rparr>) s'
              else if s_state (net_tcb s') = TCP_FIN_WAIT_2 then upd_tcb (\<lambda>t. t\<lparr>s_state := TCP_TIME_WAIT\<rparr>) s'
              else s'
      else if 0 < length payload then send_ack s
      else s)"

definition tcp_take_fin_ack :: "u8 \<Rightarrow> u32 \<Rightarrow> net \<Rightarrow> net" where
  "tcp_take_fin_ack flags ack_seq s =
     (if s_state (net_tcb s) = TCP_FIN_WAIT_1 \<and> has_flag flags TCP_ACK \<and> ack_seq = s_snd_seq (net_tcb s)
      then upd_tcb (\<lambda>t. t\<lparr>s_state := TCP_FIN_WAIT_2\<rparr>) s else s)"

definition tcp_recv_data :: "u8 \<Rightarrow> u32 \<Rightarrow> u32 \<Rightarrow> bytes \<Rightarrow> net \<Rightarrow> net" where
  "tcp_recv_data flags sq ack_seq payload s =
     tcp_take_fin_ack flags ack_seq (tcp_take_fin flags sq payload (tcp_take_data sq payload (tcp_take_ack flags ack_seq s)))"

definition tcp_recv_ip :: "u32 \<Rightarrow> bytes \<Rightarrow> net \<Rightarrow> net" where
  "tcp_recv_ip src_ip p s =
     (let t = net_tcb s in
      if s_state t = TCP_CLOSED \<or> s_state t = TCP_TIME_WAIT then s
      else if length p < TCP_HDR_LEN then s
      else if s_state t \<noteq> TCP_SYN_SENT \<and> src_ip \<noteq> s_remote_ip t then s
      else if ntohs (rd16 p 2) \<noteq> s_lport t then s
      else if s_rport t \<noteq> 0 \<and> ntohs (rd16 p 0) \<noteq> s_rport t then s
      else
        let flags = p ! 13;
            sq = ntohl (rd32 p 4);
            ack_seq = ntohl (rd32 p 8);
            data_off = unat (drop_bit 4 (p ! 12) * 4)
        in if data_off < TCP_HDR_LEN \<or> data_off > length p then s
           else if has_flag flags TCP_RST then upd_tcb (\<lambda>t. t\<lparr>s_state := TCP_CLOSED, s_rx_fin := True\<rparr>) s
           else
             (case s_state t of
                TCP_SYN_SENT \<Rightarrow>
                  (if flags AND (TCP_SYN OR TCP_ACK) \<noteq> TCP_SYN OR TCP_ACK then s
                   else if ack_seq \<noteq> s_snd_seq t then s
                   else send_ack (upd_tcb (\<lambda>t. t\<lparr>s_rcv_nxt := sq + 1, s_snd_una := ack_seq, s_state := TCP_ESTABLISHED\<rparr>) s))
              | TCP_ESTABLISHED \<Rightarrow> tcp_recv_data flags sq ack_seq (drop data_off p) s
              | TCP_FIN_WAIT_1 \<Rightarrow> tcp_recv_data flags sq ack_seq (drop data_off p) s
              | TCP_FIN_WAIT_2 \<Rightarrow> tcp_recv_data flags sq ack_seq (drop data_off p) s
              | TCP_LAST_ACK \<Rightarrow>
                  (if has_flag flags TCP_ACK \<and> ack_seq = s_snd_seq t
                   then upd_tcb (\<lambda>t. t\<lparr>s_state := TCP_CLOSED\<rparr>) s else s)
              | _ \<Rightarrow> s))"

definition tcp_is_connected :: "net \<Rightarrow> bool" where
  "tcp_is_connected s \<longleftrightarrow> s_state (net_tcb s) = TCP_ESTABLISHED"

section \<open>The receive ring\<close>

definition rx_ok :: "tcb \<Rightarrow> bool" where
  "rx_ok t \<longleftrightarrow> length (s_rx_data t) = 16384 \<and> unat (s_rx_tail t) < 16384 \<and> unat (s_rx_len t) \<le> 16384
     \<and> unat (s_rx_head t) = (unat (s_rx_tail t) + unat (s_rx_len t)) mod 16384"

definition rx_bytes :: "tcb \<Rightarrow> bytes" where
  "rx_bytes t = map (\<lambda>i. s_rx_data t ! ((unat (s_rx_tail t) + i) mod 16384)) [0..<unat (s_rx_len t)]"

lemma length_rx_bytes [simp]: "length (rx_bytes t) = unat (s_rx_len t)"
  by (simp add: rx_bytes_def)

lemma rx_succ: "unat i < 16384 \<Longrightarrow> unat ((i + 1) mod TCP_RX_BUF) = (unat i + 1) mod 16384"
  by (simp add: TCP_RX_BUF_def unat_mod unat_add_no_wrap)

lemma rx_push_byte_ok:
  assumes "rx_ok t" "unat (s_rx_len t) < 16384"
  shows "rx_ok (rx_push_byte b t)" "rx_bytes (rx_push_byte b t) = rx_bytes t @ [b]"
    "unat (s_rx_len (rx_push_byte b t)) = Suc (unat (s_rx_len t))"
proof -
  let ?h = "unat (s_rx_head t)" and ?l = "unat (s_rx_len t)" and ?tl = "unat (s_rx_tail t)"
  have h: "?h = (?tl + ?l) mod 16384" "?h < 16384" and len: "length (s_rx_data t) = 16384" and tl: "?tl < 16384"
    using assms(1) by (simp_all add: rx_ok_def)
  have l: "unat (s_rx_len t + 1) = Suc ?l" using assms(2) by (subst unat_add_no_wrap) simp_all
  show "unat (s_rx_len (rx_push_byte b t)) = Suc ?l" using l by (simp add: rx_push_byte_def)
  show "rx_ok (rx_push_byte b t)"
    using assms(2) h len tl l rx_succ [of "s_rx_head t"]
    by (simp add: rx_ok_def rx_push_byte_def mod_simps)
  have old: "(s_rx_data t)[?h := b] ! ((?tl + i) mod 16384) = s_rx_data t ! ((?tl + i) mod 16384)" if "i < ?l" for i
    using ring_slot_neq [OF that assms(2), of ?tl] h(1) by (intro nth_list_update_neq) simp
  have new: "(s_rx_data t)[?h := b] ! ((?tl + ?l) mod 16384) = b"
    using h len by simp
  show "rx_bytes (rx_push_byte b t) = rx_bytes t @ [b]"
    using old new l by (simp add: rx_bytes_def rx_push_byte_def)
qed

lemma rx_push_ok:
  assumes "rx_ok t" "unat (s_rx_len t) + length d \<le> 16384"
  shows "rx_ok (rx_push d t) \<and> rx_bytes (rx_push d t) = rx_bytes t @ d"
  using assms unfolding rx_push_def
proof (induction d arbitrary: t)
  case Nil
  then show ?case by simp
next
  case (Cons b d)
  then have "unat (s_rx_len t) < 16384" by simp
  from rx_push_byte_ok [OF Cons.prems(1) this, of b] Cons.IH [of "rx_push_byte b t"] Cons.prems
  show ?case by simp
qed

lemma rx_pop_loop_ok:
  assumes "length (s_rx_data t) = 16384" "unat (s_rx_tail t) < 16384"
  shows "fst (rx_pop_loop n t) = map (\<lambda>i. s_rx_data t ! ((unat (s_rx_tail t) + i) mod 16384)) [0..<n]
    \<and> (\<exists>tl. snd (rx_pop_loop n t) = t\<lparr>s_rx_tail := tl\<rparr> \<and> unat tl = (unat (s_rx_tail t) + n) mod 16384)"
  using assms
proof (induction n arbitrary: t)
  case 0
  then show ?case by (intro conjI exI [of _ "s_rx_tail t"]) simp_all
next
  case (Suc n)
  let ?t = "t\<lparr>s_rx_tail := (s_rx_tail t + 1) mod TCP_RX_BUF\<rparr>"
  have u: "unat (s_rx_tail ?t) = (unat (s_rx_tail t) + 1) mod 16384"
    using rx_succ [OF Suc.prems(2)] by simp
  have IH: "fst (rx_pop_loop n ?t) = map (\<lambda>i. s_rx_data t ! ((unat (s_rx_tail ?t) + i) mod 16384)) [0..<n]"
    "\<exists>tl. snd (rx_pop_loop n ?t) = ?t\<lparr>s_rx_tail := tl\<rparr> \<and> unat tl = (unat (s_rx_tail ?t) + n) mod 16384"
    using Suc.IH [of ?t] Suc.prems(1) u by simp_all
  have sh: "(unat (s_rx_tail ?t) + i) mod 16384 = (unat (s_rx_tail t) + Suc i) mod 16384" for i
    unfolding u by (simp add: mod_simps)
  have "map (\<lambda>i. s_rx_data t ! ((unat (s_rx_tail t) + i) mod 16384)) [0..<Suc n] =
      s_rx_data t ! unat (s_rx_tail t) # map (\<lambda>i. s_rx_data t ! ((unat (s_rx_tail t) + Suc i) mod 16384)) [0..<n]"
    using Suc.prems(2) by (simp add: upt_conv_Cons map_Suc_upt [symmetric] del: upt_Suc)
  then show ?case
    using IH sh by (auto simp: case_prod_beta Let_def)
qed

lemma rx_pop_ok:
  assumes "rx_ok t"
  shows "rx_ok (snd (rx_pop n t)) \<and> fst (rx_pop n t) = take n (rx_bytes t) \<and> rx_bytes (snd (rx_pop n t)) = drop n (rx_bytes t)"
proof -
  let ?l = "unat (s_rx_len t)"
  define k where "k = (if n < ?l then n else ?l)"
  have t: "length (s_rx_data t) = 16384" "unat (s_rx_tail t) < 16384" "?l \<le> 16384"
    "unat (s_rx_head t) = (unat (s_rx_tail t) + ?l) mod 16384" using assms by (simp_all add: rx_ok_def)
  have k: "k \<le> ?l" "k < 2 ^ 32" using t(3) by (auto simp: k_def)
  obtain tl where L: "fst (rx_pop_loop k t) = map (\<lambda>i. s_rx_data t ! ((unat (s_rx_tail t) + i) mod 16384)) [0..<k]"
    "snd (rx_pop_loop k t) = t\<lparr>s_rx_tail := tl\<rparr>" "unat tl = (unat (s_rx_tail t) + k) mod 16384"
    using rx_pop_loop_ok [OF t(1,2), of k] by blast
  have p: "rx_pop n t = (fst (rx_pop_loop k t), t\<lparr>s_rx_tail := tl, s_rx_len := s_rx_len t - of_nat k\<rparr>)"
    using L(2) by (simp add: rx_pop_def k_def [symmetric] Let_def case_prod_beta)
  have kw: "unat (of_nat k :: u32) = k" using k(2) by (simp add: unsigned_of_nat take_bit_nat_eq_self)
  have nl: "unat (s_rx_len t - of_nat k) = ?l - k"
    using k(1) kw by (subst unat_diff_le) (simp_all add: word_le_nat_alt)
  have "(unat tl + (?l - k)) mod 16384 = (unat (s_rx_tail t) + k + (?l - k)) mod 16384"
    unfolding L(3) by (rule mod_add_left_eq)
  also have "unat (s_rx_tail t) + k + (?l - k) = unat (s_rx_tail t) + ?l" using k(1) by simp
  finally have "rx_ok (snd (rx_pop n t))"
    unfolding p rx_ok_def using t(1,3,4) L(3) by (simp add: nl)
  moreover have "fst (rx_pop n t) = take n (rx_bytes t)"
    using L(1) k(1) by (simp add: p rx_bytes_def take_map k_def)
  moreover have "rx_bytes (snd (rx_pop n t)) = drop n (rx_bytes t)"
  proof (rule nth_equalityI)
    show "length (rx_bytes (snd (rx_pop n t))) = length (drop n (rx_bytes t))"
      by (simp add: p nl) (simp add: k_def)
    fix i
    assume "i < length (rx_bytes (snd (rx_pop n t)))"
    then have i: "i < ?l - k" by (simp add: p nl)
    then have kn: "n = k" and ki: "k + i < ?l" by (auto simp: k_def split: if_splits)
    show "rx_bytes (snd (rx_pop n t)) ! i = drop n (rx_bytes t) ! i"
      unfolding kn using i ki by (simp add: p [unfolded kn] rx_bytes_def nl L(3) mod_simps add.assoc)
  qed
  ultimately show ?thesis by simp
qed

interpretation rx: byte_stream rx_push rx_pop rx_bytes rx_ok 16384
  by unfold_locales (simp_all add: rx_push_ok rx_pop_ok)

section \<open>Sending leaves the connection state alone\<close>

lemma net_tcb_send_eth [simp]: "net_tcb (snd (net_send_eth mac ty p s)) = net_tcb s"
  by (simp add: net_send_eth_def net_nic_send_def)

lemma net_tcb_arp_send [simp]: "net_tcb (arp_send oper d t ip s) = net_tcb s"
  by (simp add: arp_send_def)

lemma net_tcb_arp_resolve [simp]: "net_tcb (snd (arp_resolve ip s)) = net_tcb s"
  by (simp add: arp_resolve_def Let_def split: option.splits)

lemma net_tcb_ip4_send [simp]: "net_tcb (snd (ip4_send dst proto p s)) = net_tcb s"
proof -
  have "net_tcb s1 = net_tcb s" if "arp_resolve ip s = (m, s1)" for ip m s1
    using net_tcb_arp_resolve [of ip s] that by simp
  then show ?thesis
    by (auto simp: ip4_send_def Let_def split: option.splits prod.splits)
qed

lemma net_tcb_send_ack [simp]: "net_tcb (send_ack s) = net_tcb s"
  by (simp add: send_ack_def tcp_send_raw_def)

lemma net_tcb_upd [simp]: "net_tcb (upd_tcb f s) = f (net_tcb s)"
  by (simp add: upd_tcb_def)

text \<open>The same branch as a function of the connection state alone.\<close>

definition tcb_accept :: "u32 \<Rightarrow> bytes \<Rightarrow> tcb \<Rightarrow> tcb" where
  "tcb_accept sq payload t =
     (let n = min (length payload) (unat (TCP_RX_BUF - s_rx_len t)) in
      if sq = s_rcv_nxt t then (rx_push (take n payload) t)\<lparr>s_rcv_nxt := s_rcv_nxt t + of_nat n\<rparr> else t)"

definition tcb_fin :: "u8 \<Rightarrow> u32 \<Rightarrow> bytes \<Rightarrow> tcb \<Rightarrow> tcb" where
  "tcb_fin flags sq payload t =
     (if has_flag flags TCP_FIN \<and> unat sq + length payload = unat (s_rcv_nxt t)
      then t\<lparr>s_rcv_nxt := s_rcv_nxt t + 1, s_rx_fin := True, s_state :=
        (if s_state t = TCP_ESTABLISHED then TCP_CLOSE_WAIT else if s_state t = TCP_FIN_WAIT_2 then TCP_TIME_WAIT else s_state t)\<rparr>
      else t)"

definition tcb_fin_acked :: "u8 \<Rightarrow> u32 \<Rightarrow> tcb \<Rightarrow> tcb" where
  "tcb_fin_acked flags ack_seq t =
     (if s_state t = TCP_FIN_WAIT_1 \<and> has_flag flags TCP_ACK \<and> ack_seq = s_snd_seq t then t\<lparr>s_state := TCP_FIN_WAIT_2\<rparr> else t)"

definition tcb_ack :: "u8 \<Rightarrow> u32 \<Rightarrow> tcb \<Rightarrow> tcb" where
  "tcb_ack flags ack_seq t = (if has_flag flags TCP_ACK \<and> ack_seq > s_snd_una t then t\<lparr>s_snd_una := ack_seq\<rparr> else t)"

lemma rx_push_frame [simp]: "s_state (rx_push d t) = s_state t" "s_rcv_nxt (rx_push d t) = s_rcv_nxt t"
    "s_snd_seq (rx_push d t) = s_snd_seq t" "s_snd_una (rx_push d t) = s_snd_una t"
proof -
  have "s_state (fold rx_push_byte d t) = s_state t \<and> s_rcv_nxt (fold rx_push_byte d t) = s_rcv_nxt t
      \<and> s_snd_seq (fold rx_push_byte d t) = s_snd_seq t \<and> s_snd_una (fold rx_push_byte d t) = s_snd_una t"
    by (induction d arbitrary: t) (simp_all add: rx_push_byte_def)
  then show "s_state (rx_push d t) = s_state t" "s_rcv_nxt (rx_push d t) = s_rcv_nxt t"
    "s_snd_seq (rx_push d t) = s_snd_seq t" "s_snd_una (rx_push d t) = s_snd_una t"
    by (simp_all add: rx_push_def)
qed

lemma rx_push_Nil [simp]: "rx_push [] t = t"
  by (simp add: rx_push_def)

lemma tcp_take_tcb:
  "net_tcb (tcp_take_ack flags ack_seq s) = tcb_ack flags ack_seq (net_tcb s)"
  "net_tcb (tcp_take_data sq payload s) = tcb_accept sq payload (net_tcb s)"
  "net_tcb (tcp_take_fin flags sq payload s) = tcb_fin flags sq payload (net_tcb s)"
  "net_tcb (tcp_take_fin_ack flags ack_seq s) = tcb_fin_acked flags ack_seq (net_tcb s)"
proof -
  show "net_tcb (tcp_take_ack flags ack_seq s) = tcb_ack flags ack_seq (net_tcb s)"
    by (simp add: tcp_take_ack_def tcb_ack_def)
  show "net_tcb (tcp_take_data sq payload s) = tcb_accept sq payload (net_tcb s)"
    by (auto simp: tcp_take_data_def tcb_accept_def Let_def min_def)
  show "net_tcb (tcp_take_fin flags sq payload s) = tcb_fin flags sq payload (net_tcb s)"
    by (simp add: tcp_take_fin_def tcb_fin_def Let_def)
  show "net_tcb (tcp_take_fin_ack flags ack_seq s) = tcb_fin_acked flags ack_seq (net_tcb s)"
    by (simp add: tcp_take_fin_ack_def tcb_fin_acked_def)
qed

lemma tcp_recv_data_tcb:
  "net_tcb (tcp_recv_data flags sq ack_seq payload s) =
     tcb_fin_acked flags ack_seq (tcb_fin flags sq payload (tcb_accept sq payload (tcb_ack flags ack_seq (net_tcb s))))"
  by (simp add: tcp_recv_data_def tcp_take_tcb)

section \<open>What the reader gets is a prefix of what the peer sent\<close>

text \<open>
  The peer's bytes, the first of which has sequence number \<open>base\<close>. A segment is genuine when
  its data is a piece of that stream at the place its sequence number says, and a FIN comes
  only with the end of the stream.
\<close>

definition genuine :: "bytes \<Rightarrow> u32 \<Rightarrow> bytes \<Rightarrow> bool" where
  "genuine stream base p \<longleftrightarrow>
     (let payload = drop (unat (drop_bit 4 (p ! 12) * 4)) p; sq = ntohl (rd32 p 4) in
      \<exists>k. sq = base + of_nat k \<and> k + length payload \<le> length stream
        \<and> payload = take (length payload) (drop k stream)
        \<and> (has_flag (p ! 13) TCP_FIN \<longrightarrow> k + length payload = length stream))"

definition got_prefix :: "bytes \<Rightarrow> u32 \<Rightarrow> bytes \<Rightarrow> tcb \<Rightarrow> bool" where
  "got_prefix stream base out t \<longleftrightarrow> rx_ok t \<and> s_state t \<noteq> TCP_SYN_SENT
     \<and> (\<exists>n f. n \<le> length stream \<and> out @ rx_bytes t = take n stream
          \<and> s_rcv_nxt t = base + of_nat (n + (if f then 1 else 0)) \<and> (f \<longrightarrow> n = length stream))"

lemma of_nat_u32_inj: "of_nat a = (of_nat b :: u32) \<Longrightarrow> a < 2 ^ 32 \<Longrightarrow> b < 2 ^ 32 \<Longrightarrow> a = b"
  by (drule arg_cong [of _ _ unat]) (simp add: unsigned_of_nat take_bit_nat_eq_self)

lemma rx_frame:
  "rx_ok (t\<lparr>s_rcv_nxt := a, s_rx_fin := b, s_state := c\<rparr>) = rx_ok t"
  "rx_bytes (t\<lparr>s_rcv_nxt := a, s_rx_fin := b, s_state := c\<rparr>) = rx_bytes t"
  "rx_ok (t\<lparr>s_state := c\<rparr>) = rx_ok t" "rx_bytes (t\<lparr>s_state := c\<rparr>) = rx_bytes t"
  "rx_ok (t\<lparr>s_snd_una := a\<rparr>) = rx_ok t" "rx_bytes (t\<lparr>s_snd_una := a\<rparr>) = rx_bytes t"
  "rx_ok (t\<lparr>s_rcv_nxt := a\<rparr>) = rx_ok t" "rx_bytes (t\<lparr>s_rcv_nxt := a\<rparr>) = rx_bytes t"
  "rx_ok (t\<lparr>s_rcv_nxt := a, s_rx_fin := b\<rparr>) = rx_ok t" "rx_bytes (t\<lparr>s_rcv_nxt := a, s_rx_fin := b\<rparr>) = rx_bytes t"
  "rx_ok (t\<lparr>s_state := c, s_rx_fin := b\<rparr>) = rx_ok t" "rx_bytes (t\<lparr>s_state := c, s_rx_fin := b\<rparr>) = rx_bytes t"
  by (simp_all add: rx_ok_def rx_bytes_def)

lemma got_prefix_accept:
  assumes "got_prefix stream base out t" "length stream < 2 ^ 32 - 1" "sq = base + of_nat k"
    "k + length payload \<le> length stream" "payload = take (length payload) (drop k stream)"
  shows "got_prefix stream base out (tcb_accept sq payload t)"
proof (cases "sq = s_rcv_nxt t \<and> payload \<noteq> []")
  case False
  then have "tcb_accept sq payload t = t" by (auto simp: tcb_accept_def)
  with assms(1) show ?thesis by simp
next
  case True
  obtain n f where n: "rx_ok t" "s_state t \<noteq> TCP_SYN_SENT" "n \<le> length stream" "out @ rx_bytes t = take n stream"
    "s_rcv_nxt t = base + of_nat (n + (if f then 1 else 0))" "f \<longrightarrow> n = length stream"
    using assms(1) by (auto simp: got_prefix_def)
  have "of_nat k = (of_nat (n + (if f then 1 else 0)) :: u32)"
    using True assms(3) n(5) by simp
  then have k: "k = n + (if f then 1 else 0)"
    using assms(2,4) n(3) by (intro of_nat_u32_inj) auto
  have "0 < length payload" using True by simp
  then have nf: "\<not> f" using k n(6) assms(4) by auto
  define m where "m = min (length payload) (unat (TCP_RX_BUF - s_rx_len t))"
  have l: "unat (s_rx_len t) \<le> 16384" using n(1) by (simp add: rx_ok_def)
  have sp: "unat (TCP_RX_BUF - s_rx_len t) = 16384 - unat (s_rx_len t)"
    using l by (subst unat_diff_le) (simp_all add: TCP_RX_BUF_def word_le_nat_alt)
  have room: "length (rx_bytes t) + length (take m payload) \<le> 16384"
    using l sp by (simp add: m_def)
  note R = rx.push_contents [OF n(1) room]
  have m: "m \<le> length payload" by (simp add: m_def)
  have "take m payload = take m (take (length payload) (drop k stream))"
    using assms(5) by (rule arg_cong [of _ _ "take m"])
  also have "\<dots> = take m (drop n stream)" using m k nf by (simp add: min_absorb1)
  finally have "take m payload = take m (drop n stream)" .
  then have bytes: "out @ rx_bytes (rx_push (take m payload) t) = take (n + m) stream"
    using R n(4) by (simp add: take_add flip: append_assoc)
  have t': "tcb_accept sq payload t = (rx_push (take m payload) t)\<lparr>s_rcv_nxt := s_rcv_nxt t + of_nat m\<rparr>"
    using True by (simp add: tcb_accept_def m_def Let_def)
  show ?thesis
    unfolding got_prefix_def
  proof (intro conjI exI [of _ "n + m"] exI [of _ False])
    show "n + m \<le> length stream" using m k nf assms(4) by simp
  qed (use R bytes n(2,5) nf in \<open>simp_all add: t' rx_frame\<close>)
qed

lemma got_prefix_fin:
  assumes "got_prefix stream base out t" "length stream < 2 ^ 32 - 1" "sq = base + of_nat k"
    "k + length payload \<le> length stream" "has_flag flags TCP_FIN \<longrightarrow> k + length payload = length stream"
  shows "got_prefix stream base out (tcb_fin flags sq payload t)"
proof (cases "has_flag flags TCP_FIN \<and> unat sq + length payload = unat (s_rcv_nxt t)")
  case False
  then have "tcb_fin flags sq payload t = t" unfolding tcb_fin_def by (rule if_not_P)
  with assms(1) show ?thesis by simp
next
  case True
  obtain n f where n: "rx_ok t" "s_state t \<noteq> TCP_SYN_SENT" "n \<le> length stream" "out @ rx_bytes t = take n stream"
    "s_rcv_nxt t = base + of_nat (n + (if f then 1 else 0))" "f \<longrightarrow> n = length stream"
    using assms(1) by (auto simp: got_prefix_def)
  have "of_nat (unat sq + length payload) = (of_nat (unat (s_rcv_nxt t)) :: u32)" using True by simp
  then have "sq + of_nat (length payload) = s_rcv_nxt t" by simp
  then have "of_nat (k + length payload) = (of_nat (n + (if f then 1 else 0)) :: u32)"
    using assms(3) n(5) by (simp add: algebra_simps)
  then have "k + length payload = n + (if f then 1 else 0)"
    using assms(2,4) n(3) by (intro of_nat_u32_inj) auto
  then have nf: "\<not> f" "n = length stream" using True assms(5) n(6) by (auto split: if_splits)
  show ?thesis
    unfolding got_prefix_def
    by (intro conjI exI [of _ n] exI [of _ True])
      (use True n nf in \<open>simp_all add: tcb_fin_def rx_frame\<close>)
qed

lemma got_prefix_state:
  assumes "got_prefix stream base out t" "s_rcv_nxt t' = s_rcv_nxt t" "rx_ok t' = rx_ok t" "rx_bytes t' = rx_bytes t"
    "s_state t' \<noteq> TCP_SYN_SENT"
  shows "got_prefix stream base out t'"
  using assms by (auto simp: got_prefix_def)

lemma got_prefix_ack: "got_prefix stream base out t \<Longrightarrow> got_prefix stream base out (tcb_ack flags a t)"
  by (auto simp: tcb_ack_def rx_frame got_prefix_def)

lemma got_prefix_fin_acked: "got_prefix stream base out t \<Longrightarrow> got_prefix stream base out (tcb_fin_acked flags a t)"
  by (auto simp: tcb_fin_acked_def rx_frame elim: got_prefix_state)

lemma got_prefix_recv:
  assumes "got_prefix stream base out (net_tcb s)" "length stream < 2 ^ 32 - 1" "genuine stream base p"
  shows "got_prefix stream base out (net_tcb (tcp_recv_ip ip p s))"
proof -
  define payload where "payload = drop (unat (drop_bit 4 (p ! 12) * 4)) p"
  define sq where "sq = ntohl (rd32 p 4)"
  obtain k where k: "sq = base + of_nat k" "k + length payload \<le> length stream"
    "payload = take (length payload) (drop k stream)"
    "has_flag (p ! 13) TCP_FIN \<longrightarrow> k + length payload = length stream"
    using assms(3) unfolding genuine_def Let_def payload_def [symmetric] sq_def [symmetric] by blast
  have data: "got_prefix stream base out (net_tcb (tcp_recv_data (p ! 13) sq a payload s))" for a
    unfolding tcp_recv_data_tcb
    by (intro got_prefix_fin_acked got_prefix_fin [OF _ assms(2) k(1,2,4)]
        got_prefix_accept [OF _ assms(2) k(1-3)] got_prefix_ack assms(1))
  have live: "s_state (net_tcb s) \<noteq> TCP_SYN_SENT" using assms(1) by (simp add: got_prefix_def)
  have closed: "got_prefix stream base out (net_tcb (upd_tcb (\<lambda>t. t\<lparr>s_state := TCP_CLOSED, s_rx_fin := True\<rparr>) s))"
    "got_prefix stream base out (net_tcb (upd_tcb (\<lambda>t. t\<lparr>s_state := TCP_CLOSED\<rparr>) s))"
    using assms(1) by (rule got_prefix_state; simp add: rx_frame)+
  show ?thesis
    unfolding tcp_recv_ip_def Let_def payload_def [symmetric] sq_def [symmetric]
    using data closed live assms(1) by (cases "s_state (net_tcb s)") simp_all
qed

lemma got_prefix_read:
  assumes "got_prefix stream base out t"
  shows "got_prefix stream base (out @ fst (rx_pop n t)) (snd (rx_pop n t))"
proof -
  have "rx_ok t" using assms by (simp add: got_prefix_def)
  note R = rx.pop_contents [OF this, of n] rx.pop_split [OF this, of n]
  have "s_rcv_nxt (snd (rx_pop_loop m u)) = s_rcv_nxt u \<and> s_state (snd (rx_pop_loop m u)) = s_state u" for m u
    by (induction m arbitrary: u) (simp_all add: Let_def case_prod_beta)
  then have "s_rcv_nxt (snd (rx_pop n t)) = s_rcv_nxt t" "s_state (snd (rx_pop n t)) = s_state t"
    by (simp_all add: rx_pop_def Let_def case_prod_beta)
  then show ?thesis using assms R by (auto simp: got_prefix_def)
qed

text \<open>
  A connection in use: it starts with the handshake's last step, and then segments of the peer
  arrive in any order and number, the program reads, and anything else happens that leaves the
  receive side alone (writes, retransmissions, a close).
\<close>

inductive tcp_run :: "bytes \<Rightarrow> u32 \<Rightarrow> bytes \<Rightarrow> net \<Rightarrow> bool" for stream :: bytes and base :: u32 where
  run_open: "s_state (net_tcb s) = TCP_SYN_SENT \<Longrightarrow> rx_ok (net_tcb s) \<Longrightarrow> s_rx_len (net_tcb s) = 0 \<Longrightarrow>
     s' = tcp_recv_ip ip p s \<Longrightarrow> s_state (net_tcb s') = TCP_ESTABLISHED \<Longrightarrow> base = ntohl (rd32 p 4) + 1 \<Longrightarrow>
     tcp_run stream base [] s'"
| run_segment: "tcp_run stream base out s \<Longrightarrow> genuine stream base p \<Longrightarrow>
     tcp_run stream base out (tcp_recv_ip ip p s)"
| run_read: "tcp_run stream base out s \<Longrightarrow> rx_pop n (net_tcb s) = (d, t) \<Longrightarrow>
     tcp_run stream base (out @ d) (s\<lparr>net_tcb := t\<rparr>)"
| run_other: "tcp_run stream base out s \<Longrightarrow> s_rcv_nxt (net_tcb s') = s_rcv_nxt (net_tcb s) \<Longrightarrow>
     s_rx_data (net_tcb s') = s_rx_data (net_tcb s) \<Longrightarrow> s_rx_head (net_tcb s') = s_rx_head (net_tcb s) \<Longrightarrow>
     s_rx_tail (net_tcb s') = s_rx_tail (net_tcb s) \<Longrightarrow> s_rx_len (net_tcb s') = s_rx_len (net_tcb s) \<Longrightarrow>
     s_state (net_tcb s') \<noteq> TCP_SYN_SENT \<Longrightarrow> tcp_run stream base out s'"

lemma if_in: "x \<in> S \<Longrightarrow> y \<in> S \<Longrightarrow> (if b then x else y) \<in> S"
  by simp

lemma tcp_recv_syn_ack:
  assumes "s_state (net_tcb s) = TCP_SYN_SENT" "s_state (net_tcb (tcp_recv_ip ip p s)) = TCP_ESTABLISHED"
  shows "net_tcb (tcp_recv_ip ip p s) = (net_tcb s)\<lparr>s_rcv_nxt := ntohl (rd32 p 4) + 1,
    s_snd_una := ntohl (rd32 p 8), s_state := TCP_ESTABLISHED\<rparr>"
proof -
  let ?f = "\<lambda>t. t\<lparr>s_rcv_nxt := ntohl (rd32 p 4) + 1, s_snd_una := ntohl (rd32 p 8), s_state := TCP_ESTABLISHED\<rparr>"
  let ?S = "{s, upd_tcb (\<lambda>t. t\<lparr>s_state := TCP_CLOSED, s_rx_fin := True\<rparr>) s, send_ack (upd_tcb ?f s)}"
  have "tcp_recv_ip ip p s \<in> ?S"
    unfolding tcp_recv_ip_def Let_def assms(1) tcp_state.case by (intro if_in) blast+
  then consider "tcp_recv_ip ip p s = s" | "tcp_recv_ip ip p s = upd_tcb (\<lambda>t. t\<lparr>s_state := TCP_CLOSED, s_rx_fin := True\<rparr>) s"
    | "tcp_recv_ip ip p s = send_ack (upd_tcb ?f s)" by blast
  then show ?thesis using assms by cases simp_all
qed

lemma tcp_run_prefix:
  assumes "tcp_run stream base out s" "length stream < 2 ^ 32 - 1"
  shows "got_prefix stream base out (net_tcb s)"
  using assms(1)
proof induction
  case (run_open s s' ip p)
  have t: "net_tcb s' = (net_tcb s)\<lparr>s_rcv_nxt := base, s_snd_una := ntohl (rd32 p 8), s_state := TCP_ESTABLISHED\<rparr>"
    using tcp_recv_syn_ack [OF run_open(1), of ip p] run_open(5) unfolding run_open(4,6) by blast
  show ?case
    unfolding got_prefix_def
    by (intro conjI exI [of _ 0] exI [of _ False]) (use run_open(2,3) in \<open>simp_all add: t rx_ok_def rx_bytes_def\<close>)
next
  case (run_segment out s p ip)
  then show ?case using got_prefix_recv [OF _ assms(2)] by blast
next
  case (run_read out s n d t)
  then show ?case using got_prefix_read [of stream base out "net_tcb s" n] by simp
next
  case (run_other out s s')
  have "rx_ok (net_tcb s') = rx_ok (net_tcb s)" "rx_bytes (net_tcb s') = rx_bytes (net_tcb s)"
    unfolding rx_ok_def rx_bytes_def run_other(3-6) by (rule refl)+
  with run_other(2,7,8) show ?case using got_prefix_state by blast
qed

text \<open>
  Claim C28. Whatever arrives of a peer's byte stream after the handshake, with segments lost,
  repeated, reordered, overlapping a full buffer or cut, the bytes the program has read so far,
  followed by those still buffered, are a prefix of the stream: nothing is skipped, duplicated
  or reordered, and the end of the stream is only reported (the FIN counted) once every byte
  of it has been taken in.
\<close>

theorem tcp_delivers_prefix:
  assumes "tcp_run stream base out s" "length stream < 2 ^ 32 - 1"
  shows "prefix (out @ rx_bytes (net_tcb s)) stream
    \<and> (s_rcv_nxt (net_tcb s) = base + of_nat (length stream) + 1 \<longrightarrow> out @ rx_bytes (net_tcb s) = stream)"
proof -
  obtain n f where n: "n \<le> length stream" "out @ rx_bytes (net_tcb s) = take n stream"
    "s_rcv_nxt (net_tcb s) = base + of_nat (n + (if f then 1 else 0))" "f \<longrightarrow> n = length stream"
    using tcp_run_prefix [OF assms] by (auto simp: got_prefix_def)
  have "n = length stream" if "s_rcv_nxt (net_tcb s) = base + of_nat (length stream) + 1"
  proof -
    have "of_nat (n + (if f then 1 else 0)) = (of_nat (length stream + 1) :: u32)" using that n(3) by (simp add: add.assoc)
    then have "n + (if f then 1 else 0) = length stream + 1"
      using assms(2) n(1) by (intro of_nat_u32_inj) auto
    then show ?thesis using n(1,4) by (auto split: if_splits)
  qed
  then show ?thesis unfolding n(2) using take_is_prefix take_all by blast
qed

text \<open>A connection to port 80 of a neighbour whose SYN was sent, and two answers of the peer.\<close>

definition demo_conn :: net where
  "demo_conn = demo_net\<lparr>net_tcb := no_tcb\<lparr>s_state := TCP_SYN_SENT, s_remote_ip := 0x0A000002, s_lport := 0xC000,
     s_rport := 80, s_snd_seq := 101\<rparr>\<rparr>"

definition demo_syn_ack :: bytes where
  "demo_syn_ack = [0, 80, 0xC0, 0, 0, 0, 0, 9, 0, 0, 0, 101, 0x50, 0x12, 0, 0, 0, 0, 0, 0]"

definition demo_data :: bytes where
  "demo_data = [0, 80, 0xC0, 0, 0, 0, 0, 10, 0, 0, 0, 101, 0x50, 0x18, 0, 0, 0, 0, 0, 0, 7, 8, 9]"

lemma demo_syn_ack_fields:
  "length demo_syn_ack = 20" "ntohs (rd16 demo_syn_ack 2) = 0xC000" "ntohs (rd16 demo_syn_ack 0) = 80"
  "ntohl (rd32 demo_syn_ack 4) = 9" "ntohl (rd32 demo_syn_ack 8) = 101" "demo_syn_ack ! 13 = 0x12" "demo_syn_ack ! 12 = 0x50"
  by (simp_all add: demo_syn_ack_def ntohs_def htons_def ntohl_def htonl_def rd16_def rd32_def ld16_def ld32_def)

lemma demo_data_fields:
  "length demo_data = 23" "ntohs (rd16 demo_data 2) = 0xC000" "ntohs (rd16 demo_data 0) = 80"
  "ntohl (rd32 demo_data 4) = 10" "ntohl (rd32 demo_data 8) = 101" "demo_data ! 13 = 0x18" "demo_data ! 12 = 0x50"
  "drop 20 demo_data = [7, 8, 9]"
  by (simp_all add: demo_data_def ntohs_def htons_def ntohl_def htonl_def rd16_def rd32_def ld16_def ld32_def)

lemmas tcp_flag_defs = TCP_FIN_def TCP_SYN_def TCP_RST_def TCP_PSH_def TCP_ACK_def has_flag_def

lemma demo_established:
  "net_tcb (tcp_recv_ip 0x0A000002 demo_syn_ack demo_conn) = no_tcb\<lparr>s_state := TCP_ESTABLISHED, s_remote_ip := 0x0A000002,
     s_lport := 0xC000, s_rport := 80, s_snd_seq := 101, s_snd_una := 101, s_rcv_nxt := 10\<rparr>"
  by (simp add: tcp_recv_ip_def demo_conn_def demo_net_def no_tcb_def demo_syn_ack_fields tcp_flag_defs TCP_HDR_LEN_def)

theorem tcp_delivers_prefix_witness:
  "prefix (rx_bytes (net_tcb (tcp_recv_ip 0x0A000002 demo_data (tcp_recv_ip 0x0A000002 demo_syn_ack demo_conn)))) [7, 8, 9]"
proof -
  let ?s = "tcp_recv_ip 0x0A000002 demo_syn_ack demo_conn"
  have "tcp_run [7, 8, 9] 10 [] ?s"
    by (rule run_open [where s = demo_conn and ip = "0x0A000002" and p = demo_syn_ack])
      (simp_all add: demo_established, simp_all add: demo_conn_def no_tcb_def rx_ok_def demo_syn_ack_fields)
  then have "tcp_run [7, 8, 9] 10 [] (tcp_recv_ip 0x0A000002 demo_data ?s)"
    by (rule run_segment) (simp add: genuine_def demo_data_fields tcp_flag_defs exI [of _ 0])
  from tcp_delivers_prefix [OF this] show ?thesis by simp
qed

section \<open>The end of the stream\<close>

lemma tcb_accept_all:
  assumes "rx_ok t" "sq = s_rcv_nxt t" "unat (s_rx_len t) + length payload \<le> 16384"
  shows "tcb_accept sq payload t = (rx_push payload t)\<lparr>s_rcv_nxt := sq + of_nat (length payload)\<rparr>"
proof -
  have "unat (TCP_RX_BUF - s_rx_len t) = 16384 - unat (s_rx_len t)"
    using assms(3) by (subst unat_diff_le) (simp_all add: TCP_RX_BUF_def word_le_nat_alt)
  then have "min (length payload) (unat (TCP_RX_BUF - s_rx_len t)) = length payload" using assms(3) by simp
  then show ?thesis using assms(2) by (simp add: tcb_accept_def Let_def)
qed

lemma seq_wrap: "unat sq + n = unat (sq + of_nat n) \<longleftrightarrow> unat sq + n < 2 ^ 32" for sq :: u32
proof
  assume "unat sq + n = unat (sq + of_nat n)"
  then show "unat sq + n < 2 ^ 32" using unat_u32_less [of "sq + of_nat n"] by simp
next
  assume "unat sq + n < 2 ^ 32"
  then show "unat sq + n = unat (sq + of_nat n)"
    by (simp add: unat_add_no_wrap unsigned_of_nat take_bit_nat_eq_self)
qed

lemma rx_push_fin [simp]: "s_rx_fin (rx_push d t) = s_rx_fin t"
proof -
  have "s_rx_fin (fold rx_push_byte d t) = s_rx_fin t"
    by (induction d arbitrary: t) (simp_all add: rx_push_byte_def)
  then show ?thesis by (simp add: rx_push_def)
qed

text \<open>
  An in-order segment with FIN whose data fits the buffer puts the data in the
  buffer, and moves an established connection to CLOSE-WAIT with the end of the stream
  recorded, exactly when the 32-bit sequence number does not wrap within the segment; a FIN
  at the wrap is not seen at all.
\<close>

theorem tcp_fin_closes:
  assumes "rx_ok (net_tcb s)" "s_state (net_tcb s) = TCP_ESTABLISHED" "\<not> s_rx_fin (net_tcb s)"
    and "has_flag flags TCP_FIN" "sq = s_rcv_nxt (net_tcb s)"
    and "unat (s_rx_len (net_tcb s)) + length payload \<le> 16384"
  shows "let t = net_tcb (tcp_recv_data flags sq ack_seq payload s); seen = (unat sq + length payload < 2 ^ 32) in
    rx_bytes t = rx_bytes (net_tcb s) @ payload
    \<and> s_state t = (if seen then TCP_CLOSE_WAIT else TCP_ESTABLISHED) \<and> (s_rx_fin t \<longleftrightarrow> seen)
    \<and> s_rcv_nxt t = sq + of_nat (length payload) + (if seen then 1 else 0)"
proof -
  define t0 where "t0 = tcb_ack flags ack_seq (net_tcb s)"
  have t0: "rx_ok t0" "s_state t0 = TCP_ESTABLISHED" "\<not> s_rx_fin t0" "sq = s_rcv_nxt t0" "s_rx_len t0 = s_rx_len (net_tcb s)"
    "rx_bytes t0 = rx_bytes (net_tcb s)"
    using assms(1-3,5) by (simp_all add: t0_def tcb_ack_def rx_frame)
  have pushed: "rx_bytes (rx_push payload t0) = rx_bytes t0 @ payload"
    using rx.push_contents [OF t0(1), of payload] assms(6) t0(5) by simp
  have acc: "tcb_accept sq payload t0 = (rx_push payload t0)\<lparr>s_rcv_nxt := sq + of_nat (length payload)\<rparr>"
    using tcb_accept_all [OF t0(1,4)] assms(6) t0(5) by simp
  show ?thesis
    unfolding tcp_recv_data_tcb Let_def t0_def [symmetric] acc
    using t0(2,3) pushed assms(4) seq_wrap [of sq "length payload"]
    by (simp add: tcb_fin_def tcb_fin_acked_def rx_frame t0(6))
qed

theorem tcp_fin_closes_witness:
  "s_state (net_tcb (tcp_recv_data TCP_FIN 10 0 [1] (tcp_recv_ip 0x0A000002 demo_syn_ack demo_conn))) = TCP_CLOSE_WAIT"
proof -
  have "rx_ok (net_tcb (tcp_recv_ip 0x0A000002 demo_syn_ack demo_conn))"
    by (simp add: demo_established rx_ok_def no_tcb_def)
  moreover have "s_state (net_tcb (tcp_recv_ip 0x0A000002 demo_syn_ack demo_conn)) = TCP_ESTABLISHED"
    "\<not> s_rx_fin (net_tcb (tcp_recv_ip 0x0A000002 demo_syn_ack demo_conn))"
    "10 = s_rcv_nxt (net_tcb (tcp_recv_ip 0x0A000002 demo_syn_ack demo_conn))"
    "unat (s_rx_len (net_tcb (tcp_recv_ip 0x0A000002 demo_syn_ack demo_conn))) + length [1 :: u8] \<le> 16384"
    by (simp_all add: demo_established no_tcb_def)
  moreover have "has_flag TCP_FIN TCP_FIN" by (simp add: tcp_flag_defs)
  ultimately have "s_state (net_tcb (tcp_recv_data TCP_FIN 10 0 [1] (tcp_recv_ip 0x0A000002 demo_syn_ack demo_conn))) =
      (if unat (10 :: u32) + length [1 :: u8] < 2 ^ 32 then TCP_CLOSE_WAIT else TCP_ESTABLISHED)"
    using tcp_fin_closes [unfolded Let_def] by blast
  then show ?thesis by simp
qed

text \<open>
  The peer answers our FIN with a segment that both acknowledges it and carries its
  own FIN. The connection records the end of the stream but moves to FIN-WAIT-2, where it waits
  for a FIN that has already arrived: a repetition of the same segment changes nothing, so
  TIME-WAIT is not reached and \<open>tcp_close\<close> runs into its five-second limit.
\<close>

theorem tcp_fin_ack_waits_again:
  assumes "s_state (net_tcb s) = TCP_FIN_WAIT_1" "has_flag flags TCP_FIN" "has_flag flags TCP_ACK"
    and "sq = s_rcv_nxt (net_tcb s)" "ack_seq = s_snd_seq (net_tcb s)"
  shows "let s1 = tcp_recv_data flags sq ack_seq [] s in
    s_state (net_tcb s1) = TCP_FIN_WAIT_2 \<and> s_rx_fin (net_tcb s1)
    \<and> s_state (net_tcb (tcp_recv_data flags sq ack_seq [] s1)) = TCP_FIN_WAIT_2"
proof -
  define t1 where "t1 = net_tcb (tcp_recv_data flags sq ack_seq [] s)"
  have t1: "s_state t1 = TCP_FIN_WAIT_2" "s_rx_fin t1" "s_rcv_nxt t1 = sq + 1"
    using assms by (simp_all add: t1_def tcp_recv_data_tcb tcb_fin_acked_def tcb_fin_def tcb_accept_def tcb_ack_def Let_def)
  have "unat sq \<noteq> unat (sq + 1)" by (simp flip: word_unat_eq_iff)
  then have "s_state (net_tcb (tcp_recv_data flags sq ack_seq [] (tcp_recv_data flags sq ack_seq [] s))) = TCP_FIN_WAIT_2"
    using t1 unfolding tcp_recv_data_tcb [of flags sq ack_seq "[]" "tcp_recv_data flags sq ack_seq [] s"] t1_def [symmetric]
    by (simp add: tcb_fin_acked_def tcb_fin_def tcb_accept_def tcb_ack_def Let_def)
  with t1 show ?thesis by (simp add: t1_def)
qed

theorem tcp_fin_ack_waits_again_witness:
  "s_state (net_tcb (tcp_recv_data 0x11 0 0 [] (upd_tcb (\<lambda>t. t\<lparr>s_state := TCP_FIN_WAIT_1\<rparr>) demo_net))) = TCP_FIN_WAIT_2"
  using tcp_fin_ack_waits_again [of "upd_tcb (\<lambda>t. t\<lparr>s_state := TCP_FIN_WAIT_1\<rparr>) demo_net" "0x11" 0 0]
  by (simp add: Let_def tcp_flag_defs demo_net_def no_tcb_def)

section \<open>The checksum of a segment\<close>

definition odd_extra :: "bytes \<Rightarrow> nat" where
  "odd_extra p = (if odd (length p) then 255 * unat (last p) else 0)"

lemma odd_extra_step: "odd_extra (a # b # p) = odd_extra p"
  by (cases "p = []") (simp_all add: odd_extra_def)

lemma odd_extra_even: "even (length xs) \<Longrightarrow> ys \<noteq> [] \<Longrightarrow> odd_extra (xs @ ys) = odd_extra ys"
  by (simp add: odd_extra_def)

lemma unat_high_byte: "unat (ucast (push_bit 8 (ucast a :: u16)) :: u32) = 256 * unat a" for a :: u8
proof -
  have "push_bit 8 (ucast a :: u16) = ld16 0 a" by (simp add: ld16_def)
  then show ?thesis by (simp only: unat_ucast_u32 unat_ld16) simp
qed

lemma unat_tcp_sum: "unat s + nsum p + odd_extra p < 2 ^ 32 \<Longrightarrow> unat (tcp_sum s p) = unat s + nsum p + odd_extra p"
proof (induction s p rule: tcp_sum.induct)
  case (1 s a b p)
  have "unat (s + ucast (ld16 a b)) = unat s + (unat a + 256 * unat b)"
    using 1(2) by (subst unat_add_no_wrap) (simp_all add: unat_ucast_u32 unat_ld16 odd_extra_step)
  with 1 show ?case by (simp add: odd_extra_step)
next
  case (2 s a)
  then have "unat s + 256 * unat a < 2 ^ 32" by (simp add: odd_extra_def)
  then show ?case by (simp add: unat_add_no_wrap unat_high_byte odd_extra_def)
qed (simp add: odd_extra_def)

lemma odd_extra_mod: "odd_extra p mod 65535 = 0 \<longleftrightarrow> odd_extra p = 0" "odd_extra p \<le> 65025"
proof -
  show le: "odd_extra p \<le> 65025" using unat_u8_less [of "last p"] by (simp add: odd_extra_def)
  then have "odd_extra p < 65535" by simp
  then show "odd_extra p mod 65535 = 0 \<longleftrightarrow> odd_extra p = 0" by (simp only: mod_less)
qed

lemma length_tcp_front [simp]: "length (tcp_front flags t) = 16"
  by (simp add: tcp_front_def Let_def)

lemma length_pseudo_header [simp]: "length (pseudo_header a b n) = 12"
  by (simp add: pseudo_header_def)

lemma nsum_pseudo_header: "nsum (pseudo_header a b n) \<noteq> 0"
  by (simp add: pseudo_header_def IP_PROTO_TCP_def)

lemma tcp_back_last:
  "odd_extra (tcp_back flags data) = odd_extra data" "length (tcp_back flags data) \<le> 6 + length data" "tcp_back flags data \<noteq> []"
proof -
  show "length (tcp_back flags data) \<le> 6 + length data" "tcp_back flags data \<noteq> []"
    by (simp_all add: tcp_back_def st16_def)
  show "odd_extra (tcp_back flags data) = odd_extra data"
    by (cases "data = []") (simp_all add: tcp_back_def st16_def odd_extra_def)
qed

lemma residue_shift:
  fixes n e c :: nat
  assumes "(n + e + c) mod 65535 = 0"
  shows "(n + c) mod 65535 = 0 \<longleftrightarrow> e mod 65535 = 0"
proof -
  have "n + e + c = (n + c) + e" by simp
  with assms show ?thesis by (metis dvd_add_right_iff dvd_add_left_iff mod_0_imp_dvd dvd_imp_mod_0)
qed

text \<open>
  Claim C30. The receiver's test, that pseudo-header and segment sum to zero, succeeds on a
  segment built by \<open>tcp_send_raw\<close> exactly when its data has even length or ends in a zero byte:
  every other segment is sent with a wrong checksum and is dropped by a correct peer.
\<close>

theorem tcp_checksum_valid_iff:
  assumes "length data \<le> TCP_MSS"
  shows "ip_checksum (pseudo_header (net_ip s) (s_remote_ip (net_tcb s)) (length (tcp_segment flags data s))
      @ tcp_segment flags data s) = 0 \<longleftrightarrow> even (length data) \<or> last data = 0"
proof -
  let ?front = "tcp_front flags (net_tcb s)" and ?rest = "tcp_back flags data"
  define seg where "seg c = ?front @ st16 c @ ?rest" for c
  define ph where "ph = pseudo_header (net_ip s) (s_remote_ip (net_tcb s)) (length (seg 0))"
  define n where "n = nsum ph + nsum ?front + nsum ?rest"
  define c where "c = tcp_checksum (net_ip s) (s_remote_ip (net_tcb s)) (seg 0)"
  have len: "length (seg x) = length (seg 0)" "length (seg x) \<le> 1484" for x
    using assms tcp_back_last(2) [of flags data] by (simp_all add: seg_def TCP_MSS_def)
  have segn: "nsum (seg x) = nsum ?front + unat x + nsum ?rest" for x
    by (simp add: seg_def nsum_append nsum_st16)
  have extra: "odd_extra (seg 0) = odd_extra data"
    unfolding seg_def using tcp_back_last(1,3) [of flags data]
    by (simp add: odd_extra_even [of "?front @ st16 0", simplified] odd_extra_even)
  have small: "nsum ph + (nsum (seg 0) + odd_extra (seg 0)) < 2 ^ 32"
    using nsum_bound [of ph] nsum_bound [of "seg 0"] len(2) [of 0] odd_extra_mod(2) [of "seg 0"] by (simp add: ph_def)
  have "unat (tcp_sum (ck_sum 0 ph) (seg 0)) = n + odd_extra data"
    using unat_tcp_sum [of "ck_sum 0 ph" "seg 0"] unat_ck_sum [of 0 ph] small segn [of 0] extra
    by (simp add: n_def)
  then have "unat c = 65535 - oc (n + odd_extra data)"
    by (simp add: c_def tcp_checksum_def ph_def unat_ck_result)
  then have full: "(n + odd_extra data + unat c) mod 65535 = 0" using oc_complement by simp
  have n0: "n \<noteq> 0" using nsum_pseudo_header by (simp add: n_def ph_def)
  have "nsum (ph @ seg c) = n + unat c" by (simp add: ph_def nsum_append segn n_def)
  then have "ip_checksum (ph @ seg c) = 0 \<longleftrightarrow> (n + unat c) mod 65535 = 0"
    using checksum_zero_iff [of "ph @ seg c"] len(2) [of c] n0 by (simp add: ph_def)
  also have "\<dots> \<longleftrightarrow> odd_extra data = 0" using residue_shift [OF full] odd_extra_mod(1) by simp
  also have "\<dots> \<longleftrightarrow> even (length data) \<or> last data = 0" by (auto simp: odd_extra_def unat_eq_zero)
  finally show ?thesis
    using len(1) [of c] by (simp add: tcp_segment_def Let_def seg_def c_def ph_def)
qed

theorem tcp_checksum_valid_iff_witness:
  "ip_checksum (pseudo_header (net_ip demo_net) (s_remote_ip (net_tcb demo_net))
      (length (tcp_segment TCP_ACK [0x41] demo_net)) @ tcp_segment TCP_ACK [0x41] demo_net) \<noteq> 0"
  using tcp_checksum_valid_iff [of "[0x41]" demo_net TCP_ACK] by (simp add: TCP_MSS_def)

end
