(* ===== verification/Udp.thy ===== *)
theory Udp
  imports Inet "HOL-Library.Monad_Syntax"
begin

text \<open>
  UDP and the two protocols on top of it: \<open>kernel/src/udp.c\<close>, and the packets of \<open>dns.c\<close> and
  \<open>dhcp.c\<close>. The exchanges that wait for answers are in \<open>Netstack\<close>.

  A parser reads a byte of the received packet through \<open>at8\<close>, which fails outside the packet,
  so a parser that would run past the end returns \<open>None\<close>. Shown here: neither parser ever
  does, whatever the packet; a DNS name that is encoded is skipped as a whole, and a reply
  with an address record for the query yields that address; the DHCP option loop collects
  the options of a well-formed option list; a datagram that is sent is received by the
  handler bound to its port.
\<close>

section \<open>UDP\<close>

definition UDP_HDR_LEN :: nat where "UDP_HDR_LEN = 8"

definition udp_bind :: "u16 \<Rightarrow> udp_handler \<Rightarrow> net \<Rightarrow> net" where
  "udp_bind port handler s =
     (case first_idx (\<lambda>b. \<not> ub_valid b) (s_binds s) of
        Some i \<Rightarrow> s\<lparr>s_binds := (s_binds s)[i := \<lparr>ub_port = port, ub_handler = handler, ub_valid = True\<rparr>]\<rparr>
      | None \<Rightarrow> s)"

definition udp_unbind :: "u16 \<Rightarrow> net \<Rightarrow> net" where
  "udp_unbind port s =
     (case first_idx (\<lambda>b. ub_valid b \<and> ub_port b = port) (s_binds s) of
        Some i \<Rightarrow> s\<lparr>s_binds := (s_binds s)[i := (s_binds s ! i)\<lparr>ub_valid := False\<rparr>]\<rparr>
      | None \<Rightarrow> s)"

definition udp_datagram :: "u16 \<Rightarrow> u16 \<Rightarrow> bytes \<Rightarrow> bytes" where
  "udp_datagram src_port dst_port payload =
     st16 (htons src_port) @ st16 (htons dst_port) @ st16 (htons (of_nat (UDP_HDR_LEN + length payload))) @ st16 0 @ payload"

definition udp_send :: "u32 \<Rightarrow> u16 \<Rightarrow> u16 \<Rightarrow> bytes \<Rightarrow> net \<Rightarrow> bool \<times> net" where
  "udp_send dst_ip src_port dst_port payload s =
     (if length payload + UDP_HDR_LEN > UDP_HDR_LEN + ETH_MAX_PAYLOAD - IP4_HDR_LEN then (False, s)
      else ip4_send dst_ip IP_PROTO_UDP (udp_datagram src_port dst_port payload) s)"

text \<open>The checks of \<open>udp_recv\<close>: destination port and payload of an accepted datagram.\<close>

definition udp_accept :: "bytes \<Rightarrow> (u16 \<times> bytes) option" where
  "udp_accept p =
     (if length p < UDP_HDR_LEN then None
      else
        let udp_len = unat (ntohs (rd16 p 4)) in
        if udp_len < UDP_HDR_LEN \<or> udp_len > length p then None
        else Some (ntohs (rd16 p 2), take (udp_len - UDP_HDR_LEN) (drop UDP_HDR_LEN p)))"

section \<open>Reading a packet\<close>

definition at8 :: "bytes \<Rightarrow> nat \<Rightarrow> u8 option" where
  "at8 d i = (if i < length d then Some (d ! i) else None)"

definition be16 :: "bytes \<Rightarrow> nat \<Rightarrow> nat option" where
  "be16 d i = do { a \<leftarrow> at8 d i; b \<leftarrow> at8 d (i + 1); Some (256 * unat a + unat b) }"

text \<open>\<open>opt_ip\<close> of \<open>dhcp.c\<close>; \<open>dns.c\<close> has the same expression for the address of a record.\<close>

definition opt_ip :: "bytes \<Rightarrow> nat \<Rightarrow> u32 option" where
  "opt_ip d i = do { a \<leftarrow> at8 d i; b \<leftarrow> at8 d (i + 1); c \<leftarrow> at8 d (i + 2); e \<leftarrow> at8 d (i + 3);
     Some (push_bit 24 (ucast a) OR push_bit 16 (ucast b) OR push_bit 8 (ucast c) OR ucast e) }"

section \<open>DNS\<close>

definition DNS_SERVER_PORT :: u16 where "DNS_SERVER_PORT = 53"
definition DNS_CLIENT_PORT :: u16 where "DNS_CLIENT_PORT = 1053"
definition DNS_HDR_LEN :: nat where "DNS_HDR_LEN = 12"

text \<open>The loop over the labels of a host name; the length of a label is kept in a byte.\<close>

function encode_labels :: "bytes \<Rightarrow> bytes" where
  "encode_labels host =
     (if host = [] then []
      else
        let label = takeWhile (\<lambda>c. c \<noteq> 0x2E) host;
            len = of_nat (length label) :: u8
        in if len = 0 \<or> len > 63 then []
           else len # label @ encode_labels (drop (length label + 1) host))"
  by pat_completeness auto

termination
  by (relation "measure length") auto

declare encode_labels.simps [simp del]

definition encode_name :: "bytes \<Rightarrow> bytes" where
  "encode_name host = encode_labels host @ [0]"

function skip_name :: "bytes \<Rightarrow> nat \<Rightarrow> nat" where
  "skip_name d p =
     (if p < length d then
        let c = d ! p in
        if c = 0 then p + 1
        else if c AND 0xC0 = 0xC0 then p + 2
        else skip_name d (p + 1 + unat (c AND 0x3F))
      else length d)"
  by pat_completeness auto

termination
  by (relation "measure (\<lambda>(d, p). length d - p)") auto

declare skip_name.simps [simp del]

fun skip_questions :: "bytes \<Rightarrow> nat \<Rightarrow> nat \<Rightarrow> nat" where
  "skip_questions d 0 p = p"
| "skip_questions d (Suc n) p = (if p < length d then skip_questions d n (skip_name d p + 4) else p)"

text \<open>The first address record among the answers; \<open>Some None\<close> when there is none.\<close>

fun dns_answers :: "bytes \<Rightarrow> nat \<Rightarrow> nat \<Rightarrow> u32 option option" where
  "dns_answers d 0 p = Some None"
| "dns_answers d (Suc n) p =
     (if p < length d then
        let q = skip_name d p in
        if q + 10 > length d then Some None
        else do {
          rtype \<leftarrow> be16 d q;
          rdlength \<leftarrow> be16 d (q + 8);
          if q + 10 + rdlength > length d then Some None
          else if rtype = 1 \<and> rdlength = 4 then map_option Some (opt_ip d (q + 10))
          else dns_answers d n (q + 10 + rdlength) }
      else Some None)"

datatype dns_outcome = Dns_ignored | Dns_failed | Dns_address u32

definition dns_parse :: "u16 \<Rightarrow> bytes \<Rightarrow> dns_outcome option" where
  "dns_parse ident d =
     (if length d < DNS_HDR_LEN then Some Dns_ignored
      else if ntohs (rd16 d 0) \<noteq> ident then Some Dns_ignored
      else
        let flags = ntohs (rd16 d 2) in
        if flags AND 0x8000 = 0 then Some Dns_ignored
        else if flags AND 0x000F \<noteq> 0 then Some Dns_failed
        else
          let ancount = unat (ntohs (rd16 d 6)) in
          if ancount = 0 then Some Dns_failed
          else do {
            ip \<leftarrow> dns_answers d ancount (skip_questions d (unat (ntohs (rd16 d 4))) DNS_HDR_LEN);
            Some (case ip of Some a \<Rightarrow> Dns_address a | None \<Rightarrow> Dns_failed) })"

definition dns_recv :: "bytes \<Rightarrow> net \<Rightarrow> net" where
  "dns_recv d s =
     (case dns_parse (s_id (net_dnsq s)) d of
        Some Dns_failed \<Rightarrow> s\<lparr>net_dnsq := (net_dnsq s)\<lparr>s_got := True\<rparr>\<rparr>
      | Some (Dns_address a) \<Rightarrow> s\<lparr>net_dnsq := (net_dnsq s)\<lparr>s_ip := a, s_ok := True, s_got := True\<rparr>\<rparr>
      | Some Dns_ignored \<Rightarrow> s
      | None \<Rightarrow> s)"

definition DNS_MAX_PKT :: nat where "DNS_MAX_PKT = 512"

text \<open>
  The part of \<open>dns_resolve\<close> that builds the query in \<open>pkt\<close>. Nothing bounds the encoded name: \<open>None\<close> when it
  and the four bytes behind it do not fit the buffer, where the C code writes past its end.
\<close>

definition dns_query :: "u16 \<Rightarrow> bytes \<Rightarrow> bytes option" where
  "dns_query ident host =
     (if DNS_HDR_LEN + length (encode_name host) + 4 > DNS_MAX_PKT then None
      else Some (st16 (htons ident) @ st16 (htons 0x0100) @ st16 (htons 1) @ replicate 6 0
        @ encode_name host @ [0, 1, 0, 1]))"

section \<open>DHCP\<close>

definition DHCP_SERVER_PORT :: u16 where "DHCP_SERVER_PORT = 67"
definition DHCP_CLIENT_PORT :: u16 where "DHCP_CLIENT_PORT = 68"
definition DHCPDISCOVER :: u8 where "DHCPDISCOVER = 1"
definition DHCPOFFER :: u8 where "DHCPOFFER = 2"
definition DHCPREQUEST :: u8 where "DHCPREQUEST = 3"
definition DHCPACK :: u8 where "DHCPACK = 5"
definition DHCPNAK :: u8 where "DHCPNAK = 6"
definition DHCP_MAGIC :: u32 where "DHCP_MAGIC = 0x63825363"
definition BOOTP_HDR_LEN :: nat where "BOOTP_HDR_LEN = 236"

text \<open>The locals of the option loop.\<close>

record dhcp_opts =
  msg_type :: u8
  opt_mask :: u32
  opt_gw :: u32
  opt_srv :: u32
  opt_dns :: u32

definition no_opts :: dhcp_opts where
  "no_opts = \<lparr>msg_type = 0, opt_mask = 0, opt_gw = 0, opt_srv = 0, opt_dns = 0\<rparr>"

text \<open>The \<open>switch\<close> on the code of an option whose value of \<open>olen\<close> bytes starts at \<open>p\<close>.\<close>

definition dhcp_option :: "bytes \<Rightarrow> u8 \<Rightarrow> nat \<Rightarrow> nat \<Rightarrow> dhcp_opts \<Rightarrow> dhcp_opts option" where
  "dhcp_option d code olen p r =
     (if code = 53 then if olen \<ge> 1 then map_option (\<lambda>v. r\<lparr>msg_type := v\<rparr>) (at8 d p) else Some r
      else if code = 1 then if olen \<ge> 4 then map_option (\<lambda>v. r\<lparr>opt_mask := v\<rparr>) (opt_ip d p) else Some r
      else if code = 3 then if olen \<ge> 4 then map_option (\<lambda>v. r\<lparr>opt_gw := v\<rparr>) (opt_ip d p) else Some r
      else if code = 6 then if olen \<ge> 4 then map_option (\<lambda>v. r\<lparr>opt_dns := v\<rparr>) (opt_ip d p) else Some r
      else if code = 54 then if olen \<ge> 4 then map_option (\<lambda>v. r\<lparr>opt_srv := v\<rparr>) (opt_ip d p) else Some r
      else Some r)"

function dhcp_options :: "bytes \<Rightarrow> nat \<Rightarrow> dhcp_opts \<Rightarrow> dhcp_opts option" where
  "dhcp_options d p r =
     (if p < length d then
        let code = d ! p in
        if code = 255 then Some r
        else if code = 0 then dhcp_options d (p + 1) r
        else if p + 1 \<ge> length d then Some r
        else
          let olen = unat (d ! (p + 1)) in
          if p + 2 + olen > length d then Some r
          else (case dhcp_option d code olen (p + 2) r of
                  Some r' \<Rightarrow> dhcp_options d (p + 2 + olen) r'
                | None \<Rightarrow> None)
      else Some r)"
  by pat_completeness auto

termination
  by (relation "measure (\<lambda>(d, p, r). length d - p)") auto

declare dhcp_options.simps [simp del]

text \<open>
  What \<open>dhcp_recv\<close> makes of a packet: \<open>Some None\<close> when it is ignored, and otherwise the
  options and the two address fields of the header.
\<close>

definition dhcp_parse :: "u32 \<Rightarrow> bytes \<Rightarrow> (dhcp_opts \<times> u32 \<times> u32) option option" where
  "dhcp_parse xid d =
     (if length d < BOOTP_HDR_LEN + 4 then Some None
      else if d ! 0 \<noteq> 2 then Some None
      else if ntohl (rd32 d 4) \<noteq> xid then Some None
      else do {
        magic \<leftarrow> opt_ip d BOOTP_HDR_LEN;
        if magic \<noteq> DHCP_MAGIC then Some None
        else do {
          r \<leftarrow> dhcp_options d (BOOTP_HDR_LEN + 4) no_opts;
          Some (Some (r, ntohl (rd32 d 16), ntohl (rd32 d 20))) } })"

definition dhcp_recv :: "bytes \<Rightarrow> net \<Rightarrow> net" where
  "dhcp_recv d s =
     (case dhcp_parse (s_dhcp_xid (net_dhcp s)) d of
        Some (Some (r, yiaddr, siaddr)) \<Rightarrow>
          s\<lparr>net_dhcp := (net_dhcp s)\<lparr>s_dhcp_type := msg_type r, s_dhcp_yiaddr := yiaddr,
              s_dhcp_srv := (if opt_srv r \<noteq> 0 then opt_srv r else siaddr), s_dhcp_mask := opt_mask r,
              s_dhcp_gw := opt_gw r, s_dhcp_dns := opt_dns r, s_dhcp_got := True\<rparr>\<rparr>
      | Some None \<Rightarrow> s
      | None \<Rightarrow> s)"

definition be32_bytes :: "u32 \<Rightarrow> bytes" where
  "be32_bytes x = [ucast (drop_bit 24 x), ucast (drop_bit 16 x), ucast (drop_bit 8 x), ucast x]"

definition dhcp_build :: "u8 \<Rightarrow> u32 \<Rightarrow> u32 \<Rightarrow> net \<Rightarrow> bytes" where
  "dhcp_build mtype req_ip srv_ip s =
     [1, 1, 6, 0] @ st32 (htonl (s_dhcp_xid (net_dhcp s))) @ [0, 0] @ st16 (htons 0x8000) @ replicate 16 0
       @ net_mac s @ replicate 10 0 @ replicate 192 0
       @ [0x63, 0x82, 0x53, 0x63] @ [53, 1, mtype]
       @ (if mtype = DHCPREQUEST then [50, 4] @ be32_bytes req_ip @ [54, 4] @ be32_bytes srv_ip else [])
       @ [55, 2, 1, 3] @ [255]"

section \<open>Delivery\<close>

definition udp_recv :: "u32 \<Rightarrow> bytes \<Rightarrow> net \<Rightarrow> net" where
  "udp_recv src_ip p s =
     (case udp_accept p of
        None \<Rightarrow> s
      | Some (dst_port, payload) \<Rightarrow>
          (case first_idx (\<lambda>b. ub_valid b \<and> ub_port b = dst_port) (s_binds s) of
             Some i \<Rightarrow> (case ub_handler (s_binds s ! i) of Dns_recv \<Rightarrow> dns_recv payload s | Dhcp_recv \<Rightarrow> dhcp_recv payload s)
           | None \<Rightarrow> s))"

section \<open>Reads stay inside the packet\<close>

lemma at8_in: "i < length d \<Longrightarrow> at8 d i = Some (d ! i)"
  by (simp add: at8_def)

lemma be16_in: "i + 1 < length d \<Longrightarrow> be16 d i = Some (256 * unat (d ! i) + unat (d ! (i + 1)))"
  by (simp add: be16_def at8_def)

lemma opt_ip_in: "i + 3 < length d \<Longrightarrow> \<exists>z. opt_ip d i = Some z"
  by (simp add: opt_ip_def at8_def)

lemma dns_answers_in: "\<exists>z. dns_answers d n p = Some z"
proof (induction n arbitrary: p)
  case (Suc n)
  then show ?case by (auto simp: Let_def be16_in opt_ip_in)
qed simp

lemma dhcp_option_in: "p + olen \<le> length d \<Longrightarrow> dhcp_option d code olen p r \<noteq> None"
  using opt_ip_in [of p d] by (auto simp: dhcp_option_def at8_def)

lemma dhcp_options_in: "dhcp_options d p r \<noteq> None"
proof (induction d p r rule: dhcp_options.induct)
  case (1 d p r)
  then show ?case
    using dhcp_option_in [of "p + 2" "unat (d ! (p + 1))" d "d ! p" r]
    by (subst dhcp_options.simps) (auto simp: Let_def split: option.splits)
qed

text \<open>
  Whatever bytes arrive on the DNS and DHCP ports, and whatever transaction is
  waited for, the parsers read no byte outside the received packet, and both loops end.
\<close>

theorem udp_parsers_in_bounds: "dns_parse ident d \<noteq> None \<and> dhcp_parse xid d \<noteq> None"
proof -
  obtain z where "dns_answers d (unat (ntohs (rd16 d 6))) (skip_questions d (unat (ntohs (rd16 d 4))) DNS_HDR_LEN) = Some z"
    using dns_answers_in by blast
  then have "dns_parse ident d \<noteq> None" by (simp add: dns_parse_def Let_def)
  moreover have "dhcp_parse xid d \<noteq> None"
    using dhcp_options_in [of d "BOOTP_HDR_LEN + 4" no_opts] opt_ip_in [of BOOTP_HDR_LEN d]
    by (auto simp: dhcp_parse_def)
  ultimately show ?thesis ..
qed

section \<open>A DNS reply\<close>

lemma label_len: "\<forall>n \<in> set [1..<64]. (of_nat n :: u8) AND 0xC0 \<noteq> 0xC0 \<and> unat ((of_nat n :: u8) AND 0x3F) = n"
  by code_simp

lemma skip_name_encoded:
  assumes "length host < 256"
  shows "skip_name (pre @ encode_name host @ rest) (length pre) = length pre + length (encode_name host)"
  using assms
proof (induction host arbitrary: pre rule: encode_labels.induct)
  case (1 host)
  define label where "label = takeWhile (\<lambda>c. c \<noteq> 0x2E) host"
  define len where "len = (of_nat (length label) :: u8)"
  have le: "length label < 256" using 1(2) length_takeWhile_le [of "\<lambda>c. c \<noteq> 0x2E" host] by (simp add: label_def)
  then have ulen: "unat len = length label" by (simp add: len_def unsigned_of_nat take_bit_nat_eq_self)
  show ?case
  proof (cases "host = [] \<or> len = 0 \<or> len > 63")
    case True
    then have "encode_labels host = []"
      by (subst encode_labels.simps) (auto simp: Let_def label_def [symmetric] len_def [symmetric])
    then show ?thesis by (subst skip_name.simps) (simp add: encode_name_def nth_append)
  next
    case False
    let ?host = "drop (length label + 1) host"
    have enc: "encode_name host = len # label @ encode_name ?host"
      using False by (subst encode_name_def, subst encode_labels.simps)
        (simp add: Let_def label_def [symmetric] len_def [symmetric] encode_name_def)
    have "length label \<noteq> 0" using False ulen by (auto simp: unat_eq_zero)
    moreover have "length label \<le> 63" using False ulen by (simp add: not_less word_le_nat_alt)
    ultimately have n: "length label \<in> set [1..<64]" by (simp add: Suc_le_eq)
    have c: "len AND 0xC0 \<noteq> 0xC0" "unat (len AND 0x3F) = length label" "len \<noteq> 0"
      using bspec [OF label_len n] False by (simp_all add: len_def)
    have IH: "skip_name ((pre @ len # label) @ encode_name ?host @ rest) (length (pre @ len # label)) =
        length (pre @ len # label) + length (encode_name ?host)"
      using 1(1) [OF _ label_def len_def, of "pre @ len # label"] False 1(2) by simp
    show ?thesis
      using IH c by (subst skip_name.simps) (simp add: enc nth_append Let_def)
  qed
qed

lemma length_encode_name: "length (encode_name host) \<le> length host + 2"
proof -
  have "length (encode_labels host) \<le> length host + 1"
  proof (induction host rule: encode_labels.induct)
    case (1 host)
    define label where "label = takeWhile (\<lambda>c. c \<noteq> 0x2E) host"
    define len where "len = (of_nat (length label) :: u8)"
    have le: "length label \<le> length host" by (simp add: label_def length_takeWhile_le)
    show ?case
    proof (cases "host = [] \<or> len = 0 \<or> len > 63")
      case True
      then show ?thesis
        by (subst encode_labels.simps) (auto simp: Let_def label_def [symmetric] len_def [symmetric])
    next
      case False
      let ?host = "drop (length label + 1) host"
      have enc: "encode_labels host = len # label @ encode_labels ?host"
        using False by (subst encode_labels.simps) (simp add: Let_def label_def [symmetric] len_def [symmetric])
      have IH: "length (encode_labels ?host) \<le> length ?host + 1" using 1 [OF _ label_def len_def] False by blast
      show ?thesis
      proof (cases "length label = length host")
        case True
        then show ?thesis unfolding enc by (simp add: encode_labels.simps [of "[]"])
      next
        case False
        then show ?thesis using IH le unfolding enc by simp
      qed
    qed
  qed
  then show ?thesis by (simp add: encode_name_def)
qed

lemma dns_query_fits: "length host \<le> 494 \<Longrightarrow> \<exists>q. dns_query ident host = Some q"
  using length_encode_name [of host] by (simp add: dns_query_def DNS_HDR_LEN_def DNS_MAX_PKT_def)

lemma encode_labels_short: "encode_labels (concat (replicate n [0x61, 0x2E])) = concat (replicate n [1, 0x61])"
proof (induction n)
  case (Suc n)
  then show ?case by (subst encode_labels.simps) simp
qed (simp add: encode_labels.simps)

text \<open>A name of 250 labels of one letter is written past the end of the buffer.\<close>

theorem dns_query_overflows: "dns_query ident (concat (replicate 250 [0x61, 0x2E])) = None"
proof -
  have "length (concat (replicate n [1, 0x61 :: u8])) = 2 * n" for n by (induction n) simp_all
  then show ?thesis by (simp only: dns_query_def encode_name_def encode_labels_short) (simp add: DNS_HDR_LEN_def DNS_MAX_PKT_def)
qed

text \<open>
  A name in a packet: labels, and at its end a zero byte or a pointer. A resource record of any owner, type,
  class and time to live.
\<close>

record dns_record =
  rr_labels :: "bytes list"
  rr_tail :: bytes
  rr_type :: u16
  rr_class :: u16
  rr_ttl :: u32
  rr_data :: bytes

definition name_field :: "bytes list \<Rightarrow> bytes \<Rightarrow> bytes" where
  "name_field ls te = concat (map (\<lambda>l. of_nat (length l) # l) ls) @ te"

definition name_ok :: "bytes list \<Rightarrow> bytes \<Rightarrow> bool" where
  "name_ok ls te \<longleftrightarrow> (\<forall>l \<in> set ls. 1 \<le> length l \<and> length l < 64) \<and> (te = [0] \<or> length te = 2 \<and> hd te AND 0xC0 = 0xC0)"

definition be16_bytes :: "u16 \<Rightarrow> bytes" where
  "be16_bytes x = [ucast (drop_bit 8 x), ucast x]"

definition dns_rr :: "dns_record \<Rightarrow> bytes" where
  "dns_rr r = name_field (rr_labels r) (rr_tail r) @ be16_bytes (rr_type r) @ be16_bytes (rr_class r) @ be32_bytes (rr_ttl r)
     @ be16_bytes (of_nat (length (rr_data r))) @ rr_data r"

definition rr_ok :: "dns_record \<Rightarrow> bool" where
  "rr_ok r \<longleftrightarrow> name_ok (rr_labels r) (rr_tail r) \<and> length (rr_data r) < 65536"

definition dns_reply :: "u16 \<Rightarrow> u16 \<Rightarrow> u16 \<Rightarrow> u32 \<Rightarrow> bytes \<Rightarrow> bytes list \<Rightarrow> bytes \<Rightarrow> bytes" where
  "dns_reply ident flags ancount counts host rrs extra =
     st16 (htons ident) @ st16 (htons flags) @ st16 (htons 1) @ st16 (htons ancount) @ be32_bytes counts
       @ encode_name host @ [0, 1, 0, 1] @ concat rrs @ extra"

lemma be16_be16_bytes: "be16 (pre @ be16_bytes x @ rest) (length pre) = Some (unat x)"
proof -
  have "unat x < 65536" using unsigned_less [of x, where ?'a = nat] by simp
  then have "256 * (unat x div 256 mod 256) + unat x mod 256 = unat x" by (simp add: less_mult_imp_div_less)
  then show ?thesis
    by (subst be16_in) (simp_all add: be16_bytes_def nth_append unsigned_ucast_eq unsigned_drop_bit_eq take_bit_eq_mod drop_bit_eq_div unat_div)
qed

lemma skip_name_field:
  assumes "name_ok ls te"
  shows "skip_name (pre @ name_field ls te @ rest) (length pre) = length pre + length (name_field ls te)"
  using assms
proof (induction ls arbitrary: pre)
  case Nil
  then consider "te = [0]" | c x where "te = [c, x]" "c AND 0xC0 = 0xC0"
    by (auto simp: name_ok_def length_Suc_conv numeral_2_eq_2)
  then show ?case
  proof cases
    case 2
    then have "c \<noteq> 0" by auto
    with 2 show ?thesis by (subst skip_name.simps) (simp add: name_field_def nth_append Let_def)
  qed (subst skip_name.simps, simp add: name_field_def nth_append)
next
  case (Cons l ls)
  let ?c = "of_nat (length l) :: u8"
  have l: "length l \<in> set [1..<64]" using Cons.prems by (simp add: name_ok_def set_upt del: upt.simps)
  have c: "?c AND 0xC0 \<noteq> 0xC0" "unat (?c AND 0x3F) = length l" "?c \<noteq> 0"
    using bspec [OF label_len l] l by (auto simp: set_upt simp del: upt.simps)
  have d: "pre @ name_field (l # ls) te @ rest = (pre @ ?c # l) @ name_field ls te @ rest" by (simp add: name_field_def)
  have IH: "skip_name ((pre @ ?c # l) @ name_field ls te @ rest) (length (pre @ ?c # l)) = length (pre @ ?c # l) + length (name_field ls te)"
    using Cons.prems by (intro Cons.IH) (simp add: name_ok_def)
  then have "skip_name ((pre @ ?c # l) @ name_field ls te @ rest) (length pre) = length (pre @ ?c # l) + length (name_field ls te)"
    using c by (subst skip_name.simps) (simp add: nth_append Let_def add.commute)
  then show ?case unfolding d by (simp add: name_field_def)
qed

lemma dns_rr_fields:
  assumes "rr_ok r" "d = pre @ dns_rr r @ rest" "q = length pre + length (name_field (rr_labels r) (rr_tail r))"
  shows "length pre < length d" "skip_name d (length pre) = q" "be16 d q = Some (unat (rr_type r))"
    "be16 d (q + 8) = Some (length (rr_data r))" "q + 10 + length (rr_data r) \<le> length d"
    "length (pre @ dns_rr r) = q + 10 + length (rr_data r)"
    "d = (pre @ name_field (rr_labels r) (rr_tail r) @ be16_bytes (rr_type r) @ be16_bytes (rr_class r) @ be32_bytes (rr_ttl r)
       @ be16_bytes (of_nat (length (rr_data r)))) @ rr_data r @ rest"
proof -
  let ?n = "name_field (rr_labels r) (rr_tail r)" and ?t = "be16_bytes (rr_type r)" and ?k = "be16_bytes (rr_class r)"
    and ?l = "be16_bytes (of_nat (length (rr_data r)))" and ?w = "be32_bytes (rr_ttl r)"
  have d: "d = pre @ ?n @ ?t @ ?k @ ?w @ ?l @ rr_data r @ rest" by (simp add: assms(2) dns_rr_def)
  have len: "length ?t = 2" "length ?k = 2" "length ?l = 2" "length ?w = 4" by (simp_all add: be16_bytes_def be32_bytes_def)
  have lr: "unat (of_nat (length (rr_data r)) :: u16) = length (rr_data r)"
    using assms(1) by (simp add: rr_ok_def unsigned_of_nat take_bit_nat_eq_self)
  show "length pre < length d" "q + 10 + length (rr_data r) \<le> length d" using len by (simp_all add: d assms(3))
  show "length (pre @ dns_rr r) = q + 10 + length (rr_data r)" using len by (simp add: dns_rr_def assms(3))
  show "skip_name d (length pre) = q"
    unfolding d assms(3) using assms(1) by (intro skip_name_field) (simp add: rr_ok_def)
  show "be16 d q = Some (unat (rr_type r))"
    using be16_be16_bytes [of "pre @ ?n" "rr_type r"] by (simp add: d assms(3))
  show "be16 d (q + 8) = Some (length (rr_data r))"
    using be16_be16_bytes [of "pre @ ?n @ ?t @ ?k @ ?w" "of_nat (length (rr_data r))"] len lr by (simp add: d assms(3) add.assoc)
  show "d = (pre @ ?n @ ?t @ ?k @ ?w @ ?l) @ rr_data r @ rest" by (simp add: d)
qed

lemma dns_answers_step:
  assumes "p < length d" "skip_name d p = q" "be16 d q = Some t" "be16 d (q + 8) = Some l" "q + 10 + l \<le> length d"
  shows "dns_answers d (Suc n) p = (if t = 1 \<and> l = 4 then map_option Some (opt_ip d (q + 10)) else dns_answers d n (q + 10 + l))"
  using assms by (simp add: Let_def)

lemma dns_answers_skip:
  assumes "rr_ok r" "rr_type r \<noteq> 1 \<or> length (rr_data r) \<noteq> 4"
  shows "dns_answers (pre @ dns_rr r @ rest) (Suc n) (length pre) = dns_answers (pre @ dns_rr r @ rest) n (length (pre @ dns_rr r))"
proof -
  note F = dns_rr_fields [where pre = pre and rest = rest, OF assms(1) refl refl]
  have "\<not> (unat (rr_type r) = 1 \<and> length (rr_data r) = 4)" using assms(2) by (metis unat_1 word_unat_eq_iff)
  then show ?thesis unfolding dns_answers_step [OF F(1-5)] F(6) by (simp only: if_False)
qed

lemma opt_ip_be32: "opt_ip (pre @ be32_bytes ip @ rest) (length pre) = Some ip"
proof -
  have "opt_ip (pre @ be32_bytes ip @ rest) (length pre) =
      Some (ld32 (ucast ip) (ucast (drop_bit 8 ip)) (ucast (drop_bit 16 ip)) (ucast (drop_bit 24 ip)))"
    by (simp add: opt_ip_def at8_def be32_bytes_def nth_append ld32_def or.assoc or.commute or.left_commute)
  then show ?thesis by (simp add: ld32_st32)
qed

lemma dns_answers_hit:
  assumes "rr_ok r" "rr_type r = 1" "rr_data r = be32_bytes ip"
  shows "dns_answers (pre @ dns_rr r @ rest) (Suc n) (length pre) = Some (Some ip)"
proof -
  note F = dns_rr_fields [where pre = pre and rest = rest, OF assms(1) refl refl]
  let ?p = "pre @ name_field (rr_labels r) (rr_tail r) @ be16_bytes (rr_type r) @ be16_bytes (rr_class r) @ be32_bytes (rr_ttl r)
    @ be16_bytes (of_nat (length (rr_data r)))"
  have "length ?p = length pre + length (name_field (rr_labels r) (rr_tail r)) + 10" by (simp add: be16_bytes_def be32_bytes_def)
  then have "opt_ip (pre @ dns_rr r @ rest) (length pre + length (name_field (rr_labels r) (rr_tail r)) + 10) = Some ip"
    using opt_ip_be32 [of ?p ip rest] F(7) assms(3) by (simp add: add.assoc)
  then show ?thesis unfolding dns_answers_step [OF F(1-5)] using assms(2,3) by (simp add: be32_bytes_def)
qed

lemma dns_answers_found:
  assumes "\<forall>c \<in> set cs. rr_ok c \<and> (rr_type c \<noteq> 1 \<or> length (rr_data c) \<noteq> 4)" "rr_ok r" "rr_type r = 1" "rr_data r = be32_bytes ip"
    "length cs < n"
  shows "dns_answers (pre @ concat (map dns_rr cs) @ dns_rr r @ extra) n (length pre) = Some (Some ip)"
  using assms(1,5)
proof (induction cs arbitrary: pre n)
  case Nil
  then obtain k where "n = Suc k" by (cases n) simp_all
  then show ?case using dns_answers_hit [OF assms(2-4)] by simp
next
  case (Cons c cs)
  then obtain k where k: "n = Suc k" "length cs < k" by (cases n) simp_all
  let ?rest = "concat (map dns_rr cs) @ dns_rr r @ extra"
  have "dns_answers (pre @ dns_rr c @ ?rest) (Suc k) (length pre) = dns_answers (pre @ dns_rr c @ ?rest) k (length (pre @ dns_rr c))"
    using Cons.prems by (intro dns_answers_skip) auto
  also have "\<dots> = Some (Some ip)"
    using Cons.IH [of k "pre @ dns_rr c"] Cons.prems(1) k(2) by (simp only: append_assoc) simp
  finally show ?case by (simp add: k(1))
qed

lemma dns_reply_header:
  assumes "d = dns_reply ident flags an counts host rrs extra"
  shows "12 \<le> length d" "ntohs (rd16 d 0) = ident" "ntohs (rd16 d 2) = flags" "ntohs (rd16 d 4) = 1" "ntohs (rd16 d 6) = an"
proof -
  let ?a = "st16 (htons ident)" and ?b = "st16 (htons flags)" and ?c = "st16 (htons 1)" and ?n = "st16 (htons an)"
  define rest where "rest = be32_bytes counts @ encode_name host @ [0, 1, 0, 1] @ concat rrs @ extra"
  have d: "d = ?a @ ?b @ ?c @ ?n @ rest" by (simp add: assms dns_reply_def rest_def)
  show "12 \<le> length d" unfolding d by (simp add: rest_def be32_bytes_def)
  show "ntohs (rd16 d 0) = ident" unfolding d using rd16_st16 [of "[]" 0 "htons ident"] by simp
  show "ntohs (rd16 d 2) = flags" unfolding d using rd16_st16 [of ?a 2] by simp
  show "ntohs (rd16 d 4) = 1" unfolding d using rd16_st16 [of "?a @ ?b" 4] by simp
  show "ntohs (rd16 d 6) = an" unfolding d using rd16_st16 [of "?a @ ?b @ ?c" 6] by simp
qed

text \<open>
  Claim C33. A reply to the pending query without error flags that repeats the question for a host name of fewer
  than 256 characters as \<open>encode_name\<close> writes it is taken as the answer with the address of its first address
  record. The records may have any owner name (labels, a pointer, or labels and a pointer), class, time to live
  and, in front of the address record, any type and contents but those of an address record of four bytes, so that an
  alias and the address of its target are such a reply; what follows the address record is arbitrary.
\<close>

theorem dns_reply_resolves:
  assumes "s_id (net_dnsq s) = ident" "length host < 256" "flags AND 0x8000 \<noteq> 0" "flags AND 0x000F = 0" "length cs < unat an"
    and "\<forall>c \<in> set cs. rr_ok c \<and> (rr_type c \<noteq> 1 \<or> length (rr_data c) \<noteq> 4)"
    and "rr_ok r" "rr_type r = 1" "rr_data r = be32_bytes ip"
  shows "dns_recv (dns_reply ident flags an counts host (map dns_rr (cs @ [r])) extra) s =
    s\<lparr>net_dnsq := (net_dnsq s)\<lparr>s_ip := ip, s_ok := True, s_got := True\<rparr>\<rparr>"
proof -
  define front where "front = st16 (htons ident) @ st16 (htons flags) @ st16 (htons 1) @ st16 (htons an) @ be32_bytes counts"
  define d where "d = dns_reply ident flags an counts host (map dns_rr (cs @ [r])) extra"
  have d': "d = front @ encode_name host @ [0, 1, 0, 1] @ concat (map dns_rr cs) @ dns_rr r @ extra"
    by (simp add: d_def dns_reply_def front_def)
  have fl: "length front = 12" by (simp add: front_def be32_bytes_def)
  note H = dns_reply_header [OF d_def]
  have "skip_name d 12 = 12 + length (encode_name host)"
    using skip_name_encoded [OF assms(2), of front] fl unfolding d' by simp
  moreover have "12 < length d" using fl by (simp add: d' encode_name_def)
  ultimately have q: "skip_questions d 1 12 = 12 + length (encode_name host) + 4"
    unfolding One_nat_def skip_questions.simps by simp
  have "dns_answers d (unat an) (12 + length (encode_name host) + 4) = Some (Some ip)"
    using dns_answers_found [OF assms(6-9,5), of "front @ encode_name host @ [0, 1, 0, 1]" extra] fl unfolding d' by simp
  moreover have "unat an \<noteq> 0" using assms(5) by simp
  ultimately have "dns_parse ident d = Some (Dns_address ip)"
    using H q assms(3,4) by (simp add: dns_parse_def DNS_HDR_LEN_def Let_def)
  then show ?thesis using assms(1) by (simp add: dns_recv_def d_def)
qed

text \<open>The reply to a query for \<open>a.b\<close>: it is an alias for \<open>x\<close>, and \<open>x\<close> has an address.\<close>

definition demo_alias :: dns_record where
  "demo_alias = \<lparr>rr_labels = [], rr_tail = [0xC0, 0x0C], rr_type = 5, rr_class = 1, rr_ttl = 9, rr_data = [1, 0x78, 0]\<rparr>"

definition demo_target :: dns_record where
  "demo_target = \<lparr>rr_labels = [[0x78]], rr_tail = [0], rr_type = 1, rr_class = 1, rr_ttl = 9, rr_data = [1, 2, 3, 4]\<rparr>"

theorem dns_reply_resolves_witness:
  "s_ip (net_dnsq (dns_recv (dns_reply 0 0x8180 2 0 [0x61, 0x2E, 0x62] (map dns_rr [demo_alias, demo_target]) []) demo_net)) = 0x01020304"
proof -
  have "be32_bytes 0x01020304 = [1, 2, 3, 4]" by (simp add: be32_bytes_def)
  then show ?thesis
    using dns_reply_resolves [of demo_net 0 "[0x61, 0x2E, 0x62]" "0x8180" "[demo_alias]" 2 demo_target "0x01020304" 0 "[]"]
    by (simp add: demo_net_def demo_alias_def demo_target_def rr_ok_def name_ok_def)
qed

section \<open>A DHCP reply\<close>

text \<open>
  The options of a message as a list, its bytes, and what the list says: later options win,
  and an option whose value is too short is skipped.
\<close>

definition opt_bytes :: "u8 \<times> bytes \<Rightarrow> bytes" where
  "opt_bytes ov = fst ov # of_nat (length (snd ov)) # snd ov"

definition ip_of :: "bytes \<Rightarrow> u32" where
  "ip_of v = push_bit 24 (ucast (v ! 0)) OR push_bit 16 (ucast (v ! 1)) OR push_bit 8 (ucast (v ! 2)) OR ucast (v ! 3)"

definition apply_opt :: "u8 \<times> bytes \<Rightarrow> dhcp_opts \<Rightarrow> dhcp_opts" where
  "apply_opt ov r = (case ov of (code, v) \<Rightarrow>
     if code = 53 \<and> 1 \<le> length v then r\<lparr>msg_type := v ! 0\<rparr>
     else if code = 1 \<and> 4 \<le> length v then r\<lparr>opt_mask := ip_of v\<rparr>
     else if code = 3 \<and> 4 \<le> length v then r\<lparr>opt_gw := ip_of v\<rparr>
     else if code = 6 \<and> 4 \<le> length v then r\<lparr>opt_dns := ip_of v\<rparr>
     else if code = 54 \<and> 4 \<le> length v then r\<lparr>opt_srv := ip_of v\<rparr>
     else r)"

definition valid_opt :: "u8 \<times> bytes \<Rightarrow> bool" where
  "valid_opt ov \<longleftrightarrow> fst ov \<noteq> 0 \<and> fst ov \<noteq> 255 \<and> length (snd ov) < 256"

lemma opt_ip_value: "4 \<le> length v \<Longrightarrow> opt_ip (pre @ v @ rest) (length pre) = Some (ip_of v)"
  by (cases v) (auto simp: opt_ip_def ip_of_def at8_def nth_append)

lemma dhcp_option_value: "dhcp_option (pre @ v @ rest) code (length v) (length pre) r = Some (apply_opt (code, v) r)"
proof (cases "4 \<le> length v")
  case True
  then have "v \<noteq> []" by auto
  then show ?thesis
    by (simp add: dhcp_option_def apply_opt_def opt_ip_value [OF True] at8_def nth_append)
next
  case False
  then show ?thesis
    by (simp add: dhcp_option_def apply_opt_def at8_def nth_append)
qed

lemma dhcp_options_list:
  assumes "\<forall>ov \<in> set os. valid_opt ov"
  shows "dhcp_options (pre @ concat (map opt_bytes os) @ 255 # junk) (length pre) r = Some (fold apply_opt os r)"
  using assms
proof (induction os arbitrary: pre r)
  case Nil
  then show ?case by (subst dhcp_options.simps) (simp add: nth_append)
next
  case (Cons ov os)
  obtain code v where ov: "ov = (code, v)" by (cases ov)
  have ok: "code \<noteq> 0" "code \<noteq> 255" "length v < 256" using Cons.prems by (simp_all add: ov valid_opt_def)
  define rest where "rest = concat (map opt_bytes os) @ 255 # junk"
  define d where "d = pre @ code # of_nat (length v) # v @ rest"
  have "unat (of_nat (length v) :: u8) = length v" using ok(3) by (simp add: unsigned_of_nat take_bit_nat_eq_self)
  then have f: "d ! length pre = code" "unat (d ! (length pre + 1)) = length v" "length pre + 2 + length v \<le> length d"
    "length pre + 1 < length d" "length pre < length d"
    by (simp_all add: d_def nth_append)
  have o: "dhcp_option d code (length v) (length pre + 2) r = Some (apply_opt ov r)"
    using dhcp_option_value [of "pre @ [code, of_nat (length v)]" v rest code r] by (simp add: d_def ov)
  have "dhcp_options d (length pre) r = dhcp_options d (length pre + 2 + length v) (apply_opt ov r)"
    using f ok(1,2) o by (subst dhcp_options.simps) (simp add: Let_def)
  also have "\<dots> = Some (fold apply_opt os (apply_opt ov r))"
    using Cons.IH [of "pre @ code # of_nat (length v) # v" "apply_opt ov r"] Cons.prems by (simp add: d_def rest_def)
  finally have "dhcp_options d (length pre) r = Some (fold apply_opt (ov # os) r)" by simp
  moreover have "d = pre @ concat (map opt_bytes (ov # os)) @ 255 # junk"
    by (simp add: d_def rest_def ov opt_bytes_def [of "(code, v)"])
  ultimately show ?case by simp
qed

text \<open>A reply: fixed header with transaction, offered and server address, cookie and options.\<close>

definition dhcp_reply :: "bytes \<Rightarrow> u32 \<Rightarrow> bytes \<Rightarrow> u32 \<Rightarrow> u32 \<Rightarrow> bytes \<Rightarrow> (u8 \<times> bytes) list \<Rightarrow> bytes \<Rightarrow> bytes" where
  "dhcp_reply h1 xid h2 yiaddr siaddr h3 os junk =
     2 # h1 @ st32 (htonl xid) @ h2 @ st32 (htonl yiaddr) @ st32 (htonl siaddr) @ h3 @ be32_bytes DHCP_MAGIC
       @ concat (map opt_bytes os) @ 255 # junk"

lemma dhcp_reply_fields:
  assumes "length h1 = 3" "length h2 = 8" "length h3 = 212" "d = dhcp_reply h1 xid h2 yiaddr siaddr h3 os junk"
  shows "240 \<le> length d" "d ! 0 = 2" "ntohl (rd32 d 4) = xid" "ntohl (rd32 d 16) = yiaddr" "ntohl (rd32 d 20) = siaddr"
    "opt_ip d 236 = Some DHCP_MAGIC"
    "\<exists>pre. length pre = 240 \<and> d = pre @ concat (map opt_bytes os) @ 255 # junk"
proof -
  let ?x = "st32 (htonl xid)" and ?y = "st32 (htonl yiaddr)" and ?s = "st32 (htonl siaddr)"
  let ?rest = "concat (map opt_bytes os) @ 255 # junk"
  have d: "d = (2 # h1) @ ?x @ h2 @ ?y @ ?s @ h3 @ be32_bytes DHCP_MAGIC @ ?rest" by (simp add: assms(4) dhcp_reply_def)
  have m: "length (be32_bytes DHCP_MAGIC) = 4" by (simp add: be32_bytes_def)
  show "240 \<le> length d" using assms(1-3) m by (simp add: d)
  show "d ! 0 = 2" by (simp add: d)
  show "ntohl (rd32 d 4) = xid" unfolding d using rd32_st32 [of "2 # h1" 4 "htonl xid"] assms(1) by simp
  show "ntohl (rd32 d 16) = yiaddr" unfolding d using rd32_st32 [of "(2 # h1) @ ?x @ h2" 16 "htonl yiaddr"] assms(1,2) by simp
  show "ntohl (rd32 d 20) = siaddr" unfolding d using rd32_st32 [of "(2 # h1) @ ?x @ h2 @ ?y" 20 "htonl siaddr"] assms(1,2) by simp
  show "opt_ip d 236 = Some DHCP_MAGIC"
    using opt_ip_be32 [of "(2 # h1) @ ?x @ h2 @ ?y @ ?s @ h3" DHCP_MAGIC ?rest] assms(1-3) by (simp add: d)
  show "\<exists>pre. length pre = 240 \<and> d = pre @ ?rest"
    by (intro exI [of _ "(2 # h1) @ ?x @ h2 @ ?y @ ?s @ h3 @ be32_bytes DHCP_MAGIC"]) (use assms(1-3) m in \<open>simp add: d\<close>)
qed

text \<open>
  Claim C34. A reply of the DHCP server to our transaction, whatever options it carries in
  whatever order, is recorded with the offered address of its header and, of the message type,
  mask, router, name server and server identifier, what the option list says; the server
  address of the header stands in for a missing server identifier.
\<close>

theorem dhcp_reply_recorded:
  assumes "\<forall>ov \<in> set os. valid_opt ov" "length h1 = 3" "length h2 = 8" "length h3 = 212"
    and "s_dhcp_xid (net_dhcp s) = xid"
  shows "let r = fold apply_opt os no_opts in
    dhcp_recv (dhcp_reply h1 xid h2 yiaddr siaddr h3 os junk) s =
      s\<lparr>net_dhcp := (net_dhcp s)\<lparr>s_dhcp_type := msg_type r, s_dhcp_yiaddr := yiaddr,
        s_dhcp_srv := (if opt_srv r \<noteq> 0 then opt_srv r else siaddr), s_dhcp_mask := opt_mask r,
        s_dhcp_gw := opt_gw r, s_dhcp_dns := opt_dns r, s_dhcp_got := True\<rparr>\<rparr>"
proof -
  define d where "d = dhcp_reply h1 xid h2 yiaddr siaddr h3 os junk"
  note F = dhcp_reply_fields [OF assms(2-4) d_def]
  have "dhcp_options d 240 no_opts = Some (fold apply_opt os no_opts)"
    using F(7) dhcp_options_list [OF assms(1), of _ junk no_opts] by metis
  then have "dhcp_parse xid d = Some (Some (fold apply_opt os no_opts, yiaddr, siaddr))"
    using F(1-6) by (simp add: dhcp_parse_def BOOTP_HDR_LEN_def)
  then show ?thesis using assms(5) by (simp add: dhcp_recv_def d_def Let_def)
qed

theorem dhcp_reply_recorded_witness:
  "s_dhcp_mask (net_dhcp (dhcp_recv (dhcp_reply [0, 0, 0] 0 (replicate 8 0) 0x0A000005 0 (replicate 212 0)
     [(53, [2]), (1, [255, 255, 255, 0])] []) demo_net)) = 0xFFFFFF00"
  using dhcp_reply_recorded [of "[(53, [2]), (1, [255, 255, 255, 0])]" "[0, 0, 0]" "replicate 8 0" "replicate 212 0" demo_net 0
      "0x0A000005" 0 "[]"]
  by (simp add: demo_net_def valid_opt_def Let_def apply_opt_def ip_of_def no_opts_def)

section \<open>Datagrams\<close>

lemma udp_accept_datagram:
  assumes "length payload \<le> 65527"
  shows "udp_accept (udp_datagram src_port dst_port payload) = Some (dst_port, payload)"
proof -
  let ?n = "8 + length payload"
  let ?a = "st16 (htons src_port)" and ?b = "st16 (htons dst_port)" and ?c = "st16 (htons (of_nat ?n))"
  define d where "d = udp_datagram src_port dst_port payload"
  have d: "d = ?a @ ?b @ ?c @ st16 0 @ payload" by (simp add: d_def udp_datagram_def UDP_HDR_LEN_def)
  have "ntohs (rd16 d 2) = dst_port" unfolding d using rd16_st16 [of ?a 2] by simp
  moreover have "ntohs (rd16 d 4) = of_nat ?n" unfolding d using rd16_st16 [of "?a @ ?b" 4] by simp
  moreover have "unat (of_nat ?n :: u16) = ?n" using assms by (simp only: unsigned_of_nat) (simp add: take_bit_nat_eq_self)
  ultimately show ?thesis
    unfolding d_def [symmetric] by (simp add: udp_accept_def UDP_HDR_LEN_def Let_def) (simp add: d)
qed

text \<open>After a bind to an unused port in a table with a free entry, the port's datagrams reach the handler.\<close>

lemma udp_recv_bound:
  assumes "\<forall>b \<in> set (s_binds s). ub_valid b \<longrightarrow> ub_port b \<noteq> port" "\<exists>b \<in> set (s_binds s). \<not> ub_valid b"
    "length payload \<le> 65527"
  shows "udp_recv ip (udp_datagram sp port payload) (udp_bind port h s) =
    (case h of Dns_recv \<Rightarrow> dns_recv payload (udp_bind port h s) | Dhcp_recv \<Rightarrow> dhcp_recv payload (udp_bind port h s))"
proof -
  obtain i where i: "first_idx (\<lambda>b. \<not> ub_valid b) (s_binds s) = Some i"
    using assms(2) first_idx_None [of "\<lambda>b. \<not> ub_valid b" "s_binds s"] by (cases "first_idx (\<lambda>b. \<not> ub_valid b) (s_binds s)") auto
  then have il: "i < length (s_binds s)" by (simp add: first_idx_Some)
  let ?b = "\<lparr>ub_port = port, ub_handler = h, ub_valid = True\<rparr>"
  have "first_idx (\<lambda>b. ub_valid b \<and> ub_port b = port) ((s_binds s)[i := ?b]) = Some i"
    using assms(1) il by (auto simp: first_idx_Some nth_list_update)
  then show ?thesis
    using i il udp_accept_datagram [OF assms(3), of sp port] by (cases h) (simp_all add: udp_recv_def udp_bind_def)
qed

lemma udp_unbind_bind:
  assumes "\<forall>b \<in> set (s_binds s). ub_valid b \<longrightarrow> ub_port b \<noteq> port" "b \<in> set (s_binds (udp_unbind port (udp_bind port h s)))"
    "ub_valid b"
  shows "ub_port b \<noteq> port"
proof (cases "first_idx (\<lambda>b. \<not> ub_valid b) (s_binds s)")
  case None
  then have "udp_bind port h s = s" by (simp add: udp_bind_def)
  moreover have "first_idx (\<lambda>b. ub_valid b \<and> ub_port b = port) (s_binds s) = None"
    using assms(1) by (auto simp: first_idx_None)
  ultimately show ?thesis using assms by (simp add: udp_unbind_def)
next
  case (Some i)
  then have il: "i < length (s_binds s)" by (simp add: first_idx_Some)
  let ?b = "\<lparr>ub_port = port, ub_handler = h, ub_valid = True\<rparr>"
  have "first_idx (\<lambda>b. ub_valid b \<and> ub_port b = port) ((s_binds s)[i := ?b]) = Some i"
    using assms(1) il by (auto simp: first_idx_Some nth_list_update)
  then have "s_binds (udp_unbind port (udp_bind port h s)) = (s_binds s)[i := ?b\<lparr>ub_valid := False\<rparr>]"
    using Some il by (simp add: udp_unbind_def udp_bind_def)
  then have "b = ?b\<lparr>ub_valid := False\<rparr> \<or> b \<in> set (s_binds s)"
    using assms(2) set_update_subset_insert [of "s_binds s" i "?b\<lparr>ub_valid := False\<rparr>"] by (metis insertE subsetD)
  moreover have "b \<noteq> ?b\<lparr>ub_valid := False\<rparr>"
  proof
    assume "b = ?b\<lparr>ub_valid := False\<rparr>"
    then have "ub_valid b = ub_valid (?b\<lparr>ub_valid := False\<rparr>)" by (rule arg_cong)
    with assms(3) show False by simp
  qed
  ultimately show ?thesis using assms(1,3) by blast
qed

end
