(* ===== verification/Netstack.thy ===== *)
theory Netstack
  imports Tcp Udp
begin

text \<open>
  The network stack as a whole: the dispatch of received packets (\<open>ip4_recv\<close> of \<open>ip.c\<close>,
  \<open>net_poll\<close> and \<open>net_init\<close> of \<open>net.c\<close>) and the calls that wait for the network by polling it:
  \<open>icmp_ping\<close>, \<open>tcp_connect\<close>, \<open>tcp_write\<close>, \<open>tcp_read\<close>, \<open>tcp_close\<close>, \<open>dns_resolve\<close> and
  \<open>dhcp_request\<close>.

  What happens outside the stack while it polls (the clock advances, frames arrive) is the
  argument \<open>env\<close>, a function on the pair of a state of the outside world and the state of the
  stack, applied after every poll. A call that does not return is \<open>None\<close>. Shown here: every one
  of these calls returns when the clock keeps advancing, and a datagram handed to the card by
  one host and polled by another reaches the handler bound to its port with its payload.
\<close>

section \<open>Received packets\<close>

definition ip4_recv :: "bytes \<Rightarrow> net \<Rightarrow> net" where
  "ip4_recv payload s =
     (case ip4_accept s payload of
        None \<Rightarrow> s
      | Some (src_ip, proto, data) \<Rightarrow>
          if proto = IP_PROTO_ICMP then icmp_recv src_ip data s
          else if proto = IP_PROTO_UDP then udp_recv src_ip data s
          else if proto = IP_PROTO_TCP then tcp_recv_ip src_ip data s
          else s)"

definition RX_BUF_SIZE :: nat where "RX_BUF_SIZE = 1536"

definition net_frame :: "bytes \<Rightarrow> net \<Rightarrow> net" where
  "net_frame frame s =
     (if length frame < ETH_HLEN then s
      else
        let proto = ntohs (rd16 frame 12); payload = drop ETH_HLEN frame in
        if proto = ETH_PROTO_ARP then arp_recv payload s
        else if proto = ETH_PROTO_IP then ip4_recv payload s
        else s)"

fun net_poll_loop :: "nat \<Rightarrow> net \<Rightarrow> net" where
  "net_poll_loop 0 s = s"
| "net_poll_loop (Suc n) s =
     (let (frame, s1) = net_nic_recv RX_BUF_SIZE s
      in if length frame = 0 then s1 else net_poll_loop n (net_frame frame s1))"

definition net_poll :: "net \<Rightarrow> net" where
  "net_poll s = (if \<not> net_nic_present s then s else net_poll_loop 8 s)"

definition net_init :: "bytes \<Rightarrow> net \<Rightarrow> net" where
  "net_init nic_mac s = (if \<not> net_nic_present s then s else arp_init (s\<lparr>net_mac := nic_mac\<rparr>))"

section \<open>Waiting\<close>

text \<open>
  The loop of every waiting call: \<open>while (pit_ticks() < deadline && go) { net_poll(); act; }\<close>,
  where \<open>act\<close> may break out. The flag of the result tells whether it did.
\<close>

partial_function (option) poll_loop ::
  "(net \<Rightarrow> bool) \<Rightarrow> (net \<Rightarrow> bool \<times> net) \<Rightarrow> ('w \<times> net \<Rightarrow> 'w \<times> net) \<Rightarrow> u64 \<Rightarrow> 'w \<times> net \<Rightarrow> (bool \<times> 'w \<times> net) option" where
  "poll_loop go act env deadline ws =
     (if net_ticks (snd ws) < deadline \<and> go (snd ws)
      then let ws1 = env (fst ws, net_poll (snd ws)); r = act (snd ws1)
           in if fst r then Some (True, fst ws1, snd r) else poll_loop go act env deadline (fst ws1, snd r)
      else Some (False, ws))"

definition arp_found :: "u32 \<Rightarrow> net \<Rightarrow> bool \<times> net" where
  "arp_found ip s = (let r = arp_resolve ip s in (fst r \<noteq> None, snd r))"

definition no_act :: "net \<Rightarrow> bool \<times> net" where
  "no_act s = (False, s)"

text \<open>\<open>if (!arp_resolve(..)) { ... while (pit_ticks() < dl) { net_poll(); if (arp_resolve(..)) break; } }\<close>\<close>

definition arp_poll :: "('w \<times> net \<Rightarrow> 'w \<times> net) \<Rightarrow> u32 \<Rightarrow> 'w \<times> net \<Rightarrow> ('w \<times> net) option" where
  "arp_poll env ip ws =
     (let r = arp_found ip (snd ws) in
      if fst r then Some (fst ws, snd r)
      else do {
        x \<leftarrow> poll_loop (\<lambda>_. True) (arp_found ip) env (net_ticks (snd r) + 400) (fst ws, snd r);
        Some (snd x) })"

text \<open>The same followed by a last look at the cache, whose failure ends the call.\<close>

definition arp_ensure :: "('w \<times> net \<Rightarrow> 'w \<times> net) \<Rightarrow> u32 \<Rightarrow> 'w \<times> net \<Rightarrow> (bool \<times> 'w \<times> net) option" where
  "arp_ensure env ip ws =
     (let r = arp_found ip (snd ws) in
      if fst r then Some (True, fst ws, snd r)
      else do {
        x \<leftarrow> poll_loop (\<lambda>_. True) (arp_found ip) env (net_ticks (snd r) + 400) (fst ws, snd r);
        let r1 = arp_found ip (snd (snd x));
        Some (fst r1, fst (snd x), snd r1) })"

section \<open>TCP calls\<close>

definition tcp_open :: "u32 \<Rightarrow> u16 \<Rightarrow> net \<Rightarrow> net" where
  "tcp_open dst_ip dst_port s =
     (let t = net_tcb s; nl = s_next_lport t + 1 in
      upd_tcb (\<lambda>t. t\<lparr>s_snd_seq := s_snd_seq t + 1\<rparr>)
        (snd (tcp_send_raw TCP_SYN []
          (s\<lparr>net_tcb := t\<lparr>s_remote_ip := dst_ip, s_rport := dst_port, s_lport := s_next_lport t,
             s_next_lport := (if nl < 49152 then 49152 else nl),
             s_snd_seq := ucast (net_ticks s), s_snd_una := ucast (net_ticks s), s_rcv_nxt := 0,
             s_rx_head := 0, s_rx_tail := 0, s_rx_len := 0, s_rx_fin := False, s_state := TCP_SYN_SENT\<rparr>\<rparr>))))"

definition tcp_set_state :: "tcp_state \<Rightarrow> net \<Rightarrow> net" where
  "tcp_set_state st = upd_tcb (\<lambda>t. t\<lparr>s_state := st\<rparr>)"

definition tcp_connect :: "('w \<times> net \<Rightarrow> 'w \<times> net) \<Rightarrow> u32 \<Rightarrow> u16 \<Rightarrow> 'w \<times> net \<Rightarrow> (bool \<times> 'w \<times> net) option" where
  "tcp_connect env dst_ip dst_port ws =
     (if s_state (net_tcb (snd ws)) \<noteq> TCP_CLOSED then Some (False, ws)
      else do {
          a \<leftarrow> arp_ensure env (next_hop dst_ip (snd ws)) ws;
          if \<not> fst a then Some (False, snd a)
          else do {
            let s1 = tcp_open dst_ip dst_port (snd (snd a));
            b \<leftarrow> poll_loop (\<lambda>s. s_state (net_tcb s) = TCP_SYN_SENT) no_act env (net_ticks s1 + 300) (fst (snd a), s1);
            let s2 = snd (snd b);
            if s_state (net_tcb s2) \<noteq> TCP_ESTABLISHED then Some (False, fst (snd b), tcp_set_state TCP_CLOSED s2)
            else Some (True, fst (snd b), s2) } })"

datatype ack_result = Acked | Conn_lost | Ack_timeout

definition ack_or_lost :: "net \<Rightarrow> bool \<times> net" where
  "ack_or_lost s = (s_snd_una (net_tcb s) \<ge> s_snd_seq (net_tcb s) \<or> s_state (net_tcb s) \<noteq> TCP_ESTABLISHED, s)"

definition tcp_retransmit :: "u32 \<Rightarrow> bytes \<Rightarrow> net \<Rightarrow> net" where
  "tcp_retransmit seq_start chunk s =
     upd_tcb (\<lambda>t. t\<lparr>s_snd_seq := seq_start + of_nat (length chunk)\<rparr>)
       (snd (tcp_send_raw (TCP_PSH OR TCP_ACK) chunk (upd_tcb (\<lambda>t. t\<lparr>s_snd_seq := seq_start\<rparr>) s)))"

fun tcp_await_ack :: "nat \<Rightarrow> ('w \<times> net \<Rightarrow> 'w \<times> net) \<Rightarrow> u32 \<Rightarrow> bytes \<Rightarrow> 'w \<times> net \<Rightarrow> (ack_result \<times> 'w \<times> net) option" where
  "tcp_await_ack 0 env seq_start chunk ws = Some (Ack_timeout, ws)"
| "tcp_await_ack (Suc n) env seq_start chunk ws = do {
     x \<leftarrow> poll_loop (\<lambda>_. True) ack_or_lost env (net_ticks (snd ws) + 100) ws;
     let s1 = snd (snd x);
     if fst x
     then if s_snd_una (net_tcb s1) \<ge> s_snd_seq (net_tcb s1) then Some (Acked, snd x) else Some (Conn_lost, snd x)
     else tcp_await_ack n env seq_start chunk (fst (snd x), tcp_retransmit seq_start chunk s1) }"

text \<open>The result is the number of bytes sent and acknowledged, or -1.\<close>

partial_function (option) tcp_write_loop ::
  "('w \<times> net \<Rightarrow> 'w \<times> net) \<Rightarrow> bytes \<Rightarrow> nat \<Rightarrow> 'w \<times> net \<Rightarrow> (int \<times> 'w \<times> net) option" where
  "tcp_write_loop env data sent ws =
     (if \<not> sent < length data then Some (int sent, ws)
      else if s_state (net_tcb (snd ws)) \<noteq> TCP_ESTABLISHED then Some (int sent, ws)
      else do {
        let chunk = take TCP_MSS (drop sent data);
        let seq_start = s_snd_seq (net_tcb (snd ws));
        let s1 = upd_tcb (\<lambda>t. t\<lparr>s_snd_seq := s_snd_seq t + of_nat (length chunk)\<rparr>) (snd (tcp_send_raw (TCP_PSH OR TCP_ACK) chunk (snd ws)));
        x \<leftarrow> tcp_await_ack 5 env seq_start chunk (fst ws, s1);
        (case fst x of
           Acked \<Rightarrow> tcp_write_loop env data (sent + length chunk) (snd x)
         | Conn_lost \<Rightarrow> Some (int sent, snd x)
         | Ack_timeout \<Rightarrow> Some (- 1, snd x)) })"

definition tcp_write :: "('w \<times> net \<Rightarrow> 'w \<times> net) \<Rightarrow> bytes \<Rightarrow> 'w \<times> net \<Rightarrow> (int \<times> 'w \<times> net) option" where
  "tcp_write env data ws =
     (if s_state (net_tcb (snd ws)) \<noteq> TCP_ESTABLISHED then Some (- 1, ws) else tcp_write_loop env data 0 ws)"

text \<open>The result is the bytes read, or \<open>None\<close> for -1. The empty result is the end of the stream.\<close>

definition rx_idle :: "tcb \<Rightarrow> bool" where
  "rx_idle t \<longleftrightarrow> s_rx_len t = 0 \<and> \<not> s_rx_fin t"

definition tcp_read :: "('w \<times> net \<Rightarrow> 'w \<times> net) \<Rightarrow> nat \<Rightarrow> u32 \<Rightarrow> 'w \<times> net \<Rightarrow> (bytes option \<times> 'w \<times> net) option" where
  "tcp_read env len timeout_ticks ws =
     (if s_state (net_tcb (snd ws)) = TCP_CLOSED then Some (None, ws)
      else do {
        x \<leftarrow> poll_loop (\<lambda>s. rx_idle (net_tcb s) \<and> s_state (net_tcb s) \<noteq> TCP_CLOSED) no_act env
              (net_ticks (snd ws) + ucast timeout_ticks) ws;
        let t = net_tcb (snd (snd x));
        if rx_idle t then Some (None, snd x)
        else if s_rx_len t > 0
        then let r = rx_pop len t in Some (Some (fst r), fst (snd x), (snd (snd x))\<lparr>net_tcb := snd r\<rparr>)
        else Some (Some [], snd x) })"

definition tcp_closed :: "net \<Rightarrow> bool \<times> net" where
  "tcp_closed s = (s_state (net_tcb s) = TCP_TIME_WAIT \<or> s_state (net_tcb s) = TCP_CLOSED, s)"

definition tcp_close :: "('w \<times> net \<Rightarrow> 'w \<times> net) \<Rightarrow> 'w \<times> net \<Rightarrow> ('w \<times> net) option" where
  "tcp_close env ws =
     (let s = snd ws; st = s_state (net_tcb s) in
      if st = TCP_CLOSED \<or> st = TCP_TIME_WAIT then Some (fst ws, tcp_set_state TCP_CLOSED s)
      else if st = TCP_ESTABLISHED \<or> st = TCP_CLOSE_WAIT then do {
        let s1 = tcp_set_state (if st = TCP_CLOSE_WAIT then TCP_LAST_ACK else TCP_FIN_WAIT_1)
                   (upd_tcb (\<lambda>t. t\<lparr>s_snd_seq := s_snd_seq t + 1\<rparr>) (snd (tcp_send_raw (TCP_FIN OR TCP_ACK) [] s)));
        x \<leftarrow> poll_loop (\<lambda>_. True) tcp_closed env (net_ticks s1 + 500) (fst ws, s1);
        Some (fst (snd x), tcp_set_state TCP_CLOSED (snd (snd x))) }
      else Some (fst ws, tcp_set_state TCP_CLOSED s))"

section \<open>Ping\<close>

definition upd_ping :: "(ping_state \<Rightarrow> ping_state) \<Rightarrow> net \<Rightarrow> net" where
  "upd_ping f s = s\<lparr>g_ping := f (g_ping s)\<rparr>"

definition got_reply :: "net \<Rightarrow> bool \<times> net" where
  "got_reply s = (ping_reply (g_ping s), s)"

text \<open>One round: the flag tells whether the reply arrived.\<close>

definition ping_round :: "('w \<times> net \<Rightarrow> 'w \<times> net) \<Rightarrow> u32 \<Rightarrow> u16 \<Rightarrow> u32 \<Rightarrow> u16 \<Rightarrow> 'w \<times> net \<Rightarrow> (bool \<times> 'w \<times> net) option" where
  "ping_round env dst_ip count timeout_ticks sq ws = do {
     let s1 = upd_ping (\<lambda>p. p\<lparr>ping_id := 0x4649, ping_seq := sq, ping_reply := False, ping_waiting := True\<rparr>) (snd ws);
     let r = ip4_send dst_ip IP_PROTO_ICMP
               (icmp_echo ICMP_ECHO_REQUEST (htons 0x4649) (htons sq) [1, 2, 3, 4, 5, 6, 7, 8]) s1;
     if \<not> fst r then Some (False, fst ws, upd_ping (\<lambda>p. p\<lparr>ping_waiting := False\<rparr>) (snd r))
     else do {
       x \<leftarrow> poll_loop (\<lambda>_. True) got_reply env (net_ticks (snd r) + ucast timeout_ticks) (fst ws, snd r);
       let ok = ping_reply (g_ping (snd (snd x)));
       let s2 = upd_ping (\<lambda>p. p\<lparr>ping_waiting := False\<rparr>) (snd (snd x));
       if sq < count
       then do { y \<leftarrow> poll_loop (\<lambda>_. True) no_act env (net_ticks s2 + 100) (fst (snd x), s2); Some (ok, snd y) }
       else Some (ok, fst (snd x), s2) } }"

partial_function (option) ping_loop ::
  "('w \<times> net \<Rightarrow> 'w \<times> net) \<Rightarrow> u32 \<Rightarrow> u16 \<Rightarrow> u32 \<Rightarrow> u16 \<Rightarrow> nat \<Rightarrow> 'w \<times> net \<Rightarrow> (nat \<times> 'w \<times> net) option" where
  "ping_loop env dst_ip count timeout_ticks sq received ws =
     (if sq \<le> count
      then do {
        x \<leftarrow> ping_round env dst_ip count timeout_ticks sq ws;
        ping_loop env dst_ip count timeout_ticks (sq + 1) (if fst x then received + 1 else received) (snd x) }
      else Some (received, ws))"

text \<open>
  The loss percentage that is printed at the end is a division by \<open>count\<close>: with a count of
  zero the call does not return.
\<close>

definition icmp_ping :: "('w \<times> net \<Rightarrow> 'w \<times> net) \<Rightarrow> u32 \<Rightarrow> u16 \<Rightarrow> u32 \<Rightarrow> 'w \<times> net \<Rightarrow> (bool \<times> 'w \<times> net) option" where
  "icmp_ping env dst_ip count timeout_ticks ws =
     (if \<not> net_nic_present (snd ws) then Some (False, ws)
      else do {
          a \<leftarrow> arp_ensure env (next_hop dst_ip (snd ws)) ws;
          if \<not> fst a then Some (False, snd a)
          else do {
            b \<leftarrow> ping_loop env dst_ip count timeout_ticks 1 0 (snd a);
            if count = 0 then None else Some (fst b > 0, snd b) } })"

section \<open>DNS and DHCP exchanges\<close>

definition upd_dnsq :: "(dns_state \<Rightarrow> dns_state) \<Rightarrow> net \<Rightarrow> net" where
  "upd_dnsq f s = s\<lparr>net_dnsq := f (net_dnsq s)\<rparr>"

definition dns_resolve :: "('w \<times> net \<Rightarrow> 'w \<times> net) \<Rightarrow> bytes \<Rightarrow> 'w \<times> net \<Rightarrow> (u32 option \<times> 'w \<times> net) option" where
  "dns_resolve env hostname ws =
     (if \<not> net_nic_present (snd ws) then Some (None, ws)
      else if hostname = [] then Some (None, ws)
      else do {
        let srv = net_dns (snd ws);
        a \<leftarrow> arp_poll env (next_hop srv (snd ws)) ws;
        let s1 = upd_dnsq (\<lambda>q. q\<lparr>s_id := s_counter q, s_counter := s_counter q + 1, s_got := False, s_ok := False\<rparr>) (snd a);
        pkt \<leftarrow> dns_query (s_id (net_dnsq s1)) hostname;
        let s2 = snd (udp_send srv DNS_CLIENT_PORT DNS_SERVER_PORT pkt (udp_bind DNS_CLIENT_PORT Dns_recv s1));
        x \<leftarrow> poll_loop (\<lambda>s. \<not> s_got (net_dnsq s)) no_act env (net_ticks s2 + 300) (fst a, s2);
        let s3 = udp_unbind DNS_CLIENT_PORT (snd (snd x));
        Some (if s_got (net_dnsq s3) \<and> s_ok (net_dnsq s3) then Some (s_ip (net_dnsq s3)) else None, fst (snd x), s3) })"

definition upd_dhcp :: "(dhcp_state \<Rightarrow> dhcp_state) \<Rightarrow> net \<Rightarrow> net" where
  "upd_dhcp f s = s\<lparr>net_dhcp := f (net_dhcp s)\<rparr>"

text \<open>A message broadcast from address 0.0.0.0, the own address put back afterwards.\<close>

definition dhcp_broadcast :: "u32 \<Rightarrow> bytes \<Rightarrow> net \<Rightarrow> net" where
  "dhcp_broadcast old_ip msg s =
     (snd (udp_send 0xFFFFFFFF DHCP_CLIENT_PORT DHCP_SERVER_PORT msg
        ((upd_dhcp (\<lambda>d. d\<lparr>s_dhcp_got := False\<rparr>) s)\<lparr>net_ip := 0\<rparr>)))\<lparr>net_ip := old_ip\<rparr>"

text \<open>\<open>if (s_dhcp_got) { if (<expected type>) break; s_dhcp_got = false; }\<close>\<close>

definition dhcp_await :: "u8 list \<Rightarrow> net \<Rightarrow> bool \<times> net" where
  "dhcp_await types s =
     (if s_dhcp_got (net_dhcp s)
      then if s_dhcp_type (net_dhcp s) \<in> set types then (True, s)
           else (False, upd_dhcp (\<lambda>d. d\<lparr>s_dhcp_got := False\<rparr>) s)
      else (False, s))"

definition dhcp_apply :: "dhcp_state \<Rightarrow> net \<Rightarrow> net" where
  "dhcp_apply offer s =
     (let d = net_dhcp s in
      s\<lparr>net_ip := s_dhcp_yiaddr offer,
        net_mask := (if s_dhcp_mask d \<noteq> 0 then s_dhcp_mask d else if s_dhcp_mask offer \<noteq> 0 then s_dhcp_mask offer else net_mask s),
        net_gateway := (if s_dhcp_gw d \<noteq> 0 then s_dhcp_gw d else if s_dhcp_gw offer \<noteq> 0 then s_dhcp_gw offer else net_gateway s),
        net_dns := (if s_dhcp_dns d \<noteq> 0 then s_dhcp_dns d else if s_dhcp_dns offer \<noteq> 0 then s_dhcp_dns offer else net_dns s)\<rparr>)"

definition dhcp_request :: "('w \<times> net \<Rightarrow> 'w \<times> net) \<Rightarrow> 'w \<times> net \<Rightarrow> (bool \<times> 'w \<times> net) option" where
  "dhcp_request env ws =
     (if \<not> net_nic_present (snd ws) then Some (False, ws)
      else do {
        let s0 = udp_bind DHCP_CLIENT_PORT Dhcp_recv
                   (upd_dhcp (\<lambda>d. d\<lparr>s_dhcp_xid := ucast (net_ticks (snd ws)) XOR 0xF1F10000\<rparr>) (snd ws));
        let old_ip = net_ip s0;
        let s1 = dhcp_broadcast old_ip (dhcp_build DHCPDISCOVER 0 0 s0) s0;
        x \<leftarrow> poll_loop (\<lambda>_. True) (dhcp_await [DHCPOFFER]) env (net_ticks s1 + 400) (fst ws, s1);
        let s2 = snd (snd x);
        let offer = net_dhcp s2;
        if \<not> s_dhcp_got offer \<or> s_dhcp_type offer \<noteq> DHCPOFFER then Some (False, fst (snd x), udp_unbind DHCP_CLIENT_PORT s2)
        else do {
          let s3 = dhcp_broadcast old_ip (dhcp_build DHCPREQUEST (s_dhcp_yiaddr offer) (s_dhcp_srv offer) s2) s2;
          y \<leftarrow> poll_loop (\<lambda>_. True) (dhcp_await [DHCPACK, DHCPNAK]) env (net_ticks s3 + 400) (fst (snd x), s3);
          let s4 = snd (snd y);
          if \<not> s_dhcp_got (net_dhcp s4) \<or> s_dhcp_type (net_dhcp s4) \<noteq> DHCPACK
          then Some (False, fst (snd y), udp_unbind DHCP_CLIENT_PORT s4)
          else do {
            let s5 = arp_announce (dhcp_apply offer s4);
            z \<leftarrow> (if net_gateway s5 \<noteq> 0
                  then do {
                    let s6 = snd (arp_resolve (net_gateway s5) s5);
                    v \<leftarrow> poll_loop (\<lambda>_. True) (\<lambda>s. arp_found (net_gateway s) s) env (net_ticks s6 + 400) (fst (snd y), s6);
                    Some (snd v) }
                  else Some (fst (snd y), s5));
            Some (True, fst z, udp_unbind DHCP_CLIENT_PORT (snd z)) } } })"

section \<open>The stack leaves the clock alone\<close>

named_theorems ticks_simps

lemma ticks_send_eth [ticks_simps]: "net_ticks (snd (net_send_eth mac ty p s)) = net_ticks s"
  by (simp add: net_send_eth_def net_nic_send_def)

lemma ticks_arp_send [ticks_simps]: "net_ticks (arp_send oper d t ip s) = net_ticks s"
  by (simp add: arp_send_def ticks_simps)

lemma ticks_cache_store [ticks_simps]: "net_ticks (cache_store ip mac s) = net_ticks s"
  by (simp add: cache_store_def Let_def split: option.split)

lemma ticks_arp_recv [ticks_simps]: "net_ticks (arp_recv p s) = net_ticks s"
  by (simp add: arp_recv_def Let_def ticks_simps)

lemma ticks_arp_announce [ticks_simps]: "net_ticks (arp_announce s) = net_ticks s"
  by (simp add: arp_announce_def ticks_simps)

lemma ticks_arp_resolve [ticks_simps]: "net_ticks (snd (arp_resolve ip s)) = net_ticks s"
  by (simp add: arp_resolve_def Let_def ticks_simps split: option.split)

lemma ticks_ip4_send [ticks_simps]: "net_ticks (snd (ip4_send dst proto p s)) = net_ticks s"
proof -
  have "net_ticks s1 = net_ticks s" if "arp_resolve ip s = (m, s1)" for ip m s1
    using ticks_arp_resolve [of ip s] that by simp
  then show ?thesis
    by (auto simp: ip4_send_def Let_def ticks_simps split: option.split prod.split)
qed

lemma ticks_icmp_recv [ticks_simps]: "net_ticks (icmp_recv ip p s) = net_ticks s"
  by (simp add: icmp_recv_def Let_def ticks_simps)

lemma ticks_udp_recv [ticks_simps]: "net_ticks (udp_recv ip p s) = net_ticks s"
proof -
  have "net_ticks (dns_recv d s) = net_ticks s" "net_ticks (dhcp_recv d s) = net_ticks s" for d
    by (auto simp: dns_recv_def dhcp_recv_def split: option.split dns_outcome.split)
  then show ?thesis by (auto simp: udp_recv_def split: option.split udp_handler.split)
qed

lemma ticks_udp_send [ticks_simps]: "net_ticks (snd (udp_send ip sp dp d s)) = net_ticks s"
  by (simp add: udp_send_def ticks_simps)

lemma ticks_udp_bind [ticks_simps]: "net_ticks (udp_bind port h s) = net_ticks s" "net_ticks (udp_unbind port s) = net_ticks s"
  by (auto simp: udp_bind_def udp_unbind_def split: option.split)

lemma ticks_tcp_send [ticks_simps]: "net_ticks (snd (tcp_send_raw flags d s)) = net_ticks s" "net_ticks (send_ack s) = net_ticks s"
  by (simp_all add: tcp_send_raw_def send_ack_def ticks_simps)

lemma ticks_upd [ticks_simps]: "net_ticks (upd_tcb f s) = net_ticks s" "net_ticks (upd_ping g s) = net_ticks s"
    "net_ticks (upd_dnsq h s) = net_ticks s" "net_ticks (upd_dhcp k s) = net_ticks s" "net_ticks (tcp_set_state st s) = net_ticks s"
  by (simp_all add: upd_tcb_def upd_ping_def upd_dnsq_def upd_dhcp_def tcp_set_state_def)

lemma ticks_tcp_take [ticks_simps]: "net_ticks (tcp_take_ack flags a s) = net_ticks s" "net_ticks (tcp_take_data sq p s) = net_ticks s"
    "net_ticks (tcp_take_fin flags sq p s) = net_ticks s" "net_ticks (tcp_take_fin_ack flags a s) = net_ticks s"
  by (simp_all add: tcp_take_ack_def tcp_take_data_def tcp_take_fin_def tcp_take_fin_ack_def Let_def ticks_simps)

lemma ticks_tcp_recv_data [ticks_simps]: "net_ticks (tcp_recv_data flags sq a p s) = net_ticks s"
  by (simp only: tcp_recv_data_def ticks_simps)

lemma ticks_tcp_recv_ip [ticks_simps]: "net_ticks (tcp_recv_ip ip p s) = net_ticks s"
  unfolding tcp_recv_ip_def Let_def by (cases "s_state (net_tcb s)") (simp_all add: ticks_simps)

lemma ticks_net_frame [ticks_simps]: "net_ticks (net_frame f s) = net_ticks s"
  by (simp add: net_frame_def ip4_recv_def Let_def ticks_simps split: option.split)

lemma ticks_net_poll [ticks_simps]: "net_ticks (net_poll s) = net_ticks s"
proof -
  have r: "net_ticks (snd (net_nic_recv n s)) = net_ticks s" for n s
    by (simp add: net_nic_recv_def split: list.split)
  have "net_ticks (net_poll_loop n s) = net_ticks s" for n
    by (induction n arbitrary: s) (simp_all add: Let_def case_prod_beta r ticks_simps)
  then show ?thesis by (simp add: net_poll_def)
qed

lemma ticks_acts [ticks_simps]: "net_ticks (snd (arp_found ip s)) = net_ticks s" "net_ticks (snd (no_act s)) = net_ticks s"
    "net_ticks (snd (ack_or_lost s)) = net_ticks s" "net_ticks (snd (tcp_closed s)) = net_ticks s"
    "net_ticks (snd (got_reply s)) = net_ticks s" "net_ticks (snd (dhcp_await types s)) = net_ticks s"
  by (simp_all add: arp_found_def no_act_def ack_or_lost_def tcp_closed_def got_reply_def dhcp_await_def Let_def ticks_simps)

section \<open>Every call returns\<close>

text \<open>
  The clock does not stop: as long as it has not reached its last value, every step of the
  outside world advances it, or uses up some of a supply \<open>m\<close> of steps that do not.
\<close>

definition progress :: "('w \<Rightarrow> nat) \<Rightarrow> ('w \<times> net \<Rightarrow> 'w \<times> net) \<Rightarrow> bool" where
  "progress m env \<longleftrightarrow> (\<forall>w s. net_ticks s \<noteq> - 1 \<longrightarrow>
     net_ticks s < net_ticks (snd (env (w, s)))
     \<or> net_ticks (snd (env (w, s))) = net_ticks s \<and> m (fst (env (w, s))) < m w)"

lemma ones_minus_less:
  fixes a b :: "'a::len word"
  assumes "a < b"
  shows "unat (- 1 - b) < unat (- 1 - a)"
proof -
  have m: "unat (- 1 - x) = unat (- 1 :: 'a word) - unat x" for x :: "'a word"
    by (rule unat_diff_le) simp
  have "unat b \<le> unat (- 1 :: 'a word)" by (simp add: word_le_nat_alt [symmetric])
  moreover have "unat a < unat b" using assms by (simp add: word_less_nat_alt)
  ultimately show ?thesis unfolding m by (intro diff_less_mono2) simp_all
qed

lemma succ_greater: "x \<noteq> - 1 \<Longrightarrow> x < x + 1" for x :: "'a::len word"
  using inc_less_eq_self_iff_eq [of x] by (simp add: not_le [symmetric])

lemma poll_loop_returns:
  assumes "progress m env" "\<forall>s. net_ticks (snd (act s)) = net_ticks s"
  shows "\<exists>r. poll_loop go act env deadline ws = Some r"
proof (induction ws rule: wf_induct_rule [OF wf_measures [of "[\<lambda>ws. unat (- 1 - net_ticks (snd ws)), \<lambda>ws. m (fst ws)]"]])
  case (1 ws)
  let ?ws1 = "env (fst ws, net_poll (snd ws))"
  let ?next = "(fst ?ws1, snd (act (snd ?ws1)))"
  show ?case
  proof (cases "net_ticks (snd ws) < deadline \<and> go (snd ws)")
    case False
    then show ?thesis by (subst poll_loop.simps) auto
  next
    case True
    then have "net_ticks (snd ws) \<noteq> - 1" using word_order.extremum_strict [of deadline] by auto
    then have "net_ticks (snd ws) < net_ticks (snd ?ws1) \<or> net_ticks (snd ?ws1) = net_ticks (snd ws) \<and> m (fst ?ws1) < m (fst ws)"
      using assms(1) ticks_net_poll [of "snd ws"] unfolding progress_def by metis
    then have "(?next, ws) \<in> measures [\<lambda>ws. unat (- 1 - net_ticks (snd ws)), \<lambda>ws. m (fst ws)]"
      using assms(2) ones_minus_less [of "net_ticks (snd ws)" "net_ticks (snd ?ws1)"] by auto
    from 1 [OF this] True show ?thesis by (subst poll_loop.simps) (auto simp: Let_def)
  qed
qed

lemma bind_returns: "\<exists>x. a = Some x \<Longrightarrow> (\<And>x. \<exists>y. f x = Some y) \<Longrightarrow> \<exists>y. a \<bind> f = Some y"
  by auto

lemma if_returns: "\<exists>y. a = Some y \<Longrightarrow> \<exists>y. b = Some y \<Longrightarrow> \<exists>y. (if c then a else b) = Some y"
  by simp

lemma some_returns: "\<exists>y. Some x = Some y"
  by simp

lemmas returns_intros = bind_returns if_returns some_returns

lemma poll_acts_return:
  assumes "progress m env"
  shows "\<exists>r. poll_loop go (arp_found ip) env dl ws = Some r" "\<exists>r. poll_loop go no_act env dl ws = Some r"
    "\<exists>r. poll_loop go ack_or_lost env dl ws = Some r" "\<exists>r. poll_loop go tcp_closed env dl ws = Some r"
    "\<exists>r. poll_loop go got_reply env dl ws = Some r" "\<exists>r. poll_loop go (dhcp_await types) env dl ws = Some r"
    "\<exists>r. poll_loop go (\<lambda>s. arp_found (net_gateway s) s) env dl ws = Some r"
  using assms by (intro poll_loop_returns [OF assms]; simp add: ticks_simps)+

lemma tcp_await_ack_returns:
  assumes "progress m env"
  shows "\<exists>r. tcp_await_ack n env sq d ws = Some r"
proof (induction n arbitrary: ws)
  case (Suc n)
  then show ?case
    unfolding tcp_await_ack.simps Let_def by (intro returns_intros poll_acts_return [OF assms])
qed simp

lemma tcp_write_loop_returns:
  assumes "progress m env"
  shows "\<exists>r. tcp_write_loop env data sent ws = Some r"
proof (induction "length data - sent" arbitrary: sent ws rule: less_induct)
  case less
  show ?case
  proof (cases "sent < length data \<and> s_state (net_tcb (snd ws)) = TCP_ESTABLISHED")
    case False
    then show ?thesis by (subst tcp_write_loop.simps) auto
  next
    case True
    let ?chunk = "take TCP_MSS (drop sent data)"
    have "0 < length ?chunk" using True by (simp add: TCP_MSS_def)
    then have IH: "\<exists>r. tcp_write_loop env data (sent + length ?chunk) ws' = Some r" for ws'
      using True diff_less_mono2 [of sent "sent + length ?chunk" "length data"] by (intro less) simp
    have "\<exists>r. (case fst x of Acked \<Rightarrow> tcp_write_loop env data (sent + length ?chunk) (snd x)
        | Conn_lost \<Rightarrow> Some (int sent, snd x) | Ack_timeout \<Rightarrow> Some (- 1, snd x)) = Some r" for x
      using IH by (cases "fst x") simp_all
    then show ?thesis
      by (subst tcp_write_loop.simps, unfold Let_def) (intro returns_intros tcp_await_ack_returns [OF assms])
  qed
qed

lemma ping_round_returns:
  assumes "progress m env"
  shows "\<exists>r. ping_round env ip count t sq ws = Some r"
  unfolding ping_round_def Let_def by (intro returns_intros poll_acts_return [OF assms])

lemma ping_loop_returns:
  assumes "progress m env" "count \<noteq> 0xFFFF"
  shows "\<exists>r. ping_loop env ip count t sq received ws = Some r"
proof (induction "unat (- 1 - sq)" arbitrary: sq received ws rule: less_induct)
  case less
  show ?case
  proof (cases "sq \<le> count")
    case False
    then show ?thesis by (subst ping_loop.simps) simp
  next
    case True
    have "sq \<noteq> - 1" using True assms(2) word_order.extremum_unique [of count] by auto
    then have "unat (- 1 - (sq + 1)) < unat (- 1 - sq)" by (intro ones_minus_less succ_greater)
    then have "\<exists>r. ping_loop env ip count t (sq + 1) n ws' = Some r" for n ws' by (rule less)
    then show ?thesis
      using True by (subst ping_loop.simps, unfold if_P [OF True]) (intro bind_returns ping_round_returns [OF assms(1)])
  qed
qed

lemma arp_ensure_returns: "progress m env \<Longrightarrow> \<exists>r. arp_ensure env ip ws = Some r"
  unfolding arp_ensure_def Let_def by (intro returns_intros poll_acts_return)

lemma arp_poll_returns: "progress m env \<Longrightarrow> \<exists>r. arp_poll env ip ws = Some r"
  unfolding arp_poll_def Let_def by (intro returns_intros poll_acts_return)

text \<open>
  Claim C32. Every call that waits for the network returns when the clock keeps advancing,
  whatever arrives or fails to arrive meanwhile: connect, write, read and close of TCP, a DHCP exchange, the
  lookup of a name of at most 494 characters (a longer one can be written past the buffer of the query), and a
  ping of any count but 0 (the code divides by it) and 65535 (the counter wraps and the loop does not end).
\<close>

theorem net_calls_return:
  assumes "progress m env"
  shows "(\<exists>r. tcp_connect env ip port ws = Some r) \<and> (\<exists>r. tcp_write env data ws = Some r)
    \<and> (\<exists>r. tcp_read env len t ws = Some r) \<and> (\<exists>r. tcp_close env ws = Some r)
    \<and> (length host \<le> 494 \<longrightarrow> (\<exists>r. dns_resolve env host ws = Some r)) \<and> (\<exists>r. dhcp_request env ws = Some r)
    \<and> (count \<noteq> 0 \<longrightarrow> count \<noteq> 0xFFFF \<longrightarrow> (\<exists>r. icmp_ping env ip count t ws = Some r))"
proof (intro conjI impI)
  note P = poll_acts_return [OF assms] arp_ensure_returns [OF assms] arp_poll_returns [OF assms]
  show "\<exists>r. tcp_connect env ip port ws = Some r"
    unfolding tcp_connect_def Let_def by (intro returns_intros P)
  show "\<exists>r. tcp_write env data ws = Some r"
    unfolding tcp_write_def by (intro returns_intros tcp_write_loop_returns [OF assms])
  show "\<exists>r. tcp_read env len t ws = Some r"
    unfolding tcp_read_def Let_def by (intro returns_intros P)
  show "\<exists>r. tcp_close env ws = Some r"
    unfolding tcp_close_def Let_def by (intro returns_intros P)
  show "\<exists>r. dns_resolve env host ws = Some r" if "length host \<le> 494"
    unfolding dns_resolve_def Let_def by (intro returns_intros P dns_query_fits that)
  show "\<exists>r. dhcp_request env ws = Some r"
    unfolding dhcp_request_def Let_def by (intro returns_intros P)
  assume c: "count \<noteq> 0" "count \<noteq> 0xFFFF"
  show "\<exists>r. icmp_ping env ip count t ws = Some r"
    unfolding icmp_ping_def Let_def if_not_P [OF c(1)] by (intro returns_intros P ping_loop_returns [OF assms c(2)])
qed

text \<open>A world that sends nothing and whose clock ticks at every third look.\<close>

definition demo_world :: "nat \<times> net \<Rightarrow> nat \<times> net" where
  "demo_world ws = (case ws of (0, s) \<Rightarrow> (2, s\<lparr>net_ticks := net_ticks s + 1\<rparr>) | (Suc n, s) \<Rightarrow> (n, s))"

theorem net_calls_return_witness: "\<exists>r. tcp_connect demo_world 0x0A000002 80 (0, demo_net) = Some r"
proof -
  have "progress id demo_world"
    using succ_greater by (auto simp: progress_def demo_world_def split: nat.split)
  from net_calls_return [OF this] show ?thesis by blast
qed

section \<open>From one host to another\<close>

definition udp_deliver :: "udp_handler \<Rightarrow> bytes \<Rightarrow> net \<Rightarrow> net" where
  "udp_deliver h payload s = (case h of Dns_recv \<Rightarrow> dns_recv payload s | Dhcp_recv \<Rightarrow> dhcp_recv payload s)"

lemma udp_deliver_frame: "nic_rx (udp_deliver h d s) = nic_rx s" "nic_present (udp_deliver h d s) = nic_present s"
  by (auto simp: udp_deliver_def dns_recv_def dhcp_recv_def split: udp_handler.split option.split dns_outcome.split)

lemma udp_bind_frame: "nic_rx (udp_bind port h s) = nic_rx s" "nic_present (udp_bind port h s) = nic_present s"
    "net_ip (udp_bind port h s) = net_ip s" "udp_bind port h (s\<lparr>nic_rx := x\<rparr>) = (udp_bind port h s)\<lparr>nic_rx := x\<rparr>"
  by (auto simp: udp_bind_def split: option.split)

lemma net_poll_one:
  assumes "nic_present r" "nic_rx r = [frame]" "0 < length frame" "length frame \<le> 1536"
    "nic_rx (net_frame frame (r\<lparr>nic_rx := []\<rparr>)) = []"
  shows "net_poll r = net_frame frame (r\<lparr>nic_rx := []\<rparr>)"
proof -
  let ?r1 = "net_frame frame (r\<lparr>nic_rx := []\<rparr>)"
  have "net_nic_recv RX_BUF_SIZE r = (frame, r\<lparr>nic_rx := []\<rparr>)"
    using assms by (simp add: net_nic_recv_def RX_BUF_SIZE_def)
  moreover have "net_nic_recv RX_BUF_SIZE ?r1 = ([], ?r1)" using assms(5) by (simp add: net_nic_recv_def)
  ultimately show ?thesis
    using assms(1,3) by (simp add: net_poll_def net_nic_present_def numeral_eq_Suc)
qed

text \<open>
  Claim C31. A datagram that one host sends to the address of another, which has a handler
  bound to the destination port, is put on the wire as one frame; polling that frame makes the
  other host run exactly that handler on exactly the payload, through the Ethernet, IPv4 and
  UDP layers of both.
\<close>

theorem udp_end_to_end:
  assumes "udp_send (net_ip r) sp port payload s = (True, s')"
    and "length (net_mac s) = 6" "\<forall>e \<in> set (arp_cache s). length (ae_mac e) = 6"
    and "nic_present r" "\<forall>b \<in> set (s_binds r). ub_valid b \<longrightarrow> ub_port b \<noteq> port" "\<exists>b \<in> set (s_binds r). \<not> ub_valid b"
  shows "\<exists>frame. nic_tx s' = nic_tx s @ [frame] \<and>
    net_poll ((udp_bind port h r)\<lparr>nic_rx := [frame]\<rparr>) = udp_deliver h payload ((udp_bind port h r)\<lparr>nic_rx := []\<rparr>)"
proof -
  define dg where "dg = udp_datagram sp port payload"
  let ?r = "udp_bind port h r"
  have "ip4_send (net_ip r) IP_PROTO_UDP dg s = (True, s')"
    using assms(1) by (auto simp: udp_send_def dg_def split: if_splits)
  then obtain mac where f: "length mac = 6" "length dg \<le> 1480"
    "nic_tx s' = nic_tx s @ [mac @ net_mac s @ st16 (htons ETH_PROTO_IP)
       @ ip_header (length dg) (g_ip_id s) IP_PROTO_UDP (net_ip s) (net_ip r) @ dg]"
    using assms(3) by (rule ip4_send_frame)
  define pk where "pk = ip_header (length dg) (g_ip_id s) IP_PROTO_UDP (net_ip s) (net_ip r) @ dg"
  define frame where "frame = mac @ net_mac s @ st16 (htons ETH_PROTO_IP) @ pk"
  have acc: "ip4_accept (?r\<lparr>nic_rx := []\<rparr>) pk = Some (net_ip s, IP_PROTO_UDP, dg)"
    using ip4_accept_packet [OF f(2), of "?r\<lparr>nic_rx := []\<rparr>" "net_ip r" "g_ip_id s" IP_PROTO_UDP "net_ip s" "[]"]
    by (simp add: pk_def udp_bind_frame)
  have len: "length frame = 34 + length dg" "length payload \<le> 65527"
    using f(1,2) assms(2) by (simp_all add: frame_def pk_def dg_def udp_datagram_def)
  have ty: "ntohs (rd16 frame 12) = ETH_PROTO_IP"
    using rd16_st16 [of "mac @ net_mac s" 12 "htons ETH_PROTO_IP" pk] f(1) assms(2) by (simp add: frame_def)
  have "net_frame frame (?r\<lparr>nic_rx := []\<rparr>) = udp_recv (net_ip s) dg (?r\<lparr>nic_rx := []\<rparr>)"
    using len(1) ty acc f(1) assms(2)
    by (simp add: net_frame_def ip4_recv_def ETH_HLEN_def frame_def ETH_PROTO_IP_def ETH_PROTO_ARP_def IP_PROTO_UDP_def IP_PROTO_ICMP_def)
  also have "\<dots> = udp_deliver h payload (?r\<lparr>nic_rx := []\<rparr>)"
    using udp_recv_bound [of "r\<lparr>nic_rx := []\<rparr>" port payload "net_ip s" sp h] assms(5,6) len(2)
    by (cases h) (simp_all add: dg_def udp_deliver_def udp_bind_frame)
  finally have fr: "net_frame frame (?r\<lparr>nic_rx := []\<rparr>) = udp_deliver h payload (?r\<lparr>nic_rx := []\<rparr>)" .
  have "net_poll (?r\<lparr>nic_rx := [frame]\<rparr>) = udp_deliver h payload (?r\<lparr>nic_rx := []\<rparr>)"
    using net_poll_one [of "?r\<lparr>nic_rx := [frame]\<rparr>" frame] assms(4) len(1) f(2) fr
    by (simp add: udp_bind_frame udp_deliver_frame)
  with f(3) show ?thesis by (auto simp: frame_def pk_def)
qed

theorem udp_end_to_end_witness:
  "\<exists>frame. nic_tx (snd (udp_send 0x0A000002 53 1053 [1, 2] demo_peer)) = [frame] \<and>
     net_poll ((udp_bind 1053 Dns_recv (demo_net\<lparr>net_ip := 0x0A000002\<rparr>))\<lparr>nic_rx := [frame]\<rparr>) =
       udp_deliver Dns_recv [1, 2] ((udp_bind 1053 Dns_recv (demo_net\<lparr>net_ip := 0x0A000002\<rparr>))\<lparr>nic_rx := []\<rparr>)"
proof -
  let ?r = "demo_net\<lparr>net_ip := 0x0A000002\<rparr>"
  have "fst (udp_send 0x0A000002 53 1053 [1, 2] demo_peer)"
    using demo_send [of IP_PROTO_UDP "udp_datagram 53 1053 [1, 2]"]
    by (simp add: udp_send_def UDP_HDR_LEN_def ETH_MAX_PAYLOAD_def IP4_HDR_LEN_def udp_datagram_def)
  then have "udp_send (net_ip ?r) 53 1053 [1, 2] demo_peer = (True, snd (udp_send 0x0A000002 53 1053 [1, 2] demo_peer))"
    by (simp add: prod_eq_iff)
  from udp_end_to_end [OF this demo_peer_fields(4,8), of Dns_recv] demo_peer_fields(5) show ?thesis
    by (simp add: demo_net_def)
qed

end
