(* ===== verification/Pipe.thy ===== *)
theory Pipe
  imports Stream_Interface
begin

text \<open>
  The pipes of \<open>kernel/src/syscall.c\<close>: a pool of eight rings of 4096 bytes, each with the number of
  descriptors open on either end. A pointer to a pipe is its index in the pool.

  Shown here: a ring is a byte stream (the interface \<open>byte_stream\<close>), with copies that wrap around the
  end of the buffer in at most two pieces.
\<close>

section \<open>Definitions\<close>

record pipe =
  p_buf :: bytes
  p_head :: u32
  p_nread :: u32
  p_ropen :: int
  p_wopen :: int

definition PIPE_BUF :: u32 where
  "PIPE_BUF = 4096"

definition PIPE_MAX :: nat where
  "PIPE_MAX = 8"

definition pipe_alloc :: "pipe list \<Rightarrow> nat option \<times> pipe list" where
  "pipe_alloc ps =
     (case first_idx (\<lambda>p. p_ropen p = 0 \<and> p_wopen p = 0) ps of
        Some i \<Rightarrow> (Some i, ps[i := (ps ! i)\<lparr>p_head := 0, p_nread := 0, p_ropen := 1, p_wopen := 1\<rparr>])
      | None \<Rightarrow> (None, ps))"

definition pipe_ring_write :: "bytes \<Rightarrow> u32 \<Rightarrow> pipe \<Rightarrow> u32 \<times> pipe" where
  "pipe_ring_write src n p =
     (let free_space = PIPE_BUF - p_nread p;
          n = (if n > free_space then free_space else n)
      in if n = 0 then (0, p)
         else
           let tail = (p_head p + p_nread p) mod PIPE_BUF;
               chunk = PIPE_BUF - tail;
               chunk = (if chunk > n then n else chunk);
               buf = splice (p_buf p) (unat tail) (take (unat chunk) src);
               buf = (if chunk < n then splice buf 0 (take (unat (n - chunk)) (drop (unat chunk) src)) else buf)
           in (n, p\<lparr>p_buf := buf, p_nread := p_nread p + n\<rparr>))"

text \<open>The bytes stored to \<open>dst\<close>; their number is the return value.\<close>

definition pipe_ring_read :: "u32 \<Rightarrow> pipe \<Rightarrow> bytes \<times> pipe" where
  "pipe_ring_read n p =
     (let n = (if n > p_nread p then p_nread p else n)
      in if n = 0 then ([], p)
         else
           let chunk = PIPE_BUF - p_head p;
               chunk = (if chunk > n then n else chunk);
               dst = take (unat chunk) (drop (unat (p_head p)) (p_buf p));
               dst = (if chunk < n then dst @ take (unat (n - chunk)) (p_buf p) else dst)
           in (dst, p\<lparr>p_head := (p_head p + n) mod PIPE_BUF, p_nread := p_nread p - n\<rparr>))"

section \<open>A ring is a byte stream\<close>

definition pipe_ok :: "pipe \<Rightarrow> bool" where
  "pipe_ok p \<longleftrightarrow> length (p_buf p) = 4096 \<and> unat (p_head p) < 4096 \<and> unat (p_nread p) \<le> 4096"

definition pipe_bytes :: "pipe \<Rightarrow> bytes" where
  "pipe_bytes p = map (\<lambda>i. p_buf p ! ((unat (p_head p) + i) mod 4096)) [0..<unat (p_nread p)]"

lemma length_pipe_bytes [simp]: "length (pipe_bytes p) = unat (p_nread p)"
  by (simp add: pipe_bytes_def)

lemma nth_pipe_bytes: "i < unat (p_nread p) \<Longrightarrow> pipe_bytes p ! i = p_buf p ! ((unat (p_head p) + i) mod 4096)"
  by (simp add: pipe_bytes_def)

text \<open>A copy of \<open>d\<close> into a ring from slot \<open>t\<close> on, in two pieces when it reaches the end.\<close>

definition ring_put :: "bytes \<Rightarrow> nat \<Rightarrow> bytes \<Rightarrow> bytes" where
  "ring_put b t d =
     (let k = min (4096 - t) (length d) in splice (splice b t (take k d)) 0 (drop k d))"

lemma nth_ring_put:
  assumes "length b = 4096" "t < 4096" "length d \<le> 4096" "j < 4096"
  shows "ring_put b t d ! j =
    (if t \<le> j \<and> j < t + length d then d ! (j - t) else if j + 4096 < t + length d then d ! (j + 4096 - t) else b ! j)"
  using assms by (auto simp: ring_put_def Let_def nth_splice min_def add.commute)

lemma nth_ring_put_new:
  assumes "length b = 4096" "t < 4096" "length d \<le> 4096" "i < length d"
  shows "ring_put b t d ! ((t + i) mod 4096) = d ! i"
proof (cases "t + i < 4096")
  case True
  then show ?thesis using assms nth_ring_put [of b t d "t + i"] by simp
next
  case False
  then have "(t + i) mod 4096 = t + i - 4096" using assms by (simp add: le_mod_geq)
  moreover have "\<not> t \<le> t + i - 4096" "t + i - 4096 + 4096 = t + i" "t + i - 4096 < 4096" using False assms by simp_all
  ultimately show ?thesis using assms nth_ring_put [of b t d "t + i - 4096"] by simp
qed

lemma nth_ring_put_old:
  assumes "length b = 4096" "t = (h + l) mod 4096" "l + length d \<le> 4096" "i < l"
  shows "ring_put b t d ! ((h + i) mod 4096) = b ! ((h + i) mod 4096)"
proof -
  let ?j = "(h + i) mod 4096"
  have t: "t < 4096" using assms(2) by simp
  have "?j \<noteq> (t + k) mod 4096" if k: "k < length d" for k
  proof -
    have "(t + k) mod 4096 = (h + (l + k)) mod 4096" unfolding assms(2) by (simp add: mod_simps add.assoc)
    then show ?thesis using ring_slot_neq [of i "l + k" 4096 h] k assms(3,4) by simp
  qed
  note ne = this
  have "\<not> (t \<le> ?j \<and> ?j < t + length d)"
  proof
    assume a: "t \<le> ?j \<and> ?j < t + length d"
    then have "?j = (t + (?j - t)) mod 4096" "?j - t < length d" by (simp, linarith)
    with ne [of "?j - t"] show False by simp
  qed
  moreover have "\<not> ?j + 4096 < t + length d"
  proof
    assume a: "?j + 4096 < t + length d"
    then have "?j = (t + (?j + 4096 - t)) mod 4096" "?j + 4096 - t < length d" using t by simp_all
    with ne [of "?j + 4096 - t"] show False by simp
  qed
  ultimately show ?thesis using nth_ring_put [of b t d ?j] assms(1,3) t by auto
qed

lemma length_ring_put [simp]:
  "length b = 4096 \<Longrightarrow> t < 4096 \<Longrightarrow> length d \<le> 4096 \<Longrightarrow> length (ring_put b t d) = 4096"
  by (auto simp: ring_put_def Let_def min_def)

lemma pipe_ring_write_eq:
  assumes "pipe_ok p" "unat n \<le> length src"
  defines "k \<equiv> min (unat n) (4096 - unat (p_nread p))"
  shows "pipe_ring_write src n p = (of_nat k,
    if k = 0 then p
    else p\<lparr>p_buf := ring_put (p_buf p) ((unat (p_head p) + unat (p_nread p)) mod 4096) (take k src),
           p_nread := p_nread p + of_nat k\<rparr>)"
proof -
  have p: "length (p_buf p) = 4096" "unat (p_head p) < 4096" "unat (p_nread p) \<le> 4096"
    using assms(1) by (simp_all add: pipe_ok_def)
  have "p_nread p \<le> PIPE_BUF" using p(3) by (simp add: PIPE_BUF_def word_le_nat_alt)
  then have fs: "unat (PIPE_BUF - p_nread p) = 4096 - unat (p_nread p)"
    by (simp add: unat_diff_le PIPE_BUF_def)
  define m where "m = (if n > PIPE_BUF - p_nread p then PIPE_BUF - p_nread p else n)"
  have um: "unat m = k" using fs by (simp add: m_def k_def word_less_nat_alt)
  then have m: "m = of_nat k" by (simp flip: um)
  define t where "t = (p_head p + p_nread p) mod PIPE_BUF"
  have ut: "unat t = (unat (p_head p) + unat (p_nread p)) mod 4096"
    using p by (simp add: t_def PIPE_BUF_def unat_mod unat_add_no_wrap)
  then have t4: "unat t < 4096" by simp
  have uc: "unat (PIPE_BUF - t) = 4096 - unat t"
    using t4 by (subst unat_diff_le) (simp_all add: PIPE_BUF_def word_le_nat_alt)
  define c where "c = (if PIPE_BUF - t > m then m else PIPE_BUF - t)"
  have c: "unat c = min (4096 - unat t) k" using um uc by (simp add: c_def word_less_nat_alt)
  have kl: "k \<le> length src" using assms(2) by (simp add: k_def)
  have mc: "unat (m - c) = k - unat c" using c um by (subst unat_diff_le) (simp_all add: word_le_nat_alt)
  have two: "(if c < m then splice (splice (p_buf p) (unat t) (take (unat c) src)) 0 (take (unat (m - c)) (drop (unat c) src))
      else splice (p_buf p) (unat t) (take (unat c) src)) = ring_put (p_buf p) (unat t) (take k src)"
  proof -
    have "min (4096 - unat t) (length (take k src)) = unat c" using kl c by simp
    moreover have "take (unat c) (take k src) = take (unat c) src" using c by (simp add: min_def)
    moreover have "drop (unat c) (take k src) = take (unat (m - c)) (drop (unat c) src)" by (simp only: mc drop_take)
    moreover have "\<not> c < m \<Longrightarrow> unat (m - c) = 0" using mc um by (simp add: word_less_nat_alt)
    ultimately show ?thesis by (simp add: ring_put_def Let_def)
  qed
  have m0: "m = 0 \<longleftrightarrow> k = 0" using um by (metis unat_eq_zero)
  have "pipe_ring_write src n p = (if m = 0 then (0, p)
      else (m, p\<lparr>p_buf := ring_put (p_buf p) (unat t) (take k src), p_nread := p_nread p + m\<rparr>))"
    by (simp only: pipe_ring_write_def Let_def m_def [symmetric] t_def [symmetric] c_def [symmetric] two)
  then show ?thesis using m m0 by (simp add: ut)
qed

lemma pipe_ring_write_ok:
  assumes "pipe_ok p" "unat n \<le> length src"
  shows "pipe_ok (snd (pipe_ring_write src n p))
    \<and> unat (fst (pipe_ring_write src n p)) = min (unat n) (4096 - unat (p_nread p))
    \<and> pipe_bytes (snd (pipe_ring_write src n p)) = pipe_bytes p @ take (min (unat n) (4096 - unat (p_nread p))) src"
proof -
  define k where "k = min (unat n) (4096 - unat (p_nread p))"
  let ?h = "unat (p_head p)" and ?l = "unat (p_nread p)"
  let ?t = "(?h + ?l) mod 4096" and ?d = "take k src"
  have p: "length (p_buf p) = 4096" "?h < 4096" "?l \<le> 4096" using assms(1) by (simp_all add: pipe_ok_def)
  have k: "k \<le> 4096" "?l + k \<le> 4096" "length ?d = k" using p(3) assms(2) by (auto simp: k_def)
  have uk: "unat (of_nat k :: u32) = k" using k(1) by (simp add: unsigned_of_nat take_bit_nat_eq_self)
  note eq = pipe_ring_write_eq [OF assms, folded k_def]
  have un: "unat (p_nread p + of_nat k) = ?l + k" using k(2) uk by (subst unat_add_no_wrap) simp_all
  let ?q = "p\<lparr>p_buf := ring_put (p_buf p) ?t ?d, p_nread := p_nread p + of_nat k\<rparr>"
  have ok: "pipe_ok ?q" using p k un by (simp add: pipe_ok_def)
  have "pipe_bytes ?q = pipe_bytes p @ ?d"
  proof (rule nth_equalityI)
    show "length (pipe_bytes ?q) = length (pipe_bytes p @ ?d)" using un k(3) by simp
    fix i
    assume "i < length (pipe_bytes ?q)"
    then have i: "i < ?l + k" using un by simp
    show "pipe_bytes ?q ! i = (pipe_bytes p @ ?d) ! i"
    proof (cases "i < ?l")
      case True
      then show ?thesis
        using nth_ring_put_old [where b = "p_buf p" and t = ?t and h = ?h and l = ?l and d = ?d and i = i] p(1) k un by (simp add: nth_append nth_pipe_bytes)
    next
      case False
      then obtain r where r: "i = ?l + r" "r < k" using i that [of "i - ?l"] by simp
      have "(?h + i) mod 4096 = (?t + r) mod 4096" by (simp add: r(1) mod_simps add.assoc)
      then show ?thesis
        using nth_ring_put_new [OF p(1), of ?t ?d r] r k un by (simp add: nth_append nth_pipe_bytes)
    qed
  qed
  with ok show ?thesis
    using assms(1) uk unfolding eq k_def [symmetric] by (cases "k = 0") simp_all
qed

text \<open>A copy out of a ring from slot \<open>h\<close> on, in two pieces when it reaches the end.\<close>

lemma ring_get:
  assumes "length b = 4096" "h < 4096" "m \<le> 4096"
  shows "take (min (4096 - h) m) (drop h b) @ take (m - (4096 - h)) b = map (\<lambda>i. b ! ((h + i) mod 4096)) [0..<m]"
proof (rule nth_equalityI)
  show "length (take (min (4096 - h) m) (drop h b) @ take (m - (4096 - h)) b) = length (map (\<lambda>i. b ! ((h + i) mod 4096)) [0..<m])"
    using assms by (auto simp: min_def)
  fix i
  assume "i < length (take (min (4096 - h) m) (drop h b) @ take (m - (4096 - h)) b)"
  then have i: "i < m" using assms by (simp add: min_def split: if_splits)
  show "(take (min (4096 - h) m) (drop h b) @ take (m - (4096 - h)) b) ! i = map (\<lambda>i. b ! ((h + i) mod 4096)) [0..<m] ! i"
  proof (cases "h + i < 4096")
    case True
    then have "i < 4096 - h" by simp
    then show ?thesis using True i assms by (simp add: nth_append)
  next
    case False
    then have "(h + i) mod 4096 = i - (4096 - h)" "\<not> i < 4096 - h" using i assms by (simp_all add: le_mod_geq)
    then show ?thesis using i assms by (simp add: nth_append)
  qed
qed

lemma pipe_ring_read_ok:
  assumes "pipe_ok p"
  shows "pipe_ok (snd (pipe_ring_read n p)) \<and> fst (pipe_ring_read n p) = take (unat n) (pipe_bytes p)
    \<and> pipe_bytes (snd (pipe_ring_read n p)) = drop (unat n) (pipe_bytes p)"
proof -
  let ?h = "unat (p_head p)" and ?l = "unat (p_nread p)"
  have p: "length (p_buf p) = 4096" "?h < 4096" "?l \<le> 4096" using assms by (simp_all add: pipe_ok_def)
  define m where "m = (if n > p_nread p then p_nread p else n)"
  have m: "unat m = min (unat n) ?l" by (simp add: m_def word_less_nat_alt)
  define c where "c = (if PIPE_BUF - p_head p > m then m else PIPE_BUF - p_head p)"
  have "unat (PIPE_BUF - p_head p) = 4096 - ?h"
    using p(2) by (subst unat_diff_le) (simp_all add: PIPE_BUF_def word_le_nat_alt)
  then have c: "unat c = min (4096 - ?h) (unat m)" by (simp add: c_def word_less_nat_alt)
  have mc: "unat (m - c) = unat m - (4096 - ?h)"
    using c by (subst unat_diff_le) (simp_all add: word_le_nat_alt min_def)
  define d where "d = (if c < m then take (unat c) (drop ?h (p_buf p)) @ take (unat (m - c)) (p_buf p)
    else take (unat c) (drop ?h (p_buf p)))"
  have "d = take (unat c) (drop ?h (p_buf p)) @ take (unat (m - c)) (p_buf p)"
    using c mc by (simp add: d_def word_less_nat_alt min_def split: if_splits)
  then have d: "d = map (\<lambda>i. p_buf p ! ((?h + i) mod 4096)) [0..<unat m]"
    using ring_get [OF p(1,2), of "unat m"] m p(3) by (simp only: c mc)
  let ?q = "p\<lparr>p_head := (p_head p + m) mod PIPE_BUF, p_nread := p_nread p - m\<rparr>"
  have r: "pipe_ring_read n p = (if m = 0 then ([], p) else (d, ?q))"
    by (simp only: pipe_ring_read_def Let_def m_def [symmetric] c_def [symmetric] d_def [symmetric])
  have uh: "unat ((p_head p + m) mod PIPE_BUF) = (?h + unat m) mod 4096"
    using p m by (simp add: PIPE_BUF_def unat_mod unat_add_no_wrap)
  have un: "unat (p_nread p - m) = ?l - unat m" using m by (subst unat_diff_le) (simp_all add: word_le_nat_alt)
  have ok: "pipe_ok ?q" using p uh un by (simp add: pipe_ok_def)
  have dt: "d = take (unat n) (pipe_bytes p)" by (rule nth_equalityI) (simp_all add: d m nth_pipe_bytes)
  have "pipe_bytes ?q = drop (unat n) (pipe_bytes p)"
    by (rule nth_equalityI) (use m un uh in \<open>auto simp: nth_pipe_bytes mod_simps add.assoc\<close>)
  then show ?thesis
    using r ok dt assms m by (cases "m = 0") (auto simp: min_def pipe_bytes_def split: if_splits)
qed

section \<open>The contract\<close>

definition pipe_push :: "bytes \<Rightarrow> pipe \<Rightarrow> pipe" where
  "pipe_push d p = snd (pipe_ring_write d (of_nat (length d)) p)"

definition pipe_pop :: "nat \<Rightarrow> pipe \<Rightarrow> bytes \<times> pipe" where
  "pipe_pop n p = pipe_ring_read (of_nat (min n 4096)) p"

interpretation ring: byte_stream pipe_push pipe_pop pipe_bytes pipe_ok 4096
proof
  fix p :: pipe and d :: bytes
  assume p: "pipe_ok p" "length (pipe_bytes p) + length d \<le> 4096"
  then have "unat (of_nat (length d) :: u32) = length d" by (simp add: unsigned_of_nat take_bit_nat_eq_self)
  then show "pipe_ok (pipe_push d p) \<and> pipe_bytes (pipe_push d p) = pipe_bytes p @ d"
    using pipe_ring_write_ok [OF p(1), of "of_nat (length d)" d] p(2) by (simp add: pipe_push_def min_absorb1)
next
  fix p :: pipe and n :: nat
  assume p: "pipe_ok p"
  have "unat (of_nat (min n 4096) :: u32) = min n 4096" by (simp add: unsigned_of_nat take_bit_nat_eq_self)
  moreover have "length (pipe_bytes p) \<le> 4096" using p by (simp add: pipe_ok_def)
  ultimately show "pipe_ok (snd (pipe_pop n p)) \<and> fst (pipe_pop n p) = take n (pipe_bytes p)
      \<and> pipe_bytes (snd (pipe_pop n p)) = drop n (pipe_bytes p)"
    using pipe_ring_read_ok [OF p, of "of_nat (min n 4096)"] by (simp add: pipe_pop_def min_def)
qed

section \<open>Histories of a pipe\<close>

text \<open>
  The calls on one pipe in the order they happen: a write of \<open>n\<close> bytes, of which the ring takes as many
  as fit, and a read of up to \<open>n\<close> bytes. \<open>pipe_run\<close> collects the bytes taken and the bytes delivered.
\<close>

datatype pipe_call = Pipe_write bytes | Pipe_read u32

fun pipe_run :: "pipe_call list \<Rightarrow> pipe \<Rightarrow> bytes \<times> bytes \<times> pipe" where
  "pipe_run [] p = ([], [], p)"
| "pipe_run (Pipe_write d # cs) p =
     (let (n, p1) = pipe_ring_write d (of_nat (length d)) p; (t, g, p2) = pipe_run cs p1 in (take (unat n) d @ t, g, p2))"
| "pipe_run (Pipe_read n # cs) p =
     (let (d, p1) = pipe_ring_read n p; (t, g, p2) = pipe_run cs p1 in (t, d @ g, p2))"

text \<open>
  Claim C12. A pipe is a first-in first-out queue of 4096 bytes: after any sequence of writes and reads,
  however they wrap around the ring and however short they are cut, the bytes delivered so far
  followed by the bytes still in the ring are the bytes that were in it at the start followed by
  those taken since. Nothing is lost, repeated or reordered.
\<close>

theorem pipe_is_fifo:
  assumes "pipe_ok p" "pipe_run cs p = (taken, delivered, p')"
  shows "delivered @ pipe_bytes p' = pipe_bytes p @ taken \<and> pipe_ok p'"
  using assms
proof (induction cs arbitrary: p taken delivered p')
  case (Cons c cs)
  show ?case
  proof (cases c)
    case (Pipe_write d)
    let ?n = "of_nat (length d) :: u32"
    have l: "unat ?n \<le> length d" by (simp add: unsigned_of_nat take_bit_nat_less_eq_self)
    obtain w p1 where w: "pipe_ring_write d ?n p = (w, p1)" by fastforce
    note W = pipe_ring_write_ok [OF Cons.prems(1) l, unfolded w]
    obtain t g p2 where r: "pipe_run cs p1 = (t, g, p2)" by (cases "pipe_run cs p1") auto
    have "taken = take (unat w) d @ t" "delivered = g" "p' = p2" using Cons.prems(2) Pipe_write w r by simp_all
    moreover have "g @ pipe_bytes p2 = pipe_bytes p1 @ t \<and> pipe_ok p2" using Cons.IH [OF _ r] W by simp
    ultimately show ?thesis using W by simp
  next
    case (Pipe_read n)
    obtain d p1 where d: "pipe_ring_read n p = (d, p1)" by fastforce
    note R = pipe_ring_read_ok [OF Cons.prems(1), of n, unfolded d]
    obtain t g p2 where r: "pipe_run cs p1 = (t, g, p2)" by (cases "pipe_run cs p1") auto
    have "taken = t" "delivered = d @ g" "p' = p2" using Cons.prems(2) Pipe_read d r by simp_all
    moreover have "g @ pipe_bytes p2 = pipe_bytes p1 @ t \<and> pipe_ok p2" using Cons.IH [OF _ r] R by simp
    moreover have "d @ pipe_bytes p1 = pipe_bytes p" using R by simp
    ultimately show ?thesis by (metis append.assoc)
  qed
qed simp

definition demo_pipe :: pipe where
  "demo_pipe = \<lparr>p_buf = replicate 4096 0, p_head = 4094, p_nread = 0, p_ropen = 1, p_wopen = 1\<rparr>"

theorem pipe_is_fifo_witness:
  "fst (snd (pipe_run [Pipe_write [1, 2, 3, 4], Pipe_read 2, Pipe_read 9] demo_pipe)) = [1, 2, 3, 4]"
proof -
  have ok: "pipe_ok demo_pipe" by (simp add: pipe_ok_def demo_pipe_def)
  obtain t g q where r: "pipe_run [Pipe_write [1, 2, 3, 4], Pipe_read 2, Pipe_read 9] demo_pipe = (t, g, q)"
    by (cases "pipe_run [Pipe_write [1, 2, 3, 4], Pipe_read 2, Pipe_read 9] demo_pipe") auto
  have e: "pipe_bytes demo_pipe = []" by (simp add: pipe_bytes_def demo_pipe_def)
  have w: "pipe_bytes (snd (pipe_ring_write [1, 2, 3, 4] 4 demo_pipe)) = [1, 2, 3, 4]"
    "pipe_ok (snd (pipe_ring_write [1, 2, 3, 4] 4 demo_pipe))" "fst (pipe_ring_write [1, 2, 3, 4] 4 demo_pipe) = 4"
    using pipe_ring_write_ok [OF ok, of 4 "[1, 2, 3, 4]"] e by (simp_all add: demo_pipe_def pipe_ring_write_def PIPE_BUF_def)
  have d: "length g = 4" "t = [1, 2, 3, 4]"
    using r w pipe_ring_read_ok [OF w(2), of 2]
      pipe_ring_read_ok [of "snd (pipe_ring_read 2 (snd (pipe_ring_write [1, 2, 3, 4] 4 demo_pipe)))" 9]
    by (auto simp: case_prod_beta Let_def)
  from pipe_is_fifo [OF ok r] d e r show ?thesis by (auto simp: append_eq_conv_conj)
qed

end
