(* ===== verification/Ramfs.thy ===== *)
theory Ramfs
  imports Prelude
begin

text \<open>
  The in-memory file table, \<open>kernel/src/ramfs.c\<close>: eight slots, each with a name of at most
  255 bytes and a heap buffer. Names are the bytes in front of the terminating NUL, a null
  pointer is \<open>None\<close>. Whether \<open>kmalloc\<close> has memory, and what its fresh buffer holds, is the
  argument \<open>kmalloc\<close> of the operations that allocate.

  Shown here: the table implements a store of named files (the interface \<open>file_store\<close>):
  a successful write is what the next lookup returns and touches no other name, deletion and
  renaming behave alike, and the listing is the names in slot order, cut to the buffer. Two
  defects are shown as well: an overwrite that runs out of memory leaves a null buffer with
  the old size, and renaming onto an existing name leaves two files of that name.
\<close>

section \<open>The interface of a store of named files\<close>

locale file_store =
  fixes get :: "'s \<Rightarrow> bytes \<Rightarrow> bytes option"
    and put :: "bytes \<Rightarrow> bytes \<Rightarrow> 's \<Rightarrow> 's option"
    and del :: "bytes \<Rightarrow> 's \<Rightarrow> 's option"
    and ok :: "'s \<Rightarrow> bool"
    and good :: "bytes \<Rightarrow> bool"
  assumes put_get: "ok s \<Longrightarrow> good n \<Longrightarrow> put n d s = Some s' \<Longrightarrow>
      ok s' \<and> get s' n' = (if n' = n then Some d else get s n')"
    and put_present: "ok s \<Longrightarrow> good n \<Longrightarrow> get s n = Some c \<Longrightarrow> length d < 2 ^ 32 \<Longrightarrow> put n d s \<noteq> None"
    and del_get: "ok s \<Longrightarrow> del n s = Some s' \<Longrightarrow>
      ok s' \<and> get s' n' = (if n' = n then None else get s n')"
    and del_fails: "ok s \<Longrightarrow> del n s = None \<longleftrightarrow> get s n = None"
begin

lemma overwrite:
  assumes "ok s" "good n" "put n d s = Some s1" "length d' < 2 ^ 32"
  obtains s2 where "put n d' s1 = Some s2" "get s2 n = Some d'" "\<And>n'. n' \<noteq> n \<Longrightarrow> get s2 n' = get s n'"
proof -
  have s1: "ok s1" "get s1 n' = (if n' = n then Some d else get s n')" for n'
    using put_get [OF assms(1-3), of n'] by simp_all
  have "get s1 n = Some d" using s1(2) by simp
  then obtain s2 where s2: "put n d' s1 = Some s2"
    using put_present [OF s1(1) assms(2)] assms(4) by blast
  have "get s2 n' = (if n' = n then Some d' else get s1 n')" for n'
    using put_get [OF s1(1) assms(2) s2, of n'] by simp
  with s1(2) s2 show thesis by (intro that [of s2]) simp_all
qed

lemma put_del:
  assumes "ok s" "good n" "put n d s = Some s1" "get s n = None"
  obtains s2 where "del n s1 = Some s2" "\<And>n'. get s2 n' = get s n'"
proof -
  have s1: "ok s1" "get s1 n' = (if n' = n then Some d else get s n')" for n'
    using put_get [OF assms(1-3), of n'] by simp_all
  obtain s2 where s2: "del n s1 = Some s2"
    using del_fails [OF s1(1), of n] s1(2) by fastforce
  have "get s2 n' = (if n' = n then None else get s1 n')" for n'
    using del_get [OF s1(1) s2, of n'] by simp
  with s1(2) s2 assms(4) show thesis by (intro that [of s2]) auto
qed

end

section \<open>State and operations\<close>

record ramfs_entry =
  re_name :: bytes
  re_data :: "bytes option"
  re_size :: u32
  re_used :: bool

type_synonym ramfs = "ramfs_entry list"

definition RAMFS_MAX_FILES :: nat where
  "RAMFS_MAX_FILES = 8"

definition RAMFS_NAME_MAX :: nat where
  "RAMFS_NAME_MAX = 256"

fun rf_streq :: "bytes \<Rightarrow> bytes \<Rightarrow> bool" where
  "rf_streq (x # a) (y # b) = (if x \<noteq> y then False else rf_streq a b)"
| "rf_streq a b = (a = [] \<and> b = [])"

definition rf_strcpy :: "bytes \<Rightarrow> nat \<Rightarrow> bytes" where
  "rf_strcpy src cap = take (cap - 1) src"

definition ramfs_find :: "bytes \<Rightarrow> ramfs \<Rightarrow> nat option" where
  "ramfs_find nm fs = first_idx (\<lambda>e. re_used e \<and> rf_streq (re_name e) nm) fs"

definition ramfs_free_slot :: "ramfs \<Rightarrow> nat option" where
  "ramfs_free_slot fs = first_idx (\<lambda>e. \<not> re_used e) fs"

definition ramfs_claim :: "bytes \<Rightarrow> nat \<Rightarrow> ramfs \<Rightarrow> ramfs" where
  "ramfs_claim nm i fs =
     fs[i := \<lparr>re_name = rf_strcpy nm RAMFS_NAME_MAX, re_data = None, re_size = 0, re_used = True\<rparr>]"

definition ramfs_creat :: "bytes option \<Rightarrow> ramfs \<Rightarrow> nat option \<times> ramfs" where
  "ramfs_creat name fs =
     (case name of
        None \<Rightarrow> (None, fs)
      | Some nm \<Rightarrow>
          (case ramfs_find nm fs of
             Some i \<Rightarrow> (Some i, fs[i := (fs ! i)\<lparr>re_data := None, re_size := 0\<rparr>])
           | None \<Rightarrow>
               (case ramfs_free_slot fs of
                  Some i \<Rightarrow> (Some i, ramfs_claim nm i fs)
                | None \<Rightarrow> (None, fs))))"

definition ramfs_preallocate :: "(u32 \<Rightarrow> bytes option) \<Rightarrow> nat option \<Rightarrow> u32 \<Rightarrow> ramfs \<Rightarrow> bool \<times> ramfs" where
  "ramfs_preallocate kmalloc e cap fs =
     (case e of
        None \<Rightarrow> (False, fs)
      | Some i \<Rightarrow>
          if cap = 0 then (False, fs)
          else if re_data (fs ! i) \<noteq> None then (True, fs)
          else
            (case kmalloc cap of
               None \<Rightarrow> (False, fs)
             | Some buf \<Rightarrow> (True, fs[i := (fs ! i)\<lparr>re_data := Some buf, re_size := 0\<rparr>])))"

text \<open>The slot a write goes to: the file of that name, or the first free slot made into it.\<close>

definition ramfs_slot :: "bytes \<Rightarrow> ramfs \<Rightarrow> (nat \<times> ramfs) option" where
  "ramfs_slot nm fs =
     (case ramfs_find nm fs of
        Some i \<Rightarrow> Some (i, fs)
      | None \<Rightarrow> map_option (\<lambda>i. (i, ramfs_claim nm i fs)) (ramfs_free_slot fs))"

definition ramfs_write :: "(u32 \<Rightarrow> bytes option) \<Rightarrow> bytes option \<Rightarrow> bytes option \<Rightarrow> u32 \<Rightarrow> ramfs \<Rightarrow> bool \<times> ramfs" where
  "ramfs_write kmalloc name data len fs =
     (case name of
        None \<Rightarrow> (False, fs)
      | Some nm \<Rightarrow>
          if data = None \<and> 0 < len then (False, fs)
          else
            (case ramfs_slot nm fs of
               None \<Rightarrow> (False, fs)
             | Some (i, fs1) \<Rightarrow>
                 let fs2 = fs1[i := (fs1 ! i)\<lparr>re_data := None\<rparr>] in
                 if len = 0 then (True, fs2[i := (fs2 ! i)\<lparr>re_size := 0\<rparr>])
                 else
                   (case kmalloc len of
                      None \<Rightarrow> (False, fs2)
                    | Some buf \<Rightarrow>
                        let buf' = take (unat len) (the data) @ drop (unat len) buf in
                        (True, fs2[i := (fs2 ! i)\<lparr>re_data := Some buf', re_size := len\<rparr>]))))"

text \<open>The buffer pointer and the size, as \<open>ramfs_get\<close> stores them through its arguments.\<close>

definition ramfs_get :: "bytes option \<Rightarrow> ramfs \<Rightarrow> (bytes option \<times> u64) option" where
  "ramfs_get name fs =
     (case name of
        None \<Rightarrow> None
      | Some nm \<Rightarrow> map_option (\<lambda>i. (re_data (fs ! i), ucast (re_size (fs ! i)))) (ramfs_find nm fs))"

definition ramfs_rename :: "bytes option \<Rightarrow> bytes option \<Rightarrow> ramfs \<Rightarrow> bool \<times> ramfs" where
  "ramfs_rename old_name new_name fs =
     (case (old_name, new_name) of
        (Some old, Some new) \<Rightarrow>
          (case ramfs_find old fs of
             Some i \<Rightarrow> (True, fs[i := (fs ! i)\<lparr>re_name := rf_strcpy new RAMFS_NAME_MAX\<rparr>])
           | None \<Rightarrow> (False, fs))
      | _ \<Rightarrow> (False, fs))"

definition ramfs_delete :: "bytes option \<Rightarrow> ramfs \<Rightarrow> bool \<times> ramfs" where
  "ramfs_delete name fs =
     (case name of
        None \<Rightarrow> (False, fs)
      | Some nm \<Rightarrow>
          (case ramfs_find nm fs of
             Some i \<Rightarrow> (True, fs[i := (fs ! i)\<lparr>re_data := None, re_used := False, re_size := 0\<rparr>])
           | None \<Rightarrow> (False, fs)))"

text \<open>
  The bytes written to the listing buffer, without the terminating NUL; their number is the
  C return value. \<open>put_char\<close> is the guarded store \<open>if (pos + 1 < cap) buf[pos++] = c\<close>.
\<close>

definition ramfs_ls_buf :: "nat \<Rightarrow> ramfs \<Rightarrow> bytes" where
  "ramfs_ls_buf cap fs =
     (if cap = 0 then []
      else fold (\<lambda>e out. if \<not> re_used e then out
                         else put_char cap 10 (fold (put_char cap) (re_name e) out)) fs [])"

section \<open>The table as a store\<close>

lemma rf_streq_eq [simp]: "rf_streq a b \<longleftrightarrow> a = b"
  by (induction a b rule: rf_streq.induct) auto

text \<open>What a reader of the file sees.\<close>

definition file_bytes :: "ramfs_entry \<Rightarrow> bytes" where
  "file_bytes e = (case re_data e of None \<Rightarrow> [] | Some b \<Rightarrow> take (unat (re_size e)) b)"

definition ramfs_view :: "ramfs \<Rightarrow> bytes \<Rightarrow> bytes option" where
  "ramfs_view fs nm = map_option (\<lambda>i. file_bytes (fs ! i)) (ramfs_find nm fs)"

definition good_name :: "bytes \<Rightarrow> bool" where
  "good_name nm \<longleftrightarrow> cstr nm \<and> length nm < 256"

definition entry_ok :: "ramfs_entry \<Rightarrow> bool" where
  "entry_ok e \<longleftrightarrow> (re_used e \<longrightarrow> good_name (re_name e)
     \<and> (case re_data e of None \<Rightarrow> re_size e = 0 | Some b \<Rightarrow> unat (re_size e) \<le> length b))"

definition names_unique :: "ramfs \<Rightarrow> bool" where
  "names_unique fs \<longleftrightarrow> (\<forall>i < length fs. \<forall>j < length fs.
     re_used (fs ! i) \<longrightarrow> re_used (fs ! j) \<longrightarrow> re_name (fs ! i) = re_name (fs ! j) \<longrightarrow> i = j)"

definition ramfs_ok :: "ramfs \<Rightarrow> bool" where
  "ramfs_ok fs \<longleftrightarrow> length fs = RAMFS_MAX_FILES \<and> (\<forall>e \<in> set fs. entry_ok e) \<and> names_unique fs"

lemma names_uniqueD:
  "names_unique fs \<Longrightarrow> i < length fs \<Longrightarrow> j < length fs \<Longrightarrow> re_used (fs ! i) \<Longrightarrow> re_used (fs ! j) \<Longrightarrow>
    re_name (fs ! i) = re_name (fs ! j) \<Longrightarrow> i = j"
  by (simp add: names_unique_def)

lemma ramfs_find_Some:
  assumes "names_unique fs"
  shows "ramfs_find nm fs = Some i \<longleftrightarrow> i < length fs \<and> re_used (fs ! i) \<and> re_name (fs ! i) = nm"
proof
  assume "i < length fs \<and> re_used (fs ! i) \<and> re_name (fs ! i) = nm"
  then show "ramfs_find nm fs = Some i"
    using assms unfolding ramfs_find_def
    by (intro first_idx_unique) (auto simp: names_unique_def)
qed (auto simp: ramfs_find_def dest: first_idx_SomeD)

lemma ramfs_find_None:
  "ramfs_find nm fs = None \<longleftrightarrow> (\<forall>i < length fs. re_used (fs ! i) \<longrightarrow> re_name (fs ! i) \<noteq> nm)"
  by (auto simp: ramfs_find_def first_idx_None in_set_conv_nth all_set_conv_all_nth)

text \<open>
  Every operation that succeeds rewrites one slot. What that does to the lookups depends on
  the names the slot had before and has now.
\<close>

lemma names_unique_update:
  assumes "names_unique fs" "i < length fs"
    and "re_used e \<Longrightarrow> ramfs_find (re_name e) fs = None \<or> ramfs_find (re_name e) fs = Some i"
  shows "names_unique (fs[i := e])"
  unfolding names_unique_def
proof (intro allI impI)
  fix j k
  assume jk: "j < length (fs[i := e])" "k < length (fs[i := e])" "re_used (fs[i := e] ! j)"
    "re_used (fs[i := e] ! k)" "re_name (fs[i := e] ! j) = re_name (fs[i := e] ! k)"
  have clash: "m = i" if m: "m < length fs" "re_used e" "re_used (fs ! m)" "re_name (fs ! m) = re_name e" for m
  proof -
    have "ramfs_find (re_name e) fs = Some m"
      using m assms(1) by (simp add: ramfs_find_Some)
    with assms(3) m(2) show ?thesis by simp
  qed
  consider "j = i" "k = i" | "j \<noteq> i" "k = i" | "j = i" "k \<noteq> i" | "j \<noteq> i" "k \<noteq> i" by blast
  then show "j = k"
  proof cases
    case 2
    with jk assms(2) clash [of j] show ?thesis by simp
  next
    case 3
    with jk assms(2) clash [of k] show ?thesis by simp
  next
    case 4
    with jk names_uniqueD [OF assms(1), of j k] show ?thesis by simp
  qed simp
qed

lemma ramfs_ok_update:
  assumes "ramfs_ok fs" "i < length fs" "entry_ok e"
    and "re_used e \<Longrightarrow> ramfs_find (re_name e) fs = None \<or> ramfs_find (re_name e) fs = Some i"
  shows "ramfs_ok (fs[i := e])"
  using assms names_unique_update [of fs i e]
  by (auto simp: ramfs_ok_def dest!: set_update_subset_insert [THEN subsetD])

lemma ramfs_find_update:
  assumes "names_unique fs" "names_unique (fs[i := e])" "i < length fs"
  shows "ramfs_find nm (fs[i := e]) =
    (if re_used e \<and> re_name e = nm then Some i
     else if ramfs_find nm fs = Some i then None else ramfs_find nm fs)"
proof (cases "ramfs_find nm (fs[i := e])")
  case None
  then have all: "re_used (fs[i := e] ! j) \<longrightarrow> re_name (fs[i := e] ! j) \<noteq> nm" if "j < length fs" for j
    using that by (simp add: ramfs_find_None)
  have n1: "re_used e \<longrightarrow> re_name e \<noteq> nm"
    using all [of i] assms(3) by simp
  have n2: "re_used (fs ! j) \<longrightarrow> re_name (fs ! j) \<noteq> nm" if "j < length fs" "j \<noteq> i" for j
    using all [of j] that by simp
  have "ramfs_find nm fs = Some i \<or> ramfs_find nm fs = None"
    using n2 ramfs_find_Some [OF assms(1), of nm] by (cases "ramfs_find nm fs") auto
  with None n1 show ?thesis by auto
next
  case (Some k)
  then have k: "k < length fs" "re_used (fs[i := e] ! k)" "re_name (fs[i := e] ! k) = nm"
    using ramfs_find_Some [OF assms(2)] by auto
  show ?thesis
  proof (cases "k = i")
    case True
    with k Some show ?thesis by simp
  next
    case False
    with k have f: "ramfs_find nm fs = Some k" using ramfs_find_Some [OF assms(1)] by simp
    have "\<not> (re_used e \<and> re_name e = nm)"
      using names_uniqueD [OF assms(2), of k i] assms(3) k False by auto
    with f False Some show ?thesis by auto
  qed
qed

lemma ramfs_view_update:
  assumes "ramfs_ok fs" "ramfs_ok (fs[i := e])" "i < length fs"
  shows "ramfs_view (fs[i := e]) nm =
    (if re_used e \<and> re_name e = nm then Some (file_bytes e)
     else if ramfs_find nm fs = Some i then None else ramfs_view fs nm)"
proof -
  have "names_unique fs" "names_unique (fs[i := e])" using assms by (simp_all add: ramfs_ok_def)
  from ramfs_find_update [OF this assms(3), of nm] show ?thesis
    using assms(3) by (auto simp: ramfs_view_def nth_list_update map_option_case split: option.splits)
qed

lemma ramfs_find_bound: "ramfs_find nm fs = Some i \<Longrightarrow> i < length fs \<and> re_used (fs ! i) \<and> re_name (fs ! i) = nm"
  by (auto simp: ramfs_find_def dest: first_idx_SomeD)

section \<open>Writing, deleting, renaming\<close>

lemma good_name_copy: "good_name nm \<Longrightarrow> rf_strcpy nm RAMFS_NAME_MAX = nm"
  by (simp add: good_name_def rf_strcpy_def RAMFS_NAME_MAX_def)

lemma entry_ok_nth: "ramfs_ok fs \<Longrightarrow> i < length fs \<Longrightarrow> entry_ok (fs ! i)"
  by (simp add: ramfs_ok_def)

lemma ramfs_slot_Some:
  assumes "ramfs_ok fs" "good_name nm" "ramfs_slot nm fs = Some (i, fs1)"
  shows "i < length fs" "\<exists>e1. fs1 = fs[i := e1] \<and> re_used e1 \<and> re_name e1 = nm"
    "ramfs_find nm fs = None \<or> ramfs_find nm fs = Some i"
    "\<And>k. ramfs_find k fs = Some i \<Longrightarrow> k = nm"
proof -
  show "i < length fs" "\<exists>e1. fs1 = fs[i := e1] \<and> re_used e1 \<and> re_name e1 = nm"
    "ramfs_find nm fs = None \<or> ramfs_find nm fs = Some i"
    using assms ramfs_find_bound [of nm fs i] good_name_copy [OF assms(2)]
    by (auto simp: ramfs_slot_def ramfs_free_slot_def ramfs_claim_def split: option.splits
        dest: first_idx_SomeD) (metis list_update_id)
  show "k = nm" if "ramfs_find k fs = Some i" for k
    using that assms(3) ramfs_find_bound [of k fs i] ramfs_find_bound [of nm fs i]
    by (auto simp: ramfs_slot_def ramfs_free_slot_def split: option.splits dest: first_idx_SomeD)
qed

text \<open>A successful write as one slot update.\<close>

lemma ramfs_write_update:
  assumes "ramfs_ok fs" "good_name nm" "length d = unat len"
    and km: "\<And>b. kmalloc len = Some b \<Longrightarrow> length b = unat len"
    and w: "ramfs_write kmalloc (Some nm) (Some d) len fs = (True, fs')"
  obtains i e where "fs' = fs[i := e]" "i < length fs" "re_used e" "re_name e = nm" "entry_ok e"
    "file_bytes e = d" "re_size e = len" "len \<noteq> 0 \<longrightarrow> re_data e = Some d"
    "ramfs_find nm fs = None \<or> ramfs_find nm fs = Some i"
    "\<forall>k. ramfs_find k fs = Some i \<longrightarrow> k = nm"
proof -
  from w obtain i fs1 where sl: "ramfs_slot nm fs = Some (i, fs1)"
    by (auto simp: ramfs_write_def split: option.splits)
  note S = ramfs_slot_Some [OF assms(1,2) sl]
  from S(2) obtain e1 where e1: "fs1 = fs[i := e1]" "re_used e1" "re_name e1 = nm" by blast
  define e where "e = e1\<lparr>re_data := (if len = 0 then None else Some d), re_size := len\<rparr>"
  have "fs' = fs[i := e]"
    using w sl S(1) e1(1) km assms(3)
    by (auto simp: ramfs_write_def e_def Let_def split: option.splits if_splits)
  moreover have "entry_ok e" "file_bytes e = d"
    using e1 assms(2,3) by (auto simp: e_def entry_ok_def file_bytes_def)
  ultimately show thesis
    using that [of i e] S(1,3,4) e1 by (simp add: e_def)
qed

lemma ramfs_write_view:
  assumes "ramfs_ok fs" "good_name nm" "length d = unat len"
    and "\<And>b. kmalloc len = Some b \<Longrightarrow> length b = unat len"
    and "ramfs_write kmalloc (Some nm) (Some d) len fs = (True, fs')"
  shows "ramfs_ok fs'" "ramfs_view fs' k = (if k = nm then Some d else ramfs_view fs k)"
proof -
  obtain i e where e: "fs' = fs[i := e]" "i < length fs" "re_used e" "re_name e = nm" "entry_ok e"
    "file_bytes e = d" "re_size e = len" "len \<noteq> 0 \<longrightarrow> re_data e = Some d"
    "ramfs_find nm fs = None \<or> ramfs_find nm fs = Some i"
    "\<forall>k. ramfs_find k fs = Some i \<longrightarrow> k = nm"
    by (rule ramfs_write_update [OF assms])
  show ok: "ramfs_ok fs'"
    using ramfs_ok_update [OF assms(1) e(2,5)] e(1,4,9) by simp
  show "ramfs_view fs' k = (if k = nm then Some d else ramfs_view fs k)"
    using ramfs_view_update [OF assms(1) _ e(2), of e k] ok e(1,3,4,6) e(10) by auto
qed

lemma ramfs_delete_view:
  assumes "ramfs_ok fs" "ramfs_delete (Some nm) fs = (True, fs')"
  shows "ramfs_ok fs'" "ramfs_view fs' k = (if k = nm then None else ramfs_view fs k)"
proof -
  obtain i where i: "ramfs_find nm fs = Some i"
    and fs': "fs' = fs[i := (fs ! i)\<lparr>re_data := None, re_used := False, re_size := 0\<rparr>]"
    using assms(2) by (auto simp: ramfs_delete_def split: option.splits)
  note b = ramfs_find_bound [OF i]
  show ok: "ramfs_ok fs'"
    unfolding fs' using b by (intro ramfs_ok_update [OF assms(1)]) (simp_all add: entry_ok_def)
  have "ramfs_find k fs = Some i \<longleftrightarrow> k = nm"
    using i b ramfs_find_bound [of k fs i] by auto
  then show "ramfs_view fs' k = (if k = nm then None else ramfs_view fs k)"
    using ramfs_view_update [OF assms(1), of i _ k] ok b by (simp add: fs')
qed

text \<open>The operations in the shape of the interface, with a heap that has memory.\<close>

definition heap_has :: "u32 \<Rightarrow> bytes option" where
  "heap_has n = Some (replicate (unat n) 0)"

definition ramfs_put :: "bytes \<Rightarrow> bytes \<Rightarrow> ramfs \<Rightarrow> ramfs option" where
  "ramfs_put nm d fs =
     (if length d < 2 ^ 32 \<and> fst (ramfs_write heap_has (Some nm) (Some d) (of_nat (length d)) fs)
      then Some (snd (ramfs_write heap_has (Some nm) (Some d) (of_nat (length d)) fs)) else None)"

definition ramfs_del :: "bytes \<Rightarrow> ramfs \<Rightarrow> ramfs option" where
  "ramfs_del nm fs = (case ramfs_delete (Some nm) fs of (True, fs') \<Rightarrow> Some fs' | _ \<Rightarrow> None)"

lemma unat_length_u32: "length d < 2 ^ 32 \<Longrightarrow> unat (of_nat (length d) :: u32) = length d"
  by (simp add: unsigned_of_nat take_bit_nat_eq_self)

interpretation ramfs_store: file_store ramfs_view ramfs_put ramfs_del ramfs_ok good_name
proof
  fix s s' n n' d c
  assume ok: "ramfs_ok s"
  show "ramfs_ok s' \<and> ramfs_view s' n' = (if n' = n then Some d else ramfs_view s n')"
    if g: "good_name n" and p: "ramfs_put n d s = Some s'"
  proof -
    let ?l = "of_nat (length d) :: u32"
    from p have l: "length d < 2 ^ 32" and w: "ramfs_write heap_has (Some n) (Some d) ?l s = (True, s')"
      by (auto simp: ramfs_put_def prod_eq_iff split: if_splits)
    have "length d = unat ?l" using unat_length_u32 [OF l] by simp
    moreover have "\<And>b. heap_has ?l = Some b \<Longrightarrow> length b = unat ?l"
      by (auto simp: heap_has_def)
    ultimately show ?thesis
      using ramfs_write_view [OF ok g _ _ w] by blast
  qed
  show "ramfs_put n d s \<noteq> None" if "good_name n" and p: "ramfs_view s n = Some c" and l: "length d < 2 ^ 32"
  proof -
    obtain i where "ramfs_find n s = Some i" using p by (auto simp: ramfs_view_def)
    then have "fst (ramfs_write heap_has (Some n) (Some d) (of_nat (length d)) s)"
      by (simp add: ramfs_write_def ramfs_slot_def heap_has_def Let_def)
    with l show ?thesis by (simp add: ramfs_put_def)
  qed
  show "ramfs_ok s' \<and> ramfs_view s' n' = (if n' = n then None else ramfs_view s n')"
    if "ramfs_del n s = Some s'"
    using that ramfs_delete_view(1) [OF ok, of n s'] ramfs_delete_view(2) [OF ok, of n s' n']
    by (auto simp: ramfs_del_def split: prod.splits bool.splits)
  show "ramfs_del n s = None \<longleftrightarrow> ramfs_view s n = None"
    by (auto simp: ramfs_del_def ramfs_delete_def ramfs_view_def split: option.splits)
qed

text \<open>
  On a well-formed table and for a name that fits, a write that succeeds makes the
  file of that name hold exactly the written bytes and their length, leaves every other
  file's content alone, and keeps the table well formed; and it succeeds whenever the heap
  has memory and the name exists or a slot is free.
\<close>

theorem ramfs_write_get:
  assumes "ramfs_ok fs" "good_name nm" "length d = unat len"
    and "kmalloc len = Some b" "length b = unat len"
    and "ramfs_find nm fs \<noteq> None \<or> ramfs_free_slot fs \<noteq> None"
  shows "\<exists>fs'. ramfs_write kmalloc (Some nm) (Some d) len fs = (True, fs') \<and> ramfs_ok fs'
    \<and> (\<exists>p. ramfs_get (Some nm) fs' = Some (p, ucast len) \<and> (len \<noteq> 0 \<longrightarrow> p = Some d))
    \<and> (\<forall>k. ramfs_view fs' k = (if k = nm then Some d else ramfs_view fs k))"
proof -
  have "fst (ramfs_write kmalloc (Some nm) (Some d) len fs)"
    using assms(4,6) by (auto simp: ramfs_write_def ramfs_slot_def Let_def split: option.splits)
  then obtain fs' where w: "ramfs_write kmalloc (Some nm) (Some d) len fs = (True, fs')"
    by (metis prod.collapse)
  have km: "length b' = unat len" if "kmalloc len = Some b'" for b' using that assms(4,5) by simp
  note V = ramfs_write_view [OF assms(1-3) km w]
  obtain i e where e: "fs' = fs[i := e]" "i < length fs" "re_used e" "re_name e = nm"
    "re_size e = len" "len \<noteq> 0 \<longrightarrow> re_data e = Some d"
    using ramfs_write_update [OF assms(1-3) km w] by blast
  have "ramfs_find nm fs' = Some i"
    using V(1) e by (subst ramfs_find_Some) (simp_all add: ramfs_ok_def)
  with e have "ramfs_get (Some nm) fs' = Some (re_data e, ucast len)"
    by (simp add: ramfs_get_def)
  with w V e(6) show ?thesis by blast
qed

definition ramfs_empty :: ramfs where
  "ramfs_empty = replicate 8 \<lparr>re_name = [], re_data = None, re_size = 0, re_used = False\<rparr>"

lemma ramfs_empty_ok: "ramfs_ok ramfs_empty"
  by (simp add: ramfs_ok_def ramfs_empty_def RAMFS_MAX_FILES_def entry_ok_def names_unique_def)

definition ramfs_demo :: ramfs where
  "ramfs_demo = snd (ramfs_write heap_has (Some [104, 105]) (Some [1, 2, 3]) 3 ramfs_empty)"

lemma heap_has_3: "heap_has 3 = Some [0, 0, 0]"
proof -
  have "replicate 3 0 = [0, 0, 0 :: u8]" by (simp add: numeral_eq_Suc)
  then show ?thesis by (simp add: heap_has_def)
qed

lemma ramfs_empty_Cons: "ramfs_empty = hd ramfs_empty # tl ramfs_empty" "tl ramfs_empty = replicate 7 (hd ramfs_empty)"
    "hd ramfs_empty = \<lparr>re_name = [], re_data = None, re_size = 0, re_used = False\<rparr>"
  by (simp_all add: ramfs_empty_def numeral_eq_Suc)

lemma ramfs_empty_slot: "ramfs_find nm ramfs_empty = None" "ramfs_free_slot ramfs_empty = Some 0"
  by (simp add: ramfs_find_def ramfs_empty_def first_idx_None)
    (subst ramfs_empty_Cons(1), simp add: ramfs_free_slot_def ramfs_empty_Cons(3))

lemma ramfs_demo_eq:
  "ramfs_demo = \<lparr>re_name = [104, 105], re_data = Some [1, 2, 3], re_size = 3, re_used = True\<rparr>
     # replicate 7 \<lparr>re_name = [], re_data = None, re_size = 0, re_used = False\<rparr>"
proof -
  have "ramfs_empty[0 := e] = e # replicate 7 (hd ramfs_empty)" for e
    by (subst ramfs_empty_Cons(1)) (simp add: ramfs_empty_Cons(2))
  then show ?thesis
    by (simp add: ramfs_demo_def ramfs_write_def ramfs_slot_def ramfs_empty_slot ramfs_claim_def heap_has_3
        rf_strcpy_def RAMFS_NAME_MAX_def ramfs_empty_Cons(3))
qed

theorem ramfs_write_get_witness:
  "ramfs_ok ramfs_demo \<and> ramfs_get (Some [104, 105]) ramfs_demo = Some (Some [1, 2, 3], 3)"
proof -
  have "\<exists>fs'. ramfs_write heap_has (Some [104, 105]) (Some [1, 2, 3]) 3 ramfs_empty = (True, fs') \<and> ramfs_ok fs'
    \<and> (\<exists>p. ramfs_get (Some [104, 105]) fs' = Some (p, ucast (3 :: u32)) \<and> ((3 :: u32) \<noteq> 0 \<longrightarrow> p = Some [1, 2, 3]))
    \<and> (\<forall>k. ramfs_view fs' k = (if k = [104, 105] then Some [1, 2, 3] else ramfs_view ramfs_empty k))"
    by (rule ramfs_write_get [OF ramfs_empty_ok, where b = "[0, 0, 0]"])
      (simp_all add: good_name_def cstr_def heap_has_3 ramfs_empty_slot)
  then show ?thesis by (auto simp: ramfs_demo_def)
qed

lemma ramfs_demo_file: "ramfs_ok ramfs_demo" "ramfs_find [104, 105] ramfs_demo = Some 0"
    "ramfs_view ramfs_demo [104, 105] = Some [1, 2, 3]" "ramfs_find [98] ramfs_demo = None"
    "re_size (ramfs_demo ! 0) = 3"
proof -
  show "ramfs_ok ramfs_demo"
    by (auto simp: ramfs_demo_eq ramfs_ok_def RAMFS_MAX_FILES_def entry_ok_def good_name_def cstr_def
        names_unique_def nth_Cons split: nat.splits)
  show "ramfs_find [104, 105] ramfs_demo = Some 0" "ramfs_view ramfs_demo [104, 105] = Some [1, 2, 3]"
    "ramfs_find [98] ramfs_demo = None" "re_size (ramfs_demo ! 0) = 3"
    by (simp_all add: ramfs_demo_eq ramfs_find_def ramfs_view_def file_bytes_def first_idx_None)
qed

text \<open>
  Deleting an existing file makes its name unknown, keeps every other file, and
  keeps the table well formed; deleting an unknown name fails and changes nothing.
\<close>

theorem ramfs_delete_removes:
  assumes "ramfs_ok fs"
  shows "if ramfs_get (Some nm) fs = None then ramfs_delete (Some nm) fs = (False, fs)
    else \<exists>fs'. ramfs_delete (Some nm) fs = (True, fs') \<and> ramfs_ok fs' \<and> ramfs_get (Some nm) fs' = None
      \<and> (\<forall>k. ramfs_view fs' k = (if k = nm then None else ramfs_view fs k))"
proof (cases "ramfs_find nm fs")
  case None
  then show ?thesis by (simp add: ramfs_get_def ramfs_delete_def)
next
  case (Some i)
  then obtain fs' where d: "ramfs_delete (Some nm) fs = (True, fs')" by (simp add: ramfs_delete_def)
  note V = ramfs_delete_view [OF assms d]
  have "ramfs_get (Some nm) fs' = None"
    using V(2) [of nm] by (simp add: ramfs_get_def ramfs_view_def)
  with Some d V show ?thesis by (simp add: ramfs_get_def)
qed

theorem ramfs_delete_removes_witness:
  "ramfs_ok ramfs_demo \<and> (\<exists>fs'. ramfs_delete (Some [104, 105]) ramfs_demo = (True, fs')
     \<and> ramfs_get (Some [104, 105]) fs' = None)"
  using ramfs_delete_removes [OF ramfs_demo_file(1), of "[104, 105]"] ramfs_demo_file(1,2)
  by (auto simp: ramfs_get_def)

text \<open>
  Renaming a file to a name that fits and is not taken moves its content: the new
  name has it, the old name is unknown, every other file is as before, and the table stays
  well formed.
\<close>

theorem ramfs_rename_moves:
  assumes "ramfs_ok fs" "ramfs_find old fs = Some i" "good_name new" "ramfs_find new fs = None"
  shows "\<exists>fs'. ramfs_rename (Some old) (Some new) fs = (True, fs') \<and> ramfs_ok fs'
    \<and> (\<forall>k. ramfs_view fs' k = (if k = new then ramfs_view fs old else if k = old then None else ramfs_view fs k))"
proof -
  let ?e = "(fs ! i)\<lparr>re_name := new\<rparr>"
  note b = ramfs_find_bound [OF assms(2)]
  have r: "ramfs_rename (Some old) (Some new) fs = (True, fs[i := ?e])"
    using assms(2) good_name_copy [OF assms(3)] by (simp add: ramfs_rename_def)
  have ok: "ramfs_ok (fs[i := ?e])"
    using b entry_ok_nth [OF assms(1), of i] assms(3,4)
    by (intro ramfs_ok_update [OF assms(1)]) (auto simp: entry_ok_def split: option.splits)
  have "ramfs_find k fs = Some i \<longleftrightarrow> k = old" for k
    using assms(2) b ramfs_find_bound [of k fs i] by auto
  moreover have "ramfs_view fs old = Some (file_bytes ?e)"
    using assms(2) by (simp add: ramfs_view_def file_bytes_def split: option.splits)
  ultimately have "ramfs_view (fs[i := ?e]) k = (if k = new then ramfs_view fs old else if k = old then None else ramfs_view fs k)" for k
    using ramfs_view_update [OF assms(1) ok, of k] b by simp
  with r ok show ?thesis by blast
qed

theorem ramfs_rename_moves_witness:
  "ramfs_find [98] ramfs_demo = None \<and> (\<exists>fs'. ramfs_rename (Some [104, 105]) (Some [98]) ramfs_demo = (True, fs')
     \<and> ramfs_view fs' [98] = Some [1, 2, 3] \<and> ramfs_view fs' [104, 105] = None)"
proof -
  have "good_name [98]" by (simp add: good_name_def cstr_def)
  from ramfs_rename_moves [OF ramfs_demo_file(1,2) this ramfs_demo_file(4)] ramfs_demo_file(3,4)
  show ?thesis by auto
qed

text \<open>
  A name already taken is not protected: \<open>ramfs_rename\<close> onto an existing file
  leaves two used slots with the same name, one of which no lookup can reach any more.
\<close>

theorem ramfs_rename_shadows:
  assumes "ramfs_ok fs" "ramfs_find old fs = Some i" "ramfs_find new fs = Some j" "old \<noteq> new"
  shows "\<exists>fs'. ramfs_rename (Some old) (Some new) fs = (True, fs') \<and> i \<noteq> j
    \<and> re_used (fs' ! i) \<and> re_used (fs' ! j) \<and> re_name (fs' ! i) = new \<and> re_name (fs' ! j) = new
    \<and> \<not> ramfs_ok fs' \<and> ramfs_find new fs' = Some (min i j)"
proof -
  note bi = ramfs_find_bound [OF assms(2)] and bj = ramfs_find_bound [OF assms(3)]
  let ?e = "(fs ! i)\<lparr>re_name := new\<rparr>"
  have "good_name new"
    using entry_ok_nth [OF assms(1), of j] bj by (auto simp: entry_ok_def)
  then have r: "ramfs_rename (Some old) (Some new) fs = (True, fs[i := ?e])"
    using assms(2) good_name_copy by (simp add: ramfs_rename_def)
  have ne: "i \<noteq> j" using bi bj assms(4) by auto
  have two: "re_used (fs[i := ?e] ! i)" "re_used (fs[i := ?e] ! j)" "re_name (fs[i := ?e] ! i) = new"
    "re_name (fs[i := ?e] ! j) = new"
    using bi bj ne by simp_all
  then have "\<not> ramfs_ok (fs[i := ?e])"
    using ne bi bj names_uniqueD [of "fs[i := ?e]" i j] by (auto simp: ramfs_ok_def)
  moreover have "ramfs_find new (fs[i := ?e]) = Some (min i j)"
  proof -
    have other: "\<not> (re_used (fs ! k) \<and> re_name (fs ! k) = new)" if "k < length fs" "k \<noteq> j" for k
      using names_uniqueD [of fs k j] assms(1) bj that by (auto simp: ramfs_ok_def)
    show ?thesis
      unfolding ramfs_find_def first_idx_Some using two bi bj other ne
      by (auto simp: min_def nth_list_update)
  qed
  ultimately show ?thesis using r ne two by blast
qed

definition ramfs_demo2 :: ramfs where
  "ramfs_demo2 = ramfs_demo[1 := \<lparr>re_name = [98], re_data = None, re_size = 0, re_used = True\<rparr>]"

lemma ramfs_demo2_file: "ramfs_ok ramfs_demo2" "ramfs_find [104, 105] ramfs_demo2 = Some 0"
    "ramfs_find [98] ramfs_demo2 = Some 1"
proof -
  show ok: "ramfs_ok ramfs_demo2"
    unfolding ramfs_demo2_def using ramfs_demo_file(4)
    by (intro ramfs_ok_update [OF ramfs_demo_file(1)])
      (simp_all add: entry_ok_def good_name_def cstr_def ramfs_demo_eq)
  show "ramfs_find [104, 105] ramfs_demo2 = Some 0" "ramfs_find [98] ramfs_demo2 = Some 1"
    using ok by (simp_all add: ramfs_ok_def ramfs_find_Some) (simp_all add: ramfs_demo2_def ramfs_demo_eq)
qed

theorem ramfs_rename_shadows_witness:
  "\<exists>fs'. ramfs_rename (Some [104, 105]) (Some [98]) ramfs_demo2 = (True, fs')
     \<and> re_name (fs' ! 0) = [98] \<and> re_name (fs' ! 1) = [98]"
  using ramfs_rename_shadows [OF ramfs_demo2_file] by auto

text \<open>
  Overwriting a nonempty file when the heap has no memory reports failure but has
  already dropped the old buffer without resetting the size: the next lookup returns a null
  pointer together with the old, nonzero size.
\<close>

theorem ramfs_write_oom_stale_size:
  assumes "ramfs_ok fs" "ramfs_find nm fs = Some i" "re_size (fs ! i) \<noteq> 0" "len \<noteq> 0" "kmalloc len = None"
  shows "\<exists>fs'. ramfs_write kmalloc (Some nm) (Some d) len fs = (False, fs')
    \<and> ramfs_get (Some nm) fs' = Some (None, ucast (re_size (fs ! i))) \<and> \<not> ramfs_ok fs'"
proof -
  note b = ramfs_find_bound [OF assms(2)]
  let ?e = "(fs ! i)\<lparr>re_data := None\<rparr>"
  have w: "ramfs_write kmalloc (Some nm) (Some d) len fs = (False, fs[i := ?e])"
    using assms(2,4,5) by (simp add: ramfs_write_def ramfs_slot_def Let_def)
  have "ramfs_find nm (fs[i := ?e]) = Some i"
    using assms(2) b unfolding ramfs_find_def
    by (subst first_idx_cong [of "fs[i := ?e]" fs]) (auto simp: nth_list_update)
  then have "ramfs_get (Some nm) (fs[i := ?e]) = Some (None, ucast (re_size (fs ! i)))"
    using b by (simp add: ramfs_get_def)
  moreover have "\<not> ramfs_ok (fs[i := ?e])"
    using b assms(3) entry_ok_nth [of "fs[i := ?e]" i] by (auto simp: entry_ok_def)
  ultimately show ?thesis using w by blast
qed

theorem ramfs_write_oom_stale_size_witness:
  "\<exists>fs'. ramfs_write (\<lambda>n. None) (Some [104, 105]) (Some [9]) 1 ramfs_demo = (False, fs')
    \<and> ramfs_get (Some [104, 105]) fs' = Some (None, 3)"
  using ramfs_write_oom_stale_size [OF ramfs_demo_file(1,2), of 1 "\<lambda>n. None" "[9]"] ramfs_demo_file(5)
  by auto

section \<open>Listing\<close>

lemma put_chars: "cap \<noteq> 0 \<Longrightarrow> length out < cap \<Longrightarrow> fold (put_char cap) cs out = take (cap - 1) (out @ cs)"
proof (induction cs arbitrary: out)
  case Nil
  then show ?case by simp
next
  case (Cons c cs)
  show ?case
  proof (cases "length out + 1 < cap")
    case True
    then have "cap - Suc (length out) = Suc (cap - Suc (Suc (length out)))" by simp
    with True Cons show ?thesis by (simp add: put_char_def)
  next
    case False
    with Cons.prems have "cap - 1 = length out" by simp
    with Cons False show ?thesis by (simp add: put_char_def)
  qed
qed

definition ls_line :: "ramfs_entry \<Rightarrow> bytes" where
  "ls_line e = (if re_used e then re_name e @ [10] else [])"

lemma ls_fold:
  assumes "length out < cap"
  shows "fold (\<lambda>e out. if \<not> re_used e then out
                       else put_char cap 10 (fold (put_char cap) (re_name e) out)) fs out
    = take (cap - 1) (out @ concat (map ls_line fs))"
  using assms
proof (induction fs arbitrary: out)
  case Nil
  then show ?case by simp
next
  case (Cons e fs)
  have step: "(if \<not> re_used e then out else put_char cap 10 (fold (put_char cap) (re_name e) out))
      = take (cap - 1) (out @ ls_line e)"
    using put_chars [of cap out "re_name e @ [10]"] Cons.prems by (simp add: ls_line_def)
  have len: "length (take (cap - 1) (out @ ls_line e)) < cap" using Cons.prems by simp
  have "take (cap - 1) (take (cap - 1) xs @ ys) = take (cap - 1) (xs @ ys)" for xs ys :: bytes
    by (cases "length xs \<le> cap - 1") simp_all
  from this [of "out @ ls_line e" "concat (map ls_line fs)"] Cons.IH [OF len] step
  show ?case by simp
qed

text \<open>
  The listing is the names of the used slots in slot order, one per line, cut so
  that it and its terminating NUL fit the buffer.
\<close>

theorem ramfs_ls_buf_lists:
  "ramfs_ls_buf cap fs = take (cap - 1) (concat (map (\<lambda>e. re_name e @ [10]) (filter re_used fs)))"
proof -
  have "concat (map ls_line fs) = concat (map (\<lambda>e. re_name e @ [10]) (filter re_used fs))"
    by (induction fs) (simp_all add: ls_line_def)
  then show ?thesis
    using ls_fold [of "[]" cap fs] by (simp add: ramfs_ls_buf_def)
qed

end
