(* ===== verification/Initrd.thy ===== *)
theory Initrd
  imports Prelude
begin

text \<open>
  The initial RAM disk, \<open>kernel/src/initrd.c\<close>: the index over a cpio archive in the \<open>newc\<close>
  format that the boot loader leaves in memory, and the writer of such archives,
  \<open>tools/mkcpio.py\<close>. Memory is read relative to the first byte of the archive, as a function
  on offsets; what lies behind the archive is arbitrary. Pointers into the archive are offsets,
  and the archive is no longer than the address space, so pointer sums do not wrap.

  Shown here: whatever the archive contains, indexing it ends, no index entry refers to data
  outside it and at most 256 files are recorded; and for an archive written by the tool with ASCII names, the
  index finds every file with exactly its contents.
\<close>

section \<open>Definitions\<close>

type_synonym archive = "nat \<Rightarrow> u8"

definition INITRD_MAX_FILES :: nat where
  "INITRD_MAX_FILES = 256"

record initrd_entry =
  ie_name :: nat
  ie_data :: nat
  ie_size :: u64
  ie_mode :: u32

record initrd =
  in_ready :: bool
  in_base :: "archive option"
  in_size :: u64
  in_files :: "initrd_entry list"

text \<open>\<open>streq\<close> of the C string at offset \<open>a\<close> and a string of the kernel.\<close>

fun initrd_streq :: "archive \<Rightarrow> nat \<Rightarrow> bytes \<Rightarrow> bool" where
  "initrd_streq m a [] \<longleftrightarrow> m a = 0"
| "initrd_streq m a (c # cs) \<longleftrightarrow> m a = c \<and> initrd_streq m (Suc a) cs"

fun hex_loop :: "bytes \<Rightarrow> u32 \<Rightarrow> u32" where
  "hex_loop [] v = v"
| "hex_loop (c # cs) v =
     (let v = push_bit 4 v in
      if 0x30 \<le> c \<and> c \<le> 0x39 then hex_loop cs (v OR (ucast c - 0x30))
      else if 0x61 \<le> c \<and> c \<le> 0x66 then hex_loop cs (v OR (ucast c - 0x61 + 10))
      else if 0x41 \<le> c \<and> c \<le> 0x46 then hex_loop cs (v OR (ucast c - 0x41 + 10))
      else 0)"

definition hex8_u32 :: "archive \<Rightarrow> nat \<Rightarrow> u32" where
  "hex8_u32 m s = hex_loop (map m [s..<s + 8]) 0"

definition memeq6 :: "archive \<Rightarrow> nat \<Rightarrow> bytes \<Rightarrow> bool" where
  "memeq6 m a b \<longleftrightarrow> map m [a..<a + 6] = take 6 b"

definition align4_u64 :: "u64 \<Rightarrow> u64" where
  "align4_u64 x = (x + 3) AND NOT 3"

definition newc_magic_at :: "archive \<Rightarrow> nat \<Rightarrow> bool" where
  "newc_magic_at m p \<longleftrightarrow> memeq6 m p (ascii ''070701'') \<or> memeq6 m p (ascii ''070702'')"

definition is_newc_magic :: "archive option \<Rightarrow> u64 \<Rightarrow> bool" where
  "is_newc_magic base sz = (case base of None \<Rightarrow> False | Some m \<Rightarrow> \<not> sz < 6 \<and> newc_magic_at m 0)"

text \<open>The offset of the data of the entry at \<open>p\<close>, and of the next entry.\<close>

definition cpio_data :: "archive \<Rightarrow> nat \<Rightarrow> nat" where
  "cpio_data m p = p + unat (align4_u64 (110 + ucast (hex8_u32 m (p + 94))))"

definition cpio_next :: "archive \<Rightarrow> nat \<Rightarrow> nat" where
  "cpio_next m p = cpio_data m p + unat (align4_u64 (ucast (hex8_u32 m (p + 54))))"

lemma align4_le: "unat x < 2 ^ 63 \<Longrightarrow> unat x \<le> unat (align4_u64 x)"
proof -
  have m: "(3 :: u64) = mask 2" by (simp add: mask_eq_exp_minus_1)
  assume "unat x < 2 ^ 63"
  then have u: "unat (x + 3) = unat x + 3" by (simp add: unat_add_no_wrap)
  have "unat (align4_u64 x) = unat x + 3 - (unat x + 3) mod 4"
    unfolding align4_u64_def u [symmetric] using unat_and_not_mask [of "x + 3" 2] unfolding m [symmetric] by simp
  moreover have "(unat x + 3) mod 4 < 4" by simp
  ultimately show "unat x \<le> unat (align4_u64 x)" by linarith
qed

lemma cpio_data_gt: "p < cpio_data m p"
proof -
  let ?n = "ucast (hex8_u32 m (p + 94)) :: u64"
  have n: "unat ?n < 2 ^ 32" using unat_u32_less [of "hex8_u32 m (p + 94)"] by (simp add: unsigned_ucast_eq take_bit_nat_eq_self)
  then have "unat (110 + ?n) = 110 + unat ?n" by (simp add: unat_add_no_wrap)
  then show ?thesis using align4_le [of "110 + ?n"] n by (simp add: cpio_data_def)
qed

function index_loop :: "archive \<Rightarrow> nat \<Rightarrow> nat \<Rightarrow> initrd \<Rightarrow> initrd" where
  "index_loop m sz p g =
     (if p + 110 \<le> sz then
        if \<not> newc_magic_at m p then g
        else
          let mode = hex8_u32 m (p + 14); filesize = hex8_u32 m (p + 54); namesize = hex8_u32 m (p + 94);
              namep = p + 110; datap = cpio_data m p in
          if namep + unat namesize > sz then g
          else if datap + unat filesize > sz then g
          else if initrd_streq m namep (ascii ''TRAILER!!!'') then g\<lparr>in_ready := True\<rparr>
          else if length (in_files g) < INITRD_MAX_FILES then
            index_loop m sz (cpio_next m p)
              (g\<lparr>in_files := in_files g @ [\<lparr>ie_name = namep, ie_data = datap, ie_size = ucast filesize, ie_mode = mode\<rparr>]\<rparr>)
          else g\<lparr>in_ready := True\<rparr>
      else g)"
  by pat_completeness auto
termination
proof (relation "measure (\<lambda>(m, sz, p, g). sz - p)")
  fix m :: archive and sz p :: nat and g :: initrd
  assume "p + 110 \<le> sz"
  moreover have "p < cpio_next m p" using cpio_data_gt [of p m] by (simp add: cpio_next_def)
  ultimately show "((m, sz, cpio_next m p, g'), m, sz, p, g) \<in> measure (\<lambda>(m, sz, p, g). sz - p)" for g' by auto
qed auto

definition initrd_index_newc :: "archive \<Rightarrow> u64 \<Rightarrow> initrd \<Rightarrow> initrd" where
  "initrd_index_newc m sz g =
     index_loop m (unat sz) 0 (g\<lparr>in_ready := False, in_base := Some m, in_size := sz, in_files := []\<rparr>)"

record limine_file =
  lf_address :: "archive option"
  lf_size :: u64

definition initrd_init :: "limine_file option list option \<Rightarrow> initrd \<Rightarrow> initrd" where
  "initrd_init resp g =
     (case resp of
        None \<Rightarrow> g
      | Some [] \<Rightarrow> g
      | Some (None # _) \<Rightarrow> g
      | Some (Some f # _) \<Rightarrow>
          (case lf_address f of
             None \<Rightarrow> g
           | Some m \<Rightarrow>
               if lf_size f < 6 then g
               else if \<not> is_newc_magic (lf_address f) (lf_size f) then g
               else initrd_index_newc m (lf_size f) g))"

text \<open>The data and the size behind the two result pointers.\<close>

definition initrd_get :: "bytes option \<Rightarrow> initrd \<Rightarrow> (nat \<times> u64) option" where
  "initrd_get name g =
     (case (name, in_base g) of
        (Some nm, Some m) \<Rightarrow>
          if \<not> in_ready g then None
          else map_option (\<lambda>i. (ie_data (in_files g ! i), ie_size (in_files g ! i)))
                 (first_idx (\<lambda>e. initrd_streq m (ie_name e) nm) (in_files g))
      | _ \<Rightarrow> None)"

text \<open>The name at \<open>a\<close> is copied up to its NUL or until the buffer has no room for more.\<close>

function copy_name :: "archive \<Rightarrow> nat \<Rightarrow> nat \<Rightarrow> bytes \<Rightarrow> bytes" where
  "copy_name m a cap out = (if m a \<noteq> 0 \<and> length out + 1 < cap then copy_name m (Suc a) cap (out @ [m a]) else out)"
  by pat_completeness auto
termination by (relation "measure (\<lambda>(m, a, cap, out). cap - length out)") auto

definition initrd_ls_buf :: "nat \<Rightarrow> initrd \<Rightarrow> bytes" where
  "initrd_ls_buf cap g =
     (case in_base g of
        None \<Rightarrow> []
      | Some m \<Rightarrow>
          if cap = 0 \<or> \<not> in_ready g then []
          else fold (\<lambda>e out. let out = copy_name m (ie_name e) cap out in if length out + 1 < cap then out @ [10] else out)
                 (in_files g) [])"

text \<open>What \<open>initrd_cat\<close> prints of a file: at most 512 bytes, up to the first NUL.\<close>

definition initrd_cat :: "bytes option \<Rightarrow> initrd \<Rightarrow> bytes option" where
  "initrd_cat name g =
     (case (initrd_get name g, in_base g) of
        (Some (d, n), Some m) \<Rightarrow>
          Some (takeWhile (\<lambda>c. c \<noteq> 0) (map m [d..<d + (if n > 512 then 512 else unat n)]) @ [10])
      | _ \<Rightarrow> None)"

text \<open>
  The second parser of the file works on statics of its own, which nothing ever sets. It lays
  out the padding of the name differently: from the name on, not from the header on.
\<close>

definition g_initrd_base :: "archive option" where "g_initrd_base = None"
definition g_initrd_size :: u64 where "g_initrd_size = 0"

definition find_data :: "archive \<Rightarrow> nat \<Rightarrow> nat" where
  "find_data m p = p + 110 + unat (align4_u64 (ucast (hex8_u32 m (p + 94))))"

function find_loop :: "archive \<Rightarrow> nat \<Rightarrow> bytes \<Rightarrow> nat \<Rightarrow> (nat \<times> u32) option" where
  "find_loop m sz name p =
     (if p + 110 \<le> sz then
        if \<not> memeq6 m p (ascii ''070701'') then None
        else
          let namesz = hex8_u32 m (p + 94); filesz = hex8_u32 m (p + 54);
              namep = p + 110; filep = find_data m p in
          if namep + unat namesz > sz then None
          else if filep + unat filesz > sz then None
          else if initrd_streq m namep (ascii ''TRAILER!!!'') then None
          else if initrd_streq m namep name then Some (filep, filesz)
          else find_loop m sz name (filep + unat (align4_u64 (ucast filesz)))
      else None)"
  by pat_completeness auto
termination by (relation "measure (\<lambda>(m, sz, name, p). sz - p)") (auto simp: find_data_def)

definition initrd_find :: "bytes \<Rightarrow> (nat \<times> u32) option" where
  "initrd_find name =
     (case g_initrd_base of
        None \<Rightarrow> None
      | Some m \<Rightarrow> if g_initrd_size < 110 then None else find_loop m (unat g_initrd_size) name 0)"

text \<open>
  The writer of archives: \<open>tools/mkcpio.py\<close>. A Python string is the list of its code points; \<open>encode\<close>
  raises an error (\<open>None\<close>) for a surrogate, which stands for a byte of a file name that is not UTF-8.
\<close>

type_synonym py_str = "nat list"

definition utf8 :: "nat \<Rightarrow> bytes option" where
  "utf8 c =
     (if c < 0x80 then Some [of_nat c]
      else if c < 0x800 then Some [of_nat (0xC0 + c div 64), of_nat (0x80 + c mod 64)]
      else if 0xD800 \<le> c \<and> c < 0xE000 then None
      else if c < 0x10000 then Some [of_nat (0xE0 + c div 4096), of_nat (0x80 + c div 64 mod 64), of_nat (0x80 + c mod 64)]
      else Some [of_nat (0xF0 + c div 262144), of_nat (0x80 + c div 4096 mod 64), of_nat (0x80 + c div 64 mod 64), of_nat (0x80 + c mod 64)])"

definition py_encode :: "py_str \<Rightarrow> bytes option" where
  "py_encode name = map_option concat (those (map utf8 name))"

definition pad4 :: "nat \<Rightarrow> nat" where
  "pad4 n = (4 - n mod 4) mod 4"

definition hexdigit :: "nat \<Rightarrow> u8" where
  "hexdigit d = (if d < 10 then 0x30 + of_nat d else 0x61 + of_nat (d - 10))"

fun hex_digits :: "nat \<Rightarrow> bytes" where
  "hex_digits x = (if x < 16 then [hexdigit x] else hex_digits (x div 16) @ [hexdigit (x mod 16)])"

text \<open>The format \<open>08x\<close>: filled up with zeros to eight digits; a number that has more is printed with all of them.\<close>

definition py_hex8 :: "nat \<Rightarrow> bytes" where
  "py_hex8 x = replicate (8 - length (hex_digits x)) 0x30 @ hex_digits x"

definition write_hdr :: "py_str \<Rightarrow> nat \<Rightarrow> nat \<Rightarrow> bytes" where
  "write_hdr name mode filesize =
     ascii ''070701'' @ py_hex8 0 @ py_hex8 mode @ py_hex8 0 @ py_hex8 0 @ py_hex8 1 @ py_hex8 0 @ py_hex8 filesize
     @ py_hex8 0 @ py_hex8 0 @ py_hex8 0 @ py_hex8 0 @ py_hex8 (length name + 1) @ py_hex8 0"

definition write_entry :: "py_str \<times> nat \<times> bytes \<Rightarrow> bytes option" where
  "write_entry f =
     (case f of (name, mode, data) \<Rightarrow>
        map_option (\<lambda>b. write_hdr name mode (length data) @ b @ [0] @ replicate (pad4 (110 + length name + 1)) 0
          @ data @ replicate (pad4 (length data)) 0) (py_encode name))"

text \<open>The entries in the order in which \<open>main\<close> writes them: the directories, the files, the end marker.\<close>

definition trailer_name :: py_str where
  "trailer_name = map of_char ''TRAILER!!!''"

definition mkcpio :: "(py_str \<times> nat \<times> bytes) list \<Rightarrow> bytes option" where
  "mkcpio fs = map_option concat (those (map write_entry (fs @ [(trailer_name, 0x81A4, [])])))"

section \<open>Any archive\<close>

declare index_loop.simps [simp del] find_loop.simps [simp del] copy_name.simps [simp del]

definition entry_in :: "nat \<Rightarrow> initrd_entry \<Rightarrow> bool" where
  "entry_in sz e \<longleftrightarrow> ie_name e \<le> sz \<and> ie_data e + unat (ie_size e) \<le> sz"

lemma index_loop_in:
  "length (in_files g) \<le> INITRD_MAX_FILES \<Longrightarrow> \<forall>e \<in> set (in_files g). entry_in sz e \<Longrightarrow>
   length (in_files (index_loop m sz p g)) \<le> INITRD_MAX_FILES \<and> (\<forall>e \<in> set (in_files (index_loop m sz p g)). entry_in sz e)
   \<and> in_base (index_loop m sz p g) = in_base g \<and> in_size (index_loop m sz p g) = in_size g"
proof (induction "sz - p" arbitrary: p g rule: less_induct)
  case less
  let ?namep = "p + 110" and ?datap = "cpio_data m p"
  let ?e = "\<lparr>ie_name = ?namep, ie_data = ?datap, ie_size = ucast (hex8_u32 m (p + 54)), ie_mode = hex8_u32 m (p + 14)\<rparr> :: initrd_entry"
  let ?g = "g\<lparr>in_files := in_files g @ [?e]\<rparr>"
  show ?case
  proof (cases "p + 110 \<le> sz \<and> newc_magic_at m p \<and> \<not> ?namep + unat (hex8_u32 m (p + 94)) > sz \<and> \<not> ?datap + unat (hex8_u32 m (p + 54)) > sz
      \<and> \<not> initrd_streq m ?namep (ascii ''TRAILER!!!'') \<and> length (in_files g) < INITRD_MAX_FILES")
    case True
    then have l: "index_loop m sz p g = index_loop m sz (cpio_next m p) ?g" by (subst index_loop.simps) (simp add: Let_def)
    have "entry_in sz ?e" using True by (simp add: entry_in_def unat_u32_u64)
    moreover have "p < cpio_next m p" using cpio_data_gt [of p m] by (simp add: cpio_next_def)
    then have "sz - cpio_next m p < sz - p" by (rule diff_less_mono2) (use True in simp)
    moreover have "length (in_files ?g) \<le> INITRD_MAX_FILES" using True by simp
    ultimately show ?thesis unfolding l using less(1) [of "cpio_next m p" ?g] less(3) by simp
  next
    case False
    then have "index_loop m sz p g = g \<or> index_loop m sz p g = g\<lparr>in_ready := True\<rparr>"
      by (subst (1 2) index_loop.simps) (auto simp: Let_def)
    then show ?thesis using less(2,3) by auto
  qed
qed

text \<open>
  Whatever bytes the boot loader hands over, indexing them ends, records at most 256
  files, and every recorded name starts and every recorded content lies inside the archive.
\<close>

theorem initrd_index_in_bounds:
  "length (in_files (initrd_index_newc m sz g)) \<le> INITRD_MAX_FILES \<and>
   list_all (\<lambda>e. ie_name e \<le> unat sz \<and> ie_data e + unat (ie_size e) \<le> unat sz) (in_files (initrd_index_newc m sz g))"
  using index_loop_in [of "g\<lparr>in_ready := False, in_base := Some m, in_size := sz, in_files := []\<rparr>" "unat sz" m 0]
  by (simp add: initrd_index_newc_def entry_in_def list_all_iff)

section \<open>Archives of the tool\<close>

text \<open>\<open>has m p xs\<close>: the bytes \<open>xs\<close> are in memory from offset \<open>p\<close> on.\<close>

definition has :: "archive \<Rightarrow> nat \<Rightarrow> bytes \<Rightarrow> bool" where
  "has m p xs \<longleftrightarrow> (\<forall>i < length xs. m (p + i) = xs ! i)"

lemma has_map: "has m p xs \<Longrightarrow> n = length xs \<Longrightarrow> map m [p..<p + n] = xs"
  by (rule nth_equalityI) (simp_all add: has_def)

lemma has_append: "has m p (xs @ ys) \<longleftrightarrow> has m p xs \<and> has m (p + length xs) ys"
proof
  assume a: "has m p (xs @ ys)"
  have "m (p + length xs + i) = ys ! i" if "i < length ys" for i
    using a [unfolded has_def, rule_format, of "length xs + i"] that by (simp add: add.assoc)
  then show "has m p xs \<and> has m (p + length xs) ys"
    using a by (auto simp: has_def nth_append)
next
  assume a: "has m p xs \<and> has m (p + length xs) ys"
  show "has m p (xs @ ys)" unfolding has_def
  proof (intro allI impI)
    fix i
    assume i: "i < length (xs @ ys)"
    show "m (p + i) = (xs @ ys) ! i"
    proof (cases "i < length xs")
      case True
      then show ?thesis using a by (simp add: has_def nth_append)
    next
      case False
      then show ?thesis
        using i a [THEN conjunct2, unfolded has_def, rule_format, of "i - length xs"] by (simp add: nth_append)
    qed
  qed
qed

lemma has_Cons: "has m p (x # xs) \<longleftrightarrow> m p = x \<and> has m (Suc p) xs"
  using has_append [of m p "[x]" xs] by (simp add: has_def)

lemma has_streq: "has m p (xs @ [0]) \<Longrightarrow> 0 \<notin> set xs \<Longrightarrow> 0 \<notin> set ys \<Longrightarrow> initrd_streq m p ys \<longleftrightarrow> xs = ys"
proof (induction ys arbitrary: p xs)
  case Nil
  then show ?case by (cases xs) (auto simp: has_Cons)
next
  case (Cons y ys)
  then show ?case by (cases xs) (auto simp: has_Cons)
qed

declare hex_digits.simps [simp del]

lemma hex_digits_fixed:
  "x < 16 ^ Suc n \<Longrightarrow> length (hex_digits x) \<le> Suc n
     \<and> replicate (Suc n - length (hex_digits x)) 0x30 @ hex_digits x = map (\<lambda>i. hexdigit (x div 16 ^ i mod 16)) (rev [0..<Suc n])"
proof (induction n arbitrary: x)
  case 0
  then show ?case by (simp add: hex_digits.simps)
next
  case (Suc n)
  have "[0..<Suc (Suc n)] = 0 # map Suc [0..<Suc n]" unfolding map_Suc_upt by (simp only: upt_conv_Cons [OF zero_less_Suc])
  then have up: "rev [0..<Suc (Suc n)] = map Suc (rev [0..<Suc n]) @ [0]" by (simp only: rev.simps rev_map)
  have d: "map (\<lambda>i. hexdigit (x div 16 ^ i mod 16)) (rev [0..<Suc (Suc n)])
      = map (\<lambda>i. hexdigit (x div 16 div 16 ^ i mod 16)) (rev [0..<Suc n]) @ [hexdigit (x mod 16)]"
    unfolding up by (simp add: div_mult2_eq)
  show ?case
  proof (cases "x < 16")
    case True
    then have "map (\<lambda>i. hexdigit (x div 16 div 16 ^ i mod 16)) (rev [0..<Suc n]) = map (\<lambda>i. hexdigit 0) (rev [0..<Suc n])" by simp
    also have "\<dots> = replicate (Suc n) 0x30" unfolding map_replicate_const by (simp add: hexdigit_def)
    finally have z: "map (\<lambda>i. hexdigit (x div 16 div 16 ^ i mod 16)) (rev [0..<Suc n]) = replicate (Suc n) 0x30" .
    show ?thesis using True unfolding d z by (simp add: hex_digits.simps)
  next
    case False
    then have "hex_digits x = hex_digits (x div 16) @ [hexdigit (x mod 16)]" by (subst hex_digits.simps) simp
    moreover have "x div 16 < 16 ^ Suc n" using Suc.prems by (simp add: less_mult_imp_div_less mult.commute)
    ultimately show ?thesis using Suc.IH [of "x div 16"] unfolding d by simp
  qed
qed

lemma py_hex8_fixed: "x < 2 ^ 32 \<Longrightarrow> py_hex8 x = map (\<lambda>i. hexdigit (x div 16 ^ i mod 16)) (rev [0..<8])"
  using hex_digits_fixed [of x 7] by (simp add: py_hex8_def)

lemma length_py_hex8: "x < 2 ^ 32 \<Longrightarrow> length (py_hex8 x) = 8"
  by (simp add: py_hex8_fixed)

lemma hexdigit_range:
  "list_all (\<lambda>d. let c = hexdigit d in
     if d < 10 then 0x30 \<le> c \<and> c \<le> 0x39 \<and> ucast c - 0x30 = (of_nat d :: u32)
     else \<not> c \<le> 0x39 \<and> 0x61 \<le> c \<and> c \<le> 0x66 \<and> ucast c - 0x61 + 10 = (of_nat d :: u32)) [0..<16]"
  by code_simp

lemma hexdigit_value:
  assumes "d < 16"
  shows "hex_loop (hexdigit d # cs) v = hex_loop cs (push_bit 4 v OR of_nat d)"
proof -
  have "d \<in> set [0..<16]" unfolding set_upt using assms by simp
  then have r: "let c = hexdigit d in
     if d < 10 then 0x30 \<le> c \<and> c \<le> 0x39 \<and> ucast c - 0x30 = (of_nat d :: u32)
     else \<not> c \<le> 0x39 \<and> 0x61 \<le> c \<and> c \<le> 0x66 \<and> ucast c - 0x61 + 10 = (of_nat d :: u32)"
    using hexdigit_range unfolding list_all_iff by (rule bspec [rotated])
  show ?thesis
  proof (cases "d < 10")
    case True
    then show ?thesis using r by (simp add: Let_def)
  next
    case False
    then show ?thesis using r by (simp add: Let_def)
  qed
qed

lemma or_digit:
  assumes "d < 16"
  shows "push_bit 4 (of_nat n) OR of_nat d = (of_nat (16 * n + d) :: u32)"
proof -
  have t: "take_bit 4 d = d" using assms by (simp add: take_bit_nat_eq_self)
  have "\<not> bit (push_bit 4 n) k \<or> \<not> bit d k" for k
  proof (cases "k < 4")
    case True
    then show ?thesis by (simp add: bit_push_bit_iff)
  next
    case False
    then show ?thesis using bit_take_bit_iff [of 4 d k] t by simp
  qed
  then have "push_bit 4 n + d = push_bit 4 n OR d" by (rule disjunctive_add)
  then have "push_bit 4 n OR d = 16 * n + d" by (simp add: push_bit_eq_mult)
  then have "of_nat (push_bit 4 n OR d) = (of_nat (16 * n + d) :: u32)" by simp
  then show ?thesis by (simp only: of_nat_or_eq of_nat_push_bit)
qed

lemma hex_loop_digits: "hex_loop (map (\<lambda>i. hexdigit (x div 16 ^ i mod 16)) (rev [0..<n])) (of_nat (x div 16 ^ n)) = of_nat x"
proof (induction n)
  case (Suc n)
  have "16 * (x div 16 ^ Suc n) + x div 16 ^ n mod 16 = x div 16 ^ n"
    by (simp add: div_mult2_eq power_Suc2 del: power_Suc)
  then show ?case using Suc by (simp add: hexdigit_value or_digit del: hex_loop.simps(2))
qed simp

lemma hex_loop_py: "x < 2 ^ 32 \<Longrightarrow> hex_loop (py_hex8 x) 0 = of_nat x"
  using hex_loop_digits [of x 8] by (simp add: py_hex8_fixed del: hex_loop.simps(2))

lemma has_hex8: "has m p (py_hex8 x) \<Longrightarrow> x < 2 ^ 32 \<Longrightarrow> hex8_u32 m p = of_nat x"
  using has_map [of m p "py_hex8 x" 8] by (simp add: hex8_u32_def hex_loop_py length_py_hex8)

lemma length_ascii [simp]: "length (ascii s) = length s"
  by (simp add: ascii_def)

lemma length_write_hdr: "mode < 2 ^ 32 \<Longrightarrow> n < 2 ^ 32 \<Longrightarrow> length name + 1 < 2 ^ 32 \<Longrightarrow> length (write_hdr name mode n) = 110"
  by (simp add: write_hdr_def length_py_hex8)

lemma write_hdr_fields:
  assumes "has m p (write_hdr name mode n)" "mode < 2 ^ 32" "n < 2 ^ 32" "length name + 1 < 2 ^ 32"
  shows "newc_magic_at m p" "hex8_u32 m (p + 14) = of_nat mode" "hex8_u32 m (p + 54) = of_nat n"
    "hex8_u32 m (p + 94) = of_nat (length name + 1)"
proof -
  have h: "has m p (ascii ''070701'')" "has m (p + 14) (py_hex8 mode)" "has m (p + 54) (py_hex8 n)" "has m (p + 94) (py_hex8 (length name + 1))"
    using assms by (simp_all add: write_hdr_def has_append length_py_hex8 add.commute)
  have "map m [p..<p + 6] = ascii ''070701''" using has_map [OF h(1), of 6] by simp
  then show "newc_magic_at m p" by (simp add: newc_magic_at_def memeq6_def)
  show "hex8_u32 m (p + 14) = of_nat mode" "hex8_u32 m (p + 54) = of_nat n" "hex8_u32 m (p + 94) = of_nat (length name + 1)"
    using has_hex8 h assms(2-4) by blast+
qed

lemma pad4_round: "n + 3 - (n + 3) mod 4 = n + pad4 n"
proof -
  define q r where "q = n div 4" and "r = n mod 4"
  have n: "n = 4 * q + r" "r < 4" by (simp_all add: q_def r_def)
  then consider "r = 0" | "r = 1" | "r = 2" | "r = 3" by linarith
  moreover have "pad4 n = (4 - r) mod 4" by (simp add: pad4_def r_def)
  ultimately show ?thesis by cases (simp_all add: n(1))
qed

lemma unat_align4: "unat x < 2 ^ 63 \<Longrightarrow> unat (align4_u64 x) = unat x + pad4 (unat x)"
proof -
  have m: "(3 :: u64) = mask 2" by (simp add: mask_eq_exp_minus_1)
  assume "unat x < 2 ^ 63"
  then have u: "unat (x + 3) = unat x + 3" by (simp add: unat_add_no_wrap)
  have "unat (align4_u64 x) = unat x + 3 - (unat x + 3) mod 4"
    unfolding align4_u64_def u [symmetric] using unat_and_not_mask [of "x + 3" 2] unfolding m [symmetric] by simp
  also have "\<dots> = unat x + pad4 (unat x)" by (rule pad4_round)
  finally show ?thesis .
qed

text \<open>
  Files whose names are C strings, as the tool writes them when a byte is a character; and the index entry of a
  file at \<open>p\<close>.
\<close>

definition put_entry :: "bytes \<times> nat \<times> bytes \<Rightarrow> bytes" where
  "put_entry f =
     (case f of (name, mode, data) \<Rightarrow>
        write_hdr (map unat name) mode (length data) @ name @ [0] @ replicate (pad4 (110 + length name + 1)) 0
        @ data @ replicate (pad4 (length data)) 0)"

definition good_file :: "bytes \<times> nat \<times> bytes \<Rightarrow> bool" where
  "good_file f = (case f of (name, mode, data) \<Rightarrow>
     cstr name \<and> length name + 1 < 2 ^ 32 \<and> mode < 2 ^ 32 \<and> length data < 2 ^ 32)"

definition entry_at :: "nat \<Rightarrow> bytes \<times> nat \<times> bytes \<Rightarrow> initrd_entry" where
  "entry_at p f = (case f of (name, mode, data) \<Rightarrow>
     \<lparr>ie_name = p + 110, ie_data = p + 111 + length name + pad4 (111 + length name), ie_size = of_nat (length data), ie_mode = of_nat mode\<rparr>)"

lemma put_entry_at:
  assumes f: "good_file (name, mode, data)" and h: "has m p (put_entry (name, mode, data))"
  shows "newc_magic_at m p" "hex8_u32 m (p + 14) = of_nat mode" "unat (hex8_u32 m (p + 54)) = length data"
    "unat (hex8_u32 m (p + 94)) = length name + 1" "cpio_data m p = ie_data (entry_at p (name, mode, data))"
    "cpio_next m p = p + length (put_entry (name, mode, data))" "has m (p + 110) (name @ [0])"
    "has m (ie_data (entry_at p (name, mode, data))) data"
    "p + length (put_entry (name, mode, data)) = ie_data (entry_at p (name, mode, data)) + length data + pad4 (length data)"
proof -
  have g: "length name + 1 < 2 ^ 32" "mode < 2 ^ 32" "length data < 2 ^ 32" using f by (simp_all add: good_file_def)
  have hs: "has m p (write_hdr (map unat name) mode (length data))" "has m (p + 110) (name @ [0])"
    "has m (p + 110 + length name + 1 + pad4 (110 + length name + 1)) data"
  proof -
    have len: "length (write_hdr (map unat name) mode (length data)) = 110" using g by (simp add: length_write_hdr)
    have "put_entry (name, mode, data) = write_hdr (map unat name) mode (length data) @ (name @ [0])
        @ replicate (pad4 (110 + length name + 1)) 0 @ data @ replicate (pad4 (length data)) 0"
      by (simp add: put_entry_def)
    from h [unfolded this has_append len length_append_singleton length_replicate]
    show "has m p (write_hdr (map unat name) mode (length data))" "has m (p + 110) (name @ [0])"
      "has m (p + 110 + length name + 1 + pad4 (110 + length name + 1)) data" by (simp_all add: has_append)
  qed
  note F = write_hdr_fields [OF hs(1) g(2,3), unfolded length_map, OF g(1)]
  show "newc_magic_at m p" "hex8_u32 m (p + 14) = of_nat mode" "has m (p + 110) (name @ [0])" by (fact F(1) F(2) hs(2))+
  show u: "unat (hex8_u32 m (p + 54)) = length data" "unat (hex8_u32 m (p + 94)) = length name + 1"
    unfolding F(3,4) by (rule unat_of_nat_u32 [OF g(3)], rule unat_of_nat_u32 [OF g(1)])
  have un: "unat (ucast (hex8_u32 m (p + 54)) :: u64) = length data" "unat (ucast (hex8_u32 m (p + 94)) :: u64) = length name + 1"
    unfolding unat_u32_u64 by (rule u)+
  have s: "unat (110 + ucast (hex8_u32 m (p + 94)) :: u64) = 111 + length name"
    using un(2) g(1) by (subst unat_add_no_wrap) simp_all
  show d: "cpio_data m p = ie_data (entry_at p (name, mode, data))"
    using unat_align4 [of "110 + ucast (hex8_u32 m (p + 94))"] s g(1) by (simp add: cpio_data_def entry_at_def)
  show l: "p + length (put_entry (name, mode, data)) = ie_data (entry_at p (name, mode, data)) + length data + pad4 (length data)"
    using g by (simp add: put_entry_def entry_at_def length_write_hdr)
  show "cpio_next m p = p + length (put_entry (name, mode, data))"
    unfolding l cpio_next_def d using unat_align4 [of "ucast (hex8_u32 m (p + 54))"] un(1) g(3) by simp
  show "has m (ie_data (entry_at p (name, mode, data))) data" using hs(3) by (simp add: entry_at_def add.commute add.left_commute)
qed

fun entries_at :: "nat \<Rightarrow> (bytes \<times> nat \<times> bytes) list \<Rightarrow> initrd_entry list" where
  "entries_at p [] = []"
| "entries_at p (f # fs) = entry_at p f # entries_at (p + length (put_entry f)) fs"

definition trailer :: "bytes \<times> nat \<times> bytes" where
  "trailer = (ascii ''TRAILER!!!'', 0x81A4, [])"

lemma trailer_good: "good_file trailer" "cstr (ascii ''TRAILER!!!'')"
  by (simp_all add: trailer_def good_file_def cstr_def ascii_def)

lemma index_files:
  assumes "has m p (concat (map put_entry fs) @ put_entry trailer)" "\<forall>f \<in> set fs. good_file f \<and> fst f \<noteq> ascii ''TRAILER!!!''"
    "length (in_files g) + length fs \<le> INITRD_MAX_FILES" "p + length (concat (map put_entry fs) @ put_entry trailer) \<le> sz"
  shows "index_loop m sz p g = g\<lparr>in_files := in_files g @ entries_at p fs, in_ready := True\<rparr>"
  using assms
proof (induction fs arbitrary: p g)
  case Nil
  obtain name mode data where t: "trailer = (name, mode, data)" "name = ascii ''TRAILER!!!''" "data = []" by (simp add: trailer_def)
  have h: "has m p (put_entry (name, mode, data))" using Nil(1) t(1) by simp
  note W = put_entry_at [OF trailer_good(1) [unfolded t(1)] h]
  have "initrd_streq m (p + 110) (ascii ''TRAILER!!!'')"
    using has_streq [OF W(7)] trailer_good t(2) by (simp add: cstr_def)
  moreover have le: "p + length (put_entry (name, mode, data)) \<le> sz" using Nil(4) t(1) by simp
  moreover have "110 + length name + 1 \<le> length (put_entry (name, mode, data))" using W(9) by (simp add: entry_at_def)
  ultimately show ?case using W(1-6,9) by (subst index_loop.simps) (simp add: Let_def)
next
  case (Cons f fs)
  obtain name mode data where f: "f = (name, mode, data)" by (cases f)
  have h: "has m p (put_entry (name, mode, data))" "has m (p + length (put_entry f)) (concat (map put_entry fs) @ put_entry trailer)"
    using Cons.prems(1) by (simp_all add: has_append f add.assoc)
  have g: "good_file (name, mode, data)" "name \<noteq> ascii ''TRAILER!!!''" using Cons.prems(2) f by auto
  note W = put_entry_at [OF g(1) h(1)]
  let ?g = "g\<lparr>in_files := in_files g @ [entry_at p f]\<rparr>"
  have "\<not> initrd_streq m (p + 110) (ascii ''TRAILER!!!'')"
    using has_streq [OF W(7)] g trailer_good(2) by (simp add: cstr_def good_file_def)
  moreover have le: "p + length (put_entry (name, mode, data)) \<le> sz" using Cons.prems(4) f by simp
  moreover have "110 + length name + 1 \<le> length (put_entry (name, mode, data))" using W(9) by (simp add: entry_at_def)
  moreover have "ucast (hex8_u32 m (p + 54)) = (of_nat (length data) :: u64)"
  proof -
    have "length data < 2 ^ 64" using g(1) by (simp add: good_file_def)
    then have "unat (of_nat (length data) :: u64) = length data" by (simp only: unsigned_of_nat) (simp add: take_bit_nat_eq_self)
    then show ?thesis using W(3) by (simp only: word_unat_eq_iff unat_u32_u64)
  qed
  moreover have "ie_data (entry_at p (name, mode, data)) + length data \<le> sz" using le W(9) by simp
  ultimately have "index_loop m sz p g = index_loop m sz (cpio_next m p) ?g"
    using W(1-5) Cons.prems(3) f by (subst index_loop.simps) (simp add: Let_def entry_at_def)
  also have "\<dots> = index_loop m sz (p + length (put_entry f)) ?g" using W(6) f by simp
  also have "\<dots> = ?g\<lparr>in_files := in_files ?g @ entries_at (p + length (put_entry f)) fs, in_ready := True\<rparr>"
    using Cons.prems h(2) by (intro Cons.IH) (simp_all add: f add.assoc)
  finally show ?case by simp
qed

lemma get_entries:
  assumes "has m p (concat (map put_entry fs) @ rest)" "\<forall>f \<in> set fs. good_file f" "cstr name"
  shows "map_option (\<lambda>i. let e = entries_at p fs ! i in map m [ie_data e..<ie_data e + unat (ie_size e)])
      (first_idx (\<lambda>e. initrd_streq m (ie_name e) name) (entries_at p fs)) = map_of (map (\<lambda>(n, mode, d). (n, d)) fs) name"
  using assms
proof (induction fs arbitrary: p)
  case Nil
  then show ?case by simp
next
  case (Cons f fs)
  obtain nm mode data where f: "f = (nm, mode, data)" by (cases f)
  have h: "has m p (put_entry (nm, mode, data))" "has m (p + length (put_entry f)) (concat (map put_entry fs) @ rest)"
    using Cons.prems(1) by (simp_all add: has_append f add.assoc)
  have g: "good_file (nm, mode, data)" using Cons.prems(2) f by auto
  note W = put_entry_at [OF g h(1)]
  have eq: "initrd_streq m (p + 110) name \<longleftrightarrow> nm = name"
    using has_streq [OF W(7)] g Cons.prems(3) by (simp add: cstr_def good_file_def)
  have "length data < 2 ^ 64" using g by (simp add: good_file_def)
  then have u: "unat (of_nat (length data) :: u64) = length data" by (simp only: unsigned_of_nat) (simp add: take_bit_nat_eq_self)
  let ?d = "ie_data (entry_at p (nm, mode, data))"
  have d: "map m [?d..<?d + length data] = data" by (rule has_map [OF W(8) refl])
  show ?case
  proof (cases "nm = name")
    case True
    then show ?thesis using eq d by (simp add: f entry_at_def u)
  next
    case False
    then show ?thesis using eq Cons.IH [OF h(2)] Cons.prems(2,3)
      by (simp add: f entry_at_def option.map_comp comp_def)
  qed
qed

lemma index_roundtrip:
  assumes "\<forall>f \<in> set fs. good_file f \<and> fst f \<noteq> ascii ''TRAILER!!!''" "length fs \<le> INITRD_MAX_FILES"
    and "has m 0 (concat (map put_entry fs) @ put_entry trailer)"
    "length (concat (map put_entry fs) @ put_entry trailer) \<le> unat (lf_size f)" "lf_address f = Some m" "cstr name"
  shows "map_option (\<lambda>(d, n). map m [d..<d + unat n]) (initrd_get (Some name) (initrd_init (Some (Some f # others)) g)) =
    map_of (map (\<lambda>(n, mode, d). (n, d)) fs) name"
proof -
  let ?a = "concat (map put_entry fs) @ put_entry trailer"
  obtain x xs where x: "fs @ [trailer] = x # xs" by (cases "fs @ [trailer]") auto
  have split: "?a = put_entry x @ concat (map put_entry xs)"
    using arg_cong [OF x, of "\<lambda>l. concat (map put_entry l)"] by simp
  obtain nm mode data where xf: "x = (nm, mode, data)" by (cases x)
  have "x \<in> set (fs @ [trailer])" unfolding x by simp
  then have gx: "good_file (nm, mode, data)" using assms(1) trailer_good(1) xf by auto
  have "has m 0 (put_entry (nm, mode, data))" using assms(3) split xf by (simp add: has_append)
  then have magic: "newc_magic_at m 0" using put_entry_at(1) [OF gx] by blast
  have "110 \<le> length (put_entry x)" using gx xf by (simp add: put_entry_def good_file_def length_write_hdr)
  then have "110 \<le> length ?a" unfolding split by simp
  then have sz: "\<not> lf_size f < 6" using assms(4) by (simp add: word_less_nat_alt)
  define g0 where "g0 = g\<lparr>in_ready := False, in_base := Some m, in_size := lf_size f, in_files := []\<rparr>"
  have "index_loop m (unat (lf_size f)) 0 g0 = g0\<lparr>in_files := in_files g0 @ entries_at 0 fs, in_ready := True\<rparr>"
    using assms by (intro index_files) (simp_all add: g0_def)
  then have i: "initrd_init (Some (Some f # others)) g = g0\<lparr>in_files := entries_at 0 fs, in_ready := True\<rparr>"
    using sz magic assms(5) by (simp add: initrd_init_def is_newc_magic_def initrd_index_newc_def g0_def)
  have "map_option (\<lambda>(d, n). map m [d..<d + unat n]) (initrd_get (Some name) (initrd_init (Some (Some f # others)) g)) =
      map_option (\<lambda>i. let e = entries_at 0 fs ! i in map m [ie_data e..<ie_data e + unat (ie_size e)])
        (first_idx (\<lambda>e. initrd_streq m (ie_name e) name) (entries_at 0 fs))"
    unfolding i by (simp add: initrd_get_def g0_def option.map_comp comp_def Let_def)
  also have "\<dots> = map_of (map (\<lambda>(n, mode, d). (n, d)) fs) name"
    using assms by (intro get_entries) auto
  finally show ?thesis .
qed

text \<open>The names the tool writes as the kernel reads them: every character is one byte, and none is NUL.\<close>

definition ascii_file :: "py_str \<times> nat \<times> bytes \<Rightarrow> bool" where
  "ascii_file f = (case f of (name, mode, data) \<Rightarrow>
     (\<forall>c \<in> set name. 0 < c \<and> c < 128) \<and> length name + 1 < 2 ^ 32 \<and> mode < 2 ^ 32 \<and> length data < 2 ^ 32)"

definition as_bytes :: "py_str \<times> nat \<times> bytes \<Rightarrow> bytes \<times> nat \<times> bytes" where
  "as_bytes f = (case f of (name, mode, data) \<Rightarrow> (map of_nat name, mode, data))"

lemma py_encode_ascii: "\<forall>c \<in> set name. c < 128 \<Longrightarrow> py_encode name = Some (map of_nat name)"
  unfolding py_encode_def
proof (induction name)
  case (Cons c name)
  then show ?case by (auto simp: utf8_def)
qed simp

lemma write_entry_ascii:
  assumes "ascii_file f"
  shows "write_entry f = Some (put_entry (as_bytes f))" and "good_file (as_bytes f)"
proof -
  obtain name mode data where f: "f = (name, mode, data)" by (cases f)
  have small: "unat (of_nat c :: u8) = c" if "c < 128" for c using that by (simp add: unsigned_of_nat take_bit_nat_eq_self)
  have a: "\<forall>c \<in> set name. 0 < c \<and> c < 128" using assms by (simp add: ascii_file_def f)
  then have "map unat (map of_nat name :: bytes) = name" by (simp add: small map_idI)
  then show "write_entry f = Some (put_entry (as_bytes f))"
    using py_encode_ascii [of name] a by (simp add: f write_entry_def put_entry_def as_bytes_def)
  have "of_nat c \<noteq> (0 :: u8)" if "c \<in> set name" for c using a small [of c] that by force
  then show "good_file (as_bytes f)" using assms by (auto simp: f ascii_file_def good_file_def as_bytes_def cstr_def)
qed

lemma those_entries: "\<forall>f \<in> set fs. ascii_file f \<Longrightarrow> those (map write_entry fs) = Some (map (put_entry \<circ> as_bytes) fs)"
  by (induction fs) (simp_all add: write_entry_ascii(1))

lemma trailer_ascii: "ascii_file (trailer_name, 0x81A4, [])" "as_bytes (trailer_name, 0x81A4, []) = trailer"
  by (simp_all add: ascii_file_def as_bytes_def trailer_name_def trailer_def ascii_def)

lemma mkcpio_ascii:
  assumes "\<forall>f \<in> set fs. ascii_file f"
  shows "mkcpio fs = Some (concat (map put_entry (map as_bytes fs)) @ put_entry trailer)"
proof -
  have "\<forall>f \<in> set (fs @ [(trailer_name, 0x81A4, [])]). ascii_file f" using assms trailer_ascii(1) by simp
  from those_entries [OF this] show ?thesis by (simp add: mkcpio_def trailer_ascii(2) comp_def)
qed

text \<open>
  Claim C27. The build tool and the kernel fit together for up to 256 entries (files and directories) whose names
  consist of ASCII characters other than NUL and are not the end marker, with names, modes and contents within
  the 32 bits of the header: the tool writes an archive, and when the boot loader hands over memory that starts
  with it, the kernel finds exactly the files of the archive: a lookup of a name yields the contents of the first
  entry of that name, byte for byte, and fails if there is none.
\<close>

theorem initrd_roundtrip:
  assumes "\<forall>f \<in> set fs. ascii_file f \<and> fst f \<noteq> trailer_name" "length fs \<le> INITRD_MAX_FILES" "lf_address f = Some m" "cstr name"
  shows "\<exists>a. mkcpio fs = Some a \<and> (has m 0 a \<longrightarrow> length a \<le> unat (lf_size f) \<longrightarrow>
    map_option (\<lambda>(d, n). map m [d..<d + unat n]) (initrd_get (Some name) (initrd_init (Some (Some f # others)) g)) =
    map_of (map (\<lambda>(n, mode, d). (map of_nat n, d)) fs) name)"
proof -
  let ?bs = "map as_bytes fs"
  have bs: "\<forall>b \<in> set ?bs. good_file b \<and> fst b \<noteq> ascii ''TRAILER!!!''"
  proof
    fix b
    assume "b \<in> set ?bs"
    then obtain x where x: "x \<in> set fs" "b = as_bytes x" by auto
    have ax: "ascii_file x" "fst x \<noteq> trailer_name" using assms(1) x(1) by auto
    have "fst b \<noteq> ascii ''TRAILER!!!''"
    proof
      assume "fst b = ascii ''TRAILER!!!''"
      then have "map unat (map of_nat (fst x) :: bytes) = map unat (ascii ''TRAILER!!!'')"
        using x(2) by (cases x) (simp add: as_bytes_def)
      moreover have "map unat (map of_nat (fst x) :: bytes) = fst x"
        using ax(1) by (cases x) (auto simp: ascii_file_def unsigned_of_nat take_bit_nat_eq_self intro!: map_idI)
      moreover have "map unat (ascii ''TRAILER!!!'') = trailer_name" by (simp add: ascii_def trailer_name_def)
      ultimately show False using ax(2) by simp
    qed
    then show "good_file b \<and> fst b \<noteq> ascii ''TRAILER!!!''" using write_entry_ascii(2) [OF ax(1)] x(2) by simp
  qed
  let ?a = "concat (map put_entry ?bs) @ put_entry trailer"
  have fs: "map (\<lambda>(n, mode, d). (n, d)) ?bs = map (\<lambda>(n, mode, d). (map of_nat n, d)) fs"
    by (simp add: as_bytes_def split: prod.splits)
  have "length ?bs \<le> INITRD_MAX_FILES" using assms(2) by simp
  note rt = index_roundtrip [OF bs this _ _ assms(3,4), of others g, unfolded fs]
  have "\<forall>f \<in> set fs. ascii_file f" using assms(1) by blast
  from mkcpio_ascii [OF this] rt show ?thesis by (intro exI [of _ ?a] conjI impI)
qed

definition demo_archive :: "py_str \<Rightarrow> bytes" where
  "demo_archive name = the (mkcpio [(name, 0x81A4, [104, 105])])"

definition demo_boot :: "py_str \<Rightarrow> initrd" where
  "demo_boot name = initrd_init (Some [Some \<lparr>lf_address = Some (\<lambda>i. demo_archive name ! i), lf_size = of_nat (length (demo_archive name))\<rparr>])
     \<lparr>in_ready = False, in_base = None, in_size = 0, in_files = []\<rparr>"

theorem initrd_roundtrip_witness:
  "map_option (\<lambda>(d, n). map (\<lambda>i. demo_archive [97, 46, 116] ! i) [d..<d + unat n])
     (initrd_get (Some (ascii ''a.t'')) (demo_boot [97, 46, 116])) = Some [104, 105]"
proof -
  let ?fs = "[([97, 46, 116], 0x81A4, [104, 105])] :: (py_str \<times> nat \<times> bytes) list"
  let ?a = "demo_archive [97, 46, 116]"
  let ?f = "\<lparr>lf_address = Some (\<lambda>i. ?a ! i), lf_size = of_nat (length ?a)\<rparr> :: limine_file"
  have g: "\<forall>f \<in> set ?fs. ascii_file f \<and> fst f \<noteq> trailer_name" "length ?fs \<le> INITRD_MAX_FILES" "cstr (ascii ''a.t'')"
    by (simp_all add: ascii_file_def trailer_name_def cstr_def ascii_def INITRD_MAX_FILES_def)
  obtain a where a: "mkcpio ?fs = Some a" "has (\<lambda>i. ?a ! i) 0 a \<longrightarrow> length a \<le> unat (lf_size ?f) \<longrightarrow>
    map_option (\<lambda>(d, n). map (\<lambda>i. ?a ! i) [d..<d + unat n]) (initrd_get (Some (ascii ''a.t'')) (demo_boot [97, 46, 116])) =
    map_of (map (\<lambda>(n, mode, d). (map of_nat n, d)) ?fs) (ascii ''a.t'')"
    using initrd_roundtrip [OF g(1,2) _ g(3), of ?f] unfolding demo_boot_def by fastforce
  have e: "?a = a" using a(1) by (simp add: demo_archive_def)
  have "length a = 244"
    using a(1) mkcpio_ascii [of ?fs] g(1)
    by (auto simp: put_entry_def as_bytes_def trailer_def length_write_hdr pad4_def)
  then show ?thesis using a(2) by (simp add: e has_def ascii_def)
qed

text \<open>
  The tool counts the characters of a name and writes its UTF-8 bytes: with one letter outside ASCII in a name
  the header behind it is not where the kernel looks for it, the index is not completed, and no file of the
  archive can be found.
\<close>

theorem mkcpio_non_ascii:
  "py_encode [233] = Some [0xC3, 0xA9] \<and> initrd_get name (demo_boot [233]) = None"
proof -
  have enc: "py_encode [233] = Some [0xC3, 0xA9]" by (simp add: py_encode_def utf8_def)
  let ?h = "write_hdr [233] 0x81A4 2" and ?a = "demo_archive [233]" and ?t = "put_entry trailer"
  let ?m = "\<lambda>i. ?a ! i"
  have a: "?a = ?h @ [0xC3, 0xA9, 0, 104, 105, 0, 0] @ ?t"
    using those_entries [of "[(trailer_name, 0x81A4, [])]"] trailer_ascii
    by (simp add: demo_archive_def mkcpio_def write_entry_def [of "([233], _)"] enc pad4_def numeral_2_eq_2)
  have h: "length ?h = 110" by (simp add: length_write_hdr)
  have len: "length ?a = 241" using h by (simp add: a put_entry_def trailer_def length_write_hdr pad4_def)
  have "has ?m 0 ?h" by (simp add: has_def a nth_append)
  note F = write_hdr_fields [OF this]
  have f: "newc_magic_at ?m 0" "hex8_u32 ?m 54 = 2" "hex8_u32 ?m 94 = 2" using F by simp_all
  have n: "?m 110 = 0xC3" "?m 116 = 0" unfolding a nth_append h by simp_all
  have d: "cpio_data ?m 0 = 112" "cpio_next ?m 0 = 116" using f by (simp_all add: cpio_data_def cpio_next_def align4_u64_def)
  have nm: "\<not> newc_magic_at ?m 116" using n(2) by (simp add: newc_magic_at_def memeq6_def ascii_def upt_rec)
  have end2: "index_loop ?m 241 116 g = g" for g using nm by (subst index_loop.simps) simp
  have "in_ready (index_loop ?m 241 0 g) = in_ready g" if "in_files g = []" for g
    using that f n d by (subst index_loop.simps) (simp add: Let_def end2 ascii_def INITRD_MAX_FILES_def)
  then have "\<not> in_ready (demo_boot [233])"
    using f(1) len by (simp add: demo_boot_def initrd_init_def is_newc_magic_def initrd_index_newc_def)
  then show ?thesis using enc by (simp add: initrd_get_def split: option.splits)
qed

end
