(* ===== verification/Ext2.thy ===== *)
theory Ext2
  imports Netbase
begin

text \<open>
  The ext2 file system, \<open>kernel/src/ext2.c\<close>, over the block device of
  \<open>kernel/src/virtio_blk.c\<close>. The device is its contents, byte by byte, and the set of sectors
  at which a request fails; the queue behind it is hardware. The two scratch pages of the driver
  hold nothing from one call to the next, so a block that is read is a list of bytes; the bytes
  behind it in the scratch page, which the code would read for a malformed block only, are not
  modelled. Little-endian fields are read with \<open>rd16\<close> and \<open>rd32\<close> of \<open>Netbase\<close>. Whether memory
  for the scratch pages and the group table could be allocated is an argument of \<open>ext2_init\<close>.
\<close>

section \<open>The block device\<close>

record disk =
  dk_present :: bool
  dk_bytes :: "nat \<Rightarrow> u8"
  dk_fault :: "u64 \<Rightarrow> bool"

definition MAX_SECTORS_PER_REQ :: nat where
  "MAX_SECTORS_PER_REQ = 8"

definition vq_accepts :: "u64 \<Rightarrow> nat \<Rightarrow> disk \<Rightarrow> bool" where
  "vq_accepts sector count d \<longleftrightarrow> dk_present d \<and> count \<noteq> 0 \<and> count \<le> MAX_SECTORS_PER_REQ \<and> \<not> dk_fault d sector"

definition virtio_blk_read :: "u64 \<Rightarrow> nat \<Rightarrow> disk \<Rightarrow> bytes option" where
  "virtio_blk_read sector count d =
     (if vq_accepts sector count d then Some (map (dk_bytes d) [512 * unat sector..<512 * unat sector + 512 * count])
      else None)"

definition virtio_blk_write :: "u64 \<Rightarrow> bytes \<Rightarrow> nat \<Rightarrow> disk \<Rightarrow> bool \<times> disk" where
  "virtio_blk_write sector src count d =
     (if vq_accepts sector count d
      then (True, d\<lparr>dk_bytes := (\<lambda>x. if 512 * unat sector \<le> x \<and> x < 512 * unat sector + 512 * count
                                       then src ! (x - 512 * unat sector) else dk_bytes d x)\<rparr>)
      else (False, d))"

section \<open>On-disk structures\<close>

text \<open>The fields of the superblock that the driver reads.\<close>

record ext2_sb =
  s_blocks_count :: u32
  s_first_data_block :: u32
  s_log_block_size :: u32
  s_blocks_per_group :: u32
  s_inodes_per_group :: u32
  s_magic :: u16
  s_rev_level :: u32
  s_inode_size :: u16

definition EXT2_MAGIC :: u16 where "EXT2_MAGIC = 0xEF53"

definition get_sb :: "bytes \<Rightarrow> ext2_sb" where
  "get_sb b = \<lparr>s_blocks_count = rd32 b 4, s_first_data_block = rd32 b 20, s_log_block_size = rd32 b 24,
     s_blocks_per_group = rd32 b 32, s_inodes_per_group = rd32 b 40, s_magic = rd16 b 56, s_rev_level = rd32 b 76,
     s_inode_size = rd16 b 88\<rparr>"

record ext2_bgd =
  bg_block_bitmap :: u32
  bg_inode_bitmap :: u32
  bg_inode_table :: u32
  bg_free_blocks_count :: u16
  bg_free_inodes_count :: u16
  bg_used_dirs_count :: u16
  bg_pad :: u16
  bg_reserved :: bytes

definition get_bgd :: "bytes \<Rightarrow> nat \<Rightarrow> ext2_bgd" where
  "get_bgd b o' = \<lparr>bg_block_bitmap = rd32 b o', bg_inode_bitmap = rd32 b (o' + 4), bg_inode_table = rd32 b (o' + 8),
     bg_free_blocks_count = rd16 b (o' + 12), bg_free_inodes_count = rd16 b (o' + 14), bg_used_dirs_count = rd16 b (o' + 16),
     bg_pad = rd16 b (o' + 18), bg_reserved = take 12 (drop (o' + 20) b)\<rparr>"

definition put_bgd :: "ext2_bgd \<Rightarrow> bytes" where
  "put_bgd g = st32 (bg_block_bitmap g) @ st32 (bg_inode_bitmap g) @ st32 (bg_inode_table g) @ st16 (bg_free_blocks_count g)
     @ st16 (bg_free_inodes_count g) @ st16 (bg_used_dirs_count g) @ st16 (bg_pad g) @ bg_reserved g"

record ext2_inode =
  i_mode :: u16
  i_uid :: u16
  i_size :: u32
  i_atime :: u32
  i_ctime :: u32
  i_mtime :: u32
  i_dtime :: u32
  i_gid :: u16
  i_links_count :: u16
  i_blocks :: u32
  i_flags :: u32
  i_osd1 :: u32
  i_block :: "u32 list"
  i_generation :: u32
  i_file_acl :: u32
  i_dir_acl :: u32
  i_faddr :: u32
  i_osd2 :: bytes

definition get_inode :: "bytes \<Rightarrow> nat \<Rightarrow> ext2_inode" where
  "get_inode b o' = \<lparr>i_mode = rd16 b o', i_uid = rd16 b (o' + 2), i_size = rd32 b (o' + 4), i_atime = rd32 b (o' + 8),
     i_ctime = rd32 b (o' + 12), i_mtime = rd32 b (o' + 16), i_dtime = rd32 b (o' + 20), i_gid = rd16 b (o' + 24),
     i_links_count = rd16 b (o' + 26), i_blocks = rd32 b (o' + 28), i_flags = rd32 b (o' + 32), i_osd1 = rd32 b (o' + 36),
     i_block = map (\<lambda>k. rd32 b (o' + 40 + 4 * k)) [0..<15], i_generation = rd32 b (o' + 100), i_file_acl = rd32 b (o' + 104),
     i_dir_acl = rd32 b (o' + 108), i_faddr = rd32 b (o' + 112), i_osd2 = take 12 (drop (o' + 116) b)\<rparr>"

definition put_inode :: "ext2_inode \<Rightarrow> bytes" where
  "put_inode i = st16 (i_mode i) @ st16 (i_uid i) @ st32 (i_size i) @ st32 (i_atime i) @ st32 (i_ctime i) @ st32 (i_mtime i)
     @ st32 (i_dtime i) @ st16 (i_gid i) @ st16 (i_links_count i) @ st32 (i_blocks i) @ st32 (i_flags i) @ st32 (i_osd1 i)
     @ concat (map st32 (i_block i)) @ st32 (i_generation i) @ st32 (i_file_acl i) @ st32 (i_dir_acl i) @ st32 (i_faddr i) @ i_osd2 i"

definition zero_inode :: ext2_inode where
  "zero_inode = \<lparr>i_mode = 0, i_uid = 0, i_size = 0, i_atime = 0, i_ctime = 0, i_mtime = 0, i_dtime = 0, i_gid = 0,
     i_links_count = 0, i_blocks = 0, i_flags = 0, i_osd1 = 0, i_block = replicate 15 0, i_generation = 0, i_file_acl = 0,
     i_dir_acl = 0, i_faddr = 0, i_osd2 = replicate 12 0\<rparr>"

definition EXT2_IMODE_DIR :: u16 where "EXT2_IMODE_DIR = 0x4000"
definition EXT2_IMODE_FILE :: u16 where "EXT2_IMODE_FILE = 0x8000"

definition is_dir :: "ext2_inode \<Rightarrow> bool" where "is_dir i \<longleftrightarrow> i_mode i AND 0xF000 = EXT2_IMODE_DIR"
definition is_file :: "ext2_inode \<Rightarrow> bool" where "is_file i \<longleftrightarrow> i_mode i AND 0xF000 = EXT2_IMODE_FILE"

section \<open>Driver state\<close>

record ext2 =
  e2_ready :: bool
  block_size :: u32
  inodes_per_group :: u32
  blocks_per_group :: u32
  inode_size :: u32
  first_data_block :: u32
  num_groups :: u32
  bgdt :: "ext2_bgd list"
  e2_disk :: disk
  e2_ticks :: u64

definition e2_spb :: "ext2 \<Rightarrow> nat" where
  "e2_spb s = unat (block_size s div 512)"

definition e2_sector :: "ext2 \<Rightarrow> u32 \<Rightarrow> u64" where
  "e2_sector s blk = ucast blk * ucast (block_size s div 512)"

definition e2_read_block :: "u32 \<Rightarrow> ext2 \<Rightarrow> bytes option" where
  "e2_read_block blk s = (if blk = 0 then None else virtio_blk_read (e2_sector s blk) (e2_spb s) (e2_disk s))"

definition e2_write_block :: "u32 \<Rightarrow> bytes \<Rightarrow> ext2 \<Rightarrow> bool \<times> ext2" where
  "e2_write_block blk src s =
     (if blk = 0 then (False, s)
      else let (ok, d) = virtio_blk_write (e2_sector s blk) src (e2_spb s) (e2_disk s) in (ok, s\<lparr>e2_disk := d\<rparr>))"

text \<open>
  Where an inode lies: its group, the block of the inode table and the offset in the block. For a
  superblock with no inodes per group the division traps; such a volume is excluded where these are used.
\<close>

definition ino_group :: "ext2 \<Rightarrow> u32 \<Rightarrow> u32" where
  "ino_group s ino = (ino - 1) div inodes_per_group s"

definition ino_place :: "ext2 \<Rightarrow> u32 \<Rightarrow> u32 \<times> nat" where
  "ino_place s ino =
     (let byte_off = ((ino - 1) mod inodes_per_group s) * inode_size s
      in (bg_inode_table (bgdt s ! unat (ino_group s ino)) + byte_off div block_size s, unat (byte_off mod block_size s)))"

definition e2_read_inode :: "u32 \<Rightarrow> ext2 \<Rightarrow> ext2_inode option" where
  "e2_read_inode ino s =
     (if ino = 0 \<or> \<not> e2_ready s then None
      else if ino_group s ino \<ge> num_groups s then None
      else let (blk, in_blk) = ino_place s ino in
        (case e2_read_block blk s of None \<Rightarrow> None | Some buf \<Rightarrow> Some (get_inode buf in_blk)))"

text \<open>A directory entry at offset \<open>p\<close> of a block.\<close>

definition de_inode :: "bytes \<Rightarrow> nat \<Rightarrow> u32" where "de_inode b p = rd32 b p"
definition de_rec_len :: "bytes \<Rightarrow> nat \<Rightarrow> nat" where "de_rec_len b p = unat (rd16 b (p + 4))"
definition de_name_len :: "bytes \<Rightarrow> nat \<Rightarrow> nat" where "de_name_len b p = unat (b ! (p + 6))"
definition de_name :: "bytes \<Rightarrow> nat \<Rightarrow> bytes" where "de_name b p = take (de_name_len b p) (drop (p + 8) b)"

definition e2_name_eq :: "bytes \<Rightarrow> nat \<Rightarrow> bytes \<Rightarrow> bool" where
  "e2_name_eq b p name \<longleftrightarrow> de_name b p = name \<and> length name = de_name_len b p"

text \<open>
  The loop \<open>while (p < end) { if (rec_len < 8 || p + rec_len > end) break; ...; p += rec_len; }\<close>
  as the list of the entries it visits.
\<close>

function dir_walk :: "bytes \<Rightarrow> nat \<Rightarrow> nat \<Rightarrow> nat list" where
  "dir_walk b bs p =
     (if p < bs \<and> 8 \<le> de_rec_len b p \<and> p + de_rec_len b p \<le> bs then p # dir_walk b bs (p + de_rec_len b p) else [])"
  by pat_completeness auto
termination by (relation "measure (\<lambda>(b, bs, p). bs - p)") auto

declare dir_walk.simps [simp del]

definition dir_find :: "bytes \<Rightarrow> nat \<Rightarrow> bytes \<Rightarrow> nat option" where
  "dir_find b bs name = find (\<lambda>p. de_inode b p \<noteq> 0 \<and> e2_name_eq b p name) (dir_walk b bs 0)"

text \<open>The blocks of a directory up to the first zero pointer; a block that cannot be read is skipped.\<close>

fun lookup_blocks :: "u32 list \<Rightarrow> bytes \<Rightarrow> ext2 \<Rightarrow> u32 option" where
  "lookup_blocks [] name s = None"
| "lookup_blocks (b # bs) name s =
     (if b = 0 then None
      else case e2_read_block b s of
          None \<Rightarrow> lookup_blocks bs name s
        | Some buf \<Rightarrow>
            (case dir_find buf (unat (block_size s)) name of
               Some p \<Rightarrow> Some (de_inode buf p)
             | None \<Rightarrow> lookup_blocks bs name s))"

definition ptrs_of :: "bytes \<Rightarrow> ext2 \<Rightarrow> u32 list" where
  "ptrs_of b s = map (\<lambda>k. rd32 b (4 * k)) [0..<unat (block_size s) div 4]"

definition e2_lookup :: "ext2_inode \<Rightarrow> bytes \<Rightarrow> ext2 \<Rightarrow> u32" where
  "e2_lookup dir name s =
     (case lookup_blocks (take 12 (i_block dir)) name s of
        Some ino \<Rightarrow> ino
      | None \<Rightarrow>
          if i_block dir ! 12 \<noteq> 0 then
            (case e2_read_block (i_block dir ! 12) s of
               None \<Rightarrow> 0
             | Some b \<Rightarrow> (case lookup_blocks (ptrs_of b s) name s of Some ino \<Rightarrow> ino | None \<Rightarrow> 0))
          else 0)"

text \<open>The next component of a path and what follows it; the buffer holds 255 characters.\<close>

definition next_comp :: "bytes \<Rightarrow> bytes \<times> bytes" where
  "next_comp path =
     (let comp = take 255 (takeWhile (\<lambda>c. c \<noteq> 47) path); rest = drop (length comp) path
      in (comp, case rest of c # r \<Rightarrow> if c = 47 then r else rest | [] \<Rightarrow> []))"

lemma next_comp_shorter: "path \<noteq> [] \<Longrightarrow> length (snd (next_comp path)) < length path"
proof (cases path)
  case (Cons c r)
  show ?thesis
  proof (cases "c = 47")
    case True
    then show ?thesis by (simp add: next_comp_def Let_def Cons)
  next
    case False
    let ?n = "length (take 255 (takeWhile (\<lambda>c. c \<noteq> 47) path))"
    have n: "0 < ?n" using False by (simp add: Cons)
    have "length (case drop ?n path of c # r \<Rightarrow> if c = 47 then r else drop ?n path | [] \<Rightarrow> []) \<le> length (drop ?n path)"
      by (cases "drop ?n path") auto
    also have "\<dots> < length path" using n Cons by (simp only: length_drop) simp
    finally show ?thesis by (simp only: next_comp_def Let_def snd_conv)
  qed
qed simp

function resolve_loop :: "bytes \<Rightarrow> u32 \<Rightarrow> ext2 \<Rightarrow> u32" where
  "resolve_loop path cur s =
     (if path = [] then cur
      else if fst (next_comp path) = [] then resolve_loop (snd (next_comp path)) cur s
      else case e2_read_inode cur s of
          None \<Rightarrow> 0
        | Some i \<Rightarrow>
            if \<not> is_dir i then 0
            else let ino = e2_lookup i (fst (next_comp path)) s
              in if ino = 0 then 0 else resolve_loop (snd (next_comp path)) ino s)"
  by pat_completeness auto
termination
  by (relation "measure (\<lambda>(path, cur, s). length path)") (auto simp: next_comp_shorter)

declare resolve_loop.simps [simp del]

definition e2_resolve :: "bytes option \<Rightarrow> ext2 \<Rightarrow> u32" where
  "e2_resolve path s =
     (case path of
        Some (c # r) \<Rightarrow> if c \<noteq> 47 then 0 else resolve_loop r 2 s
      | _ \<Rightarrow> 0)"

section \<open>Mounting and reading\<close>

fun read_bgdt :: "nat list \<Rightarrow> u32 \<Rightarrow> ext2 \<Rightarrow> bytes option" where
  "read_bgdt [] first s = Some []"
| "read_bgdt (i # is) first s =
     (case virtio_blk_read (e2_sector s (first + of_nat i)) (e2_spb s) (e2_disk s) of
        None \<Rightarrow> None
      | Some b \<Rightarrow> (case read_bgdt is first s of None \<Rightarrow> None | Some r \<Rightarrow> Some (b @ r)))"

text \<open>\<open>None\<close> is the divide error for no blocks per group or a block size shifted out of its 32 bits.\<close>

definition ext2_init :: "bool \<Rightarrow> bool \<Rightarrow> ext2 \<Rightarrow> (bool \<times> ext2) option" where
  "ext2_init pages_ok table_ok s =
     (if \<not> dk_present (e2_disk s) then Some (False, s)
      else if \<not> pages_ok then Some (False, s)
      else case virtio_blk_read 2 2 (e2_disk s) of
          None \<Rightarrow> Some (False, s)
        | Some b \<Rightarrow>
            let sb = get_sb b in
            if s_magic sb \<noteq> EXT2_MAGIC then Some (False, s)
            else
              let s = s\<lparr>block_size := push_bit (unat (s_log_block_size sb)) 1024, blocks_per_group := s_blocks_per_group sb,
                        inodes_per_group := s_inodes_per_group sb, first_data_block := s_first_data_block sb,
                        inode_size := (if s_rev_level sb \<ge> 1 then ucast (s_inode_size sb) else 128)\<rparr> in
              if block_size s > 4096 then Some (False, s)
              else if inode_size s < 128 then Some (False, s)
              else if s_blocks_per_group sb = 0 then None
              else
                let n = (s_blocks_count sb + s_blocks_per_group sb - 1) div s_blocks_per_group sb;
                    s = s\<lparr>num_groups := n\<rparr>;
                    bytes = n * 32 in
                if \<not> table_ok then Some (False, s)
                else if block_size s = 0 then None
                else case read_bgdt [0..<unat ((bytes + block_size s - 1) div block_size s)] (first_data_block s + 1) s of
                    None \<Rightarrow> Some (False, s)
                  | Some t \<Rightarrow> Some (True, s\<lparr>bgdt := map (\<lambda>k. get_bgd t (32 * k)) [0..<unat n], e2_ready := True\<rparr>))"

definition ext2_present :: "ext2 \<Rightarrow> bool" where
  "ext2_present s = e2_ready s"

text \<open>The bytes copied so far, \<open>None\<close> after a read error.\<close>

fun read_blocks :: "u32 list \<Rightarrow> nat \<Rightarrow> bytes \<Rightarrow> ext2 \<Rightarrow> bytes option" where
  "read_blocks [] n out s = Some out"
| "read_blocks (b # bs) n out s =
     (if \<not> length out < n then Some out
      else if b = 0 then Some out
      else case e2_read_block b s of
          None \<Rightarrow> None
        | Some buf \<Rightarrow>
            let chunk = (if length out + unat (block_size s) > n then n - length out else unat (block_size s))
            in read_blocks bs n (out @ take chunk buf) s)"

definition read_inode_data :: "ext2_inode \<Rightarrow> nat \<Rightarrow> ext2 \<Rightarrow> bytes option" where
  "read_inode_data i n s =
     (case read_blocks (take 12 (i_block i)) n [] s of
        None \<Rightarrow> None
      | Some out \<Rightarrow>
          if length out < n \<and> i_block i ! 12 \<noteq> 0 then
            (case e2_read_block (i_block i ! 12) s of
               None \<Rightarrow> None
             | Some b \<Rightarrow> read_blocks (ptrs_of b s) n out s)
          else Some out)"

text \<open>The bytes stored in the caller's buffer; \<open>None\<close> is the result -1.\<close>

definition ext2_read_file :: "bytes \<Rightarrow> u32 \<Rightarrow> ext2 \<Rightarrow> bytes option" where
  "ext2_read_file path max' s =
     (if \<not> e2_ready s then None
      else let ino = e2_resolve (Some path) s in
        if ino = 0 then None
        else case e2_read_inode ino s of
            None \<Rightarrow> None
          | Some i \<Rightarrow>
              if \<not> is_file i then None
              else read_inode_data i (unat (if i_size i < max' then i_size i else max')) s)"

definition ext2_file_size :: "bytes \<Rightarrow> ext2 \<Rightarrow> int" where
  "ext2_file_size path s =
     (if \<not> e2_ready s then - 1
      else let ino = e2_resolve (Some path) s in
        if ino = 0 then - 1
        else case e2_read_inode ino s of
            None \<Rightarrow> - 1
          | Some i \<Rightarrow> if \<not> is_file i then - 1 else sint (i_size i))"

definition list_entry :: "nat \<Rightarrow> bytes \<Rightarrow> nat \<Rightarrow> bytes \<Rightarrow> bytes" where
  "list_entry cap b p out =
     (if de_inode b p \<noteq> 0 \<and> de_name_len b p > 0 \<and> de_name b p \<noteq> [46] \<and> de_name b p \<noteq> [46, 46]
      then put_char cap 10 (fold (put_char cap) (de_name b p) out) else out)"

fun list_blocks :: "u32 list \<Rightarrow> nat \<Rightarrow> bytes \<Rightarrow> ext2 \<Rightarrow> bytes" where
  "list_blocks [] cap out s = out"
| "list_blocks (b # bs) cap out s =
     (if b = 0 then out
      else case e2_read_block b s of
          None \<Rightarrow> list_blocks bs cap out s
        | Some buf \<Rightarrow> list_blocks bs cap (fold (list_entry cap buf) (dir_walk buf (unat (block_size s)) 0) out) s)"

definition list_dir :: "u32 \<Rightarrow> nat \<Rightarrow> ext2 \<Rightarrow> bytes" where
  "list_dir ino cap s =
     (case e2_read_inode ino s of
        None \<Rightarrow> []
      | Some i \<Rightarrow> if \<not> is_dir i then [] else list_blocks (take 12 (i_block i)) cap [] s)"

definition ext2_ls_buf :: "nat \<Rightarrow> ext2 \<Rightarrow> bytes" where
  "ext2_ls_buf cap s = (if cap = 0 \<or> \<not> e2_ready s then [] else list_dir 2 cap s)"

definition ext2_ls_buf_at :: "bytes option \<Rightarrow> nat \<Rightarrow> ext2 \<Rightarrow> bytes" where
  "ext2_ls_buf_at path cap s =
     (if cap = 0 \<or> \<not> e2_ready s then []
      else let ino = (case path of Some p \<Rightarrow> e2_resolve (Some p) s | None \<Rightarrow> 2)
        in if ino = 0 then [] else list_dir ino cap s)"

section \<open>Writing metadata\<close>

definition e2_flush_bgd :: "nat \<Rightarrow> ext2 \<Rightarrow> bool \<times> ext2" where
  "e2_flush_bgd gidx s =
     (let off = of_nat gidx * 32; blk = first_data_block s + 1 + off div block_size s in
      case e2_read_block blk s of
        None \<Rightarrow> (False, s)
      | Some buf \<Rightarrow> e2_write_block blk (splice buf (unat (off mod block_size s)) (put_bgd (bgdt s ! gidx))) s)"

definition e2_write_inode :: "u32 \<Rightarrow> ext2_inode \<Rightarrow> ext2 \<Rightarrow> bool \<times> ext2" where
  "e2_write_inode ino i s =
     (if ino = 0 \<or> \<not> e2_ready s then (False, s)
      else if ino_group s ino \<ge> num_groups s then (False, s)
      else let (blk, in_blk) = ino_place s ino in
        (case e2_read_block blk s of
           None \<Rightarrow> (False, s)
         | Some buf \<Rightarrow> e2_write_block blk (splice buf in_blk (put_inode i)) s))"

text \<open>A bitmap is a run of bytes, bit \<open>k mod 8\<close> of byte \<open>k div 8\<close>.\<close>

definition bm_test :: "bytes \<Rightarrow> nat \<Rightarrow> bool" where
  "bm_test b k \<longleftrightarrow> b ! (k div 8) AND push_bit (k mod 8) 1 \<noteq> 0"

definition bm_set :: "bytes \<Rightarrow> nat \<Rightarrow> bytes" where
  "bm_set b k = b[k div 8 := b ! (k div 8) OR push_bit (k mod 8) 1]"

definition bm_clear :: "bytes \<Rightarrow> nat \<Rightarrow> bytes" where
  "bm_clear b k = b[k div 8 := b ! (k div 8) AND NOT (push_bit (k mod 8) 1)]"

text \<open>The block bitmaps and the inode bitmaps are handled alike; a kind selects the fields.\<close>

datatype bm_kind = Blocks | Inodes

fun bitmap_of :: "bm_kind \<Rightarrow> ext2_bgd \<Rightarrow> u32" where
  "bitmap_of Blocks g = bg_block_bitmap g"
| "bitmap_of Inodes g = bg_inode_bitmap g"

fun free_count :: "bm_kind \<Rightarrow> ext2_bgd \<Rightarrow> u16" where
  "free_count Blocks g = bg_free_blocks_count g"
| "free_count Inodes g = bg_free_inodes_count g"

fun add_count :: "bm_kind \<Rightarrow> u16 \<Rightarrow> ext2_bgd \<Rightarrow> ext2_bgd" where
  "add_count Blocks n g = g\<lparr>bg_free_blocks_count := bg_free_blocks_count g + n\<rparr>"
| "add_count Inodes n g = g\<lparr>bg_free_inodes_count := bg_free_inodes_count g + n\<rparr>"

fun nbits :: "bm_kind \<Rightarrow> ext2 \<Rightarrow> u32" where
  "nbits Blocks s = blocks_per_group s"
| "nbits Inodes s = inodes_per_group s"

definition count_and_flush :: "bm_kind \<Rightarrow> nat \<Rightarrow> u16 \<Rightarrow> ext2 \<Rightarrow> ext2" where
  "count_and_flush k g n s = snd (e2_flush_bgd g (s\<lparr>bgdt := (bgdt s)[g := add_count k n (bgdt s ! g)]\<rparr>))"

text \<open>Clearing bit \<open>i\<close> of group \<open>g\<close>, the common end of \<open>e2_free_block\<close> and \<open>e2_free_inode\<close>.\<close>

definition release_bit :: "bm_kind \<Rightarrow> nat \<Rightarrow> nat \<Rightarrow> ext2 \<Rightarrow> ext2" where
  "release_bit k g i s =
     (case e2_read_block (bitmap_of k (bgdt s ! g)) s of
        None \<Rightarrow> s
      | Some buf \<Rightarrow>
          let (ok, s') = e2_write_block (bitmap_of k (bgdt s ! g)) (bm_clear buf i) s
          in if \<not> ok then s' else count_and_flush k g 1 s')"

definition e2_free_block :: "u32 \<Rightarrow> ext2 \<Rightarrow> ext2" where
  "e2_free_block blk s =
     (if blk < first_data_block s then s
      else let adj = blk - first_data_block s; gidx = adj div blocks_per_group s; bit' = adj mod blocks_per_group s
        in if gidx \<ge> num_groups s then s else release_bit Blocks (unat gidx) (unat bit') s)"

definition e2_free_inode :: "u32 \<Rightarrow> ext2 \<Rightarrow> ext2" where
  "e2_free_inode ino s =
     (if ino = 0 then s
      else if ino_group s ino \<ge> num_groups s then s
      else release_bit Inodes (unat (ino_group s ino)) (unat ((ino - 1) mod inodes_per_group s)) s)"

text \<open>The two nested loops of an allocation: the group and the bit that was taken.\<close>

fun alloc_scan :: "bm_kind \<Rightarrow> nat list \<Rightarrow> ext2 \<Rightarrow> (nat \<times> nat) option \<times> ext2" where
  "alloc_scan k [] s = (None, s)"
| "alloc_scan k (g # gs) s =
     (if free_count k (bgdt s ! g) = 0 then alloc_scan k gs s
      else case e2_read_block (bitmap_of k (bgdt s ! g)) s of
          None \<Rightarrow> alloc_scan k gs s
        | Some buf \<Rightarrow>
            (case find (\<lambda>i. \<not> bm_test buf i) [0..<unat (nbits k s)] of
               None \<Rightarrow> alloc_scan k gs s
             | Some i \<Rightarrow>
                 let (ok, s') = e2_write_block (bitmap_of k (bgdt s ! g)) (bm_set buf i) s
                 in if \<not> ok then (None, s') else (Some (g, i), count_and_flush k g (- 1) s')))"

definition block_no :: "ext2 \<Rightarrow> nat \<times> nat \<Rightarrow> u32" where
  "block_no s = (\<lambda>(g, i). first_data_block s + of_nat g * blocks_per_group s + of_nat i)"

definition e2_alloc_block :: "ext2 \<Rightarrow> u32 \<times> ext2" where
  "e2_alloc_block s =
     (case alloc_scan Blocks [0..<unat (num_groups s)] s of
        (None, s') \<Rightarrow> (0, s')
      | (Some gi, s') \<Rightarrow> (block_no s gi, s'))"

definition inode_no :: "ext2 \<Rightarrow> nat \<times> nat \<Rightarrow> u32" where
  "inode_no s = (\<lambda>(g, i). of_nat g * inodes_per_group s + of_nat i + 1)"

definition e2_alloc_inode :: "ext2 \<Rightarrow> u32 \<times> ext2" where
  "e2_alloc_inode s =
     (case alloc_scan Inodes [0..<unat (num_groups s)] s of
        (None, s') \<Rightarrow> (0, s')
      | (Some gi, s') \<Rightarrow> (inode_no s gi, s'))"

section \<open>Directory updates\<close>

definition align4 :: "nat \<Rightarrow> nat" where
  "align4 n = (n + 3) div 4 * 4"

definition de_actual :: "bytes \<Rightarrow> nat \<Rightarrow> nat" where
  "de_actual b p = (if de_inode b p \<noteq> 0 then align4 (8 + de_name_len b p) else 0)"

definition de_slack :: "bytes \<Rightarrow> nat \<Rightarrow> nat" where
  "de_slack b p =
     (if de_inode b p \<noteq> 0 \<and> de_rec_len b p \<ge> de_actual b p then de_rec_len b p - de_actual b p else de_rec_len b p)"

definition put_dirent :: "u32 \<Rightarrow> u16 \<Rightarrow> bytes \<Rightarrow> u8 \<Rightarrow> bytes" where
  "put_dirent ino rec_len name ftype = st32 ino @ st16 rec_len @ [of_nat (length name), ftype] @ name"

definition place_dirent :: "bytes \<Rightarrow> nat \<Rightarrow> bytes \<Rightarrow> u32 \<Rightarrow> u8 \<Rightarrow> bytes" where
  "place_dirent b p name ino ftype =
     (if de_inode b p \<noteq> 0 then
        let actual = de_actual b p; old_len = rd16 b (p + 4)
        in splice (splice b (p + 4) (st16 (of_nat actual))) (p + actual) (put_dirent ino (old_len - of_nat actual) name ftype)
      else splice (splice b p (st32 ino)) (p + 6) ([of_nat (length name), ftype] @ name))"

definition zero_block :: "ext2 \<Rightarrow> bytes" where
  "zero_block s = replicate (unat (block_size s)) 0"

text \<open>The loop over the twelve direct blocks of the directory; the argument is the rest of \<open>0..<12\<close>.\<close>

fun add_dirent_at :: "nat list \<Rightarrow> u32 \<Rightarrow> ext2_inode \<Rightarrow> bytes \<Rightarrow> u32 \<Rightarrow> u8 \<Rightarrow> ext2 \<Rightarrow> bool \<times> ext2" where
  "add_dirent_at [] dir_ino dir name new_ino ftype s = (False, s)"
| "add_dirent_at (b # bs) dir_ino dir name new_ino ftype s =
     (let dblk = i_block dir ! b in
      if dblk = 0 then
        (let (new_blk, s1) = e2_alloc_block s in
         if new_blk = 0 then (False, s1)
         else let (ok, s2) = e2_write_block new_blk
                 (splice (zero_block s1) 0 (put_dirent new_ino (ucast (block_size s1)) name ftype)) s1
           in if \<not> ok then (False, s2)
              else e2_write_inode dir_ino
                     (dir\<lparr>i_block := (i_block dir)[b := new_blk], i_blocks := i_blocks dir + block_size s2 div 512,
                          i_size := i_size dir + block_size s2\<rparr>) s2)
      else case e2_read_block dblk s of
          None \<Rightarrow> add_dirent_at bs dir_ino dir name new_ino ftype s
        | Some buf \<Rightarrow>
            (case find (\<lambda>p. de_slack buf p \<ge> align4 (8 + length name)) (dir_walk buf (unat (block_size s)) 0) of
               None \<Rightarrow> add_dirent_at bs dir_ino dir name new_ino ftype s
             | Some p \<Rightarrow> e2_write_block dblk (place_dirent buf p name new_ino ftype) s))"

definition e2_add_dirent :: "u32 \<Rightarrow> bytes \<Rightarrow> u32 \<Rightarrow> u8 \<Rightarrow> ext2 \<Rightarrow> bool \<times> ext2" where
  "e2_add_dirent dir_ino name new_ino ftype s =
     (case e2_read_inode dir_ino s of
        None \<Rightarrow> (False, s)
      | Some dir \<Rightarrow> add_dirent_at [0..<12] dir_ino dir name new_ino ftype s)"

fun remove_dirent_at :: "u32 list \<Rightarrow> bytes \<Rightarrow> ext2 \<Rightarrow> bool \<times> ext2" where
  "remove_dirent_at [] name s = (False, s)"
| "remove_dirent_at (dblk # bs) name s =
     (if dblk = 0 then (False, s)
      else case e2_read_block dblk s of
          None \<Rightarrow> remove_dirent_at bs name s
        | Some buf \<Rightarrow>
            (case dir_find buf (unat (block_size s)) name of
               None \<Rightarrow> remove_dirent_at bs name s
             | Some p \<Rightarrow> e2_write_block dblk (splice buf p (st32 0)) s))"

definition e2_remove_dirent :: "u32 \<Rightarrow> bytes \<Rightarrow> ext2 \<Rightarrow> bool \<times> ext2" where
  "e2_remove_dirent dir_ino name s =
     (case e2_read_inode dir_ino s of
        None \<Rightarrow> (False, s)
      | Some dir \<Rightarrow> remove_dirent_at (take 12 (i_block dir)) name s)"

text \<open>
  The parent and the name behind the last slash; \<open>name_len\<close> is the length of the name cut to
  255, and zero, here \<open>None\<close>, is the error.
\<close>

definition e2_split_path :: "bytes \<Rightarrow> nat \<Rightarrow> (bytes \<times> bytes) option" where
  "e2_split_path path parent_cap =
     (if path = [] \<or> hd path \<noteq> 47 then None
      else
        let last' = length path - 1 - length (takeWhile (\<lambda>c. c \<noteq> 47) (rev path));
            name = drop (last' + 1) path;
            parent = (if last' = 0 then if parent_cap < 2 then None else Some [47]
                      else if last' + 1 > parent_cap then None else Some (take last' path))
        in case parent of None \<Rightarrow> None | Some q \<Rightarrow> if name = [] then None else Some (q, name))"

section \<open>Files and directories\<close>

text \<open>
  The blocks of a file are given back: the direct ones up to the first zero pointer, the children
  of the indirect block, the indirect block.
\<close>

definition free_direct :: "ext2_inode \<Rightarrow> u32 list" where
  "free_direct i = takeWhile (\<lambda>b. b \<noteq> 0) (take 12 (i_block i))"

definition free_file_blocks :: "ext2_inode \<Rightarrow> ext2 \<Rightarrow> ext2" where
  "free_file_blocks i s =
     (let s1 = fold e2_free_block (free_direct i) s; ind = i_block i ! 12 in
      if ind \<noteq> 0 then
        let s2 = (case e2_read_block ind s1 of
                    None \<Rightarrow> s1
                  | Some b \<Rightarrow> fold e2_free_block (takeWhile (\<lambda>b. b \<noteq> 0) (ptrs_of b s1)) s1)
        in e2_free_block ind s2
      else s1)"

definition emptied :: "ext2_inode \<Rightarrow> ext2_inode" where
  "emptied i =
     (let n = length (free_direct i)
      in i\<lparr>i_block := (replicate n 0 @ drop n (i_block i))[12 := 0], i_blocks := 0, i_size := 0\<rparr>)"

text \<open>
  Both write loops take at most \<open>n\<close> chunks of the data: a block is allocated, filled with the
  chunk and zeroes, and its number goes to the next pointer slot. The pointers and the data that
  is left, or \<open>None\<close> for \<open>goto fail\<close>.
\<close>

fun write_chunks :: "nat \<Rightarrow> bytes \<Rightarrow> ext2 \<Rightarrow> (u32 list \<times> bytes) option \<times> ext2" where
  "write_chunks 0 rest s = (Some ([], rest), s)"
| "write_chunks (Suc n) rest s =
     (if rest = [] then (Some ([], []), s)
      else let (blk, s1) = e2_alloc_block s in
        if blk = 0 then (None, s1)
        else let chunk = take (unat (block_size s1)) rest; (ok, s2) = e2_write_block blk (splice (zero_block s1) 0 chunk) s1 in
          if \<not> ok then (None, s2)
          else case write_chunks n (drop (unat (block_size s1)) rest) s2 of
              (None, s3) \<Rightarrow> (None, s3)
            | (Some (ptrs, left), s3) \<Rightarrow> (Some (blk # ptrs, left), s3))"

definition add_blocks :: "nat \<Rightarrow> ext2 \<Rightarrow> ext2_inode \<Rightarrow> ext2_inode" where
  "add_blocks n s i = i\<lparr>i_blocks := i_blocks i + of_nat n * (block_size s div 512)\<rparr>"

definition write_indirect :: "bytes \<Rightarrow> ext2_inode \<Rightarrow> ext2 \<Rightarrow> ext2_inode option \<times> ext2" where
  "write_indirect rest i s =
     (let (ind_blk, s1) = e2_alloc_block s; nptrs = unat (block_size s div 4) in
      if ind_blk = 0 then (None, s1)
      else case write_chunks nptrs rest s1 of
          (None, s2) \<Rightarrow> (None, s2)
        | (Some (ptrs, left), s2) \<Rightarrow>
            let (ok, s3) = e2_write_block ind_blk (concat (map st32 (ptrs @ replicate (nptrs - length ptrs) 0))) s2
            in if \<not> ok then (None, s3)
               else (Some (add_blocks (length ptrs + 1) s3 (i\<lparr>i_block := (i_block i)[12 := ind_blk]\<rparr>)), s3))"

definition write_data :: "bytes \<Rightarrow> ext2_inode \<Rightarrow> ext2 \<Rightarrow> ext2_inode option \<times> ext2" where
  "write_data data i s =
     (case write_chunks 12 data s of
        (None, s1) \<Rightarrow> (None, s1)
      | (Some (ptrs, rest), s1) \<Rightarrow>
          let i1 = add_blocks (length ptrs) s1 (i\<lparr>i_block := ptrs @ drop (length ptrs) (i_block i)\<rparr>)
          in if rest \<noteq> [] then write_indirect rest i1 s1 else (Some i1, s1))"

definition e2_now :: "ext2 \<Rightarrow> u32" where
  "e2_now s = ucast (e2_ticks s div 100)"

definition max_file_size :: "ext2 \<Rightarrow> u32" where
  "max_file_size s = 12 * block_size s + (block_size s div 4) * block_size s"

text \<open>The inode a write starts from, or \<open>None\<close> for an error return: the number, the inode, whether it is new.\<close>

definition open_for_write :: "bytes \<Rightarrow> ext2 \<Rightarrow> (u32 \<times> ext2_inode \<times> bool) option \<times> ext2" where
  "open_for_write path s =
     (let ino = e2_resolve (Some path) s in
      if ino \<noteq> 0 then
        (case e2_read_inode ino s of
           None \<Rightarrow> (None, s)
         | Some i \<Rightarrow> if \<not> is_file i then (None, s) else (Some (ino, emptied i, False), free_file_blocks i s))
      else
        let (ino, s1) = e2_alloc_inode s in
        if ino = 0 then (None, s1)
        else (Some (ino, zero_inode\<lparr>i_mode := EXT2_IMODE_FILE OR 0x1A4, i_links_count := 1\<rparr>, True), s1))"

definition ext2_write_file :: "bytes option \<Rightarrow> bytes \<Rightarrow> ext2 \<Rightarrow> int \<times> ext2" where
  "ext2_write_file path data s =
     (if \<not> e2_ready s then (- 1, s)
      else case path of
        None \<Rightarrow> (- 1, s)
      | Some path \<Rightarrow>
         (case e2_split_path path 256 of
            None \<Rightarrow> (- 1, s)
          | Some (parent, name) \<Rightarrow>
              let parent_ino = e2_resolve (Some parent) s in
              if parent_ino = 0 then (- 1, s)
              else let data = take (unat (max_file_size s)) data in
                case open_for_write path s of
                  (None, s1) \<Rightarrow> (- 1, s1)
                | (Some (ino, i, is_new), s1) \<Rightarrow>
                    (case write_data data i s1 of
                       (None, s2) \<Rightarrow> (- 1, s2)
                     | (Some i2, s2) \<Rightarrow>
                         let now = e2_now s2;
                             i3 = i2\<lparr>i_size := of_nat (length data), i_mtime := now, i_atime := now,
                                     i_ctime := (if is_new then now else i_ctime i2)\<rparr>;
                             (ok, s3) = e2_write_inode ino i3 s2
                         in if \<not> ok then (- 1, s3)
                            else if is_new then
                              let (ok, s4) = e2_add_dirent parent_ino (take 255 name) ino 1 s3
                              in (if ok then 0 else - 1, s4)
                            else (0, s3))))"

definition dir_block :: "u32 \<Rightarrow> u32 \<Rightarrow> ext2 \<Rightarrow> bytes" where
  "dir_block ino parent_ino s =
     splice (splice (zero_block s) 0 (put_dirent ino 12 [46] 2)) 12
       (put_dirent parent_ino (ucast (block_size s - 12)) [46, 46] 2)"

definition new_dir_inode :: "u32 \<Rightarrow> ext2 \<Rightarrow> ext2_inode" where
  "new_dir_inode blk s = zero_inode\<lparr>i_mode := EXT2_IMODE_DIR OR 0x1ED, i_links_count := 2, i_size := block_size s,
     i_blocks := block_size s div 512, i_block := (replicate 15 0)[0 := blk],
     i_ctime := e2_now s, i_mtime := e2_now s, i_atime := e2_now s\<rparr>"

definition ext2_mkdir :: "bytes option \<Rightarrow> ext2 \<Rightarrow> int \<times> ext2" where
  "ext2_mkdir path s =
     (if \<not> e2_ready s then (- 1, s)
      else case path of
        None \<Rightarrow> (- 1, s)
      | Some path \<Rightarrow>
         (case e2_split_path path 256 of
            None \<Rightarrow> (- 1, s)
          | Some (parent, name) \<Rightarrow>
              let parent_ino = e2_resolve (Some parent) s in
              if parent_ino = 0 then (- 1, s)
              else if e2_resolve (Some path) s \<noteq> 0 then (- 1, s)
              else let (ino, s1) = e2_alloc_inode s in
                if ino = 0 then (- 1, s1)
                else let (blk, s2) = e2_alloc_block s1 in
                  if blk = 0 then (- 1, e2_free_inode ino s2)
                  else let (ok, s3) = e2_write_block blk (dir_block ino parent_ino s2) s2 in
                    if \<not> ok then (- 1, e2_free_block blk (e2_free_inode ino s3))
                    else let (ok, s4) = e2_write_inode ino (new_dir_inode blk s3) s3 in
                      if \<not> ok then (- 1, e2_free_block blk (e2_free_inode ino s4))
                      else let (ok, s5) = e2_add_dirent parent_ino (take 255 name) ino 2 s4 in
                        if \<not> ok then (- 1, e2_free_block blk (e2_free_inode ino s5)) else (0, s5)))"

definition ext2_delete_file :: "bytes option \<Rightarrow> ext2 \<Rightarrow> int \<times> ext2" where
  "ext2_delete_file path s =
     (if \<not> e2_ready s then (- 1, s)
      else case path of
        None \<Rightarrow> (- 1, s)
      | Some path \<Rightarrow>
         (case e2_split_path path 256 of
            None \<Rightarrow> (- 1, s)
          | Some (parent, name) \<Rightarrow>
              let parent_ino = e2_resolve (Some parent) s; ino = e2_resolve (Some path) s in
              if parent_ino = 0 then (- 1, s)
              else if ino = 0 then (- 1, s)
              else case e2_read_inode ino s of
                  None \<Rightarrow> (- 1, s)
                | Some i \<Rightarrow>
                    if \<not> is_file i then (- 1, s)
                    else let (ok, s2) = e2_remove_dirent parent_ino name (free_file_blocks i s)
                      in if \<not> ok then (- 1, s2) else (0, e2_free_inode ino s2)))"

definition ext2_isdir :: "bytes option \<Rightarrow> ext2 \<Rightarrow> bool" where
  "ext2_isdir path s =
     (case path of
        None \<Rightarrow> False
      | Some p \<Rightarrow>
          if p = [47] then True
          else let ino = e2_resolve (Some p) s in
            if ino = 0 then False
            else case e2_read_inode ino s of None \<Rightarrow> False | Some i \<Rightarrow> is_dir i)"

end
