(* ===== verification/Ext2_Alloc.thy ===== *)
theory Ext2_Alloc
  imports Ext2 Alloc_Interface
begin

text \<open>
  Blocks, bitmaps and the allocators of the ext2 driver: on a healthy device the volume is a
  function from block numbers to contents (\<open>blk_bytes\<close>, \<open>put_blk\<close>); \<open>vol_ok\<close> says that the bitmaps,
  the group table and the inode tables are apart, that the free counts are exact and that the
  metadata is marked as used. Under it both allocators provide the interface \<open>allocator\<close>.
\<close>

section \<open>The volume as numbered blocks\<close>

text \<open>
  A healthy device with a supported block size. On it a volume is a function from block numbers
  to the bytes of the block, and writing a block updates that function at one point.
\<close>

definition device_ok :: "ext2 \<Rightarrow> bool" where
  "device_ok s \<longleftrightarrow> dk_present (e2_disk s) \<and> (\<forall>x. \<not> dk_fault (e2_disk s) x) \<and> block_size s \<in> {1024, 2048, 4096}"

abbreviation bsz :: "ext2 \<Rightarrow> nat" where
  "bsz s \<equiv> unat (block_size s)"

definition blk_bytes :: "ext2 \<Rightarrow> u32 \<Rightarrow> bytes" where
  "blk_bytes s b = map (dk_bytes (e2_disk s)) [unat b * bsz s..<unat b * bsz s + bsz s]"

definition put_blk :: "u32 \<Rightarrow> bytes \<Rightarrow> ext2 \<Rightarrow> ext2" where
  "put_blk b src s = snd (e2_write_block b src s)"

lemma device_ok_bsz: "device_ok s \<Longrightarrow> bsz s = 1024 \<or> bsz s = 2048 \<or> bsz s = 4096"
  by (auto simp: device_ok_def)

lemma device_ok_spb: "device_ok s \<Longrightarrow> bsz s = 512 * e2_spb s \<and> 0 < e2_spb s \<and> e2_spb s \<le> 8"
  by (auto simp: device_ok_def e2_spb_def)

lemma e2_sector_unat: "device_ok s \<Longrightarrow> unat (e2_sector s b) = unat b * e2_spb s"
proof -
  assume d: "device_ok s"
  have "unat b * e2_spb s < 2 ^ 64"
    using device_ok_spb [OF d] mult_le_mono [of "unat b" "2 ^ 32" "e2_spb s" 8] unat_u32_less [of b] by simp
  then show ?thesis
    by (simp add: e2_sector_def e2_spb_def unat_word_ariths unat_u32_u64)
qed

lemma length_blk_bytes [simp]: "length (blk_bytes s b) = bsz s"
  by (simp add: blk_bytes_def)

lemma sector_bytes: "device_ok s \<Longrightarrow> 512 * unat (e2_sector s b) = unat b * bsz s"
  using device_ok_spb [of s] by (simp add: e2_sector_unat)

lemma vq_accepts_ok: "device_ok s \<Longrightarrow> vq_accepts x (e2_spb s) (e2_disk s)"
  using device_ok_spb [of s] by (simp add: vq_accepts_def MAX_SECTORS_PER_REQ_def device_ok_def)

lemma e2_read_block_eq: "device_ok s \<Longrightarrow> b \<noteq> 0 \<Longrightarrow> e2_read_block b s = Some (blk_bytes s b)"
  using device_ok_spb [of s]
  by (simp add: e2_read_block_def virtio_blk_read_def vq_accepts_ok sector_bytes blk_bytes_def)

lemma e2_write_block_eq: "device_ok s \<Longrightarrow> b \<noteq> 0 \<Longrightarrow> e2_write_block b src s = (True, put_blk b src s)"
  by (simp add: put_blk_def e2_write_block_def virtio_blk_write_def vq_accepts_ok)

lemma put_blk_disk:
  "device_ok s \<Longrightarrow> b \<noteq> 0 \<Longrightarrow> put_blk b src s = s\<lparr>e2_disk := (e2_disk s)\<lparr>dk_bytes :=
     (\<lambda>x. if unat b * bsz s \<le> x \<and> x < unat b * bsz s + bsz s then src ! (x - unat b * bsz s)
          else dk_bytes (e2_disk s) x)\<rparr>\<rparr>"
proof -
  assume d: "device_ok s" and b: "b \<noteq> 0"
  have n: "512 * unat (e2_sector s b) = unat b * bsz s" "512 * e2_spb s = bsz s"
    using device_ok_spb [OF d] sector_bytes [OF d] by simp_all
  show ?thesis
    unfolding put_blk_def e2_write_block_def virtio_blk_write_def n using b vq_accepts_ok [OF d] by simp
qed

lemma put_blk_fields [simp]:
  "e2_ready (put_blk b src s) = e2_ready s" "block_size (put_blk b src s) = block_size s"
  "inodes_per_group (put_blk b src s) = inodes_per_group s" "blocks_per_group (put_blk b src s) = blocks_per_group s"
  "inode_size (put_blk b src s) = inode_size s" "first_data_block (put_blk b src s) = first_data_block s"
  "num_groups (put_blk b src s) = num_groups s" "bgdt (put_blk b src s) = bgdt s" "e2_ticks (put_blk b src s) = e2_ticks s"
  "dk_present (e2_disk (put_blk b src s)) = dk_present (e2_disk s)" "dk_fault (e2_disk (put_blk b src s)) = dk_fault (e2_disk s)"
  by (auto simp: put_blk_def e2_write_block_def virtio_blk_write_def)

lemma device_ok_put [simp]: "device_ok (put_blk b src s) = device_ok s"
  by (simp add: device_ok_def)

lemma block_ranges_apart:
  assumes "b \<noteq> b'" "x < bsz s"
  shows "\<not> (unat b * bsz s \<le> unat b' * bsz s + x \<and> unat b' * bsz s + x < unat b * bsz s + bsz s)"
proof -
  let ?n = "bsz s"
  have "(unat b' * ?n + x) div ?n = unat b'" using assms(2) by simp
  moreover have "unat b \<noteq> unat b'" using assms(1) by (simp add: word_unat_eq_iff)
  moreover have "(unat b * ?n + y) div ?n = unat b" if "y < ?n" for y using that by simp
  ultimately show ?thesis
    by (metis add_less_cancel_left le_Suc_ex)
qed

lemma blk_bytes_put:
  assumes "device_ok s" "b \<noteq> 0" "length src = bsz s"
  shows "blk_bytes (put_blk b src s) b' = (if b' = b then src else blk_bytes s b')"
proof (rule nth_equalityI)
  show "length (blk_bytes (put_blk b src s) b') = length (if b' = b then src else blk_bytes s b')"
    using assms(3) by simp
next
  fix x
  assume "x < length (blk_bytes (put_blk b src s) b')"
  then have x: "x < bsz s" by simp
  show "blk_bytes (put_blk b src s) b' ! x = (if b' = b then src else blk_bytes s b') ! x"
  proof (cases "b' = b")
    case True
    then show ?thesis using x assms(1,2) by (simp add: blk_bytes_def put_blk_disk)
  next
    case False
    then show ?thesis
      using x assms(1,2) block_ranges_apart [of b b' x s] by (auto simp: blk_bytes_def put_blk_disk)
  qed
qed

lemma blk_bytes_bgdt [simp]: "blk_bytes (s\<lparr>bgdt := t\<rparr>) b = blk_bytes s b"
  by (simp add: blk_bytes_def)

lemma device_ok_bgdt [simp]: "device_ok (s\<lparr>bgdt := t\<rparr>) = device_ok s"
  by (simp add: device_ok_def)

section \<open>Bitmaps\<close>

lemma bm_test_bit: "bm_test b k \<longleftrightarrow> bit (b ! (k div 8)) (k mod 8)"
  by (simp only: bm_test_def bit_iff_and_push_bit_not_eq_0)

lemma length_bm [simp]: "length (bm_set b k) = length b" "length (bm_clear b k) = length b"
  by (simp_all add: bm_set_def bm_clear_def)

lemma bm_test_set:
  assumes "k < 8 * length b"
  shows "bm_test (bm_set b k) j \<longleftrightarrow> j = k \<or> bm_test b j"
proof -
  have "k div 8 < length b" using assms by simp
  moreover have "j = k \<longleftrightarrow> j div 8 = k div 8 \<and> j mod 8 = k mod 8" by (metis div_mult_mod_eq)
  ultimately show ?thesis
    by (cases "j div 8 = k div 8") (auto simp: bm_test_bit bm_set_def bit_simps)
qed

lemma bm_test_clear:
  assumes "k < 8 * length b"
  shows "bm_test (bm_clear b k) j \<longleftrightarrow> j \<noteq> k \<and> bm_test b j"
proof -
  have "k div 8 < length b" using assms by simp
  moreover have "j = k \<longleftrightarrow> j div 8 = k div 8 \<and> j mod 8 = k mod 8" by (metis div_mult_mod_eq)
  ultimately show ?thesis
    by (cases "j div 8 = k div 8") (auto simp: bm_test_bit bm_clear_def bit_simps)
qed

section \<open>Well-formed volumes\<close>

declare bitmap_of.simps [simp del] free_count.simps [simp del] add_count.simps [simp del] nbits.simps [simp del]

text \<open>
  The slots of a bitmap kind are pairs of a group and a bit; \<open>used\<close> are those whose bit is set on
  the disk. The allocation area are the bitmaps and the blocks of the group table.
\<close>

abbreviation ngroups :: "ext2 \<Rightarrow> nat" where
  "ngroups s \<equiv> unat (num_groups s)"

definition bitmap_bytes :: "bm_kind \<Rightarrow> ext2 \<Rightarrow> nat \<Rightarrow> bytes" where
  "bitmap_bytes k s g = blk_bytes s (bitmap_of k (bgdt s ! g))"

definition slots :: "bm_kind \<Rightarrow> ext2 \<Rightarrow> (nat \<times> nat) set" where
  "slots k s = {0..<ngroups s} \<times> {0..<unat (nbits k s)}"

definition used :: "bm_kind \<Rightarrow> ext2 \<Rightarrow> (nat \<times> nat) set" where
  "used k s = {x \<in> slots k s. bm_test (bitmap_bytes k s (fst x)) (snd x)}"

definition bgd_blk :: "ext2 \<Rightarrow> nat \<Rightarrow> u32" where
  "bgd_blk s g = first_data_block s + 1 + of_nat g * 32 div block_size s"

definition bitmaps :: "ext2 \<Rightarrow> u32 set" where
  "bitmaps s = (\<lambda>(k, g). bitmap_of k (bgdt s ! g)) ` ({Blocks, Inodes} \<times> {0..<ngroups s})"

definition alloc_area :: "ext2 \<Rightarrow> u32 set" where
  "alloc_area s = bitmaps s \<union> bgd_blk s ` {0..<ngroups s}"

text \<open>The blocks of the inode tables, block \<open>j\<close> of the table of group \<open>g\<close>.\<close>

definition itab_blk :: "ext2 \<Rightarrow> nat \<Rightarrow> nat \<Rightarrow> u32" where
  "itab_blk s g j = bg_inode_table (bgdt s ! g) + of_nat j"

definition itab_len :: "ext2 \<Rightarrow> nat" where
  "itab_len s = (unat (inodes_per_group s) * unat (inode_size s) + bsz s - 1) div bsz s"

definition itabs :: "ext2 \<Rightarrow> u32 set" where
  "itabs s = (\<lambda>(g, j). itab_blk s g j) ` ({0..<ngroups s} \<times> {0..<itab_len s})"

definition layout_ok :: "ext2 \<Rightarrow> bool" where
  "layout_ok s \<longleftrightarrow>
     e2_ready s \<and> device_ok s \<and> length (bgdt s) = ngroups s
     \<and> list_all (\<lambda>k. 0 < unat (nbits k s) \<and> unat (nbits k s) \<le> 8 * bsz s) [Blocks, Inodes]
     \<and> unat (first_data_block s) + ngroups s * unat (blocks_per_group s) < 2 ^ 32
     \<and> ngroups s * unat (inodes_per_group s) < 2 ^ 32
     \<and> 128 \<le> unat (inode_size s) \<and> unat (inode_size s) dvd bsz s
     \<and> inj_on (\<lambda>(k, g). bitmap_of k (bgdt s ! g)) ({Blocks, Inodes} \<times> {0..<ngroups s})
     \<and> bitmaps s \<inter> bgd_blk s ` {0..<ngroups s} = {}
     \<and> inj_on (\<lambda>(g, j). itab_blk s g j) ({0..<ngroups s} \<times> {0..<itab_len s})
     \<and> itabs s \<inter> alloc_area s = {} \<and> 0 \<notin> alloc_area s \<union> itabs s
     \<and> list_all (\<lambda>d. length (bg_reserved d) = 12) (bgdt s)"

definition counts_ok :: "ext2 \<Rightarrow> bool" where
  "counts_ok s \<longleftrightarrow>
     (\<forall>k. \<forall>g < ngroups s. unat (free_count k (bgdt s ! g)) = card {i. i < unat (nbits k s) \<and> (g, i) \<notin> used k s})"

definition reserved_used :: "ext2 \<Rightarrow> bool" where
  "reserved_used s \<longleftrightarrow> (\<forall>x \<in> slots Blocks s. block_no s x \<in> insert 0 (alloc_area s \<union> itabs s) \<longrightarrow> x \<in> used Blocks s)"

definition vol_ok :: "ext2 \<Rightarrow> bool" where
  "vol_ok s \<longleftrightarrow> layout_ok s \<and> counts_ok s \<and> reserved_used s"

text \<open>Two states of the same volume: everything but counters and block contents agrees.\<close>

definition lay :: "ext2_bgd \<Rightarrow> u32 \<times> u32 \<times> u32 \<times> nat" where
  "lay d = (bg_block_bitmap d, bg_inode_bitmap d, bg_inode_table d, length (bg_reserved d))"

definition same_layout :: "ext2 \<Rightarrow> ext2 \<Rightarrow> bool" where
  "same_layout s s' \<longleftrightarrow>
     e2_ready s' = e2_ready s \<and> block_size s' = block_size s \<and> inodes_per_group s' = inodes_per_group s
     \<and> blocks_per_group s' = blocks_per_group s \<and> inode_size s' = inode_size s \<and> first_data_block s' = first_data_block s
     \<and> num_groups s' = num_groups s \<and> map lay (bgdt s') = map lay (bgdt s) \<and> e2_ticks s' = e2_ticks s
     \<and> dk_present (e2_disk s') = dk_present (e2_disk s) \<and> dk_fault (e2_disk s') = dk_fault (e2_disk s)"

lemma same_layout_refl [simp]: "same_layout s s"
  by (simp add: same_layout_def)

lemma same_layout_trans: "same_layout s s' \<Longrightarrow> same_layout s' s'' \<Longrightarrow> same_layout s s''"
  by (simp add: same_layout_def)

lemma same_layout_sym: "same_layout s s' \<Longrightarrow> same_layout s' s"
  by (simp add: same_layout_def)

lemma same_layout_put [simp]: "same_layout s (put_blk b src s)"
  by (simp add: same_layout_def)

lemma same_layout_nth:
  assumes "same_layout s s'" "g < length (bgdt s)"
  shows "bitmap_of k (bgdt s' ! g) = bitmap_of k (bgdt s ! g)" "bg_inode_table (bgdt s' ! g) = bg_inode_table (bgdt s ! g)"
proof -
  have m: "map lay (bgdt s') = map lay (bgdt s)" using assms(1) by (simp add: same_layout_def)
  from arg_cong [OF this, of length] have "g < length (bgdt s')" using assms(2) by simp
  with arg_cong [OF m, of "\<lambda>xs. xs ! g"] assms(2) have "lay (bgdt s' ! g) = lay (bgdt s ! g)" by simp
  then show "bitmap_of k (bgdt s' ! g) = bitmap_of k (bgdt s ! g)" "bg_inode_table (bgdt s' ! g) = bg_inode_table (bgdt s ! g)"
    by (cases k; simp add: lay_def bitmap_of.simps)+
qed

lemma same_layout_fields:
  assumes "same_layout s s'"
  shows "e2_ready s' = e2_ready s" "block_size s' = block_size s" "inodes_per_group s' = inodes_per_group s"
    "blocks_per_group s' = blocks_per_group s" "inode_size s' = inode_size s" "first_data_block s' = first_data_block s"
    "num_groups s' = num_groups s" "length (bgdt s') = length (bgdt s)" "e2_ticks s' = e2_ticks s"
    "nbits k s' = nbits k s" "device_ok s' = device_ok s" "block_no s' = block_no s" "inode_no s' = inode_no s"
    "slots k s' = slots k s" "bgd_blk s' = bgd_blk s" "itab_len s' = itab_len s"
proof -
  have "map lay (bgdt s') = map lay (bgdt s)" using assms by (simp add: same_layout_def)
  then show "length (bgdt s') = length (bgdt s)" by (rule map_eq_imp_length_eq)
  have n: "nbits k s' = nbits k s" using assms by (cases k) (simp_all add: nbits.simps same_layout_def)
  then show "nbits k s' = nbits k s" .
  show "slots k s' = slots k s" unfolding slots_def n using assms by (simp add: same_layout_def)
  show "device_ok s' = device_ok s" using assms by (simp add: same_layout_def device_ok_def)
  show "block_no s' = block_no s" "inode_no s' = inode_no s" "bgd_blk s' = bgd_blk s"
    using assms by (simp_all add: same_layout_def block_no_def inode_no_def bgd_blk_def fun_eq_iff)
  show "itab_len s' = itab_len s" using assms by (simp add: same_layout_def itab_len_def)
qed (use assms in \<open>simp_all add: same_layout_def\<close>)

lemma same_layout_areas:
  assumes "same_layout s s'" "length (bgdt s) = ngroups s"
  shows "bitmaps s' = bitmaps s" "alloc_area s' = alloc_area s" "itabs s' = itabs s"
proof -
  show b: "bitmaps s' = bitmaps s"
    unfolding bitmaps_def using assms same_layout_nth [OF assms(1)]
    by (intro image_cong) (auto simp: same_layout_fields [OF assms(1)])
  then show "alloc_area s' = alloc_area s"
    by (simp add: alloc_area_def same_layout_fields [OF assms(1)])
  show "itabs s' = itabs s"
    unfolding itabs_def using assms same_layout_nth [OF assms(1)]
    by (intro image_cong) (auto simp: same_layout_fields [OF assms(1)] itab_blk_def)
qed

lemma same_layout_ok:
  assumes "same_layout s s'" "layout_ok s"
  shows "layout_ok s'"
proof -
  note f = same_layout_fields [OF assms(1)]
  have l: "length (bgdt s) = ngroups s" using assms(2) by (simp add: layout_ok_def)
  note ar = same_layout_areas [OF assms(1) l]
  have b: "inj_on (\<lambda>(k, g). bitmap_of k (bgdt s' ! g)) ({Blocks, Inodes} \<times> {0..<ngroups s})
      = inj_on (\<lambda>(k, g). bitmap_of k (bgdt s ! g)) ({Blocks, Inodes} \<times> {0..<ngroups s})"
    using l same_layout_nth(1) [OF assms(1)] by (intro inj_on_cong) auto
  have t: "inj_on (\<lambda>(g, j). itab_blk s' g j) ({0..<ngroups s} \<times> {0..<itab_len s})
      = inj_on (\<lambda>(g, j). itab_blk s g j) ({0..<ngroups s} \<times> {0..<itab_len s})"
    using l same_layout_nth(2) [OF assms(1)] by (intro inj_on_cong) (auto simp: itab_blk_def)
  have "map ((\<lambda>(_, _, _, n). n) \<circ> lay) (bgdt s') = map ((\<lambda>(_, _, _, n). n) \<circ> lay) (bgdt s)"
    using assms(1) by (simp only: same_layout_def flip: map_map)
  then have "map (\<lambda>d. length (bg_reserved d)) (bgdt s') = map (\<lambda>d. length (bg_reserved d)) (bgdt s)"
    by (simp add: lay_def o_def)
  then have r: "list_all (\<lambda>d. length (bg_reserved d) = 12) (bgdt s') = list_all (\<lambda>d. length (bg_reserved d) = 12) (bgdt s)"
    by (simp add: list_all_length f) (metis length_map nth_map f(8))
  show ?thesis
    using assms(2) unfolding layout_ok_def f ar b t r .
qed

section \<open>Taking and releasing a bit\<close>

definition flip :: "bm_kind \<Rightarrow> nat \<Rightarrow> bytes \<Rightarrow> u16 \<Rightarrow> ext2 \<Rightarrow> ext2" where
  "flip k g buf n s = count_and_flush k g n (put_blk (bitmap_of k (bgdt s ! g)) buf s)"

lemma lay_add_count [simp]: "lay (add_count k n d) = lay d"
  by (cases k) (simp_all add: lay_def add_count.simps)

lemma layout_okD:
  assumes "layout_ok s"
  shows "e2_ready s" "device_ok s" "length (bgdt s) = ngroups s"
    "0 < unat (nbits k s)" "unat (nbits k s) \<le> 8 * bsz s"
    "unat (first_data_block s) + ngroups s * unat (blocks_per_group s) < 2 ^ 32"
    "ngroups s * unat (inodes_per_group s) < 2 ^ 32"
    "128 \<le> unat (inode_size s)" "unat (inode_size s) dvd bsz s"
    "inj_on (\<lambda>(k, g). bitmap_of k (bgdt s ! g)) ({Blocks, Inodes} \<times> {0..<ngroups s})"
    "bitmaps s \<inter> bgd_blk s ` {0..<ngroups s} = {}"
    "inj_on (\<lambda>(g, j). itab_blk s g j) ({0..<ngroups s} \<times> {0..<itab_len s})"
    "itabs s \<inter> alloc_area s = {}" "0 \<notin> alloc_area s" "0 \<notin> itabs s"
    "g < ngroups s \<Longrightarrow> length (bg_reserved (bgdt s ! g)) = 12"
proof -
  note l = assms [unfolded layout_ok_def]
  show "0 < unat (nbits k s)" "unat (nbits k s) \<le> 8 * bsz s" using l by (cases k; simp)+
  show "length (bg_reserved (bgdt s ! g)) = 12" if "g < ngroups s" using l that by (simp add: list_all_length)
qed (use assms in \<open>auto simp only: layout_ok_def Un_iff\<close>)

lemma kind_cases: "k \<in> {Blocks, Inodes}"
  by (cases k) simp_all

lemma bitmap_in: "g < ngroups s \<Longrightarrow> bitmap_of k (bgdt s ! g) \<in> bitmaps s"
  using kind_cases [of k] by (auto simp: bitmaps_def simp del: insert_iff intro!: rev_image_eqI [of "(k, g)"])

lemma bitmap_eq:
  assumes "layout_ok s" "g < ngroups s" "g' < ngroups s"
  shows "bitmap_of k (bgdt s ! g) = bitmap_of k' (bgdt s ! g') \<longleftrightarrow> k = k' \<and> g = g'"
  using inj_on_eq_iff [OF layout_okD(10) [OF assms(1)], of "(k, g)" "(k', g')"] assms(2,3) kind_cases [of k] kind_cases [of k']
  by simp

lemma bitmap_neq:
  assumes "layout_ok s" "g < ngroups s"
  shows "bitmap_of k (bgdt s ! g) \<noteq> 0" "bitmap_of k (bgdt s ! g) \<notin> bgd_blk s ` {0..<ngroups s}"
  using bitmap_in [OF assms(2), of k] layout_okD(11,14) [OF assms(1)] by (auto simp: alloc_area_def)

lemma bgd_blk_neq: "layout_ok s \<Longrightarrow> g < ngroups s \<Longrightarrow> bgd_blk s g \<noteq> 0"
  using layout_okD(14) [of s] by (auto simp: alloc_area_def image_iff)

lemma length_put_bgd: "length (put_bgd d) = 20 + length (bg_reserved d)"
  by (simp add: put_bgd_def)

lemma bgd_offset:
  assumes "device_ok s"
  shows "unat ((of_nat g * 32 :: u32) mod block_size s) + 32 \<le> bsz s"
proof -
  have "32 dvd bsz s" using device_ok_bsz [OF assms] by auto
  moreover have "32 dvd unat (of_nat g * 32 :: u32)"
    by (simp add: unat_word_ariths dvd_mod_iff)
  ultimately obtain a where a: "unat (of_nat g * 32 :: u32) mod bsz s = 32 * a" and b: "bsz s = 32 * (bsz s div 32)"
    by (metis dvd_mod dvdE dvd_mult_div_cancel)
  have "unat (of_nat g * 32 :: u32) mod bsz s < bsz s" using device_ok_bsz [OF assms] by auto
  then have "32 * a < 32 * (bsz s div 32)" using a b by simp
  then have "32 * a + 32 \<le> 32 * (bsz s div 32)" by simp
  then show ?thesis unfolding unat_mod_distrib a using b by simp
qed

lemma flip_spec:
  assumes "layout_ok s" "g < ngroups s" "length buf = bsz s"
  shows "same_layout s (flip k g buf n s)" "bgdt (flip k g buf n s) = (bgdt s)[g := add_count k n (bgdt s ! g)]"
    "b \<notin> bgd_blk s ` {0..<ngroups s} \<Longrightarrow>
       blk_bytes (flip k g buf n s) b = (if b = bitmap_of k (bgdt s ! g) then buf else blk_bytes s b)"
proof -
  let ?s1 = "put_blk (bitmap_of k (bgdt s ! g)) buf s"
  let ?s2 = "?s1\<lparr>bgdt := (bgdt s)[g := add_count k n (bgdt s ! g)]\<rparr>"
  note d = layout_okD(2) [OF assms(1)]
  have g: "g < length (bgdt s)" using layout_okD(3) [OF assms(1)] assms(2) by simp
  let ?src = "splice (blk_bytes ?s2 (bgd_blk s g)) (unat ((of_nat g * 32 :: u32) mod block_size s)) (put_bgd (add_count k n (bgdt s ! g)))"
  have f: "flip k g buf n s = put_blk (bgd_blk s g) ?src ?s2"
    using bgd_blk_neq [OF assms(1,2)] d g
    by (simp add: flip_def count_and_flush_def e2_flush_bgd_def Let_def e2_read_block_eq e2_write_block_eq
        flip: bgd_blk_def) 
  have "length (bg_reserved (add_count k n (bgdt s ! g))) = 12"
    using layout_okD(16) [OF assms(1,2)] by (cases k) (simp_all add: add_count.simps)
  then have l: "length ?src = bsz s"
    using bgd_offset [OF d, of g] by (simp add: length_put_bgd)
  have m: "map lay ((bgdt s)[g := add_count k n (bgdt s ! g)]) = map lay (bgdt s)"
    by (simp add: map_update g) (metis g length_map list_update_id nth_map)
  show "same_layout s (flip k g buf n s)" by (simp add: f same_layout_def m)
  show "bgdt (flip k g buf n s) = (bgdt s)[g := add_count k n (bgdt s ! g)]" by (simp add: f)
  assume "b \<notin> bgd_blk s ` {0..<ngroups s}"
  then have "b \<noteq> bgd_blk s g" using assms(2) by auto
  then show "blk_bytes (flip k g buf n s) b = (if b = bitmap_of k (bgdt s ! g) then buf else blk_bytes s b)"
    using bgd_blk_neq [OF assms(1,2)] bitmap_neq(1) [OF assms(1,2)] d l assms(3) by (simp add: f blk_bytes_put)
qed

lemma bitmap_bytes_flip:
  assumes "layout_ok s" "g < ngroups s" "length buf = bsz s" "g' < ngroups s"
  shows "bitmap_bytes k' (flip k g buf n s) g' = (if k' = k \<and> g' = g then buf else bitmap_bytes k' s g')"
proof -
  have b: "bitmap_of k' (bgdt (flip k g buf n s) ! g') = bitmap_of k' (bgdt s ! g')"
    using same_layout_nth(1) [OF flip_spec(1) [OF assms(1-3)]] layout_okD(3) [OF assms(1)] assms(4) by simp
  show ?thesis
    unfolding bitmap_bytes_def b
    using flip_spec(3) [OF assms(1-3) bitmap_neq(2) [OF assms(1,4)]] bitmap_eq [OF assms(1,4,2)] by simp
qed

lemma used_flip:
  assumes "layout_ok s" "g < ngroups s" "length buf = bsz s"
  shows "used k' (flip k g buf n s) = {x \<in> slots k' s. if k' = k \<and> fst x = g then bm_test buf (snd x) else x \<in> used k' s}"
  using bitmap_bytes_flip [OF assms] same_layout_fields(14) [OF flip_spec(1) [OF assms]]
  by (auto simp: used_def slots_def split: if_splits)

lemma used_set:
  assumes "layout_ok s" "(g, i) \<in> slots k s"
  shows "used k' (flip k g (bm_set (bitmap_bytes k s g) i) n s) = (if k' = k then insert (g, i) (used k s) else used k' s)"
proof -
  have g: "g < ngroups s" "i < 8 * length (bitmap_bytes k s g)"
    using assms(2) layout_okD(5) [OF assms(1), of k] by (auto simp: slots_def bitmap_bytes_def)
  have l: "length (bm_set (bitmap_bytes k s g) i) = bsz s" by (simp add: bitmap_bytes_def)
  show ?thesis
    using assms(2) unfolding used_flip [OF assms(1) g(1) l] by (auto simp: used_def bm_test_set [OF g(2)])
qed

lemma used_clear:
  assumes "layout_ok s" "(g, i) \<in> slots k s"
  shows "used k' (flip k g (bm_clear (bitmap_bytes k s g) i) n s) = (if k' = k then used k s - {(g, i)} else used k' s)"
proof -
  have g: "g < ngroups s" "i < 8 * length (bitmap_bytes k s g)"
    using assms(2) layout_okD(5) [OF assms(1), of k] by (auto simp: slots_def bitmap_bytes_def)
  have l: "length (bm_clear (bitmap_bytes k s g) i) = bsz s" by (simp add: bitmap_bytes_def)
  show ?thesis
    using assms(2) unfolding used_flip [OF assms(1) g(1) l] by (auto simp: used_def bm_test_clear [OF g(2)])
qed

section \<open>The free counts\<close>

definition free_bits :: "bm_kind \<Rightarrow> ext2 \<Rightarrow> nat \<Rightarrow> nat set" where
  "free_bits k s g = {i. i < unat (nbits k s) \<and> (g, i) \<notin> used k s}"

lemma counts_ok_iff: "counts_ok s \<longleftrightarrow> (\<forall>k. \<forall>g < ngroups s. unat (free_count k (bgdt s ! g)) = card (free_bits k s g))"
  by (simp add: counts_ok_def free_bits_def)

lemma finite_free_bits [simp]: "finite (free_bits k s g)"
  by (simp add: free_bits_def)

lemma card_free_bits: "layout_ok s \<Longrightarrow> card (free_bits k s g) \<le> 32768"
proof -
  assume l: "layout_ok s"
  have "free_bits k s g \<subseteq> {0..<unat (nbits k s)}" by (auto simp: free_bits_def)
  from card_mono [OF _ this] show ?thesis
    using layout_okD(5) [OF l, of k] device_ok_bsz [OF layout_okD(2) [OF l]] by auto
qed

lemma free_count_add: "free_count k' (add_count k n d) = (if k' = k then free_count k d + n else free_count k' d)"
  by (cases k; cases k') (simp_all add: free_count.simps add_count.simps)

lemma counts_flip:
  assumes l: "layout_ok s" and c: "counts_ok s" and g: "g < ngroups s" and b: "length buf = bsz s"
    and o: "\<And>k' g'. g' < ngroups s \<Longrightarrow> (k', g') \<noteq> (k, g) \<Longrightarrow> free_bits k' (flip k g buf n s) g' = free_bits k' s g'"
    and n: "unat (free_count k (bgdt s ! g) + n) = card (free_bits k (flip k g buf n s) g)"
  shows "counts_ok (flip k g buf n s)"
  unfolding counts_ok_iff
proof (intro allI impI)
  fix k' g'
  assume g': "g' < ngroups (flip k g buf n s)"
  then have g'': "g' < ngroups s" by (simp add: same_layout_fields(7) [OF flip_spec(1) [OF l g b]])
  have len: "length (bgdt s) = ngroups s" using layout_okD(3) [OF l] .
  show "unat (free_count k' (bgdt (flip k g buf n s) ! g')) = card (free_bits k' (flip k g buf n s) g')"
  proof (cases "(k', g') = (k, g)")
    case True
    then show ?thesis using n g len by (simp add: flip_spec(2) [OF l g b] free_count_add)
  next
    case False
    then have "free_count k' (bgdt (flip k g buf n s) ! g') = free_count k' (bgdt s ! g')"
      using g len by (cases "g' = g") (auto simp: flip_spec(2) [OF l g b] free_count_add)
    with o [OF g'' False] c g'' show ?thesis by (simp add: counts_ok_iff)
  qed
qed

lemma free_bits_flip:
  assumes "layout_ok s" "g < ngroups s" "length buf = bsz s"
  shows "free_bits k' (flip k g buf n s) g' = {i. i < unat (nbits k' s) \<and> (g', i) \<notin> used k' (flip k g buf n s)}"
  by (simp add: free_bits_def same_layout_fields(10) [OF flip_spec(1) [OF assms]])

lemma counts_set:
  assumes l: "layout_ok s" and c: "counts_ok s" and x: "(g, i) \<in> slots k s" "(g, i) \<notin> used k s"
  shows "counts_ok (flip k g (bm_set (bitmap_bytes k s g) i) (- 1) s)"
proof -
  let ?f = "flip k g (bm_set (bitmap_bytes k s g) i) (- 1) s"
  have g: "g < ngroups s" using x(1) by (simp add: slots_def)
  have b: "length (bm_set (bitmap_bytes k s g) i) = bsz s" by (simp add: bitmap_bytes_def)
  have i: "i \<in> free_bits k s g" using x by (auto simp: free_bits_def slots_def)
  have "free_bits k ?f g = free_bits k s g - {i}"
    unfolding free_bits_flip [OF l g b] used_set [OF l x(1)] by (auto simp: free_bits_def)
  then have n: "card (free_bits k ?f g) = card (free_bits k s g) - 1" using i by simp
  have u: "unat (free_count k (bgdt s ! g)) = card (free_bits k s g)" using c g by (simp add: counts_ok_iff)
  moreover have "0 < card (free_bits k s g)" using i card_gt_0_iff finite_free_bits by blast
  ultimately have z: "free_count k (bgdt s ! g) \<noteq> 0" by auto
  have "unat (free_count k (bgdt s ! g) - 1) = unat (free_count k (bgdt s ! g)) - 1"
    using unat_minus_one [OF z] .
  then have "unat (free_count k (bgdt s ! g) + - 1) = card (free_bits k ?f g)" using u n by simp
  moreover have "free_bits k' ?f g' = free_bits k' s g'" if "(k', g') \<noteq> (k, g)" for k' g'
    unfolding free_bits_flip [OF l g b] used_set [OF l x(1)] using that by (auto simp: free_bits_def)
  ultimately show ?thesis by (intro counts_flip [OF l c g b])
qed

lemma counts_clear:
  assumes l: "layout_ok s" and c: "counts_ok s" and x: "(g, i) \<in> used k s"
  shows "counts_ok (flip k g (bm_clear (bitmap_bytes k s g) i) 1 s)"
proof -
  let ?f = "flip k g (bm_clear (bitmap_bytes k s g) i) 1 s"
  have x': "(g, i) \<in> slots k s" using x by (simp add: used_def)
  then have g: "g < ngroups s" by (simp add: slots_def)
  have b: "length (bm_clear (bitmap_bytes k s g) i) = bsz s" by (simp add: bitmap_bytes_def)
  have i: "i \<notin> free_bits k s g" using x by (auto simp: free_bits_def)
  have "free_bits k ?f g = insert i (free_bits k s g)"
    unfolding free_bits_flip [OF l g b] used_clear [OF l x'] using x' by (auto simp: free_bits_def slots_def)
  then have n: "card (free_bits k ?f g) = card (free_bits k s g) + 1" using i by simp
  have u: "unat (free_count k (bgdt s ! g)) = card (free_bits k s g)" using c g by (simp add: counts_ok_iff)
  then have "unat (free_count k (bgdt s ! g) + 1) = unat (free_count k (bgdt s ! g)) + 1"
    using card_free_bits [OF l, of k g] by (subst unat_add_no_wrap) simp_all
  then have "unat (free_count k (bgdt s ! g) + 1) = card (free_bits k ?f g)" using u n by simp
  moreover have "free_bits k' ?f g' = free_bits k' s g'" if "(k', g') \<noteq> (k, g)" for k' g'
    unfolding free_bits_flip [OF l g b] used_clear [OF l x'] using that by (auto simp: free_bits_def)
  ultimately show ?thesis by (intro counts_flip [OF l c g b])
qed

section \<open>The allocation loop takes the first free slot\<close>

definition slot_order :: "bm_kind \<Rightarrow> ext2 \<Rightarrow> nat list \<Rightarrow> (nat \<times> nat) list" where
  "slot_order k s gs = List.product gs [0..<unat (nbits k s)]"

definition take_slot :: "bm_kind \<Rightarrow> nat \<times> nat \<Rightarrow> ext2 \<Rightarrow> ext2" where
  "take_slot k x s = flip k (fst x) (bm_set (bitmap_bytes k s (fst x)) (snd x)) (- 1) s"

definition drop_slot :: "bm_kind \<Rightarrow> nat \<times> nat \<Rightarrow> ext2 \<Rightarrow> ext2" where
  "drop_slot k x s = flip k (fst x) (bm_clear (bitmap_bytes k s (fst x)) (snd x)) 1 s"

lemma find_append: "find P (xs @ ys) = (case find P xs of None \<Rightarrow> find P ys | Some x \<Rightarrow> Some x)"
  by (induction xs) auto

lemma find_map_Pair: "find P (map (Pair g) is) = map_option (Pair g) (find (\<lambda>i. P (g, i)) is)"
  by (induction "is") auto

lemma find_used:
  assumes "g < ngroups s"
  shows "find (\<lambda>i. (g, i) \<notin> used k s) [0..<unat (nbits k s)] = find (\<lambda>i. \<not> bm_test (bitmap_bytes k s g) i) [0..<unat (nbits k s)]"
  using assms by (intro find_cong) (auto simp: used_def slots_def)

lemma alloc_scan_eq:
  assumes "layout_ok s" "counts_ok s" "\<forall>g \<in> set gs. g < ngroups s"
  shows "alloc_scan k gs s =
    (case find (\<lambda>x. x \<notin> used k s) (slot_order k s gs) of None \<Rightarrow> (None, s) | Some x \<Rightarrow> (Some x, take_slot k x s))"
  using assms(3)
proof (induction gs)
  case Nil
  then show ?case by (simp add: slot_order_def)
next
  case (Cons g gs)
  have g: "g < ngroups s" using Cons.prems by simp
  have IH: "alloc_scan k gs s =
    (case find (\<lambda>x. x \<notin> used k s) (slot_order k s gs) of None \<Rightarrow> (None, s) | Some x \<Rightarrow> (Some x, take_slot k x s))"
    using Cons by simp
  let ?here = "find (\<lambda>i. \<not> bm_test (bitmap_bytes k s g) i) [0..<unat (nbits k s)]"
  have split: "find (\<lambda>x. x \<notin> used k s) (slot_order k s (g # gs)) =
      (case ?here of None \<Rightarrow> find (\<lambda>x. x \<notin> used k s) (slot_order k s gs) | Some i \<Rightarrow> Some (g, i))"
    by (simp add: slot_order_def find_append find_map_Pair find_used [OF g] split: option.splits)
  show ?case
  proof (cases "free_count k (bgdt s ! g) = 0")
    case True
    then have "card (free_bits k s g) = 0" using assms(2) g by (simp add: counts_ok_iff flip: unat_eq_zero)
    then have "free_bits k s g = {}" by simp
    then have "?here = None" unfolding find_used [OF g, symmetric] by (auto simp: find_None_iff free_bits_def)
    with True show ?thesis unfolding split by (simp add: IH)
  next
    case False
    note rd = e2_read_block_eq [OF layout_okD(2) [OF assms(1)] bitmap_neq(1) [OF assms(1) g, of k]]
    note wr = e2_write_block_eq [OF layout_okD(2) [OF assms(1)] bitmap_neq(1) [OF assms(1) g, of k]]
    show ?thesis
    proof (cases ?here)
      case None
      then show ?thesis unfolding split using False by (simp add: rd IH flip: bitmap_bytes_def)
    next
      case (Some i)
      then show ?thesis unfolding split using False
        by (simp add: rd wr take_slot_def flip_def flip: bitmap_bytes_def)
    qed
  qed
qed

lemma release_bit_eq:
  assumes "layout_ok s" "g < ngroups s"
  shows "release_bit k g i s = drop_slot k (g, i) s"
  using e2_read_block_eq [OF layout_okD(2) [OF assms(1)] bitmap_neq(1) [OF assms, of k]]
    e2_write_block_eq [OF layout_okD(2) [OF assms(1)] bitmap_neq(1) [OF assms, of k]]
  by (simp add: release_bit_def drop_slot_def flip_def bitmap_bytes_def)

section \<open>What an allocation keeps\<close>

lemma take_slot_spec:
  assumes "vol_ok s" "x \<in> slots k s" "x \<notin> used k s"
  shows "same_layout s (take_slot k x s)" "vol_ok (take_slot k x s)"
    "used k' (take_slot k x s) = (if k' = k then insert x (used k s) else used k' s)"
    "b \<notin> alloc_area s \<Longrightarrow> blk_bytes (take_slot k x s) b = blk_bytes s b"
proof -
  obtain g i where x: "x = (g, i)" by force
  have l: "layout_ok s" and c: "counts_ok s" and r: "reserved_used s" using assms(1) by (simp_all add: vol_ok_def)
  have s: "(g, i) \<in> slots k s" "(g, i) \<notin> used k s" using assms(2,3) x by simp_all
  have g: "g < ngroups s" using s(1) by (simp add: slots_def)
  let ?b = "bm_set (bitmap_bytes k s g) i"
  have b: "length ?b = bsz s" by (simp add: bitmap_bytes_def)
  have t: "take_slot k x s = flip k g ?b (- 1) s" by (simp add: take_slot_def x)
  show sl: "same_layout s (take_slot k x s)" unfolding t by (rule flip_spec(1) [OF l g b])
  show u: "used k' (take_slot k x s) = (if k' = k then insert x (used k s) else used k' s)" for k'
    unfolding t by (simp add: used_set [OF l s(1)] x)
  note len = layout_okD(3) [OF l]
  have "reserved_used (take_slot k x s)"
    using r unfolding reserved_used_def same_layout_fields(12,14) [OF sl] same_layout_areas(2,3) [OF sl len] u by auto
  then show "vol_ok (take_slot k x s)"
    using same_layout_ok [OF sl l] counts_set [OF l c s] by (simp add: vol_ok_def t)
  assume "b \<notin> alloc_area s"
  then have "b \<notin> bgd_blk s ` {0..<ngroups s}" "b \<noteq> bitmap_of k (bgdt s ! g)"
    using bitmap_in [OF g, of k] by (auto simp: alloc_area_def)
  then show "blk_bytes (take_slot k x s) b = blk_bytes s b"
    unfolding t by (simp add: flip_spec(3) [OF l g b])
qed

definition reserved :: "ext2 \<Rightarrow> u32 set" where
  "reserved s = insert 0 (alloc_area s \<union> itabs s)"

lemma drop_slot_spec:
  assumes "vol_ok s" "x \<in> used k s" "k = Blocks \<Longrightarrow> block_no s x \<notin> reserved s"
  shows "same_layout s (drop_slot k x s)" "vol_ok (drop_slot k x s)"
    "used k' (drop_slot k x s) = (if k' = k then used k s - {x} else used k' s)"
    "b \<notin> alloc_area s \<Longrightarrow> blk_bytes (drop_slot k x s) b = blk_bytes s b"
proof -
  obtain g i where x: "x = (g, i)" by force
  have l: "layout_ok s" and c: "counts_ok s" and r: "reserved_used s" using assms(1) by (simp_all add: vol_ok_def)
  have s: "(g, i) \<in> slots k s" "(g, i) \<in> used k s" using assms(2) x by (simp_all add: used_def)
  have g: "g < ngroups s" using s(1) by (simp add: slots_def)
  let ?b = "bm_clear (bitmap_bytes k s g) i"
  have b: "length ?b = bsz s" by (simp add: bitmap_bytes_def)
  have t: "drop_slot k x s = flip k g ?b 1 s" by (simp add: drop_slot_def x)
  show sl: "same_layout s (drop_slot k x s)" unfolding t by (rule flip_spec(1) [OF l g b])
  show u: "used k' (drop_slot k x s) = (if k' = k then used k s - {x} else used k' s)" for k'
    unfolding t by (simp add: used_clear [OF l s(1)] x)
  note len = layout_okD(3) [OF l]
  have "reserved_used (drop_slot k x s)"
    using r assms(3) unfolding reserved_used_def same_layout_fields(12,14) [OF sl] same_layout_areas(2,3) [OF sl len] u
      reserved_def by auto
  then show "vol_ok (drop_slot k x s)"
    using same_layout_ok [OF sl l] counts_clear [OF l c s(2)] by (simp add: vol_ok_def t)
  assume "b \<notin> alloc_area s"
  then have "b \<notin> bgd_blk s ` {0..<ngroups s}" "b \<noteq> bitmap_of k (bgdt s ! g)"
    using bitmap_in [OF g, of k] by (auto simp: alloc_area_def)
  then show "blk_bytes (drop_slot k x s) b = blk_bytes s b"
    unfolding t by (simp add: flip_spec(3) [OF l g b])
qed

section \<open>Numbers of blocks and inodes\<close>

lemma slot_bound: "g < m \<Longrightarrow> i < n \<Longrightarrow> g * n + i < m * n" for g m i n :: nat
  by (metis add.commute add_less_mono1 less_le_trans mult_Suc mult_le_mono1 Suc_leI)

lemma of_nat_u32: "n < 2 ^ 32 \<Longrightarrow> unat (of_nat n :: u32) = n"
  by (simp add: unat_of_nat take_bit_nat_eq_self)

lemma block_no_unat:
  assumes "layout_ok s" "(g, i) \<in> slots Blocks s"
  shows "unat (block_no s (g, i)) = unat (first_data_block s) + (g * unat (blocks_per_group s) + i)"
proof -
  let ?n = "unat (blocks_per_group s)"
  have gi: "g < ngroups s" "i < ?n" using assms(2) by (simp_all add: slots_def nbits.simps)
  have b: "unat (first_data_block s) + (g * ?n + i) < 2 ^ 32"
    using layout_okD(6) [OF assms(1)] slot_bound [OF gi] by linarith
  have "block_no s (g, i) = of_nat (unat (first_data_block s) + (g * ?n + i))"
    by (simp add: block_no_def)
  then show ?thesis using of_nat_u32 [OF b] by simp
qed

lemma inode_no_unat:
  assumes "layout_ok s" "(g, i) \<in> slots Inodes s"
  shows "unat (inode_no s (g, i)) = g * unat (inodes_per_group s) + i + 1"
proof -
  let ?n = "unat (inodes_per_group s)"
  have gi: "g < ngroups s" "i < ?n" using assms(2) by (simp_all add: slots_def nbits.simps)
  have b: "g * ?n + i + 1 < 2 ^ 32"
    using layout_okD(7) [OF assms(1)] slot_bound [OF gi] by linarith
  have "inode_no s (g, i) = of_nat (g * ?n + i + 1)"
    by (simp add: inode_no_def)
  then show ?thesis using of_nat_u32 [OF b] by simp
qed

lemma block_no_inj:
  assumes "layout_ok s" "x \<in> slots Blocks s" "y \<in> slots Blocks s" "block_no s x = block_no s y"
  shows "x = y"
proof -
  obtain g i h j where xy: "x = (g, i)" "y = (h, j)" by (meson surj_pair)
  let ?n = "unat (blocks_per_group s)"
  have b: "i < ?n" "j < ?n" using assms(2,3) xy by (simp_all add: slots_def nbits.simps)
  have "g * ?n + i = h * ?n + j"
    using block_no_unat [OF assms(1), of g i] block_no_unat [OF assms(1), of h j] assms(2-4) xy by simp
  then have "(g * ?n + i) div ?n = (h * ?n + j) div ?n" "(g * ?n + i) mod ?n = (h * ?n + j) mod ?n" by simp_all
  then show ?thesis using b xy by simp
qed

lemma inode_no_inj:
  assumes "layout_ok s" "x \<in> slots Inodes s" "y \<in> slots Inodes s" "inode_no s x = inode_no s y"
  shows "x = y"
proof -
  obtain g i h j where xy: "x = (g, i)" "y = (h, j)" by (meson surj_pair)
  let ?n = "unat (inodes_per_group s)"
  have b: "i < ?n" "j < ?n" using assms(2,3) xy by (simp_all add: slots_def nbits.simps)
  have "g * ?n + i = h * ?n + j"
    using inode_no_unat [OF assms(1), of g i] inode_no_unat [OF assms(1), of h j] assms(2-4) xy by simp
  then have "(g * ?n + i) div ?n = (h * ?n + j) div ?n" "(g * ?n + i) mod ?n = (h * ?n + j) mod ?n" by simp_all
  then show ?thesis using b xy by simp
qed

lemma e2_free_block_eq:
  assumes "layout_ok s" "x \<in> slots Blocks s"
  shows "e2_free_block (block_no s x) s = drop_slot Blocks x s"
proof -
  obtain g i where x: "x = (g, i)" by force
  let ?n = "unat (blocks_per_group s)"
  have gi: "(g, i) \<in> slots Blocks s" "g < ngroups s" "i < ?n" using assms(2) x by (simp_all add: slots_def nbits.simps)
  note u = block_no_unat [OF assms(1) gi(1)]
  then have le: "first_data_block s \<le> block_no s (g, i)" by (simp add: word_le_nat_alt)
  have a: "unat (block_no s (g, i) - first_data_block s) = g * ?n + i" using unat_diff_le [OF le] u by simp
  have d: "unat ((block_no s (g, i) - first_data_block s) div blocks_per_group s) = g"
    "unat ((block_no s (g, i) - first_data_block s) mod blocks_per_group s) = i"
    unfolding unat_div_distrib unat_mod_distrib a using gi(3) by simp_all
  with le gi(2) release_bit_eq [OF assms(1) gi(2)] show ?thesis
    by (simp add: e2_free_block_def Let_def x word_le_nat_alt word_less_nat_alt not_less)
qed

lemma ino_minus_one:
  assumes "layout_ok s" "(g, i) \<in> slots Inodes s"
  shows "inode_no s (g, i) \<noteq> 0" "unat (ino_group s (inode_no s (g, i))) = g"
    "unat ((inode_no s (g, i) - 1) mod inodes_per_group s) = i"
proof -
  let ?n = "unat (inodes_per_group s)"
  have i: "i < ?n" using assms(2) by (simp add: slots_def nbits.simps)
  note u = inode_no_unat [OF assms]
  then show nz: "inode_no s (g, i) \<noteq> 0" by auto
  have a: "unat (inode_no s (g, i) - 1) = g * ?n + i" using unat_minus_one [OF nz] u by simp
  show "unat (ino_group s (inode_no s (g, i))) = g" "unat ((inode_no s (g, i) - 1) mod inodes_per_group s) = i"
    unfolding ino_group_def unat_div_distrib unat_mod_distrib a using i by simp_all
qed

lemma e2_free_inode_eq:
  assumes "layout_ok s" "x \<in> slots Inodes s"
  shows "e2_free_inode (inode_no s x) s = drop_slot Inodes x s"
proof -
  obtain g i where x: "x = (g, i)" by force
  have gi: "(g, i) \<in> slots Inodes s" "g < ngroups s" using assms(2) x by (simp_all add: slots_def)
  show ?thesis
    using ino_minus_one [OF assms(1) gi(1)] gi(2) release_bit_eq [OF assms(1) gi(2)]
    by (simp add: e2_free_inode_def x word_le_nat_alt not_le)
qed

section \<open>The abstract allocator\<close>

text \<open>
  What an allocator over a fixed order of slots promises: it takes the first slot that is not in
  the set of taken ones, and fails when there is none.
\<close>

definition abs_alloc :: "'a list \<Rightarrow> 'a set \<Rightarrow> 'a option \<times> 'a set" where
  "abs_alloc order U = (case find (\<lambda>x. x \<notin> U) order of None \<Rightarrow> (None, U) | Some x \<Rightarrow> (Some x, insert x U))"

definition all_slots :: "bm_kind \<Rightarrow> ext2 \<Rightarrow> (nat \<times> nat) list" where
  "all_slots k s = slot_order k s [0..<ngroups s]"

lemma set_all_slots: "set (all_slots k s) = slots k s"
  by (auto simp: all_slots_def slot_order_def slots_def)

lemma alloc_scan_all:
  assumes "vol_ok s"
  shows "alloc_scan k [0..<ngroups s] s =
    (case find (\<lambda>x. x \<notin> used k s) (all_slots k s) of None \<Rightarrow> (None, s) | Some x \<Rightarrow> (Some x, take_slot k x s))"
  using alloc_scan_eq [of s "[0..<ngroups s]" k] assms by (simp add: vol_ok_def all_slots_def)

lemma find_free:
  assumes "find (\<lambda>x. x \<notin> used k s) (all_slots k s) = Some x"
  shows "x \<in> slots k s" "x \<notin> used k s"
  using assms by (auto simp: find_Some_iff simp flip: set_all_slots)

lemma e2_alloc_block_cases:
  assumes "vol_ok s"
  obtains (none) "e2_alloc_block s = (0, s)" "slots Blocks s \<subseteq> used Blocks s"
  | (some) x where "e2_alloc_block s = (block_no s x, take_slot Blocks x s)" "x \<in> slots Blocks s" "x \<notin> used Blocks s"
    "find (\<lambda>x. x \<notin> used Blocks s) (all_slots Blocks s) = Some x"
  using that find_free [of Blocks s]
  by (cases "find (\<lambda>x. x \<notin> used Blocks s) (all_slots Blocks s)")
     (auto simp: e2_alloc_block_def alloc_scan_all [OF assms] find_None_iff set_all_slots subset_iff)

lemma e2_alloc_inode_cases:
  assumes "vol_ok s"
  obtains (none) "e2_alloc_inode s = (0, s)" "slots Inodes s \<subseteq> used Inodes s"
  | (some) x where "e2_alloc_inode s = (inode_no s x, take_slot Inodes x s)" "x \<in> slots Inodes s" "x \<notin> used Inodes s"
  using that find_free [of Inodes s]
  by (cases "find (\<lambda>x. x \<notin> used Inodes s) (all_slots Inodes s)")
     (auto simp: e2_alloc_inode_def alloc_scan_all [OF assms] find_None_iff set_all_slots subset_iff)

lemma fresh_not_reserved:
  assumes "vol_ok s" "x \<in> slots Blocks s" "x \<notin> used Blocks s"
  shows "block_no s x \<notin> reserved s"
  using assms by (auto simp: vol_ok_def reserved_used_def reserved_def)

section \<open>Blocks and inodes as allocators\<close>

definition free_blocks :: "ext2 \<Rightarrow> u32 set" where
  "free_blocks s = block_no s ` (slots Blocks s - used Blocks s)"

definition data_block :: "ext2 \<Rightarrow> u32 \<Rightarrow> bool" where
  "data_block s b \<longleftrightarrow> b \<in> block_no s ` slots Blocks s \<and> b \<notin> reserved s"

definition free_inodes :: "ext2 \<Rightarrow> u32 set" where
  "free_inodes s = inode_no s ` (slots Inodes s - used Inodes s)"

definition has_inode :: "ext2 \<Rightarrow> u32 \<Rightarrow> bool" where
  "has_inode s ino \<longleftrightarrow> ino \<in> inode_no s ` slots Inodes s"

lemma same_layout_data_block:
  assumes "same_layout s s'" "layout_ok s"
  shows "data_block s' = data_block s" "has_inode s' = has_inode s" "reserved s' = reserved s"
  unfolding data_block_def [abs_def] has_inode_def [abs_def] reserved_def same_layout_fields [OF assms(1)]
    same_layout_areas [OF assms(1) layout_okD(3) [OF assms(2)]] by (rule refl)+

lemma image_minus_point:
  assumes "inj_on f A" "x \<in> A" "x \<notin> B" "B \<subseteq> A"
  shows "f ` (A - insert x B) = f ` (A - B) - {f x}"
  using assms by (auto simp: inj_on_def)

lemma minus_minus_point: "x \<in> A \<Longrightarrow> A - (B - {x}) = insert x (A - B)"
  by auto

lemma block_no_inj_on: "layout_ok s \<Longrightarrow> inj_on (block_no s) (slots Blocks s)"
  by (auto intro!: inj_onI dest: block_no_inj)

lemma inode_no_inj_on: "layout_ok s \<Longrightarrow> inj_on (inode_no s) (slots Inodes s)"
  by (auto intro!: inj_onI dest: inode_no_inj)

lemma used_slots: "used k s \<subseteq> slots k s"
  by (auto simp: used_def)

lemma take_block_spec:
  assumes "vol_ok s" "x \<in> slots Blocks s" "x \<notin> used Blocks s"
  shows "free_blocks (take_slot Blocks x s) = free_blocks s - {block_no s x}"
    "free_inodes (take_slot Blocks x s) = free_inodes s"
proof -
  have l: "layout_ok s" using assms(1) by (simp add: vol_ok_def)
  note t = take_slot_spec [OF assms] and f = same_layout_fields [OF take_slot_spec(1) [OF assms]]
  show "free_blocks (take_slot Blocks x s) = free_blocks s - {block_no s x}"
    using image_minus_point [OF block_no_inj_on [OF l] assms(2,3) used_slots] by (simp add: free_blocks_def f t(3))
  show "free_inodes (take_slot Blocks x s) = free_inodes s"
    by (simp add: free_inodes_def f t(3))
qed

lemma take_inode_spec:
  assumes "vol_ok s" "x \<in> slots Inodes s" "x \<notin> used Inodes s"
  shows "free_inodes (take_slot Inodes x s) = free_inodes s - {inode_no s x}"
    "free_blocks (take_slot Inodes x s) = free_blocks s"
proof -
  have l: "layout_ok s" using assms(1) by (simp add: vol_ok_def)
  note t = take_slot_spec [OF assms] and f = same_layout_fields [OF take_slot_spec(1) [OF assms]]
  show "free_inodes (take_slot Inodes x s) = free_inodes s - {inode_no s x}"
    using image_minus_point [OF inode_no_inj_on [OF l] assms(2,3) used_slots] by (simp add: free_inodes_def f t(3))
  show "free_blocks (take_slot Inodes x s) = free_blocks s"
    by (simp add: free_blocks_def f t(3))
qed

lemma e2_alloc_block_spec:
  assumes "vol_ok s" "e2_alloc_block s = (b, s')" "b \<noteq> 0"
  shows "b \<in> free_blocks s" "free_blocks s' = free_blocks s - {b}" "free_inodes s' = free_inodes s" "data_block s b"
    "vol_ok s'" "same_layout s s'" "c \<notin> alloc_area s \<Longrightarrow> blk_bytes s' c = blk_bytes s c"
proof -
  obtain x where x: "x \<in> slots Blocks s" "x \<notin> used Blocks s" and e: "b = block_no s x" "s' = take_slot Blocks x s"
    using assms(1) by (cases rule: e2_alloc_block_cases) (use assms in auto)
  note t = take_slot_spec [OF assms(1) x] take_block_spec [OF assms(1) x] fresh_not_reserved [OF assms(1) x]
  show "b \<in> free_blocks s" "free_blocks s' = free_blocks s - {b}" "free_inodes s' = free_inodes s" "data_block s b"
    "vol_ok s'" "same_layout s s'" using t x by (simp_all add: e free_blocks_def data_block_def)
  show "c \<notin> alloc_area s \<Longrightarrow> blk_bytes s' c = blk_bytes s c" using t(4) by (simp add: e)
qed

lemma e2_alloc_inode_spec:
  assumes "vol_ok s" "e2_alloc_inode s = (ino, s')" "ino \<noteq> 0"
  shows "ino \<in> free_inodes s" "free_inodes s' = free_inodes s - {ino}" "free_blocks s' = free_blocks s" "has_inode s ino"
    "vol_ok s'" "same_layout s s'" "c \<notin> alloc_area s \<Longrightarrow> blk_bytes s' c = blk_bytes s c"
proof -
  obtain x where x: "x \<in> slots Inodes s" "x \<notin> used Inodes s" and e: "ino = inode_no s x" "s' = take_slot Inodes x s"
    using assms(1) by (cases rule: e2_alloc_inode_cases) (use assms in auto)
  note t = take_slot_spec [OF assms(1) x] take_inode_spec [OF assms(1) x]
  show "ino \<in> free_inodes s" "free_inodes s' = free_inodes s - {ino}" "free_blocks s' = free_blocks s" "has_inode s ino"
    "vol_ok s'" "same_layout s s'" using t x by (simp_all add: e free_inodes_def has_inode_def)
  show "c \<notin> alloc_area s \<Longrightarrow> blk_bytes s' c = blk_bytes s c" using t(4) by (simp add: e)
qed

lemma e2_free_block_spec:
  assumes "vol_ok s" "data_block s b" "b \<notin> free_blocks s"
  shows "vol_ok (e2_free_block b s)" "free_blocks (e2_free_block b s) = insert b (free_blocks s)"
    "free_inodes (e2_free_block b s) = free_inodes s" "same_layout s (e2_free_block b s)"
    "c \<notin> alloc_area s \<Longrightarrow> blk_bytes (e2_free_block b s) c = blk_bytes s c"
proof -
  have l: "layout_ok s" using assms(1) by (simp add: vol_ok_def)
  obtain x where x: "x \<in> slots Blocks s" "b = block_no s x" "b \<notin> reserved s" using assms(2) by (auto simp: data_block_def)
  have u: "x \<in> used Blocks s" using assms(3) x(1,2) by (auto simp: free_blocks_def)
  have e: "e2_free_block b s = drop_slot Blocks x s" using e2_free_block_eq [OF l x(1)] x(2) by simp
  note t = drop_slot_spec [OF assms(1) u] and f = same_layout_fields [OF drop_slot_spec(1) [OF assms(1) u]]
  have r: "block_no s x \<notin> reserved s" using x by simp
  show "vol_ok (e2_free_block b s)" "same_layout s (e2_free_block b s)"
    "c \<notin> alloc_area s \<Longrightarrow> blk_bytes (e2_free_block b s) c = blk_bytes s c"
    using t [OF r] by (simp_all add: e)
  show "free_blocks (e2_free_block b s) = insert b (free_blocks s)"
    unfolding free_blocks_def f(12,14) [OF r, folded e] t(3) [OF r, folded e]
    by (simp add: minus_minus_point [OF x(1)] flip: x(2))
  show "free_inodes (e2_free_block b s) = free_inodes s"
    by (simp add: free_inodes_def f(13,14) [OF r, folded e] t(3) [OF r, folded e])
qed

lemma e2_free_inode_spec:
  assumes "vol_ok s" "has_inode s ino" "ino \<notin> free_inodes s"
  shows "vol_ok (e2_free_inode ino s)" "free_inodes (e2_free_inode ino s) = insert ino (free_inodes s)"
    "free_blocks (e2_free_inode ino s) = free_blocks s" "same_layout s (e2_free_inode ino s)"
    "c \<notin> alloc_area s \<Longrightarrow> blk_bytes (e2_free_inode ino s) c = blk_bytes s c"
proof -
  have l: "layout_ok s" using assms(1) by (simp add: vol_ok_def)
  obtain x where x: "x \<in> slots Inodes s" "ino = inode_no s x" using assms(2) by (auto simp: has_inode_def)
  have u: "x \<in> used Inodes s" using assms(3) x by (auto simp: free_inodes_def)
  have e: "e2_free_inode ino s = drop_slot Inodes x s" using e2_free_inode_eq [OF l x(1)] x(2) by simp
  note t = drop_slot_spec [OF assms(1) u, simplified] and f = same_layout_fields [OF drop_slot_spec(1) [OF assms(1) u, simplified]]
  show "vol_ok (e2_free_inode ino s)" "same_layout s (e2_free_inode ino s)"
    "c \<notin> alloc_area s \<Longrightarrow> blk_bytes (e2_free_inode ino s) c = blk_bytes s c"
    using t by (simp_all add: e)
  show "free_inodes (e2_free_inode ino s) = insert ino (free_inodes s)"
    unfolding free_inodes_def f(13,14) [folded e] t(3) [folded e]
    by (simp add: minus_minus_point [OF x(1)] flip: x(2))
  show "free_blocks (e2_free_inode ino s) = free_blocks s"
    by (simp add: free_blocks_def f(12,14) [folded e] t(3) [folded e])
qed

lemma zero_not_free: "vol_ok s \<Longrightarrow> 0 \<notin> free_blocks s" "vol_ok s \<Longrightarrow> 0 \<notin> free_inodes s"
  using fresh_not_reserved [of s] ino_minus_one(1) [of s]
  by (auto simp: free_blocks_def free_inodes_def reserved_def vol_ok_def)

interpretation blocks: allocator e2_alloc_block e2_free_block vol_ok free_blocks data_block
proof unfold_locales
  fix s p s'
  assume v: "vol_ok s" and a: "e2_alloc_block s = (p, s')"
  show "vol_ok s'" using v
    by (cases rule: e2_alloc_block_cases) (use v a take_slot_spec(2) in auto)
  assume p: "p \<noteq> 0"
  note t = e2_alloc_block_spec [OF v a p]
  show "p \<in> free_blocks s \<and> free_blocks s' = free_blocks s - {p} \<and> data_block s' p"
    using t same_layout_data_block(1) [OF t(6)] v by (simp add: vol_ok_def)
next
  fix s s'
  assume v: "vol_ok s" and a: "e2_alloc_block s = (0, s')"
  show "s' = s \<and> free_blocks s = {}" using v
  proof (cases rule: e2_alloc_block_cases)
    case none
    then show ?thesis using a by (auto simp: free_blocks_def)
  next
    case (some x)
    then show ?thesis using a fresh_not_reserved [OF v some(2,3)] by (auto simp: reserved_def)
  qed
qed (simp_all add: e2_free_block_spec zero_not_free)

interpretation inodes: allocator e2_alloc_inode e2_free_inode vol_ok free_inodes has_inode
proof unfold_locales
  fix s p s'
  assume v: "vol_ok s" and a: "e2_alloc_inode s = (p, s')"
  show "vol_ok s'" using v
    by (cases rule: e2_alloc_inode_cases) (use v a take_slot_spec(2) in auto)
  assume p: "p \<noteq> 0"
  note t = e2_alloc_inode_spec [OF v a p]
  show "p \<in> free_inodes s \<and> free_inodes s' = free_inodes s - {p} \<and> has_inode s' p"
    using t same_layout_data_block(2) [OF t(6)] v by (simp add: vol_ok_def)
next
  fix s s'
  assume v: "vol_ok s" and a: "e2_alloc_inode s = (0, s')"
  show "s' = s \<and> free_inodes s = {}" using v
  proof (cases rule: e2_alloc_inode_cases)
    case none
    then show ?thesis using a by (auto simp: free_inodes_def)
  next
    case (some x)
    then show ?thesis using a ino_minus_one(1) [of s "fst x" "snd x"] v by (auto simp: vol_ok_def)
  qed
qed (simp_all add: e2_free_inode_spec zero_not_free)

end
