(* ===== verification/Ext2_File.thy ===== *)
theory Ext2_File
  imports Ext2_Alloc
begin

text \<open>
  Inodes and file contents of the ext2 driver: the place of an inode in its table, the effect of
  storing it, and the write loops, whose blocks represent exactly the data (\<open>file_rep\<close>), so that
  the read loops return it.
\<close>

section \<open>Inodes on the disk\<close>

definition inode_wf :: "ext2_inode \<Rightarrow> bool" where
  "inode_wf i \<longleftrightarrow> length (i_block i) = 15 \<and> length (i_osd2 i) = 12"

lemma length_st32s [simp]: "length (concat (map st32 xs)) = 4 * length xs"
  by (induction xs) simp_all

lemma length_put_inode: "inode_wf i \<Longrightarrow> length (put_inode i) = 128"
  by (simp add: put_inode_def inode_wf_def)

lemma upt_15: "[0..<15] = [0, 1, 2, 3, 4, 5, 6, 7, 8, 9, 10, 11, 12, 13, 14::nat]"
  by (simp add: upt_rec)

lemma get_put_inode:
  assumes "inode_wf i"
  shows "get_inode (put_inode i) 0 = i"
proof -
  from assms obtain b0 b1 b2 b3 b4 b5 b6 b7 b8 b9 b10 b11 b12 b13 b14
    where b: "i_block i = [b0, b1, b2, b3, b4, b5, b6, b7, b8, b9, b10, b11, b12, b13, b14]"
    unfolding inode_wf_def by (auto simp: numeral_eq_Suc length_Suc_conv)
  show ?thesis
    using assms by (simp add: get_inode_def put_inode_def b st16_def st32_def rd16_def rd32_def ld32_st32 ld16_st16 upt_15 inode_wf_def)
qed

lemma get_inode_local:
  assumes "o' + 128 \<le> length b"
  shows "get_inode b o' = get_inode (take 128 (drop o' b)) 0"
  using assms by (simp add: get_inode_def rd16_def rd32_def upt_15 take_drop add.commute)

lemma take_drop_splice:
  assumes "o' + length src \<le> length b"
  shows "take (length src) (drop o' (splice b o' src)) = src"
  using assms by (simp add: splice_def)

lemma take_drop_splice_other:
  assumes "o' + length src \<le> length b" "p + n \<le> o' \<or> o' + length src \<le> p" "p + n \<le> length b"
  shows "take n (drop p (splice b o' src)) = take n (drop p b)"
  by (rule nth_equalityI) (use assms in \<open>auto simp: nth_splice\<close>)

lemma get_inode_splice:
  assumes "inode_wf i" "o' + 128 \<le> length b"
  shows "get_inode (splice b o' (put_inode i)) o' = i"
proof -
  note l = length_put_inode [OF assms(1)]
  have "o' + 128 \<le> length (splice b o' (put_inode i))" using assms(2) l by simp
  then show ?thesis
    using get_inode_local [of o' "splice b o' (put_inode i)"] take_drop_splice [of o' "put_inode i" b] get_put_inode [OF assms(1)]
      assms(2) l by simp
qed

lemma get_inode_splice_other:
  assumes "inode_wf i" "o' + 128 \<le> length b" "p + 128 \<le> o' \<or> o' + 128 \<le> p" "p + 128 \<le> length b"
  shows "get_inode (splice b o' (put_inode i)) p = get_inode b p"
proof -
  note l = length_put_inode [OF assms(1)]
  have "p + 128 \<le> length (splice b o' (put_inode i))" using assms(2,4) l by simp
  then show ?thesis
    using get_inode_local [of p "splice b o' (put_inode i)"] get_inode_local [OF assms(4)]
      take_drop_splice_other [of o' "put_inode i" b p 128] assms l by simp
qed

lemma get_inode_wf: "o' + 128 \<le> length b \<Longrightarrow> inode_wf (get_inode b o')"
  by (simp add: inode_wf_def get_inode_def)

text \<open>The place of an inode, in natural numbers.\<close>

definition ino_byte :: "ext2 \<Rightarrow> nat \<times> nat \<Rightarrow> nat" where
  "ino_byte s x = snd x * unat (inode_size s)"

lemma ino_byte_bounds:
  assumes "layout_ok s" "x \<in> slots Inodes s"
  shows "ino_byte s x < 2 ^ 32" "ino_byte s x mod bsz s + 128 \<le> bsz s" "ino_byte s x div bsz s < itab_len s"
proof -
  let ?z = "unat (inode_size s)" and ?n = "unat (inodes_per_group s)"
  have i: "snd x < ?n" using assms(2) by (auto simp: slots_def nbits.simps)
  have n: "?n \<le> 8 * bsz s" using layout_okD(5) [OF assms(1), of Inodes] by (simp add: nbits.simps)
  note d = device_ok_bsz [OF layout_okD(2) [OF assms(1)]]
  obtain c where c: "bsz s = ?z * c" using layout_okD(9) [OF assms(1)] by (auto simp: dvd_def)
  have "0 < c" using c d by (cases c) auto
  have z: "?z \<le> bsz s" using c \<open>0 < c\<close> by simp
  have "ino_byte s x \<le> (8 * bsz s) * bsz s" unfolding ino_byte_def using i n z by (intro mult_le_mono) simp_all
  then show "ino_byte s x < 2 ^ 32" using d by auto
  have m: "ino_byte s x mod bsz s = ?z * (snd x mod c)" unfolding ino_byte_def c by (simp add: mult.commute)
  have "snd x mod c + 1 \<le> c" using \<open>0 < c\<close> by (simp add: Suc_le_eq)
  then have "?z * (snd x mod c + 1) \<le> ?z * c" by (rule mult_le_mono2)
  then show "ino_byte s x mod bsz s + 128 \<le> bsz s" using m c layout_okD(8) [OF assms(1)] by simp
  have "ino_byte s x + ?z \<le> ?n * ?z" unfolding ino_byte_def using i mult_le_mono1 [of "snd x + 1" ?n ?z] by simp
  then have "ino_byte s x < ?n * ?z" using layout_okD(8) [OF assms(1)] by simp
  moreover have "?n * ?z \<le> itab_len s * bsz s"
  proof -
    have "(?n * ?z + bsz s - 1) mod bsz s < bsz s" using d by auto
    moreover have "itab_len s * bsz s + (?n * ?z + bsz s - 1) mod bsz s = ?n * ?z + bsz s - 1"
      unfolding itab_len_def by (rule div_mult_mod_eq)
    moreover have "0 < bsz s" using d by auto
    ultimately show ?thesis by linarith
  qed
  ultimately have "ino_byte s x < itab_len s * bsz s" by linarith
  then show "ino_byte s x div bsz s < itab_len s" by (simp add: less_mult_imp_div_less)
qed

lemma ino_place_eq:
  assumes "layout_ok s" "x \<in> slots Inodes s"
  shows "ino_place s (inode_no s x) = (itab_blk s (fst x) (ino_byte s x div bsz s), ino_byte s x mod bsz s)"
proof -
  obtain g i where x: "x = (g, i)" by force
  note b = ino_byte_bounds [OF assms] and m = ino_minus_one [OF assms(1) assms(2) [unfolded x]]
  have u: "unat (((inode_no s x - 1) mod inodes_per_group s) * inode_size s) = ino_byte s x"
    using b(1) m(3) by (simp add: unat_word_ariths ino_byte_def x)
  have "ino_byte s x div bsz s < 2 ^ 32" using b(1) by (rule le_less_trans [OF div_le_dividend])
  moreover have "unat ((((inode_no s x - 1) mod inodes_per_group s) * inode_size s) div block_size s) = ino_byte s x div bsz s"
    unfolding unat_div_distrib u ..
  ultimately have d: "(((inode_no s x - 1) mod inodes_per_group s) * inode_size s) div block_size s = of_nat (ino_byte s x div bsz s)"
    using of_nat_u32 by (simp add: word_unat_eq_iff)
  show ?thesis
    unfolding ino_place_def Let_def itab_blk_def d unat_mod_distrib u using m(2) by (simp add: x)
qed

lemma itab_in:
  assumes "layout_ok s" "x \<in> slots Inodes s"
  shows "itab_blk s (fst x) (ino_byte s x div bsz s) \<in> itabs s"
  using ino_byte_bounds(3) [OF assms] assms(2) unfolding itabs_def slots_def
  by (auto intro!: rev_image_eqI [of "(fst x, ino_byte s x div bsz s)"])

text \<open>The inode of a slot, and the volume with another inode there.\<close>

definition inode_at :: "ext2 \<Rightarrow> u32 \<Rightarrow> ext2_inode" where
  "inode_at s ino = (case ino_place s ino of (blk, o') \<Rightarrow> get_inode (blk_bytes s blk) o')"

definition put_inode_at :: "u32 \<Rightarrow> ext2_inode \<Rightarrow> ext2 \<Rightarrow> ext2" where
  "put_inode_at ino i s = (case ino_place s ino of (blk, o') \<Rightarrow> put_blk blk (splice (blk_bytes s blk) o' (put_inode i)) s)"

lemma has_inode_place:
  assumes "layout_ok s" "has_inode s ino"
  shows "ino \<noteq> 0" "\<not> num_groups s \<le> ino_group s ino" "fst (ino_place s ino) \<in> itabs s" "snd (ino_place s ino) + 128 \<le> bsz s"
    "fst (ino_place s ino) \<noteq> 0" "fst (ino_place s ino) \<notin> alloc_area s"
proof -
  obtain g i where x: "(g, i) \<in> slots Inodes s" "ino = inode_no s (g, i)" using assms(2) by (auto simp: has_inode_def)
  note p = ino_place_eq [OF assms(1) x(1)] and m = ino_minus_one [OF assms(1) x(1)]
  have g: "g < ngroups s" using x(1) by (simp add: slots_def)
  show "ino \<noteq> 0" "\<not> num_groups s \<le> ino_group s ino" using m g x(2) by (simp_all add: word_le_nat_alt)
  show t: "fst (ino_place s ino) \<in> itabs s" using itab_in [OF assms(1) x(1)] by (simp add: p x(2))
  show "snd (ino_place s ino) + 128 \<le> bsz s" using ino_byte_bounds(2) [OF assms(1) x(1)] by (simp add: p x(2))
  show "fst (ino_place s ino) \<noteq> 0" "fst (ino_place s ino) \<notin> alloc_area s"
    using t layout_okD(13,15) [OF assms(1)] by auto
qed

lemma e2_read_inode_eq:
  assumes "layout_ok s" "has_inode s ino"
  shows "e2_read_inode ino s = Some (inode_at s ino)"
  using has_inode_place [OF assms] layout_okD(1,2) [OF assms(1)]
  by (cases "ino_place s ino") (simp add: e2_read_inode_def inode_at_def e2_read_block_eq)

lemma e2_write_inode_eq:
  assumes "layout_ok s" "has_inode s ino"
  shows "e2_write_inode ino i s = (True, put_inode_at ino i s)"
  using has_inode_place [OF assms] layout_okD(1,2) [OF assms(1)]
  by (cases "ino_place s ino") (simp add: e2_write_inode_def put_inode_at_def e2_read_block_eq e2_write_block_eq)

lemma same_layout_place:
  assumes "same_layout s s'" "layout_ok s" "has_inode s ino"
  shows "ino_place s' ino = ino_place s ino"
proof -
  note f = same_layout_fields [OF assms(1)]
  have "unat (ino_group s ino) < length (bgdt s)"
    using has_inode_place(2) [OF assms(2,3)] layout_okD(3) [OF assms(2)] by (simp add: word_le_nat_alt)
  then show ?thesis
    using same_layout_nth(2) [OF assms(1), of "unat (ino_group s ino)"] by (simp add: ino_place_def ino_group_def f)
qed

text \<open>Two inodes do not overlap.\<close>

lemma ino_place_apart:
  assumes "layout_ok s" "has_inode s a" "has_inode s b" "a \<noteq> b" "fst (ino_place s a) = fst (ino_place s b)"
  shows "snd (ino_place s a) + 128 \<le> snd (ino_place s b) \<or> snd (ino_place s b) + 128 \<le> snd (ino_place s a)"
proof -
  obtain x y where x: "x \<in> slots Inodes s" "a = inode_no s x" and y: "y \<in> slots Inodes s" "b = inode_no s y"
    using assms(2,3) by (auto simp: has_inode_def)
  let ?z = "unat (inode_size s)" and ?n = "bsz s"
  note px = ino_place_eq [OF assms(1) x(1)] and py = ino_place_eq [OF assms(1) y(1)]
  have "(fst x, ino_byte s x div ?n) = (fst y, ino_byte s y div ?n)"
    using inj_onD [OF layout_okD(12) [OF assms(1)], of "(fst x, ino_byte s x div ?n)" "(fst y, ino_byte s y div ?n)"]
      assms(5) ino_byte_bounds(3) [OF assms(1) x(1)] ino_byte_bounds(3) [OF assms(1) y(1)] x y px py
    by (auto simp: slots_def)
  then have f: "fst x = fst y" and d: "ino_byte s x div ?n = ino_byte s y div ?n" by simp_all
  have "snd x \<noteq> snd y" using assms(4) x(2) y(2) f by (metis prod_eqI)
  then have "snd x + 1 \<le> snd y \<or> snd y + 1 \<le> snd x" by linarith
  then have "ino_byte s x + ?z \<le> ino_byte s y \<or> ino_byte s y + ?z \<le> ino_byte s x"
    unfolding ino_byte_def using mult_le_mono1 [of "snd x + 1" "snd y" ?z] mult_le_mono1 [of "snd y + 1" "snd x" ?z] by auto
  moreover have "ino_byte s x = ino_byte s x div ?n * ?n + ino_byte s x mod ?n" "ino_byte s y = ino_byte s x div ?n * ?n + ino_byte s y mod ?n"
    using div_mult_mod_eq [of "ino_byte s x" ?n] div_mult_mod_eq [of "ino_byte s y" ?n] d by simp_all
  ultimately have "ino_byte s x mod ?n + 128 \<le> ino_byte s y mod ?n \<or> ino_byte s y mod ?n + 128 \<le> ino_byte s x mod ?n"
    using layout_okD(8) [OF assms(1)] by linarith
  then show ?thesis by (simp add: px py x(2) y(2))
qed

lemma put_inode_at_blk:
  assumes "layout_ok s" "has_inode s ino" "inode_wf i"
  shows "blk_bytes (put_inode_at ino i s) b =
    (if b = fst (ino_place s ino) then splice (blk_bytes s b) (snd (ino_place s ino)) (put_inode i) else blk_bytes s b)"
proof -
  note p = has_inode_place [OF assms(1,2)]
  have l: "length (splice (blk_bytes s (fst (ino_place s ino))) (snd (ino_place s ino)) (put_inode i)) = bsz s"
    using p(4) length_put_inode [OF assms(3)] by simp
  show ?thesis
    using blk_bytes_put [OF layout_okD(2) [OF assms(1)] p(5) l] by (simp add: put_inode_at_def case_prod_beta)
qed

lemma inode_at_put:
  assumes "layout_ok s" "has_inode s ino" "inode_wf i" "has_inode s j"
  shows "inode_at (put_inode_at ino i s) j = (if j = ino then i else inode_at s j)"
proof -
  have sl: "same_layout s (put_inode_at ino i s)" by (simp add: put_inode_at_def case_prod_beta)
  note pj = same_layout_place [OF sl assms(1,4)] and p = has_inode_place(4) [OF assms(1,2)] and q = has_inode_place(4) [OF assms(1,4)]
  show ?thesis
    using get_inode_splice [OF assms(3), of "snd (ino_place s ino)" "blk_bytes s (fst (ino_place s ino))"]
      get_inode_splice_other [OF assms(3), of "snd (ino_place s ino)" "blk_bytes s (fst (ino_place s ino))" "snd (ino_place s j)"]
      ino_place_apart [OF assms(1,2,4)] p q
    by (auto simp: inode_at_def pj case_prod_beta put_inode_at_blk [OF assms(1-3)])
qed

section \<open>Updates of a volume\<close>

text \<open>The volume stays well-formed, and blocks outside the allocation area and \<open>W\<close> keep their contents.\<close>

definition upd :: "u32 set \<Rightarrow> ext2 \<Rightarrow> ext2 \<Rightarrow> bool" where
  "upd W s s' \<longleftrightarrow> vol_ok s' \<and> same_layout s s' \<and> (\<forall>b. b \<notin> alloc_area s \<longrightarrow> b \<notin> W \<longrightarrow> blk_bytes s' b = blk_bytes s b)"

lemma updD:
  assumes "upd W s s'"
  shows "vol_ok s'" "same_layout s s'" "b \<notin> alloc_area s \<Longrightarrow> b \<notin> W \<Longrightarrow> blk_bytes s' b = blk_bytes s b"
  using assms by (simp_all add: upd_def)

lemma upd_refl: "vol_ok s \<Longrightarrow> upd W s s"
  by (simp add: upd_def)

lemma upd_mono: "upd W s s' \<Longrightarrow> W \<subseteq> W' \<Longrightarrow> upd W' s s'"
  by (auto simp: upd_def)

lemma vol_ok_layout: "vol_ok s \<Longrightarrow> layout_ok s"
  by (simp add: vol_ok_def)

lemma upd_trans:
  assumes "vol_ok s" "upd W s s'" "upd W s' s''"
  shows "upd W s s''"
proof -
  have "alloc_area s' = alloc_area s"
    using same_layout_areas(2) [OF updD(2) [OF assms(2)] layout_okD(3) [OF vol_ok_layout [OF assms(1)]]] .
  then show ?thesis using assms(2,3) same_layout_trans by (auto simp: upd_def)
qed

lemma put_blk_used:
  assumes "layout_ok s" "b \<noteq> 0" "b \<notin> alloc_area s" "length src = bsz s"
  shows "used k (put_blk b src s) = used k s"
proof -
  have "bitmap_bytes k (put_blk b src s) g = bitmap_bytes k s g" if "g < ngroups s" for g
    using bitmap_in [OF that, of k] assms(3) blk_bytes_put [OF layout_okD(2) [OF assms(1)] assms(2,4)]
    by (auto simp: bitmap_bytes_def alloc_area_def)
  moreover have "slots k (put_blk b src s) = slots k s"
    by (rule same_layout_fields(14)) simp
  ultimately show ?thesis by (auto simp: used_def slots_def)
qed

lemma put_blk_upd:
  assumes "vol_ok s" "b \<noteq> 0" "b \<notin> alloc_area s" "length src = bsz s"
  shows "upd {b} s (put_blk b src s)" "free_blocks (put_blk b src s) = free_blocks s"
    "free_inodes (put_blk b src s) = free_inodes s" "blk_bytes (put_blk b src s) b = src"
proof -
  have l: "layout_ok s" using assms(1) by (rule vol_ok_layout)
  have sl: "same_layout s (put_blk b src s)" by simp
  note f = same_layout_fields [OF sl] and u = put_blk_used [OF l assms(2-4)]
  note ar = same_layout_areas [OF sl layout_okD(3) [OF l]]
  have "counts_ok (put_blk b src s)" using assms(1) by (simp add: vol_ok_def counts_ok_def u f)
  moreover have "reserved_used (put_blk b src s)"
    using assms(1) unfolding vol_ok_def reserved_used_def u f ar by simp
  ultimately have "vol_ok (put_blk b src s)" using same_layout_ok [OF sl l] by (simp add: vol_ok_def)
  then show "upd {b} s (put_blk b src s)"
    using blk_bytes_put [OF layout_okD(2) [OF l] assms(2,4)] by (simp add: upd_def)
  show "free_blocks (put_blk b src s) = free_blocks s" "free_inodes (put_blk b src s) = free_inodes s"
    by (simp_all add: free_blocks_def free_inodes_def u f)
  show "blk_bytes (put_blk b src s) b = src" using blk_bytes_put [OF layout_okD(2) [OF l] assms(2,4)] by simp
qed

lemma data_blockD: "data_block s b \<Longrightarrow> b \<noteq> 0 \<and> b \<notin> alloc_area s \<and> b \<notin> itabs s"
  by (simp add: data_block_def reserved_def)

lemma free_data_block:
  assumes "vol_ok s" "b \<in> free_blocks s"
  shows "data_block s b"
proof -
  obtain x where x: "b = block_no s x" "x \<in> slots Blocks s" "x \<notin> used Blocks s" using assms(2) by (auto simp: free_blocks_def)
  then show ?thesis using fresh_not_reserved [OF assms(1) x(2,3)] by (simp add: data_block_def)
qed

lemma finite_free_blocks [simp]: "finite (free_blocks s)"
  by (simp add: free_blocks_def slots_def)

lemma alloc_then_put:
  assumes "vol_ok s" "e2_alloc_block s = (b, s1)" "b \<noteq> 0" "length src = bsz s"
  shows "e2_write_block b src s1 = (True, put_blk b src s1)" "upd (free_blocks s) s (put_blk b src s1)"
    "free_blocks (put_blk b src s1) = free_blocks s - {b}" "free_inodes (put_blk b src s1) = free_inodes s"
    "blk_bytes (put_blk b src s1) b = src" "b \<in> free_blocks s"
proof -
  note a = e2_alloc_block_spec [OF assms(1-3)]
  have l: "layout_ok s" using assms(1) by (rule vol_ok_layout)
  note f = same_layout_fields [OF a(6)]
  have b: "b \<notin> alloc_area s1" using same_layout_areas(2) [OF a(6) layout_okD(3) [OF l]] data_blockD [OF a(4)] by simp
  have len: "length src = bsz s1" using assms(4) f by simp
  note p = put_blk_upd [OF a(5) assms(3) b len]
  show "e2_write_block b src s1 = (True, put_blk b src s1)"
    using layout_okD(2) [OF l] assms(3) by (simp add: e2_write_block_eq f)
  have "upd (free_blocks s) s s1" using a by (simp add: upd_def)
  moreover have "upd (free_blocks s) s1 (put_blk b src s1)" using p(1) a(1) by (auto intro: upd_mono)
  ultimately show "upd (free_blocks s) s (put_blk b src s1)" by (rule upd_trans [OF assms(1)])
  show "free_blocks (put_blk b src s1) = free_blocks s - {b}" "free_inodes (put_blk b src s1) = free_inodes s"
    "blk_bytes (put_blk b src s1) b = src" "b \<in> free_blocks s"
    using p a by simp_all
qed

section \<open>Writing and reading the data of a file\<close>

text \<open>The number of blocks of \<open>len\<close> bytes.\<close>

definition nblk :: "nat \<Rightarrow> nat \<Rightarrow> nat" where
  "nblk bs len = (len + bs - 1) div bs"

lemma nblk_0 [simp]: "0 < bs \<Longrightarrow> nblk bs 0 = 0"
  by (simp add: nblk_def)

lemma nblk_step:
  assumes "0 < bs" "0 < len"
  shows "nblk bs len = Suc (nblk bs (len - bs))"
proof (cases "bs \<le> len")
  case True
  then have "nblk bs len = (len - bs + bs - 1 + bs) div bs" unfolding nblk_def using assms by simp
  also have "\<dots> = Suc (nblk bs (len - bs))" unfolding nblk_def using assms(1) div_add_self2 [of bs "len - bs + bs - 1"] by (simp only:)
  finally show ?thesis .
next
  case False
  then have "nblk bs len = (len - 1 + bs) div bs" unfolding nblk_def using assms by simp
  also have "\<dots> = Suc ((len - 1) div bs)" using assms(1) div_add_self2 [of bs] by simp
  finally show ?thesis using False assms by simp
qed

lemma nblk_mult: "0 < bs \<Longrightarrow> nblk bs (k * bs) = k"
proof (induction k)
  case (Suc k)
  then show ?case using nblk_step [of bs "Suc k * bs"] by simp
qed simp

lemma min_minus: "min a (b + c) - b = min (a - b) c" for a b c :: nat
  by linarith

text \<open>The contents of a run of blocks.\<close>

definition run_bytes :: "ext2 \<Rightarrow> u32 list \<Rightarrow> bytes" where
  "run_bytes s bs = concat (map (blk_bytes s) bs)"

lemma length_run_bytes [simp]: "length (run_bytes s bs) = length bs * bsz s"
  by (induction bs) (simp_all add: run_bytes_def)

lemma run_bytes_cong: "(\<And>b. b \<in> set bs \<Longrightarrow> blk_bytes s' b = blk_bytes s b) \<Longrightarrow> run_bytes s' bs = run_bytes s bs"
  by (induction bs) (simp_all add: run_bytes_def)

definition holds :: "ext2 \<Rightarrow> u32 list \<Rightarrow> bytes \<Rightarrow> bool" where
  "holds s bs data \<longleftrightarrow> length bs = nblk (bsz s) (length data) \<and> take (length data) (run_bytes s bs) = data"

lemma holds_cong:
  assumes "\<And>b. b \<in> set bs \<Longrightarrow> blk_bytes s' b = blk_bytes s b" "block_size s' = block_size s"
  shows "holds s' bs data = holds s bs data"
  using run_bytes_cong [of bs s' s] assms by (simp add: holds_def)

lemma holds_Cons:
  assumes "0 < bsz s" "rest \<noteq> []" "blk_bytes s b = splice (zero_block s) 0 (take (bsz s) rest)"
    "holds s bs (take (n * bsz s) (drop (bsz s) rest))"
  shows "holds s (b # bs) (take (Suc n * bsz s) rest)"
proof -
  let ?n = "bsz s"
  let ?d = "take (n * ?n) (drop ?n rest)"
  have t: "take (Suc n * ?n) rest = take ?n rest @ ?d" by (simp add: take_add)
  have "length (take (Suc n * ?n) rest) - ?n = length ?d" by (simp add: min_minus)
  then have c: "length (b # bs) = nblk ?n (length (take (Suc n * ?n) rest))"
    using nblk_step [OF assms(1), of "length (take (Suc n * ?n) rest)"] assms by (simp add: holds_def)
  have "take (length (take ?n rest @ ?d)) (blk_bytes s b @ run_bytes s bs) = take ?n rest @ ?d"
  proof (cases "?n \<le> length rest")
    case True
    then have "blk_bytes s b = take ?n rest" using assms(3) by (simp add: splice_def zero_block_def)
    then show ?thesis using assms(4) True by (simp add: holds_def)
  next
    case False
    then have "blk_bytes s b = rest @ replicate (?n - length rest) 0" "?d = []"
      using assms(3) by (simp_all add: splice_def zero_block_def)
    then show ?thesis using False by simp
  qed
  moreover have "run_bytes s (b # bs) = blk_bytes s b @ run_bytes s bs" by (simp add: run_bytes_def)
  ultimately have "take (length (take (Suc n * ?n) rest)) (run_bytes s (b # bs)) = take (Suc n * ?n) rest" by (simp only: t)
  with c show ?thesis unfolding holds_def by (rule conjI)
qed

definition chunks_post :: "nat \<Rightarrow> bytes \<Rightarrow> ext2 \<Rightarrow> (u32 list \<times> bytes) option \<Rightarrow> ext2 \<Rightarrow> bool" where
  "chunks_post n rest s r s' \<longleftrightarrow>
     (case r of
        None \<Rightarrow> card (free_blocks s) < nblk (bsz s) (length (take (n * bsz s) rest)) \<and> free_blocks s' = {}
      | Some (ptrs, left) \<Rightarrow> left = drop (n * bsz s) rest \<and> distinct ptrs \<and> set ptrs \<subseteq> free_blocks s
          \<and> free_blocks s' = free_blocks s - set ptrs \<and> holds s' ptrs (take (n * bsz s) rest))"

lemma write_chunks_spec:
  assumes "vol_ok s" "write_chunks n rest s = (r, s')"
  shows "upd (free_blocks s) s s' \<and> free_inodes s' = free_inodes s \<and> free_blocks s' \<subseteq> free_blocks s \<and> chunks_post n rest s r s'"
  using assms
proof (induction n arbitrary: rest s r)
  case 0
  then show ?case using device_ok_bsz [OF layout_okD(2) [OF vol_ok_layout [OF 0(1)]]]
    by (auto simp: upd_refl chunks_post_def holds_def run_bytes_def)
next
  case (Suc n)
  have bs: "0 < bsz s" using device_ok_bsz [OF layout_okD(2) [OF vol_ok_layout [OF Suc.prems(1)]]] by auto
  show ?case
  proof (cases "rest = []")
    case True
    then show ?thesis using Suc.prems bs by (auto simp: upd_refl chunks_post_def holds_def run_bytes_def)
  next
    case ne: False
    obtain b s1 where a: "e2_alloc_block s = (b, s1)" by force
    show ?thesis
    proof (cases "b = 0")
      case True
      then have "r = None" "s' = s" "free_blocks s = {}"
        using Suc.prems a ne blocks.alloc_empty [OF Suc.prems(1)] by auto
      moreover have "0 < nblk (bsz s) (length (take (Suc n * bsz s) rest))"
        using nblk_step [OF bs, of "length (take (Suc n * bsz s) rest)"] ne bs by simp
      ultimately show ?thesis using Suc.prems(1) by (simp add: upd_refl chunks_post_def)
    next
      case False
      have f1: "block_size s1 = block_size s" using same_layout_fields(2) [OF e2_alloc_block_spec(6) [OF Suc.prems(1) a False]] .
      let ?buf = "splice (zero_block s) 0 (take (bsz s) rest)"
      let ?s2 = "put_blk b ?buf s1"
      have len: "length ?buf = bsz s" by (simp add: zero_block_def)
      note p = alloc_then_put [OF Suc.prems(1) a False len]
      have v2: "vol_ok ?s2" using updD(1) [OF p(2)] .
      have f2: "block_size ?s2 = block_size s" using f1 by simp
      have z: "zero_block s1 = zero_block s" by (simp add: zero_block_def f1)
      obtain r2 where w: "write_chunks n (drop (bsz s) rest) ?s2 = (r2, s')"
        and r: "r = (case r2 of None \<Rightarrow> None | Some (ptrs, left) \<Rightarrow> Some (b # ptrs, left))"
        using Suc.prems(2) a False ne p(1) by (auto simp: f1 z split: prod.splits option.splits)
      note IH = Suc.IH [OF v2 w]
      have u: "upd (free_blocks s) s s'"
        using upd_trans [OF Suc.prems(1) p(2)] upd_mono [of "free_blocks ?s2" ?s2 s' "free_blocks s"] IH p(3) by auto
      have "b \<notin> alloc_area ?s2" "b \<notin> free_blocks ?s2"
        using data_blockD [OF free_data_block [OF Suc.prems(1) p(6)]] p(3)
          same_layout_areas(2) [OF updD(2) [OF p(2)] layout_okD(3) [OF vol_ok_layout [OF Suc.prems(1)]]] by simp_all
      then have b': "blk_bytes s' b = ?buf" using updD(3) [of "free_blocks ?s2" ?s2 s' b] IH p(5) by simp
      have f3: "block_size s' = block_size s" using same_layout_fields(2) [OF updD(2) [OF u]] .
      have "chunks_post (Suc n) rest s r s'"
      proof (cases r2)
        case None
        have "card (free_blocks ?s2) = card (free_blocks s) - 1" using p(3,6) by simp
        moreover have "card (free_blocks ?s2) < nblk (bsz s) (length (take (n * bsz s) (drop (bsz s) rest)))"
          using IH None f2 by (simp add: chunks_post_def)
        moreover have "nblk (bsz s) (length (take (Suc n * bsz s) rest)) = Suc (nblk (bsz s) (length (take (n * bsz s) (drop (bsz s) rest))))"
          using nblk_step [OF bs, of "length (take (Suc n * bsz s) rest)"] ne bs by (simp add: min_minus)
        ultimately show ?thesis using None r IH by (simp add: chunks_post_def)
      next
        case (Some pl)
        obtain ptrs left' where pl: "pl = (ptrs, left')" by force
        have c: "left' = drop (n * bsz s) (drop (bsz s) rest)" "distinct ptrs" "set ptrs \<subseteq> free_blocks ?s2"
          "free_blocks s' = free_blocks ?s2 - set ptrs" "holds s' ptrs (take (n * bsz s) (drop (bsz s) rest))"
          using IH Some pl f2 by (simp_all add: chunks_post_def)
        have "holds s' (b # ptrs) (take (Suc n * bsz s) rest)"
          using holds_Cons [of s' rest b ptrs n] bs ne b' c(5) f3 by (simp add: zero_block_def)
        then show ?thesis using c p(3,6) Some pl r by (auto simp: chunks_post_def add.commute)
      qed
      then show ?thesis using u IH p(3,4) by auto
    qed
  qed
qed

lemma read_blocks_run:
  assumes "device_ok s" "0 \<notin> set bs" "length out \<le> n"
  shows "read_blocks (bs @ rest) n out s =
    (if n \<le> length out + length bs * bsz s then Some (take n (out @ run_bytes s bs)) else read_blocks rest n (out @ run_bytes s bs) s)"
  using assms(2,3)
proof (induction bs arbitrary: out)
  case Nil
  then show ?case by (cases rest) (auto simp: run_bytes_def)
next
  case (Cons b bs)
  show ?case
  proof (cases "length out < n")
    case False
    then show ?thesis using Cons.prems by simp
  next
    case True
    have b: "e2_read_block b s = Some (blk_bytes s b)" using Cons.prems(1) assms(1) by (simp add: e2_read_block_eq)
    show ?thesis
    proof (cases "length out + bsz s \<le> n")
      case fits: True
      then have "read_blocks ((b # bs) @ rest) n out s = read_blocks (bs @ rest) n (out @ blk_bytes s b) s"
        using True b Cons.prems(1) by simp
      also have "\<dots> = (if n \<le> length (out @ blk_bytes s b) + length bs * bsz s
          then Some (take n ((out @ blk_bytes s b) @ run_bytes s bs)) else read_blocks rest n ((out @ blk_bytes s b) @ run_bytes s bs) s)"
        by (rule Cons.IH) (use Cons.prems(1) fits in simp_all)
      finally show ?thesis by (simp add: run_bytes_def)
    next
      case over: False
      have t: "length (out @ take (n - length out) (blk_bytes s b)) = n" using over True by simp
      have "read_blocks ((b # bs) @ rest) n out s = read_blocks (bs @ rest) n (out @ take (n - length out) (blk_bytes s b)) s"
        using True b over Cons.prems(1) by simp
      also have "\<dots> = Some (out @ take (n - length out) (blk_bytes s b))"
        using t by (cases "bs @ rest") simp_all
      finally show ?thesis using over True by (simp add: run_bytes_def)
    qed
  qed
qed

lemma read_blocks_holds:
  assumes "device_ok s" "0 \<notin> set bs" "holds s bs data" "length out + length data = n"
  shows "read_blocks (bs @ rest) n out s = Some (out @ data)"
proof -
  have b: "0 < bsz s" using device_ok_bsz [OF assms(1)] by auto
  have "length data \<le> nblk (bsz s) (length data) * bsz s"
  proof -
    have "(length data + bsz s - 1) mod bsz s < bsz s" using b by simp
    moreover have "nblk (bsz s) (length data) * bsz s + (length data + bsz s - 1) mod bsz s = length data + bsz s - 1"
      unfolding nblk_def by (rule div_mult_mod_eq)
    ultimately show ?thesis using b by linarith
  qed
  then have "n \<le> length out + length bs * bsz s" using assms(3,4) by (simp add: holds_def)
  moreover have "take n (out @ run_bytes s bs) = out @ data" using assms(3,4) by (auto simp: holds_def)
  ultimately show ?thesis using read_blocks_run [OF assms(1,2), of out n rest] assms(4) by simp
qed

lemma rd32_concat: "k < length xs \<Longrightarrow> rd32 (concat (map st32 xs) @ ys) (4 * k) = xs ! k"
proof (induction xs arbitrary: k)
  case (Cons x xs)
  show ?case
  proof (cases k)
    case 0
    then show ?thesis using rd32_st32 [of "[]" 0 x "concat (map st32 xs) @ ys"] by simp
  next
    case (Suc j)
    have "rd32 (st32 x @ zs) (4 + i) = rd32 zs i" for zs i by (simp add: rd32_def nth_append add.commute)
    then show ?thesis using Cons Suc by simp
  qed
qed simp

lemma ptrs_of_st32:
  assumes "length xs = bsz s div 4"
  shows "ptrs_of (concat (map st32 xs)) s = xs"
  by (rule nth_equalityI) (use assms rd32_concat [of _ xs "[]"] in \<open>simp_all add: ptrs_of_def\<close>)

section \<open>What an inode and its blocks represent\<close>

text \<open>
  An inode represents \<open>data\<close> through the direct blocks \<open>p\<close> and, when the data is longer than
  twelve blocks, through the blocks \<open>q\<close> that the indirect block lists.
\<close>

definition direct_cap :: "ext2 \<Rightarrow> nat" where
  "direct_cap s = 12 * bsz s"

definition ptr_block :: "ext2 \<Rightarrow> u32 list \<Rightarrow> bytes" where
  "ptr_block s q = concat (map st32 (q @ replicate (bsz s div 4 - length q) 0))"

definition file_rep :: "ext2 \<Rightarrow> ext2_inode \<Rightarrow> bytes \<Rightarrow> u32 list \<Rightarrow> u32 list \<Rightarrow> bool" where
  "file_rep s i data p q \<longleftrightarrow>
     length (i_block i) = 15 \<and> length p \<le> 12 \<and> take (length p) (i_block i) = p \<and> holds s p (take (direct_cap s) data)
     \<and> (if length data \<le> direct_cap s then q = []
        else length q \<le> bsz s div 4 \<and> blk_bytes s (i_block i ! 12) = ptr_block s q \<and> holds s q (drop (direct_cap s) data))"

definition file_blks :: "ext2 \<Rightarrow> ext2_inode \<Rightarrow> bytes \<Rightarrow> u32 list \<Rightarrow> u32 list \<Rightarrow> u32 list" where
  "file_blks s i data p q = p @ (if length data \<le> direct_cap s then [] else i_block i ! 12 # q)"

lemma file_rep_cong:
  assumes "file_rep s i data p q" "\<And>b. b \<in> set (file_blks s i data p q) \<Longrightarrow> blk_bytes s' b = blk_bytes s b" "block_size s' = block_size s"
  shows "file_rep s' i data p q" "file_blks s' i data p q = file_blks s i data p q"
proof -
  have d: "direct_cap s' = direct_cap s" using assms(3) by (simp add: direct_cap_def)
  show "file_blks s' i data p q = file_blks s i data p q" by (simp add: file_blks_def d)
  show "file_rep s' i data p q"
    using assms holds_cong [of p s' s] holds_cong [of q s' s]
    by (auto simp: file_rep_def file_blks_def d ptr_block_def)
qed

lemma direct_twelve:
  assumes "device_ok s" "file_rep s i data p q" "\<not> length data \<le> direct_cap s"
  shows "length p = 12"
proof -
  have b: "0 < bsz s" using device_ok_bsz [OF assms(1)] by auto
  have "length (take (direct_cap s) data) = 12 * bsz s" using assms(3) by (simp add: direct_cap_def)
  then have "length p = nblk (bsz s) (12 * bsz s)" using assms(2) by (simp add: file_rep_def holds_def)
  also have "\<dots> = 12" using b by (rule nblk_mult)
  finally show ?thesis .
qed

lemma file_rep_read:
  assumes "device_ok s" "file_rep s i data p q" "0 \<notin> set (file_blks s i data p q)"
  shows "read_inode_data i (length data) s = Some data"
proof (cases "length data \<le> direct_cap s")
  case True
  have e: "take 12 (i_block i) = p @ drop (length p) (take 12 (i_block i))"
    using assms(2) append_take_drop_id [of "length p" "take 12 (i_block i)"] by (simp add: file_rep_def min_absorb1)
  have "0 \<notin> set p" "holds s p data" using assms(2,3) True by (simp_all add: file_rep_def file_blks_def)
  then have "read_blocks (take 12 (i_block i)) (length data) [] s = Some data"
    using read_blocks_holds [OF assms(1), of p data "[]" "length data"] by (subst e) simp
  then show ?thesis by (simp add: read_inode_data_def)
next
  case False
  note t = direct_twelve [OF assms(1,2) False]
  let ?d = "take (direct_cap s) data" and ?e = "drop (direct_cap s) data"
  have p: "0 \<notin> set p" "0 \<notin> set q" "i_block i ! 12 \<noteq> 0" using assms(3) False by (auto simp: file_blks_def)
  have f: "take 12 (i_block i) = p" "holds s p ?d" "holds s q ?e" "length q \<le> bsz s div 4" "blk_bytes s (i_block i ! 12) = ptr_block s q"
    using assms(2) t False by (simp_all add: file_rep_def)
  have "length ?d = length p * bsz s" using False t by (simp add: direct_cap_def)
  then have r: "run_bytes s p = ?d" using f(2) by (simp add: holds_def)
  have one: "read_blocks (take 12 (i_block i)) (length data) [] s = Some ?d"
    using read_blocks_run [OF assms(1) p(1), of "[]" "length data" "[]"] False t r by (simp add: f(1) direct_cap_def)
  have two: "ptrs_of (ptr_block s q) s = q @ replicate (bsz s div 4 - length q) 0"
    unfolding ptr_block_def by (rule ptrs_of_st32) (use f(4) in simp)
  have "read_blocks (q @ replicate (bsz s div 4 - length q) 0) (length data) ?d s = Some (?d @ ?e)"
    by (rule read_blocks_holds [OF assms(1) p(2) f(3)]) (use False in simp)
  then show ?thesis using False p(3) one assms(1) by (simp add: read_inode_data_def e2_read_block_eq f(5) two)
qed

section \<open>The writer represents its data\<close>

lemma length_ptr_block: "device_ok s \<Longrightarrow> length q \<le> bsz s div 4 \<Longrightarrow> length (ptr_block s q) = bsz s"
  unfolding ptr_block_def length_st32s using device_ok_bsz [of s] by auto

definition same_meta :: "ext2_inode \<Rightarrow> ext2_inode \<Rightarrow> bool" where
  "same_meta i i' \<longleftrightarrow> i'\<lparr>i_block := i_block i, i_blocks := i_blocks i\<rparr> = i"

lemma same_meta_trans: "same_meta i j \<Longrightarrow> same_meta j k \<Longrightarrow> same_meta i k"
  by (cases i; cases j; cases k) (simp add: same_meta_def)

definition indirect_post :: "bytes \<Rightarrow> ext2_inode \<Rightarrow> ext2 \<Rightarrow> ext2_inode option \<Rightarrow> ext2 \<Rightarrow> bool" where
  "indirect_post rest i s r s' \<longleftrightarrow>
     (case r of
        None \<Rightarrow> card (free_blocks s) < Suc (nblk (bsz s) (length rest)) \<and> free_blocks s' = {}
      | Some i' \<Rightarrow> (\<exists>ind q. i_block i' = (i_block i)[12 := ind] \<and> same_meta i i'
          \<and> distinct (ind # q) \<and> set (ind # q) \<subseteq> free_blocks s \<and> free_blocks s' = free_blocks s - set (ind # q)
          \<and> length q \<le> bsz s div 4 \<and> blk_bytes s' ind = ptr_block s q \<and> holds s' q rest))"

lemma nblk_le: "0 < bs \<Longrightarrow> len \<le> k * bs \<Longrightarrow> nblk bs len \<le> k"
  using div_le_mono [of "len + bs - 1" "k * bs + bs - 1" bs] nblk_mult [of bs k] by (simp add: nblk_def)

lemma write_indirect_spec:
  assumes "vol_ok s" "write_indirect rest i s = (r, s')" "length rest \<le> bsz s div 4 * bsz s"
  shows "upd (free_blocks s) s s' \<and> free_inodes s' = free_inodes s \<and> indirect_post rest i s r s'"
proof -
  have d: "device_ok s" using assms(1) by (simp add: layout_okD(2) vol_ok_layout)
  have bs: "0 < bsz s" using device_ok_bsz [OF d] by auto
  have n4: "unat (block_size s div 4) = bsz s div 4" by (simp add: unat_div_distrib)
  obtain b s1 where a: "e2_alloc_block s = (b, s1)" by force
  show ?thesis
  proof (cases "b = 0")
    case True
    then have "r = None" "s' = s" "free_blocks s = {}"
      using assms(2) a blocks.alloc_empty [OF assms(1)] by (auto simp: write_indirect_def)
    then show ?thesis using assms(1) by (simp add: upd_refl indirect_post_def)
  next
    case False
    note al = e2_alloc_block_spec [OF assms(1) a False]
    have f1: "block_size s1 = block_size s" using same_layout_fields(2) [OF al(6)] .
    have u1: "upd (free_blocks s) s s1" using al by (simp add: upd_def)
    obtain r2 s2 where w: "write_chunks (bsz s div 4) rest s1 = (r2, s2)" by force
    note wc = write_chunks_spec [OF al(5) w]
    have full: "take (bsz s div 4 * bsz s) rest = rest" using assms(3) by simp
    have u2: "upd (free_blocks s) s s2"
      using upd_trans [OF assms(1) u1] upd_mono [of "free_blocks s1" s1 s2 "free_blocks s"] wc al(2) by auto
    have fi: "free_inodes s2 = free_inodes s" using wc al(3) by simp
    have c1: "card (free_blocks s1) = card (free_blocks s) - 1" using al(1,2) by simp
    have c0: "0 < card (free_blocks s)" using al(1) card_gt_0_iff finite_free_blocks by blast
    show ?thesis
    proof (cases r2)
      case None
      then have "r = None" "s' = s2" using assms(2) a w False n4 by (simp_all add: write_indirect_def)
      moreover have "card (free_blocks s1) < nblk (bsz s) (length rest)" using wc None full f1 by (simp add: chunks_post_def)
      moreover have "free_blocks s2 = {}" using wc None by (simp add: chunks_post_def)
      ultimately show ?thesis using u2 fi c1 c0 by (simp add: indirect_post_def)
    next
      case (Some pl)
      obtain q left' where pl: "pl = (q, left')" by force
      have c: "distinct q" "set q \<subseteq> free_blocks s1" "free_blocks s2 = free_blocks s1 - set q" "holds s2 q rest"
        using wc Some pl full f1 by (simp_all add: chunks_post_def)
      have f2: "block_size s2 = block_size s" using same_layout_fields(2) [OF updD(2) [OF u2]] .
      have ql: "length q \<le> bsz s div 4" using c(4) nblk_le [OF bs assms(3)] f2 by (simp add: holds_def)
      have bq: "b \<notin> set q" "b \<in> free_blocks s" using c(2) al(1,2) by auto
      have ba: "b \<notin> alloc_area s2"
        using data_blockD [OF al(4)] same_layout_areas(2) [OF updD(2) [OF u2] layout_okD(3) [OF vol_ok_layout [OF assms(1)]]] by simp
      have lp: "length (ptr_block s q) = bsz s2" using length_ptr_block [OF d ql] f2 by simp
      note p = put_blk_upd [OF updD(1) [OF u2] False ba lp]
      have d2: "device_ok s2" using layout_okD(2) [OF vol_ok_layout [OF updD(1) [OF u2]]] .
      have i': "r = Some (add_blocks (length q + 1) s' (i\<lparr>i_block := (i_block i)[12 := b]\<rparr>))" and s': "s' = put_blk b (ptr_block s q) s2"
        using assms(2) a w False n4 Some pl e2_write_block_eq [OF d2 False] by (auto simp: write_indirect_def ptr_block_def Let_def)
      have u: "upd (free_blocks s) s s'" unfolding s' by (rule upd_trans [OF assms(1) u2]) (use p(1) bq(2) in \<open>auto intro: upd_mono\<close>)
      have "holds s' q rest"
        using c(4) bq(1) holds_cong [of q s' s2 rest] updD(3) [OF p(1)] data_blockD [OF free_data_block [OF al(5)]] c(2)
          same_layout_areas(2) [OF updD(2) [OF u2] layout_okD(3) [OF vol_ok_layout [OF assms(1)]]]
          same_layout_areas(2) [OF al(6) layout_okD(3) [OF vol_ok_layout [OF assms(1)]]]
        by (auto simp: s')
      then have "indirect_post rest i s r s'"
        using c bq al(2) p(2,4) ql unfolding indirect_post_def i' option.case s'
        by (intro exI [of _ b] exI [of _ q]) (auto simp: add_blocks_def same_meta_def)
      then show ?thesis using u fi p(3) s' by simp
    qed
  qed
qed

definition blocks_for :: "ext2 \<Rightarrow> nat \<Rightarrow> nat" where
  "blocks_for s len = nblk (bsz s) len + (if len \<le> direct_cap s then 0 else 1)"

definition data_post :: "bytes \<Rightarrow> ext2_inode \<Rightarrow> ext2 \<Rightarrow> ext2_inode option \<Rightarrow> ext2 \<Rightarrow> bool" where
  "data_post data i s r s' \<longleftrightarrow>
     (case r of
        None \<Rightarrow> card (free_blocks s) < blocks_for s (length data) \<and> free_blocks s' = {}
      | Some i' \<Rightarrow> (\<exists>p q. file_rep s' i' data p q \<and> same_meta i i' \<and> distinct (file_blks s' i' data p q)
          \<and> drop (length p) (take 12 (i_block i')) = drop (length p) (take 12 (i_block i))
          \<and> (length data \<le> direct_cap s \<longrightarrow> i_block i' ! 12 = i_block i ! 12)
          \<and> set (file_blks s' i' data p q) \<subseteq> free_blocks s \<and> free_blocks s' = free_blocks s - set (file_blks s' i' data p q)))"

lemma max_file_size_unat: "device_ok s \<Longrightarrow> unat (max_file_size s) = direct_cap s + bsz s div 4 * bsz s"
  by (auto simp: device_ok_def max_file_size_def direct_cap_def)

lemma nblk_direct:
  assumes "0 < bs" "n * bs \<le> len"
  shows "nblk bs len = n + nblk bs (len - n * bs)"
  using assms(2)
proof (induction n arbitrary: len)
  case (Suc n)
  then have "nblk bs len = Suc (nblk bs (len - bs))" using assms(1) by (intro nblk_step) simp_all
  moreover have "nblk bs (len - bs) = n + nblk bs (len - bs - n * bs)" using Suc by simp
  ultimately show ?case by (simp add: diff_diff_left)
qed simp

lemma upd_keeps_run:
  assumes "vol_ok s" "upd W s s'" "set p \<inter> W = {}" "set p \<inter> alloc_area s = {}"
  shows "holds s' p data = holds s p data"
  by (rule holds_cong) (use assms updD(3) [OF assms(2)] same_layout_fields(2) [OF updD(2) [OF assms(2)]] in auto)

lemma free_not_alloc: "vol_ok s \<Longrightarrow> free_blocks s \<inter> alloc_area s = {}"
  using free_data_block [of s] data_blockD by blast

lemma write_data_spec:
  assumes v: "vol_ok s" and w: "write_data data i s = (r, s')" and n: "length data \<le> unat (max_file_size s)" and i: "length (i_block i) = 15"
  shows "upd (free_blocks s) s s' \<and> free_inodes s' = free_inodes s \<and> data_post data i s r s'"
proof -
  have d: "device_ok s" using v by (simp add: layout_okD(2) vol_ok_layout)
  have bs: "0 < bsz s" using device_ok_bsz [OF d] by auto
  obtain r1 s1 where c: "write_chunks 12 data s = (r1, s1)" by force
  note wc = write_chunks_spec [OF v c]
  have f1: "block_size s1 = block_size s" using wc same_layout_fields(2) [OF updD(2)] by blast
  show ?thesis
  proof (cases r1)
    case None
    then have "r = None" "s' = s1" using w c by (simp_all add: write_data_def)
    moreover have "nblk (bsz s) (length (take (12 * bsz s) data)) \<le> blocks_for s (length data)"
      by (simp add: blocks_for_def nblk_def div_le_mono trans_le_add1)
    ultimately show ?thesis using wc None by (simp add: data_post_def chunks_post_def)
  next
    case (Some pl)
    obtain p rest where pl: "pl = (p, rest)" by force
    have p: "rest = drop (direct_cap s) data" "distinct p" "set p \<subseteq> free_blocks s" "free_blocks s1 = free_blocks s - set p"
      "holds s1 p (take (direct_cap s) data)"
      using wc Some pl by (simp_all add: chunks_post_def direct_cap_def)
    have dc: "direct_cap s1 = direct_cap s" using f1 by (simp add: direct_cap_def)
    have p12: "length p \<le> 12" using p(5) nblk_le [OF bs, of "length (take (direct_cap s) data)" 12] f1 by (simp add: holds_def direct_cap_def)
    let ?i1 = "add_blocks (length p) s1 (i\<lparr>i_block := p @ drop (length p) (i_block i)\<rparr>)"
    show ?thesis
    proof (cases "length data \<le> direct_cap s")
      case True
      then have e: "r = Some ?i1" "s' = s1" using w c Some pl p(1) by (auto simp: write_data_def)
      have fr: "file_rep s1 ?i1 data p []" "same_meta i ?i1" "file_blks s1 ?i1 data p [] = p"
        "drop (length p) (take 12 (i_block ?i1)) = drop (length p) (take 12 (i_block i))" "i_block ?i1 ! 12 = i_block i ! 12"
        using p p12 i True dc by (simp_all add: file_rep_def file_blks_def add_blocks_def same_meta_def nth_append drop_take)
      have "data_post data i s r s'"
        unfolding data_post_def e option.case
        by (rule exI [where x = p], rule exI [where x = "[]"]) (use fr p(2-4) in simp)
      then show ?thesis using wc e by simp
    next
      case False
      have wi: "write_indirect rest ?i1 s1 = (r, s')" using w c Some pl p(1) False by (simp add: write_data_def)
      have v1: "vol_ok s1" using wc updD(1) by blast
      have rl: "length rest \<le> bsz s1 div 4 * bsz s1" using n False p(1) f1 max_file_size_unat [OF d] by simp
      note wn = write_indirect_spec [OF v1 wi rl]
      have u: "upd (free_blocks s) s s'"
        using upd_trans [OF v, of "free_blocks s" s1 s'] upd_mono [of "free_blocks s1" s1 s' "free_blocks s"] wc wn by auto
      have f3: "block_size s' = block_size s" using same_layout_fields(2) [OF updD(2) [OF u]] .
      have pl12: "length p = 12"
        using p(5) False f1 nblk_mult [OF bs, of 12] by (simp add: holds_def direct_cap_def)
      have nb: "nblk (bsz s) (length data) = 12 + nblk (bsz s) (length rest)"
        using nblk_direct [OF bs, of 12 "length data"] False p(1) by (simp add: direct_cap_def)
      have "data_post data i s r s'"
      proof (cases r)
        case None
        then have "card (free_blocks s1) < Suc (nblk (bsz s) (length rest))" using wn f1 by (simp add: indirect_post_def)
        moreover have "card (free_blocks s1) = card (free_blocks s) - 12"
          unfolding p(4) using card_Diff_subset [OF _ p(3)] distinct_card [OF p(2)] pl12 by simp
        moreover have "free_blocks s' = {}" using wn None by (simp add: indirect_post_def)
        ultimately show ?thesis using None nb False by (simp add: data_post_def blocks_for_def)
      next
        case (Some i')
        obtain ind q where q: "i_block i' = (i_block ?i1)[12 := ind]" "same_meta ?i1 i'" "distinct (ind # q)"
          "set (ind # q) \<subseteq> free_blocks s1" "free_blocks s' = free_blocks s1 - set (ind # q)"
          "length q \<le> bsz s1 div 4" "blk_bytes s' ind = ptr_block s1 q" "holds s' q rest"
          using wn Some by (auto simp: indirect_post_def)
        have "holds s' p (take (direct_cap s) data)"
          using upd_keeps_run [OF v1, of "free_blocks s1" s' p] wn p free_not_alloc [OF v]
            same_layout_areas(2) [OF updD(2) layout_okD(3) [OF vol_ok_layout [OF v]], of "free_blocks s" s1] wc by auto
        moreover have ib: "i_block i' = p @ ind # drop 13 (i_block i)"
          using i pl12 q(1) Cons_nth_drop_Suc [of 12 "i_block i", symmetric] by (simp add: add_blocks_def list_update_append)
        moreover have "same_meta i i'" by (rule same_meta_trans [OF _ q(2)]) (simp add: same_meta_def add_blocks_def)
        moreover have "direct_cap s' = direct_cap s" "ptr_block s1 q = ptr_block s' q"
          using f1 f3 by (simp_all add: direct_cap_def ptr_block_def)
        ultimately have fr: "file_rep s' i' data p q" "same_meta i i'" "file_blks s' i' data p q = p @ ind # q"
          using p q(6-8) i pl12 False f1 f3 by (simp_all add: file_rep_def file_blks_def nth_append)
        show ?thesis
          unfolding data_post_def Some option.case
          by (rule exI [where x = p], rule exI [where x = q]) (use fr p(2-4) q(3-5) pl12 False in auto)
      qed
      then show ?thesis using u wc wn by simp
    qed
  qed
qed

end
