(* ===== verification/Ext2_Tree.thy ===== *)
theory Ext2_Tree
  imports Ext2_File
begin

text \<open>
  The tree of directories of the ext2 driver: \<open>fs_ok\<close> says that files and directories own disjoint
  sets of blocks in use and that directories name inodes in use. Path resolution reads nothing but
  directories, so an update of one file (\<open>replaced\<close>) changes neither the tree nor another file.
\<close>

section \<open>Well-formed file systems\<close>

text \<open>
  The blocks an inode refers to, in the order in which they are given back; the inodes in use; and
  the volume as a file system: every file and directory refers to data blocks in use, each of them
  once and no two to the same, direct pointers have no holes, and a directory names inodes in use.
\<close>

definition ind_ptrs :: "ext2 \<Rightarrow> u32 \<Rightarrow> u32 list" where
  "ind_ptrs s b = takeWhile (\<lambda>b. b \<noteq> 0) (ptrs_of (blk_bytes s b) s)"

definition blks_of :: "ext2 \<Rightarrow> ext2_inode \<Rightarrow> u32 list" where
  "blks_of s i = free_direct i @ (if i_block i ! 12 = 0 then [] else ind_ptrs s (i_block i ! 12) @ [i_block i ! 12])"

definition live :: "ext2 \<Rightarrow> u32 set" where
  "live s = {ino. has_inode s ino \<and> ino \<notin> free_inodes s}"

definition node :: "ext2_inode \<Rightarrow> bool" where
  "node i \<longleftrightarrow> is_dir i \<or> is_file i"

definition no_holes :: "ext2_inode \<Rightarrow> bool" where
  "no_holes i \<longleftrightarrow> (\<forall>b \<in> set (drop (length (free_direct i)) (take 12 (i_block i))). b = 0)"

definition tree :: "ext2 \<Rightarrow> u32 set" where
  "tree s = {j \<in> live s. node (inode_at s j)}"

definition fs_ok :: "ext2 \<Rightarrow> bool" where
  "fs_ok s \<longleftrightarrow>
     vol_ok s \<and> 2 \<in> live s
     \<and> (\<forall>j \<in> tree s. no_holes (inode_at s j) \<and> distinct (blks_of s (inode_at s j))
          \<and> (\<forall>b \<in> set (blks_of s (inode_at s j)). data_block s b \<and> b \<notin> free_blocks s))
     \<and> (\<forall>j \<in> tree s. \<forall>k \<in> tree s. j \<noteq> k \<longrightarrow> set (blks_of s (inode_at s j)) \<inter> set (blks_of s (inode_at s k)) = {})
     \<and> (\<forall>j \<in> live s. is_dir (inode_at s j) \<longrightarrow> (\<forall>name. e2_lookup (inode_at s j) name s \<in> insert 0 (live s)))"

lemma fs_okD:
  assumes "fs_ok s"
  shows "vol_ok s" "layout_ok s" "device_ok s" "2 \<in> live s"
    "j \<in> tree s \<Longrightarrow> no_holes (inode_at s j)" "j \<in> tree s \<Longrightarrow> distinct (blks_of s (inode_at s j))"
    "j \<in> tree s \<Longrightarrow> b \<in> set (blks_of s (inode_at s j)) \<Longrightarrow> data_block s b \<and> b \<notin> free_blocks s"
    "j \<in> tree s \<Longrightarrow> k \<in> tree s \<Longrightarrow> j \<noteq> k \<Longrightarrow> set (blks_of s (inode_at s j)) \<inter> set (blks_of s (inode_at s k)) = {}"
    "j \<in> live s \<Longrightarrow> is_dir (inode_at s j) \<Longrightarrow> e2_lookup (inode_at s j) name s \<in> insert 0 (live s)"
  using assms vol_ok_layout [of s] layout_okD(2) [of s] by (simp_all add: fs_ok_def)

section \<open>Reading depends on the blocks of the inode only\<close>

lemma has_inode_iff:
  assumes "layout_ok s"
  shows "has_inode s ino \<longleftrightarrow> ino \<noteq> 0 \<and> \<not> num_groups s \<le> ino_group s ino"
proof
  assume "has_inode s ino"
  then show "ino \<noteq> 0 \<and> \<not> num_groups s \<le> ino_group s ino" using has_inode_place(1,2) [OF assms] by simp
next
  assume a: "ino \<noteq> 0 \<and> \<not> num_groups s \<le> ino_group s ino"
  let ?n = "unat (inodes_per_group s)"
  let ?x = "(unat (ino_group s ino), unat ((ino - 1) mod inodes_per_group s))"
  have n: "0 < ?n" using layout_okD(4) [OF assms, of Inodes] by (simp add: nbits.simps)
  have x: "?x \<in> slots Inodes s"
    using a n by (simp add: slots_def nbits.simps word_le_nat_alt unat_mod_distrib)
  have "unat (inode_no s ?x) = unat (ino_group s ino) * ?n + unat ((ino - 1) mod inodes_per_group s) + 1"
    by (rule inode_no_unat [OF assms x])
  also have "\<dots> = unat (ino - 1) + 1"
    unfolding ino_group_def unat_div_distrib unat_mod_distrib by simp
  also have "\<dots> = unat ino"
  proof -
    have "unat (ino - 1) = unat ino - 1" using a by (intro unat_minus_one) simp
    moreover have "0 < unat ino" using a by (simp add: unat_gt_0)
    ultimately show ?thesis by simp
  qed
  finally have "inode_no s ?x = ino" by (simp add: word_unat_eq_iff)
  then show "has_inode s ino" using x unfolding has_inode_def by (metis imageI)
qed

lemma e2_read_inode_iff:
  assumes "layout_ok s"
  shows "e2_read_inode ino s = (if has_inode s ino then Some (inode_at s ino) else None)"
  using e2_read_inode_eq [OF assms, of ino] has_inode_iff [OF assms, of ino] by (auto simp: e2_read_inode_def)

lemma lookup_blocks_cong:
  assumes "device_ok s" "device_ok s'" "block_size s' = block_size s"
    "\<And>b. b \<in> set (takeWhile (\<lambda>b. b \<noteq> 0) bs) \<Longrightarrow> blk_bytes s' b = blk_bytes s b"
  shows "lookup_blocks bs name s' = lookup_blocks bs name s"
  using assms(4)
proof (induction bs)
  case (Cons b bs)
  show ?case
  proof (cases "b = 0")
    case False
    then have "blk_bytes s' b = blk_bytes s b" "lookup_blocks bs name s' = lookup_blocks bs name s" using Cons by simp_all
    then show ?thesis using False assms(1-3)
      by (cases "dir_find (blk_bytes s b) (bsz s) name") (simp_all add: e2_read_block_eq)
  qed simp
qed simp

lemma ptrs_of_size: "block_size s' = block_size s \<Longrightarrow> ptrs_of b s' = ptrs_of b s"
  by (simp add: ptrs_of_def)

lemma blks_of_mem:
  "b \<in> set (takeWhile (\<lambda>b. b \<noteq> 0) (take 12 (i_block i))) \<Longrightarrow> b \<in> set (blks_of s i)"
  "i_block i ! 12 \<noteq> 0 \<Longrightarrow> i_block i ! 12 \<in> set (blks_of s i)"
  "i_block i ! 12 \<noteq> 0 \<Longrightarrow> b \<in> set (takeWhile (\<lambda>b. b \<noteq> 0) (ptrs_of (blk_bytes s (i_block i ! 12)) s)) \<Longrightarrow> b \<in> set (blks_of s i)"
  unfolding blks_of_def free_direct_def ind_ptrs_def by simp_all

lemma blks_of_cong:
  assumes "block_size s' = block_size s" "\<And>b. b \<in> set (blks_of s i) \<Longrightarrow> blk_bytes s' b = blk_bytes s b"
  shows "blks_of s' i = blks_of s i"
proof (cases "i_block i ! 12 = 0")
  case False
  from assms(2) [OF blks_of_mem(2) [OF this]] show ?thesis
    unfolding blks_of_def ind_ptrs_def ptrs_of_size [OF assms(1)] by simp
qed (simp add: blks_of_def)

lemma e2_lookup_cong:
  assumes "device_ok s" "device_ok s'" "block_size s' = block_size s"
    "\<And>b. b \<in> set (blks_of s i) \<Longrightarrow> blk_bytes s' b = blk_bytes s b"
  shows "e2_lookup i name s' = e2_lookup i name s"
proof -
  have d: "lookup_blocks (take 12 (i_block i)) name s' = lookup_blocks (take 12 (i_block i)) name s"
    by (rule lookup_blocks_cong [OF assms(1-3)]) (rule assms(4) [OF blks_of_mem(1)])
  show ?thesis
  proof (cases "i_block i ! 12 = 0")
    case True
    then show ?thesis unfolding e2_lookup_def d by simp
  next
    case False
    let ?q = "ptrs_of (blk_bytes s (i_block i ! 12)) s"
    have "lookup_blocks ?q name s' = lookup_blocks ?q name s"
      by (rule lookup_blocks_cong [OF assms(1-3)]) (rule assms(4) [OF blks_of_mem(3) [OF False]])
    moreover have "e2_read_block (i_block i ! 12) s' = e2_read_block (i_block i ! 12) s"
      using assms(4) [OF blks_of_mem(2) [OF False]] by (simp add: e2_read_block_eq assms(1,2) False)
    ultimately show ?thesis
      unfolding e2_lookup_def d using False
      by (cases "lookup_blocks (take 12 (i_block i)) name s")
         (simp_all add: e2_read_block_eq [OF assms(1) False] ptrs_of_size [OF assms(3)])
  qed
qed

text \<open>Two states of a volume that agree on every directory resolve every path alike.\<close>

definition dirs_agree :: "ext2 \<Rightarrow> ext2 \<Rightarrow> bool" where
  "dirs_agree s s' \<longleftrightarrow> same_layout s s' \<and> (\<forall>j \<in> live s.
     (is_dir (inode_at s' j) = is_dir (inode_at s j))
     \<and> (is_dir (inode_at s j) \<longrightarrow> inode_at s' j = inode_at s j \<and> (\<forall>b \<in> set (blks_of s (inode_at s j)). blk_bytes s' b = blk_bytes s b)))"

lemma resolve_loop_cong:
  assumes "fs_ok s" "dirs_agree s s'" "cur \<in> live s"
  shows "resolve_loop path cur s' = resolve_loop path cur s"
  using assms(3)
proof (induction "length path" arbitrary: path cur rule: less_induct)
  case less
  let ?c = "fst (next_comp path)" and ?r = "snd (next_comp path)"
  show ?case
  proof (cases "path = []")
    case True
    then show ?thesis by (simp add: resolve_loop.simps)
  next
    case False
    note sh = next_comp_shorter [OF False]
    have sl: "same_layout s s'" using assms(2) by (simp add: dirs_agree_def)
    note l = fs_okD(2) [OF assms(1)]
    have l': "layout_ok s'" using same_layout_ok [OF sl l] .
    have h: "has_inode s cur" "has_inode s' cur"
      using less(2) same_layout_data_block(2) [OF sl l] by (simp_all add: live_def)
    note r = e2_read_inode_eq [OF l h(1)] and r' = e2_read_inode_eq [OF l' h(2)]
    show ?thesis
    proof (cases "?c = [] \<or> \<not> is_dir (inode_at s cur)")
      case True
      then show ?thesis
        using less(1) [OF sh less(2)] False assms(2) less(2)
        by (subst (1 2) resolve_loop.simps) (auto simp: r r' dirs_agree_def)
    next
      case dir: False
      then have e: "inode_at s' cur = inode_at s cur" and b: "\<And>b. b \<in> set (blks_of s (inode_at s cur)) \<Longrightarrow> blk_bytes s' b = blk_bytes s b"
        using assms(2) less(2) by (simp_all add: dirs_agree_def)
      have lk: "e2_lookup (inode_at s cur) ?c s' = e2_lookup (inode_at s cur) ?c s"
        by (rule e2_lookup_cong [OF layout_okD(2) [OF l] layout_okD(2) [OF l'] same_layout_fields(2) [OF sl] b])
      have "e2_lookup (inode_at s cur) ?c s \<in> insert 0 (live s)"
        using fs_okD(9) [OF assms(1) less(2)] dir by simp
      then show ?thesis
        using less(1) [OF sh] dir False e
        by (subst (1 2) resolve_loop.simps) (auto simp: r r' lk Let_def)
    qed
  qed
qed

lemma e2_resolve_cong:
  assumes "fs_ok s" "dirs_agree s s'"
  shows "e2_resolve path s' = e2_resolve path s"
  using resolve_loop_cong [OF assms fs_okD(4) [OF assms(1)]]
  by (auto simp: e2_resolve_def split: option.splits list.splits)

lemma resolve_loop_live:
  assumes "fs_ok s" "cur \<in> live s"
  shows "resolve_loop path cur s \<in> insert 0 (live s)"
  using assms(2)
proof (induction "length path" arbitrary: path cur rule: less_induct)
  case less
  note sh = next_comp_shorter [of path]
  have h: "has_inode s cur" using less(2) by (simp add: live_def)
  note r = e2_read_inode_eq [OF fs_okD(2) [OF assms(1)] h]
  show ?case
    using less(1) [OF sh] less(2) fs_okD(9) [OF assms(1) less(2), of "fst (next_comp path)"]
    by (subst resolve_loop.simps) (auto simp: r Let_def)
qed

lemma e2_resolve_live:
  assumes "fs_ok s" "e2_resolve path s \<noteq> 0"
  shows "e2_resolve path s \<in> live s"
  using assms resolve_loop_live [OF assms(1) fs_okD(4) [OF assms(1)]]
  by (auto simp: e2_resolve_def split: option.splits list.splits if_splits)

section \<open>Giving back the blocks of a file\<close>

lemma upd_free_block:
  assumes "vol_ok s" "data_block s b" "b \<notin> free_blocks s"
  shows "upd {} s (e2_free_block b s)"
  using e2_free_block_spec [OF assms] by (simp add: upd_def)

lemma fold_free_spec:
  assumes "vol_ok s" "distinct bs" "\<forall>b \<in> set bs. data_block s b \<and> b \<notin> free_blocks s"
  shows "upd {} s (fold e2_free_block bs s)" "free_blocks (fold e2_free_block bs s) = free_blocks s \<union> set bs"
    "free_inodes (fold e2_free_block bs s) = free_inodes s"
proof -
  have "upd {} s (fold e2_free_block bs s) \<and> free_blocks (fold e2_free_block bs s) = free_blocks s \<union> set bs
      \<and> free_inodes (fold e2_free_block bs s) = free_inodes s"
    using assms
  proof (induction bs arbitrary: s)
    case Nil
    then show ?case by (simp add: upd_refl)
  next
    case (Cons b bs)
    let ?s1 = "e2_free_block b s"
    have b: "data_block s b" "b \<notin> free_blocks s" using Cons.prems(3) by simp_all
    note f = e2_free_block_spec [OF Cons.prems(1) b]
    have "data_block ?s1 = data_block s" using same_layout_data_block(1) [OF f(4) vol_ok_layout [OF Cons.prems(1)]] .
    then have "\<forall>b \<in> set bs. data_block ?s1 b \<and> b \<notin> free_blocks ?s1" using Cons.prems f(2) by auto
    from Cons.IH [OF f(1) _ this] Cons.prems(2) show ?case
      using upd_trans [OF Cons.prems(1) upd_free_block [OF Cons.prems(1) b]] f(2,3) by auto
  qed
  then show "upd {} s (fold e2_free_block bs s)" "free_blocks (fold e2_free_block bs s) = free_blocks s \<union> set bs"
    "free_inodes (fold e2_free_block bs s) = free_inodes s" by simp_all
qed

lemma free_file_blocks_eq:
  assumes "vol_ok s" "distinct (blks_of s i)" "\<forall>b \<in> set (blks_of s i). data_block s b \<and> b \<notin> free_blocks s"
  shows "free_file_blocks i s = fold e2_free_block (blks_of s i) s"
proof (cases "i_block i ! 12 = 0")
  case True
  then show ?thesis by (simp add: free_file_blocks_def blks_of_def)
next
  case False
  let ?s1 = "fold e2_free_block (free_direct i) s" and ?b = "i_block i ! 12"
  have "set (free_direct i) \<subseteq> set (blks_of s i)" by (simp add: blks_of_def)
  moreover have "distinct (free_direct i)" using assms(2) by (simp add: blks_of_def)
  ultimately have u: "upd {} s ?s1" using fold_free_spec(1) [OF assms(1)] assms(3) by blast
  have "?b \<notin> alloc_area s" using assms(3) blks_of_mem(2) [OF False, of s] data_blockD by blast
  then have b: "blk_bytes ?s1 ?b = blk_bytes s ?b" using updD(3) [OF u] by simp
  have d: "device_ok ?s1" using layout_okD(2) [OF vol_ok_layout [OF updD(1) [OF u]]] .
  show ?thesis
    using False by (simp add: free_file_blocks_def Let_def e2_read_block_eq [OF d False] b blks_of_def ind_ptrs_def
        ptrs_of_size [OF same_layout_fields(2) [OF updD(2) [OF u]]])
qed

section \<open>Replacing one file\<close>

lemma upd_inode_at:
  assumes "upd W s s'" "layout_ok s" "W \<inter> itabs s = {}" "has_inode s j"
  shows "inode_at s' j = inode_at s j"
proof -
  note p = has_inode_place [OF assms(2,4)]
  have "fst (ino_place s j) \<notin> W" using p(3) assms(3) by auto
  then have "blk_bytes s' (fst (ino_place s j)) = blk_bytes s (fst (ino_place s j))" using updD(3) [OF assms(1) p(6)] by simp
  then show ?thesis
    by (simp add: inode_at_def case_prod_beta same_layout_place [OF updD(2) [OF assms(1)] assms(2,4)])
qed

lemma tree_live: "j \<in> tree s \<Longrightarrow> j \<in> live s" "j \<in> live s \<Longrightarrow> has_inode s j"
  by (simp_all add: tree_def live_def)

lemma dir_in_tree: "j \<in> live s \<Longrightarrow> is_dir (inode_at s j) \<Longrightarrow> j \<in> tree s"
  by (simp add: tree_def node_def)

lemma dir_not_file: "is_file i \<Longrightarrow> \<not> is_dir i"
  by (simp add: is_dir_def is_file_def EXT2_IMODE_DIR_def EXT2_IMODE_FILE_def)

text \<open>
  \<open>s'\<close> differs from \<open>s\<close> in the file \<open>ino\<close> only: its inode is now \<open>i'\<close>, and the blocks of \<open>i'\<close>
  come from the free blocks and the old blocks of the file.
\<close>

definition replaced :: "u32 \<Rightarrow> ext2_inode \<Rightarrow> ext2 \<Rightarrow> ext2 \<Rightarrow> bool" where
  "replaced ino i' s s' \<longleftrightarrow>
     vol_ok s' \<and> same_layout s s' \<and> free_inodes s' = free_inodes s
     \<and> (\<forall>b. b \<notin> alloc_area s \<union> itabs s \<longrightarrow> b \<notin> free_blocks s \<union> set (blks_of s (inode_at s ino)) \<longrightarrow> blk_bytes s' b = blk_bytes s b)
     \<and> (\<forall>j. has_inode s j \<longrightarrow> inode_at s' j = (if j = ino then i' else inode_at s j))
     \<and> is_file i' \<and> no_holes i' \<and> distinct (blks_of s' i')
     \<and> set (blks_of s' i') \<subseteq> free_blocks s \<union> set (blks_of s (inode_at s ino))
     \<and> free_blocks s' = (free_blocks s \<union> set (blks_of s (inode_at s ino))) - set (blks_of s' i')"

lemma replaced_keeps:
  assumes "fs_ok s" "ino \<in> tree s" "replaced ino i' s s'" "j \<in> tree s" "j \<noteq> ino"
  shows "b \<in> set (blks_of s (inode_at s j)) \<Longrightarrow> blk_bytes s' b = blk_bytes s b"
    "blks_of s' (inode_at s j) = blks_of s (inode_at s j)"
    "set (blks_of s (inode_at s j)) \<inter> (free_blocks s \<union> set (blks_of s (inode_at s ino))) = {}"
proof -
  note b = fs_okD(7) [OF assms(1,4)] and d = fs_okD(8) [OF assms(1,4,2,5)]
  show x: "set (blks_of s (inode_at s j)) \<inter> (free_blocks s \<union> set (blks_of s (inode_at s ino))) = {}" using b d by blast
  show k: "blk_bytes s' b = blk_bytes s b" if "b \<in> set (blks_of s (inode_at s j))" for b
    using assms(3) x b [OF that] that data_blockD [of s b] unfolding replaced_def by blast
  show "blks_of s' (inode_at s j) = blks_of s (inode_at s j)"
    by (rule blks_of_cong [OF _ k]) (use assms(3) same_layout_fields(2) in \<open>auto simp: replaced_def\<close>)
qed

lemma replaced_dirs_agree:
  assumes "fs_ok s" "ino \<in> tree s" "is_file (inode_at s ino)" "replaced ino i' s s'"
  shows "dirs_agree s s'"
  unfolding dirs_agree_def
proof (intro conjI ballI impI)
  show "same_layout s s'" using assms(4) by (simp add: replaced_def)
next
  fix j
  assume j: "j \<in> live s"
  have i: "inode_at s' j = (if j = ino then i' else inode_at s j)" using assms(4) tree_live(2) [OF j] by (simp add: replaced_def)
  have "\<not> is_dir i'" "\<not> is_dir (inode_at s ino)" using assms(3,4) dir_not_file by (auto simp: replaced_def)
  then show "is_dir (inode_at s' j) = is_dir (inode_at s j)" using i by simp
  assume d: "is_dir (inode_at s j)"
  then have ne: "j \<noteq> ino" using \<open>\<not> is_dir (inode_at s ino)\<close> by auto
  then show "inode_at s' j = inode_at s j" using i by simp
  fix b
  assume "b \<in> set (blks_of s (inode_at s j))"
  then show "blk_bytes s' b = blk_bytes s b" by (rule replaced_keeps(1) [OF assms(1,2,4) dir_in_tree [OF j d] ne])
qed

lemma replaced_fs_ok:
  assumes "fs_ok s" "ino \<in> tree s" "is_file (inode_at s ino)" "replaced ino i' s s'"
  shows "fs_ok s'"
proof -
  have r: "vol_ok s'" "same_layout s s'" "free_inodes s' = free_inodes s" "no_holes i'" "is_file i'" "distinct (blks_of s' i')"
    "set (blks_of s' i') \<subseteq> free_blocks s \<union> set (blks_of s (inode_at s ino))"
    "free_blocks s' = (free_blocks s \<union> set (blks_of s (inode_at s ino))) - set (blks_of s' i')"
    using assms(4) by (simp_all add: replaced_def)
  have i: "inode_at s' j = (if j = ino then i' else inode_at s j)" if "j \<in> live s" for j
    using assms(4) tree_live(2) [OF that] by (simp add: replaced_def)
  note l = fs_okD(2) [OF assms(1)]
  have db: "data_block s' = data_block s" and lv: "live s' = live s"
    using same_layout_data_block [OF r(2) l] r(3) by (simp_all add: live_def)
  have ino: "ino \<in> live s" using assms(2) tree_live by simp
  have tr: "tree s' = tree s" unfolding tree_def lv using i r(5) assms(2) ino by (auto simp: node_def tree_def split: if_splits)
  note k = replaced_keeps [OF assms(1,2,4)]
  have dbl: "data_block s b" if "b \<in> free_blocks s \<union> set (blks_of s (inode_at s ino))" for b
    using that free_data_block [OF fs_okD(1) [OF assms(1)]] fs_okD(7) [OF assms(1,2)] by blast
  have B: "blks_of s' (inode_at s' j) = (if j = ino then blks_of s' i' else blks_of s (inode_at s j))" if "j \<in> tree s" for j
    using i [OF tree_live(1) [OF that]] k(2) [OF that] by simp
  have ag: "dirs_agree s s'" by (rule replaced_dirs_agree [OF assms])
  show ?thesis
    unfolding fs_ok_def lv tr db
  proof (intro conjI ballI impI allI)
    show "vol_ok s'" "2 \<in> live s" using r(1) fs_okD(4) [OF assms(1)] by simp_all
  next
    fix j
    assume j: "j \<in> tree s"
    show "no_holes (inode_at s' j)" using i [OF tree_live(1) [OF j]] r(4) fs_okD(5) [OF assms(1) j] by simp
    show "distinct (blks_of s' (inode_at s' j))" using B [OF j] r(6) fs_okD(6) [OF assms(1) j] by simp
    fix b
    assume b: "b \<in> set (blks_of s' (inode_at s' j))"
    show "data_block s b" using b B [OF j] r(7) dbl fs_okD(7) [OF assms(1) j] by (auto split: if_splits)
    show "b \<notin> free_blocks s'" using b B [OF j] r(8) k(3) [OF j] by (auto split: if_splits)
  next
    fix j k'
    assume j: "j \<in> tree s" and k': "k' \<in> tree s" and ne: "j \<noteq> k'"
    show "set (blks_of s' (inode_at s' j)) \<inter> set (blks_of s' (inode_at s' k')) = {}"
      using B [OF j] B [OF k'] r(7) k(3) [OF j] k(3) [OF k'] fs_okD(8) [OF assms(1) j k' ne] ne by (auto split: if_splits)
  next
    fix j name
    assume j: "j \<in> live s" and d: "is_dir (inode_at s' j)"
    have d': "is_dir (inode_at s j)" and e: "inode_at s' j = inode_at s j"
      and b: "\<And>b. b \<in> set (blks_of s (inode_at s j)) \<Longrightarrow> blk_bytes s' b = blk_bytes s b"
      using ag j d by (simp_all add: dirs_agree_def)
    have "e2_lookup (inode_at s j) name s' = e2_lookup (inode_at s j) name s"
      by (rule e2_lookup_cong [OF fs_okD(3) [OF assms(1)] layout_okD(2) [OF vol_ok_layout [OF r(1)]] same_layout_fields(2) [OF r(2)] b])
    then show "e2_lookup (inode_at s' j) name s' \<in> insert 0 (live s)" using e fs_okD(9) [OF assms(1) j d'] by simp
  qed
qed

lemma takeWhile_zeros:
  assumes "0 \<notin> set p" "\<forall>b \<in> set r. b = 0"
  shows "takeWhile (\<lambda>b. b \<noteq> 0) (p @ r) = p"
proof -
  have "takeWhile (\<lambda>b. b \<noteq> 0) r = []" using assms(2) by (cases r) auto
  moreover have "takeWhile (\<lambda>b. b \<noteq> 0) (p @ r) = p @ takeWhile (\<lambda>b. b \<noteq> 0) r"
    by (rule takeWhile_append2) (use assms(1) in auto)
  ultimately show ?thesis by simp
qed

lemma no_holesI:
  assumes "take 12 (i_block i) = p @ r" "0 \<notin> set p" "\<forall>b \<in> set r. b = 0"
  shows "free_direct i = p" "no_holes i"
  using takeWhile_zeros [OF assms(2,3)] assms by (simp_all add: free_direct_def no_holes_def)

lemma emptied_blocks:
  assumes "no_holes i" "length (i_block i) = 15"
  shows "\<forall>b \<in> set (take 12 (i_block (emptied i))). b = 0" "i_block (emptied i) ! 12 = 0" "length (i_block (emptied i)) = 15"
proof -
  let ?n = "length (free_direct i)"
  have n: "?n \<le> 12" using length_takeWhile_le [of "\<lambda>b. b \<noteq> 0" "take 12 (i_block i)"] by (simp add: free_direct_def)
  have "take 12 (i_block (emptied i)) = replicate ?n 0 @ drop ?n (take 12 (i_block i))"
    using n by (simp add: emptied_def Let_def drop_take)
  then show "\<forall>b \<in> set (take 12 (i_block (emptied i))). b = 0" using assms(1) by (auto simp: no_holes_def)
  show "i_block (emptied i) ! 12 = 0" "length (i_block (emptied i)) = 15" using n assms(2) by (simp_all add: emptied_def Let_def)
qed

lemma written_blocks:
  assumes d: "device_ok s'" and r: "file_rep s' i' data p q" and z: "0 \<notin> set (file_blks s' i' data p q)"
    and e: "drop (length p) (take 12 (i_block i')) = drop (length p) (take 12 (i_block i))" "\<forall>b \<in> set (take 12 (i_block i)). b = 0"
      "length data \<le> direct_cap s' \<longrightarrow> i_block i' ! 12 = 0"
  shows "no_holes i'" "set (blks_of s' i') = set (file_blks s' i' data p q)"
    "distinct (blks_of s' i') = distinct (file_blks s' i' data p q)"
proof -
  have p: "0 \<notin> set p" using z by (simp add: file_blks_def)
  have t: "take 12 (i_block i') = p @ drop (length p) (take 12 (i_block i))"
    using r append_take_drop_id [of "length p" "take 12 (i_block i')"] e(1) by (simp add: file_rep_def min_absorb1)
  have rz: "\<forall>b \<in> set (drop (length p) (take 12 (i_block i))). b = 0" using e(2) by (meson in_set_dropD)
  note h = no_holesI [OF t p rz]
  show "no_holes i'" using h(2) .
  have "blks_of s' i' = p @ (if length data \<le> direct_cap s' then [] else q @ [i_block i' ! 12])"
  proof (cases "length data \<le> direct_cap s'")
    case True
    then show ?thesis using h(1) e(3) by (simp add: blks_of_def)
  next
    case False
    then have q: "0 \<notin> set q" "i_block i' ! 12 \<noteq> 0" "length q \<le> bsz s' div 4" "blk_bytes s' (i_block i' ! 12) = ptr_block s' q"
      using z r by (auto simp: file_blks_def file_rep_def)
    have "ptrs_of (ptr_block s' q) s' = q @ replicate (bsz s' div 4 - length q) 0"
      unfolding ptr_block_def by (rule ptrs_of_st32) (use q(3) in simp)
    then have "ind_ptrs s' (i_block i' ! 12) = q"
      using takeWhile_zeros [OF q(1), of "replicate (bsz s' div 4 - length q) 0"] by (simp add: ind_ptrs_def q(4))
    then show ?thesis using False h(1) q(2) by (simp add: blks_of_def)
  qed
  then show "set (blks_of s' i') = set (file_blks s' i' data p q)" "distinct (blks_of s' i') = distinct (file_blks s' i' data p q)"
    by (auto simp: file_blks_def)
qed

section \<open>Overwriting a file\<close>

lemma inode_at_wf: "layout_ok s \<Longrightarrow> has_inode s j \<Longrightarrow> inode_wf (inode_at s j)"
  using has_inode_place(4) [of s j] by (simp add: inode_at_def case_prod_beta get_inode_wf)

lemma put_inode_at_upd:
  assumes "vol_ok s" "has_inode s ino" "inode_wf i"
  shows "upd (itabs s) s (put_inode_at ino i s)" "free_blocks (put_inode_at ino i s) = free_blocks s"
    "free_inodes (put_inode_at ino i s) = free_inodes s"
proof -
  note p = has_inode_place [OF vol_ok_layout [OF assms(1)] assms(2)]
  let ?b = "fst (ino_place s ino)"
  have l: "length (splice (blk_bytes s ?b) (snd (ino_place s ino)) (put_inode i)) = bsz s"
    using p(4) length_put_inode [OF assms(3)] by simp
  note u = put_blk_upd [OF assms(1) p(5,6) l]
  show "upd (itabs s) s (put_inode_at ino i s)" using upd_mono [OF u(1), of "itabs s"] p(3) by (simp add: put_inode_at_def case_prod_beta)
  show "free_blocks (put_inode_at ino i s) = free_blocks s" "free_inodes (put_inode_at ino i s) = free_inodes s"
    using u(2,3) by (simp_all add: put_inode_at_def case_prod_beta)
qed

lemma file_rep_inode:
  assumes "i_block i' = i_block i"
  shows "file_rep s i' = file_rep s i" "file_blks s i' = file_blks s i" "blks_of s i' = blks_of s i" "no_holes i' = no_holes i"
  using assms by (simp_all add: file_rep_def file_blks_def blks_of_def no_holes_def free_direct_def fun_eq_iff)

lemma is_file_mode: "i_mode i' = i_mode i \<Longrightarrow> is_file i' = is_file i"
  by (simp add: is_file_def)

lemma free_not_itab: "vol_ok s \<Longrightarrow> free_blocks s \<inter> itabs s = {}"
  using free_data_block [of s] data_blockD by blast

lemma same_meta_mode: "same_meta i i' \<Longrightarrow> i_mode i' = i_mode i \<and> i_osd2 i' = i_osd2 i"
  by (cases i; cases i') (simp add: same_meta_def)

lemma overwrite_replaced:
  assumes fs: "fs_ok s" and ino: "ino \<in> tree s" and isf: "is_file (inode_at s ino)"
    and w: "write_data data (emptied (inode_at s ino)) (free_file_blocks (inode_at s ino) s) = (Some i2, s2)"
    and n: "length data \<le> unat (max_file_size s)"
    and i3: "i_block i3 = i_block i2" "i_mode i3 = i_mode i2" "i_osd2 i3 = i_osd2 i2"
  shows "replaced ino i3 s (put_inode_at ino i3 s2)" "read_inode_data i3 (length data) (put_inode_at ino i3 s2) = Some data"
    "has_inode s2 ino" "vol_ok s2"
proof -
  let ?i = "inode_at s ino"
  let ?s1 = "free_file_blocks ?i s" and ?s3 = "put_inode_at ino i3 s2"
  note v = fs_okD(1) [OF fs] and l = fs_okD(2) [OF fs]
  have h: "has_inode s ino" using ino tree_live by blast
  have B: "\<forall>b \<in> set (blks_of s ?i). data_block s b \<and> b \<notin> free_blocks s" using fs_okD(7) [OF fs ino] by blast
  note ff = fold_free_spec [OF v fs_okD(6) [OF fs ino] B, folded free_file_blocks_eq [OF v fs_okD(6) [OF fs ino] B]]
  have sl1: "same_layout s ?s1" using updD(2) [OF ff(1)] .
  have wf: "inode_wf ?i" by (rule inode_at_wf [OF l h])
  then have e: "\<forall>b \<in> set (take 12 (i_block (emptied ?i))). b = 0" "i_block (emptied ?i) ! 12 = 0" "length (i_block (emptied ?i)) = 15"
    using emptied_blocks [OF fs_okD(5) [OF fs ino]] by (simp_all add: inode_wf_def)
  have "length data \<le> unat (max_file_size ?s1)" using n by (simp add: max_file_size_def same_layout_fields [OF sl1])
  note wd = write_data_spec [OF updD(1) [OF ff(1)] w this e(3)]
  then obtain p q where pq: "file_rep s2 i2 data p q" "same_meta (emptied ?i) i2" "distinct (file_blks s2 i2 data p q)"
    "drop (length p) (take 12 (i_block i2)) = drop (length p) (take 12 (i_block (emptied ?i)))"
    "length data \<le> direct_cap ?s1 \<longrightarrow> i_block i2 ! 12 = i_block (emptied ?i) ! 12"
    "set (file_blks s2 i2 data p q) \<subseteq> free_blocks ?s1" "free_blocks s2 = free_blocks ?s1 - set (file_blks s2 i2 data p q)"
    by (auto simp: data_post_def)
  have u2: "upd (free_blocks ?s1) s s2" using upd_trans [OF v, of "free_blocks ?s1" ?s1 s2] upd_mono [OF ff(1)] wd by auto
  show v2: "vol_ok s2" using updD(1) [OF u2] .
  have sl2: "same_layout s s2" using updD(2) [OF u2] .
  note a2 = same_layout_areas [OF sl2 layout_okD(3) [OF l]]
  show h2: "has_inode s2 ino" using h same_layout_data_block(2) [OF sl2 l] by simp
  have z: "0 \<notin> set (file_blks s2 i2 data p q)" using pq(6) zero_not_free(1) [OF updD(1) [OF ff(1)]] by auto
  have md: "i_mode i2 = i_mode ?i" "i_osd2 i2 = i_osd2 ?i" using same_meta_mode [OF pq(2)] by (simp_all add: emptied_def Let_def)
  have wf3: "inode_wf i3" using wf i3 md pq(1) by (simp add: inode_wf_def file_rep_def)
  note pu = put_inode_at_upd [OF v2 h2 wf3]
  have u3: "upd (itabs s \<union> free_blocks ?s1) s ?s3"
    by (rule upd_trans [OF v]) (use upd_mono [OF u2] upd_mono [OF pu(1)] a2 in auto)
  have nt: "free_blocks ?s1 \<inter> itabs s = {}" using free_not_itab [OF updD(1) [OF ff(1)]] same_layout_areas(3) [OF sl1 layout_okD(3) [OF l]] by simp
  have na: "free_blocks ?s1 \<inter> alloc_area s = {}" using free_not_alloc [OF updD(1) [OF ff(1)]] same_layout_areas(2) [OF sl1 layout_okD(3) [OF l]] by simp
  have fb: "blk_bytes ?s3 b = blk_bytes s2 b" if "b \<in> set (file_blks s2 i2 data p q)" for b
    using updD(3) [OF pu(1), of b] that pq(6) nt na by (auto simp: a2)
  have bs3: "block_size ?s3 = block_size s2" using same_layout_fields(2) [OF updD(2) [OF pu(1)]] .
  have fr: "file_rep ?s3 i2 data p q" "file_blks ?s3 i2 data p q = file_blks s2 i2 data p q"
    using file_rep_cong [OF pq(1) fb bs3] by simp_all
  note fi = file_rep_inode [OF i3(1)]
  have d3: "device_ok ?s3" using layout_okD(2) [OF vol_ok_layout [OF updD(1) [OF pu(1)]]] .
  show "read_inode_data i3 (length data) ?s3 = Some data"
    by (rule file_rep_read [OF d3, of i3 data p q]) (use fr z in \<open>simp_all add: fi\<close>)
  have sh: "length data \<le> direct_cap ?s3 \<longrightarrow> i_block i2 ! 12 = 0"
    using pq(5) e(2) bs3 same_layout_fields(2) [OF sl1] same_layout_fields(2) [OF sl2] by (simp add: direct_cap_def)
  note wb = written_blocks [OF d3 fr(1) z [folded fr(2)] pq(4) e(1) sh]
  have ia: "inode_at ?s3 j = (if j = ino then i3 else inode_at s j)" if "has_inode s j" for j
    using inode_at_put [OF vol_ok_layout [OF v2] h2 wf3, of j] that same_layout_data_block(2) [OF sl2 l] upd_inode_at [OF u2 l nt that] by simp
  have i3f: "is_file i3" using isf is_file_mode [of i3 ?i] i3(2) md(1) by simp
  show "replaced ino i3 s ?s3"
    unfolding replaced_def
    using updD(1,2) [OF u3] pu(2,3) wd ff(2,3) ia i3f wb pq(3,6,7) fr(2) updD(3) [OF u3] by (auto simp: fi)
qed

lemma read_blocks_cong:
  assumes "device_ok s" "device_ok s'" "block_size s' = block_size s"
    "\<And>b. b \<in> set (takeWhile (\<lambda>b. b \<noteq> 0) bs) \<Longrightarrow> blk_bytes s' b = blk_bytes s b"
  shows "read_blocks bs n out s' = read_blocks bs n out s"
  using assms(4)
proof (induction bs arbitrary: out)
  case (Cons b bs)
  show ?case
  proof (cases "b = 0")
    case False
    then have "blk_bytes s' b = blk_bytes s b" "read_blocks bs n out' s' = read_blocks bs n out' s" for out' using Cons by simp_all
    then show ?thesis using False assms(1-3) by (simp add: e2_read_block_eq)
  qed simp
qed simp

lemma read_inode_data_cong:
  assumes "device_ok s" "device_ok s'" "block_size s' = block_size s"
    "\<And>b. b \<in> set (blks_of s i) \<Longrightarrow> blk_bytes s' b = blk_bytes s b"
  shows "read_inode_data i n s' = read_inode_data i n s"
proof -
  have d: "read_blocks (take 12 (i_block i)) n [] s' = read_blocks (take 12 (i_block i)) n [] s"
    by (rule read_blocks_cong [OF assms(1-3)]) (rule assms(4) [OF blks_of_mem(1)])
  show ?thesis
  proof (cases "i_block i ! 12 = 0")
    case True
    then show ?thesis unfolding read_inode_data_def d by (cases "read_blocks (take 12 (i_block i)) n [] s") simp_all
  next
    case False
    let ?q = "ptrs_of (blk_bytes s (i_block i ! 12)) s"
    have "read_blocks ?q n out s' = read_blocks ?q n out s" for out
      by (rule read_blocks_cong [OF assms(1-3)]) (rule assms(4) [OF blks_of_mem(3) [OF False]])
    moreover have "e2_read_block (i_block i ! 12) s' = e2_read_block (i_block i ! 12) s"
      using assms(4) [OF blks_of_mem(2) [OF False]] by (simp add: e2_read_block_eq assms(1,2) False)
    ultimately show ?thesis
      unfolding read_inode_data_def d using False
      by (cases "read_blocks (take 12 (i_block i)) n [] s")
         (simp_all add: e2_read_block_eq [OF assms(1) False] ptrs_of_size [OF assms(3)])
  qed
qed

text \<open>When a path names a file that can be written.\<close>

definition writable :: "bytes \<Rightarrow> u32 \<Rightarrow> ext2 \<Rightarrow> bool" where
  "writable path ino s \<longleftrightarrow>
     ino \<noteq> 0 \<and> e2_resolve (Some path) s = ino \<and> is_file (inode_at s ino)
     \<and> (case e2_split_path path 256 of None \<Rightarrow> False | Some (parent, name) \<Rightarrow> e2_resolve (Some parent) s \<noteq> 0)"

definition room_for :: "bytes \<Rightarrow> u32 \<Rightarrow> ext2 \<Rightarrow> bool" where
  "room_for data ino s \<longleftrightarrow> blocks_for s (length data) \<le> card (free_blocks s) + length (blks_of s (inode_at s ino))"

lemma writable_tree: "fs_ok s \<Longrightarrow> writable path ino s \<Longrightarrow> ino \<in> tree s \<and> has_inode s ino \<and> is_file (inode_at s ino)"
  using e2_resolve_live [of s "Some path"] by (auto simp: writable_def tree_def node_def live_def)

lemma write_starts:
  assumes "fs_ok s" "writable path ino s" "length data \<le> unat (max_file_size s)"
    "write_data data (emptied (inode_at s ino)) (free_file_blocks (inode_at s ino) s) = (r, s2)"
  shows "ext2_write_file (Some path) data s =
    (case r of None \<Rightarrow> (- 1, s2) | Some i2 \<Rightarrow>
       let (ok, s3) = e2_write_inode ino (i2\<lparr>i_size := of_nat (length data), i_mtime := e2_now s2, i_atime := e2_now s2\<rparr>) s2
       in (if ok then 0 else - 1, s3))"
proof -
  obtain parent name where sp: "e2_split_path path 256 = Some (parent, name)" "e2_resolve (Some parent) s \<noteq> 0"
    using assms(2) by (auto simp: writable_def split: option.splits)
  note t = writable_tree [OF assms(1,2)]
  have o: "open_for_write path s = (Some (ino, emptied (inode_at s ino), False), free_file_blocks (inode_at s ino) s)"
    using assms(2) t e2_read_inode_eq [OF fs_okD(2) [OF assms(1)], of ino] by (simp add: open_for_write_def writable_def)
  have "e2_ready s" using layout_okD(1) [OF fs_okD(2) [OF assms(1)]] .
  then show ?thesis
    using assms(3,4) sp o by (cases r) (simp_all add: ext2_write_file_def Let_def case_prod_beta)
qed

lemma freed_file:
  assumes "fs_ok s" "ino \<in> tree s"
  shows "upd {} s (free_file_blocks (inode_at s ino) s)"
    "free_blocks (free_file_blocks (inode_at s ino) s) = free_blocks s \<union> set (blks_of s (inode_at s ino))"
    "free_inodes (free_file_blocks (inode_at s ino) s) = free_inodes s"
    "card (free_blocks (free_file_blocks (inode_at s ino) s)) = card (free_blocks s) + length (blks_of s (inode_at s ino))"
    "length (i_block (emptied (inode_at s ino))) = 15"
proof -
  have B: "\<forall>b \<in> set (blks_of s (inode_at s ino)). data_block s b \<and> b \<notin> free_blocks s" using fs_okD(7) [OF assms] by blast
  note d = fs_okD(6) [OF assms]
  note ff = fold_free_spec [OF fs_okD(1) [OF assms(1)] d B, folded free_file_blocks_eq [OF fs_okD(1) [OF assms(1)] d B]]
  show "upd {} s (free_file_blocks (inode_at s ino) s)"
    "free_blocks (free_file_blocks (inode_at s ino) s) = free_blocks s \<union> set (blks_of s (inode_at s ino))"
    "free_inodes (free_file_blocks (inode_at s ino) s) = free_inodes s" by (fact ff)+
  have "free_blocks s \<inter> set (blks_of s (inode_at s ino)) = {}" using B by blast
  then show "card (free_blocks (free_file_blocks (inode_at s ino) s)) = card (free_blocks s) + length (blks_of s (inode_at s ino))"
    using card_Un_disjoint [of "free_blocks s" "set (blks_of s (inode_at s ino))"] distinct_card [OF d] by (simp add: ff(2))
  show "length (i_block (emptied (inode_at s ino))) = 15"
    using emptied_blocks(3) [OF fs_okD(5) [OF assms]] inode_at_wf [OF fs_okD(2) [OF assms(1)]] tree_live [of ino s] assms(2)
    by (simp add: inode_wf_def)
qed

lemma overwrite_run:
  assumes fs: "fs_ok s" and w: "writable path ino s" and r: "room_for data ino s" and n: "length data \<le> unat (max_file_size s)"
  shows "\<exists>i3 s3. ext2_write_file (Some path) data s = (0, s3) \<and> replaced ino i3 s s3
    \<and> read_inode_data i3 (length data) s3 = Some data \<and> unat (i_size i3) = length data"
proof -
  let ?i = "inode_at s ino"
  let ?s1 = "free_file_blocks ?i s"
  note t = writable_tree [OF fs w]
  have ino: "ino \<in> tree s" and isf: "is_file ?i" using t by simp_all
  note ff = freed_file [OF fs ino]
  have bs1: "block_size ?s1 = block_size s" using same_layout_fields(2) [OF updD(2) [OF ff(1)]] .
  have n1: "length data \<le> unat (max_file_size ?s1)" using n by (simp add: max_file_size_def bs1)
  obtain rr s2 where wd: "write_data data (emptied ?i) ?s1 = (rr, s2)" by force
  have "\<not> card (free_blocks ?s1) < blocks_for ?s1 (length data)"
    using r by (simp add: room_for_def ff(4) blocks_for_def direct_cap_def bs1)
  then obtain i2 where i2: "rr = Some i2"
    using write_data_spec [OF updD(1) [OF ff(1)] wd n1 ff(5)] by (cases rr) (auto simp: data_post_def)
  let ?i3 = "i2\<lparr>i_size := of_nat (length data), i_mtime := e2_now s2, i_atime := e2_now s2\<rparr>"
  note o = overwrite_replaced [OF fs ino isf wd [unfolded i2] n, of ?i3, simplified]
  have "ext2_write_file (Some path) data s = (0, put_inode_at ino ?i3 s2)"
    using write_starts [OF fs w n wd] i2 e2_write_inode_eq [OF vol_ok_layout [OF o(4)] o(3)] by simp
  moreover have "length data < 2 ^ 32" using n unat_u32_less [of "max_file_size s"] by linarith
  then have "unat (i_size ?i3) = length data" by (simp add: of_nat_u32)
  ultimately show ?thesis using o(1,2) by blast
qed

lemma length_file_blks:
  assumes "device_ok s" "file_rep s i data p q"
  shows "length (file_blks s i data p q) = blocks_for s (length data)"
proof (cases "length data \<le> direct_cap s")
  case True
  then show ?thesis using assms(2) by (simp add: file_blks_def blocks_for_def file_rep_def holds_def)
next
  case False
  have "0 < bsz s" using device_ok_bsz [OF assms(1)] by auto
  then have "nblk (bsz s) (length data) = 12 + nblk (bsz s) (length data - direct_cap s)"
    using nblk_direct [of "bsz s" 12 "length data"] False by (simp add: direct_cap_def)
  then show ?thesis
    using False assms(2) direct_twelve [OF assms False] by (simp add: file_blks_def blocks_for_def file_rep_def holds_def)
qed

lemma write_needs_room:
  assumes "vol_ok s" "write_data data i s = (Some i', s')" "length data \<le> unat (max_file_size s)" "length (i_block i) = 15"
  shows "blocks_for s (length data) \<le> card (free_blocks s)"
proof -
  note w = write_data_spec [OF assms]
  then obtain p q where pq: "file_rep s' i' data p q" "distinct (file_blks s' i' data p q)" "set (file_blks s' i' data p q) \<subseteq> free_blocks s"
    by (auto simp: data_post_def)
  have d: "device_ok s'" using w updD(1) vol_ok_layout layout_okD(2) by blast
  have bs: "block_size s' = block_size s" using w updD(2) same_layout_fields(2) by blast
  have "blocks_for s (length data) = card (set (file_blks s' i' data p q))"
    using length_file_blks [OF d pq(1)] distinct_card [OF pq(2)] by (simp add: blocks_for_def direct_cap_def bs)
  then show ?thesis using card_mono [OF finite_free_blocks pq(3)] by simp
qed

lemma overwrite_reads:
  assumes "fs_ok s" "writable path ino s" "room_for data ino s" "length data \<le> unat (max_file_size s)" "length data \<le> unat max'"
  shows "fst (ext2_write_file (Some path) data s) = 0 \<and> fs_ok (snd (ext2_write_file (Some path) data s))
    \<and> ext2_read_file path max' (snd (ext2_write_file (Some path) data s)) = Some data"
proof -
  obtain i3 s3 where o: "ext2_write_file (Some path) data s = (0, s3)" "replaced ino i3 s s3"
    "read_inode_data i3 (length data) s3 = Some data" "unat (i_size i3) = length data"
    using overwrite_run [OF assms(1-4)] by blast
  note t = writable_tree [OF assms(1,2)]
  have fs3: "fs_ok s3" by (rule replaced_fs_ok [OF assms(1) _ _ o(2)]) (use t in simp_all)
  have r: "e2_resolve (Some path) s3 = ino"
    using e2_resolve_cong [OF assms(1) replaced_dirs_agree [OF assms(1) _ _ o(2)]] t assms(2) by (simp add: writable_def)
  have h: "has_inode s3 ino" "inode_at s3 ino = i3" "is_file i3"
    using o(2) t same_layout_data_block(2) [OF _ fs_okD(2) [OF assms(1)], of s3] by (auto simp: replaced_def)
  have "unat (if i_size i3 < max' then i_size i3 else max') = length data"
    using o(4) assms(5) by (simp add: word_less_nat_alt)
  then have "ext2_read_file path max' s3 = Some data"
    using o(3) r h layout_okD(1) [OF fs_okD(2) [OF fs3]] e2_read_inode_eq [OF fs_okD(2) [OF fs3] h(1)] assms(2)
    by (simp add: ext2_read_file_def writable_def)
  with o(1) fs3 show ?thesis by simp
qed

end
