(* ===== verification/Ext2_Demo.thy ===== *)
theory Ext2_Demo
  imports Ext2_Tree
begin

text \<open>
  A small concrete volume that satisfies the hypotheses of the theorems on the ext2 driver.
\<close>

section \<open>A small volume\<close>

text \<open>
  One group of sixteen blocks of 1024 bytes: superblock 1, group table 2, bitmaps 3 and 4, inode
  table 5 with eight inodes, root directory 6 with the file \<open>f\<close> (inode 3), whose data is block 7.
\<close>

definition demo_root :: ext2_inode where
  "demo_root = zero_inode\<lparr>i_mode := 0x41ED, i_size := 1024, i_links_count := 2, i_blocks := 2, i_block := 6 # replicate 14 0\<rparr>"

definition demo_file :: ext2_inode where
  "demo_file = zero_inode\<lparr>i_mode := 0x81A4, i_size := 5, i_links_count := 1, i_blocks := 2, i_block := 7 # replicate 14 0\<rparr>"

definition demo_dir :: bytes where
  "demo_dir = put_dirent 2 12 [46] 2 @ [0, 0, 0] @ put_dirent 2 12 [46, 46] 2 @ [0, 0] @ put_dirent 3 1000 [102] 1"

definition demo_blk :: "nat \<Rightarrow> bytes" where
  "demo_blk b = (if b = 3 then [0x7F] else if b = 4 then [0x07] else if b = 5 then replicate 128 0 @ put_inode demo_root @ put_inode demo_file
     else if b = 6 then demo_dir else if b = 7 then [104, 101, 108, 108, 111] else [])"

definition demo_disk :: disk where
  "demo_disk = \<lparr>dk_present = True,
     dk_bytes = (\<lambda>x. if x mod 1024 < length (demo_blk (x div 1024)) then demo_blk (x div 1024) ! (x mod 1024) else 0),
     dk_fault = (\<lambda>_. False)\<rparr>"

definition demo_bgd :: ext2_bgd where
  "demo_bgd = \<lparr>bg_block_bitmap = 3, bg_inode_bitmap = 4, bg_inode_table = 5, bg_free_blocks_count = 9,
     bg_free_inodes_count = 5, bg_used_dirs_count = 1, bg_pad = 0, bg_reserved = replicate 12 0\<rparr>"

definition demo_vol :: ext2 where
  "demo_vol = \<lparr>e2_ready = True, block_size = 1024, inodes_per_group = 8, blocks_per_group = 16, inode_size = 128,
     first_data_block = 1, num_groups = 1, bgdt = [demo_bgd], e2_disk = demo_disk, e2_ticks = 0\<rparr>"

lemma demo_fields:
  "e2_ready demo_vol" "block_size demo_vol = 1024" "inodes_per_group demo_vol = 8" "blocks_per_group demo_vol = 16"
  "inode_size demo_vol = 128" "first_data_block demo_vol = 1" "num_groups demo_vol = 1" "bgdt demo_vol = [demo_bgd]"
  "nbits Blocks demo_vol = 16" "nbits Inodes demo_vol = 8" "bitmap_of Blocks demo_bgd = 3" "bitmap_of Inodes demo_bgd = 4"
  "bg_inode_table demo_bgd = 5" "free_count Blocks demo_bgd = 9" "free_count Inodes demo_bgd = 5"
  "length (bg_reserved demo_bgd) = 12"
  by (simp_all add: demo_vol_def demo_bgd_def nbits.simps bitmap_of.simps free_count.simps)

lemma demo_inode_wf: "inode_wf demo_root" "inode_wf demo_file"
  by (simp_all add: inode_wf_def demo_root_def demo_file_def zero_inode_def)

lemma demo_blk_length: "length (demo_blk b) \<le> 1024"
  by (simp add: demo_blk_def demo_dir_def put_dirent_def length_put_inode demo_inode_wf)

lemma demo_bytes: "blk_bytes demo_vol b = demo_blk (unat b) @ replicate (1024 - length (demo_blk (unat b))) 0"
proof (rule nth_equalityI)
  show "length (blk_bytes demo_vol b) = length (demo_blk (unat b) @ replicate (1024 - length (demo_blk (unat b))) 0)"
    using demo_blk_length [of "unat b"] by (simp add: demo_fields)
  fix i
  assume "i < length (blk_bytes demo_vol b)"
  then have i: "i < 1024" by (simp add: demo_fields)
  have "(unat b * 1024 + i) div 1024 = unat b" "(unat b * 1024 + i) mod 1024 = i" using i by simp_all
  then show "blk_bytes demo_vol b ! i = (demo_blk (unat b) @ replicate (1024 - length (demo_blk (unat b))) 0) ! i"
    using i demo_blk_length [of "unat b"]
    by (simp add: blk_bytes_def demo_fields nth_append) (simp add: demo_vol_def demo_disk_def)
qed

lemma demo_device: "device_ok demo_vol"
  by (simp add: device_ok_def demo_fields) (simp add: demo_vol_def demo_disk_def)

lemma demo_areas:
  "bitmaps demo_vol = {3, 4}" "bgd_blk demo_vol 0 = 2" "alloc_area demo_vol = {2, 3, 4}" "itab_len demo_vol = 1" "itabs demo_vol = {5}"
proof -
  show b: "bitmaps demo_vol = {3, 4}" "bgd_blk demo_vol 0 = 2"
    by (auto simp: bitmaps_def demo_fields bgd_blk_def)
  show "alloc_area demo_vol = {2, 3, 4}" unfolding alloc_area_def b using b(2) by (auto simp: demo_fields)
  show l: "itab_len demo_vol = 1" by (simp add: itab_len_def demo_fields)
  show "itabs demo_vol = {5}" by (auto simp: itabs_def l demo_fields itab_blk_def)
qed

lemma demo_layout: "layout_ok demo_vol"
  unfolding layout_ok_def demo_areas
  by (simp add: demo_fields demo_device demo_areas(2) inj_on_def itab_blk_def)

lemma demo_slots: "slots Blocks demo_vol = {0} \<times> {0..<16}" "slots Inodes demo_vol = {0} \<times> {0..<8}"
  by (auto simp: slots_def demo_fields)

lemma bm_test_mask:
  assumes "n \<le> 8" "k div 8 \<le> m"
  shows "bm_test (mask n # replicate m 0) k \<longleftrightarrow> k < n"
  using assms by (cases "k < 8") (auto simp: bm_test_bit nth_Cons' bit_simps)

lemma demo_used: "used Blocks demo_vol = {0} \<times> {0..<7}" "used Inodes demo_vol = {0} \<times> {0..<3}"
proof -
  have m: "(0x7F :: u8) = mask 7" "(0x07 :: u8) = mask 3" by (simp_all add: mask_eq_exp_minus_1)
  show "used Blocks demo_vol = {0} \<times> {0..<7}"
    using bm_test_mask [of 7 _ 1023]
    by (auto simp: used_def demo_slots bitmap_bytes_def demo_fields demo_bytes demo_blk_def m)
  show "used Inodes demo_vol = {0} \<times> {0..<3}"
    using bm_test_mask [of 3 _ 1023]
    by (auto simp: used_def demo_slots bitmap_bytes_def demo_fields demo_bytes demo_blk_def m)
qed

lemma demo_free_bits: "free_bits Blocks demo_vol 0 = {7..<16}" "free_bits Inodes demo_vol 0 = {3..<8}"
  by (auto simp: free_bits_def demo_used demo_fields)

lemma demo_counts: "counts_ok demo_vol"
  unfolding counts_ok_iff
proof (intro allI impI)
  fix k g
  assume "g < ngroups demo_vol"
  then have "g = 0" by (simp add: demo_fields)
  then show "unat (free_count k (bgdt demo_vol ! g)) = card (free_bits k demo_vol g)"
    by (cases k) (simp_all add: demo_fields demo_free_bits)
qed

lemma demo_block_no: "block_no demo_vol (0, i) = 1 + of_nat i" "inode_no demo_vol (0, i) = of_nat i + 1"
  by (simp_all add: block_no_def inode_no_def demo_fields)

lemma demo_reserved: "reserved_used demo_vol"
  unfolding reserved_used_def demo_areas demo_slots demo_used
proof (intro ballI impI)
  fix x
  assume "x \<in> {0} \<times> {0..<16::nat}" and b: "block_no demo_vol x \<in> insert 0 ({2, 3, 4} \<union> {5})"
  then obtain i where x: "x = (0, i)" "i < 16" by auto
  have "unat (1 + of_nat i :: u32) = 1 + i" using x(2) by (simp add: unat_word_ariths unat_of_nat)
  moreover have "unat (block_no demo_vol x) \<in> {0, 2, 3, 4, 5}" using b by auto
  ultimately show "x \<in> {0} \<times> {0..<7}" by (auto simp: x(1) demo_block_no)
qed

lemma demo_vol_ok: "vol_ok demo_vol"
  by (simp add: vol_ok_def demo_layout demo_counts demo_reserved)

lemma demo_live: "live demo_vol = {1, 2, 3}" "has_inode demo_vol 1" "has_inode demo_vol 2" "has_inode demo_vol 3"
proof -
  have n: "inode_no demo_vol ` ({0} \<times> A) = (\<lambda>i. of_nat i + 1) ` A" for A
    by (auto simp: demo_block_no image_iff)
  have e: "{0..<8::nat} = {0, 1, 2, 3, 4, 5, 6, 7}" by auto
  have d: "{0} \<times> {0..<8} - {0} \<times> {0..<3} = {0} \<times> {3, 4, 5, 6, 7::nat}" by auto
  have h: "has_inode demo_vol j \<longleftrightarrow> j \<in> {1, 2, 3, 4, 5, 6, 7, 8}" for j
    unfolding has_inode_def demo_slots n e by auto
  have f: "free_inodes demo_vol = {4, 5, 6, 7, 8}"
    unfolding free_inodes_def demo_slots demo_used d n by auto
  show "live demo_vol = {1, 2, 3}" unfolding live_def h f by auto
  show "has_inode demo_vol 1" "has_inode demo_vol 2" "has_inode demo_vol 3" unfolding h by simp_all
qed

lemma demo_place: "ino_place demo_vol 1 = (5, 0)" "ino_place demo_vol 2 = (5, 128)" "ino_place demo_vol 3 = (5, 256)"
  by (simp_all add: ino_place_def ino_group_def demo_fields Let_def)

lemma demo_table: "blk_bytes demo_vol 5 = replicate 128 0 @ put_inode demo_root @ put_inode demo_file @ replicate 640 0"
  by (simp add: demo_bytes demo_blk_def length_put_inode demo_inode_wf)

lemma demo_inodes: "inode_at demo_vol 2 = demo_root" "inode_at demo_vol 3 = demo_file" "i_mode (inode_at demo_vol 1) = 0"
proof -
  note l = length_put_inode [OF demo_inode_wf(1)] length_put_inode [OF demo_inode_wf(2)]
  show "inode_at demo_vol 2 = demo_root" "inode_at demo_vol 3 = demo_file"
    unfolding inode_at_def demo_place prod.case demo_table
    by (subst get_inode_local; simp add: l get_put_inode demo_inode_wf)+
  show "i_mode (inode_at demo_vol 1) = 0"
    unfolding inode_at_def demo_place prod.case demo_table by (simp add: get_inode_def rd16_def ld16_def nth_append)
qed

lemma demo_kinds: "is_dir demo_root" "is_file demo_file" "\<not> is_dir demo_file" "\<not> node (inode_at demo_vol 1)"
  by (simp_all add: is_dir_def is_file_def node_def demo_root_def demo_file_def EXT2_IMODE_DIR_def EXT2_IMODE_FILE_def demo_inodes)

lemma demo_tree: "tree demo_vol = {2, 3}"
  using demo_kinds by (auto simp: tree_def demo_live demo_inodes node_def)

lemma demo_blks: "blks_of s demo_root = [6]" "blks_of s demo_file = [7]" "no_holes demo_root" "no_holes demo_file"
  by (simp_all add: blks_of_def free_direct_def no_holes_def demo_root_def demo_file_def)

lemma demo_dir_bytes: "blk_bytes demo_vol 6 = demo_dir @ replicate 991 0"
  by (simp add: demo_bytes demo_blk_def demo_dir_def put_dirent_def)

lemma demo_dir_eq: "demo_dir = [2, 0, 0, 0, 12, 0, 1, 2, 46, 0, 0, 0, 2, 0, 0, 0, 12, 0, 2, 2, 46, 46, 0, 0, 3, 0, 0, 0, 232, 3, 1, 1, 102]"
  by (simp add: demo_dir_def put_dirent_def st32_def st16_def)

lemma demo_walk: "dir_walk (blk_bytes demo_vol 6) 1024 0 = [0, 12, 24]"
  unfolding demo_dir_bytes demo_dir_eq
  by (simp add: dir_walk.simps de_rec_len_def rd16_def ld16_def nth_append)

lemma demo_entry:
  "de_inode (blk_bytes demo_vol 6) 0 = 2" "de_inode (blk_bytes demo_vol 6) 12 = 2" "de_inode (blk_bytes demo_vol 6) 24 = 3"
  "de_name (blk_bytes demo_vol 6) 0 = [46]" "de_name (blk_bytes demo_vol 6) 12 = [46, 46]" "de_name (blk_bytes demo_vol 6) 24 = [102]"
  "de_name_len (blk_bytes demo_vol 6) 0 = 1" "de_name_len (blk_bytes demo_vol 6) 12 = 2" "de_name_len (blk_bytes demo_vol 6) 24 = 1"
  unfolding demo_dir_bytes demo_dir_eq
  by (simp_all add: de_inode_def de_name_def de_name_len_def rd32_def ld32_def nth_append)

lemma demo_lookup:
  "e2_lookup demo_root name demo_vol = (if name = [46] \<or> name = [46, 46] then 2 else if name = [102] then 3 else 0)"
proof -
  have b: "i_block demo_root = 6 # replicate 14 0" by (simp add: demo_root_def)
  have "dir_find (blk_bytes demo_vol 6) 1024 name
      = (if name = [46] then Some 0 else if name = [46, 46] then Some 12 else if name = [102] then Some 24 else None)"
    by (auto simp: dir_find_def demo_walk demo_entry e2_name_eq_def)
  moreover have "lookup_blocks (replicate n 0) name demo_vol = None" for n by (cases n) simp_all
  ultimately show ?thesis
    by (simp add: e2_lookup_def b e2_read_block_eq demo_device demo_fields demo_entry take_Cons' split: if_splits)
qed

lemma demo_data: "data_block demo_vol 6" "data_block demo_vol 7" "6 \<notin> free_blocks demo_vol" "7 \<notin> free_blocks demo_vol"
proof -
  have n: "block_no demo_vol ` ({0} \<times> A) = (\<lambda>i. 1 + of_nat i) ` A" for A
    by (auto simp: demo_block_no image_iff)
  have "(6 :: u32) \<in> (\<lambda>i. 1 + of_nat i) ` {0..<16}" by (rule image_eqI [where x = 5]) simp_all
  moreover have "(7 :: u32) \<in> (\<lambda>i. 1 + of_nat i) ` {0..<16}" by (rule image_eqI [where x = 6]) simp_all
  ultimately show "data_block demo_vol 6" "data_block demo_vol 7"
    unfolding data_block_def reserved_def demo_areas demo_slots n by simp_all
  have "unat b \<ge> 8" if "b \<in> free_blocks demo_vol" for b
  proof -
    have "slots Blocks demo_vol - used Blocks demo_vol = {0} \<times> {7..<16}" by (auto simp: demo_slots demo_used)
    with that obtain i where "i < 16" "7 \<le> i" "b = 1 + of_nat i"
      by (auto simp: free_blocks_def n)
    then show ?thesis by (simp add: unat_word_ariths unat_of_nat)
  qed
  from this [of 6] this [of 7] show "6 \<notin> free_blocks demo_vol" "7 \<notin> free_blocks demo_vol" by auto
qed

lemma demo_fs_ok: "fs_ok demo_vol"
  unfolding fs_ok_def demo_tree demo_live(1)
proof (intro conjI ballI impI allI)
  fix j
  assume j: "j \<in> {2, 3 :: u32}"
  show "no_holes (inode_at demo_vol j)" "distinct (blks_of demo_vol (inode_at demo_vol j))"
    using j by (auto simp: demo_inodes demo_blks)
  fix b
  assume "b \<in> set (blks_of demo_vol (inode_at demo_vol j))"
  then show "data_block demo_vol b" "b \<notin> free_blocks demo_vol" using j demo_data by (auto simp: demo_inodes demo_blks)
next
  fix j k
  assume "j \<in> {2, 3 :: u32}" "k \<in> {2, 3 :: u32}" "j \<noteq> k"
  then show "set (blks_of demo_vol (inode_at demo_vol j)) \<inter> set (blks_of demo_vol (inode_at demo_vol k)) = {}"
    by (auto simp: demo_inodes demo_blks)
next
  fix j name
  assume "j \<in> {1, 2, 3 :: u32}" and d: "is_dir (inode_at demo_vol j)"
  then have "j = 2" using demo_kinds by (auto simp: demo_inodes node_def)
  then show "e2_lookup (inode_at demo_vol j) name demo_vol \<in> insert 0 {1, 2, 3}" by (simp add: demo_inodes demo_lookup)
qed (simp_all add: demo_vol_ok)

lemma demo_resolve: "e2_resolve (Some [47, 102]) demo_vol = 3" "e2_resolve (Some [47]) demo_vol = 2"
proof -
  have "next_comp [102] = ([102], [])" by (simp add: next_comp_def)
  then show "e2_resolve (Some [47, 102]) demo_vol = 3" "e2_resolve (Some [47]) demo_vol = 2"
    using e2_read_inode_eq [OF demo_layout demo_live(3)]
    by (simp_all add: e2_resolve_def resolve_loop.simps demo_inodes demo_kinds demo_lookup)
qed

lemma demo_writable: "writable [47, 102] 3 demo_vol"
  by (simp add: writable_def demo_resolve demo_inodes demo_kinds e2_split_path_def)

lemma demo_free_card: "card (free_blocks demo_vol) = 9"
proof -
  have "inj_on (block_no demo_vol) (slots Blocks demo_vol - used Blocks demo_vol)"
    by (rule inj_on_subset [OF block_no_inj_on [OF demo_layout]]) blast
  then have "card (free_blocks demo_vol) = card (slots Blocks demo_vol - used Blocks demo_vol)"
    unfolding free_blocks_def by (rule card_image)
  also have "slots Blocks demo_vol - used Blocks demo_vol = {0} \<times> {7..<16}" by (auto simp: demo_slots demo_used)
  finally show ?thesis by simp
qed

lemma demo_room: "length data \<le> 3072 \<Longrightarrow> room_for data 3 demo_vol"
  using nblk_le [of 1024 "length data" 3]
  by (simp add: room_for_def demo_free_card demo_inodes demo_blks blocks_for_def demo_fields direct_cap_def)

lemma demo_max: "unat (max_file_size demo_vol) = 274432"
  by (simp add: max_file_size_def demo_fields)

end
