(* ===== verification/Ext2_Props.thy ===== *)
theory Ext2_Props
  imports Ext2_Demo
begin

text \<open>
  What the ext2 driver promises: the block allocator implements an abstract allocator over a set,
  an inode that is written reads back and no other inode changes, and overwriting a file.
\<close>

text \<open>
  Claim C3. On a well-formed volume \<open>e2_alloc_block\<close> implements the abstract allocator: it takes the first slot
  in the order of groups and bits whose bit is clear, sets that bit and no other, in the block
  bitmaps and the inode bitmaps alike, and returns 0 only if every block is in use.\<close>

theorem e2_alloc_block_refines:
  assumes "vol_ok s"
  shows "(fst (e2_alloc_block s), used Blocks (snd (e2_alloc_block s)), used Inodes (snd (e2_alloc_block s)), vol_ok (snd (e2_alloc_block s)))
    = (case abs_alloc (all_slots Blocks s) (used Blocks s) of
         (r, U) \<Rightarrow> (case r of None \<Rightarrow> 0 | Some x \<Rightarrow> block_no s x, U, used Inodes s, True))"
  using assms
proof (cases rule: e2_alloc_block_cases)
  case none
  then have "find (\<lambda>x. x \<notin> used Blocks s) (all_slots Blocks s) = None" by (auto simp: find_None_iff set_all_slots)
  then show ?thesis using assms none(1) by (simp add: abs_alloc_def)
next
  case (some x)
  then show ?thesis using take_slot_spec [OF assms some(2,3)] by (simp add: abs_alloc_def)
qed

theorem e2_alloc_block_refines_witness:
  "(fst (e2_alloc_block demo_vol), used Blocks (snd (e2_alloc_block demo_vol)), used Inodes (snd (e2_alloc_block demo_vol)),
      vol_ok (snd (e2_alloc_block demo_vol)))
    = (case abs_alloc (all_slots Blocks demo_vol) (used Blocks demo_vol) of
         (r, U) \<Rightarrow> (case r of None \<Rightarrow> 0 | Some x \<Rightarrow> block_no demo_vol x, U, used Inodes demo_vol, True))"
  by (rule e2_alloc_block_refines [OF demo_vol_ok])

text \<open>
  A block that was allocated and is given back with \<open>e2_free_block\<close> is free again, the set of free
  blocks is what it was before, and the volume is well-formed, its free counts included.\<close>

theorem e2_free_block_undoes_alloc:
  assumes "vol_ok s" "fst (e2_alloc_block s) \<noteq> 0"
  shows "vol_ok (e2_free_block (fst (e2_alloc_block s)) (snd (e2_alloc_block s)))
    \<and> free_blocks (e2_free_block (fst (e2_alloc_block s)) (snd (e2_alloc_block s))) = free_blocks s"
  by (rule blocks.alloc_free_restores [OF assms(1) _ assms(2)]) simp

theorem e2_free_block_undoes_alloc_witness:
  "vol_ok (e2_free_block (fst (e2_alloc_block demo_vol)) (snd (e2_alloc_block demo_vol)))
    \<and> free_blocks (e2_free_block (fst (e2_alloc_block demo_vol)) (snd (e2_alloc_block demo_vol))) = free_blocks demo_vol"
proof (rule e2_free_block_undoes_alloc [OF demo_vol_ok])
  have "free_blocks demo_vol \<noteq> {}" using demo_free_card by auto
  then show "fst (e2_alloc_block demo_vol) \<noteq> 0" using blocks.alloc_succeeds_iff [OF demo_vol_ok] by simp
qed

text \<open>
  An inode that \<open>e2_write_inode\<close> stores is the one \<open>e2_read_inode\<close> loads from the inode table, and
  every other inode of the volume reads as before, those in the same block of the table included.\<close>

theorem e2_inode_roundtrip:
  assumes "vol_ok s" "has_inode s ino" "inode_wf i"
  shows "fst (e2_write_inode ino i s) \<and> e2_read_inode j (snd (e2_write_inode ino i s)) = (if j = ino then Some i else e2_read_inode j s)"
proof -
  note l = vol_ok_layout [OF assms(1)]
  let ?s = "put_inode_at ino i s"
  have sl: "same_layout s ?s" using updD(2) [OF put_inode_at_upd(1) [OF assms]] .
  have h: "has_inode ?s j = has_inode s j" using same_layout_data_block(2) [OF sl l] by simp
  have "e2_read_inode j ?s = (if j = ino then Some i else e2_read_inode j s)"
    unfolding e2_read_inode_iff [OF same_layout_ok [OF sl l]] e2_read_inode_iff [OF l] h
    using inode_at_put [OF l assms(2,3), of j] assms(2) by (cases "j = ino") auto
  then show ?thesis using e2_write_inode_eq [OF l assms(2)] by simp
qed

theorem e2_inode_roundtrip_witness:
  "fst (e2_write_inode 3 demo_root demo_vol) \<and> e2_read_inode 2 (snd (e2_write_inode 3 demo_root demo_vol))
    = (if 2 = (3 :: u32) then Some demo_root else e2_read_inode 2 demo_vol)"
  by (rule e2_inode_roundtrip [OF demo_vol_ok demo_live(4) demo_inode_wf(1)])

text \<open>
  Claim C2. Overwriting a file: on a well-formed file system with room for the data, \<open>ext2_write_file\<close> on the
  path of a regular file returns 0, the file system stays well-formed, and \<open>ext2_read_file\<close> on
  the path then returns exactly the data that was written, through direct and indirect blocks.\<close>

theorem ext2_overwrite_reads_back:
  assumes "fs_ok s" "writable path ino s" "room_for data ino s" "length data \<le> unat (max_file_size s)" "length data \<le> unat max'"
  shows "fst (ext2_write_file (Some path) data s) = 0 \<and> fs_ok (snd (ext2_write_file (Some path) data s))
    \<and> ext2_read_file path max' (snd (ext2_write_file (Some path) data s)) = Some data"
  by (rule overwrite_reads [OF assms])

theorem ext2_overwrite_reads_back_witness:
  "fst (ext2_write_file (Some [47, 102]) (replicate 3000 65) demo_vol) = 0
    \<and> fs_ok (snd (ext2_write_file (Some [47, 102]) (replicate 3000 65) demo_vol))
    \<and> ext2_read_file [47, 102] 65536 (snd (ext2_write_file (Some [47, 102]) (replicate 3000 65) demo_vol)) = Some (replicate 3000 65)"
  using ext2_overwrite_reads_back [OF demo_fs_ok demo_writable demo_room, of "replicate 3000 65" "65536"]
  by (simp add: demo_max)

text \<open>
  Claim C40. Overwriting a file leaves every other file as it was: a path that resolved to another inode
  reads the same bytes before and after the call.\<close>

theorem ext2_overwrite_keeps_others:
  assumes "fs_ok s" "writable path ino s" "room_for data ino s" "length data \<le> unat (max_file_size s)" "e2_resolve (Some path2) s \<noteq> ino"
  shows "ext2_read_file path2 max' (snd (ext2_write_file (Some path) data s)) = ext2_read_file path2 max' s"
proof -
  obtain i3 s3 where o: "ext2_write_file (Some path) data s = (0, s3)" "replaced ino i3 s s3"
    using overwrite_run [OF assms(1-4)] by blast
  note t = writable_tree [OF assms(1,2)]
  have fs3: "fs_ok s3" by (rule replaced_fs_ok [OF assms(1) _ _ o(2)]) (use t in simp_all)
  let ?j = "e2_resolve (Some path2) s"
  have r: "e2_resolve (Some path2) s3 = ?j"
    using e2_resolve_cong [OF assms(1) replaced_dirs_agree [OF assms(1) _ _ o(2)]] t by simp
  have "ext2_read_file path2 max' s3 = ext2_read_file path2 max' s"
  proof (cases "?j = 0")
    case True
    then show ?thesis using r by (simp add: ext2_read_file_def)
  next
    case False
    have l: "?j \<in> live s" by (rule e2_resolve_live [OF assms(1) False])
    then have h: "has_inode s ?j" "has_inode s3 ?j" "inode_at s3 ?j = inode_at s ?j"
      using o(2) assms(5) same_layout_data_block(2) [OF _ fs_okD(2) [OF assms(1)], of s3] by (auto simp: replaced_def live_def)
    have "read_inode_data (inode_at s ?j) n s3 = read_inode_data (inode_at s ?j) n s" if f: "is_file (inode_at s ?j)" for n
    proof (rule read_inode_data_cong [OF fs_okD(3) [OF assms(1)] fs_okD(3) [OF fs3]])
      have j: "?j \<in> tree s" using l f by (simp add: tree_def node_def)
      show "blk_bytes s3 b = blk_bytes s b" if "b \<in> set (blks_of s (inode_at s ?j))" for b
        using replaced_keeps(1) [OF assms(1) _ o(2) j assms(5) that] t by simp
      show "block_size s3 = block_size s" using o(2) same_layout_fields(2) by (auto simp: replaced_def)
    qed
    then show ?thesis
      using r h layout_okD(1) [OF fs_okD(2) [OF fs3]] layout_okD(1) [OF fs_okD(2) [OF assms(1)]]
        e2_read_inode_eq [OF fs_okD(2) [OF fs3] h(2)] e2_read_inode_eq [OF fs_okD(2) [OF assms(1)] h(1)]
      by (simp add: ext2_read_file_def Let_def)
  qed
  then show ?thesis using o(1) by simp
qed

theorem ext2_overwrite_keeps_others_witness:
  "ext2_read_file [47] 65536 (snd (ext2_write_file (Some [47, 102]) (replicate 3000 65) demo_vol)) = ext2_read_file [47] 65536 demo_vol"
  using ext2_overwrite_keeps_others [OF demo_fs_ok demo_writable demo_room, of "replicate 3000 65" "[47]" "65536"]
  by (simp add: demo_max demo_resolve)

text \<open>
  An overwrite for which the free blocks and the old blocks of the file do not suffice returns -1 after it has given the old blocks back and taken
  every free block of the volume: nothing is free any more, and the inode of the file is the old
  one, which still names its old blocks.\<close>

theorem ext2_overwrite_full_leaks:
  assumes "fs_ok s" "writable path ino s" "length data \<le> unat (max_file_size s)" "\<not> room_for data ino s"
  shows "fst (ext2_write_file (Some path) data s) = - 1 \<and> free_blocks (snd (ext2_write_file (Some path) data s)) = {}
    \<and> inode_at (snd (ext2_write_file (Some path) data s)) ino = inode_at s ino"
proof -
  let ?i = "inode_at s ino"
  let ?s1 = "free_file_blocks ?i s"
  note t = writable_tree [OF assms(1,2)]
  have ino: "ino \<in> tree s" using t by simp
  note ff = freed_file [OF assms(1) ino]
  have bs1: "block_size ?s1 = block_size s" using same_layout_fields(2) [OF updD(2) [OF ff(1)]] .
  have n1: "length data \<le> unat (max_file_size ?s1)" using assms(3) by (simp add: max_file_size_def bs1)
  obtain rr s2 where wd: "write_data data (emptied ?i) ?s1 = (rr, s2)" by force
  note ws = write_data_spec [OF updD(1) [OF ff(1)] wd n1 ff(5)] and st = write_starts [OF assms(1-3) wd]
  have none: "rr = None"
  proof (rule ccontr)
    assume "rr \<noteq> None"
    then obtain i2 where "write_data data (emptied ?i) ?s1 = (Some i2, s2)" using wd by auto
    from write_needs_room [OF updD(1) [OF ff(1)] this n1 ff(5)] show False
      using assms(4) by (simp add: room_for_def ff(4) blocks_for_def direct_cap_def bs1)
  qed
  have "inode_at s2 ino = inode_at s ino"
  proof -
    have "itabs ?s1 = itabs s" using same_layout_areas(3) [OF updD(2) [OF ff(1)] layout_okD(3) [OF fs_okD(2) [OF assms(1)]]] .
    then have "upd (free_blocks ?s1) s s2" "free_blocks ?s1 \<inter> itabs s = {}"
      using upd_trans [OF fs_okD(1) [OF assms(1)], of "free_blocks ?s1" ?s1 s2] upd_mono [OF ff(1)] ws free_not_itab [OF updD(1) [OF ff(1)]] by auto
    then show ?thesis using upd_inode_at [OF _ fs_okD(2) [OF assms(1)]] t by blast
  qed
  then show ?thesis using st ws by (simp add: none data_post_def)
qed

theorem ext2_overwrite_full_leaks_witness:
  "fst (ext2_write_file (Some [47, 102]) (replicate 11000 65) demo_vol) = - 1
    \<and> free_blocks (snd (ext2_write_file (Some [47, 102]) (replicate 11000 65) demo_vol)) = {}
    \<and> inode_at (snd (ext2_write_file (Some [47, 102]) (replicate 11000 65) demo_vol)) 3 = inode_at demo_vol 3"
  by (rule ext2_overwrite_full_leaks [OF demo_fs_ok demo_writable])
     (simp_all add: demo_max room_for_def demo_free_card demo_inodes demo_blks blocks_for_def nblk_def demo_fields direct_cap_def)

end
