(* ===== verification/Vfs.thy ===== *)
theory Vfs
  imports Ramfs Initrd Ext2_Props
begin

text \<open>
  The virtual file system, \<open>kernel/src/vfs.c\<close>: three layers, the file table in memory (\<open>Ramfs\<close>), the
  initial RAM disk (\<open>Initrd\<close>) and the disk (\<open>Ext2\<close>), searched in this order. \<open>kmalloc\<close> is an argument
  where the code calls it. A path is a C string or null; the data of a write is not null. The
  pointer a read returns is given by what it points to.
\<close>

section \<open>Definitions\<close>

record vfs =
  vf_ram :: ramfs
  vf_initrd :: initrd
  vf_ext2 :: ext2
  g_ext2_buf :: bool

datatype vfs_data = In_ramfs "bytes option" | In_initrd nat | In_ext2_buf bytes

definition EXT2_BUF_CAP :: u32 where
  "EXT2_BUF_CAP = 64 * 1024"

definition vfs_norm_path :: "bytes option \<Rightarrow> bytes option" where
  "vfs_norm_path p = map_option (dropWhile (\<lambda>c. c = 47)) p"

text \<open>The guard \<open>!n || !*n\<close> on a normalised path.\<close>

definition norm_name :: "bytes option \<Rightarrow> bytes option" where
  "norm_name p = (case vfs_norm_path p of None \<Rightarrow> None | Some n \<Rightarrow> if n = [] then None else Some n)"

definition full_path :: "bytes \<Rightarrow> bytes" where
  "full_path n = 47 # take 256 n"

definition vfs_init :: "limine_file option list option \<Rightarrow> vfs \<Rightarrow> vfs" where
  "vfs_init mods s = s\<lparr>vf_initrd := initrd_init mods (vf_initrd s)\<rparr>"

definition vfs_read :: "(u32 \<Rightarrow> bytes option) \<Rightarrow> bytes option \<Rightarrow> vfs \<Rightarrow> (vfs_data \<times> u64) option \<times> vfs" where
  "vfs_read kmalloc path s =
     (case norm_name path of
        None \<Rightarrow> (None, s)
      | Some n \<Rightarrow>
          (case ramfs_get (Some n) (vf_ram s) of
             Some (d, sz) \<Rightarrow> (Some (In_ramfs d, sz), s)
           | None \<Rightarrow>
               (case initrd_get (Some n) (vf_initrd s) of
                  Some (d, sz) \<Rightarrow> (Some (In_initrd d, sz), s)
                | None \<Rightarrow>
                    if \<not> ext2_present (vf_ext2 s) then (None, s)
                    else if \<not> g_ext2_buf s \<and> kmalloc EXT2_BUF_CAP = None then (None, s)
                    else
                      let s1 = s\<lparr>g_ext2_buf := True\<rparr> in
                      (case ext2_read_file (full_path n) EXT2_BUF_CAP (vf_ext2 s1) of
                         None \<Rightarrow> (None, s1)
                       | Some d \<Rightarrow> (Some (In_ext2_buf d, of_nat (length d)), s1)))))"

text \<open>\<open>vfs_name_seen\<close>: the name is a line of the buffer.\<close>

definition vfs_name_seen :: "bytes \<Rightarrow> bytes \<Rightarrow> bool" where
  "vfs_name_seen buf name \<longleftrightarrow>
     list_ex (\<lambda>i. (i = 0 \<or> buf ! (i - 1) = 10) \<and> buf ! (i + length name) = 10 \<and> take (length name) (drop i buf) = name)
       [0..<length buf - length name]"

function copy_entries :: "bytes \<Rightarrow> nat \<Rightarrow> bytes \<Rightarrow> bytes" where
  "copy_entries raw cap buf =
     (let name = takeWhile (\<lambda>c. c \<noteq> 10) raw in
      case drop (length name) raw of
        [] \<Rightarrow> buf
      | _ # rest \<Rightarrow>
          copy_entries rest cap
            (if \<not> vfs_name_seen buf name \<and> length buf + length name + 1 < cap then buf @ name @ [10] else buf))"
  by pat_completeness auto
termination
proof (relation "measure (\<lambda>(raw, cap, buf). length raw)")
  fix raw buf x x22 :: bytes and cap :: nat and x21 :: u8
  assume "drop (length x) raw = x21 # x22"
  then have "length (drop (length x) raw) = Suc (length x22)" by simp
  then show "((x22, cap, if \<not> vfs_name_seen buf x \<and> length buf + length x + 1 < cap then buf @ x @ [10] else buf), raw, cap, buf)
    \<in> measure (\<lambda>(raw, cap, buf). length raw)" by simp
qed simp

declare copy_entries.simps [simp del]

definition LIST_TMP :: nat where
  "LIST_TMP = 8192"

definition list_raw :: "vfs \<Rightarrow> bytes" where
  "list_raw s =
     (let r1 = ramfs_ls_buf LIST_TMP (vf_ram s);
          r2 = r1 @ initrd_ls_buf (LIST_TMP - length r1) (vf_initrd s)
      in if ext2_present (vf_ext2 s) then r2 @ ext2_ls_buf (LIST_TMP - length r2) (vf_ext2 s) else r2)"

definition vfs_list :: "nat \<Rightarrow> vfs \<Rightarrow> bytes" where
  "vfs_list cap s = (if cap = 0 then [] else copy_entries (list_raw s) cap [])"

definition vfs_listdir :: "bytes option \<Rightarrow> nat \<Rightarrow> vfs \<Rightarrow> bytes" where
  "vfs_listdir path cap s =
     (if cap = 0 then []
      else case path of
          None \<Rightarrow> vfs_list cap s
        | Some p \<Rightarrow>
            if p = [] \<or> p = [47] then vfs_list cap s
            else if \<not> ext2_present (vf_ext2 s) then []
            else ext2_ls_buf_at (Some (if hd p = 47 then take 257 p else 47 # take 256 p)) cap (vf_ext2 s))"

definition vfs_mkdir :: "bytes option \<Rightarrow> vfs \<Rightarrow> int \<times> vfs" where
  "vfs_mkdir path s =
     (if \<not> ext2_present (vf_ext2 s) then (- 1, s)
      else case norm_name path of
          None \<Rightarrow> (- 1, s)
        | Some n \<Rightarrow> let (r, e) = ext2_mkdir (Some (full_path n)) (vf_ext2 s) in (r, s\<lparr>vf_ext2 := e\<rparr>))"

definition vfs_filesize :: "bytes option \<Rightarrow> vfs \<Rightarrow> int" where
  "vfs_filesize path s =
     (case norm_name path of
        None \<Rightarrow> - 1
      | Some n \<Rightarrow>
          (case ramfs_get (Some n) (vf_ram s) of
             Some (d, sz) \<Rightarrow> sint (ucast sz :: u32)
           | None \<Rightarrow> if ext2_present (vf_ext2 s) then ext2_file_size (full_path n) (vf_ext2 s) else - 1))"

definition vfs_delete :: "bytes option \<Rightarrow> vfs \<Rightarrow> int \<times> vfs" where
  "vfs_delete path s =
     (case norm_name path of
        None \<Rightarrow> (- 1, s)
      | Some n \<Rightarrow>
          let s1 = s\<lparr>vf_ram := snd (ramfs_delete (Some n) (vf_ram s))\<rparr> in
          if \<not> ext2_present (vf_ext2 s1) then (0, s1)
          else let (r, e) = ext2_delete_file (Some (full_path n)) (vf_ext2 s1) in (r, s1\<lparr>vf_ext2 := e\<rparr>))"

text \<open>Every prefix of the path that ends in front of a slash.\<close>

definition vfs_mkdirs :: "bytes \<Rightarrow> ext2 \<Rightarrow> ext2" where
  "vfs_mkdirs path e =
     (let tmp = take 257 path in
      fold (\<lambda>j e. if tmp ! j \<noteq> 47 then e
                  else if ext2_isdir (Some (take j tmp)) e then e
                  else snd (ext2_mkdir (Some (take j tmp)) e))
        [1..<length tmp] e)"

definition vfs_write :: "(u32 \<Rightarrow> bytes option) \<Rightarrow> bytes option \<Rightarrow> bytes \<Rightarrow> u64 \<Rightarrow> vfs \<Rightarrow> int \<times> vfs" where
  "vfs_write kmalloc path data size' s =
     (case norm_name path of
        None \<Rightarrow> (- 1, s)
      | Some n \<Rightarrow>
          if ext2_present (vf_ext2 s) then
            let full = full_path n;
                (r, e) = ext2_write_file (Some full) (take (unat (ucast size' :: u32)) data) (vfs_mkdirs full (vf_ext2 s))
            in (r, s\<lparr>vf_ext2 := e\<rparr>)
          else let (ok, rf) = ramfs_write kmalloc (Some n) (Some data) (ucast size') (vf_ram s)
            in (if ok then 0 else - 1, s\<lparr>vf_ram := rf\<rparr>))"

text \<open>The disk part of a rename: copy the file to the new name, then delete the old name.\<close>

definition ext2_rename :: "(u32 \<Rightarrow> bytes option) \<Rightarrow> bytes \<Rightarrow> bytes \<Rightarrow> ext2 \<Rightarrow> ext2" where
  "ext2_rename kmalloc old new e =
     (let fsize = ext2_file_size old e in
      if fsize > 0 then
        (case kmalloc (of_int fsize) of
           None \<Rightarrow> e
         | Some _ \<Rightarrow>
             (case ext2_read_file old (of_int fsize) e of
                None \<Rightarrow> e
              | Some d \<Rightarrow>
                  if length d > 0 then snd (ext2_delete_file (Some old) (snd (ext2_write_file (Some new) d e))) else e))
      else if fsize = 0 then snd (ext2_delete_file (Some old) (snd (ext2_write_file (Some new) [] e)))
      else e)"

definition vfs_rename :: "(u32 \<Rightarrow> bytes option) \<Rightarrow> bytes option \<Rightarrow> bytes option \<Rightarrow> vfs \<Rightarrow> int \<times> vfs" where
  "vfs_rename kmalloc old_path new_path s =
     (case (norm_name old_path, norm_name new_path) of
        (Some no, Some nn) \<Rightarrow>
          let s1 = s\<lparr>vf_ram := snd (ramfs_rename (Some no) (Some nn) (vf_ram s))\<rparr> in
          (0, if ext2_present (vf_ext2 s1) then s1\<lparr>vf_ext2 := ext2_rename kmalloc (full_path no) (full_path nn) (vf_ext2 s1)\<rparr> else s1)
      | _ \<Rightarrow> (- 1, s))"

definition vfs_isdir :: "bytes option \<Rightarrow> vfs \<Rightarrow> bool" where
  "vfs_isdir path s =
     (case norm_name path of
        None \<Rightarrow> True
      | Some n \<Rightarrow> if \<not> ext2_present (vf_ext2 s) then False else ext2_isdir (Some (full_path n)) (vf_ext2 s))"

definition vfs_cat :: "bytes option \<Rightarrow> vfs \<Rightarrow> bytes option" where
  "vfs_cat path s = (case norm_name path of None \<Rightarrow> None | Some n \<Rightarrow> initrd_cat (Some n) (vf_initrd s))"

section \<open>Listings\<close>

text \<open>A listing is a run of lines; the lines of a buffer.\<close>

definition enc :: "bytes list \<Rightarrow> bytes" where
  "enc ns = concat (map (\<lambda>n. n @ [10]) ns)"

definition line_name :: "bytes \<Rightarrow> bool" where
  "line_name n \<longleftrightarrow> 10 \<notin> set n"

fun lines_of :: "bytes \<Rightarrow> bytes \<Rightarrow> bytes list" where
  "lines_of acc [] = []"
| "lines_of acc (c # cs) = (if c = 10 then acc # lines_of [] cs else lines_of (acc @ [c]) cs)"

lemma enc_simps [simp]: "enc [] = []" "enc (n # ns) = n @ 10 # enc ns" "enc (xs @ ys) = enc xs @ enc ys"
  by (simp_all add: enc_def)

lemma takeWhile_line: "line_name n \<Longrightarrow> takeWhile (\<lambda>c. c \<noteq> 10) (n @ 10 # r) = n"
  by (induction n) (auto simp: line_name_def)

lemma enc_starts:
  assumes "\<forall>n \<in> set ns. line_name n" "i < length (enc ns)" "i = 0 \<or> enc ns ! (i - 1) = 10"
  shows "\<exists>xs y ys. ns = xs @ y # ys \<and> i = length (enc xs)"
  using assms
proof (induction ns arbitrary: i)
  case (Cons n ns)
  consider "i = 0" | "0 < i" "i \<le> length n" | "length n < i" by linarith
  then show ?case
  proof cases
    case 1
    then show ?thesis by (intro exI [of _ "[]"] exI [of _ n] exI [of _ ns]) simp
  next
    case 2
    then have "i - 1 < length n" by simp
    then have "n ! (i - 1) = 10" using Cons.prems(3) 2 by (simp add: nth_append)
    then show ?thesis using Cons.prems(1) \<open>i - 1 < length n\<close> nth_mem [of "i - 1" n] by (auto simp: line_name_def)
  next
    case 3
    let ?j = "i - length n - 1"
    have "?j < length (enc ns)" using Cons.prems(2) 3 by simp
    moreover have "?j = 0 \<or> enc ns ! (?j - 1) = 10"
    proof (cases "?j = 0")
      case False
      have "i - 1 - length n = Suc (?j - 1)" using False 3 by linarith
      moreover have "enc (n # ns) ! (i - 1) = (10 # enc ns) ! (i - 1 - length n)"
      proof -
        have "\<not> i - 1 < length n" using 3 by linarith
        then show ?thesis by (simp only: enc_simps nth_append if_False)
      qed
      moreover have "enc (n # ns) ! (i - 1) = 10" using Cons.prems(3) 3 by (metis not_less_zero)
      ultimately show ?thesis by (metis nth_Cons_Suc)
    qed simp
    ultimately obtain xs y ys where "ns = xs @ y # ys" "?j = length (enc xs)" using Cons.IH [of ?j] Cons.prems(1) by auto
    then show ?thesis using 3 by (intro exI [of _ "n # xs"] exI [of _ y] exI [of _ ys]) simp
  qed
qed simp

lemma vfs_name_seen_iff:
  assumes "\<forall>n \<in> set ns. line_name n" "line_name name"
  shows "vfs_name_seen (enc ns) name \<longleftrightarrow> name \<in> set ns"
proof
  assume "vfs_name_seen (enc ns) name"
  then obtain i where "i \<in> set [0..<length (enc ns) - length name]" and i2: "i = 0 \<or> enc ns ! (i - 1) = 10"
    "enc ns ! (i + length name) = 10" "take (length name) (drop i (enc ns)) = name"
    unfolding vfs_name_seen_def list_ex_iff by blast
  then have i: "i + length name < length (enc ns)" "i = 0 \<or> enc ns ! (i - 1) = 10"
    "enc ns ! (i + length name) = 10" "take (length name) (drop i (enc ns)) = name" by (simp_all only: set_upt) simp_all
  obtain xs y ys where s: "ns = xs @ y # ys" "i = length (enc xs)" using enc_starts [OF assms(1) _ i(2)] i(1) by auto
  have d: "drop i (enc ns) = y @ 10 # enc ys" using s by simp
  have l: "length name < length (drop i (enc ns))" using i(1) by simp
  have "drop i (enc ns) = name @ 10 # drop (Suc (length name)) (drop i (enc ns))"
  proof -
    have "drop i (enc ns) ! length name = 10" using i(1,3) by (simp add: add.commute)
    then show ?thesis using id_take_nth_drop [OF l] i(4) by simp
  qed
  then have "takeWhile (\<lambda>c. c \<noteq> 10) (drop i (enc ns)) = name" using takeWhile_line [OF assms(2)] by metis
  moreover have "takeWhile (\<lambda>c. c \<noteq> 10) (drop i (enc ns)) = y" unfolding d using takeWhile_line [of y] assms(1) s(1) by simp
  ultimately show "name \<in> set ns" using s(1) by simp
next
  assume "name \<in> set ns"
  then obtain xs ys where s: "ns = xs @ name # ys" by (auto simp: in_set_conv_decomp)
  let ?i = "length (enc xs)"
  have "?i = 0 \<or> enc ns ! (?i - 1) = 10"
    by (cases xs rule: rev_cases) (simp_all add: s nth_append)
  then show "vfs_name_seen (enc ns) name"
    unfolding vfs_name_seen_def list_ex_iff by (intro bexI [of _ ?i]) (auto simp: s nth_append)
qed

text \<open>The reference: the names in order, each at most once, as long as they fit.\<close>

fun keep_new :: "nat \<Rightarrow> bytes list \<Rightarrow> bytes list \<Rightarrow> bytes list" where
  "keep_new cap seen [] = seen"
| "keep_new cap seen (n # ns) =
     keep_new cap (if n \<notin> set seen \<and> length (enc seen) + length n + 1 < cap then seen @ [n] else seen) ns"

lemma lines_of_split:
  "10 \<notin> set acc \<Longrightarrow> lines_of acc raw =
     (case drop (length (takeWhile (\<lambda>c. c \<noteq> 10) raw)) raw of [] \<Rightarrow> [] | _ # rest \<Rightarrow> (acc @ takeWhile (\<lambda>c. c \<noteq> 10) raw) # lines_of [] rest)"
  by (induction raw arbitrary: acc) (auto split: list.splits)

lemma copy_entries_eq:
  assumes "\<forall>n \<in> set seen. line_name n"
  shows "copy_entries raw cap (enc seen) = enc (keep_new cap seen (lines_of [] raw))"
  using assms
proof (induction "length raw" arbitrary: raw seen rule: less_induct)
  case less
  let ?n = "takeWhile (\<lambda>c. c \<noteq> 10) raw"
  have n: "line_name ?n" by (auto simp: line_name_def dest: set_takeWhileD)
  show ?case
  proof (cases "drop (length ?n) raw")
    case Nil
    then show ?thesis by (subst copy_entries.simps) (simp add: lines_of_split [of "[]" raw] Let_def)
  next
    case (Cons c rest)
    then have "length (drop (length ?n) raw) = Suc (length rest)" by simp
    then have sh: "length rest < length raw" by simp
    let ?seen = "if ?n \<notin> set seen \<and> length (enc seen) + length ?n + 1 < cap then seen @ [?n] else seen"
    have s: "\<forall>n \<in> set ?seen. line_name n" using less.prems n by auto
    have "(if \<not> vfs_name_seen (enc seen) ?n \<and> length (enc seen) + length ?n + 1 < cap then enc seen @ ?n @ [10] else enc seen) = enc ?seen"
      using vfs_name_seen_iff [OF less.prems n] by simp
    then have "copy_entries raw cap (enc seen) = copy_entries rest cap (enc ?seen)"
      by (subst copy_entries.simps) (simp only: Let_def Cons list.case)
    then show ?thesis using less.hyps [OF sh s] by (simp add: lines_of_split [of "[]" raw] Cons)
  qed
qed

lemma keep_new_distinct: "distinct seen \<Longrightarrow> distinct (keep_new cap seen ns)"
  by (induction ns arbitrary: seen) simp_all

lemma keep_new_all:
  "length (enc seen) + length (enc ns) < cap \<Longrightarrow> set (keep_new cap seen ns) = set seen \<union> set ns"
  by (induction ns arbitrary: seen) auto

lemma enc_lines_of: "length (enc (lines_of acc raw)) \<le> length acc + length raw"
  by (induction acc raw rule: lines_of.induct) auto

section \<open>What the three layers list\<close>

lemma take_take_append: "take n (take n xs @ ys) = take n (xs @ ys)"
  by (cases "length xs \<le> n") simp_all

text \<open>A listing that leaves room in its buffer has been cut nowhere.\<close>

lemma uncut: "length (take (cap - 1) xs) + 1 < cap \<Longrightarrow> take (cap - 1) xs = xs"
  by simp

text \<open>The C string at \<open>a\<close>.\<close>

definition cstr_at :: "archive \<Rightarrow> nat \<Rightarrow> bytes \<Rightarrow> bool" where
  "cstr_at m a n \<longleftrightarrow> 0 \<notin> set n \<and> initrd_streq m a n"

lemma cstr_at_unique: "cstr_at m a n \<Longrightarrow> cstr_at m a n' \<Longrightarrow> n = n'"
  unfolding cstr_at_def
proof (induction n arbitrary: a n')
  case Nil
  then show ?case by (cases n') auto
next
  case (Cons c n)
  then show ?case by (cases n') auto
qed

lemma copy_name_cases:
  assumes "length out < cap" "length (copy_name m a cap out) + 1 < cap"
  shows "\<exists>n. cstr_at m a n \<and> copy_name m a cap out = out @ n"
  using assms
proof (induction m a cap out rule: copy_name.induct)
  case (1 m a cap out)
  show ?case
  proof (cases "m a \<noteq> 0 \<and> length out + 1 < cap")
    case True
    then have e: "copy_name m a cap out = copy_name m (Suc a) cap (out @ [m a])" by (subst copy_name.simps) simp
    then obtain n where "cstr_at m (Suc a) n" "copy_name m (Suc a) cap (out @ [m a]) = (out @ [m a]) @ n"
      using 1 True by auto
    then show ?thesis using True e by (intro exI [of _ "m a # n"]) (simp add: cstr_at_def)
  next
    case False
    then have e: "copy_name m a cap out = out" by (subst copy_name.simps) (simp only: if_False)
    then show ?thesis using False 1(3) by (intro exI [of _ "[]"]) (simp add: cstr_at_def)
  qed
qed

lemma copy_name_grows: "length out \<le> length (copy_name m a cap out)"
proof (induction m a cap out rule: copy_name.induct)
  case (1 m a cap out)
  then show ?case by (subst copy_name.simps) auto
qed

abbreviation rd_line :: "archive \<Rightarrow> nat \<Rightarrow> initrd_entry \<Rightarrow> bytes \<Rightarrow> bytes" where
  "rd_line m cap e out \<equiv>
     (let out = copy_name m (ie_name e) cap out in if length out + 1 < cap then out @ [10] else out)"

lemma rd_line_grows: "length out \<le> length (rd_line m cap e out)"
  using copy_name_grows [of out m "ie_name e" cap] by (simp add: Let_def)

lemma rd_fold_grows: "length out \<le> length (fold (rd_line m cap) es out)"
proof (induction es arbitrary: out)
  case (Cons e es)
  then show ?case using order_trans [OF rd_line_grows Cons.IH] by (simp only: fold_simps)
qed simp

lemma rd_fold_names:
  assumes "length out < cap" "length (fold (rd_line m cap) es out) + 1 < cap"
  shows "\<exists>ns. fold (rd_line m cap) es out = out @ enc ns \<and> list_all2 (\<lambda>e n. cstr_at m (ie_name e) n) es ns"
  using assms
proof (induction es arbitrary: out)
  case (Cons e es)
  let ?o = "rd_line m cap e out"
  have l: "length ?o + 1 < cap" using Cons.prems(2) rd_fold_grows [of ?o m cap es] by (simp only: fold_simps)
  then have "length (copy_name m (ie_name e) cap out) + 1 < cap" by (simp add: Let_def split: if_splits)
  then obtain n where n: "cstr_at m (ie_name e) n" "?o = out @ n @ [10]"
    using copy_name_cases [OF Cons.prems(1)] by (force simp: Let_def)
  obtain ns where "fold (rd_line m cap) es ?o = ?o @ enc ns" "list_all2 (\<lambda>e n. cstr_at m (ie_name e) n) es ns"
    using Cons.IH [OF add_lessD1 [OF l]] Cons.prems(2) unfolding fold_simps by blast
  then show ?case using n by (intro exI [of _ "n # ns"]) (simp only: fold_simps, simp)
qed simp

lemma initrd_ls_buf_names:
  assumes "in_base g = Some m" "in_ready g" "length (initrd_ls_buf cap g) + 1 < cap"
  shows "\<exists>ns. initrd_ls_buf cap g = enc ns \<and> (\<forall>n. n \<in> set ns \<longleftrightarrow> 0 \<notin> set n \<and> initrd_get (Some n) g \<noteq> None)"
proof -
  have e: "initrd_ls_buf cap g = fold (rd_line m cap) (in_files g) []" using assms by (simp add: initrd_ls_buf_def)
  then obtain ns where ns: "fold (rd_line m cap) (in_files g) [] = enc ns"
    "list_all2 (\<lambda>e n. cstr_at m (ie_name e) n) (in_files g) ns"
    using rd_fold_names [of "[]" cap m "in_files g"] assms(3) by auto
  have all: "list_all2 (\<lambda>x n. cstr_at m (ie_name x) n) es ns \<Longrightarrow> n \<in> set ns \<longleftrightarrow> (\<exists>x \<in> set es. cstr_at m (ie_name x) n)" for es n
    by (induction es ns rule: list_all2_induct) (auto dest: cstr_at_unique)
  have "initrd_get (Some n) g \<noteq> None \<longleftrightarrow> (\<exists>x \<in> set (in_files g). initrd_streq m (ie_name x) n)" for n
    using assms(1,2) by (simp add: initrd_get_def first_idx_None)
  then show ?thesis using e ns(1) all [OF ns(2)] by (intro exI [of _ ns]) (auto simp: cstr_at_def)
qed

lemma initrd_get_off: "\<not> in_ready g \<or> in_base g = None \<Longrightarrow> initrd_get (Some n) g = None"
  by (auto simp: initrd_get_def split: option.splits)

lemma initrd_ls_buf_off: "\<not> in_ready g \<or> in_base g = None \<Longrightarrow> initrd_ls_buf cap g = []"
  by (auto simp: initrd_ls_buf_def split: option.splits)

text \<open>The live names of the blocks of a directory; \<open>.\<close> and \<open>..\<close> are left out.\<close>

definition shown :: "bytes \<Rightarrow> nat \<Rightarrow> bool" where
  "shown b p \<longleftrightarrow> de_inode b p \<noteq> 0 \<and> de_name_len b p > 0 \<and> de_name b p \<noteq> [46] \<and> de_name b p \<noteq> [46, 46]"

fun dir_names :: "u32 list \<Rightarrow> ext2 \<Rightarrow> bytes list" where
  "dir_names [] s = []"
| "dir_names (b # bs) s =
     (if b = 0 then []
      else case e2_read_block b s of
          None \<Rightarrow> dir_names bs s
        | Some buf \<Rightarrow> map (de_name buf) (filter (shown buf) (dir_walk buf (unat (block_size s)) 0)) @ dir_names bs s)"

lemma list_entries:
  "length out < cap \<Longrightarrow> fold (list_entry cap b) ps out = take (cap - 1) (out @ enc (map (de_name b) (filter (shown b) ps)))"
proof (induction ps arbitrary: out)
  case (Cons p ps)
  let ?o = "out @ (if shown b p then de_name b p @ [10] else [])"
  have "list_entry cap b p out = take (cap - 1) ?o"
    using put_chars [of cap out "de_name b p @ [10]"] Cons.prems by (auto simp: list_entry_def shown_def)
  moreover have "length (take (cap - 1) ?o) < cap" using Cons.prems by simp
  ultimately have "fold (list_entry cap b) (p # ps) out
      = take (cap - 1) (take (cap - 1) ?o @ enc (map (de_name b) (filter (shown b) ps)))"
    using Cons.IH by (simp only: fold_simps)
  moreover have "?o @ enc (map (de_name b) (filter (shown b) ps)) = out @ enc (map (de_name b) (filter (shown b) (p # ps)))" by simp
  ultimately show ?case unfolding take_take_append by (simp only:)
qed simp

lemma list_blocks_names:
  "length out < cap \<Longrightarrow> list_blocks bs cap out s = take (cap - 1) (out @ enc (dir_names bs s))"
proof (induction bs arbitrary: out)
  case (Cons b bs)
  show ?case
  proof (cases "b = 0 \<or> e2_read_block b s = None")
    case True
    then show ?thesis using Cons by auto
  next
    case False
    then obtain buf where r: "b \<noteq> 0" "e2_read_block b s = Some buf" by blast
    let ?ns = "map (de_name buf) (filter (shown buf) (dir_walk buf (unat (block_size s)) 0))"
    have "length (take (cap - 1) (out @ enc ?ns)) < cap" using Cons.prems by simp
    note I = Cons.IH [OF this]
    have "list_blocks (b # bs) cap out s = take (cap - 1) (take (cap - 1) (out @ enc ?ns) @ enc (dir_names bs s))"
      using r by (simp only: list_blocks.simps if_False option.case list_entries [OF Cons.prems] I)
    then show ?thesis using r unfolding take_take_append by simp
  qed
qed simp

text \<open>A directory whose entries lie in their blocks with names that hold neither a slash nor a newline.\<close>

definition plain_dir :: "u32 list \<Rightarrow> ext2 \<Rightarrow> bool" where
  "plain_dir bs s \<longleftrightarrow> (\<forall>b \<in> set bs. \<forall>buf. b \<noteq> 0 \<longrightarrow> e2_read_block b s = Some buf \<longrightarrow>
     (\<forall>p \<in> set (dir_walk buf (unat (block_size s)) 0). de_inode buf p \<noteq> 0 \<longrightarrow>
        p + 8 + de_name_len buf p \<le> length buf \<and> 47 \<notin> set (de_name buf p) \<and> 10 \<notin> set (de_name buf p)))"

lemma dir_names_lookup:
  "plain_dir bs s \<Longrightarrow> n \<in> set (dir_names bs s) \<longleftrightarrow> n \<notin> {[], [46], [46, 46]} \<and> lookup_blocks bs n s \<noteq> None"
proof (induction bs)
  case (Cons b bs)
  have pl: "plain_dir bs s" using Cons.prems by (simp add: plain_dir_def)
  show ?case
  proof (cases "b = 0 \<or> e2_read_block b s = None")
    case True
    then show ?thesis using Cons.IH [OF pl] by auto
  next
    case False
    then obtain buf where r: "b \<noteq> 0" "e2_read_block b s = Some buf" by blast
    let ?w = "dir_walk buf (unat (block_size s)) 0"
    have l: "length (de_name buf p) = de_name_len buf p" if "p \<in> set ?w" "de_inode buf p \<noteq> 0" for p
      using Cons.prems r that by (auto simp: plain_dir_def de_name_def)
    have sh: "shown buf p \<and> de_name buf p = n \<longleftrightarrow> n \<notin> {[], [46], [46, 46]} \<and> de_inode buf p \<noteq> 0 \<and> e2_name_eq buf p n"
      if "p \<in> set ?w" for p
    proof (cases "de_inode buf p = 0")
      case False
      then have "0 < de_name_len buf p \<longleftrightarrow> de_name buf p \<noteq> []" using l [OF that] by (metis length_greater_0_conv)
      then show ?thesis using l [OF that] unfolding shown_def e2_name_eq_def by auto
    qed (simp add: shown_def)
    have "n \<in> set (map (de_name buf) (filter (shown buf) ?w)) \<longleftrightarrow> (\<exists>p \<in> set ?w. shown buf p \<and> de_name buf p = n)" by auto
    then have "n \<in> set (map (de_name buf) (filter (shown buf) ?w)) \<longleftrightarrow>
        n \<notin> {[], [46], [46, 46]} \<and> (\<exists>p \<in> set ?w. de_inode buf p \<noteq> 0 \<and> e2_name_eq buf p n)"
      using sh by blast
    moreover have "dir_find buf (unat (block_size s)) n = None \<longleftrightarrow> \<not> (\<exists>p \<in> set ?w. de_inode buf p \<noteq> 0 \<and> e2_name_eq buf p n)"
      by (auto simp: dir_find_def find_None_iff)
    ultimately show ?thesis using r Cons.IH [OF pl] by (auto split: option.splits)
  qed
qed simp

lemma dir_names_plain:
  assumes "plain_dir bs s" "n \<in> set (dir_names bs s)"
  shows "47 \<notin> set n \<and> 10 \<notin> set n \<and> length n \<le> 255"
  using assms
proof (induction bs)
  case (Cons b bs)
  have "de_name_len buf p < 256" for buf p unfolding de_name_len_def using unsigned_less [of "buf ! (p + 6)"] by simp
  moreover have "length (de_name buf p) \<le> de_name_len buf p" for buf p by (simp add: de_name_def)
  ultimately have "length (de_name buf p) \<le> 255" for buf p using le_less_trans [of "length (de_name buf p)"] by fastforce
  then show ?case using Cons by (auto simp: plain_dir_def shown_def split: option.splits if_splits)
qed simp

lemma lookup_blocks_nz: "lookup_blocks bs n s \<noteq> Some 0"
proof (induction bs)
  case (Cons b bs)
  have "de_inode buf p \<noteq> 0" if "dir_find buf k n = Some p" for buf k p
    using that by (auto simp: dir_find_def find_Some_iff)
  then show ?case using Cons by (auto split: option.splits)
qed simp

text \<open>In a root directory of direct blocks the names listed are those a path of one component resolves.\<close>

definition plain_root :: "ext2 \<Rightarrow> bool" where
  "plain_root s \<longleftrightarrow> (\<exists>i. e2_read_inode 2 s = Some i \<and> is_dir i \<and> i_block i ! 12 = 0 \<and> plain_dir (take 12 (i_block i)) s)"

lemma ext2_ls_buf_names:
  assumes "plain_root s" "e2_ready s" "length (ext2_ls_buf cap s) + 1 < cap"
  shows "\<exists>ns. ext2_ls_buf cap s = enc ns \<and> (\<forall>n. n \<in> set ns \<longleftrightarrow>
     n \<notin> {[], [46], [46, 46]} \<and> 47 \<notin> set n \<and> length n \<le> 255 \<and> e2_resolve (Some (47 # n)) s \<noteq> 0)
     \<and> (\<forall>n \<in> set ns. 10 \<notin> set n)"
proof -
  obtain i where i: "e2_read_inode 2 s = Some i" "is_dir i" "i_block i ! 12 = 0" "plain_dir (take 12 (i_block i)) s"
    using assms(1) unfolding plain_root_def by blast
  let ?ns = "dir_names (take 12 (i_block i)) s"
  have "ext2_ls_buf cap s = take (cap - 1) (enc ?ns)"
    using assms(2,3) i(1,2) list_blocks_names [of "[]" cap] by (simp add: ext2_ls_buf_def list_dir_def)
  then have e: "ext2_ls_buf cap s = enc ?ns" using uncut [of cap "enc ?ns"] assms(3) by simp
  have "e2_resolve (Some (47 # n)) s \<noteq> 0 \<longleftrightarrow> lookup_blocks (take 12 (i_block i)) n s \<noteq> None"
    if n: "n \<noteq> []" "47 \<notin> set n" "length n \<le> 255" for n
  proof -
    have "takeWhile (\<lambda>c. c \<noteq> 47) n = n" using n(2) by (auto simp: takeWhile_eq_all_conv)
    then have "next_comp n = (n, [])" using n(3) by (simp add: next_comp_def Let_def del: takeWhile_eq_all_conv)
    then show ?thesis using n(1) i lookup_blocks_nz [of "take 12 (i_block i)" n s]
      by (auto simp: e2_resolve_def resolve_loop.simps e2_lookup_def split: option.splits)
  qed
  then show ?thesis
    using e dir_names_lookup [OF i(4)] dir_names_plain [OF i(4)] by (intro exI [of _ ?ns]) fastforce
qed

section \<open>Properties\<close>

lemma fold_id: "(\<And>x. x \<in> set xs \<Longrightarrow> f x e = e) \<Longrightarrow> fold f xs e = e"
  by (induction xs) simp_all

lemma vfs_mkdirs_flat:
  assumes "47 \<notin> set n" "length n \<le> 256"
  shows "vfs_mkdirs (47 # n) e = e"
proof -
  have "(47 # n) ! j \<noteq> 47" if "j \<in> set [1..<length (47 # n)]" for j
  proof -
    have "1 \<le> j" "j < Suc (length n)" using that by auto
    then have "(47 # n) ! j = n ! (j - 1)" "j - 1 < length n" by (simp_all add: nth_Cons')
    then show ?thesis using assms(1) by (metis nth_mem)
  qed
  then show ?thesis using assms(2) unfolding vfs_mkdirs_def Let_def by (intro fold_id) simp
qed

lemma ramfs_empty_get: "ramfs_get (Some n) ramfs_empty = None"
  by (simp add: ramfs_get_def ramfs_find_def ramfs_empty_def first_idx_None)

lemma lines_of_line: "10 \<notin> set n \<Longrightarrow> lines_of acc (n @ r) = lines_of (acc @ n) r"
  by (induction n arbitrary: acc) simp_all

lemma lines_of_enc: "\<forall>n \<in> set ns. 10 \<notin> set n \<Longrightarrow> lines_of [] (enc ns) = ns"
  by (induction ns) (simp_all add: lines_of_line)

lemma ramfs_get_iff: "ramfs_get (Some n) fs \<noteq> None \<longleftrightarrow> n \<in> set (map re_name (filter re_used fs))"
  by (auto simp: ramfs_get_def ramfs_find_def first_idx_None)

text \<open>The names a path of one component finds in one of the three layers.\<close>

definition known :: "vfs \<Rightarrow> bytes \<Rightarrow> bool" where
  "known s n \<longleftrightarrow> ramfs_get (Some n) (vf_ram s) \<noteq> None
     \<or> 0 \<notin> set n \<and> initrd_get (Some n) (vf_initrd s) \<noteq> None
     \<or> ext2_present (vf_ext2 s) \<and> n \<notin> {[], [46], [46, 46]} \<and> 47 \<notin> set n \<and> length n \<le> 255
       \<and> e2_resolve (Some (47 # n)) (vf_ext2 s) \<noteq> 0"

definition plain_names :: "vfs \<Rightarrow> bool" where
  "plain_names s \<longleftrightarrow> (\<forall>n. known s n \<longrightarrow> 10 \<notin> set n) \<and> (ext2_present (vf_ext2 s) \<longrightarrow> plain_root (vf_ext2 s))"

lemma initrd_raw:
  assumes "length (initrd_ls_buf cap g) + 1 < cap"
  shows "\<exists>ns. initrd_ls_buf cap g = enc ns \<and> (\<forall>n. n \<in> set ns \<longleftrightarrow> 0 \<notin> set n \<and> initrd_get (Some n) g \<noteq> None)"
proof (cases "in_ready g \<and> in_base g \<noteq> None")
  case True
  then show ?thesis using initrd_ls_buf_names [OF _ _ assms] by blast
next
  case False
  then show ?thesis using initrd_get_off [of g] initrd_ls_buf_off [of g cap] by (intro exI [of _ "[]"]) auto
qed

lemma list_raw_names:
  assumes "plain_names s" "length (list_raw s) + 1 < LIST_TMP"
  shows "\<exists>ns. list_raw s = enc ns \<and> (\<forall>n. n \<in> set ns \<longleftrightarrow> known s n)"
proof -
  let ?r1 = "ramfs_ls_buf LIST_TMP (vf_ram s)"
  let ?r2 = "initrd_ls_buf (LIST_TMP - length ?r1) (vf_initrd s)"
  let ?r3 = "if ext2_present (vf_ext2 s) then ext2_ls_buf (LIST_TMP - length (?r1 @ ?r2)) (vf_ext2 s) else []"
  have raw: "list_raw s = ?r1 @ ?r2 @ ?r3" by (simp add: list_raw_def Let_def)
  have l: "length ?r1 + length ?r2 + length ?r3 + 1 < LIST_TMP" using assms(2) unfolding raw by simp
  let ?n1 = "map re_name (filter re_used (vf_ram s))"
  have "concat (map (\<lambda>e. re_name e @ [10]) es) = enc (map re_name es)" for es :: ramfs by (induction es) simp_all
  then have n1: "?r1 = enc ?n1"
    using ramfs_ls_buf_lists [of LIST_TMP "vf_ram s"] uncut [of LIST_TMP "enc ?n1"] l by simp
  have l2: "length ?r2 + 1 < LIST_TMP - length ?r1" using l by linarith
  obtain n2 where n2: "?r2 = enc n2" "\<And>n. n \<in> set n2 \<longleftrightarrow> 0 \<notin> set n \<and> initrd_get (Some n) (vf_initrd s) \<noteq> None"
    using initrd_raw [OF l2] by blast
  obtain n3 where n3: "?r3 = enc n3" "\<And>n. n \<in> set n3 \<longleftrightarrow> ext2_present (vf_ext2 s) \<and> n \<notin> {[], [46], [46, 46]}
      \<and> 47 \<notin> set n \<and> length n \<le> 255 \<and> e2_resolve (Some (47 # n)) (vf_ext2 s) \<noteq> 0"
  proof (cases "ext2_present (vf_ext2 s)")
    case True
    then have "plain_root (vf_ext2 s)" "e2_ready (vf_ext2 s)" using assms(1) by (simp_all add: plain_names_def ext2_present_def)
    moreover have "length (ext2_ls_buf (LIST_TMP - length (?r1 @ ?r2)) (vf_ext2 s)) + 1 < LIST_TMP - length (?r1 @ ?r2)"
      using l True by simp
    ultimately obtain n3 where "ext2_ls_buf (LIST_TMP - length (?r1 @ ?r2)) (vf_ext2 s) = enc n3"
      "\<And>n. n \<in> set n3 \<longleftrightarrow> n \<notin> {[], [46], [46, 46]} \<and> 47 \<notin> set n \<and> length n \<le> 255 \<and> e2_resolve (Some (47 # n)) (vf_ext2 s) \<noteq> 0"
      using ext2_ls_buf_names by blast
    then show ?thesis using True that [of n3] by simp
  next
    case False
    then show ?thesis using that [of "[]"] by simp
  qed
  have "list_raw s = enc (?n1 @ n2 @ n3)" using raw n1 n2(1) n3(1) by (simp only: enc_simps)
  moreover have "n \<in> set (?n1 @ n2 @ n3) \<longleftrightarrow> known s n" for n
    unfolding known_def ramfs_get_iff set_append Un_iff n2(2) n3(2) ..
  ultimately show ?thesis by blast
qed

text \<open>
  Claim C25. The root listing: \<open>vfs_list\<close> writes one line for every name that a lookup in the memory table, the
  initial RAM disk or (other than \<open>.\<close> and \<open>..\<close>) the root directory of the disk finds, and no line for any other
  name; a name that several layers have is written once. This holds when the names of all layers fit the
  temporary buffer of 8192 bytes and the caller's buffer, no name holds a newline, and the root directory is
  readable, has direct blocks only, and its entries lie within their blocks and hold no slash.
\<close>

theorem vfs_list_each_once:
  assumes "plain_names s" "length (list_raw s) + 1 < LIST_TMP" "length (list_raw s) < cap"
  shows "\<exists>ns. vfs_list cap s = enc ns \<and> distinct ns \<and> (\<forall>n. n \<in> set ns \<longleftrightarrow>
      ramfs_get (Some n) (vf_ram s) \<noteq> None
    \<or> 0 \<notin> set n \<and> initrd_get (Some n) (vf_initrd s) \<noteq> None
    \<or> ext2_present (vf_ext2 s) \<and> n \<notin> {[], [46], [46, 46]} \<and> 47 \<notin> set n \<and> length n \<le> 255
      \<and> e2_resolve (Some (47 # n)) (vf_ext2 s) \<noteq> 0)"
proof -
  obtain ns where raw: "list_raw s = enc ns" "\<And>n. n \<in> set ns \<longleftrightarrow> known s n" using list_raw_names [OF assms(1,2)] by blast
  have lines: "lines_of [] (list_raw s) = ns"
    unfolding raw(1) using assms(1) raw(2) by (intro lines_of_enc) (auto simp: plain_names_def)
  have "vfs_list cap s = enc (keep_new cap [] ns)"
    using copy_entries_eq [of "[]" "list_raw s" cap] assms(3) by (simp add: vfs_list_def lines)
  moreover have "set (keep_new cap [] ns) = set ns" using keep_new_all [of "[]" ns cap] assms(3) raw(1) by simp
  moreover have "distinct (keep_new cap [] ns)" by (rule keep_new_distinct) simp
  ultimately show ?thesis using raw(2) unfolding known_def by (intro exI [of _ "keep_new cap [] ns"]) simp
qed

definition no_initrd :: initrd where
  "no_initrd = \<lparr>in_ready = False, in_base = None, in_size = 0, in_files = []\<rparr>"

definition demo_vfs :: vfs where
  "demo_vfs = \<lparr>vf_ram = ramfs_empty, vf_initrd = no_initrd, vf_ext2 = demo_vol, g_ext2_buf = True\<rparr>"

definition demo_initrd :: initrd where
  "demo_initrd = \<lparr>in_ready = True, in_base = Some (\<lambda>x. if x = 0 then 102 else 0), in_size = 16,
     in_files = [\<lparr>ie_name = 0, ie_data = 8, ie_size = 4, ie_mode = 0\<rparr>]\<rparr>"

text \<open>A name on the disk that the initial RAM disk has too, and a name of the memory table.\<close>

definition demo_ls :: vfs where
  "demo_ls = \<lparr>vf_ram = [\<lparr>re_name = [103], re_data = None, re_size = 0, re_used = True\<rparr>], vf_initrd = demo_initrd,
     vf_ext2 = demo_vol, g_ext2_buf = True\<rparr>"

lemma demo_ext2_ls: "ext2_ls_buf 8188 demo_vol = [102, 10]"
proof -
  have "i_block demo_root = 6 # replicate 14 0" by (simp add: demo_root_def)
  moreover have "list_blocks (replicate n 0) c out demo_vol = out" for n c out by (cases n) simp_all
  ultimately show ?thesis
    using e2_read_inode_eq [OF demo_layout demo_live(3)]
    by (simp add: ext2_ls_buf_def list_dir_def demo_fields demo_inodes demo_kinds take_Cons' e2_read_block_eq demo_device
        demo_walk list_entry_def demo_entry put_char_def)
qed

lemma demo_raw: "list_raw demo_ls = [103, 10, 102, 10, 102, 10]"
proof -
  have "initrd_ls_buf 8190 demo_initrd = [102, 10]" by (simp add: initrd_ls_buf_def demo_initrd_def copy_name.simps)
  then show ?thesis
    using demo_ext2_ls by (simp add: list_raw_def LIST_TMP_def demo_ls_def ramfs_ls_buf_def put_char_def ext2_present_def demo_fields)
qed

lemma demo_plain: "plain_root demo_vol"
proof -
  have b: "i_block demo_root = 6 # replicate 14 0" by (simp add: demo_root_def)
  have "e2_read_inode 2 demo_vol = Some demo_root"
    using e2_read_inode_eq [OF demo_layout demo_live(3)] by (simp add: demo_inodes)
  moreover have "plain_dir (take 12 (i_block demo_root)) demo_vol"
    unfolding plain_dir_def
    by (auto simp: b e2_read_block_eq demo_device demo_fields take_Cons' demo_walk demo_entry)
  ultimately show ?thesis unfolding plain_root_def using demo_kinds b by (intro exI [of _ demo_root]) simp
qed

lemma demo_known: "known demo_ls n \<Longrightarrow> 10 \<notin> set n"
proof -
  assume k: "known demo_ls n"
  let ?m = "\<lambda>x :: nat. if x = 0 then 102 else 0 :: u8"
  obtain ns where ns: "\<And>n. n \<in> set ns \<longleftrightarrow> n \<notin> {[], [46], [46, 46]} \<and> 47 \<notin> set n \<and> length n \<le> 255 \<and> e2_resolve (Some (47 # n)) demo_vol \<noteq> 0"
      "\<forall>n \<in> set ns. 10 \<notin> set n"
    using ext2_ls_buf_names [OF demo_plain, of 8188] demo_ext2_ls by (auto simp: demo_fields)
  have "n = [102]" if "cstr_at ?m 0 n" using that by (rule cstr_at_unique) (simp add: cstr_at_def)
  then have rd: "n = [102]" if "0 \<notin> set n" "initrd_get (Some n) demo_initrd \<noteq> None"
    using that by (auto simp: initrd_get_def demo_initrd_def cstr_at_def split: if_splits)
  show ?thesis
    using k rd ns unfolding known_def ramfs_get_iff by (auto simp: demo_ls_def)
qed

theorem vfs_list_each_once_witness:
  "vfs_list 100 demo_ls = [103, 10, 102, 10]
    \<and> (\<exists>ns. vfs_list 100 demo_ls = enc ns \<and> distinct ns \<and> [103] \<in> set ns \<and> [102] \<in> set ns \<and> [104] \<notin> set ns)"
proof -
  have "plain_names demo_ls" using demo_known demo_plain by (simp add: plain_names_def demo_ls_def)
  then obtain ns where "vfs_list 100 demo_ls = enc ns \<and> distinct ns \<and> (\<forall>n. n \<in> set ns \<longleftrightarrow> known demo_ls n)"
    using vfs_list_each_once [of demo_ls 100] unfolding known_def by (auto simp: demo_raw LIST_TMP_def)
  moreover have "known demo_ls [103]" "known demo_ls [102]" "\<not> known demo_ls [104]"
    unfolding known_def ramfs_get_iff
    using e2_read_inode_eq [OF demo_layout demo_live(3)]
    by (simp_all add: demo_ls_def demo_initrd_def initrd_get_def e2_resolve_def resolve_loop.simps next_comp_def demo_inodes demo_kinds demo_lookup)
  moreover have "vfs_list 100 demo_ls = [103, 10, 102, 10]"
    using copy_entries_eq [of "[]" "list_raw demo_ls" 100] by (simp add: vfs_list_def demo_raw)
  ultimately show ?thesis by blast
qed

text \<open>
  Claim C24. With a disk, what is written to an existing file is what is read from it. On a well-formed volume, for
  an existing regular file directly in the root directory whose name has at most 256 bytes and is neither in the
  memory table nor in the initial RAM disk, with the read buffer allocated: data of at most 64 KiB (the read
  buffer) and at most the largest file size of the volume, for which the volume has room, is written with result
  0 and \<open>vfs_read\<close> then yields exactly that data and its length. Outside these bounds the code cuts the data.
\<close>

theorem vfs_write_then_read:
  assumes "fs_ok (vf_ext2 s)" "writable (47 # n) ino (vf_ext2 s)" "room_for data ino (vf_ext2 s)" "n \<noteq> []" "47 \<notin> set n"
    "length n \<le> 256" "length data \<le> unat (max_file_size (vf_ext2 s))" "length data \<le> 65536"
    "ramfs_get (Some n) (vf_ram s) = None" "initrd_get (Some n) (vf_initrd s) = None" "g_ext2_buf s"
  shows "fst (vfs_write kmalloc (Some (47 # n)) data (of_nat (length data)) s) = 0
    \<and> fst (vfs_read kmalloc (Some (47 # n)) (snd (vfs_write kmalloc (Some (47 # n)) data (of_nat (length data)) s)))
        = Some (In_ext2_buf data, of_nat (length data))"
proof -
  let ?e = "vf_ext2 s"
  have nn: "norm_name (Some (47 # n)) = Some n"
    using assms(4,5) by (cases n) (simp_all add: norm_name_def vfs_norm_path_def)
  have fp: "full_path n = 47 # n" using assms(6) by (simp add: full_path_def)
  have md: "vfs_mkdirs (47 # n) ?e = ?e" by (rule vfs_mkdirs_flat [OF assms(5,6)])
  have pr: "ext2_present ?e" using layout_okD(1) [OF fs_okD(2) [OF assms(1)]] by (simp add: ext2_present_def)
  have sz: "unat (ucast (of_nat (length data) :: u64) :: u32) = length data"
    using assms(8) by (simp add: unsigned_ucast_eq unat_of_nat take_bit_nat_eq_self)
  note o = overwrite_reads [OF assms(1-3,7), of EXT2_BUF_CAP]
  have c: "length data \<le> unat EXT2_BUF_CAP" using assms(8) by (simp add: EXT2_BUF_CAP_def)
  obtain e2 where w: "ext2_write_file (Some (47 # n)) data ?e = (0, e2)"
    and r: "ext2_read_file (47 # n) EXT2_BUF_CAP e2 = Some data" and fs2: "fs_ok e2"
    using o [OF c] by (cases "ext2_write_file (Some (47 # n)) data ?e") simp
  have pr2: "ext2_present e2" using layout_okD(1) [OF fs_okD(2) [OF fs2]] by (simp add: ext2_present_def)
  show ?thesis
    using nn fp md pr sz w r pr2 assms(9-11) by (simp add: vfs_write_def vfs_read_def Let_def)
qed

theorem vfs_write_then_read_witness:
  "fst (vfs_write (\<lambda>_. None) (Some (47 # [102])) (replicate 3000 65) (of_nat (length (replicate 3000 (65 :: u8)))) demo_vfs) = 0
    \<and> fst (vfs_read (\<lambda>_. None) (Some (47 # [102]))
          (snd (vfs_write (\<lambda>_. None) (Some (47 # [102])) (replicate 3000 65) (of_nat (length (replicate 3000 (65 :: u8)))) demo_vfs)))
        = Some (In_ext2_buf (replicate 3000 65), of_nat (length (replicate 3000 (65 :: u8))))"
proof (rule vfs_write_then_read [where ino = 3])
  show "fs_ok (vf_ext2 demo_vfs)" "writable (47 # [102]) 3 (vf_ext2 demo_vfs)" by (simp_all add: demo_vfs_def demo_fs_ok demo_writable)
  show "room_for (replicate 3000 65) 3 (vf_ext2 demo_vfs)" using demo_room [of "replicate 3000 65"] by (simp add: demo_vfs_def)
  show "ramfs_get (Some [102]) (vf_ram demo_vfs) = None" using ramfs_empty_get by (simp add: demo_vfs_def)
qed (simp_all add: demo_vfs_def demo_max initrd_get_def no_initrd_def)

text \<open>
  A name of the initial RAM disk hides the disk: with a disk present \<open>vfs_write\<close> to such a name never
  changes what \<open>vfs_read\<close> returns for it, whatever the write returns.\<close>

theorem vfs_write_hidden_by_initrd:
  assumes "norm_name path = Some n" "ramfs_get (Some n) (vf_ram s) = None" "initrd_get (Some n) (vf_initrd s) = Some (d, sz)"
    "ext2_present (vf_ext2 s)"
  shows "fst (vfs_read kmalloc path (snd (vfs_write kmalloc path data size' s))) = Some (In_initrd d, sz)
    \<and> fst (vfs_read kmalloc path s) = Some (In_initrd d, sz)"
  using assms by (simp add: vfs_read_def vfs_write_def Let_def case_prod_beta)

theorem vfs_write_hidden_by_initrd_witness:
  "fst (vfs_read (\<lambda>_. None) (Some [47, 102])
      (snd (vfs_write (\<lambda>_. None) (Some [47, 102]) [65, 66] 2 (demo_vfs\<lparr>vf_initrd := demo_initrd\<rparr>)))) = Some (In_initrd 8, 4)
    \<and> fst (vfs_read (\<lambda>_. None) (Some [47, 102]) (demo_vfs\<lparr>vf_initrd := demo_initrd\<rparr>)) = Some (In_initrd 8, 4)"
  by (rule vfs_write_hidden_by_initrd [where n = "[102]"])
     (simp_all add: norm_name_def vfs_norm_path_def demo_vfs_def ramfs_empty_get demo_initrd_def initrd_get_def ext2_present_def demo_fields)

text \<open>
  A rename does not look at the result of the copy: when the directory of the new name does not
  exist, nothing is copied, and \<open>vfs_rename\<close> deletes the file all the same and returns 0.\<close>

theorem vfs_rename_deletes_uncopied:
  assumes "norm_name old = Some no" "norm_name new = Some nn" "ext2_present (vf_ext2 s)"
    "e2_split_path (full_path nn) 256 = Some (parent, name)" "e2_resolve (Some parent) (vf_ext2 s) = 0"
    "ext2_read_file (full_path no) (of_int (ext2_file_size (full_path no) (vf_ext2 s))) (vf_ext2 s) = Some d" "d \<noteq> []"
    "0 < ext2_file_size (full_path no) (vf_ext2 s)" "kmalloc (of_int (ext2_file_size (full_path no) (vf_ext2 s))) = Some b"
  shows "fst (vfs_rename kmalloc old new s) = 0
    \<and> vf_ext2 (snd (vfs_rename kmalloc old new s)) = snd (ext2_delete_file (Some (full_path no)) (vf_ext2 s))"
proof -
  have "ext2_write_file (Some (full_path nn)) d (vf_ext2 s) = (- 1, vf_ext2 s)"
    using assms(3-5) by (simp add: ext2_write_file_def ext2_present_def)
  then have "ext2_rename kmalloc (full_path no) (full_path nn) (vf_ext2 s) = snd (ext2_delete_file (Some (full_path no)) (vf_ext2 s))"
    using assms(6-9) by (simp add: ext2_rename_def Let_def)
  then show ?thesis using assms(1-3) by (simp add: vfs_rename_def Let_def)
qed

lemma demo_size: "ext2_file_size [47, 102] demo_vol = 5"
  using e2_read_inode_eq [OF demo_layout demo_live(4)]
  by (simp add: ext2_file_size_def demo_fields demo_resolve demo_inodes demo_kinds) (simp add: demo_file_def)

lemma demo_read: "ext2_read_file [47, 102] 5 demo_vol = Some [104, 101, 108, 108, 111]"
proof -
  have b: "take 12 (i_block demo_file) = [7] @ replicate 11 0" "i_size demo_file = 5" by (simp_all add: demo_file_def)
  have "blk_bytes demo_vol 7 = [104, 101, 108, 108, 111] @ replicate 1019 0" by (simp add: demo_bytes demo_blk_def)
  then have "holds demo_vol [7] [104, 101, 108, 108, 111]" by (simp add: holds_def run_bytes_def nblk_def demo_fields)
  then have "read_blocks ([7] @ replicate 11 0) 5 [] demo_vol = Some ([] @ [104, 101, 108, 108, 111])"
    by (intro read_blocks_holds [OF demo_device]) simp_all
  then have "read_inode_data demo_file 5 demo_vol = Some [104, 101, 108, 108, 111]"
    unfolding read_inode_data_def b(1) by simp
  then show ?thesis
    using e2_read_inode_eq [OF demo_layout demo_live(4)]
    by (simp add: ext2_read_file_def demo_fields demo_resolve demo_inodes demo_kinds b(2))
qed

theorem vfs_rename_deletes_uncopied_witness:
  "fst (vfs_rename (\<lambda>_. Some []) (Some [47, 102]) (Some [47, 100, 47, 102]) demo_vfs) = 0
    \<and> vf_ext2 (snd (vfs_rename (\<lambda>_. Some []) (Some [47, 102]) (Some [47, 100, 47, 102]) demo_vfs))
      = snd (ext2_delete_file (Some (full_path [102])) (vf_ext2 demo_vfs))"
proof (rule vfs_rename_deletes_uncopied [where parent = "[47, 100]" and name = "[102]" and nn = "[100, 47, 102]"])
  have "next_comp [100] = ([100], [])" by (simp add: next_comp_def)
  then show "e2_resolve (Some [47, 100]) (vf_ext2 demo_vfs) = 0"
    using e2_read_inode_eq [OF demo_layout demo_live(3)]
    by (simp add: demo_vfs_def e2_resolve_def resolve_loop.simps demo_inodes demo_kinds demo_lookup)
  show "ext2_read_file (full_path [102]) (of_int (ext2_file_size (full_path [102]) (vf_ext2 demo_vfs))) (vf_ext2 demo_vfs)
      = Some [104, 101, 108, 108, 111]"
    by (simp add: full_path_def demo_vfs_def demo_size demo_read)
qed (simp_all add: norm_name_def vfs_norm_path_def full_path_def demo_vfs_def demo_size ext2_present_def demo_fields e2_split_path_def)

end
