(* ===== verification/Fd.thy ===== *)
theory Fd
  imports Pipe Vfs
begin

text \<open>
  The table of open files of \<open>kernel/src/syscall.c\<close>: 32 entries shared by all threads, each with the
  thread that owns it and the number the thread knows it by. Pointers to entries, pipes and files in
  memory are indices; the data of an open file is what \<open>Vfs\<close> describes, where the one buffer for files
  from the disk is the field \<open>ext2_buf\<close> of the state. \<open>kmalloc\<close> is an argument where the code reaches it.

  The proofs about these definitions are in \<open>Fd_Props\<close>.
\<close>

section \<open>Data\<close>

datatype fd_type = FD_TYPE_FILE | FD_TYPE_PIPE_R | FD_TYPE_PIPE_W | FD_TYPE_RAMW | FD_TYPE_NULL

definition SYS_FD_MAX :: nat where
  "SYS_FD_MAX = 32"

record sys_fd =
  f_used :: bool
  f_num :: int
  f_owner :: u64
  f_type :: fd_type
  f_data :: "vfs_data option"
  f_size :: u64
  f_off :: u64
  f_pipe :: "nat option"
  f_ramfile :: "nat option"

text \<open>
  A read of a file on the disk leaves its bytes in \<open>ext2_buf\<close>, whose address is what the caller gets.
  The contents of a \<open>In_ext2_buf\<close> pointer held in the table are those of \<open>ext2_buf\<close> at the time of use.
\<close>

record fds =
  g_pipes :: "pipe list"
  g_fds :: "sys_fd list"
  fd_vfs :: vfs
  ext2_buf :: bytes

definition zero_fd :: sys_fd where
  "zero_fd = \<lparr>f_used = False, f_num = 0, f_owner = 0, f_type = FD_TYPE_FILE, f_data = None, f_size = 0, f_off = 0,
     f_pipe = None, f_ramfile = None\<rparr>"

section \<open>Operations\<close>

definition fd_get :: "u64 \<Rightarrow> int \<Rightarrow> fds \<Rightarrow> nat option" where
  "fd_get tid fd_num s = first_idx (\<lambda>f. f_used f \<and> f_owner f = tid \<and> f_num f = fd_num) (g_fds s)"

definition fd_next_num :: "u64 \<Rightarrow> fds \<Rightarrow> int" where
  "fd_next_num tid s = (case find (\<lambda>n. fd_get tid n s = None) [3..255] of None \<Rightarrow> - 1 | Some n \<Rightarrow> n)"

text \<open>The loop that looks for the first free entry.\<close>

definition free_fd :: "fds \<Rightarrow> nat option" where
  "free_fd s = first_idx (\<lambda>f. \<not> f_used f) (g_fds s)"

definition put_fd :: "nat \<Rightarrow> sys_fd \<Rightarrow> fds \<Rightarrow> fds" where
  "put_fd i f s = s\<lparr>g_fds := (g_fds s)[i := f]\<rparr>"

definition fd_alloc :: "u64 \<Rightarrow> vfs_data \<Rightarrow> u64 \<Rightarrow> fds \<Rightarrow> int \<times> fds" where
  "fd_alloc tid data size' s =
     (let fd_num = fd_next_num tid s in
      if fd_num < 0 then (- 1, s)
      else case free_fd s of
          None \<Rightarrow> (- 1, s)
        | Some i \<Rightarrow> (fd_num, put_fd i \<lparr>f_used = True, f_num = fd_num, f_owner = tid, f_type = FD_TYPE_FILE, f_data = Some data,
            f_size = size', f_off = 0, f_pipe = None, f_ramfile = None\<rparr> s))"

definition fd_alloc_null :: "u64 \<Rightarrow> fds \<Rightarrow> int \<times> fds" where
  "fd_alloc_null tid s =
     (let fd_num = fd_next_num tid s in
      if fd_num < 0 then (- 1, s)
      else case free_fd s of
          None \<Rightarrow> (- 1, s)
        | Some i \<Rightarrow> (fd_num, put_fd i \<lparr>f_used = True, f_num = fd_num, f_owner = tid, f_type = FD_TYPE_NULL, f_data = None,
            f_size = 0, f_off = 0, f_pipe = None, f_ramfile = None\<rparr> s))"

text \<open>The entry that \<open>SYS_CREAT\<close> and \<open>SYS_OPENW\<close> make for a file in memory.\<close>

definition fd_alloc_ramw :: "u64 \<Rightarrow> nat \<Rightarrow> fds \<Rightarrow> int \<times> fds" where
  "fd_alloc_ramw tid rf s =
     (let fd_num = fd_next_num tid s in
      if fd_num < 0 then (- 1, s)
      else case free_fd s of
          None \<Rightarrow> (- 1, s)
        | Some i \<Rightarrow> (fd_num, put_fd i \<lparr>f_used = True, f_num = fd_num, f_owner = tid, f_type = FD_TYPE_RAMW, f_data = None,
            f_size = 0, f_off = 0, f_pipe = None, f_ramfile = Some rf\<rparr> s))"

definition is_devnull :: "bytes \<Rightarrow> bool" where
  "is_devnull path \<longleftrightarrow> path = ascii ''/dev/null''"

text \<open>The counts of the pipe an entry refers to, changed by \<open>d\<close>.\<close>

definition pipe_adj :: "int \<Rightarrow> sys_fd \<Rightarrow> fds \<Rightarrow> fds" where
  "pipe_adj d f s =
     (case f_pipe f of
        None \<Rightarrow> s
      | Some p \<Rightarrow>
          if f_type f = FD_TYPE_PIPE_R then s\<lparr>g_pipes := (g_pipes s)[p := (g_pipes s ! p)\<lparr>p_ropen := p_ropen (g_pipes s ! p) + d\<rparr>]\<rparr>
          else if f_type f = FD_TYPE_PIPE_W then s\<lparr>g_pipes := (g_pipes s)[p := (g_pipes s ! p)\<lparr>p_wopen := p_wopen (g_pipes s ! p) + d\<rparr>]\<rparr>
          else s)"

definition fd_flush :: "(u32 \<Rightarrow> bytes option) \<Rightarrow> sys_fd \<Rightarrow> fds \<Rightarrow> fds" where
  "fd_flush kmalloc f s =
     (case f_ramfile f of
        None \<Rightarrow> s
      | Some r \<Rightarrow>
          let e = vf_ram (fd_vfs s) ! r in
          if f_type f = FD_TYPE_RAMW \<and> re_size e > 0 then
            s\<lparr>fd_vfs := snd (vfs_write kmalloc (Some (re_name e)) (case re_data e of None \<Rightarrow> [] | Some b \<Rightarrow> b)
                (ucast (re_size e)) (fd_vfs s))\<rparr>
          else s)"

definition fd_close_entry :: "(u32 \<Rightarrow> bytes option) \<Rightarrow> nat \<Rightarrow> fds \<Rightarrow> fds" where
  "fd_close_entry kmalloc i s =
     (let f = g_fds s ! i in put_fd i zero_fd (fd_flush kmalloc f (pipe_adj (- 1) f s)))"

definition fd_close :: "(u32 \<Rightarrow> bytes option) \<Rightarrow> u64 \<Rightarrow> int \<Rightarrow> fds \<Rightarrow> fds" where
  "fd_close kmalloc tid fd_num s =
     (case fd_get tid fd_num s of None \<Rightarrow> s | Some i \<Rightarrow> fd_close_entry kmalloc i s)"

definition close_owned :: "(u32 \<Rightarrow> bytes option) \<Rightarrow> u64 \<Rightarrow> nat \<Rightarrow> fds \<Rightarrow> fds" where
  "close_owned kmalloc tid i s =
     (if f_used (g_fds s ! i) \<and> f_owner (g_fds s ! i) = tid then fd_close_entry kmalloc i s else s)"

definition fd_close_all :: "(u32 \<Rightarrow> bytes option) \<Rightarrow> u64 \<Rightarrow> fds \<Rightarrow> fds" where
  "fd_close_all kmalloc tid s = fold (close_owned kmalloc tid) [0..<SYS_FD_MAX] s"

definition inherit_one :: "u64 \<Rightarrow> u64 \<Rightarrow> nat \<Rightarrow> fds \<Rightarrow> fds" where
  "inherit_one parent_tid child_tid i s =
     (let p = g_fds s ! i in
      if \<not> f_used p \<or> f_owner p \<noteq> parent_tid then s
      else case free_fd s of
          None \<Rightarrow> s
        | Some j \<Rightarrow> pipe_adj 1 p (put_fd j (p\<lparr>f_owner := child_tid\<rparr>) s))"

definition fd_fork_inherit :: "u64 \<Rightarrow> u64 \<Rightarrow> fds \<Rightarrow> fds" where
  "fd_fork_inherit parent_tid child_tid s = fold (inherit_one parent_tid child_tid) [0..<SYS_FD_MAX] s"

text \<open>
  \<open>old\<close> is a pointer into the table: its entry is read after \<open>new_fd\<close> has been closed, and once more
  after the copy (the copy may overwrite it when it is the free entry itself).
\<close>

definition fd_dup2 :: "(u32 \<Rightarrow> bytes option) \<Rightarrow> u64 \<Rightarrow> int \<Rightarrow> int \<Rightarrow> fds \<Rightarrow> int \<times> fds" where
  "fd_dup2 kmalloc tid old_fd_num new_fd_num s =
     (case fd_get tid old_fd_num s of
        None \<Rightarrow> (- 1, s)
      | Some old \<Rightarrow>
          let s1 = fd_close kmalloc tid new_fd_num s in
          (case free_fd s1 of
             None \<Rightarrow> (- 1, s1)
           | Some i \<Rightarrow>
               let s2 = put_fd i ((g_fds s1 ! old)\<lparr>f_num := new_fd_num\<rparr>) s1
               in (new_fd_num, pipe_adj 1 (g_fds s2 ! old) s2)))"

text \<open>The body of \<open>SYS_DUP\<close>.\<close>

definition fd_dup :: "u64 \<Rightarrow> int \<Rightarrow> fds \<Rightarrow> int \<times> fds" where
  "fd_dup tid old_fd s =
     (case fd_get tid old_fd s of
        None \<Rightarrow> (- 1, s)
      | Some src \<Rightarrow>
          let new_num = fd_next_num tid s in
          if new_num < 0 then (- 1, s)
          else case free_fd s of
              None \<Rightarrow> (- 1, s)
            | Some i \<Rightarrow> (new_num, put_fd i ((g_fds s ! src)\<lparr>f_num := new_num\<rparr>) s))"

text \<open>
  The body of \<open>SYS_PIPE\<close> in front of the copy to user memory: the two numbers and the two entries,
  or the error.
\<close>

definition set_pipe_open :: "nat \<Rightarrow> int \<Rightarrow> fds \<Rightarrow> fds" where
  "set_pipe_open p n s = s\<lparr>g_pipes := (g_pipes s)[p := (g_pipes s ! p)\<lparr>p_ropen := n, p_wopen := n\<rparr>]\<rparr>"

definition pipe_open :: "(u32 \<Rightarrow> bytes option) \<Rightarrow> u64 \<Rightarrow> fds \<Rightarrow> (int \<times> int \<times> nat \<times> nat) option \<times> fds" where
  "pipe_open kmalloc tid s =
     (let (pp, ps) = pipe_alloc (g_pipes s) in
      case pp of
        None \<Rightarrow> (None, s)
      | Some p \<Rightarrow>
          let s1 = s\<lparr>g_pipes := ps\<rparr>; rfd_n = fd_next_num tid s1 in
          if rfd_n < 0 then (None, set_pipe_open p 0 s1)
          else case free_fd s1 of
              None \<Rightarrow> (None, set_pipe_open p 0 s1)
            | Some r \<Rightarrow>
                let s2 = put_fd r ((g_fds s1 ! r)\<lparr>f_used := True, f_num := rfd_n, f_owner := tid\<rparr>) s1;
                    wfd_n = fd_next_num tid s2 in
                if wfd_n < 0 then (None, set_pipe_open p 0 (put_fd r ((g_fds s2 ! r)\<lparr>f_used := False\<rparr>) s2))
                else
                  let s3 = put_fd r ((g_fds s2 ! r)\<lparr>f_type := FD_TYPE_PIPE_R, f_data := None, f_size := 0, f_off := 0,
                        f_pipe := Some p\<rparr>) s2 in
                  (case free_fd s3 of
                     None \<Rightarrow> (None, fd_close_entry kmalloc r s3)
                   | Some w \<Rightarrow>
                       (Some (rfd_n, wfd_n, r, w),
                        put_fd w ((g_fds s3 ! w)\<lparr>f_used := True, f_num := wfd_n, f_owner := tid, f_type := FD_TYPE_PIPE_W,
                          f_data := None, f_size := 0, f_off := 0, f_pipe := Some p\<rparr>) s3)))"

end
