(* ===== verification/Fd_Props.thy ===== *)
theory Fd_Props
  imports Fd
begin

text \<open>
  Proofs about the table of open files (\<open>Fd\<close>): its invariant, that every operation keeps it, and what
  the operations on descriptors do.
\<close>

section \<open>The invariant\<close>

text \<open>The descriptors open on one end of a pipe.\<close>

definition on_end :: "fd_type \<Rightarrow> nat \<Rightarrow> sys_fd \<Rightarrow> bool" where
  "on_end ty p f \<longleftrightarrow> f_used f \<and> f_type f = ty \<and> f_pipe f = Some p"

definition ends :: "fd_type \<Rightarrow> nat \<Rightarrow> fds \<Rightarrow> nat" where
  "ends ty p s = length (filter (on_end ty p) (g_fds s))"

definition is_pipe :: "sys_fd \<Rightarrow> bool" where
  "is_pipe f \<longleftrightarrow> f_type f = FD_TYPE_PIPE_R \<or> f_type f = FD_TYPE_PIPE_W"

definition fd_valid :: "sys_fd \<Rightarrow> bool" where
  "fd_valid f \<longleftrightarrow> (is_pipe f \<longrightarrow> (\<exists>p < PIPE_MAX. f_pipe f = Some p))"

definition same_key :: "sys_fd \<Rightarrow> sys_fd \<Rightarrow> bool" where
  "same_key f g \<longleftrightarrow> f_used f \<and> f_used g \<and> f_owner f = f_owner g \<and> f_num f = f_num g"

definition table_shape :: "fds \<Rightarrow> bool" where
  "table_shape s \<longleftrightarrow> length (g_fds s) = SYS_FD_MAX \<and> length (g_pipes s) = PIPE_MAX
     \<and> (\<forall>p < PIPE_MAX. pipe_ok (g_pipes s ! p))"

definition fds_keyed :: "fds \<Rightarrow> bool" where
  "fds_keyed s \<longleftrightarrow> (\<forall>i < SYS_FD_MAX. f_used (g_fds s ! i) \<longrightarrow> fd_valid (g_fds s ! i))
     \<and> (\<forall>i < SYS_FD_MAX. \<forall>j < SYS_FD_MAX. same_key (g_fds s ! i) (g_fds s ! j) \<longrightarrow> i = j)"

definition counted :: "fds \<Rightarrow> bool" where
  "counted s \<longleftrightarrow> (\<forall>p < PIPE_MAX. int (ends FD_TYPE_PIPE_R p s) \<le> p_ropen (g_pipes s ! p)
     \<and> int (ends FD_TYPE_PIPE_W p s) \<le> p_wopen (g_pipes s ! p))"

definition fd_inv :: "fds \<Rightarrow> bool" where
  "fd_inv s \<longleftrightarrow> table_shape s \<and> fds_keyed s \<and> counted s"

section \<open>Slots\<close>

lemma length_filter_update:
  "i < length xs \<Longrightarrow> length (filter P (xs[i := v])) + (if P (xs ! i) then 1 else 0) =
    length (filter P xs) + (if P v then 1 else 0)"
proof (induction xs arbitrary: i)
  case (Cons x xs)
  then show ?case
  proof (cases i)
    case (Suc j)
    then show ?thesis using Cons.IH [of j] Cons.prems by (cases "P x") simp_all
  qed auto
qed simp

lemma ends_put:
  "i < length (g_fds s) \<Longrightarrow> ends ty p (put_fd i f s) + (if on_end ty p (g_fds s ! i) then 1 else 0) =
    ends ty p s + (if on_end ty p f then 1 else 0)"
  using length_filter_update [of i "g_fds s" "on_end ty p" f] by (simp add: ends_def put_fd_def)

lemma pipe_adj_frame [simp]: "g_fds (pipe_adj d f s) = g_fds s" "fd_vfs (pipe_adj d f s) = fd_vfs s"
    "ext2_buf (pipe_adj d f s) = ext2_buf s" "length (g_pipes (pipe_adj d f s)) = length (g_pipes s)"
  by (simp_all add: pipe_adj_def split: option.split)

lemma pipe_adj_nth:
  assumes "q < length (g_pipes s)"
  shows "p_ropen (g_pipes (pipe_adj d f s) ! q) =
      p_ropen (g_pipes s ! q) + (if f_type f = FD_TYPE_PIPE_R \<and> f_pipe f = Some q then d else 0)"
    "p_wopen (g_pipes (pipe_adj d f s) ! q) =
      p_wopen (g_pipes s ! q) + (if f_type f = FD_TYPE_PIPE_W \<and> f_pipe f = Some q then d else 0)"
    "pipe_ok (g_pipes (pipe_adj d f s) ! q) = pipe_ok (g_pipes s ! q)"
    "pipe_bytes (g_pipes (pipe_adj d f s) ! q) = pipe_bytes (g_pipes s ! q)"
proof -
  consider "f_pipe f = None" | p where "f_pipe f = Some p" "p \<noteq> q" | "f_pipe f = Some q" by fastforce
  then have "p_ropen (g_pipes (pipe_adj d f s) ! q) =
      p_ropen (g_pipes s ! q) + (if f_type f = FD_TYPE_PIPE_R \<and> f_pipe f = Some q then d else 0)
    \<and> p_wopen (g_pipes (pipe_adj d f s) ! q) =
      p_wopen (g_pipes s ! q) + (if f_type f = FD_TYPE_PIPE_W \<and> f_pipe f = Some q then d else 0)
    \<and> pipe_ok (g_pipes (pipe_adj d f s) ! q) = pipe_ok (g_pipes s ! q)
    \<and> pipe_bytes (g_pipes (pipe_adj d f s) ! q) = pipe_bytes (g_pipes s ! q)"
    using assms by cases (auto simp: pipe_adj_def pipe_ok_def pipe_bytes_def)
  then show "p_ropen (g_pipes (pipe_adj d f s) ! q) =
      p_ropen (g_pipes s ! q) + (if f_type f = FD_TYPE_PIPE_R \<and> f_pipe f = Some q then d else 0)"
    "p_wopen (g_pipes (pipe_adj d f s) ! q) =
      p_wopen (g_pipes s ! q) + (if f_type f = FD_TYPE_PIPE_W \<and> f_pipe f = Some q then d else 0)"
    "pipe_ok (g_pipes (pipe_adj d f s) ! q) = pipe_ok (g_pipes s ! q)"
    "pipe_bytes (g_pipes (pipe_adj d f s) ! q) = pipe_bytes (g_pipes s ! q)" by blast+
qed

lemma put_fd_frame [simp]: "g_pipes (put_fd i f s) = g_pipes s" "fd_vfs (put_fd i f s) = fd_vfs s"
    "ext2_buf (put_fd i f s) = ext2_buf s" "length (g_fds (put_fd i f s)) = length (g_fds s)"
    "g_fds (put_fd i f s) = (g_fds s)[i := f]"
  by (simp_all add: put_fd_def)

lemma fd_flush_frame [simp]: "g_fds (fd_flush k f s) = g_fds s" "g_pipes (fd_flush k f s) = g_pipes s"
    "ext2_buf (fd_flush k f s) = ext2_buf s"
  by (simp_all add: fd_flush_def Let_def split: option.split)

lemma table_shapeD:
  assumes "table_shape s"
  shows "length (g_fds s) = SYS_FD_MAX" "length (g_pipes s) = PIPE_MAX" "p < PIPE_MAX \<Longrightarrow> pipe_ok (g_pipes s ! p)"
  using assms by (simp_all add: table_shape_def)

lemma fds_keyedD:
  assumes "fds_keyed s"
  shows "i < SYS_FD_MAX \<Longrightarrow> f_used (g_fds s ! i) \<Longrightarrow> fd_valid (g_fds s ! i)"
    "i < SYS_FD_MAX \<Longrightarrow> j < SYS_FD_MAX \<Longrightarrow> same_key (g_fds s ! i) (g_fds s ! j) \<Longrightarrow> i = j"
  using assms unfolding fds_keyed_def by blast+

lemma same_key_sym: "same_key f g \<longleftrightarrow> same_key g f"
  by (auto simp: same_key_def)

text \<open>Only the table and the pipes matter.\<close>

lemma inv_cong:
  assumes "g_fds s' = g_fds s" "g_pipes s' = g_pipes s"
  shows "table_shape s' = table_shape s" "fds_keyed s' = fds_keyed s" "counted s' = counted s" "fd_inv s' = fd_inv s"
  using assms by (simp_all add: table_shape_def fds_keyed_def counted_def fd_inv_def ends_def)

text \<open>An entry that no key of the table clashes with may be stored anywhere.\<close>

lemma fds_keyed_put:
  assumes "table_shape s" "fds_keyed s" "i < SYS_FD_MAX" "f_used f \<Longrightarrow> fd_valid f"
    and new: "\<And>j. j < SYS_FD_MAX \<Longrightarrow> j \<noteq> i \<Longrightarrow> \<not> same_key f (g_fds s ! j)"
  shows "fds_keyed (put_fd i f s)"
proof -
  have l: "i < length (g_fds s)" using assms(1,3) by (simp add: table_shape_def)
  have n: "g_fds (put_fd i f s) ! j = (if j = i then f else g_fds s ! j)" for j using l by (auto simp: nth_list_update)
  show ?thesis
    unfolding fds_keyed_def n
  proof (intro conjI allI impI)
    fix j assume "j < SYS_FD_MAX" "f_used (if j = i then f else g_fds s ! j)"
    then show "fd_valid (if j = i then f else g_fds s ! j)" using assms(4) fds_keyedD(1) [OF assms(2)] by (cases "j = i") simp_all
  next
    fix j k
    assume "j < SYS_FD_MAX" "k < SYS_FD_MAX" "same_key (if j = i then f else g_fds s ! j) (if k = i then f else g_fds s ! k)"
    then show "j = k"
      using new [of j] new [of k] same_key_sym fds_keyedD(2) [OF assms(2), of j k] by (cases "j = i"; cases "k = i") auto
  qed
qed

lemma unused_key: "\<not> f_used f \<Longrightarrow> \<not> same_key f g" "\<not> f_used f \<Longrightarrow> \<not> same_key g f"
  by (simp_all add: same_key_def)

text \<open>A used entry is stored in a free slot, and its pipe counts it.\<close>

lemma fill_inv:
  assumes "fd_inv s" "i < SYS_FD_MAX" "\<not> f_used (g_fds s ! i)" "fd_valid f"
    and "\<And>j. j < SYS_FD_MAX \<Longrightarrow> \<not> same_key f (g_fds s ! j)"
  shows "fd_inv (pipe_adj 1 f (put_fd i f s))"
proof -
  have sh: "table_shape s" and ky: "fds_keyed s" and ct: "counted s" using assms(1) by (simp_all add: fd_inv_def)
  have l: "i < length (g_fds s)" using assms(2) sh by (simp add: table_shape_def)
  have ps: "length (g_pipes (put_fd i f s)) = PIPE_MAX" using sh by (simp add: table_shape_def)
  let ?s = "pipe_adj 1 f (put_fd i f s)"
  have "table_shape ?s"
    using sh ps pipe_adj_nth(3) [of _ "put_fd i f s"] by (simp add: table_shape_def)
  moreover have "fds_keyed ?s"
    using fds_keyed_put [OF sh ky assms(2) assms(4) assms(5)] by (simp add: fds_keyed_def)
  moreover have "int (ends ty p ?s) = int (ends ty p s) + (if on_end ty p f then 1 else 0)" for ty p
    using ends_put [OF l, of ty p f] assms(3) by (simp add: ends_def on_end_def)
  then have "counted ?s"
    using ct ps pipe_adj_nth(1,2) [of _ "put_fd i f s" 1 f] by (auto simp: counted_def on_end_def)
  ultimately show ?thesis by (simp add: fd_inv_def)
qed

lemma clear_inv:
  assumes "fd_inv s" "i < SYS_FD_MAX" "f_used (g_fds s ! i)" "\<not> f_used f"
  shows "fd_inv (put_fd i f (fd_flush k f' (pipe_adj (- 1) (g_fds s ! i) s)))"
proof -
  have sh: "table_shape s" and ky: "fds_keyed s" and ct: "counted s" using assms(1) by (simp_all add: fd_inv_def)
  have l: "i < length (g_fds s)" using assms(2) sh by (simp add: table_shape_def)
  have ps: "length (g_pipes s) = PIPE_MAX" using sh by (simp add: table_shape_def)
  let ?s = "put_fd i f (fd_flush k f' (pipe_adj (- 1) (g_fds s ! i) s))"
  have "table_shape ?s" using sh ps pipe_adj_nth(3) [of _ s] by (simp add: table_shape_def)
  moreover have "fds_keyed ?s"
    using fds_keyed_put [OF sh ky assms(2), of f] assms(4) unused_key by (simp add: fds_keyed_def)
  moreover have "int (ends ty p ?s) = int (ends ty p s) - (if on_end ty p (g_fds s ! i) then 1 else 0)" for ty p
    using ends_put [OF l, of ty p f] assms(4) by (auto simp: ends_def on_end_def)
  then have "counted ?s"
    using ct ps pipe_adj_nth(1,2) [of _ s "- 1" "g_fds s ! i"] assms(3) by (auto simp: counted_def on_end_def)
  ultimately show ?thesis by (simp add: fd_inv_def)
qed

section \<open>Every operation keeps the invariant\<close>

lemma fd_get_SomeD:
  assumes "fd_get tid n s = Some i"
  shows "i < length (g_fds s)" "f_used (g_fds s ! i)" "f_owner (g_fds s ! i) = tid" "f_num (g_fds s ! i) = n"
  using first_idx_SomeD(1,2) [OF assms [unfolded fd_get_def]] by simp_all

lemma fd_get_None:
  "fd_get tid n s = None \<longleftrightarrow> (\<forall>j < length (g_fds s). \<not> (f_used (g_fds s ! j) \<and> f_owner (g_fds s ! j) = tid \<and> f_num (g_fds s ! j) = n))"
  unfolding fd_get_def first_idx_None by (metis in_set_conv_nth)

lemma free_fd_SomeD:
  assumes "free_fd s = Some i"
  shows "i < length (g_fds s)" "\<not> f_used (g_fds s ! i)"
  using first_idx_SomeD(1,2) [OF assms [unfolded free_fd_def]] by simp_all

lemma find_SomeD: "find P xs = Some x \<Longrightarrow> x \<in> set xs \<and> P x"
  by (induction xs) (auto split: if_splits)

lemma fd_next_num_spec:
  assumes "fd_next_num tid s \<ge> 0"
  shows "3 \<le> fd_next_num tid s \<and> fd_next_num tid s < 256 \<and> fd_get tid (fd_next_num tid s) s = None"
proof -
  define xs where "xs = [3 .. 255 :: int]"
  have "fd_next_num tid s = (case find (\<lambda>n. fd_get tid n s = None) xs of None \<Rightarrow> - 1 | Some n \<Rightarrow> n)"
    by (simp only: fd_next_num_def xs_def)
  then obtain n where n: "find (\<lambda>n. fd_get tid n s = None) xs = Some n" "fd_next_num tid s = n"
    using assms by (cases "find (\<lambda>n. fd_get tid n s = None) xs") simp_all
  have "n \<in> {3..255}" "fd_get tid n s = None" using find_SomeD [OF n(1)] by (simp_all only: xs_def set_upto)
  then show ?thesis using n(2) by simp
qed

lemma fresh_key:
  assumes "table_shape s" "fd_get (f_owner f) (f_num f) s = None" "j < SYS_FD_MAX"
  shows "\<not> same_key f (g_fds s ! j)"
  using assms by (auto simp: fd_get_None same_key_def table_shape_def)

lemma fill_fresh_inv:
  assumes "fd_inv s" "free_fd s = Some i" "fd_get (f_owner f) (f_num f) s = None" "fd_valid f"
  shows "fd_inv (pipe_adj 1 f (put_fd i f s))"
proof (rule fill_inv [OF assms(1)])
  have sh: "table_shape s" using assms(1) by (simp add: fd_inv_def)
  show "i < SYS_FD_MAX" "\<not> f_used (g_fds s ! i)" using free_fd_SomeD [OF assms(2)] table_shapeD(1) [OF sh] by simp_all
  show "\<not> same_key f (g_fds s ! j)" if "j < SYS_FD_MAX" for j using fresh_key [OF sh assms(3) that] .
qed (rule assms(4))

lemma pipe_adj_none [simp]: "f_pipe f = None \<Longrightarrow> pipe_adj d f s = s"
  by (simp add: pipe_adj_def)

lemma pipe_adj_key [simp]: "pipe_adj d (f\<lparr>f_num := n\<rparr>) s = pipe_adj d f s" "pipe_adj d (f\<lparr>f_owner := t\<rparr>) s = pipe_adj d f s"
  by (simp_all add: pipe_adj_def split: option.split)

lemma fill_plain_inv:
  assumes "fd_inv s" "free_fd s = Some i" "fd_get (f_owner f) (f_num f) s = None" "f_pipe f = None" "\<not> is_pipe f"
  shows "fd_inv (put_fd i f s)"
  using fill_fresh_inv [OF assms(1-3)] assms(4,5) by (simp add: fd_valid_def)

lemma fd_alloc_inv:
  assumes "fd_inv s"
  shows "fd_inv (snd (fd_alloc tid d sz s))" "fd_inv (snd (fd_alloc_null tid s))" "fd_inv (snd (fd_alloc_ramw tid rf s))"
  using assms fd_next_num_spec [of tid s] fill_plain_inv [OF assms]
  by (auto simp: fd_alloc_def fd_alloc_null_def fd_alloc_ramw_def Let_def is_pipe_def split: option.splits)

lemma fd_close_entry_inv:
  "fd_inv s \<Longrightarrow> i < SYS_FD_MAX \<Longrightarrow> f_used (g_fds s ! i) \<Longrightarrow> fd_inv (fd_close_entry k i s)"
  unfolding fd_close_entry_def Let_def by (rule clear_inv) (simp_all add: zero_fd_def)

lemma fd_close_inv: "fd_inv s \<Longrightarrow> fd_inv (fd_close k tid n s)"
  using fd_close_entry_inv [of s _ k] fd_get_SomeD [of tid n s]
  by (auto simp: fd_close_def fd_inv_def table_shape_def split: option.split)

lemma fold_inv: "(\<And>i s. i \<in> set xs \<Longrightarrow> P s \<Longrightarrow> P (g i s)) \<Longrightarrow> P s \<Longrightarrow> P (fold g xs s)"
  by (induction xs arbitrary: s) simp_all

lemma fd_close_all_inv: "fd_inv s \<Longrightarrow> fd_inv (fd_close_all k tid s)"
  unfolding fd_close_all_def by (rule fold_inv) (auto simp: close_owned_def fd_close_entry_inv)

text \<open>Closing leaves every other entry as it was.\<close>

lemma fd_close_entry_fds [simp]: "g_fds (fd_close_entry k i s) = (g_fds s)[i := zero_fd]"
  by (simp add: fd_close_entry_def Let_def)

lemma fd_close_fds: "g_fds (fd_close k tid n s) = (case fd_get tid n s of None \<Rightarrow> g_fds s | Some i \<Rightarrow> (g_fds s)[i := zero_fd])"
  by (simp add: fd_close_def split: option.split)

lemma fd_close_nth:
  assumes "j < length (g_fds s)"
  shows "g_fds (fd_close k tid n s) ! j = (if fd_get tid n s = Some j then zero_fd else g_fds s ! j)"
  using assms by (auto simp: fd_close_fds nth_list_update split: option.split)

lemma fd_get_closed:
  assumes "fd_inv s"
  shows "fd_get tid n (fd_close k tid n s) = None"
proof (cases "fd_get tid n s")
  case None
  then show ?thesis by (simp add: fd_close_def)
next
  case (Some i)
  note i = fd_get_SomeD [OF Some]
  have sh: "length (g_fds s) = SYS_FD_MAX" and ky: "fds_keyed s" using assms by (simp_all add: fd_inv_def table_shape_def)
  have "\<not> (f_used f \<and> f_owner f = tid \<and> f_num f = n)" if "j < length (g_fds s)" "f = (g_fds s)[i := zero_fd] ! j" for j f
    using fds_keyedD(2) [OF ky, of i j] that i sh by (cases "j = i") (auto simp: same_key_def zero_fd_def)
  then show ?thesis using Some by (simp add: fd_get_None fd_close_fds)
qed

lemma fd_dup2_inv:
  assumes "fd_inv s"
  shows "fd_inv (snd (fd_dup2 k tid old new s))"
proof (cases "fd_get tid old s")
  case None
  then show ?thesis using assms by (simp add: fd_dup2_def)
next
  case (Some o')
  let ?s1 = "fd_close k tid new s"
  have i1: "fd_inv ?s1" by (rule fd_close_inv [OF assms])
  show ?thesis
  proof (cases "free_fd ?s1")
    case None
    then show ?thesis using Some i1 by (simp add: fd_dup2_def Let_def)
  next
    case (Some i)
    let ?f = "(g_fds ?s1 ! o')\<lparr>f_num := new\<rparr>"
    have res: "snd (fd_dup2 k tid old new s) = pipe_adj 1 (g_fds (put_fd i ?f ?s1) ! o') (put_fd i ?f ?s1)"
      using Some \<open>fd_get tid old s = Some o'\<close> by (simp add: fd_dup2_def Let_def)
    note o = fd_get_SomeD [OF \<open>fd_get tid old s = Some o'\<close>] and fr = free_fd_SomeD [OF Some]
    have sh: "table_shape ?s1" "fds_keyed ?s1" using i1 by (simp_all add: fd_inv_def)
    have l: "length (g_fds ?s1) = length (g_fds s)" by (simp add: fd_close_fds split: option.split)
    show ?thesis
    proof (cases "f_used (g_fds ?s1 ! o')")
      case True
      then have ne: "o' \<noteq> i" using fr by auto
      have own: "f_owner ?f = tid" using True o(3) by (simp add: fd_close_nth [OF o(1)] zero_fd_def split: if_splits)
      have "fd_valid (g_fds ?s1 ! o')" using fds_keyedD(1) [OF sh(2) _ True] o(1) l table_shapeD(1) [OF sh(1)] by simp
      then have "fd_valid ?f" by (simp add: fd_valid_def is_pipe_def)
      then have "fd_inv (pipe_adj 1 ?f (put_fd i ?f ?s1))"
        using own fd_get_closed [OF assms] by (intro fill_fresh_inv [OF i1 Some]) simp_all
      moreover have "pipe_adj 1 ?f (put_fd i ?f ?s1) = pipe_adj 1 (g_fds (put_fd i ?f ?s1) ! o') (put_fd i ?f ?s1)"
        using ne by simp
      ultimately show ?thesis using res by simp
    next
      case False
      then have z: "g_fds ?s1 ! o' = zero_fd"
        using o(2) by (simp add: fd_close_nth [OF o(1)] split: if_splits)
      have "pipe_adj 1 (g_fds (put_fd i ?f ?s1) ! o') (put_fd i ?f ?s1) = put_fd i ?f ?s1"
        using z fr(1) by (cases "i = o'") (simp_all add: zero_fd_def)
      moreover have "fd_inv (put_fd i ?f ?s1)"
      proof -
        have "\<not> f_used ?f" using False by simp
        moreover have "ends ty p (put_fd i ?f ?s1) = ends ty p ?s1" for ty p
          using ends_put [OF fr(1), of ty p ?f] fr(2) \<open>\<not> f_used ?f\<close> by (simp add: on_end_def)
        ultimately show ?thesis
          using i1 fds_keyed_put [OF sh, of i ?f] fr(1) table_shapeD(1) [OF sh(1)] unused_key
          by (simp add: fd_inv_def counted_def table_shape_def)
      qed
      ultimately show ?thesis using res by simp
    qed
  qed
qed

section \<open>Inheritance on fork\<close>

definition owned :: "u64 \<Rightarrow> fds \<Rightarrow> nat \<Rightarrow> bool" where
  "owned tid s i \<longleftrightarrow> f_used (g_fds s ! i) \<and> f_owner (g_fds s ! i) = tid"

text \<open>The number of free entries.\<close>

definition frees :: "fds \<Rightarrow> nat" where
  "frees s = length (filter (\<lambda>f. \<not> f_used f) (g_fds s))"

text \<open>
  After the first \<open>k\<close> entries: the entries that were in use are untouched, the child's entries are copies of
  the parent's among the first \<open>k\<close>, and as long as there was room every one of these has a copy.
\<close>

definition inherited :: "u64 \<Rightarrow> u64 \<Rightarrow> fds \<Rightarrow> nat \<Rightarrow> fds \<Rightarrow> bool" where
  "inherited par ch s k s' \<longleftrightarrow> fd_inv s'
     \<and> (\<forall>i < SYS_FD_MAX. f_used (g_fds s ! i) \<longrightarrow> g_fds s' ! i = g_fds s ! i)
     \<and> (\<forall>i < SYS_FD_MAX. owned par s' i \<longrightarrow> owned par s i)
     \<and> (\<forall>j < SYS_FD_MAX. owned ch s' j \<longrightarrow> (\<exists>i < k. i < SYS_FD_MAX \<and> owned par s i \<and> g_fds s' ! j = (g_fds s ! i)\<lparr>f_owner := ch\<rparr>))
     \<and> frees s \<le> frees s' + length (filter (owned par s) [0..<k])
     \<and> (length (filter (owned par s) [0..<k]) \<le> frees s \<longrightarrow>
          (\<forall>i < k. i < SYS_FD_MAX \<longrightarrow> owned par s i \<longrightarrow> (\<exists>j < SYS_FD_MAX. g_fds s' ! j = (g_fds s ! i)\<lparr>f_owner := ch\<rparr>)))"

lemma inheritedD:
  assumes "inherited par ch s k s'"
  shows "fd_inv s'" "i < SYS_FD_MAX \<Longrightarrow> f_used (g_fds s ! i) \<Longrightarrow> g_fds s' ! i = g_fds s ! i"
    "i < SYS_FD_MAX \<Longrightarrow> owned par s' i \<Longrightarrow> owned par s i"
    "j < SYS_FD_MAX \<Longrightarrow> owned ch s' j \<Longrightarrow> \<exists>i < k. i < SYS_FD_MAX \<and> owned par s i \<and> g_fds s' ! j = (g_fds s ! i)\<lparr>f_owner := ch\<rparr>"
    "frees s \<le> frees s' + length (filter (owned par s) [0..<k])"
    "length (filter (owned par s) [0..<k]) \<le> frees s \<Longrightarrow> i < k \<Longrightarrow> i < SYS_FD_MAX \<Longrightarrow> owned par s i \<Longrightarrow>
       \<exists>j < SYS_FD_MAX. g_fds s' ! j = (g_fds s ! i)\<lparr>f_owner := ch\<rparr>"
  using assms unfolding inherited_def by blast+

lemma frees_put:
  "i < length (g_fds s) \<Longrightarrow> \<not> f_used (g_fds s ! i) \<Longrightarrow> f_used f \<Longrightarrow> Suc (frees (put_fd i f s)) = frees s"
  using length_filter_update [of i "g_fds s" "\<lambda>f. \<not> f_used f" f] by (simp add: frees_def put_fd_def)

lemma frees_pos: "free_fd s = None \<longleftrightarrow> frees s = 0"
  by (auto simp: free_fd_def frees_def first_idx_None filter_empty_conv)

lemma inherit_skip:
  assumes "inherited par ch s k s'" "\<not> owned par s k"
  shows "inherited par ch s (Suc k) s'"
  unfolding inherited_def
proof (intro conjI allI impI)
  note D = inheritedD [OF assms(1)]
  have f: "filter (owned par s) [0..<Suc k] = filter (owned par s) [0..<k]" using assms(2) by simp
  show "fd_inv s'" "frees s \<le> frees s' + length (filter (owned par s) [0..<Suc k])" using D(1,5) by (simp_all only: f)
  show "g_fds s' ! i = g_fds s ! i" if "i < SYS_FD_MAX" "f_used (g_fds s ! i)" for i using D(2) [OF that] .
  show "owned par s i" if "i < SYS_FD_MAX" "owned par s' i" for i using D(3) [OF that] .
  show "\<exists>i < Suc k. i < SYS_FD_MAX \<and> owned par s i \<and> g_fds s' ! j = (g_fds s ! i)\<lparr>f_owner := ch\<rparr>" if "j < SYS_FD_MAX" "owned ch s' j" for j
    using D(4) [OF that] less_SucI by blast
  show "\<exists>j < SYS_FD_MAX. g_fds s' ! j = (g_fds s ! i)\<lparr>f_owner := ch\<rparr>"
    if "length (filter (owned par s) [0..<Suc k]) \<le> frees s" "i < Suc k" "i < SYS_FD_MAX" "owned par s i" for i
  proof -
    have "i < k" using that(2,4) assms(2) by (cases "i = k") simp_all
    then show ?thesis using D(6) [OF _ _ that(3,4)] that(1) by (simp only: f)
  qed
qed

lemma inherit_full:
  assumes "inherited par ch s k s'" "owned par s k" "frees s' = 0"
  shows "inherited par ch s (Suc k) s'"
  unfolding inherited_def
proof (intro conjI allI impI)
  note D = inheritedD [OF assms(1)]
  have f: "length (filter (owned par s) [0..<Suc k]) = Suc (length (filter (owned par s) [0..<k]))" using assms(2) by simp
  show "fd_inv s'" "frees s \<le> frees s' + length (filter (owned par s) [0..<Suc k])" using D(1,5) unfolding f by simp_all
  show "g_fds s' ! i = g_fds s ! i" if "i < SYS_FD_MAX" "f_used (g_fds s ! i)" for i using D(2) [OF that] .
  show "owned par s i" if "i < SYS_FD_MAX" "owned par s' i" for i using D(3) [OF that] .
  show "\<exists>i < Suc k. i < SYS_FD_MAX \<and> owned par s i \<and> g_fds s' ! j = (g_fds s ! i)\<lparr>f_owner := ch\<rparr>" if "j < SYS_FD_MAX" "owned ch s' j" for j
    using D(4) [OF that] less_SucI by blast
  show "\<exists>j < SYS_FD_MAX. g_fds s' ! j = (g_fds s ! i)\<lparr>f_owner := ch\<rparr>"
    if "length (filter (owned par s) [0..<Suc k]) \<le> frees s" for i
    using that D(5) assms(3) unfolding f by simp
qed

lemma owned_key:
  assumes "fds_keyed s" "i < SYS_FD_MAX" "j < SYS_FD_MAX" "owned tid s i" "owned tid s j" "f_num (g_fds s ! i) = f_num (g_fds s ! j)"
  shows "i = j"
  using fds_keyedD(2) [OF assms(1-3)] assms(4-6) by (auto simp: owned_def same_key_def)

lemma inherit_copy:
  assumes "fd_inv s" "par \<noteq> ch" and h: "inherited par ch s k s'" "k < SYS_FD_MAX" "owned par s k" and j: "free_fd s' = Some j"
  shows "inherited par ch s (Suc k) (pipe_adj 1 (g_fds s' ! k) (put_fd j ((g_fds s' ! k)\<lparr>f_owner := ch\<rparr>) s'))"
    (is "inherited par ch s (Suc k) ?s")
proof -
  note D = inheritedD [OF h(1)]
  have ks: "fds_keyed s" using assms(1) by (simp add: fd_inv_def)
  have sh: "table_shape s'" "fds_keyed s'" using D(1) by (simp_all add: fd_inv_def)
  have used: "f_used (g_fds s ! k)" using h(3) by (simp add: owned_def)
  have e: "g_fds s' ! k = g_fds s ! k" using D(2) [OF h(2) used] .
  let ?f = "(g_fds s ! k)\<lparr>f_owner := ch\<rparr>"
  have jl: "j < length (g_fds s')" "j < SYS_FD_MAX" "\<not> f_used (g_fds s' ! j)"
    using free_fd_SomeD [OF j] table_shapeD(1) [OF sh(1)] by simp_all
  have fd: "g_fds ?s ! i = (if i = j then ?f else g_fds s' ! i)" for i using jl(1) by (simp add: e nth_list_update)
  have "fd_valid ?f" using fds_keyedD(1) [OF ks h(2) used] by (simp add: fd_valid_def is_pipe_def)
  moreover have "\<not> same_key ?f (g_fds s' ! i)" if i: "i < SYS_FD_MAX" for i
  proof
    assume "same_key ?f (g_fds s' ! i)"
    then have o: "owned ch s' i" "f_num (g_fds s' ! i) = f_num (g_fds s ! k)" by (auto simp: same_key_def owned_def)
    obtain l where l: "l < k" "l < SYS_FD_MAX" "owned par s l" "g_fds s' ! i = (g_fds s ! l)\<lparr>f_owner := ch\<rparr>"
      using D(4) [OF i o(1)] by blast
    then show False using owned_key [OF ks l(2) h(2) l(3) h(3)] o(2) by simp
  qed
  ultimately have "fd_inv (pipe_adj 1 ?f (put_fd j ?f s'))" by (intro fill_inv [OF D(1) jl(2,3)])
  then have inv: "fd_inv ?s" by (simp add: e)
  have f: "length (filter (owned par s) [0..<Suc k]) = Suc (length (filter (owned par s) [0..<k]))" using h(3) by simp
  have fr: "Suc (frees ?s) = frees s'" using frees_put [OF jl(1,3), of ?f] used by (simp add: e frees_def)
  show ?thesis
    unfolding inherited_def
  proof (intro conjI allI impI)
    show "fd_inv ?s" by (rule inv)
    show "frees s \<le> frees ?s + length (filter (owned par s) [0..<Suc k])" using D(5) fr unfolding f by simp
    show "g_fds ?s ! i = g_fds s ! i" if i: "i < SYS_FD_MAX" "f_used (g_fds s ! i)" for i
      unfolding fd using D(2) [OF i] i(2) jl(3) by auto
    show "owned par s i" if "i < SYS_FD_MAX" "owned par ?s i" for i
      using D(3) [OF that(1)] that(2) assms(2) unfolding owned_def fd by (auto split: if_splits)
    show "\<exists>i < Suc k. i < SYS_FD_MAX \<and> owned par s i \<and> g_fds ?s ! l = (g_fds s ! i)\<lparr>f_owner := ch\<rparr>"
      if l: "l < SYS_FD_MAX" "owned ch ?s l" for l
    proof (cases "l = j")
      case True
      then show ?thesis using h(2,3) unfolding fd by (intro exI [of _ k]) simp
    next
      case False
      then have "owned ch s' l" using l(2) unfolding owned_def fd by simp
      then obtain i where "i < k" "i < SYS_FD_MAX" "owned par s i" "g_fds s' ! l = (g_fds s ! i)\<lparr>f_owner := ch\<rparr>"
        using D(4) [OF l(1)] by blast
      then show ?thesis using False unfolding fd by (intro exI [of _ i]) simp
    qed
    show "\<exists>l < SYS_FD_MAX. g_fds ?s ! l = (g_fds s ! i)\<lparr>f_owner := ch\<rparr>"
      if b: "length (filter (owned par s) [0..<Suc k]) \<le> frees s" "i < Suc k" "i < SYS_FD_MAX" "owned par s i" for i
    proof (cases "i = k")
      case True
      then show ?thesis using jl(2) unfolding fd by (intro exI [of _ j]) simp
    next
      case False
      then obtain l where l: "l < SYS_FD_MAX" "g_fds s' ! l = (g_fds s ! i)\<lparr>f_owner := ch\<rparr>"
        using D(6) [OF _ _ b(3,4)] b(1,2) unfolding f by auto
      then have "l \<noteq> j" using jl(3) b(4) by (auto simp: owned_def)
      then show ?thesis using l unfolding fd by (intro exI [of _ l]) simp
    qed
  qed
qed

lemma fork_inherited:
  assumes "fd_inv s" "par \<noteq> ch" "\<And>j. j < SYS_FD_MAX \<Longrightarrow> \<not> owned ch s j" "k \<le> SYS_FD_MAX"
  shows "inherited par ch s k (fold (inherit_one par ch) [0..<k] s)"
  using assms(4)
proof (induction k)
  case 0
  then show ?case using assms(1,3) by (simp add: inherited_def)
next
  case (Suc k)
  let ?s = "fold (inherit_one par ch) [0..<k] s"
  have h: "inherited par ch s k ?s" and k: "k < SYS_FD_MAX" using Suc by simp_all
  note D = inheritedD [OF h]
  have o: "owned par ?s k \<longleftrightarrow> owned par s k" using D(2,3) [OF k] unfolding owned_def by metis
  have eq: "inherit_one par ch k ?s = (if \<not> owned par ?s k then ?s else case free_fd ?s of None \<Rightarrow> ?s
      | Some j \<Rightarrow> pipe_adj 1 (g_fds ?s ! k) (put_fd j ((g_fds ?s ! k)\<lparr>f_owner := ch\<rparr>) ?s))"
    by (simp only: inherit_one_def Let_def owned_def de_Morgan_conj)
  have "inherited par ch s (Suc k) (inherit_one par ch k ?s)"
  proof (cases "owned par s k")
    case False
    then show ?thesis using inherit_skip [OF h False] unfolding eq o by simp
  next
    case True
    show ?thesis
    proof (cases "free_fd ?s")
      case None
      then show ?thesis using inherit_full [OF h True] frees_pos [of ?s] True unfolding eq o by simp
    next
      case (Some j)
      then show ?thesis using inherit_copy [OF assms(1,2) h k True Some] True unfolding eq o by simp
    qed
  qed
  then show ?case by simp
qed

lemma fd_fork_inherit_inv:
  assumes "fd_inv s" "par \<noteq> ch" "\<And>j. j < SYS_FD_MAX \<Longrightarrow> \<not> owned ch s j"
  shows "fd_inv (fd_fork_inherit par ch s)"
  unfolding fd_fork_inherit_def by (rule inheritedD(1) [OF fork_inherited [OF assms order_refl]])

lemma fd_get_keyed:
  assumes "fds_keyed q" "length (g_fds q) = SYS_FD_MAX" "i < SYS_FD_MAX" "owned t q i" "f_num (g_fds q ! i) = n"
  shows "fd_get t n q = Some i"
  unfolding fd_get_def
proof (rule first_idx_unique)
  show "i < length (g_fds q)" using assms(2,3) by simp
  show "f_used (g_fds q ! i) \<and> f_owner (g_fds q ! i) = t \<and> f_num (g_fds q ! i) = n" using assms(4,5) by (simp add: owned_def)
  fix j
  assume "j < length (g_fds q)" "f_used (g_fds q ! j) \<and> f_owner (g_fds q ! j) = t \<and> f_num (g_fds q ! j) = n"
  then have "j < SYS_FD_MAX" "owned t q j" "f_num (g_fds q ! j) = f_num (g_fds q ! i)" using assms(2,5) by (simp_all add: owned_def)
  then show "j = i" using owned_key [OF assms(1) _ assms(3) _ assms(4)] by blast
qed

text \<open>When no slot is free, nothing is handed on.\<close>

lemma inherit_none:
  assumes "free_fd s = None"
  shows "fold (inherit_one par ch) js s = s"
proof -
  have "inherit_one par ch i s = s" for i using assms by (simp add: inherit_one_def Let_def)
  then show ?thesis by (induction js) simp_all
qed

text \<open>
  Claim C17. When a process forks into a thread that owns no descriptors yet, the parent keeps its
  descriptors, and under every number the child has either a copy of the parent's entry (the same file,
  position and pipe) or nothing. It has all of them when the table has free slots for copies of all the
  parent's descriptors; when the table has no free slot it silently gets none and the table stays as it was.
\<close>

theorem fd_fork_inherit_copies:
  assumes "fd_inv s" "par \<noteq> ch" "\<forall>j < SYS_FD_MAX. \<not> owned ch s j"
    and s': "s' = fd_fork_inherit par ch s"
  shows "map_option (\<lambda>j. g_fds s' ! j) (fd_get par n s') = map_option (\<lambda>i. g_fds s ! i) (fd_get par n s)
    \<and> map_option (\<lambda>j. g_fds s' ! j) (fd_get ch n s')
        \<in> {None, map_option (\<lambda>i. (g_fds s ! i)\<lparr>f_owner := ch\<rparr>) (fd_get par n s)}
    \<and> (length (filter (owned par s) [0..<SYS_FD_MAX]) \<le> frees s \<longrightarrow>
        map_option (\<lambda>j. g_fds s' ! j) (fd_get ch n s') = map_option (\<lambda>i. (g_fds s ! i)\<lparr>f_owner := ch\<rparr>) (fd_get par n s))
    \<and> (frees s = 0 \<longrightarrow> s' = s)"
proof -
  have none: "\<not> owned ch s j" if "j < SYS_FD_MAX" for j using assms(3) that by blast
  have I: "inherited par ch s SYS_FD_MAX s'"
    unfolding s' fd_fork_inherit_def by (rule fork_inherited [OF assms(1,2) none order_refl])
  note D = inheritedD [OF I]
  have len: "length (g_fds s) = SYS_FD_MAX" "length (g_fds s') = SYS_FD_MAX"
    using assms(1) D(1) by (simp_all add: fd_inv_def table_shape_def)
  have k: "fds_keyed s" "fds_keyed s'" using assms(1) D(1) by (simp_all add: fd_inv_def)
  note get = fd_get_keyed
  have got: "i < SYS_FD_MAX" "owned t q i" "f_num (g_fds q ! i) = n"
    if "fd_get t n q = Some i" "length (g_fds q) = SYS_FD_MAX" for t q i
    using fd_get_SomeD [OF that(1)] that(2) by (simp_all add: owned_def)
  have full: "frees s = 0 \<longrightarrow> s' = s"
    using frees_pos [of s] inherit_none [of s par ch "[0..<SYS_FD_MAX]"] by (auto simp: s' fd_fork_inherit_def)
  have copy: "map_option (\<lambda>i. (g_fds s ! i)\<lparr>f_owner := ch\<rparr>) (fd_get par n s) = Some (g_fds s' ! j)"
    if j: "fd_get ch n s' = Some j" for j
  proof -
    obtain i where i: "i < SYS_FD_MAX" "owned par s i" "g_fds s' ! j = (g_fds s ! i)\<lparr>f_owner := ch\<rparr>"
      using D(4) [OF got(1,2) [OF j len(2)]] by blast
    then show ?thesis using get [OF k(1) len(1) i(1,2)] got(3) [OF j len(2)] by simp
  qed
  have some: "map_option (\<lambda>j. g_fds s' ! j) (fd_get ch n s')
      \<in> {None, map_option (\<lambda>i. (g_fds s ! i)\<lparr>f_owner := ch\<rparr>) (fd_get par n s)}"
    using copy by (cases "fd_get ch n s'") auto
  show ?thesis
  proof (cases "fd_get par n s")
    case None
    then have "fd_get ch n s' = None" using copy by (cases "fd_get ch n s'") auto
    moreover have "fd_get par n s' = None"
    proof (rule ccontr)
      assume "fd_get par n s' \<noteq> None"
      then obtain j where j: "fd_get par n s' = Some j" by blast
      have o: "owned par s j" using D(3) [OF got(1,2) [OF j len(2)]] .
      then have "g_fds s' ! j = g_fds s ! j" using D(2) [OF got(1) [OF j len(2)]] by (simp add: owned_def)
      then show False using get [OF k(1) len(1) got(1) [OF j len(2)] o] got(3) [OF j len(2)] None by simp
    qed
    ultimately show ?thesis using None full by simp
  next
    case (Some i)
    note i = got [OF Some len(1)]
    have "\<exists>j. fd_get ch n s' = Some j \<and> g_fds s' ! j = (g_fds s ! i)\<lparr>f_owner := ch\<rparr>"
      if room: "length (filter (owned par s) [0..<SYS_FD_MAX]) \<le> frees s"
    proof -
      obtain j where j: "j < SYS_FD_MAX" "g_fds s' ! j = (g_fds s ! i)\<lparr>f_owner := ch\<rparr>"
        using D(6) [OF room i(1) i(1,2)] by blast
      then have "fd_get ch n s' = Some j" using i by (intro get [OF k(2) len(2)]) (simp_all add: owned_def)
      then show ?thesis using j(2) by blast
    qed
    moreover have e: "g_fds s' ! i = g_fds s ! i" using D(2) [OF i(1)] i(2) by (simp add: owned_def)
    moreover have "fd_get par n s' = Some i" using i e by (intro get [OF k(2) len(2)]) (simp_all add: owned_def)
    ultimately show ?thesis using Some full some by auto
  qed
qed

section \<open>Pipes\<close>

text \<open>No descriptor refers to a pipe that \<open>pipe_alloc\<close> may hand out.\<close>

lemma free_pipe_unused:
  assumes "counted s" "p < PIPE_MAX" "p_ropen (g_pipes s ! p) = 0" "p_wopen (g_pipes s ! p) = 0"
  shows "ends FD_TYPE_PIPE_R p s = 0" "ends FD_TYPE_PIPE_W p s = 0"
  using assms by (auto simp: counted_def)

lemma ends_0: "ends ty p s = 0 \<longleftrightarrow> (\<forall>i < length (g_fds s). \<not> on_end ty p (g_fds s ! i))"
  by (auto simp: ends_def filter_empty_conv all_set_conv_all_nth)

text \<open>An entry whose pipe already counts it.\<close>

lemma put_counted_inv:
  assumes "fd_inv s" "i < SYS_FD_MAX" "\<not> f_used (g_fds s ! i)" "f_used f \<Longrightarrow> fd_valid f"
    and "\<And>j. j < SYS_FD_MAX \<Longrightarrow> j \<noteq> i \<Longrightarrow> \<not> same_key f (g_fds s ! j)"
    and "\<And>p. p < PIPE_MAX \<Longrightarrow> on_end FD_TYPE_PIPE_R p f \<Longrightarrow> int (ends FD_TYPE_PIPE_R p s) < p_ropen (g_pipes s ! p)"
    and "\<And>p. p < PIPE_MAX \<Longrightarrow> on_end FD_TYPE_PIPE_W p f \<Longrightarrow> int (ends FD_TYPE_PIPE_W p s) < p_wopen (g_pipes s ! p)"
  shows "fd_inv (put_fd i f s)"
proof -
  have sh: "table_shape s" and ky: "fds_keyed s" and ct: "counted s" using assms(1) by (simp_all add: fd_inv_def)
  have l: "i < length (g_fds s)" using assms(2) sh by (simp add: table_shape_def)
  have "ends ty p (put_fd i f s) = ends ty p s + (if on_end ty p f then 1 else 0)" for ty p
    using ends_put [OF l, of ty p f] assms(3) by (simp add: on_end_def)
  then have "counted (put_fd i f s)" using ct assms(6,7) by (fastforce simp: counted_def)
  moreover have "fds_keyed (put_fd i f s)" using fds_keyed_put [OF sh ky assms(2,4,5)] .
  moreover have "table_shape (put_fd i f s)" using sh by (simp add: table_shape_def)
  ultimately show ?thesis by (simp add: fd_inv_def)
qed

lemma set_open_inv:
  assumes "fd_inv s" "ends FD_TYPE_PIPE_R p s = 0" "ends FD_TYPE_PIPE_W p s = 0" "0 \<le> n"
  shows "fd_inv (set_pipe_open p n s)"
proof -
  have l: "length (g_pipes s) = PIPE_MAX" using assms(1) by (simp add: fd_inv_def table_shape_def)
  have e: "ends ty q (set_pipe_open p n s) = ends ty q s" for ty q by (simp add: ends_def set_pipe_open_def)
  have g: "g_pipes (set_pipe_open p n s) ! q = (if q = p then (g_pipes s ! p)\<lparr>p_ropen := n, p_wopen := n\<rparr> else g_pipes s ! q)"
    if "q < PIPE_MAX" for q using l that by (simp add: set_pipe_open_def nth_list_update)
  have "table_shape (set_pipe_open p n s)"
    using assms(1) g by (auto simp: fd_inv_def table_shape_def pipe_ok_def) (simp_all add: set_pipe_open_def)
  moreover have "fds_keyed (set_pipe_open p n s)" using assms(1) by (simp add: fd_inv_def fds_keyed_def set_pipe_open_def)
  moreover have "counted (set_pipe_open p n s)" using assms g by (auto simp: fd_inv_def counted_def e)
  ultimately show ?thesis by (simp add: fd_inv_def)
qed

lemma pipe_alloc_inv:
  assumes "fd_inv s" "pipe_alloc (g_pipes s) = (Some p, ps)"
  shows "fd_inv (s\<lparr>g_pipes := ps\<rparr>)" "p < PIPE_MAX" "ends FD_TYPE_PIPE_R p s = 0" "ends FD_TYPE_PIPE_W p s = 0"
    "p_ropen (ps ! p) = 1" "p_wopen (ps ! p) = 1" "pipe_bytes (ps ! p) = []"
proof -
  have fi: "first_idx (\<lambda>p. p_ropen p = 0 \<and> p_wopen p = 0) (g_pipes s) = Some p"
    and ps: "ps = (g_pipes s)[p := (g_pipes s ! p)\<lparr>p_head := 0, p_nread := 0, p_ropen := 1, p_wopen := 1\<rparr>]"
    using assms(2) by (auto simp: pipe_alloc_def split: option.splits)
  have sh: "table_shape s" and ct: "counted s" using assms(1) by (simp_all add: fd_inv_def)
  have l: "length (g_pipes s) = PIPE_MAX" using sh by (simp add: table_shape_def)
  show p: "p < PIPE_MAX" using first_idx_SomeD(1) [OF fi] l by simp
  show z: "ends FD_TYPE_PIPE_R p s = 0" "ends FD_TYPE_PIPE_W p s = 0"
    using free_pipe_unused [OF ct p] first_idx_SomeD(2) [OF fi] by simp_all
  show o: "p_ropen (ps ! p) = 1" "p_wopen (ps ! p) = 1" "pipe_bytes (ps ! p) = []" using p l by (simp_all add: ps pipe_bytes_def)
  have g: "q \<noteq> p \<Longrightarrow> ps ! q = g_pipes s ! q" for q by (simp add: ps)
  have e: "ends ty q (s\<lparr>g_pipes := ps\<rparr>) = ends ty q s" for ty q by (simp add: ends_def)
  have "counted (s\<lparr>g_pipes := ps\<rparr>)"
    unfolding counted_def e
  proof (intro allI impI)
    fix q
    assume q: "q < PIPE_MAX"
    show "int (ends FD_TYPE_PIPE_R q s) \<le> p_ropen (g_pipes (s\<lparr>g_pipes := ps\<rparr>) ! q)
        \<and> int (ends FD_TYPE_PIPE_W q s) \<le> p_wopen (g_pipes (s\<lparr>g_pipes := ps\<rparr>) ! q)"
      using ct q z o g [of q] by (cases "q = p") (simp_all add: counted_def)
  qed
  moreover have "table_shape (s\<lparr>g_pipes := ps\<rparr>)"
    using sh l p g by (auto simp: table_shape_def pipe_ok_def ps nth_list_update)
  moreover have "fds_keyed (s\<lparr>g_pipes := ps\<rparr>)" using assms(1) by (simp add: fd_inv_def fds_keyed_def)
  ultimately show "fd_inv (s\<lparr>g_pipes := ps\<rparr>)" by (simp add: fd_inv_def)
qed

lemma put_put [simp]: "put_fd i f (put_fd i g s) = put_fd i f s"
  by (simp add: put_fd_def)

lemma fd_get_put_cong:
  assumes "f_used f = f_used g" "f_owner f = f_owner g" "f_num f = f_num g"
  shows "fd_get t n (put_fd i f s) = fd_get t n (put_fd i g s)"
  unfolding fd_get_def
proof (rule first_idx_cong)
  fix j
  assume "j < length (g_fds (put_fd i f s))"
  then show "(f_used (g_fds (put_fd i f s) ! j) \<and> f_owner (g_fds (put_fd i f s) ! j) = t \<and> f_num (g_fds (put_fd i f s) ! j) = n) =
      (f_used (g_fds (put_fd i g s) ! j) \<and> f_owner (g_fds (put_fd i g s) ! j) = t \<and> f_num (g_fds (put_fd i g s) ! j) = n)"
    using assms by (cases "j = i") simp_all
qed simp

text \<open>An end of a pipe that \<open>pipe_alloc\<close> has counted in advance is entered in the table.\<close>

lemma pipe_end_inv:
  assumes "fd_inv s1" "free_fd s1 = Some r" "fd_get (f_owner f) (f_num f) s1 = None" "p < PIPE_MAX" "f_pipe f = Some p"
    and "ends (f_type f) p s1 = 0" "p_ropen (g_pipes s1 ! p) = 1" "p_wopen (g_pipes s1 ! p) = 1"
  shows "fd_inv (put_fd r f s1)"
proof (rule put_counted_inv [OF assms(1)])
  have sh: "table_shape s1" using assms(1) by (simp add: fd_inv_def)
  show "r < SYS_FD_MAX" "\<not> f_used (g_fds s1 ! r)" using free_fd_SomeD [OF assms(2)] table_shapeD(1) [OF sh] by simp_all
  show "fd_valid f" using assms(4,5) by (simp add: fd_valid_def)
  show "\<not> same_key f (g_fds s1 ! j)" if "j < SYS_FD_MAX" for j using fresh_key [OF sh assms(3) that] .
qed (use assms(5-8) in \<open>auto simp: on_end_def\<close>)

lemma put_unused_inv:
  assumes "fd_inv s" "i < SYS_FD_MAX" "\<not> f_used (g_fds s ! i)" "\<not> f_used f"
  shows "fd_inv (put_fd i f s)" "ends ty p (put_fd i f s) = ends ty p s"
proof -
  show "fd_inv (put_fd i f s)"
    using assms unused_key by (intro put_counted_inv) (auto simp: on_end_def)
  have "i < length (g_fds s)" using assms(1,2) by (simp add: fd_inv_def table_shape_def)
  from ends_put [OF this, of ty p f] assms(3,4) show "ends ty p (put_fd i f s) = ends ty p s" by (simp add: on_end_def)
qed

lemma pipe_open_inv:
  assumes "fd_inv s"
  shows "fd_inv (snd (pipe_open k tid s))"
proof (cases "pipe_alloc (g_pipes s)")
  case (Pair pp ps)
  show ?thesis
  proof (cases pp)
    case None
    then show ?thesis using Pair assms by (simp add: pipe_open_def)
  next
    case (Some p)
    define s1 where "s1 = s\<lparr>g_pipes := ps\<rparr>"
    note A = pipe_alloc_inv [OF assms Pair [unfolded Some], folded s1_def]
    have e: "ends FD_TYPE_PIPE_R p s1 = 0" "ends FD_TYPE_PIPE_W p s1 = 0" using A(3,4) by (simp_all add: ends_def s1_def)
    have o: "p_ropen (g_pipes s1 ! p) = 1" "p_wopen (g_pipes s1 ! p) = 1" using A(5,6) by (simp_all add: s1_def)
    have fail: "fd_inv (set_pipe_open p 0 s1)" using set_open_inv [OF A(1) e] by simp
    show ?thesis
    proof (cases "fd_next_num tid s1 < 0 \<or> free_fd s1 = None")
      case True
      then show ?thesis using Pair Some fail by (auto simp: pipe_open_def Let_def s1_def [symmetric])
    next
      case False
      then obtain r where r: "free_fd s1 = Some r" and n: "fd_get tid (fd_next_num tid s1) s1 = None"
        using fd_next_num_spec [of tid s1] by force
      have rl: "r < SYS_FD_MAX" "\<not> f_used (g_fds s1 ! r)" "r < length (g_fds s1)"
        using free_fd_SomeD [OF r] A(1) by (simp_all add: fd_inv_def table_shape_def)
      let ?f2 = "(g_fds s1 ! r)\<lparr>f_used := True, f_num := fd_next_num tid s1, f_owner := tid\<rparr>"
      define s2 where "s2 = put_fd r ?f2 s1"
      have g2: "g_fds s2 ! r = ?f2" using rl(3) by (simp add: s2_def)
      let ?f3 = "?f2\<lparr>f_type := FD_TYPE_PIPE_R, f_data := None, f_size := 0, f_off := 0, f_pipe := Some p\<rparr>"
      have i3: "fd_inv (put_fd r ?f3 s1)" using n e(1) o by (intro pipe_end_inv [OF A(1) r _ A(2)]) simp_all
      have undo: "fd_inv (set_pipe_open p 0 (put_fd r (?f2\<lparr>f_used := False\<rparr>) s1))"
        using put_unused_inv [OF A(1) rl(1,2), of "?f2\<lparr>f_used := False\<rparr>"] e by (intro set_open_inv) simp_all
      have w: "ends FD_TYPE_PIPE_W p (put_fd r ?f3 s1) = 0"
        using ends_put [OF rl(3), of FD_TYPE_PIPE_W p ?f3] e(2) by (simp add: on_end_def)
      have g: "fd_get tid m (put_fd r ?f3 s1) = fd_get tid m s2" for m unfolding s2_def by (rule fd_get_put_cong) simp_all
      have cl: "fd_inv (fd_close_entry k r (put_fd r ?f3 s1))" using fd_close_entry_inv [OF i3 rl(1)] rl(3) by simp
      have two: "fd_inv (put_fd x f (put_fd r ?f3 s1))"
        if "\<not> fd_next_num tid s2 < 0" "free_fd (put_fd r ?f3 s1) = Some x"
          "f_owner f = tid" "f_num f = fd_next_num tid s2" "f_type f = FD_TYPE_PIPE_W" "f_pipe f = Some p" for x f
        using that fd_next_num_spec [of tid s2] o w by (intro pipe_end_inv [OF i3 that(2) _ A(2)]) (simp_all add: g)
      show ?thesis
        using False r undo cl two Pair Some
        by (simp add: pipe_open_def Let_def s1_def [symmetric] s2_def [symmetric] g2 split: option.split)
          (auto simp: s2_def)
    qed
  qed
qed

section \<open>Duplicates\<close>

lemma pipe_adj_zero [simp]: "pipe_adj d (zero_fd\<lparr>f_num := n\<rparr>) s = s" "pipe_adj d zero_fd s = s"
  by (simp_all add: zero_fd_def)

text \<open>
  \<open>SYS_DUP2\<close> of a descriptor onto its own number closes the descriptor and reports success.
\<close>

theorem fd_dup2_self_closes:
  assumes "fd_inv s" "fd_get tid n s \<noteq> None"
  shows "fst (fd_dup2 km tid n n s) = n \<and> fd_get tid n (snd (fd_dup2 km tid n n s)) = None"
proof -
  obtain i where i: "fd_get tid n s = Some i" using assms(2) by blast
  let ?s1 = "fd_close km tid n s"
  have len: "i < length (g_fds s)" "length (g_fds ?s1) = length (g_fds s)"
    using fd_get_SomeD(1) [OF i] by (simp_all add: fd_close_fds i)
  have z: "g_fds ?s1 ! i = zero_fd" using fd_close_nth [OF len(1), of km tid n] i by simp
  have "free_fd ?s1 \<noteq> None"
  proof
    assume "free_fd ?s1 = None"
    then have "\<forall>f \<in> set (g_fds ?s1). f_used f" by (simp add: free_fd_def first_idx_None)
    then have "f_used (g_fds ?s1 ! i)" using len by simp
    then show False by (simp add: z zero_fd_def)
  qed
  then obtain j where j: "free_fd ?s1 = Some j" by blast
  let ?s2 = "put_fd j (zero_fd\<lparr>f_num := n\<rparr>) ?s1"
  have "g_fds ?s2 ! i = zero_fd \<or> g_fds ?s2 ! i = zero_fd\<lparr>f_num := n\<rparr>"
    using z len by (cases "i = j") (simp_all add: put_fd_def)
  then have r: "fd_dup2 km tid n n s = (n, ?s2)" using i j z by (auto simp: fd_dup2_def Let_def)
  have "fd_get tid n ?s1 = None" by (rule fd_get_closed [OF assms(1)])
  then have "\<not> (f_used (g_fds ?s2 ! l) \<and> f_owner (g_fds ?s2 ! l) = tid \<and> f_num (g_fds ?s2 ! l) = n)"
    if "l < length (g_fds ?s2)" for l
    using that unfolding fd_get_None by (cases "l = j") (simp_all add: put_fd_def zero_fd_def)
  then have "fd_get tid n ?s2 = None" unfolding fd_get_None by blast
  with r show ?thesis by simp
qed

text \<open>
  \<open>SYS_DUP\<close> does not count the copy it makes: when a thread duplicates its only descriptor on
  the reading end of a pipe and closes the original, the pipe counts no reader any more although the
  copy is still open, so that writers get an error.
\<close>

theorem fd_dup_not_counted:
  assumes "fd_inv s" "fd_get tid n s = Some i" "on_end FD_TYPE_PIPE_R p (g_fds s ! i)" "p_ropen (g_pipes s ! p) = 1"
    and "fd_dup tid n s = (m, s1)" "m \<ge> 0"
  shows "p_ropen (g_pipes (fd_close km tid n s1) ! p) = 0
    \<and> (\<exists>j < SYS_FD_MAX. owned tid (fd_close km tid n s1) j \<and> f_num (g_fds (fd_close km tid n s1) ! j) = m
          \<and> on_end FD_TYPE_PIPE_R p (g_fds (fd_close km tid n s1) ! j))"
proof -
  let ?f = "g_fds s ! i"
  note i = fd_get_SomeD [OF assms(2)]
  have sh: "length (g_fds s) = SYS_FD_MAX" "length (g_pipes s) = PIPE_MAX" and ky: "fds_keyed s"
    using assms(1) by (simp_all add: fd_inv_def table_shape_def)
  have m: "m = fd_next_num tid s" "\<not> fd_next_num tid s < 0"
    and "\<exists>j. free_fd s = Some j \<and> s1 = put_fd j (?f\<lparr>f_num := m\<rparr>) s"
    using assms(2,5,6) by (auto simp: fd_dup_def Let_def split: if_splits option.splits)
  then obtain j where j: "free_fd s = Some j" "s1 = put_fd j (?f\<lparr>f_num := m\<rparr>) s" by blast
  note jf = free_fd_SomeD [OF j(1)]
  have ne: "j \<noteq> i" using i(2) jf(2) by blast
  have mn: "m \<noteq> n" using fd_next_num_spec [of tid s] m assms(2) by auto
  have e: "g_fds s1 ! i = ?f" "g_fds s1 ! j = ?f\<lparr>f_num := m\<rparr>" using ne jf(1) by (simp_all add: j(2) put_fd_def)
  have g: "fd_get tid n s1 = Some i"
    unfolding fd_get_def
  proof (rule first_idx_unique)
    show "i < length (g_fds s1)" using i(1) by (simp add: j(2) put_fd_def)
    show "f_used (g_fds s1 ! i) \<and> f_owner (g_fds s1 ! i) = tid \<and> f_num (g_fds s1 ! i) = n" using i e by simp
    fix l
    assume l: "l < length (g_fds s1)" "f_used (g_fds s1 ! l) \<and> f_owner (g_fds s1 ! l) = tid \<and> f_num (g_fds s1 ! l) = n"
    then have "l \<noteq> j" using e mn by auto
    then have "same_key (g_fds s ! i) (g_fds s ! l)" using l i by (simp add: j(2) put_fd_def same_key_def)
    then show "l = i" using fds_keyedD(2) [OF ky, of i l] l i(1) sh by (simp add: j(2) put_fd_def)
  qed
  have p: "p < PIPE_MAX" using fds_keyedD(1) [OF ky, of i] i sh assms(3) by (auto simp: fd_valid_def is_pipe_def on_end_def)
  have c: "fd_close km tid n s1 = fd_close_entry km i s1" using g by (simp add: fd_close_def)
  have "p_ropen (g_pipes (fd_close km tid n s1) ! p) = 0"
    unfolding c fd_close_entry_def Let_def using assms(3,4) p sh e
    by (simp add: pipe_adj_nth on_end_def j(2))
  moreover have "g_fds (fd_close km tid n s1) ! j = ?f\<lparr>f_num := m\<rparr>"
    unfolding c using ne e by simp
  ultimately show ?thesis using assms(3) i jf sh by (intro conjI exI [of _ j]) (simp_all add: owned_def on_end_def)
qed

section \<open>Small tables\<close>

text \<open>The static tables at start-up.\<close>

definition boot_fds :: "vfs \<Rightarrow> fds" where
  "boot_fds v = \<lparr>g_pipes = replicate PIPE_MAX \<lparr>p_buf = replicate 4096 0, p_head = 0, p_nread = 0, p_ropen = 0, p_wopen = 0\<rparr>,
     g_fds = replicate SYS_FD_MAX zero_fd, fd_vfs = v, ext2_buf = []\<rparr>"

lemma boot_fds_inv: "fd_inv (boot_fds v)"
  by (simp add: fd_inv_def table_shape_def fds_keyed_def counted_def boot_fds_def zero_fd_def pipe_ok_def same_key_def
      ends_def on_end_def filter_replicate)

text \<open>Thread 1 has made a pipe.\<close>

definition demo_rend :: sys_fd where
  "demo_rend = \<lparr>f_used = True, f_num = 3, f_owner = 1, f_type = FD_TYPE_PIPE_R, f_data = None, f_size = 0, f_off = 0,
     f_pipe = Some 0, f_ramfile = None\<rparr>"

definition demo_wend :: sys_fd where
  "demo_wend = demo_rend\<lparr>f_num := 4, f_type := FD_TYPE_PIPE_W\<rparr>"

definition demo_fds :: "vfs \<Rightarrow> fds" where
  "demo_fds v = (boot_fds v)\<lparr>g_pipes := snd (pipe_alloc (g_pipes (boot_fds v))),
     g_fds := demo_rend # demo_wend # replicate 30 zero_fd\<rparr>"

lemma demo_fds_nth:
  "g_fds (demo_fds v) ! 0 = demo_rend" "g_fds (demo_fds v) ! 1 = demo_wend"
  "\<lbrakk>2 \<le> i; i < SYS_FD_MAX\<rbrakk> \<Longrightarrow> g_fds (demo_fds v) ! i = zero_fd"
  by (simp_all add: demo_fds_def SYS_FD_MAX_def nth_Cons' numeral_2_eq_2)

lemma demo_fds_cases:
  assumes "i < SYS_FD_MAX"
  shows "i = 0 \<and> g_fds (demo_fds v) ! i = demo_rend \<or> i = 1 \<and> g_fds (demo_fds v) ! i = demo_wend \<or> g_fds (demo_fds v) ! i = zero_fd"
proof -
  consider "i = 0" | "i = 1" | "2 \<le> i" by linarith
  then show ?thesis using assms demo_fds_nth(1,2) [of v] demo_fds_nth(3) [of i v] by cases simp_all
qed

definition demo_fresh_pipe :: pipe where
  "demo_fresh_pipe = \<lparr>p_buf = replicate 4096 0, p_head = 0, p_nread = 0, p_ropen = 1, p_wopen = 1\<rparr>"

lemma demo_pipes: "g_pipes (demo_fds v) = (g_pipes (boot_fds v))[0 := demo_fresh_pipe]"
proof -
  have "first_idx (\<lambda>p. p_ropen p = 0 \<and> p_wopen p = 0) (g_pipes (boot_fds v)) = Some 0"
    by (simp add: first_idx_Some boot_fds_def PIPE_MAX_def)
  then show ?thesis by (simp add: demo_fds_def pipe_alloc_def boot_fds_def demo_fresh_pipe_def PIPE_MAX_def)
qed

lemma demo_fds_inv: "fd_inv (demo_fds v)"
proof -
  have p: "g_pipes (demo_fds v) ! q = (if q = 0 then demo_fresh_pipe else g_pipes (boot_fds v) ! q)" if "q < PIPE_MAX" for q
    using that by (cases "q = 0") (simp_all add: demo_pipes boot_fds_def)
  have "pipe_ok (g_pipes (demo_fds v) ! q)" if "q < PIPE_MAX" for q
    using that by (simp add: p) (simp add: boot_fds_def demo_fresh_pipe_def pipe_ok_def)
  then have sh: "table_shape (demo_fds v)"
    by (simp add: table_shape_def demo_pipes) (simp add: demo_fds_def boot_fds_def SYS_FD_MAX_def)
  have "fds_keyed (demo_fds v)"
    unfolding fds_keyed_def
  proof (intro conjI allI impI)
    fix i
    assume "i < SYS_FD_MAX" "f_used (g_fds (demo_fds v) ! i)"
    then show "fd_valid (g_fds (demo_fds v) ! i)"
      using demo_fds_cases [of i v]
      by (auto simp: fd_valid_def is_pipe_def demo_rend_def demo_wend_def zero_fd_def PIPE_MAX_def)
  next
    fix i j
    assume "i < SYS_FD_MAX" "j < SYS_FD_MAX" "same_key (g_fds (demo_fds v) ! i) (g_fds (demo_fds v) ! j)"
    then show "i = j"
      using demo_fds_cases [of i v] demo_fds_cases [of j v]
      by (auto simp: same_key_def demo_rend_def demo_wend_def zero_fd_def)
  qed
  moreover have "counted (demo_fds v)"
    unfolding counted_def
    by (simp add: p) (simp add: ends_def on_end_def demo_fds_def demo_rend_def demo_wend_def zero_fd_def demo_fresh_pipe_def boot_fds_def)
  ultimately show ?thesis using sh by (simp add: fd_inv_def)
qed

lemma demo_fds_get: "fd_get 1 3 (demo_fds v) = Some 0"
  by (simp add: fd_get_def demo_fds_def demo_rend_def)

theorem fd_fork_inherit_copies_witness:
  "map_option (\<lambda>j. g_fds (fd_fork_inherit 1 2 (demo_fds demo_vfs)) ! j) (fd_get 2 3 (fd_fork_inherit 1 2 (demo_fds demo_vfs)))
     = Some (demo_rend\<lparr>f_owner := 2\<rparr>)"
proof -
  have "\<forall>j < SYS_FD_MAX. \<not> owned 2 (demo_fds demo_vfs) j"
    using demo_fds_cases [of _ demo_vfs] by (fastforce simp: owned_def demo_rend_def demo_wend_def zero_fd_def)
  moreover have "length (filter (owned 1 (demo_fds demo_vfs)) [0..<SYS_FD_MAX]) \<le> card {0, 1 :: nat}"
    unfolding distinct_card [OF distinct_filter [OF distinct_upt], symmetric]
    by (rule card_mono) (use demo_fds_cases [of _ demo_vfs] in \<open>fastforce simp: owned_def zero_fd_def\<close>)+
  moreover have "frees (demo_fds demo_vfs) = 30"
    by (simp add: frees_def demo_fds_def demo_rend_def demo_wend_def zero_fd_def)
  ultimately show ?thesis
    using fd_fork_inherit_copies [OF demo_fds_inv, of 1 2 demo_vfs _ 3] by (simp add: demo_fds_get demo_fds_nth)
qed

theorem fd_dup2_self_closes_witness:
  "fst (fd_dup2 (\<lambda>_. None) 1 3 3 (demo_fds demo_vfs)) = 3"
  using fd_dup2_self_closes [OF demo_fds_inv, of 1 3 demo_vfs "\<lambda>_. None"] by (simp add: demo_fds_get)

lemma demo_next_num: "fd_next_num 1 (demo_fds v) = 5"
proof -
  have "[3 .. 255 :: int] = 3 # 4 # 5 # [6 .. 255]"
    by (simp only: upto_rec1 [of 3 255] upto_rec1 [of 4 255] upto_rec1 [of 5 255]) simp
  moreover have "fd_get 1 4 (demo_fds v) \<noteq> None" "fd_get 1 5 (demo_fds v) = None"
    by (simp_all add: fd_get_def demo_fds_def demo_rend_def demo_wend_def zero_fd_def first_idx_None)
  ultimately show ?thesis by (simp add: fd_next_num_def demo_fds_get)
qed

theorem fd_dup_not_counted_witness:
  "p_ropen (g_pipes (fd_close (\<lambda>_. None) 1 3 (snd (fd_dup 1 3 (demo_fds demo_vfs)))) ! 0) = 0"
proof -
  have "free_fd (demo_fds demo_vfs) = Some 2"
    by (simp add: free_fd_def demo_fds_def demo_rend_def demo_wend_def zero_fd_def first_idx_Some)
  then have d: "fd_dup 1 3 (demo_fds demo_vfs) = (5, snd (fd_dup 1 3 (demo_fds demo_vfs)))"
    by (simp add: fd_dup_def demo_fds_get demo_next_num Let_def)
  from fd_dup_not_counted [OF demo_fds_inv demo_fds_get _ _ d] show ?thesis
    by (simp add: demo_fds_nth on_end_def demo_pipes boot_fds_def PIPE_MAX_def demo_rend_def demo_fresh_pipe_def)
qed

end
