(* ===== verification/Path.thy ===== *)
theory Path
  imports Prelude
begin

text \<open>
  \<open>path_resolve\<close> of \<open>kernel/src/syscall.c\<close>: a path given by a program becomes an absolute path
  without empty, \<open>.\<close> and \<open>..\<close> components, relative to the current directory of the thread. The
  working buffers have 512 bytes; a result that does not fit the caller's buffer is the error
  \<open>None\<close>.

  Shown here: for a current directory and a path as system calls pass them the result is the one
  of a stack of components, and resolving a resolved path again changes nothing.
\<close>

section \<open>Definitions\<close>

text \<open>The buffer \<open>tmp\<close>: the path made absolute, cut to 511 characters.\<close>

definition path_expand :: "bytes \<Rightarrow> bytes \<Rightarrow> bytes" where
  "path_expand cwd path =
     (if path \<noteq> [] \<and> hd path = 47 then 47 # take 510 (tl path)
      else
        let cp = (if cwd \<noteq> [] \<and> hd cwd = 47 then tl cwd else cwd);
            tmp = 47 # take 509 cp;
            tmp = (if length tmp > 1 \<and> last tmp \<noteq> 47 then tmp @ [47] else tmp)
        in tmp @ take (511 - length tmp) path)"

text \<open>The loop \<open>while (no > 1 && norm[no - 1] != '/') no--\<close>.\<close>

function back_up :: "bytes \<Rightarrow> bytes" where
  "back_up norm = (if length norm > 1 \<and> last norm \<noteq> 47 then back_up (butlast norm) else norm)"
  by pat_completeness auto
termination by (relation "measure length") auto

declare back_up.simps [simp del]

text \<open>What a \<open>..\<close> component does to the result.\<close>

definition drop_comp :: "bytes \<Rightarrow> bytes" where
  "drop_comp norm =
     (if length norm > 1 then back_up (if last norm = 47 then butlast norm else norm) else norm)"

text \<open>The rest of the path behind its first component and the separator.\<close>

definition split_comp :: "bytes \<Rightarrow> bytes" where
  "split_comp p = tl (dropWhile (\<lambda>c. c \<noteq> 47) p)"

lemma length_split_comp: "p \<noteq> [] \<Longrightarrow> length (split_comp p) < length p"
  using length_dropWhile_le [of "\<lambda>c. c \<noteq> 47" p] by (cases p) (simp_all add: split_comp_def)

function norm_loop :: "bytes \<Rightarrow> bytes \<Rightarrow> bytes option" where
  "norm_loop p norm =
     (if p = [] then Some norm
      else
        let comp = takeWhile (\<lambda>c. c \<noteq> 47) p in
        if length comp = 0 then norm_loop (split_comp p) norm
        else if length comp = 1 \<and> p ! 0 = 46 then norm_loop (split_comp p) norm
        else if length comp = 2 \<and> p ! 0 = 46 \<and> p ! 1 = 46 then norm_loop (split_comp p) (drop_comp norm)
        else if length norm + length comp + 2 > 512 then None
        else norm_loop (split_comp p) (norm @ comp @ [47]))"
  by pat_completeness auto
termination by (relation "measure (\<lambda>(p, norm). length p)") (auto simp: length_split_comp)

declare norm_loop.simps [simp del]

definition path_resolve :: "bytes \<Rightarrow> nat \<Rightarrow> bytes \<Rightarrow> bytes option" where
  "path_resolve cwd cap path =
     (case norm_loop (tl (path_expand cwd path)) [47] of
        None \<Rightarrow> None
      | Some norm \<Rightarrow>
          let norm = (if length norm > 1 \<and> last norm = 47 then butlast norm else norm)
          in if length norm + 1 > cap then None else Some norm)"

section \<open>The reference: a stack of components\<close>

function comps :: "bytes \<Rightarrow> bytes list" where
  "comps p =
     (if p = [] then []
      else let c = takeWhile (\<lambda>c. c \<noteq> 47) p in (if c = [] then [] else [c]) @ comps (split_comp p))"
  by pat_completeness auto
termination by (relation "measure length") (auto simp: length_split_comp)

declare comps.simps [simp del]

definition enter_comp :: "bytes \<Rightarrow> bytes list \<Rightarrow> bytes list" where
  "enter_comp c st =
     (if c = ascii ''.'' then st else if c = ascii ''..'' then butlast st else st @ [c])"

definition canon :: "bytes list \<Rightarrow> bytes list" where
  "canon cs = fold enter_comp cs []"

definition render :: "bytes list \<Rightarrow> bytes" where
  "render st = (if st = [] then [47] else concat (map ((#) 47) st))"

definition abs_path :: "bytes \<Rightarrow> bytes \<Rightarrow> bytes" where
  "abs_path cwd path = (if path \<noteq> [] \<and> hd path = 47 then path else cwd @ [47] @ path)"

section \<open>Components\<close>

lemma comps_Nil [simp]: "comps [] = []"
  by (simp add: comps.simps)

lemma comps_sep [simp]: "comps (47 # p) = comps p"
  by (subst comps.simps) (simp add: split_comp_def)

lemma comps_append_sep: "comps (a @ 47 # b) = comps a @ comps b"
proof (induction a rule: comps.induct)
  case (1 a)
  show ?case
  proof (cases "a = []")
    case False
    let ?c = "takeWhile (\<lambda>c. c \<noteq> 47) a"
    have tw: "takeWhile (\<lambda>c. c \<noteq> 47) (a @ 47 # b) = ?c"
      by (cases "\<forall>x \<in> set a. x \<noteq> 47") (auto simp: takeWhile_append1 takeWhile_append2 takeWhile_eq_all_conv [THEN iffD2])
    show ?thesis
    proof (cases "\<forall>x \<in> set a. x \<noteq> 47")
      case True
      then have "split_comp (a @ 47 # b) = b" "split_comp a = []" by (simp_all add: split_comp_def dropWhile_eq_Nil_conv [THEN iffD2])
      then show ?thesis
        using False tw by (subst comps.simps, subst (2) comps.simps) (simp add: Let_def)
    next
      case nonsep: False
      then obtain x where "x \<in> set a" "x = 47" by auto
      then have "split_comp (a @ 47 # b) = split_comp a @ 47 # b"
        by (auto simp: split_comp_def dropWhile_append1 dropWhile_eq_Nil_conv)
      then show ?thesis
        using False tw 1 [OF False refl] by (subst comps.simps, subst (2) comps.simps) (simp add: Let_def)
    qed
  qed simp
qed

lemma comps_append: "last a = 47 \<Longrightarrow> a \<noteq> [] \<Longrightarrow> comps (a @ b) = comps a @ comps b"
  using comps_append_sep [of _ "[]"] by (cases a rule: rev_cases) (simp_all add: comps_append_sep)

definition plain :: "bytes \<Rightarrow> bool" where
  "plain c \<longleftrightarrow> c \<noteq> [] \<and> 47 \<notin> set c"

lemma comps_plain: "c \<in> set (comps p) \<Longrightarrow> plain c"
proof (induction p rule: comps.induct)
  case (1 p)
  then show ?case
    by (subst (asm) (2) comps.simps)
      (auto simp: plain_def Let_def dest: set_takeWhileD split: if_splits)
qed

section \<open>The loop keeps the stack\<close>

definition dirs :: "bytes list \<Rightarrow> bytes" where
  "dirs st = 47 # concat (map (\<lambda>c. c @ [47]) st)"

lemma dirs_Nil [simp]: "dirs [] = [47]"
  by (simp add: dirs_def)

lemma dirs_snoc [simp]: "dirs (st @ [c]) = dirs st @ c @ [47]"
  by (simp add: dirs_def)

lemma dirs_last [simp]: "last (dirs st) = 47" "dirs st \<noteq> []"
  by (cases st rule: rev_cases, simp_all) (simp_all add: dirs_def)

lemma dirs_render: "dirs st = (if st = [] then [47] else render st @ [47])"
  by (induction st rule: rev_induct) (auto simp: render_def)

lemma back_up_append: "47 \<notin> set c \<Longrightarrow> x \<noteq> [] \<Longrightarrow> last x = 47 \<Longrightarrow> back_up (x @ c) = x"
proof (induction c rule: rev_induct)
  case Nil
  then show ?case by (subst back_up.simps) simp
next
  case (snoc y c)
  then show ?case by (subst back_up.simps) (simp add: butlast_append flip: append_assoc)
qed

lemma drop_comp_dirs: "\<forall>c \<in> set st. plain c \<Longrightarrow> drop_comp (dirs st) = dirs (butlast st)"
proof (cases st rule: rev_cases)
  case (snoc ys c)
  moreover assume "\<forall>c \<in> set st. plain c"
  ultimately have "47 \<notin> set c" by (simp add: plain_def)
  moreover have "length (dirs st) > 1" using snoc by (cases "dirs ys") simp_all
  ultimately show ?thesis
    using snoc back_up_append [of c "dirs ys"] by (simp add: drop_comp_def butlast_append)
qed (simp add: drop_comp_def)

lemma plain_enter: "\<forall>c \<in> set st. plain c \<Longrightarrow> plain c \<Longrightarrow> \<forall>c \<in> set (enter_comp c st). plain c"
  by (auto simp: enter_comp_def dest: in_set_butlastD)

lemma length_comp_next:
  assumes "p \<noteq> []"
  shows "length (takeWhile (\<lambda>c. c \<noteq> 47) p) + length (split_comp p) \<le> length p"
    "split_comp p \<noteq> [] \<Longrightarrow> length (takeWhile (\<lambda>c. c \<noteq> 47) p) + length (split_comp p) < length p"
proof -
  have l: "length (takeWhile (\<lambda>c. c \<noteq> 47) p) + length (dropWhile (\<lambda>c. c \<noteq> 47) p) = length p"
    by (metis length_append takeWhile_dropWhile_id)
  then show "length (takeWhile (\<lambda>c. c \<noteq> 47) p) + length (split_comp p) \<le> length p" by (simp add: split_comp_def)
  assume "split_comp p \<noteq> []"
  then show "length (takeWhile (\<lambda>c. c \<noteq> 47) p) + length (split_comp p) < length p"
    using l by (cases "dropWhile (\<lambda>c. c \<noteq> 47) p") (simp_all add: split_comp_def)
qed

lemma comp_is_dot: "c \<noteq> [] \<Longrightarrow> takeWhile P p = c \<Longrightarrow>
    (length c = 1 \<and> p ! 0 = 46 \<longleftrightarrow> c = ascii ''.'') \<and> (length c = 2 \<and> p ! 0 = 46 \<and> p ! 1 = 46 \<longleftrightarrow> c = ascii ''..'')"
  using takeWhile_nth [of 0 P p] takeWhile_nth [of 1 P p]
  by (auto simp: ascii_def length_Suc_conv numeral_2_eq_2)

lemma length_drop_comp: "\<forall>c \<in> set st. plain c \<Longrightarrow> length (dirs (butlast st)) \<le> length (dirs st)"
  by (cases st rule: rev_cases) simp_all

lemma norm_loop_spec:
  assumes "\<forall>c \<in> set st. plain c" "length (dirs st) + length p \<le> 511"
  shows "norm_loop p (dirs st) =
    (let st' = fold enter_comp (comps p) st in if length (dirs st') > 511 then None else Some (dirs st'))"
  using assms
proof (induction "length p" arbitrary: p st rule: less_induct)
  case less
  show ?case
  proof (cases "p = []")
    case True
    then show ?thesis using less.prems by (subst norm_loop.simps) simp
  next
    case False
    define c where "c = takeWhile (\<lambda>c. c \<noteq> 47) p"
    note l = length_comp_next [OF False, folded c_def]
    note IH = less.hyps [OF length_split_comp [OF False]]
    have cs: "comps p = (if c = [] then [] else [c]) @ comps (split_comp p)"
      using False by (subst comps.simps) (simp add: c_def Let_def)
    have pc: "c \<noteq> [] \<Longrightarrow> plain c" by (auto simp: plain_def c_def dest: set_takeWhileD)
    note dot = comp_is_dot [OF _ c_def [symmetric]]
    have step: "norm_loop p (dirs st) = (if c = [] then norm_loop (split_comp p) (dirs st)
        else if c = ascii ''.'' then norm_loop (split_comp p) (dirs st)
        else if c = ascii ''..'' then norm_loop (split_comp p) (drop_comp (dirs st))
        else if length (dirs st) + length c + 2 > 512 then None else norm_loop (split_comp p) (dirs st @ c @ [47]))"
      using False dot by (subst norm_loop.simps) (simp add: Let_def c_def [symmetric])
    consider "c = []" | "c \<noteq> []" "c = ascii ''.'' \<or> c = ascii ''..''" | "c \<noteq> []" "c \<noteq> ascii ''.''" "c \<noteq> ascii ''..''"
      by blast
    then show ?thesis
    proof cases
      case 1
      then show ?thesis using step cs IH [OF less.prems(1)] less.prems(2) l(1) by simp
    next
      case 2
      let ?st = "enter_comp c st"
      have d: "norm_loop p (dirs st) = norm_loop (split_comp p) (dirs ?st)" "length (dirs ?st) \<le> length (dirs st)"
        using 2 step drop_comp_dirs [OF less.prems(1)] length_drop_comp [OF less.prems(1)]
        by (auto simp: enter_comp_def ascii_def)
      then show ?thesis
        using 2 cs IH [of ?st] plain_enter [OF less.prems(1) pc] less.prems(2) l(1) by simp
    next
      case 3
      have e: "enter_comp c st = st @ [c]" using 3 by (simp add: enter_comp_def)
      show ?thesis
      proof (cases "length (dirs st) + length c + 2 > 512")
        case True
        then have "split_comp p = []" using l less.prems(2) by (cases "split_comp p = []") auto
        then show ?thesis using True 3 step cs e by simp
      next
        case fits: False
        then have "length (dirs (st @ [c])) + length (split_comp p) \<le> 511"
          using l less.prems(2) by (cases "split_comp p = []") auto
        then show ?thesis
          using fits 3 step cs e IH [of "st @ [c]"] less.prems(1) pc by simp
      qed
    qed
  qed
qed

lemma path_resolve_stack:
  assumes "cap \<le> 511"
  shows "path_resolve cwd cap path =
    (let r = render (canon (comps (path_expand cwd path))) in if length r + 1 > cap then None else Some r)"
proof -
  have e: "path_expand cwd path = 47 # tl (path_expand cwd path)" "length (path_expand cwd path) \<le> 511"
    by (auto simp: path_expand_def Let_def)
  let ?st = "canon (comps (path_expand cwd path))"
  have "comps (path_expand cwd path) = comps (tl (path_expand cwd path))" by (subst e(1)) simp
  then have n: "norm_loop (tl (path_expand cwd path)) [47] = (if length (dirs ?st) > 511 then None else Some (dirs ?st))"
    using norm_loop_spec [of "[]" "tl (path_expand cwd path)"] e by (simp add: canon_def Let_def)
  show ?thesis
  proof (cases "?st = []")
    case True
    then show ?thesis using n by (simp add: path_resolve_def render_def)
  next
    case False
    then have "dirs ?st = render ?st @ [47]" by (simp add: dirs_render)
    moreover have "render ?st \<noteq> []" using False by (auto simp: render_def)
    ultimately show ?thesis using n assms by (auto simp: path_resolve_def Let_def)
  qed
qed

section \<open>Properties\<close>

lemma comps_path_expand:
  assumes "cwd \<noteq> []" "hd cwd = 47" "length cwd < 256" "length path < 256"
  shows "comps (path_expand cwd path) = comps (abs_path cwd path)"
proof (cases "path \<noteq> [] \<and> hd path = 47")
  case True
  then show ?thesis using assms(4) by (cases path) (simp_all add: path_expand_def abs_path_def)
next
  case False
  obtain w where w: "cwd = 47 # w" using assms(1,2) by (cases cwd) auto
  then have c: "take 509 w = w" using assms(3) by simp
  let ?tmp = "if w \<noteq> [] \<and> last cwd \<noteq> 47 then cwd @ [47] else cwd"
  have "path_expand cwd path = ?tmp @ take (511 - length ?tmp) path"
    using False c w by (auto simp: path_expand_def Let_def)
  also have "take (511 - length ?tmp) path = path"
  proof -
    have "length ?tmp \<le> 256" using assms(3) by simp
    then show ?thesis using assms(4) by (intro take_all) linarith
  qed
  finally have "path_expand cwd path = ?tmp @ path" .
  moreover have "last ?tmp = 47" "?tmp \<noteq> []" using w by auto
  ultimately have "comps (path_expand cwd path) = comps ?tmp @ comps path" by (simp add: comps_append)
  also have "comps ?tmp = comps cwd" using comps_append_sep [of cwd "[]"] by simp
  finally show ?thesis using False comps_append_sep [of cwd path] by (auto simp: abs_path_def)
qed

text \<open>
  Claim C10. For the current directory of a thread (an absolute path of fewer than 256 bytes) and a
  path of fewer than 256 bytes, \<open>path_resolve\<close> gives what a stack of components gives: the
  components of the path, behind those of the current directory if the path is relative, with
  \<open>.\<close> ignored and \<open>..\<close> taking the last one off (nothing at the root), joined by single slashes. It
  fails only when this result does not fit the buffer.
\<close>

theorem path_resolve_is_stack:
  assumes "cwd \<noteq> []" "hd cwd = 47" "length cwd < 256" "length path < 256" "cap \<le> 511"
  shows "path_resolve cwd cap path =
    (let r = render (canon (comps (abs_path cwd path))) in if length r + 1 > cap then None else Some r)"
  using path_resolve_stack [OF assms(5), of cwd path] comps_path_expand [OF assms(1-4)] by simp

theorem path_resolve_is_stack_witness:
  "path_resolve (ascii ''/home/me'') 256 (ascii ''.././/etc/x'') = Some (ascii ''/home/etc/x'')"
proof -
  have "render (canon (comps (abs_path (ascii ''/home/me'') (ascii ''.././/etc/x'')))) = ascii ''/home/etc/x''"
    by (simp add: ascii_def abs_path_def comps.simps split_comp_def canon_def enter_comp_def render_def)
  then show ?thesis
    using path_resolve_is_stack [of "ascii ''/home/me''" "ascii ''.././/etc/x''" 256]
    by (simp add: ascii_def)
qed

definition final_comp :: "bytes \<Rightarrow> bool" where
  "final_comp c \<longleftrightarrow> plain c \<and> c \<noteq> ascii ''.'' \<and> c \<noteq> ascii ''..''"

lemma final_enter: "\<forall>c \<in> set st. final_comp c \<Longrightarrow> plain c \<Longrightarrow> \<forall>c \<in> set (enter_comp c st). final_comp c"
  by (auto simp: enter_comp_def final_comp_def dest: in_set_butlastD)

lemma canon_final: "\<forall>c \<in> set (canon (comps p)). final_comp c"
proof -
  have "\<forall>c \<in> set cs. plain c \<Longrightarrow> \<forall>c \<in> set st. final_comp c \<Longrightarrow> \<forall>c \<in> set (fold enter_comp cs st). final_comp c" for cs st
  proof (induction cs arbitrary: st)
    case (Cons c cs)
    then show ?case using Cons.IH [OF _ final_enter [OF Cons.prems(2), of c]] by simp
  qed simp
  from this [of "comps p" "[]"] show ?thesis using comps_plain by (simp add: canon_def)
qed

lemma canon_id: "\<forall>c \<in> set st. final_comp c \<Longrightarrow> canon st = st"
proof -
  have "fold enter_comp cs st = st @ cs" if "\<forall>c \<in> set cs. final_comp c" for cs st
    using that by (induction cs arbitrary: st) (auto simp: enter_comp_def final_comp_def)
  then show "\<forall>c \<in> set st. final_comp c \<Longrightarrow> canon st = st" by (simp add: canon_def)
qed

lemma comps_plain_one: "plain c \<Longrightarrow> comps c = [c]"
proof -
  assume "plain c"
  then have "takeWhile (\<lambda>x. x \<noteq> 47) c = c" "dropWhile (\<lambda>x. x \<noteq> 47) c = []" "c \<noteq> []"
    by (auto simp: plain_def takeWhile_eq_all_conv dropWhile_eq_Nil_conv)
  then show ?thesis unfolding comps.simps [of c] split_comp_def Let_def by (simp only: list.sel comps_Nil) simp
qed

lemma comps_render: "\<forall>c \<in> set st. plain c \<Longrightarrow> comps (render st) = st"
proof -
  assume st: "\<forall>c \<in> set st. plain c"
  have "comps (concat (map ((#) 47) st)) = st"
    using st by (induction st rule: rev_induct) (simp_all add: comps_append_sep comps_plain_one)
  then show ?thesis by (simp add: render_def)
qed

text \<open>
  A resolved path resolves to itself, whatever the current directory: it is absolute and has
  no component left to remove, so handing it to another system call names the same file.
\<close>

theorem path_resolve_idem:
  assumes "path_resolve cwd cap path = Some r" "cap \<le> 511"
  shows "path_resolve cwd' cap r = Some r"
proof -
  let ?st = "canon (comps (path_expand cwd path))"
  have r: "r = render ?st" "length r + 1 \<le> cap"
    using assms path_resolve_stack [OF assms(2), of cwd path] by (auto simp: Let_def split: if_splits)
  obtain q where q: "r = 47 # q" using r(1) by (cases ?st) (auto simp: render_def)
  then have "path_expand cwd' r = r" using r(2) assms(2) by (simp add: path_expand_def)
  moreover have "canon (comps r) = ?st"
  proof -
    have "comps r = ?st"
      unfolding r(1) by (rule comps_render) (use canon_final [of "path_expand cwd path"] in \<open>simp add: final_comp_def\<close>)
    then show ?thesis using canon_id [OF canon_final] by metis
  qed
  ultimately show ?thesis
    using path_resolve_stack [OF assms(2), of cwd' r] r by (simp add: Let_def)
qed

theorem path_resolve_idem_witness:
  "path_resolve (ascii ''/tmp'') 256 (ascii ''/a/b'') = Some (ascii ''/a/b'')"
proof -
  have "path_resolve (ascii ''/'') 256 (ascii ''a/./b'') = Some (ascii ''/a/b'')"
    by (simp add: ascii_def path_resolve_def path_expand_def norm_loop.simps split_comp_def)
  then show ?thesis using path_resolve_idem [of "ascii ''/''" 256 "ascii ''a/./b''" "ascii ''/a/b''" "ascii ''/tmp''"] by simp
qed

text \<open>
  Claim C11. Every path that \<open>path_resolve\<close> produces is well formed, whatever the program passed: it
  starts with a slash, leaves room for its NUL in the buffer, and its components are neither empty
  nor \<open>.\<close> nor \<open>..\<close>, so no file system layer is ever asked to step out of a directory.
\<close>

theorem path_resolve_well_formed:
  assumes "path_resolve cwd cap path = Some r" "cap \<le> 511"
  shows "r \<noteq> [] \<and> hd r = 47 \<and> length r < cap \<and> r = render (comps r)
    \<and> (\<forall>c \<in> set (comps r). c \<noteq> [] \<and> 47 \<notin> set c \<and> c \<noteq> ascii ''.'' \<and> c \<noteq> ascii ''..'')"
proof -
  let ?st = "canon (comps (path_expand cwd path))"
  have r: "r = render ?st" "length r < cap"
    using assms path_resolve_stack [OF assms(2), of cwd path] by (auto simp: Let_def split: if_splits)
  note f = canon_final [of "path_expand cwd path"]
  have "comps r = ?st" unfolding r(1) by (rule comps_render) (use f in \<open>simp add: final_comp_def\<close>)
  moreover have "r \<noteq> [] \<and> hd r = 47" using r(1) by (cases ?st) (auto simp: render_def)
  ultimately show ?thesis using r f by (auto simp: final_comp_def plain_def)
qed

theorem path_resolve_well_formed_witness:
  "ascii ''/b'' = render (comps (ascii ''/b''))"
proof -
  have "path_resolve (ascii ''/'') 256 (ascii ''a/../b'') = Some (ascii ''/b'')"
    by (simp add: ascii_def path_resolve_def path_expand_def norm_loop.simps split_comp_def drop_comp_def back_up.simps)
  from path_resolve_well_formed [OF this] show ?thesis by simp
qed

end
