(* ===== verification/Usercopy.thy ===== *)
theory Usercopy
  imports Vmm
begin

text \<open>
  The copies between kernel and user memory at the head of \<open>kernel/src/syscall.c\<close>: \<open>copyin_str\<close>,
  \<open>copyin_bytes\<close> and \<open>copyout_bytes\<close>, over the page tables of \<open>Vmm\<close>. A user address is read and
  written through the current tables: the byte of physical memory it translates to. The error
  \<open>-1\<close> is \<open>None\<close>; the buffers of the kernel are never null and never empty where these are called.

  Shown here: the copies succeed exactly on ranges that lie below the top of user space and are
  mapped for user mode, what is copied out is what a copy in reads back, and no byte of memory but
  those of the user's range changes.
\<close>

section \<open>Definitions\<close>

definition FIFI_USER_TOP :: u64 where
  "FIFI_USER_TOP = 0x00007ffffffff000"

definition uload :: "vmm \<Rightarrow> u64 \<Rightarrow> u8" where
  "uload s a = pmm_mem (v_pmm s) (vmm_translate a s + g_hhdm (v_pmm s))"

definition ustore :: "u64 \<Rightarrow> u8 \<Rightarrow> vmm \<Rightarrow> vmm" where
  "ustore a b s =
     s\<lparr>v_pmm := (v_pmm s)\<lparr>pmm_mem := (pmm_mem (v_pmm s))(vmm_translate a s + g_hhdm (v_pmm s) := b)\<rparr>\<rparr>"

text \<open>
  The answer of \<open>vmm_user_accessible\<close>. Its walk could run forever on a range at the very top of the
  address space only; every use here is below \<open>FIFI_USER_TOP\<close>, where it ends (\<open>user_ok_ends\<close>).
\<close>

definition user_ok :: "u64 \<Rightarrow> u64 \<Rightarrow> bool \<Rightarrow> vmm \<Rightarrow> bool" where
  "user_ok a n write' s \<longleftrightarrow> vmm_user_accessible a n write' s = Some True"

text \<open>The bytes of the string in front of its NUL; their number is the return value.\<close>

fun copyin_str_loop :: "nat \<Rightarrow> u64 \<Rightarrow> vmm \<Rightarrow> bytes option" where
  "copyin_str_loop 0 a s = Some []"
| "copyin_str_loop (Suc k) a s =
     (if a \<ge> FIFI_USER_TOP then None
      else if \<not> user_ok a 1 False s then None
      else let c = uload s a in
        if c = 0 then Some [] else map_option ((#) c) (copyin_str_loop k (a + 1) s))"

definition copyin_str :: "nat \<Rightarrow> u64 \<Rightarrow> vmm \<Rightarrow> bytes option" where
  "copyin_str dst_cap uaddr s =
     (if dst_cap = 0 then None
      else if uaddr = 0 then None
      else if uaddr \<ge> FIFI_USER_TOP then None
      else copyin_str_loop (dst_cap - 1) uaddr s)"

text \<open>The check of a whole range, shared by the two copies of bytes.\<close>

definition user_range_ok :: "u64 \<Rightarrow> u64 \<Rightarrow> bool \<Rightarrow> vmm \<Rightarrow> bool" where
  "user_range_ok uaddr n write' s =
     (let end' = uaddr + n in
      if uaddr = 0 then False
      else if end' < uaddr then False
      else if uaddr \<ge> FIFI_USER_TOP then False
      else if end' > FIFI_USER_TOP then False
      else user_ok uaddr n write' s)"

definition copyin_bytes :: "u64 \<Rightarrow> u64 \<Rightarrow> u64 \<Rightarrow> vmm \<Rightarrow> bytes option" where
  "copyin_bytes cap uaddr n s =
     (if cap = 0 then None
      else let n = (if n > cap then cap else n) in
        if n = 0 then Some []
        else if \<not> user_range_ok uaddr n False s then None
        else Some (map (\<lambda>i. uload s (uaddr + of_nat i)) [0..<unat n]))"

fun ustore_bytes :: "u64 \<Rightarrow> bytes \<Rightarrow> vmm \<Rightarrow> vmm" where
  "ustore_bytes a [] s = s"
| "ustore_bytes a (b # bs) s = ustore_bytes (a + 1) bs (ustore a b s)"

definition copyout_bytes :: "u64 \<Rightarrow> bytes \<Rightarrow> vmm \<Rightarrow> bool \<times> vmm" where
  "copyout_bytes uaddr src s =
     (if length src = 0 then (True, s)
      else if \<not> user_range_ok uaddr (of_nat (length src)) True s then (False, s)
      else (True, ustore_bytes uaddr src s))"

section \<open>Which ranges are accepted\<close>

lemma user_accessible_below:
  assumes "unat a + unat n \<le> unat FIFI_USER_TOP"
  shows "vmm_user_accessible a n w s =
    Some (\<forall>v. unat a \<le> unat v \<longrightarrow> unat v < unat a + unat n \<longrightarrow> vmm_user_page_ok v w s)"
  using assms by (intro user_accessible_iff) (simp add: FIFI_USER_TOP_def)

lemma user_ok_ends:
  assumes "unat a + unat n \<le> unat FIFI_USER_TOP"
  shows "\<exists>b. vmm_user_accessible a n w s = Some b"
  using user_accessible_below [OF assms] by blast

lemma user_range_ok_iff:
  "user_range_ok a n w s \<longleftrightarrow> a \<noteq> 0 \<and> unat a < unat FIFI_USER_TOP \<and> unat a + unat n \<le> unat FIFI_USER_TOP
    \<and> (\<forall>v. unat a \<le> unat v \<longrightarrow> unat v < unat a + unat n \<longrightarrow> vmm_user_page_ok v w s)"
proof (cases "unat a + unat n < 2 ^ 64")
  case True
  then have u: "unat (a + n) = unat a + unat n" by (simp add: unat_add_no_wrap)
  show ?thesis
    using u user_accessible_below [of a n w s]
    by (cases "unat a + unat n \<le> unat FIFI_USER_TOP")
      (auto simp: user_range_ok_def user_ok_def Let_def word_less_nat_alt word_le_nat_alt)
next
  case False
  then have "unat (a + n) = unat a + unat n - 2 ^ 64"
    using unat_u64_less [of n] unat_u64_less [of a] by (simp add: unat_word_ariths le_mod_geq)
  then have "a + n < a" using False unat_u64_less [of n] unfolding word_less_nat_alt by linarith
  then show ?thesis using False by (auto simp: user_range_ok_def FIFI_USER_TOP_def)
qed

text \<open>
  Claim C18. \<open>copyin_bytes\<close> copies exactly when the range, cut to the buffer, is empty or starts at an
  address other than null, ends at or below the top of user space without wrapping around, and
  every address of it is mapped for user mode; then it returns the bytes of the range, and
  otherwise it fails. No pointer into the kernel is ever read through.
\<close>

theorem copyin_bytes_exact:
  assumes "cap \<noteq> 0"
  shows "copyin_bytes cap a n s =
    (let n = min n cap in
     if n = 0 then Some []
     else if a \<noteq> 0 \<and> unat a < unat FIFI_USER_TOP \<and> unat a + unat n \<le> unat FIFI_USER_TOP
       \<and> (\<forall>v. unat a \<le> unat v \<longrightarrow> unat v < unat a + unat n \<longrightarrow> vmm_user_page_ok v False s)
     then Some (map (\<lambda>i. uload s (a + of_nat i)) [0..<unat n]) else None)"
proof -
  have "(if n > cap then cap else n) = min n cap" by (auto simp: min_def)
  then show ?thesis using assms by (simp add: copyin_bytes_def Let_def user_range_ok_iff del: not_all)
qed

theorem copyin_bytes_exact_witness:
  "copyin_bytes 16 0xffff800000001000 8 demo_vmm = None"
  using copyin_bytes_exact [of 16 "0xffff800000001000" 8 demo_vmm] by (simp add: FIFI_USER_TOP_def)

section \<open>Stores leave the page tables alone\<close>

text \<open>The frame behind a user address is none of the page tables.\<close>

definition data_frame :: "(u64 \<Rightarrow> nat option) \<Rightarrow> u64 \<Rightarrow> vmm \<Rightarrow> bool" where
  "data_frame lv a s \<longleftrightarrow> lv (vmm_translate a s AND NOT 0xFFF) = None"

definition same_walks :: "(u64 \<Rightarrow> nat option) \<Rightarrow> vmm \<Rightarrow> vmm \<Rightarrow> bool" where
  "same_walks lv s s' \<longleftrightarrow> v_cr3 s' = v_cr3 s \<and> g_hhdm (v_pmm s') = g_hhdm (v_pmm s)
     \<and> (\<forall>t l i. lv t = Some l \<longrightarrow> i < 512 \<longrightarrow> rd_ent (v_pmm s') t i = rd_ent (v_pmm s) t i)"

definition walk_inv :: "(u64 \<Rightarrow> nat option) \<Rightarrow> vmm \<Rightarrow> bool" where
  "walk_inv lv s \<longleftrightarrow> lv (read_cr3_phys s) = Some 4
     \<and> (\<forall>t l. lv t = Some l \<longrightarrow> table_page t)
     \<and> (\<forall>t l i c. lv t = Some (Suc l) \<longrightarrow> 1 \<le> l \<longrightarrow> i < 512 \<longrightarrow> ent (v_pmm s) t i = Some c \<longrightarrow> lv c = Some l)"

lemma pt_inv_walk_inv: "pt_inv (v_pmm s) lv \<Longrightarrow> lv (read_cr3_phys s) = Some 4 \<Longrightarrow> walk_inv lv s"
  unfolding walk_inv_def using pt_invD(2,6) by blast

lemma walk_invD:
  assumes "walk_inv lv s"
  shows "lv (read_cr3_phys s) = Some 4" "lv t = Some l \<Longrightarrow> table_page t"
    "lv t = Some (Suc k) \<Longrightarrow> 1 \<le> k \<Longrightarrow> i < 512 \<Longrightarrow> ent (v_pmm s) t i = Some c \<Longrightarrow> lv c = Some k"
  using assms unfolding walk_inv_def by blast+

lemma same_walksD:
  assumes "same_walks lv s s'"
  shows "read_cr3_phys s' = read_cr3_phys s" "g_hhdm (v_pmm s') = g_hhdm (v_pmm s)"
    "lv t = Some l \<Longrightarrow> i < 512 \<Longrightarrow> rd_ent (v_pmm s') t i = rd_ent (v_pmm s) t i"
proof -
  show "read_cr3_phys s' = read_cr3_phys s"
    using assms unfolding same_walks_def read_cr3_phys_def by (elim conjE) (simp only:)
qed (use assms in \<open>unfold same_walks_def, blast\<close>)+

lemma walk_inv_same:
  assumes "walk_inv lv s" "same_walks lv s s'"
  shows "walk_inv lv s'"
  unfolding walk_inv_def
proof (intro conjI allI impI)
  show "lv (read_cr3_phys s') = Some 4" using walk_invD(1) [OF assms(1)] same_walksD(1) [OF assms(2)] by simp
  show "table_page t" if "lv t = Some l" for t l using walk_invD(2) [OF assms(1) that] .
  show "lv c = Some l" if "lv t = Some (Suc l)" "1 \<le> l" "i < 512" "ent (v_pmm s') t i = Some c" for t l i c
    using walk_invD(3) [OF assms(1) that(1-3)] that(4) ent_cong [OF same_walksD(3) [OF assms(2) that(1,3)]] by simp
qed

lemma lookup_same:
  assumes "walk_inv lv s" "same_walks lv s s'"
  shows "lv t = Some (length is) \<Longrightarrow> \<forall>i \<in> set is. i < 512 \<Longrightarrow> lookup (v_pmm s') t is = lookup (v_pmm s) t is"
proof (induction "is" arbitrary: t rule: induct_list012)
  case (2 i)
  then show ?case using same_walksD(3) [OF assms(2), of t 1 i] by simp
next
  case (3 i j "is")
  have e: "ent (v_pmm s') t i = ent (v_pmm s) t i" 
    using ent_cong [OF same_walksD(3) [OF assms(2) 3(3)], of i] 3(4) by simp
  show ?case
  proof (cases "ent (v_pmm s) t i")
    case (Some c)
    then have "lv c = Some (length (j # is))" 
      using walk_invD(3) [OF assms(1), of t "Suc (length is)" i c] 3(3,4) by simp
    then show ?thesis using e Some 3(2) [of c] 3(4) by simp
  qed (use e in simp)
qed simp

lemma translate_same:
  assumes "walk_inv lv s" "same_walks lv s s'"
  shows "vmm_translate a s' = vmm_translate a s"
proof -
  have "lookup (v_pmm s') (read_cr3_phys s) (vidx a) = lookup (v_pmm s) (read_cr3_phys s) (vidx a)"
    using vidx_bound [of _ a] walk_invD(1) [OF assms(1)] by (intro lookup_same [OF assms]) (auto simp: vidx_def)
  then show ?thesis using same_walksD(1) [OF assms(2)] by (simp add: vmm_translate_def translate_lookup)
qed

lemma page_split: "(x AND NOT 0xFFF) + (x AND 0xFFF) = x" "unat (x AND 0xFFF) < 4096" "page_aligned (x AND NOT 0xFFF)" for x :: u64
proof -
  have "(x AND NOT m) + (x AND m) = x" for m :: u64
  proof -
    have "(x AND NOT m) AND (x AND m) = 0" by (rule bit_word_eqI) (simp add: bit_simps)
    then have "(x AND NOT m) + (x AND m) = (x AND NOT m) OR (x AND m)" by (rule disjunctive_add_eq_or)
    also have "\<dots> = x" by (rule bit_word_eqI) (auto simp: bit_simps)
    finally show ?thesis .
  qed
  then show "(x AND NOT 0xFFF) + (x AND 0xFFF) = x" .
  show "unat (x AND 0xFFF) < 4096" using unat_and_mask [of x 12] by (simp add: mask_eq_exp_minus_1)
  show "page_aligned (x AND NOT 0xFFF)" by (simp add: page_aligned_def and.assoc)
qed

lemma ustore_ent_addr: "ent_addr (v_pmm (ustore a b s)) t i = ent_addr (v_pmm s) t i"
  by (simp add: ustore_def)

lemma ustore_same:
  assumes w: "walk_inv lv s" and d: "data_frame lv a s"
  shows "same_walks lv s (ustore a b s)"
proof -
  let ?x = "vmm_translate a s" and ?h = "g_hhdm (v_pmm s)"
  have "rd_ent (v_pmm (ustore a b s)) t i = rd_ent (v_pmm s) t i" if t: "lv t = Some l" "i < 512" for t l i
    unfolding rd_ent_def ustore_ent_addr
  proof (rule load64_cong)
    fix k :: u64
    assume k: "k \<in> {0, 1, 2, 3, 4, 5, 6, 7}"
    note tp = walk_invD(2) [OF w t(1)]
    have "unat (8 * of_nat i :: u64) = 8 * i" using t(2) by (simp add: unat_word_ariths unsigned_of_nat take_bit_eq_mod)
    moreover have "unat k < 8" using k by auto
    ultimately have o: "unat (8 * of_nat i + k) < 4096" using t(2) by (subst unat_add_no_wrap) auto
    have "t \<noteq> ?x AND NOT 0xFFF" using d t(1) by (auto simp: data_frame_def)
    with tp o have "t + (8 * of_nat i + k) \<noteq> (?x AND NOT 0xFFF) + (?x AND 0xFFF)"
      by (intro page_bytes_apart page_split) (simp_all add: table_page_def)
    then have "t + (8 * of_nat i + k) \<noteq> ?x" by (simp only: page_split(1) not_False_eq_True)
    then have "ent_addr (v_pmm s) t i + k \<noteq> ?x + ?h" by (simp add: ent_addr_eq [OF tp] algebra_simps)
    then show "pmm_mem (v_pmm (ustore a b s)) (ent_addr (v_pmm s) t i + k) = pmm_mem (v_pmm s) (ent_addr (v_pmm s) t i + k)"
      by (simp add: ustore_def)
  qed
  then show ?thesis by (simp add: same_walks_def ustore_def)
qed

lemma same_walks_refl: "same_walks lv s s"
  by (simp add: same_walks_def)

lemma same_walks_trans:
  assumes "same_walks lv s s1" "same_walks lv s1 s2"
  shows "same_walks lv s s2"
  using assms unfolding same_walks_def by metis

lemma ustore_bytes_spec:
  assumes "walk_inv lv s" "\<forall>i < length bs. data_frame lv (a + of_nat i) s"
  shows "same_walks lv s (ustore_bytes a bs s)
    \<and> (\<forall>x. (\<forall>i < length bs. x \<noteq> vmm_translate (a + of_nat i) s + g_hhdm (v_pmm s)) \<longrightarrow>
         pmm_mem (v_pmm (ustore_bytes a bs s)) x = pmm_mem (v_pmm s) x)
    \<and> (inj_on (\<lambda>i. vmm_translate (a + of_nat i) s) {..<length bs} \<longrightarrow>
         (\<forall>i < length bs. pmm_mem (v_pmm (ustore_bytes a bs s)) (vmm_translate (a + of_nat i) s + g_hhdm (v_pmm s)) = bs ! i))"
  using assms
proof (induction bs arbitrary: a s)
  case Nil
  then show ?case by (simp add: same_walks_refl)
next
  case (Cons b bs)
  let ?s = "ustore a b s"
  have sw: "same_walks lv s ?s" using Cons.prems(1) Cons.prems(2) [rule_format, of 0] by (intro ustore_same) simp_all
  note tr = translate_same [OF Cons.prems(1) sw] and hh = same_walksD(2) [OF sw]
  have sh: "a + 1 + of_nat i = a + of_nat (Suc i)" for i by simp
  have df: "\<forall>i < length bs. data_frame lv (a + 1 + of_nat i) ?s"
    unfolding data_frame_def tr sh using Cons.prems(2) by (simp only: data_frame_def) auto
  note IH = Cons.IH [OF walk_inv_same [OF Cons.prems(1) sw] df, unfolded tr hh sh]
  note IH1 = IH [THEN conjunct1] and IH2 = IH [THEN conjunct2, THEN conjunct1, rule_format]
    and IH3 = IH [THEN conjunct2, THEN conjunct2, rule_format]
  have here: "pmm_mem (v_pmm ?s) x = (if x = vmm_translate a s + g_hhdm (v_pmm s) then b else pmm_mem (v_pmm s) x)" for x
    by (simp add: ustore_def)
  show ?case
  proof (intro conjI allI impI)
    show "same_walks lv s (ustore_bytes a (b # bs) s)" using same_walks_trans [OF sw IH1] by simp
    fix x
    assume x: "\<forall>i < length (b # bs). x \<noteq> vmm_translate (a + of_nat i) s + g_hhdm (v_pmm s)"
    have "x \<noteq> vmm_translate a s + g_hhdm (v_pmm s)" using x [rule_format, of 0] by simp
    moreover have "x \<noteq> vmm_translate (a + of_nat (Suc i)) s + g_hhdm (v_pmm s)" if "i < length bs" for i
      using x [rule_format, of "Suc i"] that by simp
    ultimately show "pmm_mem (v_pmm (ustore_bytes a (b # bs) s)) x = pmm_mem (v_pmm s) x"
      using IH2 [of x] here by simp
  next
    fix i
    assume inj: "inj_on (\<lambda>i. vmm_translate (a + of_nat i) s) {..<length (b # bs)}" and i: "i < length (b # bs)"
    have inj': "inj_on (\<lambda>i. vmm_translate (a + of_nat (Suc i)) s) {..<length bs}"
      by (rule inj_onI) (use inj_onD [OF inj] in fastforce)
    have ne: "vmm_translate a s \<noteq> vmm_translate (a + of_nat (Suc j)) s" if "j < length bs" for j
      using inj_onD [OF inj, of 0 "Suc j"] that by auto
    show "pmm_mem (v_pmm (ustore_bytes a (b # bs) s)) (vmm_translate (a + of_nat i) s + g_hhdm (v_pmm s)) = (b # bs) ! i"
    proof (cases i)
      case 0
      then show ?thesis using IH2 [of "vmm_translate a s + g_hhdm (v_pmm s)"] ne here by simp
    next
      case (Suc j)
      then show ?thesis using IH3 [OF inj', of j] i by simp
    qed
  qed
qed

lemma page_ok_same:
  assumes "walk_inv lv s" "same_walks lv s s'"
  shows "vmm_user_page_ok a w s' = vmm_user_page_ok a w s"
proof -
  have b: "idx_pml4 a < 512" "idx_pdpt a < 512" "idx_pd a < 512" "idx_pt a < 512"
    using vidx_bound [of _ a] by (auto simp: vidx_def)
  have down: "lv (rd_ent (v_pmm s) t i AND NOT 0xFFF) = Some k"
    if "user_ent_ok w (rd_ent (v_pmm s) t i)" "lv t = Some (Suc k)" "1 \<le> k" "i < 512" for t i k
    using walk_invD(3) [OF assms(1) that(2-4)] that(1) by (simp add: ent_def user_ent_ok_def)
  let ?rd = "rd_ent (v_pmm s)"
  let ?e1 = "?rd (read_cr3_phys s) (idx_pml4 a)"
  let ?e2 = "?rd (?e1 AND NOT 0xFFF) (idx_pdpt a)"
  let ?e3 = "?rd (?e2 AND NOT 0xFFF) (idx_pd a)"
  have r: "lv (read_cr3_phys s) = Some (Suc 3)" using walk_invD(1) [OF assms(1)] by simp
  have d1: "lv (?e1 AND NOT 0xFFF) = Some (Suc 2)" if "user_ent_ok w ?e1" using down [OF that r] b by simp
  have d2: "lv (?e2 AND NOT 0xFFF) = Some (Suc 1)" if "user_ent_ok w ?e1" "user_ent_ok w ?e2"
    using down [OF that(2) d1 [OF that(1)]] b by simp
  have d3: "lv (?e3 AND NOT 0xFFF) = Some 1" if "user_ent_ok w ?e1" "user_ent_ok w ?e2" "user_ent_ok w ?e3"
    using down [OF that(3) d2 [OF that(1,2)]] b by simp
  note eq = same_walksD(3) [OF assms(2)]
  show ?thesis
    unfolding vmm_user_page_ok_def same_walksD(1) [OF assms(2)] Let_def eq [OF r b(1)]
    using eq [OF d1 b(2)] eq [OF d2 b(3)] eq [OF d3 b(4)] by auto
qed

lemma page_ok_read: "vmm_user_page_ok a True s \<Longrightarrow> vmm_user_page_ok a w s"
  by (cases w) (auto simp: vmm_user_page_ok_def user_ent_ok_def Let_def)

lemma unat_offset:
  fixes a :: u64
  assumes "unat a + n < 2 ^ 64" "i \<le> n"
  shows "unat (a + of_nat i) = unat a + i"
proof -
  have "unat (of_nat i :: u64) = i" using assms by (simp add: unat_of_nat_u64)
  then show ?thesis using assms by (subst unat_add_no_wrap) simp_all
qed

lemma user_range_bounds:
  assumes "user_range_ok a (of_nat n) w s" "n < 2 ^ 64"
  shows "unat a + n < 2 ^ 64" "i < n \<Longrightarrow> vmm_user_page_ok (a + of_nat i) w s"
proof -
  have n: "unat (of_nat n :: u64) = n" using assms(2) by (simp add: unat_of_nat_u64)
  then show l: "unat a + n < 2 ^ 64" using assms(1) by (simp add: user_range_ok_iff FIFI_USER_TOP_def)
  show "vmm_user_page_ok (a + of_nat i) w s" if "i < n"
    using assms(1) that n unat_offset [OF l, of i] by (simp add: user_range_ok_iff)
qed

subsection \<open>An address space of one page\<close>

text \<open>Four tables that map the lowest page, for user mode and writable, to the frame at 0x5000.\<close>

definition one_page_pmm :: pmm where
  "one_page_pmm = wr_ent 0x4000 0 0x5007 (wr_ent 0x3000 0 0x4007 (wr_ent 0x2000 0 0x3007 (wr_ent 0x1000 0 0x2007
     \<lparr>g_hhdm = 0x100000, g_cursor = 0x1000000, g_end = 0x1000000, g_free_list = 0, g_dma32_cursor = 0, g_dma32_end = 0,
      g_pmm_total_pages = 0, g_pmm_free_pages = 0, pmm_mem = (\<lambda>_. 0)\<rparr>)))"

definition one_page :: vmm where
  "one_page = \<lparr>v_pmm = one_page_pmm, v_cr3 = 0x1000, g_kernel_cr3 = 0x1000\<rparr>"

definition one_page_levels :: "u64 \<Rightarrow> nat option" where
  "one_page_levels = [0x1000 \<mapsto> 4, 0x2000 \<mapsto> 3, 0x3000 \<mapsto> 2, 0x4000 \<mapsto> 1]"

lemma one_page_rd:
  assumes "t \<in> {0x1000, 0x2000, 0x3000, 0x4000}" "i < 512"
  shows "rd_ent one_page_pmm t i = (if i = 0 then t + 0x1007 else 0)"
proof -
  have tp: "table_page 0x1000" "table_page 0x2000" "table_page 0x3000" "table_page 0x4000"
    by (simp_all add: table_page_def page_aligned_def)
  have z: "rd_ent (s\<lparr>pmm_mem := \<lambda>_. 0\<rparr>) t i = 0" for s t i by (simp add: rd_ent_def load64_def)
  note o = rd_wr_other [OF _ _ _ assms(2), of _ t 0]
  show ?thesis
    using assms tp z [of "\<lparr>g_hhdm = 0x100000, g_cursor = 0x1000000, g_end = 0x1000000, g_free_list = 0, g_dma32_cursor = 0, g_dma32_end = 0,
      g_pmm_total_pages = 0, g_pmm_free_pages = 0, pmm_mem = (\<lambda>_. 0)\<rparr>" t i]
    by (cases "i = 0") (auto simp: one_page_pmm_def o rd_wr_same rd_wr_other)
qed

lemma one_page_walk: "walk_inv one_page_levels one_page"
  unfolding walk_inv_def
proof (intro conjI allI impI)
  show "one_page_levels (read_cr3_phys one_page) = Some 4"
    by (simp add: one_page_levels_def one_page_def read_cr3_phys_def)
  show "table_page t" if "one_page_levels t = Some l" for t l
    using that by (auto simp: one_page_levels_def table_page_def page_aligned_def split: if_splits)
  show "one_page_levels c = Some l"
    if "one_page_levels t = Some (Suc l)" "1 \<le> l" "i < 512" "ent (v_pmm one_page) t i = Some c" for t l i c
    using that by (auto simp: one_page_levels_def one_page_def ent_def one_page_rd present_def PTE_P_def split: if_splits)
qed

lemma low_page_bits: "unat v < 4096 \<Longrightarrow> take_bit 12 v = v" for v :: u64
proof -
  assume "unat v < 4096"
  then have "unat (take_bit 12 v) = unat v" unfolding unsigned_take_bit_eq by (simp add: take_bit_eq_mod)
  then show ?thesis by (simp only: word_unat_eq_iff)
qed

lemma one_page_low:
  assumes "unat v < 4096"
  shows "vmm_user_page_ok v w one_page" "vmm_translate v one_page = 0x5000 OR v"
proof -
  note t = low_page_bits [OF assms]
  have "drop_bit k v = 0" if "12 \<le> k" for k
    by (subst t [symmetric], rule bit_word_eqI) (use that in \<open>simp add: bit_simps\<close>)
  then have i: "idx_pml4 v = 0" "idx_pdpt v = 0" "idx_pd v = 0" "idx_pt v = 0"
    by (simp_all add: idx_pml4_def idx_pdpt_def idx_pd_def idx_pt_def)
  have m: "v AND 0xFFF = v" using t by (simp add: take_bit_eq_mask mask_eq_exp_minus_1)
  show "vmm_user_page_ok v w one_page" "vmm_translate v one_page = 0x5000 OR v"
    using i m by (simp_all add: vmm_user_page_ok_def vmm_translate_def translate_in_def one_page_def read_cr3_phys_def
      one_page_rd user_ent_ok_def present_def PTE_P_def PTE_US_def PTE_RW_def PTE_ADDR_def Let_def)
qed

lemma one_page_bytes: "vmm_translate 0x10 one_page = 0x5010" "vmm_translate 0x11 one_page = 0x5011" "g_hhdm (v_pmm one_page) = 0x100000"
  using one_page_low(2) [of "0x10"] one_page_low(2) [of "0x11"] by (simp_all add: one_page_def one_page_pmm_def)

lemma one_page_range: "user_range_ok 0x10 2 w one_page"
  unfolding user_range_ok_iff by (auto simp: FIFI_USER_TOP_def intro!: one_page_low)

lemma one_page_data: "unat v < 4096 \<Longrightarrow> data_frame one_page_levels v one_page"
proof -
  assume v: "unat v < 4096"
  note t = low_page_bits [OF v]
  have "(push_bit 12 x OR take_bit 12 v) AND NOT (mask 12) = push_bit 12 x" for x :: u64
    by (rule bit_word_eqI) (auto simp: bit_simps)
  from this [of 5] have "(0x5000 OR v) AND NOT 0xFFF = 0x5000" by (simp add: t mask_eq_exp_minus_1)
  then show ?thesis using v by (simp add: data_frame_def one_page_low one_page_levels_def)
qed

lemma user_addr_quad:
  assumes "unat a < unat FIFI_USER_TOP"
  shows "quad (vidx a)"
proof -
  have "unat a < 2 ^ 47" using assms by (simp add: FIFI_USER_TOP_def)
  then have "unat a div 2 ^ 39 < 256" by (simp add: less_mult_imp_div_less)
  then have "unat (drop_bit 39 a) < 256" by (simp add: drop_bit_eq_div unat_div)
  moreover have "unat (drop_bit 39 a AND 0x1FF) \<le> unat (drop_bit 39 a)" unfolding word_le_nat_alt [symmetric] by (rule word_and_le2)
  ultimately have "idx_pml4 a < 256" by (simp add: idx_pml4_def)
  then show ?thesis by (rule quad_vidx)
qed

lemma page_ok_lookup:
  assumes "vmm_user_page_ok a w s"
  shows "lookup (v_pmm s) (read_cr3_phys s) (vidx a) \<noteq> 0"
  using assms present_nonzero by (auto simp: vmm_user_page_ok_def user_ent_ok_def vidx_def ent_def Let_def)

text \<open>The frame behind an address that a program may access.\<close>

lemma user_frame:
  assumes "src_frames (v_pmm s) lv (read_cr3_phys s)" "unat a < unat FIFI_USER_TOP" "vmm_user_page_ok a w s"
  defines "f \<equiv> vmm_translate a s AND NOT 0xFFF"
  shows "table_page f" "f \<notin> avail_pages (v_pmm s)" "lv f = None" "in_page (v_pmm s) f (vmm_translate a s + g_hhdm (v_pmm s))"
proof -
  let ?e = "lookup (v_pmm s) (read_cr3_phys s) (vidx a)"
  note F = src_framesD [OF assms(1) user_addr_quad [OF assms(2)] page_ok_lookup [OF assms(3)]]
  have tr: "vmm_translate a s = (?e AND PTE_ADDR) OR (a AND 0xFFF)"
    using page_ok_lookup [OF assms(3)] by (simp add: vmm_translate_def translate_lookup)
  have z: "(a AND 0xFFF) AND NOT 0xFFF = 0" by (rule bit_word_eqI) (simp add: bit_simps)
  have "(?e AND PTE_ADDR) AND NOT 0xFFF = ?e AND PTE_ADDR"
    using F(1) page_down_aligned [of "?e AND PTE_ADDR"] by (simp add: PAGE_SIZE_def table_page_def)
  then have f: "f = ?e AND PTE_ADDR" unfolding f_def tr bit.conj_disj_distrib2 z by simp
  then show "table_page f" "f \<notin> avail_pages (v_pmm s)" "lv f = None" using F by simp_all
  have "vmm_translate a s - f = vmm_translate a s AND 0xFFF" using page_split(1) [of "vmm_translate a s"] unfolding f_def by (simp add: algebra_simps)
  then show "in_page (v_pmm s) f (vmm_translate a s + g_hhdm (v_pmm s))"
    using page_split(2) [of "vmm_translate a s"] by (simp add: in_page_def)
qed

text \<open>The tables and the list of free pages survive stores to frames of programs.\<close>

definition frame_ok :: "(u64 \<Rightarrow> nat option) \<Rightarrow> u64 \<Rightarrow> vmm \<Rightarrow> bool" where
  "frame_ok lv a s \<longleftrightarrow> table_page (vmm_translate a s AND NOT 0xFFF) \<and> vmm_translate a s AND NOT 0xFFF \<notin> avail_pages (v_pmm s)
     \<and> lv (vmm_translate a s AND NOT 0xFFF) = None
     \<and> in_page (v_pmm s) (vmm_translate a s AND NOT 0xFFF) (vmm_translate a s + g_hhdm (v_pmm s))"

lemma ustore_keeps:
  assumes inv: "pt_inv (v_pmm s) lv" "lv (read_cr3_phys s) = Some 4" and f: "frame_ok lv a s"
  shows "pt_inv (v_pmm (ustore a b s)) lv" "avail_pages (v_pmm (ustore a b s)) = avail_pages (v_pmm s)" "same_walks lv s (ustore a b s)"
proof -
  note F = f [unfolded frame_ok_def]
  show sw: "same_walks lv s (ustore a b s)"
    by (rule ustore_same [OF pt_inv_walk_inv [OF inv]]) (use F in \<open>simp add: data_frame_def\<close>)
  let ?m = "(pmm_mem (v_pmm s))(vmm_translate a s + g_hhdm (v_pmm s) := b)"
  have "?m x = pmm_mem (v_pmm s) x" if "\<not> unat (x - ((vmm_translate a s AND NOT 0xFFF) + g_hhdm (v_pmm s))) < 4096" for x
    using that F by (auto simp: in_page_def)
  note M = mem_page_keeps [OF pt_invD(1) [OF inv(1)] F [THEN conjunct1] F [THEN conjunct2, THEN conjunct1] this]
  have k: "pmm_ok (v_pmm (ustore a b s))" "avail_pages (v_pmm (ustore a b s)) = avail_pages (v_pmm s)"
    using M by (simp_all add: ustore_def fun_upd_def)
  show "avail_pages (v_pmm (ustore a b s)) = avail_pages (v_pmm s)" by (rule k(2))
  show "pt_inv (v_pmm (ustore a b s)) lv"
    by (rule pt_inv_cong [OF inv(1) k(1) equalityD1 [OF k(2)] ent_cong [OF same_walksD(3) [OF sw]]])
qed

lemma ustore_bytes_keeps:
  assumes "pt_inv (v_pmm s) lv" "lv (read_cr3_phys s) = Some 4" "\<forall>i < length bs. frame_ok lv (a + of_nat i) s"
  shows "pt_inv (v_pmm (ustore_bytes a bs s)) lv \<and> avail_pages (v_pmm (ustore_bytes a bs s)) = avail_pages (v_pmm s)"
  using assms
proof (induction bs arbitrary: a s)
  case (Cons b bs)
  have "frame_ok lv a s" using Cons.prems(3) [rule_format, of 0] by simp
  note K = ustore_keeps [OF Cons.prems(1,2) this, of b]
  note tr = translate_same [OF pt_inv_walk_inv [OF Cons.prems(1,2)] K(3)]
  have "\<forall>i < length bs. frame_ok lv (a + 1 + of_nat i) (ustore a b s)"
  proof (intro allI impI)
    fix i
    assume "i < length bs"
    then have "frame_ok lv (a + of_nat (Suc i)) s" using Cons.prems(3) [rule_format, of "Suc i"] by (simp del: of_nat_Suc)
    moreover have "a + 1 + of_nat i = a + of_nat (Suc i)" by simp
    ultimately show "frame_ok lv (a + 1 + of_nat i) (ustore a b s)"
      unfolding frame_ok_def tr K(2) same_walksD(2) [OF K(3)] in_page_def by (simp only: simp_thms)
  qed
  from Cons.IH [OF K(1) _ this] show ?case using K(2) Cons.prems(2) same_walksD(1) [OF K(3)] by simp
qed simp

text \<open>
  Claim C9. A copy to user memory, when the tables are a forest and the frames mapped in the user half are
  neither free pages nor page tables. It changes no byte of physical memory but those behind addresses
  of the given range that lie below the top of user space and whose entries on all four levels are
  present, writable and for user mode, and nothing at all when it fails. Every entry of every page table
  and the list of free pages stay as they are, and the condition on the frames holds again, so that it
  holds over any sequence of copies; new address spaces and mappings keep it too (\<open>src_frames_create\<close>,
  \<open>src_frames_map\<close>).
\<close>

theorem copyout_writes_only_user:
  assumes "pt_inv (v_pmm s) lv" "lv (read_cr3_phys s) = Some 4" "src_frames (v_pmm s) lv (read_cr3_phys s)"
    and "length src < 2 ^ 64" "copyout_bytes a src s = (ok, s')"
  shows "(\<forall>x. pmm_mem (v_pmm s') x \<noteq> pmm_mem (v_pmm s) x \<longrightarrow>
      (\<exists>i < length src. ok \<and> unat a + i < unat FIFI_USER_TOP \<and> user_may True (a + of_nat i) s
         \<and> x = vmm_translate (a + of_nat i) s + g_hhdm (v_pmm s)))
    \<and> (\<forall>t l j. lv t = Some l \<longrightarrow> j < 512 \<longrightarrow> rd_ent (v_pmm s') t j = rd_ent (v_pmm s) t j)
    \<and> avail_pages (v_pmm s') = avail_pages (v_pmm s)
    \<and> pt_inv (v_pmm s') lv \<and> src_frames (v_pmm s') lv (read_cr3_phys s')"
proof (cases "ok \<and> src \<noteq> []")
  case False
  then have "s' = s" using assms(5) by (auto simp: copyout_bytes_def split: if_splits)
  then show ?thesis using assms(1,3) by simp
next
  case True
  then have r: "user_range_ok a (of_nat (length src)) True s" "s' = ustore_bytes a src s"
    using assms(5) by (auto simp: copyout_bytes_def split: if_splits)
  have n: "unat (of_nat (length src) :: u64) = length src" using assms(4) by (simp add: unat_of_nat_u64)
  have top: "unat a + i < unat FIFI_USER_TOP" if "i < length src" for i using r(1) that n by (simp add: user_range_ok_iff)
  have un: "unat (a + of_nat i) = unat a + i" if "i < length src" for i
    by (rule unat_offset [OF user_range_bounds(1) [OF r(1) assms(4)]]) (use that in simp)
  note ok = user_range_bounds(2) [OF r(1) assms(4)]
  have f: "\<forall>i < length src. frame_ok lv (a + of_nat i) s"
    unfolding frame_ok_def using user_frame [OF assms(3) _ ok] top un by simp
  then have d: "\<forall>i < length src. data_frame lv (a + of_nat i) s" unfolding frame_ok_def data_frame_def by blast
  note S = ustore_bytes_spec [OF pt_inv_walk_inv [OF assms(1,2)] d, folded r(2)]
  note sw = S [THEN conjunct1] and K = ustore_bytes_keeps [OF assms(1,2) f, folded r(2)]
  have "lookup (v_pmm s') (read_cr3_phys s) q = lookup (v_pmm s) (read_cr3_phys s) q" if "quad q" for q
    by (rule lookup_same [OF pt_inv_walk_inv [OF assms(1,2)] sw]) (use that assms(2) in \<open>simp_all add: quad_def\<close>)
  then have "src_frames (v_pmm s') lv (read_cr3_phys s')"
    unfolding src_frames_def same_walksD(1) [OF sw] K [THEN conjunct2] using assms(3) [unfolded src_frames_def] by metis
  moreover have "\<exists>i < length src. ok \<and> unat a + i < unat FIFI_USER_TOP \<and> user_may True (a + of_nat i) s
      \<and> x = vmm_translate (a + of_nat i) s + g_hhdm (v_pmm s)" if ch: "pmm_mem (v_pmm s') x \<noteq> pmm_mem (v_pmm s) x" for x
  proof -
    obtain i where "i < length src" "x = vmm_translate (a + of_nat i) s + g_hhdm (v_pmm s)" using S [THEN conjunct2, THEN conjunct1, rule_format, of x] ch by blast
    then show ?thesis using True top ok [unfolded user_page_ok_eq] by blast
  qed
  moreover have "\<forall>t l j. lv t = Some l \<longrightarrow> j < 512 \<longrightarrow> rd_ent (v_pmm s') t j = rd_ent (v_pmm s) t j"
    using same_walksD(3) [OF sw] by blast
  ultimately show ?thesis using K by blast
qed

lemma one_page_inv: "pt_inv (v_pmm one_page) one_page_levels" "src_frames (v_pmm one_page) one_page_levels (read_cr3_phys one_page)"
proof -
  have g: "g_hhdm one_page_pmm = 0x100000" "g_cursor one_page_pmm = 0x1000000" "g_end one_page_pmm = 0x1000000" "g_free_list one_page_pmm = 0"
    "g_pmm_free_pages one_page_pmm = 0" by (simp_all add: one_page_pmm_def wr_ent_def)
  have inv: "pmm_inv one_page_pmm []" by (simp add: pmm_inv_def region_ok_def g page_aligned_def MIN_PHYS_def)
  have av: "avail_pages one_page_pmm = {}" unfolding avail_pages_inv [OF inv] by (auto simp: bump_pages_def g word_le_nat_alt)
  have ent: "ent one_page_pmm t j = (if j = 0 then Some (t + 0x1000) else None)"
    if "t \<in> {0x1000, 0x2000, 0x3000, 0x4000}" "j < 512" for t j
    using that by (auto simp: ent_def one_page_rd present_def PTE_P_def)
  have lv: "one_page_levels t = Some l \<Longrightarrow> t \<in> {0x1000, 0x2000, 0x3000, 0x4000}" for t l
    by (auto simp: one_page_levels_def split: if_splits)
  show "pt_inv (v_pmm one_page) one_page_levels"
    unfolding pt_inv_def
  proof (intro conjI allI impI)
    show "pmm_ok (v_pmm one_page)" using inv by (auto simp: one_page_def pmm_ok_def)
  next
    fix t l
    assume "one_page_levels t = Some l"
    then show "table_page t" "t \<notin> avail_pages (v_pmm one_page)" "1 \<le> l" "l \<le> 4"
      using walk_invD(2) [OF one_page_walk] av by (auto simp: one_page_def one_page_levels_def split: if_splits)
  next
    fix t l i c
    assume "one_page_levels t = Some (Suc l) \<and> 1 \<le> l \<and> i < 512 \<and> ent (v_pmm one_page) t i = Some c"
    then show "one_page_levels c = Some l" using walk_invD(3) [OF one_page_walk, of t l i c] by blast
  next
    fix t t' l i i' c
    assume a: "one_page_levels t = Some (Suc l) \<and> one_page_levels t' = Some (Suc l) \<and> 1 \<le> l \<and> i < 512 \<and> i' < 512
      \<and> ent (v_pmm one_page) t i = Some c \<and> ent (v_pmm one_page) t' i' = Some c"
    then show "i = i'" "t = t' \<or> l = 3 \<and> 256 \<le> i"
      using ent [OF lv, of t "Suc l" i] ent [OF lv, of t' "Suc l" i'] by (auto simp: one_page_def split: if_splits)
  qed
  have root: "read_cr3_phys one_page = 0x1000" by (simp add: one_page_def read_cr3_phys_def)
  show "src_frames (v_pmm one_page) one_page_levels (read_cr3_phys one_page)"
    unfolding src_frames_def root
  proof (intro allI impI)
    fix q
    assume q: "quad q \<and> lookup (v_pmm one_page) 0x1000 q \<noteq> 0"
    then obtain i1 i2 i3 i4 where qq: "q = [i1, i2, i3, i4]"
      by (auto simp: quad_def length_Suc_conv eval_nat_numeral(1-3))
    then have b: "i1 < 512" "i2 < 512" "i3 < 512" "i4 < 512" using q by (simp_all add: quad_def)
    from q qq b have "i1 = 0" "i2 = 0" "i3 = 0" "i4 = 0"
      by (auto simp: one_page_def ent one_page_rd present_def PTE_P_def split: if_splits)
    then have "lookup (v_pmm one_page) 0x1000 q = 0x5007"
      using qq by (simp add: one_page_def ent one_page_rd present_def PTE_P_def)
    then show "table_page (lookup (v_pmm one_page) 0x1000 q AND PTE_ADDR) \<and> lookup (v_pmm one_page) 0x1000 q AND PTE_ADDR \<notin> avail_pages (v_pmm one_page)
      \<and> one_page_levels (lookup (v_pmm one_page) 0x1000 q AND PTE_ADDR) = None"
      by (simp add: PTE_ADDR_def table_page_def page_aligned_def one_page_levels_def one_page_def av)
  qed
qed

theorem copyout_writes_only_user_witness:
  "fst (copyout_bytes 0x10 [7, 8] one_page)
   \<and> pmm_mem (v_pmm (snd (copyout_bytes 0x10 [7, 8] one_page))) 0x105010 = 7
   \<and> rd_ent (v_pmm (snd (copyout_bytes 0x10 [7, 8] one_page))) 0x4000 0 = 0x5007"
proof -
  have ok: "fst (copyout_bytes 0x10 [7, 8] one_page)" by (simp add: copyout_bytes_def one_page_range)
  have root: "one_page_levels (read_cr3_phys one_page) = Some 4" by (rule walk_invD(1) [OF one_page_walk])
  have "one_page_levels 0x4000 = Some 1" by (simp add: one_page_levels_def)
  then have "rd_ent (v_pmm (snd (copyout_bytes 0x10 [7, 8] one_page))) 0x4000 0 = rd_ent (v_pmm one_page) 0x4000 0"
    using copyout_writes_only_user [OF one_page_inv(1) root one_page_inv(2) _ prod.collapse [symmetric], of "[7, 8]" "0x10"] by simp
  moreover have "pmm_mem (v_pmm (snd (copyout_bytes 0x10 [7, 8] one_page))) 0x105010 = 7"
  proof -
    have "same_walks one_page_levels one_page (ustore 0x10 7 one_page)"
      by (rule ustore_same [OF one_page_walk one_page_data]) simp
    from translate_same [OF one_page_walk this, of "0x11"] same_walksD(2) [OF this] show ?thesis
      by (simp add: copyout_bytes_def one_page_range) (simp add: ustore_def one_page_bytes)
  qed
  ultimately show ?thesis using ok by (simp add: one_page_def one_page_rd)
qed

theorem vmm_user_accessible_iff_witness:
  "vmm_user_accessible 0x10 2 True one_page = Some True \<and> vmm_user_accessible 0x400000 8 False demo_vmm = Some False"
proof
  have m: "user_may True v one_page" if "unat v < 18" for v using one_page_low(1) [of v True] that by (simp add: user_page_ok_eq)
  have e: "vmm_user_accessible 0x10 2 True one_page = Some (\<forall>a. 16 \<le> unat a \<longrightarrow> unat a < 18 \<longrightarrow> user_may True a one_page)"
    using vmm_user_accessible_iff [of "0x10" 2 True one_page] by (simp add: user_may_def)
  show "vmm_user_accessible 0x10 2 True one_page = Some True"
    unfolding e using m by blast
  have "\<not> bit (hd (walk_entries (v_pmm demo_vmm) (read_cr3_phys demo_vmm) (vidx 0x400000))) 0"
    using demo_pmm_ok(5) [of 0] by (simp add: vidx_def idx_pml4_def demo_vmm_def read_cr3_phys_def)
  then have "\<exists>e \<in> set (walk_entries (v_pmm demo_vmm) (read_cr3_phys demo_vmm) (vidx 0x400000)). \<not> bit e 0"
    by (simp add: vidx_def)
  then show "vmm_user_accessible 0x400000 8 False demo_vmm = Some False"
    using vmm_user_accessible_iff [of "0x400000" 8 False demo_vmm] by (auto intro!: exI [of _ "0x400000"])
qed

lemma copyout_copyin:
  assumes "walk_inv lv s" "\<forall>i < length src. data_frame lv (a + of_nat i) s"
    and "inj_on (\<lambda>i. vmm_translate (a + of_nat i) s) {..<length src}"
    and "length src < 2 ^ 64" "length src \<le> unat cap" "cap \<noteq> 0"
    and "copyout_bytes a src s = (True, s')"
  shows "copyin_bytes cap a (of_nat (length src)) s' = Some src"
proof (cases "src = []")
  case True
  then show ?thesis using assms(6,7) by (simp add: copyin_bytes_def)
next
  case False
  let ?n = "of_nat (length src) :: u64"
  have n: "unat ?n = length src" using assms(4) by (simp add: unat_of_nat_u64)
  have r: "user_range_ok a ?n True s" "s' = ustore_bytes a src s"
    using assms(7) False by (auto simp: copyout_bytes_def split: if_splits)
  note S = ustore_bytes_spec [OF assms(1,2), folded r(2)]
  note sw = S [THEN conjunct1]
  have "user_range_ok a ?n False s'"
    using r(1) page_ok_read unfolding user_range_ok_iff page_ok_same [OF assms(1) sw] by blast
  moreover have "\<not> cap < ?n" "?n \<noteq> 0" using assms(5) n False by (auto simp: word_less_nat_alt unat_eq_zero [symmetric])
  moreover have "map (\<lambda>i. uload s' (a + of_nat i)) [0..<length src] = src"
    using S assms(3) translate_same [OF assms(1) sw] same_walksD(2) [OF sw]
    by (intro nth_equalityI) (simp_all add: uload_def)
  ultimately show ?thesis using assms(6) n by (simp add: copyin_bytes_def)
qed

text \<open>
  What the kernel copies out to a user buffer is what it reads when the program passes the
  same buffer back, provided that the addresses of the buffer lie in different bytes of memory, none
  of them a page table.
\<close>

theorem copyout_copyin_roundtrip:
  assumes "walk_inv lv s" "\<forall>i < length src. data_frame lv (a + of_nat i) s"
    and "inj_on (\<lambda>i. vmm_translate (a + of_nat i) s) {..<length src}"
    and "length src < 2 ^ 64" "length src \<le> unat cap" "cap \<noteq> 0"
    and "copyout_bytes a src s = (True, s')"
  shows "copyin_bytes cap a (of_nat (length src)) s' = Some src"
  by (rule copyout_copyin [OF assms])

theorem copyout_copyin_roundtrip_witness:
  "copyin_bytes 4096 0x10 2 (snd (copyout_bytes 0x10 [7, 8] one_page)) = Some [7, 8]"
proof -
  have d: "\<forall>i < length ([7, 8] :: bytes). data_frame one_page_levels (0x10 + of_nat i) one_page"
    using one_page_data [of "0x10"] one_page_data [of "0x11"] by (simp add: less_Suc_eq)
  have "copyout_bytes 0x10 [7, 8] one_page = (True, snd (copyout_bytes 0x10 [7, 8] one_page))"
    by (simp add: copyout_bytes_def one_page_range)
  moreover have "inj_on (\<lambda>i. vmm_translate (0x10 + of_nat i) one_page) {..<length ([7, 8] :: bytes)}"
    by (auto simp: inj_on_def less_Suc_eq one_page_bytes)
  ultimately show ?thesis
    using copyout_copyin_roundtrip [OF one_page_walk d, of 4096 "snd (copyout_bytes 0x10 [7, 8] one_page)"] by simp
qed

end
