(* ===== verification/Thread.thy ===== *)
theory Thread
  imports Prelude
begin

text \<open>
  The scheduler and process table, \<open>kernel/src/thread.c\<close>: 32 slots, the current thread, the
  tick-driven scheduler state and every operation on them. A pointer to a slot is its index,
  \<open>g_cur\<close> is \<open>None\<close> before \<open>thread_init\<close>. What the operations ask of other parts is kept
  beside the table: the page-table root and kernel stack loaded for the running thread, the
  stack pointer, the bytes of the kernel stacks, and the list of the calls that release user
  mappings and stacks. The tick counter is the field \<open>ticks\<close>.

  Interrupts are off inside each operation where the code turns them off; an operation is one
  step. The proofs about these definitions are in \<open>Sched\<close>.
\<close>

section \<open>Data\<close>

datatype thread_state = T_UNUSED | T_READY | T_RUNNING | T_SLEEPING | T_DEAD | T_ZOMBIE | T_STOPPED

record thread_user_map =
  um_base :: u64
  um_size :: u64
  um_in_use :: bool

record thread =
  t_rsp :: u64
  t_kstack_top :: u64
  t_state :: thread_state
  t_prio :: u8
  t_tid :: u32
  t_wait_ticks :: u32
  t_wake_tick :: u64
  t_cpu_ticks :: u64
  t_last_start_tick :: u64
  t_name :: bytes
  t_entry :: u64
  t_arg :: u64
  t_stack_base :: u64
  t_is_user :: bool
  t_cr3 :: u64
  t_user_brk :: u64
  t_parent_tid :: u32
  t_exit_code :: int
  t_sig_pending :: int
  t_cwd :: bytes
  t_user_maps :: "thread_user_map list"
  t_pgid :: u32
  t_stop_reported :: bool
  t_sig_handlers :: "u64 list"
  t_mmap_next :: u64

text \<open>The calls into the virtual memory manager that release memory.\<close>

datatype vmm_call = Unmap_free u64 u64 | Destroy_pagemap u64

record sched =
  g_threads :: "thread list"
  g_cur :: "nat option"
  g_cur_idx :: nat
  g_need_resched :: bool
  g_boot_tick :: u64
  g_next_tid :: u32
  g_preempt_enabled :: bool
  g_aging_enabled :: bool
  g_timeslice_ticks :: int
  g_slice_left :: int
  ticks :: u64
  cpu_cr3 :: u64
  cpu_rsp :: u64
  tss_rsp0 :: u64
  kernel_cr3 :: u64
  kmem :: memory
  vmm_calls :: "vmm_call list"

definition THREAD_MAX :: nat where
  "THREAD_MAX = 32"

definition THREAD_NAME_MAX :: nat where
  "THREAD_NAME_MAX = 24"

definition THREAD_STACK_SIZE :: u64 where
  "THREAD_STACK_SIZE = 16 * 1024"

definition THREAD_USER_MAP_MAX :: nat where
  "THREAD_USER_MAP_MAX = 8"

definition no_map :: thread_user_map where
  "no_map = \<lparr>um_base = 0, um_size = 0, um_in_use = False\<rparr>"

text \<open>The code's test \<open>slot < 0 || slot >= THREAD_MAX\<close>.\<close>

definition bad_slot :: "int \<Rightarrow> bool" where
  "bad_slot slot \<longleftrightarrow> slot < 0 \<or> int THREAD_MAX \<le> slot"

definition upd_thread :: "nat \<Rightarrow> (thread \<Rightarrow> thread) \<Rightarrow> sched \<Rightarrow> sched" where
  "upd_thread i f s = s\<lparr>g_threads := (g_threads s)[i := f (g_threads s ! i)]\<rparr>"

definition upd_cur :: "(thread \<Rightarrow> thread) \<Rightarrow> sched \<Rightarrow> sched" where
  "upd_cur f s = (case g_cur s of None \<Rightarrow> s | Some c \<Rightarrow> upd_thread c f s)"

definition cur_field :: "(thread \<Rightarrow> 'a) \<Rightarrow> 'a \<Rightarrow> sched \<Rightarrow> 'a" where
  "cur_field f d s = (case g_cur s of None \<Rightarrow> d | Some c \<Rightarrow> f (g_threads s ! c))"

section \<open>Accessors of the current thread\<close>

definition thread_current_kstack_top :: "sched \<Rightarrow> u64" where
  "thread_current_kstack_top s = cur_field
     (\<lambda>t. if t_kstack_top t \<noteq> 0 then t_kstack_top t
          else if t_stack_base t \<noteq> 0 then t_stack_base t + THREAD_STACK_SIZE else 0) 0 s"

definition thread_current_tid :: "sched \<Rightarrow> u32" where
  "thread_current_tid s = cur_field t_tid 0 s"

definition name_copy :: "bytes option \<Rightarrow> bytes" where
  "name_copy src = (case src of None \<Rightarrow> [] | Some nm \<Rightarrow> take (THREAD_NAME_MAX - 1) nm)"

definition thread_user_maps_zero :: "thread \<Rightarrow> thread" where
  "thread_user_maps_zero t = t\<lparr>t_user_maps := replicate THREAD_USER_MAP_MAX no_map\<rparr>"

text \<open>The thread with its mappings dropped, and the calls that free them.\<close>

definition thread_user_cleanup :: "thread \<Rightarrow> thread \<times> vmm_call list" where
  "thread_user_cleanup t =
     (t\<lparr>t_user_maps := map (\<lambda>m. if um_in_use m then no_map else m) (t_user_maps t), t_is_user := False\<rparr>,
      map (\<lambda>m. Unmap_free (um_base m) (um_size m)) (filter um_in_use (t_user_maps t)))"

definition cleanup_slot :: "nat \<Rightarrow> sched \<Rightarrow> sched" where
  "cleanup_slot i s =
     (let (t, calls) = thread_user_cleanup (g_threads s ! i) in
      (upd_thread i (\<lambda>_. t) s)\<lparr>vmm_calls := vmm_calls s @ calls\<rparr>)"

definition g_cur_set_cr3 :: "u64 \<Rightarrow> sched \<Rightarrow> sched" where
  "g_cur_set_cr3 cr3 s = upd_cur (\<lambda>t. t\<lparr>t_cr3 := cr3\<rparr>) s"

definition g_cur_cr3 :: "sched \<Rightarrow> u64" where
  "g_cur_cr3 s = cur_field t_cr3 0 s"

definition thread_user_maps_zero_current :: "sched \<Rightarrow> sched" where
  "thread_user_maps_zero_current s = upd_cur thread_user_maps_zero s"

section \<open>Initialisation\<close>

text \<open>
  The fields that \<open>thread_init\<close> resets in every slot; the others keep what the slot held.
\<close>

definition thread_init_slot :: "thread \<Rightarrow> thread" where
  "thread_init_slot t = thread_user_maps_zero
     (t\<lparr>t_state := T_UNUSED, t_rsp := 0, t_kstack_top := 0, t_tid := 0, t_prio := 0, t_wait_ticks := 0,
        t_wake_tick := 0, t_cpu_ticks := 0, t_last_start_tick := 0, t_entry := 0, t_arg := 0,
        t_stack_base := 0, t_is_user := False, t_name := [], t_user_brk := 0, t_parent_tid := 0,
        t_exit_code := 0, t_pgid := 0, t_stop_reported := False, t_sig_handlers := replicate 32 0,
        t_mmap_next := 0x0000600000000000\<rparr>)"

definition thread_init :: "sched \<Rightarrow> sched" where
  "thread_init s =
     (let s1 = s\<lparr>g_threads := map thread_init_slot (g_threads s), g_cur_idx := 0, g_cur := Some 0\<rparr>;
          s2 = s1\<lparr>g_boot_tick := ticks s1, g_next_tid := g_next_tid s1 + 1, g_slice_left := g_timeslice_ticks s1,
                  tss_rsp0 := cpu_rsp s1\<rparr>
      in upd_thread 0 (\<lambda>t. t\<lparr>t_state := T_RUNNING, t_prio := 1, t_cwd := ascii ''/'', t_name := name_copy (Some (ascii ''main'')),
           t_cpu_ticks := 0, t_last_start_tick := ticks s1, t_tid := g_next_tid s1, t_wait_ticks := 0,
           t_kstack_top := cpu_rsp s1\<rparr>) s2)"

section \<open>Reaping\<close>

definition reaped :: "thread \<Rightarrow> thread" where
  "reaped t = thread_user_maps_zero
     (t\<lparr>t_state := T_UNUSED, t_rsp := 0, t_kstack_top := 0, t_tid := 0, t_prio := 0, t_wait_ticks := 0,
        t_wake_tick := 0, t_cpu_ticks := 0, t_last_start_tick := 0, t_entry := 0, t_arg := 0,
        t_stack_base := 0, t_is_user := False, t_cr3 := 0, t_name := [], t_parent_tid := 0, t_exit_code := 0\<rparr>)"

definition reap_slot :: "nat \<Rightarrow> sched \<Rightarrow> sched" where
  "reap_slot i s =
     (let t = g_threads s ! i in
      if t_state t \<noteq> T_DEAD then s
      else if g_cur s = Some i then s
      else
        let s1 = (if t_cr3 t \<noteq> 0
                  then (upd_thread i (\<lambda>t. thread_user_maps_zero (t\<lparr>t_cr3 := 0\<rparr>)) s)
                         \<lparr>vmm_calls := vmm_calls s @ (if t_cr3 t \<noteq> kernel_cr3 s then [Destroy_pagemap (t_cr3 t)] else [])\<rparr>
                  else cleanup_slot i s);
            s2 = (if t_stack_base t \<noteq> 0
                  then s1\<lparr>vmm_calls := vmm_calls s1 @ [Unmap_free (t_stack_base t) THREAD_STACK_SIZE]\<rparr> else s1)
        in upd_thread i reaped s2)"

definition thread_reap_dead :: "sched \<Rightarrow> sched" where
  "thread_reap_dead s = fold reap_slot [1..<THREAD_MAX] s"

section \<open>Creation\<close>

definition find_free_slot :: "sched \<Rightarrow> nat option" where
  "find_free_slot s =
     map_option Suc (first_idx (\<lambda>t. t_state t = T_UNUSED \<or> t_state t = T_DEAD) (tl (g_threads s)))"

text \<open>
  \<open>stack\<close> is what \<open>kmalloc_aligned\<close> returned (0 when the heap is exhausted) and
  \<open>trampoline\<close> the address of \<open>thread_trampoline\<close>.
\<close>

definition thread_create :: "u64 \<Rightarrow> u64 \<Rightarrow> bytes option \<Rightarrow> u64 \<Rightarrow> u64 \<Rightarrow> sched \<Rightarrow> nat option \<times> sched" where
  "thread_create stack trampoline name entry arg s0 =
     (let s = thread_reap_dead s0 in
      if entry = 0 then (None, s)
      else
        case find_free_slot s of
          None \<Rightarrow> (None, s)
        | Some idx \<Rightarrow>
            if stack = 0 then (None, s)
            else
              let top = (stack + THREAD_STACK_SIZE) AND NOT 0xF;
                  m1 = store64 (kmem s) (top - 8) trampoline;
                  m2 = store64 m1 (top - 16) 0;
                  m3 = store64 m2 (top - 24) 0;
                  m4 = store64 m3 (top - 32) 0;
                  m5 = store64 m4 (top - 40) 0;
                  m6 = store64 m5 (top - 48) 0;
                  m7 = store64 m6 (top - 56) 0
              in (Some idx,
                  upd_thread idx (\<lambda>t. thread_user_maps_zero
                    (t\<lparr>t_rsp := top - 56, t_state := T_READY, t_tid := g_next_tid s, t_wait_ticks := 0, t_prio := 1,
                       t_entry := entry, t_arg := arg, t_stack_base := stack, t_is_user := False, t_user_brk := 0,
                       t_parent_tid := 0, t_exit_code := 0, t_pgid := 0, t_stop_reported := False,
                       t_sig_handlers := replicate 32 0, t_mmap_next := 0x0000600000000000, t_cwd := ascii ''/'',
                       t_kstack_top := stack + THREAD_STACK_SIZE, t_cpu_ticks := 0, t_last_start_tick := 0,
                       t_name := name_copy name\<rparr>))
                  (s\<lparr>kmem := m7, g_next_tid := g_next_tid s + 1\<rparr>)))"

section \<open>Scheduling\<close>

definition thread_wake_ready :: "sched \<Rightarrow> bool \<times> sched" where
  "thread_wake_ready s =
     (let due = (\<lambda>t. t_state t = T_SLEEPING \<and> t_wake_tick t \<le> ticks s) in
      (\<exists>t \<in> set (g_threads s). due t,
       s\<lparr>g_threads := map (\<lambda>t. if due t then t\<lparr>t_state := T_READY\<rparr> else t) (g_threads s)\<rparr>))"

definition eff_prio :: "sched \<Rightarrow> thread \<Rightarrow> int" where
  "eff_prio s t =
     (let p = uint (t_prio t) in
      if \<not> g_aging_enabled s then p
      else let boost = uint (t_wait_ticks t div 10) in p + (if boost > 3 then 3 else boost))"

definition highest_ready_eff_prio :: "sched \<Rightarrow> int" where
  "highest_ready_eff_prio s =
     fold (\<lambda>t best. if t_state t = T_READY \<and> eff_prio s t > best then eff_prio s t else best) (g_threads s) (- 1)"

definition pick_next_ready :: "sched \<Rightarrow> nat option" where
  "pick_next_ready s =
     (if g_cur s = None then Some 0
      else
        let best = highest_ready_eff_prio s in
        if best < 0 then None
        else
          map_option (\<lambda>k. (g_cur_idx s + Suc k) mod THREAD_MAX)
            (first_idx (\<lambda>i. t_state (g_threads s ! i) = T_READY \<and> eff_prio s (g_threads s ! i) = best)
              (map (\<lambda>step. (g_cur_idx s + step) mod THREAD_MAX) [1..<Suc THREAD_MAX])))"

text \<open>Ticks spent since the thread was last switched to, added to its total.\<close>

definition charge :: "u64 \<Rightarrow> thread \<Rightarrow> thread" where
  "charge now t =
     (if t_last_start_tick t \<noteq> 0 \<and> t_last_start_tick t \<le> now
      then t\<lparr>t_cpu_ticks := t_cpu_ticks t + (now - t_last_start_tick t)\<rparr> else t)"

text \<open>
  \<open>ctx_switch\<close> saves the stack pointer (taken after the six registers were pushed) in the
  slot that is left and loads the one of the slot that is entered.
\<close>

definition ctx_switch :: "nat \<Rightarrow> nat \<Rightarrow> sched \<Rightarrow> sched" where
  "ctx_switch prev next' s =
     (let s1 = upd_thread prev (\<lambda>t. t\<lparr>t_rsp := cpu_rsp s\<rparr>) s in
      s1\<lparr>cpu_rsp := t_rsp (g_threads s1 ! next')\<rparr>)"

text \<open>The kernel stack for traps from user mode and the page-table root of the entered thread.\<close>

definition load_context :: "nat \<Rightarrow> sched \<Rightarrow> sched" where
  "load_context next' s =
     (let n = g_threads s ! next';
          ktop = (if t_kstack_top n = 0 \<and> t_stack_base n \<noteq> 0 then t_stack_base n + THREAD_STACK_SIZE
                  else t_kstack_top n);
          s1 = (if ktop \<noteq> 0 then s\<lparr>tss_rsp0 := ktop\<rparr> else s)
      in s1\<lparr>cpu_cr3 := (if t_cr3 n \<noteq> 0 then t_cr3 n else kernel_cr3 s1)\<rparr>)"

definition switch_to :: "nat \<Rightarrow> nat \<Rightarrow> sched \<Rightarrow> sched" where
  "switch_to prev next' s =
     (let s1 = upd_thread prev (\<lambda>t. if t_state t = T_RUNNING then t\<lparr>t_state := T_READY\<rparr> else t) s;
          s2 = upd_thread next' (\<lambda>t. t\<lparr>t_state := T_RUNNING\<rparr>) s1;
          s3 = s2\<lparr>g_cur_idx := next', g_cur := Some next'\<rparr>;
          now = ticks s3;
          s4 = upd_thread prev (charge now) s3;
          s5 = upd_thread next' (\<lambda>t. t\<lparr>t_last_start_tick := now, t_wait_ticks := 0\<rparr>) s4;
          s6 = s5\<lparr>g_slice_left := g_timeslice_ticks s5\<rparr>
      in ctx_switch prev next' (load_context next' s6))"

definition thread_yield :: "sched \<Rightarrow> sched" where
  "thread_yield s0 =
     (case g_cur s0 of
        None \<Rightarrow> s0
      | Some prev \<Rightarrow>
          let s = thread_reap_dead s0 in
          (case pick_next_ready s of
             None \<Rightarrow> s
           | Some next' \<Rightarrow> switch_to prev next' s))"

definition thread_request_resched :: "sched \<Rightarrow> sched" where
  "thread_request_resched s =
     (let s1 = s\<lparr>g_threads := map (\<lambda>t. if t_state t = T_READY \<and> t_wait_ticks t < 1000000
                                      then t\<lparr>t_wait_ticks := t_wait_ticks t + 1\<rparr> else t) (g_threads s)\<rparr>;
          s2 = s1\<lparr>g_slice_left := (if g_slice_left s1 > 0 then g_slice_left s1 - 1 else g_slice_left s1)\<rparr>
      in if g_slice_left s2 \<le> 0
         then s2\<lparr>g_slice_left := g_timeslice_ticks s2,
                 g_need_resched := (if g_preempt_enabled s2 then True else g_need_resched s2)\<rparr>
         else s2)"

definition thread_check_resched :: "sched \<Rightarrow> sched" where
  "thread_check_resched s0 =
     (let (woke_any, s) = thread_wake_ready (thread_reap_dead s0);
          s1 = (if woke_any then s\<lparr>g_need_resched := True\<rparr> else s)
      in if \<not> g_need_resched s1 then s1 else thread_yield (s1\<lparr>g_need_resched := False\<rparr>))"

section \<open>Exit, sleep, stop, kill\<close>

definition parent_alive :: "sched \<Rightarrow> u32 \<Rightarrow> bool" where
  "parent_alive s ptid \<longleftrightarrow> (\<exists>t \<in> set (g_threads s). t_tid t = ptid \<and> t_state t \<noteq> T_UNUSED
     \<and> t_state t \<noteq> T_DEAD \<and> t_state t \<noteq> T_ZOMBIE)"

text \<open>\<open>thread_exit\<close> up to its final loop: accounting, release of the address space, final state.\<close>

definition thread_exit_mark :: "sched \<Rightarrow> sched" where
  "thread_exit_mark s =
     (case g_cur s of
        None \<Rightarrow> s
      | Some c \<Rightarrow>
          let s1 = upd_thread c (charge (ticks s)) s;
              t = g_threads s1 ! c;
              s2 = (if t_cr3 t \<noteq> 0
                    then (upd_thread c (\<lambda>t. thread_user_maps_zero (t\<lparr>t_cr3 := 0\<rparr>)) s1)
                           \<lparr>cpu_cr3 := kernel_cr3 s1, vmm_calls := vmm_calls s1 @ [Destroy_pagemap (t_cr3 t)]\<rparr>
                    else cleanup_slot c s1);
              go_zombie = (t_parent_tid t \<noteq> 0 \<and> parent_alive s2 (t_parent_tid t))
          in upd_thread c (\<lambda>t. t\<lparr>t_state := (if go_zombie then T_ZOMBIE else T_DEAD)\<rparr>) s2)"

text \<open>
  The loop then yields and halts for ever; the first round is the one that leaves the thread
  when another is ready, later rounds are further calls of \<open>thread_yield\<close>.
\<close>

definition thread_exit :: "sched \<Rightarrow> sched" where
  "thread_exit s = thread_yield (thread_exit_mark s)"

definition thread_effective_cpu_ticks :: "sched \<Rightarrow> thread \<Rightarrow> u64" where
  "thread_effective_cpu_ticks s t =
     (if t_state t = T_RUNNING then t_cpu_ticks (charge (ticks s) t) else t_cpu_ticks t)"

definition thread_sleep_ms :: "u64 \<Rightarrow> sched \<Rightarrow> sched" where
  "thread_sleep_ms ms s =
     (let t0 = (ms + 9) div 10;
          tk = (if t0 = 0 then 1 else t0);
          now = ticks s;
          s1 = upd_cur (\<lambda>t. (charge now t)\<lparr>t_wake_tick := now + tk, t_state := T_SLEEPING\<rparr>) s
      in thread_yield (s1\<lparr>g_need_resched := True\<rparr>))"

definition thread_resched_pending :: "sched \<Rightarrow> bool" where
  "thread_resched_pending s = g_need_resched s"

definition thread_aging_get :: "sched \<Rightarrow> bool" where
  "thread_aging_get s = g_aging_enabled s"

definition thread_aging_set :: "bool \<Rightarrow> sched \<Rightarrow> sched" where
  "thread_aging_set on s = s\<lparr>g_aging_enabled := on\<rparr>"

definition thread_timeslice_get :: "sched \<Rightarrow> int" where
  "thread_timeslice_get s = g_timeslice_ticks s"

definition thread_timeslice_set :: "int \<Rightarrow> sched \<Rightarrow> sched" where
  "thread_timeslice_set n s =
     (let a = (if n < 1 then 1 else n);
          b = (if a > 50 then 50 else a);
          s1 = s\<lparr>g_timeslice_ticks := b\<rparr>
      in if g_slice_left s1 > g_timeslice_ticks s1 then s1\<lparr>g_slice_left := g_timeslice_ticks s1\<rparr> else s1)"

definition thread_preempt_get :: "sched \<Rightarrow> bool" where
  "thread_preempt_get s = g_preempt_enabled s"

definition thread_preempt_set :: "bool \<Rightarrow> sched \<Rightarrow> sched" where
  "thread_preempt_set on s = s\<lparr>g_preempt_enabled := on\<rparr>"

definition thread_cpu_reset :: "sched \<Rightarrow> sched" where
  "thread_cpu_reset s =
     (let now = ticks s in
      s\<lparr>g_boot_tick := now,
        g_threads := map (\<lambda>t. if t_state t = T_UNUSED then t
                              else t\<lparr>t_cpu_ticks := 0,
                                     t_last_start_tick := (if t_state t = T_RUNNING then now else 0)\<rparr>) (g_threads s)\<rparr>)"

definition thread_set_prio :: "int \<Rightarrow> int \<Rightarrow> sched \<Rightarrow> bool \<times> sched" where
  "thread_set_prio id' prio s =
     (if prio < 0 then (False, s)
      else if prio > 3 then (False, s)
      else if bad_slot id' then (False, s)
      else if t_state (g_threads s ! nat id') = T_UNUSED then (False, s)
      else (True, upd_thread (nat id') (\<lambda>t. t\<lparr>t_prio := word_of_int prio AND 0xff\<rparr>) s))"

definition thread_get_prio :: "int \<Rightarrow> sched \<Rightarrow> int" where
  "thread_get_prio id' s =
     (if bad_slot id' then - 1
      else if t_state (g_threads s ! nat id') = T_UNUSED then - 1
      else uint (t_prio (g_threads s ! nat id')))"

definition thread_find_by_name :: "bytes \<Rightarrow> sched \<Rightarrow> nat option" where
  "thread_find_by_name nm s =
     first_idx (\<lambda>t. t_state t \<noteq> T_UNUSED \<and> t_name t \<noteq> [] \<and> t_name t = nm) (g_threads s)"

text \<open>The C result 0 is \<open>True\<close>, \<open>-1\<close> is \<open>False\<close>.\<close>

definition thread_kill :: "int \<Rightarrow> sched \<Rightarrow> bool \<times> sched" where
  "thread_kill slot s =
     (if slot \<le> 0 \<or> int THREAD_MAX \<le> slot then (False, s)
      else if t_state (g_threads s ! nat slot) = T_UNUSED then (False, s)
      else if t_state (g_threads s ! nat slot) = T_DEAD then (True, s)
      else
        let s1 = upd_thread (nat slot) (\<lambda>t. t\<lparr>t_state := T_DEAD\<rparr>) s in
        if g_cur s1 = Some (nat slot) then (True, thread_yield s1)
        else (True, s1\<lparr>g_need_resched := True\<rparr>))"

definition thread_stop_talk :: "sched \<Rightarrow> bool \<times> sched" where
  "thread_stop_talk s =
     (case thread_find_by_name (ascii ''talk'') s of
        None \<Rightarrow> (False, s)
      | Some slot \<Rightarrow> thread_kill (int slot) s)"

section \<open>User mappings\<close>

definition thread_mark_user_slot :: "int \<Rightarrow> bool \<Rightarrow> sched \<Rightarrow> sched" where
  "thread_mark_user_slot slot on s =
     (if bad_slot slot then s else upd_thread (nat slot) (\<lambda>t. t\<lparr>t_is_user := on\<rparr>) s)"

definition thread_user_map_add :: "u64 \<Rightarrow> u64 \<Rightarrow> sched \<Rightarrow> bool \<times> sched" where
  "thread_user_map_add va size' s =
     (case g_cur s of
        None \<Rightarrow> (False, s)
      | Some c \<Rightarrow>
          if size' = 0 then (False, s)
          else
            let ms = t_user_maps (g_threads s ! c) in
            if \<exists>m \<in> set ms. um_in_use m \<and> um_base m = va \<and> um_size m = size'
            then (True, upd_thread c (\<lambda>t. t\<lparr>t_is_user := True\<rparr>) s)
            else
              case first_idx (\<lambda>m. \<not> um_in_use m) ms of
                None \<Rightarrow> (False, s)
              | Some i \<Rightarrow>
                  (True, upd_thread c (\<lambda>t. t\<lparr>t_user_maps := ms[i := \<lparr>um_base = va, um_size = size', um_in_use = True\<rparr>],
                                           t_is_user := True\<rparr>) s))"

definition thread_user_map_cleanup_current :: "sched \<Rightarrow> sched" where
  "thread_user_map_cleanup_current s = (case g_cur s of None \<Rightarrow> s | Some c \<Rightarrow> cleanup_slot c s)"

definition thread_user_map_cleanup_slot :: "int \<Rightarrow> sched \<Rightarrow> sched" where
  "thread_user_map_cleanup_slot slot s = (if bad_slot slot then s else cleanup_slot (nat slot) s)"

definition thread_user_any_active :: "sched \<Rightarrow> bool" where
  "thread_user_any_active s = (\<exists>t \<in> set (g_threads s). t_is_user t
     \<and> \<not> (t_state t = T_UNUSED \<or> t_state t = T_DEAD \<or> t_state t = T_ZOMBIE))"

section \<open>Waiting and killing by slot\<close>

text \<open>\<open>hlt\<close> is what happens to the table while the processor halts until the next interrupt.\<close>

partial_function (option) thread_wait_loop :: "(sched \<Rightarrow> sched) \<Rightarrow> nat \<Rightarrow> sched \<Rightarrow> sched option" where
  "thread_wait_loop hlt slot s =
     (if t_state (g_threads s ! slot) = T_UNUSED then Some s
      else if t_state (g_threads s ! slot) = T_DEAD
           \<and> (t_state (g_threads (thread_reap_dead s) ! slot) = T_UNUSED
              \<or> t_state (g_threads (thread_reap_dead s) ! slot) = T_DEAD)
      then Some (thread_reap_dead s)
      else
        let s1 = (if t_state (g_threads s ! slot) = T_DEAD then thread_reap_dead s else s) in
        thread_wait_loop hlt slot (hlt (thread_check_resched s1)))"

definition thread_wait_slot :: "(sched \<Rightarrow> sched) \<Rightarrow> int \<Rightarrow> sched \<Rightarrow> (bool \<times> sched) option" where
  "thread_wait_slot hlt slot s =
     (if bad_slot slot then Some (False, s)
      else map_option (\<lambda>s'. (True, s')) (thread_wait_loop hlt (nat slot) s))"

definition thread_kill_slot :: "int \<Rightarrow> sched \<Rightarrow> bool \<times> sched" where
  "thread_kill_slot slot s =
     (if bad_slot slot then (False, s)
      else if g_cur s = Some (nat slot) then (False, s)
      else if t_state (g_threads s ! nat slot) = T_UNUSED \<or> t_state (g_threads s ! nat slot) = T_DEAD then (False, s)
      else
        let s1 = upd_thread (nat slot) (\<lambda>t. t\<lparr>t_state := T_DEAD, t_wake_tick := 0, t_wait_ticks := 0\<rparr>) s;
            s2 = cleanup_slot (nat slot) s1
        in (True, thread_reap_dead s2))"

definition thread_get_brk :: "sched \<Rightarrow> u64" where
  "thread_get_brk s = cur_field t_user_brk 0 s"

definition thread_set_brk :: "u64 \<Rightarrow> sched \<Rightarrow> sched" where
  "thread_set_brk b s = upd_cur (\<lambda>t. t\<lparr>t_user_brk := b\<rparr>) s"

definition thread_get_cwd :: "sched \<Rightarrow> bytes" where
  "thread_get_cwd s = cur_field (\<lambda>t. if t_cwd t \<noteq> [] then t_cwd t else ascii ''/'') (ascii ''/'') s"

definition thread_set_cwd :: "bytes option \<Rightarrow> sched \<Rightarrow> sched" where
  "thread_set_cwd path s =
     (case path of None \<Rightarrow> s | Some p \<Rightarrow> upd_cur (\<lambda>t. t\<lparr>t_cwd := take 255 p\<rparr>) s)"

definition thread_copy_cwd_to_slot :: "int \<Rightarrow> bytes option \<Rightarrow> sched \<Rightarrow> sched" where
  "thread_copy_cwd_to_slot slot cwd s =
     (if bad_slot slot then s
      else case cwd of None \<Rightarrow> s | Some p \<Rightarrow> upd_thread (nat slot) (\<lambda>t. t\<lparr>t_cwd := take 255 p\<rparr>) s)"

definition thread_tid_of_slot :: "int \<Rightarrow> sched \<Rightarrow> u32" where
  "thread_tid_of_slot slot s = (if bad_slot slot then 0 else t_tid (g_threads s ! nat slot))"

definition thread_set_exit_code :: "int \<Rightarrow> sched \<Rightarrow> sched" where
  "thread_set_exit_code code s = upd_cur (\<lambda>t. t\<lparr>t_exit_code := code\<rparr>) s"

definition thread_set_parent_for_slot :: "int \<Rightarrow> u32 \<Rightarrow> sched \<Rightarrow> sched" where
  "thread_set_parent_for_slot slot ptid s =
     (if bad_slot slot then s else upd_thread (nat slot) (\<lambda>t. t\<lparr>t_parent_tid := ptid\<rparr>) s)"

definition thread_get_parent_tid :: "sched \<Rightarrow> u32" where
  "thread_get_parent_tid s = cur_field t_parent_tid 0 s"

section \<open>Collecting children\<close>

definition matches_child :: "u32 \<Rightarrow> u32 \<Rightarrow> thread \<Rightarrow> bool" where
  "matches_child par_tid child_tid t \<longleftrightarrow> t_parent_tid t = par_tid \<and> (child_tid = - 1 \<or> t_tid t = child_tid)"

datatype reap_result = Reaped u32 int | Still_running | No_child

definition thread_reap_zombie_child :: "u32 \<Rightarrow> u32 \<Rightarrow> sched \<Rightarrow> reap_result \<times> sched" where
  "thread_reap_zombie_child par_tid child_tid s =
     (case first_idx (\<lambda>t. matches_child par_tid child_tid t \<and> t_state t = T_ZOMBIE) (g_threads s) of
        Some i \<Rightarrow>
          (Reaped (t_tid (g_threads s ! i)) (t_exit_code (g_threads s ! i)),
           upd_thread i (\<lambda>t. t\<lparr>t_state := T_DEAD\<rparr>) s)
      | None \<Rightarrow>
          (if \<exists>t \<in> set (g_threads s). matches_child par_tid child_tid t \<and> t_state t \<noteq> T_UNUSED
           then Still_running else No_child, s))"

section \<open>Signals\<close>

definition signal_target :: "thread \<Rightarrow> bool" where
  "signal_target t \<longleftrightarrow> \<not> (t_state t = T_UNUSED \<or> t_state t = T_DEAD \<or> t_state t = T_ZOMBIE)
     \<and> t_is_user t \<and> t_parent_tid t \<noteq> 0"

definition wake_sleeper :: "thread \<Rightarrow> thread" where
  "wake_sleeper t = (if t_state t = T_SLEEPING then t\<lparr>t_state := T_READY\<rparr> else t)"

definition thread_signal_children :: "sched \<Rightarrow> sched" where
  "thread_signal_children s =
     s\<lparr>g_threads := map (\<lambda>t. if signal_target t then wake_sleeper (t\<lparr>t_sig_pending := 2\<rparr>) else t) (g_threads s)\<rparr>"

definition thread_sigtstp_children :: "sched \<Rightarrow> sched" where
  "thread_sigtstp_children s =
     s\<lparr>g_threads := map (\<lambda>t. if signal_target t
          then wake_sleeper (if t_sig_pending t = 0 then t\<lparr>t_sig_pending := 19\<rparr> else t) else t) (g_threads s)\<rparr>"

definition thread_do_stop :: "sched \<Rightarrow> sched" where
  "thread_do_stop s =
     (case g_cur s of
        None \<Rightarrow> s
      | Some c \<Rightarrow> thread_yield (upd_thread c (\<lambda>t. t\<lparr>t_state := T_STOPPED\<rparr>) s))"

definition thread_check_signal :: "sched \<Rightarrow> sched" where
  "thread_check_signal s =
     (case g_cur s of
        None \<Rightarrow> s
      | Some c \<Rightarrow>
          let sig = t_sig_pending (g_threads s ! c) in
          if sig = 0 then s
          else
            let s1 = upd_thread c (\<lambda>t. t\<lparr>t_sig_pending := 0\<rparr>) s in
            if sig = 19 then thread_do_stop s1
            else thread_exit (upd_thread c (\<lambda>t. t\<lparr>t_exit_code := 128 + sig\<rparr>) s1))"

definition thread_take_pending_sig :: "sched \<Rightarrow> int \<times> sched" where
  "thread_take_pending_sig s = (cur_field t_sig_pending 0 s, upd_cur (\<lambda>t. t\<lparr>t_sig_pending := 0\<rparr>) s)"

definition thread_get_sig_handler :: "int \<Rightarrow> sched \<Rightarrow> u64" where
  "thread_get_sig_handler sig s =
     (if sig < 0 \<or> sig \<ge> 32 then 0 else cur_field (\<lambda>t. t_sig_handlers t ! nat sig) 0 s)"

definition thread_set_sig_handler :: "int \<Rightarrow> u64 \<Rightarrow> sched \<Rightarrow> sched" where
  "thread_set_sig_handler sig handler_va s =
     (if sig < 0 \<or> sig \<ge> 32 then s
      else upd_cur (\<lambda>t. t\<lparr>t_sig_handlers := (t_sig_handlers t)[nat sig := handler_va]\<rparr>) s)"

definition thread_kill_by_tid :: "u32 \<Rightarrow> int \<Rightarrow> sched \<Rightarrow> sched" where
  "thread_kill_by_tid tid sig s =
     (case first_idx (\<lambda>t. t_tid t = tid \<and> \<not> (t_state t = T_UNUSED \<or> t_state t = T_DEAD)) (g_threads s) of
        None \<Rightarrow> s
      | Some i \<Rightarrow>
          upd_thread i (\<lambda>t. let t1 = wake_sleeper (t\<lparr>t_sig_pending := sig\<rparr>) in
             if sig = 18 \<and> t_state t1 = T_STOPPED then t1\<lparr>t_state := T_READY, t_stop_reported := False\<rparr> else t1) s)"

definition thread_cont_by_tid :: "u32 \<Rightarrow> sched \<Rightarrow> sched" where
  "thread_cont_by_tid tid s =
     (case first_idx (\<lambda>t. t_tid t = tid) (g_threads s) of
        None \<Rightarrow> s
      | Some i \<Rightarrow>
          upd_thread i (\<lambda>t. let t1 = (if t_state t = T_STOPPED then t\<lparr>t_state := T_READY, t_stop_reported := False\<rparr> else t)
             in if t_sig_pending t1 = 19 then t1\<lparr>t_sig_pending := 0\<rparr> else t1) s)"

definition thread_get_pgid :: "u32 \<Rightarrow> sched \<Rightarrow> u32" where
  "thread_get_pgid tid s =
     (case first_idx (\<lambda>t. t_tid t = tid \<and> t_state t \<noteq> T_UNUSED) (g_threads s) of
        None \<Rightarrow> 0
      | Some i \<Rightarrow> let pg = t_pgid (g_threads s ! i) in if pg \<noteq> 0 then pg else tid)"

definition thread_set_pgid :: "u32 \<Rightarrow> u32 \<Rightarrow> sched \<Rightarrow> sched" where
  "thread_set_pgid tid pgid s =
     (case first_idx (\<lambda>t. t_tid t = tid \<and> t_state t \<noteq> T_UNUSED) (g_threads s) of
        None \<Rightarrow> s
      | Some i \<Rightarrow> upd_thread i (\<lambda>t. t\<lparr>t_pgid := pgid\<rparr>) s)"

definition thread_copy_pgid_to_slot :: "int \<Rightarrow> u32 \<Rightarrow> sched \<Rightarrow> sched" where
  "thread_copy_pgid_to_slot slot pgid s =
     (if bad_slot slot then s else upd_thread (nat slot) (\<lambda>t. t\<lparr>t_pgid := pgid\<rparr>) s)"

definition thread_get_mmap_next :: "sched \<Rightarrow> u64" where
  "thread_get_mmap_next s = cur_field t_mmap_next 0x0000600000000000 s"

definition thread_set_mmap_next :: "u64 \<Rightarrow> sched \<Rightarrow> sched" where
  "thread_set_mmap_next addr s = upd_cur (\<lambda>t. t\<lparr>t_mmap_next := addr\<rparr>) s"

definition thread_fork_inherit_slot :: "int \<Rightarrow> sched \<Rightarrow> sched" where
  "thread_fork_inherit_slot child_slot s =
     (case g_cur s of
        None \<Rightarrow> s
      | Some c \<Rightarrow>
          if bad_slot child_slot then s
          else let p = g_threads s ! c in
            upd_thread (nat child_slot) (\<lambda>t. t\<lparr>t_user_brk := t_user_brk p, t_mmap_next := t_mmap_next p, t_is_user := True,
              t_user_maps := t_user_maps p, t_sig_handlers := t_sig_handlers p\<rparr>) s)"

definition thread_check_stopped_child :: "u32 \<Rightarrow> u32 \<Rightarrow> sched \<Rightarrow> (u32 \<times> int) option \<times> sched" where
  "thread_check_stopped_child par_tid child_tid s =
     (case first_idx (\<lambda>t. matches_child par_tid child_tid t \<and> t_state t = T_STOPPED \<and> \<not> t_stop_reported t) (g_threads s) of
        None \<Rightarrow> (None, s)
      | Some i \<Rightarrow>
          (Some (t_tid (g_threads s ! i), 0x137F), upd_thread i (\<lambda>t. t\<lparr>t_stop_reported := True\<rparr>) s))"

end
