(* ===== verification/Sched.thy ===== *)
theory Sched
  imports Thread
begin

text \<open>
  What the scheduler of \<open>Thread\<close> guarantees: the invariant of the process table over every
  sequence of operations, the choice of the next thread, the context switch, the life of a
  child from creation to collection, preemption, and the defects the model exposes.
\<close>

section \<open>The invariant of the table\<close>

definition thread_ok :: "thread \<Rightarrow> bool" where
  "thread_ok t \<longleftrightarrow> length (t_user_maps t) = 8 \<and> length (t_sig_handlers t) = 32 \<and> t_prio t \<le> 3
     \<and> (t_state t = T_UNUSED \<longleftrightarrow> t_tid t = 0)"

definition table_ok :: "u32 \<Rightarrow> thread list \<Rightarrow> bool" where
  "table_ok n ts \<longleftrightarrow> length ts = 32 \<and> (\<forall>t \<in> set ts. thread_ok t \<and> t_tid t < n)
     \<and> (\<forall>i < 32. \<forall>j < 32. t_tid (ts ! i) = t_tid (ts ! j) \<longrightarrow> t_tid (ts ! i) \<noteq> 0 \<longrightarrow> i = j)"

definition running_only :: "nat \<Rightarrow> thread list \<Rightarrow> bool" where
  "running_only c ts \<longleftrightarrow> (\<forall>i < length ts. t_state (ts ! i) = T_RUNNING \<longrightarrow> i = c)"

definition sched_ok :: "sched \<Rightarrow> bool" where
  "sched_ok s \<longleftrightarrow> g_cur s = Some (g_cur_idx s) \<and> g_cur_idx s < 32 \<and> 0 < g_next_tid s
     \<and> table_ok (g_next_tid s) (g_threads s) \<and> running_only (g_cur_idx s) (g_threads s)
     \<and> t_tid (g_threads s ! g_cur_idx s) \<noteq> 0
     \<and> 1 \<le> g_timeslice_ticks s \<and> g_timeslice_ticks s \<le> 50
     \<and> 0 \<le> g_slice_left s \<and> g_slice_left s \<le> g_timeslice_ticks s"

text \<open>
  Almost every operation changes threads one by one in a way that keeps what the invariant
  says of them: the identifier stays and no thread starts running.
\<close>

definition evolves :: "thread \<Rightarrow> thread \<Rightarrow> bool" where
  "evolves t t' \<longleftrightarrow> (thread_ok t \<longrightarrow> thread_ok t') \<and> t_tid t' = t_tid t
     \<and> (t_state t' = T_RUNNING \<longrightarrow> t_state t = T_RUNNING)"

definition emptied :: "thread \<Rightarrow> thread \<Rightarrow> bool" where
  "emptied t t' \<longleftrightarrow> (thread_ok t \<longrightarrow> thread_ok t') \<and> t_tid t' = 0 \<and> t_state t' \<noteq> T_RUNNING"

lemma evolves_refl [simp]: "evolves t t"
  by (simp add: evolves_def)

lemma evolves_trans: "evolves t u \<Longrightarrow> evolves u v \<Longrightarrow> evolves t v"
  by (auto simp: evolves_def)

text \<open>The same without the clause on running, for the context switch.\<close>

definition keeps_id :: "thread \<Rightarrow> thread \<Rightarrow> bool" where
  "keeps_id t t' \<longleftrightarrow> (thread_ok t \<longrightarrow> thread_ok t') \<and> (t_tid t' = t_tid t \<or> t_tid t' = 0)"

lemma table_ok_keeps:
  assumes "table_ok n ts" "length ts' = length ts" "\<And>i. i < length ts \<Longrightarrow> keeps_id (ts ! i) (ts' ! i)"
  shows "table_ok n ts'"
  unfolding table_ok_def
proof (intro conjI ballI allI impI)
  have len: "length ts = 32" using assms(1) by (simp add: table_ok_def)
  then show "length ts' = 32" using assms(2) by simp
  have each: "thread_ok (ts ! i) \<and> t_tid (ts ! i) < n" if "i < 32" for i
    using assms(1) that len by (simp add: table_ok_def)
  have n: "0 < n"
    using each [of 0] by (cases "n = 0") (simp_all add: word_gt_0)
  fix t
  assume "t \<in> set ts'"
  then obtain i where i: "t = ts' ! i" "i < 32" using assms(2) len by (metis in_set_conv_nth)
  then show "thread_ok t" "t_tid t < n"
    using assms(3) [of i] each [of i] len n by (auto simp: keeps_id_def)
next
  fix i j :: nat
  assume "i < 32" "j < 32" and e: "t_tid (ts' ! i) = t_tid (ts' ! j)" "t_tid (ts' ! i) \<noteq> 0"
  then have "t_tid (ts ! i) = t_tid (ts' ! i)" "t_tid (ts ! j) = t_tid (ts' ! j)"
    using assms(1) assms(3) [of i] assms(3) [of j] by (auto simp: keeps_id_def table_ok_def)
  with e \<open>i < 32\<close> \<open>j < 32\<close> assms(1) show "i = j" by (metis table_ok_def)
qed

lemma evolves_keeps: "evolves t t' \<Longrightarrow> keeps_id t t'" "emptied t t' \<Longrightarrow> keeps_id t t'"
  by (simp_all add: evolves_def emptied_def keeps_id_def)

text \<open>A whole table: every slot evolves, and slots other than the current one may also be emptied.\<close>

definition slot_evolves :: "nat option \<Rightarrow> nat \<Rightarrow> thread \<Rightarrow> thread \<Rightarrow> bool" where
  "slot_evolves c i t t' \<longleftrightarrow> evolves t t' \<or> (c \<noteq> Some i \<and> emptied t t')"

definition table_evolves :: "nat option \<Rightarrow> thread list \<Rightarrow> thread list \<Rightarrow> bool" where
  "table_evolves c ts ts' \<longleftrightarrow> length ts' = length ts \<and> (\<forall>i < length ts. slot_evolves c i (ts ! i) (ts' ! i))"

lemma slot_evolves_trans: "slot_evolves c i t u \<Longrightarrow> slot_evolves c i u v \<Longrightarrow> slot_evolves c i t v"
  by (auto simp: slot_evolves_def evolves_def emptied_def)

lemma table_evolves_refl [simp]: "table_evolves c ts ts"
  by (simp add: table_evolves_def slot_evolves_def)

lemma table_evolves_trans: "table_evolves k a b \<Longrightarrow> table_evolves k b c \<Longrightarrow> table_evolves k a c"
  by (auto simp: table_evolves_def intro: slot_evolves_trans)

lemma table_evolves_map: "(\<And>t. evolves t (f t)) \<Longrightarrow> table_evolves c ts (map f ts)"
  by (simp add: table_evolves_def slot_evolves_def)

lemma table_evolves_update: "evolves (ts ! i) t \<Longrightarrow> table_evolves c ts (ts[i := t])"
  unfolding table_evolves_def slot_evolves_def
proof (intro conjI allI impI disjI1)
  fix k
  assume "evolves (ts ! i) t" "k < length ts"
  then show "evolves (ts ! k) (ts[i := t] ! k)" by (cases "k = i") simp_all
qed simp

lemma running_only_evolves: "running_only c ts \<Longrightarrow> table_evolves k ts ts' \<Longrightarrow> running_only c ts'"
  by (auto simp: running_only_def table_evolves_def slot_evolves_def evolves_def emptied_def)

lemma sched_ok_evolves:
  assumes "sched_ok s" "table_evolves (g_cur s) (g_threads s) (g_threads s')" "g_cur s' = g_cur s"
    "g_cur_idx s' = g_cur_idx s" "g_next_tid s' = g_next_tid s"
    "g_timeslice_ticks s' = g_timeslice_ticks s" "0 \<le> g_slice_left s'" "g_slice_left s' \<le> g_timeslice_ticks s"
  shows "sched_ok s'"
proof -
  have t: "table_ok (g_next_tid s) (g_threads s)" and r: "running_only (g_cur_idx s) (g_threads s)"
    and c: "g_cur s = Some (g_cur_idx s)" "g_cur_idx s < 32" "t_tid (g_threads s ! g_cur_idx s) \<noteq> 0"
    using assms(1) by (simp_all add: sched_ok_def)
  have len: "length (g_threads s') = length (g_threads s)" "length (g_threads s) = 32"
    using assms(2) t by (simp_all add: table_evolves_def table_ok_def)
  have k: "keeps_id (g_threads s ! i) (g_threads s' ! i)" if "i < length (g_threads s)" for i
    using assms(2) that by (auto simp: table_evolves_def slot_evolves_def intro: evolves_keeps)
  have "table_ok (g_next_tid s) (g_threads s')"
    by (rule table_ok_keeps [OF t len(1) k])
  moreover have "running_only (g_cur_idx s) (g_threads s')"
    by (rule running_only_evolves [OF r assms(2)])
  moreover have "slot_evolves (g_cur s) (g_cur_idx s) (g_threads s ! g_cur_idx s) (g_threads s' ! g_cur_idx s)"
    using assms(2) c(2) len by (simp add: table_evolves_def)
  then have "t_tid (g_threads s' ! g_cur_idx s) \<noteq> 0"
    using c by (simp add: slot_evolves_def evolves_def)
  ultimately show ?thesis using assms(1,3-8) by (simp add: sched_ok_def)
qed

text \<open>The state that an operation must leave alone for \<open>sched_ok_evolves\<close>.\<close>

definition same_frame :: "sched \<Rightarrow> sched \<Rightarrow> bool" where
  "same_frame s s' \<longleftrightarrow> table_evolves (g_cur s) (g_threads s) (g_threads s') \<and> g_cur s' = g_cur s
     \<and> g_cur_idx s' = g_cur_idx s \<and> g_next_tid s' = g_next_tid s
     \<and> g_timeslice_ticks s' = g_timeslice_ticks s \<and> g_slice_left s' = g_slice_left s"

lemma same_frame_ok: "same_frame s s' \<Longrightarrow> sched_ok s \<Longrightarrow> sched_ok s'"
  by (rule sched_ok_evolves) (auto simp: same_frame_def sched_ok_def)

lemma same_frame_refl [simp]: "same_frame s s"
  by (simp add: same_frame_def)

lemma same_frame_trans: "same_frame a b \<Longrightarrow> same_frame b c \<Longrightarrow> same_frame a c"
  by (auto simp: same_frame_def intro: table_evolves_trans)

lemma upd_thread_evolves: "evolves (g_threads s ! i) (f (g_threads s ! i)) \<Longrightarrow> same_frame s (upd_thread i f s)"
  by (simp add: same_frame_def upd_thread_def table_evolves_update)

lemma same_frame_upd_thread: "(\<And>t. evolves t (f t)) \<Longrightarrow> same_frame s (upd_thread i f s)"
  by (simp add: upd_thread_evolves)

lemma same_frame_upd_cur: "(\<And>t. evolves t (f t)) \<Longrightarrow> same_frame s (upd_cur f s)"
  by (simp add: upd_cur_def same_frame_upd_thread split: option.splits)

lemma same_frame_map: "(\<And>t. evolves t (f t)) \<Longrightarrow> same_frame s (s\<lparr>g_threads := map f (g_threads s)\<rparr>)"
  by (simp add: same_frame_def table_evolves_map)

lemma same_frame_fields [simp]:
  "same_frame s (s'\<lparr>vmm_calls := v\<rparr>) = same_frame s s'"
  "same_frame s (s'\<lparr>g_need_resched := b\<rparr>) = same_frame s s'"
  "same_frame s (s'\<lparr>g_boot_tick := w\<rparr>) = same_frame s s'"
  "same_frame s (s'\<lparr>cpu_cr3 := w\<rparr>) = same_frame s s'"
  "same_frame s (s'\<lparr>g_aging_enabled := b\<rparr>) = same_frame s s'"
  "same_frame s (s'\<lparr>g_preempt_enabled := b\<rparr>) = same_frame s s'"
  "same_frame s (s'\<lparr>ticks := w\<rparr>) = same_frame s s'"
  by (simp_all add: same_frame_def)

section \<open>Reaping\<close>

lemma emptied_reaped: "emptied t (reaped t)"
  by (simp add: emptied_def thread_ok_def reaped_def thread_user_maps_zero_def THREAD_USER_MAP_MAX_def)

lemma evolves_maps_zero: "evolves t (thread_user_maps_zero t)"
  by (simp add: evolves_def thread_ok_def thread_user_maps_zero_def THREAD_USER_MAP_MAX_def)

lemma evolves_drop_cr3: "evolves t (thread_user_maps_zero (t\<lparr>t_cr3 := 0\<rparr>))"
  by (simp add: evolves_def thread_ok_def thread_user_maps_zero_def THREAD_USER_MAP_MAX_def)

lemma evolves_cleanup: "evolves t (fst (thread_user_cleanup t))"
  by (simp add: evolves_def thread_ok_def thread_user_cleanup_def)

lemma same_frame_cleanup_slot: "same_frame s (cleanup_slot i s)"
  unfolding cleanup_slot_def Let_def case_prod_beta
  by (simp add: same_frame_def upd_thread_def table_evolves_update evolves_cleanup)

lemma reap_slot_other: "j \<noteq> i \<Longrightarrow> g_threads (reap_slot i s) ! j = g_threads s ! j"
  by (simp add: reap_slot_def upd_thread_def cleanup_slot_def Let_def case_prod_beta)

lemma reap_slot_keeps [simp]: "g_cur (reap_slot i s) = g_cur s" "g_cur_idx (reap_slot i s) = g_cur_idx s"
    "length (g_threads (reap_slot i s)) = length (g_threads s)" "g_aging_enabled (reap_slot i s) = g_aging_enabled s"
    "ticks (reap_slot i s) = ticks s" "cpu_rsp (reap_slot i s) = cpu_rsp s" "kernel_cr3 (reap_slot i s) = kernel_cr3 s"
    "kmem (reap_slot i s) = kmem s" "g_next_tid (reap_slot i s) = g_next_tid s" "tss_rsp0 (reap_slot i s) = tss_rsp0 s"
    "cpu_cr3 (reap_slot i s) = cpu_cr3 s" "g_need_resched (reap_slot i s) = g_need_resched s"
    "g_timeslice_ticks (reap_slot i s) = g_timeslice_ticks s" "g_slice_left (reap_slot i s) = g_slice_left s"
  by (simp_all add: reap_slot_def upd_thread_def cleanup_slot_def Let_def case_prod_beta)

text \<open>A slot after reaping: a dead slot other than the current one is emptied, every other is as before.\<close>

definition reapable :: "sched \<Rightarrow> nat \<Rightarrow> bool" where
  "reapable s i \<longleftrightarrow> t_state (g_threads s ! i) = T_DEAD \<and> g_cur s \<noteq> Some i"

lemma reap_slot_self:
  "i < length (g_threads s) \<Longrightarrow>
    g_threads (reap_slot i s) ! i = (if reapable s i then reaped (g_threads s ! i) else g_threads s ! i)"
  by (simp add: reap_slot_def reapable_def upd_thread_def cleanup_slot_def Let_def case_prod_beta reaped_def
      thread_user_maps_zero_def thread_user_cleanup_def)

lemma reap_fold_keeps [simp]: "g_cur (fold reap_slot is s) = g_cur s" "g_cur_idx (fold reap_slot is s) = g_cur_idx s"
    "length (g_threads (fold reap_slot is s)) = length (g_threads s)"
    "g_aging_enabled (fold reap_slot is s) = g_aging_enabled s"
    "ticks (fold reap_slot is s) = ticks s" "cpu_rsp (fold reap_slot is s) = cpu_rsp s"
    "kernel_cr3 (fold reap_slot is s) = kernel_cr3 s"
    "kmem (fold reap_slot is s) = kmem s" "g_next_tid (fold reap_slot is s) = g_next_tid s"
    "tss_rsp0 (fold reap_slot is s) = tss_rsp0 s"
    "cpu_cr3 (fold reap_slot is s) = cpu_cr3 s" "g_need_resched (fold reap_slot is s) = g_need_resched s"
    "g_timeslice_ticks (fold reap_slot is s) = g_timeslice_ticks s"
    "g_slice_left (fold reap_slot is s) = g_slice_left s"
  by (induction "is" arbitrary: s) simp_all

lemma reap_fold_slot:
  assumes "distinct is" "\<forall>i \<in> set is. i < length (g_threads s)"
  shows "g_threads (fold reap_slot is s) ! j =
    (if j \<in> set is \<and> reapable s j then reaped (g_threads s ! j) else g_threads s ! j)"
  using assms
proof (induction "is" arbitrary: s)
  case Nil
  then show ?case by simp
next
  case (Cons i "is")
  have r: "reapable (reap_slot i s) j = reapable s j" if "j \<noteq> i"
    using that by (simp add: reapable_def reap_slot_other)
  show ?case
  proof (cases "j = i")
    case True
    with Cons show ?thesis by (simp add: reap_slot_self)
  next
    case False
    with Cons r show ?thesis by (simp add: reap_slot_other)
  qed
qed

lemma reap_dead_keeps [simp]: "g_cur (thread_reap_dead s) = g_cur s" "g_cur_idx (thread_reap_dead s) = g_cur_idx s"
    "length (g_threads (thread_reap_dead s)) = length (g_threads s)"
    "g_aging_enabled (thread_reap_dead s) = g_aging_enabled s"
    "ticks (thread_reap_dead s) = ticks s" "cpu_rsp (thread_reap_dead s) = cpu_rsp s"
    "kernel_cr3 (thread_reap_dead s) = kernel_cr3 s"
    "kmem (thread_reap_dead s) = kmem s" "g_next_tid (thread_reap_dead s) = g_next_tid s"
    "tss_rsp0 (thread_reap_dead s) = tss_rsp0 s"
    "cpu_cr3 (thread_reap_dead s) = cpu_cr3 s" "g_need_resched (thread_reap_dead s) = g_need_resched s"
    "g_timeslice_ticks (thread_reap_dead s) = g_timeslice_ticks s"
    "g_slice_left (thread_reap_dead s) = g_slice_left s"
  by (simp_all add: thread_reap_dead_def)

lemma reap_dead_slot:
  assumes "length (g_threads s) = 32"
  shows "g_threads (thread_reap_dead s) ! j =
    (if 1 \<le> j \<and> j < 32 \<and> reapable s j then reaped (g_threads s ! j) else g_threads s ! j)"
  using reap_fold_slot [of "[1..<32]" s j] assms by (simp add: thread_reap_dead_def THREAD_MAX_def)

lemma same_frame_reap_dead: "length (g_threads s) = 32 \<Longrightarrow> same_frame s (thread_reap_dead s)"
  by (simp add: same_frame_def table_evolves_def slot_evolves_def reap_dead_slot emptied_reaped reapable_def)

section \<open>The choice of the next thread\<close>

lemma eff_prio_nonneg: "0 \<le> eff_prio s t"
  by (simp add: eff_prio_def Let_def)

lemma fold_best:
  fixes e :: "'a \<Rightarrow> int"
  shows "let r = fold (\<lambda>t best. if P t \<and> e t > best then e t else best) ts b
    in b \<le> r \<and> (\<forall>t \<in> set ts. P t \<longrightarrow> e t \<le> r) \<and> (r = b \<or> (\<exists>t \<in> set ts. P t \<and> e t = r))"
proof (induction ts arbitrary: b)
  case Nil
  then show ?case by simp
next
  case (Cons t ts)
  show ?case
    using Cons.IH [of "if P t \<and> e t > b then e t else b"] by (auto simp: Let_def split: if_splits)
qed

lemma highest_ready:
  shows "\<And>t. t \<in> set (g_threads s) \<Longrightarrow> t_state t = T_READY \<Longrightarrow> eff_prio s t \<le> highest_ready_eff_prio s"
    and "0 \<le> highest_ready_eff_prio s \<longleftrightarrow> (\<exists>t \<in> set (g_threads s). t_state t = T_READY)"
    and "0 \<le> highest_ready_eff_prio s \<Longrightarrow>
      \<exists>t \<in> set (g_threads s). t_state t = T_READY \<and> eff_prio s t = highest_ready_eff_prio s"
proof -
  note B = fold_best [where P = "\<lambda>t. t_state t = T_READY" and e = "eff_prio s" and ts = "g_threads s" and b = "- 1",
      folded highest_ready_eff_prio_def, unfolded Let_def]
  show 1: "eff_prio s t \<le> highest_ready_eff_prio s" if "t \<in> set (g_threads s)" "t_state t = T_READY" for t
    using B that by blast
  show 2: "\<exists>t \<in> set (g_threads s). t_state t = T_READY \<and> eff_prio s t = highest_ready_eff_prio s"
    if "0 \<le> highest_ready_eff_prio s" using B that by auto
  show "0 \<le> highest_ready_eff_prio s \<longleftrightarrow> (\<exists>t \<in> set (g_threads s). t_state t = T_READY)"
    using 1 2 by (meson eff_prio_nonneg order_trans)
qed

definition best_ready :: "sched \<Rightarrow> nat \<Rightarrow> bool" where
  "best_ready s i \<longleftrightarrow> t_state (g_threads s ! i) = T_READY
     \<and> (\<forall>j < 32. t_state (g_threads s ! j) = T_READY \<longrightarrow> eff_prio s (g_threads s ! j) \<le> eff_prio s (g_threads s ! i))"

lemma best_ready_iff:
  assumes "length (g_threads s) = 32" "i < 32"
  shows "best_ready s i \<longleftrightarrow>
    t_state (g_threads s ! i) = T_READY \<and> eff_prio s (g_threads s ! i) = highest_ready_eff_prio s"
proof
  assume b: "best_ready s i"
  then have i: "t_state (g_threads s ! i) = T_READY" "g_threads s ! i \<in> set (g_threads s)"
    using assms by (auto simp: best_ready_def)
  then have "0 \<le> highest_ready_eff_prio s" using highest_ready(2) by blast
  then obtain j where "j < 32" "t_state (g_threads s ! j) = T_READY" "eff_prio s (g_threads s ! j) = highest_ready_eff_prio s"
    using highest_ready(3) assms(1) by (metis in_set_conv_nth)
  with b i highest_ready(1) [of "g_threads s ! i" s]
  show "t_state (g_threads s ! i) = T_READY \<and> eff_prio s (g_threads s ! i) = highest_ready_eff_prio s"
    by (fastforce simp: best_ready_def)
next
  assume "t_state (g_threads s ! i) = T_READY \<and> eff_prio s (g_threads s ! i) = highest_ready_eff_prio s"
  then show "best_ready s i"
    using assms highest_ready(1) [of _ s] by (auto simp: best_ready_def)
qed

lemma pick_next_ready_None:
  assumes "length (g_threads s) = 32" "g_cur_idx s < 32" "g_cur s \<noteq> None"
  shows "pick_next_ready s = None \<longleftrightarrow> (\<forall>t \<in> set (g_threads s). t_state t \<noteq> T_READY)"
proof (cases "highest_ready_eff_prio s < 0")
  case True
  then show ?thesis
    using highest_ready(2) [of s] assms(3) by (auto simp: pick_next_ready_def)
next
  case False
  then obtain j where j: "j < 32" "t_state (g_threads s ! j) = T_READY"
      "eff_prio s (g_threads s ! j) = highest_ready_eff_prio s"
    using highest_ready(3) [of s] assms(1) by (metis in_set_conv_nth linorder_not_le)
  define k where "k = (if g_cur_idx s < j then j - g_cur_idx s else j + 32 - g_cur_idx s)"
  have k: "k \<in> set [1..<33]" "(g_cur_idx s + k) mod 32 = j"
    using j(1) assms(2) by (auto simp: k_def)
  then have "first_idx (\<lambda>i. t_state (g_threads s ! i) = T_READY \<and> eff_prio s (g_threads s ! i) = highest_ready_eff_prio s)
              (map (\<lambda>step. (g_cur_idx s + step) mod 32) [1..<33]) \<noteq> None"
    using j(2,3) by (auto simp: first_idx_None simp del: set_upt intro!: bexI [of _ k])
  then have "pick_next_ready s \<noteq> None"
    using False assms(3) by (simp add: pick_next_ready_def THREAD_MAX_def)
  then show ?thesis using False highest_ready(2) [of s] by auto
qed

lemma pick_next_ready_Some:
  assumes "length (g_threads s) = 32" "g_cur_idx s < 32" "g_cur s \<noteq> None" "pick_next_ready s = Some i"
  shows "\<exists>k. 1 \<le> k \<and> k \<le> 32 \<and> i = (g_cur_idx s + k) mod 32 \<and> best_ready s i
    \<and> (\<forall>m. 1 \<le> m \<and> m < k \<longrightarrow> \<not> best_ready s ((g_cur_idx s + m) mod 32))"
proof -
  let ?P = "\<lambda>i. t_state (g_threads s ! i) = T_READY \<and> eff_prio s (g_threads s ! i) = highest_ready_eff_prio s"
  let ?xs = "map (\<lambda>step. (g_cur_idx s + step) mod 32) [1..<33]"
  obtain k where k: "first_idx ?P ?xs = Some k" "i = (g_cur_idx s + Suc k) mod 32"
    using assms(3,4) by (auto simp: pick_next_ready_def THREAD_MAX_def Let_def split: if_splits)
  have nth: "?xs ! m = (g_cur_idx s + Suc m) mod 32" if "m < 32" for m
    using that by simp
  have b: "best_ready s (n mod 32) \<longleftrightarrow> ?P (n mod 32)" for n
    by (rule best_ready_iff [OF assms(1)]) simp
  have "k < 32" "?P i"
    using first_idx_SomeD(1,2) [OF k(1)] k(2) nth [of k] by simp_all
  moreover have "\<not> best_ready s ((g_cur_idx s + m) mod 32)" if "1 \<le> m" "m < Suc k" for m
  proof -
    have m: "m - 1 < k" "Suc (m - 1) = m" using that by auto
    then have "m - 1 < 32" using \<open>k < 32\<close> by simp
    then show ?thesis
      using first_idx_SomeD(3) [OF k(1) m(1)] nth [of "m - 1"] m(2) b by simp
  qed
  ultimately show ?thesis
    using b [of "g_cur_idx s + Suc k"] k(2) by (intro exI [of _ "Suc k"]) simp
qed

section \<open>The context switch\<close>

lemma upd_thread_nth: "i < length (g_threads s) \<Longrightarrow>
    g_threads (upd_thread i f s) ! j = (if j = i then f (g_threads s ! i) else g_threads s ! j)"
  by (simp add: upd_thread_def)

lemma upd_thread_frame [simp]: "length (g_threads (upd_thread i f s)) = length (g_threads s)"
    "g_cur (upd_thread i f s) = g_cur s" "g_cur_idx (upd_thread i f s) = g_cur_idx s"
    "g_next_tid (upd_thread i f s) = g_next_tid s" "g_timeslice_ticks (upd_thread i f s) = g_timeslice_ticks s"
    "g_slice_left (upd_thread i f s) = g_slice_left s" "ticks (upd_thread i f s) = ticks s"
    "cpu_rsp (upd_thread i f s) = cpu_rsp s" "kernel_cr3 (upd_thread i f s) = kernel_cr3 s"
    "g_need_resched (upd_thread i f s) = g_need_resched s" "vmm_calls (upd_thread i f s) = vmm_calls s"
    "g_aging_enabled (upd_thread i f s) = g_aging_enabled s" "cpu_cr3 (upd_thread i f s) = cpu_cr3 s"
    "g_preempt_enabled (upd_thread i f s) = g_preempt_enabled s" "tss_rsp0 (upd_thread i f s) = tss_rsp0 s"
  by (simp_all add: upd_thread_def)

lemma charge_keeps [simp]: "t_state (charge now t) = t_state t" "t_tid (charge now t) = t_tid t"
    "t_rsp (charge now t) = t_rsp t" "t_cr3 (charge now t) = t_cr3 t" "t_kstack_top (charge now t) = t_kstack_top t"
    "t_stack_base (charge now t) = t_stack_base t" "t_user_maps (charge now t) = t_user_maps t"
    "t_sig_handlers (charge now t) = t_sig_handlers t" "t_prio (charge now t) = t_prio t"
    "t_parent_tid (charge now t) = t_parent_tid t" "t_exit_code (charge now t) = t_exit_code t"
    "t_last_start_tick (charge now t) = t_last_start_tick t" "t_sig_pending (charge now t) = t_sig_pending t"
  by (simp_all add: charge_def)

definition left :: "sched \<Rightarrow> thread \<Rightarrow> thread" where
  "left s t = (charge (ticks s) (if t_state t = T_RUNNING then t\<lparr>t_state := T_READY\<rparr> else t))\<lparr>t_rsp := cpu_rsp s\<rparr>"

definition entered :: "sched \<Rightarrow> thread \<Rightarrow> thread" where
  "entered s t = t\<lparr>t_state := T_RUNNING, t_last_start_tick := ticks s, t_wait_ticks := 0\<rparr>"

lemma load_context_frame [simp]: "g_threads (load_context n s) = g_threads s" "cpu_rsp (load_context n s) = cpu_rsp s"
    "ticks (load_context n s) = ticks s" "g_cur (load_context n s) = g_cur s" "g_cur_idx (load_context n s) = g_cur_idx s"
    "g_next_tid (load_context n s) = g_next_tid s" "g_timeslice_ticks (load_context n s) = g_timeslice_ticks s"
    "g_slice_left (load_context n s) = g_slice_left s" "kernel_cr3 (load_context n s) = kernel_cr3 s"
  by (simp_all add: load_context_def Let_def)

lemma switch_to_threads_raw:
  "g_threads (switch_to p n s) =
     (let ts1 = (g_threads s)[p := if t_state (g_threads s ! p) = T_RUNNING then (g_threads s ! p)\<lparr>t_state := T_READY\<rparr>
                                   else g_threads s ! p];
          ts2 = ts1[n := (ts1 ! n)\<lparr>t_state := T_RUNNING\<rparr>];
          ts3 = ts2[p := charge (ticks s) (ts2 ! p)];
          ts4 = ts3[n := (ts3 ! n)\<lparr>t_last_start_tick := ticks s, t_wait_ticks := 0\<rparr>]
      in ts4[p := (ts4 ! p)\<lparr>t_rsp := cpu_rsp s\<rparr>])"
  unfolding switch_to_def ctx_switch_def upd_thread_def Let_def
  by (simp split del: if_split)

lemma switch_to_threads:
  assumes "p < length (g_threads s)" "n < length (g_threads s)" "p \<noteq> n"
  shows "g_threads (switch_to p n s) = (g_threads s)[p := left s (g_threads s ! p), n := entered s (g_threads s ! n)]"
  using assms by (simp add: switch_to_threads_raw Let_def left_def entered_def list_update_swap [of p n] split del: if_split)

lemma switch_to_self_threads:
  assumes "p < length (g_threads s)"
  shows "g_threads (switch_to p p s) = (g_threads s)[p :=
    (charge (ticks s) ((g_threads s ! p)\<lparr>t_state := T_RUNNING\<rparr>))
      \<lparr>t_last_start_tick := ticks s, t_wait_ticks := 0, t_rsp := cpu_rsp s\<rparr>]"
  using assms by (simp add: switch_to_threads_raw Let_def)

lemma switch_to_frame [simp]: "g_cur (switch_to p n s) = Some n" "g_cur_idx (switch_to p n s) = n"
    "g_next_tid (switch_to p n s) = g_next_tid s" "g_timeslice_ticks (switch_to p n s) = g_timeslice_ticks s"
    "g_slice_left (switch_to p n s) = g_timeslice_ticks s" "length (g_threads (switch_to p n s)) = length (g_threads s)"
    "kernel_cr3 (switch_to p n s) = kernel_cr3 s" "ticks (switch_to p n s) = ticks s"
  by (simp_all add: switch_to_def ctx_switch_def Let_def)

lemma thread_ok_states:
  "thread_ok t \<Longrightarrow> t_state t \<noteq> T_UNUSED \<Longrightarrow> thread_ok (entered s t)"
  "thread_ok t \<Longrightarrow> thread_ok (left s t)"
  by (simp_all add: thread_ok_def entered_def left_def) auto

lemma left_fields: "t_state (left s t) \<noteq> T_RUNNING" "t_tid (left s t) = t_tid t"
  by (simp_all add: left_def)

lemma entered_fields: "t_state (entered s t) = T_RUNNING" "t_tid (entered s t) = t_tid t"
  by (simp_all add: entered_def)

lemma switch_to_ok:
  assumes "sched_ok s" "n < 32" "t_state (g_threads s ! n) = T_READY"
  shows "sched_ok (switch_to (g_cur_idx s) n s)"
proof -
  let ?p = "g_cur_idx s" and ?ts = "g_threads s" and ?ts' = "g_threads (switch_to (g_cur_idx s) n s)"
  have len: "length ?ts = 32" and p: "?p < 32" and t: "table_ok (g_next_tid s) ?ts" and r: "running_only ?p ?ts"
    using assms(1) by (simp_all add: sched_ok_def table_ok_def)
  have each: "thread_ok (?ts ! i)" if "i < 32" for i using t that len by (simp add: table_ok_def)
  have slot: "keeps_id (?ts ! i) (?ts' ! i) \<and> (t_state (?ts' ! i) = T_RUNNING \<longrightarrow> i = n)" if i: "i < 32" for i
  proof (cases "?p = n")
    case True
    show ?thesis
    proof (cases "i = n")
      case in': True
      have "?ts' ! i = (charge (ticks s) ((?ts ! i)\<lparr>t_state := T_RUNNING\<rparr>))
          \<lparr>t_last_start_tick := ticks s, t_wait_ticks := 0, t_rsp := cpu_rsp s\<rparr>"
        using switch_to_self_threads [of n s] True in' assms(2) len by simp
      then show ?thesis
        using in' each [OF i] assms(3) by (auto simp: keeps_id_def thread_ok_def)
    next
      case False
      then have "?ts' ! i = ?ts ! i"
        using switch_to_self_threads [of n s] True assms(2) len by simp
      with False i len r True show ?thesis by (simp add: keeps_id_def running_only_def)
    qed
  next
    case False
    note T = switch_to_threads [of ?p s n]
    consider "i = n" | "i = ?p" "i \<noteq> n" | "i \<noteq> n" "i \<noteq> ?p" by blast
    then show ?thesis
    proof cases
      case 1
      then have "?ts' ! i = entered s (?ts ! i)" using T False p assms(2) len by simp
      with 1 each [OF i] assms(3) show ?thesis by (simp add: keeps_id_def thread_ok_states entered_fields)
    next
      case 2
      then have "?ts' ! i = left s (?ts ! i)" using T False p assms(2) len by simp
      with 2 each [OF i] show ?thesis by (simp add: keeps_id_def thread_ok_states left_fields)
    next
      case 3
      then have "?ts' ! i = ?ts ! i" using T False p assms(2) len by simp
      with 3 i len r show ?thesis by (auto simp: keeps_id_def running_only_def)
    qed
  qed
  have "table_ok (g_next_tid s) ?ts'"
    by (rule table_ok_keeps [OF t]) (simp_all add: slot len)
  moreover have "running_only n ?ts'"
    using slot len by (simp add: running_only_def)
  moreover have "t_tid (?ts' ! n) \<noteq> 0"
  proof -
    have "thread_ok (?ts ! n)" "keeps_id (?ts ! n) (?ts' ! n)" using each [OF assms(2)] slot [OF assms(2)] by auto
    moreover have "t_state (?ts' ! n) = T_RUNNING"
      using switch_to_self_threads [of n s] switch_to_threads [of ?p s n] p assms(2) len
      by (cases "?p = n") (simp_all add: entered_fields)
    ultimately show ?thesis by (auto simp: keeps_id_def thread_ok_def)
  qed
  ultimately show ?thesis
    using assms(1,2) by (simp add: sched_ok_def)
qed

lemma sched_ok_length: "sched_ok s \<Longrightarrow> length (g_threads s) = 32"
  by (simp add: sched_ok_def table_ok_def)

lemma thread_reap_dead_ok: "sched_ok s \<Longrightarrow> sched_ok (thread_reap_dead s)"
  by (rule same_frame_ok [OF same_frame_reap_dead]) (simp_all add: sched_ok_length)

lemma thread_yield_ok:
  assumes "sched_ok s"
  shows "sched_ok (thread_yield s)"
proof -
  let ?s = "thread_reap_dead s"
  have ok: "sched_ok ?s" using assms by (rule thread_reap_dead_ok)
  then have c: "g_cur ?s \<noteq> None" "g_cur_idx ?s < 32" "length (g_threads ?s) = 32"
    by (auto simp: sched_ok_def table_ok_def)
  show ?thesis
  proof (cases "pick_next_ready ?s")
    case None
    then show ?thesis using ok assms by (simp add: thread_yield_def sched_ok_def)
  next
    case (Some n)
    from pick_next_ready_Some [OF c(3,2,1) Some]
    have "n < 32" "t_state (g_threads ?s ! n) = T_READY" by (auto simp: best_ready_def)
    from switch_to_ok [OF ok this] Some assms show ?thesis
      by (simp add: thread_yield_def sched_ok_def)
  qed
qed

section \<open>Every operation keeps the invariant\<close>

text \<open>Single-thread changes that touch neither identifier nor state nor the fixed-length tables.\<close>

lemma evolves_plain:
  assumes "t_state t' = t_state t" "t_tid t' = t_tid t" "t_prio t' = t_prio t"
    "length (t_user_maps t') = length (t_user_maps t)" "length (t_sig_handlers t') = length (t_sig_handlers t)"
  shows "evolves t t'"
  using assms by (simp add: evolves_def thread_ok_def)

lemma evolves_state:
  assumes "t_tid t' = t_tid t" "t_prio t' = t_prio t"
    "length (t_user_maps t') = length (t_user_maps t)" "length (t_sig_handlers t') = length (t_sig_handlers t)"
    "t_state t' \<noteq> T_RUNNING" "t_state t' = T_UNUSED \<longleftrightarrow> t_state t = T_UNUSED"
  shows "evolves t t'"
  using assms by (simp add: evolves_def thread_ok_def)

lemma evolves_wake_sleeper: "evolves t (wake_sleeper t)"
  by (auto simp: wake_sleeper_def intro: evolves_state)

lemma same_frame_setters:
  "same_frame s (g_cur_set_cr3 w s)" "same_frame s (thread_user_maps_zero_current s)"
  "same_frame s (thread_set_brk w s)" "same_frame s (thread_set_cwd p s)" "same_frame s (thread_copy_cwd_to_slot i p s)"
  "same_frame s (thread_set_exit_code k s)" "same_frame s (thread_set_parent_for_slot i d s)"
  "same_frame s (thread_copy_pgid_to_slot i d s)" "same_frame s (thread_set_mmap_next w s)"
  "same_frame s (thread_mark_user_slot i b s)" "same_frame s (thread_set_sig_handler k w s)"
  "same_frame s (snd (thread_take_pending_sig s))" "same_frame s (thread_set_pgid d e s)"
  by (auto simp: g_cur_set_cr3_def thread_user_maps_zero_current_def thread_set_brk_def thread_set_cwd_def
      thread_copy_cwd_to_slot_def thread_set_exit_code_def thread_set_parent_for_slot_def thread_copy_pgid_to_slot_def
      thread_set_mmap_next_def thread_mark_user_slot_def thread_set_sig_handler_def thread_take_pending_sig_def
      thread_set_pgid_def intro!: same_frame_upd_cur same_frame_upd_thread evolves_plain evolves_maps_zero
      split: option.splits)

lemma same_frame_wake: "same_frame s (snd (thread_wake_ready s))"
  unfolding thread_wake_ready_def Let_def snd_conv
  by (rule same_frame_map) (auto intro: evolves_state)

lemma same_frame_signals:
  "same_frame s (thread_signal_children s)" "same_frame s (thread_sigtstp_children s)"
  unfolding thread_signal_children_def thread_sigtstp_children_def
  by (rule same_frame_map, auto intro!: evolves_trans [OF _ evolves_wake_sleeper] evolves_plain)+

lemma same_frame_cpu_reset: "same_frame s (thread_cpu_reset s)"
  unfolding thread_cpu_reset_def Let_def
  by (simp add: same_frame_def) (auto intro!: table_evolves_map evolves_plain)

lemma same_frame_kill_by_tid: "same_frame s (thread_kill_by_tid tid sig s)"
proof (cases "first_idx (\<lambda>t. t_tid t = tid \<and> \<not> (t_state t = T_UNUSED \<or> t_state t = T_DEAD)) (g_threads s)")
  case None
  then show ?thesis by (simp add: thread_kill_by_tid_def)
next
  case (Some i)
  then show ?thesis
    unfolding thread_kill_by_tid_def Some option.case
    by (intro upd_thread_evolves) (auto simp: Let_def wake_sleeper_def evolves_def thread_ok_def)
qed

lemma same_frame_cont_by_tid: "same_frame s (thread_cont_by_tid tid s)"
  unfolding thread_cont_by_tid_def
  by (auto simp: Let_def evolves_def thread_ok_def split: option.splits intro!: same_frame_upd_thread)

lemma same_frame_reap_zombie: "same_frame s (snd (thread_reap_zombie_child p c s))"
proof (cases "first_idx (\<lambda>t. matches_child p c t \<and> t_state t = T_ZOMBIE) (g_threads s)")
  case None
  then show ?thesis by (simp add: thread_reap_zombie_child_def)
next
  case (Some i)
  from first_idx_SomeD(2) [OF this] Some show ?thesis
    by (auto simp: thread_reap_zombie_child_def intro!: upd_thread_evolves evolves_state)
qed

lemma same_frame_check_stopped: "same_frame s (snd (thread_check_stopped_child p c s))"
  by (auto simp: thread_check_stopped_child_def split: option.splits intro!: same_frame_upd_thread evolves_plain)

lemma same_frame_map_add: "same_frame s (snd (thread_user_map_add va sz s))"
  by (auto simp: thread_user_map_add_def Let_def split: option.splits intro!: upd_thread_evolves evolves_plain)

lemma same_frame_set_prio: "same_frame s (snd (thread_set_prio i p s))"
proof -
  have "word_of_int p AND (0xff :: u8) \<le> 3" if "0 \<le> p" "p \<le> 3" for p :: int
  proof -
    from that have "p \<in> {0, 1, 2, 3}" by auto
    then show ?thesis by auto
  qed
  then have "evolves t (t\<lparr>t_prio := word_of_int p AND 0xff\<rparr>)" if "0 \<le> p" "p \<le> 3" for t
    using that by (simp add: evolves_def thread_ok_def)
  then show ?thesis
    by (auto simp: thread_set_prio_def intro!: same_frame_upd_thread)
qed

lemma same_frame_exit_mark:
  assumes "sched_ok s"
  shows "same_frame s (thread_exit_mark s)"
proof -
  let ?c = "g_cur_idx s"
  let ?s1 = "upd_thread ?c (charge (ticks s)) s"
  have c: "g_cur s = Some ?c" "?c < 32" "length (g_threads s) = 32"
    using assms by (simp_all add: sched_ok_def table_ok_def)
  have 1: "same_frame s ?s1"
    by (rule same_frame_upd_thread) (simp add: evolves_plain)
  have 2: "same_frame ?s1 (if z then (upd_thread ?c (\<lambda>t. thread_user_maps_zero (t\<lparr>t_cr3 := 0\<rparr>)) ?s1)
       \<lparr>cpu_cr3 := x, vmm_calls := y\<rparr> else cleanup_slot ?c ?s1)" (is "same_frame ?s1 (?s2 z x y)") for z x y
    by (simp add: same_frame_upd_thread evolves_drop_cr3 same_frame_cleanup_slot)
  have 3: "same_frame s' (upd_thread ?c (\<lambda>t. t\<lparr>t_state := (if b then T_ZOMBIE else T_DEAD)\<rparr>) s')"
    if "same_frame s s'" for s' b
  proof (rule upd_thread_evolves)
    have "sched_ok s'" using that assms by (rule same_frame_ok)
    then have "t_tid (g_threads s' ! ?c) \<noteq> 0"
      using that by (simp add: sched_ok_def same_frame_def)
    then show "evolves (g_threads s' ! ?c) ((g_threads s' ! ?c)\<lparr>t_state := (if b then T_ZOMBIE else T_DEAD)\<rparr>)"
      by (simp add: evolves_def thread_ok_def)
  qed
  note 12 = same_frame_trans [OF 1 2]
  show ?thesis
    unfolding thread_exit_mark_def c(1) option.case Let_def
    by (rule same_frame_trans [OF 12 3 [OF 12]])
qed

lemma live_state_evolves:
  assumes "t_tid t \<noteq> 0" "t_tid t' = t_tid t" "t_prio t' = t_prio t" "t_state t' \<noteq> T_RUNNING" "t_state t' \<noteq> T_UNUSED"
    "length (t_user_maps t') = length (t_user_maps t)" "length (t_sig_handlers t') = length (t_sig_handlers t)"
  shows "evolves t t'"
  using assms by (simp add: evolves_def thread_ok_def)

lemma sched_ok_cur: "sched_ok s \<Longrightarrow> g_cur s = Some (g_cur_idx s)" "sched_ok s \<Longrightarrow> g_cur_idx s < 32"
    "sched_ok s \<Longrightarrow> t_tid (g_threads s ! g_cur_idx s) \<noteq> 0"
  by (simp_all add: sched_ok_def)

lemma sched_ok_thread: "sched_ok s \<Longrightarrow> i < 32 \<Longrightarrow> thread_ok (g_threads s ! i)"
  by (simp add: sched_ok_def table_ok_def)

lemma sched_ok_live: "sched_ok s \<Longrightarrow> i < 32 \<Longrightarrow> t_tid (g_threads s ! i) = 0 \<longleftrightarrow> t_state (g_threads s ! i) = T_UNUSED"
  using sched_ok_thread [of s i] by (simp add: thread_ok_def)

lemma bad_slot_nat: "\<not> bad_slot i \<Longrightarrow> nat i < 32"
  by (auto simp: bad_slot_def THREAD_MAX_def)

lemma thread_exit_ok: "sched_ok s \<Longrightarrow> sched_ok (thread_exit s)"
  unfolding thread_exit_def by (intro thread_yield_ok same_frame_ok [OF same_frame_exit_mark])

lemma thread_sleep_ms_ok:
  assumes "sched_ok s"
  shows "sched_ok (thread_sleep_ms ms s)"
  unfolding thread_sleep_ms_def Let_def
proof (intro thread_yield_ok same_frame_ok [OF _ assms])
  let ?f = "\<lambda>t. (charge (ticks s) t)\<lparr>t_wake_tick := ticks s + (if (ms + 9) div 10 = 0 then 1 else (ms + 9) div 10), t_state := T_SLEEPING\<rparr>"
  have "same_frame s (upd_thread (g_cur_idx s) ?f s)"
    using sched_ok_cur(3) [OF assms] by (intro upd_thread_evolves live_state_evolves) simp_all
  then show "same_frame s (upd_cur ?f s\<lparr>g_need_resched := True\<rparr>)"
    using sched_ok_cur(1) [OF assms] by (simp add: upd_cur_def)
qed

lemma thread_do_stop_ok:
  assumes "sched_ok s"
  shows "sched_ok (thread_do_stop s)"
proof -
  have "same_frame s (upd_thread (g_cur_idx s) (\<lambda>t. t\<lparr>t_state := T_STOPPED\<rparr>) s)"
    using sched_ok_cur(3) [OF assms] by (intro upd_thread_evolves live_state_evolves) simp_all
  from thread_yield_ok [OF same_frame_ok [OF this assms]] show ?thesis
    using sched_ok_cur(1) [OF assms] by (simp add: thread_do_stop_def)
qed

lemma thread_check_signal_ok:
  assumes "sched_ok s"
  shows "sched_ok (thread_check_signal s)"
proof -
  let ?s1 = "upd_thread (g_cur_idx s) (\<lambda>t. t\<lparr>t_sig_pending := 0\<rparr>) s"
  have 1: "sched_ok ?s1"
    by (rule same_frame_ok [OF _ assms]) (simp add: same_frame_upd_thread evolves_plain)
  have 2: "sched_ok (upd_thread (g_cur_idx s) (\<lambda>t. t\<lparr>t_exit_code := e\<rparr>) ?s1)" for e
    by (rule same_frame_ok [OF _ 1]) (simp add: same_frame_upd_thread evolves_plain)
  show ?thesis
    using sched_ok_cur(1) [OF assms] assms thread_do_stop_ok [OF 1] thread_exit_ok [OF 2]
    by (simp add: thread_check_signal_def Let_def)
qed

lemma thread_kill_ok:
  assumes "sched_ok s"
  shows "sched_ok (snd (thread_kill slot s))"
proof (cases "slot \<le> 0 \<or> 32 \<le> slot \<or> t_state (g_threads s ! nat slot) = T_UNUSED")
  case True
  then show ?thesis using assms by (auto simp: thread_kill_def THREAD_MAX_def)
next
  case False
  let ?s1 = "upd_thread (nat slot) (\<lambda>t. t\<lparr>t_state := T_DEAD\<rparr>) s"
  have "nat slot < 32" using False by (simp add: nat_less_iff)
  then have "same_frame s ?s1"
    using False sched_ok_live [OF assms, of "nat slot"]
    by (intro upd_thread_evolves live_state_evolves) auto
  then have "sched_ok ?s1" "sched_ok (?s1\<lparr>g_need_resched := True\<rparr>)"
    by (auto intro!: same_frame_ok [OF _ assms])
  with thread_yield_ok [of ?s1] assms show ?thesis
    by (simp add: thread_kill_def Let_def)
qed

lemma thread_kill_slot_ok:
  assumes "sched_ok s"
  shows "sched_ok (snd (thread_kill_slot slot s))"
proof (cases "bad_slot slot \<or> g_cur s = Some (nat slot)
    \<or> t_state (g_threads s ! nat slot) = T_UNUSED \<or> t_state (g_threads s ! nat slot) = T_DEAD")
  case True
  then show ?thesis using assms by (auto simp: thread_kill_slot_def)
next
  case False
  let ?s1 = "upd_thread (nat slot) (\<lambda>t. t\<lparr>t_state := T_DEAD, t_wake_tick := 0, t_wait_ticks := 0\<rparr>) s"
  have "same_frame s ?s1"
    using False sched_ok_live [OF assms, of "nat slot"] bad_slot_nat [of slot]
    by (intro upd_thread_evolves live_state_evolves) auto
  then have "sched_ok (cleanup_slot (nat slot) ?s1)"
    by (intro same_frame_ok [OF same_frame_cleanup_slot] same_frame_ok [OF _ assms])
  from thread_reap_dead_ok [OF this] False show ?thesis
    by (simp add: thread_kill_slot_def Let_def)
qed

lemma thread_check_resched_ok:
  assumes "sched_ok s"
  shows "sched_ok (thread_check_resched s)"
proof -
  let ?s = "snd (thread_wake_ready (thread_reap_dead s))"
  have ok: "sched_ok ?s" by (rule same_frame_ok [OF same_frame_wake thread_reap_dead_ok [OF assms]])
  have n: "sched_ok (?s\<lparr>g_need_resched := b\<rparr>)" for b
    by (rule same_frame_ok [OF _ ok]) simp
  have m: "?s\<lparr>g_need_resched := True, g_need_resched := False\<rparr> = ?s\<lparr>g_need_resched := False\<rparr>" by simp
  show ?thesis
    using n [of False] n [of True] ok thread_yield_ok [OF n [of False]]
    by (simp add: thread_check_resched_def Let_def case_prod_beta m)
qed

lemma thread_request_resched_ok:
  assumes "sched_ok s"
  shows "sched_ok (thread_request_resched s)"
proof (rule sched_ok_evolves [OF assms])
  show "table_evolves (g_cur s) (g_threads s) (g_threads (thread_request_resched s))"
    by (auto simp: thread_request_resched_def Let_def intro!: table_evolves_map evolves_plain)
qed (use assms in \<open>auto simp: thread_request_resched_def Let_def sched_ok_def\<close>)

lemma thread_timeslice_set_ok:
  assumes "sched_ok s"
  shows "sched_ok (thread_timeslice_set n s)"
  using assms by (simp add: thread_timeslice_set_def sched_ok_def Let_def)

lemma thread_fork_inherit_ok:
  assumes "sched_ok s"
  shows "sched_ok (thread_fork_inherit_slot slot s)"
proof (cases "bad_slot slot")
  case True
  then show ?thesis using assms by (simp add: thread_fork_inherit_slot_def split: option.splits)
next
  case False
  let ?p = "g_threads s ! g_cur_idx s"
  have "thread_ok ?p" using sched_ok_thread [OF assms sched_ok_cur(2) [OF assms]] .
  then have "evolves t (t\<lparr>t_user_brk := t_user_brk ?p, t_mmap_next := t_mmap_next ?p, t_is_user := True,
      t_user_maps := t_user_maps ?p, t_sig_handlers := t_sig_handlers ?p\<rparr>)" for t
    by (simp add: evolves_def thread_ok_def)
  then show ?thesis
    using False sched_ok_cur(1) [OF assms]
    by (auto simp: thread_fork_inherit_slot_def Let_def intro!: same_frame_ok [OF same_frame_upd_thread assms])
qed

section \<open>Creation\<close>

lemma table_ok_fresh:
  assumes "table_ok n ts" "i < 32" "thread_ok t" "t_tid t = n" "n \<noteq> - 1"
  shows "table_ok (n + 1) (ts[i := t])"
proof -
  have len: "length ts = 32" and each: "\<And>u. u \<in> set ts \<Longrightarrow> thread_ok u \<and> t_tid u < n"
    and inj: "\<And>j k. j < 32 \<Longrightarrow> k < 32 \<Longrightarrow> t_tid (ts ! j) = t_tid (ts ! k) \<Longrightarrow> t_tid (ts ! j) \<noteq> 0 \<Longrightarrow> j = k"
    using assms(1) by (auto simp: table_ok_def)
  have inc: "n < n + 1" using assms(5) inc_less_eq_self_iff_eq [of n] by (simp add: not_le [symmetric])
  have "thread_ok u \<and> t_tid u < n + 1" if u: "u \<in> set (ts[i := t])" for u
  proof (cases "u = t")
    case True
    then show ?thesis using assms(3,4) inc by simp
  next
    case False
    then have "u \<in> set ts" using u set_update_subset_insert [of ts i t] by auto
    then show ?thesis using each [of u] inc by auto
  qed
  moreover have "j = k" if jk: "j < 32" "k < 32" "t_tid (ts[i := t] ! j) = t_tid (ts[i := t] ! k)" "t_tid (ts[i := t] ! j) \<noteq> 0" for j k
  proof -
    have new: "t_tid (ts ! m) \<noteq> n" if "m < 32" for m using each [of "ts ! m"] that len by auto
    show ?thesis
      using jk inj [of j k] new [of j] new [of k] assms(2,4) len
      by (cases "j = i"; cases "k = i") auto
  qed
  ultimately show ?thesis by (simp add: table_ok_def len)
qed

lemma find_free_slot_Some:
  assumes "length (g_threads s) = 32" "find_free_slot s = Some i"
  shows "1 \<le> i" "i < 32" "t_state (g_threads s ! i) = T_UNUSED \<or> t_state (g_threads s ! i) = T_DEAD"
proof -
  from assms(2) obtain k where k: "first_idx (\<lambda>t. t_state t = T_UNUSED \<or> t_state t = T_DEAD) (tl (g_threads s)) = Some k"
      "i = Suc k"
    by (auto simp: find_free_slot_def)
  note K = first_idx_SomeD [OF k(1)]
  show "1 \<le> i" using k(2) by simp
  show "i < 32" using K(1) k(2) assms(1) by simp
  show "t_state (g_threads s ! i) = T_UNUSED \<or> t_state (g_threads s ! i) = T_DEAD"
    using K(1,2) k(2) by (simp add: nth_tl)
qed

lemma running_only_update:
  assumes "running_only c ts" "t_state t \<noteq> T_RUNNING"
  shows "running_only c (ts[i := t])"
  unfolding running_only_def
proof (intro allI impI)
  fix k
  assume "k < length (ts[i := t])" "t_state (ts[i := t] ! k) = T_RUNNING"
  with assms show "k = c" by (cases "k = i") (simp_all add: running_only_def)
qed

text \<open>The new thread, field by field.\<close>

definition fresh_thread :: "u64 \<Rightarrow> bytes option \<Rightarrow> u64 \<Rightarrow> u64 \<Rightarrow> u32 \<Rightarrow> thread \<Rightarrow> thread" where
  "fresh_thread stack name entry arg tid t = thread_user_maps_zero
    (t\<lparr>t_rsp := ((stack + THREAD_STACK_SIZE) AND NOT 0xF) - 56, t_state := T_READY, t_tid := tid, t_wait_ticks := 0, t_prio := 1,
       t_entry := entry, t_arg := arg, t_stack_base := stack, t_is_user := False, t_user_brk := 0,
       t_parent_tid := 0, t_exit_code := 0, t_pgid := 0, t_stop_reported := False,
       t_sig_handlers := replicate 32 0, t_mmap_next := 0x0000600000000000, t_cwd := ascii ''/'',
       t_kstack_top := stack + THREAD_STACK_SIZE, t_cpu_ticks := 0, t_last_start_tick := 0,
       t_name := name_copy name\<rparr>)"

lemma thread_create_Some:
  assumes "thread_create stack tramp name entry arg s = (Some i, s')"
  obtains m where "find_free_slot (thread_reap_dead s) = Some i" "entry \<noteq> 0" "stack \<noteq> 0"
    "s' = upd_thread i (fresh_thread stack name entry arg (g_next_tid s))
       ((thread_reap_dead s)\<lparr>kmem := m, g_next_tid := g_next_tid s + 1\<rparr>)"
  using assms
  by (auto simp: thread_create_def Let_def fresh_thread_def [abs_def] split: if_splits option.splits)

lemma thread_create_None: "thread_create stack tramp name entry arg s = (None, s') \<Longrightarrow> s' = thread_reap_dead s"
  by (auto simp: thread_create_def Let_def split: if_splits option.splits)

lemma thread_ok_fresh: "tid \<noteq> 0 \<Longrightarrow> thread_ok (fresh_thread stack name entry arg tid t)"
  by (simp add: thread_ok_def fresh_thread_def thread_user_maps_zero_def THREAD_USER_MAP_MAX_def)

lemma fresh_thread_fields: "t_tid (fresh_thread stack name entry arg tid t) = tid"
    "t_state (fresh_thread stack name entry arg tid t) = T_READY"
    "t_sig_pending (fresh_thread stack name entry arg tid t) = t_sig_pending t"
    "t_rsp (fresh_thread stack name entry arg tid t) = ((stack + THREAD_STACK_SIZE) AND NOT 0xF) - 56"
    "t_kstack_top (fresh_thread stack name entry arg tid t) = stack + THREAD_STACK_SIZE"
    "t_entry (fresh_thread stack name entry arg tid t) = entry" "t_arg (fresh_thread stack name entry arg tid t) = arg"
    "t_cr3 (fresh_thread stack name entry arg tid t) = t_cr3 t"
  by (simp_all add: fresh_thread_def thread_user_maps_zero_def)

lemma thread_create_ok:
  assumes "sched_ok s" "g_next_tid s \<noteq> - 1"
  shows "sched_ok (snd (thread_create stack tramp name entry arg s))"
proof (cases "fst (thread_create stack tramp name entry arg s)")
  case None
  then show ?thesis
    using thread_create_None [of stack tramp name entry arg s "snd (thread_create stack tramp name entry arg s)"]
      thread_reap_dead_ok [OF assms(1)] by (simp add: prod_eq_iff)
next
  case (Some i)
  let ?s = "thread_reap_dead s"
  obtain m where f: "find_free_slot ?s = Some i"
    and s': "snd (thread_create stack tramp name entry arg s) = upd_thread i (fresh_thread stack name entry arg (g_next_tid s))
       (?s\<lparr>kmem := m, g_next_tid := g_next_tid s + 1\<rparr>)"
    using thread_create_Some [of stack tramp name entry arg s i "snd (thread_create stack tramp name entry arg s)"] Some
    by (metis prod.collapse)
  have ok: "sched_ok ?s" by (rule thread_reap_dead_ok [OF assms(1)])
  have len: "length (g_threads ?s) = 32" using sched_ok_length [OF ok] .
  have i: "i < 32" using find_free_slot_Some [OF len f] by simp
  have n: "g_next_tid s \<noteq> 0" using assms(1) by (auto simp: sched_ok_def)
  let ?t = "fresh_thread stack name entry arg (g_next_tid s) (g_threads ?s ! i)"
  have tab: "table_ok (g_next_tid s + 1) ((g_threads ?s)[i := ?t])"
    using ok i n assms(2) by (intro table_ok_fresh) (simp_all add: sched_ok_def thread_ok_fresh fresh_thread_fields)
  have run: "running_only (g_cur_idx s) ((g_threads ?s)[i := ?t])"
    using ok by (intro running_only_update) (simp_all add: sched_ok_def fresh_thread_fields)
  have tid: "t_tid ((g_threads ?s)[i := ?t] ! g_cur_idx s) \<noteq> 0"
    using ok n i len by (cases "i = g_cur_idx s") (auto simp: sched_ok_def fresh_thread_fields)
  have "0 < g_next_tid s + 1"
    using assms(2) by (metis add.commute add_eq_0_iff word_gt_0)
  with tab run tid ok show ?thesis
    by (simp add: s' sched_ok_def upd_thread_def)
qed

section \<open>Reachable states\<close>

text \<open>
  One step of the kernel as far as the table is concerned: a timer interrupt, or one of the
  operations. A creation needs an unused identifier, of which there are $2^{32} - 1$.
\<close>

inductive sched_step :: "sched \<Rightarrow> sched \<Rightarrow> bool" where
  st_tick: "sched_step s (thread_request_resched (s\<lparr>ticks := ticks s + 1\<rparr>))"
| st_yield: "sched_step s (thread_yield s)"
| st_check_resched: "sched_step s (thread_check_resched s)"
| st_create: "g_next_tid s \<noteq> - 1 \<Longrightarrow> sched_step s (snd (thread_create stack tramp name entry arg s))"
| st_exit: "sched_step s (thread_exit s)"
| st_sleep: "sched_step s (thread_sleep_ms ms s)"
| st_stop: "sched_step s (thread_do_stop s)"
| st_check_signal: "sched_step s (thread_check_signal s)"
| st_kill: "sched_step s (snd (thread_kill slot s))"
| st_kill_slot: "sched_step s (snd (thread_kill_slot slot s))"
| st_reap: "sched_step s (thread_reap_dead s)"
| st_wait: "sched_step s (snd (thread_reap_zombie_child p c s))"
| st_wait_stopped: "sched_step s (snd (thread_check_stopped_child p c s))"
| st_sigint: "sched_step s (thread_signal_children s)"
| st_sigtstp: "sched_step s (thread_sigtstp_children s)"
| st_kill_tid: "sched_step s (thread_kill_by_tid tid sig s)"
| st_cont_tid: "sched_step s (thread_cont_by_tid tid s)"
| st_take_sig: "sched_step s (snd (thread_take_pending_sig s))"
| st_set_handler: "sched_step s (thread_set_sig_handler k w s)"
| st_set_prio: "sched_step s (snd (thread_set_prio slot pr s))"
| st_timeslice: "sched_step s (thread_timeslice_set n s)"
| st_aging: "sched_step s (thread_aging_set b s)"
| st_preempt: "sched_step s (thread_preempt_set b s)"
| st_cpu_reset: "sched_step s (thread_cpu_reset s)"
| st_map_add: "sched_step s (snd (thread_user_map_add va sz s))"
| st_map_cleanup: "sched_step s (thread_user_map_cleanup_current s)"
| st_map_cleanup_slot: "sched_step s (thread_user_map_cleanup_slot slot s)"
| st_maps_zero: "sched_step s (thread_user_maps_zero_current s)"
| st_mark_user: "sched_step s (thread_mark_user_slot slot b s)"
| st_cr3: "sched_step s (g_cur_set_cr3 w s)"
| st_brk: "sched_step s (thread_set_brk w s)"
| st_mmap: "sched_step s (thread_set_mmap_next w s)"
| st_cwd: "sched_step s (thread_set_cwd path s)"
| st_copy_cwd: "sched_step s (thread_copy_cwd_to_slot slot path s)"
| st_exit_code: "sched_step s (thread_set_exit_code k s)"
| st_parent: "sched_step s (thread_set_parent_for_slot slot tid s)"
| st_pgid: "sched_step s (thread_set_pgid tid pg s)"
| st_copy_pgid: "sched_step s (thread_copy_pgid_to_slot slot pg s)"
| st_fork: "sched_step s (thread_fork_inherit_slot slot s)"

lemmas same_frame_ops = same_frame_setters same_frame_signals same_frame_cpu_reset same_frame_kill_by_tid
  same_frame_cont_by_tid same_frame_reap_zombie same_frame_check_stopped same_frame_map_add same_frame_set_prio

lemmas sched_ok_ops = thread_yield_ok thread_check_resched_ok thread_create_ok thread_exit_ok thread_sleep_ms_ok
  thread_do_stop_ok thread_check_signal_ok thread_kill_ok thread_kill_slot_ok thread_reap_dead_ok
  thread_timeslice_set_ok thread_fork_inherit_ok

lemma same_frame_ops2:
  "same_frame s (thread_user_map_cleanup_current s)" "same_frame s (thread_user_map_cleanup_slot slot s)"
  "same_frame s (thread_aging_set b s)" "same_frame s (thread_preempt_set b s)"
  by (simp_all add: thread_user_map_cleanup_current_def thread_user_map_cleanup_slot_def thread_aging_set_def
      thread_preempt_set_def same_frame_cleanup_slot split: option.splits)

lemma sched_step_ok: "sched_step s s' \<Longrightarrow> sched_ok s \<Longrightarrow> sched_ok s'"
proof (induction rule: sched_step.induct)
  case (st_tick s)
  have "sched_ok (s\<lparr>ticks := ticks s + 1\<rparr>)" by (rule same_frame_ok [OF _ st_tick]) simp
  then show ?case by (rule thread_request_resched_ok)
qed (blast intro: sched_ok_ops same_frame_ops [THEN same_frame_ok] same_frame_ops2 [THEN same_frame_ok])+

text \<open>The kernel image at boot: the table is zero-initialised data.\<close>

definition zero_thread :: thread where
  "zero_thread = \<lparr>t_rsp = 0, t_kstack_top = 0, t_state = T_UNUSED, t_prio = 0, t_tid = 0, t_wait_ticks = 0,
     t_wake_tick = 0, t_cpu_ticks = 0, t_last_start_tick = 0, t_name = [], t_entry = 0, t_arg = 0,
     t_stack_base = 0, t_is_user = False, t_cr3 = 0, t_user_brk = 0, t_parent_tid = 0, t_exit_code = 0,
     t_sig_pending = 0, t_cwd = [], t_user_maps = replicate 8 no_map, t_pgid = 0, t_stop_reported = False,
     t_sig_handlers = replicate 32 0, t_mmap_next = 0\<rparr>"

definition boot_sched :: "u64 \<Rightarrow> u64 \<Rightarrow> u64 \<Rightarrow> memory \<Rightarrow> sched" where
  "boot_sched now rsp kcr3 m = \<lparr>g_threads = replicate 32 zero_thread, g_cur = None, g_cur_idx = 0, g_need_resched = False,
     g_boot_tick = 0, g_next_tid = 1, g_preempt_enabled = True, g_aging_enabled = True, g_timeslice_ticks = 3,
     g_slice_left = 3, ticks = now, cpu_cr3 = kcr3, cpu_rsp = rsp, tss_rsp0 = 0, kernel_cr3 = kcr3, kmem = m,
     vmm_calls = []\<rparr>"

inductive sched_reach :: "sched \<Rightarrow> bool" where
  sr_init: "sched_reach (thread_init (boot_sched now rsp kcr3 m))"
| sr_step: "sched_reach s \<Longrightarrow> sched_step s s' \<Longrightarrow> sched_reach s'"

lemma init_slot_fields: "t_state (thread_init_slot t) = T_UNUSED" "t_tid (thread_init_slot t) = 0"
    "t_prio (thread_init_slot t) = 0" "length (t_user_maps (thread_init_slot t)) = 8"
    "length (t_sig_handlers (thread_init_slot t)) = 32"
  by (simp_all add: thread_init_slot_def thread_user_maps_zero_def THREAD_USER_MAP_MAX_def)

lemma table_ok_boot:
  assumes "t_tid t = 1" "thread_ok t"
  shows "table_ok 2 ((replicate 32 (thread_init_slot zero_thread))[0 := t])"
proof -
  let ?ts = "(replicate 32 (thread_init_slot zero_thread))[0 := t]"
  have z: "thread_ok (thread_init_slot zero_thread)" "t_tid (thread_init_slot zero_thread) = 0"
    by (simp_all add: thread_ok_def init_slot_fields)
  have nth: "?ts ! i = (if i = 0 then t else thread_init_slot zero_thread)" if "i < 32" for i
    using that by (cases "i = 0") simp_all
  have all: "thread_ok u \<and> t_tid u < 2" if u: "u \<in> set ?ts" for u
  proof -
    have "u = t \<or> u = thread_init_slot zero_thread"
      using u set_update_subset_insert [of "replicate 32 (thread_init_slot zero_thread)" 0 t] by auto
    with z assms show ?thesis by auto
  qed
  have inj: "i = j" if "i < 32" "j < 32" "t_tid (?ts ! i) = t_tid (?ts ! j)" "t_tid (?ts ! i) \<noteq> 0" for i j
    using that(3,4) z(2) unfolding nth [OF that(1)] nth [OF that(2)] by (simp split: if_splits)
  show ?thesis
    unfolding table_ok_def by (intro conjI) (simp, use all in blast, use inj in blast)
qed

lemma running_only_boot:
  assumes "t_state z \<noteq> T_RUNNING"
  shows "running_only 0 ((replicate n z)[0 := t])"
  unfolding running_only_def
proof (intro allI impI)
  fix i
  assume "i < length ((replicate n z)[0 := t])" "t_state ((replicate n z)[0 := t] ! i) = T_RUNNING"
  with assms show "i = 0" by (cases "i = 0") simp_all
qed

lemma thread_init_ok: "sched_ok (thread_init (boot_sched now rsp kcr3 m))"
proof -
  let ?z = "thread_init_slot zero_thread"
  let ?t = "?z\<lparr>t_state := T_RUNNING, t_prio := 1, t_cwd := ascii ''/'', t_name := name_copy (Some (ascii ''main'')),
           t_cpu_ticks := 0, t_last_start_tick := now, t_tid := 1, t_wait_ticks := 0, t_kstack_top := rsp\<rparr>"
  have ts: "g_threads (thread_init (boot_sched now rsp kcr3 m)) = (replicate 32 ?z)[0 := ?t]"
    by (simp add: thread_init_def boot_sched_def upd_thread_def Let_def)
  have z: "t_state ?z = T_UNUSED" by (rule init_slot_fields)
  have t: "thread_ok ?t" "t_tid ?t = 1"
    by (simp_all add: thread_ok_def init_slot_fields)
  have tab: "table_ok 2 ((replicate 32 ?z)[0 := ?t])" by (rule table_ok_boot [OF t(2,1)])
  have run: "running_only 0 ((replicate 32 ?z)[0 := ?t])"
    by (rule running_only_boot) (simp add: z)
  have rest: "g_cur (thread_init (boot_sched now rsp kcr3 m)) = Some 0" "g_cur_idx (thread_init (boot_sched now rsp kcr3 m)) = 0"
    "g_next_tid (thread_init (boot_sched now rsp kcr3 m)) = 2" "g_timeslice_ticks (thread_init (boot_sched now rsp kcr3 m)) = 3"
    "g_slice_left (thread_init (boot_sched now rsp kcr3 m)) = 3"
    by (simp_all add: thread_init_def boot_sched_def Let_def)
  show ?thesis using tab run by (simp add: sched_ok_def rest ts)
qed

lemma sched_reach_ok: "sched_reach s \<Longrightarrow> sched_ok s"
proof (induction rule: sched_reach.induct)
  case sr_init
  then show ?case by (rule thread_init_ok)
next
  case (sr_step s s')
  then show ?case by (blast intro: sched_step_ok)
qed

text \<open>
  Claim C1. In every state the kernel can reach, whatever the order of operations and timer
  interrupts: a slot in state RUNNING is the current one, so at most one thread runs; every
  live slot has an identifier, no two live slots share one, and free slots have none;
  priorities stay at most 3 and the remaining time slice within the configured one.
\<close>

theorem sched_table_invariant:
  assumes "sched_reach s"
  shows "length (g_threads s) = THREAD_MAX \<and> (\<exists>c < THREAD_MAX. g_cur s = Some c
      \<and> (\<forall>i < THREAD_MAX. t_state (g_threads s ! i) = T_RUNNING \<longrightarrow> i = c))
    \<and> (\<forall>i < THREAD_MAX. t_state (g_threads s ! i) = T_UNUSED \<longleftrightarrow> t_tid (g_threads s ! i) = 0)
    \<and> (\<forall>i < THREAD_MAX. \<forall>j < THREAD_MAX. t_tid (g_threads s ! i) = t_tid (g_threads s ! j) \<longrightarrow>
         t_tid (g_threads s ! i) \<noteq> 0 \<longrightarrow> i = j)
    \<and> (\<forall>i < THREAD_MAX. t_prio (g_threads s ! i) \<le> 3)
    \<and> 0 \<le> g_slice_left s \<and> g_slice_left s \<le> g_timeslice_ticks s \<and> g_timeslice_ticks s \<le> 50"
  unfolding THREAD_MAX_def
proof (intro conjI)
  have ok: "sched_ok s" by (rule sched_reach_ok [OF assms])
  note len = sched_ok_length [OF ok]
  show "length (g_threads s) = 32" by (rule len)
  show "\<exists>c<32. g_cur s = Some c \<and> (\<forall>i<32. t_state (g_threads s ! i) = T_RUNNING \<longrightarrow> i = c)"
    using ok len by (auto simp: sched_ok_def running_only_def)
  show "\<forall>i<32. t_state (g_threads s ! i) = T_UNUSED \<longleftrightarrow> t_tid (g_threads s ! i) = 0"
    using sched_ok_live [OF ok] by blast
  show "\<forall>i<32. \<forall>j<32. t_tid (g_threads s ! i) = t_tid (g_threads s ! j) \<longrightarrow> t_tid (g_threads s ! i) \<noteq> 0 \<longrightarrow> i = j"
    using ok by (simp add: sched_ok_def table_ok_def)
  show "\<forall>i<32. t_prio (g_threads s ! i) \<le> 3"
    using sched_ok_thread [OF ok] by (simp add: thread_ok_def)
  show "0 \<le> g_slice_left s" "g_slice_left s \<le> g_timeslice_ticks s" "g_timeslice_ticks s \<le> 50"
    using ok by (simp_all add: sched_ok_def)
qed

definition demo_boot :: sched where
  "demo_boot = thread_init (boot_sched 7 0x9000 0x1000 (\<lambda>_. 0))"

theorem sched_table_invariant_witness:
  "sched_reach demo_boot \<and> length (g_threads (thread_yield demo_boot)) = THREAD_MAX"
proof -
  have r: "sched_reach demo_boot" unfolding demo_boot_def by (rule sr_init)
  have "sched_reach (thread_yield demo_boot)" by (rule sr_step [OF r st_yield])
  from sched_table_invariant [OF this] r show ?thesis by blast
qed

end
