(* ===== verification/Process.thy ===== *)
theory Process
  imports Sched
begin

text \<open>
  Properties of single operations of the scheduler in a well-formed table: which thread
  \<open>thread_yield\<close> enters and what context it loads, the first stack frame of a new thread,
  the way of an exit code to the parent, the bound on preemption, and three defects: a sleep
  that returns at once when no other thread is ready, ticks charged twice by a sleep, and a
  pending signal that a new thread inherits from the slot's previous owner.
\<close>

section \<open>Yielding\<close>

lemma reap_dead_ready:
  assumes "sched_ok s" "j < 32" "t_state (g_threads s ! j) \<noteq> T_DEAD"
  shows "g_threads (thread_reap_dead s) ! j = g_threads s ! j"
  using reap_dead_slot [OF sched_ok_length [OF assms(1)], of j] assms(3) by (simp add: reapable_def)

lemma reap_dead_states:
  assumes "sched_ok s" "j < 32"
  shows "t_state (g_threads (thread_reap_dead s) ! j) = T_READY \<longleftrightarrow> t_state (g_threads s ! j) = T_READY"
proof -
  have "t_state (reaped t) = T_UNUSED" for t
    by (simp add: reaped_def thread_user_maps_zero_def)
  then show ?thesis
    using reap_dead_slot [OF sched_ok_length [OF assms(1)], of j] by (auto simp: reapable_def)
qed

lemma eff_prio_reap [simp]: "eff_prio (thread_reap_dead s) t = eff_prio s t"
  by (simp add: eff_prio_def)

lemma best_ready_reap:
  assumes "sched_ok s" "i < 32"
  shows "best_ready (thread_reap_dead s) i \<longleftrightarrow> best_ready s i"
proof -
  have e: "eff_prio s (g_threads (thread_reap_dead s) ! j) = eff_prio s (g_threads s ! j)"
    if "t_state (g_threads s ! j) = T_READY" "j < 32" for j
    using reap_dead_ready [OF assms(1) that(2)] that(1) by simp
  show ?thesis
    using reap_dead_states [OF assms(1)] e assms(2) by (auto simp: best_ready_def)
qed

lemma no_ready_reap:
  assumes "sched_ok s"
  shows "(\<forall>t \<in> set (g_threads (thread_reap_dead s)). t_state t \<noteq> T_READY) \<longleftrightarrow> (\<forall>t \<in> set (g_threads s). t_state t \<noteq> T_READY)"
  using reap_dead_states [OF assms] sched_ok_length [OF assms] by (simp add: all_set_conv_all_nth)

lemma thread_yield_cases:
  assumes "sched_ok s"
  obtains (stay) "\<forall>t \<in> set (g_threads s). t_state t \<noteq> T_READY" "thread_yield s = thread_reap_dead s"
  | (switch) i k where "1 \<le> k" "k \<le> 32" "i = (g_cur_idx s + k) mod 32" "best_ready s i"
      "\<forall>m. 1 \<le> m \<and> m < k \<longrightarrow> \<not> best_ready s ((g_cur_idx s + m) mod 32)"
      "thread_yield s = switch_to (g_cur_idx s) i (thread_reap_dead s)"
proof -
  let ?r = "thread_reap_dead s"
  have ok: "sched_ok ?r" by (rule thread_reap_dead_ok [OF assms])
  note c = sched_ok_cur(1,2) [OF assms] and len = sched_ok_length [OF ok]
  show thesis
  proof (cases "pick_next_ready ?r")
    case None
    then show thesis
      using pick_next_ready_None [OF len] c no_ready_reap [OF assms]
      by (intro stay) (simp_all add: thread_yield_def)
  next
    case (Some i)
    have i: "x mod 32 < 32" for x :: nat by simp
    from pick_next_ready_Some [OF len _ _ Some] c obtain k where
      "1 \<le> k" "k \<le> 32" "i = (g_cur_idx s + k) mod 32" "best_ready ?r i"
      "\<forall>m. 1 \<le> m \<and> m < k \<longrightarrow> \<not> best_ready ?r ((g_cur_idx s + m) mod 32)" by auto
    then show thesis
      using Some c best_ready_reap [OF assms] i
      by (intro switch [of k i]) (simp_all add: thread_yield_def)
  qed
qed

text \<open>
  Claim C13. \<open>thread_yield\<close> enters the ready thread of highest effective priority, the first
  one after the current slot in cyclic order when several have it, and makes it current and
  running; when no thread is ready, the current thread goes on and only dead slots are reaped.
\<close>

theorem thread_yield_policy:
  assumes "sched_ok s"
  shows "if \<exists>t \<in> set (g_threads s). t_state t = T_READY
    then \<exists>i k. 1 \<le> k \<and> k \<le> 32 \<and> i = (g_cur_idx s + k) mod 32 \<and> t_state (g_threads s ! i) = T_READY
      \<and> (\<forall>j < 32. t_state (g_threads s ! j) = T_READY \<longrightarrow> eff_prio s (g_threads s ! j) \<le> eff_prio s (g_threads s ! i))
      \<and> (\<forall>m. 1 \<le> m \<and> m < k \<longrightarrow> \<not> best_ready s ((g_cur_idx s + m) mod 32))
      \<and> g_cur (thread_yield s) = Some i \<and> t_state (g_threads (thread_yield s) ! i) = T_RUNNING
    else thread_yield s = thread_reap_dead s"
  using assms
proof (cases rule: thread_yield_cases)
  case stay
  then show ?thesis by simp
next
  case (switch i k)
  have i: "i < 32" using switch(3) by simp
  then have "g_threads s ! i \<in> set (g_threads s)" using sched_ok_length [OF assms] by simp
  moreover have "t_state (g_threads s ! i) = T_READY" using switch(4) by (simp add: best_ready_def)
  moreover have "t_state (g_threads (thread_yield s) ! i) = T_RUNNING"
    using switch_to_self_threads [of i "thread_reap_dead s"] switch_to_threads [of "g_cur_idx s" "thread_reap_dead s" i]
      i sched_ok_cur(2) [OF assms] sched_ok_length [OF assms] switch(6)
    by (cases "g_cur_idx s = i") (simp_all add: entered_fields)
  ultimately show ?thesis
    using switch by (auto simp: best_ready_def simp del: One_nat_def)
qed

lemma demo_boot_ok: "sched_ok demo_boot"
  unfolding demo_boot_def by (rule thread_init_ok)

definition demo_two :: sched where
  "demo_two = snd (thread_create 0x20000 0x777 None 0x1234 5 demo_boot)"

lemma demo_boot_slots:
  "t_state (g_threads demo_boot ! 0) = T_RUNNING"
  "\<And>i. 1 \<le> i \<Longrightarrow> i < 32 \<Longrightarrow> g_threads demo_boot ! i = thread_init_slot zero_thread"
  "g_cur demo_boot = Some 0" "g_cur_idx demo_boot = 0" "g_next_tid demo_boot = 2" "ticks demo_boot = 7"
  by (simp_all add: demo_boot_def thread_init_def boot_sched_def upd_thread_def Let_def)

lemma demo_boot_tid: "t_tid (g_threads demo_boot ! 0) = 1" "t_last_start_tick (g_threads demo_boot ! 0) = 7"
    "t_cpu_ticks (g_threads demo_boot ! 0) = 0"
  by (simp_all add: demo_boot_def thread_init_def boot_sched_def upd_thread_def Let_def)

lemma demo_boot_find: "find_free_slot (thread_reap_dead demo_boot) = Some 1"
proof -
  let ?ts = "g_threads (thread_reap_dead demo_boot)"
  have len: "length ?ts = 32" using sched_ok_length [OF demo_boot_ok] by simp
  have "?ts ! 1 = thread_init_slot zero_thread"
    using reap_dead_ready [OF demo_boot_ok, of 1] demo_boot_slots(2) [of 1] by (simp add: init_slot_fields)
  then have "t_state (tl ?ts ! 0) = T_UNUSED" using len by (simp add: nth_tl init_slot_fields)
  then have "first_idx (\<lambda>t. t_state t = T_UNUSED \<or> t_state t = T_DEAD) (tl ?ts) = Some 0"
    using len by (simp add: first_idx_Some)
  then show ?thesis by (simp add: find_free_slot_def)
qed

lemma demo_two_created: "fst (thread_create 0x20000 0x777 None 0x1234 5 demo_boot) = Some 1"
  by (simp add: thread_create_def Let_def demo_boot_find)

lemma demo_two_ok: "sched_ok demo_two"
  unfolding demo_two_def by (rule thread_create_ok [OF demo_boot_ok]) (simp add: demo_boot_slots)

lemma demo_two_slot:
  "g_threads demo_two ! 1 = fresh_thread 0x20000 None 0x1234 5 2 (g_threads (thread_reap_dead demo_boot) ! 1)"
  "g_cur_idx demo_two = 0" "g_threads demo_two ! 0 = g_threads demo_boot ! 0" "ticks demo_two = 7"
proof -
  obtain m where s': "demo_two = upd_thread 1 (fresh_thread 0x20000 None 0x1234 5 (g_next_tid demo_boot))
       ((thread_reap_dead demo_boot)\<lparr>kmem := m, g_next_tid := g_next_tid demo_boot + 1\<rparr>)"
    using thread_create_Some [of "0x20000" "0x777" None "0x1234" 5 demo_boot 1 demo_two] demo_two_created
    by (metis demo_two_def prod.collapse)
  have len: "length (g_threads (thread_reap_dead demo_boot)) = 32" using sched_ok_length [OF demo_boot_ok] by simp
  show "g_threads demo_two ! 1 = fresh_thread 0x20000 None 0x1234 5 2 (g_threads (thread_reap_dead demo_boot) ! 1)"
    "g_cur_idx demo_two = 0" "ticks demo_two = 7"
    using len by (simp_all add: s' upd_thread_def demo_boot_slots)
  show "g_threads demo_two ! 0 = g_threads demo_boot ! 0"
    using len reap_dead_ready [OF demo_boot_ok, of 0] by (simp add: s' upd_thread_def demo_boot_slots)
qed

lemma demo_two_ready: "\<exists>t \<in> set (g_threads demo_two). t_state t = T_READY"
proof -
  have "g_threads demo_two ! 1 \<in> set (g_threads demo_two)" using sched_ok_length [OF demo_two_ok] by simp
  then show ?thesis by (rule bexI [rotated]) (use demo_two_slot(1) in \<open>simp add: fresh_thread_fields\<close>)
qed

theorem thread_yield_policy_witness:
  "\<exists>i. g_cur (thread_yield demo_two) = Some i \<and> t_state (g_threads demo_two ! i) = T_READY"
  using thread_yield_policy [OF demo_two_ok] demo_two_ready by auto

lemma switch_to_context:
  assumes "p < length (g_threads s)" "n < length (g_threads s)" "p \<noteq> n"
  shows "cpu_rsp (switch_to p n s) = t_rsp (g_threads s ! n)"
    "cpu_cr3 (switch_to p n s) = (if t_cr3 (g_threads s ! n) \<noteq> 0 then t_cr3 (g_threads s ! n) else kernel_cr3 s)"
    "t_kstack_top (g_threads s ! n) \<noteq> 0 \<Longrightarrow> tss_rsp0 (switch_to p n s) = t_kstack_top (g_threads s ! n)"
  using assms by (simp_all add: switch_to_def ctx_switch_def load_context_def upd_thread_def Let_def)

text \<open>
  Claim C15. When \<open>thread_yield\<close> enters another thread, the stack pointer, page-table root and
  trap stack become those saved for that thread, the stack pointer of the thread left is
  saved in its slot, the time slice is refilled, and no other live slot changes.
\<close>

theorem thread_yield_context:
  assumes "sched_ok s" "g_cur (thread_yield s) = Some i" "i \<noteq> g_cur_idx s"
  shows "cpu_rsp (thread_yield s) = t_rsp (g_threads s ! i)
    \<and> cpu_cr3 (thread_yield s) = (if t_cr3 (g_threads s ! i) \<noteq> 0 then t_cr3 (g_threads s ! i) else kernel_cr3 s)
    \<and> (t_kstack_top (g_threads s ! i) \<noteq> 0 \<longrightarrow> tss_rsp0 (thread_yield s) = t_kstack_top (g_threads s ! i))
    \<and> t_rsp (g_threads (thread_yield s) ! g_cur_idx s) = cpu_rsp s
    \<and> g_slice_left (thread_yield s) = g_timeslice_ticks s
    \<and> (\<forall>j < 32. j \<noteq> i \<longrightarrow> j \<noteq> g_cur_idx s \<longrightarrow> t_state (g_threads s ! j) \<noteq> T_DEAD \<longrightarrow>
         g_threads (thread_yield s) ! j = g_threads s ! j)"
  using assms(1)
proof (cases rule: thread_yield_cases)
  case stay
  then show ?thesis using assms(2,3) sched_ok_cur(1) [OF assms(1)] by simp
next
  case (switch n k)
  let ?r = "thread_reap_dead s" and ?p = "g_cur_idx s"
  have n: "n = i" using switch(6) assms(2) by simp
  have i: "i < 32" using switch(3) n by simp
  have len: "length (g_threads ?r) = 32" and p: "?p < 32"
    using sched_ok_length [OF assms(1)] sched_ok_cur(2) [OF assms(1)] by simp_all
  have same: "g_threads ?r ! i = g_threads s ! i"
    using reap_dead_ready [OF assms(1) i] switch(4) n by (simp add: best_ready_def)
  note T = switch_to_threads [of ?p ?r i] switch_to_context [of ?p ?r i]
  have other: "g_threads (thread_yield s) ! j = g_threads s ! j"
    if "j < 32" "j \<noteq> i" "j \<noteq> ?p" "t_state (g_threads s ! j) \<noteq> T_DEAD" for j
    using T(1) switch(6) n i p len assms(3) that reap_dead_ready [OF assms(1) that(1,4)] by simp
  have save: "t_rsp (g_threads (thread_yield s) ! ?p) = cpu_rsp s"
    using T(1) switch(6) n i p len assms(3) by (simp add: left_def)
  show ?thesis
    using T(2-4) switch(6) n i p len assms(3) same other save by simp
qed

lemma demo_two_next: "g_cur (thread_yield demo_two) = Some 1" "g_cur_idx (thread_yield demo_two) = 1"
    "thread_yield demo_two = switch_to 0 1 (thread_reap_dead demo_two)"
proof -
  obtain i where i: "thread_yield demo_two = switch_to 0 i (thread_reap_dead demo_two)" "i < 32"
      "t_state (g_threads demo_two ! i) = T_READY"
    using demo_two_ready
    by (cases rule: thread_yield_cases [OF demo_two_ok]) (auto simp: best_ready_def demo_two_slot(2))
  obtain m where s': "demo_two = upd_thread 1 (fresh_thread 0x20000 None 0x1234 5 (g_next_tid demo_boot))
       ((thread_reap_dead demo_boot)\<lparr>kmem := m, g_next_tid := g_next_tid demo_boot + 1\<rparr>)"
    using thread_create_Some [of "0x20000" "0x777" None "0x1234" 5 demo_boot 1 demo_two] demo_two_created
    by (metis demo_two_def prod.collapse)
  have "i = 1"
  proof (rule ccontr)
    assume "i \<noteq> 1"
    then have "g_threads demo_two ! i = g_threads (thread_reap_dead demo_boot) ! i"
      by (simp add: s' upd_thread_def)
    with i have "t_state (g_threads demo_boot ! i) = T_READY"
      using reap_dead_states [OF demo_boot_ok i(2)] by simp
    then show False
      using demo_boot_slots(1) demo_boot_slots(2) [of i] i(2) by (cases "i = 0") (simp_all add: init_slot_fields)
  qed
  with i(1) show "g_cur (thread_yield demo_two) = Some 1" "g_cur_idx (thread_yield demo_two) = 1"
    "thread_yield demo_two = switch_to 0 1 (thread_reap_dead demo_two)" by simp_all
qed

theorem thread_yield_context_witness:
  "g_cur (thread_yield demo_two) = Some 1 \<and> cpu_rsp (thread_yield demo_two) = 0x23FC8"
proof -
  have "t_rsp (g_threads demo_two ! 1) = 0x23FC8"
    unfolding demo_two_slot(1) fresh_thread_fields by (simp add: THREAD_STACK_SIZE_def)
  then show ?thesis
    using thread_yield_context [OF demo_two_ok demo_two_next(1)] demo_two_next(1) demo_two_slot(2) by simp
qed

section \<open>The first frame of a new thread\<close>

lemma apart_minus: "apart (t - a) (t - b) \<longleftrightarrow> 8 \<le> unat (b - a) \<and> 8 \<le> unat (a - b)"
  by (auto simp: apart_def algebra_simps)

text \<open>
  A new thread starts ready, with a frame on its own stack that matches the pops of
  \<open>ctx_switch\<close>: six zero registers below the address of the trampoline, to which the first
  switch returns. The frame lies at the top of the stack, inside it; the slot was free; no
  other live slot changes; without an entry point, a slot or a stack nothing is created.
\<close>

theorem thread_create_frame:
  assumes "sched_ok s" "thread_create stack tramp name entry arg s = (Some i, s')" "stack AND 0xF = 0"
  shows "let t = g_threads s' ! i in
      1 \<le> i \<and> i < 32 \<and> t_state (g_threads s ! i) \<in> {T_UNUSED, T_DEAD}
    \<and> t_state t = T_READY \<and> t_tid t = g_next_tid s \<and> t_entry t = entry \<and> t_arg t = arg
    \<and> t_rsp t + 56 = stack + THREAD_STACK_SIZE \<and> t_kstack_top t = stack + THREAD_STACK_SIZE
    \<and> load64 (kmem s') (t_rsp t + 48) = tramp
    \<and> (\<forall>k \<in> {0, 8, 16, 24, 32, 40}. load64 (kmem s') (t_rsp t + k) = 0)
    \<and> (\<forall>j < 32. j \<noteq> i \<longrightarrow> t_state (g_threads s ! j) \<noteq> T_DEAD \<longrightarrow> g_threads s' ! j = g_threads s ! j)"
proof -
  let ?r = "thread_reap_dead s" and ?top = "stack + THREAD_STACK_SIZE"
  obtain m where f: "find_free_slot ?r = Some i" and nz: "entry \<noteq> 0" "stack \<noteq> 0"
    and s': "s' = upd_thread i (fresh_thread stack name entry arg (g_next_tid s)) (?r\<lparr>kmem := m, g_next_tid := g_next_tid s + 1\<rparr>)"
    by (rule thread_create_Some [OF assms(2)])
  have len: "length (g_threads ?r) = 32" using sched_ok_length [OF assms(1)] by simp
  note F = find_free_slot_Some [OF len f]
  have "t_state (reaped t) = T_UNUSED" for t by (simp add: reaped_def thread_user_maps_zero_def)
  then have st: "t_state (g_threads s ! i) \<in> {T_UNUSED, T_DEAD}"
    using F reap_dead_slot [OF sched_ok_length [OF assms(1)], of i] by (auto simp: reapable_def split: if_splits)
  have top: "?top AND NOT 0xF = ?top"
    by (rule aligned16_add [OF assms(3)]) (simp add: THREAD_STACK_SIZE_def)
  define t where "t = g_threads s' ! i"
  have t: "t = fresh_thread stack name entry arg (g_next_tid s) (g_threads ?r ! i)"
    using F(2) len by (simp add: t_def s' upd_thread_def)
  have rsp: "t_rsp t = ?top - 56" unfolding t fresh_thread_fields top ..
  have km: "kmem s' = store64 (store64 (store64 (store64 (store64 (store64 (store64 (kmem s)
      (?top - 8) tramp) (?top - 16) 0) (?top - 24) 0) (?top - 32) 0) (?top - 40) 0) (?top - 48) 0) (?top - 56) 0"
    using assms(2) f nz top by (auto simp: thread_create_def Let_def upd_thread_def)
  have addr: "t_rsp t + 48 = ?top - 8" "t_rsp t + 0 = ?top - 56" "t_rsp t + 8 = ?top - 48" "t_rsp t + 16 = ?top - 40"
    "t_rsp t + 24 = ?top - 32" "t_rsp t + 32 = ?top - 24" "t_rsp t + 40 = ?top - 16"
    by (simp_all add: rsp)
  have tr: "load64 (kmem s') (t_rsp t + 48) = tramp"
    unfolding addr km by (simp add: load64_store64_apart apart_minus)
  have "load64 (kmem s') (t_rsp t + 0) = 0" "load64 (kmem s') (t_rsp t + 8) = 0" "load64 (kmem s') (t_rsp t + 16) = 0"
    "load64 (kmem s') (t_rsp t + 24) = 0" "load64 (kmem s') (t_rsp t + 32) = 0" "load64 (kmem s') (t_rsp t + 40) = 0"
    unfolding addr km by (simp_all add: load64_store64_apart apart_minus)
  then have zero: "\<forall>k \<in> {0, 8, 16, 24, 32, 40}. load64 (kmem s') (t_rsp t + k) = 0" by blast
  have other: "\<forall>j < 32. j \<noteq> i \<longrightarrow> t_state (g_threads s ! j) \<noteq> T_DEAD \<longrightarrow> g_threads s' ! j = g_threads s ! j"
    using reap_dead_ready [OF assms(1)] by (simp add: s' upd_thread_def)
  have plain: "t_state t = T_READY" "t_tid t = g_next_tid s" "t_entry t = entry" "t_arg t = arg"
    "t_kstack_top t = ?top"
    by (simp_all add: t fresh_thread_fields)
  have "t_rsp t + 56 = ?top" by (simp add: rsp)
  note plain = plain this
  show ?thesis
    unfolding Let_def t_def [symmetric] using F(1,2) st plain tr zero other by blast
qed

theorem thread_create_frame_witness:
  "let t = g_threads demo_two ! 1 in t_rsp t + 56 = 0x24000 \<and> load64 (kmem demo_two) (t_rsp t + 48) = 0x777"
proof -
  have c: "thread_create 0x20000 0x777 None 0x1234 5 demo_boot = (Some 1, demo_two)"
    using demo_two_created by (simp add: demo_two_def prod_eq_iff)
  show ?thesis
    using thread_create_frame [OF demo_boot_ok c] by (auto simp: Let_def THREAD_STACK_SIZE_def)
qed

section \<open>Exit and collection\<close>

lemma parent_alive_nth:
  "parent_alive s p \<longleftrightarrow> (\<exists>i < length (g_threads s). t_tid (g_threads s ! i) = p
     \<and> t_state (g_threads s ! i) \<notin> {T_UNUSED, T_DEAD, T_ZOMBIE})"
  unfolding parent_alive_def set_conv_nth by auto

lemma cleanup_slot_nth:
  "i < length (g_threads s) \<Longrightarrow> g_threads (cleanup_slot i s) ! j =
     (if j = i then fst (thread_user_cleanup (g_threads s ! i)) else g_threads s ! j)"
  by (simp add: cleanup_slot_def Let_def case_prod_beta upd_thread_def)

definition released :: "sched \<Rightarrow> thread \<Rightarrow> thread" where
  "released s t = (if t_cr3 t \<noteq> 0 then thread_user_maps_zero ((charge (ticks s) t)\<lparr>t_cr3 := 0\<rparr>)
                   else fst (thread_user_cleanup (charge (ticks s) t)))"

lemma released_fields: "t_state (released s t) = t_state t" "t_tid (released s t) = t_tid t"
    "t_parent_tid (released s t) = t_parent_tid t" "t_exit_code (released s t) = t_exit_code t"
  by (simp_all add: released_def thread_user_maps_zero_def thread_user_cleanup_def)

definition exit_state :: "sched \<Rightarrow> thread \<Rightarrow> thread_state" where
  "exit_state s t = (if t_parent_tid t \<noteq> 0 \<and> parent_alive s (t_parent_tid t) then T_ZOMBIE else T_DEAD)"

lemma thread_exit_mark_threads:
  assumes "sched_ok s"
  shows "g_threads (thread_exit_mark s) = (g_threads s)[g_cur_idx s :=
    (released s (g_threads s ! g_cur_idx s))\<lparr>t_state := exit_state s (g_threads s ! g_cur_idx s)\<rparr>]"
proof -
  let ?c = "g_cur_idx s" and ?t = "g_threads s ! g_cur_idx s"
  let ?s1 = "upd_thread ?c (charge (ticks s)) s"
  let ?s2 = "if t_cr3 ?t \<noteq> 0 then (upd_thread ?c (\<lambda>t. thread_user_maps_zero (t\<lparr>t_cr3 := 0\<rparr>)) ?s1)
       \<lparr>cpu_cr3 := kernel_cr3 ?s1, vmm_calls := vmm_calls ?s1 @ [Destroy_pagemap (t_cr3 ?t)]\<rparr> else cleanup_slot ?c ?s1"
  have c: "g_cur s = Some ?c" "?c < length (g_threads s)"
    using sched_ok_cur [OF assms] sched_ok_length [OF assms] by simp_all
  have t1: "g_threads ?s1 ! ?c = charge (ticks s) ?t" using c by (simp add: upd_thread_def)
  have t2: "g_threads ?s2 = (g_threads s)[?c := released s ?t]"
    using c by (simp add: upd_thread_def cleanup_slot_def Let_def case_prod_beta released_def)
  have "parent_alive ?s2 p \<longleftrightarrow> parent_alive s p" for p
    unfolding parent_alive_nth t2 using c(2) by (simp add: nth_list_update released_fields) (metis released_fields(1,2))
  then show ?thesis
    unfolding thread_exit_mark_def c(1) option.case Let_def t1 charge_keeps
    using c(2) by (simp add: upd_thread_def [of _ _ ?s2] t2 exit_state_def)
qed

lemma thread_exit_slot:
  assumes "sched_ok s" "exit_state s (g_threads s ! g_cur_idx s) = T_ZOMBIE"
  defines "t \<equiv> g_threads s ! g_cur_idx s" and "t' \<equiv> g_threads (thread_exit s) ! g_cur_idx s"
  shows "t_state t' = T_ZOMBIE" "t_tid t' = t_tid t" "t_parent_tid t' = t_parent_tid t" "t_exit_code t' = t_exit_code t"
proof -
  let ?m = "thread_exit_mark s" and ?c = "g_cur_idx s"
  have ok: "sched_ok ?m" by (rule same_frame_ok [OF same_frame_exit_mark [OF assms(1)] assms(1)])
  have c: "g_cur_idx ?m = ?c" "?c < 32" "length (g_threads s) = 32"
    using same_frame_exit_mark [OF assms(1)] sched_ok_cur(2) [OF assms(1)] sched_ok_length [OF assms(1)]
    by (simp_all add: same_frame_def)
  have m: "g_threads ?m ! ?c = (released s t)\<lparr>t_state := T_ZOMBIE\<rparr>"
    using thread_exit_mark_threads [OF assms(1)] assms(2) c by (simp add: t_def)
  have keep: "g_threads (thread_reap_dead ?m) ! ?c = g_threads ?m ! ?c"
    using reap_dead_ready [OF ok, of ?c] c m by simp
  have "t_state t' = T_ZOMBIE \<and> t_tid t' = t_tid t \<and> t_parent_tid t' = t_parent_tid t \<and> t_exit_code t' = t_exit_code t"
    using ok
  proof (cases rule: thread_yield_cases)
    case stay
    then show ?thesis using keep m by (simp add: t'_def thread_exit_def released_fields)
  next
    case (switch i k)
    have "i \<noteq> ?c" using switch(4) m by (auto simp: best_ready_def)
    moreover have "i < 32" using switch(3) by simp
    ultimately have "t' = left (thread_reap_dead ?m) ((released s t)\<lparr>t_state := T_ZOMBIE\<rparr>)"
      using switch(6) switch_to_threads [of ?c "thread_reap_dead ?m" i] c keep m sched_ok_length [OF ok]
      by (simp add: t'_def thread_exit_def)
    then show ?thesis by (simp add: left_def released_fields)
  qed
  then show "t_state t' = T_ZOMBIE" "t_tid t' = t_tid t" "t_parent_tid t' = t_parent_tid t" "t_exit_code t' = t_exit_code t"
    by simp_all
qed

lemma matches_child_unique:
  assumes "sched_ok s" "i < 32" "j < 32" "t_tid (g_threads s ! i) \<noteq> 0"
    and "matches_child p (t_tid (g_threads s ! i)) (g_threads s ! j)"
  shows "j = i"
proof -
  have "t_tid (g_threads s ! i) < g_next_tid s" using assms(1,2) by (simp add: sched_ok_def table_ok_def)
  then have "t_tid (g_threads s ! i) \<noteq> - 1" by auto
  with assms show ?thesis by (simp add: matches_child_def sched_ok_def table_ok_def)
qed

text \<open>
  Claim C16. A thread that exits while its parent lives becomes a zombie that keeps its exit
  code; the parent's wait for it returns exactly its identifier and that code, once. The next
  wait finds no zombie: it reports a running child until the slot is reaped, and no child
  afterwards.
\<close>

theorem exit_code_reaches_parent:
  assumes "sched_ok s" "t_parent_tid (g_threads s ! g_cur_idx s) = par" "par \<noteq> 0" "parent_alive s par"
  shows "let c = g_cur_idx s; tid = t_tid (g_threads s ! c); s1 = thread_exit s;
      s2 = upd_thread c (\<lambda>t. t\<lparr>t_state := T_DEAD\<rparr>) s1 in
    thread_reap_zombie_child par tid s1 = (Reaped tid (t_exit_code (g_threads s ! c)), s2)
    \<and> thread_reap_zombie_child par tid s2 = (Still_running, s2)
    \<and> (c \<noteq> 0 \<and> g_cur s2 \<noteq> Some c \<longrightarrow> fst (thread_reap_zombie_child par tid (thread_reap_dead s2)) = No_child)"
proof -
  let ?c = "g_cur_idx s" and ?s1 = "thread_exit s"
  let ?tid = "t_tid (g_threads s ! ?c)" and ?s2 = "upd_thread ?c (\<lambda>t. t\<lparr>t_state := T_DEAD\<rparr>) ?s1"
  have z: "exit_state s (g_threads s ! ?c) = T_ZOMBIE" using assms(2-4) by (simp add: exit_state_def)
  note E = thread_exit_slot [OF assms(1) z]
  have ok1: "sched_ok ?s1" by (rule thread_exit_ok [OF assms(1)])
  have c: "?c < 32" "?tid \<noteq> 0" using sched_ok_cur [OF assms(1)] by simp_all
  have len: "length (g_threads ?s1) = 32" by (rule sched_ok_length [OF ok1])
  have u1: "j = ?c" if "j < 32" "matches_child par ?tid (g_threads ?s1 ! j)" for j
    using matches_child_unique [OF ok1 c(1) that(1)] that(2) E(2) c(2) by simp
  have f: "first_idx (\<lambda>t. matches_child par ?tid t \<and> t_state t = T_ZOMBIE) (g_threads ?s1) = Some ?c"
    using E c len u1 assms(2) by (intro first_idx_unique) (auto simp: matches_child_def)
  have first: "thread_reap_zombie_child par ?tid ?s1 = (Reaped ?tid (t_exit_code (g_threads s ! ?c)), ?s2)"
    by (simp add: thread_reap_zombie_child_def f E)
  have s2: "g_threads ?s2 ! j = (if j = ?c then (g_threads ?s1 ! ?c)\<lparr>t_state := T_DEAD\<rparr> else g_threads ?s1 ! j)" for j
    using c len by (simp add: upd_thread_def)
  have m2: "matches_child par ?tid (g_threads ?s2 ! j) \<longleftrightarrow> j = ?c" if "j < 32" for j
    using u1 [OF that] E assms(2) by (auto simp: s2 matches_child_def)
  have none: "first_idx (\<lambda>t. matches_child par ?tid t \<and> t_state t = T_ZOMBIE) (g_threads ?s2) = None"
    using m2 len by (auto simp: first_idx_None all_set_conv_all_nth s2)
  moreover have "\<exists>t \<in> set (g_threads ?s2). matches_child par ?tid t \<and> t_state t \<noteq> T_UNUSED"
    by (rule bexI [OF _ nth_mem [of ?c]]) (use m2 [of ?c] c len in \<open>simp_all add: s2\<close>)
  ultimately have second: "thread_reap_zombie_child par ?tid ?s2 = (Still_running, ?s2)"
    by (simp add: thread_reap_zombie_child_def)
  have third: "fst (thread_reap_zombie_child par ?tid (thread_reap_dead ?s2)) = No_child"
    if "?c \<noteq> 0" "g_cur ?s2 \<noteq> Some ?c"
  proof -
    have r: "g_threads (thread_reap_dead ?s2) ! ?c = reaped (g_threads ?s2 ! ?c)"
      using reap_dead_slot [of ?s2 ?c] that c len s2 by (simp add: reapable_def)
    have "\<not> matches_child par ?tid (g_threads (thread_reap_dead ?s2) ! j)" if j: "j < 32" for j
    proof (cases "j = ?c")
      case True
      then show ?thesis using assms(3) by (simp add: r matches_child_def reaped_def thread_user_maps_zero_def)
    next
      case False
      have "t_parent_tid (reaped t) = 0" for t by (simp add: reaped_def thread_user_maps_zero_def)
      with False m2 [OF j] assms(3) reap_dead_slot [of ?s2 j] len show ?thesis
        by (auto simp: matches_child_def)
    qed
    then show ?thesis
      using len by (auto simp: thread_reap_zombie_child_def first_idx_Some in_set_conv_nth split: option.splits)
  qed
  show ?thesis unfolding Let_def using first second third by blast
qed

text \<open>A child of the boot thread that is current and has set its exit status to 9.\<close>

definition demo_child :: sched where
  "demo_child = thread_set_exit_code 9 (thread_set_parent_for_slot 1 1 (thread_yield demo_two))"

lemma demo_child_facts: "sched_ok demo_child" "g_cur_idx demo_child = 1"
    "t_parent_tid (g_threads demo_child ! 1) = 1" "t_exit_code (g_threads demo_child ! 1) = 9"
    "parent_alive demo_child 1"
proof -
  let ?y = "thread_yield demo_two"
  have y: "sched_ok ?y" by (rule thread_yield_ok [OF demo_two_ok])
  have c: "g_cur (thread_set_parent_for_slot 1 1 ?y) = Some 1"
    using demo_two_next(1) by (simp add: thread_set_parent_for_slot_def bad_slot_def THREAD_MAX_def)
  have d: "demo_child = upd_thread 1 (\<lambda>t. t\<lparr>t_exit_code := 9\<rparr>) (upd_thread 1 (\<lambda>t. t\<lparr>t_parent_tid := 1\<rparr>) ?y)"
    unfolding demo_child_def thread_set_exit_code_def upd_cur_def c
    by (simp add: thread_set_parent_for_slot_def bad_slot_def THREAD_MAX_def)
  show "sched_ok demo_child"
    unfolding demo_child_def by (intro same_frame_ok [OF same_frame_setters(6)] same_frame_ok [OF same_frame_setters(7)] y)
  have len: "length (g_threads ?y) = 32" "length (g_threads (thread_reap_dead demo_two)) = 32"
    using sched_ok_length [OF y] sched_ok_length [OF demo_two_ok] by simp_all
  show "g_cur_idx demo_child = 1" "t_parent_tid (g_threads demo_child ! 1) = 1" "t_exit_code (g_threads demo_child ! 1) = 9"
    using len by (simp_all add: d upd_thread_def demo_two_next(2))
  have z: "g_threads (thread_reap_dead demo_two) ! 0 = g_threads demo_boot ! 0"
    using reap_dead_ready [OF demo_two_ok, of 0] demo_two_slot(3) demo_boot_slots(1) by simp
  have "g_threads demo_child ! 0 = g_threads ?y ! 0"
    by (simp add: d upd_thread_def)
  also have "\<dots> = left (thread_reap_dead demo_two) (g_threads demo_boot ! 0)"
    unfolding demo_two_next(3)
    by (subst switch_to_threads) (use len(2) z in \<open>simp_all del: reap_dead_keeps\<close>)
  finally have "t_state (g_threads demo_child ! 0) = T_READY" "t_tid (g_threads demo_child ! 0) = 1"
    using demo_boot_slots(1) demo_boot_tid by (simp_all add: left_def)
  then show "parent_alive demo_child 1"
    unfolding parent_alive_nth using len by (intro exI [of _ 0]) (simp add: d)
qed

theorem exit_code_reaches_parent_witness:
  "fst (thread_reap_zombie_child 1 (t_tid (g_threads demo_child ! 1)) (thread_exit demo_child))
     = Reaped (t_tid (g_threads demo_child ! 1)) 9"
  using exit_code_reaches_parent [OF demo_child_facts(1), of 1] demo_child_facts(2-5) by (simp add: Let_def)

section \<open>Preemption\<close>

lemma request_resched_facts: "g_preempt_enabled (thread_request_resched s) = g_preempt_enabled s"
    "g_need_resched s \<Longrightarrow> g_need_resched (thread_request_resched s)"
    "1 < g_slice_left s \<Longrightarrow> g_slice_left (thread_request_resched s) = g_slice_left s - 1"
    "g_slice_left s \<le> 1 \<Longrightarrow> g_preempt_enabled s \<Longrightarrow> g_need_resched (thread_request_resched s)"
  by (simp_all add: thread_request_resched_def Let_def)

lemma preempt_countdown:
  assumes "g_preempt_enabled s" "g_slice_left s \<le> int (Suc n)"
  shows "g_need_resched ((thread_request_resched ^^ Suc n) s)"
  using assms
proof (induction n arbitrary: s)
  case 0
  then show ?case by (simp add: request_resched_facts)
next
  case (Suc n)
  have step: "(thread_request_resched ^^ Suc (Suc n)) s = (thread_request_resched ^^ Suc n) (thread_request_resched s)"
    by (simp only: funpow_Suc_right o_apply)
  show ?case
  proof (cases "g_slice_left s \<le> 1")
    case True
    have "g_need_resched ((thread_request_resched ^^ m) t)" if "g_need_resched t" for m t
      using that by (induction m) (simp_all add: request_resched_facts)
    with True Suc.prems show ?thesis unfolding step by (simp add: request_resched_facts)
  next
    case False
    with Suc.prems have "g_slice_left (thread_request_resched s) \<le> int (Suc n)"
      by (simp add: request_resched_facts)
    with Suc.IH [of "thread_request_resched s"] Suc.prems show ?thesis
      unfolding step by (simp add: request_resched_facts)
  qed
qed

text \<open>
  Claim C23. With preemption enabled the running thread cannot keep the processor: after at
  most 50 timer ticks a reschedule is pending, and the next check yields.
\<close>

theorem preemption_bounded:
  assumes "sched_ok s" "g_preempt_enabled s"
  shows "\<exists>n \<le> 50. n \<le> nat (g_timeslice_ticks s) \<and> g_need_resched ((thread_request_resched ^^ n) s)
    \<and> thread_check_resched ((thread_request_resched ^^ n) s) =
       thread_yield ((snd (thread_wake_ready (thread_reap_dead ((thread_request_resched ^^ n) s))))\<lparr>g_need_resched := False\<rparr>)"
proof -
  have b: "1 \<le> g_timeslice_ticks s" "g_timeslice_ticks s \<le> 50" "g_slice_left s \<le> g_timeslice_ticks s"
    using assms(1) by (simp_all add: sched_ok_def)
  obtain m where m: "nat (g_timeslice_ticks s) = Suc m"
    using b(1) by (cases "nat (g_timeslice_ticks s)") auto
  let ?s = "(thread_request_resched ^^ Suc m) s"
  have "g_slice_left s \<le> int (Suc m)" using b m by linarith
  from preempt_countdown [OF assms(2) this] have n: "g_need_resched ?s" .
  then have w: "g_need_resched (snd (thread_wake_ready (thread_reap_dead ?s)))"
    by (simp add: thread_wake_ready_def Let_def)
  have "thread_check_resched ?s = thread_yield ((snd (thread_wake_ready (thread_reap_dead ?s)))\<lparr>g_need_resched := False\<rparr>)"
    using w by (simp add: thread_check_resched_def Let_def case_prod_beta)
  with n b(2) m show ?thesis by (intro exI [of _ "Suc m"]) simp
qed

theorem preemption_bounded_witness:
  "\<exists>n \<le> 50. g_need_resched ((thread_request_resched ^^ n) demo_boot)"
proof -
  have "g_preempt_enabled demo_boot"
    by (simp add: demo_boot_def thread_init_def boot_sched_def Let_def)
  from preemption_bounded [OF demo_boot_ok this] show ?thesis by blast
qed

section \<open>Defects\<close>

definition asleep :: "u64 \<Rightarrow> sched \<Rightarrow> sched" where
  "asleep ms s = (upd_thread (g_cur_idx s) (\<lambda>t. (charge (ticks s) t)\<lparr>
      t_wake_tick := ticks s + (if (ms + 9) div 10 = 0 then 1 else (ms + 9) div 10), t_state := T_SLEEPING\<rparr>) s)
      \<lparr>g_need_resched := True\<rparr>"

lemma thread_sleep_ms_asleep: "sched_ok s \<Longrightarrow> thread_sleep_ms ms s = thread_yield (asleep ms s)"
  using sched_ok_cur(1) [of s] by (simp add: thread_sleep_ms_def asleep_def upd_cur_def Let_def)

lemma asleep_ok:
  assumes "sched_ok s"
  shows "sched_ok (asleep ms s)"
  unfolding asleep_def
proof (rule same_frame_ok [OF _ assms])
  show "same_frame s (upd_thread (g_cur_idx s) (\<lambda>t. (charge (ticks s) t)\<lparr>
      t_wake_tick := ticks s + (if (ms + 9) div 10 = 0 then 1 else (ms + 9) div 10), t_state := T_SLEEPING\<rparr>) s
      \<lparr>g_need_resched := True\<rparr>)"
    unfolding same_frame_fields using sched_ok_cur(3) [OF assms]
    by (intro upd_thread_evolves live_state_evolves) simp_all
qed

lemma asleep_slots:
  assumes "sched_ok s"
  shows "t_state (g_threads (asleep ms s) ! g_cur_idx s) = T_SLEEPING"
    "t_cpu_ticks (g_threads (asleep ms s) ! g_cur_idx s) = t_cpu_ticks (charge (ticks s) (g_threads s ! g_cur_idx s))"
    "t_last_start_tick (g_threads (asleep ms s) ! g_cur_idx s) = t_last_start_tick (g_threads s ! g_cur_idx s)"
    "j \<noteq> g_cur_idx s \<Longrightarrow> g_threads (asleep ms s) ! j = g_threads s ! j"
    "length (g_threads (asleep ms s)) = 32" "g_cur_idx (asleep ms s) = g_cur_idx s" "ticks (asleep ms s) = ticks s"
  using sched_ok_cur(2) [OF assms] sched_ok_length [OF assms] by (simp_all add: asleep_def upd_thread_def)

text \<open>
  A thread that sleeps while no other thread is ready does not sleep: the call
  returns at once, with no tick passed, the caller still current, and its slot marked
  sleeping while it runs.
\<close>

theorem thread_sleep_returns_at_once:
  assumes "sched_ok s" "\<forall>i < 32. i \<noteq> g_cur_idx s \<longrightarrow> t_state (g_threads s ! i) \<noteq> T_READY"
  shows "g_cur (thread_sleep_ms ms s) = g_cur s \<and> ticks (thread_sleep_ms ms s) = ticks s
    \<and> t_state (g_threads (thread_sleep_ms ms s) ! g_cur_idx s) = T_SLEEPING"
proof -
  let ?a = "asleep ms s"
  note A = asleep_slots [OF assms(1), where ms = ms]
  have ok: "sched_ok ?a" by (rule asleep_ok [OF assms(1)])
  have "t_state (g_threads ?a ! i) \<noteq> T_READY" if "i < 32" for i
    using A(1,4) assms(2) that by (cases "i = g_cur_idx s") simp_all
  then have none: "\<forall>t \<in> set (g_threads ?a). t_state t \<noteq> T_READY"
    using A(5) by (simp add: all_set_conv_all_nth)
  have "thread_yield ?a = thread_reap_dead ?a"
    using ok
  proof (cases rule: thread_yield_cases)
    case (switch i k)
    then have "i < 32" "t_state (g_threads ?a ! i) = T_READY" by (simp_all add: best_ready_def)
    with none A(5) show ?thesis by (metis nth_mem)
  qed
  then show ?thesis
    using thread_sleep_ms_asleep [OF assms(1), of ms] A(1,6,7) reap_dead_ready [OF ok, of "g_cur_idx s"]
      sched_ok_cur [OF assms(1)] sched_ok_cur(1) [OF ok] by simp
qed

theorem thread_sleep_returns_at_once_witness:
  "ticks (thread_sleep_ms 1000 demo_boot) = 7 \<and> t_state (g_threads (thread_sleep_ms 1000 demo_boot) ! 0) = T_SLEEPING"
proof -
  have "\<forall>i < 32. i \<noteq> g_cur_idx demo_boot \<longrightarrow> t_state (g_threads demo_boot ! i) \<noteq> T_READY"
    using demo_boot_slots(2,4) by (simp add: init_slot_fields)
  from thread_sleep_returns_at_once [OF demo_boot_ok this, of 1000] show ?thesis
    by (simp add: demo_boot_slots)
qed

text \<open>
  A sleep that does switch away charges the running time twice: once itself and
  once more in the yield, because the start tick of the slice is not reset in between.
\<close>

theorem thread_sleep_charges_twice:
  assumes "sched_ok s" "i < 32" "i \<noteq> g_cur_idx s" "t_state (g_threads s ! i) = T_READY"
    and "t_last_start_tick (g_threads s ! g_cur_idx s) \<noteq> 0" "t_last_start_tick (g_threads s ! g_cur_idx s) \<le> ticks s"
  shows "t_cpu_ticks (g_threads (thread_sleep_ms ms s) ! g_cur_idx s) =
    t_cpu_ticks (g_threads s ! g_cur_idx s) + 2 * (ticks s - t_last_start_tick (g_threads s ! g_cur_idx s))"
proof -
  let ?a = "asleep ms s" and ?c = "g_cur_idx s"
  note A = asleep_slots [OF assms(1), where ms = ms]
  have ok: "sched_ok ?a" by (rule asleep_ok [OF assms(1)])
  have c: "?c < 32" by (rule sched_ok_cur(2) [OF assms(1)])
  have r: "g_threads (thread_reap_dead ?a) ! ?c = g_threads ?a ! ?c"
    using reap_dead_ready [OF ok c] A(1) by simp
  have ready: "g_threads ?a ! i \<in> set (g_threads ?a)" "t_state (g_threads ?a ! i) = T_READY"
    using nth_mem [of i "g_threads ?a"] assms(2-4) A(4) [of i] A(5) by simp_all
  have "g_threads (thread_yield ?a) ! ?c = left (thread_reap_dead ?a) (g_threads ?a ! ?c)"
    using ok
  proof (cases rule: thread_yield_cases)
    case stay
    then show ?thesis using ready by blast
  next
    case (switch n k)
    have n: "n < 32" "n \<noteq> ?c" using switch(3,4) A(1) by (auto simp: best_ready_def)
    show ?thesis
      using switch_to_threads [of ?c "thread_reap_dead ?a" n] switch(6) n c A(5,6) r by simp
  qed
  then show ?thesis
    using thread_sleep_ms_asleep [OF assms(1), of ms] A(1-3,7) assms(5,6)
    by (simp add: left_def charge_def)
qed

theorem thread_sleep_charges_twice_witness:
  "t_cpu_ticks (g_threads (thread_sleep_ms 20 (demo_two\<lparr>ticks := 17\<rparr>)) ! 0) = 20"
proof -
  let ?s = "demo_two\<lparr>ticks := 17\<rparr>"
  have ok: "sched_ok ?s" by (rule same_frame_ok [OF _ demo_two_ok]) simp
  have st: "t_state (g_threads ?s ! 1) = T_READY" using demo_two_slot(1) by (simp add: fresh_thread_fields)
  have b: "t_last_start_tick (g_threads ?s ! 0) = 7" "t_cpu_ticks (g_threads ?s ! 0) = 0" "g_cur_idx ?s = 0"
    using demo_two_slot(2,3) demo_boot_tid by simp_all
  show ?thesis
    using thread_sleep_charges_twice [OF ok _ _ st, of 20] b by simp
qed

text \<open>
  A new thread inherits the pending signal of the slot's previous owner: neither
  reaping nor creation clears it, so a signal sent to a thread that dies before taking it is
  delivered to whatever runs in the slot next.
\<close>

theorem thread_create_inherits_signal:
  assumes "sched_ok s" "thread_create stack tramp name entry arg s = (Some i, s')"
  shows "t_sig_pending (g_threads s' ! i) = t_sig_pending (g_threads s ! i)"
proof -
  let ?r = "thread_reap_dead s"
  obtain m where f: "find_free_slot ?r = Some i"
    and s': "s' = upd_thread i (fresh_thread stack name entry arg (g_next_tid s)) (?r\<lparr>kmem := m, g_next_tid := g_next_tid s + 1\<rparr>)"
    by (rule thread_create_Some [OF assms(2)])
  have len: "length (g_threads ?r) = 32" using sched_ok_length [OF assms(1)] by simp
  note F = find_free_slot_Some [OF len f]
  have "t_sig_pending (g_threads ?r ! i) = t_sig_pending (g_threads s ! i)"
    using reap_dead_slot [OF sched_ok_length [OF assms(1)], of i] by (simp add: reaped_def thread_user_maps_zero_def)
  then show ?thesis
    using F(2) len by (simp add: s' upd_thread_def fresh_thread_fields)
qed

text \<open>The slot of a thread that was killed with SIGINT pending, and the thread created next.\<close>

definition demo_killed :: sched where
  "demo_killed = snd (thread_kill 1 (thread_kill_by_tid 2 2 demo_two))"

lemma demo_killed_facts: "sched_ok demo_killed" "t_sig_pending (g_threads demo_killed ! 1) = 2"
    "t_state (g_threads demo_killed ! 1) = T_DEAD" "g_cur demo_killed = Some 0"
proof -
  let ?k = "thread_kill_by_tid 2 2 demo_two"
  have len: "length (g_threads demo_two) = 32" by (rule sched_ok_length [OF demo_two_ok])
  have t1: "t_tid (g_threads demo_two ! 1) = 2" "t_state (g_threads demo_two ! 1) = T_READY"
    unfolding demo_two_slot(1) fresh_thread_fields by simp_all
  have "j = 1" if "j < 32" "t_tid (g_threads demo_two ! j) = 2" for j
    using demo_two_ok that t1(1) by (simp add: sched_ok_def table_ok_def)
  then have "first_idx (\<lambda>t. t_tid t = 2 \<and> \<not> (t_state t = T_UNUSED \<or> t_state t = T_DEAD)) (g_threads demo_two) = Some 1"
    using t1 len by (intro first_idx_unique) auto
  then have k: "g_threads ?k = (g_threads demo_two)[1 := (g_threads demo_two ! 1)\<lparr>t_sig_pending := 2\<rparr>]"
    using t1 by (simp add: thread_kill_by_tid_def upd_thread_def wake_sleeper_def)
  have kok: "sched_ok ?k" by (rule same_frame_ok [OF same_frame_kill_by_tid demo_two_ok])
  have cur: "g_cur ?k = Some 0"
    using same_frame_kill_by_tid [of demo_two 2 2] sched_ok_cur(1) [OF demo_two_ok] demo_two_slot(2)
    by (simp add: same_frame_def)
  have "t_state (g_threads ?k ! 1) = T_READY" using k t1 len by simp
  then have d: "demo_killed = (upd_thread 1 (\<lambda>t. t\<lparr>t_state := T_DEAD\<rparr>) ?k)\<lparr>g_need_resched := True\<rparr>"
    using cur by (simp add: demo_killed_def thread_kill_def THREAD_MAX_def)
  show "sched_ok demo_killed" unfolding demo_killed_def by (rule thread_kill_ok [OF kok])
  show "t_sig_pending (g_threads demo_killed ! 1) = 2" "t_state (g_threads demo_killed ! 1) = T_DEAD" "g_cur demo_killed = Some 0"
    using k len cur by (simp_all add: d upd_thread_def)
qed

theorem thread_create_inherits_signal_witness:
  "\<exists>s'. thread_create 0x40000 0x777 None 0x5678 0 demo_killed = (Some 1, s') \<and> t_sig_pending (g_threads s' ! 1) = 2"
proof -
  let ?r = "thread_reap_dead demo_killed"
  have len: "length (g_threads ?r) = 32" using sched_ok_length [OF demo_killed_facts(1)] by simp
  have "g_threads ?r ! 1 = reaped (g_threads demo_killed ! 1)"
    using reap_dead_slot [OF sched_ok_length [OF demo_killed_facts(1)], of 1] demo_killed_facts(3,4)
    by (simp add: reapable_def)
  then have "t_state (tl (g_threads ?r) ! 0) = T_UNUSED"
    using len by (simp add: nth_tl reaped_def thread_user_maps_zero_def)
  then have "find_free_slot ?r = Some 1"
    using len by (simp add: find_free_slot_def first_idx_Some)
  then obtain s' where c: "thread_create 0x40000 0x777 None 0x5678 0 demo_killed = (Some 1, s')"
    by (simp add: thread_create_def Let_def)
  from thread_create_inherits_signal [OF demo_killed_facts(1) c] demo_killed_facts(2) c show ?thesis by auto
qed

end
