(* ===== verification/Syscall.thy ===== *)
theory Syscall
  imports Fd_Props Path Usercopy Process
begin

text \<open>
  The system calls, \<open>syscall_dispatch\<close> of \<open>kernel/src/syscall.c\<close>, over the state of the parts they use:
  the scheduler (\<open>Thread\<close>), the page tables with user memory (\<open>Vmm\<close>, \<open>Usercopy\<close>), the table of open
  files with the pipes and the file systems (\<open>Fd\<close>), and what has been printed. Each call is a function of
  the registers of the trap frame. \<open>kmalloc\<close> is an argument where the code reaches it. A call that
  waits is modelled round by round: \<open>Write_more\<close>, \<open>Read_more\<close> and \<open>Wait_more\<close> say that the thread has gone to
  sleep and where its loop goes on, \<open>resume_call\<close> is the next round. \<open>Stopped\<close> is a thread stopped by a signal in
  front of the call, which is made again when it goes on, and \<open>Exited\<close> one that the call has ended.

  Not here: \<open>SYS_EXEC\<close>, \<open>SYS_FORK\<close> and \<open>SYS_GETCHAR\<close>, which belong to the loader, to \<open>do_fork\<close> and to the
  keyboard, and the text of kernel messages. Memory that the scheduler releases is recorded in its
  list of calls, as in \<open>Thread\<close>.
\<close>

section \<open>State and registers\<close>

record ctx =
  c_rax :: u64
  c_rdi :: u64
  c_rsi :: u64
  c_rdx :: u64
  c_cs :: u64
  c_rip :: u64
  c_ursp :: u64

record kern =
  k_sched :: sched
  k_vmm :: vmm
  k_fds :: fds
  k_hz :: u64
  k_out :: bytes

datatype sysres =
    Done u64
  | Write_more nat bytes u32
  | Read_more nat u64 u64
  | Wait_more nat u32 u64 bool
  | Stopped
  | Exited

definition sys_err :: u64 where
  "sys_err = - 1"

text \<open>\<open>(int)x\<close> of a register, and an \<open>int\<close> result in a register.\<close>

definition int_of :: "u64 \<Rightarrow> int" where
  "int_of x = sint (ucast x :: u32)"

definition of_int_reg :: "int \<Rightarrow> u64" where
  "of_int_reg i = word_of_int i"

definition fd_result :: "int \<Rightarrow> u64" where
  "fd_result n = (if n \<ge> 0 then of_int_reg n else sys_err)"

definition from_user :: "ctx \<Rightarrow> bool" where
  "from_user c \<longleftrightarrow> c_cs c AND 3 = 3"

definition cur_tid :: "kern \<Rightarrow> u64" where
  "cur_tid k = ucast (thread_current_tid (k_sched k))"

text \<open>A call into the scheduler; the address space in use is that of the thread it leaves running.\<close>

definition upd_sched :: "(sched \<Rightarrow> sched) \<Rightarrow> kern \<Rightarrow> kern" where
  "upd_sched f k = (let s = f (k_sched k) in k\<lparr>k_sched := s, k_vmm := (k_vmm k)\<lparr>v_cr3 := cpu_cr3 s\<rparr>\<rparr>)"

definition upd_fds :: "(fds \<Rightarrow> fds) \<Rightarrow> kern \<Rightarrow> kern" where
  "upd_fds f k = k\<lparr>k_fds := f (k_fds k)\<rparr>"

definition k_copyout :: "u64 \<Rightarrow> bytes \<Rightarrow> kern \<Rightarrow> bool \<times> kern" where
  "k_copyout a src k = (let (ok, v) = copyout_bytes a src (k_vmm k) in (ok, k\<lparr>k_vmm := v\<rparr>))"

text \<open>\<open>copyin_str\<close> and \<open>path_resolve\<close> with their buffers of 256 bytes.\<close>

definition user_path :: "u64 \<Rightarrow> kern \<Rightarrow> bytes option" where
  "user_path a k =
     (case copyin_str 256 a (k_vmm k) of
        None \<Rightarrow> None
      | Some raw \<Rightarrow> path_resolve (thread_get_cwd (k_sched k)) 256 raw)"

text \<open>
  \<open>vfs_read\<close>: a file on the disk is read into the one buffer for such files. (A device error in the
  middle of the read would leave part of the file there; then the call fails.)
\<close>

definition k_vfs_read :: "(u32 \<Rightarrow> bytes option) \<Rightarrow> bytes \<Rightarrow> kern \<Rightarrow> (vfs_data \<times> u64) option \<times> kern" where
  "k_vfs_read km path k =
     (let (r, v) = vfs_read km (Some path) (fd_vfs (k_fds k)) in
      (r, upd_fds (\<lambda>s. s\<lparr>fd_vfs := v, ext2_buf :=
            (case r of Some (In_ext2_buf d, _) \<Rightarrow> splice (ext2_buf s) 0 d | _ \<Rightarrow> ext2_buf s)\<rparr>) k))"

text \<open>The \<open>n\<close> bytes from offset \<open>o'\<close> on that a pointer to file data leads to.\<close>

definition data_at :: "vfs_data \<Rightarrow> nat \<Rightarrow> nat \<Rightarrow> fds \<Rightarrow> bytes" where
  "data_at d o' n s =
     (case d of
        In_ramfs None \<Rightarrow> []
      | In_ramfs (Some b) \<Rightarrow> take n (drop o' b)
      | In_initrd a \<Rightarrow> (case in_base (vf_initrd (fd_vfs s)) of None \<Rightarrow> [] | Some m \<Rightarrow> map (\<lambda>i. m (a + o' + i)) [0..<n])
      | In_ext2_buf _ \<Rightarrow> take n (drop o' (ext2_buf s)))"

text \<open>The test \<open>!data\<close>.\<close>

definition null_data :: "vfs_data \<Rightarrow> bool" where
  "null_data d \<longleftrightarrow> d = In_ramfs None"

section \<open>Time, scheduling and identity\<close>

definition sys_uptime :: "kern \<Rightarrow> u64 \<times> kern" where
  "sys_uptime k = (ticks (k_sched k), k)"

definition sys_yield :: "kern \<Rightarrow> u64 \<times> kern" where
  "sys_yield k = (0, upd_sched thread_yield k)"

definition sys_sleep_ms :: "ctx \<Rightarrow> kern \<Rightarrow> u64 \<times> kern" where
  "sys_sleep_ms c k =
     (let ms = (if c_rdi c > 60000 then 60000 else c_rdi c) in (0, upd_sched (thread_sleep_ms (ucast (ucast ms :: u32))) k))"

definition sys_gettid :: "kern \<Rightarrow> u64 \<times> kern" where
  "sys_gettid k = (cur_tid k, k)"

definition sys_time :: "kern \<Rightarrow> u64 \<times> kern" where
  "sys_time k = (if k_hz k \<noteq> 0 then ticks (k_sched k) div k_hz k else 0, k)"

definition sys_getpid :: "kern \<Rightarrow> u64 \<times> kern" where
  "sys_getpid k =
     (let pgid = thread_get_pgid (thread_current_tid (k_sched k)) (k_sched k) in
      (if pgid \<noteq> 0 then ucast pgid else cur_tid k, k))"

definition sys_getppid :: "kern \<Rightarrow> u64 \<times> kern" where
  "sys_getppid k = (ucast (thread_get_parent_tid (k_sched k)), k)"

definition sys_setpgid :: "ctx \<Rightarrow> kern \<Rightarrow> u64 \<times> kern" where
  "sys_setpgid c k =
     (let tid = (ucast (c_rdi c) :: u32); pgid = (ucast (c_rsi c) :: u32);
          tid = (if tid = 0 then thread_current_tid (k_sched k) else tid);
          pgid = (if pgid = 0 then tid else pgid)
      in (0, k\<lparr>k_sched := thread_set_pgid tid pgid (k_sched k)\<rparr>))"

definition sys_kill :: "ctx \<Rightarrow> kern \<Rightarrow> u64 \<times> kern" where
  "sys_kill c k =
     (let sig = int_of (c_rsi c) in
      if sig < 0 \<or> sig \<ge> 32 then (sys_err, k)
      else (0, k\<lparr>k_sched := thread_kill_by_tid (ucast (c_rdi c)) sig (k_sched k)\<rparr>))"

definition sys_signal :: "ctx \<Rightarrow> kern \<Rightarrow> u64 \<times> kern" where
  "sys_signal c k =
     (let sig = int_of (c_rdi c) in
      if sig < 1 \<or> sig \<ge> 32 then (sys_err, k)
      else (thread_get_sig_handler sig (k_sched k), k\<lparr>k_sched := thread_set_sig_handler sig (c_rsi c) (k_sched k)\<rparr>))"

definition sys_exit :: "(u32 \<Rightarrow> bytes option) \<Rightarrow> ctx \<Rightarrow> kern \<Rightarrow> kern" where
  "sys_exit km c k =
     upd_sched (\<lambda>s. thread_exit (thread_set_exit_code (int_of (c_rdi c)) (thread_user_map_cleanup_current s)))
       (upd_fds (fd_close_all km (cur_tid k)) k)"

section \<open>Descriptors\<close>

text \<open>Entry \<open>i\<close> and the pipe behind it.\<close>

definition fd_ent :: "nat \<Rightarrow> kern \<Rightarrow> sys_fd" where
  "fd_ent i k = g_fds (k_fds k) ! i"

definition fd_pipe_of :: "nat \<Rightarrow> kern \<Rightarrow> nat" where
  "fd_pipe_of i k = the (f_pipe (fd_ent i k))"

definition the_pipe :: "nat \<Rightarrow> kern \<Rightarrow> pipe" where
  "the_pipe i k = g_pipes (k_fds k) ! fd_pipe_of i k"

definition set_pipe :: "nat \<Rightarrow> pipe \<Rightarrow> kern \<Rightarrow> kern" where
  "set_pipe i p k = upd_fds (\<lambda>s. s\<lparr>g_pipes := (g_pipes s)[fd_pipe_of i k := p]\<rparr>) k"

text \<open>One round of the loop that writes to a pipe.\<close>

definition write_pipe_round :: "nat \<Rightarrow> bytes \<Rightarrow> u32 \<Rightarrow> kern \<Rightarrow> sysres \<times> kern" where
  "write_pipe_round i buf written k =
     (let n = (of_nat (length buf) :: u32) in
      if \<not> written < n then (Done (ucast written), k)
      else if p_ropen (the_pipe i k) = 0 then (Done sys_err, k)
      else
        let (w, p) = pipe_ring_write (drop (unat written) buf) (n - written) (the_pipe i k);
            written = written + w; k1 = set_pipe i p k
        in if written < n then (Write_more i buf written, upd_sched (thread_sleep_ms 1) k1) else (Done (ucast written), k1))"

definition RAMFS_WR_MAX :: u32 where
  "RAMFS_WR_MAX = 256 * 1024"

definition upd_ram :: "(ramfs \<Rightarrow> ramfs) \<Rightarrow> kern \<Rightarrow> kern" where
  "upd_ram f k = upd_fds (\<lambda>s. s\<lparr>fd_vfs := (fd_vfs s)\<lparr>vf_ram := f (vf_ram (fd_vfs s))\<rparr>\<rparr>) k"

text \<open>Writing to a file in memory, behind what it holds.\<close>

definition write_ram :: "(u32 \<Rightarrow> bytes option) \<Rightarrow> nat \<Rightarrow> bytes \<Rightarrow> kern \<Rightarrow> u64 \<times> kern" where
  "write_ram km r buf k =
     (let (ok, fs) = (if re_data (vf_ram (fd_vfs (k_fds k)) ! r) = None
                      then ramfs_preallocate km (Some r) RAMFS_WR_MAX (vf_ram (fd_vfs (k_fds k)))
                      else (True, vf_ram (fd_vfs (k_fds k))));
          k1 = upd_ram (\<lambda>_. fs) k
      in if \<not> ok then (sys_err, k1)
         else
           let e = fs ! r;
               room' = RAMFS_WR_MAX - re_size e;
               w = (of_nat (length buf) :: u32);
               w = (if w > room' then room' else w);
               e' = e\<lparr>re_data := map_option (\<lambda>d. splice d (unat (re_size e)) (take (unat w) buf)) (re_data e),
                      re_size := re_size e + w\<rparr>
           in (ucast w, upd_ram (\<lambda>fs. fs[r := e']) k1))"

definition sys_write :: "(u32 \<Rightarrow> bytes option) \<Rightarrow> ctx \<Rightarrow> kern \<Rightarrow> sysres \<times> kern" where
  "sys_write km c k =
     (let len = (if c_rdx c > 4096 then 4096 else c_rdx c);
          data = (if from_user c then copyin_bytes 4096 (c_rsi c) len (k_vmm k)
                  else Some (map (\<lambda>i. kmem (k_sched k) (c_rsi c + of_nat i)) [0..<unat len]))
      in case data of
           None \<Rightarrow> (Done sys_err, k)
         | Some buf \<Rightarrow>
             (case fd_get (cur_tid k) (int_of (c_rdi c)) (k_fds k) of
                None \<Rightarrow> (Done (of_nat (length buf)), k\<lparr>k_out := k_out k @ buf\<rparr>)
              | Some i \<Rightarrow>
                  let f = fd_ent i k in
                  if f_type f = FD_TYPE_PIPE_W then write_pipe_round i buf 0 k
                  else if f_type f = FD_TYPE_NULL then (Done (of_nat (length buf)), k)
                  else if f_type f = FD_TYPE_RAMW \<and> f_ramfile f \<noteq> None then
                    let (r, k1) = write_ram km (the (f_ramfile f)) buf k in (Done r, k1)
                  else (Done (of_nat (length buf)), k\<lparr>k_out := k_out k @ buf\<rparr>)))"

text \<open>One round of the loop that reads from a pipe.\<close>

definition read_pipe_round :: "nat \<Rightarrow> u64 \<Rightarrow> u64 \<Rightarrow> kern \<Rightarrow> sysres \<times> kern" where
  "read_pipe_round i ubuf len k =
     (let (got, p) = pipe_ring_read (ucast len) (the_pipe i k); k1 = set_pipe i p k in
      if length got > 0 then
        let (ok, k2) = k_copyout ubuf got k1 in (Done (if ok then of_nat (length got) else sys_err), k2)
      else if p_wopen (the_pipe i k1) = 0 then (Done 0, k1)
      else (Read_more i ubuf len, upd_sched (thread_sleep_ms 2) k1))"

definition sys_read :: "ctx \<Rightarrow> kern \<Rightarrow> sysres \<times> kern" where
  "sys_read c k =
     (if \<not> from_user c then (Done sys_err, k)
      else
        let len = (if c_rdx c > 4096 then 4096 else c_rdx c) in
        (case fd_get (cur_tid k) (int_of (c_rdi c)) (k_fds k) of
           None \<Rightarrow> (Done sys_err, k)
         | Some i \<Rightarrow>
             let f = fd_ent i k in
             if f_type f = FD_TYPE_NULL then (Done 0, k)
             else if f_type f = FD_TYPE_PIPE_R then read_pipe_round i (c_rsi c) len k
             else if f_off f \<ge> f_size f then (Done 0, k)
             else
               let remain = f_size f - f_off f;
                   n = (if len < remain then len else remain);
                   src = (case f_data f of None \<Rightarrow> [] | Some d \<Rightarrow> data_at d (unat (f_off f)) (unat n) (k_fds k));
                   (ok, k1) = k_copyout (c_rsi c) src k
               in if \<not> ok then (Done sys_err, k1)
                  else (Done n, upd_fds (put_fd i (f\<lparr>f_off := f_off f + n\<rparr>)) k1)))"

definition sys_close :: "(u32 \<Rightarrow> bytes option) \<Rightarrow> ctx \<Rightarrow> kern \<Rightarrow> u64 \<times> kern" where
  "sys_close km c k =
     (if \<not> from_user c then (sys_err, k)
      else (0, upd_fds (fd_close km (cur_tid k) (int_of (c_rdi c))) k))"

definition open_null :: "kern \<Rightarrow> u64 \<times> kern" where
  "open_null k = (let (n, s) = fd_alloc_null (cur_tid k) (k_fds k) in (fd_result n, k\<lparr>k_fds := s\<rparr>))"

definition sys_open :: "(u32 \<Rightarrow> bytes option) \<Rightarrow> ctx \<Rightarrow> kern \<Rightarrow> u64 \<times> kern" where
  "sys_open km c k =
     (if \<not> from_user c then (sys_err, k)
      else case user_path (c_rdi c) k of
          None \<Rightarrow> (sys_err, k)
        | Some path \<Rightarrow>
            if is_devnull path then open_null k
            else
              let (r, k1) = k_vfs_read km path k in
              (case r of
                 None \<Rightarrow> (sys_err, k1)
               | Some (d, size') \<Rightarrow>
                   if null_data d then (sys_err, k1)
                   else let (n, s) = fd_alloc (cur_tid k1) d size' (k_fds k1) in (fd_result n, k1\<lparr>k_fds := s\<rparr>)))"

definition open_ramw :: "nat \<Rightarrow> kern \<Rightarrow> u64 \<times> kern" where
  "open_ramw rf k = (let (n, s) = fd_alloc_ramw (cur_tid k) rf (k_fds k) in (fd_result n, k\<lparr>k_fds := s\<rparr>))"

definition k_ramfs_creat :: "bytes \<Rightarrow> kern \<Rightarrow> nat option \<times> kern" where
  "k_ramfs_creat path k =
     (let (r, fs) = ramfs_creat (Some path) (vf_ram (fd_vfs (k_fds k))) in (r, upd_ram (\<lambda>_. fs) k))"

definition sys_creat :: "ctx \<Rightarrow> kern \<Rightarrow> u64 \<times> kern" where
  "sys_creat c k =
     (if \<not> from_user c then (sys_err, k)
      else case user_path (c_rdi c) k of
          None \<Rightarrow> (sys_err, k)
        | Some path \<Rightarrow>
            if is_devnull path then open_null k
            else let (r, k1) = k_ramfs_creat path k in
              (case r of None \<Rightarrow> (sys_err, k1) | Some rf \<Rightarrow> open_ramw rf k1))"

definition sys_openw :: "(u32 \<Rightarrow> bytes option) \<Rightarrow> ctx \<Rightarrow> kern \<Rightarrow> u64 \<times> kern" where
  "sys_openw km c k =
     (if \<not> from_user c then (sys_err, k)
      else case user_path (c_rdi c) k of
          None \<Rightarrow> (sys_err, k)
        | Some path \<Rightarrow>
            if is_devnull path then open_null k
            else
              let (e, k1) = k_vfs_read km path k;
                  size' = (case e of None \<Rightarrow> 0 | Some (d, sz) \<Rightarrow> if sz > ucast RAMFS_WR_MAX then 0 else sz);
                  (r, k2) = k_ramfs_creat path k1
              in (case r of
                    None \<Rightarrow> (sys_err, k2)
                  | Some rf \<Rightarrow>
                      let k3 = upd_ram (\<lambda>fs. snd (ramfs_preallocate km (Some rf) RAMFS_WR_MAX fs)) k2;
                          k4 = (case e of
                                  Some (d, _) \<Rightarrow>
                                    if \<not> null_data d \<and> size' > 0
                                    then upd_ram (\<lambda>fs. fs[rf := (case re_data (fs ! rf) of
                                             None \<Rightarrow> fs ! rf
                                           | Some b \<Rightarrow> (fs ! rf)\<lparr>re_data := Some (splice b 0 (data_at d 0 (unat size') (k_fds k3))),
                                                              re_size := ucast size'\<rparr>)]) k3
                                    else k3
                                | None \<Rightarrow> k3)
                      in open_ramw rf k4))"

definition sys_dup2 :: "(u32 \<Rightarrow> bytes option) \<Rightarrow> ctx \<Rightarrow> kern \<Rightarrow> u64 \<times> kern" where
  "sys_dup2 km c k =
     (if \<not> from_user c then (sys_err, k)
      else let (r, s) = fd_dup2 km (cur_tid k) (int_of (c_rdi c)) (int_of (c_rsi c)) (k_fds k)
        in (fd_result r, k\<lparr>k_fds := s\<rparr>))"

definition sys_dup :: "ctx \<Rightarrow> kern \<Rightarrow> u64 \<times> kern" where
  "sys_dup c k = (let (r, s) = fd_dup (cur_tid k) (int_of (c_rdi c)) (k_fds k) in (fd_result r, k\<lparr>k_fds := s\<rparr>))"

definition sys_pipe :: "(u32 \<Rightarrow> bytes option) \<Rightarrow> ctx \<Rightarrow> kern \<Rightarrow> u64 \<times> kern" where
  "sys_pipe km c k =
     (if \<not> from_user c then (sys_err, k)
      else
        let (r, s) = pipe_open km (cur_tid k) (k_fds k); k1 = k\<lparr>k_fds := s\<rparr> in
        (case r of
           None \<Rightarrow> (sys_err, k1)
         | Some (rfd_n, wfd_n, rs, ws) \<Rightarrow>
             let (ok, k2) = k_copyout (c_rdi c) (st32 (word_of_int rfd_n) @ st32 (word_of_int wfd_n)) k1 in
             if ok then (0, k2)
             else (sys_err, upd_fds (\<lambda>s. fd_close_entry km ws (fd_close_entry km rs s)) k2)))"

section \<open>Files by name\<close>

definition upd_vfs :: "(vfs \<Rightarrow> int \<times> vfs) \<Rightarrow> kern \<Rightarrow> int \<times> kern" where
  "upd_vfs f k = (let (r, v) = f (fd_vfs (k_fds k)) in (r, upd_fds (\<lambda>s. s\<lparr>fd_vfs := v\<rparr>) k))"

definition sys_unlink :: "ctx \<Rightarrow> kern \<Rightarrow> u64 \<times> kern" where
  "sys_unlink c k =
     (if \<not> from_user c then (sys_err, k)
      else case user_path (c_rdi c) k of
          None \<Rightarrow> (sys_err, k)
        | Some path \<Rightarrow> let (r, k1) = upd_vfs (vfs_delete (Some path)) k in (of_int_reg r, k1))"

definition sys_filesize :: "ctx \<Rightarrow> kern \<Rightarrow> u64 \<times> kern" where
  "sys_filesize c k =
     (if \<not> from_user c then (sys_err, k)
      else case user_path (c_rdi c) k of
          None \<Rightarrow> (sys_err, k)
        | Some path \<Rightarrow> (of_int_reg (vfs_filesize (Some path) (fd_vfs (k_fds k))), k))"

definition sys_mkdir :: "ctx \<Rightarrow> kern \<Rightarrow> u64 \<times> kern" where
  "sys_mkdir c k =
     (if \<not> from_user c then (sys_err, k)
      else case user_path (c_rdi c) k of
          None \<Rightarrow> (sys_err, k)
        | Some path \<Rightarrow> let (r, k1) = upd_vfs (vfs_mkdir (Some path)) k in (of_int_reg r, k1))"

definition sys_getcwd :: "ctx \<Rightarrow> kern \<Rightarrow> u64 \<times> kern" where
  "sys_getcwd c k =
     (if \<not> from_user c then (sys_err, k)
      else if c_rsi c = 0 then (sys_err, k)
      else
        let cwd = thread_get_cwd (k_sched k); len = length cwd in
        if of_nat (len + 1) > c_rsi c then (sys_err, k)
        else let (ok, k1) = k_copyout (c_rdi c) (cwd @ [0]) k in (if ok then of_nat len else sys_err, k1))"

definition sys_chdir :: "ctx \<Rightarrow> kern \<Rightarrow> u64 \<times> kern" where
  "sys_chdir c k =
     (if \<not> from_user c then (sys_err, k)
      else case user_path (c_rdi c) k of
          None \<Rightarrow> (sys_err, k)
        | Some path \<Rightarrow>
            if \<not> vfs_isdir (Some path) (fd_vfs (k_fds k)) then (sys_err, k)
            else (0, k\<lparr>k_sched := thread_set_cwd (Some path) (k_sched k)\<rparr>))"

definition sys_listfiles :: "ctx \<Rightarrow> kern \<Rightarrow> u64 \<times> kern" where
  "sys_listfiles c k =
     (if c_rdi c = 0 \<or> c_rsi c = 0 then (sys_err, k)
      else
        let cap = (if c_rsi c > 4096 then 4096 else c_rsi c);
            out = vfs_list (unat cap) (fd_vfs (k_fds k));
            (ok, k1) = k_copyout (c_rdi c) out k
        in (if ok then of_nat (length out) else sys_err, k1))"

definition sys_listdir :: "ctx \<Rightarrow> kern \<Rightarrow> u64 \<times> kern" where
  "sys_listdir c k =
     (if c_rsi c = 0 \<or> c_rdx c = 0 then (sys_err, k)
      else
        let cap = (if c_rdx c > 8192 then 8192 else c_rdx c) in
        (case (if c_rdi c = 0 then Some (ascii ''/'') else copyin_str 256 (c_rdi c) (k_vmm k)) of
           None \<Rightarrow> (sys_err, k)
         | Some path \<Rightarrow>
             let out = vfs_listdir (Some path) (unat cap) (fd_vfs (k_fds k));
                 (ok, k1) = k_copyout (c_rsi c) out k
             in (if ok then of_nat (length out) else sys_err, k1)))"

text \<open>\<open>kstring\<close> is the C string behind a pointer of the kernel, for calls from kernel mode.\<close>

definition kstore_bytes :: "u64 \<Rightarrow> bytes \<Rightarrow> memory \<Rightarrow> memory" where
  "kstore_bytes a bs m = (\<lambda>x. if unat (x - a) < length bs then bs ! unat (x - a) else m x)"

definition sys_readfile :: "(u64 \<Rightarrow> bytes) \<Rightarrow> (u32 \<Rightarrow> bytes option) \<Rightarrow> ctx \<Rightarrow> kern \<Rightarrow> u64 \<times> kern" where
  "sys_readfile kstring km c k =
     (case (if from_user c then user_path (c_rdi c) k else Some (kstring (c_rdi c))) of
        None \<Rightarrow> (sys_err, k)
      | Some path \<Rightarrow>
          let (r, k1) = k_vfs_read km path k in
          (case r of
             None \<Rightarrow> (sys_err, k1)
           | Some (d, size') \<Rightarrow>
               if null_data d then (sys_err, k1)
               else if c_rsi c = 0 \<or> c_rdx c = 0 then (size', k1)
               else
                 let n = (if size' > c_rdx c then c_rdx c else size'); src = data_at d 0 (unat n) (k_fds k1) in
                 if from_user c then
                   let (ok, k2) = k_copyout (c_rsi c) src k1
                   in (if \<not> ok \<or> int_of n < 0 then sys_err else of_int_reg (int_of n), k2)
                 else (n, k1\<lparr>k_sched := (k_sched k1)\<lparr>kmem := kstore_bytes (c_rsi c) src (kmem (k_sched k1))\<rparr>\<rparr>)))"

definition RENAME_BUF :: u64 where
  "RENAME_BUF = 256 * 1024"

definition sys_rename :: "(u32 \<Rightarrow> bytes option) \<Rightarrow> ctx \<Rightarrow> kern \<Rightarrow> u64 \<times> kern" where
  "sys_rename km c k =
     (case (copyin_str 256 (c_rdi c) (k_vmm k), copyin_str 256 (c_rsi c) (k_vmm k)) of
        (Some old_path, Some new_path) \<Rightarrow>
          let (r, k1) = k_vfs_read km old_path k in
          (case r of
             None \<Rightarrow> (sys_err, k1)
           | Some (d, size') \<Rightarrow>
               let to_copy = (if size' < RENAME_BUF then size' else RENAME_BUF);
                   (w, k2) = upd_vfs (vfs_write km (Some new_path) (data_at d 0 (unat to_copy) (k_fds k1)) to_copy) k1
               in if w < 0 then (sys_err, k2) else (0, snd (upd_vfs (vfs_delete (Some old_path)) k2)))
      | _ \<Rightarrow> (sys_err, k))"

text \<open>\<open>struct fifi_stat\<close> in memory.\<close>

definition st64 :: "u64 \<Rightarrow> bytes" where
  "st64 x = st32 (ucast x) @ st32 (ucast (drop_bit 32 x))"

definition fifi_stat :: "u64 \<Rightarrow> u32 \<Rightarrow> bytes" where
  "fifi_stat size' mode = st64 size' @ st32 mode @ st32 0"

definition sys_stat :: "ctx \<Rightarrow> kern \<Rightarrow> u64 \<times> kern" where
  "sys_stat c k =
     (case copyin_str 256 (c_rdi c) (k_vmm k) of
        None \<Rightarrow> (sys_err, k)
      | Some path \<Rightarrow>
          if vfs_isdir (Some path) (fd_vfs (k_fds k)) then (0, snd (k_copyout (c_rsi c) (fifi_stat 0 1) k))
          else let sz = vfs_filesize (Some path) (fd_vfs (k_fds k)) in
            if sz < 0 then (sys_err, k) else (0, snd (k_copyout (c_rsi c) (fifi_stat (of_int_reg sz) 0) k)))"

definition sys_fstat :: "ctx \<Rightarrow> kern \<Rightarrow> u64 \<times> kern" where
  "sys_fstat c k =
     (case fd_get (cur_tid k) (int_of (c_rdi c)) (k_fds k) of
        None \<Rightarrow> (sys_err, k)
      | Some i \<Rightarrow>
          let f = fd_ent i k;
              st = (case f_ramfile f of
                      Some r \<Rightarrow> if f_type f = FD_TYPE_RAMW then fifi_stat (ucast (re_size (vf_ram (fd_vfs (k_fds k)) ! r))) 0
                                else if is_pipe f then fifi_stat 0 2 else fifi_stat (f_size f) 0
                    | None \<Rightarrow> if is_pipe f then fifi_stat 0 2 else fifi_stat (f_size f) 0)
          in (0, snd (k_copyout (c_rsi c) st k)))"

text \<open>A string cut to its field and padded with zeros; the build date is an argument.\<close>

definition uts_field :: "nat \<Rightarrow> bytes \<Rightarrow> bytes" where
  "uts_field n t = take (n - 1) t @ replicate (n - length (take (n - 1) t)) 0"

definition sys_uname :: "bytes \<Rightarrow> ctx \<Rightarrow> kern \<Rightarrow> u64 \<times> kern" where
  "sys_uname build c k =
     (0, snd (k_copyout (c_rdi c) (uts_field 32 (ascii ''FiFi OS'') @ uts_field 32 (ascii ''fifi'')
        @ uts_field 32 (ascii ''Alpha v4.0'') @ uts_field 64 build @ uts_field 32 (ascii ''x86_64'')) k))"

section \<open>Waiting for children\<close>

definition put_code :: "u64 \<Rightarrow> int \<Rightarrow> kern \<Rightarrow> kern" where
  "put_code ucode code k = (if ucode \<noteq> 0 then snd (k_copyout ucode (st32 (word_of_int code)) k) else k)"

text \<open>One attempt of \<open>SYS_WAITPID\<close> and \<open>SYS_WAITFLAGS\<close>, with \<open>n\<close> attempts left.\<close>

definition wait_round :: "bool \<Rightarrow> nat \<Rightarrow> u32 \<Rightarrow> u64 \<Rightarrow> bool \<Rightarrow> kern \<Rightarrow> sysres \<times> kern" where
  "wait_round wnohang n child_tid ucode wuntraced k =
     (if n = 0 then (Done sys_err, k)
      else
        let me = thread_current_tid (k_sched k);
            (r, s) = thread_reap_zombie_child me child_tid (k_sched k); k1 = k\<lparr>k_sched := s\<rparr> in
        (case r of
           Reaped t code \<Rightarrow> (Done (ucast t), put_code ucode code k1)
         | No_child \<Rightarrow> (Done sys_err, k1)
         | Still_running \<Rightarrow>
             let (st, s2) = (if wuntraced then thread_check_stopped_child me child_tid (k_sched k1) else (None, k_sched k1));
                 k2 = k1\<lparr>k_sched := s2\<rparr> in
             (case st of
                Some (t, code) \<Rightarrow> (Done (ucast t), put_code ucode code k2)
              | None \<Rightarrow> if wnohang then (Done 0, k2) else (Wait_more (n - 1) child_tid ucode wuntraced, upd_sched (thread_sleep_ms 10) k2))))"

definition sys_waitpid :: "ctx \<Rightarrow> kern \<Rightarrow> sysres \<times> kern" where
  "sys_waitpid c k = wait_round False 500 (ucast (c_rdi c)) (c_rsi c) False k"

definition sys_waitflags :: "ctx \<Rightarrow> kern \<Rightarrow> sysres \<times> kern" where
  "sys_waitflags c k =
     (let wnohang = (c_rdx c AND 2 \<noteq> 0) in
      wait_round wnohang (if wnohang then 1 else 500) (ucast (c_rdi c)) (c_rsi c) (c_rdx c AND 1 \<noteq> 0) k)"

section \<open>Memory\<close>

definition FIFI_USER_STACK_BASE :: u64 where
  "FIFI_USER_STACK_BASE = FIFI_USER_TOP - 0x1000 - 8 * 0x1000"

definition page_up :: "u64 \<Rightarrow> u64" where
  "page_up x = (x + 0x1000 - 1) AND NOT (0x1000 - 1)"

text \<open>
  The loop that gives \<open>n\<close> pages from \<open>v\<close> on fresh zeroed frames: whether all were mapped, and the
  address at which it stopped.
\<close>

fun map_zeroed :: "nat \<Rightarrow> u64 \<Rightarrow> u64 \<Rightarrow> vmm \<Rightarrow> bool \<times> u64 \<times> vmm" where
  "map_zeroed 0 v flags s = (True, v, s)"
| "map_zeroed (Suc n) v flags s =
     (let (phys, p) = pmm_alloc_page (v_pmm s); s1 = s\<lparr>v_pmm := p\<rparr> in
      if phys = 0 then (False, v, s1)
      else
        let (ok, s2) = vmm_map_page v phys flags s1 in
        if \<not> ok then (False, v, s2\<lparr>v_pmm := pmm_free_page phys (v_pmm s2)\<rparr>)
        else map_zeroed n (v + 0x1000) flags (ustore_bytes v (replicate 4096 0) s2))"

definition pages_between :: "u64 \<Rightarrow> u64 \<Rightarrow> nat" where
  "pages_between a b = (unat (b - a) + 4095) div 4096"

definition sys_brk :: "ctx \<Rightarrow> kern \<Rightarrow> u64 \<times> kern" where
  "sys_brk c k =
     (let cur_brk = thread_get_brk (k_sched k); new_brk = page_up (c_rdi c) in
      if c_rdi c = 0 then (cur_brk, k)
      else if new_brk \<ge> FIFI_USER_TOP \<or> new_brk < 0x1000 then (cur_brk, k)
      else if new_brk > cur_brk then
        let (ok, v, s) = map_zeroed (pages_between cur_brk new_brk) cur_brk (VMM_USER OR VMM_WRITE OR VMM_NX) (k_vmm k) in
        if ok then
          (new_brk, k\<lparr>k_vmm := s, k_sched := thread_set_brk new_brk (snd (thread_user_map_add cur_brk (new_brk - cur_brk) (k_sched k)))\<rparr>)
        else (cur_brk, k\<lparr>k_vmm := snd (vmm_unmap_range_and_free cur_brk (v - cur_brk) s)\<rparr>)
      else if new_brk < cur_brk then
        (new_brk, k\<lparr>k_vmm := snd (vmm_unmap_range_and_free new_brk (cur_brk - new_brk) (k_vmm k)),
                    k_sched := thread_set_brk new_brk (k_sched k)\<rparr>)
      else (cur_brk, k))"

definition sys_mmap :: "ctx \<Rightarrow> kern \<Rightarrow> u64 \<times> kern" where
  "sys_mmap c k =
     (let hint = c_rdi c; length' = page_up (c_rsi c) in
      if length' = 0 \<or> length' > 256 * 1024 * 1024 then (sys_err, k)
      else
        let next' = thread_get_mmap_next (k_sched k);
            va = (if hint \<noteq> 0 \<and> hint AND (0x1000 - 1) = 0 \<and> hint \<ge> 0x1000 \<and> hint < FIFI_USER_STACK_BASE then hint
                  else if next' = 0 then 0x0000600000000000 else next') in
        if va + length' \<ge> FIFI_USER_STACK_BASE then (sys_err, k)
        else
          let flags = VMM_USER OR (if c_rdx c AND 2 \<noteq> 0 then VMM_WRITE else 0) OR (if c_rdx c AND 4 = 0 then VMM_NX else 0);
              (ok, v, s) = map_zeroed (if va < va + length' then unat length' div 4096 else 0) va flags (k_vmm k)
          in if ok then
               (va, k\<lparr>k_vmm := s, k_sched := thread_set_mmap_next (va + length') (snd (thread_user_map_add va length' (k_sched k)))\<rparr>)
             else (sys_err, k\<lparr>k_vmm := snd (vmm_unmap_range_and_free va (v - va) s)\<rparr>))"

definition sys_munmap :: "ctx \<Rightarrow> kern \<Rightarrow> u64 \<times> kern" where
  "sys_munmap c k =
     (let addr = c_rdi c AND NOT (0x1000 - 1); length' = page_up (c_rsi c) in
      if length' = 0 then (0, k)
      else (0, k\<lparr>k_vmm := snd (vmm_unmap_range_and_free addr length' (k_vmm k))\<rparr>))"

section \<open>Signals\<close>

definition pending_sig :: "kern \<Rightarrow> int" where
  "pending_sig k = cur_field t_sig_pending 0 (k_sched k)"

text \<open>
  The last part of \<open>syscall_dispatch\<close>, reached by the calls that leave the \<open>switch\<close> with \<open>break\<close>. The stack
  of the user is checked by \<open>vmm_user_accessible\<close> alone.
\<close>

definition deliver_pending :: "ctx \<Rightarrow> kern \<Rightarrow> bool \<times> ctx \<times> kern" where
  "deliver_pending c k =
     (if \<not> from_user c then (True, c, k)
      else
        let (sig, s) = thread_take_pending_sig (k_sched k); k1 = k\<lparr>k_sched := s\<rparr> in
        if \<not> (sig > 0 \<and> sig < 32) then (True, c, k1)
        else
          let handler = thread_get_sig_handler sig s in
          if handler = 1 then (True, c, k1)
          else if handler > 1 then
            let ursp = c_ursp c - 8 in
            if user_ok ursp 8 True (k_vmm k1) then
              (True, c\<lparr>c_ursp := ursp, c_rdi := ucast (word_of_int sig :: u32), c_rip := handler\<rparr>,
               k1\<lparr>k_vmm := ustore_bytes ursp (st64 (c_rip c)) (k_vmm k1)\<rparr>)
            else (True, c, k1)
          else if sig = 19 then (True, c, upd_sched thread_do_stop k1)
          else if sig = 18 then (True, c, k1)
          else (False, c, upd_sched (\<lambda>s. thread_exit (thread_set_exit_code (128 + sig) s)) k1))"

section \<open>Dispatch\<close>

definition sys_log :: "(u64 \<Rightarrow> bytes) \<Rightarrow> ctx \<Rightarrow> kern \<Rightarrow> u64 \<times> kern" where
  "sys_log kstring c k =
     (let say = (\<lambda>msg. (0, k\<lparr>k_out := k_out k @ ascii ''[syscall] '' @ msg @ [10]\<rparr>)) in
      if from_user c then
        (case copyin_str 256 (c_rdi c) (k_vmm k) of None \<Rightarrow> (sys_err, k) | Some msg \<Rightarrow> say msg)
      else if c_rdi c \<noteq> 0 then say (kstring (c_rdi c)) else say (ascii ''(null)''))"

definition plain_call :: "ctx \<Rightarrow> u64 \<times> kern \<Rightarrow> sysres \<times> ctx \<times> kern" where
  "plain_call c r = (Done (fst r), c\<lparr>c_rax := fst r\<rparr>, snd r)"

definition loop_call :: "ctx \<Rightarrow> sysres \<times> kern \<Rightarrow> sysres \<times> ctx \<times> kern" where
  "loop_call c r = (fst r, (case fst r of Done x \<Rightarrow> c\<lparr>c_rax := x\<rparr> | _ \<Rightarrow> c), snd r)"

definition break_call :: "ctx \<Rightarrow> u64 \<times> kern \<Rightarrow> sysres \<times> ctx \<times> kern" where
  "break_call c r =
     (let (alive, c1, k1) = deliver_pending (c\<lparr>c_rax := fst r\<rparr>) (snd r) in (if alive then Done (fst r) else Exited, c1, k1))"

text \<open>The \<open>switch\<close>; \<open>None\<close> for the three calls that are not modelled.\<close>

definition sys_switch ::
    "(u64 \<Rightarrow> bytes) \<Rightarrow> bytes \<Rightarrow> (u32 \<Rightarrow> bytes option) \<Rightarrow> ctx \<Rightarrow> kern \<Rightarrow> (sysres \<times> ctx \<times> kern) option" where
  "sys_switch kstring build km c k =
     (let n = c_rax c; plain = (\<lambda>r. Some (plain_call c r)); loop = (\<lambda>r. Some (loop_call c r)) in
      if n = 0 then plain (0, k)
      else if n = 1 then plain (sys_log kstring c k)
      else if n = 2 then plain (sys_uptime k)
      else if n = 3 then plain (sys_yield k)
      else if n = 4 then Some (Exited, c, sys_exit km c k)
      else if n = 5 then plain (sys_sleep_ms c k)
      else if n = 6 then plain (sys_gettid k)
      else if n = 7 then loop (sys_write km c k)
      else if n = 8 then plain (sys_open km c k)
      else if n = 9 then plain (sys_close km c k)
      else if n = 10 then loop (sys_read c k)
      else if n = 11 then plain (sys_readfile kstring km c k)
      else if n = 14 then Some (break_call c (sys_brk c k))
      else if n = 15 then loop (sys_waitpid c k)
      else if n = 17 then plain (sys_listfiles c k)
      else if n = 18 then plain (sys_pipe km c k)
      else if n = 19 then plain (sys_dup2 km c k)
      else if n = 20 then plain (sys_creat c k)
      else if n = 21 then plain (sys_unlink c k)
      else if n = 22 then plain (sys_openw km c k)
      else if n = 23 then plain (sys_filesize c k)
      else if n = 24 then plain (sys_mkdir c k)
      else if n = 25 then plain (sys_getcwd c k)
      else if n = 26 then plain (sys_chdir c k)
      else if n = 27 then plain (sys_kill c k)
      else if n = 28 then plain (sys_signal c k)
      else if n = 29 then plain (sys_mmap c k)
      else if n = 30 then plain (sys_munmap c k)
      else if n = 31 then plain (sys_setpgid c k)
      else if n = 32 then plain (sys_listdir c k)
      else if n = 33 then loop (sys_waitflags c k)
      else if n = 34 then plain (sys_getpid k)
      else if n = 35 then plain (sys_getppid k)
      else if n = 36 then plain (sys_rename km c k)
      else if n = 37 then plain (sys_stat c k)
      else if n = 38 then plain (sys_fstat c k)
      else if n = 39 then plain (sys_time k)
      else if n = 40 then plain (sys_dup c k)
      else if n = 41 then plain (sys_uname build c k)
      else if n = 12 \<or> n = 13 \<or> n = 16 then None
      else plain (sys_err, k))"

text \<open>A pending signal comes first: it stops the thread or ends it.\<close>

definition syscall_dispatch ::
    "(u64 \<Rightarrow> bytes) \<Rightarrow> bytes \<Rightarrow> (u32 \<Rightarrow> bytes option) \<Rightarrow> ctx \<Rightarrow> kern \<Rightarrow> (sysres \<times> ctx \<times> kern) option" where
  "syscall_dispatch kstring build km c k =
     (if pending_sig k = 0 then sys_switch kstring build km c k
      else Some (if pending_sig k = 19 then Stopped else Exited, c, upd_sched thread_check_signal k))"

text \<open>The next round of a call that has slept; the signal check in front of it may stop or end the thread.\<close>

definition resume_call :: "sysres \<Rightarrow> kern \<Rightarrow> sysres \<times> kern" where
  "resume_call r k =
     (if pending_sig k \<noteq> 0 then (if pending_sig k = 19 then r else Exited, upd_sched thread_check_signal k)
      else case r of
          Write_more i buf written \<Rightarrow> write_pipe_round i buf written k
        | Read_more i ubuf len \<Rightarrow> read_pipe_round i ubuf len k
        | Wait_more n child_tid ucode wuntraced \<Rightarrow> wait_round False n child_tid ucode wuntraced k
        | _ \<Rightarrow> (r, k))"

end
