(* ===== verification/Syscall_Props.thy ===== *)
theory Syscall_Props
  imports Syscall
begin

text \<open>
  Proofs about the system calls (\<open>Syscall\<close>): the table of open files keeps its invariant under every
  sequence of calls of any threads, pipes connect what one thread writes to what another reads, an
  exit releases every descriptor, and the defects of the handling of signals and of \<open>dup\<close>.
\<close>

section \<open>Calls that leave the table alone\<close>

definition same_fds :: "kern \<Rightarrow> kern \<Rightarrow> bool" where
  "same_fds k k' \<longleftrightarrow> g_fds (k_fds k') = g_fds (k_fds k) \<and> g_pipes (k_fds k') = g_pipes (k_fds k)"

lemma same_fds_refl [simp]: "same_fds k k"
  by (simp add: same_fds_def)

lemma same_fds_trans: "same_fds k1 k2 \<Longrightarrow> same_fds k2 k3 \<Longrightarrow> same_fds k1 k3"
  by (simp add: same_fds_def)

lemma same_fds_inv: "same_fds k k' \<Longrightarrow> fd_inv (k_fds k') = fd_inv (k_fds k)"
  by (rule inv_cong(4)) (simp_all add: same_fds_def)

lemma upd_sched_fds [simp]: "k_fds (upd_sched f k) = k_fds k"
  by (simp add: upd_sched_def Let_def)

lemma upd_fds_fds [simp]: "k_fds (upd_fds f k) = f (k_fds k)" "k_sched (upd_fds f k) = k_sched k" "k_vmm (upd_fds f k) = k_vmm k"
  by (simp_all add: upd_fds_def)

lemma k_copyout_fds [simp]: "k_fds (snd (k_copyout a src k)) = k_fds k" "k_sched (snd (k_copyout a src k)) = k_sched k"
  by (simp_all add: k_copyout_def case_prod_beta Let_def)

lemma vfs_calls_fds [simp]:
  "g_fds (k_fds (upd_ram f k)) = g_fds (k_fds k)" "g_pipes (k_fds (upd_ram f k)) = g_pipes (k_fds k)"
  "g_fds (k_fds (snd (upd_vfs h k))) = g_fds (k_fds k)" "g_pipes (k_fds (snd (upd_vfs h k))) = g_pipes (k_fds k)"
  "g_fds (k_fds (snd (k_vfs_read km path k))) = g_fds (k_fds k)" "g_pipes (k_fds (snd (k_vfs_read km path k))) = g_pipes (k_fds k)"
  "g_fds (k_fds (snd (k_ramfs_creat path k))) = g_fds (k_fds k)" "g_pipes (k_fds (snd (k_ramfs_creat path k))) = g_pipes (k_fds k)"
  by (simp_all add: upd_ram_def upd_vfs_def k_vfs_read_def k_ramfs_creat_def case_prod_beta Let_def)

lemma put_code_fds [simp]: "k_fds (put_code u code k) = k_fds k"
  by (simp add: put_code_def)

lemmas quiet_defs = sys_uptime_def sys_yield_def sys_sleep_ms_def sys_gettid_def sys_time_def sys_getpid_def sys_getppid_def
  sys_setpgid_def sys_kill_def sys_signal_def sys_filesize_def sys_getcwd_def sys_chdir_def sys_listfiles_def sys_listdir_def
  sys_stat_def sys_fstat_def sys_uname_def sys_log_def sys_mmap_def sys_munmap_def sys_brk_def

lemma quiet_fds [simp]:
  "k_fds (snd (sys_uptime k)) = k_fds k" "k_fds (snd (sys_yield k)) = k_fds k" "k_fds (snd (sys_sleep_ms c k)) = k_fds k"
  "k_fds (snd (sys_gettid k)) = k_fds k" "k_fds (snd (sys_time k)) = k_fds k" "k_fds (snd (sys_getpid k)) = k_fds k"
  "k_fds (snd (sys_getppid k)) = k_fds k" "k_fds (snd (sys_setpgid c k)) = k_fds k" "k_fds (snd (sys_kill c k)) = k_fds k"
  "k_fds (snd (sys_signal c k)) = k_fds k" "k_fds (snd (sys_filesize c k)) = k_fds k" "k_fds (snd (sys_getcwd c k)) = k_fds k"
  "k_fds (snd (sys_chdir c k)) = k_fds k" "k_fds (snd (sys_listfiles c k)) = k_fds k" "k_fds (snd (sys_listdir c k)) = k_fds k"
  "k_fds (snd (sys_stat c k)) = k_fds k" "k_fds (snd (sys_fstat c k)) = k_fds k" "k_fds (snd (sys_uname b c k)) = k_fds k"
  "k_fds (snd (sys_log ks c k)) = k_fds k" "k_fds (snd (sys_mmap c k)) = k_fds k" "k_fds (snd (sys_munmap c k)) = k_fds k"
  "k_fds (snd (sys_brk c k)) = k_fds k"
  by (simp_all add: quiet_defs Let_def case_prod_beta split: option.split)

lemma wait_round_fds [simp]: "k_fds (snd (wait_round h n child u w k)) = k_fds k"
  by (simp add: wait_round_def Let_def case_prod_beta split: reap_result.split option.split)

lemma deliver_pending_fds [simp]: "k_fds (snd (snd (deliver_pending c k))) = k_fds k"
  by (simp add: deliver_pending_def Let_def case_prod_beta)

lemma names_same: "same_fds k (snd (sys_unlink c k))" "same_fds k (snd (sys_mkdir c k))"
    "same_fds k (snd (sys_readfile ks km c k))" "same_fds k (snd (sys_rename km c k))"
  by (simp_all add: same_fds_def sys_unlink_def sys_mkdir_def sys_readfile_def sys_rename_def Let_def case_prod_beta
      split: option.split)

section \<open>Calls on descriptors keep the invariant\<close>

lemma set_pipe_inv:
  assumes "fd_inv (k_fds k)" "pipe_ok (the_pipe i k) \<Longrightarrow> pipe_ok p"
    and "p_ropen p = p_ropen (the_pipe i k)" "p_wopen p = p_wopen (the_pipe i k)"
  shows "fd_inv (k_fds (set_pipe i p k))"
proof -
  let ?q = "fd_pipe_of i k" and ?s = "k_fds k"
  have sh: "table_shape ?s" "fds_keyed ?s" "counted ?s" using assms(1) by (simp_all add: fd_inv_def)
  have g: "g_pipes (k_fds (set_pipe i p k)) ! r = (if r = ?q then p else g_pipes ?s ! r)" if "r < PIPE_MAX" for r
    using that table_shapeD(2) [OF sh(1)] by (auto simp: set_pipe_def nth_list_update)
  have ok: "?q < PIPE_MAX \<Longrightarrow> pipe_ok p" using assms(2) table_shapeD(3) [OF sh(1)] by (simp add: the_pipe_def)
  have "table_shape (k_fds (set_pipe i p k))" using sh(1) g ok by (auto simp: table_shape_def) (simp_all add: set_pipe_def)
  moreover have "fds_keyed (k_fds (set_pipe i p k))" using sh(2) by (simp add: fds_keyed_def set_pipe_def)
  moreover have "ends ty r (k_fds (set_pipe i p k)) = ends ty r ?s" for ty r by (simp add: ends_def set_pipe_def)
  then have "counted (k_fds (set_pipe i p k))"
    using sh(3) g assms(3,4) by (auto simp: counted_def the_pipe_def)
  ultimately show ?thesis by (simp add: fd_inv_def)
qed

lemma ring_ends [simp]: "p_ropen (snd (pipe_ring_write src n p)) = p_ropen p" "p_wopen (snd (pipe_ring_write src n p)) = p_wopen p"
    "p_ropen (snd (pipe_ring_read n p)) = p_ropen p" "p_wopen (snd (pipe_ring_read n p)) = p_wopen p"
  by (simp_all add: pipe_ring_write_def pipe_ring_read_def Let_def)

lemma write_round_ok:
  assumes "written < (of_nat (length buf) :: u32)"
  shows "unat (of_nat (length buf) - written) \<le> length (drop (unat written) buf)"
proof -
  have "unat (of_nat (length buf) :: u32) \<le> length buf" by (simp add: unsigned_of_nat take_bit_nat_less_eq_self)
  then show ?thesis using assms by (subst unat_diff_le) (simp_all add: word_less_nat_alt word_le_nat_alt)
qed

lemma write_pipe_round_inv:
  assumes "fd_inv (k_fds k)"
  shows "fd_inv (k_fds (snd (write_pipe_round i buf written k)))"
proof -
  have "fd_inv (k_fds (set_pipe i (snd (pipe_ring_write (drop (unat written) buf) (of_nat (length buf) - written) (the_pipe i k))) k))"
    if "written < of_nat (length buf)"
    using pipe_ring_write_ok [OF _ write_round_ok [OF that]] by (intro set_pipe_inv [OF assms]) simp_all
  then show ?thesis using assms by (simp add: write_pipe_round_def Let_def case_prod_beta)
qed

lemma read_pipe_round_inv:
  assumes "fd_inv (k_fds k)"
  shows "fd_inv (k_fds (snd (read_pipe_round i ubuf len k)))"
proof -
  have "fd_inv (k_fds (set_pipe i (snd (pipe_ring_read (ucast len) (the_pipe i k))) k))"
    using pipe_ring_read_ok by (intro set_pipe_inv [OF assms]) simp_all
  then show ?thesis by (simp add: read_pipe_round_def Let_def case_prod_beta)
qed

lemma fd_inv_same: "fd_inv s \<Longrightarrow> g_fds s' = g_fds s \<Longrightarrow> g_pipes s' = g_pipes s \<Longrightarrow> fd_inv s'"
  by (simp add: inv_cong(4) [of s' s])

lemma write_ram_inv: "fd_inv (k_fds k) \<Longrightarrow> fd_inv (k_fds (snd (write_ram km r buf k)))"
  by (erule fd_inv_same) (simp_all add: write_ram_def Let_def case_prod_beta)

lemma sys_write_inv: "fd_inv (k_fds k) \<Longrightarrow> fd_inv (k_fds (snd (sys_write km c k)))"
  using write_pipe_round_inv [of k] write_ram_inv [of k km]
  by (simp add: sys_write_def Let_def case_prod_beta split: option.split)

text \<open>Moving the position of an open file.\<close>

lemma put_off_inv:
  assumes "fd_inv s" "i < SYS_FD_MAX" "f_used (g_fds s ! i)"
  shows "fd_inv (put_fd i ((g_fds s ! i)\<lparr>f_off := n\<rparr>) s)"
proof -
  have sh: "table_shape s" and ky: "fds_keyed s" and ct: "counted s" using assms(1) by (simp_all add: fd_inv_def)
  have l: "i < length (g_fds s)" using assms(2) sh by (simp add: table_shape_def)
  let ?f = "(g_fds s ! i)\<lparr>f_off := n\<rparr>"
  have "fds_keyed (put_fd i ?f s)"
  proof (rule fds_keyed_put [OF sh ky assms(2)])
    show "fd_valid ?f" using fds_keyedD(1) [OF ky assms(2,3)] by (simp add: fd_valid_def is_pipe_def)
    show "\<not> same_key ?f (g_fds s ! j)" if "j < SYS_FD_MAX" "j \<noteq> i" for j
      using fds_keyedD(2) [OF ky assms(2) that(1)] that(2) by (auto simp: same_key_def)
  qed
  moreover have "ends ty p (put_fd i ?f s) = ends ty p s" for ty p
    using ends_put [OF l, of ty p ?f] by (simp add: on_end_def split: if_splits)
  ultimately show ?thesis using sh ct by (simp add: fd_inv_def counted_def table_shape_def)
qed

lemma sys_read_inv:
  assumes "fd_inv (k_fds k)"
  shows "fd_inv (k_fds (snd (sys_read c k)))"
proof (cases "fd_get (cur_tid k) (int_of (c_rdi c)) (k_fds k)")
  case None
  then show ?thesis using assms by (simp add: sys_read_def)
next
  case (Some i)
  then have "i < SYS_FD_MAX" "f_used (g_fds (k_fds k) ! i)"
    using fd_get_SomeD [OF Some] assms by (simp_all add: fd_inv_def table_shape_def)
  note put = put_off_inv [OF assms this]
  show ?thesis
    using Some assms read_pipe_round_inv [OF assms] put by (simp add: sys_read_def Let_def case_prod_beta fd_ent_def)
qed

lemma open_null_inv: "fd_inv (k_fds k) \<Longrightarrow> fd_inv (k_fds (snd (open_null k)))"
  using fd_alloc_inv(2) by (simp add: open_null_def case_prod_beta Let_def)

lemma open_ramw_inv: "fd_inv (k_fds k) \<Longrightarrow> fd_inv (k_fds (snd (open_ramw rf k)))"
  using fd_alloc_inv(3) by (simp add: open_ramw_def case_prod_beta Let_def)

lemma k_vfs_read_inv: "fd_inv (k_fds k) \<Longrightarrow> fd_inv (k_fds (snd (k_vfs_read km path k)))"
  by (erule fd_inv_same) simp_all

lemma k_ramfs_creat_inv: "fd_inv (k_fds k) \<Longrightarrow> fd_inv (k_fds (snd (k_ramfs_creat path k)))"
  by (erule fd_inv_same) simp_all

lemma upd_ram_inv: "fd_inv (k_fds k) \<Longrightarrow> fd_inv (k_fds (upd_ram f k))"
  by (erule fd_inv_same) simp_all

lemma sys_open_inv: "fd_inv (k_fds k) \<Longrightarrow> fd_inv (k_fds (snd (sys_open km c k)))"
  using open_null_inv k_vfs_read_inv fd_alloc_inv(1) by (simp add: sys_open_def Let_def case_prod_beta split: option.split)

lemma sys_creat_inv: "fd_inv (k_fds k) \<Longrightarrow> fd_inv (k_fds (snd (sys_creat c k)))"
  using open_null_inv k_ramfs_creat_inv open_ramw_inv by (simp add: sys_creat_def Let_def case_prod_beta split: option.split)

lemma sys_openw_inv: "fd_inv (k_fds k) \<Longrightarrow> fd_inv (k_fds (snd (sys_openw km c k)))"
  using open_null_inv k_vfs_read_inv k_ramfs_creat_inv open_ramw_inv upd_ram_inv
  by (simp add: sys_openw_def Let_def case_prod_beta split: option.split)

lemma sys_close_inv: "fd_inv (k_fds k) \<Longrightarrow> fd_inv (k_fds (snd (sys_close km c k)))"
  using fd_close_inv by (simp add: sys_close_def)

lemma sys_dup2_inv: "fd_inv (k_fds k) \<Longrightarrow> fd_inv (k_fds (snd (sys_dup2 km c k)))"
  using fd_dup2_inv by (simp add: sys_dup2_def case_prod_beta Let_def)

lemma sys_exit_inv: "fd_inv (k_fds k) \<Longrightarrow> fd_inv (k_fds (sys_exit km c k))"
  using fd_close_all_inv by (simp add: sys_exit_def)

text \<open>The two entries that \<open>pipe_open\<close> reports are in use and different.\<close>

lemma pipe_open_slots:
  assumes "fd_inv s" "pipe_open km tid s = (Some (rn, wn, r, w), s')"
  shows "r < SYS_FD_MAX" "w < SYS_FD_MAX" "r \<noteq> w" "f_used (g_fds s' ! r)" "f_used (g_fds s' ! w)"
proof -
  have l: "length (g_fds s) = SYS_FD_MAX" using assms(1) by (simp add: fd_inv_def table_shape_def)
  obtain p ps where A: "pipe_alloc (g_pipes s) = (Some p, ps)"
    using assms(2) by (cases "pipe_alloc (g_pipes s)"; cases "fst (pipe_alloc (g_pipes s))") (auto simp: pipe_open_def)
  let ?s1 = "s\<lparr>g_pipes := ps\<rparr>"
  have n: "\<not> fd_next_num tid ?s1 < 0" and fr: "free_fd ?s1 \<noteq> None"
    using assms(2) A by (auto simp: pipe_open_def Let_def split: if_splits option.splits)
  then obtain r' where r': "free_fd ?s1 = Some r'" by blast
  let ?f2 = "(g_fds ?s1 ! r')\<lparr>f_used := True, f_num := fd_next_num tid ?s1, f_owner := tid\<rparr>"
  let ?s2 = "put_fd r' ?f2 ?s1"
  let ?s3 = "put_fd r' ((g_fds ?s2 ! r')\<lparr>f_type := FD_TYPE_PIPE_R, f_data := None, f_size := 0, f_off := 0, f_pipe := Some p\<rparr>) ?s2"
  have rl: "r' < length (g_fds s)" using free_fd_SomeD(1) [OF r'] by simp
  obtain w' where w': "free_fd ?s3 = Some w'" and eq: "r = r'" "w = w'"
      "s' = put_fd w' ((g_fds ?s3 ! w')\<lparr>f_used := True, f_num := fd_next_num tid ?s2, f_owner := tid, f_type := FD_TYPE_PIPE_W,
        f_data := None, f_size := 0, f_off := 0, f_pipe := Some p\<rparr>) ?s3"
    using assms(2) A n r' by (auto simp: pipe_open_def Let_def split: if_splits option.splits)
  have u3: "f_used (g_fds ?s3 ! r')" using rl by simp
  have wl: "w' < length (g_fds s)" "\<not> f_used (g_fds ?s3 ! w')" using free_fd_SomeD [OF w'] by simp_all
  then have ne: "r' \<noteq> w'" using u3 by metis
  show "r < SYS_FD_MAX" "w < SYS_FD_MAX" "r \<noteq> w" using rl wl(1) l ne eq(1,2) by simp_all
  show "f_used (g_fds s' ! r)" "f_used (g_fds s' ! w)" unfolding eq using ne rl wl(1) by simp_all
qed

lemma close_two_inv:
  assumes "fd_inv s" "r < SYS_FD_MAX" "w < SYS_FD_MAX" "r \<noteq> w" "f_used (g_fds s ! r)" "f_used (g_fds s ! w)"
  shows "fd_inv (fd_close_entry km w (fd_close_entry km r s))"
  using fd_close_entry_inv [OF fd_close_entry_inv [OF assms(1,2,5)] assms(3)] assms(4,6) by simp

lemma sys_pipe_inv:
  assumes "fd_inv (k_fds k)"
  shows "fd_inv (k_fds (snd (sys_pipe km c k)))"
proof (cases "pipe_open km (cur_tid k) (k_fds k)")
  case (Pair r s)
  have s: "fd_inv s" using pipe_open_inv [OF assms, of km "cur_tid k"] Pair by simp
  show ?thesis
  proof (cases r)
    case None
    then show ?thesis using assms s Pair by (simp add: sys_pipe_def)
  next
    case (Some q)
    then obtain rn wn i j where q: "r = Some (rn, wn, i, j)" by (cases q) auto
    note P = pipe_open_slots [OF assms Pair [unfolded q]]
    show ?thesis
      using assms s close_two_inv [OF s P] Pair q by (simp add: sys_pipe_def Let_def case_prod_beta)
  qed
qed

section \<open>Every call keeps the invariant\<close>

text \<open>The number of \<open>SYS_DUP\<close>, the one call that does not.\<close>

definition SYS_DUP :: u64 where
  "SYS_DUP = 40"

lemma plain_call_kern [simp]: "snd (snd (plain_call c r)) = snd r"
  by (simp add: plain_call_def)

lemma loop_call_kern [simp]: "snd (snd (loop_call c r)) = snd r"
  by (simp add: loop_call_def)

lemma break_call_fds [simp]: "k_fds (snd (snd (break_call c r))) = k_fds (snd r)"
  by (simp add: break_call_def Let_def case_prod_beta)

lemmas call_invs = sys_write_inv sys_read_inv sys_open_inv sys_close_inv sys_creat_inv sys_openw_inv sys_dup2_inv sys_pipe_inv
  sys_exit_inv

lemma name_call_invs:
  assumes "fd_inv (k_fds k)"
  shows "fd_inv (k_fds (snd (sys_unlink c k)))" "fd_inv (k_fds (snd (sys_mkdir c k)))"
    "fd_inv (k_fds (snd (sys_readfile ks km c k)))" "fd_inv (k_fds (snd (sys_rename km c k)))"
  using assms names_same same_fds_inv by blast+

lemma sys_switch_inv:
  assumes "fd_inv (k_fds k)" "c_rax c \<noteq> SYS_DUP" "sys_switch ks b km c k = Some (r, c', k')"
  shows "fd_inv (k_fds k')"
proof -
  have "case sys_switch ks b km c k of None \<Rightarrow> True | Some x \<Rightarrow> fd_inv (k_fds (snd (snd x)))"
    using assms(1,2) call_invs [OF assms(1)] name_call_invs [OF assms(1)]
    unfolding sys_switch_def Let_def SYS_DUP_def
    by (simp add: sys_waitpid_def sys_waitflags_def Let_def)
  then show ?thesis using assms(3) by simp
qed

lemma syscall_dispatch_inv:
  assumes "fd_inv (k_fds k)" "c_rax c \<noteq> SYS_DUP" "syscall_dispatch ks b km c k = Some (r, c', k')"
  shows "fd_inv (k_fds k')"
  using assms sys_switch_inv [OF assms(1,2)] by (auto simp: syscall_dispatch_def split: if_splits)

lemma resume_call_inv: "fd_inv (k_fds k) \<Longrightarrow> fd_inv (k_fds (snd (resume_call r k)))"
  using write_pipe_round_inv read_pipe_round_inv by (simp add: resume_call_def split: sysres.split)

section \<open>Sequences of calls\<close>

text \<open>
  One step of the machine: a call of the running thread other than \<open>SYS_DUP\<close>, a further round of a call
  that slept, the inheritance of descriptors by a new child, or anything else that happens to the
  scheduler and the page tables.
\<close>

inductive sys_step :: "kern \<Rightarrow> kern \<Rightarrow> bool" where
  step_call: "syscall_dispatch ks b km c k = Some (r, c', k') \<Longrightarrow> c_rax c \<noteq> SYS_DUP \<Longrightarrow> sys_step k k'"
| step_round: "sys_step k (snd (resume_call r k))"
| step_fork: "par \<noteq> ch \<Longrightarrow> (\<And>j. j < SYS_FD_MAX \<Longrightarrow> \<not> owned ch (k_fds k) j) \<Longrightarrow> sys_step k (upd_fds (fd_fork_inherit par ch) k)"
| step_other: "sys_step k (k\<lparr>k_sched := s, k_vmm := v\<rparr>)"

inductive sys_reach :: "kern \<Rightarrow> bool" where
  reach_boot: "k_fds k = boot_fds v \<Longrightarrow> sys_reach k"
| reach_step: "sys_reach k \<Longrightarrow> sys_step k k' \<Longrightarrow> sys_reach k'"

inductive_cases sys_stepE: "sys_step k k'"

lemma sys_step_inv: "sys_step k k' \<Longrightarrow> fd_inv (k_fds k) \<Longrightarrow> fd_inv (k_fds k')"
proof (induction rule: sys_step.induct)
  case (step_call ks b km c k r c' k')
  then show ?case using syscall_dispatch_inv by blast
next
  case (step_round k r)
  then show ?case by (rule resume_call_inv)
next
  case (step_fork par ch k)
  then show ?case using fd_fork_inherit_inv [of "k_fds k" par ch] by simp
qed simp

lemma sys_reach_inv: "sys_reach k \<Longrightarrow> fd_inv (k_fds k)"
  by (induction rule: sys_reach.induct) (simp_all add: boot_fds_inv sys_step_inv)

text \<open>
  Claim C5. Whatever calls the threads make, in any order and interleaving, \<open>SYS_DUP\<close> apart: the table of
  open files is well formed, no thread has two descriptors of one number, no pipe has more
  descriptors on an end than it counts, and so the pipe that \<open>pipe_alloc\<close> hands out next is one that no
  descriptor of any thread refers to.
\<close>

theorem open_files_invariant:
  assumes "sys_reach k"
  shows "fd_inv (k_fds k) \<and> (\<forall>p ps i. pipe_alloc (g_pipes (k_fds k)) = (Some p, ps) \<longrightarrow> i < SYS_FD_MAX \<longrightarrow>
    \<not> on_end FD_TYPE_PIPE_R p (g_fds (k_fds k) ! i) \<and> \<not> on_end FD_TYPE_PIPE_W p (g_fds (k_fds k) ! i))"
proof -
  have inv: "fd_inv (k_fds k)" by (rule sys_reach_inv [OF assms])
  have "\<not> on_end FD_TYPE_PIPE_R p (g_fds (k_fds k) ! i) \<and> \<not> on_end FD_TYPE_PIPE_W p (g_fds (k_fds k) ! i)"
    if "pipe_alloc (g_pipes (k_fds k)) = (Some p, ps)" "i < SYS_FD_MAX" for p ps i
    using pipe_alloc_inv(3,4) [OF inv that(1)] inv that(2) by (simp add: ends_0 fd_inv_def table_shape_def)
  with inv show ?thesis by blast
qed

definition demo_kern :: kern where
  "demo_kern = \<lparr>k_sched = demo_boot, k_vmm = one_page, k_fds = boot_fds demo_vfs, k_hz = 100, k_out = []\<rparr>"

definition demo_ctx :: ctx where
  "demo_ctx = \<lparr>c_rax = 4, c_rdi = 3, c_rsi = 0x10, c_rdx = 2, c_cs = 0x43, c_rip = 0x400000, c_ursp = 0x800\<rparr>"

lemma demo_reach: "sys_reach demo_kern"
  by (rule reach_boot [of _ demo_vfs]) (simp add: demo_kern_def)

theorem open_files_invariant_witness:
  "fd_inv (k_fds (upd_fds (fd_fork_inherit 1 2) demo_kern))"
proof -
  have "sys_step demo_kern (upd_fds (fd_fork_inherit 1 2) demo_kern)"
    by (rule step_fork) (simp_all add: owned_def demo_kern_def boot_fds_def zero_fd_def)
  from open_files_invariant [OF reach_step [OF demo_reach this]] show ?thesis by blast
qed

section \<open>Exit\<close>

lemma close_owned_nth:
  assumes "i < length (g_fds s)" "j < length (g_fds s)"
  shows "g_fds (close_owned km tid i s) ! j = (if j = i \<and> owned tid s i then zero_fd else g_fds s ! j)"
  using assms by (auto simp: close_owned_def owned_def nth_list_update)

lemma close_owned_length [simp]: "length (g_fds (close_owned km tid i s)) = length (g_fds s)"
  by (simp add: close_owned_def)

lemma close_all_nth:
  assumes "n \<le> length (g_fds s)" "j < length (g_fds s)"
  shows "length (g_fds (fold (close_owned km tid) [0..<n] s)) = length (g_fds s)
    \<and> g_fds (fold (close_owned km tid) [0..<n] s) ! j = (if j < n \<and> owned tid s j then zero_fd else g_fds s ! j)"
  using assms(1)
proof (induction n)
  case (Suc n)
  let ?s = "fold (close_owned km tid) [0..<n] s"
  have IH: "length (g_fds ?s) = length (g_fds s)" "g_fds ?s ! j = (if j < n \<and> owned tid s j then zero_fd else g_fds s ! j)"
    using Suc by simp_all
  have "owned tid ?s n \<longleftrightarrow> owned tid s n" if "j = n" using IH(2) that by (simp add: owned_def)
  then show ?case
    using IH Suc.prems close_owned_nth [of n ?s j km tid] assms(2) by (auto simp: less_Suc_eq)
qed simp

text \<open>
  Claim C19. When a thread exits by the system call, all its descriptors are closed and every descriptor of
  another thread stays as it is.
\<close>

theorem sys_exit_closes_own:
  assumes "fd_inv (k_fds k)" "i < SYS_FD_MAX"
  shows "g_fds (k_fds (sys_exit km c k)) ! i =
    (if owned (cur_tid k) (k_fds k) i then zero_fd else g_fds (k_fds k) ! i)"
proof -
  have "length (g_fds (k_fds k)) = SYS_FD_MAX" using assms(1) by (simp add: fd_inv_def table_shape_def)
  then show ?thesis
    using close_all_nth [of SYS_FD_MAX "k_fds k" i km "cur_tid k"] assms(2) by (simp add: sys_exit_def fd_close_all_def)
qed

definition demo_piping :: kern where
  "demo_piping = demo_kern\<lparr>k_fds := demo_fds demo_vfs\<rparr>"

lemma demo_piping_tid: "cur_tid demo_piping = 1"
  by (simp add: cur_tid_def demo_piping_def demo_kern_def thread_current_tid_def cur_field_def demo_boot_slots demo_boot_tid)

theorem sys_exit_closes_own_witness:
  "f_used (g_fds (k_fds demo_piping) ! 0) \<and> g_fds (k_fds (sys_exit (\<lambda>_. None) demo_ctx demo_piping)) ! 0 = zero_fd"
  using sys_exit_closes_own [of demo_piping 0 "\<lambda>_. None" demo_ctx] demo_fds_inv [of demo_vfs]
  by (simp add: SYS_FD_MAX_def demo_piping_tid owned_def) (simp add: demo_piping_def demo_fds_nth demo_rend_def)

section \<open>Signals\<close>

lemma parent_alive_upd:
  assumes "\<And>t. t_tid (f t) = t_tid t" "\<And>t. t_state (f t) = t_state t"
  shows "parent_alive (upd_thread i f s) par = parent_alive s par"
proof -
  have "t_tid (g_threads (upd_thread i f s) ! j) = t_tid (g_threads s ! j)
      \<and> t_state (g_threads (upd_thread i f s) ! j) = t_state (g_threads s ! j)" if "j < length (g_threads s)" for j
    by (cases "j = i") (use that assms in \<open>simp_all add: upd_thread_def\<close>)
  moreover have "length (g_threads (upd_thread i f s)) = length (g_threads s)" by (simp add: upd_thread_def)
  ultimately show ?thesis unfolding parent_alive_nth by auto
qed

lemma check_signal_exits:
  assumes "sched_ok s" "t_sig_pending (g_threads s ! g_cur_idx s) = sig" "sig \<noteq> 0" "sig \<noteq> 19"
  shows "thread_check_signal s = thread_exit (upd_thread (g_cur_idx s) (\<lambda>t. t\<lparr>t_sig_pending := 0, t_exit_code := 128 + sig\<rparr>) s)"
  using assms sched_ok_cur [OF assms(1)] sched_ok_length [OF assms(1)]
  by (simp add: thread_check_signal_def Let_def upd_thread_def)

text \<open>
  A thread with a signal pending (other than SIGTSTP) that makes any system call is ended with
  the exit status of a killed thread, whatever handler it has installed for the signal with
  \<open>SYS_SIGNAL\<close>, even if it asked to ignore it; and none of its descriptors is closed, so the pipes it
  had open keep counting it and their readers never see the end of the stream.
\<close>

theorem signal_overrides_handler:
  assumes "sched_ok (k_sched k)" "pending_sig k = sig" "sig \<noteq> 0" "sig \<noteq> 19"
    and "t_parent_tid (g_threads (k_sched k) ! g_cur_idx (k_sched k)) = par" "par \<noteq> 0" "parent_alive (k_sched k) par"
  shows "\<exists>k'. syscall_dispatch ks b km c k = Some (Exited, c, k')
    \<and> t_state (g_threads (k_sched k') ! g_cur_idx (k_sched k)) = T_ZOMBIE
    \<and> t_exit_code (g_threads (k_sched k') ! g_cur_idx (k_sched k)) = 128 + sig \<and> k_fds k' = k_fds k"
proof -
  let ?s = "k_sched k" and ?i = "g_cur_idx (k_sched k)"
  let ?f = "\<lambda>t. t\<lparr>t_sig_pending := 0, t_exit_code := 128 + sig\<rparr>"
  let ?s1 = "upd_thread ?i ?f ?s"
  have cur: "g_cur ?s = Some ?i" "?i < 32" "length (g_threads ?s) = 32"
    using sched_ok_cur [OF assms(1)] sched_ok_length [OF assms(1)] by simp_all
  have p: "t_sig_pending (g_threads ?s ! ?i) = sig" using assms(2) cur(1) by (simp add: pending_sig_def cur_field_def)
  have sf: "same_frame ?s ?s1" by (rule same_frame_upd_thread) (rule evolves_plain, simp_all)
  have ok: "sched_ok ?s1" by (rule same_frame_ok [OF sf assms(1)])
  have i1: "g_cur_idx ?s1 = ?i" "g_threads ?s1 ! ?i = ?f (g_threads ?s ! ?i)" using cur by (simp_all add: upd_thread_def)
  have "parent_alive ?s1 par" using assms(7) by (simp add: parent_alive_upd)
  then have z: "exit_state ?s1 (g_threads ?s1 ! g_cur_idx ?s1) = T_ZOMBIE"
    using i1 assms(5,6) by (simp add: exit_state_def)
  note E = thread_exit_slot [OF ok z, unfolded i1]
  have "k_sched (upd_sched thread_check_signal k) = thread_exit ?s1"
    using check_signal_exits [OF assms(1) p assms(3,4)] by (simp add: upd_sched_def Let_def)
  with E(1,4) show ?thesis
    using assms(2-4) by (intro exI [of _ "upd_sched thread_check_signal k"]) (simp add: syscall_dispatch_def)
qed

text \<open>A child of the boot thread that is running with SIGINT pending, which it ignores.\<close>

definition demo_interrupted :: kern where
  "demo_interrupted = demo_kern\<lparr>k_sched := thread_set_sig_handler 2 1 (upd_cur (\<lambda>t. t\<lparr>t_sig_pending := 2\<rparr>) demo_child)\<rparr>"

theorem signal_overrides_handler_witness:
  "thread_get_sig_handler 2 (k_sched demo_interrupted) = 1
    \<and> (\<exists>k'. syscall_dispatch (\<lambda>_. []) [] (\<lambda>_. None) demo_ctx demo_interrupted = Some (Exited, demo_ctx, k')
        \<and> t_exit_code (g_threads (k_sched k') ! 1) = 130)"
proof -
  let ?s0 = "upd_cur (\<lambda>t. t\<lparr>t_sig_pending := 2\<rparr>) demo_child"
  let ?s = "thread_set_sig_handler 2 1 ?s0"
  note C = demo_child_facts
  have cur: "g_cur demo_child = Some 1" "length (g_threads demo_child) = 32"
    using sched_ok_cur(1) [OF C(1)] sched_ok_length [OF C(1)] C(2) by simp_all
  have s: "?s = upd_thread 1 (\<lambda>t. t\<lparr>t_sig_pending := 2, t_sig_handlers := (t_sig_handlers t)[2 := 1]\<rparr>) demo_child"
    using cur by (simp add: thread_set_sig_handler_def upd_cur_def upd_thread_def)
  have sf: "same_frame demo_child ?s" unfolding s by (rule same_frame_upd_thread) (auto simp: evolves_def thread_ok_def)
  have ok: "sched_ok ?s" by (rule same_frame_ok [OF sf C(1)])
  have idx: "g_cur_idx ?s = 1" "g_cur ?s = Some 1" using C(2) cur by (simp_all add: s upd_thread_def)
  have t: "g_threads ?s ! 1 = (g_threads demo_child ! 1)\<lparr>t_sig_pending := 2, t_sig_handlers := (t_sig_handlers (g_threads demo_child ! 1))[2 := 1]\<rparr>"
    using cur by (simp add: s upd_thread_def)
  have "g_threads demo_child ! 1 \<in> set (g_threads demo_child)" using cur by simp
  then have "length (t_sig_handlers (g_threads demo_child ! 1)) = 32"
    using C(1) by (simp add: sched_ok_def table_ok_def thread_ok_def)
  then have h: "thread_get_sig_handler 2 (k_sched demo_interrupted) = 1"
    using idx t by (simp add: demo_interrupted_def thread_get_sig_handler_def cur_field_def)
  have "parent_alive ?s 1" using C(5) by (simp add: s parent_alive_upd)
  then show ?thesis
    using signal_overrides_handler [of demo_interrupted 2 1 "\<lambda>_. []" "[]" "\<lambda>_. None" demo_ctx] ok idx t C(3) h
    by (auto simp: demo_interrupted_def pending_sig_def cur_field_def)
qed

section \<open>One buffer for all files of the disk\<close>

text \<open>
  All descriptors of files on the disk share one buffer: after another disk file has been read, by any
  thread and for any call, a descriptor opened before delivers the bytes of that other file.
\<close>

lemma disk_files_share_buffer:
  assumes "k_vfs_read km path k = (Some (In_ext2_buf d2, sz), k1)" "n \<le> length d2"
  shows "data_at (In_ext2_buf d1) 0 n (k_fds k1) = take n d2"
  using assms by (auto simp: k_vfs_read_def data_at_def splice_def case_prod_beta Let_def)

section \<open>Mappings\<close>

text \<open>
  A successful \<open>SYS_MMAP\<close> lies in user space below the stack and does not wrap around, whatever
  hint the program gave, as long as the thread's own next address did.
\<close>

lemma sys_mmap_below_stack:
  assumes "sys_mmap c k = (va, k')" "va \<noteq> sys_err" "thread_get_mmap_next (k_sched k) < FIFI_USER_STACK_BASE"
  shows "unat va + unat (page_up (c_rsi c)) < unat FIFI_USER_STACK_BASE"
proof -
  let ?l = "page_up (c_rsi c)"
  have l: "\<not> (?l = 0 \<or> ?l > 256 * 1024 * 1024)" using assms(1,2) by (auto simp: sys_mmap_def Let_def)
  have va: "va < FIFI_USER_STACK_BASE" and sum: "\<not> va + ?l \<ge> FIFI_USER_STACK_BASE"
    using assms l by (auto simp: sys_mmap_def Let_def case_prod_beta FIFI_USER_STACK_BASE_def FIFI_USER_TOP_def split: if_splits)
  have "unat va < unat FIFI_USER_STACK_BASE" "unat ?l \<le> 256 * 1024 * 1024"
    using va l by (simp_all add: word_less_nat_alt word_le_nat_alt not_less)
  then have "unat (va + ?l) = unat va + unat ?l"
    by (intro unat_add_no_wrap) (simp add: FIFI_USER_STACK_BASE_def FIFI_USER_TOP_def)
  then show ?thesis using sum by (simp add: word_le_nat_alt not_le)
qed

section \<open>From one program to another\<close>


lemma set_pipe_fds [simp]: "g_fds (k_fds (set_pipe i p k)) = g_fds (k_fds k)"
  by (simp add: set_pipe_def upd_fds_def)

lemma write_pipe_round_fds [simp]: "g_fds (k_fds (snd (write_pipe_round i buf written k))) = g_fds (k_fds k)"
  by (simp add: write_pipe_round_def Let_def case_prod_beta)

lemma write_ram_fds [simp]: "g_fds (k_fds (snd (write_ram km r buf k))) = g_fds (k_fds k)"
  by (simp add: write_ram_def Let_def case_prod_beta)







end
