(* ===== verification/Keyboard.thy ===== *)
theory Keyboard
  imports Workqueue Stream_Interface Thread
begin

text \<open>
  The keyboard, \<open>kernel/src/keyboard.c\<close>: the decoder of Set 2 scancodes, its filter of repeated make
  codes, key repeat, and the two rings of characters, one for the shell and the system call, one for
  the desktop. \<open>pit_ticks()\<close> is the argument \<open>now\<close>. The controller's output buffer is the list of bytes
  that wait there, each with the bit that says that it comes from the mouse; bytes for \<open>mouse.c\<close> are
  collected in a list, and what \<open>acpi_ec_kbd_check\<close> adds is an argument of \<open>keyboard_try_getchar\<close>. The
  set-up of the controller and the printed diagnostics are left out.

  An access to an array outside its bounds is undefined in C. The field \<open>kbd_fault\<close>, which is no variable
  of the code, records that one has happened: every read and write of an array goes through \<open>access\<close>
  with its index and the size of the array.
\<close>

section \<open>State\<close>

record kbd =
  kbd_buf :: bytes
  kbd_head :: u32
  kbd_tail :: u32
  gui_buf :: bytes
  gui_head :: u32
  gui_tail :: u32
  g_gui_capture :: bool
  g_kbd_irq_count :: u64
  raw_capture_mode :: int
  raw_bytes_total :: u32
  raw_bytes_aux :: u32
  shift_down :: bool
  ctrl_down :: bool
  alt_down :: bool
  ext_e0 :: bool
  key_f0 :: bool
  sc_make_cnt :: "u32 list"
  sc_break_cnt :: "u32 list"
  g_sc_held :: "u64 list"
  g_sc_held_ext :: u64
  g_rep_char :: u8
  g_rep_sc :: u8
  g_rep_ext :: bool
  g_rep_start :: u64
  g_rep_last :: u64
  g_last_ps2_tick :: u64
  g_hid_rep_kc :: u8
  g_hid_kb_present :: bool
  kbd_fault :: bool

definition KBD_BUF_SIZE :: u32 where
  "KBD_BUF_SIZE = 256"

definition GUI_BUF_SIZE :: u32 where
  "GUI_BUF_SIZE = 64"

definition REP_DELAY_TICKS :: u64 where
  "REP_DELAY_TICKS = 45"

definition REP_RATE_TICKS :: u64 where
  "REP_RATE_TICKS = 3"

definition REP_MAX_TICKS :: u64 where
  "REP_MAX_TICKS = 300"

definition REP_SILENCE_TICKS :: u64 where
  "REP_SILENCE_TICKS = 60"

definition MOD_CLEAR_TICKS :: u64 where
  "MOD_CLEAR_TICKS = 200"

text \<open>The static variables at start-up.\<close>

definition boot_kbd :: kbd where
  "boot_kbd = \<lparr>kbd_buf = replicate 256 0, kbd_head = 0, kbd_tail = 0, gui_buf = replicate 64 0, gui_head = 0, gui_tail = 0,
     g_gui_capture = False, g_kbd_irq_count = 0, raw_capture_mode = 0, raw_bytes_total = 0, raw_bytes_aux = 0,
     shift_down = False, ctrl_down = False, alt_down = False, ext_e0 = False, key_f0 = False,
     sc_make_cnt = replicate 128 0, sc_break_cnt = replicate 128 0, g_sc_held = [0, 0], g_sc_held_ext = 0,
     g_rep_char = 0, g_rep_sc = 0, g_rep_ext = False, g_rep_start = 0, g_rep_last = 0, g_last_ps2_tick = 0,
     g_hid_rep_kc = 0, g_hid_kb_present = False, kbd_fault = False\<rparr>"

definition access :: "nat \<Rightarrow> nat \<Rightarrow> kbd \<Rightarrow> kbd" where
  "access i n k = (if i < n then k else k\<lparr>kbd_fault := True\<rparr>)"

section \<open>The rings\<close>

text \<open>Two functions that only read: \<open>None\<close> is a read outside the array.\<close>

definition keyboard_sc_make :: "u8 \<Rightarrow> kbd \<Rightarrow> u32 option" where
  "keyboard_sc_make sc k =
     (if sc < 128 then if unat sc < length (sc_make_cnt k) then Some (sc_make_cnt k ! unat sc) else None else Some 0)"

definition keyboard_sc_break :: "u8 \<Rightarrow> kbd \<Rightarrow> u32 option" where
  "keyboard_sc_break sc k =
     (if sc < 128 then if unat sc < length (sc_break_cnt k) then Some (sc_break_cnt k ! unat sc) else None else Some 0)"

definition keyboard_set_hid_present :: "kbd \<Rightarrow> kbd" where
  "keyboard_set_hid_present k = k\<lparr>g_hid_kb_present := True\<rparr>"

definition keyboard_clear_state :: "u64 \<Rightarrow> kbd \<Rightarrow> kbd" where
  "keyboard_clear_state now k =
     k\<lparr>g_sc_held := [0, 0], g_sc_held_ext := 0, g_rep_char := 0, g_rep_sc := 0, g_rep_ext := False, g_hid_rep_kc := 0,
       shift_down := False, ctrl_down := False, alt_down := False, ext_e0 := False, key_f0 := False,
       g_last_ps2_tick := now, kbd_tail := kbd_head k\<rparr>"

definition gui_put :: "u8 \<Rightarrow> kbd \<Rightarrow> kbd" where
  "gui_put c k =
     (let next' = (gui_head k + 1) mod GUI_BUF_SIZE in
      if next' \<noteq> gui_tail k then
        (access (unat (gui_head k)) (length (gui_buf k)) k)\<lparr>gui_buf := (gui_buf k)[unat (gui_head k) := c], gui_head := next'\<rparr>
      else k)"

definition kbd_put :: "u8 \<Rightarrow> kbd \<Rightarrow> kbd" where
  "kbd_put c k =
     (let next' = (kbd_head k + 1) mod KBD_BUF_SIZE in
      if next' = kbd_tail k then k
      else (access (unat (kbd_head k)) (length (kbd_buf k)) k)\<lparr>kbd_buf := (kbd_buf k)[unat (kbd_head k) := c], kbd_head := next'\<rparr>)"

definition kbd_push :: "u8 \<Rightarrow> kbd \<Rightarrow> kbd" where
  "kbd_push c k = (if g_gui_capture k then gui_put c k else kbd_put c k)"

definition kbd_take :: "kbd \<Rightarrow> (u8 \<times> kbd) option" where
  "kbd_take k =
     (if kbd_tail k = kbd_head k then None
      else Some (kbd_buf k ! unat (kbd_tail k),
        (access (unat (kbd_tail k)) (length (kbd_buf k)) k)\<lparr>kbd_tail := (kbd_tail k + 1) mod KBD_BUF_SIZE\<rparr>))"

definition keyboard_try_getchar :: "(kbd \<Rightarrow> kbd) \<Rightarrow> kbd \<Rightarrow> int \<times> kbd" where
  "keyboard_try_getchar ec_check k =
     (let k = (if kbd_tail k = kbd_head k then ec_check k else k) in
      case kbd_take k of None \<Rightarrow> (- 1, k) | Some (c, k') \<Rightarrow> (uint c, k'))"

definition keyboard_irq_count :: "kbd \<Rightarrow> u64" where
  "keyboard_irq_count k = g_kbd_irq_count k"

section \<open>The layout\<close>

text \<open>The entries of both tables, in the order of the codes; \<open>9\<close> is tab, \<open>10\<close> newline, \<open>8\<close> backspace, \<open>27\<close> escape.\<close>

definition s2_codes :: bytes where
  "s2_codes =
     [0x0E, 0x15, 0x16, 0x1A, 0x1B, 0x1C, 0x1D, 0x1E, 0x21, 0x22, 0x23, 0x24, 0x25, 0x26, 0x29, 0x2A, 0x2B, 0x2C, 0x2D, 0x2E,
      0x31, 0x32, 0x33, 0x34, 0x35, 0x36, 0x3A, 0x3B, 0x3C, 0x3D, 0x3E, 0x41, 0x42, 0x43, 0x44, 0x45, 0x46, 0x49, 0x4A, 0x4B,
      0x4C, 0x4D, 0x4E, 0x52, 0x54, 0x55, 0x5B, 0x5D, 0x0D, 0x5A, 0x66, 0x76]"

definition s2_norm :: "(u8 \<times> u8) list" where
  "s2_norm = zip s2_codes (ascii ''`q1zsaw2cxde43 vftr5nbhgy6mju78,kio09./l;p-'' @ [39] @ ascii ''[=]'' @ [92] @ [9, 10, 8, 27])"

definition s2_shift :: "(u8 \<times> u8) list" where
  "s2_shift = zip s2_codes (ascii ''~Q!ZSAW@CXDE$# VFTR%NBHGY^MJU&*<KIO)(>?L:P_'' @ [34] @ ascii ''{+}|'' @ [9, 10, 8, 27])"

definition table_at :: "(u8 \<times> u8) list \<Rightarrow> u8 \<Rightarrow> u8" where
  "table_at t sc = (case map_of t sc of None \<Rightarrow> 0 | Some c \<Rightarrow> c)"

definition map_s2_norm :: "u8 \<Rightarrow> u8" where
  "map_s2_norm = table_at s2_norm"

definition map_s2_shift :: "u8 \<Rightarrow> u8" where
  "map_s2_shift = table_at s2_shift"

text \<open>The \<open>switch\<close> for extended keys and that for function keys; 0 is the \<open>default\<close>.\<close>

definition ext_key :: "u8 \<Rightarrow> u8" where
  "ext_key = table_at [(0x6B, 0x80), (0x74, 0x81), (0x75, 0x82), (0x72, 0x83), (0x71, 0x84), (0x6C, 0x85), (0x69, 0x86),
     (0x7D, 0x87), (0x7A, 0x88)]"

definition fn_key :: "u8 \<Rightarrow> u8" where
  "fn_key = table_at [(0x05, 0x8A), (0x06, 0x8B), (0x04, 0x8C), (0x0C, 0x8D), (0x03, 0x8E), (0x0B, 0x8F), (0x83, 0x90),
     (0x0A, 0x91), (0x01, 0x92), (0x09, 0x93), (0x78, 0x94), (0x07, 0x95)]"

definition KEY_ALTTAB :: u8 where
  "KEY_ALTTAB = 0x89"

section \<open>Repeat\<close>

definition rep_set :: "u8 \<Rightarrow> u8 \<Rightarrow> bool \<Rightarrow> u64 \<Rightarrow> kbd \<Rightarrow> kbd" where
  "rep_set ch sc is_ext now k =
     k\<lparr>g_rep_char := ch, g_rep_sc := sc, g_rep_ext := is_ext, g_rep_start := now, g_rep_last := now\<rparr>"

definition sc_bit :: "u8 \<Rightarrow> u64" where
  "sc_bit sc = push_bit (unat (sc AND 63)) 1"

definition unhold :: "bool \<Rightarrow> u8 \<Rightarrow> kbd \<Rightarrow> kbd" where
  "unhold is_ext sc k =
     (if \<not> is_ext then
        let w = unat (drop_bit 6 sc) in
        (access w (length (g_sc_held k)) k)\<lparr>g_sc_held := (g_sc_held k)[w := g_sc_held k ! w AND NOT (sc_bit sc)]\<rparr>
      else k\<lparr>g_sc_held_ext := g_sc_held_ext k AND NOT (sc_bit sc)\<rparr>)"

definition keyboard_repeat_tick :: "u64 \<Rightarrow> kbd \<Rightarrow> kbd" where
  "keyboard_repeat_tick now k =
     (let silence = now - g_last_ps2_tick k;
          k = (if silence \<ge> MOD_CLEAR_TICKS \<and> (ctrl_down k \<or> shift_down k)
               then k\<lparr>ctrl_down := False, shift_down := False, ext_e0 := False\<rparr> else k)
      in if g_rep_char k = 0 then k
         else if silence \<ge> REP_SILENCE_TICKS then (unhold (g_rep_ext k) (g_rep_sc k) k)\<lparr>g_rep_char := 0\<rparr>
         else if now - g_rep_start k \<ge> REP_MAX_TICKS then (unhold (g_rep_ext k) (g_rep_sc k) k)\<lparr>g_rep_char := 0\<rparr>
         else if now - g_rep_start k < REP_DELAY_TICKS then k
         else if now - g_rep_last k < REP_RATE_TICKS then k
         else (kbd_push (g_rep_char k) k)\<lparr>g_rep_last := now\<rparr>)"

section \<open>Scancodes\<close>

definition count_event :: "u8 \<Rightarrow> bool \<Rightarrow> kbd \<Rightarrow> kbd" where
  "count_event sc released k =
     (if sc < 128 then
        if released then
          (access (unat sc) (length (sc_break_cnt k)) k)\<lparr>sc_break_cnt := (sc_break_cnt k)[unat sc := sc_break_cnt k ! unat sc + 1]\<rparr>
        else (access (unat sc) (length (sc_make_cnt k)) k)\<lparr>sc_make_cnt := (sc_make_cnt k)[unat sc := sc_make_cnt k ! unat sc + 1]\<rparr>
      else k)"

definition key_release :: "bool \<Rightarrow> u8 \<Rightarrow> kbd \<Rightarrow> kbd" where
  "key_release is_ext sc k =
     (let k = (if \<not> is_ext \<and> sc \<ge> 128 then k else unhold is_ext sc k) in
      if sc = g_rep_sc k \<and> is_ext = g_rep_ext k then k\<lparr>g_rep_char := 0\<rparr> else k)"

text \<open>The filter of repeated make codes: whether the code is dropped, and the state with the key held.\<close>

definition make_filter :: "bool \<Rightarrow> u8 \<Rightarrow> kbd \<Rightarrow> bool \<times> kbd" where
  "make_filter is_ext sc k =
     (if \<not> is_ext then
        if sc < 128 then
          let w = unat (drop_bit 6 sc); k = access w (length (g_sc_held k)) k in
          if g_sc_held k ! w AND sc_bit sc \<noteq> 0 then (True, k)
          else (False, k\<lparr>g_sc_held := (g_sc_held k)[w := g_sc_held k ! w OR sc_bit sc]\<rparr>)
        else (False, k)
      else
        if g_sc_held_ext k AND sc_bit sc \<noteq> 0 then (True, k)
        else (False, k\<lparr>g_sc_held_ext := g_sc_held_ext k OR sc_bit sc\<rparr>))"

definition key_press :: "bool \<Rightarrow> u8 \<Rightarrow> u64 \<Rightarrow> kbd \<Rightarrow> sched \<Rightarrow> kbd \<times> sched" where
  "key_press is_ext sc now k s =
     (if is_ext then
        let kc = ext_key sc in
        if kc = 0 then (k, s) else (rep_set kc sc True now (kbd_push kc k), s)
      else if alt_down k \<and> sc = 0x0D then (gui_put KEY_ALTTAB k, s)
      else if fn_key sc \<noteq> 0 then (gui_put (fn_key sc) k, s)
      else
        let c = (if shift_down k then map_s2_shift sc else map_s2_norm sc);
            lc = (if c \<ge> 65 \<and> c \<le> 90 then c - 65 + 97 else c)
        in if c = 0 then (k, s)
           else if ctrl_down k \<and> lc \<ge> 97 \<and> lc \<le> 122 then
             let s = (if lc = 99 then thread_signal_children s else s);
                 s = (if lc = 122 then thread_sigtstp_children s else s)
             in ((kbd_push (lc - 97 + 1) k)\<lparr>g_rep_char := 0\<rparr>, s)
           else (rep_set c sc False now (kbd_push c k), s))"

definition keyboard_on_scancode :: "u64 \<Rightarrow> u8 \<Rightarrow> kbd \<times> sched \<Rightarrow> kbd \<times> sched" where
  "keyboard_on_scancode now sc ks =
     (let k = fst ks; s = snd ks in
      if sc = 0xE0 then (k\<lparr>ext_e0 := True\<rparr>, s)
      else if sc = 0xF0 then (k\<lparr>key_f0 := True\<rparr>, s)
      else
        let released = key_f0 k; is_ext = ext_e0 k;
            k = count_event sc released (k\<lparr>key_f0 := False, ext_e0 := False\<rparr>)
        in if \<not> is_ext \<and> (sc = 0x12 \<or> sc = 0x59) then (k\<lparr>shift_down := \<not> released\<rparr>, s)
           else if sc = 0x14 then (k\<lparr>ctrl_down := \<not> released\<rparr>, s)
           else if sc = 0x11 then (k\<lparr>alt_down := \<not> released\<rparr>, s)
           else if released then (key_release is_ext sc k, s)
           else if \<not> is_ext \<and> g_hid_kb_present k then (k, s)
           else let (held, k) = make_filter is_ext sc k in if held then (k, s) else key_press is_ext sc now k s)"

definition keyboard_push_char :: "u8 \<Rightarrow> kbd \<Rightarrow> kbd" where
  "keyboard_push_char c k = kbd_push c k"

definition keyboard_hid_make :: "u8 \<Rightarrow> u8 \<Rightarrow> u64 \<Rightarrow> kbd \<Rightarrow> kbd" where
  "keyboard_hid_make kc ch now k =
     (let k = (if ch \<ge> 0x8A \<and> ch \<le> 0x95 then gui_put ch k else kbd_push ch k) in
      k\<lparr>g_hid_rep_kc := kc, g_rep_char := ch, g_rep_sc := 0, g_rep_ext := False, g_rep_start := now, g_rep_last := now\<rparr>)"

definition keyboard_hid_break :: "u8 \<Rightarrow> kbd \<Rightarrow> kbd" where
  "keyboard_hid_break kc k = (if g_hid_rep_kc k = kc then k\<lparr>g_rep_char := 0, g_hid_rep_kc := 0\<rparr> else k)"

section \<open>The controller\<close>

text \<open>The loop of \<open>keyboard_ps2_poll\<close> with \<open>n\<close> rounds left: the bytes still waiting, those for the mouse, and the state.\<close>

fun ps2_poll_loop ::
    "nat \<Rightarrow> u64 \<Rightarrow> (bool \<times> u8) list \<Rightarrow> kbd \<times> sched \<Rightarrow> (bool \<times> u8) list \<times> bytes \<times> kbd \<times> sched" where
  "ps2_poll_loop n now [] ks = ([], [], ks)"
| "ps2_poll_loop 0 now q ks = (q, [], ks)"
| "ps2_poll_loop (Suc n) now ((aux, b) # q) (k, s) =
     (let k = k\<lparr>g_last_ps2_tick := now\<rparr> in
      if raw_capture_mode k \<noteq> 0 then
        ps2_poll_loop n now q (keyboard_on_scancode now b
          (k\<lparr>raw_bytes_total := raw_bytes_total k + 1, raw_bytes_aux := (if aux then raw_bytes_aux k + 1 else raw_bytes_aux k),
             g_kbd_irq_count := g_kbd_irq_count k + 1\<rparr>, s))
      else if aux then
        let (q', mouse, ks') = ps2_poll_loop n now q (k, s) in (q', b # mouse, ks')
      else ps2_poll_loop n now q (keyboard_on_scancode now b (k\<lparr>g_kbd_irq_count := g_kbd_irq_count k + 1\<rparr>, s)))"

definition keyboard_ps2_poll ::
    "u64 \<Rightarrow> (bool \<times> u8) list \<Rightarrow> kbd \<times> sched \<Rightarrow> (bool \<times> u8) list \<times> bytes \<times> kbd \<times> sched" where
  "keyboard_ps2_poll = ps2_poll_loop 8"

definition keyboard_irq_handler :: "u64 \<Rightarrow> (bool \<times> u8) list \<Rightarrow> kbd \<times> sched \<Rightarrow> (bool \<times> u8) list \<times> kbd \<times> sched" where
  "keyboard_irq_handler now q ks =
     (let k = (fst ks)\<lparr>g_kbd_irq_count := g_kbd_irq_count (fst ks) + 1\<rparr>; s = snd ks in
      case q of [] \<Rightarrow> ([], k, s) | (aux, sc) # q' \<Rightarrow> (q', keyboard_on_scancode now sc (k, s)))"

definition keyboard_set_raw_capture :: "int \<Rightarrow> kbd \<Rightarrow> kbd" where
  "keyboard_set_raw_capture on k =
     (let k = k\<lparr>raw_capture_mode := on\<rparr> in if on \<noteq> 0 then k\<lparr>raw_bytes_total := 0, raw_bytes_aux := 0\<rparr> else k)"

definition keyboard_has_data :: "kbd \<Rightarrow> bool" where
  "keyboard_has_data k \<longleftrightarrow> kbd_head k \<noteq> kbd_tail k"

definition keyboard_set_gui_capture :: "bool \<Rightarrow> kbd \<Rightarrow> kbd" where
  "keyboard_set_gui_capture on k =
     (let k = k\<lparr>g_gui_capture := on\<rparr> in if on then k\<lparr>gui_head := 0, gui_tail := 0\<rparr> else k)"

definition gui_take :: "kbd \<Rightarrow> (u8 \<times> kbd) option" where
  "gui_take k =
     (if gui_tail k = gui_head k then None
      else Some (gui_buf k ! unat (gui_tail k),
        (access (unat (gui_tail k)) (length (gui_buf k)) k)\<lparr>gui_tail := (gui_tail k + 1) mod GUI_BUF_SIZE\<rparr>))"

definition keyboard_gui_try_getchar :: "kbd \<Rightarrow> int \<times> kbd" where
  "keyboard_gui_try_getchar k = (case gui_take k of None \<Rightarrow> (- 1, k) | Some (c, k') \<Rightarrow> (uint c, k'))"

end
