(* ===== verification/Keyboard_Props.thy ===== *)
theory Keyboard_Props
  imports Keyboard Sched
begin

text \<open>
  Proofs about the keyboard (\<open>Keyboard\<close>): both rings are bounded queues, every index stays in bounds
  whatever bytes arrive, and the keystrokes of a text put that text into the ring.
\<close>

section \<open>Rings of characters\<close>

text \<open>A ring of \<open>n\<close> slots filled from the slot \<open>t\<close> to in front of the slot \<open>h\<close>.\<close>

definition ring_cnt :: "nat \<Rightarrow> nat \<Rightarrow> nat \<Rightarrow> nat" where
  "ring_cnt n h t = (if t \<le> h then h - t else h + n - t)"

definition ring_seq :: "nat \<Rightarrow> 'a list \<Rightarrow> nat \<Rightarrow> nat \<Rightarrow> 'a list" where
  "ring_seq n buf h t = map (\<lambda>i. buf ! ((t + i) mod n)) [0..<ring_cnt n h t]"

lemma length_ring_seq [simp]: "length (ring_seq n buf h t) = ring_cnt n h t"
  by (simp add: ring_seq_def)

lemma ring_cnt_bound: "h < n \<Longrightarrow> t < n \<Longrightarrow> ring_cnt n h t < n"
  by (auto simp: ring_cnt_def)

lemma ring_full_iff:
  assumes "h < n" "t < n" "1 < n"
  shows "Suc h mod n = t \<longleftrightarrow> ring_cnt n h t = n - 1"
  using assms by (cases "Suc h = n") (auto simp: ring_cnt_def)

lemma ring_empty_iff: "h < n \<Longrightarrow> t < n \<Longrightarrow> t = h \<longleftrightarrow> ring_cnt n h t = 0"
  by (auto simp: ring_cnt_def)

lemma ring_at_head:
  assumes "h < n" "t < n"
  shows "(t + ring_cnt n h t) mod n = h"
  using assms by (simp add: ring_cnt_def)

lemma ring_cnt_succ:
  assumes "h < n" "t < n" "Suc h mod n \<noteq> t"
  shows "ring_cnt n (Suc h mod n) t = Suc (ring_cnt n h t)"
proof (cases "Suc h = n")
  case True
  then show ?thesis using assms by (auto simp: ring_cnt_def)
next
  case False
  then have "Suc h mod n = Suc h" using assms(1) by simp
  then show ?thesis using assms by (auto simp: ring_cnt_def)
qed

lemma ring_seq_put:
  assumes "h < n" "t < n" "length buf = n" "Suc h mod n \<noteq> t"
  shows "ring_seq n (buf[h := x]) (Suc h mod n) t = ring_seq n buf h t @ [x]"
proof -
  have other: "(t + i) mod n \<noteq> h" if "i < ring_cnt n h t" for i
    using ring_slot_neq [OF that ring_cnt_bound [OF assms(1,2)], of t] ring_at_head [OF assms(1,2)] by simp
  have "map (\<lambda>i. buf[h := x] ! ((t + i) mod n)) [0..<ring_cnt n h t] = ring_seq n buf h t"
    unfolding ring_seq_def by (rule map_cong [OF refl], rule nth_list_update_neq) (use other in force)
  moreover have "buf[h := x] ! ((t + ring_cnt n h t) mod n) = x" using assms by (simp add: ring_at_head)
  ultimately show ?thesis by (simp add: ring_seq_def [of n "buf[h := x]"] ring_cnt_succ [OF assms(1,2,4)])
qed

lemma ring_seq_take:
  assumes "h < n" "t < n" "t \<noteq> h"
  shows "ring_seq n buf h t = buf ! t # ring_seq n buf h (Suc t mod n)"
proof -
  have c: "ring_cnt n h t = Suc (ring_cnt n h (Suc t mod n))"
  proof (cases "Suc t = n")
    case True
    then show ?thesis using assms by (auto simp: ring_cnt_def)
  next
    case False
    then have "Suc t mod n = Suc t" using assms(2) by simp
    then show ?thesis using assms by (auto simp: ring_cnt_def)
  qed
  have "(Suc t mod n + i) mod n = (t + Suc i) mod n" for i by (simp add: mod_simps)
  then show ?thesis
    using assms(2) by (simp add: ring_seq_def c upt_conv_Cons map_Suc_upt [symmetric] del: upt_Suc)
qed

section \<open>The invariant and the two queues\<close>

definition kbd_ok :: "kbd \<Rightarrow> bool" where
  "kbd_ok k \<longleftrightarrow> unat (kbd_head k) < 256 \<and> unat (kbd_tail k) < 256 \<and> length (kbd_buf k) = 256
     \<and> unat (gui_head k) < 64 \<and> unat (gui_tail k) < 64 \<and> length (gui_buf k) = 64
     \<and> length (sc_make_cnt k) = 128 \<and> length (sc_break_cnt k) = 128 \<and> length (g_sc_held k) = 2 \<and> g_rep_sc k < 128
     \<and> \<not> kbd_fault k"

lemma access_in [simp]: "i < n \<Longrightarrow> access i n k = k"
  by (simp add: access_def)

lemma access_frame [simp]:
  "kbd_buf (access i n k) = kbd_buf k" "kbd_head (access i n k) = kbd_head k" "kbd_tail (access i n k) = kbd_tail k"
  "gui_buf (access i n k) = gui_buf k" "gui_head (access i n k) = gui_head k" "gui_tail (access i n k) = gui_tail k"
  "g_gui_capture (access i n k) = g_gui_capture k" "shift_down (access i n k) = shift_down k" "ctrl_down (access i n k) = ctrl_down k"
  "alt_down (access i n k) = alt_down k" "ext_e0 (access i n k) = ext_e0 k" "key_f0 (access i n k) = key_f0 k"
  "g_sc_held (access i n k) = g_sc_held k" "g_rep_char (access i n k) = g_rep_char k" "g_rep_start (access i n k) = g_rep_start k"
  "g_rep_last (access i n k) = g_rep_last k" "g_last_ps2_tick (access i n k) = g_last_ps2_tick k"
  "g_hid_kb_present (access i n k) = g_hid_kb_present k" "raw_capture_mode (access i n k) = raw_capture_mode k"
  by (simp_all add: access_def)

lemma low_index: "sc < (128 :: u8) \<Longrightarrow> unat sc < 128" "sc < (128 :: u8) \<Longrightarrow> unat (drop_bit 6 sc) < 2"
proof -
  show "sc < 128 \<Longrightarrow> unat sc < 128" by (simp add: word_less_nat_alt)
  then show "sc < 128 \<Longrightarrow> unat (drop_bit 6 sc) < 2" by (simp add: drop_bit_eq_div unat_div)
qed

definition kbd_queue :: "kbd \<Rightarrow> bytes" where
  "kbd_queue k = ring_seq 256 (kbd_buf k) (unat (kbd_head k)) (unat (kbd_tail k))"

definition gui_queue :: "kbd \<Rightarrow> bytes" where
  "gui_queue k = ring_seq 64 (gui_buf k) (unat (gui_head k)) (unat (gui_tail k))"

lemma ring_next:
  "unat i < 256 \<Longrightarrow> unat ((i + 1) mod KBD_BUF_SIZE) = Suc (unat i) mod 256"
  "unat i < 64 \<Longrightarrow> unat ((i + 1) mod GUI_BUF_SIZE) = Suc (unat i) mod 64"
  by (simp_all add: KBD_BUF_SIZE_def GUI_BUF_SIZE_def unat_mod unat_add_no_wrap)

lemma kbd_put_spec:
  assumes "kbd_ok k"
  shows "kbd_ok (kbd_put c k)"
    "length (kbd_queue k) < 255 \<Longrightarrow> (kbd_head k + 1) mod KBD_BUF_SIZE \<noteq> kbd_tail k \<and> kbd_queue (kbd_put c k) = kbd_queue k @ [c]"
    "\<not> length (kbd_queue k) < 255 \<Longrightarrow> (kbd_head k + 1) mod KBD_BUF_SIZE = kbd_tail k \<and> kbd_put c k = k"
proof -
  have k: "unat (kbd_head k) < 256" "unat (kbd_tail k) < 256" "length (kbd_buf k) = 256" using assms by (simp_all add: kbd_ok_def)
  note n = ring_next(1) [OF k(1)]
  have f: "(kbd_head k + 1) mod KBD_BUF_SIZE = kbd_tail k \<longleftrightarrow> length (kbd_queue k) = 255"
    using ring_full_iff [OF k(1,2)] n by (simp add: word_unat_eq_iff kbd_queue_def)
  show "kbd_ok (kbd_put c k)" using assms n by (simp add: kbd_put_def Let_def kbd_ok_def)
  show "(kbd_head k + 1) mod KBD_BUF_SIZE \<noteq> kbd_tail k \<and> kbd_queue (kbd_put c k) = kbd_queue k @ [c]" if "length (kbd_queue k) < 255"
  proof -
    have ne: "(kbd_head k + 1) mod KBD_BUF_SIZE \<noteq> kbd_tail k" using f that by simp
    then have "Suc (unat (kbd_head k)) mod 256 \<noteq> unat (kbd_tail k)" using n by (simp add: word_unat_eq_iff)
    from ring_seq_put [OF k this] ne n show ?thesis by (simp add: kbd_put_def Let_def kbd_queue_def)
  qed
  show "(kbd_head k + 1) mod KBD_BUF_SIZE = kbd_tail k \<and> kbd_put c k = k" if "\<not> length (kbd_queue k) < 255"
    using f that ring_cnt_bound [OF k(1,2)] by (simp add: kbd_put_def Let_def kbd_queue_def)
qed

lemma gui_put_spec:
  assumes "kbd_ok k"
  shows "kbd_ok (gui_put c k)"
    "length (gui_queue k) < 63 \<Longrightarrow> (gui_head k + 1) mod GUI_BUF_SIZE \<noteq> gui_tail k \<and> gui_queue (gui_put c k) = gui_queue k @ [c]"
    "\<not> length (gui_queue k) < 63 \<Longrightarrow> (gui_head k + 1) mod GUI_BUF_SIZE = gui_tail k \<and> gui_put c k = k"
proof -
  have k: "unat (gui_head k) < 64" "unat (gui_tail k) < 64" "length (gui_buf k) = 64" using assms by (simp_all add: kbd_ok_def)
  note n = ring_next(2) [OF k(1)]
  have f: "(gui_head k + 1) mod GUI_BUF_SIZE = gui_tail k \<longleftrightarrow> length (gui_queue k) = 63"
    using ring_full_iff [OF k(1,2)] n by (simp add: word_unat_eq_iff gui_queue_def)
  show "kbd_ok (gui_put c k)" using assms n by (simp add: gui_put_def Let_def kbd_ok_def)
  show "(gui_head k + 1) mod GUI_BUF_SIZE \<noteq> gui_tail k \<and> gui_queue (gui_put c k) = gui_queue k @ [c]" if "length (gui_queue k) < 63"
  proof -
    have ne: "(gui_head k + 1) mod GUI_BUF_SIZE \<noteq> gui_tail k" using f that by simp
    then have "Suc (unat (gui_head k)) mod 64 \<noteq> unat (gui_tail k)" using n by (simp add: word_unat_eq_iff)
    from ring_seq_put [OF k this] ne n show ?thesis by (simp add: gui_put_def Let_def gui_queue_def)
  qed
  show "(gui_head k + 1) mod GUI_BUF_SIZE = gui_tail k \<and> gui_put c k = k" if "\<not> length (gui_queue k) < 63"
    using f that ring_cnt_bound [OF k(1,2)] by (simp add: gui_put_def Let_def gui_queue_def)
qed

lemma kbd_take_spec:
  assumes "kbd_ok k"
  shows "kbd_take k = None \<longleftrightarrow> kbd_queue k = []"
    "kbd_take k = Some (c, k') \<Longrightarrow> kbd_queue k = c # kbd_queue k' \<and> kbd_ok k'"
proof -
  have k: "unat (kbd_head k) < 256" "unat (kbd_tail k) < 256" using assms by (simp_all add: kbd_ok_def)
  note n = ring_next(1) [OF k(2)]
  show "kbd_take k = None \<longleftrightarrow> kbd_queue k = []"
    using ring_empty_iff [OF k] by (simp add: kbd_take_def kbd_queue_def word_unat_eq_iff flip: length_0_conv)
  assume t: "kbd_take k = Some (c, k')"
  then have ne: "unat (kbd_tail k) \<noteq> unat (kbd_head k)" by (auto simp: kbd_take_def word_unat_eq_iff split: if_splits)
  then show "kbd_queue k = c # kbd_queue k' \<and> kbd_ok k'"
    using t assms n ring_seq_take [OF k ne, of "kbd_buf k"] by (auto simp: kbd_take_def kbd_queue_def kbd_ok_def split: if_splits)
qed

lemma gui_take_spec:
  assumes "kbd_ok k"
  shows "gui_take k = None \<longleftrightarrow> gui_queue k = []"
    "gui_take k = Some (c, k') \<Longrightarrow> gui_queue k = c # gui_queue k' \<and> kbd_ok k'"
proof -
  have k: "unat (gui_head k) < 64" "unat (gui_tail k) < 64" using assms by (simp_all add: kbd_ok_def)
  note n = ring_next(2) [OF k(2)]
  show "gui_take k = None \<longleftrightarrow> gui_queue k = []"
    using ring_empty_iff [OF k] by (simp add: gui_take_def gui_queue_def word_unat_eq_iff flip: length_0_conv)
  assume t: "gui_take k = Some (c, k')"
  then have ne: "unat (gui_tail k) \<noteq> unat (gui_head k)" by (auto simp: gui_take_def word_unat_eq_iff split: if_splits)
  then show "gui_queue k = c # gui_queue k' \<and> kbd_ok k'"
    using t assms n ring_seq_take [OF k ne, of "gui_buf k"] by (auto simp: gui_take_def gui_queue_def kbd_ok_def split: if_splits)
qed

text \<open>What is dropped is told by the full ring.\<close>

definition kbd_offer :: "u8 \<Rightarrow> kbd \<Rightarrow> bool \<times> kbd" where
  "kbd_offer c k = ((kbd_head k + 1) mod KBD_BUF_SIZE \<noteq> kbd_tail k, kbd_put c k)"

definition gui_offer :: "u8 \<Rightarrow> kbd \<Rightarrow> bool \<times> kbd" where
  "gui_offer c k = ((gui_head k + 1) mod GUI_BUF_SIZE \<noteq> gui_tail k, gui_put c k)"

lemma queue_bounds:
  assumes "kbd_ok k"
  shows "length (kbd_queue k) \<le> 255" "length (gui_queue k) \<le> 63"
  using assms ring_cnt_bound [of "unat (kbd_head k)" 256 "unat (kbd_tail k)"] ring_cnt_bound [of "unat (gui_head k)" 64 "unat (gui_tail k)"]
  by (simp_all add: kbd_ok_def kbd_queue_def gui_queue_def)

interpretation shellq: bounded_fifo kbd_offer kbd_take kbd_queue kbd_ok "\<lambda>_. True" 255
  by unfold_locales (use kbd_put_spec kbd_take_spec queue_bounds in \<open>auto simp: kbd_offer_def\<close>)

interpretation guiq: bounded_fifo gui_offer gui_take gui_queue kbd_ok "\<lambda>_. True" 63
  by unfold_locales (use gui_put_spec gui_take_spec queue_bounds in \<open>auto simp: gui_offer_def\<close>)

section \<open>Nothing leaves its bounds\<close>

lemma kbd_ok_cong:
  assumes "kbd_ok k" "kbd_head k' = kbd_head k" "kbd_tail k' = kbd_tail k" "kbd_buf k' = kbd_buf k" "gui_head k' = gui_head k"
    "gui_tail k' = gui_tail k" "gui_buf k' = gui_buf k" "length (sc_make_cnt k') = length (sc_make_cnt k)"
    "length (sc_break_cnt k') = length (sc_break_cnt k)" "length (g_sc_held k') = length (g_sc_held k)" "g_rep_sc k' < 128"
    "kbd_fault k' = kbd_fault k"
  shows "kbd_ok k'"
  using assms by (simp add: kbd_ok_def)

lemma kbd_push_ok: "kbd_ok k \<Longrightarrow> kbd_ok (kbd_push c k)"
  by (simp add: kbd_push_def kbd_put_spec gui_put_spec)

lemma ok_rep: "kbd_ok k \<Longrightarrow> g_rep_sc k < 128"
  by (simp add: kbd_ok_def)

lemma unhold_ok: "kbd_ok k \<Longrightarrow> e \<or> sc < 128 \<Longrightarrow> kbd_ok (unhold e sc k)"
  using low_index(2) [of sc] by (auto simp: unhold_def kbd_ok_def Let_def)

lemma make_filter_ok: "kbd_ok k \<Longrightarrow> kbd_ok (snd (make_filter e sc k))"
  using low_index(2) [of sc] by (simp add: make_filter_def kbd_ok_def Let_def)

lemma count_event_ok: "kbd_ok k \<Longrightarrow> kbd_ok (count_event sc r k)"
  using low_index(1) [of sc] by (simp add: count_event_def kbd_ok_def)

lemma key_release_ok: "kbd_ok k \<Longrightarrow> kbd_ok (key_release e sc k)"
proof -
  assume k: "kbd_ok k"
  define k1 where "k1 = (if \<not> e \<and> sc \<ge> 128 then k else unhold e sc k)"
  have "kbd_ok k1" using k unhold_ok [OF k, of e sc] by (auto simp: k1_def not_le)
  then show ?thesis by (simp add: key_release_def k1_def [symmetric] Let_def kbd_ok_def)
qed

lemma rep_set_ok: "kbd_ok k \<Longrightarrow> sc < 128 \<Longrightarrow> kbd_ok (rep_set c sc e now k)"
  by (simp add: rep_set_def kbd_ok_def)

lemma repeat_tick_ok:
  assumes "kbd_ok k"
  shows "kbd_ok (keyboard_repeat_tick now k)"
proof -
  define k1 where "k1 = (if now - g_last_ps2_tick k \<ge> MOD_CLEAR_TICKS \<and> (ctrl_down k \<or> shift_down k)
      then k\<lparr>ctrl_down := False, shift_down := False, ext_e0 := False\<rparr> else k)"
  have 1: "kbd_ok k1" using assms by (simp add: k1_def kbd_ok_def)
  have c: "kbd_ok (x\<lparr>g_rep_char := 0\<rparr>)" "kbd_ok (x\<lparr>g_rep_last := now\<rparr>)" if "kbd_ok x" for x
    using that by (simp_all add: kbd_ok_def)
  show ?thesis
    unfolding keyboard_repeat_tick_def Let_def k1_def [symmetric]
    using 1 c(1) [OF unhold_ok [OF 1]] ok_rep [OF 1] c(2) [OF kbd_push_ok [OF 1]] by simp
qed

text \<open>The codes with a meaning are below 128, function key F7 apart.\<close>

lemma map_of_table: "table_at t sc \<noteq> 0 \<Longrightarrow> sc \<in> fst ` set t"
  by (auto simp: table_at_def split: option.splits dest: map_of_SomeD intro: rev_image_eqI)

lemma s2_table_codes: "fst ` set s2_norm = set s2_codes" "fst ` set s2_shift = set s2_codes"
  by (simp_all add: s2_norm_def s2_shift_def s2_codes_def ascii_def)

lemma s2_codes_low: "\<forall>sc \<in> set s2_codes. sc < 128"
  by (simp add: s2_codes_def)

lemma map_s2_low: "map_s2_norm sc \<noteq> 0 \<Longrightarrow> sc < 128" "map_s2_shift sc \<noteq> 0 \<Longrightarrow> sc < 128"
  using map_of_table [of s2_norm sc] map_of_table [of s2_shift sc] s2_codes_low
  by (simp_all add: map_s2_norm_def map_s2_shift_def s2_table_codes)

lemma ext_key_low: "ext_key sc \<noteq> 0 \<Longrightarrow> sc < 128"
  using map_of_table [of "[(0x6B, 0x80), (0x74, 0x81), (0x75, 0x82), (0x72, 0x83), (0x71, 0x84), (0x6C, 0x85), (0x69, 0x86),
     (0x7D, 0x87), (0x7A, 0x88)]" sc] by (auto simp: ext_key_def)

lemma key_press_ok:
  assumes "kbd_ok k"
  shows "kbd_ok (fst (key_press e sc now k s))"
proof -
  have z: "kbd_ok (x\<lparr>g_rep_char := 0\<rparr>)" if "kbd_ok x" for x using that by (simp add: kbd_ok_def)
  note p = kbd_push_ok [OF assms] gui_put_spec(1) [OF assms]
  have "kbd_ok (rep_set (ext_key sc) sc True now (kbd_push (ext_key sc) k))" if "ext_key sc \<noteq> 0"
    using rep_set_ok [OF p(1) ext_key_low [OF that]] .
  moreover define c where "c = (if shift_down k then map_s2_shift sc else map_s2_norm sc)"
  moreover define lc where "lc = (if c \<ge> 65 \<and> c \<le> 90 then c - 65 + 97 else c)"
  moreover have "kbd_ok (rep_set c sc False now (kbd_push c k))" if "c \<noteq> 0"
    using rep_set_ok [OF p(1)] map_s2_low that by (auto simp: c_def split: if_splits)
  ultimately show ?thesis
    using assms p z [OF p(1)] unfolding key_press_def Let_def c_def [symmetric] lc_def [symmetric] by auto
qed

lemma on_scancode_ok:
  assumes "kbd_ok (fst ks)"
  shows "kbd_ok (fst (keyboard_on_scancode now sc ks))"
proof -
  have f: "kbd_ok ((fst ks)\<lparr>key_f0 := a, ext_e0 := b\<rparr>)" "kbd_ok ((fst ks)\<lparr>ext_e0 := b\<rparr>)" "kbd_ok ((fst ks)\<lparr>key_f0 := b\<rparr>)" for a b
    using assms by (simp_all add: kbd_ok_def)
  note c = count_event_ok [OF f(1)]
  have m: "kbd_ok (x\<lparr>shift_down := b\<rparr>)" "kbd_ok (x\<lparr>ctrl_down := b\<rparr>)" "kbd_ok (x\<lparr>alt_down := b\<rparr>)" if "kbd_ok x" for x b
    using that by (simp_all add: kbd_ok_def)
  show ?thesis
    using f(2,3) c m [OF c] key_release_ok [OF c] make_filter_ok [OF c] key_press_ok [OF make_filter_ok [OF c]]
    by (simp add: keyboard_on_scancode_def Let_def case_prod_beta)
qed

text \<open>Everything that happens to the keyboard; \<open>acpi_ec_kbd_check\<close> may add any characters by \<open>keyboard_push_char\<close>.\<close>

inductive kbd_step :: "kbd \<Rightarrow> kbd \<Rightarrow> bool" where
  kst_byte: "kbd_step k (fst (keyboard_on_scancode now sc (k, s)))"
| kst_tick: "kbd_step k (keyboard_repeat_tick now k)"
| kst_clear: "kbd_step k (keyboard_clear_state now k)"
| kst_push: "kbd_step k (keyboard_push_char c k)"
| kst_hid: "kbd_step k (keyboard_hid_make kc c now k)"
| kst_hid_break: "kbd_step k (keyboard_hid_break kc k)"
| kst_hid_present: "kbd_step k (keyboard_set_hid_present k)"
| kst_getchar: "kbd_step k (snd (keyboard_try_getchar (fold keyboard_push_char cs) k))"
| kst_gui_getchar: "kbd_step k (snd (keyboard_gui_try_getchar k))"
| kst_gui: "kbd_step k (keyboard_set_gui_capture on k)"
| kst_raw: "kbd_step k (keyboard_set_raw_capture n k)"
| kst_irq: "kbd_step k (fst (snd (keyboard_irq_handler now q (k, s))))"
| kst_poll: "kbd_step k (fst (snd (snd (keyboard_ps2_poll now q (k, s)))))"

inductive kbd_reach :: "kbd \<Rightarrow> bool" where
  kbd_boot: "kbd_reach boot_kbd"
| kbd_next: "kbd_reach k \<Longrightarrow> kbd_step k k' \<Longrightarrow> kbd_reach k'"

lemma ps2_poll_ok: "kbd_ok (fst ks) \<Longrightarrow> kbd_ok (fst (snd (snd (ps2_poll_loop n now q ks))))"
proof (induction n now q ks rule: ps2_poll_loop.induct)
  case (3 n now aux b q k s)
  have "kbd_ok (k\<lparr>g_last_ps2_tick := now\<rparr>)" "kbd_ok (k\<lparr>g_last_ps2_tick := now, g_kbd_irq_count := i\<rparr>)"
    "kbd_ok (k\<lparr>g_last_ps2_tick := now, raw_bytes_total := x, raw_bytes_aux := y, g_kbd_irq_count := i\<rparr>)" for i x y
    using "3.prems" by (simp_all add: kbd_ok_def)
  then show ?case using "3.IH" by (simp add: Let_def on_scancode_ok case_prod_beta)
qed simp_all

lemma push_all_ok: "kbd_ok k \<Longrightarrow> kbd_ok (fold keyboard_push_char cs k)"
  by (induction cs arbitrary: k) (simp_all add: keyboard_push_char_def kbd_push_ok)

lemma kbd_step_ok: "kbd_step k k' \<Longrightarrow> kbd_ok k \<Longrightarrow> kbd_ok k'"
proof (induction rule: kbd_step.induct)
  case (kst_hid k kc c now)
  then show ?case
    using gui_put_spec(1) [of k c] kbd_push_ok [of k c] by (simp add: keyboard_hid_make_def Let_def kbd_ok_def)
next
  case (kst_getchar k cs)
  let ?k = "if kbd_tail k = kbd_head k then fold keyboard_push_char cs k else k"
  have "kbd_ok ?k"
    using kst_getchar push_all_ok by simp
  then show ?case
    using kbd_take_spec(2) [of ?k] by (auto simp: keyboard_try_getchar_def Let_def split: option.split)
next
  case (kst_gui_getchar k)
  then show ?case
    using gui_take_spec(2) [of k] by (auto simp: keyboard_gui_try_getchar_def split: option.split)
next
  case (kst_irq k now q s)
  have "kbd_ok (k\<lparr>g_kbd_irq_count := n\<rparr>)" for n using kst_irq by (simp add: kbd_ok_def)
  then show ?case by (auto simp: keyboard_irq_handler_def Let_def on_scancode_ok split: list.split)
qed (simp_all add: on_scancode_ok repeat_tick_ok keyboard_push_char_def kbd_push_ok keyboard_ps2_poll_def ps2_poll_ok,
  simp_all add: keyboard_clear_state_def keyboard_hid_break_def keyboard_set_hid_present_def
    keyboard_set_gui_capture_def keyboard_set_raw_capture_def kbd_ok_def Let_def)

lemma kbd_reach_ok: "kbd_reach k \<Longrightarrow> kbd_ok k"
  by (induction rule: kbd_reach.induct) (simp_all add: kbd_step_ok, simp add: kbd_ok_def boot_kbd_def)

text \<open>
  Claim C21. Whatever bytes the controller delivers, in whatever order with key repeat, USB keys, reads and the
  desktop taking over: no array of the driver, the rings, the counters and the words of held keys, is
  ever read or written outside its bounds, although key repeat clears a held key without a check; the
  indices kept for the next access are inside too, the rings hold at most 255 and 63 characters, and the
  two functions that read the counters stay inside for every code.
\<close>

theorem keyboard_in_bounds:
  assumes "kbd_reach k"
  shows "\<not> kbd_fault k \<and> unat (kbd_head k) < length (kbd_buf k) \<and> unat (kbd_tail k) < length (kbd_buf k)
    \<and> unat (gui_head k) < length (gui_buf k) \<and> unat (gui_tail k) < length (gui_buf k)
    \<and> unat (drop_bit 6 (g_rep_sc k)) < length (g_sc_held k)
    \<and> length (kbd_queue k) \<le> 255 \<and> length (gui_queue k) \<le> 63
    \<and> (\<forall>sc. keyboard_sc_make sc k \<noteq> None \<and> keyboard_sc_break sc k \<noteq> None)"
proof -
  have k: "kbd_ok k" by (rule kbd_reach_ok [OF assms])
  have "unat (drop_bit 6 (g_rep_sc k)) < 2" by (rule low_index(2) [OF ok_rep [OF k]])
  with k queue_bounds [OF k] low_index(1) show ?thesis by (simp add: kbd_ok_def keyboard_sc_make_def keyboard_sc_break_def)
qed

theorem keyboard_in_bounds_witness:
  "\<not> kbd_fault (fst (keyboard_on_scancode 7 0x83 (boot_kbd, demo_boot)))
   \<and> gui_queue (fst (keyboard_on_scancode 7 0x83 (boot_kbd, demo_boot))) = [0x90]"
proof -
  have "\<not> kbd_fault (fst (keyboard_on_scancode 7 0x83 (boot_kbd, demo_boot)))"
    using keyboard_in_bounds [OF kbd_next [OF kbd_boot kst_byte]] by blast
  moreover have "gui_queue (fst (keyboard_on_scancode 7 0x83 (boot_kbd, demo_boot))) = [0x90]"
    by (simp add: keyboard_on_scancode_def boot_kbd_def Let_def count_event_def make_filter_def key_press_def fn_key_def table_at_def
        gui_put_def GUI_BUF_SIZE_def gui_queue_def ring_seq_def ring_cnt_def)
  ultimately show ?thesis ..
qed

section \<open>Typing\<close>

text \<open>
  The bytes that a keyboard sends for the character \<open>c\<close>: the make code, \<open>n\<close> further make codes while the
  key is held down, and the break code; with the shift key around them where the character needs it.
\<close>

definition key_stroke :: "nat \<Rightarrow> u8 \<Rightarrow> bytes" where
  "key_stroke n sc = replicate (Suc n) sc @ [0xF0, sc]"

definition stroke :: "nat \<Rightarrow> u8 \<Rightarrow> bytes" where
  "stroke n c =
     (case map_of (map prod.swap s2_norm) c of
        Some sc \<Rightarrow> key_stroke n sc
      | None \<Rightarrow>
          (case map_of (map prod.swap s2_shift) c of
             Some sc \<Rightarrow> 0x12 # key_stroke n sc @ [0xF0, 0x12]
           | None \<Rightarrow> []))"

definition typeable :: "u8 \<Rightarrow> bool" where
  "typeable c \<longleftrightarrow> c \<in> snd ` set s2_norm \<or> c \<in> snd ` set s2_shift"

text \<open>No key is down but shift if \<open>b\<close>, no prefix has been read, and the characters go to the shell.\<close>

definition ready :: "bool \<Rightarrow> u64 list \<Rightarrow> kbd \<Rightarrow> bool" where
  "ready b held k \<longleftrightarrow> shift_down k = b \<and> \<not> ctrl_down k \<and> \<not> alt_down k \<and> \<not> ext_e0 k \<and> \<not> key_f0 k
     \<and> \<not> g_gui_capture k \<and> \<not> g_hid_kb_present k \<and> g_sc_held k = held"

definition feed :: "(u64 \<times> u8) list \<Rightarrow> kbd \<times> sched \<Rightarrow> kbd \<times> sched" where
  "feed ev ks = fold (\<lambda>e. keyboard_on_scancode (fst e) (snd e)) ev ks"

lemma feed_simps [simp]: "feed [] ks = ks" "feed (e # ev) ks = feed ev (keyboard_on_scancode (fst e) (snd e) ks)"
  "feed (ev @ ev') ks = feed ev' (feed ev ks)"
  by (simp_all add: feed_def)

lemma s2_codes_plain:
  "\<forall>sc \<in> set s2_codes. sc < 128 \<and> sc \<noteq> 0xE0 \<and> sc \<noteq> 0xF0 \<and> sc \<noteq> 0x12 \<and> sc \<noteq> 0x59 \<and> sc \<noteq> 0x14 \<and> sc \<noteq> 0x11 \<and> fn_key sc = 0"
  by (simp add: s2_codes_def fn_key_def table_at_def)

lemma s2_codes_chars: "\<forall>sc \<in> set s2_codes. map_s2_norm sc \<noteq> 0 \<and> map_s2_shift sc \<noteq> 0"
  by (simp add: map_s2_norm_def map_s2_shift_def s2_norm_def s2_shift_def s2_codes_def table_at_def ascii_def)

definition down :: "u8 \<Rightarrow> u64 list" where
  "down sc = [0, 0][unat (drop_bit 6 sc) := sc_bit sc]"

lemma sc_bit_nonzero: "sc_bit sc \<noteq> 0"
proof -
  have "sc AND 63 \<le> 63" by (rule word_and_le1)
  then have "unat (sc AND 63) < 64" by (simp add: word_le_nat_alt)
  then have "bit (sc_bit sc) (unat (sc AND 63))" by (simp add: sc_bit_def bit_simps)
  then show ?thesis by auto
qed

lemma zeros_nth: "i < 2 \<Longrightarrow> [0, 0 :: u64] ! i = 0"
  by (auto simp: less_2_cases_iff)

lemma down_nth: "sc < 128 \<Longrightarrow> down sc ! unat (drop_bit 6 sc) = sc_bit sc"
  using low_index(2) [of sc] by (auto simp: down_def less_2_cases_iff)

lemma down_clear: "sc < 128 \<Longrightarrow> (down sc)[unat (drop_bit 6 sc) := 0] = [0, 0]"
  using low_index(2) [of sc] by (auto simp: down_def less_2_cases_iff)

lemma length_down: "length (down sc) = 2"
  by (simp add: down_def del: list_update.simps)

lemma filter_free:
  assumes "sc < 128" "g_sc_held k = [0, 0]"
  shows "make_filter False sc k = (False, k\<lparr>g_sc_held := down sc\<rparr>)"
  using assms low_index(2) [OF assms(1)] zeros_nth [OF low_index(2) [OF assms(1)]]
  by (simp add: make_filter_def Let_def down_def)

lemma filter_held:
  assumes "sc < 128" "g_sc_held k = down sc"
  shows "make_filter False sc k = (True, k)"
  using assms low_index(2) [OF assms(1)] sc_bit_nonzero [of sc] down_nth [OF assms(1)]
  by (simp add: make_filter_def Let_def length_down)

lemma queue_frame [simp]:
  "kbd_queue (access i n k) = kbd_queue k" "kbd_queue (count_event sc r k) = kbd_queue k" "kbd_queue (unhold e sc k) = kbd_queue k"
  "kbd_queue (rep_set c sc e now k) = kbd_queue k" "kbd_queue (k\<lparr>key_f0 := b, ext_e0 := b'\<rparr>) = kbd_queue k"
  "kbd_queue (k\<lparr>g_rep_char := c\<rparr>) = kbd_queue k" "kbd_queue (k\<lparr>key_f0 := b\<rparr>) = kbd_queue k"
  "kbd_queue (k\<lparr>shift_down := b\<rparr>) = kbd_queue k" "kbd_queue (k\<lparr>g_sc_held := h\<rparr>) = kbd_queue k"
  by (simp_all add: kbd_queue_def count_event_def unhold_def rep_set_def Let_def)

lemma count_frame [simp]:
  "shift_down (count_event sc r k) = shift_down k" "ctrl_down (count_event sc r k) = ctrl_down k" "alt_down (count_event sc r k) = alt_down k"
  "ext_e0 (count_event sc r k) = ext_e0 k" "key_f0 (count_event sc r k) = key_f0 k" "g_gui_capture (count_event sc r k) = g_gui_capture k"
  "g_hid_kb_present (count_event sc r k) = g_hid_kb_present k" "g_sc_held (count_event sc r k) = g_sc_held k"
  by (simp_all add: count_event_def)

lemma kbd_put_frame [simp]:
  "shift_down (kbd_put c k) = shift_down k" "ctrl_down (kbd_put c k) = ctrl_down k" "alt_down (kbd_put c k) = alt_down k"
  "ext_e0 (kbd_put c k) = ext_e0 k" "key_f0 (kbd_put c k) = key_f0 k" "g_gui_capture (kbd_put c k) = g_gui_capture k"
  "g_hid_kb_present (kbd_put c k) = g_hid_kb_present k" "g_sc_held (kbd_put c k) = g_sc_held k"
  by (simp_all add: kbd_put_def Let_def)

text \<open>The first make code of a key.\<close>

lemma first_make:
  assumes "kbd_ok k" "ready b [0, 0] k" "sc \<in> set s2_codes" "length (kbd_queue k) < 255"
    and "c = (if b then map_s2_shift sc else map_s2_norm sc)"
  shows "\<exists>k'. keyboard_on_scancode now sc (k, s) = (k', s) \<and> kbd_ok k' \<and> ready b (down sc) k' \<and> kbd_queue k' = kbd_queue k @ [c]"
proof -
  note r = assms(2) [unfolded ready_def]
  have sc: "sc < 128" "sc \<noteq> 0xE0" "sc \<noteq> 0xF0" "sc \<noteq> 0x12" "sc \<noteq> 0x59" "sc \<noteq> 0x14" "sc \<noteq> 0x11" "fn_key sc = 0" "c \<noteq> 0"
    using s2_codes_plain s2_codes_chars assms(3,5) by auto
  let ?k0 = "count_event sc False (k\<lparr>key_f0 := False, ext_e0 := False\<rparr>)"
  let ?k1 = "?k0\<lparr>g_sc_held := down sc\<rparr>"
  let ?k2 = "rep_set c sc False now (kbd_put c ?k1)"
  have f: "make_filter False sc ?k0 = (False, ?k1)" using r by (intro filter_free sc(1)) simp
  have "kbd_ok ?k0" using assms(1) by (intro count_event_ok) (simp add: kbd_ok_def)
  from make_filter_ok [OF this, of False sc] f have ok1: "kbd_ok ?k1" by simp
  have h1: "ready b (down sc) ?k1" using r by (simp add: ready_def)
  have "keyboard_on_scancode now sc (k, s) = key_press False sc now ?k1 s"
    using r sc f by (simp add: keyboard_on_scancode_def Let_def)
  also have "\<dots> = (?k2, s)"
    using h1 sc(8,9) assms(5) by (simp add: key_press_def Let_def ready_def kbd_push_def)
  finally have e: "keyboard_on_scancode now sc (k, s) = (?k2, s)" .
  have "kbd_ok ?k2" using rep_set_ok [OF kbd_put_spec(1) [OF ok1] sc(1)] .
  moreover have "ready b (down sc) ?k2" using h1 by (simp add: ready_def rep_set_def)
  moreover have "kbd_queue ?k2 = kbd_queue k @ [c]" using kbd_put_spec(2) [OF ok1, of c] assms(4) by simp
  ultimately show ?thesis using e by blast
qed

text \<open>A further make code of a key that is down.\<close>

lemma more_make:
  assumes "kbd_ok k" "ready b (down sc) k" "sc \<in> set s2_codes"
  shows "\<exists>k'. keyboard_on_scancode now sc (k, s) = (k', s) \<and> kbd_ok k' \<and> ready b (down sc) k' \<and> kbd_queue k' = kbd_queue k"
proof -
  note r = assms(2) [unfolded ready_def]
  have sc: "sc < 128" "sc \<noteq> 0xE0" "sc \<noteq> 0xF0" "sc \<noteq> 0x12" "sc \<noteq> 0x59" "sc \<noteq> 0x14" "sc \<noteq> 0x11"
    using s2_codes_plain assms(3) by auto
  let ?k1 = "count_event sc False (k\<lparr>key_f0 := False, ext_e0 := False\<rparr>)"
  have "keyboard_on_scancode now sc (k, s) = (?k1, s)"
    using r sc filter_held [OF sc(1), of ?k1] by (simp add: keyboard_on_scancode_def Let_def)
  moreover have "kbd_ok ?k1" using assms(1) by (intro count_event_ok) (simp add: kbd_ok_def)
  moreover have "ready b (down sc) ?k1" using r by (simp add: ready_def)
  ultimately show ?thesis by simp
qed

text \<open>The two bytes of the break code.\<close>

lemma break_code:
  assumes "kbd_ok k" "ready b (down sc) k" "sc \<in> set s2_codes"
  shows "\<exists>k'. keyboard_on_scancode now' sc (keyboard_on_scancode now 0xF0 (k, s)) = (k', s)
    \<and> kbd_ok k' \<and> ready b [0, 0] k' \<and> kbd_queue k' = kbd_queue k"
proof -
  note r = assms(2) [unfolded ready_def]
  have sc: "sc < 128" "sc \<noteq> 0xE0" "sc \<noteq> 0xF0" "sc \<noteq> 0x12" "sc \<noteq> 0x59" "sc \<noteq> 0x14" "sc \<noteq> 0x11"
    using s2_codes_plain assms(3) by auto
  let ?k1 = "count_event sc True (k\<lparr>key_f0 := False, ext_e0 := False\<rparr>)"
  let ?k2 = "key_release False sc ?k1"
  have e: "keyboard_on_scancode now' sc (keyboard_on_scancode now 0xF0 (k, s)) = (?k2, s)"
    using r sc by (simp add: keyboard_on_scancode_def Let_def)
  have "kbd_ok ?k2" using assms(1) by (intro key_release_ok count_event_ok) (simp add: kbd_ok_def)
  moreover have "ready b [0, 0] ?k2"
    using r sc(1) by (simp add: ready_def key_release_def Let_def unhold_def down_nth down_clear not_le [symmetric])
  moreover have "kbd_queue ?k2 = kbd_queue k" by (simp add: key_release_def Let_def)
  ultimately show ?thesis using e by blast
qed

lemma more_makes:
  assumes "kbd_ok k" "ready b (down sc) k" "sc \<in> set s2_codes" "map snd ev = replicate n sc"
  shows "\<exists>k'. feed ev (k, s) = (k', s) \<and> kbd_ok k' \<and> ready b (down sc) k' \<and> kbd_queue k' = kbd_queue k"
  using assms(1,2,4)
proof (induction n arbitrary: ev k)
  case (Suc n)
  then obtain e ev' where ev: "ev = e # ev'" "snd e = sc" "map snd ev' = replicate n sc" by auto
  obtain k1 where k1: "keyboard_on_scancode (fst e) sc (k, s) = (k1, s)" "kbd_ok k1" "ready b (down sc) k1" "kbd_queue k1 = kbd_queue k"
    using more_make [OF Suc.prems(1,2) assms(3)] by blast
  from Suc.IH [OF k1(2,3) ev(3)] k1 ev show ?case by simp
qed simp

lemma one_key:
  assumes "kbd_ok k" "ready b [0, 0] k" "sc \<in> set s2_codes" "length (kbd_queue k) < 255" "map snd ev = key_stroke n sc"
    and "c = (if b then map_s2_shift sc else map_s2_norm sc)"
  shows "\<exists>k'. feed ev (k, s) = (k', s) \<and> kbd_ok k' \<and> ready b [0, 0] k' \<and> kbd_queue k' = kbd_queue k @ [c]"
proof -
  from assms(5) have "map snd ev = sc # replicate n sc @ [0xF0, sc]" by (simp add: key_stroke_def)
  then obtain e0 ev' where e0: "ev = e0 # ev'" "snd e0 = sc" "map snd ev' = replicate n sc @ [0xF0, sc]" by auto
  then obtain ev1 ev2 where "ev' = ev1 @ ev2" "map snd ev1 = replicate n sc" "map snd ev2 = [0xF0, sc]"
    by (auto simp: map_eq_append_conv)
  then obtain e1 e2 where ev: "ev = e0 # ev1 @ [e1, e2]" "snd e0 = sc" "map snd ev1 = replicate n sc" "snd e1 = 0xF0" "snd e2 = sc"
    using e0 by auto
  obtain k1 where k1: "keyboard_on_scancode (fst e0) sc (k, s) = (k1, s)" "kbd_ok k1" "ready b (down sc) k1" "kbd_queue k1 = kbd_queue k @ [c]"
    using first_make [OF assms(1-4,6)] by blast
  obtain k2 where k2: "feed ev1 (k1, s) = (k2, s)" "kbd_ok k2" "ready b (down sc) k2" "kbd_queue k2 = kbd_queue k1"
    using more_makes [OF k1(2,3) assms(3) ev(3)] by blast
  show ?thesis using break_code [OF k2(2,3) assms(3)] k1 k2(1,4) ev by simp
qed

lemma shift_codes:
  assumes "kbd_ok k"
  shows "ready False [0, 0] k \<Longrightarrow> \<exists>k'. keyboard_on_scancode now 0x12 (k, s) = (k', s) \<and> kbd_ok k' \<and> ready True [0, 0] k' \<and> kbd_queue k' = kbd_queue k"
    "ready True [0, 0] k \<Longrightarrow> \<exists>k'. keyboard_on_scancode now' 0x12 (keyboard_on_scancode now 0xF0 (k, s)) = (k', s)
      \<and> kbd_ok k' \<and> ready False [0, 0] k' \<and> kbd_queue k' = kbd_queue k"
proof -
  have o: "kbd_ok ((count_event 0x12 r (k\<lparr>key_f0 := False, ext_e0 := False\<rparr>))\<lparr>shift_down := b\<rparr>)" for r b
  proof -
    have "kbd_ok (count_event 0x12 r (k\<lparr>key_f0 := False, ext_e0 := False\<rparr>))"
      using assms by (intro count_event_ok) (simp add: kbd_ok_def)
    then show ?thesis by (simp add: kbd_ok_def)
  qed
  show "\<exists>k'. keyboard_on_scancode now 0x12 (k, s) = (k', s) \<and> kbd_ok k' \<and> ready True [0, 0] k' \<and> kbd_queue k' = kbd_queue k"
    if "ready False [0, 0] k" using that o [where r = False and b = True] by (simp add: keyboard_on_scancode_def Let_def ready_def)
  show "\<exists>k'. keyboard_on_scancode now' 0x12 (keyboard_on_scancode now 0xF0 (k, s)) = (k', s)
      \<and> kbd_ok k' \<and> ready False [0, 0] k' \<and> kbd_queue k' = kbd_queue k"
    if "ready True [0, 0] k" using that o [where r = True and b = False] by (simp add: keyboard_on_scancode_def Let_def ready_def)
qed

lemma table_distinct: "distinct (map fst s2_norm)" "distinct (map fst s2_shift)"
proof -
  have "distinct s2_codes" by (simp add: s2_codes_def)
  moreover have "map fst s2_norm = s2_codes" "map fst s2_shift = s2_codes"
    by (simp_all add: s2_norm_def s2_shift_def s2_codes_def ascii_def)
  ultimately show "distinct (map fst s2_norm)" "distinct (map fst s2_shift)" by simp_all
qed

lemma swap_lookup:
  "map_of (map prod.swap s2_norm) c = Some sc \<Longrightarrow> sc \<in> set s2_codes \<and> map_s2_norm sc = c"
  "map_of (map prod.swap s2_shift) c = Some sc \<Longrightarrow> sc \<in> set s2_codes \<and> map_s2_shift sc = c"
proof -
  have "sc \<in> fst ` set t \<and> table_at t sc = c" if "map_of (map prod.swap t) c = Some sc" "distinct (map fst t)" for t
    using that by (force dest!: map_of_SomeD simp: table_at_def)
  then show "map_of (map prod.swap s2_norm) c = Some sc \<Longrightarrow> sc \<in> set s2_codes \<and> map_s2_norm sc = c"
    "map_of (map prod.swap s2_shift) c = Some sc \<Longrightarrow> sc \<in> set s2_codes \<and> map_s2_shift sc = c"
    using table_distinct s2_table_codes unfolding map_s2_norm_def map_s2_shift_def by blast+
qed

lemma typeable_lookup:
  "typeable c \<Longrightarrow> map_of (map prod.swap s2_norm) c \<noteq> None \<or> map_of (map prod.swap s2_shift) c \<noteq> None"
  by (auto simp: typeable_def map_of_eq_None_iff image_image)

lemma one_stroke:
  assumes "kbd_ok k" "ready False [0, 0] k" "typeable c" "length (kbd_queue k) < 255" "map snd ev = stroke n c"
  shows "\<exists>k'. feed ev (k, s) = (k', s) \<and> kbd_ok k' \<and> ready False [0, 0] k' \<and> kbd_queue k' = kbd_queue k @ [c]"
proof (cases "map_of (map prod.swap s2_norm) c")
  case (Some sc)
  then have "map snd ev = key_stroke n sc" using assms(5) by (simp add: stroke_def)
  moreover have "sc \<in> set s2_codes" "c = (if False then map_s2_shift sc else map_s2_norm sc)" using swap_lookup(1) [OF Some] by simp_all
  ultimately show ?thesis using one_key [OF assms(1,2) _ assms(4)] by blast
next
  case None
  then obtain sc where sc: "map_of (map prod.swap s2_shift) c = Some sc" using typeable_lookup [OF assms(3)] by blast
  with None assms(5) have "map snd ev = 0x12 # key_stroke n sc @ [0xF0, 0x12]" by (simp add: stroke_def)
  then obtain e0 ev1 e1 e2 where ev: "ev = e0 # ev1 @ [e1, e2]" "snd e0 = 0x12" "map snd ev1 = key_stroke n sc" "snd e1 = 0xF0" "snd e2 = 0x12"
    by (auto simp: map_eq_append_conv map_eq_Cons_conv)
  obtain k1 where k1: "keyboard_on_scancode (fst e0) 0x12 (k, s) = (k1, s)" "kbd_ok k1" "ready True [0, 0] k1" "kbd_queue k1 = kbd_queue k"
    using shift_codes(1) [OF assms(1,2)] by blast
  have "length (kbd_queue k1) < 255" using k1(4) assms(4) by simp
  then obtain k2 where k2: "feed ev1 (k1, s) = (k2, s)" "kbd_ok k2" "ready True [0, 0] k2" "kbd_queue k2 = kbd_queue k @ [c]"
    using one_key [OF k1(2,3) _ _ ev(3)] swap_lookup(2) [OF sc] k1(4) by auto
  show ?thesis using shift_codes(2) [OF k2(2,3)] k1(1) k2(1,4) ev by simp
qed

text \<open>
  Claim C8. Typing a text: when no key is down, the ring has room and the bytes of the keystrokes of a text
  arrive, at any times, each key held down long enough to send any number of repeated make codes, then
  the ring holds the text behind what it held, each character once; no signal is sent, and no key
  is left down.
\<close>

theorem keyboard_types_text:
  assumes "kbd_ok k" "ready False [0, 0] k" "\<forall>x \<in> set msg. typeable (snd x)" "length (kbd_queue k) + length msg \<le> 255"
    and "map snd ev = concat (map (\<lambda>x. stroke (fst x) (snd x)) msg)"
  shows "\<exists>k'. feed ev (k, s) = (k', s) \<and> ready False [0, 0] k' \<and> kbd_queue k' = kbd_queue k @ map snd msg"
proof -
  have "\<exists>k'. feed ev (k, s) = (k', s) \<and> kbd_ok k' \<and> ready False [0, 0] k' \<and> kbd_queue k' = kbd_queue k @ map snd msg"
    using assms
  proof (induction msg arbitrary: k ev)
    case (Cons x msg)
    then obtain ev1 ev2 where ev: "ev = ev1 @ ev2" "map snd ev1 = stroke (fst x) (snd x)"
        "map snd ev2 = concat (map (\<lambda>x. stroke (fst x) (snd x)) msg)"
      by (auto simp: map_eq_append_conv)
    obtain k1 where k1: "feed ev1 (k, s) = (k1, s)" "kbd_ok k1" "ready False [0, 0] k1" "kbd_queue k1 = kbd_queue k @ [snd x]"
      using one_stroke [OF Cons.prems(1,2) _ _ ev(2)] Cons.prems(3,4) by auto
    obtain k2 where k2: "feed ev2 (k1, s) = (k2, s)" "kbd_ok k2" "ready False [0, 0] k2" "kbd_queue k2 = kbd_queue k1 @ map snd msg"
      using Cons.IH [OF k1(2,3) _ _ ev(3)] Cons.prems(3,4) k1(4) by auto
    then show ?case using k1 ev(1) by simp
  qed simp
  then show ?thesis by blast
qed

lemma boot_kbd_ready: "kbd_ok boot_kbd" "ready False [0, 0] boot_kbd" "kbd_queue boot_kbd = []"
  by (simp_all add: kbd_ok_def boot_kbd_def ready_def kbd_queue_def ring_seq_def ring_cnt_def)

theorem keyboard_types_text_witness:
  "\<exists>k'. feed (map (\<lambda>b. (7, b)) [0x12, 0x33, 0x33, 0xF0, 0x33, 0xF0, 0x12, 0x43, 0xF0, 0x43]) (boot_kbd, demo_boot) = (k', demo_boot)
     \<and> kbd_queue k' = ascii ''Hi''"
proof -
  have h: "stroke (Suc 0) 72 = [0x12, 0x33, 0x33, 0xF0, 0x33, 0xF0, 0x12]" "stroke 0 105 = [0x43, 0xF0, 0x43]"
    by (simp_all add: stroke_def key_stroke_def s2_norm_def s2_shift_def s2_codes_def ascii_def)
  have "\<forall>x \<in> set [(1, 72), (0, 105)]. typeable (snd x)"
    by (simp add: typeable_def s2_norm_def s2_shift_def s2_codes_def ascii_def)
  from keyboard_types_text [OF boot_kbd_ready(1,2) this, of "map (\<lambda>b. (7, b)) [0x12, 0x33, 0x33, 0xF0, 0x33, 0xF0, 0x12, 0x43, 0xF0, 0x43]" demo_boot]
  show ?thesis by (auto simp: boot_kbd_ready(3) h ascii_def)
qed

section \<open>Key repeat\<close>

lemma kbd_put_growth: "kbd_ok k \<Longrightarrow> length (kbd_queue (kbd_put c k)) \<le> Suc (length (kbd_queue k))"
  using kbd_put_spec(2,3) [of k c] by (cases "length (kbd_queue k) < 255") auto

text \<open>What one tick does to the ring and to the state of key repeat.\<close>

lemma tick_cases:
  assumes "kbd_ok k" "\<not> g_gui_capture k" "k' = keyboard_repeat_tick now k"
  shows "\<not> g_gui_capture k'" "g_rep_start k' = g_rep_start k" "raw_capture_mode k' = raw_capture_mode k"
    "kbd_queue k' = kbd_queue k \<and> (g_rep_char k' = 0 \<or> g_rep_char k' = g_rep_char k \<and> g_rep_last k' = g_rep_last k)
     \<or> length (kbd_queue k') \<le> Suc (length (kbd_queue k)) \<and> g_rep_char k \<noteq> 0 \<and> g_rep_last k' = now
       \<and> now - g_rep_start k < REP_MAX_TICKS \<and> now - g_rep_start k \<ge> REP_DELAY_TICKS \<and> now - g_rep_last k \<ge> REP_RATE_TICKS"
proof -
  define k1 where "k1 = (if now - g_last_ps2_tick k \<ge> MOD_CLEAR_TICKS \<and> (ctrl_down k \<or> shift_down k)
      then k\<lparr>ctrl_down := False, shift_down := False, ext_e0 := False\<rparr> else k)"
  have f: "kbd_ok k1" "g_gui_capture k1 = g_gui_capture k" "g_rep_char k1 = g_rep_char k" "g_rep_start k1 = g_rep_start k"
    "g_rep_last k1 = g_rep_last k" "kbd_queue k1 = kbd_queue k" "raw_capture_mode k1 = raw_capture_mode k"
    using assms(1) by (simp_all add: k1_def kbd_ok_def kbd_queue_def)
  have u: "g_gui_capture (unhold e sc x) = g_gui_capture x" "g_rep_start (unhold e sc x) = g_rep_start x"
    "raw_capture_mode (unhold e sc x) = raw_capture_mode x" for e sc x
    by (simp_all add: unhold_def Let_def)
  have p: "kbd_push c k1 = kbd_put c k1" "g_rep_start (kbd_put c k1) = g_rep_start k" "raw_capture_mode (kbd_put c k1) = raw_capture_mode k" for c
    using assms(2) f(2,4,7) by (simp_all add: kbd_push_def kbd_put_def Let_def)
  have q: "kbd_queue (x\<lparr>g_rep_last := now\<rparr>) = kbd_queue x" for x by (simp add: kbd_queue_def)
  note d = assms(3) [unfolded keyboard_repeat_tick_def Let_def k1_def [symmetric]]
  show "\<not> g_gui_capture k'" "g_rep_start k' = g_rep_start k" "raw_capture_mode k' = raw_capture_mode k" using assms(2) f u p by (simp_all add: d)
  show "kbd_queue k' = kbd_queue k \<and> (g_rep_char k' = 0 \<or> g_rep_char k' = g_rep_char k \<and> g_rep_last k' = g_rep_last k)
     \<or> length (kbd_queue k') \<le> Suc (length (kbd_queue k)) \<and> g_rep_char k \<noteq> 0 \<and> g_rep_last k' = now
       \<and> now - g_rep_start k < REP_MAX_TICKS \<and> now - g_rep_start k \<ge> REP_DELAY_TICKS \<and> now - g_rep_last k \<ge> REP_RATE_TICKS"
    using kbd_put_growth [OF f(1), of "g_rep_char k"] f p q by (simp add: d not_le not_less)
qed

text \<open>
  What happens while a key is down and no other key is touched: ticks of the timer, and polls of the
  controller that find bytes of the mouse. Such bytes end the silence on the port, so that the check
  for silence alone does not stop the repeat.
\<close>

datatype rep_event = Tick u64 | Mouse u64 bytes

primrec ev_time :: "rep_event \<Rightarrow> u64" where
  "ev_time (Tick t) = t"
| "ev_time (Mouse t bs) = t"

primrec rep_do :: "sched \<Rightarrow> rep_event \<Rightarrow> kbd \<Rightarrow> kbd" where
  "rep_do s (Tick t) k = keyboard_repeat_tick t k"
| "rep_do s (Mouse t bs) k = fst (snd (snd (keyboard_ps2_poll t (map (Pair True) bs) (k, s))))"

lemma mouse_poll:
  assumes "raw_capture_mode k = 0"
  shows "fst (snd (snd (ps2_poll_loop n t (map (Pair True) bs) (k, s)))) = (if n = 0 \<or> bs = [] then k else k\<lparr>g_last_ps2_tick := t\<rparr>)"
  using assms
proof (induction bs arbitrary: n k)
  case (Cons b bs)
  show ?case
  proof (cases n)
    case (Suc m)
    then show ?thesis using Cons.IH [of "k\<lparr>g_last_ps2_tick := t\<rparr>" m] Cons.prems by (simp add: Let_def case_prod_beta)
  qed simp
qed simp

lemma mouse_event: "raw_capture_mode k = 0 \<Longrightarrow> rep_do s (Mouse t bs) k = (if bs = [] then k else k\<lparr>g_last_ps2_tick := t\<rparr>)"
  by (simp add: keyboard_ps2_poll_def mouse_poll)

lemma mouse_keeps:
  assumes "raw_capture_mode k = 0" "k' = rep_do s (Mouse t bs) k"
  shows "kbd_ok k' = kbd_ok k" "g_gui_capture k' = g_gui_capture k" "g_rep_start k' = g_rep_start k" "g_rep_last k' = g_rep_last k"
    "kbd_queue k' = kbd_queue k" "g_rep_char k' = g_rep_char k" "raw_capture_mode k' = 0"
  using assms(1) by (simp_all add: assms(2) mouse_event kbd_ok_def kbd_queue_def del: rep_do.simps(2))

lemma idle_events:
  assumes "g_rep_char k = 0" "raw_capture_mode k = 0"
  shows "kbd_queue (fold (rep_do s) evs k) = kbd_queue k"
  using assms
proof (induction evs arbitrary: k)
  case (Cons e evs)
  have "g_rep_char (rep_do s e k) = 0" "kbd_queue (rep_do s e k) = kbd_queue k" "raw_capture_mode (rep_do s e k) = 0"
  proof -
    have "g_rep_char (rep_do s e k) = 0 \<and> kbd_queue (rep_do s e k) = kbd_queue k \<and> raw_capture_mode (rep_do s e k) = 0"
    proof (cases e)
      case (Tick t)
      then show ?thesis using Cons.prems by (simp add: keyboard_repeat_tick_def Let_def kbd_queue_def)
    next
      case (Mouse t bs)
      then show ?thesis using mouse_keeps(5-7) [OF Cons.prems(2) refl, of s t bs] Cons.prems(1) by simp
    qed
    then show "g_rep_char (rep_do s e k) = 0" "kbd_queue (rep_do s e k) = kbd_queue k" "raw_capture_mode (rep_do s e k) = 0" by simp_all
  qed
  then show ?case using Cons.IH by simp
qed simp

text \<open>The number of repeats that may still come when the last was \<open>l\<close> ticks after the start.\<close>

definition rep_left :: "nat \<Rightarrow> nat" where
  "rep_left l = (if l = 0 then 85 else (299 - l) div 3)"

lemma rep_left_step:
  assumes "45 \<le> l'" "l' < 300" "l + 3 \<le> l'"
  shows "Suc (rep_left l') \<le> rep_left l"
proof -
  have "Suc ((299 - l') div 3) = (299 - l' + 3) div 3" by simp
  also have "\<dots> \<le> (if l = 0 then 85 else (299 - l) div 3)"
  proof (cases "l = 0")
    case True
    have "299 - l' + 3 \<le> 257" using assms by simp
    then have "(299 - l' + 3) div 3 \<le> 257 div 3" by (rule div_le_mono)
    with True show ?thesis by simp
  next
    case False
    have "299 - l' + 3 \<le> 299 - l" using assms by simp
    with False show ?thesis by (simp add: div_le_mono)
  qed
  finally show ?thesis using assms(1) by (simp add: rep_left_def)
qed

lemma repeat_growth:
  assumes "kbd_ok k" "\<not> g_gui_capture k" "raw_capture_mode k = 0" "g_rep_start k \<le> g_rep_last k"
    and "sorted_wrt (\<le>) (g_rep_last k # map ev_time evs)"
  shows "length (kbd_queue (fold (rep_do s) evs k))
    \<le> length (kbd_queue k) + rep_left (unat (g_rep_last k) - unat (g_rep_start k))"
  using assms
proof (induction evs arbitrary: k)
  case (Cons e evs)
  show ?case
  proof (cases e)
    case (Mouse t bs)
    note m = mouse_keeps [OF Cons.prems(3) refl, of s t bs]
    then show ?thesis using Cons.IH [of "rep_do s e k"] Cons.prems Mouse by (simp del: rep_do.simps)
  next
    case (Tick t)
    let ?k = "keyboard_repeat_tick t k"
    have ok: "kbd_ok ?k" by (rule repeat_tick_ok [OF Cons.prems(1)])
    note T = tick_cases [OF Cons.prems(1,2) refl, of t]
    have raw: "raw_capture_mode ?k = 0" using T(3) Cons.prems(3) by simp
    have le: "g_rep_last k \<le> t" "sorted_wrt (\<le>) (t # map ev_time evs)" using Cons.prems(5) Tick by simp_all
    consider (same) "kbd_queue ?k = kbd_queue k" "g_rep_last ?k = g_rep_last k"
      | (stop) "kbd_queue ?k = kbd_queue k" "g_rep_char ?k = 0"
      | (rep) "length (kbd_queue ?k) \<le> Suc (length (kbd_queue k))" "g_rep_last ?k = t"
          "t - g_rep_start k < REP_MAX_TICKS" "t - g_rep_start k \<ge> REP_DELAY_TICKS" "t - g_rep_last k \<ge> REP_RATE_TICKS"
      using T(4) by blast
    then show ?thesis
    proof cases
      case same
      then show ?thesis using Cons.IH [OF ok T(1) raw] Cons.prems(4,5) T(2) Tick by simp
    next
      case stop
      then show ?thesis using idle_events [OF _ raw, of s evs] Tick by simp
    next
      case rep
      have st: "g_rep_start k \<le> t" using Cons.prems(4) le(1) by (rule order_trans)
      have n: "unat (g_rep_start k) \<le> unat (g_rep_last k)" "unat (g_rep_last k) \<le> unat t"
        using Cons.prems(4) le(1) by (simp_all add: word_le_nat_alt)
      have "unat t - unat (g_rep_start k) < 300" "45 \<le> unat t - unat (g_rep_start k)" "3 \<le> unat t - unat (g_rep_last k)"
        using rep(3-5) unat_diff_le [OF st] unat_diff_le [OF le(1)]
        by (simp_all add: REP_MAX_TICKS_def REP_DELAY_TICKS_def REP_RATE_TICKS_def word_less_nat_alt word_le_nat_alt)
      then have "Suc (rep_left (unat t - unat (g_rep_start k))) \<le> rep_left (unat (g_rep_last k) - unat (g_rep_start k))"
        using n by (intro rep_left_step) simp_all
      moreover have "length (kbd_queue (fold (rep_do s) evs ?k)) \<le> length (kbd_queue ?k) + rep_left (unat t - unat (g_rep_start k))"
        using Cons.IH [OF ok T(1) raw] T(2) rep(2) le(2) st by simp
      ultimately show ?thesis using rep(1) Tick by simp
    qed
  qed
qed simp

text \<open>
  Claim C22. A key whose release is never seen does not type for ever: from the moment it is pressed, with ticks of
  the timer and bytes of the mouse in any order and for as long as no other key is touched, key repeat
  adds at most 85 characters to the ring of the shell. The mouse keeps the port from being silent, so
  the bound is that of the cap of 300 ticks.
\<close>

theorem keyboard_repeat_bounded:
  assumes "kbd_ok k" "\<not> g_gui_capture k" "raw_capture_mode k = 0" "sc < 128" "sorted_wrt (\<le>) (now # map ev_time evs)"
  shows "length (kbd_queue (fold (rep_do s) evs (rep_set c sc e now k))) \<le> length (kbd_queue k) + 85"
proof -
  have "kbd_ok (rep_set c sc e now k)" by (rule rep_set_ok [OF assms(1,4)])
  from repeat_growth [OF this, of evs s] assms(2,3,5) show ?thesis
    by (simp add: rep_set_def rep_left_def queue_frame(4) [unfolded rep_set_def])
qed

theorem keyboard_repeat_bounded_witness:
  "kbd_queue (fold (rep_do demo_boot) [Mouse 40 [8, 1, 1], Tick 50, Mouse 90 [8], Tick 100, Mouse 390 [8], Tick 400]
     (rep_set 97 0x1C False 0 boot_kbd)) = [97, 97]
   \<and> length (kbd_queue (fold (rep_do demo_boot) [Mouse 40 [8, 1, 1], Tick 50, Mouse 90 [8], Tick 100, Mouse 390 [8], Tick 400]
     (rep_set 97 0x1C False 0 boot_kbd))) \<le> 85"
proof -
  let ?evs = "[Mouse 40 [8, 1, 1], Tick 50, Mouse 90 [8], Tick 100, Mouse 390 [8], Tick 400]"
  have "\<not> g_gui_capture boot_kbd" "raw_capture_mode boot_kbd = 0" by (simp_all add: boot_kbd_def)
  from keyboard_repeat_bounded [OF boot_kbd_ready(1) this, of "0x1C" 0 ?evs demo_boot 97 False]
  have "length (kbd_queue (fold (rep_do demo_boot) ?evs (rep_set 97 0x1C False 0 boot_kbd))) \<le> 85"
    by (simp add: boot_kbd_ready(3) del: rep_do.simps)
  moreover have two: "[0..<2] = [0, 1]" by (simp add: upt_rec)
  have "kbd_queue (fold (rep_do demo_boot) ?evs (rep_set 97 0x1C False 0 boot_kbd)) = [97, 97]"
    by (simp add: boot_kbd_def rep_set_def mouse_event Let_def keyboard_repeat_tick_def kbd_push_def kbd_put_def
        REP_DELAY_TICKS_def REP_RATE_TICKS_def REP_MAX_TICKS_def REP_SILENCE_TICKS_def MOD_CLEAR_TICKS_def KBD_BUF_SIZE_def
        unhold_def kbd_queue_def ring_seq_def ring_cnt_def two del: rep_do.simps(2))
  ultimately show ?thesis by blast
qed

text \<open>
  A key of a USB keyboard is not repeated at all on a machine whose PS/2 controller is silent: the first
  tick takes the silence for a lost release.
\<close>

lemma hid_repeat_dies:
  assumes "now - g_last_ps2_tick k \<ge> REP_SILENCE_TICKS"
  shows "g_rep_char (keyboard_repeat_tick now (keyboard_hid_make kc c t k)) = 0"
  using assms by (simp add: keyboard_repeat_tick_def keyboard_hid_make_def Let_def kbd_push_def kbd_put_def gui_put_def)

end
