(* ===== verification/Fork.thy ===== *)
theory Fork
  imports Vmm Thread
begin

text \<open>
  The duplication of a process, \<open>kernel/src/fork.c\<close>: a copy of the user half of an address space page by
  page, and a child thread that will enter user mode with the registers of its parent. \<open>kmalloc\<close> of the
  context and the stack of the child are arguments (0 when there is no memory), as are the addresses of
  \<open>fork_child_fn\<close> and of the trampoline of threads; the context itself is a value that goes along with its
  address.

  \<open>Fork_Props\<close> shows that the child sees under every user address the bytes its parent sees, in memory
  of its own, and that nothing changes for the parent.
\<close>

section \<open>Definitions\<close>

definition fork_flags :: "u64 \<Rightarrow> u64" where
  "fork_flags pte =
     (if pte AND VMM_USER \<noteq> 0 then VMM_USER else 0) OR (if pte AND VMM_WRITE \<noteq> 0 then VMM_WRITE else 0)
       OR (if pte AND VMM_NX \<noteq> 0 then VMM_NX else 0)"

definition fork_va :: "nat \<Rightarrow> nat \<Rightarrow> nat \<Rightarrow> nat \<Rightarrow> u64" where
  "fork_va i1 i2 i3 i4 = push_bit 39 (of_nat i1) OR push_bit 30 (of_nat i2) OR push_bit 21 (of_nat i3) OR push_bit 12 (of_nat i4)"

text \<open>The loop over the bytes of a page; the pages are different ones.\<close>

definition copy_frame :: "u64 \<Rightarrow> u64 \<Rightarrow> pmm \<Rightarrow> pmm" where
  "copy_frame dst_phys src_phys s =
     s\<lparr>pmm_mem := (\<lambda>x. let o' = x - pmm_phys_to_virt s dst_phys in
        if unat o' < 4096 then pmm_mem s (pmm_phys_to_virt s src_phys + o') else pmm_mem s x)\<rparr>"

definition clone_page :: "u64 \<Rightarrow> u64 \<Rightarrow> u64 \<Rightarrow> pmm \<Rightarrow> bool \<times> pmm" where
  "clone_page dst_cr3 va pte s =
     (let (new_phys, s) = pmm_alloc_page s in
      if new_phys = 0 then (False, s)
      else
        let (ok, s) = vmm_map_page_into dst_cr3 va new_phys (fork_flags pte) (copy_frame new_phys (pte AND PTE_ADDR) s) in
        if ok then (True, s) else (False, pmm_free_page new_phys s))"

text \<open>A loop over entries of a table that skips those not present and leaves at the first failure.\<close>

fun each_entry :: "(nat \<Rightarrow> u64 \<Rightarrow> pmm \<Rightarrow> bool \<times> pmm) \<Rightarrow> u64 \<Rightarrow> nat list \<Rightarrow> pmm \<Rightarrow> bool \<times> pmm" where
  "each_entry body t [] s = (True, s)"
| "each_entry body t (i # is) s =
     (let e = rd_ent s t i in
      if e AND 1 = 0 then each_entry body t is s
      else let (ok, s) = body i e s in if ok then each_entry body t is s else (False, s))"

definition clone_pt :: "u64 \<Rightarrow> nat \<Rightarrow> nat \<Rightarrow> nat \<Rightarrow> u64 \<Rightarrow> pmm \<Rightarrow> bool \<times> pmm" where
  "clone_pt dst_cr3 i1 i2 i3 pt = each_entry (\<lambda>i4 pte. clone_page dst_cr3 (fork_va i1 i2 i3 i4) pte) pt [0..<512]"

definition clone_pd :: "u64 \<Rightarrow> nat \<Rightarrow> nat \<Rightarrow> u64 \<Rightarrow> pmm \<Rightarrow> bool \<times> pmm" where
  "clone_pd dst_cr3 i1 i2 pd = each_entry (\<lambda>i3 e. clone_pt dst_cr3 i1 i2 i3 (e AND PTE_ADDR)) pd [0..<512]"

definition clone_pdpt :: "u64 \<Rightarrow> nat \<Rightarrow> u64 \<Rightarrow> pmm \<Rightarrow> bool \<times> pmm" where
  "clone_pdpt dst_cr3 i1 pdpt = each_entry (\<lambda>i2 e. clone_pd dst_cr3 i1 i2 (e AND PTE_ADDR)) pdpt [0..<512]"

definition clone_pml4 :: "u64 \<Rightarrow> u64 \<Rightarrow> pmm \<Rightarrow> bool \<times> pmm" where
  "clone_pml4 dst_cr3 src_cr3 = each_entry (\<lambda>i1 e. clone_pdpt dst_cr3 i1 (e AND PTE_ADDR)) src_cr3 [0..<256]"

definition clone_pagemap :: "u64 \<Rightarrow> vmm \<Rightarrow> u64 \<times> vmm" where
  "clone_pagemap src_cr3 s =
     (let (dst_cr3, s) = vmm_create_user_pagemap s in
      if dst_cr3 = 0 then (0, s)
      else
        let (ok, p) = clone_pml4 dst_cr3 src_cr3 (v_pmm s); s = s\<lparr>v_pmm := p\<rparr> in
        if ok then (dst_cr3, s) else (0, vmm_destroy_user_pagemap dst_cr3 s))"

text \<open>
  The result is the return value, the context made for the child with its address, and the state.
  \<open>regs\<close> stands for the registers of the trap frame, user stack pointer and segment included.
\<close>

record 'r fork_child_ctx =
  fc_regs :: 'r
  fc_child_cr3 :: u64

definition do_fork ::
    "u64 \<Rightarrow> u64 \<Rightarrow> u64 \<Rightarrow> u64 \<Rightarrow> 'r \<Rightarrow> vmm \<times> sched \<Rightarrow> int \<times> 'r fork_child_ctx option \<times> vmm \<times> sched" where
  "do_fork fc stack child_fn trampoline regs vs =
     (let (v, s) = vs; parent_cr3 = g_cur_cr3 s in
      if parent_cr3 = 0 then (- 1, None, v, s)
      else
        let (child_cr3, v) = clone_pagemap parent_cr3 v in
        if child_cr3 = 0 then (- 1, None, v, s)
        else if fc = 0 then (- 1, None, vmm_destroy_user_pagemap child_cr3 v, s)
        else
          let (slot, s) = thread_create stack trampoline (Some (ascii ''fork_child'')) child_fn fc s in
          (case slot of
             None \<Rightarrow> (- 1, None, vmm_destroy_user_pagemap child_cr3 v, s)
           | Some i \<Rightarrow>
               let child_slot = int i;
                   child_tid = thread_tid_of_slot child_slot s;
                   s = thread_set_parent_for_slot child_slot (thread_current_tid s) s;
                   s = thread_copy_cwd_to_slot child_slot (Some (thread_get_cwd s)) s;
                   s = thread_copy_pgid_to_slot child_slot (thread_get_pgid (thread_current_tid s) s) s;
                   s = thread_fork_inherit_slot child_slot s
               in (uint child_tid, Some \<lparr>fc_regs = regs, fc_child_cr3 = child_cr3\<rparr>, v, s)))"

text \<open>The child when it first runs: the registers with which it enters user mode.\<close>

definition fork_child_fn :: "'r fork_child_ctx \<Rightarrow> vmm \<times> sched \<Rightarrow> 'r \<times> vmm \<times> sched" where
  "fork_child_fn fc vs =
     (fc_regs fc, vmm_switch_to (fc_child_cr3 fc) (fst vs), g_cur_set_cr3 (fc_child_cr3 fc) (snd vs))"

end
