(* ===== verification/Fork_Props.thy ===== *)
theory Fork_Props
  imports Fork
begin

text \<open>
  Proofs about the duplication of an address space (\<open>Fork\<close>): cloning leaves the parent's memory and
  translation alone and gives the child a copy of every mapped user page with the same permissions.
\<close>

section \<open>Pages do not overlap\<close>

lemma avail_table_page:
  assumes "pmm_ok s" "p \<in> avail_pages s"
  shows "table_page p"
proof -
  obtain fl where inv: "pmm_inv s fl" using assms(1) by (auto simp: pmm_ok_def)
  then have r: "region_ok s" "\<forall>p \<in> set fl. managed s p" by (simp_all add: pmm_inv_def)
  have e: "unat (g_cursor s) \<le> unat (g_end s)" "unat (g_end s) \<le> 2 ^ 52" "MIN_PHYS \<le> g_cursor s" using region_okD [OF r(1)] by simp_all
  consider "p \<in> set fl" | "p \<in> bump_pages s" using assms(2) avail_pages_inv [OF inv] by blast
  then show ?thesis
  proof cases
    case 1
    then have "managed s p" using r(2) by blast
    then show ?thesis using e managed_nonzero [of s p] by (auto simp: table_page_def managed_def word_less_nat_alt)
  next
    case 2
    then have "g_cursor s \<le> p" "unat p + 4096 \<le> unat (g_end s)" "page_aligned p" by (simp_all add: bump_pages_def)
    moreover have "p \<noteq> 0" using calculation(1) region_okD(2) [OF r(1)] by auto
    ultimately show ?thesis using e(2) by (simp add: table_page_def)
  qed
qed

lemma pages_apart:
  assumes "table_page t" "table_page t'" "in_page s t x" "in_page s t' x"
  shows "t = t'"
proof (rule ccontr)
  assume ne: "t \<noteq> t'"
  define k where "k = x - (t' + g_hhdm s)"
  have "unat k < 4096" using assms(4) by (simp add: k_def in_page_def)
  from page_byte_distance [OF assms(1,2) ne this] have "\<not> unat (x - (t + g_hhdm s)) < 4096"
    by (simp add: k_def algebra_simps)
  then show False using assms(3) by (simp add: in_page_def)
qed

lemma in_page_byte: "unat i < 4096 \<Longrightarrow> in_page s t (t + g_hhdm s + i)"
  by (simp add: in_page_def)

text \<open>Byte \<open>i\<close> of a page of physical memory.\<close>

definition page_byte :: "pmm \<Rightarrow> u64 \<Rightarrow> u64 \<Rightarrow> u8" where
  "page_byte s f i = pmm_mem s (f + g_hhdm s + i)"

lemma page_byte_same:
  assumes "table_page f" "unat i < 4096" "g_hhdm s' = g_hhdm s"
    and "\<And>x. pmm_mem s' x \<noteq> pmm_mem s x \<Longrightarrow> \<exists>t \<in> T. table_page t \<and> in_page s t x" "f \<notin> T"
  shows "page_byte s' f i = page_byte s f i"
proof (rule ccontr)
  let ?x = "f + g_hhdm s + i"
  assume "page_byte s' f i \<noteq> page_byte s f i"
  then have "pmm_mem s' ?x \<noteq> pmm_mem s ?x" using assms(3) by (simp add: page_byte_def)
  then obtain t where "t \<in> T" "table_page t" "in_page s t ?x" using assms(4) by blast
  then have "f = t" using pages_apart [OF assms(1) _ in_page_byte [OF assms(2)]] by blast
  with \<open>t \<in> T\<close> assms(5) show False by simp
qed

lemma rd_mem_other:
  assumes "table_page t" "i < 512" "\<And>x. in_page s t x \<Longrightarrow> m x = pmm_mem s x"
  shows "rd_ent (s\<lparr>pmm_mem := m\<rparr>) t i = rd_ent s t i"
  unfolding rd_ent_def ent_addr_mem
  by (rule load64_cong) (use ent_byte_in_page [OF assms(1,2)] assms(3) in \<open>simp add: in_page_def\<close>)

lemma tpath_cong:
  assumes inv: "pt_inv s lv" and same: "\<And>t l j. lv t = Some l \<Longrightarrow> j < 512 \<Longrightarrow> rd_ent s' t j = rd_ent s t j"
    and "lv t = Some (length ps + k)" "1 \<le> k" "\<forall>i \<in> set ps. i < 512"
  shows "tpath s' t ps = tpath s t ps"
  using assms(3,5)
proof (induction ps arbitrary: t)
  case (Cons i ps)
  have e: "ent s' t i = ent s t i" using same [of t] Cons.prems by (intro ent_cong) auto
  show ?case
    using e Cons.IH pt_invD(6) [OF inv, of t "length ps + k" i] Cons.prems assms(4) by (auto split: option.split)
qed simp

section \<open>Filling a page that is in use by nobody\<close>

lemma copy_frame_spec:
  assumes inv: "pt_inv s lv" and n: "table_page n" "n \<notin> avail_pages s" "lv n = None"
    and f: "table_page f" "f \<noteq> n"
  defines "s' \<equiv> copy_frame n f s"
  shows "pt_inv s' lv" "avail_pages s' = avail_pages s" "g_hhdm s' = g_hhdm s"
    "pmm_mem s' x \<noteq> pmm_mem s x \<Longrightarrow> in_page s n x" "unat i < 4096 \<Longrightarrow> page_byte s' n i = page_byte s f i"
    "lv t = Some l \<Longrightarrow> j < 512 \<Longrightarrow> rd_ent s' t j = rd_ent s t j"
proof -
  let ?m = "\<lambda>x. let o' = x - (n + g_hhdm s) in if unat o' < 4096 then pmm_mem s (f + g_hhdm s + o') else pmm_mem s x"
  have v: "pmm_phys_to_virt s n = n + g_hhdm s" "pmm_phys_to_virt s f = f + g_hhdm s"
    using n(1) f(1) by (simp_all add: pmm_phys_to_virt_def table_page_def)
  have s': "s' = s\<lparr>pmm_mem := ?m\<rparr>" unfolding s'_def copy_frame_def v ..
  have out: "?m x = pmm_mem s x" if "\<not> in_page s n x" for x using that by (simp add: in_page_def Let_def)
  show "g_hhdm s' = g_hhdm s" by (simp add: s')
  show "pmm_mem s' x \<noteq> pmm_mem s x \<Longrightarrow> in_page s n x" using out [of x] by (auto simp: s')
  show "unat i < 4096 \<Longrightarrow> page_byte s' n i = page_byte s f i" by (simp add: page_byte_def s')
  have k: "pmm_ok s'" "avail_pages s' = avail_pages s"
    using mem_page_keeps [OF pt_invD(1) [OF inv] n(1,2), of ?m] out unfolding s' in_page_def by blast+
  then show "avail_pages s' = avail_pages s" by simp
  have rd: "rd_ent s' t j = rd_ent s t j" if "lv t = Some l" "j < 512" for t l j
  proof -
    have t: "table_page t" "t \<noteq> n" using pt_invD(2) [OF inv that(1)] that(1) n(3) by auto
    then show ?thesis unfolding s' using pages_apart [OF n(1) t(1)] by (intro rd_mem_other that(2) out) auto
  qed
  then show "lv t = Some l \<Longrightarrow> j < 512 \<Longrightarrow> rd_ent s' t j = rd_ent s t j" .
  show "pt_inv s' lv"
    by (rule pt_inv_cong [OF inv k(1) equalityD1 [OF k(2)] ent_cong [OF rd]])
qed

section \<open>What has been cloned so far\<close>

definition upath :: "nat list \<Rightarrow> bool" where
  "upath ps \<longleftrightarrow> ps \<noteq> [] \<and> length ps \<le> 3 \<and> (\<forall>i \<in> set ps. i < 512) \<and> hd ps < 256"

text \<open>The copy of the page with the source entry \<open>e\<close>, seen from the state \<open>s0\<close> in front of the cloning.\<close>

definition copied :: "pmm \<Rightarrow> pmm \<Rightarrow> (u64 \<Rightarrow> nat option) \<Rightarrow> u64 \<Rightarrow> u64 \<Rightarrow> bool" where
  "copied s0 s lv e e' \<longleftrightarrow> (\<exists>f. e' = f OR make_pte_flags (fork_flags e) \<and> e' AND PTE_ADDR = f \<and> e' \<noteq> 0 \<and> table_page f
     \<and> f \<in> avail_pages s0 \<and> f \<notin> avail_pages s \<and> lv f = None
     \<and> (\<forall>i. unat i < 4096 \<longrightarrow> page_byte s f i = page_byte s0 (e AND PTE_ADDR) i))"

definition cinv :: "pmm \<Rightarrow> (u64 \<Rightarrow> nat option) \<Rightarrow> u64 \<Rightarrow> u64 \<Rightarrow> nat list set \<Rightarrow> pmm \<Rightarrow> (u64 \<Rightarrow> nat option) \<Rightarrow> bool" where
  "cinv s0 lv0 src dst P s lv \<longleftrightarrow> pt_inv s lv \<and> lv0 \<subseteq>\<^sub>m lv \<and> g_hhdm s = g_hhdm s0 \<and> avail_pages s \<subseteq> avail_pages s0
     \<and> dom lv \<subseteq> dom lv0 \<union> avail_pages s0
     \<and> (\<forall>x. pmm_mem s x \<noteq> pmm_mem s0 x \<longrightarrow> (\<exists>t \<in> dom lv0 \<union> avail_pages s0. in_page s0 t x))
     \<and> (\<forall>ps. upath ps \<longrightarrow> tpath s src ps = tpath s0 src ps)
     \<and> (\<forall>q. quad q \<longrightarrow> lookup s src q = lookup s0 src q)
     \<and> (\<forall>q. quad q \<longrightarrow> (if q \<in> P \<and> lookup s0 src q \<noteq> 0 then copied s0 s lv (lookup s0 src q) (lookup s dst q) else lookup s dst q = 0))
     \<and> (\<forall>q q'. quad q \<and> quad q' \<and> q \<noteq> q' \<and> lookup s dst q \<noteq> 0 \<and> lookup s dst q' \<noteq> 0 \<longrightarrow>
          lookup s dst q AND PTE_ADDR \<noteq> lookup s dst q' AND PTE_ADDR)"

lemma cinvD:
  assumes "cinv s0 lv0 src dst P s lv"
  shows "pt_inv s lv" "lv0 \<subseteq>\<^sub>m lv" "g_hhdm s = g_hhdm s0" "avail_pages s \<subseteq> avail_pages s0" "dom lv \<subseteq> dom lv0 \<union> avail_pages s0"
    "pmm_mem s x \<noteq> pmm_mem s0 x \<Longrightarrow> \<exists>t \<in> dom lv0 \<union> avail_pages s0. in_page s0 t x"
    "upath ps \<Longrightarrow> tpath s src ps = tpath s0 src ps" "quad q \<Longrightarrow> lookup s src q = lookup s0 src q"
    "quad q \<Longrightarrow> q \<in> P \<Longrightarrow> lookup s0 src q \<noteq> 0 \<Longrightarrow> copied s0 s lv (lookup s0 src q) (lookup s dst q)"
    "quad q \<Longrightarrow> q \<notin> P \<or> lookup s0 src q = 0 \<Longrightarrow> lookup s dst q = 0"
    "quad q \<Longrightarrow> quad q' \<Longrightarrow> q \<noteq> q' \<Longrightarrow> lookup s dst q \<noteq> 0 \<Longrightarrow> lookup s dst q' \<noteq> 0 \<Longrightarrow>
       lookup s dst q AND PTE_ADDR \<noteq> lookup s dst q' AND PTE_ADDR"
  using assms unfolding cinv_def by (blast, blast, blast, blast, blast, blast, blast, blast, meson, meson, blast)

text \<open>Pages that are not mapped need no copy.\<close>

lemma cinv_skip:
  assumes "cinv s0 lv0 src dst P s lv" "\<forall>q \<in> Q. quad q \<longrightarrow> lookup s0 src q = 0"
  shows "cinv s0 lv0 src dst (P \<union> Q) s lv"
  using assms unfolding cinv_def by auto

lemma copied_mono:
  assumes "copied s0 s lv e e'" "avail_pages s' \<subseteq> avail_pages s" "\<And>f. f \<in> dom lv' \<Longrightarrow> f \<in> dom lv \<union> avail_pages s"
    and "\<And>f i. table_page f \<Longrightarrow> f \<notin> avail_pages s \<Longrightarrow> lv f = None \<Longrightarrow> unat i < 4096 \<Longrightarrow> page_byte s' f i = page_byte s f i"
  shows "copied s0 s' lv' e e'"
proof -
  obtain f where f: "e' = f OR make_pte_flags (fork_flags e)" "e' AND PTE_ADDR = f" "e' \<noteq> 0" "table_page f" "f \<in> avail_pages s0"
      "f \<notin> avail_pages s" "lv f = None" "\<forall>i. unat i < 4096 \<longrightarrow> page_byte s f i = page_byte s0 (e AND PTE_ADDR) i"
    using assms(1) unfolding copied_def by blast
  have "lv' f = None" using assms(3) [of f] f(6,7) by blast
  moreover have "f \<notin> avail_pages s'" using f(6) assms(2) by blast
  moreover have "\<forall>i. unat i < 4096 \<longrightarrow> page_byte s' f i = page_byte s0 (e AND PTE_ADDR) i" using f(8) assms(4) [OF f(4,6,7)] by simp
  ultimately show ?thesis unfolding copied_def using f(1-5) by blast
qed

text \<open>One page more.\<close>

lemma clone_page_step:
  assumes i0: "pt_inv s0 lv0" "src_frames s0 lv0 src" "lv0 src = Some 4" "lv0 dst = Some 4" "src \<noteq> dst"
    and C: "cinv s0 lv0 src dst P s lv" and q: "quad (vidx va)" "vidx va \<notin> P" "e = lookup s0 src (vidx va)" "e \<noteq> 0"
    and a: "clone_page dst va e s = (True, s')"
  shows "\<exists>lv'. cinv s0 lv0 src dst (insert (vidx va) P) s' lv'"
proof -
  note D = cinvD [OF C]
  let ?q = "vidx va" and ?f = "e AND PTE_ADDR"
  obtain n s1 where al1: "pmm_alloc_page s = (n, s1)" by (rule prod.exhaust)
  obtain ok s3 where m1: "vmm_map_page_into dst va n (fork_flags e) (copy_frame n ?f s1) = (ok, s3)" by (rule prod.exhaust)
  have "n \<noteq> 0" using a by (cases "n = 0") (simp_all add: clone_page_def al1)
  moreover have "ok" using a \<open>n \<noteq> 0\<close> by (cases ok) (simp_all add: clone_page_def al1 m1)
  moreover have "s3 = s'" using a calculation by (simp add: clone_page_def al1 m1)
  ultimately have al: "pmm_alloc_page s = (n, s1)" "n \<noteq> 0"
    and m: "vmm_map_page_into dst va n (fork_flags e) (copy_frame n ?f s1) = (True, s')"
    using al1 m1 by simp_all
  let ?s2 = "copy_frame n ?f s1"
  note A = alloc_table_page [OF pt_invD(1) [OF D(1)] al] and F = alloc_frame [OF al(1)]
  have f: "table_page ?f" "?f \<notin> avail_pages s0" "lv0 ?f = None" using src_framesD [OF i0(2) q(1)] q(3,4) by simp_all
  have n0: "n \<in> avail_pages s0" using A(2) D(4) by blast
  have lvn: "lv n = None" using A(2) pt_invD(3) [OF D(1), of n] by (cases "lv n") auto
  have n1: "n \<notin> avail_pages s1" using A(3) by simp
  have fn: "?f \<noteq> n" using f(2) n0 by blast
  have up: "lv0 t = Some l \<Longrightarrow> lv t = Some l" for t l using D(2) by (auto simp: map_le_def dom_def)
  have roots: "lv src = Some 4" "lv dst = Some 4" using i0(3,4) up by blast+
  note S = copy_frame_spec [OF pt_inv_alloc [OF D(1) al] A(1) n1 lvn f(1) fn]
  obtain lv' where M: "pt_inv s' lv'" "grows ?s2 lv s' lv'"
      "\<And>is. length is = 4 \<Longrightarrow> \<forall>i \<in> set is. i < 512 \<Longrightarrow>
         lookup s' dst is = (if is = ?q then (n AND PTE_ADDR) OR make_pte_flags (fork_flags e) else lookup ?s2 dst is)"
      "\<And>r' is. lv r' = Some 4 \<Longrightarrow> r' \<noteq> dst \<Longrightarrow> length is = 4 \<Longrightarrow> \<forall>i \<in> set is. i < 512 \<Longrightarrow> hd is < 256 \<Longrightarrow> lookup s' r' is = lookup ?s2 r' is"
      "\<And>r' is. lv r' = Some 4 \<Longrightarrow> r' \<noteq> dst \<Longrightarrow> is \<noteq> [] \<Longrightarrow> length is \<le> 3 \<Longrightarrow> \<forall>i \<in> set is. i < 512 \<Longrightarrow> hd is < 256 \<Longrightarrow>
         tpath s' r' is = tpath ?s2 r' is"
    by (rule map_into_lookups [OF S(1) roots(2) m]) blast
  note G = growsD [OF M(2)]
  have rd: "rd_ent ?s2 t j = rd_ent s t j" if "lv t = Some l" "j < 512" for t l j
    using S(6) [OF that] rd_alloc [OF al(1)] by simp
  have look2: "lookup ?s2 t is = lookup s t is" if "lv t = Some (length is)" "\<forall>i \<in> set is. i < 512" for t "is"
    by (rule lookup_cong [OF D(1) rd that])
  have hh: "g_hhdm s1 = g_hhdm s" "g_hhdm ?s2 = g_hhdm s" "g_hhdm s' = g_hhdm s" using F(2) S(3) G(1) by simp_all
  have av: "avail_pages s' \<subseteq> avail_pages s - {n}" using G(2) S(2) A(3) by simp
  have dl: "dom lv' \<subseteq> dom lv \<union> (avail_pages s - {n})" using G(4) S(2) A(3) by simp
  have nl: "n \<notin> dom lv'" using dl lvn by auto
  have ch: "in_page s n x \<or> (\<exists>t \<in> dom lv'. in_page s t x)" if "pmm_mem s' x \<noteq> pmm_mem s x" for x
  proof (cases "pmm_mem ?s2 x = pmm_mem s x")
    case True
    then show ?thesis using G(5) [of x] that hh(2) by (simp add: in_page_def)
  next
    case False
    then show ?thesis using S(4) [of x] F(1) hh(1) by (simp add: in_page_def)
  qed
  have tp': "table_page t" if "t \<in> dom lv'" for t using that pt_invD(2) [OF M(1)] by blast
  have keep: "page_byte s' g i = page_byte s g i" if "table_page g" "g \<notin> avail_pages s" "lv g = None" "unat i < 4096" for g i
  proof (rule page_byte_same [OF that(1,4) hh(3)])
    show "\<exists>t \<in> insert n (dom lv'). table_page t \<and> in_page s t x" if "pmm_mem s' x \<noteq> pmm_mem s x" for x
      using ch [OF that] tp' A(1) by blast
    show "g \<notin> insert n (dom lv')" using that(2,3) A(2) dl by auto
  qed
  have mem0: "\<exists>t \<in> dom lv0 \<union> avail_pages s0. in_page s0 t x" if x: "pmm_mem s' x \<noteq> pmm_mem s0 x" for x
  proof (cases "pmm_mem s x = pmm_mem s0 x")
    case True
    then have "in_page s n x \<or> (\<exists>t \<in> dom lv'. in_page s t x)" using ch x by simp
    then obtain t where "t = n \<or> t \<in> dom lv'" "in_page s0 t x" using D(3) by (auto simp: in_page_def)
    moreover have "t \<in> dom lv0 \<union> avail_pages s0" if "t = n \<or> t \<in> dom lv'" using that n0 dl D(4,5) by blast
    ultimately show ?thesis by blast
  next
    case False
    then show ?thesis using D(6) [of x] by blast
  qed
  have tp0: "table_page t" if "t \<in> dom lv0 \<union> avail_pages s0" for t
    using that pt_invD(2) [OF i0(1)] avail_table_page [OF pt_invD(1) [OF i0(1)]] by blast
  let ?e' = "n OR make_pte_flags (fork_flags e)"
  have e': "?e' AND PTE_ADDR = n" "?e' \<noteq> 0"
    using leaf_entry [of n "fork_flags e"] table_page_addr [OF A(1)] present_nonzero by simp_all
  have Ld: "lookup s' dst p = (if p = ?q then ?e' else lookup s dst p)" if "quad p" for p
    using M(3) [of p] look2 [of dst p] that roots(2) table_page_addr [OF A(1)] by (simp add: quad_def)
  have "copied s0 s' lv' e ?e'"
  proof -
    have "page_byte s' n i = page_byte s0 ?f i" if i: "unat i < 4096" for i
    proof -
      have "page_byte s' n i = page_byte ?s2 n i"
        by (rule page_byte_same [OF A(1) i G(1) _ nl]) (use G(5) tp' in blast)
      also have "\<dots> = page_byte s ?f i" using S(5) [OF i] F by (simp add: page_byte_def)
      also have "\<dots> = page_byte s0 ?f i"
        by (rule page_byte_same [OF f(1) i D(3), of "dom lv0 \<union> avail_pages s0"]) (use D(6) tp0 f(2,3) in blast)+
      finally show ?thesis .
    qed
    then show ?thesis
      unfolding copied_def using A(1) av n0 nl e' by (intro exI [of _ n]) auto
  qed
  moreover have "copied s0 s' lv' (lookup s0 src p) (lookup s dst p)" if "quad p" "p \<in> P" "lookup s0 src p \<noteq> 0" for p
    by (rule copied_mono [OF D(9) [OF that]]) (use av dl keep in blast)+
  ultimately have each: "if p \<in> insert ?q P \<and> lookup s0 src p \<noteq> 0 then copied s0 s' lv' (lookup s0 src p) (lookup s' dst p) else lookup s' dst p = 0"
    if "quad p" for p
    using that Ld [OF that] D(10) [OF that] q by auto
  have old: "lookup s dst p AND PTE_ADDR \<noteq> n" if "quad p" "lookup s dst p \<noteq> 0" for p
  proof -
    have "copied s0 s lv (lookup s0 src p) (lookup s dst p)" using D(9,10) [OF that(1)] that(2) by blast
    then show ?thesis unfolding copied_def using A(2) by auto
  qed
  have dist: "lookup s' dst p AND PTE_ADDR \<noteq> lookup s' dst p' AND PTE_ADDR"
    if "quad p" "quad p'" "p \<noteq> p'" "lookup s' dst p \<noteq> 0" "lookup s' dst p' \<noteq> 0" for p p'
    using D(11) [OF that(1-3)] that Ld [OF that(1)] Ld [OF that(2)] old [OF that(1)] old [OF that(2)] e'(1) by (metis (full_types))
  have paths: "tpath s' src ps = tpath s0 src ps" if "upath ps" for ps
  proof -
    note u = that [unfolded upath_def]
    have "tpath s' src ps = tpath ?s2 src ps" using M(5) [OF roots(1) i0(5)] u by blast
    also have "\<dots> = tpath s src ps"
      by (rule tpath_cong [OF D(1) rd, where t = src and ps = ps and k = "4 - length ps"]) (use u roots(1) in auto)
    finally show ?thesis using D(7) [OF that] by simp
  qed
  have walks: "lookup s' src p = lookup s0 src p" if "quad p" for p
    using M(4) [OF roots(1) i0(5), of p] look2 [of src p] D(8) [OF that] that roots(1) by (simp add: quad_def)
  have "lv0 \<subseteq>\<^sub>m lv'" using D(2) G(3) map_le_trans by blast
  moreover have "dom lv' \<subseteq> dom lv0 \<union> avail_pages s0" using dl D(4,5) by blast
  moreover have "avail_pages s' \<subseteq> avail_pages s0" using av D(4) by blast
  ultimately have "cinv s0 lv0 src dst (insert ?q P) s' lv'"
    unfolding cinv_def using M(1) hh(3) D(3) mem0 paths walks each dist by simp
  then show ?thesis by (intro exI [of _ lv'])
qed

section \<open>The four loops\<close>

lemma index_field:
  assumes "i < 512" "m + 9 \<le> 64" "k = m \<or> k + 9 \<le> m \<or> m + 9 \<le> k"
  shows "take_bit 9 (drop_bit k (push_bit m (of_nat i :: u64))) = (if k = m then of_nat i else 0)"
proof -
  have w: "take_bit 9 (of_nat i :: u64) = of_nat i" using assms(1) by (simp add: take_bit_of_nat take_bit_nat_eq_self)
  have hb: "\<not> bit (of_nat i :: u64) j" if "9 \<le> j" for j
    using that by (subst w [symmetric]) (simp add: bit_take_bit_iff)
  consider "k = m" | "k + 9 \<le> m" | "m + 9 \<le> k" using assms(3) by blast
  then show ?thesis
  proof cases
    case 1
    have "bit (take_bit 9 (drop_bit k (push_bit m (of_nat i :: u64)))) n = bit (of_nat i :: u64) n" for n
      using 1 assms(2) hb [of n] by (cases "n < 9") (auto simp: bit_take_bit_iff bit_drop_bit_eq bit_push_bit_iff)
    then show ?thesis using 1 by (intro bit_word_eqI) auto
  next
    case 2
    have "\<not> bit (take_bit 9 (drop_bit k (push_bit m (of_nat i :: u64)))) n" for n
      using 2 by (auto simp: bit_take_bit_iff bit_drop_bit_eq bit_push_bit_iff)
    then show ?thesis using 2 by (intro bit_word_eqI) auto
  next
    case 3
    have "\<not> bit (take_bit 9 (drop_bit k (push_bit m (of_nat i :: u64)))) n" for n
      using 3 hb [of "k + n - m"] by (auto simp: bit_take_bit_iff bit_drop_bit_eq bit_push_bit_iff)
    then show ?thesis using 3 by (intro bit_word_eqI) auto
  qed
qed

lemma index_unat: "i < 512 \<Longrightarrow> unat (of_nat i :: u64) = i"
  by (simp add: unsigned_of_nat take_bit_nat_eq_self)

lemma vidx_fork_va:
  assumes "i1 < 512" "i2 < 512" "i3 < 512" "i4 < 512"
  shows "vidx (fork_va i1 i2 i3 i4) = [i1, i2, i3, i4]"
proof -
  have m9: "x AND 0x1FF = take_bit 9 x" for x :: u64 by (simp add: take_bit_eq_mask mask_eq_exp_minus_1)
  show ?thesis
    unfolding vidx_def idx_pml4_def idx_pdpt_def idx_pd_def idx_pt_def fork_va_def m9 drop_bit_or take_bit_or
    using assms by (simp add: index_field index_unat del: take_bit_drop_bit)
qed

text \<open>The pages under a table.\<close>

definition below :: "nat list \<Rightarrow> nat list set" where
  "below ps = {q. quad q \<and> take (length ps) q = ps}"

lemma below_split: "below [] = (\<Union>i \<in> {0..<256}. below [i])"
  "ps \<noteq> [] \<Longrightarrow> length ps \<le> 3 \<Longrightarrow> below ps = (\<Union>i \<in> {0..<512}. below (ps @ [i]))"
proof -
  have "quad q \<Longrightarrow> take 1 q = [hd q] \<and> hd q < 256" for q by (cases q) (auto simp: quad_def)
  then show "below [] = (\<Union>i \<in> {0..<256}. below [i])" by (fastforce simp: below_def)
  assume l: "ps \<noteq> []" "length ps \<le> 3"
  have "take (Suc (length ps)) q = take (length ps) q @ [q ! length ps] \<and> q ! length ps < 512" if "quad q" for q
    using that l by (auto simp: quad_def take_Suc_conv_app_nth)
  then show "below ps = (\<Union>i \<in> {0..<512}. below (ps @ [i]))" by (fastforce simp: below_def)
qed

lemma below_apart: "i \<noteq> j \<Longrightarrow> below (ps @ [i]) \<inter> below (ps @ [j]) = {}"
  by (auto simp: below_def)

lemma below_leaf: "quad q \<Longrightarrow> below q = {q}"
  by (auto simp: below_def quad_def)

text \<open>
  The pages the source maps, and a state in which those of \<open>P\<close> are copied: with \<open>b\<close> there are also
  four free pages for each one still to copy, one for the copy and three for tables.
\<close>

definition mapped :: "pmm \<Rightarrow> u64 \<Rightarrow> nat list set" where
  "mapped s src = {q. quad q \<and> lookup s src q \<noteq> 0}"

definition cloned :: "bool \<Rightarrow> pmm \<Rightarrow> (u64 \<Rightarrow> nat option) \<Rightarrow> u64 \<Rightarrow> u64 \<Rightarrow> nat list set \<Rightarrow> pmm \<Rightarrow> bool" where
  "cloned b s0 lv0 src dst P s \<longleftrightarrow>
     (\<exists>lv. cinv s0 lv0 src dst P s lv) \<and> (b \<longrightarrow> room s (4 * card (mapped s0 src - P)))"

text \<open>A step that returns a result for \<open>P\<close>; it cannot fail when there is memory.\<close>

definition clones :: "bool \<Rightarrow> pmm \<Rightarrow> (u64 \<Rightarrow> nat option) \<Rightarrow> u64 \<Rightarrow> u64 \<Rightarrow> nat list set \<Rightarrow> bool \<times> pmm \<Rightarrow> bool" where
  "clones b s0 lv0 src dst P r \<longleftrightarrow> (b \<longrightarrow> fst r) \<and> (fst r \<longrightarrow> cloned b s0 lv0 src dst P (snd r))"

lemma finite_mapped: "finite (mapped s src)"
proof -
  have "mapped s src \<subseteq> {q. set q \<subseteq> {..<512} \<and> length q = 4}" by (auto simp: mapped_def quad_def)
  then show ?thesis by (rule finite_subset) (rule finite_lists_length_eq, simp)
qed

lemma cloned_skip:
  assumes "cloned b s0 lv0 src dst P s" "\<And>q. q \<in> Q \<Longrightarrow> lookup s0 src q = 0"
  shows "cloned b s0 lv0 src dst (P \<union> Q) s"
proof -
  have "mapped s0 src - (P \<union> Q) = mapped s0 src - P" using assms(2) by (auto simp: mapped_def)
  then show ?thesis using assms cinv_skip [of s0 lv0 src dst P s _ Q] unfolding cloned_def by auto
qed

lemma each_entry_loop:
  assumes step: "\<And>i P s. i \<in> set js \<Longrightarrow> cloned b s0 lv0 src dst P s \<Longrightarrow> below (ps @ [i]) \<inter> P = {} \<Longrightarrow> present (rd_ent s t i) \<Longrightarrow>
      clones b s0 lv0 src dst (P \<union> below (ps @ [i])) (body i (rd_ent s t i) s)"
    and skip: "\<And>i P s q. i \<in> set js \<Longrightarrow> cloned b s0 lv0 src dst P s \<Longrightarrow> \<not> present (rd_ent s t i) \<Longrightarrow> q \<in> below (ps @ [i]) \<Longrightarrow>
      lookup s0 src q = 0"
    and "distinct js" "cloned b s0 lv0 src dst P s" "\<forall>i \<in> set js. below (ps @ [i]) \<inter> P = {}"
  shows "clones b s0 lv0 src dst (P \<union> (\<Union>i \<in> set js. below (ps @ [i]))) (each_entry body t js s)"
  using assms
proof (induction js arbitrary: P s)
  case Nil
  then show ?case by (simp add: clones_def)
next
  case (Cons i js)
  let ?P = "P \<union> below (ps @ [i])"
  have fresh: "\<forall>j \<in> set js. below (ps @ [j]) \<inter> ?P = {}"
  proof
    fix j
    assume "j \<in> set js"
    then have "i \<noteq> j" "below (ps @ [j]) \<inter> P = {}" using Cons.prems(3,5) by auto
    then show "below (ps @ [j]) \<inter> ?P = {}" using below_apart [of i j ps] by blast
  qed
  have rest: "clones b s0 lv0 src dst (P \<union> (\<Union>i \<in> set (i # js). below (ps @ [i]))) (each_entry body t js s1)"
    if c: "cloned b s0 lv0 src dst ?P s1" for s1
  proof -
    have "clones b s0 lv0 src dst (?P \<union> (\<Union>i \<in> set js. below (ps @ [i]))) (each_entry body t js s1)"
    proof (rule Cons.IH [OF _ _ _ c fresh])
      show "distinct js" using Cons.prems(3) by simp
      show "lookup s0 src q = 0" if "j \<in> set js" "cloned b s0 lv0 src dst Q u" "\<not> present (rd_ent u t j)" "q \<in> below (ps @ [j])" for j Q u q
        by (rule Cons.prems(2) [OF list.set_intros(2) [OF that(1)] that(2-)])
    qed (rule Cons.prems(1) [OF list.set_intros(2)])
    then show ?thesis by (simp add: Un_assoc)
  qed
  show ?case
  proof (cases "present (rd_ent s t i)")
    case True
    obtain ok s1 where r: "body i (rd_ent s t i) s = (ok, s1)" by (rule prod.exhaust)
    have "clones b s0 lv0 src dst ?P (ok, s1)"
      using Cons.prems(1) [OF _ Cons.prems(4) _ True] Cons.prems(5) r by simp
    then show ?thesis using rest [of s1] True r by (auto simp: clones_def present_def PTE_P_def Let_def)
  next
    case False
    then have "cloned b s0 lv0 src dst ?P s" by (intro cloned_skip [OF Cons.prems(4)] Cons.prems(2) [OF _ Cons.prems(4)]) simp_all
    then show ?thesis using rest [of s] False by (simp add: present_def PTE_P_def Let_def)
  qed
qed

definition fork_start :: "pmm \<Rightarrow> (u64 \<Rightarrow> nat option) \<Rightarrow> u64 \<Rightarrow> u64 \<Rightarrow> bool" where
  "fork_start s0 lv0 src dst \<longleftrightarrow>
     pt_inv s0 lv0 \<and> src_frames s0 lv0 src \<and> lv0 src = Some 4 \<and> lv0 dst = Some 4 \<and> src \<noteq> dst"

lemma fork_startD:
  assumes "fork_start s0 lv0 src dst"
  shows "pt_inv s0 lv0" "src_frames s0 lv0 src" "lv0 src = Some 4" "lv0 dst = Some 4" "src \<noteq> dst"
  using assms by (simp_all add: fork_start_def)

lemma clone_sees_table:
  assumes "cloned b s0 lv0 src dst P s" "tpath s0 src ps = Some t" "length ps \<le> 2" "upath (ps @ [i])"
  shows "ent s t i = tpath s0 src (ps @ [i])"
proof -
  obtain lv where C: "cinv s0 lv0 src dst P s lv" using assms(1) unfolding cloned_def by blast
  have "tpath s src ps = Some t" using assms(2,4) cinvD(7) [OF C, of ps] by (cases ps) (auto simp: upath_def)
  then show ?thesis using cinvD(7) [OF C assms(4)] by (simp add: tpath_snoc)
qed

lemma clone_sees_page:
  assumes "cloned b s0 lv0 src dst P s" "tpath s0 src ps = Some t" "quad (ps @ [i])"
  shows "(if present (rd_ent s t i) then rd_ent s t i else 0) = lookup s0 src (ps @ [i])"
proof -
  obtain lv where C: "cinv s0 lv0 src dst P s lv" using assms(1) unfolding cloned_def by blast
  have "upath ps" using assms(3) by (cases ps) (auto simp: upath_def quad_def)
  then have "tpath s src ps = Some t" using cinvD(7) [OF C] assms(2) by simp
  then have "lookup s src (ps @ [i]) = lookup s t [i]" using lookup_tpath [of "[i]" s src ps] by simp
  then show ?thesis using cinvD(8) [OF C assms(3)] by simp
qed

lemma clone_level:
  assumes st: "fork_start s0 lv0 src dst" and t: "tpath s0 src ps = Some t" "length ps \<le> 2"
    and js: "\<forall>i \<in> set js. upath (ps @ [i])" "distinct js"
    and sub: "\<And>i c P s. i \<in> set js \<Longrightarrow> tpath s0 src (ps @ [i]) = Some c \<Longrightarrow> cloned b s0 lv0 src dst P s \<Longrightarrow>
      below (ps @ [i]) \<inter> P = {} \<Longrightarrow> clones b s0 lv0 src dst (P \<union> below (ps @ [i])) (sub i c s)"
    and c: "cloned b s0 lv0 src dst P s" "\<forall>i \<in> set js. below (ps @ [i]) \<inter> P = {}"
  shows "clones b s0 lv0 src dst (P \<union> (\<Union>i \<in> set js. below (ps @ [i]))) (each_entry (\<lambda>i e. sub i (e AND PTE_ADDR)) t js s)"
proof (rule each_entry_loop [OF _ _ js(2) c])
  fix i Q u
  assume i: "i \<in> set js" "cloned b s0 lv0 src dst Q u" "below (ps @ [i]) \<inter> Q = {}" "present (rd_ent u t i)"
  have up: "upath (ps @ [i])" using js(1) i(1) by blast
  let ?c = "rd_ent u t i AND NOT 0xFFF"
  have p: "tpath s0 src (ps @ [i]) = Some ?c"
    using clone_sees_table [OF i(2) t up] i(4) by (simp add: ent_def)
  have "lv0 src = Some (length (ps @ [i]) + (3 - length ps))" using fork_startD(3) [OF st] t(2) by simp
  from tpath_level [OF fork_startD(1) [OF st] this _ _ p] up t(2) have "lv0 ?c = Some (3 - length ps)" by (simp add: upath_def)
  then have "rd_ent u t i AND PTE_ADDR = ?c" by (intro child_addr pt_invD(2) [OF fork_startD(1) [OF st]])
  then show "clones b s0 lv0 src dst (Q \<union> below (ps @ [i])) (sub i (rd_ent u t i AND PTE_ADDR) u)" using sub [OF i(1) p i(2,3)] by simp
next
  fix i Q u q
  assume i: "i \<in> set js" "cloned b s0 lv0 src dst Q u" "\<not> present (rd_ent u t i)" "q \<in> below (ps @ [i])"
  have "upath (ps @ [i])" using js(1) i(1) by blast
  from clone_sees_table [OF i(2) t this] i(3) have "tpath s0 src (ps @ [i]) = None" by (simp add: ent_def)
  moreover have "q = (ps @ [i]) @ drop (length (ps @ [i])) q" "drop (length (ps @ [i])) q \<noteq> []"
    using i(4) t(2) append_take_drop_id [of "length (ps @ [i])" q] by (auto simp: below_def quad_def)
  ultimately show "lookup s0 src q = 0"
    using lookup_tpath [of "drop (length (ps @ [i])) q" s0 src "ps @ [i]"] by simp
qed

text \<open>A page is copied when four pages are free.\<close>

lemma clone_page_room:
  assumes inv: "pt_inv s lv" "lv dst = Some 4" and f: "table_page (e AND PTE_ADDR)" "e AND PTE_ADDR \<notin> avail_pages s"
    and n: "room s (4 + n)"
  shows "fst (clone_page dst va e s)" "room (snd (clone_page dst va e s)) n"
proof -
  obtain p s1 where al: "pmm_alloc_page s = (p, s1)" by (rule prod.exhaust)
  have "avail_pages s \<noteq> {}" using n by (auto simp: room_def)
  then have p0: "p \<noteq> 0" using pages.alloc_succeeds_iff [OF pt_invD(1) [OF inv(1)]] al by simp
  note A = alloc_table_page [OF pt_invD(1) [OF inv(1)] al p0]
  have lvn: "lv p = None" using A(2) pt_invD(3) [OF inv(1), of p] by (cases "lv p") auto
  have ne: "e AND PTE_ADDR \<noteq> p" "p \<notin> avail_pages s1" using A(2,3) f(2) by auto
  note S = copy_frame_spec [OF pt_inv_alloc [OF inv(1) al p0] A(1) ne(2) lvn f(1) ne(1)]
  have "room s (Suc (n + 3))" using n by (simp add: add.commute)
  from room_take [OF this, of s1 p] A(3) have "room (copy_frame p (e AND PTE_ADDR) s1) (n + 3)" using S(2) by (simp add: room_def)
  from map_into_room [OF S(1) inv(2) this] obtain s' where
    "vmm_map_page_into dst va p (fork_flags e) (copy_frame p (e AND PTE_ADDR) s1) = (True, s')" "room s' n" by blast
  then show "fst (clone_page dst va e s)" "room (snd (clone_page dst va e s)) n"
    using p0 by (simp_all add: clone_page_def al)
qed

lemma clone_page_clones:
  assumes st: "fork_start s0 lv0 src dst" and q: "quad (vidx va)" "vidx va \<notin> P" "e = lookup s0 src (vidx va)" "e \<noteq> 0"
    and c: "cloned b s0 lv0 src dst P s"
  shows "clones b s0 lv0 src dst (insert (vidx va) P) (clone_page dst va e s)"
proof -
  obtain lv where C: "cinv s0 lv0 src dst P s lv" using c unfolding cloned_def by blast
  let ?M = "mapped s0 src"
  have m: "vidx va \<in> ?M - P" using q by (simp add: mapped_def)
  have card: "card (?M - P) = Suc (card (?M - insert (vidx va) P))"
    unfolding Diff_insert [of ?M "vidx va" P] by (rule card.remove [OF finite_Diff [OF finite_mapped] m])
  have "fst (clone_page dst va e s) \<and> room (snd (clone_page dst va e s)) (4 * card (?M - insert (vidx va) P))" if b
  proof -
    have "lv dst = Some 4" using fork_startD(4) [OF st] cinvD(2) [OF C] by (auto simp: map_le_def dom_def)
    moreover have "table_page (e AND PTE_ADDR)" "e AND PTE_ADDR \<notin> avail_pages s0"
      using src_framesD [OF fork_startD(2) [OF st] q(1)] q(3,4) by simp_all
    moreover have "e AND PTE_ADDR \<notin> avail_pages s" using calculation(3) cinvD(4) [OF C] by blast
    moreover have "room s (4 + 4 * card (?M - insert (vidx va) P))" using c \<open>b\<close> card unfolding cloned_def by simp
    ultimately show ?thesis using clone_page_room [OF cinvD(1) [OF C]] by blast
  qed
  moreover have "\<exists>lv'. cinv s0 lv0 src dst (insert (vidx va) P) (snd (clone_page dst va e s)) lv'" if "fst (clone_page dst va e s)"
    using clone_page_step [OF fork_startD [OF st] C q, of "snd (clone_page dst va e s)"] that by (simp add: prod_eq_iff)
  ultimately show ?thesis unfolding clones_def cloned_def by blast
qed

lemma clone_pt_copies:
  assumes st: "fork_start s0 lv0 src dst" and t: "tpath s0 src [i1, i2, i3] = Some t" and b: "i1 < 256" "i2 < 512" "i3 < 512"
    and c: "cloned b s0 lv0 src dst P s" "below [i1, i2, i3] \<inter> P = {}"
  shows "clones b s0 lv0 src dst (P \<union> below [i1, i2, i3]) (clone_pt dst i1 i2 i3 t s)"
proof -
  let ?ps = "[i1, i2, i3]"
  have split: "below ?ps = (\<Union>i \<in> set [0..<512]. below (?ps @ [i]))" unfolding set_upt by (rule below_split(2)) simp_all
  have quad: "quad (?ps @ [i])" if "i \<in> set [0..<512]" for i
    using that b unfolding set_upt by (simp add: quad_def)
  have f: "\<forall>i \<in> set [0..<512]. below (?ps @ [i]) \<inter> P = {}" using c(2) unfolding split by blast
  show ?thesis
    unfolding split clone_pt_def
  proof (rule each_entry_loop [OF _ _ distinct_upt c(1) f])
    fix i Q u
    assume i: "i \<in> set [0..<512]" "cloned b s0 lv0 src dst Q u" "below (?ps @ [i]) \<inter> Q = {}" "present (rd_ent u t i)"
    note q = quad [OF i(1)]
    have v: "vidx (fork_va i1 i2 i3 i) = ?ps @ [i]" using q b vidx_fork_va [of i1 i2 i3 i] by (simp add: quad_def)
    have e: "rd_ent u t i = lookup s0 src (?ps @ [i])" "rd_ent u t i \<noteq> 0"
      using clone_sees_page [OF i(2) t q] i(4) present_nonzero by auto
    have n: "?ps @ [i] \<notin> Q" using i(3) below_leaf [OF q] by simp
    from clone_page_clones [OF st _ _ _ e(2) i(2), of "fork_va i1 i2 i3 i", unfolded v, OF q n e(1)]
    show "clones b s0 lv0 src dst (Q \<union> below (?ps @ [i])) (clone_page dst (fork_va i1 i2 i3 i) (rd_ent u t i) u)"
      unfolding below_leaf [OF q] by simp
  next
    fix i Q u q
    assume i: "i \<in> set [0..<512]" "cloned b s0 lv0 src dst Q u" "\<not> present (rd_ent u t i)" "q \<in> below (?ps @ [i])"
    then show "lookup s0 src q = 0" using clone_sees_page [OF i(2) t quad [OF i(1)]] below_leaf [OF quad [OF i(1)]] by simp
  qed
qed

lemma clone_table_copies:
  assumes st: "fork_start s0 lv0 src dst" and t: "tpath s0 src ps = Some t" "length ps \<le> 2" and up: "upath ps"
    and sub: "\<And>i d Q u. i < 512 \<Longrightarrow> tpath s0 src (ps @ [i]) = Some d \<Longrightarrow> cloned b s0 lv0 src dst Q u \<Longrightarrow>
      below (ps @ [i]) \<inter> Q = {} \<Longrightarrow> clones b s0 lv0 src dst (Q \<union> below (ps @ [i])) (sub i d u)"
    and c: "cloned b s0 lv0 src dst P s" "below ps \<inter> P = {}"
  shows "clones b s0 lv0 src dst (P \<union> below ps) (each_entry (\<lambda>i e. sub i (e AND PTE_ADDR)) t [0..<512] s)"
proof -
  have split: "below ps = (\<Union>i \<in> set [0..<512]. below (ps @ [i]))"
    unfolding set_upt by (rule below_split(2)) (use up t(2) in \<open>simp_all add: upath_def\<close>)
  have f: "\<forall>i \<in> set [0..<512]. below (ps @ [i]) \<inter> P = {}" using c(2) unfolding split by blast
  have u: "\<forall>i \<in> set [0..<512]. upath (ps @ [i])" unfolding set_upt using up t(2) by (simp add: upath_def)
  show ?thesis
    unfolding split
    by (rule clone_level [OF st t u distinct_upt _ c(1) f]) (use sub in \<open>simp only: set_upt atLeastLessThan_iff\<close>)
qed

lemma clone_pd_copies:
  assumes st: "fork_start s0 lv0 src dst" and t: "tpath s0 src [i1, i2] = Some t" and b: "i1 < 256" "i2 < 512"
    and c: "cloned b s0 lv0 src dst P s" "below [i1, i2] \<inter> P = {}"
  shows "clones b s0 lv0 src dst (P \<union> below [i1, i2]) (clone_pd dst i1 i2 t s)"
  unfolding clone_pd_def
  by (rule clone_table_copies [OF st t _ _ _ c]) (use b clone_pt_copies [OF st _ b] in \<open>simp_all add: upath_def\<close>)

lemma clone_pdpt_copies:
  assumes st: "fork_start s0 lv0 src dst" and t: "tpath s0 src [i1] = Some t" and b: "i1 < 256"
    and c: "cloned b s0 lv0 src dst P s" "below [i1] \<inter> P = {}"
  shows "clones b s0 lv0 src dst (P \<union> below [i1]) (clone_pdpt dst i1 t s)"
  unfolding clone_pdpt_def
  by (rule clone_table_copies [OF st t _ _ _ c]) (use b clone_pd_copies [OF st _ b] in \<open>simp_all add: upath_def\<close>)

lemma clone_pml4_copies:
  assumes st: "fork_start s0 lv0 src dst" and c: "cloned b s0 lv0 src dst {} s0"
  shows "clones b s0 lv0 src dst {q. quad q} (clone_pml4 dst src s0)"
proof -
  have split: "{q. quad q} = {} \<union> (\<Union>i \<in> set [0..<256]. below ([] @ [i]))"
    using below_split(1) unfolding set_upt by (simp add: below_def)
  show ?thesis
    unfolding split clone_pml4_def
  proof (rule clone_level [OF st _ _ _ distinct_upt _ c])
    show "\<forall>i \<in> set [0..<256]. upath ([] @ [i])" unfolding set_upt by (simp add: upath_def)
    show "clones b s0 lv0 src dst (Q \<union> below ([] @ [i])) (clone_pdpt dst i d u)"
      if "i \<in> set [0..<256]" "tpath s0 src ([] @ [i]) = Some d" "cloned b s0 lv0 src dst Q u" "below ([] @ [i]) \<inter> Q = {}" for i d Q u
      using clone_pdpt_copies [OF st _ _ that(3)] that(1,2,4) unfolding set_upt by simp
  qed simp_all
qed

section \<open>The copy of an address space\<close>

text \<open>What a load from the user address \<open>v\<close> returns in the address space \<open>r\<close>.\<close>

definition user_byte :: "pmm \<Rightarrow> u64 \<Rightarrow> u64 \<Rightarrow> u8 option" where
  "user_byte s r v = (let p = translate_in s r v in if p = 0 then None else Some (pmm_mem s (pmm_phys_to_virt s p)))"

lemma user_byte_page:
  assumes "table_page (lookup s r (vidx v) AND PTE_ADDR)" "lookup s r (vidx v) \<noteq> 0"
  shows "user_byte s r v = Some (page_byte s (lookup s r (vidx v) AND PTE_ADDR) (v AND 0xFFF))"
proof -
  let ?f = "lookup s r (vidx v) AND PTE_ADDR"
  have "?f AND (v AND 0xFFF) = 0" by (simp add: PTE_ADDR_def and.assoc and.left_commute [of _ v])
  then have "?f OR (v AND 0xFFF) = ?f + (v AND 0xFFF)" using disjunctive_add_eq_or [of ?f "v AND 0xFFF"] by simp
  moreover have "?f OR (v AND 0xFFF) \<noteq> 0" using assms(1) by (simp add: table_page_def or_eq_0_iff)
  ultimately show ?thesis using assms(2)
    by (simp add: user_byte_def translate_lookup page_byte_def pmm_phys_to_virt_def add.commute add.left_commute add.assoc)
qed

lemma user_byte_none: "lookup s r (vidx v) = 0 \<Longrightarrow> user_byte s r v = None"
  by (simp add: user_byte_def translate_lookup)

lemma page_offset: "unat (v AND 0xFFF :: u64) < 4096"
proof -
  have "(0xFFF :: u64) = mask 12" by (simp add: mask_eq_exp_minus_1)
  then show ?thesis using unat_and_mask [of v 12] by simp
qed

text \<open>The bits of an entry that say what a program may do with the page.\<close>

definition rights :: "u64 \<Rightarrow> u64" where
  "rights e = e AND (VMM_USER OR VMM_WRITE OR VMM_NX)"

lemma one_bits:
  "e AND 4 = (if bit e 2 then 4 else 0)" "e AND 2 = (if bit e 1 then 2 else 0)"
  "e AND 0x8000000000000000 = (if bit e 63 then 0x8000000000000000 else 0)" for e :: u64
  using and_bit [of e 2] and_bit [of e 1] and_bit [of e 63] by simp_all

lemma flags_keep_rights:
  assumes "x \<in> {VMM_USER, VMM_WRITE, VMM_NX}"
  shows "make_pte_flags (fork_flags e) AND x = e AND x"
  by (cases "bit e 2"; cases "bit e 1"; cases "bit e 63";
      use assms in \<open>unfold make_pte_flags_def fork_flags_def VMM_USER_def VMM_WRITE_def VMM_NX_def one_bits\<close>;
      auto simp: one_bits [of e] bit.conj_disj_distrib2 VMM_UNCACHE_def PTE_P_def PTE_RW_def PTE_US_def PTE_NX_def)

lemma copied_rights:
  assumes "copied s0 s lv e e'"
  shows "rights e' = rights e"
proof -
  obtain f where e': "e' = f OR make_pte_flags (fork_flags e)" and f: "table_page f" using assms unfolding copied_def by blast
  have "f AND PTE_ADDR = f" by (rule table_page_addr [OF f])
  then have a: "f AND x = f AND (PTE_ADDR AND x)" for x by (metis and.assoc)
  have z: "f AND VMM_USER = 0" "f AND VMM_WRITE = 0" "f AND VMM_NX = 0"
    by (subst a, simp add: PTE_ADDR_def VMM_USER_def VMM_WRITE_def VMM_NX_def)+
  show ?thesis
    by (simp add: e' rights_def bit.conj_disj_distrib bit.conj_disj_distrib2 z flags_keep_rights)
qed

text \<open>The state in front of the four loops.\<close>

lemma fork_begins:
  assumes inv: "pt_inv (v_pmm s) lv" and K: "g_kernel_cr3 s \<noteq> 0" "lv (g_kernel_cr3 s) = Some 4" and src: "lv src = Some 4"
    and f: "src_frames (v_pmm s) lv src" and c: "vmm_create_user_pagemap s = (dst, s1)" "dst \<noteq> 0"
  defines "lv0 \<equiv> lv(dst \<mapsto> 4)"
  shows "fork_start (v_pmm s1) lv0 src dst" "cinv (v_pmm s1) lv0 src dst {} (v_pmm s1) lv0"
    "quad q \<Longrightarrow> lookup (v_pmm s1) src q = lookup (v_pmm s) src q"
    "table_page g \<Longrightarrow> g \<notin> avail_pages (v_pmm s) \<Longrightarrow> lv g = None \<Longrightarrow> unat i < 4096 \<Longrightarrow>
       page_byte (v_pmm s1) g i = page_byte (v_pmm s) g i"
proof -
  note R = create_root [OF inv K c, folded lv0_def] and G = growsD [OF create_root(3) [OF inv K c], folded lv0_def]
  have look: "lookup (v_pmm s1) src q = lookup (v_pmm s) src q" if "quad q" for q
    by (rule lookup_cong [OF inv R(4)]) (use that src in \<open>simp_all add: quad_def\<close>)
  then show "quad q \<Longrightarrow> lookup (v_pmm s1) src q = lookup (v_pmm s) src q" .
  have dom: "dom lv0 \<subseteq> dom lv \<union> avail_pages (v_pmm s)" by (rule G(4))
  have "src_frames (v_pmm s1) lv0 src"
    unfolding src_frames_def
  proof (intro allI impI)
    fix q
    assume q: "quad q \<and> lookup (v_pmm s1) src q \<noteq> 0"
    then have e: "quad q" "lookup (v_pmm s1) src q = lookup (v_pmm s) src q" "lookup (v_pmm s) src q \<noteq> 0" using look by auto
    note F = src_framesD [OF f e(1,3)]
    show "table_page (lookup (v_pmm s1) src q AND PTE_ADDR) \<and> lookup (v_pmm s1) src q AND PTE_ADDR \<notin> avail_pages (v_pmm s1)
      \<and> lv0 (lookup (v_pmm s1) src q AND PTE_ADDR) = None"
      unfolding e(2) using F G(2) dom by blast
  qed
  moreover have "src \<noteq> dst" using src R(2) by auto
  ultimately show st: "fork_start (v_pmm s1) lv0 src dst"
    unfolding fork_start_def using R(1) src by (simp add: lv0_def)
  have "lookup (v_pmm s1) dst q = 0" if "quad q" for q
    by (rule lookup_empty_root [OF _ that]) (use R(5) in \<open>simp add: ent_def present_def\<close>)
  then show "cinv (v_pmm s1) lv0 src dst {} (v_pmm s1) lv0"
    unfolding cinv_def using R(1) by auto
  show "table_page g \<Longrightarrow> g \<notin> avail_pages (v_pmm s) \<Longrightarrow> lv g = None \<Longrightarrow> unat i < 4096 \<Longrightarrow>
       page_byte (v_pmm s1) g i = page_byte (v_pmm s) g i"
    by (rule page_byte_same [OF _ _ G(1), of g i "dom lv0"]) (use G(5) pt_invD(2) [OF R(1)] dom in blast)+
qed

definition frame_of :: "pmm \<Rightarrow> u64 \<Rightarrow> u64 \<Rightarrow> u64" where
  "frame_of s r v = lookup s r (vidx v) AND PTE_ADDR"

text \<open>What holds of the copy when the loops are through.\<close>

lemma clone_finished:
  assumes st: "fork_start s0 lv0 src dst" and C: "cinv s0 lv0 src dst {q. quad q} s lv" and v: "idx_pml4 v < 256"
  shows "user_byte s src v = user_byte s0 src v" "user_byte s dst v = user_byte s0 src v"
    "rights (lookup s dst (vidx v)) = rights (lookup s0 src (vidx v))"
    "lookup s dst (vidx v) \<noteq> 0 \<Longrightarrow> frame_of s dst v \<in> avail_pages s0 - avail_pages s"
    "lookup s dst (vidx v) = 0 \<longleftrightarrow> lookup s0 src (vidx v) = 0"
proof -
  note q = quad_vidx [OF v] and D = cinvD [OF C]
  let ?e = "lookup s0 src (vidx v)" and ?e' = "lookup s dst (vidx v)"
  have src: "lookup s src (vidx v) = ?e" by (rule D(8) [OF q])
  have "user_byte s src v = user_byte s0 src v \<and> user_byte s dst v = user_byte s0 src v \<and> rights ?e' = rights ?e
    \<and> (?e' \<noteq> 0 \<longrightarrow> frame_of s dst v \<in> avail_pages s0 - avail_pages s) \<and> (?e' = 0 \<longleftrightarrow> ?e = 0)"
  proof (cases "?e = 0")
    case True
    then have "?e' = 0" using D(10) [OF q] by blast
    then show ?thesis using True src by (simp add: user_byte_none)
  next
    case False
    have c: "copied s0 s lv ?e ?e'" using D(9) [OF q _ False] q by simp
    then have c': "?e' \<noteq> 0" "table_page (?e' AND PTE_ADDR)" "?e' AND PTE_ADDR \<in> avail_pages s0" "?e' AND PTE_ADDR \<notin> avail_pages s"
        "\<And>i. unat i < 4096 \<Longrightarrow> page_byte s (?e' AND PTE_ADDR) i = page_byte s0 (?e AND PTE_ADDR) i"
      unfolding copied_def by auto
    note F = src_framesD [OF fork_startD(2) [OF st] q False]
    have "table_page t" if "t \<in> dom lv0 \<union> avail_pages s0" for t
      using that pt_invD(2) [OF fork_startD(1) [OF st]] avail_table_page [OF pt_invD(1) [OF fork_startD(1) [OF st]]] by blast
    then have p: "page_byte s (?e AND PTE_ADDR) (v AND 0xFFF) = page_byte s0 (?e AND PTE_ADDR) (v AND 0xFFF)"
      using F(2,3) D(6) by (intro page_byte_same [OF F(1) page_offset D(3), of "dom lv0 \<union> avail_pages s0"]) blast+
    have "user_byte s0 src v = Some (page_byte s0 (?e AND PTE_ADDR) (v AND 0xFFF))" by (rule user_byte_page [OF F(1) False])
    moreover have "user_byte s src v = Some (page_byte s0 (?e AND PTE_ADDR) (v AND 0xFFF))"
      using user_byte_page [of s src v] F(1) False p src by simp
    moreover have "user_byte s dst v = Some (page_byte s0 (?e AND PTE_ADDR) (v AND 0xFFF))"
      using user_byte_page [OF c'(2,1)] c'(5) [OF page_offset] by simp
    ultimately show ?thesis using c' copied_rights [OF c] False by (simp add: frame_of_def)
  qed
  then show "user_byte s src v = user_byte s0 src v" "user_byte s dst v = user_byte s0 src v" "rights ?e' = rights ?e"
    "?e' \<noteq> 0 \<Longrightarrow> frame_of s dst v \<in> avail_pages s0 - avail_pages s" "?e' = 0 \<longleftrightarrow> ?e = 0"
    by blast+
qed

lemma clone_pagemap_succeeds:
  assumes "pt_inv (v_pmm s) lv" "g_kernel_cr3 s \<noteq> 0" "lv (g_kernel_cr3 s) = Some 4" "lv src = Some 4" "src_frames (v_pmm s) lv src"
    and "room (v_pmm s) (1 + 4 * card (mapped (v_pmm s) src))"
  shows "fst (clone_pagemap src s) \<noteq> 0"
proof -
  obtain r s1 where c: "vmm_create_user_pagemap s = (r, s1)" by (rule prod.exhaust)
  let ?n = "4 * card (mapped (v_pmm s) src)"
  have "avail_pages (v_pmm s) \<noteq> {}" using assms(6) by (auto simp: room_def)
  then have a: "fst (pmm_alloc_page (v_pmm s)) \<noteq> 0" using pages.alloc_succeeds_iff [OF pt_invD(1) [OF assms(1)]] by simp
  then have r: "r \<noteq> 0" using c assms(2) by (auto simp: vmm_create_user_pagemap_def Let_def case_prod_beta)
  note B = fork_begins [OF assms(1-5) c r]
  have "mapped (v_pmm s1) src = mapped (v_pmm s) src" using B(3) by (auto simp: mapped_def)
  moreover have "room (v_pmm s1) ?n"
    by (rule room_take [OF _ create_root(6) [OF assms(1-3) c r]]) (use assms(6) in simp)
  ultimately have "cloned True (v_pmm s1) (lv(r \<mapsto> 4)) src r {} (v_pmm s1)" using B(2) unfolding cloned_def by auto
  from clone_pml4_copies [OF B(1) this] have "fst (clone_pml4 r src (v_pmm s1))" unfolding clones_def by blast
  then show ?thesis using r by (simp add: clone_pagemap_def c case_prod_beta Let_def)
qed

text \<open>A machine whose only process has one page, at \<open>0x400000\<close>.\<close>

definition demo_parent :: vmm where
  "demo_parent = demo_vmm\<lparr>v_pmm := snd (vmm_map_page_into 0x1000000 0x400000 (fst (pmm_alloc_page demo_pmm)) (VMM_USER OR VMM_WRITE)
     (snd (pmm_alloc_page demo_pmm)))\<rparr>"

lemma demo_parent_ok:
  obtains lv where "pt_inv (v_pmm demo_parent) lv" "lv 0x1000000 = Some 4" "src_frames (v_pmm demo_parent) lv 0x1000000"
    "mapped (v_pmm demo_parent) 0x1000000 = {vidx 0x400000}" "room (v_pmm demo_parent) 5"
proof -
  obtain f p1 where al: "pmm_alloc_page demo_pmm = (f, p1)" by (rule prod.exhaust)
  note inv = demo_pmm_ok(1)
  have "avail_pages demo_pmm \<noteq> {}" using demo_pmm_ok(2) by (auto simp: room_def)
  then have f0: "f \<noteq> 0" using pages.alloc_succeeds_iff [OF pt_invD(1) [OF inv]] al by simp
  note A = alloc_table_page [OF pt_invD(1) [OF inv] al f0] and inv1 = pt_inv_alloc [OF inv al f0]
  let ?r = "0x1000000 :: u64" and ?fl = "VMM_USER OR VMM_WRITE"
  have r: "[?r \<mapsto> 4] ?r = Some 4" by simp
  have "room p1 8" by (rule room_take [OF _ A(3)]) (use demo_pmm_ok(4) in simp)
  then have "room p1 (5 + 3)" by simp
  from map_into_room [OF inv1 r this] obtain p2 where m: "vmm_map_page_into ?r 0x400000 f ?fl p1 = (True, p2)" "room p2 5" by blast
  obtain lv' where M: "pt_inv p2 lv'" "grows p1 [?r \<mapsto> 4] p2 lv'"
      "\<And>is. length is = 4 \<Longrightarrow> \<forall>i \<in> set is. i < 512 \<Longrightarrow>
         lookup p2 ?r is = (if is = vidx 0x400000 then (f AND PTE_ADDR) OR make_pte_flags ?fl else lookup p1 ?r is)"
    by (rule map_into_lookups [OF inv1 r m(1)]) blast
  note G = growsD [OF M(2)]
  have s: "v_pmm demo_parent = p2" by (simp add: demo_parent_def al m(1))
  have zero: "lookup p1 ?r q = 0" if "quad q" for q
    by (rule lookup_empty_root [OF _ that]) (use demo_pmm_ok(5) rd_alloc [OF al] in \<open>simp add: ent_def present_def\<close>)
  let ?e = "f OR make_pte_flags ?fl"
  have e: "?e AND PTE_ADDR = f" "?e \<noteq> 0"
    using leaf_entry [of f ?fl] table_page_addr [OF A(1)] present_nonzero by simp_all
  have look: "lookup p2 ?r q = (if q = vidx 0x400000 then ?e else 0)" if "quad q" for q
    using M(3) [of q] zero [OF that] that table_page_addr [OF A(1)] by (simp add: quad_def)
  have "quad (vidx 0x400000)" by (rule quad_vidx) (simp add: idx_pml4_def)
  then have map: "mapped p2 ?r = {vidx 0x400000}" using look e(2) by (auto simp: mapped_def split: if_splits)
  have "f \<notin> avail_pages p2" "f \<notin> dom lv'" using A(2,3) G(2,4) pt_invD(3) [OF inv, of f 4] by (auto split: if_splits)
  then have "src_frames p2 lv' ?r" unfolding src_frames_def using look e A(1) by (auto split: if_splits)
  moreover have "lv' ?r = Some 4" using G(3) by (auto simp: map_le_def)
  ultimately show thesis using that [of lv'] M(1) map m(2) unfolding s by blast
qed

text \<open>
  Claim C7. A process that forks: when \<open>clone_pagemap\<close> returns an address space, the tables are again a forest,
  every user address reads in the parent what it read before and in the child the same, with the same
  permissions for write, execution and user access; every frame of the child was free before and is in
  use now, so none belongs to the parent or to another page of the child.
\<close>

theorem fork_copies_memory:
  assumes "pt_inv (v_pmm s) lv" "g_kernel_cr3 s \<noteq> 0" "lv (g_kernel_cr3 s) = Some 4" "lv src = Some 4" "src_frames (v_pmm s) lv src"
    and "clone_pagemap src s = (dst, s')" "dst \<noteq> 0"
  shows "(\<exists>lv'. pt_inv (v_pmm s') lv' \<and> lv \<subseteq>\<^sub>m lv' \<and> lv dst = None \<and> lv' dst = Some 4)
    \<and> (\<forall>v. idx_pml4 v < 256 \<longrightarrow> user_byte (v_pmm s') src v = user_byte (v_pmm s) src v
         \<and> user_byte (v_pmm s') dst v = user_byte (v_pmm s) src v
         \<and> rights (lookup (v_pmm s') dst (vidx v)) = rights (lookup (v_pmm s) src (vidx v))
         \<and> (user_byte (v_pmm s') dst v \<noteq> None \<longrightarrow> frame_of (v_pmm s') dst v \<in> avail_pages (v_pmm s) - avail_pages (v_pmm s')))
    \<and> (\<forall>v w. idx_pml4 v < 256 \<and> idx_pml4 w < 256 \<and> user_byte (v_pmm s') dst v \<noteq> None \<and> user_byte (v_pmm s') dst w \<noteq> None
         \<and> frame_of (v_pmm s') dst v = frame_of (v_pmm s') dst w \<longrightarrow> vidx v = vidx w)"
proof -
  obtain r s1 where c: "vmm_create_user_pagemap s = (r, s1)" by (rule prod.exhaust)
  obtain ok p where m: "clone_pml4 r src (v_pmm s1) = (ok, p)" by (rule prod.exhaust)
  have r: "r \<noteq> 0" using assms(6,7) by (cases "r = 0") (simp_all add: clone_pagemap_def c)
  have ok: "ok" using assms(6,7) r by (cases ok) (simp_all add: clone_pagemap_def c m)
  have res: "r = dst" "v_pmm s' = p" using assms(6) r ok by (auto simp: clone_pagemap_def c m)
  note B = fork_begins [OF assms(1-5) c r] and R = create_root [OF assms(1-3) c r]
  have "cloned False (v_pmm s1) (lv(r \<mapsto> 4)) src r {} (v_pmm s1)" using B(2) unfolding cloned_def by blast
  from clone_pml4_copies [OF B(1) this] obtain lv' where C: "cinv (v_pmm s1) (lv(r \<mapsto> 4)) src r {q. quad q} p lv'"
    using ok unfolding m clones_def cloned_def by auto
  note F = clone_finished [OF B(1) C] and D = cinvD [OF C]
  have first: "user_byte (v_pmm s1) src v = user_byte (v_pmm s) src v" if "idx_pml4 v < 256" for v
  proof -
    note q = quad_vidx [OF that]
    show ?thesis
    proof (cases "lookup (v_pmm s) src (vidx v) = 0")
      case True
      then show ?thesis using B(3) [OF q] by (simp add: user_byte_none)
    next
      case False
      note S = src_framesD [OF assms(5) q False]
      show ?thesis
        using user_byte_page [OF S(1) False] user_byte_page [of "v_pmm s1" src v] B(3) [OF q] S(1) False B(4) [OF S page_offset] by simp
    qed
  qed
  have some: "lookup p r (vidx v) \<noteq> 0" if "user_byte p r v \<noteq> None" for v
    using that user_byte_none [of p r v] by auto
  have "\<exists>lv'. pt_inv p lv' \<and> lv \<subseteq>\<^sub>m lv' \<and> lv r = None \<and> lv' r = Some 4"
    using D(1,2) R(2) map_le_trans [OF _ D(2), of lv] by (intro exI [of _ lv']) (auto simp: map_le_def dom_def)
  moreover have "user_byte p src v = user_byte (v_pmm s) src v \<and> user_byte p r v = user_byte (v_pmm s) src v
      \<and> rights (lookup p r (vidx v)) = rights (lookup (v_pmm s) src (vidx v))
      \<and> (user_byte p r v \<noteq> None \<longrightarrow> frame_of p r v \<in> avail_pages (v_pmm s) - avail_pages p)" if "idx_pml4 v < 256" for v
    using F(1-4) [OF that] first [OF that] B(3) [OF quad_vidx [OF that]] some [of v] growsD(2) [OF R(3)] by auto
  moreover have "vidx v = vidx w"
    if "idx_pml4 v < 256" "idx_pml4 w < 256" "user_byte p r v \<noteq> None" "user_byte p r w \<noteq> None" "frame_of p r v = frame_of p r w" for v w
    using D(11) [OF quad_vidx [OF that(1)] quad_vidx [OF that(2)]] some [OF that(3)] some [OF that(4)] that(5) unfolding frame_of_def by blast
  ultimately show ?thesis unfolding res(1) [symmetric] res(2) by blast
qed

theorem fork_copies_memory_witness:
  "user_byte (v_pmm demo_parent) 0x1000000 0x400123 \<noteq> None
   \<and> user_byte (v_pmm (snd (clone_pagemap 0x1000000 demo_parent))) (fst (clone_pagemap 0x1000000 demo_parent)) 0x400123
     = user_byte (v_pmm demo_parent) 0x1000000 0x400123"
proof -
  obtain lv where P: "pt_inv (v_pmm demo_parent) lv" "lv 0x1000000 = Some 4" "src_frames (v_pmm demo_parent) lv 0x1000000"
    "mapped (v_pmm demo_parent) 0x1000000 = {vidx 0x400000}" "room (v_pmm demo_parent) 5" by (rule demo_parent_ok)
  have k: "g_kernel_cr3 demo_parent = 0x1000000" by (simp add: demo_parent_def demo_vmm_def)
  have k': "g_kernel_cr3 demo_parent \<noteq> 0" "lv (g_kernel_cr3 demo_parent) = Some 4" using P(2) by (simp_all add: k)
  have n: "fst (clone_pagemap 0x1000000 demo_parent) \<noteq> 0"
    by (rule clone_pagemap_succeeds [OF P(1) k' P(2,3)]) (use P(4,5) in simp)
  have v: "idx_pml4 0x400123 < 256" "vidx 0x400123 = vidx 0x400000"
    by (simp_all add: vidx_def idx_pml4_def idx_pdpt_def idx_pd_def idx_pt_def)
  have "vidx 0x400123 \<in> mapped (v_pmm demo_parent) 0x1000000" using P(4) v(2) by simp
  then have e: "quad (vidx 0x400123)" "lookup (v_pmm demo_parent) 0x1000000 (vidx 0x400123) \<noteq> 0" unfolding mapped_def by blast+
  have "user_byte (v_pmm demo_parent) 0x1000000 0x400123 \<noteq> None"
    using user_byte_page [OF src_framesD(1) [OF P(3) e] e(2)] by simp
  moreover note fork_copies_memory [OF P(1) k' P(2,3) prod.collapse [symmetric] n]
  ultimately show ?thesis using v(1) by blast
qed

text \<open>
  Claim C20. Forking cannot fail for want of memory while one free page and four for every page of the
  parent are left.
\<close>

theorem fork_succeeds:
  assumes "pt_inv (v_pmm s) lv" "g_kernel_cr3 s \<noteq> 0" "lv (g_kernel_cr3 s) = Some 4" "lv src = Some 4" "src_frames (v_pmm s) lv src"
    and "room (v_pmm s) (1 + 4 * card (mapped (v_pmm s) src))"
  shows "fst (clone_pagemap src s) \<noteq> 0"
  using assms by (rule clone_pagemap_succeeds)

theorem fork_succeeds_witness: "fst (clone_pagemap 0x1000000 demo_parent) \<noteq> 0"
proof -
  obtain lv where P: "pt_inv (v_pmm demo_parent) lv" "lv 0x1000000 = Some 4" "src_frames (v_pmm demo_parent) lv 0x1000000"
    "mapped (v_pmm demo_parent) 0x1000000 = {vidx 0x400000}" "room (v_pmm demo_parent) 5" by (rule demo_parent_ok)
  have "g_kernel_cr3 demo_parent = 0x1000000" by (simp add: demo_parent_def demo_vmm_def)
  then have k: "g_kernel_cr3 demo_parent \<noteq> 0" "lv (g_kernel_cr3 demo_parent) = Some 4" using P(2) by simp_all
  show ?thesis by (rule fork_succeeds [OF P(1) k P(2,3)]) (use P(4,5) in simp)
qed

end
