(* ===== verification/Spec2Isabelle.thy ===== *)
theory Spec2Isabelle
  imports Heap Timer Netstack Syscall_Props Keyboard_Props Fork_Props
begin

text \<open>
  FiFi OS, the kernel components.

  FiFi OS is a hobby operating system for one x86-64 processor, written in C
  (\<open>src/kernel/src\<close>, headers in \<open>src/kernel/include\<close>): cooperative kernel threads with preemption of
  user programs, paging, a kernel heap, files in memory, on the initial RAM disk and on an ext2
  disk, timers, a small network stack, and system calls with descriptors, pipes and signals. This development models the parts that keep the
  kernel's own data structures and proves what makes them correct. The parts call each other as
  the theories import each other:

  \<^item> \<open>Prelude\<close>: C integers as words, byte strings, 64-bit loads and stores, alignment masks, the
    search for the first matching slot of a table. \<open>Alloc_Interface\<close>: the locale \<open>allocator\<close>, what a
    client may rely on, and what follows from it alone (items handed out are distinct, giving an
    item back restores the set of free ones).
  \<^item> \<open>Pmm\<close>, \<open>pmm.c\<close>: the page allocator, its free list threaded through the free pages, its bump
    cursor and the zone below 4 GiB. Shown: the list, the cursor and the pages in use are disjoint
    in every state the calls reach, the counter is exact; it provides \<open>allocator\<close>.
  \<^item> \<open>Vmm\<close>, \<open>vmm.c\<close>: four-level page tables in the memory of \<open>Pmm\<close>. Tables form a forest, and under
    that invariant mapping and unmapping a page change the translation of that page alone, a new
    address space has the kernel's half, and the check of user pointers accepts exactly the ranges
    the processor would let a user program access.
  \<^item> \<open>Heap\<close>, \<open>heap.c\<close>: the kernel heap over \<open>Pmm\<close> and \<open>Vmm\<close>, with its free list, its bump page and
    its large blocks. Live blocks never overlap, an allocation is zeroed and large enough, the
    search of the list ends. Whether a fresh page can be mapped is an argument.
  \<^item> \<open>Workqueue\<close> and \<open>Timer\<close>, \<open>workqueue.c\<close> and \<open>timer.c\<close>: a ring of deferred calls and one-shot timers
    that feed it. Every accepted call runs exactly once and in order; a due timer fires once. The
    ring is the interface \<open>bounded_fifo\<close>.
  \<^item> \<open>Thread\<close>, \<open>Sched\<close> and \<open>Process\<close>, \<open>thread.c\<close>: the table of 32 threads, the scheduler with its
    priorities and ageing, creation, exit, waiting and collection of children, signals, sleeping.
    \<open>Thread\<close> holds the model, \<open>Sched\<close> the invariant of the table over every run, \<open>Process\<close> what single
    operations do.
  \<^item> \<open>Ramfs\<close>, \<open>ramfs.c\<close>: eight files in memory, the interface \<open>file_store\<close>. \<open>Initrd\<close>, \<open>initrd.c\<close> and the
    archive writer \<open>tools/mkcpio.py\<close>: every file that the build packs is found after boot with its
    contents, and no archive makes the index leave its bounds.
  \<^item> \<open>Ext2\<close>, \<open>Ext2_Alloc\<close>, \<open>Ext2_File\<close>, \<open>Ext2_Tree\<close>, \<open>Ext2_Demo\<close>, \<open>Ext2_Props\<close>: \<open>ext2.c\<close> over the block
    device of \<open>virtio_blk.c\<close>. \<open>Ext2\<close> is the whole driver, mount, lookup, read, write, directories and
    deletion included. \<open>Ext2_Alloc\<close> shows that both bitmap allocators implement an abstract allocator
    over a set of slots and keep the free counts exact; \<open>Ext2_File\<close> that inodes read back and that
    the write loops leave blocks that represent the data; \<open>Ext2_Tree\<close> that overwriting a file
    changes neither the directory tree nor any other file. \<open>Ext2_Demo\<close> is a small volume on which
    the hypotheses hold, \<open>Ext2_Props\<close> states the results.
  \<^item> \<open>Vfs\<close>, \<open>vfs.c\<close>: the three file layers as one name space: what is written is read back where no
    layer hides the disk, a listing has every name once, and two ways in which files are lost or
    hidden.
  \<^item> \<open>Netbase\<close>, \<open>Netstate\<close>, \<open>Inet\<close>, \<open>Tcp\<close>, \<open>Udp\<close>, \<open>Netstack\<close>: \<open>net.c\<close>, \<open>arp.c\<close>, \<open>ip.c\<close>, \<open>tcp.c\<close>, \<open>udp.c\<close>,
    \<open>dns.c\<close> and \<open>dhcp.c\<close>. Byte order and the Internet checksum; the state of the stack as one record;
    framing, address resolution and echo; the TCP client, whose reader sees a prefix of the peer's
    stream whatever arrives; datagrams, name resolution and configuration, whose parsers stay in
    bounds; and the dispatch and the blocking calls, which return when the clock advances.
  \<^item> \<open>Stream_Interface\<close>, \<open>Pipe\<close>, \<open>Path\<close>, \<open>Usercopy\<close>, \<open>Fd\<close>, \<open>Fd_Props\<close>, \<open>Syscall\<close>, \<open>Syscall_Props\<close>:
    \<open>syscall.c\<close>. \<open>byte_stream\<close> is the interface of a ring of bytes, which the pipes and the receive
    buffer of the TCP client provide. \<open>Pipe\<close> shows that a pipe is a queue, \<open>Path\<close> that resolving a
    path is what a stack of components says, \<open>Usercopy\<close> that the kernel moves data only from and to
    memory the program may access. \<open>Fd\<close> is the table of open files over \<open>Pipe\<close> and \<open>Vfs\<close>, \<open>Fd_Props\<close> its
    invariant, inheritance on fork and what duplication does. \<open>Syscall\<close> puts scheduler, page tables
    and open files together: every system call but three as a function of the trap frame, and the
    delivery of signals. \<open>Syscall_Props\<close> shows the invariant of the table over every interleaving of
    calls, that a buffer written to a pipe arrives in the memory of the reader, what exit closes,
    and what a pending signal does.
  \<^item> \<open>Keyboard\<close>, \<open>Keyboard_Props\<close>: \<open>keyboard.c\<close>, the decoder of scancodes, its two rings, which provide
    \<open>bounded_fifo\<close> as the work queue does, and the repeat of held keys. What is typed arrives, every
    index stays in its array, and a key whose release is lost repeats at most 85 times.
  \<^item> \<open>Fork\<close>, \<open>Fork_Props\<close>: \<open>fork.c\<close> over \<open>Vmm\<close> and \<open>Thread\<close>. The four loops over the tables of the parent
    keep the invariant \<open>cinv\<close>, what is copied so far; at the end the child reads what the parent reads,
    from frames of its own, and with enough free pages the copy is made.

  How the code is rendered. Static variables of a file are the fields of a record that its
  functions take and return; a pointer result that may be null is an option or 0, as in the code; an
  error return is the value the code returns. Integers keep their width where the code could
  wrap. A loop over a table or a buffer is a recursive function with a termination proof or a
  search over the list of indices it visits. Memory that several components share (page tables,
  free lists) is a function from addresses to bytes, and disjointness is proved, not assumed.

  What stands outside. The processor, the interrupt controller and the devices are not described
  in the repository: the tick counter is a field that the environment advances, the network card
  is a list of received frames and a list of sent ones, the disk is its contents and the set of
  sectors at which a request fails, and \<open>kmalloc\<close> is an argument where a component calls it and
  the answer matters. What happens outside while a blocking call polls is the argument \<open>env\<close>; the
  theorems on such calls assume that it advances the clock. Switching stacks is modelled as
  saving and loading the saved registers of a thread. A system call that waits is modelled round by
  round, so that calls of other threads may come between; strings behind pointers of the kernel and
  the date of the build are arguments (\<open>kstring\<close>, \<open>build\<close>) of the calls that use them.

  Bounds. No fuel is used: every loop of the model ends by a measure, or returns \<open>None\<close> where the
  code could spin, and then the theorem shows that it does return. The theorems on the file
  system assume a healthy device; the model itself allows every request to fail. The volume in
  \<open>Ext2_Demo\<close> and the other sample states show that the hypotheses can hold.

  Not modelled. The desktop (\<open>gui.c\<close>), the console, the shell and kernel printing draw and print; the
  register-level drivers (\<open>xhci.c\<close>, \<open>acpi.c\<close>, \<open>i2c_hid.c\<close>, \<open>rtl8168.c\<close>, \<open>virtio_net.c\<close>, \<open>hda.c\<close>, \<open>pci.c\<close>, the
  virtqueue of \<open>virtio_blk.c\<close>) and the processor tables (\<open>gdt.c\<close>, \<open>pic.c\<close>, \<open>pit.c\<close>, \<open>idt\<close>) are hardware;
  \<open>main.c\<close> is the boot order; the user programs run on the kernel. The program loader (\<open>elf.c\<close>,
  \<open>exec.c\<close>) with its call \<open>SYS_EXEC\<close>, the HTTP client, the clock chip and the set-up of the keyboard
  controller are not modelled. \<open>SYS_FORK\<close> and \<open>SYS_GETCHAR\<close> are not cases of the switch in \<open>Syscall\<close>: what
  they call is in \<open>Fork\<close>, \<open>Fd\<close> and \<open>Keyboard\<close>. Creation and deletion of ext2 files are modelled and not
  covered by theorems.
\<close>

end
